(* ===== verification/Prelude.thy ===== *)
theory Prelude
  imports Main "HOL-Library.Monad_Syntax" "HOL-Library.Multiset"
begin

text \<open>
  The prelude of the development: the collections of simplification rules the component
  theories share, the array routines that the pages of the B+ tree run on their slots (the
  \<^verbatim>\<open>swap\<close> loops of \<^verbatim>\<open>b_plus_tree_leaf_page.cpp\<close> and \<^verbatim>\<open>b_plus_tree_internal_page.cpp\<close>), and
  the ordered association lists that are the reference semantics of every index.

  A page of the source has a fixed number of slots, of which the first \<^verbatim>\<open>size_\<close> are live.
  The models keep the live prefix as a list, so that \<^verbatim>\<open>GetSize()\<close> is its length.
\<close>

section \<open>Collections\<close>

named_theorems page_simps \<open>unfolding of the page accessors\<close>
named_theorems array_simps \<open>closed forms of the array loops\<close>
named_theorems store_simps \<open>reads of an updated page store\<close>
named_theorems pin_simps \<open>pin counts after a tree operation\<close>

section \<open>Options\<close>

lemma bind_eq_SomeD:
  "Option.bind m f = Some y \<Longrightarrow> \<exists>x. m = Some x \<and> f x = Some y"
  by (cases m) auto

lemma bind_Some_iff: "Option.bind m f = Some y \<longleftrightarrow> (\<exists>x. m = Some x \<and> f x = Some y)"
  by (cases m) auto

section \<open>Array loops\<close>

text \<open>\<^verbatim>\<open>array[i]\<close> for an index that may lie outside the live slots.\<close>

definition slot :: "'a list \<Rightarrow> int \<Rightarrow> 'a option" where
  "slot xs i = (if 0 \<le> i \<and> i < int (length xs) then Some (xs ! nat i) else None)"

lemma slot_nat [simp]: "slot xs (int i) = (if i < length xs then Some (xs ! i) else None)"
  by (simp add: slot_def)

lemma slot_append_mid [simp]: "i = int (length xs) \<Longrightarrow> slot (xs @ x # ys) i = Some x"
  by (simp add: slot_def nth_append)

lemma slot_Cons_0 [simp]: "slot (x # xs) 0 = Some x"
  by (simp add: slot_def)

lemma slot_out [simp]: "int (length xs) \<le> i \<Longrightarrow> slot xs i = None" "i < 0 \<Longrightarrow> slot xs i = None"
  by (simp_all add: slot_def)

text \<open>\<^verbatim>\<open>std::swap(array[i], array[j])\<close>.\<close>

definition swap_slots :: "'a list \<Rightarrow> nat \<Rightarrow> nat \<Rightarrow> 'a list" where
  "swap_slots xs i j = xs[i := xs ! j, j := xs ! i]"

text \<open>
  \<^verbatim>\<open>for (i = hi; i > lo; --i) swap(array[i], array[i - 1]);\<close>
\<close>

fun swap_down :: "'a list \<Rightarrow> nat \<Rightarrow> nat \<Rightarrow> 'a list" where
  "swap_down xs 0 lo = xs"
| "swap_down xs (Suc i) lo =
     (if lo < Suc i then swap_down (swap_slots xs (Suc i) i) i lo else xs)"

text \<open>
  \<^verbatim>\<open>for (i = lo + 1; i < size; ++i) swap(array[i - 1], array[i]);\<close>
\<close>

function swap_up :: "'a list \<Rightarrow> nat \<Rightarrow> 'a list" where
  "swap_up xs i = (if i < length xs then swap_up (swap_slots xs (i - 1) i) (Suc i) else xs)"
  by pat_completeness auto
termination
  by (relation "measure (\<lambda>(xs, i). length xs - i)") (auto simp: swap_slots_def)

declare swap_up.simps [simp del]

text \<open>
  The two array routines of the pages. Opening a slot makes slot \<^verbatim>\<open>size_\<close> live (what it
  held is overwritten before it is read), shifts with \<^const>\<open>swap_down\<close> and stores the pair;
  closing a slot shifts with \<^const>\<open>swap_up\<close> and drops the last one.
\<close>

definition array_insert :: "'a list \<Rightarrow> nat \<Rightarrow> 'a \<Rightarrow> 'a list" where
  "array_insert xs i x = (swap_down (xs @ [x]) (length xs) i)[i := x]"

definition array_remove :: "'a list \<Rightarrow> nat \<Rightarrow> 'a list" where
  "array_remove xs i = butlast (swap_up xs (Suc i))"

lemma length_swap_slots [simp]: "length (swap_slots xs i j) = length xs"
  by (simp add: swap_slots_def)

lemma swap_slots_append:
  "length xs = i \<Longrightarrow> swap_slots (xs @ a # b # ys) (Suc i) i = xs @ b # a # ys"
  "length xs = i \<Longrightarrow> swap_slots (xs @ a # b # ys) i (Suc i) = xs @ b # a # ys"
  by (auto simp: swap_slots_def nth_append list_update_append)

lemma swap_down_append:
  "length xs = lo \<Longrightarrow> swap_down (xs @ ys @ x # zs) (lo + length ys) lo = xs @ x # ys @ zs"
proof (induction ys arbitrary: zs rule: rev_induct)
  case Nil
  then show ?case by (cases lo) auto
next
  case (snoc y ys)
  have "swap_slots (xs @ ys @ y # x # zs) (Suc (lo + length ys)) (lo + length ys)
      = xs @ ys @ x # y # zs"
    using snoc.prems swap_slots_append(1) [of "xs @ ys" "lo + length ys" y x zs] by simp
  then show ?case
    using snoc.IH [OF snoc.prems, of "y # zs"] by simp
qed

lemma swap_up_append:
  "swap_up (xs @ x # ys) (Suc (length xs)) = xs @ ys @ [x]"
proof (induction ys arbitrary: xs)
  case Nil
  then show ?case by (simp add: swap_up.simps)
next
  case (Cons y ys)
  have "swap_slots (xs @ x # y # ys) (length xs) (Suc (length xs)) = xs @ y # x # ys"
    by (rule swap_slots_append(2)) simp
  then show ?case
    using Cons.IH [of "xs @ [y]"] by (simp add: swap_up.simps [of "xs @ x # y # ys"])
qed

lemma array_insert_eq [array_simps]:
  assumes "i \<le> length xs"
  shows "array_insert xs i x = take i xs @ x # drop i xs"
proof -
  have "swap_down (take i xs @ drop i xs @ x # []) (i + length (drop i xs)) i
      = take i xs @ x # drop i xs @ []"
    using assms by (intro swap_down_append) simp
  moreover have "take i xs @ drop i xs @ [x] = xs @ [x]"
    by (simp flip: append_assoc)
  ultimately show ?thesis
    using assms by (simp add: array_insert_def list_update_append)
qed

lemma array_remove_eq [array_simps]:
  assumes "i < length xs"
  shows "array_remove xs i = take i xs @ drop (Suc i) xs"
proof -
  have "swap_up (take i xs @ xs ! i # drop (Suc i) xs) (Suc (length (take i xs)))
      = take i xs @ drop (Suc i) xs @ [xs ! i]"
    by (rule swap_up_append)
  then show ?thesis
    using assms by (simp add: array_remove_def butlast_append id_take_nth_drop [symmetric])
qed

lemma length_array_insert [simp]:
  "i \<le> length xs \<Longrightarrow> length (array_insert xs i x) = Suc (length xs)"
  by (simp add: array_simps)

lemma length_array_remove [simp]:
  "i < length xs \<Longrightarrow> length (array_remove xs i) = length xs - 1"
  by (simp add: array_simps)

end
