(* ===== verification/KeyTypes.thy ===== *)
theory KeyTypes
  imports Prelude
begin

text \<open>
  The keys of the indexes and their comparators (\<^verbatim>\<open>database/src/include/type\<close>), the contract
  that the B+ tree needs from a comparator (the locale \<open>key_comparator\<close>), the contract that a
  range scan needs from the second comparator it is given (the locale \<open>standby_comparator\<close>),
  and the ordered association lists that specify an index.

  A \<^verbatim>\<open>String<N>\<close> is a zeroed array of \<^verbatim>\<open>N\<close> bytes into which the text is copied; its value is
  the text up to the first zero byte. Copying a text of \<^verbatim>\<open>N\<close> or more bytes leaves no
  terminator (or writes past the array), so the constructor is partial in the model.
\<close>

section \<open>C strings\<close>

definition cstr :: "string \<Rightarrow> string" where
  "cstr s = takeWhile (\<lambda>c. c \<noteq> CHR 0x00) s"

text \<open>
  \<^verbatim>\<open>strcmp\<close> compares bytes as unsigned characters. The C standard fixes the sign of the
  result only; the model returns -1, 0 or 1.
\<close>

fun strcmp :: "string \<Rightarrow> string \<Rightarrow> int" where
  "strcmp [] [] = 0"
| "strcmp [] (b # bs) = -1"
| "strcmp (a # as) [] = 1"
| "strcmp (a # as) (b # bs) =
     (if (of_char a :: nat) < of_char b then -1
      else if (of_char a :: nat) > of_char b then 1
      else strcmp as bs)"

definition String_SetValue :: "nat \<Rightarrow> string \<Rightarrow> string option" where
  "String_SetValue n str = (if length str < n then Some (cstr str) else None)"

lemma strcmp_refl [simp]: "strcmp a a = 0"
  by (induction a) auto

lemma strcmp_eq_0_iff [simp]: "strcmp a b = 0 \<longleftrightarrow> a = b"
  by (induction a b rule: strcmp.induct) auto

lemma strcmp_swap: "strcmp a b + strcmp b a = 0"
  by (induction a b rule: strcmp.induct) auto

lemma strcmp_Cons_neg:
  "strcmp (a # as) (b # bs) < 0 \<longleftrightarrow>
     (of_char a :: nat) < of_char b \<or> (of_char a :: nat) = of_char b \<and> strcmp as bs < 0"
  by auto

lemma strcmp_trans: "strcmp a b < 0 \<Longrightarrow> strcmp b c < 0 \<Longrightarrow> strcmp a c < 0"
proof (induction a b arbitrary: c rule: strcmp.induct)
  case (2 b bs)
  then show ?case by (cases c) simp_all
next
  case (4 a as b bs)
  then obtain d ds where c: "c = d # ds"
    by (cases c) simp_all
  from 4(2) consider
    "(of_char a :: nat) < of_char b" | "(of_char a :: nat) = of_char b" "strcmp as bs < 0"
    unfolding strcmp_Cons_neg by blast
  then show ?case
  proof cases
    case 1
    then show ?thesis using 4(3) unfolding c strcmp_Cons_neg by linarith
  next
    case 2
    then show ?thesis using 4(3) 4(1) [of ds] unfolding c strcmp_Cons_neg by fastforce
  qed
qed simp_all

lemma strcmp_Nil_le: "strcmp [] s \<le> 0"
  by (cases s) auto

section \<open>Key types\<close>

type_synonym key_string = string

record string_any =
  data_str :: string
  data_t :: int

record dual_string =
  first_str :: string
  second_str :: string

record string_int_int =
  key_str :: string
  first_int :: int
  second_int :: int

definition StringAny_SetValue :: "nat \<Rightarrow> string \<Rightarrow> int \<Rightarrow> string_any option" where
  "StringAny_SetValue n str value =
     map_option (\<lambda>s. \<lparr>data_str = s, data_t = value\<rparr>) (String_SetValue n str)"

definition DualString_SetValue :: "nat \<Rightarrow> nat \<Rightarrow> string \<Rightarrow> string \<Rightarrow> dual_string option" where
  "DualString_SetValue n m str1 str2 =
     do { a \<leftarrow> String_SetValue n str1; b \<leftarrow> String_SetValue m str2;
          Some \<lparr>first_str = a, second_str = b\<rparr> }"

definition StringIntInt_SetValue ::
    "nat \<Rightarrow> string \<Rightarrow> int \<Rightarrow> int \<Rightarrow> string_int_int option" where
  "StringIntInt_SetValue n str i j =
     map_option (\<lambda>s. \<lparr>key_str = s, first_int = i, second_int = j\<rparr>)
       (String_SetValue n str)"

section \<open>Comparators\<close>

text \<open>\<^verbatim>\<open>CompareAnyWith\<close>, \<^verbatim>\<open>CompareFirstIntWith\<close> and \<^verbatim>\<open>CompareSecondIntWith\<close>.\<close>

definition int_compare :: "int \<Rightarrow> int \<Rightarrow> int" where
  "int_compare x y = (if x < y then -1 else if x = y then 0 else 1)"

definition StringComparator :: "key_string \<Rightarrow> key_string \<Rightarrow> int" where
  "StringComparator lhs rhs = strcmp lhs rhs"

definition StringAnyComparator :: "int \<Rightarrow> string_any \<Rightarrow> string_any \<Rightarrow> int" where
  "StringAnyComparator category lhs rhs =
     (let s = strcmp (data_str lhs) (data_str rhs);
          t = int_compare (data_t lhs) (data_t rhs)
      in if category = 1 then s
         else if category = 2 then t
         else if category = 3 then (if s = 0 then t else s)
         else if category = 4 then (if t = 0 then s else t)
         else 0)"

definition DualStringComparator :: "int \<Rightarrow> dual_string \<Rightarrow> dual_string \<Rightarrow> int" where
  "DualStringComparator type lhs rhs =
     (let first_result = strcmp (first_str lhs) (first_str rhs)
      in if type = 1 then first_result
         else if type = 2 then
           (if first_result \<noteq> 0 then first_result
            else strcmp (second_str lhs) (second_str rhs))
         else 0)"

definition StringIntIntComparator :: "int \<Rightarrow> string_int_int \<Rightarrow> string_int_int \<Rightarrow> int" where
  "StringIntIntComparator category lhs rhs =
     (let result = strcmp (key_str lhs) (key_str rhs);
          result1 = (if result = 0 then int_compare (first_int lhs) (first_int rhs) else result)
      in if category = 1 then result1
         else if category = 2 then
           (if result1 = 0 then int_compare (second_int lhs) (second_int rhs) else result1)
         else 0)"

lemma int_compare_eq_0 [simp]: "int_compare x y = 0 \<longleftrightarrow> x = y"
  by (simp add: int_compare_def)

lemma int_compare_neg [simp]: "int_compare x y < 0 \<longleftrightarrow> x < y"
  by (simp add: int_compare_def)

lemma int_compare_pos [simp]: "0 < int_compare x y \<longleftrightarrow> y < x"
  by (simp add: int_compare_def)

lemma strcmp_neg_swap: "strcmp a b < 0 \<longleftrightarrow> 0 < strcmp b a"
  using strcmp_swap [of a b] by linarith

section \<open>The contract of a comparator\<close>

locale key_comparator =
  fixes cmp :: "'k \<Rightarrow> 'k \<Rightarrow> int"
  assumes cmp_eq_iff: "cmp x y = 0 \<longleftrightarrow> x = y"
    and cmp_neg_swap: "cmp x y < 0 \<longleftrightarrow> 0 < cmp y x"
    and cmp_trans: "cmp x y < 0 \<Longrightarrow> cmp y z < 0 \<Longrightarrow> cmp x z < 0"
begin

lemma cmp_refl [simp]: "cmp x x = 0"
  by (simp add: cmp_eq_iff)

lemma cmp_cases: "cmp x y < 0 \<or> x = y \<or> cmp y x < 0"
  using cmp_eq_iff [of x y] cmp_neg_swap [of y x] by linarith

lemma cmp_nonneg_iff: "0 \<le> cmp x y \<longleftrightarrow> \<not> cmp x y < 0"
  by auto

lemma cmp_not_neg: "\<not> cmp x y < 0 \<longleftrightarrow> x = y \<or> cmp y x < 0"
  using cmp_cases [of x y] cmp_neg_swap [of x y] cmp_neg_swap [of y x] cmp_eq_iff [of x y] by auto

lemma cmp_asym: "cmp x y < 0 \<Longrightarrow> \<not> cmp y x < 0"
  using cmp_neg_swap [of x y] by auto

lemma cmp_le_less_trans: "\<not> cmp y x < 0 \<Longrightarrow> cmp y z < 0 \<Longrightarrow> cmp x z < 0"
  using cmp_not_neg [of y x] cmp_trans [of x y z] by auto

lemma cmp_less_le_trans: "cmp x y < 0 \<Longrightarrow> \<not> cmp z y < 0 \<Longrightarrow> cmp x z < 0"
  using cmp_not_neg [of z y] cmp_trans [of x y z] by auto

lemma cmp_le_trans: "\<not> cmp y x < 0 \<Longrightarrow> \<not> cmp z y < 0 \<Longrightarrow> \<not> cmp z x < 0"
  using cmp_not_neg [of y x] cmp_not_neg [of z y] cmp_trans [of x y z] cmp_asym [of x z] by auto

end

text \<open>
  A range scan starts at the first key that is not below the given one and stops at the first
  key that the second comparator tells apart from it. The second comparator has to be
  constant between two keys it identifies.
\<close>

locale standby_comparator = key_comparator cmp
  for cmp :: "'k \<Rightarrow> 'k \<Rightarrow> int" +
  fixes scmp :: "'k \<Rightarrow> 'k \<Rightarrow> int"
  assumes scmp_convex:
    "\<not> cmp y x < 0 \<Longrightarrow> \<not> cmp z y < 0 \<Longrightarrow> scmp x z = 0 \<Longrightarrow> scmp x y = 0"

interpretation string_key: key_comparator StringComparator
  by unfold_locales
    (auto simp: StringComparator_def strcmp_neg_swap [symmetric] intro: strcmp_trans)

interpretation string_any_key: key_comparator "StringAnyComparator 3"
proof unfold_locales
  fix x y z :: string_any
  show "StringAnyComparator 3 x y = 0 \<longleftrightarrow> x = y"
    by (auto simp: StringAnyComparator_def Let_def)
  show "StringAnyComparator 3 x y < 0 \<longleftrightarrow> 0 < StringAnyComparator 3 y x"
    using strcmp_neg_swap [of "data_str x" "data_str y"]
    by (auto simp: StringAnyComparator_def Let_def)
  show "StringAnyComparator 3 x y < 0 \<Longrightarrow> StringAnyComparator 3 y z < 0 \<Longrightarrow>
      StringAnyComparator 3 x z < 0"
    using strcmp_trans [of "data_str x" "data_str y" "data_str z"]
    by (auto simp: StringAnyComparator_def Let_def split: if_splits)
qed

interpretation dual_string_key: key_comparator "DualStringComparator 2"
proof unfold_locales
  fix x y z :: dual_string
  show "DualStringComparator 2 x y = 0 \<longleftrightarrow> x = y"
    by (auto simp: DualStringComparator_def Let_def)
  show "DualStringComparator 2 x y < 0 \<longleftrightarrow> 0 < DualStringComparator 2 y x"
    using strcmp_neg_swap [of "first_str x" "first_str y"]
      strcmp_neg_swap [of "second_str x" "second_str y"]
    by (auto simp: DualStringComparator_def Let_def)
  show "DualStringComparator 2 x y < 0 \<Longrightarrow> DualStringComparator 2 y z < 0 \<Longrightarrow>
      DualStringComparator 2 x z < 0"
    using strcmp_trans [of "first_str x" "first_str y" "first_str z"]
      strcmp_trans [of "second_str x" "second_str y" "second_str z"]
    by (auto simp: DualStringComparator_def Let_def split: if_splits)
qed

interpretation string_int_int_key: key_comparator "StringIntIntComparator 2"
proof unfold_locales
  fix x y z :: string_int_int
  show "StringIntIntComparator 2 x y = 0 \<longleftrightarrow> x = y"
    by (auto simp: StringIntIntComparator_def Let_def)
  show "StringIntIntComparator 2 x y < 0 \<longleftrightarrow> 0 < StringIntIntComparator 2 y x"
    using strcmp_neg_swap [of "key_str x" "key_str y"]
    by (auto simp: StringIntIntComparator_def Let_def)
  show "StringIntIntComparator 2 x y < 0 \<Longrightarrow> StringIntIntComparator 2 y z < 0 \<Longrightarrow>
      StringIntIntComparator 2 x z < 0"
    using strcmp_trans [of "key_str x" "key_str y" "key_str z"]
    by (auto simp: StringIntIntComparator_def Let_def split: if_splits)
qed

lemma strcmp_between: "\<not> strcmp b a < 0 \<Longrightarrow> \<not> strcmp a b < 0 \<Longrightarrow> a = b"
  using strcmp_neg_swap [of a b] strcmp_neg_swap [of b a] strcmp_eq_0_iff [of a b] by linarith

interpretation string_any_scan: standby_comparator "StringAnyComparator 3" "StringAnyComparator 1"
proof unfold_locales
  fix x y z :: string_any
  assume "\<not> StringAnyComparator 3 y x < 0" "\<not> StringAnyComparator 3 z y < 0"
    and "StringAnyComparator 1 x z = 0"
  then show "StringAnyComparator 1 x y = 0"
    using strcmp_between [of "data_str y" "data_str x"]
    by (auto simp: StringAnyComparator_def Let_def split: if_splits)
qed

interpretation dual_string_scan: standby_comparator "DualStringComparator 2" "DualStringComparator 1"
proof unfold_locales
  fix x y z :: dual_string
  assume "\<not> DualStringComparator 2 y x < 0" "\<not> DualStringComparator 2 z y < 0"
    and "DualStringComparator 1 x z = 0"
  then show "DualStringComparator 1 x y = 0"
    using strcmp_between [of "first_str y" "first_str x"]
    by (auto simp: DualStringComparator_def Let_def split: if_splits)
qed

interpretation string_int_int_scan:
  standby_comparator "StringIntIntComparator 2" "StringIntIntComparator 1"
proof unfold_locales
  fix x y z :: string_int_int
  assume "\<not> StringIntIntComparator 2 y x < 0" "\<not> StringIntIntComparator 2 z y < 0"
    and "StringIntIntComparator 1 x z = 0"
  then show "StringIntIntComparator 1 x y = 0"
    using strcmp_between [of "key_str y" "key_str x"]
    by (auto simp: StringIntIntComparator_def Let_def split: if_splits)
qed

end
