(* ===== verification/OrderedList.thy ===== *)
theory OrderedList
  imports KeyTypes
begin

text \<open>
  Association lists that are strictly ordered by a comparator: the reference semantics of an
  index. \<open>al_insert\<close> overwrites the value of an existing key, \<open>al_delete\<close> forgets a key,
  \<open>al_scan\<close> is the range query. The lemmas split the three operations along a decomposition of
  the list, which is what a tree does with its subtrees.
\<close>

definition sorted_keys :: "('k \<Rightarrow> 'k \<Rightarrow> int) \<Rightarrow> ('k \<times> 'v) list \<Rightarrow> bool" where
  "sorted_keys cmp es = sorted_wrt (\<lambda>x y. cmp x y < 0) (map fst es)"

fun al_insert :: "('k \<Rightarrow> 'k \<Rightarrow> int) \<Rightarrow> 'k \<Rightarrow> 'v \<Rightarrow> ('k \<times> 'v) list \<Rightarrow> ('k \<times> 'v) list" where
  "al_insert cmp k v [] = [(k, v)]"
| "al_insert cmp k v ((a, b) # es) =
     (if cmp k a < 0 then (k, v) # (a, b) # es
      else if cmp k a = 0 then (k, v) # es
      else (a, b) # al_insert cmp k v es)"

definition al_delete :: "('k \<Rightarrow> 'k \<Rightarrow> int) \<Rightarrow> 'k \<Rightarrow> ('k \<times> 'v) list \<Rightarrow> ('k \<times> 'v) list" where
  "al_delete cmp k es = filter (\<lambda>e. cmp (fst e) k \<noteq> 0) es"

definition al_scan ::
    "('k \<Rightarrow> 'k \<Rightarrow> int) \<Rightarrow> ('k \<Rightarrow> 'k \<Rightarrow> int) \<Rightarrow> 'k \<Rightarrow> ('k \<times> 'v) list \<Rightarrow> 'v list" where
  "al_scan cmp scmp k es =
     map snd (takeWhile (\<lambda>e. scmp k (fst e) = 0) (dropWhile (\<lambda>e. cmp (fst e) k < 0) es))"

lemma sorted_keys_Nil [simp]: "sorted_keys cmp []"
  by (simp add: sorted_keys_def)

lemma sorted_keys_Cons [simp]:
  "sorted_keys cmp (e # es) \<longleftrightarrow> (\<forall>x \<in> set es. cmp (fst e) (fst x) < 0) \<and> sorted_keys cmp es"
  by (auto simp: sorted_keys_def)

lemma sorted_keys_append [simp]:
  "sorted_keys cmp (xs @ ys) \<longleftrightarrow>
     sorted_keys cmp xs \<and> sorted_keys cmp ys \<and> (\<forall>x \<in> set xs. \<forall>y \<in> set ys. cmp (fst x) (fst y) < 0)"
  by (auto simp: sorted_keys_def sorted_wrt_append)

lemma al_delete_Nil [simp]: "al_delete cmp k [] = []"
  by (simp add: al_delete_def)

lemma al_delete_append [simp]: "al_delete cmp k (xs @ ys) = al_delete cmp k xs @ al_delete cmp k ys"
  by (simp add: al_delete_def)

lemma set_al_delete: "set (al_delete cmp k es) \<subseteq> set es"
  by (auto simp: al_delete_def)

lemma sorted_keys_al_delete: "sorted_keys cmp es \<Longrightarrow> sorted_keys cmp (al_delete cmp k es)"
  by (induction es) (auto simp: al_delete_def)

lemma al_insert_not_Nil [simp]: "al_insert cmp k v es \<noteq> []"
  by (cases es) (auto split: if_splits)

lemma set_al_insert_subset: "set (al_insert cmp k v es) \<subseteq> insert (k, v) (set es)"
  by (induction es) (auto split: if_splits)

context key_comparator
begin

lemma key_neq: "cmp x y < 0 \<Longrightarrow> x \<noteq> y"
  by auto

lemma sorted_keys_distinct: "sorted_keys cmp es \<Longrightarrow> distinct (map fst es)"
  by (induction es) (auto dest: key_neq)

lemma sorted_keys_al_insert: "sorted_keys cmp es \<Longrightarrow> sorted_keys cmp (al_insert cmp k v es)"
proof (induction es)
  case Nil
  then show ?case by simp
next
  case (Cons e es)
  obtain a b where e: "e = (a, b)" by force
  have "\<forall>x \<in> set (al_insert cmp k v es). cmp a (fst x) < 0" if "cmp a k < 0"
    using that Cons.prems set_al_insert_subset [of cmp k v es] by (auto simp: e)
  then show ?case
    using Cons cmp_eq_iff [of k a] cmp_neg_swap [of a k]
    by (auto simp: e intro: cmp_trans [of k a])
qed

lemma al_insert_append_left:
  "\<forall>x \<in> set xs. cmp (fst x) k < 0 \<Longrightarrow> al_insert cmp k v (xs @ ys) = xs @ al_insert cmp k v ys"
proof (induction xs)
  case (Cons x xs)
  then show ?case
    using cmp_neg_swap [of "fst x" k] by (cases x) auto
qed simp

lemma al_insert_append_right:
  "\<forall>y \<in> set ys. cmp k (fst y) < 0 \<Longrightarrow> al_insert cmp k v (xs @ ys) = al_insert cmp k v xs @ ys"
proof (induction xs)
  case Nil
  then show ?case by (cases ys) auto
next
  case (Cons x xs)
  then show ?case by (cases x) auto
qed

lemma al_delete_below: "\<forall>x \<in> set es. cmp (fst x) k < 0 \<Longrightarrow> al_delete cmp k es = es"
  by (auto simp: al_delete_def intro!: filter_True)

lemma al_delete_above: "\<forall>x \<in> set es. cmp k (fst x) < 0 \<Longrightarrow> al_delete cmp k es = es"
  by (auto simp: al_delete_def cmp_eq_iff intro!: filter_True)

lemma al_delete_absent: "k \<notin> fst ` set es \<Longrightarrow> al_delete cmp k es = es"
  by (force simp: al_delete_def cmp_eq_iff intro!: filter_True)

lemma map_of_al_insert: "map_of (al_insert cmp k v es) = (map_of es)(k \<mapsto> v)"
  by (induction es) (auto simp: cmp_eq_iff)

lemma map_of_al_delete: "map_of (al_delete cmp k es) = (map_of es)(k := None)"
  by (induction es) (auto simp: al_delete_def cmp_eq_iff)

lemma length_al_insert:
  "length (al_insert cmp k v es) = (if k \<in> fst ` set es then length es else Suc (length es))"
  if "sorted_keys cmp es"
  using that
proof (induction es)
  case (Cons e es)
  obtain a b where e: "e = (a, b)" by force
  have "k \<notin> fst ` set es" if "cmp k a < 0"
    using that Cons.prems cmp_asym [of k] cmp_trans [of k a] by (force simp: e)
  moreover have "a \<notin> fst ` set es"
    using Cons.prems by (force simp: e)
  ultimately show ?case
    using Cons cmp_eq_iff [of k a] by (auto simp: e)
qed simp

lemma length_al_delete:
  assumes "sorted_keys cmp es"
  shows "length (al_delete cmp k es) = (if k \<in> fst ` set es then length es - 1 else length es)"
  using sorted_keys_distinct [OF assms]
proof (induction es)
  case (Cons e es)
  show ?case
  proof (cases "fst e = k")
    case True
    then show ?thesis
      using Cons.prems al_delete_absent [of k es] by (simp add: al_delete_def)
  next
    case False
    then show ?thesis
      using Cons by (cases es) (auto simp: al_delete_def cmp_eq_iff)
  qed
qed simp

lemma map_of_sorted_below: "\<forall>x \<in> set es. cmp (fst x) k < 0 \<Longrightarrow> map_of es k = None"
  by (auto simp: map_of_eq_None_iff)

lemma map_of_sorted_above: "\<forall>x \<in> set es. cmp k (fst x) < 0 \<Longrightarrow> map_of es k = None"
  by (auto simp: map_of_eq_None_iff)

end

context standby_comparator
begin

lemma al_scan_eq_filter:
  "sorted_keys cmp es \<Longrightarrow>
     al_scan cmp scmp k es
       = map snd (filter (\<lambda>e. \<not> cmp (fst e) k < 0 \<and> scmp k (fst e) = 0) es)"
proof (induction es)
  case Nil
  then show ?case by (simp add: al_scan_def)
next
  case (Cons e es)
  show ?case
  proof (cases "cmp (fst e) k < 0")
    case True
    then show ?thesis using Cons by (simp add: al_scan_def)
  next
    case False
    have ge: "\<not> cmp (fst x) k < 0" if "x \<in> set es" for x
      using that Cons.prems False cmp_trans [of "fst e" "fst x" k] by auto
    have scan: "al_scan cmp scmp k es = map snd (takeWhile (\<lambda>e. scmp k (fst e) = 0) es)"
      using ge by (cases es) (auto simp: al_scan_def)
    have stop: "scmp k (fst x) \<noteq> 0" if "scmp k (fst e) \<noteq> 0" "x \<in> set es" for x
      using that False Cons.prems scmp_convex [of "fst e" k "fst x"] cmp_asym [of "fst e" "fst x"]
      by auto
    show ?thesis
    proof (cases "scmp k (fst e) = 0")
      case True
      then show ?thesis using False Cons scan ge by (simp add: al_scan_def)
    next
      case neq: False
      then show ?thesis using False stop by (simp add: al_scan_def)
    qed
  qed
qed

end

end
