(* ===== verification/TreePages.thy ===== *)
theory TreePages
  imports OrderedList
begin

text \<open>
  The pages of the B+ tree (\<^verbatim>\<open>database/src/storage/page\<close>): the header shared by both kinds
  (\<^verbatim>\<open>BPlusTreePage\<close>), leaf pages (\<^verbatim>\<open>BPlusTreeLeafPage\<close>) and the part of internal pages
  (\<^verbatim>\<open>BPlusTreeInternalPage\<close>) that stays on one page. The operations of internal pages that also
  rewrite the parent pointers of the moved children are in \<open>BPlusTree\<close>, where the page store is.

  The binary searches are the loops of the source; the lemmas at the end of each section give
  their closed form on a page whose keys are ordered, and with it the effect of each operation
  on the ordered association list that the page holds.
\<close>

section \<open>The common header\<close>

abbreviation (input) INVALID_PAGE_ID :: int where "INVALID_PAGE_ID \<equiv> -1"
abbreviation (input) HEADER_PAGE_ID :: int where "HEADER_PAGE_ID \<equiv> 0"

record tree_page =
  max_size :: int
  parent_page_id :: int
  page_id :: int

definition GetMinSize :: "'a tree_page_scheme \<Rightarrow> int" where
  "GetMinSize p = max_size p div 2"

definition IsRootPage :: "'a tree_page_scheme \<Rightarrow> bool" where
  "IsRootPage p \<longleftrightarrow> parent_page_id p = INVALID_PAGE_ID"

section \<open>Leaf pages\<close>

record ('k, 'v) leaf_page = tree_page +
  next_page_id :: int
  leaf_array :: "('k \<times> 'v) list"

definition LeafPage_Init :: "int \<Rightarrow> int \<Rightarrow> int \<Rightarrow> ('k, 'v) leaf_page" where
  "LeafPage_Init pid parent mx =
     \<lparr>max_size = mx, parent_page_id = parent, page_id = pid,
      next_page_id = INVALID_PAGE_ID, leaf_array = []\<rparr>"

definition LeafPage_GetSize :: "('k, 'v) leaf_page \<Rightarrow> int" where
  "LeafPage_GetSize p = int (length (leaf_array p))"

definition LeafPage_SetSize :: "int \<Rightarrow> ('k, 'v) leaf_page \<Rightarrow> ('k, 'v) leaf_page" where
  "LeafPage_SetSize n p = p\<lparr>leaf_array := take (nat n) (leaf_array p)\<rparr>"

text \<open>\<^verbatim>\<open>KeyIndex\<close>: the first index whose key is not below the given one, -1 if there is none.\<close>

function key_index_loop ::
    "('k \<Rightarrow> 'k \<Rightarrow> int) \<Rightarrow> ('k \<times> 'v) list \<Rightarrow> 'k \<Rightarrow> int \<Rightarrow> int \<Rightarrow> int \<Rightarrow> int" where
  "key_index_loop cmp es key l r index =
     (if l \<le> r then
        let mid = (l + r) div 2
        in if 0 \<le> cmp (fst (es ! nat mid)) key
           then key_index_loop cmp es key l (mid - 1) mid
           else key_index_loop cmp es key (mid + 1) r index
      else index)"
  by pat_completeness auto
termination
  by (relation "measure (\<lambda>(cmp, es, key, l, r, index). nat (r - l + 1))") auto

declare key_index_loop.simps [simp del]

definition LeafPage_KeyIndex :: "('k \<Rightarrow> 'k \<Rightarrow> int) \<Rightarrow> 'k \<Rightarrow> ('k, 'v) leaf_page \<Rightarrow> int" where
  "LeafPage_KeyIndex cmp key p =
     key_index_loop cmp (leaf_array p) key 0 (LeafPage_GetSize p - 1) (-1)"

definition LeafPage_KeyAt :: "int \<Rightarrow> ('k, 'v) leaf_page \<Rightarrow> 'k option" where
  "LeafPage_KeyAt index p = map_option fst (slot (leaf_array p) index)"

definition LeafPage_GetItem :: "int \<Rightarrow> ('k, 'v) leaf_page \<Rightarrow> ('k \<times> 'v) option" where
  "LeafPage_GetItem index p = slot (leaf_array p) index"

text \<open>
  \<^verbatim>\<open>Insert\<close> returns the new size, or -1 when the page is full or the key was there already
  (its value is then overwritten).
\<close>

definition LeafPage_Insert ::
    "('k \<Rightarrow> 'k \<Rightarrow> int) \<Rightarrow> 'k \<Rightarrow> 'v \<Rightarrow> ('k, 'v) leaf_page \<Rightarrow> int \<times> ('k, 'v) leaf_page" where
  "LeafPage_Insert cmp key value p =
     (if LeafPage_GetSize p = max_size p then (-1, p)
      else
        let index = LeafPage_KeyIndex cmp key p; es = leaf_array p
        in if index = -1 then
             (int (length es) + 1, p\<lparr>leaf_array := es @ [(key, value)]\<rparr>)
           else if cmp key (fst (es ! nat index)) = 0 then
             (-1, p\<lparr>leaf_array := es[nat index := (key, value)]\<rparr>)
           else
             (int (length es) + 1, p\<lparr>leaf_array := array_insert es (nat index) (key, value)\<rparr>))"

text \<open>\<^verbatim>\<open>CopyNFrom\<close> appends the given items; \<^verbatim>\<open>MoveHalfTo\<close> keeps the first \<^verbatim>\<open>GetMinSize()\<close> ones.\<close>

definition LeafPage_CopyNFrom ::
    "('k \<times> 'v) list \<Rightarrow> ('k, 'v) leaf_page \<Rightarrow> ('k, 'v) leaf_page" where
  "LeafPage_CopyNFrom items p = p\<lparr>leaf_array := leaf_array p @ items\<rparr>"

definition LeafPage_MoveHalfTo ::
    "('k, 'v) leaf_page \<Rightarrow> ('k, 'v) leaf_page \<Rightarrow> ('k, 'v) leaf_page \<times> ('k, 'v) leaf_page" where
  "LeafPage_MoveHalfTo p recipient =
     (let new_this_size = GetMinSize p;
          new_recipient_size = LeafPage_GetSize p - new_this_size;
          items = take (nat new_recipient_size) (drop (nat new_this_size) (leaf_array p))
      in (LeafPage_SetSize new_this_size p,
          LeafPage_SetSize new_recipient_size (LeafPage_CopyNFrom items recipient)))"

definition LeafPage_Lookup ::
    "('k \<Rightarrow> 'k \<Rightarrow> int) \<Rightarrow> 'k \<Rightarrow> ('k, 'v) leaf_page \<Rightarrow> 'v option" where
  "LeafPage_Lookup cmp key p =
     (let index = LeafPage_KeyIndex cmp key p
      in if index = -1 \<or> cmp (fst (leaf_array p ! nat index)) key \<noteq> 0 then None
         else Some (snd (leaf_array p ! nat index)))"

definition LeafPage_Remove :: "int \<Rightarrow> ('k, 'v) leaf_page \<Rightarrow> ('k, 'v) leaf_page" where
  "LeafPage_Remove index p = p\<lparr>leaf_array := array_remove (leaf_array p) (nat index)\<rparr>"

definition LeafPage_RemoveAndDeleteRecord ::
    "('k \<Rightarrow> 'k \<Rightarrow> int) \<Rightarrow> 'k \<Rightarrow> ('k, 'v) leaf_page \<Rightarrow> int \<times> ('k, 'v) leaf_page" where
  "LeafPage_RemoveAndDeleteRecord cmp key p =
     (let index = LeafPage_KeyIndex cmp key p
      in if index = -1 \<or> cmp (fst (leaf_array p ! nat index)) key \<noteq> 0 then (-1, p)
         else let p' = LeafPage_Remove index p in (LeafPage_GetSize p', p'))"

definition LeafPage_MoveAllTo ::
    "('k, 'v) leaf_page \<Rightarrow> ('k, 'v) leaf_page \<Rightarrow> ('k, 'v) leaf_page \<times> ('k, 'v) leaf_page" where
  "LeafPage_MoveAllTo p recipient =
     (LeafPage_SetSize 0 p, LeafPage_CopyNFrom (leaf_array p) recipient)"

definition LeafPage_CopyLastFrom ::
    "'k \<times> 'v \<Rightarrow> ('k, 'v) leaf_page \<Rightarrow> ('k, 'v) leaf_page" where
  "LeafPage_CopyLastFrom item p = p\<lparr>leaf_array := leaf_array p @ [item]\<rparr>"

definition LeafPage_CopyFirstFrom ::
    "'k \<times> 'v \<Rightarrow> ('k, 'v) leaf_page \<Rightarrow> ('k, 'v) leaf_page" where
  "LeafPage_CopyFirstFrom item p = p\<lparr>leaf_array := array_insert (leaf_array p) 0 item\<rparr>"

definition LeafPage_MoveFirstToEndOf ::
    "('k, 'v) leaf_page \<Rightarrow> ('k, 'v) leaf_page \<Rightarrow>
     (('k, 'v) leaf_page \<times> ('k, 'v) leaf_page) option" where
  "LeafPage_MoveFirstToEndOf p recipient =
     do { item \<leftarrow> slot (leaf_array p) 0;
          Some (LeafPage_Remove 0 p, LeafPage_CopyLastFrom item recipient) }"

definition LeafPage_MoveLastToFrontOf ::
    "('k, 'v) leaf_page \<Rightarrow> ('k, 'v) leaf_page \<Rightarrow>
     (('k, 'v) leaf_page \<times> ('k, 'v) leaf_page) option" where
  "LeafPage_MoveLastToFrontOf p recipient =
     do { item \<leftarrow> slot (leaf_array p) (LeafPage_GetSize p - 1);
          Some (LeafPage_SetSize (LeafPage_GetSize p - 1) p,
                LeafPage_CopyFirstFrom item recipient) }"

section \<open>Internal pages\<close>

text \<open>
  The key of slot 0 is never compared: slot \<open>i\<close> leads to the keys from \<open>K(i)\<close> up to \<open>K(i + 1)\<close>,
  slot 0 to those below \<open>K(1)\<close>.
\<close>

record 'k internal_page = tree_page +
  internal_array :: "('k \<times> int) list"

definition InternalPage_Init :: "int \<Rightarrow> int \<Rightarrow> int \<Rightarrow> 'k internal_page" where
  "InternalPage_Init pid parent mx =
     \<lparr>max_size = mx, parent_page_id = parent, page_id = pid, internal_array = []\<rparr>"

definition InternalPage_GetSize :: "'k internal_page \<Rightarrow> int" where
  "InternalPage_GetSize p = int (length (internal_array p))"

definition InternalPage_KeyAt :: "int \<Rightarrow> 'k internal_page \<Rightarrow> 'k option" where
  "InternalPage_KeyAt index p = map_option fst (slot (internal_array p) index)"

definition InternalPage_SetKeyAt :: "int \<Rightarrow> 'k \<Rightarrow> 'k internal_page \<Rightarrow> 'k internal_page" where
  "InternalPage_SetKeyAt index key p =
     p\<lparr>internal_array := (internal_array p)[nat index := (key, snd (internal_array p ! nat index))]\<rparr>"

definition InternalPage_ValueAt :: "int \<Rightarrow> 'k internal_page \<Rightarrow> int option" where
  "InternalPage_ValueAt index p = map_option snd (slot (internal_array p) index)"

fun value_index_from :: "('k \<times> int) list \<Rightarrow> int \<Rightarrow> int \<Rightarrow> int" where
  "value_index_from [] value i = -1"
| "value_index_from (e # es) value i =
     (if snd e = value then i else value_index_from es value (i + 1))"

definition InternalPage_ValueIndex :: "int \<Rightarrow> 'k internal_page \<Rightarrow> int" where
  "InternalPage_ValueIndex value p = value_index_from (internal_array p) value 0"

function lookup_loop ::
    "('k \<Rightarrow> 'k \<Rightarrow> int) \<Rightarrow> ('k \<times> int) list \<Rightarrow> 'k \<Rightarrow> int \<Rightarrow> int \<Rightarrow> int \<Rightarrow> int" where
  "lookup_loop cmp es key l r child_index =
     (if l \<le> r then
        let mid = (l + r) div 2
        in if cmp key (fst (es ! nat mid)) < 0
           then lookup_loop cmp es key l (mid - 1) (mid - 1)
           else lookup_loop cmp es key (mid + 1) r child_index
      else child_index)"
  by pat_completeness auto
termination
  by (relation "measure (\<lambda>(cmp, es, key, l, r, index). nat (r - l + 1))") auto

declare lookup_loop.simps [simp del]

definition InternalPage_Lookup ::
    "('k \<Rightarrow> 'k \<Rightarrow> int) \<Rightarrow> 'k \<Rightarrow> 'k internal_page \<Rightarrow> int option" where
  "InternalPage_Lookup cmp key p =
     InternalPage_ValueAt
       (lookup_loop cmp (internal_array p) key 1 (InternalPage_GetSize p - 1)
          (InternalPage_GetSize p - 1)) p"

text \<open>
  \<^verbatim>\<open>PopulateNewRoot\<close> runs on a page fresh from \<^verbatim>\<open>NewPage\<close>, whose memory is zero: the key of
  slot 0 stays the all-zero key.
\<close>

definition InternalPage_PopulateNewRoot ::
    "'k \<Rightarrow> int \<Rightarrow> 'k \<Rightarrow> int \<Rightarrow> 'k internal_page \<Rightarrow> 'k internal_page" where
  "InternalPage_PopulateNewRoot zero_key old_value new_key new_value p =
     p\<lparr>internal_array := [(zero_key, old_value), (new_key, new_value)]\<rparr>"

definition InternalPage_InsertNodeAfter ::
    "int \<Rightarrow> 'k \<Rightarrow> int \<Rightarrow> 'k internal_page \<Rightarrow> int \<times> 'k internal_page" where
  "InternalPage_InsertNodeAfter old_value new_key new_value p =
     (if InternalPage_GetSize p = max_size p then (-1, p)
      else
        let index = InternalPage_ValueIndex old_value p
        in if index = -1 then (-1, p)
           else (InternalPage_GetSize p + 1,
                 p\<lparr>internal_array :=
                     array_insert (internal_array p) (nat (index + 1)) (new_key, new_value)\<rparr>))"

definition InternalPage_Remove :: "int \<Rightarrow> 'k internal_page \<Rightarrow> 'k internal_page" where
  "InternalPage_Remove index p =
     p\<lparr>internal_array := array_remove (internal_array p) (nat index)\<rparr>"

definition InternalPage_RemoveAndReturnOnlyChild ::
    "'k internal_page \<Rightarrow> (int \<times> 'k internal_page) option" where
  "InternalPage_RemoveAndReturnOnlyChild p =
     do { child \<leftarrow> InternalPage_ValueAt 0 p; Some (child, p\<lparr>internal_array := []\<rparr>) }"

lemmas leaf_page_defs =
  LeafPage_Init_def LeafPage_GetSize_def LeafPage_SetSize_def LeafPage_KeyAt_def
  LeafPage_GetItem_def LeafPage_CopyNFrom_def LeafPage_MoveHalfTo_def LeafPage_Remove_def
  LeafPage_MoveAllTo_def LeafPage_CopyLastFrom_def LeafPage_CopyFirstFrom_def
  LeafPage_MoveFirstToEndOf_def LeafPage_MoveLastToFrontOf_def

lemmas internal_page_defs =
  InternalPage_Init_def InternalPage_GetSize_def InternalPage_KeyAt_def
  InternalPage_SetKeyAt_def InternalPage_ValueAt_def InternalPage_PopulateNewRoot_def
  InternalPage_Remove_def InternalPage_RemoveAndReturnOnlyChild_def

section \<open>Closed forms of the searches\<close>

lemma key_index_loop_eq:
  assumes "\<And>i. i < length es \<Longrightarrow> 0 \<le> cmp (fst (es ! i)) key \<longleftrightarrow> n \<le> i"
    and "n \<le> length es" and "0 \<le> l" and "l \<le> int n" and "int n \<le> r + 1"
    and "r < int (length es)" and "index = (if r + 1 < int (length es) then r + 1 else -1)"
  shows "key_index_loop cmp es key l r index = (if n < length es then int n else -1)"
  using assms
proof (induction cmp es key l r index rule: key_index_loop.induct)
  case (1 cmp es key l r index)
  show ?case
  proof (cases "l \<le> r")
    case False
    then have "r + 1 = int n" using "1.prems" by simp
    then show ?thesis using False "1.prems" by (simp add: key_index_loop.simps)
  next
    case True
    define mid where "mid = (l + r) div 2"
    have mid: "l \<le> mid" "mid \<le> r" "nat mid < length es"
      using True "1.prems"(3,6) by (auto simp: mid_def)
    show ?thesis
    proof (cases "0 \<le> cmp (fst (es ! nat mid)) key")
      case ge: True
      then have "int n \<le> mid" using "1.prems"(1) [OF mid(3)] mid "1.prems"(3) by simp
      then have "key_index_loop cmp es key l (mid - 1) mid = (if n < length es then int n else -1)"
        using "1.IH"(1) [OF True mid_def ge] "1.prems" mid by simp
      then show ?thesis
        using True ge by (simp add: key_index_loop.simps [of cmp es key l r] mid_def [symmetric])
    next
      case lt: False
      then have "mid < int n" using "1.prems"(1) [OF mid(3)] mid "1.prems"(3) by simp
      then have "key_index_loop cmp es key (mid + 1) r index = (if n < length es then int n else -1)"
        using "1.IH"(2) [OF True mid_def lt] "1.prems" mid by simp
      then show ?thesis
        using True lt by (simp add: key_index_loop.simps [of cmp es key l r] mid_def [symmetric])
    qed
  qed
qed

lemma lookup_loop_eq:
  assumes "\<And>i. 0 < i \<Longrightarrow> i < length es \<Longrightarrow> cmp key (fst (es ! i)) < 0 \<longleftrightarrow> n < i"
    and "n < length es" and "1 \<le> l" and "l \<le> int n + 1" and "int n \<le> r"
    and "r < int (length es)" and "child_index = r"
  shows "lookup_loop cmp es key l r child_index = int n"
  using assms
proof (induction cmp es key l r child_index rule: lookup_loop.induct)
  case (1 cmp es key l r child_index)
  show ?case
  proof (cases "l \<le> r")
    case False
    then show ?thesis using "1.prems" by (simp add: lookup_loop.simps)
  next
    case True
    define mid where "mid = (l + r) div 2"
    have mid: "l \<le> mid" "mid \<le> r" "0 < nat mid" "nat mid < length es"
      using True "1.prems"(3,6) by (auto simp: mid_def)
    show ?thesis
    proof (cases "cmp key (fst (es ! nat mid)) < 0")
      case lt: True
      then have "int n < mid" using "1.prems"(1) [OF mid(3,4)] mid "1.prems"(3) by simp
      then have "lookup_loop cmp es key l (mid - 1) (mid - 1) = int n"
        using "1.IH"(1) [OF True mid_def lt] "1.prems" mid by simp
      then show ?thesis
        using True lt by (simp add: lookup_loop.simps [of cmp es key l r] mid_def [symmetric])
    next
      case ge: False
      then have "mid \<le> int n" using "1.prems"(1) [OF mid(3,4)] mid "1.prems"(3) by simp
      then have "lookup_loop cmp es key (mid + 1) r child_index = int n"
        using "1.IH"(2) [OF True mid_def ge] "1.prems" mid by simp
      then show ?thesis
        using True ge by (simp add: lookup_loop.simps [of cmp es key l r] mid_def [symmetric])
    qed
  qed
qed

section \<open>Effect of the operations on ordered pages\<close>

lemma InternalPage_Lookup_split:
  assumes "internal_array p = ls @ (k, c) # rs"
    and "ls \<noteq> [] \<Longrightarrow> \<not> cmp key k < 0"
    and "\<And>e. e \<in> set (tl ls) \<Longrightarrow> \<not> cmp key (fst e) < 0"
    and "\<And>e. e \<in> set rs \<Longrightarrow> cmp key (fst e) < 0"
  shows "InternalPage_Lookup cmp key p = Some c"
proof -
  let ?es = "internal_array p"
  have "cmp key (fst (?es ! i)) < 0 \<longleftrightarrow> length ls < i" if "0 < i" "i < length ?es" for i
  proof -
    consider "i < length ls" | "i = length ls" | "length ls < i" by linarith
    then show ?thesis
    proof cases
      case 1
      then have "?es ! i \<in> set (tl ls)"
        using \<open>0 < i\<close> assms(1) by (cases ls; cases i) (auto simp: nth_append)
      then show ?thesis using 1 assms(3) by auto
    next
      case 2
      then show ?thesis using \<open>0 < i\<close> assms(1,2) by (auto simp: nth_append)
    next
      case 3
      then obtain j where "i = Suc (length ls) + j" by (metis less_iff_Suc_add add_Suc)
      then have "?es ! i \<in> set rs" using that(2) assms(1) by (simp add: nth_append)
      then show ?thesis using 3 assms(4) by auto
    qed
  qed
  then have "lookup_loop cmp ?es key 1 (InternalPage_GetSize p - 1) (InternalPage_GetSize p - 1)
      = int (length ls)"
    by (intro lookup_loop_eq) (auto simp: InternalPage_GetSize_def assms(1))
  then show ?thesis
    by (simp add: InternalPage_Lookup_def InternalPage_ValueAt_def assms(1))
qed

lemma value_index_from_append:
  "value \<notin> snd ` set ls \<Longrightarrow>
     value_index_from (ls @ (k, value) # rs) value i = i + int (length ls)"
  by (induction ls arbitrary: i) auto

lemma InternalPage_ValueIndex_split:
  "internal_array p = ls @ (k, value) # rs \<Longrightarrow> value \<notin> snd ` set ls \<Longrightarrow>
     InternalPage_ValueIndex value p = int (length ls)"
  by (simp add: InternalPage_ValueIndex_def value_index_from_append)

lemma InternalPage_InsertNodeAfter_split:
  assumes "internal_array p = ls @ (k, old) # rs" and "old \<notin> snd ` set ls"
    and "int (length (internal_array p)) < max_size p"
  shows "InternalPage_InsertNodeAfter old nk nv p =
     (InternalPage_GetSize p + 1, p\<lparr>internal_array := ls @ (k, old) # (nk, nv) # rs\<rparr>)"
  using assms InternalPage_ValueIndex_split [OF assms(1,2)]
  by (simp add: InternalPage_InsertNodeAfter_def InternalPage_GetSize_def array_simps nat_add_distrib)

lemma InternalPage_Remove_split:
  assumes "internal_array p = ls @ e # rs" and "index = int (length ls)"
  shows "InternalPage_Remove index p = p\<lparr>internal_array := ls @ rs\<rparr>"
  using assms by (simp add: InternalPage_Remove_def array_simps)

lemma LeafPage_Remove_split:
  assumes "leaf_array p = ls @ e # rs" and "index = int (length ls)"
  shows "LeafPage_Remove index p = p\<lparr>leaf_array := ls @ rs\<rparr>"
  using assms by (simp add: LeafPage_Remove_def array_simps)

lemma LeafPage_KeyIndex_split:
  assumes "leaf_array p = xs @ ys"
    and "\<And>x. x \<in> set xs \<Longrightarrow> cmp (fst x) key < 0"
    and "\<And>y. y \<in> set ys \<Longrightarrow> \<not> cmp (fst y) key < 0"
  shows "LeafPage_KeyIndex cmp key p = (if ys = [] then -1 else int (length xs))"
proof -
  have "0 \<le> cmp (fst (leaf_array p ! i)) key \<longleftrightarrow> length xs \<le> i" if "i < length (leaf_array p)" for i
    using that assms(2) [of "xs ! i"] assms(3) [of "ys ! (i - length xs)"] assms(1)
    by (cases "i < length xs") (auto simp: nth_append)
  then have "key_index_loop cmp (leaf_array p) key 0 (LeafPage_GetSize p - 1) (-1)
      = (if length xs < length (leaf_array p) then int (length xs) else -1)"
    by (intro key_index_loop_eq) (auto simp: LeafPage_GetSize_def assms(1))
  then show ?thesis
    by (simp add: LeafPage_KeyIndex_def assms(1))
qed

context key_comparator
begin

lemma sorted_keys_partition:
  assumes "sorted_keys cmp es"
  obtains xs ys where "es = xs @ ys" "\<And>x. x \<in> set xs \<Longrightarrow> cmp (fst x) key < 0"
    "\<And>y. y \<in> set ys \<Longrightarrow> \<not> cmp (fst y) key < 0"
proof
  let ?P = "\<lambda>e. cmp (fst e) key < 0"
  show "es = takeWhile ?P es @ dropWhile ?P es" by simp
  show "?P x" if "x \<in> set (takeWhile ?P es)" for x
    using that by (auto dest: set_takeWhileD)
  have "\<not> ?P y" if "y \<in> set (dropWhile ?P es)" "sorted_keys cmp es" for y es
    using that
  proof (induction es)
    case (Cons e es)
    then show ?case
      using cmp_trans [of "fst e" "fst y" key] by (auto split: if_splits)
  qed simp
  then show "\<not> ?P y" if "y \<in> set (dropWhile ?P es)" for y
    using that assms by blast
qed

lemma LeafPage_Insert_sorted:
  assumes "sorted_keys cmp (leaf_array p)" and "int (length (leaf_array p)) < max_size p"
  shows "LeafPage_Insert cmp key v p =
     (if key \<in> fst ` set (leaf_array p) then -1 else int (length (leaf_array p)) + 1,
      p\<lparr>leaf_array := al_insert cmp key v (leaf_array p)\<rparr>)"
proof -
  obtain xs ys where es: "leaf_array p = xs @ ys" "\<And>x. x \<in> set xs \<Longrightarrow> cmp (fst x) key < 0"
    "\<And>y. y \<in> set ys \<Longrightarrow> \<not> cmp (fst y) key < 0"
    using sorted_keys_partition [OF assms(1)] by metis
  have ins: "al_insert cmp key v (xs @ ys) = xs @ al_insert cmp key v ys"
    using es(2) by (simp add: al_insert_append_left)
  have idx: "LeafPage_KeyIndex cmp key p = (if ys = [] then -1 else int (length xs))"
    using es by (rule LeafPage_KeyIndex_split)
  have notin: "key \<notin> fst ` set xs"
    using es(2) by force
  show ?thesis
  proof (cases ys)
    case Nil
    then show ?thesis
      using assms(2) idx ins notin by (simp add: LeafPage_Insert_def LeafPage_GetSize_def es(1))
  next
    case (Cons y ys')
    obtain a b where y: "y = (a, b)" by force
    have sorted: "\<forall>z \<in> set ys'. cmp a (fst z) < 0"
      using assms(1) by (simp add: es(1) Cons y)
    have "key \<notin> fst ` set ys'" if "key = a \<or> cmp key a < 0"
      using that sorted cmp_trans [of key a key] by force
    moreover have "key = a \<or> cmp key a < 0"
      using es(3) [of y] by (auto simp: Cons y cmp_not_neg)
    ultimately show ?thesis
      using assms(2) idx ins notin cmp_eq_iff [of key a]
      by (auto simp: LeafPage_Insert_def LeafPage_GetSize_def es(1) Cons y array_simps Let_def)
  qed
qed

lemma LeafPage_find_sorted:
  assumes "sorted_keys cmp (leaf_array p)" and "index = LeafPage_KeyIndex cmp key p"
  shows "if key \<in> fst ` set (leaf_array p)
     then \<exists>xs v ys. leaf_array p = xs @ (key, v) # ys \<and> index = int (length xs)
     else index = -1 \<or> cmp (fst (leaf_array p ! nat index)) key \<noteq> 0"
proof -
  obtain xs ys where es: "leaf_array p = xs @ ys" "\<And>x. x \<in> set xs \<Longrightarrow> cmp (fst x) key < 0"
    "\<And>y. y \<in> set ys \<Longrightarrow> \<not> cmp (fst y) key < 0"
    using sorted_keys_partition [OF assms(1)] by metis
  have idx: "index = (if ys = [] then -1 else int (length xs))"
    unfolding assms(2) using es by (rule LeafPage_KeyIndex_split)
  have notin: "key \<notin> fst ` set xs"
    using es(2) by force
  show ?thesis
  proof (cases ys)
    case Nil
    then show ?thesis using idx notin es(1) by simp
  next
    case (Cons y ys')
    have "fst z \<noteq> key" if "fst y \<noteq> key" "z \<in> set ys'" for z
    proof -
      have "cmp key (fst y) < 0"
        using that(1) es(3) [of y] by (auto simp: Cons cmp_not_neg)
      moreover have "cmp (fst y) (fst z) < 0"
        using assms(1) that(2) by (simp add: es(1) Cons)
      ultimately have "cmp key (fst z) < 0" by (rule cmp_trans)
      then show ?thesis by auto
    qed
    then have "key \<notin> fst ` set ys'" if "fst y \<noteq> key"
      using that by auto
    then show ?thesis
      using idx notin by (cases y; cases "fst y = key") (auto simp: es(1) Cons cmp_eq_iff)
  qed
qed

lemma LeafPage_Lookup_sorted:
  assumes "sorted_keys cmp (leaf_array p)"
  shows "LeafPage_Lookup cmp key p = map_of (leaf_array p) key"
proof (cases "key \<in> fst ` set (leaf_array p)")
  case True
  then obtain xs v ys where es: "leaf_array p = xs @ (key, v) # ys"
    "LeafPage_KeyIndex cmp key p = int (length xs)"
    using LeafPage_find_sorted [OF assms refl, of key] by auto
  moreover have "key \<notin> fst ` set xs"
    using sorted_keys_distinct [OF assms] es(1) by simp
  then have "map_of xs key = None"
    by (simp add: map_of_eq_None_iff)
  ultimately show ?thesis
    by (simp add: LeafPage_Lookup_def map_add_def)
next
  case False
  then show ?thesis
    using LeafPage_find_sorted [OF assms refl, of key] map_of_eq_None_iff [of "leaf_array p" key]
    by (auto simp: LeafPage_Lookup_def Let_def)
qed

lemma LeafPage_RemoveAndDeleteRecord_sorted:
  assumes "sorted_keys cmp (leaf_array p)"
  shows "LeafPage_RemoveAndDeleteRecord cmp key p =
     (if key \<in> fst ` set (leaf_array p)
      then (int (length (leaf_array p)) - 1, p\<lparr>leaf_array := al_delete cmp key (leaf_array p)\<rparr>)
      else (-1, p))"
proof (cases "key \<in> fst ` set (leaf_array p)")
  case True
  then obtain xs v ys where es: "leaf_array p = xs @ (key, v) # ys"
    "LeafPage_KeyIndex cmp key p = int (length xs)"
    using LeafPage_find_sorted [OF assms refl, of key] by auto
  have "key \<notin> fst ` set xs" "key \<notin> fst ` set ys"
    using sorted_keys_distinct [OF assms] es(1) by auto
  then have "al_delete cmp key xs = xs" "al_delete cmp key ys = ys"
    by (simp_all add: al_delete_absent)
  then have "al_delete cmp key (leaf_array p) = xs @ ys"
    using es(1) by (simp add: al_delete_def)
  then show ?thesis
    using True es LeafPage_Remove_split [OF es(1) refl]
    by (simp add: LeafPage_RemoveAndDeleteRecord_def LeafPage_GetSize_def)
next
  case False
  then show ?thesis
    using LeafPage_find_sorted [OF assms refl, of key]
    by (auto simp: LeafPage_RemoveAndDeleteRecord_def Let_def)
qed

end

end
