(* ===== verification/HeaderPage.thy ===== *)
theory HeaderPage
  imports Prelude
begin

text \<open>
  The header page (\<^verbatim>\<open>database/src/storage/page/header_page.cpp\<close>): a count and an array of
  records, each a name of at most 31 characters and an integer. The page is modelled by the
  list of its records; the record at list position \<open>i\<close> is the one the source keeps at byte offset
  \<open>4 + 36 * i\<close>. The \<^verbatim>\<open>assert\<close>s of the source are the \<open>None\<close> branches.
\<close>

type_synonym header_records = "(string \<times> int) list"

fun find_record_from :: "string \<Rightarrow> header_records \<Rightarrow> int \<Rightarrow> int" where
  "find_record_from name [] i = -1"
| "find_record_from name (r # rs) i =
     (if fst r = name then i else find_record_from name rs (i + 1))"

definition HeaderPage_FindRecord :: "string \<Rightarrow> header_records \<Rightarrow> int" where
  "HeaderPage_FindRecord name recs = find_record_from name recs 0"

definition HeaderPage_InsertRecord ::
    "string \<Rightarrow> int \<Rightarrow> header_records \<Rightarrow> (bool \<times> header_records) option" where
  "HeaderPage_InsertRecord name root_id recs =
     (if length name < 32 then
        if HeaderPage_FindRecord name recs \<noteq> -1 then Some (False, recs)
        else Some (True, recs @ [(name, root_id)])
      else None)"

definition HeaderPage_DeleteRecord ::
    "string \<Rightarrow> header_records \<Rightarrow> (bool \<times> header_records) option" where
  "HeaderPage_DeleteRecord name recs =
     (if recs \<noteq> [] then
        let index = HeaderPage_FindRecord name recs
        in if index = -1 then Some (False, recs)
           else Some (True, take (nat index) recs @ drop (Suc (nat index)) recs)
      else None)"

definition HeaderPage_SearchRecord :: "string \<Rightarrow> header_records \<Rightarrow> int option option" where
  "HeaderPage_SearchRecord name recs =
     (if recs \<noteq> [] then
        let index = HeaderPage_FindRecord name recs
        in if index = -1 then Some None else Some (Some (snd (recs ! nat index)))
      else None)"

definition HeaderPage_UpdateRecord ::
    "string \<Rightarrow> int \<Rightarrow> header_records \<Rightarrow> (bool \<times> header_records) option" where
  "HeaderPage_UpdateRecord name root_id recs =
     (if length name < 32 then
        let index = HeaderPage_FindRecord name recs
        in if index = -1 then Some (False, recs)
           else Some (True, recs[nat index := (fst (recs ! nat index), root_id)])
      else None)"

definition HeaderPage_GetRootId :: "string \<Rightarrow> header_records \<Rightarrow> int option option" where
  "HeaderPage_GetRootId name recs =
     (if length name < 32 then
        let index = HeaderPage_FindRecord name recs
        in if index = -1 then Some None else Some (Some (snd (recs ! nat index)))
      else None)"

section \<open>The header page as a map\<close>

lemma find_record_from_None:
  "0 \<le> i \<Longrightarrow> find_record_from name recs i = -1 \<longleftrightarrow> map_of recs name = None"
proof (induction recs arbitrary: i)
  case (Cons r recs)
  then show ?case by (cases r) auto
qed simp

lemma find_record_from_split:
  assumes "map_of recs name = Some v" and "0 \<le> i"
  shows "\<exists>xs ys. recs = xs @ (name, v) # ys \<and> map_of xs name = None \<and>
     find_record_from name recs i = i + int (length xs)"
  using assms
proof (induction recs arbitrary: i)
  case (Cons r recs)
  obtain a b where r: "r = (a, b)" by force
  show ?case
  proof (cases "a = name")
    case True
    then show ?thesis using Cons.prems by (intro exI [of _ "[]"] exI [of _ recs]) (simp add: r)
  next
    case False
    then obtain xs ys where "recs = xs @ (name, v) # ys" "map_of xs name = None"
      "find_record_from name recs (i + 1) = i + 1 + int (length xs)"
      using Cons.IH [of "i + 1"] Cons.prems by (auto simp: r)
    then show ?thesis using False by (intro exI [of _ "r # xs"] exI [of _ ys]) (simp add: r)
  qed
qed simp

lemma HeaderPage_FindRecord_cases:
  obtains (absent) "map_of recs name = None" "HeaderPage_FindRecord name recs = -1"
  | (present) xs v ys where "recs = xs @ (name, v) # ys" "map_of xs name = None"
      "map_of recs name = Some v" "HeaderPage_FindRecord name recs = int (length xs)"
proof (cases "map_of recs name")
  case None
  then show thesis
    using find_record_from_None [of 0 name recs] absent by (simp add: HeaderPage_FindRecord_def)
next
  case (Some v)
  then show thesis
    using find_record_from_split [OF Some, of 0] present by (auto simp: HeaderPage_FindRecord_def)
qed

lemma HeaderPage_SearchRecord_map:
  "recs \<noteq> [] \<Longrightarrow> HeaderPage_SearchRecord name recs = Some (map_of recs name)"
  by (rule HeaderPage_FindRecord_cases [of recs name])
    (auto simp: HeaderPage_SearchRecord_def Let_def)

lemma HeaderPage_GetRootId_map:
  "length name < 32 \<Longrightarrow> HeaderPage_GetRootId name recs = Some (map_of recs name)"
  by (rule HeaderPage_FindRecord_cases [of recs name])
    (auto simp: HeaderPage_GetRootId_def Let_def)

lemma HeaderPage_UpdateRecord_map:
  assumes "length name < 32"
  obtains recs' where
    "HeaderPage_UpdateRecord name root_id recs = Some (map_of recs name \<noteq> None, recs')"
    "map_of recs' = (if map_of recs name = None then map_of recs
                     else (map_of recs)(name \<mapsto> root_id))"
    "map fst recs' = map fst recs"
proof (rule HeaderPage_FindRecord_cases [of recs name])
  assume "map_of recs name = None" "HeaderPage_FindRecord name recs = -1"
  then show thesis
    using assms that [of recs] by (simp add: HeaderPage_UpdateRecord_def)
next
  fix xs v ys
  assume r: "recs = xs @ (name, v) # ys" "map_of xs name = None" "map_of recs name = Some v"
    "HeaderPage_FindRecord name recs = int (length xs)"
  have "map_of (xs @ (name, root_id) # ys) = (map_of recs)(name \<mapsto> root_id)"
    using r(1,2) by (auto simp: fun_eq_iff map_add_def split: option.splits)
  moreover have "HeaderPage_UpdateRecord name root_id recs
      = Some (True, xs @ (name, root_id) # ys)"
    using assms r by (simp add: HeaderPage_UpdateRecord_def)
  ultimately show thesis
    using r that [of "xs @ (name, root_id) # ys"] by simp
qed

lemma HeaderPage_InsertRecord_map:
  assumes "length name < 32"
  shows "HeaderPage_InsertRecord name root_id recs =
     (case map_of recs name of
        None \<Rightarrow> Some (True, recs @ [(name, root_id)])
      | Some v \<Rightarrow> Some (False, recs))"
  using assms
  by (rule_tac HeaderPage_FindRecord_cases [of recs name])
    (auto simp: HeaderPage_InsertRecord_def)

end
