(* ===== verification/BPlusTree.thy ===== *)
theory BPlusTree
  imports TreePages HeaderPage
begin

text \<open>
  The non-thread-safe B+ tree (\<^verbatim>\<open>database/src/storage/index/b_plus_tree_nts.cpp\<close>) and the
  operations of internal pages that reach into the page store
  (\<^verbatim>\<open>b_plus_tree_internal_page.cpp\<close>).

  The tree lives in pages that it names by number and reaches through the buffer pool. The
  state keeps what the pool promises its client: the contents of every page that has been
  created (\<open>pages\<close>) and the number of times each is pinned (\<open>pins\<close>). \<open>fetch_page\<close>,
  \<open>unpin_page\<close>, \<open>new_page\<close> and \<open>delete_page\<close> are the calls of the pool; \<open>put_page\<close> is a store
  through a page pointer. A model operation returns \<open>None\<close> where the code would follow a
  dangling page number, read a slot that is not live, throw, or not return.
\<close>

section \<open>State\<close>

datatype ('k, 'v) page =
    HeaderNode header_records
  | LeafNode "('k, 'v) leaf_page"
  | InternalNode "'k internal_page"

record ('k, 'v) bpt =
  index_name :: string
  root_page_id :: int
  comparator :: "'k \<Rightarrow> 'k \<Rightarrow> int"
  leaf_max_size :: int
  internal_max_size :: int
  zero_key :: 'k
  pages :: "int \<Rightarrow> ('k, 'v) page option"
  pins :: "int \<Rightarrow> nat"
  disk_next :: int

definition fetch_page :: "int \<Rightarrow> ('k, 'v) bpt \<Rightarrow> (('k, 'v) page \<times> ('k, 'v) bpt) option" where
  "fetch_page pid t =
     (case pages t pid of
        None \<Rightarrow> None
      | Some n \<Rightarrow> Some (n, t\<lparr>pins := (pins t)(pid := pins t pid + 1)\<rparr>))"

definition unpin_page :: "int \<Rightarrow> ('k, 'v) bpt \<Rightarrow> ('k, 'v) bpt" where
  "unpin_page pid t = t\<lparr>pins := (pins t)(pid := pins t pid - 1)\<rparr>"

definition put_page :: "int \<Rightarrow> ('k, 'v) page \<Rightarrow> ('k, 'v) bpt \<Rightarrow> ('k, 'v) bpt" where
  "put_page pid n t = t\<lparr>pages := (pages t)(pid \<mapsto> n)\<rparr>"

definition new_page :: "(int \<Rightarrow> ('k, 'v) page) \<Rightarrow> ('k, 'v) bpt \<Rightarrow> int \<times> ('k, 'v) bpt" where
  "new_page init t =
     (let pid = disk_next t
      in (pid, t\<lparr>pages := (pages t)(pid \<mapsto> init pid), pins := (pins t)(pid := 1),
               disk_next := pid + 1\<rparr>))"

definition delete_page :: "int \<Rightarrow> ('k, 'v) bpt \<Rightarrow> ('k, 'v) bpt" where
  "delete_page pid t =
     (if pins t pid = 0 then t\<lparr>pages := (pages t)(pid := None)\<rparr> else t)"

text \<open>The \<^verbatim>\<open>reinterpret_cast\<close>s of the source.\<close>

definition get_leaf :: "int \<Rightarrow> ('k, 'v) bpt \<Rightarrow> ('k, 'v) leaf_page option" where
  "get_leaf pid t = (case pages t pid of Some (LeafNode p) \<Rightarrow> Some p | _ \<Rightarrow> None)"

definition get_internal :: "int \<Rightarrow> ('k, 'v) bpt \<Rightarrow> 'k internal_page option" where
  "get_internal pid t = (case pages t pid of Some (InternalNode p) \<Rightarrow> Some p | _ \<Rightarrow> None)"

definition get_node :: "int \<Rightarrow> ('k, 'v) bpt \<Rightarrow> ('k, 'v) page option" where
  "get_node pid t =
     (case pages t pid of
        Some (LeafNode p) \<Rightarrow> Some (LeafNode p)
      | Some (InternalNode p) \<Rightarrow> Some (InternalNode p)
      | _ \<Rightarrow> None)"

fun node_size :: "('k, 'v) page \<Rightarrow> int" where
  "node_size (LeafNode p) = LeafPage_GetSize p"
| "node_size (InternalNode p) = InternalPage_GetSize p"
| "node_size (HeaderNode recs) = 0"

fun node_max_size :: "('k, 'v) page \<Rightarrow> int" where
  "node_max_size (LeafNode p) = max_size p"
| "node_max_size (InternalNode p) = max_size p"
| "node_max_size (HeaderNode recs) = 0"

fun node_min_size :: "('k, 'v) page \<Rightarrow> int" where
  "node_min_size (LeafNode p) = GetMinSize p"
| "node_min_size (InternalNode p) = GetMinSize p"
| "node_min_size (HeaderNode recs) = 0"

fun node_parent :: "('k, 'v) page \<Rightarrow> int" where
  "node_parent (LeafNode p) = parent_page_id p"
| "node_parent (InternalNode p) = parent_page_id p"
| "node_parent (HeaderNode recs) = INVALID_PAGE_ID"

fun node_set_parent :: "int \<Rightarrow> ('k, 'v) page \<Rightarrow> ('k, 'v) page" where
  "node_set_parent parent (LeafNode p) = LeafNode (p\<lparr>parent_page_id := parent\<rparr>)"
| "node_set_parent parent (InternalNode p) = InternalNode (p\<lparr>parent_page_id := parent\<rparr>)"
| "node_set_parent parent (HeaderNode recs) = HeaderNode recs"

definition update_internal ::
    "int \<Rightarrow> ('k internal_page \<Rightarrow> 'k internal_page) \<Rightarrow> ('k, 'v) bpt \<Rightarrow> ('k, 'v) bpt option" where
  "update_internal pid f t =
     do { p \<leftarrow> get_internal pid t; Some (put_page pid (InternalNode (f p)) t) }"

section \<open>Internal pages in the store\<close>

text \<open>
  \<^verbatim>\<open>FetchPage(child)\<close>, \<^verbatim>\<open>SetParentPageId(parent)\<close>, \<^verbatim>\<open>UnpinPage(child, true)\<close>: the loop body of
  \<^verbatim>\<open>CopyNFrom\<close>, \<^verbatim>\<open>MoveAllTo\<close>, \<^verbatim>\<open>CopyLastFrom\<close> and \<^verbatim>\<open>CopyFirstFrom\<close>.
\<close>

definition adopt_child :: "int \<Rightarrow> int \<Rightarrow> ('k, 'v) bpt \<Rightarrow> ('k, 'v) bpt option" where
  "adopt_child parent child t =
     do { (n, t1) \<leftarrow> fetch_page child t;
          let t2 = put_page child (node_set_parent parent n) t1;
          Some (unpin_page child t2) }"

fun adopt_children :: "int \<Rightarrow> int list \<Rightarrow> ('k, 'v) bpt \<Rightarrow> ('k, 'v) bpt option" where
  "adopt_children parent [] t = Some t"
| "adopt_children parent (c # cs) t =
     do { t' \<leftarrow> adopt_child parent c t; adopt_children parent cs t' }"

definition InternalPage_CopyNFrom ::
    "int \<Rightarrow> ('k \<times> int) list \<Rightarrow> ('k, 'v) bpt \<Rightarrow> ('k, 'v) bpt option" where
  "InternalPage_CopyNFrom pid items t =
     do { p \<leftarrow> get_internal pid t;
          if InternalPage_GetSize p + int (length items) > max_size p then None
          else do {
            t1 \<leftarrow> update_internal pid
                    (\<lambda>p. p\<lparr>internal_array := internal_array p @ items\<rparr>) t;
            adopt_children pid (map snd items) t1 } }"

definition InternalPage_MoveHalfTo :: "int \<Rightarrow> int \<Rightarrow> ('k, 'v) bpt \<Rightarrow> ('k, 'v) bpt option" where
  "InternalPage_MoveHalfTo pid recipient t =
     do { p \<leftarrow> get_internal pid t;
          let new_this_size = GetMinSize p;
          let new_recipient_size = InternalPage_GetSize p - new_this_size;
          t1 \<leftarrow> InternalPage_CopyNFrom recipient
                  (take (nat new_recipient_size) (drop (nat new_this_size) (internal_array p))) t;
          t2 \<leftarrow> update_internal pid
                  (\<lambda>p. p\<lparr>internal_array := take (nat new_this_size) (internal_array p)\<rparr>) t1;
          update_internal recipient
            (\<lambda>p. p\<lparr>internal_array := take (nat new_recipient_size) (internal_array p)\<rparr>) t2 }"

definition InternalPage_MoveAllTo ::
    "int \<Rightarrow> int \<Rightarrow> 'k \<Rightarrow> ('k, 'v) bpt \<Rightarrow> ('k, 'v) bpt option" where
  "InternalPage_MoveAllTo pid recipient middle_key t =
     do { p \<leftarrow> get_internal pid t;
          r \<leftarrow> get_internal recipient t;
          if InternalPage_GetSize r + InternalPage_GetSize p > max_size p then None
          else do {
            t1 \<leftarrow> update_internal recipient
                    (\<lambda>r. InternalPage_SetKeyAt (InternalPage_GetSize r) middle_key
                       (r\<lparr>internal_array := internal_array r @ internal_array p\<rparr>)) t;
            t2 \<leftarrow> adopt_children recipient (map snd (internal_array p)) t1;
            update_internal pid (\<lambda>p. p\<lparr>internal_array := []\<rparr>) t2 } }"

definition InternalPage_CopyLastFrom ::
    "int \<Rightarrow> 'k \<times> int \<Rightarrow> ('k, 'v) bpt \<Rightarrow> ('k, 'v) bpt option" where
  "InternalPage_CopyLastFrom pid pair t =
     do { t1 \<leftarrow> update_internal pid (\<lambda>p. p\<lparr>internal_array := internal_array p @ [pair]\<rparr>) t;
          adopt_child pid (snd pair) t1 }"

definition InternalPage_CopyFirstFrom ::
    "int \<Rightarrow> 'k \<times> int \<Rightarrow> ('k, 'v) bpt \<Rightarrow> ('k, 'v) bpt option" where
  "InternalPage_CopyFirstFrom pid pair t =
     do { t1 \<leftarrow> update_internal pid
                  (\<lambda>p. p\<lparr>internal_array := array_insert (internal_array p) 0 pair\<rparr>) t;
          adopt_child pid (snd pair) t1 }"

definition InternalPage_MoveFirstToEndOf ::
    "int \<Rightarrow> int \<Rightarrow> 'k \<Rightarrow> ('k, 'v) bpt \<Rightarrow> ('k, 'v) bpt option" where
  "InternalPage_MoveFirstToEndOf pid recipient middle_key t =
     do { p \<leftarrow> get_internal pid t;
          child \<leftarrow> InternalPage_ValueAt 0 p;
          t1 \<leftarrow> InternalPage_CopyLastFrom recipient (middle_key, child) t;
          update_internal pid (InternalPage_Remove 0) t1 }"

definition InternalPage_MoveLastToFrontOf ::
    "int \<Rightarrow> int \<Rightarrow> 'k \<Rightarrow> ('k, 'v) bpt \<Rightarrow> ('k, 'v) bpt option" where
  "InternalPage_MoveLastToFrontOf pid recipient middle_key t =
     do { t1 \<leftarrow> update_internal recipient (InternalPage_SetKeyAt 0 middle_key) t;
          p \<leftarrow> get_internal pid t1;
          pair \<leftarrow> slot (internal_array p) (InternalPage_GetSize p - 1);
          t2 \<leftarrow> InternalPage_CopyFirstFrom recipient pair t1;
          update_internal pid (\<lambda>p. p\<lparr>internal_array := butlast (internal_array p)\<rparr>) t2 }"

section \<open>Searching\<close>

definition BPlusTree_IsEmpty :: "('k, 'v) bpt \<Rightarrow> bool" where
  "BPlusTree_IsEmpty t \<longleftrightarrow> root_page_id t = INVALID_PAGE_ID"

text \<open>
  \<^verbatim>\<open>FindLeafPage\<close> leaves the leaf it returns pinned; \<^verbatim>\<open>nullptr\<close> is \<^verbatim>\<open>INVALID_PAGE_ID\<close>.
\<close>

partial_function (option) FindLeafPage_loop ::
    "'k \<Rightarrow> bool \<Rightarrow> bool \<Rightarrow> int \<Rightarrow> ('k, 'v) bpt \<Rightarrow> (int \<times> ('k, 'v) bpt) option" where
  "FindLeafPage_loop key leftMost rightMost last_page_id t =
     do { node \<leftarrow> get_internal last_page_id t;
          next_page_id \<leftarrow>
            (if leftMost then InternalPage_ValueAt 0 node
             else if rightMost then InternalPage_ValueAt (InternalPage_GetSize node - 1) node
             else InternalPage_Lookup (comparator t) key node);
          (next_node, t1) \<leftarrow> fetch_page next_page_id t;
          let t2 = unpin_page last_page_id t1;
          (case next_node of
             LeafNode p \<Rightarrow> Some (next_page_id, t2)
           | InternalNode p \<Rightarrow> FindLeafPage_loop key leftMost rightMost next_page_id t2
           | HeaderNode recs \<Rightarrow> None) }"

definition FindLeafPage ::
    "'k \<Rightarrow> bool \<Rightarrow> bool \<Rightarrow> ('k, 'v) bpt \<Rightarrow> (int \<times> ('k, 'v) bpt) option" where
  "FindLeafPage key leftMost rightMost t =
     (if root_page_id t = INVALID_PAGE_ID then Some (INVALID_PAGE_ID, t)
      else do {
        (root, t1) \<leftarrow> fetch_page (root_page_id t) t;
        (case root of
           LeafNode p \<Rightarrow> Some (root_page_id t, t1)
         | InternalNode p \<Rightarrow> FindLeafPage_loop key leftMost rightMost (root_page_id t) t1
         | HeaderNode recs \<Rightarrow> None) })"

text \<open>Both \<^verbatim>\<open>GetValue\<close>s return the values they push onto the result vector.\<close>

definition BPlusTree_GetValue ::
    "'k \<Rightarrow> ('k, 'v) bpt \<Rightarrow> ('v list \<times> ('k, 'v) bpt) option" where
  "BPlusTree_GetValue key t =
     do { (leaf_pid, t1) \<leftarrow> FindLeafPage key False False t;
          if leaf_pid = INVALID_PAGE_ID then Some ([], t1)
          else do {
            leaf \<leftarrow> get_leaf leaf_pid t1;
            let found = LeafPage_Lookup (comparator t1) key leaf;
            Some (case found of None \<Rightarrow> [] | Some v \<Rightarrow> [v], unpin_page leaf_pid t1) } }"

partial_function (option) scan_loop ::
    "'k \<Rightarrow> ('k \<Rightarrow> 'k \<Rightarrow> int) \<Rightarrow> int \<Rightarrow> int \<Rightarrow> 'v list \<Rightarrow> ('k, 'v) bpt \<Rightarrow>
     ('v list \<times> ('k, 'v) bpt) option" where
  "scan_loop key new_comparator pid index result t =
     do { leaf \<leftarrow> get_leaf pid t;
          (stop, index', result') \<leftarrow>
            (if index \<noteq> -1 then do {
               item \<leftarrow> LeafPage_GetItem index leaf;
               Some (if new_comparator key (fst item) \<noteq> 0 then (True, index, result)
                     else (False, index + 1, result @ [snd item])) }
             else Some (False, index, result));
          if stop then Some (result', unpin_page pid t)
          else if index' = -1 \<or> index' = LeafPage_GetSize leaf then do {
            let t1 = unpin_page pid t;
            if next_page_id leaf = INVALID_PAGE_ID then Some (result', t1)
            else do {
              (n, t2) \<leftarrow> fetch_page (next_page_id leaf) t1;
              scan_loop key new_comparator (next_page_id leaf) 0 result' t2 } }
          else scan_loop key new_comparator pid index' result' t }"

definition BPlusTree_ScanValue ::
    "'k \<Rightarrow> ('k \<Rightarrow> 'k \<Rightarrow> int) \<Rightarrow> ('k, 'v) bpt \<Rightarrow> ('v list \<times> ('k, 'v) bpt) option" where
  "BPlusTree_ScanValue key new_comparator t =
     do { (leaf_pid, t1) \<leftarrow> FindLeafPage key False False t;
          if leaf_pid = INVALID_PAGE_ID then Some ([], t1)
          else do {
            leaf \<leftarrow> get_leaf leaf_pid t1;
            let index = LeafPage_KeyIndex (comparator t1) key leaf;
            scan_loop key new_comparator leaf_pid index [] t1 } }"

section \<open>Insertion\<close>

definition NewLeaf :: "int \<Rightarrow> ('k, 'v) bpt \<Rightarrow> int \<times> ('k, 'v) bpt" where
  "NewLeaf parent_id t =
     new_page (\<lambda>pid. LeafNode (LeafPage_Init pid parent_id (leaf_max_size t))) t"

definition NewInternal :: "int \<Rightarrow> ('k, 'v) bpt \<Rightarrow> int \<times> ('k, 'v) bpt" where
  "NewInternal parent_id t =
     new_page (\<lambda>pid. InternalNode (InternalPage_Init pid parent_id (internal_max_size t))) t"

definition UpdateRootPageId :: "('k, 'v) bpt \<Rightarrow> ('k, 'v) bpt option" where
  "UpdateRootPageId t =
     do { (n, t1) \<leftarrow> fetch_page HEADER_PAGE_ID t;
          (case n of
             HeaderNode recs \<Rightarrow> do {
               (ok, recs') \<leftarrow> HeaderPage_UpdateRecord (index_name t) (root_page_id t) recs;
               Some (unpin_page HEADER_PAGE_ID (put_page HEADER_PAGE_ID (HeaderNode recs') t1)) }
           | _ \<Rightarrow> None) }"

definition StartNewTree :: "'k \<Rightarrow> 'v \<Rightarrow> ('k, 'v) bpt \<Rightarrow> ('k, 'v) bpt option" where
  "StartNewTree key value t =
     do { let (pid, t1) = NewLeaf INVALID_PAGE_ID t;
          node \<leftarrow> get_leaf pid t1;
          let node' = snd (LeafPage_Insert (comparator t1) key value node);
          let t2 = unpin_page pid (put_page pid (LeafNode node') t1);
          UpdateRootPageId (t2\<lparr>root_page_id := pid\<rparr>) }"

definition SplitLeaf :: "int \<Rightarrow> ('k, 'v) bpt \<Rightarrow> (int \<times> ('k, 'v) bpt) option" where
  "SplitLeaf pid t =
     do { node \<leftarrow> get_leaf pid t;
          let (extra_pid, t1) = NewLeaf (parent_page_id node) t;
          extra \<leftarrow> get_leaf extra_pid t1;
          let (node', extra') = LeafPage_MoveHalfTo node extra;
          Some (extra_pid, put_page extra_pid (LeafNode extra') (put_page pid (LeafNode node') t1)) }"

definition SplitInternal :: "int \<Rightarrow> ('k, 'v) bpt \<Rightarrow> (int \<times> ('k, 'v) bpt) option" where
  "SplitInternal pid t =
     do { node \<leftarrow> get_internal pid t;
          let (extra_pid, t1) = NewInternal (parent_page_id node) t;
          t2 \<leftarrow> InternalPage_MoveHalfTo pid extra_pid t1;
          Some (extra_pid, t2) }"

text \<open>A new root above a page that was split (the first branch of \<^verbatim>\<open>InsertIntoParent\<close>).\<close>

definition GrowRoot :: "int \<Rightarrow> 'k \<Rightarrow> int \<Rightarrow> ('k, 'v) bpt \<Rightarrow> ('k, 'v) bpt option" where
  "GrowRoot old_pid key new_pid t =
     do { let (root_pid, t1) = NewInternal INVALID_PAGE_ID t;
          t2 \<leftarrow> update_internal root_pid
                  (InternalPage_PopulateNewRoot (zero_key t) old_pid key new_pid) t1;
          old_node \<leftarrow> get_node old_pid t2;
          let t3 = put_page old_pid (node_set_parent root_pid old_node) t2;
          new_node \<leftarrow> get_node new_pid t3;
          let t4 = put_page new_pid (node_set_parent root_pid new_node) t3;
          t5 \<leftarrow> UpdateRootPageId (t4\<lparr>root_page_id := root_pid\<rparr>);
          Some (unpin_page new_pid (unpin_page old_pid (unpin_page root_pid t5))) }"

partial_function (option) InsertIntoParent ::
    "int \<Rightarrow> 'k \<Rightarrow> int \<Rightarrow> ('k, 'v) bpt \<Rightarrow> ('k, 'v) bpt option" where
  "InsertIntoParent old_pid key new_pid t =
     do { old_node \<leftarrow> get_node old_pid t;
          if node_parent old_node = INVALID_PAGE_ID then GrowRoot old_pid key new_pid t
          else do {
            let parent_pid = node_parent old_node;
            (n, t1) \<leftarrow> fetch_page parent_pid t;
            let t2 = unpin_page new_pid (unpin_page old_pid t1);
            t3 \<leftarrow> update_internal parent_pid
                    (\<lambda>p. snd (InternalPage_InsertNodeAfter old_pid key new_pid p)) t2;
            parent_node \<leftarrow> get_internal parent_pid t3;
            if InternalPage_GetSize parent_node = max_size parent_node then do {
              (extra_pid, t4) \<leftarrow> SplitInternal parent_pid t3;
              extra_node \<leftarrow> get_internal extra_pid t4;
              extra_key \<leftarrow> InternalPage_KeyAt 0 extra_node;
              InsertIntoParent parent_pid extra_key extra_pid t4 }
            else Some (unpin_page parent_pid t3) } }"

definition InsertIntoLeaf :: "'k \<Rightarrow> 'v \<Rightarrow> ('k, 'v) bpt \<Rightarrow> (bool \<times> ('k, 'v) bpt) option" where
  "InsertIntoLeaf key value t =
     do { (leaf_pid, t1) \<leftarrow> FindLeafPage key False False t;
          leaf \<leftarrow> get_leaf leaf_pid t1;
          let (size, leaf') = LeafPage_Insert (comparator t1) key value leaf;
          let t2 = put_page leaf_pid (LeafNode leaf') t1;
          if size = -1 then Some (False, unpin_page leaf_pid t2)
          else if LeafPage_GetSize leaf' < max_size leaf' then Some (True, unpin_page leaf_pid t2)
          else do {
            (extra_pid, t3) \<leftarrow> SplitLeaf leaf_pid t2;
            leaf_node \<leftarrow> get_leaf leaf_pid t3;
            extra_node \<leftarrow> get_leaf extra_pid t3;
            let t4 = put_page extra_pid
                       (LeafNode (extra_node\<lparr>next_page_id := next_page_id leaf_node\<rparr>)) t3;
            let t5 = put_page leaf_pid (LeafNode (leaf_node\<lparr>next_page_id := extra_pid\<rparr>)) t4;
            extra_key \<leftarrow> LeafPage_KeyAt 0 extra_node;
            t6 \<leftarrow> InsertIntoParent leaf_pid extra_key extra_pid t5;
            Some (True, t6) } }"

definition BPlusTree_Insert :: "'k \<Rightarrow> 'v \<Rightarrow> ('k, 'v) bpt \<Rightarrow> (bool \<times> ('k, 'v) bpt) option" where
  "BPlusTree_Insert key value t =
     (if BPlusTree_IsEmpty t then do { t1 \<leftarrow> StartNewTree key value t; Some (True, t1) }
      else InsertIntoLeaf key value t)"

section \<open>Removal\<close>

definition AdjustRoot :: "int \<Rightarrow> ('k, 'v) bpt \<Rightarrow> (bool \<times> ('k, 'v) bpt) option" where
  "AdjustRoot pid t =
     do { old_root_node \<leftarrow> get_node pid t;
          (case old_root_node of
             InternalNode root_node \<Rightarrow>
               if InternalPage_GetSize root_node = 1 then do {
                 (child_pid, root_node') \<leftarrow> InternalPage_RemoveAndReturnOnlyChild root_node;
                 let t1 = put_page pid (InternalNode root_node') t;
                 let t2 = delete_page pid (unpin_page pid t1);
                 (child_node, t3) \<leftarrow> fetch_page child_pid t2;
                 let t4 = put_page child_pid (node_set_parent INVALID_PAGE_ID child_node) t3;
                 let t5 = unpin_page child_pid (t4\<lparr>root_page_id := child_pid\<rparr>);
                 t6 \<leftarrow> UpdateRootPageId t5;
                 Some (True, t6) }
               else Some (False, unpin_page pid t)
           | LeafNode root_node \<Rightarrow>
               if LeafPage_GetSize root_node = 0 then do {
                 let t1 = delete_page pid (unpin_page pid t);
                 t2 \<leftarrow> UpdateRootPageId (t1\<lparr>root_page_id := INVALID_PAGE_ID\<rparr>);
                 Some (True, t2) }
               else Some (False, unpin_page pid t)
           | HeaderNode recs \<Rightarrow> None) }"

text \<open>
  \<^verbatim>\<open>Redistribute\<close>: index 0 moves the first pair of the neighbour (on the right) to the end of
  the node, index 1 the last pair of the neighbour (on the left) to its front. The parent is
  fetched again and unpinned here; \<^verbatim>\<open>CoalesceOrRedistribute\<close> unpins its own fetch.
\<close>

definition Redistribute ::
    "int \<Rightarrow> int \<Rightarrow> int \<Rightarrow> ('k, 'v) bpt \<Rightarrow> ('k, 'v) bpt option" where
  "Redistribute neighbor_pid node_pid index t =
     do { node \<leftarrow> get_node node_pid t;
          let parent_pid = node_parent node;
          (n, t1) \<leftarrow> fetch_page parent_pid t;
          parent_node \<leftarrow> get_internal parent_pid t1;
          let array_id =
            InternalPage_ValueIndex (if index = 0 then neighbor_pid else node_pid) parent_node;
          middle_key \<leftarrow> InternalPage_KeyAt array_id parent_node;
          neighbor \<leftarrow> get_node neighbor_pid t1;
          t2 \<leftarrow>
            (case neighbor of
               LeafNode leaf_neighbor \<Rightarrow> do {
                 leaf_node \<leftarrow> get_leaf node_pid t1;
                 (leaf_neighbor', leaf_node') \<leftarrow>
                   (if index = 0 then LeafPage_MoveFirstToEndOf leaf_neighbor leaf_node
                    else LeafPage_MoveLastToFrontOf leaf_neighbor leaf_node);
                 let t' = put_page node_pid (LeafNode leaf_node')
                            (put_page neighbor_pid (LeafNode leaf_neighbor') t1);
                 key \<leftarrow> LeafPage_KeyAt 0 (if index = 0 then leaf_neighbor' else leaf_node');
                 update_internal parent_pid (InternalPage_SetKeyAt array_id key) t' }
             | InternalNode internal_neighbor \<Rightarrow> do {
                 t' \<leftarrow>
                   (if index = 0
                    then InternalPage_MoveFirstToEndOf neighbor_pid node_pid middle_key t1
                    else InternalPage_MoveLastToFrontOf neighbor_pid node_pid middle_key t1);
                 right_node \<leftarrow> get_internal (if index = 0 then neighbor_pid else node_pid) t';
                 key \<leftarrow> InternalPage_KeyAt 0 right_node;
                 update_internal parent_pid (InternalPage_SetKeyAt array_id key) t' }
             | HeaderNode recs \<Rightarrow> None);
          Some (unpin_page parent_pid (unpin_page neighbor_pid (unpin_page node_pid t2))) }"

text \<open>
  \<^verbatim>\<open>Coalesce\<close> up to its last statement, the call of \<^verbatim>\<open>CoalesceOrRedistribute\<close> on the parent,
  which is made below. Index 0 says that the node is the leftmost child: then the neighbour
  is on its right and the two change places.
\<close>

definition Coalesce ::
    "int \<Rightarrow> int \<Rightarrow> int \<Rightarrow> int \<Rightarrow> ('k, 'v) bpt \<Rightarrow> ('k, 'v) bpt option" where
  "Coalesce neighbor_pid0 node_pid0 parent_pid index0 t =
     do { let neighbor_pid = (if index0 = 0 then node_pid0 else neighbor_pid0);
          let node_pid = (if index0 = 0 then neighbor_pid0 else node_pid0);
          let index = (if index0 = 0 then 1 else index0);
          parent \<leftarrow> get_internal parent_pid t;
          middle_key \<leftarrow> InternalPage_KeyAt index parent;
          node \<leftarrow> get_node node_pid t;
          t1 \<leftarrow>
            (case node of
               InternalNode curr_node \<Rightarrow> InternalPage_MoveAllTo node_pid neighbor_pid middle_key t
             | LeafNode curr_node \<Rightarrow> do {
                 prev_node \<leftarrow> get_leaf neighbor_pid t;
                 let (curr_node', prev_node') = LeafPage_MoveAllTo curr_node prev_node;
                 Some (put_page neighbor_pid
                         (LeafNode (prev_node'\<lparr>next_page_id := next_page_id curr_node'\<rparr>))
                         (put_page node_pid (LeafNode curr_node') t)) }
             | HeaderNode recs \<Rightarrow> None);
          t2 \<leftarrow> update_internal parent_pid (InternalPage_Remove index) t1;
          Some (unpin_page node_pid (unpin_page neighbor_pid t2)) }"

partial_function (option) CoalesceOrRedistribute ::
    "int \<Rightarrow> ('k, 'v) bpt \<Rightarrow> (bool \<times> ('k, 'v) bpt) option" where
  "CoalesceOrRedistribute pid t =
     do { node \<leftarrow> get_node pid t;
          if node_min_size node \<le> node_size node then Some (True, unpin_page pid t)
          else if node_parent node = INVALID_PAGE_ID then AdjustRoot pid t
          else do {
            let parent_pid = node_parent node;
            (n, t1) \<leftarrow> fetch_page parent_pid t;
            parent_node \<leftarrow> get_internal parent_pid t1;
            let node_id = InternalPage_ValueIndex pid parent_node;
            neighbor_pid \<leftarrow>
              InternalPage_ValueAt (if node_id = 0 then 1 else node_id - 1) parent_node;
            (neighbor, t2) \<leftarrow> fetch_page neighbor_pid t1;
            if node_size neighbor + node_size node < node_max_size node then do {
              t3 \<leftarrow> Coalesce neighbor_pid pid parent_pid node_id t2;
              CoalesceOrRedistribute parent_pid t3 }
            else do {
              t3 \<leftarrow> Redistribute neighbor_pid pid (if node_id = 0 then 0 else 1) t2;
              Some (False, unpin_page parent_pid t3) } } }"

definition BPlusTree_Remove :: "'k \<Rightarrow> ('k, 'v) bpt \<Rightarrow> (bool \<times> ('k, 'v) bpt) option" where
  "BPlusTree_Remove key t =
     do { (leaf_pid, t1) \<leftarrow> FindLeafPage key False False t;
          if leaf_pid = INVALID_PAGE_ID then Some (False, t1)
          else do {
            leaf \<leftarrow> get_leaf leaf_pid t1;
            let (size, leaf') = LeafPage_RemoveAndDeleteRecord (comparator t1) key leaf;
            if size = -1 then Some (False, unpin_page leaf_pid t1)
            else do {
              (b, t2) \<leftarrow> CoalesceOrRedistribute leaf_pid (put_page leaf_pid (LeafNode leaf') t1);
              Some (True, t2) } } }"

end
