(* ===== verification/TreeShape.thy ===== *)
theory TreeShape
  imports BPlusTree
begin

text \<open>
  The tree that a set of pages holds. \<open>gtree\<close> is the tree the pages describe, with the page
  number of every node; \<open>rep\<close> says that the store holds exactly those pages, parent pointers
  included; \<open>chain\<close> that the next pointers link the leaves from left to right; \<open>ordered\<close> that
  every key lies between the separators above it; \<open>shape\<close> that all leaves are at one depth and
  every page is between half full and not full.

  An operation that climbs from a leaf works below a path of ancestors: \<open>ctx\<close> is that path,
  innermost first, and \<open>plug\<close> puts a subtree back into it. Each predicate on a whole tree splits
  into one on the path and one on the subtree.
\<close>

section \<open>Trees with page numbers\<close>

datatype ('k, 'v) gtree =
    GLeaf int "('k \<times> 'v) list"
  | GNode int "('k \<times> ('k, 'v) gtree) list"

type_synonym ('k, 'v) children = "('k \<times> ('k, 'v) gtree) list"

fun root_of :: "('k, 'v) gtree \<Rightarrow> int" where
  "root_of (GLeaf p es) = p"
| "root_of (GNode p kts) = p"

lemma size_child [termination_simp]:
  "kt \<in> set kts \<Longrightarrow> size (snd kt) < Suc (size_list (size_prod (\<lambda>_. 0) size) kts)"
  by (induction kts) auto

fun pids :: "('k, 'v) gtree \<Rightarrow> int list" where
  "pids (GLeaf p es) = [p]"
| "pids (GNode p kts) = p # concat (map (\<lambda>kt. pids (snd kt)) kts)"

fun leaf_ids :: "('k, 'v) gtree \<Rightarrow> int list" where
  "leaf_ids (GLeaf p es) = [p]"
| "leaf_ids (GNode p kts) = concat (map (\<lambda>kt. leaf_ids (snd kt)) kts)"

fun entries :: "('k, 'v) gtree \<Rightarrow> ('k \<times> 'v) list" where
  "entries (GLeaf p es) = es"
| "entries (GNode p kts) = concat (map (\<lambda>kt. entries (snd kt)) kts)"

abbreviation "pids_of kts \<equiv> concat (map (\<lambda>kt. pids (snd kt)) kts)"
abbreviation "leaf_ids_of kts \<equiv> concat (map (\<lambda>kt. leaf_ids (snd kt)) kts)"
abbreviation "entries_of kts \<equiv> concat (map (\<lambda>kt. entries (snd kt)) kts)"

definition child_slots :: "('k, 'v) children \<Rightarrow> ('k \<times> int) list" where
  "child_slots kts = map (\<lambda>kt. (fst kt, root_of (snd kt))) kts"

fun rep :: "(int \<Rightarrow> ('k, 'v) page option) \<Rightarrow> int \<Rightarrow> int \<Rightarrow> int \<Rightarrow> ('k, 'v) gtree \<Rightarrow> bool" where
  "rep pg lm im par (GLeaf p es) \<longleftrightarrow>
     (\<exists>nx. pg p = Some (LeafNode \<lparr>max_size = lm, parent_page_id = par, page_id = p,
                                  next_page_id = nx, leaf_array = es\<rparr>))"
| "rep pg lm im par (GNode p kts) \<longleftrightarrow>
     pg p = Some (InternalNode \<lparr>max_size = im, parent_page_id = par, page_id = p,
                                internal_array = child_slots kts\<rparr>) \<and>
     (\<forall>kt \<in> set kts. rep pg lm im p (snd kt))"

definition next_of :: "(int \<Rightarrow> ('k, 'v) page option) \<Rightarrow> int \<Rightarrow> int option" where
  "next_of pg p = (case pg p of Some (LeafNode l) \<Rightarrow> Some (next_page_id l) | _ \<Rightarrow> None)"

fun chain :: "(int \<Rightarrow> ('k, 'v) page option) \<Rightarrow> int list \<Rightarrow> int \<Rightarrow> bool" where
  "chain pg [] nx \<longleftrightarrow> True"
| "chain pg (p # ps) nx \<longleftrightarrow>
     next_of pg p = Some (case ps of [] \<Rightarrow> nx | q # qs \<Rightarrow> q) \<and> chain pg ps nx"

section \<open>Order\<close>

definition above :: "('k \<Rightarrow> 'k \<Rightarrow> int) \<Rightarrow> 'k option \<Rightarrow> 'k \<Rightarrow> bool" where
  "above cmp lo k \<longleftrightarrow> (case lo of None \<Rightarrow> True | Some a \<Rightarrow> \<not> cmp k a < 0)"

definition below :: "('k \<Rightarrow> 'k \<Rightarrow> int) \<Rightarrow> 'k option \<Rightarrow> 'k \<Rightarrow> bool" where
  "below cmp hi k \<longleftrightarrow> (case hi of None \<Rightarrow> True | Some b \<Rightarrow> cmp k b < 0)"

definition within :: "('k \<Rightarrow> 'k \<Rightarrow> int) \<Rightarrow> 'k option \<Rightarrow> 'k option \<Rightarrow> 'k \<Rightarrow> bool" where
  "within cmp lo hi k \<longleftrightarrow> above cmp lo k \<and> below cmp hi k"

text \<open>
  The bounds of the children of a node: the first starts at the node's own lower bound, every
  other at its separator, and each ends where the next starts.
\<close>

fun pairwise_bounds ::
    "('k option \<Rightarrow> 'k option \<Rightarrow> 'a \<Rightarrow> bool) \<Rightarrow> 'k option \<Rightarrow> 'k option \<Rightarrow> ('k \<times> 'a) list \<Rightarrow> bool" where
  "pairwise_bounds P lo hi [] \<longleftrightarrow> True"
| "pairwise_bounds P lo hi [kt] \<longleftrightarrow> P lo hi (snd kt)"
| "pairwise_bounds P lo hi (kt # kt' # kts) \<longleftrightarrow>
     P lo (Some (fst kt')) (snd kt) \<and> pairwise_bounds P (Some (fst kt')) hi (kt' # kts)"

lemma pairwise_bounds_eq:
  "(\<And>a b kt. kt \<in> set kts \<Longrightarrow> P a b (snd kt) = Q a b (snd kt)) \<Longrightarrow>
   pairwise_bounds P lo hi kts = pairwise_bounds Q lo hi kts"
proof (induction kts arbitrary: lo rule: induct_list012)
  case (3 kt kt' kts)
  have "P lo (Some (fst kt')) (snd kt) = Q lo (Some (fst kt')) (snd kt)"
    using "3.prems" by simp
  moreover have "pairwise_bounds P (Some (fst kt')) hi (kt' # kts)
      = pairwise_bounds Q (Some (fst kt')) hi (kt' # kts)"
    using "3.prems" by (intro "3.IH"(2)) simp
  ultimately show ?case by simp
qed simp_all

lemma pairwise_bounds_cong [fundef_cong]:
  assumes "kts = kts'" "lo = lo'" "hi = hi'"
    and "\<And>a b kt. kt \<in> set kts' \<Longrightarrow> P a b (snd kt) = Q a b (snd kt)"
  shows "pairwise_bounds P lo hi kts = pairwise_bounds Q lo' hi' kts'"
  unfolding assms(1-3) using assms(4) by (rule pairwise_bounds_eq)

text \<open>Separators lie strictly above the lower bound of their node.\<close>

definition below_lo :: "('k \<Rightarrow> 'k \<Rightarrow> int) \<Rightarrow> 'k option \<Rightarrow> 'k \<Rightarrow> bool" where
  "below_lo cmp lo k \<longleftrightarrow> (case lo of None \<Rightarrow> True | Some a \<Rightarrow> cmp a k < 0)"

definition separators :: "('k \<Rightarrow> 'k \<Rightarrow> int) \<Rightarrow> 'k option \<Rightarrow> 'k option \<Rightarrow> 'k list \<Rightarrow> bool" where
  "separators cmp lo hi ks \<longleftrightarrow>
     (\<forall>k \<in> set (tl ks). below_lo cmp lo k \<and> below cmp hi k) \<and> sorted_wrt (\<lambda>x y. cmp x y < 0) (tl ks)"

fun ordered ::
    "('k \<Rightarrow> 'k \<Rightarrow> int) \<Rightarrow> 'k option \<Rightarrow> 'k option \<Rightarrow> ('k, 'v) gtree \<Rightarrow> bool" where
  "ordered cmp lo hi (GLeaf p es) \<longleftrightarrow>
     sorted_keys cmp es \<and> (\<forall>e \<in> set es. within cmp lo hi (fst e))"
| "ordered cmp lo hi (GNode p kts) \<longleftrightarrow>
     kts \<noteq> [] \<and> separators cmp lo hi (map fst kts) \<and>
     pairwise_bounds (\<lambda>a b s. ordered cmp a b s) lo hi kts"

section \<open>Shape\<close>

fun shape :: "int \<Rightarrow> int \<Rightarrow> nat \<Rightarrow> ('k, 'v) gtree \<Rightarrow> bool" where
  "shape lm im h (GLeaf p es) \<longleftrightarrow> h = 0 \<and> lm div 2 \<le> int (length es) \<and> int (length es) < lm"
| "shape lm im h (GNode p kts) \<longleftrightarrow>
     h \<noteq> 0 \<and> im div 2 \<le> int (length kts) \<and> int (length kts) < im \<and>
     (\<forall>kt \<in> set kts. shape lm im (h - 1) (snd kt))"

fun root_shape :: "int \<Rightarrow> int \<Rightarrow> ('k, 'v) gtree \<Rightarrow> bool" where
  "root_shape lm im (GLeaf p es) \<longleftrightarrow> es \<noteq> [] \<and> int (length es) < lm"
| "root_shape lm im (GNode p kts) \<longleftrightarrow>
     2 \<le> int (length kts) \<and> int (length kts) < im \<and>
     (\<exists>h. \<forall>kt \<in> set kts. shape lm im h (snd kt))"

section \<open>Paths\<close>

type_synonym ('k, 'v) frame = "int \<times> ('k, 'v) children \<times> 'k \<times> ('k, 'v) children"
type_synonym ('k, 'v) ctx = "('k, 'v) frame list"

fun plug :: "('k, 'v) ctx \<Rightarrow> ('k, 'v) gtree \<Rightarrow> ('k, 'v) gtree" where
  "plug [] t = t"
| "plug ((p, ls, k, rs) # c) t = plug c (GNode p (ls @ (k, t) # rs))"

fun ctx_parent :: "('k, 'v) ctx \<Rightarrow> int" where
  "ctx_parent [] = INVALID_PAGE_ID"
| "ctx_parent ((p, ls, k, rs) # c) = p"

fun ctx_pids :: "('k, 'v) ctx \<Rightarrow> int list" where
  "ctx_pids [] = []"
| "ctx_pids ((p, ls, k, rs) # c) = p # pids_of ls @ pids_of rs @ ctx_pids c"

fun ctx_left :: "('k, 'v) ctx \<Rightarrow> ('k \<times> 'v) list" where
  "ctx_left [] = []"
| "ctx_left ((p, ls, k, rs) # c) = ctx_left c @ entries_of ls"

fun ctx_right :: "('k, 'v) ctx \<Rightarrow> ('k \<times> 'v) list" where
  "ctx_right [] = []"
| "ctx_right ((p, ls, k, rs) # c) = entries_of rs @ ctx_right c"

fun ctx_left_ids :: "('k, 'v) ctx \<Rightarrow> int list" where
  "ctx_left_ids [] = []"
| "ctx_left_ids ((p, ls, k, rs) # c) = ctx_left_ids c @ leaf_ids_of ls"

fun ctx_right_ids :: "('k, 'v) ctx \<Rightarrow> int list" where
  "ctx_right_ids [] = []"
| "ctx_right_ids ((p, ls, k, rs) # c) = leaf_ids_of rs @ ctx_right_ids c"

fun ctx_lo :: "('k, 'v) ctx \<Rightarrow> 'k option" where
  "ctx_lo [] = None"
| "ctx_lo ((p, ls, k, rs) # c) = (if ls = [] then ctx_lo c else Some k)"

fun ctx_hi :: "('k, 'v) ctx \<Rightarrow> 'k option" where
  "ctx_hi [] = None"
| "ctx_hi ((p, ls, k, rs) # c) = (case rs of [] \<Rightarrow> ctx_hi c | r # _ \<Rightarrow> Some (fst r))"

fun rep_ctx :: "(int \<Rightarrow> ('k, 'v) page option) \<Rightarrow> int \<Rightarrow> int \<Rightarrow> int \<Rightarrow> ('k, 'v) ctx \<Rightarrow> bool" where
  "rep_ctx pg lm im hole [] \<longleftrightarrow> True"
| "rep_ctx pg lm im hole ((p, ls, k, rs) # c) \<longleftrightarrow>
     pg p = Some (InternalNode \<lparr>max_size = im, parent_page_id = ctx_parent c, page_id = p,
                     internal_array = child_slots ls @ (k, hole) # child_slots rs\<rparr>) \<and>
     (\<forall>kt \<in> set ls \<union> set rs. rep pg lm im p (snd kt)) \<and> rep_ctx pg lm im p c"

fun ordered_ctx :: "('k \<Rightarrow> 'k \<Rightarrow> int) \<Rightarrow> ('k, 'v) ctx \<Rightarrow> bool" where
  "ordered_ctx cmp [] \<longleftrightarrow> True"
| "ordered_ctx cmp ((p, ls, k, rs) # c) \<longleftrightarrow>
     separators cmp (ctx_lo c) (ctx_hi c) (map fst ls @ k # map fst rs) \<and>
     pairwise_bounds (ordered cmp) (ctx_lo c) (Some k) ls \<and>
     (rs \<noteq> [] \<longrightarrow> pairwise_bounds (ordered cmp) (Some (fst (hd rs))) (ctx_hi c) rs) \<and>
     ordered_ctx cmp c"

fun shape_ctx :: "int \<Rightarrow> int \<Rightarrow> nat \<Rightarrow> ('k, 'v) ctx \<Rightarrow> bool" where
  "shape_ctx lm im h [] \<longleftrightarrow> True"
| "shape_ctx lm im h ((p, ls, k, rs) # c) \<longleftrightarrow>
     (\<forall>kt \<in> set ls \<union> set rs. shape lm im h (snd kt)) \<and>
     (if c = [] then 2 else im div 2) \<le> int (length ls + length rs + 1) \<and>
     int (length ls + length rs + 1) < im \<and> shape_ctx lm im (Suc h) c"

section \<open>Trees in a store\<close>

lemma root_in_pids [simp]: "root_of t \<in> set (pids t)"
  by (cases t) auto

lemma leaf_ids_subset: "set (leaf_ids t) \<subseteq> set (pids t)"
  by (induction t rule: leaf_ids.induct) fastforce+

lemma rep_cong:
  "\<forall>p \<in> set (pids t). pg' p = pg p \<Longrightarrow> rep pg' lm im par t = rep pg lm im par t"
proof (induction t arbitrary: par rule: pids.induct)
  case (2 p kts)
  then show ?case by (auto simp: ball_Un)
qed simp

lemma rep_ctx_cong:
  "\<forall>p \<in> set (ctx_pids c). pg' p = pg p \<Longrightarrow> rep_ctx pg' lm im hole c = rep_ctx pg lm im hole c"
proof (induction c arbitrary: hole)
  case (Cons f c)
  obtain p ls k rs where f: "f = (p, ls, k, rs)" by (cases f) auto
  have "rep pg' lm im q (snd kt) = rep pg lm im q (snd kt)" if "kt \<in> set ls \<union> set rs" for kt q
    using that Cons.prems by (intro rep_cong) (auto simp: f)
  then show ?case
    using Cons by (simp add: f)
qed simp

lemma chain_cong:
  "\<forall>p \<in> set ps. next_of pg' p = next_of pg p \<Longrightarrow> chain pg' ps nx = chain pg ps nx"
  by (induction ps) auto

lemma chain_append:
  "chain pg (ps @ qs) nx \<longleftrightarrow> chain pg ps (case qs of [] \<Rightarrow> nx | q # _ \<Rightarrow> q) \<and> chain pg qs nx"
  by (induction ps) (auto split: list.splits)

lemma next_of_upd [simp]:
  "next_of (pg(p \<mapsto> LeafNode l)) q = (if q = p then Some (next_page_id l) else next_of pg q)"
  "next_of (pg(p \<mapsto> InternalNode n)) q = (if q = p then None else next_of pg q)"
  "next_of (pg(p \<mapsto> HeaderNode recs)) q = (if q = p then None else next_of pg q)"
  "next_of (pg(p := None)) q = (if q = p then None else next_of pg q)"
  by (simp_all add: next_of_def)

lemma child_slots_simps [simp]:
  "child_slots [] = []"
  "child_slots (kt # kts) = (fst kt, root_of (snd kt)) # child_slots kts"
  "child_slots (xs @ ys) = child_slots xs @ child_slots ys"
  "length (child_slots kts) = length kts"
  "child_slots kts = [] \<longleftrightarrow> kts = []"
  by (simp_all add: child_slots_def)

lemma child_slots_take_drop [simp]:
  "take n (child_slots kts) = child_slots (take n kts)"
  "drop n (child_slots kts) = child_slots (drop n kts)"
  by (simp_all add: child_slots_def take_map drop_map)

lemma snd_child_slots: "map snd (child_slots kts) = map (\<lambda>kt. root_of (snd kt)) kts"
  by (simp add: child_slots_def)

lemma roots_subset: "set (map (\<lambda>kt. root_of (snd kt)) kts) \<subseteq> set (pids_of kts)"
  by (induction kts) (auto simp: subset_iff)

lemma distinct_roots: "distinct (pids_of kts) \<Longrightarrow> distinct (map (\<lambda>kt. root_of (snd kt)) kts)"
proof (induction kts)
  case (Cons kt kts)
  then have "root_of (snd kt) \<notin> set (pids_of kts)"
    using root_in_pids [of "snd kt"] by (auto simp del: root_in_pids)
  then show ?case
    using Cons roots_subset [of kts] by auto
qed simp

text \<open>Rewriting the parent pointers of a set of pages, as \<^const>\<open>adopt_children\<close> does.\<close>

definition reparent ::
    "int \<Rightarrow> int set \<Rightarrow> (int \<Rightarrow> ('k, 'v) page option) \<Rightarrow> int \<Rightarrow> ('k, 'v) page option" where
  "reparent parent qs pg = (\<lambda>q. if q \<in> qs then map_option (node_set_parent parent) (pg q) else pg q)"

lemma reparent_empty [simp]: "reparent parent {} pg = pg"
  by (simp add: reparent_def)

lemma reparent_other [simp]: "q \<notin> qs \<Longrightarrow> reparent parent qs pg q = pg q"
  by (simp add: reparent_def)

lemma next_of_reparent [simp]: "next_of (reparent parent qs pg) q = next_of pg q"
proof (cases "pg q")
  case (Some n)
  then show ?thesis by (cases n) (auto simp: next_of_def reparent_def)
qed (auto simp: next_of_def reparent_def)

lemma rep_reparent:
  assumes "rep pg lm im par t" and "distinct (pids t)" and "root_of t \<in> qs"
    and "set (pids t) \<inter> qs \<subseteq> {root_of t}"
  shows "rep (reparent par' qs pg) lm im par' t"
proof (cases t)
  case (GLeaf p es)
  then show ?thesis using assms(1,3) by (auto simp: reparent_def)
next
  case (GNode p kts)
  have "rep (reparent par' qs pg) lm im p (snd kt) = rep pg lm im p (snd kt)" if kt: "kt \<in> set kts" for kt
  proof (rule rep_cong, rule ballI, rule reparent_other)
    fix q assume q: "q \<in> set (pids (snd kt))"
    then have "q \<in> set (pids t)" "q \<noteq> p" using kt assms(2) by (auto simp: GNode)
    then show "q \<notin> qs" using assms(4) by (auto simp: GNode)
  qed
  then show ?thesis
    using assms(1,3) by (auto simp: GNode reparent_def)
qed

lemma rep_reparent_children:
  assumes "\<forall>kt \<in> set kts. rep pg lm im par (snd kt)" and "distinct (pids_of kts)"
    and "kt \<in> set kts" and "qs = set (map (\<lambda>kt. root_of (snd kt)) kts)"
  shows "rep (reparent par' qs pg) lm im par' (snd kt)"
proof (rule rep_reparent)
  show "rep pg lm im par (snd kt)" using assms(1,3) by blast
  obtain xs ys where kts: "kts = xs @ kt # ys" using assms(3) by (meson split_list)
  show "distinct (pids (snd kt))" using assms(2) by (auto simp: kts)
  show "root_of (snd kt) \<in> qs" using assms(3,4) by auto
  have "set (pids (snd kt)) \<inter> set (pids_of (xs @ ys)) = {}"
    using assms(2) by (auto simp: kts)
  then have "set (pids (snd kt)) \<inter> set (map (\<lambda>kt. root_of (snd kt)) (xs @ ys)) = {}"
    using roots_subset [of "xs @ ys"] by blast
  moreover have "qs = insert (root_of (snd kt)) (set (map (\<lambda>kt. root_of (snd kt)) (xs @ ys)))"
    by (auto simp: assms(4) kts)
  ultimately show "set (pids (snd kt)) \<inter> qs \<subseteq> {root_of (snd kt)}"
    by blast
qed

section \<open>Splitting a tree along a path\<close>

lemma rep_plug:
  "rep pg lm im INVALID_PAGE_ID (plug c t) \<longleftrightarrow>
     rep pg lm im (ctx_parent c) t \<and> rep_ctx pg lm im (root_of t) c"
  by (induction c t rule: plug.induct) (auto simp: ball_Un)

lemma mset_pids_plug: "mset (pids (plug c t)) = mset (pids t) + mset (ctx_pids c)"
  by (induction c t rule: plug.induct) (auto simp: ac_simps)

lemma set_pids_plug: "set (pids (plug c t)) = set (pids t) \<union> set (ctx_pids c)"
  using mset_pids_plug [of c t] by (metis set_mset_mset set_mset_union)

lemma distinct_pids_plug: "distinct (pids (plug c t)) \<longleftrightarrow> distinct (pids t @ ctx_pids c)"
proof -
  have "mset (pids (plug c t)) = mset (pids t @ ctx_pids c)" by (simp add: mset_pids_plug)
  then show ?thesis by (rule mset_eq_imp_distinct_iff)
qed

lemma leaf_ids_plug: "leaf_ids (plug c t) = ctx_left_ids c @ leaf_ids t @ ctx_right_ids c"
  by (induction c t rule: plug.induct) auto

lemma entries_plug: "entries (plug c t) = ctx_left c @ entries t @ ctx_right c"
  by (induction c t rule: plug.induct) auto

lemma ctx_ids_subset: "set (ctx_left_ids c) \<union> set (ctx_right_ids c) \<subseteq> set (ctx_pids c)"
proof (induction c rule: ctx_pids.induct)
  case (2 p ls k rs c)
  have "set (leaf_ids_of kts) \<subseteq> set (pids_of kts)" for kts :: "('a, 'b) children"
    using leaf_ids_subset by (induction kts) auto
  from this [of ls] this [of rs] 2 show ?case by auto
qed simp

lemma pairwise_bounds_append:
  "pairwise_bounds P lo hi (xs @ (k, t) # ys) \<longleftrightarrow>
     pairwise_bounds P lo (Some k) xs \<and>
     P (if xs = [] then lo else Some k) (case ys of [] \<Rightarrow> hi | y # _ \<Rightarrow> Some (fst y)) t \<and>
     (ys \<noteq> [] \<longrightarrow> pairwise_bounds P (Some (fst (hd ys))) hi ys)"
proof (induction xs arbitrary: lo rule: induct_list012)
  case 1
  then show ?case by (cases ys) auto
next
  case (2 x)
  then show ?case by (cases ys) auto
next
  case (3 x x' xs)
  then show ?case by auto
qed

lemma root_of_plug: "root_of s = root_of t \<Longrightarrow> root_of (plug c s) = root_of (plug c t)"
  by (induction c arbitrary: s t) auto

lemma ordered_ctx_sub:
  "ordered cmp (ctx_lo c) (ctx_hi c) (GNode p (ls @ (k, t) # rs)) \<and> ordered_ctx cmp c \<longleftrightarrow>
   ordered cmp (ctx_lo ((p, ls, k, rs) # c)) (ctx_hi ((p, ls, k, rs) # c)) t \<and>
   ordered_ctx cmp ((p, ls, k, rs) # c)"
  by (auto simp: pairwise_bounds_append)

lemma ordered_plug:
  "ordered cmp None None (plug c t) \<longleftrightarrow> ordered cmp (ctx_lo c) (ctx_hi c) t \<and> ordered_ctx cmp c"
proof (induction c arbitrary: t)
  case (Cons f c)
  obtain p ls k rs where f: "f = (p, ls, k, rs)" by (cases f) auto
  show ?case
    using Cons.IH [of "GNode p (ls @ (k, t) # rs)"] ordered_ctx_sub [of cmp c p ls k t rs]
    by (simp only: f plug.simps)
qed simp

lemma shape_plug:
  "c \<noteq> [] \<Longrightarrow> root_shape lm im (plug c t) \<longleftrightarrow> (\<exists>h. shape lm im h t \<and> shape_ctx lm im h c)"
proof (induction c arbitrary: t)
  case (Cons f c)
  obtain p ls k rs where f: "f = (p, ls, k, rs)" by (cases f) auto
  show ?case
  proof (cases "c = []")
    case True
    then show ?thesis by (auto simp: f ball_Un)
  next
    case False
    have "shape lm im h (GNode p (ls @ (k, t) # rs)) \<and> shape_ctx lm im h c \<longleftrightarrow>
        (\<exists>h'. h = Suc h' \<and> shape lm im h' t \<and> shape_ctx lm im h' (f # c))" for h
      using False by (cases h) (auto simp: f ball_Un)
    then show ?thesis
      using Cons.IH [OF False, of "GNode p (ls @ (k, t) # rs)"] by (auto simp: f)
  qed
qed simp

section \<open>Updates away from a tree\<close>

lemma rep_upd [simp]: "p \<notin> set (pids t) \<Longrightarrow> rep (pg(p := x)) lm im par t = rep pg lm im par t"
  by (rule rep_cong) auto

lemma rep_ctx_upd [simp]:
  "p \<notin> set (ctx_pids c) \<Longrightarrow> rep_ctx (pg(p := x)) lm im hole c = rep_ctx pg lm im hole c"
  by (rule rep_ctx_cong) auto

lemma chain_upd [simp]: "p \<notin> set ps \<Longrightarrow> chain (pg(p := x)) ps nx = chain pg ps nx"
  by (rule chain_cong) (auto simp: next_of_def)

lemma chain_upd_leaf:
  "next_of pg p = Some (next_page_id l) \<Longrightarrow> chain (pg(p \<mapsto> LeafNode l)) ps nx = chain pg ps nx"
  by (rule chain_cong) auto

lemma rep_reparent_other [simp]:
  "set (pids t) \<inter> qs = {} \<Longrightarrow> rep (reparent par' qs pg) lm im par t = rep pg lm im par t"
  by (rule rep_cong) (auto simp: reparent_def)

lemma rep_ctx_reparent_other [simp]:
  "set (ctx_pids c) \<inter> qs = {} \<Longrightarrow> rep_ctx (reparent par' qs pg) lm im hole c = rep_ctx pg lm im hole c"
  by (rule rep_ctx_cong) (auto simp: reparent_def)

lemma chain_reparent [simp]: "chain (reparent par' qs pg) ps nx = chain pg ps nx"
  by (rule chain_cong) simp

lemma rep_root_page:
  assumes "rep pg lm im par t"
  shows "\<exists>n. pg (root_of t) = Some n \<and> node_parent n = par \<and> (\<forall>recs. n \<noteq> HeaderNode recs)"
  using assms by (cases t) auto

lemma rep_pages: "rep pg lm im par t \<Longrightarrow> p \<in> set (pids t) \<Longrightarrow> pg p \<noteq> None"
  by (induction t arbitrary: par rule: pids.induct) auto

section \<open>Order of the entries\<close>

context key_comparator
begin

lemma above_trans: "above cmp lo a \<Longrightarrow> \<not> cmp b a < 0 \<Longrightarrow> above cmp lo b"
proof (cases lo)
  case (Some x)
  assume "above cmp lo a" "\<not> cmp b a < 0"
  then show ?thesis using cmp_le_trans [of a x b] by (simp add: above_def Some)
qed (simp add: above_def)

lemma below_trans: "below cmp hi b \<Longrightarrow> \<not> cmp b a < 0 \<Longrightarrow> below cmp hi a"
proof (cases hi)
  case (Some x)
  assume "below cmp hi b" "\<not> cmp b a < 0"
  then show ?thesis using cmp_le_less_trans [of b a x] by (simp add: below_def Some)
qed (simp add: below_def)

lemma below_lo_above: "below_lo cmp lo k \<Longrightarrow> above cmp lo k"
  using cmp_asym [of _ k] by (auto simp: below_lo_def above_def split: option.splits)

lemma below_lo_trans: "below_lo cmp lo a \<Longrightarrow> \<not> cmp b a < 0 \<Longrightarrow> below_lo cmp lo b"
proof (cases lo)
  case (Some x)
  assume "below_lo cmp lo a" "\<not> cmp b a < 0"
  then show ?thesis using cmp_less_le_trans [of x a b] by (simp add: below_lo_def Some)
qed (simp add: below_lo_def)

lemma below_lo_less: "above cmp lo a \<Longrightarrow> cmp a b < 0 \<Longrightarrow> below_lo cmp lo b"
proof (cases lo)
  case (Some x)
  assume "above cmp lo a" "cmp a b < 0"
  then show ?thesis using cmp_le_less_trans [of a x b] by (simp add: below_lo_def above_def Some)
qed (simp add: below_lo_def)

lemma within_Some_hi: "within cmp lo (Some b) k \<Longrightarrow> below cmp hi b \<Longrightarrow> within cmp lo hi k"
  using below_trans [of hi b k] cmp_asym [of k b] by (simp add: within_def below_def [of _ "Some _"])

lemma within_Some_lo: "within cmp (Some a) hi k \<Longrightarrow> above cmp lo a \<Longrightarrow> within cmp lo hi k"
  using above_trans [of lo a k] by (simp add: within_def above_def [of _ "Some _"])

end

end
