(* ===== verification/TreeInv.thy ===== *)
theory TreeInv
  imports TreeShape
begin

text \<open>
  The representation invariant of the B+ tree and the closed forms of the page-store calls.

  \<open>stored st c ts\<close> says that the store holds the path \<open>c\<close> with the trees \<open>ts\<close> at its hole, all
  pages distinct and allocated, the leaves chained, the root page number equal to the one the
  header page records. \<open>tree_inv\<close> adds order and shape. \<open>holds st es\<close> is the abstraction
  relation: the tree in \<open>st\<close> holds exactly the ordered association list \<open>es\<close>.
\<close>

section \<open>Closed forms of the store operations\<close>

definition pin :: "int \<Rightarrow> ('k, 'v) bpt \<Rightarrow> ('k, 'v) bpt" where
  "pin p st = st\<lparr>pins := (pins st)(p := pins st p + 1)\<rparr>"

lemma pin_fields [simp]:
  "pages (pin p st) = pages st" "root_page_id (pin p st) = root_page_id st"
  "comparator (pin p st) = comparator st" "leaf_max_size (pin p st) = leaf_max_size st"
  "internal_max_size (pin p st) = internal_max_size st" "index_name (pin p st) = index_name st"
  "zero_key (pin p st) = zero_key st" "disk_next (pin p st) = disk_next st"
  "pins (pin p st) = (pins st)(p := pins st p + 1)"
  by (simp_all add: pin_def)

lemma unpin_fields [simp]:
  "pages (unpin_page p st) = pages st" "root_page_id (unpin_page p st) = root_page_id st"
  "comparator (unpin_page p st) = comparator st" "leaf_max_size (unpin_page p st) = leaf_max_size st"
  "internal_max_size (unpin_page p st) = internal_max_size st"
  "index_name (unpin_page p st) = index_name st"
  "zero_key (unpin_page p st) = zero_key st" "disk_next (unpin_page p st) = disk_next st"
  "pins (unpin_page p st) = (pins st)(p := pins st p - 1)"
  by (simp_all add: unpin_page_def)

lemma put_fields [simp]:
  "pages (put_page p n st) = (pages st)(p \<mapsto> n)" "root_page_id (put_page p n st) = root_page_id st"
  "comparator (put_page p n st) = comparator st" "leaf_max_size (put_page p n st) = leaf_max_size st"
  "internal_max_size (put_page p n st) = internal_max_size st"
  "index_name (put_page p n st) = index_name st"
  "zero_key (put_page p n st) = zero_key st" "disk_next (put_page p n st) = disk_next st"
  "pins (put_page p n st) = pins st"
  by (simp_all add: put_page_def)

lemma unpin_pin [simp]: "unpin_page p (pin p st) = st"
  by (simp add: unpin_page_def pin_def)

lemma pin_commute: "pin p (pin q st) = pin q (pin p st)"
  by (simp add: pin_def fun_upd_twist)

lemma unpin_pin_other: "unpin_page p (pin q (pin p st)) = pin q st"
  by (metis pin_commute unpin_pin)

lemma fetch_page_eq: "pages st p = Some n \<Longrightarrow> fetch_page p st = Some (n, pin p st)"
  by (simp add: fetch_page_def pin_def)

lemma get_leaf_eq: "pages st p = Some (LeafNode l) \<Longrightarrow> get_leaf p st = Some l"
  by (simp add: get_leaf_def)

lemma get_internal_eq: "pages st p = Some (InternalNode n) \<Longrightarrow> get_internal p st = Some n"
  by (simp add: get_internal_def)

lemma get_node_eq:
  "pages st p = Some n \<Longrightarrow> \<forall>recs. n \<noteq> HeaderNode recs \<Longrightarrow> get_node p st = Some n"
  by (cases n) (simp_all add: get_node_def)

lemma update_internal_eq:
  "pages st p = Some (InternalNode n) \<Longrightarrow>
     update_internal p f st = Some (put_page p (InternalNode (f n)) st)"
  by (simp add: update_internal_def get_internal_def)

lemma adopt_child_eq:
  "pages st c = Some n \<Longrightarrow>
     adopt_child parent c st = Some (put_page c (node_set_parent parent n) st)"
  by (simp add: adopt_child_def fetch_page_eq put_page_def unpin_page_def pin_def)

lemma adopt_child_reparent:
  "pages st c = Some n \<Longrightarrow>
     adopt_child parent c st = Some (st\<lparr>pages := reparent parent {c} (pages st)\<rparr>)"
  by (auto simp: adopt_child_eq put_page_def reparent_def intro!: arg_cong [of _ _ "\<lambda>f. st\<lparr>pages := f\<rparr>"])

lemma reparent_reparent:
  "qs \<inter> rs = {} \<Longrightarrow> reparent parent qs (reparent parent rs pg) = reparent parent (qs \<union> rs) pg"
  by (auto simp: reparent_def fun_eq_iff)

lemma adopt_children_eq:
  "\<forall>c \<in> set cs. pages st c \<noteq> None \<Longrightarrow> distinct cs \<Longrightarrow>
     adopt_children parent cs st = Some (st\<lparr>pages := reparent parent (set cs) (pages st)\<rparr>)"
proof (induction cs arbitrary: st)
  case (Cons c cs)
  let ?st = "st\<lparr>pages := reparent parent {c} (pages st)\<rparr>"
  have "adopt_child parent c st = Some ?st"
    using Cons.prems(1) adopt_child_reparent by fastforce
  moreover have "adopt_children parent cs ?st
      = Some (?st\<lparr>pages := reparent parent (set cs) (pages ?st)\<rparr>)"
    using Cons.prems by (intro Cons.IH) (auto simp: reparent_def)
  ultimately show ?case
    using Cons.prems(2) by (simp add: reparent_reparent)
qed (simp add: reparent_def)

lemmas store_eqs =
  fetch_page_eq get_leaf_eq get_internal_eq get_node_eq update_internal_eq

section \<open>The invariant\<close>

definition header_ok :: "('k, 'v) bpt \<Rightarrow> bool" where
  "header_ok st \<longleftrightarrow> length (index_name st) < 32 \<and>
     (\<exists>recs. pages st HEADER_PAGE_ID = Some (HeaderNode recs) \<and>
             map_of recs (index_name st) = Some (root_page_id st))"

definition alloc_ok :: "('k, 'v) bpt \<Rightarrow> bool" where
  "alloc_ok st \<longleftrightarrow> 0 < disk_next st \<and> (\<forall>p \<ge> disk_next st. pins st p = 0)"

definition sizes_ok :: "('k, 'v) bpt \<Rightarrow> bool" where
  "sizes_ok st \<longleftrightarrow> 2 \<le> leaf_max_size st \<and> 4 \<le> internal_max_size st"

abbreviation rep_st :: "('k, 'v) bpt \<Rightarrow> int \<Rightarrow> ('k, 'v) gtree \<Rightarrow> bool" where
  "rep_st st \<equiv> rep (pages st) (leaf_max_size st) (internal_max_size st)"

abbreviation rep_ctx_st :: "('k, 'v) bpt \<Rightarrow> int \<Rightarrow> ('k, 'v) ctx \<Rightarrow> bool" where
  "rep_ctx_st st \<equiv> rep_ctx (pages st) (leaf_max_size st) (internal_max_size st)"

abbreviation pids_all :: "('k, 'v) gtree list \<Rightarrow> int list" where
  "pids_all ts \<equiv> concat (map pids ts)"

definition stored :: "('k, 'v) bpt \<Rightarrow> ('k, 'v) ctx \<Rightarrow> ('k, 'v) gtree list \<Rightarrow> bool" where
  "stored st c ts \<longleftrightarrow>
     (\<forall>t \<in> set ts. rep_st st (ctx_parent c) t) \<and>
     rep_ctx_st st (root_of (hd ts)) c \<and>
     distinct (pids_all ts @ ctx_pids c) \<and>
     (\<forall>p \<in> set (pids_all ts @ ctx_pids c). 0 < p \<and> p < disk_next st) \<and>
     chain (pages st) (ctx_left_ids c @ concat (map leaf_ids ts) @ ctx_right_ids c) INVALID_PAGE_ID \<and>
     root_page_id st = root_of (plug c (hd ts)) \<and> header_ok st \<and> alloc_ok st"

lemma storedI:
  assumes "\<And>t. t \<in> set ts \<Longrightarrow> rep_st st (ctx_parent c) t" and "rep_ctx_st st (root_of (hd ts)) c"
    and "distinct (pids_all ts @ ctx_pids c)"
    and "\<And>p. p \<in> set (pids_all ts @ ctx_pids c) \<Longrightarrow> 0 < p \<and> p < disk_next st"
    and "chain (pages st) (ctx_left_ids c @ concat (map leaf_ids ts) @ ctx_right_ids c) INVALID_PAGE_ID"
    and "root_page_id st = root_of (plug c (hd ts))" and "header_ok st" and "alloc_ok st"
  shows "stored st c ts"
  unfolding stored_def using assms by blast

lemma storedD:
  assumes "stored st c ts"
  shows "\<And>t. t \<in> set ts \<Longrightarrow> rep_st st (ctx_parent c) t" and "rep_ctx_st st (root_of (hd ts)) c"
    and "distinct (pids_all ts @ ctx_pids c)"
    and "\<And>p. p \<in> set (pids_all ts @ ctx_pids c) \<Longrightarrow> 0 < p \<and> p < disk_next st"
    and "chain (pages st) (ctx_left_ids c @ concat (map leaf_ids ts) @ ctx_right_ids c) INVALID_PAGE_ID"
    and "root_page_id st = root_of (plug c (hd ts))" and "header_ok st" and "alloc_ok st"
  using assms unfolding stored_def by blast+

lemma header_ok_cong:
  "pages st' HEADER_PAGE_ID = pages st HEADER_PAGE_ID \<Longrightarrow> index_name st' = index_name st \<Longrightarrow>
   root_page_id st' = root_page_id st \<Longrightarrow> header_ok st' = header_ok st"
  by (simp add: header_ok_def)

lemma alloc_ok_cong: "disk_next st' = disk_next st \<Longrightarrow> pins st' = pins st \<Longrightarrow> alloc_ok st' = alloc_ok st"
  by (simp add: alloc_ok_def)

lemma header_ok_put [simp]: "p \<noteq> HEADER_PAGE_ID \<Longrightarrow> header_ok (put_page p n st) = header_ok st"
  by (rule header_ok_cong) simp_all

lemma alloc_ok_put [simp]: "alloc_ok (put_page p n st) = alloc_ok st"
  by (rule alloc_ok_cong) simp_all

definition tree_inv :: "('k, 'v) bpt \<Rightarrow> ('k, 'v) gtree \<Rightarrow> bool" where
  "tree_inv st g \<longleftrightarrow> stored st [] [g] \<and> ordered (comparator st) None None g \<and>
     root_shape (leaf_max_size st) (internal_max_size st) g"

definition holds :: "('k, 'v) bpt \<Rightarrow> ('k \<times> 'v) list \<Rightarrow> bool" where
  "holds st es \<longleftrightarrow> sizes_ok st \<and>
     (root_page_id st = INVALID_PAGE_ID \<and> es = [] \<and> header_ok st \<and> alloc_ok st \<or>
      (\<exists>g. tree_inv st g \<and> es = entries g))"

text \<open>What every operation of the tree leaves alone.\<close>

definition evolves :: "('k, 'v) bpt \<Rightarrow> ('k, 'v) bpt \<Rightarrow> bool" where
  "evolves st st' \<longleftrightarrow>
     index_name st' = index_name st \<and> comparator st' = comparator st \<and>
     leaf_max_size st' = leaf_max_size st \<and> internal_max_size st' = internal_max_size st \<and>
     zero_key st' = zero_key st \<and> disk_next st \<le> disk_next st' \<and>
     (\<forall>recs. pages st HEADER_PAGE_ID = Some (HeaderNode recs) \<longrightarrow>
        (\<exists>recs'. pages st' HEADER_PAGE_ID = Some (HeaderNode recs') \<and>
                 map fst recs' = map fst recs \<and>
                 (\<forall>n. n \<noteq> index_name st \<longrightarrow> map_of recs' n = map_of recs n)))"

lemma evolves_refl [simp]: "evolves st st"
  by (auto simp: evolves_def)

lemma evolves_trans: "evolves a b \<Longrightarrow> evolves b c \<Longrightarrow> evolves a c"
  unfolding evolves_def by (intro conjI) (simp, simp, simp, simp, simp, linarith, metis)

lemma evolves_fields:
  assumes "evolves st st'"
  shows "index_name st' = index_name st" "comparator st' = comparator st"
    "leaf_max_size st' = leaf_max_size st" "internal_max_size st' = internal_max_size st"
  using assms by (simp_all add: evolves_def)

lemma evolves_same_header:
  "index_name st' = index_name st \<Longrightarrow> comparator st' = comparator st \<Longrightarrow>
   leaf_max_size st' = leaf_max_size st \<Longrightarrow> internal_max_size st' = internal_max_size st \<Longrightarrow>
   zero_key st' = zero_key st \<Longrightarrow> disk_next st \<le> disk_next st' \<Longrightarrow>
   pages st' HEADER_PAGE_ID = pages st HEADER_PAGE_ID \<Longrightarrow> evolves st st'"
  by (simp add: evolves_def)

lemma stored_plug: "stored st c [t] \<longleftrightarrow> stored st [] [plug c t]"
proof -
  have "set (pids t @ ctx_pids c) = set (pids (plug c t))" by (simp add: set_pids_plug)
  then show ?thesis
    using distinct_pids_plug [of c t] by (simp add: stored_def rep_plug leaf_ids_plug)
qed

lemma stored_frame: "stored st ((p, ls, k, rs) # c) [t] \<longleftrightarrow> stored st c [GNode p (ls @ (k, t) # rs)]"
  using stored_plug [of st "(p, ls, k, rs) # c" t] stored_plug [of st c] by simp

lemma pages_ext: "(st\<lparr>pages := pg\<rparr> = st\<lparr>pages := pg'\<rparr>) \<longleftrightarrow> pg = pg'"
  by (metis bpt.ext_inject bpt.surjective bpt.update_convs(7))

section \<open>The header record of the root\<close>

lemma UpdateRootPageId_eq:
  assumes "length (index_name st) < 32" and "pages st HEADER_PAGE_ID = Some (HeaderNode recs)"
    and "map_of recs (index_name st) \<noteq> None"
  obtains recs' where
    "UpdateRootPageId st = Some (put_page HEADER_PAGE_ID (HeaderNode recs') st)"
    "map_of recs' = (map_of recs)(index_name st \<mapsto> root_page_id st)"
    "map fst recs' = map fst recs"
proof -
  obtain recs' where recs':
    "HeaderPage_UpdateRecord (index_name st) (root_page_id st) recs = Some (True, recs')"
    "map_of recs' = (map_of recs)(index_name st \<mapsto> root_page_id st)"
    "map fst recs' = map fst recs"
    using HeaderPage_UpdateRecord_map [OF assms(1), where recs = recs and root_id = "root_page_id st"]
      assms(3) by auto
  have "unpin_page 0 (put_page 0 n (pin 0 st)) = put_page 0 n st" for n
    by (simp add: unpin_page_def put_page_def pin_def)
  then have "UpdateRootPageId st = Some (put_page HEADER_PAGE_ID (HeaderNode recs') st)"
    using recs'(1) assms(2) by (simp add: UpdateRootPageId_def fetch_page_eq)
  then show thesis
    using recs'(2,3) that by blast
qed

end
