(* ===== verification/TreeSearch.thy ===== *)
theory TreeSearch
  imports TreeInv
begin

text \<open>
  Searching the tree: \<^verbatim>\<open>FindLeafPage\<close> returns, for every tree that satisfies the invariant, the
  one leaf whose bounds enclose the key, with a pin on that leaf and no other; \<^verbatim>\<open>GetValue\<close> is then
  the lookup in the association list the tree holds, and the scanning \<^verbatim>\<open>GetValue\<close> its range query.
\<close>

section \<open>Entries of an ordered tree\<close>

definition bounded :: "('k \<Rightarrow> 'k \<Rightarrow> int) \<Rightarrow> 'k option \<Rightarrow> 'k option \<Rightarrow> ('k \<times> 'v) list \<Rightarrow> bool" where
  "bounded cmp lo hi es \<longleftrightarrow> sorted_keys cmp es \<and> (\<forall>e \<in> set es. within cmp lo hi (fst e))"

context key_comparator
begin

lemma bounded_append:
  assumes "bounded cmp lo (Some k) xs" "bounded cmp (Some k) hi ys" "within cmp lo hi k"
  shows "bounded cmp lo hi (xs @ ys)"
proof -
  have "cmp (fst x) (fst y) < 0" if "x \<in> set xs" "y \<in> set ys" for x y
    using that assms cmp_less_le_trans [of "fst x" k "fst y"]
    by (simp add: bounded_def within_def below_def above_def)
  then show ?thesis
    using assms within_Some_hi [of lo k _ hi] within_Some_lo [of k hi _ lo]
    by (auto simp: bounded_def within_def [of _ _ _ k])
qed

lemma separators_tl:
  assumes "separators cmp lo hi (a # k # ks)"
  shows "separators cmp (Some k) hi (k # ks)" "within cmp lo hi k"
  using assms below_lo_above by (auto simp: separators_def within_def below_lo_def)

lemma bounded_entries_of:
  assumes "\<And>kt a b. kt \<in> set kts \<Longrightarrow> ordered cmp a b (snd kt) \<Longrightarrow> bounded cmp a b (entries (snd kt))"
    and "pairwise_bounds (ordered cmp) lo hi kts" and "separators cmp lo hi (map fst kts)"
  shows "bounded cmp lo hi (entries_of kts)"
  using assms
proof (induction kts arbitrary: lo rule: induct_list012)
  case 1
  then show ?case by (simp add: bounded_def)
next
  case (3 kt kt' kts)
  have sep: "separators cmp (Some (fst kt')) hi (map fst (kt' # kts))" "within cmp lo hi (fst kt')"
    using separators_tl "3.prems"(3) by auto
  have "bounded cmp lo (Some (fst kt')) (entries (snd kt))"
    using "3.prems"(1,2) by simp
  moreover have "bounded cmp (Some (fst kt')) hi (entries_of (kt' # kts))"
    using "3.prems"(1,2) by (intro "3.IH"(2) sep(1)) auto
  ultimately show ?case
    using bounded_append sep(2) by simp
qed simp

lemma ordered_entries: "ordered cmp lo hi t \<Longrightarrow> bounded cmp lo hi (entries t)"
proof (induction t arbitrary: lo hi rule: entries.induct)
  case (2 p kts)
  then show ?case using bounded_entries_of [of kts lo hi] by simp
qed (simp add: bounded_def)

lemma tree_inv_sorted: "tree_inv st g \<Longrightarrow> comparator st = cmp \<Longrightarrow> sorted_keys cmp (entries g)"
  using ordered_entries [of None None g] by (simp add: tree_inv_def bounded_def)

lemma holds_sorted: "holds st es \<Longrightarrow> comparator st = cmp \<Longrightarrow> sorted_keys cmp es"
  using tree_inv_sorted by (auto simp: holds_def)

text \<open>The entries outside a path are on the right side of its bounds.\<close>

lemma ctx_left_below:
  assumes "ordered_ctx cmp c" and "above cmp (ctx_lo c) key" and "e \<in> set (ctx_left c)"
  shows "cmp (fst e) key < 0"
  using assms
proof (induction c)
  case (Cons f c)
  obtain p ls k rs where f: "f = (p, ls, k, rs)" by (cases f) auto
  show ?case
  proof (cases "ls = []")
    case True
    then show ?thesis using Cons by (simp add: f)
  next
    case False
    have sep: "separators cmp (ctx_lo c) (ctx_hi c) (map fst ls @ k # map fst rs)"
      and pw: "pairwise_bounds (ordered cmp) (ctx_lo c) (Some k) ls" and oc: "ordered_ctx cmp c"
      using Cons.prems(1) by (simp_all add: f)
    have key: "\<not> cmp key k < 0"
      using Cons.prems(2) False by (simp add: f above_def)
    have k: "within cmp (ctx_lo c) (ctx_hi c) k"
      using sep False below_lo_above by (cases ls) (auto simp: separators_def within_def)
    have "separators cmp (ctx_lo c) (Some k) (map fst ls)"
      using sep False by (cases ls) (auto simp: separators_def below_def sorted_wrt_append)
    then have "bounded cmp (ctx_lo c) (Some k) (entries_of ls)"
      using bounded_entries_of [OF ordered_entries pw] by simp
    moreover have "above cmp (ctx_lo c) key"
      using k key above_trans by (auto simp: within_def)
    ultimately show ?thesis
      using Cons.prems(3) Cons.IH [OF oc] key cmp_less_le_trans [of "fst e" k key]
      by (auto simp: f bounded_def within_def below_def)
  qed
qed simp

lemma ctx_right_above:
  assumes "ordered_ctx cmp c" and "below cmp (ctx_hi c) key" and "e \<in> set (ctx_right c)"
  shows "cmp key (fst e) < 0"
  using assms
proof (induction c)
  case (Cons f c)
  obtain p ls k rs where f: "f = (p, ls, k, rs)" by (cases f) auto
  show ?case
  proof (cases rs)
    case Nil
    then show ?thesis using Cons by (simp add: f)
  next
    case (Cons r rs')
    have sep: "separators cmp (ctx_lo c) (ctx_hi c) (map fst ls @ k # map fst rs)"
      and pw: "pairwise_bounds (ordered cmp) (Some (fst r)) (ctx_hi c) rs" and oc: "ordered_ctx cmp c"
      using Cons.prems(1) Cons by (simp_all add: f)
    have key: "cmp key (fst r) < 0"
      using Cons.prems(2) Cons by (simp add: f below_def)
    have r: "within cmp (ctx_lo c) (ctx_hi c) (fst r)"
      using sep below_lo_above by (cases ls) (auto simp: separators_def Cons within_def)
    have "separators cmp (Some (fst r)) (ctx_hi c) (map fst rs)"
      using sep by (cases ls) (auto simp: separators_def below_lo_def sorted_wrt_append Cons)
    then have "bounded cmp (Some (fst r)) (ctx_hi c) (entries_of rs)"
      using bounded_entries_of [OF ordered_entries pw] by simp
    moreover have "below cmp (ctx_hi c) key"
      using r below_trans [of _ "fst r" key] cmp_asym [OF key] by (simp add: within_def)
    ultimately show ?thesis
      using Cons.prems(3) Cons.IH [OF oc] key cmp_less_le_trans [of key "fst r" "fst e"]
      by (auto simp: f bounded_def within_def above_def)
  qed
qed simp

section \<open>FindLeafPage\<close>

lemma choose_child:
  assumes "sorted_wrt (\<lambda>x y. cmp x y < 0) (map fst kts)"
  obtains ls rs where "kts = ls @ rs" "\<forall>kt \<in> set ls. \<not> cmp key (fst kt) < 0"
    "\<forall>kt \<in> set rs. cmp key (fst kt) < 0"
proof
  let ?P = "\<lambda>kt. \<not> cmp key (fst kt) < 0"
  show "kts = takeWhile ?P kts @ dropWhile ?P kts" by simp
  show "\<forall>kt \<in> set (takeWhile ?P kts). ?P kt" by (auto dest: set_takeWhileD)
  have "cmp key (fst kt) < 0" if "kt \<in> set (dropWhile ?P kts)"
    "sorted_wrt (\<lambda>x y. cmp x y < 0) (map fst kts)" for kt kts
    using that
  proof (induction kts)
    case (Cons x kts)
    then show ?case
      using cmp_trans [of key "fst x" "fst kt"] by (auto split: if_splits)
  qed simp
  then show "\<forall>kt \<in> set (dropWhile ?P kts). cmp key (fst kt) < 0"
    using assms by blast
qed

lemma choose_child_node:
  assumes "ordered cmp lo hi (GNode p kts)" and "within cmp lo hi key"
  obtains ls k t rs where "kts = ls @ (k, t) # rs"
    "ls \<noteq> [] \<longrightarrow> \<not> cmp key k < 0" "\<forall>kt \<in> set (tl ls). \<not> cmp key (fst kt) < 0"
    "\<forall>kt \<in> set rs. cmp key (fst kt) < 0"
proof -
  obtain kt0 kts' where kts: "kts = kt0 # kts'" using assms(1) by (cases kts) auto
  have "sorted_wrt (\<lambda>x y. cmp x y < 0) (map fst kts')"
    using assms(1) by (simp add: kts separators_def)
  then obtain ls rs where sp: "kts' = ls @ rs" "\<forall>kt \<in> set ls. \<not> cmp key (fst kt) < 0"
    "\<forall>kt \<in> set rs. cmp key (fst kt) < 0"
    by (rule choose_child)
  show thesis
  proof (cases ls rule: rev_cases)
    case Nil
    then show thesis using that [of "[]" "fst kt0" "snd kt0" rs] sp by (simp add: kts)
  next
    case (snoc ls' kt)
    then show thesis
      using that [of "kt0 # ls'" "fst kt" "snd kt" rs] sp by (simp add: kts)
  qed
qed

lemma InternalPage_Lookup_child:
  assumes "ordered cmp lo hi (GNode p kts)" and "within cmp lo hi key"
    and "internal_array node = child_slots kts"
  obtains ls k t rs where "kts = ls @ (k, t) # rs"
    "InternalPage_Lookup cmp key node = Some (root_of t)"
    "within cmp (if ls = [] then lo else Some k) (case rs of [] \<Rightarrow> hi | r # _ \<Rightarrow> Some (fst r)) key"
proof -
  obtain ls k t rs where sp: "kts = ls @ (k, t) # rs" "ls \<noteq> [] \<longrightarrow> \<not> cmp key k < 0"
    "\<forall>kt \<in> set (tl ls). \<not> cmp key (fst kt) < 0" "\<forall>kt \<in> set rs. cmp key (fst kt) < 0"
    using assms(1,2) by (rule choose_child_node)
  have "tl (child_slots ls) = child_slots (tl ls)" by (cases ls) auto
  then have "InternalPage_Lookup cmp key node = Some (root_of t)"
    using sp assms(3) by (intro InternalPage_Lookup_split [where ls = "child_slots ls" and rs = "child_slots rs"])
      (auto simp: child_slots_def)
  then show thesis
    using sp assms(2) that [of ls k t rs]
    by (auto simp: within_def above_def below_def split: list.splits)
qed

lemma FindLeafPage_loop_ok:
  assumes "rep_st st INVALID_PAGE_ID (plug c (GNode p kts))" and "comparator st = cmp"
    and "ordered cmp (ctx_lo c) (ctx_hi c) (GNode p kts)" and "ordered_ctx cmp c"
    and "within cmp (ctx_lo c) (ctx_hi c) key"
  shows "\<exists>c' q es. FindLeafPage_loop key False False p (pin p st) = Some (q, pin q st) \<and>
     plug c (GNode p kts) = plug c' (GLeaf q es) \<and> c' \<noteq> [] \<and> within cmp (ctx_lo c') (ctx_hi c') key"
  using assms
proof (induction "size (GNode p kts)" arbitrary: c p kts rule: less_induct)
  case less
  let ?t = "GNode p kts"
  have rep: "rep_st st (ctx_parent c) ?t" using less.prems(1) by (simp add: rep_plug)
  then obtain node where node: "pages st p = Some (InternalNode node)"
    "internal_array node = child_slots kts" by simp
  obtain ls k t rs where ch: "kts = ls @ (k, t) # rs"
    "InternalPage_Lookup cmp key node = Some (root_of t)"
    "within cmp (if ls = [] then ctx_lo c else Some k)
       (case rs of [] \<Rightarrow> ctx_hi c | r # _ \<Rightarrow> Some (fst r)) key"
    using InternalPage_Lookup_child [OF less.prems(3,5) node(2)] by metis
  let ?c = "(p, ls, k, rs) # c"
  have plug: "plug c ?t = plug ?c t" by (simp add: ch(1))
  have oc: "ordered cmp (ctx_lo ?c) (ctx_hi ?c) t" "ordered_ctx cmp ?c"
    using ordered_ctx_sub [of cmp c p ls k t rs] less.prems(3,4) by (simp_all add: ch(1))
  have within: "within cmp (ctx_lo ?c) (ctx_hi ?c) key" using ch(3) by simp
  have rept: "rep_st st p t" using rep by (simp add: ch(1))
  show ?case
  proof (cases t)
    case (GLeaf q es)
    then have "FindLeafPage_loop key False False p (pin p st) = Some (q, pin q st)"
      using rept node ch(2) less.prems(2)
      by (subst FindLeafPage_loop.simps) (auto simp: store_eqs unpin_pin_other)
    then show ?thesis using plug within GLeaf by blast
  next
    case (GNode q kts')
    then have "FindLeafPage_loop key False False p (pin p st)
        = FindLeafPage_loop key False False q (pin q st)"
      using rept node ch(2) less.prems(2)
      by (subst FindLeafPage_loop.simps) (auto simp: store_eqs unpin_pin_other)
    moreover have "size (GNode q kts') < size ?t"
      using size_child [of "(k, t)" kts] by (simp add: ch(1) GNode)
    ultimately show ?thesis
      using less.hyps [of q kts' ?c] less.prems(1,2) oc within plug GNode by simp
  qed
qed

lemma FindLeafPage_ok:
  assumes "tree_inv st g" and "comparator st = cmp"
  obtains c q es where "FindLeafPage key False False st = Some (q, pin q st)"
    "g = plug c (GLeaf q es)" "stored st c [GLeaf q es]" "ordered_ctx cmp c"
    "ordered cmp (ctx_lo c) (ctx_hi c) (GLeaf q es)" "within cmp (ctx_lo c) (ctx_hi c) key"
proof -
  have inv: "stored st [] [g]" "ordered cmp None None g"
    using assms by (simp_all add: tree_inv_def)
  then have rep: "rep_st st INVALID_PAGE_ID g" "root_page_id st = root_of g" "root_of g \<noteq> INVALID_PAGE_ID"
    using root_in_pids [of g] by (auto simp: stored_def simp del: root_in_pids)
  have "\<exists>c q es. FindLeafPage key False False st = Some (q, pin q st) \<and>
      g = plug c (GLeaf q es) \<and> within cmp (ctx_lo c) (ctx_hi c) key"
  proof (cases g)
    case (GLeaf q es)
    then have "FindLeafPage key False False st = Some (q, pin q st)"
      using rep by (auto simp: FindLeafPage_def store_eqs)
    then show ?thesis
      using GLeaf by (intro exI [of _ "[]"]) (auto simp: within_def above_def below_def)
  next
    case (GNode p kts)
    then have "FindLeafPage key False False st = FindLeafPage_loop key False False p (pin p st)"
      using rep by (auto simp: FindLeafPage_def store_eqs)
    then show ?thesis
      using FindLeafPage_loop_ok [of st "[]" p kts key] rep(1) inv(2) assms(2) GNode
      by (auto simp: within_def above_def below_def)
  qed
  then obtain c q es where r: "FindLeafPage key False False st = Some (q, pin q st)"
    "g = plug c (GLeaf q es)" "within cmp (ctx_lo c) (ctx_hi c) key" by blast
  show thesis
    using that [OF r(1,2) _ _ _ r(3)] inv stored_plug [of st c "GLeaf q es"]
      ordered_plug [of cmp c "GLeaf q es"] r(2) by simp
qed

lemma FindLeafPage_empty:
  "root_page_id st = INVALID_PAGE_ID \<Longrightarrow> FindLeafPage key l r st = Some (INVALID_PAGE_ID, st)"
  by (simp add: FindLeafPage_def)

lemma map_of_path:
  assumes "ordered_ctx cmp c" and "within cmp (ctx_lo c) (ctx_hi c) key"
  shows "map_of (ctx_left c @ es @ ctx_right c) key = map_of es key"
proof -
  have "map_of (ctx_left c) key = None" "map_of (ctx_right c) key = None"
    using map_of_sorted_below map_of_sorted_above ctx_left_below ctx_right_above assms
    by (metis within_def)+
  then show ?thesis by (simp add: map_add_def split: option.split)
qed

theorem GetValue_ok:
  assumes "holds st es" and "comparator st = cmp"
  shows "BPlusTree_GetValue key st
     = Some (case map_of es key of None \<Rightarrow> [] | Some v \<Rightarrow> [v], st)"
proof (cases "root_page_id st = INVALID_PAGE_ID")
  case True
  then have "es = []"
    using assms(1) by (auto simp: holds_def tree_inv_def stored_def dest: bspec [OF _ root_in_pids])
  then show ?thesis
    using True by (simp add: BPlusTree_GetValue_def FindLeafPage_empty)
next
  case False
  then obtain g where g: "tree_inv st g" "es = entries g" using assms(1) by (auto simp: holds_def)
  obtain c q les where f: "FindLeafPage key False False st = Some (q, pin q st)"
    "g = plug c (GLeaf q les)" "stored st c [GLeaf q les]" "ordered_ctx cmp c"
    "ordered cmp (ctx_lo c) (ctx_hi c) (GLeaf q les)" "within cmp (ctx_lo c) (ctx_hi c) key"
    using FindLeafPage_ok [OF g(1) assms(2)] by metis
  obtain l where l: "pages st q = Some (LeafNode l)" "leaf_array l = les" "q \<noteq> INVALID_PAGE_ID"
    using f(3) by (auto simp: stored_def)
  have "LeafPage_Lookup cmp key l = map_of les key"
    using LeafPage_Lookup_sorted [of l key] f(5) by (simp add: l)
  moreover have "map_of es key = map_of les key"
    using map_of_path [OF f(4,6)] by (simp add: g(2) f(2) entries_plug)
  ultimately show ?thesis
    using l f(1) assms(2) by (simp add: BPlusTree_GetValue_def store_eqs)
qed

end

section \<open>The chain of leaves\<close>

fun leaves :: "('k, 'v) gtree \<Rightarrow> (int \<times> ('k \<times> 'v) list) list" where
  "leaves (GLeaf p es) = [(p, es)]"
| "leaves (GNode p kts) = concat (map (\<lambda>kt. leaves (snd kt)) kts)"

lemma leaf_ids_leaves: "leaf_ids t = map fst (leaves t)"
  by (induction t rule: leaves.induct) (auto simp: map_concat intro!: arg_cong [of _ _ concat])

lemma entries_leaves: "entries t = concat (map snd (leaves t))"
proof (induction t rule: leaves.induct)
  case (2 p kts)
  then show ?case by (induction kts) auto
qed simp

lemma leaves_plug:
  "\<exists>xs ys. leaves (plug c t) = xs @ leaves t @ ys \<and>
     concat (map snd xs) = ctx_left c \<and> concat (map snd ys) = ctx_right c"
proof (induction c arbitrary: t)
  case Nil
  then show ?case by (intro exI [of _ "[]"]) simp
next
  case (Cons f c)
  obtain p ls k rs where f: "f = (p, ls, k, rs)" by (cases f) auto
  have ent: "concat (map snd (concat (map (\<lambda>kt. leaves (snd kt)) kts))) = entries_of kts"
    for kts :: "('a \<times> ('a, 'b) gtree) list"
    by (induction kts) (simp_all add: entries_leaves)
  obtain xs ys where "leaves (plug c (GNode p (ls @ (k, t) # rs)))
      = xs @ leaves (GNode p (ls @ (k, t) # rs)) @ ys"
    "concat (map snd xs) = ctx_left c" "concat (map snd ys) = ctx_right c"
    using Cons.IH by blast
  then show ?case
    by (intro exI [of _ "xs @ concat (map (\<lambda>kt. leaves (snd kt)) ls)"]
        exI [of _ "concat (map (\<lambda>kt. leaves (snd kt)) rs) @ ys"]) (simp add: f ent)
qed

lemma rep_leaves:
  "rep pg lm im par t \<Longrightarrow> (p, es) \<in> set (leaves t) \<Longrightarrow>
     \<exists>l. pg p = Some (LeafNode l) \<and> leaf_array l = es"
  by (induction t arbitrary: par rule: leaves.induct) auto

lemma shape_leaves: "shape lm im h t \<Longrightarrow> 2 \<le> lm \<Longrightarrow> (p, es) \<in> set (leaves t) \<Longrightarrow> es \<noteq> []"
  by (induction t arbitrary: h rule: leaves.induct) auto

lemma root_shape_leaves:
  "root_shape lm im t \<Longrightarrow> 2 \<le> lm \<Longrightarrow> (p, es) \<in> set (leaves t) \<Longrightarrow> es \<noteq> []"
  using shape_leaves by (cases t) fastforce+

lemma scan_loop_ok:
  assumes "chain (pages st) (p # map fst rest) INVALID_PAGE_ID"
    and "pages st p = Some (LeafNode l)" and "leaf_array l = es" and "i < length es"
    and "\<forall>(q, qs) \<in> set rest. q \<noteq> INVALID_PAGE_ID \<and> qs \<noteq> [] \<and>
           (\<exists>l. pages st q = Some (LeafNode l) \<and> leaf_array l = qs)"
  shows "scan_loop key ncmp p (int i) result (pin p st) =
     Some (result @ map snd (takeWhile (\<lambda>e. ncmp key (fst e) = 0) (drop i es @ concat (map snd rest))), st)"
  using assms
proof (induction "length (drop i es @ concat (map snd rest))" arbitrary: p rest l es i result
    rule: less_induct)
  case less
  let ?P = "\<lambda>e. ncmp key (fst e) = 0"
  have drop: "drop i es = es ! i # drop (Suc i) es"
    using less.prems(4) by (rule Cons_nth_drop_Suc [symmetric])
  have nx: "next_page_id l = (case map fst rest of [] \<Rightarrow> INVALID_PAGE_ID | q # qs \<Rightarrow> q)"
    using less.prems(1,2) by (simp add: next_of_def)
  note step = scan_loop.simps [of key ncmp p "int i" result "pin p st"]
  show ?case
  proof (cases "?P (es ! i)")
    case False
    then show ?thesis
      using less.prems(2-4) by (simp add: step store_eqs LeafPage_GetItem_def drop)
  next
    case True
    show ?thesis
    proof (cases "Suc i = length es")
      case False
      then have lt: "Suc i < length es" using less.prems(4) by simp
      have "scan_loop key ncmp p (int i) result (pin p st)
          = scan_loop key ncmp p (int (Suc i)) (result @ [snd (es ! i)]) (pin p st)"
        using True False less.prems(2-4)
        by (simp add: step store_eqs LeafPage_GetItem_def LeafPage_GetSize_def add.commute)
      then show ?thesis
        using less.hyps [OF _ less.prems(1-3) lt less.prems(5), of "result @ [snd (es ! i)]"]
          True less.prems(4) by (simp add: drop)
    next
      case last: True
      show ?thesis
      proof (cases rest)
        case Nil
        then show ?thesis
          using True last less.prems(2-4) nx
          by (simp add: step store_eqs LeafPage_GetItem_def LeafPage_GetSize_def drop)
      next
        case (Cons r rest')
        obtain q qs where r: "r = (q, qs)" by force
        obtain m where m: "pages st q = Some (LeafNode m)" "leaf_array m = qs" "qs \<noteq> []"
          "q \<noteq> INVALID_PAGE_ID" using less.prems(5) by (auto simp: Cons r)
        have "scan_loop key ncmp p (int i) result (pin p st)
            = scan_loop key ncmp q (int 0) (result @ [snd (es ! i)]) (pin q st)"
          using True last less.prems(2-4) nx m
          by (simp add: step store_eqs LeafPage_GetItem_def LeafPage_GetSize_def Cons r)
        moreover have "scan_loop key ncmp q (int 0) (result @ [snd (es ! i)]) (pin q st)
            = Some ((result @ [snd (es ! i)]) @ map snd (takeWhile ?P (drop 0 qs @ concat (map snd rest'))), st)"
          using m less.prems by (intro less.hyps) (auto simp: Cons r drop)
        ultimately show ?thesis
          using True last by (simp add: Cons r drop)
      qed
    qed
  qed
qed

context key_comparator
begin

lemma dropWhile_path:
  assumes "ordered_ctx cmp c" and "within cmp (ctx_lo c) (ctx_hi c) key"
  shows "dropWhile (\<lambda>e. cmp (fst e) key < 0) (ctx_left c @ es @ ctx_right c)
     = dropWhile (\<lambda>e. cmp (fst e) key < 0) es @ ctx_right c"
proof -
  have "dropWhile (\<lambda>e. cmp (fst e) key < 0) (ctx_right c) = ctx_right c"
  proof (cases "ctx_right c")
    case (Cons e es)
    then have "cmp key (fst e) < 0" using ctx_right_above [of c key e] assms by (simp add: within_def)
    then show ?thesis using cmp_asym [of key "fst e"] by (simp add: Cons)
  qed simp
  moreover have "\<forall>e \<in> set (ctx_left c). cmp (fst e) key < 0"
    using ctx_left_below assms by (auto simp: within_def)
  ultimately show ?thesis by (auto simp: dropWhile_append)
qed

theorem ScanValue_ok:
  assumes "holds st es" and "comparator st = cmp"
  shows "BPlusTree_ScanValue key ncmp st = Some (al_scan cmp ncmp key es, st)"
proof (cases "root_page_id st = INVALID_PAGE_ID")
  case True
  then have "es = []"
    using assms(1) by (auto simp: holds_def tree_inv_def stored_def dest: bspec [OF _ root_in_pids])
  then show ?thesis
    using True by (simp add: BPlusTree_ScanValue_def FindLeafPage_empty al_scan_def)
next
  case False
  then obtain g where g: "tree_inv st g" "es = entries g" using assms(1) by (auto simp: holds_def)
  obtain c q les where f: "FindLeafPage key False False st = Some (q, pin q st)"
    "g = plug c (GLeaf q les)" "stored st c [GLeaf q les]" "ordered_ctx cmp c"
    "ordered cmp (ctx_lo c) (ctx_hi c) (GLeaf q les)" "within cmp (ctx_lo c) (ctx_hi c) key"
    using FindLeafPage_ok [OF g(1) assms(2)] by metis
  obtain l where l: "pages st q = Some (LeafNode l)" "leaf_array l = les" "q \<noteq> INVALID_PAGE_ID"
    using f(3) by (auto simp: stored_def)
  obtain xs ys where lv: "leaves g = xs @ (q, les) # ys" "concat (map snd ys) = ctx_right c"
    using leaves_plug [of c "GLeaf q les"] by (auto simp: f(2))
  have chain: "chain (pages st) (q # map fst ys) INVALID_PAGE_ID"
    using g(1) by (simp add: tree_inv_def stored_def leaf_ids_leaves lv chain_append)
  have ys: "\<forall>(p, ps) \<in> set ys. p \<noteq> INVALID_PAGE_ID \<and> ps \<noteq> [] \<and>
      (\<exists>l. pages st p = Some (LeafNode l) \<and> leaf_array l = ps)"
  proof (clarify)
    fix p ps assume "(p, ps) \<in> set ys"
    then have m: "(p, ps) \<in> set (leaves g)" by (simp add: lv)
    then have "p \<in> set (pids g)"
      using leaf_ids_subset [of g] by (force simp: leaf_ids_leaves)
    then show "p \<noteq> INVALID_PAGE_ID \<and> ps \<noteq> [] \<and> (\<exists>l. pages st p = Some (LeafNode l) \<and> leaf_array l = ps)"
      using g(1) assms(1) m root_shape_leaves [OF _ _ m] rep_leaves [OF _ m]
      by (auto simp: tree_inv_def stored_def holds_def sizes_ok_def)
  qed
  obtain as bs where part: "les = as @ bs" "\<And>x. x \<in> set as \<Longrightarrow> cmp (fst x) key < 0"
    "\<And>y. y \<in> set bs \<Longrightarrow> \<not> cmp (fst y) key < 0"
    using sorted_keys_partition [of les] f(5) by (metis ordered.simps(1))
  have idx: "LeafPage_KeyIndex cmp key l = (if bs = [] then -1 else int (length as))"
    using part unfolding l(2) [symmetric] by (rule LeafPage_KeyIndex_split)
  have "dropWhile (\<lambda>e. cmp (fst e) key < 0) bs = bs"
    using part(3) by (cases bs) auto
  then have scan: "al_scan cmp ncmp key es = map snd (takeWhile (\<lambda>e. ncmp key (fst e) = 0) (bs @ ctx_right c))"
    using part(1,2) dropWhile_path [OF f(4,6), of les]
    by (simp add: al_scan_def g(2) f(2) entries_plug dropWhile_append)
  show ?thesis
  proof (cases "bs = []")
    case False
    then have "scan_loop key ncmp q (int (length as)) [] (pin q st)
        = Some ([] @ map snd (takeWhile (\<lambda>e. ncmp key (fst e) = 0)
            (drop (length as) les @ concat (map snd ys))), st)"
      using l(2) by (intro scan_loop_ok [OF chain l(1) _ _ ys]) (simp_all add: part(1))
    then show ?thesis
      using False f(1) l assms(2) idx scan part(1) lv(2)
      by (simp add: BPlusTree_ScanValue_def store_eqs)
  next
    case True
    then have start: "BPlusTree_ScanValue key ncmp st = scan_loop key ncmp q (-1) [] (pin q st)"
      using f(1) l assms(2) idx by (simp add: BPlusTree_ScanValue_def store_eqs)
    have nx: "next_page_id l = (case map fst ys of [] \<Rightarrow> INVALID_PAGE_ID | q # qs \<Rightarrow> q)"
      using chain l(1) by (simp add: next_of_def)
    show ?thesis
    proof (cases ys)
      case Nil
      then show ?thesis
        using start nx l scan True lv(2) by (simp add: scan_loop.simps [of _ _ q] store_eqs)
    next
      case (Cons y ys')
      obtain p ps where y: "y = (p, ps)" by force
      obtain m where m: "pages st p = Some (LeafNode m)" "leaf_array m = ps" "ps \<noteq> []"
        "p \<noteq> INVALID_PAGE_ID" using ys by (auto simp: Cons y)
      have "scan_loop key ncmp q (-1) [] (pin q st) = scan_loop key ncmp p (int 0) [] (pin p st)"
        using nx m l by (simp add: scan_loop.simps [of _ _ q] store_eqs Cons y)
      also have "\<dots> = Some ([] @ map snd (takeWhile (\<lambda>e. ncmp key (fst e) = 0)
            (drop 0 ps @ concat (map snd ys'))), st)"
        using chain ys m by (intro scan_loop_ok) (auto simp: Cons y)
      finally show ?thesis
        using start scan True lv(2) by (simp add: Cons y)
    qed
  qed
qed

end

end
