(* ===== verification/TreeInsert.thy ===== *)
theory TreeInsert
  imports TreeSearch
begin

text \<open>
  Insertion. A page that has become full is split, and \<^verbatim>\<open>InsertIntoParent\<close> climbs the path to
  the root. Each step is a lemma on \<^const>\<open>stored\<close> (where the pages are), one on \<^const>\<open>ordered\<close> and
  one on \<^const>\<open>shape\<close>; the climb is an induction on the path.
\<close>

section \<open>Pins and the invariant\<close>

definition drop_pin :: "int \<Rightarrow> (int \<Rightarrow> nat) \<Rightarrow> int \<Rightarrow> nat" where
  "drop_pin p f = f(p := f p - 1)"

lemma pins_unpin: "pins (unpin_page p st) = drop_pin p (pins st)"
  by (simp add: drop_pin_def)

lemma stored_cong:
  assumes "stored st c ts" and "pages st' = pages st" and "disk_next st' = disk_next st"
    and "index_name st' = index_name st" "root_page_id st' = root_page_id st"
    and "leaf_max_size st' = leaf_max_size st" "internal_max_size st' = internal_max_size st"
    and "\<forall>p \<ge> disk_next st. pins st' p = 0"
  shows "stored st' c ts"
  using assms by (auto simp: stored_def header_ok_def alloc_ok_def)

lemma stored_unpin: "stored st c ts \<Longrightarrow> stored (unpin_page p st) c ts"
  by (rule stored_cong) (auto simp: stored_def alloc_ok_def)

lemma stored_pin: "stored st c ts \<Longrightarrow> p < disk_next st \<Longrightarrow> stored (pin p st) c ts"
  by (rule stored_cong) (auto simp: stored_def alloc_ok_def)

lemma stored_pids: "stored st c ts \<Longrightarrow> p \<in> set (pids_all ts @ ctx_pids c) \<Longrightarrow> 0 < p \<and> p < disk_next st"
  by (auto simp: stored_def)

lemma tree_inv_unpin: "tree_inv st g \<Longrightarrow> tree_inv (unpin_page p st) g"
  by (simp add: tree_inv_def stored_unpin)

lemma evolves_unpin [simp]: "evolves st (unpin_page p st)"
  by (rule evolves_same_header) simp_all

lemma evolves_pin [simp]: "evolves st (pin p st)"
  by (rule evolves_same_header) simp_all

lemma evolves_put: "p \<noteq> HEADER_PAGE_ID \<Longrightarrow> evolves st (put_page p n st)"
  by (rule evolves_same_header) simp_all

lemma leaf_ids_of_subset: "set (leaf_ids_of kts) \<subseteq> set (pids_of kts)"
  using leaf_ids_subset by fastforce

lemma rep_upd_children:
  "p \<notin> set (pids_of kts) \<Longrightarrow>
     (\<forall>kt \<in> set kts. rep (pg(p := x)) lm im par (snd kt)) \<longleftrightarrow> (\<forall>kt \<in> set kts. rep pg lm im par (snd kt))"
  by (rule ball_cong) auto

lemma rep_reparent_children_other:
  "set (pids_of kts) \<inter> qs = {} \<Longrightarrow>
     (\<forall>kt \<in> set kts. rep (reparent r qs pg) lm im par (snd kt)) \<longleftrightarrow> (\<forall>kt \<in> set kts. rep pg lm im par (snd kt))"
  by (rule ball_cong [OF refl], rule rep_reparent_other) auto

text \<open>Work at the hole of a path leaves the path alone.\<close>

lemma stored_replace:
  assumes "stored st c ts" and "\<And>t. t \<in> set ts' \<Longrightarrow> rep_st st' (ctx_parent c) t"
    and "root_of (hd ts') = root_of (hd ts)" and "distinct (pids_all ts')"
    and "\<And>p. p \<in> set (pids_all ts') \<Longrightarrow> p \<in> set (pids_all ts) \<or> disk_next st \<le> p \<and> p < disk_next st'"
    and "\<And>p. p \<in> set (ctx_pids c) \<Longrightarrow> pages st' p = pages st p"
    and "pages st' HEADER_PAGE_ID = pages st HEADER_PAGE_ID"
    and "chain (pages st') (ctx_left_ids c @ concat (map leaf_ids ts') @ ctx_right_ids c) INVALID_PAGE_ID"
    and "root_page_id st' = root_page_id st" "index_name st' = index_name st"
      "leaf_max_size st' = leaf_max_size st" "internal_max_size st' = internal_max_size st"
    and "disk_next st \<le> disk_next st'" "\<And>p. disk_next st' \<le> p \<Longrightarrow> pins st' p = 0"
  shows "stored st' c ts'"
proof (rule storedI)
  note st = storedD [OF assms(1)]
  show "rep_ctx_st st' (root_of (hd ts')) c"
    using st(2) rep_ctx_cong [of c "pages st'" "pages st"] assms(3,6,11,12) by simp
  have ctx: "0 < p \<and> p < disk_next st" if "p \<in> set (ctx_pids c)" for p
    using st(4) that by simp
  have "set (pids_all ts) \<inter> set (ctx_pids c) = {}" "distinct (ctx_pids c)" using st(3) by auto
  then show "distinct (pids_all ts' @ ctx_pids c)"
    using assms(4,5) ctx by fastforce
  have low: "p \<in> set (pids_all ts) \<Longrightarrow> 0 < p \<and> p < disk_next st" for p
    using st(4) by simp
  have "0 < disk_next st" using st(8) by (simp add: alloc_ok_def)
  then show "0 < p \<and> p < disk_next st'" if "p \<in> set (pids_all ts' @ ctx_pids c)" for p
  proof (cases "p \<in> set (pids_all ts')")
    case True
    from assms(5) [OF this] show ?thesis using low [of p] assms(13) \<open>0 < disk_next st\<close> by linarith
  next
    case False
    then have "p \<in> set (ctx_pids c)" using that by auto
    then show ?thesis using ctx [of p] assms(13) by linarith
  qed
  show "root_page_id st' = root_of (plug c (hd ts'))"
    using st(6) root_of_plug [OF assms(3)] assms(9) by simp
  show "header_ok st'" using st(7) header_ok_cong assms(7,9,10) by blast
  show "alloc_ok st'" using assms(13,14) \<open>0 < disk_next st\<close> by (simp add: alloc_ok_def)
qed (use assms in auto)

lemma chain_hole:
  assumes "chain pg (ls @ ms @ rs) nx" and "\<And>p. p \<in> set ls \<union> set rs \<Longrightarrow> next_of pg' p = next_of pg p"
    and "ms \<noteq> []" "ms' \<noteq> []" "hd ms' = hd ms"
    and "chain pg ms (case rs of [] \<Rightarrow> nx | r # _ \<Rightarrow> r) \<Longrightarrow>
         chain pg' ms' (case rs of [] \<Rightarrow> nx | r # _ \<Rightarrow> r)"
  shows "chain pg' (ls @ ms' @ rs) nx"
proof -
  have "(case ms' @ rs of [] \<Rightarrow> nx | q # x \<Rightarrow> q) = (case ms @ rs of [] \<Rightarrow> nx | q # x \<Rightarrow> q)"
    using assms(3-5) by (cases ms; cases ms') auto
  moreover have "chain pg' ls nx' = chain pg ls nx'" "chain pg' rs nx' = chain pg rs nx'" for nx'
    using assms(2) by (auto intro!: chain_cong)
  ultimately show ?thesis
    using assms(1,6) by (simp add: chain_append)
qed

section \<open>A second child at the hole\<close>

text \<open>\<^verbatim>\<open>InsertNodeAfter\<close>: the two trees at the hole become children of the page above it.\<close>

lemma stored_insert_child:
  assumes "stored st ((p, ls, k0, rs) # c) [t1, t2]"
    and "node = \<lparr>max_size = internal_max_size st, parent_page_id = ctx_parent c, page_id = p,
     internal_array = child_slots (ls @ (k0, t1) # (k, t2) # rs)\<rparr>"
  shows "stored (put_page p (InternalNode node) st) c [GNode p (ls @ (k0, t1) # (k, t2) # rs)]"
proof -
  let ?kts = "ls @ (k0, t1) # (k, t2) # rs"
  let ?ids = "pids_all [t1, t2] @ ctx_pids ((p, ls, k0, rs) # c)"
  have ids: "mset (pids_all [GNode p ?kts] @ ctx_pids c) = mset ?ids" by simp
  have dist: "distinct (pids_all [GNode p ?kts] @ ctx_pids c)"
    using assms(1) mset_eq_imp_distinct_iff [OF ids] by (simp only: stored_def)
  then have notin: "p \<notin> set (pids_of ?kts)" "p \<notin> set (ctx_pids c)" by auto
  then have "p \<notin> set (leaf_ids_of ?kts)" "p \<notin> set (ctx_left_ids c)" "p \<notin> set (ctx_right_ids c)"
    using leaf_ids_of_subset [of ?kts] ctx_ids_subset [of c] by blast+
  then have chain: "chain ((pages st)(p \<mapsto> InternalNode node))
      (ctx_left_ids c @ leaf_ids (GNode p ?kts) @ ctx_right_ids c) INVALID_PAGE_ID"
    using assms(1) by (simp add: stored_def)
  have "\<forall>kt \<in> set ?kts. rep_st st p (snd kt)"
    using storedD(1,2) [OF assms(1)] by (simp add: ball_Un)
  then have rep: "rep_st (put_page p (InternalNode node) st) (ctx_parent c) (GNode p ?kts)"
    using rep_upd_children [OF notin(1)] by (simp add: assms(2))
  have p: "p \<noteq> HEADER_PAGE_ID" using storedD(4) [OF assms(1), of p] by simp
  show ?thesis
  proof (rule storedI)
    show "root_page_id (put_page p (InternalNode node) st) = root_of (plug c (hd [GNode p ?kts]))"
      using storedD(6) [OF assms(1)] root_of_plug [of "GNode p ?kts" "GNode p (ls @ (k0, t1) # rs)" c]
      by simp
    show "rep_ctx_st (put_page p (InternalNode node) st) (root_of (hd [GNode p ?kts])) c"
      using storedD(2) [OF assms(1)] notin(2) by simp
    show "0 < q \<and> q < disk_next (put_page p (InternalNode node) st)"
      if "q \<in> set (pids_all [GNode p ?kts] @ ctx_pids c)" for q
      using that storedD(4) [OF assms(1), of q] unfolding mset_eq_setD [OF ids] by simp
    show "rep_st (put_page p (InternalNode node) st) (ctx_parent c) t" if "t \<in> set [GNode p ?kts]" for t
      using that rep by (simp del: rep.simps)
    show "distinct (pids_all [GNode p ?kts] @ ctx_pids c)" by (rule dist)
  qed (use chain p storedD(7,8) [OF assms(1)] in simp_all)
qed

definition two_at ::
    "('k \<Rightarrow> 'k \<Rightarrow> int) \<Rightarrow> int \<Rightarrow> int \<Rightarrow> ('k, 'v) ctx \<Rightarrow> ('k, 'v) gtree \<Rightarrow> 'k \<Rightarrow> ('k, 'v) gtree \<Rightarrow> bool" where
  "two_at cmp lm im c t1 k t2 \<longleftrightarrow>
     ordered cmp (ctx_lo c) (Some k) t1 \<and> ordered cmp (Some k) (ctx_hi c) t2 \<and>
     ordered_ctx cmp c \<and> below_lo cmp (ctx_lo c) k \<and> below cmp (ctx_hi c) k \<and>
     (\<exists>h. shape lm im h t1 \<and> shape lm im h t2 \<and> shape_ctx lm im h c)"

context key_comparator
begin

lemma separators_put:
  assumes "separators cmp lo hi (as @ k0 # bs)" and "below_lo cmp (if as = [] then lo else Some k0) k"
    and "below cmp (case bs of [] \<Rightarrow> hi | b # _ \<Rightarrow> Some b) k"
  shows "separators cmp lo hi (as @ k0 # k # bs)"
proof -
  have above: "below_lo cmp lo k"
  proof (cases as)
    case (Cons a as')
    then have "cmp k0 k < 0" "below_lo cmp lo k0"
      using assms(1,2) by (auto simp: separators_def below_lo_def)
    then show ?thesis using below_lo_trans [of lo k0 k] cmp_asym [of k0 k] by simp
  qed (use assms(2) in simp)
  have "below cmp hi k \<and> (\<forall>b \<in> set bs. cmp k b < 0)"
  proof (cases bs)
    case (Cons b bs')
    have b: "cmp k b < 0" "below cmp hi b" "\<forall>x \<in> set bs'. cmp b x < 0"
      using assms(1,3) by (cases as; auto simp: Cons below_def separators_def sorted_wrt_append)+
    then have "below cmp hi k" using below_trans [of hi b k] cmp_asym [of k b] by simp
    then show ?thesis
      using b cmp_trans [of k b] by (auto simp: Cons)
  qed (use assms(3) in auto)
  then have below: "below cmp hi k" and bs: "\<forall>b \<in> set bs. cmp k b < 0" by auto
  show ?thesis
  proof (cases as)
    case Nil
    then show ?thesis using assms(1) above below bs by (simp add: separators_def)
  next
    case (Cons a as')
    then have "cmp k0 k < 0" using assms(2) by (simp add: below_lo_def)
    moreover have "\<forall>x \<in> set as'. cmp x k0 < 0"
      using assms(1) by (simp add: separators_def Cons sorted_wrt_append)
    ultimately have "\<forall>x \<in> set as'. cmp x k < 0" using cmp_trans [of _ k0 k] by blast
    then show ?thesis
      using assms(1) above below bs \<open>cmp k0 k < 0\<close>
      by (simp add: separators_def Cons sorted_wrt_append)
  qed
qed

lemma ordered_insert_child:
  assumes "two_at cmp lm im ((p, ls, k0, rs) # c) t1 k t2"
  shows "ordered cmp (ctx_lo c) (ctx_hi c) (GNode p (ls @ (k0, t1) # (k, t2) # rs))"
    "ordered_ctx cmp c"
proof -
  have "(case map fst rs of [] \<Rightarrow> ctx_hi c | b # _ \<Rightarrow> Some b) = ctx_hi ((p, ls, k0, rs) # c)"
    by (cases rs) auto
  then have "separators cmp (ctx_lo c) (ctx_hi c) (map fst ls @ k0 # k # map fst rs)"
    using assms by (intro separators_put) (auto simp: two_at_def)
  then show "ordered cmp (ctx_lo c) (ctx_hi c) (GNode p (ls @ (k0, t1) # (k, t2) # rs))"
    using assms pairwise_bounds_append [of "ordered cmp" "ctx_lo c" "ctx_hi c" ls k0 t1 "(k, t2) # rs"]
      pairwise_bounds_append [of "ordered cmp" "Some k" "ctx_hi c" "[]" k t2 rs]
    by (auto simp: two_at_def)
  show "ordered_ctx cmp c" using assms by (simp add: two_at_def)
qed

lemma ordered_split_node:
  assumes "ordered cmp lo hi (GNode p (xs @ (k, t) # ys))" and "xs \<noteq> []"
  shows "ordered cmp lo (Some k) (GNode p xs)" "ordered cmp (Some k) hi (GNode e ((k, t) # ys))"
    "below_lo cmp lo k" "below cmp hi k"
proof -
  obtain a xs' where xs: "xs = a # xs'" using assms(2) by (cases xs) auto
  have sep: "separators cmp lo hi (map fst xs @ k # map fst ys)"
    and pw: "pairwise_bounds (ordered cmp) lo hi (xs @ (k, t) # ys)"
    using assms(1) by simp_all
  have less: "\<forall>x \<in> set xs'. cmp (fst x) k < 0" "\<forall>y \<in> set ys. cmp k (fst y) < 0"
    using sep by (auto simp: separators_def xs sorted_wrt_append)
  show "below cmp hi k" "below_lo cmp lo k" using sep by (auto simp: separators_def xs)
  have "separators cmp lo (Some k) (map fst xs)"
    using sep less(1) by (auto simp: separators_def xs sorted_wrt_append below_def)
  then show "ordered cmp lo (Some k) (GNode p xs)"
    using pw by (simp add: pairwise_bounds_append) (simp add: xs)
  have "separators cmp (Some k) hi (map fst ((k, t) # ys))"
    using sep less(2) by (auto simp: separators_def xs sorted_wrt_append below_lo_def)
  then show "ordered cmp (Some k) hi (GNode e ((k, t) # ys))"
    using pw pairwise_bounds_append [of "ordered cmp" "Some k" hi "[]" k t ys]
      pairwise_bounds_append [of "ordered cmp" lo hi xs k t ys] xs by simp
qed

end

section \<open>Splitting an internal page\<close>

lemma SplitInternal_eq:
  assumes "pages st p = Some (InternalNode \<lparr>max_size = im, parent_page_id = par, page_id = p,
       internal_array = child_slots (xs @ ys)\<rparr>)"
    and "im = internal_max_size st" and "int (length xs) = im div 2"
    and "int (length ys) \<le> im" and "distinct (map (\<lambda>kt. root_of (snd kt)) ys)"
    and "\<forall>kt \<in> set ys. pages st (root_of (snd kt)) \<noteq> None"
    and "p \<notin> set (map (\<lambda>kt. root_of (snd kt)) ys)"
    and "e = disk_next st" and "p \<noteq> e" and "e \<notin> set (map (\<lambda>kt. root_of (snd kt)) ys)"
  shows "SplitInternal p st = Some (e, st\<lparr>
     pages := (reparent e (set (map (\<lambda>kt. root_of (snd kt)) ys)) (pages st))
        (p \<mapsto> InternalNode \<lparr>max_size = im, parent_page_id = par, page_id = p,
               internal_array = child_slots xs\<rparr>,
         e \<mapsto> InternalNode \<lparr>max_size = im, parent_page_id = par, page_id = e,
               internal_array = child_slots ys\<rparr>),
     pins := (pins st)(e := 1), disk_next := e + 1\<rparr>)"
proof -
  let ?Q = "set (map (\<lambda>kt. root_of (snd kt)) ys)"
  let ?node = "\<lambda>q kts. InternalNode \<lparr>max_size = im, parent_page_id = par, page_id = q,
     internal_array = child_slots kts\<rparr>"
  let ?t1 = "st\<lparr>pages := (pages st)(e \<mapsto> InternalNode \<lparr>max_size = im,
     parent_page_id = par, page_id = e, internal_array = []\<rparr>), pins := (pins st)(e := 1), disk_next := e + 1\<rparr>"
  let ?t2 = "?t1\<lparr>pages := (pages st)(e \<mapsto> ?node e ys)\<rparr>"
  let ?t3 = "?t1\<lparr>pages := reparent e ?Q (pages ?t2)\<rparr>"
  have len: "nat (im div 2) = length xs" using assms(3) by simp
  have new: "NewInternal par st = (e, ?t1)"
    by (simp add: NewInternal_def new_page_def InternalPage_Init_def Let_def assms(2,8))
  have adopt: "adopt_children e (map snd (child_slots ys)) ?t2 = Some ?t3"
    using adopt_children_eq [of "map snd (child_slots ys)" ?t2 e] assms(5,6)
    by (auto simp: snd_child_slots)
  have copy: "InternalPage_CopyNFrom e (child_slots ys) ?t1 = Some ?t3"
    using adopt assms(4)
    by (simp add: InternalPage_CopyNFrom_def get_internal_eq update_internal_eq InternalPage_GetSize_def
        put_page_def)
  have p3: "pages ?t3 p = Some (?node p (xs @ ys))" and e3: "pages ?t3 e = Some (?node e ys)"
    using assms(1,7,9,10) by (auto simp: reparent_def)
  have "InternalPage_MoveHalfTo p e ?t1 = Some (put_page e (?node e ys) (put_page p (?node p xs) ?t3))"
    using copy assms(1,9) p3 e3
    by (simp add: InternalPage_MoveHalfTo_def get_internal_eq update_internal_eq GetMinSize_def
        InternalPage_GetSize_def len assms(3))
  moreover have "put_page e (?node e ys) (put_page p (?node p xs) ?t3) = st\<lparr>
     pages := (reparent e ?Q (pages st))(p \<mapsto> ?node p xs, e \<mapsto> ?node e ys),
     pins := (pins st)(e := 1), disk_next := e + 1\<rparr>"
    using assms(10) by (simp add: put_page_def) (auto simp: reparent_def fun_eq_iff)
  ultimately show ?thesis
    using new assms(1) by (simp add: SplitInternal_def get_internal_eq)
qed

lemma SplitInternal_ok:
  assumes "stored st c [GNode p (xs @ ys)]" and "int (length xs) = internal_max_size st div 2"
    and "int (length ys) \<le> internal_max_size st" and "xs \<noteq> []" and "ys \<noteq> []"
  obtains st' where "SplitInternal p st = Some (disk_next st, st')"
    "stored st' c [GNode p xs, GNode (disk_next st) ys]" "evolves st st'"
    "pins st' = (pins st)(disk_next st := 1)" "disk_next st' = disk_next st + 1"
proof -
  let ?e = "disk_next st" and ?Q = "set (map (\<lambda>kt. root_of (snd kt)) ys)"
  let ?node = "\<lambda>q kts. InternalNode \<lparr>max_size = internal_max_size st, parent_page_id = ctx_parent c,
     page_id = q, internal_array = child_slots kts\<rparr>"
  define st' where "st' = st\<lparr>pages := (reparent ?e ?Q (pages st))(p \<mapsto> ?node p xs, ?e \<mapsto> ?node ?e ys),
     pins := (pins st)(?e := 1), disk_next := ?e + 1\<rparr>"
  note st = storedD [OF assms(1)]
  have rep: "rep_st st (ctx_parent c) (GNode p (xs @ ys))" using st(1) by simp
  have reps: "\<forall>kt \<in> set xs. rep_st st p (snd kt)" "\<forall>kt \<in> set ys. rep_st st p (snd kt)"
    using rep by auto
  have dist: "distinct (p # pids_of xs @ pids_of ys @ ctx_pids c)" using st(3) by simp
  have low: "0 < q \<and> q < ?e" if "q \<in> set (p # pids_of xs @ pids_of ys @ ctx_pids c)" for q
    using st(4) [of q] that by simp
  have Q: "?Q \<subseteq> set (pids_of ys)" by (rule roots_subset)
  have e: "?e \<notin> set (p # pids_of xs @ pids_of ys @ ctx_pids c)" using low by blast
  have "set (pids_of xs) \<inter> set (pids_of ys) = {}" "set (pids_of ys) \<inter> set (ctx_pids c) = {}"
    using dist by auto
  then have disj: "set (pids_of xs) \<inter> ?Q = {}" "set (ctx_pids c) \<inter> ?Q = {}" using Q by blast+
  have "0 \<noteq> p" "0 \<noteq> ?e" "0 \<notin> set (pids_of ys)" using low [of p] low [of 0] by auto
  then have hdr: "pages st' 0 = pages st 0" using Q by (auto simp: st'_def reparent_def)
  have "SplitInternal p st = Some (?e, st')"
    unfolding st'_def
  proof (rule SplitInternal_eq)
    show "distinct (map (\<lambda>kt. root_of (snd kt)) ys)" using dist by (intro distinct_roots) simp
    show "\<forall>kt \<in> set ys. pages st (root_of (snd kt)) \<noteq> None"
      using reps(2) rep_pages root_in_pids by metis
    show "p \<notin> set (map (\<lambda>kt. root_of (snd kt)) ys)" using Q dist by auto
    show "?e \<notin> set (map (\<lambda>kt. root_of (snd kt)) ys)" using Q e by auto
  qed (use rep assms(2,3) e in simp_all)
  moreover have "stored st' c [GNode p xs, GNode ?e ys]"
  proof (rule stored_replace [OF assms(1)])
    have "\<forall>kt \<in> set xs. rep (reparent ?e ?Q (pages st)) (leaf_max_size st) (internal_max_size st) p (snd kt)"
      using reps(1) disj(1) by (subst rep_reparent_children_other)
    then have "\<forall>kt \<in> set xs. rep_st st' p (snd kt)"
      using dist e by (simp add: st'_def rep_upd_children)
    moreover have "\<forall>kt \<in> set ys. rep (reparent ?e ?Q (pages st)) (leaf_max_size st) (internal_max_size st) ?e (snd kt)"
      using rep_reparent_children [OF reps(2) _ _ refl] dist by simp
    then have "\<forall>kt \<in> set ys. rep_st st' ?e (snd kt)"
      using dist e by (simp add: st'_def rep_upd_children)
    moreover have "p \<noteq> ?e" using e by auto
    ultimately show "rep_st st' (ctx_parent c) t" if "t \<in> set [GNode p xs, GNode ?e ys]" for t
      using that by (auto simp: st'_def)
    show "distinct (pids_all [GNode p xs, GNode ?e ys])" using dist e by auto
    show "pages st' q = pages st q" if "q \<in> set (ctx_pids c)" for q
    proof -
      have "q \<noteq> p" "q \<noteq> ?e" using that dist e by auto
      moreover have "q \<notin> ?Q" using that disj(2) by blast
      ultimately show ?thesis by (simp add: st'_def del: set_map)
    qed
    show "pages st' 0 = pages st 0" by (rule hdr)
    have "set (leaf_ids (GNode p (xs @ ys))) \<subseteq> set (pids_of xs @ pids_of ys)"
      using leaf_ids_of_subset [of xs] leaf_ids_of_subset [of ys] by auto
    then have "next_of (pages st') q = next_of (pages st) q"
      if "q \<in> set (ctx_left_ids c @ leaf_ids (GNode p (xs @ ys)) @ ctx_right_ids c)" for q
    proof -
      have "q \<noteq> p" "q \<noteq> ?e"
        using that dist e ctx_ids_subset [of c] \<open>set (leaf_ids _) \<subseteq> _\<close> by auto
      then show ?thesis by (simp add: st'_def)
    qed
    then show "chain (pages st') (ctx_left_ids c @ concat (map leaf_ids [GNode p xs, GNode ?e ys])
        @ ctx_right_ids c) INVALID_PAGE_ID"
      using st(5) chain_cong [of _ "pages st'" "pages st"] by simp
  qed (use st(8) in \<open>auto simp: st'_def alloc_ok_def\<close>)
  moreover have "evolves st st'"
    using hdr by (intro evolves_same_header) (simp_all add: st'_def)
  ultimately show thesis using that by (simp add: st'_def)
qed

section \<open>A new root\<close>

lemma set_root_header:
  assumes "length (index_name st) < 32" and "pages st HEADER_PAGE_ID = Some (HeaderNode recs)"
    and "map_of recs (index_name st) \<noteq> None"
  obtains recs' where "UpdateRootPageId st = Some (put_page HEADER_PAGE_ID (HeaderNode recs') st)"
    "header_ok (put_page HEADER_PAGE_ID (HeaderNode recs') st)"
    "evolves st (put_page HEADER_PAGE_ID (HeaderNode recs') st)"
proof -
  obtain recs' where r: "UpdateRootPageId st = Some (put_page HEADER_PAGE_ID (HeaderNode recs') st)"
    "map_of recs' = (map_of recs)(index_name st \<mapsto> root_page_id st)"
    "map fst recs' = map fst recs"
    using UpdateRootPageId_eq [OF assms] by metis
  show thesis
    using that [OF r(1)] r(2,3) assms by (simp add: header_ok_def evolves_def)
qed

lemma node_set_parent_not_Header:
  "\<forall>recs. n \<noteq> HeaderNode recs \<Longrightarrow> node_set_parent p n \<noteq> HeaderNode recs"
  by (cases n) auto

lemma GrowRoot_eq:
  assumes "pages st a = Some na" "\<forall>recs. na \<noteq> HeaderNode recs"
    and "pages st b = Some nb" "\<forall>recs. nb \<noteq> HeaderNode recs"
    and "a \<noteq> b" and "r = disk_next st" and "a \<noteq> r" "b \<noteq> r" and "pins st r = 0"
    and "node = InternalNode \<lparr>max_size = internal_max_size st, parent_page_id = INVALID_PAGE_ID,
           page_id = r, internal_array = [(zero_key st, a), (k, b)]\<rparr>"
    and "st1 = st\<lparr>pages := (reparent r {a, b} (pages st))(r \<mapsto> node),
           pins := (pins st)(r := 1), disk_next := r + 1, root_page_id := r\<rparr>"
    and "UpdateRootPageId st1 = Some (put_page HEADER_PAGE_ID hdr st1)"
  shows "GrowRoot a k b st =
     Some (unpin_page b (unpin_page a (unpin_page r (put_page HEADER_PAGE_ID hdr st1))))"
proof -
  let ?t1 = "st\<lparr>pages := (pages st)(r \<mapsto> InternalNode (InternalPage_Init r INVALID_PAGE_ID (internal_max_size st))),
     pins := (pins st)(r := 1), disk_next := r + 1\<rparr>"
  let ?t2 = "?t1\<lparr>pages := (pages st)(r \<mapsto> node)\<rparr>"
  have new: "NewInternal INVALID_PAGE_ID st = (r, ?t1)"
    by (simp add: NewInternal_def new_page_def Let_def assms(6))
  have populated: "InternalPage_PopulateNewRoot (zero_key st) a k b
      (InternalPage_Init r INVALID_PAGE_ID (internal_max_size st))
    = \<lparr>max_size = internal_max_size st, parent_page_id = INVALID_PAGE_ID, page_id = r,
       internal_array = [(zero_key st, a), (k, b)]\<rparr>"
    by (simp add: internal_page_defs)
  have populate: "update_internal r (InternalPage_PopulateNewRoot (zero_key st) a k b) ?t1 = Some ?t2"
    by (subst update_internal_eq, simp) (simp add: put_page_def populated assms(10))
  have "pages ?t2 a = Some na" using assms(1,7) by simp
  then have a: "get_node a ?t2 = Some na" using assms(2) by (rule get_node_eq)
  have "pages (put_page a (node_set_parent r na) ?t2) b = Some nb" using assms(3,5,8) by simp
  then have b: "get_node b (put_page a (node_set_parent r na) ?t2) = Some nb"
    using assms(4) by (rule get_node_eq)
  have "(pages st)(r \<mapsto> node, a \<mapsto> node_set_parent r na, b \<mapsto> node_set_parent r nb)
      = (reparent r {a, b} (pages st))(r \<mapsto> node)"
    using assms(1,3,5,7,8) by (auto simp: reparent_def fun_eq_iff)
  then have "(put_page b (node_set_parent r nb) (put_page a (node_set_parent r na) ?t2))\<lparr>root_page_id := r\<rparr>
      = st1"
    by (simp add: put_page_def assms(11))
  then show ?thesis
    using new populate a b assms(12) by (simp add: GrowRoot_def)
qed

lemma GrowRoot_ok:
  fixes st :: "('k, 'v) bpt"
  assumes "stored st [] [t1, t2]"
  obtains st' where "GrowRoot (root_of t1) k (root_of t2) st = Some st'"
    "stored st' [] [GNode (disk_next st) [(zero_key st, t1), (k, t2)]]" "evolves st st'"
    "pins st' = drop_pin (root_of t2) (drop_pin (root_of t1) (pins st))"
proof -
  let ?r = "disk_next st" and ?a = "root_of t1" and ?b = "root_of t2"
  let ?kts = "[(zero_key st, t1), (k, t2)]"
  let ?Q = "{?a, ?b}"
  define node :: "('k, 'v) page"
    where "node = InternalNode \<lparr>max_size = internal_max_size st, parent_page_id = INVALID_PAGE_ID,
     page_id = ?r, internal_array = [(zero_key st, ?a), (k, ?b)]\<rparr>"
  define st1 where "st1 = st\<lparr>pages := (reparent ?r {?a, ?b} (pages st))(?r \<mapsto> node),
     pins := (pins st)(?r := 1), disk_next := ?r + 1, root_page_id := ?r\<rparr>"
  note st = storedD [OF assms]
  have rep: "\<forall>kt \<in> set ?kts. rep_st st INVALID_PAGE_ID (snd kt)" using st(1) by auto
  obtain na nb where n: "pages st ?a = Some na" "\<forall>recs. na \<noteq> HeaderNode recs"
    "pages st ?b = Some nb" "\<forall>recs. nb \<noteq> HeaderNode recs"
    using rep_root_page [OF st(1), of t1] rep_root_page [OF st(1), of t2] by auto
  have dist: "distinct (pids_of ?kts)" using st(3) by auto
  have low: "0 < q \<and> q < ?r" if "q \<in> set (pids_of ?kts)" for q using st(4) that by auto
  have ab: "?a \<in> set (pids_of ?kts)" "?b \<in> set (pids_of ?kts)" by auto
  have ne: "?a \<noteq> ?b" "?a \<noteq> ?r" "?b \<noteq> ?r" "?a \<noteq> 0" "?b \<noteq> 0" "0 < ?r"
    using distinct_roots [OF dist] low [OF ab(1)] low [OF ab(2)] by simp_all
  obtain recs where recs: "pages st 0 = Some (HeaderNode recs)" "map_of recs (index_name st) \<noteq> None"
    "length (index_name st) < 32"
    using st(7) by (auto simp: header_ok_def)
  have hdr1: "pages st1 0 = pages st 0" using ne by (simp add: st1_def)
  obtain recs' where u: "UpdateRootPageId st1 = Some (put_page 0 (HeaderNode recs') st1)"
    "header_ok (put_page 0 (HeaderNode recs') st1)" "evolves st1 (put_page 0 (HeaderNode recs') st1)"
    using set_root_header [of st1 recs] recs hdr1 by (auto simp: st1_def)
  define st' where "st' = unpin_page ?b (unpin_page ?a (unpin_page ?r (put_page 0 (HeaderNode recs') st1)))"
  have "GrowRoot ?a k ?b st = Some st'"
    unfolding st'_def using st(8)
    by (intro GrowRoot_eq [OF n ne(1) refl ne(2,3) _ node_def st1_def u(1)]) (simp add: alloc_ok_def)
  moreover have "stored st' [] [GNode ?r ?kts]"
  proof (rule storedI)
    have "\<forall>kt \<in> set ?kts. rep (reparent ?r ?Q (pages st)) (leaf_max_size st) (internal_max_size st) ?r (snd kt)"
      using rep_reparent_children [OF rep dist _ refl] by simp
    moreover have "?r \<notin> set (pids_of ?kts)" "0 \<notin> set (pids_of ?kts)" using low by blast+
    ultimately have "\<forall>kt \<in> set ?kts. rep_st st' ?r (snd kt)"
      by (simp add: st'_def st1_def)
    then show "rep_st st' (ctx_parent []) t" if "t \<in> set [GNode ?r ?kts]" for t
      using that ne by (auto simp: st'_def st1_def node_def)
    show "distinct (pids_all [GNode ?r ?kts] @ ctx_pids [])" using dist \<open>?r \<notin> _\<close> by simp
    show "0 < q \<and> q < disk_next st'" if "q \<in> set (pids_all [GNode ?r ?kts] @ ctx_pids [])" for q
      using that low [of q] ne(6) by (auto simp: st'_def st1_def)
    have "next_of (pages st') q = next_of (pages st) q" if "q \<in> set (leaf_ids_of ?kts)" for q
    proof -
      have "q \<noteq> ?r" "q \<noteq> 0" using that leaf_ids_of_subset [of ?kts] \<open>?r \<notin> _\<close> \<open>0 \<notin> _\<close> by blast+
      then show ?thesis by (simp add: st'_def st1_def node_def)
    qed
    then show "chain (pages st') (ctx_left_ids [] @ concat (map leaf_ids [GNode ?r ?kts]) @ ctx_right_ids [])
        INVALID_PAGE_ID"
      using st(5) chain_cong [of "leaf_ids_of ?kts" "pages st'" "pages st"] by simp
    show "header_ok st'" using u(2) by (simp add: st'_def header_ok_def)
    show "alloc_ok st'" using st(8) by (auto simp: st'_def st1_def alloc_ok_def)
  qed (simp_all add: st'_def st1_def)
  moreover have "evolves st st1" using hdr1 by (intro evolves_same_header) (simp_all add: st1_def)
  then have "evolves st st'"
    unfolding st'_def by (meson evolves_trans u(3) evolves_unpin)
  moreover have "pins st' = drop_pin ?b (drop_pin ?a (pins st))"
    using ne st(8) by (simp add: st'_def st1_def drop_pin_def alloc_ok_def fun_upd_idem)
  ultimately show thesis using that by blast
qed

section \<open>The climb\<close>

lemma root_shape_node:
  assumes "\<forall>kt \<in> set kts. shape lm im h (snd kt)" and "shape_ctx lm im (Suc h) c"
    and "(if c = [] then 2 else im div 2) \<le> int (length kts)" and "int (length kts) < im"
  shows "root_shape lm im (plug c (GNode p kts))"
proof (cases "c = []")
  case False
  then have "shape lm im (Suc h) (GNode p kts)" using assms by simp
  then show ?thesis using shape_plug [OF False] assms(2) by blast
qed (use assms in auto)

lemma stored_root_not_left:
  assumes "stored st ((p, ls, k0, rs) # c) (t1 # ts)"
  shows "root_of t1 \<notin> snd ` set (child_slots ls)"
proof -
  have "set (pids t1) \<inter> set (pids_of ls) = {}" using storedD(3) [OF assms] by auto
  moreover have "snd ` set (child_slots ls) \<subseteq> set (pids_of ls)"
    using roots_subset [of ls] by (auto simp: child_slots_def)
  ultimately show ?thesis using root_in_pids [of t1] by blast
qed

lemma half_split:
  assumes "int (length kts) = n"
  obtains xs ys where "kts = xs @ ys" "int (length xs) = n div 2" "int (length ys) = n - n div 2"
proof
  show "kts = take (nat (n div 2)) kts @ drop (nat (n div 2)) kts" by simp
  show "int (length (take (nat (n div 2)) kts)) = n div 2"
    "int (length (drop (nat (n div 2)) kts)) = n - n div 2" using assms by auto
qed

lemma stored_frame_ids:
  assumes "stored st ((p, ls, k0, rs) # c) ts" and "t \<in> set ts"
  shows "p \<noteq> root_of t" "root_of t < disk_next st" "p < disk_next st" "0 < p" "0 < root_of t"
proof -
  have t: "root_of t \<in> set (pids_all ts)" using assms(2) by (auto intro!: bexI [of _ t])
  moreover have "p \<notin> set (pids_all ts)" using storedD(3) [OF assms(1)] by auto
  ultimately show "p \<noteq> root_of t" by blast
  show "root_of t < disk_next st" "p < disk_next st" "0 < p" "0 < root_of t"
    using storedD(4) [OF assms(1), of "root_of t"] storedD(4) [OF assms(1), of p] t by simp_all
qed

text \<open>
  The root is replaced only if no frame of the path has room for one more child; the old root
  then has a parent.
\<close>

fun roomy :: "int \<Rightarrow> int \<times> ('k, 'v) children \<times> 'k \<times> ('k, 'v) children \<Rightarrow> bool" where
  "roomy im (p, ls, k, rs) \<longleftrightarrow> int (length ls + length rs + 1) + 1 < im"

definition root_kept :: "('k, 'v) bpt \<Rightarrow> ('k, 'v) ctx \<Rightarrow> ('k, 'v) bpt \<Rightarrow> bool" where
  "root_kept st c st' \<longleftrightarrow> root_page_id st' = root_page_id st \<or>
     (\<forall>f \<in> set c. \<not> roomy (internal_max_size st) f) \<and>
     (\<exists>n. pages st' (root_page_id st) = Some n \<and> (\<forall>recs. n \<noteq> HeaderNode recs) \<and>
          node_parent n \<noteq> INVALID_PAGE_ID)"

lemma stored_frame_root:
  "stored st (f # c) [t1, t2] \<Longrightarrow> stored st' c (GNode (fst f) kts # ts) \<Longrightarrow> root_page_id st' = root_page_id st"
  using storedD(6) [of st "f # c" "[t1, t2]"] storedD(6) [of st' c "GNode (fst f) kts # ts"]
  by (cases f) (simp, metis root_of.simps(2) root_of_plug)

lemma InsertIntoParent_unfold:
  assumes "stored st ((p, ls, k0, rs) # c) [t1, t2]"
    and "int (length ls + length rs + 1) < internal_max_size st"
    and kts_def: "kts = ls @ (k0, t1) # (k, t2) # rs"
  obtains st3 where "stored st3 c [GNode p kts]" "evolves st st3" "disk_next st3 = disk_next st"
    "pins st3 = drop_pin (root_of t2) (drop_pin (root_of t1) ((pins st)(p := pins st p + 1)))"
    "InsertIntoParent (root_of t1) k (root_of t2) st =
       (if int (length kts) = internal_max_size st then do {
          (extra_pid, t4) \<leftarrow> SplitInternal p st3;
          extra_node \<leftarrow> get_internal extra_pid t4;
          extra_key \<leftarrow> InternalPage_KeyAt 0 extra_node;
          InsertIntoParent p extra_key extra_pid t4 }
        else Some (unpin_page p st3))"
proof -
  note st = storedD [OF assms(1)]
  let ?a = "root_of t1" and ?b = "root_of t2"
  let ?node = "\<lparr>max_size = internal_max_size st, parent_page_id = ctx_parent c, page_id = p,
     internal_array = child_slots (ls @ (k0, t1) # rs)\<rparr>"
  let ?node' = "?node\<lparr>internal_array := child_slots kts\<rparr>"
  define st2 where "st2 = unpin_page ?b (unpin_page ?a (pin p st))"
  define st3 where "st3 = put_page p (InternalNode ?node') st2"
  have p: "pages st p = Some (InternalNode ?node)" "0 < p" "p < disk_next st"
    using st(2) st(4) [of p] by auto
  have st2: "stored st2 ((p, ls, k0, rs) # c) [t1, t2]"
    using assms(1) p(3) unfolding st2_def by (intro stored_unpin stored_pin)
  then have "stored st3 c [GNode p kts]"
    unfolding st3_def kts_def by (rule stored_insert_child) (simp add: st2_def)
  moreover have "evolves st st2" unfolding st2_def by (meson evolves_trans evolves_unpin evolves_pin)
  then have "evolves st st3"
    using p(2) evolves_put [of p st2] evolves_trans unfolding st3_def by (metis less_irrefl)
  moreover obtain n where n: "pages st ?a = Some n" "node_parent n = p" "\<forall>recs. n \<noteq> HeaderNode recs"
    using rep_root_page [OF st(1), of t1] by auto
  have "snd (InternalPage_InsertNodeAfter ?a k ?b ?node) = ?node'"
    using stored_root_not_left [OF assms(1)] assms(2)
    by (subst InternalPage_InsertNodeAfter_split [of _ "child_slots ls" k0 _ "child_slots rs"])
      (auto simp: kts_def)
  then have "update_internal p (\<lambda>q. snd (InternalPage_InsertNodeAfter ?a k ?b q)) st2 = Some st3"
    using p(1) by (subst update_internal_eq [of _ _ ?node]) (simp_all add: st2_def st3_def)
  then have "InsertIntoParent ?a k ?b st =
     (if int (length kts) = internal_max_size st then do {
        (extra_pid, t4) \<leftarrow> SplitInternal p st3;
        extra_node \<leftarrow> get_internal extra_pid t4;
        extra_key \<leftarrow> InternalPage_KeyAt 0 extra_node;
        InsertIntoParent p extra_key extra_pid t4 }
      else Some (unpin_page p st3))"
    using n p(1,2)
    by (subst InsertIntoParent.simps)
      (simp add: get_node_eq fetch_page_eq st2_def [symmetric], simp add: st3_def get_internal_eq
        InternalPage_GetSize_def)
  moreover have "pins st3 = drop_pin ?b (drop_pin ?a ((pins st)(p := pins st p + 1)))"
    by (simp add: st3_def st2_def drop_pin_def)
  moreover have "disk_next st3 = disk_next st" by (simp add: st3_def st2_def)
  ultimately show thesis using that by blast
qed

context key_comparator
begin

lemma two_at_split:
  assumes "two_at cmp lm im ((p, ls, k0, rs) # c) t1 k t2" and "4 \<le> im"
    and "ls @ (k0, t1) # (k, t2) # rs = xs @ ys" and "int (length xs) = im div 2"
    and "int (length ys) = im - im div 2" and "ys = (k', t') # ys'"
  shows "two_at cmp lm im c (GNode p xs) k' (GNode e ys)"
proof -
  have "xs \<noteq> []" using assms(2,4) by (cases xs) auto
  moreover have "ordered cmp (ctx_lo c) (ctx_hi c) (GNode p (xs @ (k', t') # ys'))"
    using ordered_insert_child(1) [OF assms(1)] by (simp only: assms(3,6))
  ultimately have "ordered cmp (ctx_lo c) (Some k') (GNode p xs)"
    "ordered cmp (Some k') (ctx_hi c) (GNode e ys)" "below_lo cmp (ctx_lo c) k'" "below cmp (ctx_hi c) k'"
    using ordered_split_node [of "ctx_lo c" "ctx_hi c" p xs k' t' ys'] unfolding assms(6) by blast+
  moreover obtain h where h: "shape lm im h t1" "shape lm im h t2" "shape_ctx lm im h ((p, ls, k0, rs) # c)"
    using assms(1) by (auto simp: two_at_def)
  then have "\<forall>kt \<in> set (xs @ ys). shape lm im h (snd kt)"
    by (simp only: assms(3) [symmetric]) (simp add: ball_Un)
  then have "shape lm im (Suc h) (GNode p xs)" "shape lm im (Suc h) (GNode e ys)" "shape_ctx lm im (Suc h) c"
    using assms(2,4,5) h(3) by auto
  ultimately show ?thesis
    using ordered_insert_child(2) [OF assms(1)] unfolding two_at_def by blast
qed

lemma tree_inv_insert_child:
  assumes "stored st' c [GNode p (ls @ (k0, t1) # (k, t2) # rs)]"
    and "two_at cmp (leaf_max_size st') (internal_max_size st') ((p, ls, k0, rs) # c) t1 k t2"
    and "comparator st' = cmp" and "int (length ls + length rs + 2) < internal_max_size st'"
  shows "tree_inv st' (plug c (GNode p (ls @ (k0, t1) # (k, t2) # rs)))"
proof -
  let ?kts = "ls @ (k0, t1) # (k, t2) # rs"
  obtain h where h: "shape (leaf_max_size st') (internal_max_size st') h t1"
    "shape (leaf_max_size st') (internal_max_size st') h t2"
    "shape_ctx (leaf_max_size st') (internal_max_size st') h ((p, ls, k0, rs) # c)"
    using assms(2) by (auto simp: two_at_def)
  have "root_shape (leaf_max_size st') (internal_max_size st') (plug c (GNode p ?kts))"
    using h assms(4) by (intro root_shape_node [where h = h]) (auto simp: ball_Un)
  then show ?thesis
    using assms(1,3) ordered_insert_child [OF assms(2)] stored_plug [of st' c] ordered_plug [of cmp c]
    by (simp add: tree_inv_def)
qed

lemma tree_inv_new_root:
  assumes "stored st' [] [GNode r [(z, t1), (k, t2)]]" and "comparator st' = cmp"
    and "two_at cmp (leaf_max_size st') (internal_max_size st') [] t1 k t2" and "4 \<le> internal_max_size st'"
  shows "tree_inv st' (GNode r [(z, t1), (k, t2)])"
  using assms by (auto simp: tree_inv_def two_at_def separators_def within_def above_def below_def)

lemma InsertIntoParent_ok:
  assumes "stored st c [t1, t2]" and "comparator st = cmp" and "sizes_ok st"
    and "two_at cmp (leaf_max_size st) (internal_max_size st) c t1 k t2"
  shows "\<exists>st' g. InsertIntoParent (root_of t1) k (root_of t2) st = Some st' \<and> tree_inv st' g \<and>
     entries g = ctx_left c @ entries t1 @ entries t2 @ ctx_right c \<and> evolves st st' \<and>
     pins st' = drop_pin (root_of t2) (drop_pin (root_of t1) (pins st)) \<and> root_kept st c st'"
  using assms
proof (induction c arbitrary: st t1 k t2)
  case Nil
  obtain st' where st': "GrowRoot (root_of t1) k (root_of t2) st = Some st'"
    "stored st' [] [GNode (disk_next st) [(zero_key st, t1), (k, t2)]]" "evolves st st'"
    "pins st' = drop_pin (root_of t2) (drop_pin (root_of t1) (pins st))"
    using GrowRoot_ok [OF Nil.prems(1)] by metis
  obtain n where "pages st (root_of t1) = Some n" "node_parent n = INVALID_PAGE_ID"
    "\<forall>recs. n \<noteq> HeaderNode recs"
    using rep_root_page [OF storedD(1) [OF Nil.prems(1)], of t1] by auto
  then have "InsertIntoParent (root_of t1) k (root_of t2) st = Some st'"
    using st'(1) by (subst InsertIntoParent.simps) (simp add: get_node_eq)
  moreover have "tree_inv st' (GNode (disk_next st) [(zero_key st, t1), (k, t2)])"
    using st'(2,3) Nil.prems(2-4) by (intro tree_inv_new_root) (simp_all add: evolves_fields sizes_ok_def)
  moreover have "root_kept st [] st'"
  proof -
    have "rep_st st' (disk_next st) t1" using storedD(1) [OF st'(2)] by simp
    then obtain n where "pages st' (root_of t1) = Some n" "node_parent n = disk_next st" "\<forall>recs. n \<noteq> HeaderNode recs"
      using rep_root_page by blast
    moreover have "root_page_id st = root_of t1" using storedD(6) [OF Nil.prems(1)] by simp
    ultimately show ?thesis
      using storedD(8) [OF Nil.prems(1)] by (auto simp: root_kept_def alloc_ok_def)
  qed
  ultimately show ?case using st'(3,4) by force
next
  case (Cons f c)
  obtain p ls k0 rs where f: "f = (p, ls, k0, rs)" by (cases f) auto
  let ?kts = "ls @ (k0, t1) # (k, t2) # rs" and ?im = "internal_max_size st"
  note prems = Cons.prems [unfolded f]
  have len: "int (length ls + length rs + 1) < ?im" using prems(4) by (auto simp: two_at_def)
  obtain st3 where st3: "stored st3 c [GNode p ?kts]" "evolves st st3" "disk_next st3 = disk_next st"
    "pins st3 = drop_pin (root_of t2) (drop_pin (root_of t1) ((pins st)(p := pins st p + 1)))"
    and ins: "InsertIntoParent (root_of t1) k (root_of t2) st =
       (if int (length ?kts) = ?im then do {
          (extra_pid, t4) \<leftarrow> SplitInternal p st3;
          extra_node \<leftarrow> get_internal extra_pid t4;
          extra_key \<leftarrow> InternalPage_KeyAt 0 extra_node;
          InsertIntoParent p extra_key extra_pid t4 }
        else Some (unpin_page p st3))"
    by (rule InsertIntoParent_unfold [OF prems(1) len refl])
  have ids: "p \<noteq> root_of t1" "p \<noteq> root_of t2" "root_of t1 < disk_next st" "root_of t2 < disk_next st" "p < disk_next st"
    using stored_frame_ids [OF prems(1) list.set_intros(1)]
      stored_frame_ids [OF prems(1) list.set_intros(2) [OF list.set_intros(1)]] by blast+
  note fields = evolves_fields [OF st3(2)]
  show ?case
  proof (cases "int (length ?kts) = ?im")
    case False
    then have "tree_inv (unpin_page p st3) (plug c (GNode p ?kts))"
      using st3(1) prems(2,4) len fields
      by (intro tree_inv_unpin tree_inv_insert_child) simp_all
    moreover have "pins (unpin_page p st3) = drop_pin (root_of t2) (drop_pin (root_of t1) (pins st))"
      using ids by (simp add: st3(4) drop_pin_def fun_upd_twist)
    moreover have "evolves st (unpin_page p st3)" by (meson st3(2) evolves_trans evolves_unpin)
    moreover have "root_page_id (unpin_page p st3) = root_page_id st"
      using stored_frame_root [OF prems(1), of st3 ?kts "[]"] st3(1) by simp
    ultimately show ?thesis
      using ins False by (auto simp: f entries_plug root_kept_def intro!: exI [of _ "plug c (GNode p ?kts)"])
  next
    case True
    have im: "4 \<le> ?im" using prems(3) by (simp add: sizes_ok_def)
    then obtain xs ys where split: "?kts = xs @ ys"
      and lens: "int (length xs) = ?im div 2" "int (length ys) = ?im - ?im div 2"
      using half_split [OF True] by auto
    obtain k' t' ys' where ys: "ys = (k', t') # ys'" using lens(2) im by (cases ys) auto
    obtain st4 where st4: "SplitInternal p st3 = Some (disk_next st3, st4)"
      "stored st4 c [GNode p xs, GNode (disk_next st3) ys]" "evolves st3 st4"
      "pins st4 = (pins st3)(disk_next st3 := 1)"
      using st3(1) lens im unfolding split
      by (rule_tac SplitInternal_ok [of st3 c p xs ys]) (auto simp: fields ys)
    note fields4 = evolves_fields [OF st4(3)]
    have "get_internal (disk_next st3) st4 = Some \<lparr>max_size = ?im, parent_page_id = ctx_parent c,
        page_id = disk_next st3, internal_array = child_slots ys\<rparr>"
      using storedD(1) [OF st4(2), of "GNode (disk_next st3) ys"] fields fields4
      by (simp add: get_internal_eq)
    then have "InsertIntoParent (root_of t1) k (root_of t2) st
        = InsertIntoParent (root_of (GNode p xs)) k' (root_of (GNode (disk_next st3) ys)) st4"
      using ins True st4(1) by (simp add: ys InternalPage_KeyAt_def)
    moreover have "two_at cmp (leaf_max_size st4) (internal_max_size st4) c (GNode p xs) k' (GNode (disk_next st3) ys)"
      using two_at_split [OF prems(4) im split lens ys] fields fields4 by simp
    then obtain st' g where st': "InsertIntoParent (root_of (GNode p xs)) k' (root_of (GNode (disk_next st3) ys)) st4 = Some st'"
      "tree_inv st' g" "entries g = ctx_left c @ entries (GNode p xs) @ entries (GNode (disk_next st3) ys) @ ctx_right c"
      "evolves st4 st'" "pins st' = drop_pin (disk_next st3) (drop_pin p (pins st4))" "root_kept st4 c st'"
      using Cons.IH [OF st4(2)] prems(2,3) fields fields4 by (fastforce simp: sizes_ok_def)
    moreover have "entries g = ctx_left (f # c) @ entries t1 @ entries t2 @ ctx_right (f # c)"
    proof -
      have "entries (GNode p xs) @ entries (GNode (disk_next st3) ys) = entries_of (xs @ ys)" by simp
      then show ?thesis using st'(3) by (simp add: f split [symmetric])
    qed
    moreover have "evolves st st'" by (meson st3(2) st4(3) st'(4) evolves_trans)
    moreover have "pins st' = drop_pin (root_of t2) (drop_pin (root_of t1) (pins st))"
    proof -
      have "pins st (disk_next st) = 0" using storedD(8) [OF prems(1)] by (simp add: alloc_ok_def)
      then show ?thesis
        using ids by (auto simp: st'(5) st4(4) st3(3,4) drop_pin_def fun_eq_iff)
    qed
    moreover have "root_page_id st3 = root_page_id st" "root_page_id st4 = root_page_id st"
      using stored_frame_root [OF prems(1), of st3 ?kts "[]"] st3(1)
        stored_frame_root [OF prems(1), of st4 xs] st4(2) by simp_all
    then have "root_kept st (f # c) st'"
      using st'(6) True fields(4) fields4(4) by (auto simp: root_kept_def f)
    ultimately show ?thesis by auto
  qed
qed

end

section \<open>Inserting into a leaf\<close>

lemma stored_leaf:
  assumes "stored st c [GLeaf q es]"
  obtains l where "pages st q = Some (LeafNode l)" "leaf_array l = es" "max_size l = leaf_max_size st"
    "parent_page_id l = ctx_parent c" "page_id l = q" "0 < q" "q < disk_next st"
  using storedD(1) [OF assms, of "GLeaf q es"] storedD(4) [OF assms, of q] by auto

lemma stored_leaf_update:
  assumes "stored st c [GLeaf q es]" and "pages st q = Some (LeafNode l)"
  shows "stored (put_page q (LeafNode (l\<lparr>leaf_array := es'\<rparr>)) st) c [GLeaf q es']"
proof (rule stored_replace [OF assms(1)])
  note st = storedD [OF assms(1)]
  have nx: "next_of (pages st) q = Some (next_page_id l)" using assms(2) by (simp add: next_of_def)
  then show "chain (pages (put_page q (LeafNode (l\<lparr>leaf_array := es'\<rparr>)) st))
      (ctx_left_ids c @ concat (map leaf_ids [GLeaf q es']) @ ctx_right_ids c) INVALID_PAGE_ID"
    using st(5) by (simp add: chain_upd_leaf)
  show "rep_st (put_page q (LeafNode (l\<lparr>leaf_array := es'\<rparr>)) st) (ctx_parent c) t"
    if "t \<in> set [GLeaf q es']" for t
    using that st(1) [of "GLeaf q es"] assms(2) by auto
  show "pages (put_page q (LeafNode (l\<lparr>leaf_array := es'\<rparr>)) st) p = pages st p"
    if "p \<in> set (ctx_pids c)" for p using that st(3) by auto
  show "pages (put_page q (LeafNode (l\<lparr>leaf_array := es'\<rparr>)) st) 0 = pages st 0"
    using st(4) [of q] by auto
qed (use storedD(8) [OF assms(1)] in \<open>auto simp: alloc_ok_def\<close>)

lemma LeafPage_MoveHalfTo_eq:
  assumes "leaf_array l = xs @ ys" and "int (length xs) = max_size l div 2" and "leaf_array e = []"
  shows "LeafPage_MoveHalfTo l e = (l\<lparr>leaf_array := xs\<rparr>, e\<lparr>leaf_array := ys\<rparr>)"
proof -
  have "nat (max_size l div 2) = length xs" using assms(2) by simp
  then show ?thesis
    using assms by (simp add: LeafPage_MoveHalfTo_def leaf_page_defs GetMinSize_def)
qed

lemma SplitLeaf_eq:
  assumes "pages st q = Some (LeafNode l)" and "leaf_array l = xs @ ys" and "max_size l = leaf_max_size st"
    and "int (length xs) = leaf_max_size st div 2" and "e = disk_next st" and "q \<noteq> e"
  shows "SplitLeaf q st = Some (e, st\<lparr>
     pages := (pages st)(e \<mapsto> LeafNode \<lparr>max_size = leaf_max_size st, parent_page_id = parent_page_id l,
                 page_id = e, next_page_id = INVALID_PAGE_ID, leaf_array = ys\<rparr>,
               q \<mapsto> LeafNode (l\<lparr>leaf_array := xs\<rparr>)),
     pins := (pins st)(e := 1), disk_next := e + 1\<rparr>)"
proof -
  let ?e = "LeafPage_Init e (parent_page_id l) (leaf_max_size st)"
  have "NewLeaf (parent_page_id l) st = (e, st\<lparr>pages := (pages st)(e \<mapsto> LeafNode ?e),
      pins := (pins st)(e := 1), disk_next := e + 1\<rparr>)"
    by (simp add: NewLeaf_def new_page_def Let_def assms(5))
  moreover have "LeafPage_MoveHalfTo l ?e = (l\<lparr>leaf_array := xs\<rparr>, ?e\<lparr>leaf_array := ys\<rparr>)"
    using assms(2-4) by (intro LeafPage_MoveHalfTo_eq) (simp_all add: LeafPage_Init_def)
  moreover have "?e\<lparr>leaf_array := ys\<rparr> = \<lparr>max_size = leaf_max_size st, parent_page_id = parent_page_id l,
      page_id = e, next_page_id = INVALID_PAGE_ID, leaf_array = ys\<rparr>"
    by (simp add: LeafPage_Init_def)
  ultimately show ?thesis
    using assms(1,6) by (simp add: SplitLeaf_def get_leaf_eq put_page_def fun_upd_twist)
qed

text \<open>The state after a full leaf has been split and the new leaf linked into the chain.\<close>

lemma stored_split_leaf:
  assumes "stored st c [GLeaf q (xs @ ys)]" and "pages st q = Some (LeafNode l)" and "e = disk_next st"
    and "st' = st\<lparr>pages := (pages st)
           (e \<mapsto> LeafNode \<lparr>max_size = leaf_max_size st, parent_page_id = parent_page_id l, page_id = e,
                  next_page_id = next_page_id l, leaf_array = ys\<rparr>,
            q \<mapsto> LeafNode (l\<lparr>leaf_array := xs, next_page_id := e\<rparr>)),
         pins := (pins st)(e := 1), disk_next := e + 1\<rparr>"
  shows "stored st' c [GLeaf q xs, GLeaf e ys]" "evolves st st'"
proof -
  note st = storedD [OF assms(1)]
  have q: "0 < q" "q < e" "q \<notin> set (ctx_pids c)" using st(3,4) assms(3) by auto
  have hdr: "pages st' 0 = pages st 0" using q by (simp add: assms(4))
  have ctx: "pages st' p = pages st p" if "p \<in> set (ctx_pids c)" for p
    using st(4) [of p] q that by (auto simp: assms(3,4))
  show "stored st' c [GLeaf q xs, GLeaf e ys]"
  proof (rule stored_replace [OF assms(1) _ _ _ _ ctx hdr])
    show "rep_st st' (ctx_parent c) t" if "t \<in> set [GLeaf q xs, GLeaf e ys]" for t
      using that st(1) [of "GLeaf q (xs @ ys)"] assms(2) q by (auto simp: assms(4))
    have nx: "next_of (pages st) q = Some (next_page_id l)" "next_of (pages st') q = Some e"
      "next_of (pages st') e = Some (next_page_id l)"
      using assms(2) q by (simp_all add: assms(4) next_of_def)
    have "chain (pages st') (ctx_left_ids c @ [q, e] @ ctx_right_ids c) INVALID_PAGE_ID"
    proof (rule chain_hole)
      show "chain (pages st) (ctx_left_ids c @ [q] @ ctx_right_ids c) INVALID_PAGE_ID"
        using st(5) by simp
      show "next_of (pages st') p = next_of (pages st) p"
        if "p \<in> set (ctx_left_ids c) \<union> set (ctx_right_ids c)" for p
        using ctx [of p] ctx_ids_subset [of c] that by (auto simp: next_of_def)
    qed (use nx in simp_all)
    then show "chain (pages st') (ctx_left_ids c @ concat (map leaf_ids [GLeaf q xs, GLeaf e ys])
        @ ctx_right_ids c) INVALID_PAGE_ID" by simp
  qed (use q st(8) in \<open>auto simp: assms(3,4) alloc_ok_def\<close>)
  show "evolves st st'" using hdr by (intro evolves_same_header) (simp_all add: assms(3,4))
qed

context key_comparator
begin

lemma al_insert_path:
  assumes "ordered_ctx cmp c" and "within cmp (ctx_lo c) (ctx_hi c) key"
  shows "al_insert cmp key v (ctx_left c @ es @ ctx_right c) = ctx_left c @ al_insert cmp key v es @ ctx_right c"
  using ctx_left_below [of c key] ctx_right_above [of c key] assms
  by (simp add: al_insert_append_left al_insert_append_right within_def)

lemma keys_path:
  assumes "ordered_ctx cmp c" and "within cmp (ctx_lo c) (ctx_hi c) key"
  shows "key \<in> fst ` set (ctx_left c @ es @ ctx_right c) \<longleftrightarrow> key \<in> fst ` set es"
  using map_of_path [OF assms, of es] by (metis map_of_eq_None_iff)

lemma ordered_leaf_insert:
  assumes "ordered cmp lo hi (GLeaf q es)" and "within cmp lo hi key"
  shows "ordered cmp lo hi (GLeaf q (al_insert cmp key v es))"
  using assms sorted_keys_al_insert [of es key v] set_al_insert_subset [of cmp key v es] by auto

lemma tree_inv_leaf:
  assumes "tree_inv st (plug c (GLeaf q es))" and "stored st' c [GLeaf q es']" and "evolves st st'"
    and "comparator st = cmp" and "ordered cmp (ctx_lo c) (ctx_hi c) (GLeaf q es')" and "ordered_ctx cmp c"
    and "length es \<le> length es'" and "int (length es') < leaf_max_size st"
  shows "tree_inv st' (plug c (GLeaf q es'))"
proof -
  have "root_shape (leaf_max_size st) (internal_max_size st) (plug c (GLeaf q es'))"
  proof (cases "c = []")
    case True
    then show ?thesis using assms(1,7,8) by (auto simp: tree_inv_def)
  next
    case False
    then show ?thesis
      using assms(1,7,8) shape_plug [OF False] by (fastforce simp: tree_inv_def)
  qed
  then show ?thesis
    using assms stored_plug [of st' c] ordered_plug [of cmp c]
    by (simp add: tree_inv_def evolves_fields)
qed

lemma two_at_leaf:
  assumes "tree_inv st (plug c (GLeaf q es))" and "ordered_ctx cmp c"
    and "ordered cmp (ctx_lo c) (ctx_hi c) (GLeaf q (xs @ (k, v) # ys))"
    and "int (length xs) = leaf_max_size st div 2"
    and "int (Suc (length ys)) = leaf_max_size st - leaf_max_size st div 2" and "sizes_ok st"
  shows "two_at cmp (leaf_max_size st) (internal_max_size st) c (GLeaf q xs) k (GLeaf e ((k, v) # ys))"
proof -
  have len: "xs \<noteq> []" using assms(4,6) by (cases xs) (auto simp: sizes_ok_def)
  have less: "\<forall>x \<in> set xs. cmp (fst x) k < 0" "\<forall>y \<in> set ys. cmp k (fst y) < 0"
    using assms(3) by auto
  have "ordered cmp (ctx_lo c) (Some k) (GLeaf q xs)" "ordered cmp (Some k) (ctx_hi c) (GLeaf e ((k, v) # ys))"
    using assms(3) less cmp_asym [of k] by (auto simp: within_def above_def below_def)
  moreover have "below_lo cmp (ctx_lo c) k"
    using assms(3) less(1) len below_lo_less [of "ctx_lo c" "fst (hd xs)" k] by (simp add: within_def)
  moreover have "below cmp (ctx_hi c) k" using assms(3) by (simp add: within_def)
  moreover have "\<exists>h. shape_ctx (leaf_max_size st) (internal_max_size st) h c \<and> h = 0"
    using assms(1) shape_plug [of c] by (cases "c = []") (fastforce simp: tree_inv_def)+
  ultimately show ?thesis
    using assms(2,4,5,6) by (auto simp: two_at_def sizes_ok_def)
qed

lemma InsertIntoLeaf_split:
  assumes "tree_inv st (plug c (GLeaf q es))" and "comparator st = cmp" and "sizes_ok st"
    and "stored st c [GLeaf q es]" and "pages st q = Some (LeafNode l)" and "leaf_array l = es"
    and "ordered_ctx cmp c" and "ordered cmp (ctx_lo c) (ctx_hi c) (GLeaf q es')"
    and "int (length es') = leaf_max_size st"
    and "FindLeafPage key False False st = Some (q, pin q st)"
    and "LeafPage_Insert cmp key v l = (int (length es'), l\<lparr>leaf_array := es'\<rparr>)"
  obtains st' g where "InsertIntoLeaf key v st = Some (True, st')" "tree_inv st' g"
    "entries g = ctx_left c @ es' @ ctx_right c" "evolves st st'" "pins st' = pins st" "root_kept st c st'"
proof -
  let ?e = "disk_next st" and ?l' = "l\<lparr>leaf_array := es'\<rparr>" and ?lm = "leaf_max_size st"
  define t2 where "t2 = put_page q (LeafNode ?l') (pin q st)"
  have q: "0 < q" "q < ?e" "max_size l = ?lm"
    using storedD(1,4) [OF assms(4)] assms(5) by auto
  have es': "es' \<noteq> []" using assms(3,9) by (auto simp: sizes_ok_def)
  obtain xs ys where sp: "es' = xs @ ys" "int (length xs) = ?lm div 2" "int (length ys) = ?lm - ?lm div 2"
    using half_split [OF assms(9)] by metis
  obtain k w ys' where ys: "ys = (k, w) # ys'"
    using sp(3) assms(3) by (cases ys) (auto simp: sizes_ok_def)
  have t2: "pages t2 q = Some (LeafNode ?l')" "leaf_max_size t2 = ?lm" "disk_next t2 = ?e"
    "comparator t2 = cmp" "internal_max_size t2 = internal_max_size st"
    "pins t2 = (pins st)(q := pins st q + 1)"
    using assms(2) by (simp_all add: t2_def)
  have stored2: "stored t2 c [GLeaf q (xs @ ys)]"
    unfolding t2_def sp(1) [symmetric] using assms(4,5) q(2)
    by (intro stored_leaf_update stored_pin) simp_all
  define t5 where "t5 = t2\<lparr>pages := (pages t2)
       (?e \<mapsto> LeafNode \<lparr>max_size = ?lm, parent_page_id = parent_page_id ?l', page_id = ?e,
               next_page_id = next_page_id ?l', leaf_array = ys\<rparr>,
        q \<mapsto> LeafNode (?l'\<lparr>leaf_array := xs, next_page_id := ?e\<rparr>)),
     pins := (pins t2)(?e := 1), disk_next := ?e + 1\<rparr>"
  have t5: "stored t5 c [GLeaf q xs, GLeaf ?e ys]" "evolves t2 t5"
    using stored_split_leaf [OF stored2 t2(1) refl, of t5] by (simp_all add: t5_def t2(2,3))
  have ev2: "evolves st t2" unfolding t2_def by (rule evolves_trans [OF evolves_pin evolves_put]) (use q in simp)
  have two: "two_at cmp ?lm (internal_max_size st) c (GLeaf q xs) k (GLeaf ?e ys)"
    using two_at_leaf [OF assms(1,7), of xs k w ys'] assms(3,8) sp ys by simp
  obtain st' g where r: "InsertIntoParent q k ?e t5 = Some st'" "tree_inv st' g"
    "entries g = ctx_left c @ xs @ ys @ ctx_right c" "evolves t5 st'"
    "pins st' = drop_pin ?e (drop_pin q (pins t5))" "root_kept t5 c st'"
    using InsertIntoParent_ok [OF t5(1), of k] two assms(3) t2(2,4,5) evolves_fields [OF t5(2)]
    by (auto simp: sizes_ok_def)
  let ?n = "\<lparr>max_size = ?lm, parent_page_id = parent_page_id ?l', page_id = ?e,
     next_page_id = INVALID_PAGE_ID, leaf_array = ys\<rparr>"
  define t3 where "t3 = t2\<lparr>pages := (pages t2)(?e \<mapsto> LeafNode ?n, q \<mapsto> LeafNode (?l'\<lparr>leaf_array := xs\<rparr>)),
     pins := (pins t2)(?e := 1), disk_next := ?e + 1\<rparr>"
  have "SplitLeaf q t2 = Some (?e, t3)"
    using SplitLeaf_eq [OF t2(1), of xs ys ?e] sp q t2(2,3) by (simp add: t3_def)
  moreover have "get_leaf q t3 = Some (?l'\<lparr>leaf_array := xs\<rparr>)" "get_leaf ?e t3 = Some ?n"
    using q(2) by (simp_all add: t3_def get_leaf_eq)
  moreover have "put_page q (LeafNode (?l'\<lparr>leaf_array := xs, next_page_id := ?e\<rparr>))
      (put_page ?e (LeafNode (?n\<lparr>next_page_id := next_page_id ?l'\<rparr>)) t3) = t5"
    using q(2) by (intro bpt.equality) (simp_all add: t3_def t5_def fun_upd_twist)
  moreover have "LeafPage_KeyAt 0 ?n = Some k" by (simp add: LeafPage_KeyAt_def ys)
  moreover have "InsertIntoLeaf key v st =
      (do { (extra_pid, t3) \<leftarrow> SplitLeaf q t2;
            leaf_node \<leftarrow> get_leaf q t3;
            extra_node \<leftarrow> get_leaf extra_pid t3;
            let t4 = put_page extra_pid (LeafNode (extra_node\<lparr>next_page_id := next_page_id leaf_node\<rparr>)) t3;
            let t5 = put_page q (LeafNode (leaf_node\<lparr>next_page_id := extra_pid\<rparr>)) t4;
            extra_key \<leftarrow> LeafPage_KeyAt 0 extra_node;
            t6 \<leftarrow> InsertIntoParent q extra_key extra_pid t5;
            Some (True, t6) })"
    using assms(2,5,9,10,11) q(3)
    by (simp add: InsertIntoLeaf_def get_leaf_eq t2_def [symmetric] LeafPage_GetSize_def)
  ultimately have "InsertIntoLeaf key v st = Some (True, st')"
    using r(1) by simp
  moreover have "pins st' = pins st"
    using storedD(8) [OF assms(4)] q by (auto simp: r(5) t5_def t2(6) drop_pin_def alloc_ok_def fun_eq_iff)
  moreover have "evolves st st'" by (meson ev2 t5(2) r(4) evolves_trans)
  moreover have "root_kept st c st'"
    using r(6) t2(5) by (simp add: root_kept_def t5_def t2_def)
  ultimately show thesis using that r(2,3) sp(1) by simp
qed

lemma InsertIntoLeaf_ok:
  assumes "tree_inv st g" and "comparator st = cmp" and "sizes_ok st"
  obtains st' g' where "InsertIntoLeaf key v st = Some (key \<notin> fst ` set (entries g), st')" "tree_inv st' g'"
    "entries g' = al_insert cmp key v (entries g)" "evolves st st'" "pins st' = pins st"
proof -
  obtain c q es where f: "FindLeafPage key False False st = Some (q, pin q st)"
    "g = plug c (GLeaf q es)" "stored st c [GLeaf q es]" "ordered_ctx cmp c"
    "ordered cmp (ctx_lo c) (ctx_hi c) (GLeaf q es)" "within cmp (ctx_lo c) (ctx_hi c) key"
    using FindLeafPage_ok [OF assms(1,2)] by metis
  obtain l where l: "pages st q = Some (LeafNode l)" "leaf_array l = es" "max_size l = leaf_max_size st"
    "0 < q" "q < disk_next st"
    using stored_leaf [OF f(3)] by metis
  let ?es = "al_insert cmp key v es" and ?l = "l\<lparr>leaf_array := al_insert cmp key v es\<rparr>"
  have sorted: "sorted_keys cmp es" using f(5) by simp
  have short: "int (length es) < leaf_max_size st"
    using assms(1) shape_plug [of c] by (cases "c = []") (auto simp: tree_inv_def f(2))
  have ins: "LeafPage_Insert cmp key v l = (if key \<in> fst ` set es then -1 else int (length ?es), ?l)"
    using LeafPage_Insert_sorted [of l key v] sorted short length_al_insert [OF sorted, of key v]
    by (simp add: l)
  have keys: "key \<in> fst ` set (entries g) \<longleftrightarrow> key \<in> fst ` set es"
    using keys_path [OF f(4,6)] by (simp add: f(2) entries_plug)
  have ents: "al_insert cmp key v (entries g) = ctx_left c @ ?es @ ctx_right c"
    using al_insert_path [OF f(4,6)] by (simp add: f(2) entries_plug)
  have ord: "ordered cmp (ctx_lo c) (ctx_hi c) (GLeaf q ?es)"
    using f(5,6) by (rule ordered_leaf_insert)
  show thesis
  proof (cases "int (length ?es) = leaf_max_size st")
    case True
    then have "key \<notin> fst ` set es"
      using length_al_insert [OF sorted, of key v] short by (auto split: if_splits)
    with True ins assms(1) f l ord keys ents show thesis
      using assms(2,3) that by (rule_tac InsertIntoLeaf_split [of st c q es l ?es key v]) auto
  next
    case False
    let ?st = "put_page q (LeafNode ?l) st"
    have len: "length es \<le> length ?es" "int (length ?es) < leaf_max_size st"
      using False short length_al_insert [OF sorted, of key v] by (auto split: if_splits)
    have ev: "evolves st ?st" using l(4) by (intro evolves_put) simp
    have "tree_inv ?st (plug c (GLeaf q ?es))"
      by (rule tree_inv_leaf [OF assms(1) [unfolded f(2)] stored_leaf_update [OF f(3) l(1)] ev
            assms(2) ord f(4) len])
    moreover have "unpin_page q (put_page q n (pin q st)) = put_page q n st" for n
      by (simp add: unpin_page_def put_page_def pin_def)
    then have "InsertIntoLeaf key v st = Some (key \<notin> fst ` set (entries g), ?st)"
      using f(1) l ins assms(2) len(2) keys
      by (auto simp: InsertIntoLeaf_def get_leaf_eq LeafPage_GetSize_def)
    ultimately show thesis using that ev ents by (simp add: entries_plug)
  qed
qed

lemma StartNewTree_ok:
  assumes "root_page_id st = INVALID_PAGE_ID" and "header_ok st" and "alloc_ok st" and "sizes_ok st"
    and "comparator st = cmp"
  obtains st' g where "StartNewTree key v st = Some st'" "tree_inv st' g" "entries g = [(key, v)]"
    "evolves st st'" "pins st' = pins st"
proof -
  let ?e = "disk_next st"
  let ?l = "\<lparr>max_size = leaf_max_size st, parent_page_id = INVALID_PAGE_ID, page_id = ?e,
     next_page_id = INVALID_PAGE_ID, leaf_array = [(key, v)]\<rparr>"
  define st1 where "st1 = st\<lparr>pages := (pages st)(?e \<mapsto> LeafNode ?l), disk_next := ?e + 1, root_page_id := ?e\<rparr>"
  have e: "0 < ?e" "pins st ?e = 0" using assms(3) by (auto simp: alloc_ok_def)
  obtain recs where recs: "pages st 0 = Some (HeaderNode recs)" "map_of recs (index_name st) \<noteq> None"
    "length (index_name st) < 32"
    using assms(2) by (auto simp: header_ok_def)
  obtain recs' where u: "UpdateRootPageId st1 = Some (put_page 0 (HeaderNode recs') st1)"
    "header_ok (put_page 0 (HeaderNode recs') st1)" "evolves st1 (put_page 0 (HeaderNode recs') st1)"
    using set_root_header [of st1 recs] recs e(1) by (auto simp: st1_def)
  let ?st' = "put_page 0 (HeaderNode recs') st1"
  let ?init = "LeafPage_Init ?e INVALID_PAGE_ID (leaf_max_size st)"
  let ?t1 = "st\<lparr>pages := (pages st)(?e \<mapsto> LeafNode ?init), pins := (pins st)(?e := 1), disk_next := ?e + 1\<rparr>"
  have new: "NewLeaf INVALID_PAGE_ID st = (?e, ?t1)"
    by (simp add: NewLeaf_def new_page_def Let_def)
  have "LeafPage_Insert cmp key v ?init = (1, ?l)"
    using LeafPage_Insert_sorted [of ?init key v] assms(4) by (simp add: LeafPage_Init_def sizes_ok_def)
  moreover have "(unpin_page ?e (put_page ?e (LeafNode ?l) ?t1))\<lparr>root_page_id := ?e\<rparr> = st1"
    using e(2) by (intro bpt.equality) (simp_all add: st1_def fun_upd_idem)
  ultimately have "StartNewTree key v st = Some ?st'"
    using u(1) assms(5) new by (simp add: StartNewTree_def get_leaf_eq)
  moreover have "tree_inv ?st' (GLeaf ?e [(key, v)])"
    using u(2) e assms(3-5)
    by (auto simp: tree_inv_def stored_def st1_def alloc_ok_def next_of_def within_def above_def below_def
        sizes_ok_def)
  moreover have "evolves st st1" using e(1) by (intro evolves_same_header) (simp_all add: st1_def)
  then have "evolves st ?st'" using u(3) by (rule evolves_trans)
  ultimately show thesis using that by (simp add: st1_def)
qed

theorem Insert_ok:
  assumes "holds st es" and "comparator st = cmp"
  shows "\<exists>st'. BPlusTree_Insert key v st = Some (key \<notin> fst ` set es, st') \<and>
     holds st' (al_insert cmp key v es) \<and> evolves st st' \<and> pins st' = pins st"
proof (cases "root_page_id st = INVALID_PAGE_ID")
  case True
  then have es: "es = []" and ok: "header_ok st" "alloc_ok st" "sizes_ok st"
    using assms(1) by (auto simp: holds_def tree_inv_def stored_def dest: bspec [OF _ root_in_pids])
  obtain st' g where "StartNewTree key v st = Some st'" "tree_inv st' g" "entries g = [(key, v)]"
    "evolves st st'" "pins st' = pins st"
    using StartNewTree_ok [OF True ok assms(2)] by metis
  then show ?thesis
    using True es ok(3) evolves_fields [of st st']
    by (auto simp: BPlusTree_Insert_def BPlusTree_IsEmpty_def holds_def sizes_ok_def)
next
  case False
  then obtain g where g: "tree_inv st g" "es = entries g" using assms(1) by (auto simp: holds_def)
  obtain st' g' where "InsertIntoLeaf key v st = Some (key \<notin> fst ` set (entries g), st')" "tree_inv st' g'"
    "entries g' = al_insert cmp key v (entries g)" "evolves st st'" "pins st' = pins st"
    using InsertIntoLeaf_ok [OF g(1) assms(2), of key v] assms(1) by (auto simp: holds_def)
  then show ?thesis
    using False assms(1) g(2) evolves_fields [of st st']
    by (auto simp: BPlusTree_Insert_def BPlusTree_IsEmpty_def holds_def sizes_ok_def)
qed

end

end
