(* ===== verification/TreeRebalance.thy ===== *)
theory TreeRebalance
  imports TreeInsert
begin

text \<open>
  The two ways \<^verbatim>\<open>CoalesceOrRedistribute\<close> repairs a page that has fallen below its minimum, on
  trees: merging two neighbours, and moving one pair across the separator between them. The
  lemmas say what this does to order, shape and contents, and how a change of two neighbouring
  children carries over to the store.
\<close>

section \<open>Merging and shifting neighbours\<close>

fun merge_trees :: "'k \<Rightarrow> ('k, 'v) gtree \<Rightarrow> ('k, 'v) gtree \<Rightarrow> ('k, 'v) gtree" where
  "merge_trees k (GLeaf a xs) (GLeaf b ys) = GLeaf a (xs @ ys)"
| "merge_trees k (GNode a xs) (GNode b ys) = GNode a (xs @ (k, snd (hd ys)) # tl ys)"
| "merge_trees k l r = l"

text \<open>\<open>shift_left\<close> moves the first pair of the right tree, \<open>shift_right\<close> the last of the left one.\<close>

fun shift_left ::
    "'k \<Rightarrow> ('k, 'v) gtree \<Rightarrow> ('k, 'v) gtree \<Rightarrow> ('k, 'v) gtree \<times> 'k \<times> ('k, 'v) gtree" where
  "shift_left k (GLeaf a xs) (GLeaf b ys) =
     (GLeaf a (xs @ [hd ys]), fst (hd (tl ys)), GLeaf b (tl ys))"
| "shift_left k (GNode a xs) (GNode b ys) =
     (GNode a (xs @ [(k, snd (hd ys))]), fst (hd (tl ys)), GNode b (tl ys))"
| "shift_left k l r = (l, k, r)"

fun shift_right ::
    "'k \<Rightarrow> ('k, 'v) gtree \<Rightarrow> ('k, 'v) gtree \<Rightarrow> ('k, 'v) gtree \<times> 'k \<times> ('k, 'v) gtree" where
  "shift_right k (GLeaf a xs) (GLeaf b ys) =
     (GLeaf a (butlast xs), fst (last xs), GLeaf b (last xs # ys))"
| "shift_right k (GNode a xs) (GNode b ys) =
     (GNode a (butlast xs), fst (last xs),
      GNode b (last xs # (k, snd (hd ys)) # tl ys))"
| "shift_right k l r = (l, k, r)"

fun width :: "('k, 'v) gtree \<Rightarrow> nat" where
  "width (GLeaf p es) = length es"
| "width (GNode p kts) = length kts"

fun is_leaf :: "('k, 'v) gtree \<Rightarrow> bool" where
  "is_leaf (GLeaf p es) = True"
| "is_leaf (GNode p kts) = False"

text \<open>Trees of one height, whatever the number of pairs on their root page.\<close>

fun level :: "int \<Rightarrow> int \<Rightarrow> nat \<Rightarrow> ('k, 'v) gtree \<Rightarrow> bool" where
  "level lm im h (GLeaf p es) \<longleftrightarrow> h = 0"
| "level lm im h (GNode p kts) \<longleftrightarrow> h \<noteq> 0 \<and> (\<forall>kt \<in> set kts. shape lm im (h - 1) (snd kt))"

fun capacity :: "int \<Rightarrow> int \<Rightarrow> ('k, 'v) gtree \<Rightarrow> int" where
  "capacity lm im (GLeaf p es) = lm"
| "capacity lm im (GNode p kts) = im"

lemma shape_level:
  "shape lm im h t \<longleftrightarrow> level lm im h t \<and>
     capacity lm im t div 2 \<le> int (width t) \<and> int (width t) < capacity lm im t"
  by (cases t) auto

lemma level_cases:
  assumes "level lm im h l" and "level lm im h r"
  obtains (leaves) a xs b ys where "l = GLeaf a xs" "r = GLeaf b ys" "h = 0"
  | (nodes) a xs b ys where "l = GNode a xs" "r = GNode b ys" "h \<noteq> 0"
  using assms by (cases l; cases r) auto

lemma capacity_level: "level lm im h l \<Longrightarrow> level lm im h r \<Longrightarrow> capacity lm im l = capacity lm im r"
  by (cases l; cases r) auto

lemma entries_merge:
  assumes "level lm im h l" and "level lm im h r" and "h \<noteq> 0 \<Longrightarrow> 0 < width r"
  shows "entries (merge_trees k l r) = entries l @ entries r"
  using assms(1,2)
proof (cases rule: level_cases)
  case (nodes a xs b ys)
  then show ?thesis using assms(3) by (cases ys) auto
qed auto

lemma level_merge:
  assumes "level lm im h l" and "level lm im h r" and "h \<noteq> 0 \<Longrightarrow> 0 < width r"
  shows "level lm im h (merge_trees k l r)" "width (merge_trees k l r) = width l + width r"
    "root_of (merge_trees k l r) = root_of l"
  using assms by (cases l; cases r; cases "width r"; auto simp: neq_Nil_conv)+

lemma shift_left_facts:
  assumes "level lm im h l" and "level lm im h r" and "2 \<le> width r"
    and "shift_left k l r = (l', k', r')"
  shows "entries l' @ entries r' = entries l @ entries r \<and> level lm im h l' \<and> level lm im h r' \<and>
    width l' = width l + 1 \<and> width r' = width r - 1 \<and> root_of l' = root_of l \<and> root_of r' = root_of r"
  using assms(1,2)
proof (cases rule: level_cases)
  case (leaves a xs b ys)
  obtain y ys' where "ys = y # ys'" using assms(3) leaves by (cases ys) auto
  then show ?thesis
    using assms leaves by auto
next
  case (nodes a xs b ys)
  obtain y ys' where "ys = y # ys'" using assms(3) nodes by (cases ys) auto
  then show ?thesis
    using assms nodes by auto
qed

lemma shift_right_facts:
  assumes "level lm im h l" and "level lm im h r" and "2 \<le> width l" and "h \<noteq> 0 \<Longrightarrow> 0 < width r"
    and "shift_right k l r = (l', k', r')"
  shows "entries l' @ entries r' = entries l @ entries r \<and> level lm im h l' \<and> level lm im h r' \<and>
    width l' = width l - 1 \<and> width r' = width r + 1 \<and> root_of l' = root_of l \<and> root_of r' = root_of r"
  using assms(1,2)
proof (cases rule: level_cases)
  case (leaves a xs b ys)
  obtain x xs' where "xs = xs' @ [x]" using assms(3) leaves by (cases xs rule: rev_cases) auto
  then show ?thesis
    using assms leaves by auto
next
  case (nodes a xs b ys)
  obtain x xs' where "xs = xs' @ [x]" using assms(3) nodes by (cases xs rule: rev_cases) auto
  moreover obtain y ys' where "ys = y # ys'" using assms(4) nodes by (cases ys) auto
  ultimately show ?thesis
    using assms nodes by auto
qed

section \<open>Order\<close>

context key_comparator
begin

lemma separators_delete:
  assumes "separators cmp lo hi (as @ k1 # k2 # bs)"
  shows "separators cmp lo hi (as @ k1 # bs)" "below_lo cmp (if as = [] then lo else Some k1) k2"
    "below cmp (case bs of [] \<Rightarrow> hi | b # _ \<Rightarrow> Some b) k2"
  using assms by (cases as; cases bs; auto simp: separators_def below_lo_def below_def sorted_wrt_append)+

lemma ordered_pairD:
  assumes "ordered cmp lo hi (GNode p (ls @ (k1, l) # (k2, r) # rs))"
  shows "ordered cmp (if ls = [] then lo else Some k1) (Some k2) l"
    "ordered cmp (Some k2) (case rs of [] \<Rightarrow> hi | x # _ \<Rightarrow> Some (fst x)) r"
    "below_lo cmp (if ls = [] then lo else Some k1) k2" "below cmp (case rs of [] \<Rightarrow> hi | x # _ \<Rightarrow> Some (fst x)) k2"
proof -
  have sep: "separators cmp lo hi (map fst ls @ k1 # k2 # map fst rs)"
    and pw: "pairwise_bounds (ordered cmp) lo hi (ls @ (k1, l) # (k2, r) # rs)"
    using assms by simp_all
  show "ordered cmp (if ls = [] then lo else Some k1) (Some k2) l"
    "ordered cmp (Some k2) (case rs of [] \<Rightarrow> hi | x # _ \<Rightarrow> Some (fst x)) r"
    using pw pairwise_bounds_append [of "ordered cmp" lo hi ls k1 l "(k2, r) # rs"]
      pairwise_bounds_append [of "ordered cmp" "Some k2" hi "[]" k2 r rs] by simp_all
  show "below_lo cmp (if ls = [] then lo else Some k1) k2" using separators_delete(2) [OF sep] by simp
  show "below cmp (case rs of [] \<Rightarrow> hi | x # _ \<Rightarrow> Some (fst x)) k2"
    using separators_delete(3) [OF sep] by (cases rs) simp_all
qed

lemma ordered_pair_merge:
  assumes "ordered cmp lo hi (GNode p (ls @ (k1, l) # (k2, r) # rs))"
    and "ordered cmp (if ls = [] then lo else Some k1) (case rs of [] \<Rightarrow> hi | x # _ \<Rightarrow> Some (fst x)) m"
  shows "ordered cmp lo hi (GNode p (ls @ (k1, m) # rs))"
proof -
  have sep: "separators cmp lo hi (map fst ls @ k1 # k2 # map fst rs)"
    and pw: "pairwise_bounds (ordered cmp) lo hi (ls @ (k1, l) # (k2, r) # rs)"
    using assms(1) by simp_all
  have "pairwise_bounds (ordered cmp) lo hi (ls @ (k1, m) # rs)"
    using pw assms(2) pairwise_bounds_append [of "ordered cmp" lo hi ls k1 l "(k2, r) # rs"]
      pairwise_bounds_append [of "ordered cmp" "Some k2" hi "[]" k2 r rs]
      pairwise_bounds_append [of "ordered cmp" lo hi ls k1 m rs] by auto
  then show ?thesis using separators_delete(1) [OF sep] by simp
qed

lemma ordered_pair_shift:
  assumes "ordered cmp lo hi (GNode p (ls @ (k1, l) # (k2, r) # rs))"
    and "ordered cmp (if ls = [] then lo else Some k1) (Some k) l'"
    and "ordered cmp (Some k) (case rs of [] \<Rightarrow> hi | x # _ \<Rightarrow> Some (fst x)) r'"
    and "below_lo cmp (if ls = [] then lo else Some k1) k" and "below cmp (case rs of [] \<Rightarrow> hi | x # _ \<Rightarrow> Some (fst x)) k"
  shows "ordered cmp lo hi (GNode p (ls @ (k1, l') # (k, r') # rs))"
proof -
  have sep: "separators cmp lo hi (map fst ls @ k1 # k2 # map fst rs)"
    and pw: "pairwise_bounds (ordered cmp) lo hi (ls @ (k1, l) # (k2, r) # rs)"
    using assms(1) by simp_all
  have "below cmp (case map fst rs of [] \<Rightarrow> hi | b # _ \<Rightarrow> Some b) k" using assms(5) by (cases rs) auto
  then have "separators cmp lo hi (map fst ls @ k1 # k # map fst rs)"
    using separators_put [OF separators_delete(1) [OF sep], of k] assms(4) by auto
  moreover have "pairwise_bounds (ordered cmp) lo hi (ls @ (k1, l') # (k, r') # rs)"
    using pw assms(2,3) pairwise_bounds_append [of "ordered cmp" lo hi ls k1 l "(k2, r) # rs"]
      pairwise_bounds_append [of "ordered cmp" "Some k2" hi "[]" k2 r rs]
      pairwise_bounds_append [of "ordered cmp" lo hi ls k1 l' "(k, r') # rs"]
      pairwise_bounds_append [of "ordered cmp" "Some k" hi "[]" k r' rs] by auto
  ultimately show ?thesis by simp
qed

lemma ordered_leaf_append:
  assumes "ordered cmp lo (Some k) (GLeaf a xs)" and "ordered cmp (Some k) hi (GLeaf b ys)"
    and "below_lo cmp lo k" and "below cmp hi k"
  shows "ordered cmp lo hi (GLeaf c (xs @ ys))"
proof -
  have "bounded cmp lo (Some k) xs" "bounded cmp (Some k) hi ys"
    using assms(1,2) unfolding bounded_def ordered.simps by blast+
  moreover have "within cmp lo hi k" using assms(3,4) below_lo_above unfolding within_def by blast
  ultimately show ?thesis using bounded_append unfolding bounded_def ordered.simps by blast
qed

lemma ordered_node_append:
  assumes "ordered cmp lo (Some k) (GNode a xs)" and "ordered cmp (Some k) hi (GNode b ys)"
    and "below_lo cmp lo k" and "below cmp hi k"
  shows "ordered cmp lo hi (GNode c (xs @ (k, snd (hd ys)) # tl ys))"
proof -
  obtain x xs' where xs: "xs = x # xs'" using assms(1) by (cases xs) auto
  obtain ky y ys' where ys: "ys = (ky, y) # ys'" using assms(2) by (cases ys) auto
  have left: "\<forall>z \<in> set xs'. below_lo cmp lo (fst z) \<and> cmp (fst z) k < 0"
    and right: "\<forall>z \<in> set ys'. cmp k (fst z) < 0 \<and> below cmp hi (fst z)"
    and sorted: "sorted_wrt (\<lambda>x y. cmp x y < 0) (map fst xs')" "sorted_wrt (\<lambda>x y. cmp x y < 0) (map fst ys')"
    using assms(1,2) by (auto simp: xs ys separators_def below_def [of _ "Some _"] below_lo_def [of _ "Some _"])
  have "below cmp hi (fst z)" if "z \<in> set xs'" for z
    using left that assms(4) below_trans [of hi k "fst z"] cmp_asym [of "fst z" k] by auto
  moreover have "below_lo cmp lo (fst z)" if "z \<in> set ys'" for z
    using right that assms(3) below_lo_trans [of lo k "fst z"] cmp_asym [of k "fst z"] by auto
  moreover have "cmp (fst u) (fst z) < 0" if "u \<in> set xs'" "z \<in> set ys'" for u z
    using left right that cmp_trans [of "fst u" k "fst z"] by auto
  ultimately have "separators cmp lo hi (map fst (xs @ (k, y) # ys'))"
    using left right sorted assms(3,4) by (auto simp: separators_def xs sorted_wrt_append)
  moreover have "pairwise_bounds (ordered cmp) lo hi (xs @ (k, y) # ys')"
    using assms(1,2) pairwise_bounds_append [of "ordered cmp" lo hi xs k y ys']
      pairwise_bounds_append [of "ordered cmp" "Some k" hi "[]" ky y ys'] by (simp add: xs ys)
  ultimately show ?thesis by (simp add: ys)
qed

lemma ordered_merge:
  assumes "ordered cmp lo (Some k) l" and "ordered cmp (Some k) hi r"
    and "below_lo cmp lo k" and "below cmp hi k" and "level lm im h l" and "level lm im h r"
  shows "ordered cmp lo hi (merge_trees k l r)"
  using assms(5,6)
proof (cases rule: level_cases)
  case (leaves a xs b ys)
  then show ?thesis using ordered_leaf_append [of lo k a xs hi b ys a] assms(1-4) by simp
next
  case (nodes a xs b ys)
  then show ?thesis using ordered_node_append [of lo k a xs hi b ys a] assms(1-4) by simp
qed

text \<open>
  A shift is a merge followed by a split at another place: the two trees that result lie on
  the two sides of the new separator.
\<close>

lemma ordered_leaf_split:
  assumes "ordered cmp lo hi (GLeaf p (xs @ y # ys))" and "xs \<noteq> []"
  shows "ordered cmp lo (Some (fst y)) (GLeaf a xs)" "ordered cmp (Some (fst y)) hi (GLeaf b (y # ys))"
    "below_lo cmp lo (fst y)" "below cmp hi (fst y)"
proof -
  have less: "\<forall>x \<in> set xs. cmp (fst x) (fst y) < 0" "\<forall>z \<in> set ys. cmp (fst y) (fst z) < 0"
    using assms(1) by auto
  then show "ordered cmp lo (Some (fst y)) (GLeaf a xs)" "ordered cmp (Some (fst y)) hi (GLeaf b (y # ys))"
    using assms(1) cmp_asym [of "fst y"] by (auto simp: within_def above_def below_def)
  show "below_lo cmp lo (fst y)"
    using assms less(1) below_lo_less [of lo "fst (hd xs)" "fst y"] by (simp add: within_def)
  show "below cmp hi (fst y)" using assms(1) by (simp add: within_def)
qed

lemma ordered_shift_left:
  assumes "ordered cmp lo (Some k) l" and "ordered cmp (Some k) hi r"
    and "below_lo cmp lo k" and "below cmp hi k" and "level lm im h l" and "level lm im h r"
    and "2 \<le> width r" and "shift_left k l r = (l', k', r')"
  shows "ordered cmp lo (Some k') l' \<and> ordered cmp (Some k') hi r' \<and> below_lo cmp lo k' \<and> below cmp hi k'"
  using assms(5,6)
proof (cases rule: level_cases)
  case (leaves a xs b ys)
  obtain y1 y2 ys' where ys: "ys = y1 # y2 # ys'"
    using assms(7) leaves by (cases ys; cases "tl ys") auto
  have "ordered cmp lo hi (GLeaf a ((xs @ [y1]) @ y2 # ys'))"
    using ordered_leaf_append [OF assms(1,2) [unfolded leaves] assms(3,4), of a]
    by (simp only: ys append_assoc append_Cons append_Nil)
  note sp = ordered_leaf_split [OF this]
  have "l' = GLeaf a (xs @ [y1])" "k' = fst y2" "r' = GLeaf b (y2 # ys')"
    using assms(8) by (simp_all add: leaves(1,2) ys)
  then show ?thesis using sp by simp
next
  case (nodes a xs b ys)
  obtain y1 k2 t2 ys' where ys: "ys = y1 # (k2, t2) # ys'"
    using assms(7) nodes by (cases ys; cases "tl ys") auto
  have "ordered cmp lo hi (GNode a ((xs @ [(k, snd y1)]) @ (k2, t2) # ys'))"
    using ordered_node_append [OF assms(1,2) [unfolded nodes] assms(3,4), of a]
    by (simp only: ys append_assoc append_Cons append_Nil list.sel)
  note sp = ordered_split_node [OF this]
  have "l' = GNode a (xs @ [(k, snd y1)])" "k' = k2" "r' = GNode b ((k2, t2) # ys')"
    using assms(8) by (auto simp: nodes(1,2) ys)
  then show ?thesis using sp by simp
qed

lemma ordered_shift_right:
  assumes "ordered cmp lo (Some k) l" and "ordered cmp (Some k) hi r"
    and "below_lo cmp lo k" and "below cmp hi k" and "level lm im h l" and "level lm im h r"
    and "2 \<le> width l" and "shift_right k l r = (l', k', r')"
  shows "ordered cmp lo (Some k') l' \<and> ordered cmp (Some k') hi r' \<and> below_lo cmp lo k' \<and> below cmp hi k'"
  using assms(5,6)
proof (cases rule: level_cases)
  case (leaves a xs b ys)
  obtain xs' x where xs: "xs = xs' @ [x]" using assms(7) leaves by (cases xs rule: rev_cases) auto
  then have ne: "xs' \<noteq> []" using assms(7) leaves by auto
  have "ordered cmp lo hi (GLeaf a (xs' @ x # ys))"
    using ordered_leaf_append [OF assms(1,2) [unfolded leaves] assms(3,4), of a]
    by (simp only: xs append_assoc append_Cons append_Nil)
  note sp = ordered_leaf_split [OF this ne]
  have "l' = GLeaf a xs'" "k' = fst x" "r' = GLeaf b (x # ys)"
    using assms(8) by (simp_all add: leaves(1,2) xs)
  then show ?thesis using sp by simp
next
  case (nodes a xs b ys)
  obtain xs' kx tx where xs: "xs = xs' @ [(kx, tx)]" using assms(7) nodes by (cases xs rule: rev_cases) auto
  then have ne: "xs' \<noteq> []" using assms(7) nodes by auto
  have "ordered cmp lo hi (GNode a (xs' @ (kx, tx) # (k, snd (hd ys)) # tl ys))"
    using ordered_node_append [OF assms(1,2) [unfolded nodes] assms(3,4), of a]
    by (simp only: xs append_assoc append_Cons append_Nil)
  note sp = ordered_split_node [OF this ne]
  have "l' = GNode a xs'" "k' = kx" "r' = GNode b ((kx, tx) # (k, snd (hd ys)) # tl ys)"
    using assms(8) by (auto simp: nodes(1,2) xs)
  then show ?thesis using sp by simp
qed

end

section \<open>Two neighbours in the store\<close>

lemma distinct_subset_append:
  assumes "distinct (as @ bs @ cs)" and "distinct bs'" and "set bs' \<subseteq> set bs"
  shows "distinct (as @ bs' @ cs)"
  using assms by auto

lemma stored_pair:
  assumes "stored st c [GNode p (ls @ (k1, l) # (k2, r) # rs)]"
    and "pages st' p = Some (InternalNode \<lparr>max_size = internal_max_size st, parent_page_id = ctx_parent c,
           page_id = p, internal_array = child_slots (ls @ ms @ rs)\<rparr>)"
    and "\<And>kt. kt \<in> set ms \<Longrightarrow> rep_st st' p (snd kt)"
    and "\<And>q. q \<notin> insert p (set (pids l) \<union> set (pids r)) \<Longrightarrow> pages st' q = pages st q"
    and "distinct (pids_of ms)" and "set (pids_of ms) \<subseteq> set (pids l) \<union> set (pids r)"
    and "\<And>nx. chain (pages st) (leaf_ids l @ leaf_ids r) nx \<Longrightarrow> chain (pages st') (leaf_ids_of ms) nx"
    and "leaf_ids l \<noteq> []" "leaf_ids_of ms \<noteq> []" "hd (leaf_ids_of ms) = hd (leaf_ids l)"
    and "root_page_id st' = root_page_id st" "index_name st' = index_name st"
      "leaf_max_size st' = leaf_max_size st" "internal_max_size st' = internal_max_size st"
    and "disk_next st' = disk_next st" "\<And>p. disk_next st' \<le> p \<Longrightarrow> pins st' p = 0"
  shows "stored st' c [GNode p (ls @ ms @ rs)]"
proof (rule stored_replace [OF assms(1)])
  note st = storedD [OF assms(1)]
  let ?mid = "set (pids l) \<union> set (pids r)" and ?out = "set (pids_of ls) \<union> set (pids_of rs) \<union> set (ctx_pids c)"
  have dist: "distinct ((p # pids_of ls) @ (pids l @ pids r) @ pids_of rs @ ctx_pids c)"
    using st(3) by simp
  then have d: "distinct (p # pids_of ls)" "distinct (pids_of rs @ ctx_pids c)" "p \<notin> ?mid" "p \<notin> ?out" "?mid \<inter> ?out = {}"
    by auto
  have same: "pages st' q = pages st q" if "q \<in> ?out" for q
    using that d(4,5) by (intro assms(4)) blast
  show "pages st' q = pages st q" if "q \<in> set (ctx_pids c)" for q using same that by blast
  have "0 \<notin> insert p ?mid" using st(4) [of 0] by auto
  then show "pages st' 0 = pages st 0" by (rule assms(4))
  have "rep_st st p (snd kt)" if "kt \<in> set ls \<union> set rs" for kt
    using st(1) [of "GNode p (ls @ (k1, l) # (k2, r) # rs)"] that by auto
  then have outer: "rep_st st' p (snd kt)" if "kt \<in> set ls \<union> set rs" for kt
  proof -
    have "set (pids (snd kt)) \<subseteq> ?out" using that by auto
    then have "\<forall>q \<in> set (pids (snd kt)). pages st' q = pages st q" using same by blast
    then show ?thesis using rep_cong \<open>\<And>kt. kt \<in> _ \<Longrightarrow> rep_st st p _\<close> [OF that] assms(13,14) by metis
  qed
  show "rep_st st' (ctx_parent c) t" if "t \<in> set [GNode p (ls @ ms @ rs)]" for t
    using that assms(2,3,14) outer by auto
  have sub: "set (pids_of ms) \<subseteq> set (pids l @ pids r)" using assms(6) by simp
  have "distinct ((p # pids_of ls) @ pids_of ms @ pids_of rs @ ctx_pids c)"
    by (rule distinct_subset_append [OF dist assms(5) sub])
  then show "distinct (pids_all [GNode p (ls @ ms @ rs)])" by auto
  show "q \<in> set (pids_all [GNode p (ls @ (k1, l) # (k2, r) # rs)]) \<or> disk_next st \<le> q \<and> q < disk_next st'"
    if "q \<in> set (pids_all [GNode p (ls @ ms @ rs)])" for q
    using that assms(6) by auto
  let ?L = "ctx_left_ids c @ leaf_ids_of ls" and ?R = "leaf_ids_of rs @ ctx_right_ids c"
  have "chain (pages st') (?L @ leaf_ids_of ms @ ?R) INVALID_PAGE_ID"
  proof (rule chain_hole)
    show "chain (pages st) (?L @ (leaf_ids l @ leaf_ids r) @ ?R) INVALID_PAGE_ID" using st(5) by simp
    show "next_of (pages st') q = next_of (pages st) q" if "q \<in> set ?L \<union> set ?R" for q
    proof -
      have "q \<in> ?out"
        using that ctx_ids_subset [of c] leaf_ids_of_subset [of ls] leaf_ids_of_subset [of rs] by auto
      then show ?thesis using same by (simp add: next_of_def)
    qed
    show "hd (leaf_ids_of ms) = hd (leaf_ids l @ leaf_ids r)" using assms(8,10) by simp
  qed (use assms(7-9) in auto)
  then show "chain (pages st') (ctx_left_ids c @ concat (map leaf_ids [GNode p (ls @ ms @ rs)]) @ ctx_right_ids c)
      INVALID_PAGE_ID" by simp
qed (use assms in auto)

end
