(* ===== verification/TreeRemove.thy ===== *)
theory TreeRemove
  imports TreeRebalance
begin

text \<open>
  Removal. \<^verbatim>\<open>Coalesce\<close> and \<^verbatim>\<open>Redistribute\<close> implement \<^const>\<open>merge_trees\<close>, \<^const>\<open>shift_left\<close> and
  \<^const>\<open>shift_right\<close> on two neighbouring children; \<^verbatim>\<open>CoalesceOrRedistribute\<close> climbs while the page
  above has lost a child, and \<^verbatim>\<open>AdjustRoot\<close> drops an empty or single-child root.
\<close>

section \<open>Two neighbouring pages\<close>

abbreviation parent_node :: "('k, 'v) bpt \<Rightarrow> ('k, 'v) ctx \<Rightarrow> int \<Rightarrow> ('k, 'v) children \<Rightarrow> 'k internal_page" where
  "parent_node st c p kts \<equiv> \<lparr>max_size = internal_max_size st, parent_page_id = ctx_parent c,
     page_id = p, internal_array = child_slots kts\<rparr>"

lemma stored_node_page:
  "stored st c [GNode p kts] \<Longrightarrow> pages st p = Some (InternalNode (parent_node st c p kts))"
  using storedD(1) [of st c "[GNode p kts]" "GNode p kts"] by simp

lemma stored_node_rep: "stored st c [GNode p kts] \<Longrightarrow> kt \<in> set kts \<Longrightarrow> rep_st st p (snd kt)"
  using storedD(1) [of st c "[GNode p kts]" "GNode p kts"] by simp

lemma neighbours_ids:
  assumes "stored st c [GNode p (ls @ (k1, l) # (k2, r) # rs)]"
  shows "distinct (p # pids l @ pids r)" "set (pids l) \<inter> set (pids_of ls) = {}"
    "set (pids r) \<inter> set (pids_of ls) = {}"
  using storedD(3) [OF assms] by auto

lemma neighbours_low:
  assumes "stored st c [GNode p (ls @ (k1, l) # (k2, r) # rs)]" and "q \<in> set (p # pids l @ pids r)"
  shows "0 < q \<and> q < disk_next st"
  using storedD(4) [OF assms(1), of q] assms(2) by auto

lemma neighbours_roots:
  assumes "stored st c [GNode p (ls @ (k1, l) # (k2, r) # rs)]"
  shows "p \<noteq> root_of l" "p \<noteq> root_of r" "root_of l \<noteq> root_of r"
    "root_of l < disk_next st" "root_of r < disk_next st" "p < disk_next st"
    "0 < p" "0 < root_of l" "0 < root_of r"
proof -
  have "p \<notin> set (pids l)" "p \<notin> set (pids r)" "set (pids l) \<inter> set (pids r) = {}"
    using neighbours_ids(1) [OF assms] by auto
  then show "p \<noteq> root_of l" "p \<noteq> root_of r" "root_of l \<noteq> root_of r"
    by (metis root_in_pids, metis root_in_pids, metis disjoint_iff root_in_pids)
  show "root_of l < disk_next st" "root_of r < disk_next st" "p < disk_next st"
    "0 < p" "0 < root_of l" "0 < root_of r"
    using neighbours_low [OF assms, of "root_of l"] neighbours_low [OF assms, of "root_of r"]
      neighbours_low [OF assms, of p] by simp_all
qed

lemma neighbours_not_left:
  assumes "stored st c [GNode p (ls @ (k1, l) # (k2, r) # rs)]"
  shows "root_of l \<notin> snd ` set (child_slots ls)" "root_of r \<notin> snd ` set (child_slots (ls @ [(k1, l)]))"
proof -
  have sub: "snd ` set (child_slots ls) \<subseteq> set (pids_of ls)"
    using roots_subset [of ls] by (auto simp: child_slots_def)
  then show "root_of l \<notin> snd ` set (child_slots ls)"
    using neighbours_ids(2) [OF assms] root_in_pids [of l] by blast
  have "root_of r \<notin> snd ` set (child_slots ls)"
    using sub neighbours_ids(3) [OF assms] root_in_pids [of r] by blast
  then show "root_of r \<notin> snd ` set (child_slots (ls @ [(k1, l)]))"
    using neighbours_roots(3) [OF assms] by auto
qed

lemma neighbours_index:
  assumes "stored st c [GNode p (ls @ (k1, l) # (k2, r) # rs)]"
    and "node = parent_node st c p (ls @ (k1, l) # (k2, r) # rs)"
  shows "InternalPage_ValueIndex (root_of l) node = int (length ls)"
    "InternalPage_ValueIndex (root_of r) node = int (length ls) + 1"
    "InternalPage_ValueAt (int (length ls)) node = Some (root_of l)"
    "InternalPage_ValueAt (int (length ls) + 1) node = Some (root_of r)"
    "InternalPage_KeyAt (int (length ls) + 1) node = Some k2"
proof -
  have arr: "internal_array node = child_slots ls @ (k1, root_of l) # (k2, root_of r) # child_slots rs"
    "internal_array node = child_slots (ls @ [(k1, l)]) @ (k2, root_of r) # child_slots rs"
    by (simp_all add: assms(2))
  show "InternalPage_ValueIndex (root_of l) node = int (length ls)"
    using InternalPage_ValueIndex_split [OF arr(1)] neighbours_not_left(1) [OF assms(1)] by simp
  show "InternalPage_ValueIndex (root_of r) node = int (length ls) + 1"
    using InternalPage_ValueIndex_split [OF arr(2)] neighbours_not_left(2) [OF assms(1)] by simp
  have s1: "slot (internal_array node) (int (length ls)) = Some (k1, root_of l)"
    unfolding arr(1) by (rule slot_append_mid) simp
  have s2: "slot (internal_array node) (int (length ls) + 1) = Some (k2, root_of r)"
    unfolding arr(2) by (rule slot_append_mid) simp
  show "InternalPage_ValueAt (int (length ls)) node = Some (root_of l)"
    "InternalPage_ValueAt (int (length ls) + 1) node = Some (root_of r)"
    "InternalPage_KeyAt (int (length ls) + 1) node = Some k2"
    by (simp_all only: InternalPage_ValueAt_def InternalPage_KeyAt_def s1 s2 option.map fst_conv snd_conv)
qed

lemma neighbours_Remove:
  assumes "internal_array node = child_slots (ls @ (k1, l) # (k2, r) # rs)" and "root_of m = root_of l"
  shows "InternalPage_Remove (int (length ls) + 1) node = node\<lparr>internal_array := child_slots (ls @ [(k1, m)] @ rs)\<rparr>"
  using InternalPage_Remove_split [of node "child_slots (ls @ [(k1, l)])" "(k2, root_of r)" "child_slots rs"
      "int (length ls) + 1"] assms by simp

lemma neighbours_SetKeyAt:
  assumes "internal_array node = child_slots (ls @ (k1, l) # (k2, r) # rs)"
    and "root_of l' = root_of l" and "root_of r' = root_of r"
  shows "InternalPage_SetKeyAt (int (length ls) + 1) k node
     = node\<lparr>internal_array := child_slots (ls @ [(k1, l'), (k, r')] @ rs)\<rparr>"
  using assms by (simp add: InternalPage_SetKeyAt_def nat_add_distrib list_update_append nth_append)

lemma shape_leaf_ids: "shape lm im h t \<Longrightarrow> 2 \<le> im \<Longrightarrow> leaf_ids t \<noteq> []"
proof (induction t arbitrary: h rule: leaf_ids.induct)
  case (2 p kts)
  then obtain kt kts' where kts: "kts = kt # kts'" by (cases kts) auto
  then have "leaf_ids (snd kt) \<noteq> []" using "2.IH" [of kt "h - 1"] "2.prems" by simp
  then show ?case by (simp add: kts)
qed simp

lemma leaf_ids_not_Nil:
  assumes "level lm im h t" and "0 < h \<Longrightarrow> 0 < width t" and "2 \<le> im"
  shows "leaf_ids t \<noteq> []"
proof (cases t)
  case (GNode p kts)
  then obtain kt kts' where kts: "kts = kt # kts'" using assms(1,2) by (cases kts) auto
  then have "leaf_ids (snd kt) \<noteq> []" using assms(1,3) shape_leaf_ids [of lm im "h - 1" "snd kt"] by (simp add: GNode)
  then show ?thesis by (simp add: GNode kts)
qed simp

section \<open>Coalesce\<close>

text \<open>The part of \<^verbatim>\<open>Coalesce\<close> that depends on the kind of page moves all pairs of the right page.\<close>

definition merge_pages :: "int \<Rightarrow> int \<Rightarrow> 'k \<Rightarrow> ('k, 'v) bpt \<Rightarrow> ('k, 'v) bpt option" where
  "merge_pages a b k t =
     do { node \<leftarrow> get_node b t;
          (case node of
             InternalNode curr_node \<Rightarrow> InternalPage_MoveAllTo b a k t
           | LeafNode curr_node \<Rightarrow> do {
               prev_node \<leftarrow> get_leaf a t;
               let (curr_node', prev_node') = LeafPage_MoveAllTo curr_node prev_node;
               Some (put_page a (LeafNode (prev_node'\<lparr>next_page_id := next_page_id curr_node'\<rparr>))
                       (put_page b (LeafNode curr_node') t)) }
           | HeaderNode recs \<Rightarrow> None) }"

lemma Coalesce_merge_pages:
  "0 < index \<Longrightarrow> Coalesce a b p index t =
     do { parent \<leftarrow> get_internal p t;
          k \<leftarrow> InternalPage_KeyAt index parent;
          t1 \<leftarrow> merge_pages a b k t;
          t2 \<leftarrow> update_internal p (InternalPage_Remove index) t1;
          Some (unpin_page b (unpin_page a t2)) }"
  by (simp add: Coalesce_def merge_pages_def bind_assoc)

lemma Coalesce_swap: "Coalesce b a p 0 t = Coalesce a b p 1 t"
  by (simp add: Coalesce_def)

text \<open>What the two kinds of merge do to the store.\<close>

definition page_change :: "('k, 'v) bpt \<Rightarrow> ('k, 'v) bpt \<Rightarrow> int set \<Rightarrow> bool" where
  "page_change t t' qs \<longleftrightarrow> t' = t\<lparr>pages := pages t'\<rparr> \<and> (\<forall>q. q \<notin> qs \<longrightarrow> pages t' q = pages t q)"

lemma page_change_fields:
  assumes "page_change t t' qs"
  shows "root_page_id t' = root_page_id t" "index_name t' = index_name t"
    "leaf_max_size t' = leaf_max_size t" "internal_max_size t' = internal_max_size t"
    "disk_next t' = disk_next t" "pins t' = pins t" "zero_key t' = zero_key t" "comparator t' = comparator t"
    "\<And>q. q \<notin> qs \<Longrightarrow> pages t' q = pages t q"
proof -
  have "t' = t\<lparr>pages := pages t'\<rparr>" using assms by (simp add: page_change_def)
  then show "root_page_id t' = root_page_id t" "index_name t' = index_name t"
    "leaf_max_size t' = leaf_max_size t" "internal_max_size t' = internal_max_size t"
    "disk_next t' = disk_next t" "pins t' = pins t" "zero_key t' = zero_key t" "comparator t' = comparator t"
    by (metis bpt.select_convs bpt.surjective bpt.update_convs(7))+
  show "\<And>q. q \<notin> qs \<Longrightarrow> pages t' q = pages t q" using assms by (simp add: page_change_def)
qed

lemma merge_pages_leaf:
  assumes "rep_st st p (GLeaf a xs)" and "rep_st st p (GLeaf b ys)" and "a \<noteq> b"
  shows "\<exists>t1. merge_pages a b k st = Some t1 \<and> page_change st t1 {a, b} \<and>
     rep_st t1 p (GLeaf a (xs @ ys)) \<and> (\<forall>nx. chain (pages st) [a, b] nx \<longrightarrow> chain (pages t1) [a] nx)"
proof -
  obtain la where la: "pages st a = Some (LeafNode la)" "leaf_array la = xs" "max_size la = leaf_max_size st"
    "parent_page_id la = p" "page_id la = a" using assms(1) by auto
  obtain lb where lb: "pages st b = Some (LeafNode lb)" "leaf_array lb = ys" using assms(2) by auto
  let ?a = "la\<lparr>leaf_array := xs @ ys, next_page_id := next_page_id lb\<rparr>"
  let ?t1 = "put_page a (LeafNode ?a) (put_page b (LeafNode (lb\<lparr>leaf_array := []\<rparr>)) st)"
  have move: "LeafPage_MoveAllTo lb la = (lb\<lparr>leaf_array := []\<rparr>, la\<lparr>leaf_array := xs @ ys\<rparr>)"
    using la(2) lb(2) by (simp add: leaf_page_defs)
  have "merge_pages a b k st = Some ?t1"
    using la(1) lb(1) by (simp add: merge_pages_def get_node_eq get_leaf_eq move)
  moreover have "page_change st ?t1 {a, b}"
    by (auto simp: page_change_def intro!: bpt.equality)
  moreover have "?a = \<lparr>max_size = leaf_max_size st, parent_page_id = p, page_id = a,
      next_page_id = next_page_id lb, leaf_array = xs @ ys\<rparr>"
    using la(3-5) by (intro leaf_page.equality) simp_all
  then have "rep_st ?t1 p (GLeaf a (xs @ ys))" by simp
  moreover have "\<forall>nx. chain (pages st) [a, b] nx \<longrightarrow> chain (pages ?t1) [a] nx"
    using lb(1) by (simp add: next_of_def)
  ultimately show ?thesis by blast
qed

lemma children_merge:
  "\<forall>kt \<in> set xs. P (snd kt) \<Longrightarrow> \<forall>kt \<in> set ys. P (snd kt) \<Longrightarrow> ys \<noteq> [] \<Longrightarrow>
     \<forall>kt \<in> set (xs @ (k, snd (hd ys)) # tl ys). P (snd kt)"
  by (cases ys) (auto simp: ball_Un)

lemma merge_pages_node:
  assumes "rep_st st p (GNode a xs)" and "rep_st st p (GNode b ys)" and "ys \<noteq> []"
    and "distinct (a # pids_of xs @ b # pids_of ys)" and "int (length xs + length ys) \<le> internal_max_size st"
  shows "\<exists>t1. merge_pages a b k st = Some t1 \<and>
     page_change st t1 (set (pids (GNode a xs)) \<union> set (pids (GNode b ys))) \<and>
     rep_st t1 p (GNode a (xs @ (k, snd (hd ys)) # tl ys)) \<and>
     (\<forall>q. q \<noteq> a \<longrightarrow> q \<noteq> b \<longrightarrow> next_of (pages t1) q = next_of (pages st) q)"
proof -
  let ?node = "\<lambda>q kts. \<lparr>max_size = internal_max_size st, parent_page_id = p, page_id = q,
     internal_array = child_slots kts\<rparr>"
  let ?kts = "xs @ (k, snd (hd ys)) # tl ys" and ?Q = "set (map (\<lambda>kt. root_of (snd kt)) ys)"
  obtain ky y ys' where ys: "ys = (ky, y) # ys'" using assms(3) by (cases ys) auto
  have pa: "pages st a = Some (InternalNode (?node a xs))" "\<forall>kt \<in> set xs. rep_st st a (snd kt)"
    and pb: "pages st b = Some (InternalNode (?node b ys))" "\<forall>kt \<in> set ys. rep_st st b (snd kt)"
    using assms(1,2) by auto
  have Q: "?Q \<subseteq> set (pids_of ys)" by (rule roots_subset)
  have d: "distinct (pids_of ys)" "a \<notin> set (pids_of xs)" "b \<notin> set (pids_of xs)" "b \<notin> set (pids_of ys)"
    "a \<notin> set (pids_of ys)" "a \<noteq> b" "set (pids_of xs) \<inter> set (pids_of ys) = {}"
    using assms(4) by auto
  have aQ: "a \<notin> ?Q" "b \<notin> ?Q" "set (pids_of xs) \<inter> ?Q = {}" using Q d by blast+
  let ?t1 = "put_page a (InternalNode (?node a ?kts)) st"
  let ?t2 = "?t1\<lparr>pages := reparent a ?Q (pages ?t1)\<rparr>"
  let ?t3 = "put_page b (InternalNode ((?node b ys)\<lparr>internal_array := []\<rparr>)) ?t2"
  have set_key: "InternalPage_SetKeyAt (InternalPage_GetSize (?node a xs)) k
      ((?node a xs)\<lparr>internal_array := child_slots xs @ child_slots ys\<rparr>) = ?node a ?kts"
    by (simp add: InternalPage_SetKeyAt_def InternalPage_GetSize_def ys list_update_append nth_append)
  have "pages st q \<noteq> None" if "q \<in> ?Q" for q using that pb(2) rep_pages root_in_pids by fastforce
  then have adopt: "adopt_children a (map snd (child_slots ys)) ?t1 = Some ?t2"
    using adopt_children_eq [of "map snd (child_slots ys)" ?t1 a] distinct_roots [OF d(1)]
    by (auto simp: snd_child_slots)
  have "InternalPage_MoveAllTo b a k st = Some ?t3"
    using pa(1) pb(1) assms(5) set_key adopt aQ(2) d(6)
    by (simp add: InternalPage_MoveAllTo_def get_internal_eq update_internal_eq InternalPage_GetSize_def)
  then have "merge_pages a b k st = Some ?t3"
    using pb(1) by (simp add: merge_pages_def get_node_eq)
  moreover have "page_change st ?t3 (set (pids (GNode a xs)) \<union> set (pids (GNode b ys)))"
    using Q by (auto simp: page_change_def reparent_def intro!: bpt.equality)
  moreover have "rep_st ?t3 p (GNode a ?kts)"
  proof -
    have pg: "pages ?t3 = (reparent a ?Q (pages st))(a \<mapsto> InternalNode (?node a ?kts),
        b \<mapsto> InternalNode ((?node b ys)\<lparr>internal_array := []\<rparr>))"
      using aQ(1) by (auto simp: reparent_def fun_eq_iff)
    have "\<forall>kt \<in> set xs. rep_st ?t3 a (snd kt)"
      unfolding pg using pa(2) aQ(3) d(2,3)
      by (simp add: rep_upd_children rep_reparent_children_other del: set_map set_concat)
    moreover have "\<forall>kt \<in> set ys. rep_st ?t3 a (snd kt)"
      unfolding pg using rep_reparent_children [OF pb(2) d(1) _ refl] d(4,5)
      by (simp add: rep_upd_children del: set_map set_concat)
    ultimately have "\<forall>kt \<in> set ?kts. rep_st ?t3 a (snd kt)"
      using assms(3) by (rule children_merge)
    moreover have "pages ?t3 a = Some (InternalNode (?node a ?kts))" using d(6) by (simp only: pg) simp
    ultimately show ?thesis by (simp only: rep.simps) simp
  qed
  moreover have "\<forall>q. q \<noteq> a \<longrightarrow> q \<noteq> b \<longrightarrow> next_of (pages ?t3) q = next_of (pages st) q" by simp
  ultimately show ?thesis by blast
qed

lemma merge_pids:
  assumes "level lm im h l" and "level lm im h r" and "h \<noteq> 0 \<Longrightarrow> 0 < width r" and "distinct (pids l @ pids r)"
  shows "distinct (pids (merge_trees k l r)) \<and> set (pids (merge_trees k l r)) \<subseteq> set (pids l) \<union> set (pids r) \<and>
     hd (leaf_ids (merge_trees k l r)) = hd (leaf_ids l @ leaf_ids r)"
  using assms(1,2)
proof (cases rule: level_cases)
  case (nodes a xs b ys)
  then obtain ky y ys' where "ys = (ky, y) # ys'" using assms(3) by (cases ys) auto
  then show ?thesis using nodes assms(4) by auto
qed (use assms(4) in auto)

lemma merge_pages_ok:
  assumes "stored st c [GNode p (ls @ (k1, l) # (k2, r) # rs)]"
    and "level (leaf_max_size st) (internal_max_size st) h l" "level (leaf_max_size st) (internal_max_size st) h r"
    and "h \<noteq> 0 \<Longrightarrow> 0 < width r" and "int (width l + width r) < capacity (leaf_max_size st) (internal_max_size st) l"
  shows "\<exists>t1. merge_pages (root_of l) (root_of r) k st = Some t1 \<and>
     page_change st t1 (set (pids l) \<union> set (pids r)) \<and> rep_st t1 p (merge_trees k l r) \<and>
     (\<forall>nx. chain (pages st) (leaf_ids l @ leaf_ids r) nx \<longrightarrow> chain (pages t1) (leaf_ids (merge_trees k l r)) nx)"
  using assms(2,3)
proof (cases rule: level_cases)
  case (leaves a xs b ys)
  then show ?thesis
    using merge_pages_leaf [of st p a xs b ys k] stored_node_rep [OF assms(1), of "(k1, l)"]
      stored_node_rep [OF assms(1), of "(k2, r)"] neighbours_roots(3) [OF assms(1)]
    by (simp add: insert_commute)
next
  case (nodes a xs b ys)
  have dist: "distinct (a # pids_of xs @ b # pids_of ys)"
    using neighbours_ids(1) [OF assms(1)] nodes by simp
  have "int (length xs + length ys) \<le> internal_max_size st" "ys \<noteq> []" using assms(4,5) nodes by auto
  then obtain t1 where t1: "merge_pages a b k st = Some t1" "page_change st t1 (set (pids l) \<union> set (pids r))"
    "rep_st t1 p (merge_trees k l r)"
    "\<forall>q. q \<noteq> a \<longrightarrow> q \<noteq> b \<longrightarrow> next_of (pages t1) q = next_of (pages st) q"
    using merge_pages_node [of st p a xs b ys k] dist stored_node_rep [OF assms(1), of "(k1, l)"]
      stored_node_rep [OF assms(1), of "(k2, r)"] nodes by auto
  have eq: "leaf_ids (merge_trees k l r) = leaf_ids l @ leaf_ids r"
    using nodes \<open>ys \<noteq> []\<close> by (cases ys) auto
  have "q \<noteq> a \<and> q \<noteq> b" if "q \<in> set (leaf_ids l @ leaf_ids r)" for q
  proof -
    have "q \<in> set (pids_of xs) \<union> set (pids_of ys)"
      using that nodes leaf_ids_of_subset [of xs] leaf_ids_of_subset [of ys] by auto
    then show ?thesis using dist by auto
  qed
  then have "chain (pages t1) (leaf_ids l @ leaf_ids r) nx = chain (pages st) (leaf_ids l @ leaf_ids r) nx" for nx
    using t1(4) by (intro chain_cong) blast
  then show ?thesis using t1 nodes eq by auto
qed

lemma Coalesce_ok:
  assumes "stored st c [GNode p (ls @ (k1, l) # (k2, r) # rs)]"
    and "level (leaf_max_size st) (internal_max_size st) h l" "level (leaf_max_size st) (internal_max_size st) h r"
    and "h \<noteq> 0 \<Longrightarrow> 0 < width r" "h \<noteq> 0 \<Longrightarrow> 0 < width l"
    and "int (width l + width r) < capacity (leaf_max_size st) (internal_max_size st) l" and "sizes_ok st"
  obtains st' where "Coalesce (root_of l) (root_of r) p (int (length ls) + 1) st = Some st'"
    "stored st' c [GNode p (ls @ (k1, merge_trees k2 l r) # rs)]" "evolves st st'"
    "pins st' = drop_pin (root_of r) (drop_pin (root_of l) (pins st))"
proof -
  let ?kts = "ls @ (k1, l) # (k2, r) # rs" and ?m = "merge_trees k2 l r"
  let ?node = "parent_node st c p ?kts"
  obtain t1 where t1: "merge_pages (root_of l) (root_of r) k2 st = Some t1"
    "page_change st t1 (set (pids l) \<union> set (pids r))" "rep_st t1 p ?m"
    "\<forall>nx. chain (pages st) (leaf_ids l @ leaf_ids r) nx \<longrightarrow> chain (pages t1) (leaf_ids ?m) nx"
    using merge_pages_ok [OF assms(1-4,6)] by blast
  note ch = page_change_fields [OF t1(2)]
  note lvl = level_merge [OF assms(2,3,4), of k2]
  have dist: "distinct (pids l @ pids r)" "p \<notin> set (pids l) \<union> set (pids r)"
    using neighbours_ids(1) [OF assms(1)] by auto
  note mp = merge_pids [OF assms(2,3,4) dist(1), of k2]
  have p1: "pages t1 p = Some (InternalNode ?node)"
    using ch(9) [OF dist(2)] stored_node_page [OF assms(1)] by simp
  let ?node' = "?node\<lparr>internal_array := child_slots (ls @ [(k1, ?m)] @ rs)\<rparr>"
  define st' where "st' = unpin_page (root_of r) (unpin_page (root_of l) (put_page p (InternalNode ?node') t1))"
  have rem: "InternalPage_Remove (int (length ls) + 1) ?node = ?node'"
    using neighbours_Remove [of ?node ls k1 l k2 r rs ?m] lvl(3) by simp
  have "Coalesce (root_of l) (root_of r) p (int (length ls) + 1) st = Some st'"
    using stored_node_page [OF assms(1)] t1(1) p1 neighbours_index(5) [OF assms(1) refl]
    by (simp add: Coalesce_merge_pages get_internal_eq update_internal_eq rem st'_def del: child_slots_simps)
  moreover have "stored st' c [GNode p (ls @ [(k1, ?m)] @ rs)]"
  proof (rule stored_pair [OF assms(1)])
    have im: "2 \<le> internal_max_size st" using assms(7) by (simp add: sizes_ok_def)
    show l: "leaf_ids l \<noteq> []" using leaf_ids_not_Nil [OF assms(2) _ im] assms(5) by auto
    show "leaf_ids_of [(k1, ?m)] \<noteq> []"
      using leaf_ids_not_Nil [OF lvl(1) _ im] assms(5) lvl(2) by auto
    show "hd (leaf_ids_of [(k1, ?m)]) = hd (leaf_ids l)" using mp l by simp
    have pm: "p \<notin> set (pids ?m)" using mp dist(2) by blast
    then show "rep_st st' p (snd kt)" if "kt \<in> set [(k1, ?m)]" for kt
      using that t1(3) by (simp add: st'_def)
    have "p \<notin> set (leaf_ids ?m)" using pm leaf_ids_subset [of ?m] by blast
    then show "chain (pages st') (leaf_ids_of [(k1, ?m)]) nx"
      if "chain (pages st) (leaf_ids l @ leaf_ids r) nx" for nx
      using t1(4) that by (simp add: st'_def)
    show "distinct (pids_of [(k1, ?m)])" "set (pids_of [(k1, ?m)]) \<subseteq> set (pids l) \<union> set (pids r)"
      using mp by simp_all
    show "pages st' q = pages st q" if "q \<notin> insert p (set (pids l) \<union> set (pids r))" for q
      using that ch(9) [of q] by (simp add: st'_def)
  qed (use ch storedD(8) [OF assms(1)] in \<open>auto simp: st'_def alloc_ok_def\<close>)
  moreover have "evolves st st'"
  proof (rule evolves_same_header)
    have "0 \<notin> set (p # pids l @ pids r)" using neighbours_low [OF assms(1), of 0] by blast
    then show "pages st' 0 = pages st 0" using ch(9) [of 0] by (auto simp: st'_def)
  qed (simp_all add: st'_def ch)
  moreover have "pins st' = drop_pin (root_of r) (drop_pin (root_of l) (pins st))"
    by (simp add: st'_def ch drop_pin_def)
  ultimately show thesis using that by simp
qed

section \<open>Redistribute\<close>

text \<open>
  The part of \<^verbatim>\<open>Redistribute\<close> that depends on the kind of page, for a left page \<open>a\<close> and a right page
  \<open>b\<close>; it also returns the new separator.
\<close>

definition shift_left_pages :: "int \<Rightarrow> int \<Rightarrow> 'k \<Rightarrow> ('k, 'v) bpt \<Rightarrow> ('k \<times> ('k, 'v) bpt) option" where
  "shift_left_pages a b k t =
     do { neighbor \<leftarrow> get_node b t;
          (case neighbor of
             LeafNode rn \<Rightarrow> do {
               ln \<leftarrow> get_leaf a t;
               (rn', ln') \<leftarrow> LeafPage_MoveFirstToEndOf rn ln;
               key \<leftarrow> LeafPage_KeyAt 0 rn';
               Some (key, put_page a (LeafNode ln') (put_page b (LeafNode rn') t)) }
           | InternalNode rn \<Rightarrow> do {
               t' \<leftarrow> InternalPage_MoveFirstToEndOf b a k t;
               rn' \<leftarrow> get_internal b t';
               key \<leftarrow> InternalPage_KeyAt 0 rn';
               Some (key, t') }
           | HeaderNode recs \<Rightarrow> None) }"

definition shift_right_pages :: "int \<Rightarrow> int \<Rightarrow> 'k \<Rightarrow> ('k, 'v) bpt \<Rightarrow> ('k \<times> ('k, 'v) bpt) option" where
  "shift_right_pages a b k t =
     do { neighbor \<leftarrow> get_node a t;
          (case neighbor of
             LeafNode ln \<Rightarrow> do {
               rn \<leftarrow> get_leaf b t;
               (ln', rn') \<leftarrow> LeafPage_MoveLastToFrontOf ln rn;
               key \<leftarrow> LeafPage_KeyAt 0 rn';
               Some (key, put_page b (LeafNode rn') (put_page a (LeafNode ln') t)) }
           | InternalNode ln \<Rightarrow> do {
               t' \<leftarrow> InternalPage_MoveLastToFrontOf a b k t;
               rn' \<leftarrow> get_internal b t';
               key \<leftarrow> InternalPage_KeyAt 0 rn';
               Some (key, t') }
           | HeaderNode recs \<Rightarrow> None) }"

lemma Redistribute_left:
  assumes "get_node a st = Some n" "node_parent n = p" and "pages st p = Some (InternalNode parent)"
    and "InternalPage_ValueIndex b parent = i" "InternalPage_KeyAt i parent = Some k"
  shows "Redistribute b a 0 st =
     do { (key, t') \<leftarrow> shift_left_pages a b k (pin p st);
          t2 \<leftarrow> update_internal p (InternalPage_SetKeyAt i key) t';
          Some (unpin_page p (unpin_page b (unpin_page a t2))) }"
  using assms
  by (simp add: Redistribute_def shift_left_pages_def fetch_page_eq get_internal_eq bind_assoc
      split: page.splits option.splits cong: option.case_cong)
    (auto simp: bind_eq_None_conv split: page.splits prod.splits Option.bind_splits)

lemma Redistribute_right:
  assumes "get_node b st = Some n" "node_parent n = p" and "pages st p = Some (InternalNode parent)"
    and "InternalPage_ValueIndex b parent = i" "InternalPage_KeyAt i parent = Some k"
  shows "Redistribute a b 1 st =
     do { (key, t') \<leftarrow> shift_right_pages a b k (pin p st);
          t2 \<leftarrow> update_internal p (InternalPage_SetKeyAt i key) t';
          Some (unpin_page p (unpin_page a (unpin_page b t2))) }"
  using assms
  by (simp add: Redistribute_def shift_right_pages_def fetch_page_eq get_internal_eq bind_assoc
      split: page.splits option.splits cong: option.case_cong)
    (auto simp: bind_eq_None_conv split: page.splits prod.splits Option.bind_splits)

lemma page_change_put2: "page_change st (put_page a m (put_page b n st)) {a, b}"
  by (auto simp: page_change_def intro!: bpt.equality)

lemma shift_leaf_pages:
  assumes "rep_st st p (GLeaf a xs)" and "rep_st st p (GLeaf b ys)" and "a \<noteq> b"
  shows "ys = y1 # y2 # ys' \<Longrightarrow> \<exists>t'. shift_left_pages a b k st = Some (fst y2, t') \<and> page_change st t' {a, b} \<and>
       rep_st t' p (GLeaf a (xs @ [y1])) \<and> rep_st t' p (GLeaf b (y2 # ys')) \<and>
       (\<forall>q. next_of (pages t') q = next_of (pages st) q)"
    and "xs = xs' @ [x] \<Longrightarrow> \<exists>t'. shift_right_pages a b k st = Some (fst x, t') \<and> page_change st t' {a, b} \<and>
       rep_st t' p (GLeaf a xs') \<and> rep_st t' p (GLeaf b (x # ys)) \<and>
       (\<forall>q. next_of (pages t') q = next_of (pages st) q)"
proof -
  let ?leaf = "\<lambda>q n es. \<lparr>max_size = leaf_max_size st, parent_page_id = p, page_id = q,
     next_page_id = n, leaf_array = es\<rparr>"
  obtain na where a: "pages st a = Some (LeafNode (?leaf a na xs))" using assms(1) by auto
  obtain nb where b: "pages st b = Some (LeafNode (?leaf b nb ys))" using assms(2) by auto
  have nx: "next_of (pages st) a = Some na" "next_of (pages st) b = Some nb" using a b by (simp_all add: next_of_def)
  show "\<exists>t'. shift_left_pages a b k st = Some (fst y2, t') \<and> page_change st t' {a, b} \<and>
      rep_st t' p (GLeaf a (xs @ [y1])) \<and> rep_st t' p (GLeaf b (y2 # ys')) \<and>
      (\<forall>q. next_of (pages t') q = next_of (pages st) q)" if "ys = y1 # y2 # ys'"
  proof -
    have "LeafPage_MoveFirstToEndOf (?leaf b nb ys) (?leaf a na xs)
        = Some (?leaf b nb (y2 # ys'), ?leaf a na (xs @ [y1]))"
      using that by (simp add: leaf_page_defs array_simps)
    then have "shift_left_pages a b k st = Some (fst y2,
        put_page a (LeafNode (?leaf a na (xs @ [y1]))) (put_page b (LeafNode (?leaf b nb (y2 # ys'))) st))"
      using a b by (simp add: shift_left_pages_def get_node_eq get_leaf_eq LeafPage_KeyAt_def)
    then show ?thesis using page_change_put2 [of st a _ b] assms(3) nx by auto
  qed
  show "\<exists>t'. shift_right_pages a b k st = Some (fst x, t') \<and> page_change st t' {a, b} \<and>
      rep_st t' p (GLeaf a xs') \<and> rep_st t' p (GLeaf b (x # ys)) \<and>
      (\<forall>q. next_of (pages t') q = next_of (pages st) q)" if "xs = xs' @ [x]"
  proof -
    have "LeafPage_MoveLastToFrontOf (?leaf a na xs) (?leaf b nb ys)
        = Some (?leaf a na xs', ?leaf b nb (x # ys))"
      using that by (simp add: leaf_page_defs array_simps)
    then have "shift_right_pages a b k st = Some (fst x,
        put_page b (LeafNode (?leaf b nb (x # ys))) (put_page a (LeafNode (?leaf a na xs')) st))"
      using a b by (simp add: shift_right_pages_def get_node_eq get_leaf_eq LeafPage_KeyAt_def)
    then show ?thesis using page_change_put2 [of st b _ a] assms(3) nx by (auto simp: insert_commute)
  qed
qed

text \<open>Moving one child between two internal pages.\<close>

lemma move_child:
  assumes "\<forall>kt \<in> set xs. rep_st st a (snd kt)" and "\<forall>kt \<in> set ys. rep_st st b (snd kt)" and "rep_st st src t"
    and "distinct (a # b # pids_of xs @ pids t @ pids_of ys)"
    and "st' = st\<lparr>pages := (reparent dst {root_of t} (pages st))(a \<mapsto> InternalNode na, b \<mapsto> InternalNode nb)\<rparr>"
    and "pages st a = Some (InternalNode ma)" and "pages st b = Some (InternalNode mb)"
  shows "\<forall>kt \<in> set xs. rep_st st' a (snd kt)" "\<forall>kt \<in> set ys. rep_st st' b (snd kt)" "rep_st st' dst t"
    "page_change st st' ({a, b} \<union> set (pids t))" "\<forall>q. next_of (pages st') q = next_of (pages st) q"
proof -
  have d: "a \<notin> set (pids_of xs)" "b \<notin> set (pids_of xs)" "a \<notin> set (pids_of ys)" "b \<notin> set (pids_of ys)"
    "a \<notin> set (pids t)" "b \<notin> set (pids t)" "distinct (pids t)"
    "set (pids_of xs) \<inter> set (pids t) = {}" "set (pids_of ys) \<inter> set (pids t) = {}" "a \<noteq> b"
    using assms(4) by auto
  have r: "set (pids_of xs) \<inter> {root_of t} = {}" "set (pids_of ys) \<inter> {root_of t} = {}"
    using d(8,9) root_in_pids [of t] by blast+
  have st': "pages st' = (reparent dst {root_of t} (pages st))(a \<mapsto> InternalNode na, b \<mapsto> InternalNode nb)"
    "leaf_max_size st' = leaf_max_size st" "internal_max_size st' = internal_max_size st"
    by (simp_all add: assms(5))
  show "\<forall>kt \<in> set xs. rep_st st' a (snd kt)"
    unfolding st' rep_upd_children [OF d(1)] rep_upd_children [OF d(2)] rep_reparent_children_other [OF r(1)]
    by (rule assms(1))
  show "\<forall>kt \<in> set ys. rep_st st' b (snd kt)"
    unfolding st' rep_upd_children [OF d(3)] rep_upd_children [OF d(4)] rep_reparent_children_other [OF r(2)]
    by (rule assms(2))
  show "rep_st st' dst t"
    unfolding st' using rep_reparent [OF assms(3) d(7), of "{root_of t}"] d(5,6) by simp
  show "page_change st st' ({a, b} \<union> set (pids t))"
    using root_in_pids [of t] by (auto simp: page_change_def assms(5) reparent_def intro!: bpt.equality)
  show "\<forall>q. next_of (pages st') q = next_of (pages st) q"
    using assms(6,7) by (simp add: st') (simp add: next_of_def)
qed

lemma shift_left_node_pages:
  assumes "rep_st st p (GNode a xs)" and "rep_st st p (GNode b ys)"
    and "distinct (a # pids_of xs @ b # pids_of ys)" and ys: "ys = y1 # y2 # ys'"
  shows "\<exists>t'. shift_left_pages a b k st = Some (fst y2, t') \<and>
     page_change st t' ({a, b} \<union> set (pids (snd y1))) \<and>
     rep_st t' p (GNode a (xs @ [(k, snd y1)])) \<and> rep_st t' p (GNode b (y2 # ys')) \<and>
     (\<forall>q. next_of (pages t') q = next_of (pages st) q)"
proof -
  let ?node = "\<lambda>q es. \<lparr>max_size = internal_max_size st, parent_page_id = p, page_id = q, internal_array = es\<rparr>"
  have a: "pages st a = Some (InternalNode (?node a (child_slots xs)))" "\<forall>kt \<in> set xs. rep_st st a (snd kt)"
    and b: "pages st b = Some (InternalNode (?node b (child_slots ys)))" "\<forall>kt \<in> set ys. rep_st st b (snd kt)"
    using assms(1,2) by auto
  have ab: "a \<noteq> b" using assms(3) by auto
  let ?c = "root_of (snd y1)"
  let ?na = "?node a (child_slots (xs @ [(k, snd y1)]))" and ?nb = "?node b (child_slots (y2 # ys'))"
  define t' where "t' = st\<lparr>pages := (reparent a {?c} (pages st))(a \<mapsto> InternalNode ?na, b \<mapsto> InternalNode ?nb)\<rparr>"
  have ry: "rep_st st b (snd y1)" using b(2) ys by simp
  obtain n where n: "pages st ?c = Some n" using rep_root_page [OF ry] by blast
  have c: "?c \<noteq> a" "?c \<noteq> b" using assms(3) ys root_in_pids [of "snd y1"] by (auto simp del: root_in_pids)
  have copy: "InternalPage_CopyLastFrom a (k, ?c) st
      = Some (st\<lparr>pages := reparent a {?c} ((pages st)(a \<mapsto> InternalNode ?na))\<rparr>)"
    using a(1) n c by (simp add: InternalPage_CopyLastFrom_def update_internal_eq adopt_child_reparent put_page_def)
  moreover have "reparent a {?c} ((pages st)(a \<mapsto> InternalNode ?na)) b = Some (InternalNode (?node b (child_slots ys)))"
    using b(1) c ab by (simp add: reparent_def)
  moreover have "InternalPage_Remove 0 (?node b (child_slots ys)) = ?nb"
    by (simp add: InternalPage_Remove_def array_simps ys)
  ultimately have "InternalPage_MoveFirstToEndOf b a k st
      = Some (st\<lparr>pages := (reparent a {?c} ((pages st)(a \<mapsto> InternalNode ?na)))(b \<mapsto> InternalNode ?nb)\<rparr>)"
    using b(1) by (simp add: InternalPage_MoveFirstToEndOf_def get_internal_eq InternalPage_ValueAt_def ys
        update_internal_eq put_page_def)
  moreover have "(reparent a {?c} ((pages st)(a \<mapsto> InternalNode ?na)))(b \<mapsto> InternalNode ?nb) = pages t'"
    using c by (auto simp: t'_def reparent_def fun_eq_iff)
  ultimately have "InternalPage_MoveFirstToEndOf b a k st = Some t'" by (simp add: t'_def)
  moreover have "pages t' b = Some (InternalNode ?nb)" "pages t' a = Some (InternalNode ?na)"
    using ab by (simp_all add: t'_def)
  ultimately have "shift_left_pages a b k st = Some (fst y2, t')"
    using b(1) by (simp add: shift_left_pages_def get_node_eq get_internal_eq InternalPage_KeyAt_def)
  moreover have "distinct (a # b # pids_of xs @ pids (snd y1) @ pids_of (y2 # ys'))" using assms(3) ys by auto
  note mv = move_child [OF a(2) _ _ this t'_def a(1) b(1), of b]
  ultimately show ?thesis
    using mv b(2) \<open>pages t' b = _\<close> \<open>pages t' a = _\<close> ys by (auto simp: t'_def)
qed

lemma shift_right_node_pages:
  assumes "rep_st st p (GNode a xs)" and "rep_st st p (GNode b ys)"
    and "distinct (a # pids_of xs @ b # pids_of ys)" and xs: "xs = xs' @ [x]" and "ys \<noteq> []"
  shows "\<exists>t'. shift_right_pages a b k st = Some (fst x, t') \<and>
     page_change st t' ({a, b} \<union> set (pids (snd x))) \<and>
     rep_st t' p (GNode a xs') \<and> rep_st t' p (GNode b (x # (k, snd (hd ys)) # tl ys)) \<and>
     (\<forall>q. next_of (pages t') q = next_of (pages st) q)"
proof -
  let ?node = "\<lambda>q es. \<lparr>max_size = internal_max_size st, parent_page_id = p, page_id = q, internal_array = es\<rparr>"
  have a: "pages st a = Some (InternalNode (?node a (child_slots xs)))" "\<forall>kt \<in> set xs. rep_st st a (snd kt)"
    and b: "pages st b = Some (InternalNode (?node b (child_slots ys)))" "\<forall>kt \<in> set ys. rep_st st b (snd kt)"
    using assms(1,2) by auto
  have ab: "a \<noteq> b" using assms(3) by auto
  obtain ky y ys' where ys: "ys = (ky, y) # ys'" using assms(5) by (cases ys) auto
  let ?c = "root_of (snd x)"
  let ?na = "?node a (child_slots xs')" and ?nb = "?node b (child_slots (x # (k, y) # ys'))"
  let ?nk = "?node b ((k, root_of y) # child_slots ys')"
  define t' where "t' = st\<lparr>pages := (reparent b {?c} (pages st))(a \<mapsto> InternalNode ?na, b \<mapsto> InternalNode ?nb)\<rparr>"
  have rx: "rep_st st a (snd x)" using a(2) xs by simp
  obtain n where n: "pages st ?c = Some n" using rep_root_page [OF rx] by blast
  have c: "?c \<noteq> a" "?c \<noteq> b" using assms(3) xs root_in_pids [of "snd x"] by (auto simp del: root_in_pids)
  let ?t1 = "put_page b (InternalNode ?nk) st"
  have "InternalPage_SetKeyAt 0 k (?node b (child_slots ys)) = ?nk"
    by (simp add: InternalPage_SetKeyAt_def ys)
  then have t1: "update_internal b (InternalPage_SetKeyAt 0 k) st = Some ?t1"
    using b(1) by (simp add: update_internal_eq)
  define t2 where "t2 = st\<lparr>pages := reparent b {?c} ((pages st)(b \<mapsto> InternalNode ?nb))\<rparr>"
  have copy: "InternalPage_CopyFirstFrom b (fst x, ?c) ?t1 = Some t2"
    using n c by (simp add: InternalPage_CopyFirstFrom_def update_internal_eq adopt_child_reparent put_page_def
        array_simps t2_def)
  have slot: "slot (child_slots xs) (int (length xs) - 1) = Some (fst x, ?c)"
    using slot_append_mid [of "int (length xs')" "child_slots xs'" "(fst x, ?c)" "[]"] by (simp add: xs)
  have a1: "get_internal a ?t1 = Some (?node a (child_slots xs))" using a(1) ab by (simp add: get_internal_eq)
  have "pages t2 a = Some (InternalNode (?node a (child_slots xs)))"
    using a(1) c ab by (simp add: reparent_def t2_def)
  then have a2: "update_internal a (\<lambda>p. p\<lparr>internal_array := butlast (internal_array p)\<rparr>) t2
      = Some (put_page a (InternalNode ?na) t2)"
    by (simp add: update_internal_eq xs butlast_append)
  have "InternalPage_MoveLastToFrontOf a b k st = Some (put_page a (InternalNode ?na) t2)"
    by (simp add: InternalPage_MoveLastToFrontOf_def t1 a1 slot copy a2 InternalPage_GetSize_def
        del: slot_nat)
  moreover have "(reparent b {?c} ((pages st)(b \<mapsto> InternalNode ?nb)))(a \<mapsto> InternalNode ?na) = pages t'"
    using c ab by (auto simp: t'_def reparent_def fun_eq_iff)
  ultimately have "InternalPage_MoveLastToFrontOf a b k st = Some t'"
    by (simp add: t'_def t2_def put_page_def)
  moreover have "pages t' b = Some (InternalNode ?nb)" "pages t' a = Some (InternalNode ?na)"
    using ab by (simp_all add: t'_def)
  ultimately have "shift_right_pages a b k st = Some (fst x, t')"
    using a(1) by (simp add: shift_right_pages_def get_node_eq get_internal_eq InternalPage_KeyAt_def)
  moreover have "distinct (a # b # pids_of xs' @ pids (snd x) @ pids_of ys)" using assms(3) xs by auto
  note mv = move_child [OF _ b(2) _ this t'_def a(1) b(1), of a]
  ultimately show ?thesis
    using mv a(2) \<open>pages t' b = _\<close> \<open>pages t' a = _\<close> xs ys by (auto simp: t'_def)
qed

lemma page_change_mono: "page_change t t' qs \<Longrightarrow> qs \<subseteq> rs \<Longrightarrow> page_change t t' rs"
  by (auto simp: page_change_def)

definition shifted :: "('k, 'v) bpt \<Rightarrow> ('k, 'v) bpt \<Rightarrow> int \<Rightarrow> ('k, 'v) gtree \<Rightarrow> ('k, 'v) gtree \<Rightarrow>
    ('k, 'v) gtree \<Rightarrow> ('k, 'v) gtree \<Rightarrow> bool" where
  "shifted st t' p l r l' r' \<longleftrightarrow>
     page_change st t' (set (pids l) \<union> set (pids r)) \<and> rep_st t' p l' \<and> rep_st t' p r' \<and>
     (\<forall>q. next_of (pages t') q = next_of (pages st) q) \<and>
     mset (pids l' @ pids r') = mset (pids l @ pids r) \<and>
     leaf_ids l' @ leaf_ids r' = leaf_ids l @ leaf_ids r \<and> root_of l' = root_of l \<and> root_of r' = root_of r"

lemma shift_left_pages_ok:
  assumes "rep_st st p l" "rep_st st p r" and "distinct (pids l @ pids r)"
    and "level lm im h l" "level lm im h r" and "2 \<le> width r" and "shift_left k l r = (l', k', r')"
  shows "\<exists>t'. shift_left_pages (root_of l) (root_of r) k st = Some (k', t') \<and> shifted st t' p l r l' r'"
  using assms(4,5)
proof (cases rule: level_cases)
  case (leaves a xs b ys)
  obtain y1 y2 ys' where ys: "ys = y1 # y2 # ys'" using assms(6) leaves by (cases ys; cases "tl ys") auto
  have sh: "l' = GLeaf a (xs @ [y1])" "k' = fst y2" "r' = GLeaf b (y2 # ys')"
    using assms(7) by (simp_all add: leaves(1,2) ys)
  show ?thesis
    using shift_leaf_pages(1) [OF assms(1,2) [unfolded leaves] _ ys, of k] assms(3)
    unfolding shifted_def sh leaves(1,2) by (auto simp: insert_commute)
next
  case (nodes a xs b ys)
  obtain y1 y2 ys' where ys: "ys = y1 # y2 # ys'" using assms(6) nodes by (cases ys; cases "tl ys") auto
  have sh: "l' = GNode a (xs @ [(k, snd y1)])" "k' = fst y2" "r' = GNode b (y2 # ys')"
    using assms(7) by (auto simp: nodes(1,2) ys)
  have dist: "distinct (a # pids_of xs @ b # pids_of ys)" using assms(3) nodes by simp
  have sub: "{a, b} \<union> set (pids (snd y1)) \<subseteq> set (pids l) \<union> set (pids r)" by (auto simp: nodes(1,2) ys)
  show ?thesis
    using shift_left_node_pages [OF assms(1,2) [unfolded nodes] dist ys, of k] page_change_mono [OF _ sub]
    unfolding shifted_def sh nodes(1,2) ys by (simp del: rep.simps) blast
qed

lemma shift_right_pages_ok:
  assumes "rep_st st p l" "rep_st st p r" and "distinct (pids l @ pids r)"
    and "level lm im h l" "level lm im h r" and "2 \<le> width l" and "h \<noteq> 0 \<Longrightarrow> 0 < width r"
    and "shift_right k l r = (l', k', r')"
  shows "\<exists>t'. shift_right_pages (root_of l) (root_of r) k st = Some (k', t') \<and> shifted st t' p l r l' r'"
  using assms(4,5)
proof (cases rule: level_cases)
  case (leaves a xs b ys)
  obtain xs' x where xs: "xs = xs' @ [x]" using assms(6) leaves by (cases xs rule: rev_cases) auto
  have sh: "l' = GLeaf a xs'" "k' = fst x" "r' = GLeaf b (x # ys)"
    using assms(8) by (simp_all add: leaves(1,2) xs)
  show ?thesis
    using shift_leaf_pages(2) [OF assms(1,2) [unfolded leaves] _ xs, of k] assms(3)
    unfolding shifted_def sh leaves(1,2) by (auto simp: insert_commute)
next
  case (nodes a xs b ys)
  obtain xs' x where xs: "xs = xs' @ [x]" using assms(6) nodes by (cases xs rule: rev_cases) auto
  have ne: "ys \<noteq> []" using assms(7) nodes by auto
  then obtain ky y ys' where ys: "ys = (ky, y) # ys'" by (cases ys) auto
  have sh: "l' = GNode a xs'" "k' = fst x" "r' = GNode b (x # (k, snd (hd ys)) # tl ys)"
    using assms(8) by (auto simp: nodes(1,2) xs)
  have dist: "distinct (a # pids_of xs @ b # pids_of ys)" using assms(3) nodes by simp
  have sub: "{a, b} \<union> set (pids (snd x)) \<subseteq> set (pids l) \<union> set (pids r)" by (auto simp: nodes(1,2) xs)
  show ?thesis
    using shift_right_node_pages [OF assms(1,2) [unfolded nodes] dist xs ne, of k] page_change_mono [OF _ sub]
    unfolding shifted_def sh nodes(1,2) xs ys by (simp del: rep.simps) blast
qed

lemma stored_shift:
  assumes "stored st c [GNode p (ls @ (k1, l) # (k2, r) # rs)]" and "shifted st t' p l r l' r'"
    and "leaf_ids l \<noteq> []"
    and "st' = put_page p (InternalNode (parent_node st c p (ls @ [(k1, l'), (k, r')] @ rs))) t'"
  shows "stored st' c [GNode p (ls @ [(k1, l'), (k, r')] @ rs)]" "evolves st st'"
proof -
  let ?ms = "[(k1, l'), (k, r')]"
  have sh: "page_change st t' (set (pids l) \<union> set (pids r))" "rep_st t' p l'" "rep_st t' p r'"
    "\<forall>q. next_of (pages t') q = next_of (pages st) q"
    "mset (pids l' @ pids r') = mset (pids l @ pids r)" "leaf_ids l' @ leaf_ids r' = leaf_ids l @ leaf_ids r"
    using assms(2) by (simp_all add: shifted_def)
  note ch = page_change_fields [OF sh(1)]
  have dist: "distinct (pids l @ pids r)" "p \<notin> set (pids l) \<union> set (pids r)"
    using neighbours_ids(1) [OF assms(1)] by auto
  have ids: "distinct (pids l' @ pids r')" "set (pids l' @ pids r') = set (pids l @ pids r)"
    using dist(1) mset_eq_imp_distinct_iff [OF sh(5)] mset_eq_setD [OF sh(5)] by auto
  then have notin: "p \<notin> set (pids l')" "p \<notin> set (pids r')" using dist(2) by auto
  have sub: "set (leaf_ids l @ leaf_ids r) \<subseteq> set (pids l) \<union> set (pids r)"
    using leaf_ids_subset [of l] leaf_ids_subset [of r] by auto
  show "stored st' c [GNode p (ls @ ?ms @ rs)]"
  proof (rule stored_pair [OF assms(1)])
    show "pages st' p = Some (InternalNode (parent_node st c p (ls @ ?ms @ rs)))" by (simp add: assms(4))
    show "rep_st st' p (snd kt)" if "kt \<in> set ?ms" for kt
      using that sh(2,3) notin by (auto simp: assms(4))
    show "pages st' q = pages st q" if "q \<notin> insert p (set (pids l) \<union> set (pids r))" for q
      using that ch(9) [of q] by (simp add: assms(4))
    show "distinct (pids_of ?ms)" "set (pids_of ?ms) \<subseteq> set (pids l) \<union> set (pids r)" using ids by auto
    have "chain (pages st') (leaf_ids l @ leaf_ids r) nx = chain (pages st) (leaf_ids l @ leaf_ids r) nx" for nx
    proof (rule chain_cong, rule ballI)
      fix q assume "q \<in> set (leaf_ids l @ leaf_ids r)"
      then have "q \<noteq> p" using sub dist(2) by blast
      then show "next_of (pages st') q = next_of (pages st) q" using sh(4) by (simp add: assms(4))
    qed
    then show "chain (pages st') (leaf_ids_of ?ms) nx" if "chain (pages st) (leaf_ids l @ leaf_ids r) nx" for nx
      using that sh(6) by simp
    show "leaf_ids_of ?ms \<noteq> []" "hd (leaf_ids_of ?ms) = hd (leaf_ids l)"
      using sh(6) assms(3) hd_append2 [OF assms(3), of "leaf_ids r"] by auto
  qed (use assms(3) ch storedD(8) [OF assms(1)] in \<open>auto simp: assms(4) alloc_ok_def\<close>)
  show "evolves st st'"
  proof (rule evolves_same_header)
    have "0 \<notin> set (p # pids l @ pids r)" using neighbours_low [OF assms(1), of 0] by blast
    then show "pages st' 0 = pages st 0" using ch(9) [of 0] by (auto simp: assms(4))
  qed (simp_all add: assms(4) ch)
qed

end
