(* ===== verification/TreeDelete.thy ===== *)
theory TreeDelete
  imports TreeRemove
begin

text \<open>
  The climb of \<^verbatim>\<open>CoalesceOrRedistribute\<close> and the correctness of \<^verbatim>\<open>Remove\<close>: the entry of the key
  is gone, every other entry is kept, the invariant holds and every page is unpinned.
\<close>

section \<open>Redistribute on neighbours\<close>

lemma Redistribute_left_ok:
  assumes "stored st c [GNode p (ls @ (k1, l) # (k2, r) # rs)]"
    and "level (leaf_max_size st) (internal_max_size st) h l" "level (leaf_max_size st) (internal_max_size st) h r"
    and "2 \<le> width r" and "h \<noteq> 0 \<Longrightarrow> 0 < width l" and "sizes_ok st" and "shift_left k2 l r = (l', k', r')"
  obtains st' where "Redistribute (root_of r) (root_of l) 0 st = Some st'"
    "stored st' c [GNode p (ls @ (k1, l') # (k', r') # rs)]" "evolves st st'"
    "pins st' = drop_pin (root_of r) (drop_pin (root_of l) (pins st))"
proof -
  let ?kts = "ls @ (k1, l) # (k2, r) # rs" and ?kts' = "ls @ [(k1, l'), (k', r')] @ rs"
  let ?node = "parent_node st c p ?kts" and ?st1 = "pin p st"
  note ids = neighbours_roots [OF assms(1)]
  have st1: "stored ?st1 c [GNode p ?kts]" using stored_pin [OF assms(1)] ids by blast
  have rep: "rep_st ?st1 p l" "rep_st ?st1 p r" "distinct (pids l @ pids r)"
    using stored_node_rep [OF st1, of "(k1, l)"] stored_node_rep [OF st1, of "(k2, r)"]
      neighbours_ids(1) [OF assms(1)] by auto
  obtain t' where t': "shift_left_pages (root_of l) (root_of r) k2 ?st1 = Some (k', t')" "shifted ?st1 t' p l r l' r'"
    using shift_left_pages_ok [OF rep assms(2,3,4,7)] by blast
  have "leaf_ids l \<noteq> []" using leaf_ids_not_Nil [OF assms(2)] assms(5,6) by (auto simp: sizes_ok_def)
  note sh = stored_shift [OF st1 t'(2) this refl, of k']
  have roots: "root_of l' = root_of l" "root_of r' = root_of r" using t'(2) by (simp_all add: shifted_def)
  note ch = page_change_fields [of ?st1 t' "set (pids l) \<union> set (pids r)"]
  have pc: "page_change ?st1 t' (set (pids l) \<union> set (pids r))" using t'(2) by (simp add: shifted_def)
  have "p \<notin> set (pids l) \<union> set (pids r)" using neighbours_ids(1) [OF assms(1)] by auto
  then have p': "pages t' p = Some (InternalNode ?node)" using ch(9) [OF pc] stored_node_page [OF assms(1)] by simp
  obtain n where n: "pages st (root_of l) = Some n" "node_parent n = p" "\<forall>recs. n \<noteq> HeaderNode recs"
    using rep_root_page [OF rep(1)] by auto
  let ?st3 = "put_page p (InternalNode (parent_node ?st1 c p ?kts')) t'"
  have "InternalPage_SetKeyAt (int (length ls) + 1) k' ?node = parent_node ?st1 c p ?kts'"
    using neighbours_SetKeyAt [of ?node ls k1 l k2 r rs l' r' k'] roots by simp
  then have upd: "update_internal p (InternalPage_SetKeyAt (int (length ls) + 1) k') t' = Some ?st3"
    using p' by (simp add: update_internal_eq del: child_slots_simps)
  define st' where "st' = unpin_page p (unpin_page (root_of r) (unpin_page (root_of l) ?st3))"
  have "Redistribute (root_of r) (root_of l) 0 st = Some st'"
    using Redistribute_left [OF get_node_eq [OF n(1,3)] n(2) stored_node_page [OF assms(1)]
        neighbours_index(2) [OF assms(1) refl] neighbours_index(5) [OF assms(1) refl]] t'(1) upd
    by (simp add: st'_def)
  moreover have "stored st' c [GNode p (ls @ (k1, l') # (k', r') # rs)]"
    using sh(1) unfolding st'_def by (intro stored_unpin) simp
  moreover have "evolves st st'"
    unfolding st'_def by (meson evolves_trans evolves_unpin evolves_pin sh(2))
  moreover have "pins st' = drop_pin (root_of r) (drop_pin (root_of l) (pins st))"
    using ids(1-3) ch(6) [OF pc] by (auto simp: st'_def drop_pin_def fun_eq_iff)
  ultimately show thesis using that by blast
qed

lemma Redistribute_right_ok:
  assumes "stored st c [GNode p (ls @ (k1, l) # (k2, r) # rs)]"
    and "level (leaf_max_size st) (internal_max_size st) h l" "level (leaf_max_size st) (internal_max_size st) h r"
    and "2 \<le> width l" and "h \<noteq> 0 \<Longrightarrow> 0 < width r" and "sizes_ok st" and "shift_right k2 l r = (l', k', r')"
  obtains st' where "Redistribute (root_of l) (root_of r) 1 st = Some st'"
    "stored st' c [GNode p (ls @ (k1, l') # (k', r') # rs)]" "evolves st st'"
    "pins st' = drop_pin (root_of r) (drop_pin (root_of l) (pins st))"
proof -
  let ?kts = "ls @ (k1, l) # (k2, r) # rs" and ?kts' = "ls @ [(k1, l'), (k', r')] @ rs"
  let ?node = "parent_node st c p ?kts" and ?st1 = "pin p st"
  note ids = neighbours_roots [OF assms(1)]
  have st1: "stored ?st1 c [GNode p ?kts]" using stored_pin [OF assms(1)] ids by blast
  have rep: "rep_st ?st1 p l" "rep_st ?st1 p r" "distinct (pids l @ pids r)"
    using stored_node_rep [OF st1, of "(k1, l)"] stored_node_rep [OF st1, of "(k2, r)"]
      neighbours_ids(1) [OF assms(1)] by auto
  obtain t' where t': "shift_right_pages (root_of l) (root_of r) k2 ?st1 = Some (k', t')" "shifted ?st1 t' p l r l' r'"
    using shift_right_pages_ok [OF rep assms(2,3,4,5,7)] by blast
  have "leaf_ids l \<noteq> []" using leaf_ids_not_Nil [OF assms(2)] assms(4,6) by (auto simp: sizes_ok_def)
  note sh = stored_shift [OF st1 t'(2) this refl, of k']
  have roots: "root_of l' = root_of l" "root_of r' = root_of r" using t'(2) by (simp_all add: shifted_def)
  note ch = page_change_fields [of ?st1 t' "set (pids l) \<union> set (pids r)"]
  have pc: "page_change ?st1 t' (set (pids l) \<union> set (pids r))" using t'(2) by (simp add: shifted_def)
  have "p \<notin> set (pids l) \<union> set (pids r)" using neighbours_ids(1) [OF assms(1)] by auto
  then have p': "pages t' p = Some (InternalNode ?node)" using ch(9) [OF pc] stored_node_page [OF assms(1)] by simp
  obtain n where n: "pages st (root_of r) = Some n" "node_parent n = p" "\<forall>recs. n \<noteq> HeaderNode recs"
    using rep_root_page [OF rep(2)] by auto
  let ?st3 = "put_page p (InternalNode (parent_node ?st1 c p ?kts')) t'"
  have "InternalPage_SetKeyAt (int (length ls) + 1) k' ?node = parent_node ?st1 c p ?kts'"
    using neighbours_SetKeyAt [of ?node ls k1 l k2 r rs l' r' k'] roots by simp
  then have upd: "update_internal p (InternalPage_SetKeyAt (int (length ls) + 1) k') t' = Some ?st3"
    using p' by (simp add: update_internal_eq del: child_slots_simps)
  define st' where "st' = unpin_page p (unpin_page (root_of l) (unpin_page (root_of r) ?st3))"
  have "Redistribute (root_of l) (root_of r) 1 st = Some st'"
    using Redistribute_right [OF get_node_eq [OF n(1,3)] n(2) stored_node_page [OF assms(1)]
        neighbours_index(2) [OF assms(1) refl] neighbours_index(5) [OF assms(1) refl]] t'(1) upd
    by (simp add: st'_def)
  moreover have "stored st' c [GNode p (ls @ (k1, l') # (k', r') # rs)]"
    using sh(1) unfolding st'_def by (intro stored_unpin) simp
  moreover have "evolves st st'"
    unfolding st'_def by (meson evolves_trans evolves_unpin evolves_pin sh(2))
  moreover have "pins st' = drop_pin (root_of r) (drop_pin (root_of l) (pins st))"
    using ids(1-3) ch(6) [OF pc] by (auto simp: st'_def drop_pin_def fun_eq_iff)
  ultimately show thesis using that by blast
qed

section \<open>Shape of a page that has lost a pair\<close>

definition nearly :: "int \<Rightarrow> int \<Rightarrow> bool \<Rightarrow> nat \<Rightarrow> ('k, 'v) gtree \<Rightarrow> bool" where
  "nearly lm im at_root h t \<longleftrightarrow> level lm im h t \<and> int (width t) < capacity lm im t \<and>
     (if at_root then is_leaf t \<or> 1 \<le> width t else capacity lm im t div 2 - 1 \<le> int (width t))"

lemma rep_sizes:
  assumes "rep_st st par t"
  obtains n where "pages st (root_of t) = Some n" "\<forall>recs. n \<noteq> HeaderNode recs" "node_parent n = par"
    "node_size n = int (width t)" "node_max_size n = capacity (leaf_max_size st) (internal_max_size st) t"
    "node_min_size n = capacity (leaf_max_size st) (internal_max_size st) t div 2"
  using assms by (cases t) (auto simp: LeafPage_GetSize_def InternalPage_GetSize_def GetMinSize_def)

lemma capacity_bounds:
  assumes "sizes_ok st"
  shows "2 \<le> capacity (leaf_max_size st) (internal_max_size st) t"
    "\<not> is_leaf t \<Longrightarrow> 4 \<le> capacity (leaf_max_size st) (internal_max_size st) t"
  using assms by (cases t; simp add: sizes_ok_def)+

lemma level_leaf: "level lm im h t \<Longrightarrow> is_leaf t \<longleftrightarrow> h = 0"
  by (cases t) auto

lemma width_pos:
  assumes "sizes_ok st" and "h \<noteq> 0" and "level (leaf_max_size st) (internal_max_size st) h t"
    and "capacity (leaf_max_size st) (internal_max_size st) t div 2 - 1 \<le> int (width t)"
  shows "0 < width t"
  using capacity_bounds(2) [OF assms(1), of t] level_leaf [OF assms(3)] assms(2,4) by linarith

lemma root_shape_shape:
  assumes "shape (leaf_max_size st) (internal_max_size st) h t" and "sizes_ok st"
  shows "root_shape (leaf_max_size st) (internal_max_size st) t"
  using assms by (cases t) (auto simp: sizes_ok_def)

context key_comparator
begin

lemma tree_inv_plug:
  assumes "stored st c [t]" and "comparator st = cmp" and "sizes_ok st"
    and "ordered cmp (ctx_lo c) (ctx_hi c) t" and "ordered_ctx cmp c"
    and "shape (leaf_max_size st) (internal_max_size st) h t"
    and "shape_ctx (leaf_max_size st) (internal_max_size st) h c"
  shows "tree_inv st (plug c t)"
proof -
  have "root_shape (leaf_max_size st) (internal_max_size st) (plug c t)"
    using assms(3,6,7) root_shape_shape shape_plug [of c] by (cases "c = []") auto
  then show ?thesis
    using assms(1,2,4,5) stored_plug [of st c t] ordered_plug [of cmp c t] by (simp add: tree_inv_def)
qed

section \<open>AdjustRoot\<close>

lemma AdjustRoot_leaf:
  assumes "stored st [] [GLeaf q []]" and "sizes_ok st"
  shows "\<exists>st'. AdjustRoot q st = Some (True, st') \<and> holds st' [] \<and> evolves st st' \<and>
     pins st' = drop_pin q (pins st)"
proof -
  note st = storedD [OF assms(1)]
  have q: "0 < q" using st(4) [of q] by simp
  obtain n where n: "pages st q = Some (LeafNode n)" "leaf_array n = []" using st(1) [of "GLeaf q []"] by auto
  define st1 where "st1 = (delete_page q (unpin_page q st))\<lparr>root_page_id := INVALID_PAGE_ID\<rparr>"
  have st1: "pages st1 0 = pages st 0" "index_name st1 = index_name st" "comparator st1 = comparator st"
    "leaf_max_size st1 = leaf_max_size st" "internal_max_size st1 = internal_max_size st"
    "zero_key st1 = zero_key st" "disk_next st1 = disk_next st" "pins st1 = drop_pin q (pins st)"
    "root_page_id st1 = INVALID_PAGE_ID"
    using q by (simp_all add: st1_def delete_page_def drop_pin_def)
  have ev: "evolves st st1" using st1 by (intro evolves_same_header) simp_all
  obtain recs where recs: "pages st 0 = Some (HeaderNode recs)" "map_of recs (index_name st) \<noteq> None"
    "length (index_name st) < 32" using st(7) by (auto simp: header_ok_def)
  obtain recs' where u: "UpdateRootPageId st1 = Some (put_page 0 (HeaderNode recs') st1)"
    "header_ok (put_page 0 (HeaderNode recs') st1)" "evolves st1 (put_page 0 (HeaderNode recs') st1)"
    using set_root_header [of st1 recs] recs st1 by auto
  let ?st' = "put_page 0 (HeaderNode recs') st1"
  have "AdjustRoot q st = Some (True, ?st')"
    using n u(1) by (simp add: AdjustRoot_def get_node_eq LeafPage_GetSize_def st1_def)
  moreover have "holds ?st' []"
    using u(2) st(8) st1 assms(2) by (auto simp: holds_def sizes_ok_def alloc_ok_def drop_pin_def)
  moreover have "evolves st ?st'" using ev u(3) by (rule evolves_trans)
  ultimately show ?thesis using st1(8) by auto
qed

lemma AdjustRoot_node:
  assumes "stored st [] [GNode q [(k, t)]]" and "sizes_ok st" and "comparator st = cmp"
    and "ordered cmp None None (GNode q [(k, t)])" and "shape (leaf_max_size st) (internal_max_size st) h t"
  shows "\<exists>st'. AdjustRoot q st = Some (True, st') \<and> holds st' (entries t) \<and> evolves st st' \<and>
     pins st' = drop_pin q (pins st)"
proof -
  note st = storedD [OF assms(1)]
  let ?c = "root_of t"
  have dist: "q \<notin> set (pids t)" "distinct (pids t)" and q: "0 < q" using st(3) st(4) [of q] by auto
  have low: "0 < x \<and> x < disk_next st" if "x \<in> set (pids t)" for x using st(4) [of x] that by simp
  have c: "?c \<noteq> q" "?c \<noteq> 0" "0 \<notin> set (pids t)" using dist(1) root_in_pids [of t] low [of ?c] low [of 0] by auto
  let ?node = "\<lparr>max_size = internal_max_size st, parent_page_id = INVALID_PAGE_ID, page_id = q,
     internal_array = [(k, ?c)]\<rparr>"
  have page: "pages st q = Some (InternalNode ?node)" and rept: "rep_st st q t"
    using st(1) [of "GNode q [(k, t)]"] by simp_all
  obtain n where n: "pages st ?c = Some n" using rep_root_page [OF rept] by blast
  define st2 where "st2 = delete_page q (unpin_page q (put_page q (InternalNode \<lparr>max_size = internal_max_size st,
     parent_page_id = INVALID_PAGE_ID, page_id = q, internal_array = []\<rparr>) st))"
  define st5 where "st5 = (put_page ?c (node_set_parent INVALID_PAGE_ID n) st2)\<lparr>root_page_id := ?c\<rparr>"
  have other: "pages st2 x = pages st x" if "x \<noteq> q" for x using that by (simp add: st2_def delete_page_def)
  have st5: "index_name st5 = index_name st" "comparator st5 = comparator st"
    "leaf_max_size st5 = leaf_max_size st" "internal_max_size st5 = internal_max_size st"
    "zero_key st5 = zero_key st" "disk_next st5 = disk_next st" "pins st5 = drop_pin q (pins st)"
    "root_page_id st5 = ?c"
    by (simp_all add: st5_def st2_def delete_page_def drop_pin_def)
  have pg5: "pages st5 x = reparent INVALID_PAGE_ID {?c} (pages st) x" if "x \<noteq> q" for x
    using that other [of x] n by (simp add: st5_def reparent_def)
  have hdr: "pages st5 0 = pages st 0" using pg5 [of 0] q c(2) by simp
  have ev: "evolves st st5" using st5 hdr by (intro evolves_same_header) simp_all
  obtain recs where recs: "pages st 0 = Some (HeaderNode recs)" "map_of recs (index_name st) \<noteq> None"
    "length (index_name st) < 32" using st(7) by (auto simp: header_ok_def)
  obtain recs' where u: "UpdateRootPageId st5 = Some (put_page 0 (HeaderNode recs') st5)"
    "header_ok (put_page 0 (HeaderNode recs') st5)" "evolves st5 (put_page 0 (HeaderNode recs') st5)"
    using set_root_header [of st5 recs] recs st5 hdr by auto
  let ?st' = "put_page 0 (HeaderNode recs') st5"
  have un: "unpin_page ?c ((put_page ?c m (pin ?c st2))\<lparr>root_page_id := ?c\<rparr>) = (put_page ?c m st2)\<lparr>root_page_id := ?c\<rparr>" for m
    by (intro bpt.equality) simp_all
  have "AdjustRoot q st = Some (True, ?st')"
    using page u(1) other [OF c(1)] n
    by (simp add: AdjustRoot_def get_node_eq InternalPage_GetSize_def InternalPage_RemoveAndReturnOnlyChild_def
        InternalPage_ValueAt_def st2_def [symmetric] fetch_page_eq st5_def un)
  moreover have "stored ?st' [] [t]"
  proof (rule storedI)
    have "\<forall>x \<in> set (pids t). pages st5 x = reparent INVALID_PAGE_ID {?c} (pages st) x"
      using dist(1) by (auto intro!: pg5)
    then have "rep_st st5 INVALID_PAGE_ID t"
      using rep_cong [of t "pages st5" "reparent INVALID_PAGE_ID {?c} (pages st)"] st5
        rep_reparent [OF rept dist(2), of "{?c}" INVALID_PAGE_ID] by simp
    then show "rep_st ?st' (ctx_parent []) s" if "s \<in> set [t]" for s using that c(3) by simp
    show "0 < x \<and> x < disk_next ?st'" if "x \<in> set (pids_all [t] @ ctx_pids [])" for x
      using low [of x] that st5 by simp
    have "next_of (pages ?st') x = next_of (pages st) x" if "x \<in> set (leaf_ids t)" for x
    proof -
      have "x \<noteq> q" "x \<noteq> 0" using that leaf_ids_subset [of t] dist(1) c(3) by auto
      then show ?thesis using pg5 [of x] next_of_reparent [of INVALID_PAGE_ID "{?c}" "pages st" x]
        by (simp add: next_of_def)
    qed
    then show "chain (pages ?st') (ctx_left_ids [] @ concat (map leaf_ids [t]) @ ctx_right_ids []) INVALID_PAGE_ID"
      using st(5) chain_cong [of "leaf_ids t" "pages ?st'" "pages st"] by simp
    show "alloc_ok ?st'" using st(8) st5 by (auto simp: alloc_ok_def drop_pin_def)
  qed (use dist(2) u(2) st5 in simp_all)
  then have "tree_inv ?st' t"
    using assms(3-5) st5 root_shape_shape [OF assms(5,2)] by (simp add: tree_inv_def)
  then have "holds ?st' (entries t)" using assms(2) st5 by (auto simp: holds_def sizes_ok_def)
  moreover have "evolves st ?st'" using ev u(3) by (rule evolves_trans)
  ultimately show ?thesis using st5(7) by auto
qed

section \<open>The climb\<close>

text \<open>One level up: what is left to do after two neighbours have been merged or shifted.\<close>

lemma merged_parent:
  assumes "ordered cmp (ctx_lo c) (ctx_hi c) (GNode p (ls @ (k1, l) # (k2, r) # rs))"
    and "\<forall>kt \<in> set (ls @ rs). shape lm im h (snd kt)" and "level lm im h l" and "level lm im h r"
    and "h \<noteq> 0 \<Longrightarrow> 0 < width r" and "int (width l + width r) < capacity lm im l"
    and "capacity lm im l div 2 \<le> int (width l) \<or> capacity lm im l div 2 \<le> int (width r)"
    and "(if c = [] then 2 else im div 2) \<le> int (length ls + length rs + 2)"
    and "int (length ls + length rs + 2) < im"
  shows "ordered cmp (ctx_lo c) (ctx_hi c) (GNode p (ls @ (k1, merge_trees k2 l r) # rs))"
    "nearly lm im (c = []) (Suc h) (GNode p (ls @ (k1, merge_trees k2 l r) # rs))"
    "entries (GNode p (ls @ (k1, merge_trees k2 l r) # rs)) = entries (GNode p (ls @ (k1, l) # (k2, r) # rs))"
proof -
  note od = ordered_pairD [OF assms(1)]
  note lvl = level_merge [OF assms(3,4,5), of k2]
  show "ordered cmp (ctx_lo c) (ctx_hi c) (GNode p (ls @ (k1, merge_trees k2 l r) # rs))"
    using ordered_merge [OF od assms(3,4)] by (rule ordered_pair_merge [OF assms(1)])
  have "capacity lm im (merge_trees k2 l r) = capacity lm im l"
    using capacity_level [OF lvl(1) assms(3)] .
  then have "shape lm im h (merge_trees k2 l r)"
    using lvl assms(6,7) by (auto simp: shape_level)
  then show "nearly lm im (c = []) (Suc h) (GNode p (ls @ (k1, merge_trees k2 l r) # rs))"
    using assms(2,8,9) by (auto simp: nearly_def split: if_splits)
  show "entries (GNode p (ls @ (k1, merge_trees k2 l r) # rs)) = entries (GNode p (ls @ (k1, l) # (k2, r) # rs))"
    using entries_merge [OF assms(3,4,5), of k2] by simp
qed

lemma shifted_parent:
  assumes "stored st c [GNode p (ls @ (k1, l') # (k', r') # rs)]" and "comparator st = cmp" and "sizes_ok st"
    and "ordered cmp (ctx_lo c) (ctx_hi c) (GNode p (ls @ (k1, l) # (k2, r) # rs))" and "ordered_ctx cmp c"
    and "ordered cmp (if ls = [] then ctx_lo c else Some k1) (Some k') l' \<and>
         ordered cmp (Some k') (case rs of [] \<Rightarrow> ctx_hi c | x # _ \<Rightarrow> Some (fst x)) r' \<and>
         below_lo cmp (if ls = [] then ctx_lo c else Some k1) k' \<and>
         below cmp (case rs of [] \<Rightarrow> ctx_hi c | x # _ \<Rightarrow> Some (fst x)) k'"
    and "\<forall>kt \<in> set (ls @ rs). shape (leaf_max_size st) (internal_max_size st) h (snd kt)"
    and "shape (leaf_max_size st) (internal_max_size st) h l'" "shape (leaf_max_size st) (internal_max_size st) h r'"
    and "shape_ctx (leaf_max_size st) (internal_max_size st) (Suc h) c"
    and "(if c = [] then 2 else internal_max_size st div 2) \<le> int (length ls + length rs + 2)"
    and "int (length ls + length rs + 2) < internal_max_size st"
  shows "tree_inv st (plug c (GNode p (ls @ (k1, l') # (k', r') # rs)))"
proof -
  let ?t = "GNode p (ls @ (k1, l') # (k', r') # rs)"
  have "root_shape (leaf_max_size st) (internal_max_size st) (plug c ?t)"
    using assms(7-12) by (intro root_shape_node [where h = h]) auto
  moreover have "ordered cmp (ctx_lo c) (ctx_hi c) ?t"
    using assms(6) by (intro ordered_pair_shift [OF assms(4)]) blast+
  ultimately show ?thesis
    using assms(1,2,5) stored_plug [of st c ?t] ordered_plug [of cmp c ?t] by (simp add: tree_inv_def)
qed

lemma shift_shapes:
  assumes "level lm im h l" "level lm im h r" and "shift_left k l r = (l', k', r') \<and> 2 \<le> width r \<and>
      int (width l) = capacity lm im l div 2 - 1 \<and> int (width r) < capacity lm im r \<or>
      shift_right k l r = (l', k', r') \<and> 2 \<le> width l \<and> (h \<noteq> 0 \<longrightarrow> 0 < width r) \<and>
      int (width r) = capacity lm im r div 2 - 1 \<and> int (width l) < capacity lm im l"
    and "capacity lm im l \<le> int (width l + width r)" and "2 \<le> capacity lm im l"
  shows "shape lm im h l' \<and> shape lm im h r' \<and> entries l' @ entries r' = entries l @ entries r"
proof -
  have cap: "capacity lm im r = capacity lm im l" using capacity_level [OF assms(2,1)] .
  show ?thesis
    using assms(3)
  proof (elim disjE conjE)
    assume a: "shift_left k l r = (l', k', r')" "2 \<le> width r" "int (width l) = capacity lm im l div 2 - 1"
      "int (width r) < capacity lm im r"
    note f = shift_left_facts [OF assms(1,2) a(2,1)]
    then have "capacity lm im l' = capacity lm im l" "capacity lm im r' = capacity lm im l"
      using capacity_level assms(1) by blast+
    then show ?thesis using f a cap assms(4,5) unfolding shape_level by linarith
  next
    assume a: "shift_right k l r = (l', k', r')" "2 \<le> width l" "h \<noteq> 0 \<longrightarrow> 0 < width r"
      "int (width r) = capacity lm im r div 2 - 1" "int (width l) < capacity lm im l"
    note f = shift_right_facts [OF assms(1,2) a(2) _ a(1)]
    then have "capacity lm im l' = capacity lm im l" "capacity lm im r' = capacity lm im l"
      using capacity_level assms(1) a(3) by blast+
    then show ?thesis using f a cap assms(4,5) unfolding shape_level by auto
  qed
qed

end

lemma holdsI: "tree_inv st g \<Longrightarrow> sizes_ok st \<Longrightarrow> holds st (entries g)"
  by (auto simp: holds_def)

lemma CoR_left:
  assumes "stored st c [GNode p ((k1, l) # (k2, r) # rs)]"
    and "int (width l) < capacity (leaf_max_size st) (internal_max_size st) l div 2"
    and "st2 = pin (root_of r) (pin p st)"
  shows "CoalesceOrRedistribute (root_of l) st =
     (if int (width r + width l) < capacity (leaf_max_size st) (internal_max_size st) l
      then do { t3 \<leftarrow> Coalesce (root_of l) (root_of r) p 1 st2; CoalesceOrRedistribute p t3 }
      else do { t3 \<leftarrow> Redistribute (root_of r) (root_of l) 0 st2; Some (False, unpin_page p t3) })"
proof -
  let ?kts = "(k1, l) # (k2, r) # rs"
  have st: "stored st c [GNode p ([] @ ?kts)]" using assms(1) by simp
  note ids = neighbours_roots [OF st] and ix = neighbours_index [OF st refl]
  obtain n where n: "pages st (root_of l) = Some n" "\<forall>recs. n \<noteq> HeaderNode recs" "node_parent n = p"
    "node_size n = int (width l)" "node_max_size n = capacity (leaf_max_size st) (internal_max_size st) l"
    "node_min_size n = capacity (leaf_max_size st) (internal_max_size st) l div 2"
    using rep_sizes [OF stored_node_rep [OF assms(1), of "(k1, l)", simplified]] by auto
  obtain m where m: "pages st (root_of r) = Some m" "node_size m = int (width r)"
    using rep_sizes [OF stored_node_rep [OF assms(1), of "(k2, r)", simplified]] by auto
  show ?thesis
    using n m ids ix assms(2) stored_node_page [OF assms(1)]
    by (subst CoalesceOrRedistribute.simps)
      (simp add: get_node_eq get_internal_eq fetch_page_eq Coalesce_swap assms(3) del: child_slots_simps)
qed

lemma CoR_right:
  assumes "stored st c [GNode p (ls @ (k1, l) # (k2, r) # rs)]"
    and "int (width r) < capacity (leaf_max_size st) (internal_max_size st) r div 2"
    and "st2 = pin (root_of l) (pin p st)"
  shows "CoalesceOrRedistribute (root_of r) st =
     (if int (width l + width r) < capacity (leaf_max_size st) (internal_max_size st) r
      then do { t3 \<leftarrow> Coalesce (root_of l) (root_of r) p (int (length ls) + 1) st2; CoalesceOrRedistribute p t3 }
      else do { t3 \<leftarrow> Redistribute (root_of l) (root_of r) 1 st2; Some (False, unpin_page p t3) })"
proof -
  let ?kts = "ls @ (k1, l) # (k2, r) # rs"
  note ids = neighbours_roots [OF assms(1)] and ix = neighbours_index [OF assms(1) refl]
  obtain n where n: "pages st (root_of r) = Some n" "\<forall>recs. n \<noteq> HeaderNode recs" "node_parent n = p"
    "node_size n = int (width r)" "node_max_size n = capacity (leaf_max_size st) (internal_max_size st) r"
    "node_min_size n = capacity (leaf_max_size st) (internal_max_size st) r div 2"
    using rep_sizes [OF stored_node_rep [OF assms(1), of "(k2, r)", simplified]] by auto
  obtain m where m: "pages st (root_of l) = Some m" "node_size m = int (width l)"
    using rep_sizes [OF stored_node_rep [OF assms(1), of "(k1, l)", simplified]] by auto
  have pos: "int (length ls) + 1 \<noteq> 0" by simp
  show ?thesis
    using n m ids ix pos assms(2) stored_node_page [OF assms(1)]
    by (subst CoalesceOrRedistribute.simps)
      (simp add: get_node_eq get_internal_eq fetch_page_eq assms(3) del: child_slots_simps)
qed

definition CoR_result :: "('k, 'v) bpt \<Rightarrow> int \<Rightarrow> ('k \<times> 'v) list \<Rightarrow> bool" where
  "CoR_result st q es \<longleftrightarrow> (\<exists>b st'. CoalesceOrRedistribute q st = Some (b, st') \<and> holds st' es \<and>
     evolves st st' \<and> pins st' = drop_pin q (pins st))"

text \<open>
  The situation at one level of the climb: two neighbouring children of page \<open>p\<close>, of which at
  most one is a pair short.
\<close>

definition pair_at ::
    "('k, 'v) bpt \<Rightarrow> ('k, 'v) ctx \<Rightarrow> nat \<Rightarrow> int \<Rightarrow> ('k, 'v) children \<Rightarrow> 'k \<Rightarrow> ('k, 'v) gtree \<Rightarrow>
     'k \<Rightarrow> ('k, 'v) gtree \<Rightarrow> ('k, 'v) children \<Rightarrow> bool" where
  "pair_at st c h p ls k1 l k2 r rs \<longleftrightarrow>
     stored st c [GNode p (ls @ (k1, l) # (k2, r) # rs)] \<and> sizes_ok st \<and>
     ordered (comparator st) (ctx_lo c) (ctx_hi c) (GNode p (ls @ (k1, l) # (k2, r) # rs)) \<and>
     ordered_ctx (comparator st) c \<and>
     (\<forall>kt \<in> set (ls @ rs). shape (leaf_max_size st) (internal_max_size st) h (snd kt)) \<and>
     level (leaf_max_size st) (internal_max_size st) h l \<and>
     level (leaf_max_size st) (internal_max_size st) h r \<and>
     shape_ctx (leaf_max_size st) (internal_max_size st) (Suc h) c \<and>
     (if c = [] then 2 else internal_max_size st div 2) \<le> int (length ls + length rs + 2) \<and>
     int (length ls + length rs + 2) < internal_max_size st"

lemma drop_pin_pair:
  fixes f :: "int \<Rightarrow> nat"
  assumes "p \<noteq> a" and "p \<noteq> b" and "a \<noteq> b" and "q = a \<and> nb = b \<or> q = b \<and> nb = a"
    and "g = f(p := f p + 1)"
  shows "drop_pin p (drop_pin b (drop_pin a (g(nb := g nb + 1)))) = drop_pin q f"
proof (rule ext)
  fix x
  show "drop_pin p (drop_pin b (drop_pin a (g(nb := g nb + 1)))) x = drop_pin q f x"
    using assms(1-3) disjE [OF assms(4)] unfolding assms(5) drop_pin_def by (cases "x = p") auto
qed

lemma pair_at_pin:
  assumes "pair_at st c h p ls k1 l k2 r rs" and "q < disk_next st"
  shows "pair_at (pin q st) c h p ls k1 l k2 r rs"
  using assms stored_pin [OF _ assms(2)] unfolding pair_at_def sizes_ok_def pin_fields by blast

lemma pair_atI:
  assumes "kts = ls @ (k1, l) # (k2, r) # rs" and "stored st c [GNode p kts]" and "sizes_ok st"
    and "ordered (comparator st) (ctx_lo c) (ctx_hi c) (GNode p kts)" and "ordered_ctx (comparator st) c"
    and "\<forall>kt \<in> set ls \<union> set rs. shape (leaf_max_size st) (internal_max_size st) h (snd kt)"
    and "level (leaf_max_size st) (internal_max_size st) h l"
    and "level (leaf_max_size st) (internal_max_size st) h r"
    and "shape_ctx (leaf_max_size st) (internal_max_size st) (Suc h) c"
    and "(if c = [] then 2 else internal_max_size st div 2) \<le> int (length kts)"
    and "int (length kts) < internal_max_size st"
  shows "pair_at st c h p ls k1 l k2 r rs"
proof -
  have "length kts = length ls + length rs + 2" by (simp add: assms(1))
  then show ?thesis using assms(2-11) unfolding pair_at_def assms(1) by (simp only: set_append)
qed

lemma pair_atD:
  assumes "pair_at st c h p ls k1 l k2 r rs"
  shows "stored st c [GNode p (ls @ (k1, l) # (k2, r) # rs)]" "sizes_ok st"
    "ordered (comparator st) (ctx_lo c) (ctx_hi c) (GNode p (ls @ (k1, l) # (k2, r) # rs))"
    "ordered_ctx (comparator st) c"
    "\<forall>kt \<in> set (ls @ rs). shape (leaf_max_size st) (internal_max_size st) h (snd kt)"
    "level (leaf_max_size st) (internal_max_size st) h l"
    "level (leaf_max_size st) (internal_max_size st) h r"
    "shape_ctx (leaf_max_size st) (internal_max_size st) (Suc h) c"
    "(if c = [] then 2 else internal_max_size st div 2) \<le> int (length ls + length rs + 2)"
    "int (length ls + length rs + 2) < internal_max_size st"
  using assms unfolding pair_at_def by blast+

text \<open>Before a step of the climb: the page \<open>t\<close> may be one pair short, everything above it is in order.\<close>

definition climb_at :: "('k, 'v) bpt \<Rightarrow> ('k, 'v) ctx \<Rightarrow> nat \<Rightarrow> ('k, 'v) gtree \<Rightarrow> bool" where
  "climb_at st c h t \<longleftrightarrow>
     stored st c [t] \<and> sizes_ok st \<and> ordered (comparator st) (ctx_lo c) (ctx_hi c) t \<and>
     ordered_ctx (comparator st) c \<and> nearly (leaf_max_size st) (internal_max_size st) (c = []) h t \<and>
     shape_ctx (leaf_max_size st) (internal_max_size st) h c"

lemma climb_atD:
  assumes "climb_at st c h t"
  shows "stored st c [t]" "sizes_ok st" "ordered (comparator st) (ctx_lo c) (ctx_hi c) t"
    "ordered_ctx (comparator st) c" "nearly (leaf_max_size st) (internal_max_size st) (c = []) h t"
    "shape_ctx (leaf_max_size st) (internal_max_size st) h c"
  using assms unfolding climb_at_def by blast+

context key_comparator
begin

lemma Coalesce_climbs:
  assumes "pair_at st c h p ls k1 l k2 r rs" and "comparator st = cmp"
    and "h \<noteq> 0 \<Longrightarrow> 0 < width r" "h \<noteq> 0 \<Longrightarrow> 0 < width l"
    and "int (width l + width r) < capacity (leaf_max_size st) (internal_max_size st) l"
    and "capacity (leaf_max_size st) (internal_max_size st) l div 2 \<le> int (width l) \<or>
         capacity (leaf_max_size st) (internal_max_size st) l div 2 \<le> int (width r)"
    and "nb = root_of r \<or> nb = root_of l"
  obtains st3 t where "Coalesce (root_of l) (root_of r) p (int (length ls) + 1) (pin nb (pin p st)) = Some st3"
    "climb_at st3 c (Suc h) t" "root_of t = p" "comparator st3 = cmp" "evolves st st3"
    "entries t = entries (GNode p (ls @ (k1, l) # (k2, r) # rs))"
    "pins st3 = drop_pin (root_of r) (drop_pin (root_of l) (pins (pin nb (pin p st))))"
proof -
  let ?st2 = "pin nb (pin p st)" and ?t = "GNode p (ls @ (k1, merge_trees k2 l r) # rs)"
  note pa = pair_atD [OF assms(1), unfolded assms(2)]
  note ids = neighbours_roots [OF pa(1)]
  have "pair_at ?st2 c h p ls k1 l k2 r rs"
    using ids assms(7) by (intro pair_at_pin assms(1)) auto
  note pa2 = pair_atD [OF this]
  obtain st3 where st3: "Coalesce (root_of l) (root_of r) p (int (length ls) + 1) ?st2 = Some st3"
    "stored st3 c [?t]" "evolves ?st2 st3"
    "pins st3 = drop_pin (root_of r) (drop_pin (root_of l) (pins ?st2))"
    using assms(3-5) by (rule_tac Coalesce_ok [OF pa2(1,6,7) _ _ _ pa2(2)]) auto
  have ev: "evolves st st3" by (meson evolves_pin evolves_trans st3(3))
  note fields = evolves_fields [OF ev]
  note mp = merged_parent [OF pa(3,5,6,7) assms(3) assms(5,6) pa(9,10)]
  have "climb_at st3 c (Suc h) ?t"
    using pa(2,4,8) fields assms(2) mp(1,2) st3(2) by (simp add: climb_at_def sizes_ok_def)
  then show thesis using that st3(1,4) ev fields(2) assms(2) mp(3) by simp
qed

lemma CoR_merge_step:
  assumes "pair_at st c h p ls k1 l k2 r rs" and "comparator st = cmp"
    and "h \<noteq> 0 \<Longrightarrow> 0 < width r" "h \<noteq> 0 \<Longrightarrow> 0 < width l"
    and "int (width l + width r) < capacity (leaf_max_size st) (internal_max_size st) l"
    and "capacity (leaf_max_size st) (internal_max_size st) l div 2 \<le> int (width l) \<or>
         capacity (leaf_max_size st) (internal_max_size st) l div 2 \<le> int (width r)"
    and IH: "\<And>st' t. climb_at st' c (Suc h) t \<Longrightarrow> comparator st' = cmp \<Longrightarrow>
         CoR_result st' (root_of t) (ctx_left c @ entries t @ ctx_right c)"
    and "q = root_of l \<and> nb = root_of r \<or> q = root_of r \<and> nb = root_of l"
    and "CoalesceOrRedistribute q st =
       do { t3 \<leftarrow> Coalesce (root_of l) (root_of r) p (int (length ls) + 1) (pin nb (pin p st));
            CoalesceOrRedistribute p t3 }"
  shows "CoR_result st q (ctx_left c @ entries (GNode p (ls @ (k1, l) # (k2, r) # rs)) @ ctx_right c)"
proof -
  note pa = pair_atD [OF assms(1), unfolded assms(2)]
  note ids = neighbours_roots [OF pa(1)]
  obtain st3 t where st3: "Coalesce (root_of l) (root_of r) p (int (length ls) + 1) (pin nb (pin p st)) = Some st3"
    "climb_at st3 c (Suc h) t" "root_of t = p" "comparator st3 = cmp" "evolves st st3"
    "entries t = entries (GNode p (ls @ (k1, l) # (k2, r) # rs))"
    "pins st3 = drop_pin (root_of r) (drop_pin (root_of l) (pins (pin nb (pin p st))))"
    using Coalesce_climbs [OF assms(1-6), of nb] assms(8) by metis
  then obtain b st' where st': "CoalesceOrRedistribute p st3 = Some (b, st')"
    "holds st' (ctx_left c @ entries t @ ctx_right c)" "evolves st3 st'" "pins st' = drop_pin p (pins st3)"
    using IH [OF st3(2,4)] by (auto simp: CoR_result_def)
  have "pins st' = drop_pin q (pins st)"
    unfolding st'(4) st3(7) pin_fields using ids(1-3) assms(8) by (intro drop_pin_pair) auto
  moreover have "evolves st st'" using st3(5) st'(3) by (rule evolves_trans)
  ultimately show ?thesis using st' st3(1,6) assms(9) by (simp add: CoR_result_def)
qed

lemma CoR_shift_step:
  assumes "pair_at st c h p ls k1 l k2 r rs" and "comparator st = cmp"
    and sh: "shift_left k2 l r = (l', k', r') \<and> 2 \<le> width r \<and> (h \<noteq> 0 \<longrightarrow> 0 < width l) \<and>
        int (width l) = capacity (leaf_max_size st) (internal_max_size st) l div 2 - 1 \<and>
        int (width r) < capacity (leaf_max_size st) (internal_max_size st) r \<and>
        a = root_of r \<and> q = root_of l \<and> i = 0 \<or>
      shift_right k2 l r = (l', k', r') \<and> 2 \<le> width l \<and> (h \<noteq> 0 \<longrightarrow> 0 < width r) \<and>
        int (width r) = capacity (leaf_max_size st) (internal_max_size st) r div 2 - 1 \<and>
        int (width l) < capacity (leaf_max_size st) (internal_max_size st) l \<and>
        a = root_of l \<and> q = root_of r \<and> i = 1"
    and "capacity (leaf_max_size st) (internal_max_size st) l \<le> int (width l + width r)"
    and "CoalesceOrRedistribute q st =
       do { t3 \<leftarrow> Redistribute a q i (pin a (pin p st)); Some (False, unpin_page p t3) }"
  shows "CoR_result st q (ctx_left c @ entries (GNode p (ls @ (k1, l) # (k2, r) # rs)) @ ctx_right c)"
proof -
  let ?st2 = "pin a (pin p st)" and ?t = "GNode p (ls @ (k1, l') # (k', r') # rs)"
  note pa = pair_atD [OF assms(1), unfolded assms(2)]
  note ids = neighbours_roots [OF pa(1)]
  have qa: "a = root_of r \<and> q = root_of l \<or> a = root_of l \<and> q = root_of r" using sh by blast
  have "pair_at ?st2 c h p ls k1 l k2 r rs"
    using ids qa by (intro pair_at_pin assms(1)) auto
  note pa2 = pair_atD [OF this]
  have "\<exists>st3. Redistribute a q i ?st2 = Some st3 \<and> stored st3 c [?t] \<and> evolves ?st2 st3 \<and>
      pins st3 = drop_pin (root_of r) (drop_pin (root_of l) (pins ?st2))"
    using sh
  proof (elim disjE conjE)
    assume b: "shift_left k2 l r = (l', k', r')" "2 \<le> width r" "h \<noteq> 0 \<longrightarrow> 0 < width l"
      "a = root_of r" "q = root_of l" "i = 0"
    show ?thesis using Redistribute_left_ok [OF pa2(1,6,7) b(2) _ pa2(2) b(1)] b(3-6) by metis
  next
    assume b: "shift_right k2 l r = (l', k', r')" "2 \<le> width l" "h \<noteq> 0 \<longrightarrow> 0 < width r"
      "a = root_of l" "q = root_of r" "i = 1"
    show ?thesis using Redistribute_right_ok [OF pa2(1,6,7) b(2) _ pa2(2) b(1)] b(3-6) by metis
  qed
  then obtain st3 where st3: "Redistribute a q i ?st2 = Some st3" "stored st3 c [?t]" "evolves ?st2 st3"
    "pins st3 = drop_pin (root_of r) (drop_pin (root_of l) (pins ?st2))" by blast
  have ev: "evolves st st3" by (meson evolves_pin evolves_trans st3(3))
  note fields = evolves_fields [OF ev]
  note od = ordered_pairD [OF pa(3)]
  have shapes: "shape (leaf_max_size st) (internal_max_size st) h l' \<and>
      shape (leaf_max_size st) (internal_max_size st) h r' \<and> entries l' @ entries r' = entries l @ entries r"
    using sh assms(4) capacity_bounds(1) [OF pa(2), of l]
    by (intro shift_shapes [OF pa(6,7), of k2 l' k' r']) blast+
  have ords: "ordered cmp (if ls = [] then ctx_lo c else Some k1) (Some k') l' \<and>
      ordered cmp (Some k') (case rs of [] \<Rightarrow> ctx_hi c | x # _ \<Rightarrow> Some (fst x)) r' \<and>
      below_lo cmp (if ls = [] then ctx_lo c else Some k1) k' \<and>
      below cmp (case rs of [] \<Rightarrow> ctx_hi c | x # _ \<Rightarrow> Some (fst x)) k'"
    using sh ordered_shift_left [OF od pa(6,7), of l' k' r'] ordered_shift_right [OF od pa(6,7), of l' k' r']
    by blast
  have "tree_inv st3 (plug c ?t)"
    using shapes fields pa(2,5,8,9,10) assms(2)
    by (intro shifted_parent [OF st3(2) _ _ pa(3,4) ords, of h]) (simp_all add: sizes_ok_def split: if_splits)
  then have "holds (unpin_page p st3) (entries (plug c ?t))"
    using pa(2) fields by (intro holdsI [OF tree_inv_unpin]) (simp_all add: sizes_ok_def)
  moreover have "entries (plug c ?t) = ctx_left c @ entries (GNode p (ls @ (k1, l) # (k2, r) # rs)) @ ctx_right c"
    using shapes by (simp add: entries_plug)
  moreover have "pins (unpin_page p st3) = drop_pin q (pins st)"
    unfolding pins_unpin st3(4) pin_fields using ids(1-3) qa by (intro drop_pin_pair) auto
  moreover have "evolves st (unpin_page p st3)" by (meson ev evolves_trans evolves_unpin)
  ultimately show ?thesis using st3(1) assms(5) unfolding CoR_result_def by auto
qed

lemma CoR_done:
  assumes "stored st c [t]" and "comparator st = cmp" and "sizes_ok st"
    and "ordered cmp (ctx_lo c) (ctx_hi c) t" and "ordered_ctx cmp c"
    and "nearly (leaf_max_size st) (internal_max_size st) (c = []) h t"
    and "shape_ctx (leaf_max_size st) (internal_max_size st) h c"
    and "capacity (leaf_max_size st) (internal_max_size st) t div 2 \<le> int (width t)"
  shows "CoR_result st (root_of t) (ctx_left c @ entries t @ ctx_right c)"
proof -
  obtain n where n: "pages st (root_of t) = Some n" "\<forall>recs. n \<noteq> HeaderNode recs"
    "node_size n = int (width t)" "node_min_size n = capacity (leaf_max_size st) (internal_max_size st) t div 2"
    using rep_sizes [OF storedD(1) [OF assms(1), of t]] by auto
  then have "CoalesceOrRedistribute (root_of t) st = Some (True, unpin_page (root_of t) st)"
    using assms(8) by (subst CoalesceOrRedistribute.simps) (simp add: get_node_eq)
  moreover have "shape (leaf_max_size st) (internal_max_size st) h t"
    using assms(6,8) by (simp add: shape_level nearly_def)
  then have "tree_inv st (plug c t)" using assms(1-5,7) by (intro tree_inv_plug)
  then have "holds (unpin_page (root_of t) st) (ctx_left c @ entries t @ ctx_right c)"
    using holdsI [OF tree_inv_unpin, of st "plug c t"] assms(3) by (simp add: sizes_ok_def entries_plug)
  ultimately show ?thesis by (auto simp: CoR_result_def drop_pin_def)
qed

lemma CoR_root:
  assumes "stored st [] [t]" and "comparator st = cmp" and "sizes_ok st" and "ordered cmp None None t"
    and "nearly (leaf_max_size st) (internal_max_size st) True h t"
    and "int (width t) < capacity (leaf_max_size st) (internal_max_size st) t div 2"
  shows "CoR_result st (root_of t) (entries t)"
proof -
  obtain n where n: "pages st (root_of t) = Some n" "\<forall>recs. n \<noteq> HeaderNode recs" "node_parent n = INVALID_PAGE_ID"
    "node_size n = int (width t)" "node_min_size n = capacity (leaf_max_size st) (internal_max_size st) t div 2"
    using rep_sizes [OF storedD(1) [OF assms(1), of t]] by auto
  then have adj: "CoalesceOrRedistribute (root_of t) st = AdjustRoot (root_of t) st"
    using assms(6) by (subst CoalesceOrRedistribute.simps) (simp add: get_node_eq)
  have keep: "\<exists>st'. Some (False, unpin_page (root_of t) st) = Some (False, st') \<and> holds st' (entries t) \<and>
      evolves st st' \<and> pins st' = drop_pin (root_of t) (pins st)"
    if "root_shape (leaf_max_size st) (internal_max_size st) t"
  proof -
    have "tree_inv st t" using that assms(1,2,4) by (simp add: tree_inv_def)
    then have "holds (unpin_page (root_of t) st) (entries t)"
      using holdsI [OF tree_inv_unpin, of st t] assms(3) by (simp add: sizes_ok_def)
    then show ?thesis by (simp add: drop_pin_def)
  qed
  have "\<exists>b st'. AdjustRoot (root_of t) st = Some (b, st') \<and> holds st' (entries t) \<and> evolves st st' \<and>
      pins st' = drop_pin (root_of t) (pins st)"
  proof (cases t)
    case (GLeaf q es)
    show ?thesis
    proof (cases "es = []")
      case True
      then show ?thesis using AdjustRoot_leaf assms(1,3) by (fastforce simp: GLeaf)
    next
      case False
      then have "root_shape (leaf_max_size st) (internal_max_size st) t"
        using assms(5) by (simp add: GLeaf nearly_def)
      moreover have "AdjustRoot q st = Some (False, unpin_page q st)"
        using False storedD(1) [OF assms(1), of t] by (auto simp: GLeaf AdjustRoot_def get_node_eq LeafPage_GetSize_def)
      ultimately show ?thesis using keep by (auto simp: GLeaf)
    qed
  next
    case (GNode q kts)
    show ?thesis
    proof (cases "length kts = 1")
      case True
      then obtain k s where "kts = [(k, s)]" by (cases kts) auto
      then show ?thesis
        using AdjustRoot_node [of st q k s "h - 1"] assms by (auto simp: GNode nearly_def)
    next
      case False
      then have "root_shape (leaf_max_size st) (internal_max_size st) t"
        using assms(5) by (auto simp: GNode nearly_def)
      moreover have "AdjustRoot q st = Some (False, unpin_page q st)"
        using False storedD(1) [OF assms(1), of t]
        by (auto simp: GNode AdjustRoot_def get_node_eq InternalPage_GetSize_def)
      ultimately show ?thesis using keep by (auto simp: GNode)
    qed
  qed
  then show ?thesis by (simp add: CoR_result_def adj)
qed

text \<open>The two positions of the short child: leftmost (its neighbour is on the right), or not.\<close>

lemma neighbour_facts:
  assumes "shape lm im h s" and "level lm im h t"
  shows "level lm im h s" "capacity lm im s = capacity lm im t" "capacity lm im t div 2 \<le> int (width s)"
    "int (width s) < capacity lm im t"
  using assms(1) capacity_level [of lm im h s t] assms(2) by (auto simp: shape_level)

lemma CoR_step_left:
  assumes pa: "pair_at st c h p [] k1 l k2 r rs" and "comparator st = cmp"
    and "shape (leaf_max_size st) (internal_max_size st) h r"
    and short: "int (width l) = capacity (leaf_max_size st) (internal_max_size st) l div 2 - 1"
    and IH: "\<And>st' t. climb_at st' c (Suc h) t \<Longrightarrow> comparator st' = cmp \<Longrightarrow>
         CoR_result st' (root_of t) (ctx_left c @ entries t @ ctx_right c)"
  shows "CoR_result st (root_of l) (ctx_left c @ entries (GNode p ([] @ (k1, l) # (k2, r) # rs)) @ ctx_right c)"
proof -
  let ?cap = "capacity (leaf_max_size st) (internal_max_size st) l"
  note d = pair_atD [OF pa]
  note r = neighbour_facts [OF assms(3) d(6)]
  have pos: "h \<noteq> 0 \<Longrightarrow> 0 < width l" "h \<noteq> 0 \<Longrightarrow> 0 < width r"
    using width_pos [OF d(2) _ d(6)] width_pos [OF d(2) _ d(7)] short r by auto
  obtain l' k' r' where sl: "shift_left k2 l r = (l', k', r')" by (cases "shift_left k2 l r") auto
  have cor: "CoalesceOrRedistribute (root_of l) st =
     (if int (width r + width l) < ?cap
      then do { t3 \<leftarrow> Coalesce (root_of l) (root_of r) p 1 (pin (root_of r) (pin p st)); CoalesceOrRedistribute p t3 }
      else do { t3 \<leftarrow> Redistribute (root_of r) (root_of l) 0 (pin (root_of r) (pin p st)); Some (False, unpin_page p t3) })"
    using d(1) short by (intro CoR_left [OF _ _ refl]) simp_all
  show ?thesis
  proof (cases "int (width r + width l) < ?cap")
    case True
    then show ?thesis
      using cor r pos by (intro CoR_merge_step [OF pa assms(2) _ _ _ _ IH, of "root_of l" "root_of r"]) auto
  next
    case False
    then show ?thesis
      using cor r pos short capacity_bounds(1) [OF d(2), of l]
      by (intro CoR_shift_step [OF pa assms(2), of l' k' r' "root_of r" _ 0]) (auto simp: sl)
  qed
qed

lemma CoR_step_right:
  assumes pa: "pair_at st c h p ls k1 l k2 r rs" and "comparator st = cmp"
    and "shape (leaf_max_size st) (internal_max_size st) h l"
    and short: "int (width r) = capacity (leaf_max_size st) (internal_max_size st) r div 2 - 1"
    and IH: "\<And>st' t. climb_at st' c (Suc h) t \<Longrightarrow> comparator st' = cmp \<Longrightarrow>
         CoR_result st' (root_of t) (ctx_left c @ entries t @ ctx_right c)"
  shows "CoR_result st (root_of r) (ctx_left c @ entries (GNode p (ls @ (k1, l) # (k2, r) # rs)) @ ctx_right c)"
proof -
  let ?cap = "capacity (leaf_max_size st) (internal_max_size st) r"
  note d = pair_atD [OF pa]
  note l = neighbour_facts [OF assms(3) d(7)]
  have pos: "h \<noteq> 0 \<Longrightarrow> 0 < width l" "h \<noteq> 0 \<Longrightarrow> 0 < width r"
    using width_pos [OF d(2) _ d(6)] width_pos [OF d(2) _ d(7)] short l by auto
  obtain l' k' r' where sr: "shift_right k2 l r = (l', k', r')" by (cases "shift_right k2 l r") auto
  have cor: "CoalesceOrRedistribute (root_of r) st =
     (if int (width l + width r) < ?cap
      then do { t3 \<leftarrow> Coalesce (root_of l) (root_of r) p (int (length ls) + 1) (pin (root_of l) (pin p st));
                CoalesceOrRedistribute p t3 }
      else do { t3 \<leftarrow> Redistribute (root_of l) (root_of r) 1 (pin (root_of l) (pin p st)); Some (False, unpin_page p t3) })"
    using d(1) short by (intro CoR_right [OF _ _ refl]) simp_all
  show ?thesis
  proof (cases "int (width l + width r) < ?cap")
    case True
    then show ?thesis
      using cor l pos by (intro CoR_merge_step [OF pa assms(2) _ _ _ _ IH, of "root_of r" "root_of l"]) auto
  next
    case False
    then show ?thesis
      using cor l pos short capacity_bounds(1) [OF d(2), of r]
      by (intro CoR_shift_step [OF pa assms(2), of l' k' r' "root_of l" _ 1]) (auto simp: sr)
  qed
qed

text \<open>
  The induction behind the climb. A property of the page that may be short follows if it holds
  where the climb ends and, for a child that is short with its neighbour on either side, follows
  from the property one level up.
\<close>

lemma climb_induct [consumes 2, case_names full root left right]:
  assumes "climb_at st c h t" and "comparator st = cmp"
    and full: "\<And>st c h t. climb_at st c h t \<Longrightarrow> comparator st = cmp \<Longrightarrow>
       capacity (leaf_max_size st) (internal_max_size st) t div 2 \<le> int (width t) \<Longrightarrow> R st c t"
    and root: "\<And>st h t. climb_at st [] h t \<Longrightarrow> comparator st = cmp \<Longrightarrow>
       int (width t) < capacity (leaf_max_size st) (internal_max_size st) t div 2 \<Longrightarrow> R st [] t"
    and left: "\<And>st c h p k1 l k2 r rs. pair_at st c h p [] k1 l k2 r rs \<Longrightarrow> comparator st = cmp \<Longrightarrow>
       shape (leaf_max_size st) (internal_max_size st) h r \<Longrightarrow>
       int (width l) = capacity (leaf_max_size st) (internal_max_size st) l div 2 - 1 \<Longrightarrow>
       (\<And>st' t. climb_at st' c (Suc h) t \<Longrightarrow> comparator st' = cmp \<Longrightarrow> R st' c t) \<Longrightarrow>
       R st ((p, [], k1, (k2, r) # rs) # c) l"
    and right: "\<And>st c h p ls k1 l k2 r rs. pair_at st c h p ls k1 l k2 r rs \<Longrightarrow> comparator st = cmp \<Longrightarrow>
       shape (leaf_max_size st) (internal_max_size st) h l \<Longrightarrow>
       int (width r) = capacity (leaf_max_size st) (internal_max_size st) r div 2 - 1 \<Longrightarrow>
       (\<And>st' t. climb_at st' c (Suc h) t \<Longrightarrow> comparator st' = cmp \<Longrightarrow> R st' c t) \<Longrightarrow>
       R st ((p, ls @ [(k1, l)], k2, rs) # c) r"
  shows "R st c t"
  using assms(1,2)
proof (induction c arbitrary: st t h)
  case Nil
  then show ?case using full [OF Nil] root [OF Nil] by (simp add: not_le [symmetric]) blast
next
  case (Cons f c)
  obtain p ls k rs where f: "f = (p, ls, k, rs)" by (cases f) auto
  note prems = climb_atD [OF Cons.prems(1) [unfolded f], unfolded Cons.prems(2)]
  let ?lm = "leaf_max_size st" and ?im = "internal_max_size st"
  let ?cap = "capacity ?lm ?im t"
  show ?case
  proof (cases "?cap div 2 \<le> int (width t)")
    case True
    then show ?thesis using full [OF Cons.prems] by blast
  next
    case False
    have st: "stored st c [GNode p (ls @ (k, t) # rs)]" using prems(1) by (simp only: stored_frame)
    have ord: "ordered cmp (ctx_lo c) (ctx_hi c) (GNode p (ls @ (k, t) # rs))" "ordered_ctx cmp c"
      using ordered_ctx_sub [of cmp c p ls k t rs] prems(3,4) by blast+
    have near: "level ?lm ?im h t" "int (width t) = ?cap div 2 - 1"
      using prems(5) False by (auto simp: nearly_def)
    have outer: "\<forall>kt \<in> set ls \<union> set rs. shape ?lm ?im h (snd kt)" "shape_ctx ?lm ?im (Suc h) c"
      "(if c = [] then 2 else ?im div 2) \<le> int (length ls + length rs + 1)"
      "int (length ls + length rs + 1) < ?im"
      using prems(6) by simp_all
    have len: "length (ls @ (k, t) # rs) = length ls + length rs + 1" by simp
    show ?thesis
    proof (cases ls rule: rev_cases)
      case Nil
      then obtain k2 r rs' where rs: "rs = (k2, r) # rs'"
        using outer(3) prems(2) by (cases rs) (auto simp: sizes_ok_def split: if_splits)
      have r: "shape ?lm ?im h r" using outer(1) by (simp add: rs)
      have "pair_at st c h p [] k t k2 r rs'"
      proof (rule pair_atI [OF _ st prems(2) _ _ _ near(1) neighbour_facts(1) [OF r near(1)] outer(2)])
        show "ls @ (k, t) # rs = [] @ (k, t) # (k2, r) # rs'" by (simp add: Nil rs)
        show "\<forall>kt \<in> set [] \<union> set rs'. shape ?lm ?im h (snd kt)" using outer(1) by (simp add: rs)
      qed (simp_all only: Cons.prems(2) ord len outer)
      from left [OF this Cons.prems(2) r near(2) Cons.IH] show ?thesis by (simp only: f Nil rs)
    next
      case (snoc ls' kl)
      obtain k1 l where kl: "kl = (k1, l)" by force
      have l: "shape ?lm ?im h l" using outer(1) by (simp add: snoc kl)
      have "pair_at st c h p ls' k1 l k t rs"
      proof (rule pair_atI [OF _ st prems(2) _ _ _ neighbour_facts(1) [OF l near(1)] near(1) outer(2)])
        show "ls @ (k, t) # rs = ls' @ (k1, l) # (k, t) # rs" by (simp add: snoc kl)
        show "\<forall>kt \<in> set ls' \<union> set rs. shape ?lm ?im h (snd kt)" using outer(1) by (simp add: snoc)
      qed (simp_all only: Cons.prems(2) ord len outer)
      from right [OF this Cons.prems(2) l near(2) Cons.IH] show ?thesis by (simp only: f snoc kl)
    qed
  qed
qed

lemma CoalesceOrRedistribute_ok:
  assumes "climb_at st c h t" and "comparator st = cmp"
  shows "CoR_result st (root_of t) (ctx_left c @ entries t @ ctx_right c)"
  using assms
proof (induction rule: climb_induct)
  case (full st c h t)
  note d = climb_atD [OF full(1), unfolded full(2)]
  show ?case using CoR_done [OF d(1) full(2) d(2-6) full(3)] .
next
  case (root st h t)
  note d = climb_atD [OF root(1), unfolded root(2)]
  show ?case using CoR_root [of st t h] d root(2,3) by simp
next
  case (left st c h p k1 l k2 r rs)
  from CoR_step_left [OF left] show ?case by simp
next
  case (right st c h p ls k1 l k2 r rs)
  from CoR_step_right [OF right] show ?case by simp
qed

section \<open>Remove\<close>

lemma al_delete_path:
  assumes "ordered_ctx cmp c" and "within cmp (ctx_lo c) (ctx_hi c) key"
  shows "al_delete cmp key (ctx_left c @ es @ ctx_right c) = ctx_left c @ al_delete cmp key es @ ctx_right c"
  using ctx_left_below [of c key] ctx_right_above [of c key] assms
  by (simp add: al_delete_below al_delete_above within_def)

lemma nearly_leaf:
  assumes "tree_inv st (plug c (GLeaf q es))" and "length es' + 1 = length es"
  shows "nearly (leaf_max_size st) (internal_max_size st) (c = []) 0 (GLeaf q es')"
    "shape_ctx (leaf_max_size st) (internal_max_size st) 0 c"
proof -
  show "nearly (leaf_max_size st) (internal_max_size st) (c = []) 0 (GLeaf q es')"
    using assms shape_plug [of c] by (cases "c = []") (auto simp: nearly_def tree_inv_def)
  show "shape_ctx (leaf_max_size st) (internal_max_size st) 0 c"
    using assms(1) shape_plug [of c] by (cases "c = []") (auto simp: tree_inv_def)
qed

lemma Remove_climbs:
  assumes "tree_inv st (plug c (GLeaf q es))" and "comparator st = cmp" and "sizes_ok st"
    and "pages st q = Some (LeafNode l)" and "leaf_array l = es" and "key \<in> fst ` set es"
    and "st1 = put_page q (LeafNode (l\<lparr>leaf_array := al_delete cmp key es\<rparr>)) (pin q st)"
  shows "climb_at st1 c 0 (GLeaf q (al_delete cmp key es))" "comparator st1 = cmp" "evolves st st1"
    "LeafPage_RemoveAndDeleteRecord cmp key l = (int (length es) - 1, l\<lparr>leaf_array := al_delete cmp key es\<rparr>)"
    "length (al_delete cmp key es) + 1 = length es"
proof -
  let ?es = "al_delete cmp key es"
  have st: "stored st c [GLeaf q es]" using assms(1) stored_plug [of st c "GLeaf q es"] by (simp add: tree_inv_def)
  have ord: "ordered_ctx cmp c" "ordered cmp (ctx_lo c) (ctx_hi c) (GLeaf q es)"
    using assms(1,2) ordered_plug [of cmp c "GLeaf q es"] by (simp_all add: tree_inv_def)
  have q: "0 < q" "q < disk_next st" using storedD(4) [OF st, of q] by simp_all
  have sorted: "sorted_keys cmp es" using ord(2) by simp
  show len: "length ?es + 1 = length es"
    using length_al_delete [OF sorted, of key] assms(6) by (cases es) auto
  have st1: "stored st1 c [GLeaf q ?es]"
    unfolding assms(7) using stored_leaf_update [OF stored_pin [OF st q(2)], of l] assms(4) by simp
  show ev1: "evolves st st1"
    unfolding assms(7) by (rule evolves_trans [OF evolves_pin evolves_put]) (use q(1) in simp)
  note fields = evolves_fields [OF ev1]
  have "ordered cmp (ctx_lo c) (ctx_hi c) (GLeaf q ?es)"
    using ord(2) sorted_keys_al_delete [of cmp es key] set_al_delete [of cmp key es] by auto
  then show "climb_at st1 c 0 (GLeaf q ?es)" "comparator st1 = cmp"
    using st1 ord(1) assms(1-3) nearly_leaf [of st c q es ?es] len fields
    by (simp_all add: climb_at_def sizes_ok_def)
  show "LeafPage_RemoveAndDeleteRecord cmp key l = (int (length es) - 1, l\<lparr>leaf_array := ?es\<rparr>)"
    using LeafPage_RemoveAndDeleteRecord_sorted [of l key] sorted assms(6) by (simp add: assms(5))
qed

lemma Remove_present:
  assumes "tree_inv st g" and "comparator st = cmp" and "sizes_ok st" and "key \<in> fst ` set (entries g)"
  shows "\<exists>st'. BPlusTree_Remove key st = Some (True, st') \<and> holds st' (al_delete cmp key (entries g)) \<and>
     evolves st st' \<and> pins st' = pins st"
proof -
  obtain c q es where f: "FindLeafPage key False False st = Some (q, pin q st)"
    "g = plug c (GLeaf q es)" "stored st c [GLeaf q es]" "ordered_ctx cmp c"
    "ordered cmp (ctx_lo c) (ctx_hi c) (GLeaf q es)" "within cmp (ctx_lo c) (ctx_hi c) key"
    using FindLeafPage_ok [OF assms(1,2)] by metis
  obtain l where l: "pages st q = Some (LeafNode l)" "leaf_array l = es" "0 < q" "q < disk_next st"
    using stored_leaf [OF f(3)] by metis
  let ?es = "al_delete cmp key es"
  define st1 where "st1 = put_page q (LeafNode (l\<lparr>leaf_array := ?es\<rparr>)) (pin q st)"
  have key: "key \<in> fst ` set es" using assms(4) keys_path [OF f(4,6)] by (simp add: f(2) entries_plug)
  note rc = Remove_climbs [OF assms(1) [unfolded f(2)] assms(2,3) l(1,2) key st1_def]
  from CoalesceOrRedistribute_ok [OF rc(1,2)] obtain b st' where st': "CoalesceOrRedistribute q st1 = Some (b, st')"
    "holds st' (ctx_left c @ ?es @ ctx_right c)" "evolves st1 st'" "pins st' = drop_pin q (pins st1)"
    by (auto simp: CoR_result_def)
  note ev1 = rc(3) and rc(4)
  moreover have "int (length es) - 1 \<noteq> -1" using key by auto
  ultimately have "BPlusTree_Remove key st = Some (True, st')"
    using f(1) l st'(1) assms(2) by (simp add: BPlusTree_Remove_def get_leaf_eq st1_def)
  moreover have "ctx_left c @ ?es @ ctx_right c = al_delete cmp key (entries g)"
    using al_delete_path [OF f(4,6), of es] by (simp add: f(2) entries_plug)
  moreover have "pins st' = pins st" by (simp add: st'(4) st1_def drop_pin_def)
  ultimately show ?thesis using st'(2,3) evolves_trans [OF ev1] by auto
qed

lemma Remove_absent:
  assumes "tree_inv st g" and "comparator st = cmp" and "key \<notin> fst ` set (entries g)"
  shows "BPlusTree_Remove key st = Some (False, st)"
proof -
  obtain c q es where f: "FindLeafPage key False False st = Some (q, pin q st)"
    "g = plug c (GLeaf q es)" "stored st c [GLeaf q es]" "ordered_ctx cmp c"
    "ordered cmp (ctx_lo c) (ctx_hi c) (GLeaf q es)" "within cmp (ctx_lo c) (ctx_hi c) key"
    using FindLeafPage_ok [OF assms(1,2)] by metis
  obtain l where l: "pages st q = Some (LeafNode l)" "leaf_array l = es" "0 < q"
    using stored_leaf [OF f(3)] by metis
  have "key \<notin> fst ` set es" using assms(3) keys_path [OF f(4,6)] by (simp add: f(2) entries_plug)
  then have "LeafPage_RemoveAndDeleteRecord cmp key l = (-1, l)"
    using LeafPage_RemoveAndDeleteRecord_sorted [of l key] f(5) by (simp add: l(2))
  then show ?thesis
    using f(1) l assms(2) by (simp add: BPlusTree_Remove_def get_leaf_eq)
qed

theorem Remove_ok:
  assumes "holds st es" and "comparator st = cmp"
  shows "\<exists>st'. BPlusTree_Remove key st = Some (key \<in> fst ` set es, st') \<and>
     holds st' (al_delete cmp key es) \<and> evolves st st' \<and> pins st' = pins st"
proof (cases "root_page_id st = INVALID_PAGE_ID")
  case True
  then have "es = []"
    using assms(1) by (auto simp: holds_def tree_inv_def stored_def dest: bspec [OF _ root_in_pids])
  then show ?thesis
    using True assms(1) by (simp add: BPlusTree_Remove_def FindLeafPage_empty)
next
  case False
  then obtain g where g: "tree_inv st g" "es = entries g" "sizes_ok st" using assms(1) by (auto simp: holds_def)
  show ?thesis
  proof (cases "key \<in> fst ` set es")
    case True
    then show ?thesis using Remove_present [OF g(1) assms(2) g(3), of key] g(2) by simp
  next
    case F: False
    then show ?thesis
      using Remove_absent [OF g(1) assms(2), of key] g(2) assms(1) by (simp add: al_delete_absent)
  qed
qed

end

end
