(* ===== verification/IndexNTS.thy ===== *)
theory IndexNTS
  imports TreeDelete
begin

text \<open>
  The index (\<^verbatim>\<open>database/src/storage/index/b_plus_tree_index_nts.cpp\<close>): one B+ tree with its
  database file and an entry count. The constructor opens the file or creates it, the destructor
  writes the counters into the header page and flushes every page.

  The file is the map from page numbers to page contents that the buffer pool maintains. A file
  with no page 0 is the empty file, on which \<^verbatim>\<open>ReadPage\<close> throws \<^verbatim>\<open>read_less_then_a_page\<close>.

  \<open>ordered_index\<close> is the contract the handlers of the back end rely on; it is interpreted for the
  key types of the program. \<open>table\<close> is the abstract index, the rows in key order and the count,
  and the simulation lemmas say that the index implements it.
\<close>

section \<open>The index\<close>

type_synonym ('k, 'v) db_file = "int \<Rightarrow> ('k, 'v) page option"

record ('k, 'v) index_nts =
  index_tree :: "('k, 'v) bpt"
  index_size :: int

text \<open>
  The first run: page 0 is created with the three records of the header. The member \<^verbatim>\<open>size_\<close> is
  not assigned on this path, so its value is whatever the memory held (\<open>uninit\<close>).
\<close>

definition fresh_header :: "header_records option" where
  "fresh_header =
     do { (b1, r1) \<leftarrow> HeaderPage_InsertRecord ''index'' (-1) [];
          (b2, r2) \<leftarrow> HeaderPage_InsertRecord ''page_amount'' 1 r1;
          (b3, r3) \<leftarrow> HeaderPage_InsertRecord ''size'' 0 r2;
          Some r3 }"

text \<open>The constructor of the tree looks its root up in the header page.\<close>

definition BPlusTree_open ::
    "('k \<Rightarrow> 'k \<Rightarrow> int) \<Rightarrow> int \<Rightarrow> int \<Rightarrow> 'k \<Rightarrow> ('k, 'v) db_file \<Rightarrow> header_records \<Rightarrow> int \<Rightarrow>
     ('k, 'v) bpt option" where
  "BPlusTree_open cmp leaf_max internal_max zero file recs next =
     do { found \<leftarrow> HeaderPage_SearchRecord ''index'' recs;
          Some \<lparr>index_name = ''index'',
                root_page_id = (case found of None \<Rightarrow> INVALID_PAGE_ID | Some r \<Rightarrow> r),
                comparator = cmp, leaf_max_size = leaf_max, internal_max_size = internal_max,
                zero_key = zero, pages = file, pins = (\<lambda>_. 0)(HEADER_PAGE_ID := 1),
                disk_next = next\<rparr> }"

definition BPlusTreeIndexNTS_open ::
    "('k \<Rightarrow> 'k \<Rightarrow> int) \<Rightarrow> int \<Rightarrow> int \<Rightarrow> 'k \<Rightarrow> int \<Rightarrow> ('k, 'v) db_file \<Rightarrow> ('k, 'v) index_nts option" where
  "BPlusTreeIndexNTS_open cmp leaf_max internal_max zero uninit file =
     (case file HEADER_PAGE_ID of
        None \<Rightarrow>
          do { recs \<leftarrow> fresh_header;
               t \<leftarrow> BPlusTree_open cmp leaf_max internal_max zero
                     (\<lambda>p. if p = HEADER_PAGE_ID then Some (HeaderNode recs) else None) recs 1;
               Some \<lparr>index_tree = t, index_size = uninit\<rparr> }
      | Some (HeaderNode recs) \<Rightarrow>
          do { page_amount \<leftarrow> HeaderPage_SearchRecord ''page_amount'' recs;
               next \<leftarrow> page_amount;
               size_rec \<leftarrow> HeaderPage_SearchRecord ''size'' recs;
               sz \<leftarrow> size_rec;
               t \<leftarrow> BPlusTree_open cmp leaf_max internal_max zero file recs next;
               Some \<lparr>index_tree = t, index_size = sz\<rparr> }
      | Some _ \<Rightarrow> None)"

definition BPlusTreeIndexNTS_close :: "('k, 'v) index_nts \<Rightarrow> ('k, 'v) db_file option" where
  "BPlusTreeIndexNTS_close ix =
     (case pages (index_tree ix) HEADER_PAGE_ID of
        Some (HeaderNode recs) \<Rightarrow>
          do { (b1, r1) \<leftarrow> HeaderPage_UpdateRecord ''page_amount'' (disk_next (index_tree ix)) recs;
               (b2, r2) \<leftarrow> HeaderPage_UpdateRecord ''size'' (index_size ix) r1;
               Some ((pages (index_tree ix))(HEADER_PAGE_ID \<mapsto> HeaderNode r2)) }
      | _ \<Rightarrow> None)"

definition BPlusTreeIndexNTS_IsEmpty :: "('k, 'v) index_nts \<Rightarrow> bool" where
  "BPlusTreeIndexNTS_IsEmpty ix = BPlusTree_IsEmpty (index_tree ix)"

definition InsertEntry :: "'k \<Rightarrow> 'v \<Rightarrow> ('k, 'v) index_nts \<Rightarrow> ('k, 'v) index_nts option" where
  "InsertEntry key value ix =
     do { (b, t) \<leftarrow> BPlusTree_Insert key value (index_tree ix);
          Some \<lparr>index_tree = t, index_size = index_size ix + of_bool b\<rparr> }"

definition DeleteEntry :: "'k \<Rightarrow> ('k, 'v) index_nts \<Rightarrow> ('k, 'v) index_nts option" where
  "DeleteEntry key ix =
     do { (b, t) \<leftarrow> BPlusTree_Remove key (index_tree ix);
          Some \<lparr>index_tree = t, index_size = index_size ix - of_bool b\<rparr> }"

definition ScanKey ::
    "'k \<Rightarrow> ('k \<Rightarrow> 'k \<Rightarrow> int) \<Rightarrow> ('k, 'v) index_nts \<Rightarrow> ('v list \<times> ('k, 'v) index_nts) option" where
  "ScanKey key standby_cmp ix =
     do { (result, t) \<leftarrow> BPlusTree_ScanValue key standby_cmp (index_tree ix);
          Some (result, ix\<lparr>index_tree := t\<rparr>) }"

definition SearchKey :: "'k \<Rightarrow> ('k, 'v) index_nts \<Rightarrow> ('v list \<times> ('k, 'v) index_nts) option" where
  "SearchKey key ix =
     do { (result, t) \<leftarrow> BPlusTree_GetValue key (index_tree ix);
          Some (result, ix\<lparr>index_tree := t\<rparr>) }"

text \<open>\<^verbatim>\<open>Clear\<close> truncates the file and rebuilds the header; the member \<^verbatim>\<open>size_\<close> keeps its value.\<close>

definition BPlusTreeIndexNTS_Clear :: "('k, 'v) index_nts \<Rightarrow> ('k, 'v) index_nts option" where
  "BPlusTreeIndexNTS_Clear ix =
     do { recs \<leftarrow> fresh_header;
          t \<leftarrow> BPlusTree_open (comparator (index_tree ix)) (leaf_max_size (index_tree ix))
                (internal_max_size (index_tree ix)) (zero_key (index_tree ix))
                (\<lambda>p. if p = HEADER_PAGE_ID then Some (HeaderNode recs) else None) recs 1;
          Some \<lparr>index_tree = t, index_size = index_size ix\<rparr> }"

definition Size :: "('k, 'v) index_nts \<Rightarrow> int" where
  "Size ix = index_size ix"

section \<open>The contract of an index\<close>

datatype ('k, 'v) index_op = Ins 'k 'v | Del 'k

fun op_rows :: "('k \<Rightarrow> 'k \<Rightarrow> int) \<Rightarrow> ('k, 'v) index_op \<Rightarrow> ('k \<times> 'v) list \<Rightarrow> ('k \<times> 'v) list" where
  "op_rows cmp (Ins k v) es = al_insert cmp k v es"
| "op_rows cmp (Del k) es = al_delete cmp k es"

fun op_map :: "('k, 'v) index_op \<Rightarrow> ('k \<rightharpoonup> 'v) \<Rightarrow> ('k \<rightharpoonup> 'v)" where
  "op_map (Ins k v) m = m(k \<mapsto> v)"
| "op_map (Del k) m = m(k := None)"

fun run_op ::
    "('k \<Rightarrow> 'v \<Rightarrow> 's \<Rightarrow> 's option) \<Rightarrow> ('k \<Rightarrow> 's \<Rightarrow> 's option) \<Rightarrow> ('k, 'v) index_op \<Rightarrow> 's \<Rightarrow> 's option" where
  "run_op ins del (Ins k v) s = ins k v s"
| "run_op ins del (Del k) s = del k s"

fun run_ops ::
    "('k \<Rightarrow> 'v \<Rightarrow> 's \<Rightarrow> 's option) \<Rightarrow> ('k \<Rightarrow> 's \<Rightarrow> 's option) \<Rightarrow> ('k, 'v) index_op list \<Rightarrow> 's \<Rightarrow> 's option" where
  "run_ops ins del [] s = Some s"
| "run_ops ins del (x # xs) s = do { s' \<leftarrow> run_op ins del x s; run_ops ins del xs s' }"

locale ordered_index = key_comparator cmp
  for cmp :: "'k \<Rightarrow> 'k \<Rightarrow> int" +
  fixes ins :: "'k \<Rightarrow> 'v \<Rightarrow> 's \<Rightarrow> 's option"
    and del :: "'k \<Rightarrow> 's \<Rightarrow> 's option"
    and search :: "'k \<Rightarrow> 's \<Rightarrow> ('v list \<times> 's) option"
    and scan :: "'k \<Rightarrow> ('k \<Rightarrow> 'k \<Rightarrow> int) \<Rightarrow> 's \<Rightarrow> ('v list \<times> 's) option"
    and rel :: "'s \<Rightarrow> ('k \<times> 'v) list \<Rightarrow> bool"
  assumes rel_sorted: "rel s es \<Longrightarrow> sorted_keys cmp es"
    and ins_rel: "rel s es \<Longrightarrow> \<exists>s'. ins k v s = Some s' \<and> rel s' (al_insert cmp k v es)"
    and del_rel: "rel s es \<Longrightarrow> \<exists>s'. del k s = Some s' \<and> rel s' (al_delete cmp k es)"
    and search_rel: "rel s es \<Longrightarrow>
      search k s = Some (case map_of es k of None \<Rightarrow> [] | Some v \<Rightarrow> [v], s)"
    and scan_rel: "rel s es \<Longrightarrow> scan k scmp s = Some (al_scan cmp scmp k es, s)"
begin

lemma run_op_rel: "rel s es \<Longrightarrow> \<exists>s'. run_op ins del x s = Some s' \<and> rel s' (op_rows cmp x es)"
  using ins_rel del_rel by (cases x) auto

lemma map_of_op_rows: "map_of (op_rows cmp x es) = op_map x (map_of es)"
  by (cases x) (simp_all add: map_of_al_insert map_of_al_delete)

lemma run_ops_rel:
  "rel s es \<Longrightarrow> \<exists>s'. run_ops ins del xs s = Some s' \<and> rel s' (fold (op_rows cmp) xs es)"
proof (induction xs arbitrary: s es)
  case (Cons x xs)
  obtain s' where "run_op ins del x s = Some s'" "rel s' (op_rows cmp x es)" using run_op_rel [OF Cons.prems] by blast
  then show ?case using Cons.IH by auto
qed simp

lemma map_of_fold_rows: "map_of (fold (op_rows cmp) xs es) = fold op_map xs (map_of es)"
  by (induction xs arbitrary: es) (simp_all add: map_of_op_rows)

text \<open>After any sequence of updates the index answers like the finite map that was updated.\<close>

lemma run_ops_search:
  assumes "rel s es"
  shows "\<exists>s'. run_ops ins del xs s = Some s' \<and>
     (\<forall>k. search k s' = Some (case fold op_map xs (map_of es) k of None \<Rightarrow> [] | Some v \<Rightarrow> [v], s'))"
  using run_ops_rel [OF assms, of xs] search_rel by (metis map_of_fold_rows)

end

section \<open>The index keeps the contract\<close>

text \<open>
  The header page also has the records of the two counters; \<^verbatim>\<open>Clear\<close> and the constructor make
  them and no operation drops them.
\<close>

definition counters_ok :: "('k, 'v) bpt \<Rightarrow> bool" where
  "counters_ok t \<longleftrightarrow> index_name t = ''index'' \<and>
     (\<exists>recs. pages t HEADER_PAGE_ID = Some (HeaderNode recs) \<and>
             map_of recs ''page_amount'' \<noteq> None \<and> map_of recs ''size'' \<noteq> None)"

lemma evolves_counters: "evolves t t' \<Longrightarrow> counters_ok t \<Longrightarrow> counters_ok t'"
  unfolding evolves_def counters_ok_def by (elim conjE exE) (auto dest: spec)

definition index_rel :: "('k \<Rightarrow> 'k \<Rightarrow> int) \<Rightarrow> ('k, 'v) index_nts \<Rightarrow> ('k \<times> 'v) list \<Rightarrow> bool" where
  "index_rel cmp ix es \<longleftrightarrow> holds (index_tree ix) es \<and> comparator (index_tree ix) = cmp \<and>
     counters_ok (index_tree ix)"

context key_comparator
begin

lemma InsertEntry_ok:
  assumes "index_rel cmp ix es"
  shows "\<exists>ix'. InsertEntry k v ix = Some ix' \<and> index_rel cmp ix' (al_insert cmp k v es) \<and>
     evolves (index_tree ix) (index_tree ix') \<and> pins (index_tree ix') = pins (index_tree ix) \<and>
     index_size ix' - index_size ix = int (length (al_insert cmp k v es)) - int (length es)"
proof -
  have h: "holds (index_tree ix) es" "comparator (index_tree ix) = cmp" and c: "counters_ok (index_tree ix)"
    using assms by (simp_all add: index_rel_def)
  obtain t where t: "BPlusTree_Insert k v (index_tree ix) = Some (k \<notin> fst ` set es, t)"
    "holds t (al_insert cmp k v es)" "evolves (index_tree ix) t" "pins t = pins (index_tree ix)"
    using Insert_ok [OF h] by blast
  then show ?thesis
    using length_al_insert [OF holds_sorted [OF h], of k v] h(2) evolves_fields(2) [OF t(3)]
      evolves_counters [OF t(3) c]
    by (auto simp: InsertEntry_def index_rel_def)
qed

lemma DeleteEntry_ok:
  assumes "index_rel cmp ix es"
  shows "\<exists>ix'. DeleteEntry k ix = Some ix' \<and> index_rel cmp ix' (al_delete cmp k es) \<and>
     evolves (index_tree ix) (index_tree ix') \<and> pins (index_tree ix') = pins (index_tree ix) \<and>
     index_size ix' - index_size ix = int (length (al_delete cmp k es)) - int (length es)"
proof -
  have h: "holds (index_tree ix) es" "comparator (index_tree ix) = cmp" and c: "counters_ok (index_tree ix)"
    using assms by (simp_all add: index_rel_def)
  obtain t where t: "BPlusTree_Remove k (index_tree ix) = Some (k \<in> fst ` set es, t)"
    "holds t (al_delete cmp k es)" "evolves (index_tree ix) t" "pins t = pins (index_tree ix)"
    using Remove_ok [OF h] by blast
  have "int (length es - 1) = int (length es) - 1" if "k \<in> fst ` set es"
    using that by (cases es) auto
  with t show ?thesis
    using length_al_delete [OF holds_sorted [OF h], of k] h(2) evolves_fields(2) [OF t(3)]
      evolves_counters [OF t(3) c]
    by (auto simp: DeleteEntry_def index_rel_def)
qed

lemma SearchKey_ok:
  "index_rel cmp ix es \<Longrightarrow> SearchKey k ix = Some (case map_of es k of None \<Rightarrow> [] | Some v \<Rightarrow> [v], ix)"
  using GetValue_ok [of "index_tree ix" es k] by (simp add: SearchKey_def index_rel_def)

lemma ScanKey_ok: "index_rel cmp ix es \<Longrightarrow> ScanKey k scmp ix = Some (al_scan cmp scmp k es, ix)"
  using ScanValue_ok [of "index_tree ix" es k scmp] by (simp add: ScanKey_def index_rel_def)

lemma index_rel_sorted: "index_rel cmp ix es \<Longrightarrow> sorted_keys cmp es"
  using holds_sorted by (auto simp: index_rel_def)

lemma ordered_index_nts:
  "ordered_index cmp (InsertEntry :: 'k \<Rightarrow> 'v \<Rightarrow> ('k, 'v) index_nts \<Rightarrow> _) DeleteEntry SearchKey ScanKey
     (index_rel cmp)"
proof unfold_locales
  fix s :: "('k, 'v) index_nts" and es k v scmp
  assume r: "index_rel cmp s es"
  show "sorted_keys cmp es" using r by (rule index_rel_sorted)
  show "\<exists>s'. InsertEntry k v s = Some s' \<and> index_rel cmp s' (al_insert cmp k v es)"
    using InsertEntry_ok [OF r, of k v] by blast
  show "\<exists>s'. DeleteEntry k s = Some s' \<and> index_rel cmp s' (al_delete cmp k es)"
    using DeleteEntry_ok [OF r, of k] by blast
  show "SearchKey k s = Some (case map_of es k of None \<Rightarrow> [] | Some v \<Rightarrow> [v], s)" using r by (rule SearchKey_ok)
  show "ScanKey k scmp s = Some (al_scan cmp scmp k es, s)" using r by (rule ScanKey_ok)
qed

end

interpretation string_index: ordered_index StringComparator InsertEntry DeleteEntry SearchKey ScanKey
    "index_rel StringComparator"
  by (rule string_key.ordered_index_nts)

interpretation string_any_index: ordered_index "StringAnyComparator 3" InsertEntry DeleteEntry SearchKey
    ScanKey "index_rel (StringAnyComparator 3)"
  by (rule string_any_key.ordered_index_nts)

interpretation dual_string_index: ordered_index "DualStringComparator 2" InsertEntry DeleteEntry SearchKey
    ScanKey "index_rel (DualStringComparator 2)"
  by (rule dual_string_key.ordered_index_nts)

interpretation string_int_int_index: ordered_index "StringIntIntComparator 2" InsertEntry DeleteEntry
    SearchKey ScanKey "index_rel (StringIntIntComparator 2)"
  by (rule string_int_int_key.ordered_index_nts)

section \<open>Opening, closing and clearing\<close>

lemma fresh_header_eq: "fresh_header = Some [(''index'', -1), (''page_amount'', 1), (''size'', 0)]"
  by (simp add: fresh_header_def HeaderPage_InsertRecord_map)

lemma open_fresh_rel:
  assumes "2 \<le> lm" and "4 \<le> im"
    and "BPlusTree_open cmp lm im z (\<lambda>p. if p = HEADER_PAGE_ID then Some (HeaderNode recs) else None) recs 1 = Some t"
    and "recs = [(''index'', -1), (''page_amount'', 1), (''size'', 0)]"
  shows "index_rel cmp \<lparr>index_tree = t, index_size = n\<rparr> []"
  using assms
  by (auto simp: BPlusTree_open_def HeaderPage_SearchRecord_map index_rel_def holds_def sizes_ok_def
      header_ok_def alloc_ok_def counters_ok_def)

lemma open_fresh:
  fixes cmp :: "'k \<Rightarrow> 'k \<Rightarrow> int"
  assumes "2 \<le> lm" and "4 \<le> im"
  obtains ix :: "('k, 'v) index_nts" where "BPlusTreeIndexNTS_open cmp lm im z uninit (\<lambda>p. None) = Some ix" "index_rel cmp ix []"
    "index_size ix = uninit"
proof -
  let ?recs = "[(''index'', -1), (''page_amount'', 1), (''size'', 0)]"
  obtain t :: "('k, 'v) bpt" where t: "BPlusTree_open cmp lm im z
      (\<lambda>p. if p = HEADER_PAGE_ID then Some (HeaderNode ?recs) else None) ?recs 1 = Some t"
    by (auto simp: BPlusTree_open_def HeaderPage_SearchRecord_map)
  then show thesis
    using that [of "\<lparr>index_tree = t, index_size = uninit\<rparr>"] open_fresh_rel [OF assms t refl]
    by (simp add: BPlusTreeIndexNTS_open_def fresh_header_eq)
qed

lemma stored_reopen:
  assumes "stored t [] [g]" and "\<And>p. p \<noteq> HEADER_PAGE_ID \<Longrightarrow> pages t' p = pages t p"
    and "leaf_max_size t' = leaf_max_size t" "internal_max_size t' = internal_max_size t"
    and "root_page_id t' = root_page_id t" "disk_next t' = disk_next t" and "header_ok t'" "alloc_ok t'"
  shows "stored t' [] [g]"
proof (rule storedI)
  note st = storedD [OF assms(1)]
  have z: "0 \<notin> set (pids g)" using st(4) [of 0] by auto
  then have same: "\<forall>p \<in> set (pids g). pages t' p = pages t p" using assms(2) by (metis (full_types))
  show "rep_st t' (ctx_parent []) s" if "s \<in> set [g]" for s
    using that st(1) [of g] rep_cong [OF same] assms(3,4) by simp
  have "\<forall>p \<in> set (leaf_ids g). next_of (pages t') p = next_of (pages t) p"
    using same leaf_ids_subset [of g] by (auto simp: next_of_def)
  then show "chain (pages t') (ctx_left_ids [] @ concat (map leaf_ids [g]) @ ctx_right_ids []) INVALID_PAGE_ID"
    using st(5) chain_cong [of "leaf_ids g" "pages t'" "pages t"] by simp
  show "distinct (pids_all [g] @ ctx_pids [])" using st(3) by simp
  show "0 < p \<and> p < disk_next t'" if "p \<in> set (pids_all [g] @ ctx_pids [])" for p
    using st(4) [of p] that assms(6) by simp
  show "root_page_id t' = root_of (plug [] (hd [g]))" using st(6) assms(5) by simp
qed (use assms(7,8) in auto)

lemma holds_reopen:
  assumes "holds t es" and "\<And>p. p \<noteq> HEADER_PAGE_ID \<Longrightarrow> pages t' p = pages t p"
    and "leaf_max_size t' = leaf_max_size t" "internal_max_size t' = internal_max_size t"
    and "root_page_id t' = root_page_id t" "disk_next t' = disk_next t" and "comparator t' = comparator t"
    and "header_ok t'" "alloc_ok t'"
  shows "holds t' es"
  using assms(1) stored_reopen [of t _ t'] assms(2-9)
  by (auto simp: holds_def tree_inv_def sizes_ok_def)

lemma holds_header_root:
  assumes "holds t es"
  shows "\<exists>recs. pages t HEADER_PAGE_ID = Some (HeaderNode recs) \<and> map_of recs (index_name t) = Some (root_page_id t)"
    "0 < disk_next t"
  using assms by (auto simp: holds_def tree_inv_def stored_def header_ok_def alloc_ok_def)

lemma close_open:
  assumes "index_rel cmp ix es" and "lm = leaf_max_size (index_tree ix)" "im = internal_max_size (index_tree ix)"
  shows "\<exists>file ix'. BPlusTreeIndexNTS_close ix = Some file \<and>
     BPlusTreeIndexNTS_open cmp lm im z uninit file = Some ix' \<and> index_rel cmp ix' es \<and> index_size ix' = index_size ix"
proof -
  let ?t = "index_tree ix"
  have h: "holds ?t es" "comparator ?t = cmp" "counters_ok ?t" using assms(1) by (simp_all add: index_rel_def)
  obtain recs where recs: "pages ?t 0 = Some (HeaderNode recs)" "map_of recs ''index'' = Some (root_page_id ?t)"
    "map_of recs ''page_amount'' \<noteq> None" "map_of recs ''size'' \<noteq> None" "index_name ?t = ''index''"
    using h(3) holds_header_root(1) [OF h(1)] by (auto simp: counters_ok_def)
  obtain r1 where r1: "HeaderPage_UpdateRecord ''page_amount'' (disk_next ?t) recs = Some (True, r1)"
    "map_of r1 = (map_of recs)(''page_amount'' \<mapsto> disk_next ?t)"
    using HeaderPage_UpdateRecord_map [of "''page_amount''" "disk_next ?t" recs] recs(3) by auto
  obtain r2 where r2: "HeaderPage_UpdateRecord ''size'' (index_size ix) r1 = Some (True, r2)"
    "map_of r2 = (map_of r1)(''size'' \<mapsto> index_size ix)"
    using HeaderPage_UpdateRecord_map [of "''size''" "index_size ix" r1] recs(4) r1(2) by auto
  let ?file = "(pages ?t)(HEADER_PAGE_ID \<mapsto> HeaderNode r2)"
  have close: "BPlusTreeIndexNTS_close ix = Some ?file"
    using recs(1) r1(1) r2(1) by (simp add: BPlusTreeIndexNTS_close_def)
  let ?t' = "\<lparr>index_name = ''index'', root_page_id = root_page_id ?t, comparator = cmp, leaf_max_size = lm,
     internal_max_size = im, zero_key = z, pages = ?file, pins = (\<lambda>_. 0)(HEADER_PAGE_ID := 1), disk_next = disk_next ?t\<rparr>"
  have m: "map_of r2 ''index'' = Some (root_page_id ?t)" "map_of r2 ''page_amount'' = Some (disk_next ?t)"
    "map_of r2 ''size'' = Some (index_size ix)"
    using r1(2) r2(2) recs(2) by simp_all
  then have ne: "r2 \<noteq> []" by auto
  have "BPlusTreeIndexNTS_open cmp lm im z uninit ?file = Some \<lparr>index_tree = ?t', index_size = index_size ix\<rparr>"
    using m ne by (simp add: BPlusTreeIndexNTS_open_def BPlusTree_open_def HeaderPage_SearchRecord_map)
  moreover have "holds ?t' es"
    using holds_header_root(2) [OF h(1)] m(1) h(2) assms(2,3)
    by (intro holds_reopen [OF h(1)]) (auto simp: header_ok_def alloc_ok_def)
  then have "index_rel cmp \<lparr>index_tree = ?t', index_size = index_size ix\<rparr> es"
    using m by (simp add: index_rel_def counters_ok_def)
  ultimately show ?thesis using close by auto
qed

lemma Clear_ok:
  fixes ix :: "('k, 'v) index_nts"
  assumes "index_rel cmp ix es"
  shows "\<exists>ix'. BPlusTreeIndexNTS_Clear ix = Some ix' \<and> index_rel cmp ix' [] \<and> index_size ix' = index_size ix"
proof -
  let ?t = "index_tree ix" and ?recs = "[(''index'', -1), (''page_amount'', 1), (''size'', 0)]"
  have h: "2 \<le> leaf_max_size ?t" "4 \<le> internal_max_size ?t" "comparator ?t = cmp"
    using assms by (simp_all add: index_rel_def holds_def sizes_ok_def)
  obtain t :: "('k, 'v) bpt" where t: "BPlusTree_open cmp (leaf_max_size ?t) (internal_max_size ?t) (zero_key ?t)
      (\<lambda>p. if p = HEADER_PAGE_ID then Some (HeaderNode ?recs) else None) ?recs 1 = Some t"
    by (auto simp: BPlusTree_open_def HeaderPage_SearchRecord_map)
  then show ?thesis
    using open_fresh_rel [OF h(1,2) t refl] h(3) by (simp add: BPlusTreeIndexNTS_Clear_def fresh_header_eq)
qed

section \<open>The abstract index\<close>

record ('k, 'v) table =
  rows :: "('k \<times> 'v) list"
  count :: int

definition table_InsertEntry ::
    "('k \<Rightarrow> 'k \<Rightarrow> int) \<Rightarrow> 'k \<Rightarrow> 'v \<Rightarrow> ('k, 'v) table \<Rightarrow> ('k, 'v) table" where
  "table_InsertEntry cmp key value tb =
     \<lparr>rows = al_insert cmp key value (rows tb),
      count = count tb + of_bool (key \<notin> fst ` set (rows tb))\<rparr>"

definition table_DeleteEntry :: "('k \<Rightarrow> 'k \<Rightarrow> int) \<Rightarrow> 'k \<Rightarrow> ('k, 'v) table \<Rightarrow> ('k, 'v) table" where
  "table_DeleteEntry cmp key tb =
     \<lparr>rows = al_delete cmp key (rows tb),
      count = count tb - of_bool (key \<in> fst ` set (rows tb))\<rparr>"

definition table_SearchKey :: "'k \<Rightarrow> ('k, 'v) table \<Rightarrow> 'v list" where
  "table_SearchKey key tb = (case map_of (rows tb) key of None \<Rightarrow> [] | Some v \<Rightarrow> [v])"

definition table_ScanKey ::
    "('k \<Rightarrow> 'k \<Rightarrow> int) \<Rightarrow> 'k \<Rightarrow> ('k \<Rightarrow> 'k \<Rightarrow> int) \<Rightarrow> ('k, 'v) table \<Rightarrow> 'v list" where
  "table_ScanKey cmp key standby_cmp tb = al_scan cmp standby_cmp key (rows tb)"

definition table_Clear :: "('k, 'v) table \<Rightarrow> ('k, 'v) table" where
  "table_Clear tb = tb\<lparr>rows := []\<rparr>"

definition table_IsEmpty :: "('k, 'v) table \<Rightarrow> bool" where
  "table_IsEmpty tb \<longleftrightarrow> rows tb = []"

definition table_ok :: "('k \<Rightarrow> 'k \<Rightarrow> int) \<Rightarrow> ('k, 'v) table \<Rightarrow> bool" where
  "table_ok cmp tb \<longleftrightarrow> sorted_keys cmp (rows tb)"

abbreviation table_map :: "('k, 'v) table \<Rightarrow> 'k \<rightharpoonup> 'v" where
  "table_map tb \<equiv> map_of (rows tb)"

definition table_rel :: "('k \<Rightarrow> 'k \<Rightarrow> int) \<Rightarrow> ('k, 'v) index_nts \<Rightarrow> ('k, 'v) table \<Rightarrow> bool" where
  "table_rel cmp ix tb \<longleftrightarrow> index_rel cmp ix (rows tb) \<and> index_size ix = count tb"

lemma root_shape_entries:
  assumes "2 \<le> lm" "4 \<le> im" "root_shape lm im g"
  shows "entries g \<noteq> []"
proof -
  have "leaf_ids g \<noteq> []"
  proof (cases g)
    case (GNode p kts)
    then obtain kt h where "kt \<in> set kts" "shape lm im h (snd kt)" using assms(3) by (cases kts) auto
    then show ?thesis using shape_leaf_ids [of lm im h "snd kt"] assms(2) GNode by (auto simp: concat_eq_Nil_conv)
  qed simp
  then obtain q where q: "q \<in> set (leaves g)" by (cases "leaves g") (auto simp: leaf_ids_leaves)
  have "snd q \<noteq> []" using root_shape_leaves [OF assms(3,1), of "fst q" "snd q"] q by simp
  then show ?thesis using q unfolding entries_leaves by auto
qed

lemma holds_empty_root: "holds t es \<Longrightarrow> root_page_id t = INVALID_PAGE_ID \<longleftrightarrow> es = []"
  using root_shape_entries
  by (auto simp: holds_def tree_inv_def stored_def sizes_ok_def dest: bspec [OF _ root_in_pids])

context key_comparator
begin

lemma table_InsertEntry_sim:
  assumes "table_rel cmp ix tb"
  shows "\<exists>ix'. InsertEntry k v ix = Some ix' \<and> table_rel cmp ix' (table_InsertEntry cmp k v tb)"
proof -
  have r: "index_rel cmp ix (rows tb)" "index_size ix = count tb" using assms by (simp_all add: table_rel_def)
  obtain ix' where ix': "InsertEntry k v ix = Some ix'" "index_rel cmp ix' (al_insert cmp k v (rows tb))"
    "index_size ix' - index_size ix = int (length (al_insert cmp k v (rows tb))) - int (length (rows tb))"
    using InsertEntry_ok [OF r(1)] by blast
  then show ?thesis
    using r(2) length_al_insert [OF index_rel_sorted [OF r(1)], of k v]
    by (cases "k \<in> fst ` set (rows tb)") (simp_all add: table_rel_def table_InsertEntry_def)
qed

lemma table_DeleteEntry_sim:
  assumes "table_rel cmp ix tb"
  shows "\<exists>ix'. DeleteEntry k ix = Some ix' \<and> table_rel cmp ix' (table_DeleteEntry cmp k tb)"
proof -
  have r: "index_rel cmp ix (rows tb)" "index_size ix = count tb" using assms by (simp_all add: table_rel_def)
  obtain ix' where ix': "DeleteEntry k ix = Some ix'" "index_rel cmp ix' (al_delete cmp k (rows tb))"
    "index_size ix' - index_size ix = int (length (al_delete cmp k (rows tb))) - int (length (rows tb))"
    using DeleteEntry_ok [OF r(1)] by blast
  moreover have "int (length (rows tb) - 1) = int (length (rows tb)) - 1" if "k \<in> fst ` set (rows tb)"
    using that by (cases "rows tb") auto
  ultimately show ?thesis
    using r(2) length_al_delete [OF index_rel_sorted [OF r(1)], of k]
    by (cases "k \<in> fst ` set (rows tb)") (simp_all add: table_rel_def table_DeleteEntry_def)
qed

lemma table_map_insert [simp]:
  "table_map (table_InsertEntry cmp k v tb) = (table_map tb)(k \<mapsto> v)"
  by (simp add: table_InsertEntry_def map_of_al_insert)

lemma table_map_delete [simp]:
  "table_map (table_DeleteEntry cmp k tb) = (table_map tb)(k := None)"
  by (simp add: table_DeleteEntry_def map_of_al_delete)

lemma table_ok_insert [simp]: "table_ok cmp tb \<Longrightarrow> table_ok cmp (table_InsertEntry cmp k v tb)"
  by (simp add: table_ok_def table_InsertEntry_def sorted_keys_al_insert)

lemma table_ok_delete [simp]: "table_ok cmp tb \<Longrightarrow> table_ok cmp (table_DeleteEntry cmp k tb)"
  by (simp add: table_ok_def table_DeleteEntry_def sorted_keys_al_delete)

lemma table_rows_map: "table_ok cmp tb \<Longrightarrow> (k, v) \<in> set (rows tb) \<longleftrightarrow> table_map tb k = Some v"
  using sorted_keys_distinct [of "rows tb"] by (simp add: table_ok_def)

lemma table_IsEmpty_sim:
  assumes "table_rel cmp ix tb"
  shows "BPlusTreeIndexNTS_IsEmpty ix = table_IsEmpty tb"
proof -
  have h: "holds (index_tree ix) (rows tb)" using assms by (simp add: table_rel_def index_rel_def)
  have "root_page_id (index_tree ix) = INVALID_PAGE_ID \<longleftrightarrow> rows tb = []"
    using h holds_empty_root by blast
  then show ?thesis by (simp add: BPlusTreeIndexNTS_IsEmpty_def BPlusTree_IsEmpty_def table_IsEmpty_def)
qed

lemma table_search_sim:
  assumes "table_rel cmp ix tb"
  shows "SearchKey k ix = Some (table_SearchKey k tb, ix)" "ScanKey k scmp ix = Some (table_ScanKey cmp k scmp tb, ix)"
  using assms SearchKey_ok [of ix "rows tb" k] ScanKey_ok [of ix "rows tb" k scmp]
  by (simp_all add: table_rel_def table_SearchKey_def table_ScanKey_def)

end

lemma table_Clear_sim:
  assumes "table_rel cmp ix tb"
  shows "\<exists>ix'. BPlusTreeIndexNTS_Clear ix = Some ix' \<and> table_rel cmp ix' (table_Clear tb)"
  using assms Clear_ok [of cmp ix "rows tb"] by (auto simp: table_rel_def table_Clear_def)

text \<open>Sequences of operations, on the index and on the abstract one.\<close>

datatype ('k, 'v) table_op = TIns 'k 'v | TDel 'k | TClear

fun table_op_index :: "('k, 'v) table_op \<Rightarrow> ('k, 'v) index_nts \<Rightarrow> ('k, 'v) index_nts option" where
  "table_op_index (TIns k v) ix = InsertEntry k v ix"
| "table_op_index (TDel k) ix = DeleteEntry k ix"
| "table_op_index TClear ix = BPlusTreeIndexNTS_Clear ix"

fun table_op_step :: "('k \<Rightarrow> 'k \<Rightarrow> int) \<Rightarrow> ('k, 'v) table_op \<Rightarrow> ('k, 'v) table \<Rightarrow> ('k, 'v) table" where
  "table_op_step cmp (TIns k v) tb = table_InsertEntry cmp k v tb"
| "table_op_step cmp (TDel k) tb = table_DeleteEntry cmp k tb"
| "table_op_step cmp TClear tb = table_Clear tb"

fun run_table_ops_index ::
    "('k, 'v) table_op list \<Rightarrow> ('k, 'v) index_nts \<Rightarrow> ('k, 'v) index_nts option" where
  "run_table_ops_index [] ix = Some ix"
| "run_table_ops_index (x # xs) ix = do { ix' \<leftarrow> table_op_index x ix; run_table_ops_index xs ix' }"

fun run_table_ops :: "('k \<Rightarrow> 'k \<Rightarrow> int) \<Rightarrow> ('k, 'v) table_op list \<Rightarrow> ('k, 'v) table \<Rightarrow> ('k, 'v) table" where
  "run_table_ops cmp [] tb = tb"
| "run_table_ops cmp (x # xs) tb = run_table_ops cmp xs (table_op_step cmp x tb)"

context key_comparator
begin

lemma table_op_sim:
  assumes "table_rel cmp ix tb"
  shows "\<exists>ix'. table_op_index x ix = Some ix' \<and> table_rel cmp ix' (table_op_step cmp x tb)"
  using table_InsertEntry_sim [OF assms] table_DeleteEntry_sim [OF assms] table_Clear_sim [OF assms]
  by (cases x) simp_all

lemma run_table_ops_sim:
  "table_rel cmp ix tb \<Longrightarrow>
     \<exists>ix'. run_table_ops_index xs ix = Some ix' \<and> table_rel cmp ix' (run_table_ops cmp xs tb)"
proof (induction xs arbitrary: ix tb)
  case (Cons x xs)
  then show ?case using table_op_sim [OF Cons.prems, of x] by fastforce
qed simp

end

end
