(* ===== verification/TreeIterator.thy ===== *)
theory TreeIterator
  imports TreeSearch
begin

text \<open>
  The iterators over the non-thread-safe tree: \<^verbatim>\<open>IndexIterator\<close>
  (\<^verbatim>\<open>database/src/storage/index/index_iterator.cpp\<close>) and \<^verbatim>\<open>begin\<close>, \<^verbatim>\<open>Begin\<close> and \<^verbatim>\<open>end\<close> of the tree.
  An iterator keeps the leaf it stands on pinned. The pointer \<^verbatim>\<open>ptr_\<close> is the number of that
  page, with \<^verbatim>\<open>INVALID_PAGE_ID\<close> for \<^verbatim>\<open>nullptr\<close>.
\<close>

section \<open>Operations\<close>

record index_iter =
  iter_leaf :: int
  iter_slot :: int

definition iter_destroy :: "index_iter \<Rightarrow> ('k, 'v) bpt \<Rightarrow> ('k, 'v) bpt option" where
  "iter_destroy it t =
     (if iter_leaf it = INVALID_PAGE_ID then Some t
      else do { leaf \<leftarrow> get_leaf (iter_leaf it) t; Some (unpin_page (page_id leaf) t) })"

definition isEnd :: "index_iter \<Rightarrow> bool" where
  "isEnd it \<longleftrightarrow> iter_leaf it = INVALID_PAGE_ID"

definition iter_item :: "index_iter \<Rightarrow> ('k, 'v) bpt \<Rightarrow> ('k \<times> 'v) option" where
  "iter_item it t = do { leaf \<leftarrow> get_leaf (iter_leaf it) t; LeafPage_GetItem (iter_slot it) leaf }"

definition iter_advance :: "index_iter \<Rightarrow> ('k, 'v) bpt \<Rightarrow> (index_iter \<times> ('k, 'v) bpt) option" where
  "iter_advance it t =
     do { leaf \<leftarrow> get_leaf (iter_leaf it) t;
          let index = iter_slot it + 1;
          if index = LeafPage_GetSize leaf then do {
            let t1 = unpin_page (page_id leaf) t;
            if next_page_id leaf = INVALID_PAGE_ID
            then Some (\<lparr>iter_leaf = INVALID_PAGE_ID, iter_slot = 0\<rparr>, t1)
            else do {
              (next_page, t2) \<leftarrow> fetch_page (next_page_id leaf) t1;
              Some (\<lparr>iter_leaf = next_page_id leaf, iter_slot = 0\<rparr>, t2) } }
          else Some (it\<lparr>iter_slot := index\<rparr>, t) }"

definition iter_eq :: "index_iter \<Rightarrow> index_iter \<Rightarrow> bool" where
  "iter_eq it itr \<longleftrightarrow> iter_leaf it = iter_leaf itr \<and> iter_slot it = iter_slot itr"

definition iter_neq :: "index_iter \<Rightarrow> index_iter \<Rightarrow> bool" where
  "iter_neq it itr \<longleftrightarrow> iter_leaf it \<noteq> iter_leaf itr \<or> iter_slot it \<noteq> iter_slot itr"

text \<open>
  \<^verbatim>\<open>begin\<close> and \<^verbatim>\<open>Begin\<close> read the page \<^verbatim>\<open>FindLeafPage\<close> returns without a test, so that they fail on an
  empty tree. The key \<^verbatim>\<open>begin\<close> passes is not looked at.
\<close>

definition BPlusTree_begin :: "('k, 'v) bpt \<Rightarrow> (index_iter \<times> ('k, 'v) bpt) option" where
  "BPlusTree_begin t =
     do { (leaf_pid, t1) \<leftarrow> FindLeafPage (zero_key t) True False t;
          if leaf_pid = INVALID_PAGE_ID then None
          else Some (\<lparr>iter_leaf = leaf_pid, iter_slot = 0\<rparr>, t1) }"

definition BPlusTree_Begin :: "'k \<Rightarrow> ('k, 'v) bpt \<Rightarrow> (index_iter \<times> ('k, 'v) bpt) option" where
  "BPlusTree_Begin key t =
     do { (leaf_pid, t1) \<leftarrow> FindLeafPage key False False t;
          if leaf_pid = INVALID_PAGE_ID then None
          else do {
            leaf \<leftarrow> get_leaf leaf_pid t1;
            Some (\<lparr>iter_leaf = leaf_pid, iter_slot = LeafPage_KeyIndex (comparator t1) key leaf\<rparr>, t1) } }"

definition BPlusTree_end :: index_iter where
  "BPlusTree_end = \<lparr>iter_leaf = INVALID_PAGE_ID, iter_slot = 0\<rparr>"

section \<open>What an iterator promises\<close>

fun iterate :: "('i \<Rightarrow> 's \<Rightarrow> ('i \<times> 's) option) \<Rightarrow> nat \<Rightarrow> 'i \<Rightarrow> 's \<Rightarrow> ('i \<times> 's) option" where
  "iterate step 0 it s = Some (it, s)"
| "iterate step (Suc n) it s = do { (it', s') \<leftarrow> step it s; iterate step n it' s' }"

text \<open>
  \<open>cursor it s xs\<close>: in the state \<open>s\<close> the iterator \<open>it\<close> has the items \<open>xs\<close> before it. The laws are
  those of a forward iterator that holds a resource: an item to read as long as there is one, a
  step to the next, equality with the end once there is none, and a destructor that gives back
  the state \<open>base\<close> from which the iteration started, wherever it stops.
\<close>

locale forward_iterator =
  fixes at_end :: "'i \<Rightarrow> bool" and item :: "'i \<Rightarrow> 's \<Rightarrow> 'e option"
    and advance :: "'i \<Rightarrow> 's \<Rightarrow> ('i \<times> 's) option" and destroy :: "'i \<Rightarrow> 's \<Rightarrow> 's option"
    and cursor :: "'i \<Rightarrow> 's \<Rightarrow> 'e list \<Rightarrow> bool" and base :: 's
  assumes end_law: "cursor it s [] \<Longrightarrow> at_end it"
    and item_law: "cursor it s (x # xs) \<Longrightarrow> \<not> at_end it \<and> item it s = Some x"
    and advance_law: "cursor it s (x # xs) \<Longrightarrow> \<exists>it' s'. advance it s = Some (it', s') \<and> cursor it' s' xs"
    and destroy_law: "cursor it s xs \<Longrightarrow> destroy it s = Some base"
begin

lemma iterate_cursor:
  "cursor it s xs \<Longrightarrow> n \<le> length xs \<Longrightarrow>
     \<exists>it' s'. iterate advance n it s = Some (it', s') \<and> cursor it' s' (drop n xs)"
proof (induction n arbitrary: it s xs)
  case (Suc n)
  then obtain x ys where xs: "xs = x # ys" by (cases xs) auto
  obtain it' s' where "advance it s = Some (it', s')" "cursor it' s' ys"
    using advance_law Suc.prems(1) by (metis xs)
  then show ?case using Suc.IH [of it' s' ys] Suc.prems(2) by (simp add: xs)
qed simp

lemma iterate_visits:
  assumes "cursor it s xs" and "n \<le> length xs"
  shows "\<exists>it' s'. iterate advance n it s = Some (it', s') \<and> (at_end it' \<longleftrightarrow> n = length xs) \<and>
     (n < length xs \<longrightarrow> item it' s' = Some (xs ! n)) \<and> destroy it' s' = Some base \<and> cursor it' s' (drop n xs)"
proof -
  obtain it' s' where r: "iterate advance n it s = Some (it', s')" "cursor it' s' (drop n xs)"
    using iterate_cursor [OF assms] by blast
  show ?thesis
  proof (cases "n = length xs")
    case True
    then show ?thesis using r end_law destroy_law by simp
  next
    case False
    then have "drop n xs = xs ! n # drop (Suc n) xs" using assms(2) by (simp add: Cons_nth_drop_Suc)
    then show ?thesis using r item_law [of it' s' "xs ! n"] destroy_law [OF r(2)] False by auto
  qed
qed

end

section \<open>The tree's iterators\<close>

text \<open>
  \<open>leaf_run st rest\<close>: the pages and contents \<open>rest\<close> are the leaves from some leaf on to the last.
\<close>

definition leaf_run :: "('k, 'v) bpt \<Rightarrow> (int \<times> ('k \<times> 'v) list) list \<Rightarrow> bool" where
  "leaf_run st rest \<longleftrightarrow> chain (pages st) (map fst rest) INVALID_PAGE_ID \<and>
     (\<forall>(q, qs) \<in> set rest. q \<noteq> INVALID_PAGE_ID \<and> qs \<noteq> [] \<and>
        (\<exists>l. pages st q = Some (LeafNode l) \<and> leaf_array l = qs \<and> page_id l = q))"

definition tree_cursor :: "('k, 'v) bpt \<Rightarrow> index_iter \<Rightarrow> ('k, 'v) bpt \<Rightarrow> ('k \<times> 'v) list \<Rightarrow> bool" where
  "tree_cursor st it s xs \<longleftrightarrow>
     it = BPlusTree_end \<and> s = st \<and> xs = [] \<or>
     (\<exists>p es rest i. leaf_run st ((p, es) # rest) \<and> i < length es \<and>
        it = \<lparr>iter_leaf = p, iter_slot = int i\<rparr> \<and> s = pin p st \<and>
        xs = drop i es @ concat (map snd rest))"

lemma tree_cursor_end: "tree_cursor st BPlusTree_end st []"
  by (simp add: tree_cursor_def)

lemma tree_cursor_leaf:
  "leaf_run st ((p, es) # rest) \<Longrightarrow> i < length es \<Longrightarrow>
     tree_cursor st \<lparr>iter_leaf = p, iter_slot = int i\<rparr> (pin p st) (drop i es @ concat (map snd rest))"
  by (auto simp: tree_cursor_def)

lemma leaf_run_leaf:
  assumes "leaf_run st ((p, es) # rest)"
  obtains l where "pages st p = Some (LeafNode l)" "leaf_array l = es" "page_id l = p" "p \<noteq> INVALID_PAGE_ID"
    "next_page_id l = (case rest of [] \<Rightarrow> INVALID_PAGE_ID | r # rs \<Rightarrow> fst r)" "leaf_run st rest"
proof -
  obtain l where l: "pages st p = Some (LeafNode l)" "leaf_array l = es" "page_id l = p" "p \<noteq> INVALID_PAGE_ID"
    using assms by (auto simp: leaf_run_def)
  moreover have "next_page_id l = (case rest of [] \<Rightarrow> INVALID_PAGE_ID | r # rs \<Rightarrow> fst r)"
    using assms l(1) by (auto simp: leaf_run_def next_of_def split: list.splits)
  moreover have "leaf_run st rest" using assms by (simp add: leaf_run_def)
  ultimately show thesis by (rule that)
qed

lemma iter_advance_leaf:
  assumes "leaf_run st ((p, es) # rest)" and "i < length es"
  shows "\<exists>it' s'. iter_advance \<lparr>iter_leaf = p, iter_slot = int i\<rparr> (pin p st) = Some (it', s') \<and>
     tree_cursor st it' s' (drop (Suc i) es @ concat (map snd rest))"
proof -
  obtain l where l: "pages st p = Some (LeafNode l)" "leaf_array l = es" "page_id l = p" "p \<noteq> INVALID_PAGE_ID"
    "next_page_id l = (case rest of [] \<Rightarrow> INVALID_PAGE_ID | r # rs \<Rightarrow> fst r)" "leaf_run st rest"
    using assms(1) by (rule leaf_run_leaf)
  consider "Suc i < length es" | "Suc i = length es" "rest = []" | q qs rs where "Suc i = length es" "rest = (q, qs) # rs"
    using assms(2) by (cases rest) force+
  then show ?thesis
  proof cases
    case 1
    then have "iter_advance \<lparr>iter_leaf = p, iter_slot = int i\<rparr> (pin p st) = Some (\<lparr>iter_leaf = p, iter_slot = int (Suc i)\<rparr>, pin p st)"
      using l by (simp add: iter_advance_def store_eqs LeafPage_GetSize_def)
    then show ?thesis using tree_cursor_leaf [OF assms(1) 1] by blast
  next
    case 2
    then have "iter_advance \<lparr>iter_leaf = p, iter_slot = int i\<rparr> (pin p st) = Some (BPlusTree_end, st)"
      using l by (auto simp: iter_advance_def store_eqs LeafPage_GetSize_def BPlusTree_end_def)
    then show ?thesis using tree_cursor_end [of st] 2 by simp
  next
    case 3
    obtain m where m: "pages st q = Some (LeafNode m)" "q \<noteq> INVALID_PAGE_ID"
      using l(6) unfolding 3(2) by (rule leaf_run_leaf)
    have "iter_advance \<lparr>iter_leaf = p, iter_slot = int i\<rparr> (pin p st) = Some (\<lparr>iter_leaf = q, iter_slot = 0\<rparr>, pin q st)"
      using l m 3 by (auto simp: iter_advance_def store_eqs LeafPage_GetSize_def)
    moreover have "qs \<noteq> []" using l(6) 3(2) by (simp add: leaf_run_def)
    ultimately show ?thesis using tree_cursor_leaf [of st q qs rs 0] l(6) 3 by simp
  qed
qed

lemma tree_cursor_Cons:
  assumes "tree_cursor st it s (x # xs)"
  obtains p es rest i where "leaf_run st ((p, es) # rest)" "i < length es" "it = \<lparr>iter_leaf = p, iter_slot = int i\<rparr>"
    "s = pin p st" "x = es ! i" "xs = drop (Suc i) es @ concat (map snd rest)"
proof -
  obtain p es rest i where c: "leaf_run st ((p, es) # rest)" "i < length es" "it = \<lparr>iter_leaf = p, iter_slot = int i\<rparr>"
    "s = pin p st" "x # xs = drop i es @ concat (map snd rest)"
    using assms by (auto simp: tree_cursor_def)
  then show thesis using that [OF c(1-4)] Cons_nth_drop_Suc [OF c(2)] by (metis append_Cons list.inject)
qed

interpretation tree_iter: forward_iterator isEnd iter_item iter_advance iter_destroy "tree_cursor st" st for st
proof
  fix it s and x :: "'a \<times> 'b" and xs
  show "isEnd it" if "tree_cursor st it s []"
    using that by (auto simp: tree_cursor_def isEnd_def BPlusTree_end_def)
  show "\<not> isEnd it \<and> iter_item it s = Some x" if "tree_cursor st it s (x # xs)"
    using that
  proof (rule tree_cursor_Cons)
    fix p es rest i assume c: "leaf_run st ((p, es) # rest)" "i < length es" "it = \<lparr>iter_leaf = p, iter_slot = int i\<rparr>"
      "s = pin p st" "x = es ! i"
    show ?thesis using c(1)
      by (rule leaf_run_leaf) (use c in \<open>simp add: isEnd_def iter_item_def store_eqs LeafPage_GetItem_def\<close>)
  qed
  show "\<exists>it' s'. iter_advance it s = Some (it', s') \<and> tree_cursor st it' s' xs" if "tree_cursor st it s (x # xs)"
    using that by (rule tree_cursor_Cons) (simp add: iter_advance_leaf)
  show "iter_destroy it s = Some st" if "tree_cursor st it s xs"
    using that
    by (auto simp: tree_cursor_def iter_destroy_def BPlusTree_end_def store_eqs elim: leaf_run_leaf)
qed

text \<open>
  \<open>visits st it s xs\<close>: the loop of increments from \<open>it\<close> meets the items \<open>xs\<close> in turn, both tests
  for the end, \<^verbatim>\<open>isEnd\<close> and the comparison with \<^verbatim>\<open>end()\<close>, stop it after the last one, and the
  destructor leaves the tree as it was in \<open>st\<close>, its pins included, after any number of steps.
\<close>

definition visits :: "('k, 'v) bpt \<Rightarrow> index_iter \<Rightarrow> ('k, 'v) bpt \<Rightarrow> ('k \<times> 'v) list \<Rightarrow> bool" where
  "visits st it s xs \<longleftrightarrow>
     (\<forall>n \<le> length xs. \<exists>it' s'. iterate iter_advance n it s = Some (it', s') \<and>
        (isEnd it' \<longleftrightarrow> n = length xs) \<and> (iter_neq it' BPlusTree_end \<longleftrightarrow> n < length xs) \<and>
        (n < length xs \<longrightarrow> iter_item it' s' = Some (xs ! n)) \<and> iter_destroy it' s' = Some st)"

lemma tree_cursor_neq_end: "tree_cursor st it s xs \<Longrightarrow> iter_neq it BPlusTree_end \<longleftrightarrow> \<not> isEnd it"
  by (auto simp: tree_cursor_def iter_neq_def isEnd_def BPlusTree_end_def elim: leaf_run_leaf)

lemma tree_cursor_visits:
  assumes "tree_cursor st it s xs"
  shows "visits st it s xs"
  unfolding visits_def
proof (intro allI impI)
  fix n assume n: "n \<le> length xs"
  obtain it' s' where "iterate iter_advance n it s = Some (it', s')" "isEnd it' \<longleftrightarrow> n = length xs"
    "n < length xs \<longrightarrow> iter_item it' s' = Some (xs ! n)" "iter_destroy it' s' = Some st"
    "tree_cursor st it' s' (drop n xs)"
    using tree_iter.iterate_visits [OF assms n] by blast
  then show "\<exists>it' s'. iterate iter_advance n it s = Some (it', s') \<and> (isEnd it' \<longleftrightarrow> n = length xs) \<and>
      (iter_neq it' BPlusTree_end \<longleftrightarrow> n < length xs) \<and> (n < length xs \<longrightarrow> iter_item it' s' = Some (xs ! n)) \<and>
      iter_destroy it' s' = Some st"
    using tree_cursor_neq_end n by (metis le_neq_implies_less less_irrefl)
qed

section \<open>Where an iteration starts\<close>

lemma rep_leaves_page:
  "rep pg lm im par t \<Longrightarrow> (p, es) \<in> set (leaves t) \<Longrightarrow>
     \<exists>l. pg p = Some (LeafNode l) \<and> leaf_array l = es \<and> page_id l = p"
  by (induction t arbitrary: par rule: leaves.induct) auto

lemma tree_inv_leaf_run:
  assumes "tree_inv st g" and "sizes_ok st" and "leaves g = xs @ ys"
  shows "leaf_run st ys"
proof -
  have "chain (pages st) (map fst ys) INVALID_PAGE_ID"
    using assms(1) by (simp add: tree_inv_def stored_def leaf_ids_leaves assms(3) chain_append)
  moreover have "q \<noteq> INVALID_PAGE_ID \<and> qs \<noteq> [] \<and> (\<exists>l. pages st q = Some (LeafNode l) \<and> leaf_array l = qs \<and> page_id l = q)"
    if "(q, qs) \<in> set ys" for q qs
  proof -
    have m: "(q, qs) \<in> set (leaves g)" using that by (simp add: assms(3))
    then have "q \<in> set (pids g)" using leaf_ids_subset [of g] by (force simp: leaf_ids_leaves)
    then show ?thesis
      using assms(1,2) root_shape_leaves [OF _ _ m] rep_leaves_page [OF _ m]
      by (auto simp: tree_inv_def stored_def sizes_ok_def)
  qed
  ultimately show ?thesis by (auto simp: leaf_run_def)
qed

lemma ordered_first_child:
  assumes "ordered cmp lo hi (GNode p kts)"
  obtains k t kts' hi' where "kts = (k, t) # kts'" "ordered cmp lo hi' t"
proof (cases kts)
  case (Cons kt kts')
  have "\<exists>hi'. ordered cmp lo hi' (snd kt)" using assms by (cases kts') (auto simp: Cons)
  then show thesis using that [of "fst kt" "snd kt" kts'] Cons by auto
qed (use assms in simp)

lemma leaves_not_Nil: "ordered cmp lo hi t \<Longrightarrow> leaves t \<noteq> []"
proof (induction t arbitrary: lo hi rule: leaves.induct)
  case (2 p kts)
  obtain k t kts' hi' where "kts = (k, t) # kts'" "ordered cmp lo hi' t"
    using "2.prems" by (rule ordered_first_child)
  then show ?case using "2.IH" [of "(k, t)" lo hi'] by simp
qed simp

lemma FindLeafPage_loop_leftmost:
  assumes "rep_st st par (GNode p kts)" and "ordered cmp lo hi (GNode p kts)"
  shows "FindLeafPage_loop key True False p (pin p st)
     = Some (fst (hd (leaves (GNode p kts))), pin (fst (hd (leaves (GNode p kts)))) st)"
  using assms
proof (induction "size (GNode p kts)" arbitrary: par p kts lo hi rule: less_induct)
  case less
  obtain k t kts' hi' where kts: "kts = (k, t) # kts'" and ord: "ordered cmp lo hi' t"
    using less.prems(2) by (rule ordered_first_child)
  obtain node where node: "pages st p = Some (InternalNode node)" "internal_array node = child_slots kts"
    using less.prems(1) by auto
  have first: "InternalPage_ValueAt 0 node = Some (root_of t)"
    by (simp add: InternalPage_ValueAt_def node(2) kts child_slots_def slot_def)
  have rept: "rep_st st p t" using less.prems(1) by (simp add: kts)
  have hd: "hd (leaves (GNode p kts)) = hd (leaves t)"
    using leaves_not_Nil [OF ord] by (simp add: kts)
  show ?case
  proof (cases t)
    case (GLeaf q es)
    then show ?thesis
      using rept node first unfolding hd
      by (subst FindLeafPage_loop.simps) (auto simp: store_eqs unpin_pin_other)
  next
    case (GNode q kts'')
    then have "FindLeafPage_loop key True False p (pin p st) = FindLeafPage_loop key True False q (pin q st)"
      using rept node first
      by (subst FindLeafPage_loop.simps) (auto simp: store_eqs unpin_pin_other)
    moreover have "size (GNode q kts'') < size (GNode p kts)"
      using size_child [of "(k, t)" kts] by (simp add: kts GNode)
    ultimately show ?thesis
      using less.hyps [of q kts'' p lo hi'] rept ord hd GNode by simp
  qed
qed

lemma FindLeafPage_leftmost:
  assumes "tree_inv st g"
  obtains p es rest where "FindLeafPage key True False st = Some (p, pin p st)" "leaves g = (p, es) # rest"
proof -
  have inv: "rep_st st INVALID_PAGE_ID g" "root_page_id st = root_of g" "root_of g \<noteq> INVALID_PAGE_ID"
    "ordered (comparator st) None None g"
    using assms root_in_pids [of g] by (auto simp: tree_inv_def stored_def simp del: root_in_pids)
  obtain p es rest where lv: "leaves g = (p, es) # rest"
    using leaves_not_Nil [OF inv(4)] by (cases "leaves g") auto
  have "FindLeafPage key True False st = Some (p, pin p st)"
  proof (cases g)
    case (GLeaf q qs)
    then show ?thesis using inv lv by (auto simp: FindLeafPage_def store_eqs)
  next
    case (GNode q kts)
    then have "FindLeafPage key True False st = FindLeafPage_loop key True False q (pin q st)"
      using inv by (auto simp: FindLeafPage_def store_eqs)
    then show ?thesis
      using FindLeafPage_loop_leftmost [OF inv(1,4) [unfolded GNode]] lv unfolding GNode by simp
  qed
  then show thesis using lv by (rule that)
qed

lemma holds_root:
  assumes "holds st es"
  shows "root_page_id st = INVALID_PAGE_ID \<longleftrightarrow> es = []"
proof -
  have "root_page_id st \<noteq> INVALID_PAGE_ID \<and> entries g \<noteq> []" if g: "tree_inv st g" "sizes_ok st" for g
  proof -
    obtain p qs rest where lv: "leaves g = (p, qs) # rest" using g(1) by (rule FindLeafPage_leftmost)
    then have "qs \<noteq> []" using tree_inv_leaf_run [OF g, of "[]"] by (simp add: leaf_run_def)
    then show ?thesis
      using g(1) root_in_pids [of g] by (auto simp: entries_leaves lv tree_inv_def stored_def simp del: root_in_pids)
  qed
  then show ?thesis using assms by (auto simp: holds_def)
qed

lemma begin_ok:
  assumes "holds st es" and "es \<noteq> []"
  shows "\<exists>it s. BPlusTree_begin st = Some (it, s) \<and> tree_cursor st it s es"
proof -
  obtain g where g: "tree_inv st g" "sizes_ok st" "es = entries g"
    using assms by (auto simp: holds_def)
  obtain p qs rest where f: "FindLeafPage (zero_key st) True False st = Some (p, pin p st)" "leaves g = (p, qs) # rest"
    using g(1) by (rule FindLeafPage_leftmost)
  have run: "leaf_run st ((p, qs) # rest)" using tree_inv_leaf_run [OF g(1,2), of "[]"] f(2) by simp
  then have "qs \<noteq> []" "p \<noteq> INVALID_PAGE_ID" by (auto simp: leaf_run_def)
  then show ?thesis
    using tree_cursor_leaf [OF run, of 0] f(1) by (simp add: BPlusTree_begin_def g(3) entries_leaves f(2))
qed

lemma begin_empty: "root_page_id st = INVALID_PAGE_ID \<Longrightarrow> BPlusTree_begin st = None"
  by (simp add: BPlusTree_begin_def FindLeafPage_def)

text \<open>
  \<open>low_key_iterator\<close> says what \<^verbatim>\<open>Begin(key)\<close> gives: it stands on the leaf for the key, and if some
  key of this leaf is not smaller, it visits the entries from \<open>key\<close> on; otherwise it stands before the
  first slot, has no item, and goes from there to the first entry of the leaf.
\<close>

definition low_key_iterator ::
    "('k \<Rightarrow> 'k \<Rightarrow> int) \<Rightarrow> 'k \<Rightarrow> ('k, 'v) bpt \<Rightarrow> ('k \<times> 'v) list \<Rightarrow> index_iter \<Rightarrow> ('k, 'v) bpt \<Rightarrow> bool" where
  "low_key_iterator cmp key st es it s \<longleftrightarrow>
     (\<exists>leaf us rs. get_leaf (iter_leaf it) s = Some leaf \<and> leaf_array leaf \<noteq> [] \<and> es = us @ leaf_array leaf @ rs \<and>
        (\<forall>e \<in> set us. cmp (fst e) key < 0) \<and> (\<forall>e \<in> set rs. \<not> cmp (fst e) key < 0) \<and>
        (if \<forall>e \<in> set (leaf_array leaf). cmp (fst e) key < 0
         then iter_slot it = - 1 \<and> iter_item it s = None \<and> iter_destroy it s = Some st \<and>
           (\<exists>it' s'. iter_advance it s = Some (it', s') \<and> visits st it' s' (leaf_array leaf @ rs))
         else visits st it s (dropWhile (\<lambda>e. cmp (fst e) key < 0) es)))"

context key_comparator
begin

lemma Begin_leaf:
  assumes "holds st es" and "comparator st = cmp" and "es \<noteq> []"
  obtains q les us ys where "BPlusTree_Begin key st =
      Some (\<lparr>iter_leaf = q, iter_slot = (if \<forall>e \<in> set les. cmp (fst e) key < 0 then - 1
        else int (length (takeWhile (\<lambda>e. cmp (fst e) key < 0) les)))\<rparr>, pin q st)"
    "leaf_run st ((q, les) # ys)" "es = us @ les @ concat (map snd ys)"
    "\<forall>e \<in> set us. cmp (fst e) key < 0" "\<forall>e \<in> set (concat (map snd ys)). \<not> cmp (fst e) key < 0"
proof -
  obtain g where g: "tree_inv st g" "sizes_ok st" "es = entries g"
    using assms by (auto simp: holds_def)
  obtain c q les where f: "FindLeafPage key False False st = Some (q, pin q st)"
    "g = plug c (GLeaf q les)" "stored st c [GLeaf q les]" "ordered_ctx cmp c"
    "ordered cmp (ctx_lo c) (ctx_hi c) (GLeaf q les)" "within cmp (ctx_lo c) (ctx_hi c) key"
    using FindLeafPage_ok [OF g(1) assms(2)] by metis
  obtain l where l: "pages st q = Some (LeafNode l)" "leaf_array l = les" "q \<noteq> INVALID_PAGE_ID"
    using f(3) by (auto simp: stored_def)
  obtain xs ys where lv: "leaves g = xs @ (q, les) # ys" "concat (map snd ys) = ctx_right c"
    using leaves_plug [of c "GLeaf q les"] by (auto simp: f(2))
  let ?lt = "\<lambda>e. cmp (fst e) key < 0"
  have sorted: "sorted_keys cmp les" using f(5) by simp
  obtain as bs where part: "les = as @ bs" "\<And>x. x \<in> set as \<Longrightarrow> ?lt x" "\<And>y. y \<in> set bs \<Longrightarrow> \<not> ?lt y"
    using sorted_keys_partition [OF sorted] by metis
  have tw: "takeWhile ?lt les = as"
  proof -
    have "takeWhile ?lt bs = []" using part(3) by (cases bs) auto
    then show ?thesis using part(1,2) by (simp add: takeWhile_append2)
  qed
  have "LeafPage_KeyIndex cmp key l = (if bs = [] then - 1 else int (length as))"
    using LeafPage_KeyIndex_split [of l as bs cmp key] part l(2) by simp
  moreover have "bs = [] \<longleftrightarrow> (\<forall>e \<in> set les. ?lt e)" using part by (cases bs) auto
  ultimately have "BPlusTree_Begin key st =
      Some (\<lparr>iter_leaf = q, iter_slot = (if \<forall>e \<in> set les. ?lt e then - 1 else int (length (takeWhile ?lt les)))\<rparr>, pin q st)"
    using f(1) l assms(2) tw by (simp add: BPlusTree_Begin_def store_eqs)
  moreover have "es = ctx_left c @ les @ concat (map snd ys)" by (simp add: g(3) f(2) entries_plug lv(2))
  moreover have "\<forall>e \<in> set (ctx_left c). ?lt e" using ctx_left_below [OF f(4)] f(6) by (auto simp: within_def)
  moreover have "\<forall>e \<in> set (concat (map snd ys)). \<not> ?lt e"
  proof
    fix e assume "e \<in> set (concat (map snd ys))"
    then have "cmp key (fst e) < 0" using ctx_right_above [of c key e] f(4,6) lv(2) by (simp add: within_def)
    then show "\<not> ?lt e" using cmp_asym [of key "fst e"] by simp
  qed
  ultimately show thesis using that [OF _ tree_inv_leaf_run [OF g(1,2) lv(1)]] by blast
qed

theorem Begin_ok:
  assumes "holds st es" and "comparator st = cmp" and "es \<noteq> []"
  shows "\<exists>it s. BPlusTree_Begin key st = Some (it, s) \<and> low_key_iterator cmp key st es it s"
proof -
  let ?lt = "\<lambda>e. cmp (fst e) key < 0"
  obtain q les us ys where B: "BPlusTree_Begin key st =
      Some (\<lparr>iter_leaf = q, iter_slot = (if \<forall>e \<in> set les. ?lt e then - 1 else int (length (takeWhile ?lt les)))\<rparr>, pin q st)"
    and run: "leaf_run st ((q, les) # ys)" and es: "es = us @ les @ concat (map snd ys)"
    and us: "\<forall>e \<in> set us. ?lt e" and rs: "\<forall>e \<in> set (concat (map snd ys)). \<not> ?lt e"
    by (rule Begin_leaf [OF assms, of key])
  obtain l where l: "pages st q = Some (LeafNode l)" "leaf_array l = les" "page_id l = q" "q \<noteq> INVALID_PAGE_ID"
    using run by (rule leaf_run_leaf)
  have ne: "les \<noteq> []" using run by (simp add: leaf_run_def)
  have leaf: "get_leaf q (pin q st) = Some l" using l by (simp add: store_eqs)
  show ?thesis
  proof (cases "\<forall>e \<in> set les. ?lt e")
    case True
    let ?it = "\<lparr>iter_leaf = q, iter_slot = - 1\<rparr>"
    have "iter_advance ?it (pin q st) = Some (\<lparr>iter_leaf = q, iter_slot = int 0\<rparr>, pin q st)"
      using leaf l ne by (simp add: iter_advance_def LeafPage_GetSize_def)
    moreover have "visits st \<lparr>iter_leaf = q, iter_slot = int 0\<rparr> (pin q st) (les @ concat (map snd ys))"
      using tree_cursor_visits [OF tree_cursor_leaf [OF run, of 0]] ne by simp
    moreover have "iter_item ?it (pin q st) = None" "iter_destroy ?it (pin q st) = Some st"
      using leaf l by (simp_all add: iter_item_def LeafPage_GetItem_def slot_def iter_destroy_def store_eqs)
    ultimately have "low_key_iterator cmp key st es ?it (pin q st)"
      unfolding low_key_iterator_def using leaf l(2) ne es us rs True
      by (intro exI [of _ l] exI [of _ us] exI [of _ "concat (map snd ys)"]) auto
    then show ?thesis using B True by auto
  next
    case False
    let ?as = "takeWhile ?lt les"
    let ?it = "\<lparr>iter_leaf = q, iter_slot = int (length ?as)\<rparr>"
    have "length ?as < length les" using False by (metis length_takeWhile_le nat_less_le takeWhile_eq_all_conv takeWhile_eq_take take_all)
    then have v: "visits st ?it (pin q st) (drop (length ?as) les @ concat (map snd ys))"
      by (intro tree_cursor_visits tree_cursor_leaf [OF run])
    have "dropWhile ?lt es = dropWhile ?lt les @ concat (map snd ys)" using us False by (auto simp: es)
    then have "dropWhile ?lt es = drop (length ?as) les @ concat (map snd ys)" by (simp add: dropWhile_eq_drop)
    then have "low_key_iterator cmp key st es ?it (pin q st)"
      unfolding low_key_iterator_def using leaf l(2) ne es us rs False v
      by (intro exI [of _ l] exI [of _ us] exI [of _ "concat (map snd ys)"]) auto
    then show ?thesis using B False by auto
  qed
qed

end

lemma Begin_empty: "root_page_id st = INVALID_PAGE_ID \<Longrightarrow> BPlusTree_Begin key st = None"
  by (simp add: BPlusTree_Begin_def FindLeafPage_def)

end
