(* ===== verification/IndexTheorems.thy ===== *)
theory IndexTheorems
  imports IndexNTS TreeIterator
begin

text \<open>
  The properties of the storage engine: the comparators, the header page, the pages, the B+
  tree and the index, each stated over the model of the code and obtained from the lemmas of the
  component theories.
\<close>

section \<open>Sequences of operations\<close>

context key_comparator
begin

text \<open>The entry count follows the number of rows through every operation.\<close>

lemma run_op_size:
  assumes "index_rel cmp ix es"
  shows "\<exists>ix'. run_op InsertEntry DeleteEntry x ix = Some ix' \<and> index_rel cmp ix' (op_rows cmp x es) \<and>
     index_size ix' - index_size ix = int (length (op_rows cmp x es)) - int (length es) \<and>
     pins (index_tree ix') = pins (index_tree ix)"
proof (cases x)
  case (Ins k v)
  then show ?thesis using InsertEntry_ok [OF assms, of k v] by auto
next
  case (Del k)
  then show ?thesis using DeleteEntry_ok [OF assms, of k] by auto
qed

lemma run_ops_size:
  assumes "index_rel cmp ix es"
  shows "\<exists>ix'. run_ops InsertEntry DeleteEntry xs ix = Some ix' \<and> index_rel cmp ix' (fold (op_rows cmp) xs es) \<and>
     index_size ix' - index_size ix = int (length (fold (op_rows cmp) xs es)) - int (length es) \<and>
     pins (index_tree ix') = pins (index_tree ix)"
  using assms
proof (induction xs arbitrary: ix es)
  case (Cons x xs)
  obtain ix1 where x: "run_op InsertEntry DeleteEntry x ix = Some ix1" "index_rel cmp ix1 (op_rows cmp x es)"
    "index_size ix1 - index_size ix = int (length (op_rows cmp x es)) - int (length es)"
    "pins (index_tree ix1) = pins (index_tree ix)"
    using run_op_size [OF Cons.prems, of x] by blast
  obtain ix2 where xs: "run_ops InsertEntry DeleteEntry xs ix1 = Some ix2"
    "index_rel cmp ix2 (fold (op_rows cmp) xs (op_rows cmp x es))"
    "index_size ix2 - index_size ix1 = int (length (fold (op_rows cmp) xs (op_rows cmp x es))) - int (length (op_rows cmp x es))"
    "pins (index_tree ix2) = pins (index_tree ix1)"
    using Cons.IH [OF x(2)] by blast
  show ?case using x xs by auto
qed simp

lemma length_sorted_dom: "sorted_keys cmp es \<Longrightarrow> length es = card (dom (map_of es))"
  using sorted_keys_distinct [of es] distinct_card [of "map fst es"] by (simp add: dom_map_of_conv_image_fst)

lemma map_of_fold_op_rows: "map_of (fold (op_rows cmp) xs es) = fold op_map xs (map_of es)"
proof (induction xs arbitrary: es)
  case (Cons x xs)
  have "map_of (op_rows cmp x es) = op_map x (map_of es)"
    by (cases x) (simp_all add: map_of_al_insert map_of_al_delete)
  then show ?case using Cons.IH [of "op_rows cmp x es"] by simp
qed simp

end

section \<open>A sample tree\<close>

text \<open>A tree of one leaf, for the concrete instances below.\<close>

definition sample_tree :: "(string, int) bpt" where
  "sample_tree =
     \<lparr>index_name = ''index'', root_page_id = 1, comparator = StringComparator, leaf_max_size = 3,
      internal_max_size = 4, zero_key = [],
      pages = [0 \<mapsto> HeaderNode [(''index'', 1), (''page_amount'', 1), (''size'', 0)],
               1 \<mapsto> LeafNode \<lparr>max_size = 3, parent_page_id = -1, page_id = 1, next_page_id = -1,
                              leaf_array = [(''a'', 1), (''c'', 3)]\<rparr>],
      pins = (\<lambda>p. 0), disk_next = 2\<rparr>"

lemma sample_tree_holds: "holds sample_tree [(''a'', 1), (''c'', 3)]"
proof -
  have "tree_inv sample_tree (GLeaf 1 [(''a'', 1), (''c'', 3)])"
    by (simp add: tree_inv_def stored_def sample_tree_def header_ok_def alloc_ok_def next_of_def within_def above_def below_def
        StringComparator_def)
  then show ?thesis by (auto simp: holds_def sample_tree_def sizes_ok_def)
qed

lemma sample_tree_comparator: "comparator sample_tree = StringComparator"
  by (simp add: sample_tree_def)

definition sample_index :: "(string, int) index_nts" where
  "sample_index = \<lparr>index_tree = sample_tree, index_size = 2\<rparr>"

lemma sample_index_rel: "index_rel StringComparator sample_index [(''a'', 1), (''c'', 3)]"
  using sample_tree_holds
  by (simp add: index_rel_def sample_index_def sample_tree_comparator counters_ok_def) (simp add: sample_tree_def)

section \<open>Properties\<close>

text \<open>
  C7. An index that is created on an empty file and then updated by any sequence of insertions
  and deletions never fails, answers every search like the finite map the sequence builds, and
  its size counter has moved by the number of keys the map has.
\<close>

theorem index_is_finite_map:
  fixes ops :: "('k, 'v) index_op list"
  assumes "key_comparator cmp" and "2 \<le> leaf_max" and "4 \<le> internal_max"
  shows "\<exists>(ix0 :: ('k, 'v) index_nts) ix. BPlusTreeIndexNTS_open cmp leaf_max internal_max zero uninit (\<lambda>p. None) = Some ix0 \<and>
     run_ops InsertEntry DeleteEntry ops ix0 = Some ix \<and>
     (\<forall>k. SearchKey k ix = Some (case fold op_map ops (\<lambda>x. None) k of None \<Rightarrow> [] | Some v \<Rightarrow> [v], ix)) \<and>
     Size ix - Size ix0 = int (card (dom (fold op_map ops (\<lambda>x. None))))"
proof -
  note run = key_comparator.run_ops_size [OF assms(1)] and search = key_comparator.SearchKey_ok [OF assms(1)]
    and maps = key_comparator.map_of_fold_op_rows [OF assms(1)]
  obtain ix0 :: "('k, 'v) index_nts" where o: "BPlusTreeIndexNTS_open cmp leaf_max internal_max zero uninit (\<lambda>p. None) = Some ix0"
    and r0: "index_rel cmp ix0 []" by (rule open_fresh [OF assms(2,3)])
  obtain ix where ix: "run_ops InsertEntry DeleteEntry ops ix0 = Some ix"
    "index_rel cmp ix (fold (op_rows cmp) ops [])"
    "index_size ix - index_size ix0 = int (length (fold (op_rows cmp) ops []))"
    using run [OF r0, of ops] by auto
  have m: "map_of (fold (op_rows cmp) ops []) = fold op_map ops (\<lambda>x. None)" using maps [of ops "[]"] by simp
  have "length (fold (op_rows cmp) ops []) = card (dom (fold op_map ops (\<lambda>x. None)))"
    using key_comparator.length_sorted_dom [OF assms(1) key_comparator.index_rel_sorted [OF assms(1) ix(2)]] m by simp
  then show ?thesis using o ix search [OF ix(2)] m by (simp add: Size_def)
qed

theorem index_is_finite_map_witness:
  "\<exists>ix0 ix. BPlusTreeIndexNTS_open StringComparator 7 100 [] 0 (\<lambda>p. None) = Some ix0 \<and>
     run_ops InsertEntry DeleteEntry [Ins ''a'' (1::int), Ins ''b'' 2, Del ''a''] ix0 = Some ix \<and>
     SearchKey ''b'' ix = Some ([2], ix) \<and> SearchKey ''a'' ix = Some ([], ix) \<and> Size ix - Size ix0 = 1"
proof -
  let ?ops = "[Ins ''a'' (1::int), Ins ''b'' 2, Del ''a'']"
  have d: "dom (fold op_map ?ops (\<lambda>x. None)) = {''b''}" by (auto simp: dom_def)
  obtain ix0 ix where r: "BPlusTreeIndexNTS_open StringComparator 7 100 [] 0 (\<lambda>p. None) = Some ix0"
     "run_ops InsertEntry DeleteEntry ?ops ix0 = Some ix"
     "\<forall>k. SearchKey k ix = Some (case fold op_map ?ops (\<lambda>x. None) k of None \<Rightarrow> [] | Some v \<Rightarrow> [v], ix)"
     "Size ix - Size ix0 = int (card (dom (fold op_map ?ops (\<lambda>x. None))))"
    using index_is_finite_map [OF string_key.key_comparator_axioms, of 7 100 "[]" 0 ?ops] by auto
  then show ?thesis unfolding d by auto
qed

text \<open>
  C8. Insertion into a tree that holds an ordered association list terminates without error,
  leaves a tree that holds the list with the key inserted (or its value overwritten), reports
  whether the key was new, and leaves every page pinned as often as before.
\<close>

theorem Insert_correct:
  assumes "key_comparator cmp" and "comparator t = cmp" and "holds t es"
  shows "\<exists>t'. BPlusTree_Insert key v t = Some (key \<notin> fst ` set es, t') \<and>
     holds t' (al_insert cmp key v es) \<and> pins t' = pins t"
  using key_comparator.Insert_ok [OF assms(1,3,2), of key v] by blast

theorem Insert_correct_witness:
  "\<exists>t'. BPlusTree_Insert ''b'' 2 sample_tree = Some (True, t') \<and>
     holds t' [(''a'', 1), (''b'', 2), (''c'', 3)] \<and> pins t' = pins sample_tree"
  using Insert_correct [OF string_key.key_comparator_axioms sample_tree_comparator sample_tree_holds, of "''b''" 2]
  by (simp add: StringComparator_def)

text \<open>
  C9. Removal from a tree that holds an ordered association list terminates without error,
  leaves a tree that holds the list without the key, reports whether the key was there, and
  leaves every page pinned as often as before.
\<close>

theorem Remove_correct:
  assumes "key_comparator cmp" and "comparator t = cmp" and "holds t es"
  shows "\<exists>t'. BPlusTree_Remove key t = Some (key \<in> fst ` set es, t') \<and>
     holds t' (al_delete cmp key es) \<and> pins t' = pins t"
  using key_comparator.Remove_ok [OF assms(1,3,2), of key] by blast

theorem Remove_correct_witness:
  "\<exists>t'. BPlusTree_Remove ''a'' sample_tree = Some (True, t') \<and> holds t' [(''c'', 3)] \<and> pins t' = pins sample_tree"
  using Remove_correct [OF string_key.key_comparator_axioms sample_tree_comparator sample_tree_holds, of "''a''"]
  by (simp add: StringComparator_def al_delete_def)

text \<open>
  C10. The range scan of a tree returns, in key order, the values of the keys that are not
  below the start key and that the second comparator does not tell apart from it; it leaves the
  tree, its pages and its pins as they were.
\<close>

theorem ScanValue_correct:
  assumes "standby_comparator cmp standby" and "comparator t = cmp" and "holds t es"
  shows "BPlusTree_ScanValue key standby t
     = Some (map snd (filter (\<lambda>e. \<not> cmp (fst e) key < 0 \<and> standby key (fst e) = 0) es), t)"
proof -
  have k: "key_comparator cmp" using assms(1) by (rule standby_comparator.axioms(1))
  have "sorted_keys cmp es" using key_comparator.holds_sorted [OF k assms(3,2)] .
  then show ?thesis
    using key_comparator.ScanValue_ok [OF k assms(3,2)] standby_comparator.al_scan_eq_filter [OF assms(1)] by simp
qed

definition sample_scan_tree :: "(string_any, int) bpt" where
  "sample_scan_tree =
     \<lparr>index_name = ''index'', root_page_id = 1, comparator = StringAnyComparator 3, leaf_max_size = 4,
      internal_max_size = 4, zero_key = \<lparr>data_str = [], data_t = 0\<rparr>,
      pages = [0 \<mapsto> HeaderNode [(''index'', 1)],
               1 \<mapsto> LeafNode \<lparr>max_size = 4, parent_page_id = -1, page_id = 1, next_page_id = -1,
                              leaf_array = [(\<lparr>data_str = ''a'', data_t = 1\<rparr>, 10), (\<lparr>data_str = ''a'', data_t = 2\<rparr>, 20),
                                            (\<lparr>data_str = ''b'', data_t = 1\<rparr>, 30)]\<rparr>],
      pins = (\<lambda>p. 0), disk_next = 2\<rparr>"

lemma sample_scan_tree_holds:
  "holds sample_scan_tree [(\<lparr>data_str = ''a'', data_t = 1\<rparr>, 10), (\<lparr>data_str = ''a'', data_t = 2\<rparr>, 20),
     (\<lparr>data_str = ''b'', data_t = 1\<rparr>, 30)]" (is "holds _ ?es")
proof -
  have "tree_inv sample_scan_tree (GLeaf 1 ?es)"
    by (simp add: tree_inv_def stored_def sample_scan_tree_def header_ok_def alloc_ok_def next_of_def within_def above_def below_def
        StringAnyComparator_def)
  then show ?thesis by (auto simp: holds_def sample_scan_tree_def sizes_ok_def)
qed

theorem ScanValue_correct_witness:
  "BPlusTree_ScanValue \<lparr>data_str = ''a'', data_t = 2\<rparr> (StringAnyComparator 1) sample_scan_tree
     = Some ([20], sample_scan_tree)"
proof -
  have "comparator sample_scan_tree = StringAnyComparator 3" by (simp add: sample_scan_tree_def)
  from ScanValue_correct [OF string_any_scan.standby_comparator_axioms this sample_scan_tree_holds]
  show ?thesis by (simp add: StringAnyComparator_def)
qed

text \<open>
  C12. Closing an index and opening the file again gives an index with the same rows and the
  same size.
\<close>

theorem close_open_roundtrip:
  assumes "index_rel cmp ix es"
  shows "\<exists>file ix'. BPlusTreeIndexNTS_close ix = Some file \<and>
     BPlusTreeIndexNTS_open cmp (leaf_max_size (index_tree ix)) (internal_max_size (index_tree ix)) zero uninit file
       = Some ix' \<and> index_rel cmp ix' es \<and> Size ix' = Size ix"
  using close_open [OF assms refl refl] by (simp add: Size_def)

theorem close_open_roundtrip_witness:
  "\<exists>file ix'. BPlusTreeIndexNTS_close sample_index = Some file \<and>
     BPlusTreeIndexNTS_open StringComparator 3 4 [] 0 file = Some ix' \<and>
     index_rel StringComparator ix' [(''a'', 1), (''c'', 3)] \<and> Size ix' = 2"
  using close_open_roundtrip [OF sample_index_rel, of "[]" 0] by (simp add: sample_index_def sample_tree_def Size_def)

text \<open>
  C11. The index refines the abstract index: from related states any sequence of insertions,
  deletions and clears runs without error on the index, and afterwards every search, every
  scan and the size agree with the abstract one.
\<close>

theorem index_refines_table:
  assumes "key_comparator cmp" and "table_rel cmp ix tb"
  shows "\<exists>ix'. run_table_ops_index xs ix = Some ix' \<and> table_rel cmp ix' (run_table_ops cmp xs tb) \<and>
     (\<forall>k. SearchKey k ix' = Some (table_SearchKey k (run_table_ops cmp xs tb), ix')) \<and>
     (\<forall>k standby. ScanKey k standby ix' = Some (table_ScanKey cmp k standby (run_table_ops cmp xs tb), ix')) \<and>
     Size ix' = count (run_table_ops cmp xs tb)"
proof -
  obtain ix' where "run_table_ops_index xs ix = Some ix'" "table_rel cmp ix' (run_table_ops cmp xs tb)"
    using key_comparator.run_table_ops_sim [OF assms] by blast
  then show ?thesis
    using key_comparator.table_search_sim [OF assms(1), of ix' "run_table_ops cmp xs tb"]
    by (simp add: Size_def table_rel_def)
qed

theorem index_refines_table_witness:
  "\<exists>ix'. run_table_ops_index [TIns ''d'' 4, TDel ''a''] sample_index = Some ix' \<and>
     SearchKey ''d'' ix' = Some ([4], ix') \<and>
     ScanKey ''c'' StringComparator ix' = Some ([3], ix') \<and> Size ix' = 2"
proof -
  have rel: "table_rel StringComparator sample_index \<lparr>rows = [(''a'', 1), (''c'', 3)], count = 2\<rparr>"
    using sample_index_rel by (simp add: table_rel_def) (simp add: sample_index_def)
  have tb: "run_table_ops StringComparator [TIns ''d'' 4, TDel ''a''] \<lparr>rows = [(''a'', 1), (''c'', 3)], count = 2\<rparr>
      = \<lparr>rows = [(''c'', 3), (''d'', 4)], count = 2\<rparr>"
    by (simp add: table_InsertEntry_def table_DeleteEntry_def StringComparator_def al_delete_def)
  obtain ix' where ix': "run_table_ops_index [TIns ''d'' 4, TDel ''a''] sample_index = Some ix'"
    "\<forall>k. SearchKey k ix' = Some (table_SearchKey k \<lparr>rows = [(''c'', 3), (''d'', 4)], count = 2\<rparr>, ix')"
    "\<forall>k standby. ScanKey k standby ix'
       = Some (table_ScanKey StringComparator k standby \<lparr>rows = [(''c'', 3), (''d'', 4)], count = 2\<rparr>, ix')"
    "Size ix' = 2"
    using index_refines_table [OF string_key.key_comparator_axioms rel, of "[TIns ''d'' 4, TDel ''a'']"]
    unfolding tb by auto
  then show ?thesis
    by (auto simp: table_SearchKey_def table_ScanKey_def al_scan_def StringComparator_def)
qed

text \<open>
  C37. A leaf page with room keeps its keys in order under \<^verbatim>\<open>Insert\<close> and
  \<^verbatim>\<open>RemoveAndDeleteRecord\<close>, its \<^verbatim>\<open>Lookup\<close> is the lookup of the association list it holds, and
  the sizes returned are those of the page, or -1 when nothing was added or removed.
\<close>

theorem leaf_page_correct:
  assumes "key_comparator cmp" and "sorted_keys cmp (leaf_array p)"
    and "int (length (leaf_array p)) < max_size p"
  shows "LeafPage_Insert cmp key v p =
           (if key \<in> fst ` set (leaf_array p) then -1 else int (length (leaf_array p)) + 1,
            p\<lparr>leaf_array := al_insert cmp key v (leaf_array p)\<rparr>) \<and>
         LeafPage_RemoveAndDeleteRecord cmp key p =
           (if key \<in> fst ` set (leaf_array p)
            then (int (length (leaf_array p)) - 1, p\<lparr>leaf_array := al_delete cmp key (leaf_array p)\<rparr>)
            else (-1, p)) \<and>
         LeafPage_Lookup cmp key p = map_of (leaf_array p) key \<and>
         sorted_keys cmp (al_insert cmp key v (leaf_array p)) \<and>
         sorted_keys cmp (al_delete cmp key (leaf_array p))"
  using key_comparator.LeafPage_Insert_sorted [OF assms] key_comparator.LeafPage_Lookup_sorted [OF assms(1,2)]
    key_comparator.LeafPage_RemoveAndDeleteRecord_sorted [OF assms(1,2)]
    key_comparator.sorted_keys_al_insert [OF assms(1,2)] sorted_keys_al_delete [OF assms(2)] by simp

theorem leaf_page_correct_witness:
  "LeafPage_Insert StringComparator ''b'' 2
     \<lparr>max_size = 4, parent_page_id = -1, page_id = 1, next_page_id = -1, leaf_array = [(''a'', 1), (''c'', 3::int)]\<rparr>
   = (3, \<lparr>max_size = 4, parent_page_id = -1, page_id = 1, next_page_id = -1,
          leaf_array = [(''a'', 1), (''b'', 2), (''c'', 3)]\<rparr>)"
  using leaf_page_correct [OF string_key.key_comparator_axioms,
      of "\<lparr>max_size = 4, parent_page_id = -1, page_id = 1, next_page_id = -1, leaf_array = [(''a'', 1), (''c'', 3::int)]\<rparr>"
         "''b''" 2]
  by (simp add: StringComparator_def)

text \<open>
  The header page is a map from names to integers: an insertion adds a name that is not
  there and refuses one that is, an update changes the value of a name that is there, and the
  two readers return what the map has.
\<close>

theorem header_page_is_map:
  assumes "length name < 32" and "recs \<noteq> []"
  shows "HeaderPage_SearchRecord name recs = Some (map_of recs name) \<and>
     HeaderPage_GetRootId name recs = Some (map_of recs name) \<and>
     HeaderPage_InsertRecord name root_id recs =
       (case map_of recs name of None \<Rightarrow> Some (True, recs @ [(name, root_id)]) | Some v \<Rightarrow> Some (False, recs)) \<and>
     (\<exists>recs'. HeaderPage_UpdateRecord name root_id recs = Some (map_of recs name \<noteq> None, recs') \<and>
        map_of recs' = (if map_of recs name = None then map_of recs else (map_of recs)(name \<mapsto> root_id)) \<and>
        map fst recs' = map fst recs)"
proof -
  obtain recs' where "HeaderPage_UpdateRecord name root_id recs = Some (map_of recs name \<noteq> None, recs')"
    "map_of recs' = (if map_of recs name = None then map_of recs else (map_of recs)(name \<mapsto> root_id))"
    "map fst recs' = map fst recs"
    by (rule HeaderPage_UpdateRecord_map [OF assms(1), of root_id recs])
  then show ?thesis
    using HeaderPage_SearchRecord_map [OF assms(2)] HeaderPage_GetRootId_map [OF assms(1)]
      HeaderPage_InsertRecord_map [OF assms(1)] by blast
qed

theorem header_page_is_map_witness:
  "HeaderPage_SearchRecord ''size'' [(''index'', 1), (''size'', 9)] = Some (Some 9) \<and>
   HeaderPage_InsertRecord ''index'' 5 [(''index'', 1), (''size'', 9)] = Some (False, [(''index'', 1), (''size'', 9)])"
  using header_page_is_map [of "''size''" "[(''index'', 1), (''size'', 9)]" 0]
    header_page_is_map [of "''index''" "[(''index'', 1), (''size'', 9)]" 5] by simp

text \<open>
  C39. The iterators of a tree. The one of \<^verbatim>\<open>begin()\<close> meets the entries one by one in the order of
  their keys. The one of \<^verbatim>\<open>Begin(key)\<close> stands on the leaf for \<open>key\<close>, present or not: if some key of
  that leaf is not smaller, it meets the entries from the first key that is not smaller on; if all
  keys of the leaf are smaller, it stands before its first slot, has no item to read (the code reads
  in front of the array), and an increment brings it to the first entry of that leaf, whose key is
  smaller than \<open>key\<close>, instead of the next leaf. An iteration reaches \<^verbatim>\<open>end()\<close> after the last entry and
  not before, and wherever the iterator is destroyed the pages, the root and the pins are those of
  before. On an empty tree both fail.
\<close>

theorem iterator_visits_entries:
  assumes "key_comparator (comparator st)" and "holds st es"
  shows "sorted_keys (comparator st) es \<and>
     (if es = [] then BPlusTree_begin st = None \<and> BPlusTree_Begin key st = None
      else (\<exists>it s. BPlusTree_begin st = Some (it, s) \<and> visits st it s es) \<and>
        (\<exists>it s. BPlusTree_Begin key st = Some (it, s) \<and> low_key_iterator (comparator st) key st es it s))"
proof (cases "es = []")
  case True
  then have "root_page_id st = INVALID_PAGE_ID" using holds_root [OF assms(2)] by simp
  then show ?thesis using True begin_empty Begin_empty by auto
next
  case False
  note cmp = assms(1)
  have "sorted_keys (comparator st) es" using key_comparator.holds_sorted [OF cmp assms(2)] by simp
  moreover have "\<exists>it s. BPlusTree_begin st = Some (it, s) \<and> visits st it s es"
    using begin_ok [OF assms(2) False] tree_cursor_visits by blast
  ultimately show ?thesis using key_comparator.Begin_ok [OF cmp assms(2) refl False] False by simp
qed

text \<open>The tree with the keys \<open>a\<close> and \<open>c\<close>: \<^verbatim>\<open>Begin\<close> for the absent keys \<open>b\<close> and \<open>d\<close>.\<close>

theorem iterator_visits_entries_witness:
  "(\<exists>it s. BPlusTree_begin sample_tree = Some (it, s) \<and> visits sample_tree it s [(''a'', 1), (''c'', 3)]) \<and>
   (\<exists>it s. BPlusTree_Begin ''b'' sample_tree = Some (it, s) \<and> visits sample_tree it s [(''c'', 3)]) \<and>
   (\<exists>it s it' s'. BPlusTree_Begin ''d'' sample_tree = Some (it, s) \<and> iter_item it s = None \<and>
      iter_advance it s = Some (it', s') \<and> visits sample_tree it' s' [(''a'', 1), (''c'', 3)])"
proof -
  let ?es = "[(''a'', 1), (''c'', 3)]"
  note T = iterator_visits_entries [OF _ sample_tree_holds, unfolded sample_tree_comparator,
      OF string_key.key_comparator_axioms]
  have one: "leaf_array leaf = ?es" if "get_leaf (iter_leaf it) s = Some leaf" "BPlusTree_Begin k sample_tree = Some (it, s)" for it s leaf k
    using that by (auto simp: BPlusTree_Begin_def FindLeafPage_def sample_tree_def fetch_page_def get_leaf_def split: if_splits)
  obtain it s where b: "BPlusTree_Begin ''b'' sample_tree = Some (it, s)"
    "low_key_iterator StringComparator ''b'' sample_tree ?es it s" using T [of "''b''"] by auto
  obtain it2 s2 where d: "BPlusTree_Begin ''d'' sample_tree = Some (it2, s2)"
    "low_key_iterator StringComparator ''d'' sample_tree ?es it2 s2" using T [of "''d''"] by auto
  obtain leaf where l: "get_leaf (iter_leaf it) s = Some leaf"
    "\<not> (\<forall>e \<in> set (leaf_array leaf). StringComparator (fst e) ''b'' < 0) \<Longrightarrow>
     visits sample_tree it s (dropWhile (\<lambda>e. StringComparator (fst e) ''b'' < 0) ?es)"
    using b(2) unfolding low_key_iterator_def by meson
  have c: "visits sample_tree it s [(''c'', 3)]" using l(2) one [OF l(1) b(1)] by (simp add: StringComparator_def)
  obtain leaf2 us rs where l2: "get_leaf (iter_leaf it2) s2 = Some leaf2" "?es = us @ leaf_array leaf2 @ rs"
    "\<forall>e \<in> set (leaf_array leaf2). StringComparator (fst e) ''d'' < 0 \<Longrightarrow> iter_item it2 s2 = None \<and>
     (\<exists>it' s'. iter_advance it2 s2 = Some (it', s') \<and> visits sample_tree it' s' (leaf_array leaf2 @ rs))"
    using d(2) unfolding low_key_iterator_def by meson
  have e: "leaf_array leaf2 = ?es" by (rule one [OF l2(1) d(1)])
  have "length (us @ leaf_array leaf2 @ rs) = 2" unfolding l2(2) [symmetric] by simp
  then have "rs = []" unfolding e by simp
  then have "iter_item it2 s2 = None \<and> (\<exists>it' s'. iter_advance it2 s2 = Some (it', s') \<and> visits sample_tree it' s' ?es)"
    using l2(3) unfolding e by (simp add: StringComparator_def)
  moreover have "\<exists>it s. BPlusTree_begin sample_tree = Some (it, s) \<and> visits sample_tree it s ?es" using T by auto
  ultimately show ?thesis using b(1) d(1) c by blast
qed

end
