(* ===== verification/TSTree.thy ===== *)
theory TSTree
  imports IndexNTS
begin

text \<open>
  The thread-safe B+ tree (\<^verbatim>\<open>database/src/storage/index/b_plus_tree_ts.cpp\<close>) and its index
  (\<^verbatim>\<open>b_plus_tree_index_ts.cpp\<close>).

  One operation is the sequence of steps of one thread: it works on the pages of the tree and
  acquires and releases latches on the way. The state is the tree of \<open>BPlusTree\<close>, the calls made
  on latches so far, and the \<^verbatim>\<open>Transaction\<close> of the operation: its \<^verbatim>\<open>page_set_\<close> (the ancestors it
  still holds) and \<^verbatim>\<open>deleted_page_set_\<close>. The latches are the root latch of the tree, the latch of
  each page (named by the page) and the lock of the task queue, which a worker holds when its
  operation begins and \<^verbatim>\<open>Transaction::Unlock\<close> gives back; a latch itself is the subject of \<open>RWLatch\<close>.

  \<open>unpin_page\<close> has no argument \<^verbatim>\<open>is_dirty\<close>, because every operation marks the pages it has written when it
  lets go of them. The one exception is the attempt with shared latches to overwrite a value: \<open>UnpinLeaf\<close>
  has the argument, and the field \<open>unsaved\<close> of the state has the leaves whose change may be lost.

  \<^verbatim>\<open>Split\<close>, \<^verbatim>\<open>NewNode\<close> and the moves between two pages have the text of the other tree, and are
  its definitions. As there, the pool keeps the contents of a page while it has no pin.
\<close>

section \<open>State and latches\<close>

datatype latch = TaskLatch | RootLatch | PageLatch int

datatype latch_mode = Shared | Exclusive

datatype latch_call = Acquire latch_mode latch | Release latch_mode latch

datatype transaction_type =
  OPTIMISTIC_INSERT | OPTIMISTIC_DELETE | FIND | MULTIFIND | INSERT | DELETE

datatype insert_state = INSERTED | DUPLICATE_KEY | NO_ROOT | INSERT_UNSAFE

datatype delete_state = DELETED | NO_ENTRY | PAGE_FAULT | DELETE_UNSAFE

record ('k, 'v) ts_state =
  tree :: "('k, 'v) bpt"
  calls :: "latch_call list"
  page_set :: "int list"
  deleted_page_set :: "int list"
  unsaved :: "(int \<times> ('k, 'v) leaf_page) list"

definition latch_call :: "latch_call \<Rightarrow> ('k, 'v) ts_state \<Rightarrow> ('k, 'v) ts_state" where
  "latch_call c s = s\<lparr>calls := calls s @ [c]\<rparr>"

definition with_tree :: "(('k, 'v) bpt \<Rightarrow> ('k, 'v) bpt) \<Rightarrow> ('k, 'v) ts_state \<Rightarrow> ('k, 'v) ts_state" where
  "with_tree f s = s\<lparr>tree := f (tree s)\<rparr>"

definition Transaction_Unlock :: "('k, 'v) ts_state \<Rightarrow> ('k, 'v) ts_state" where
  "Transaction_Unlock s = latch_call (Release Exclusive TaskLatch) s"

definition AddIntoPageSet :: "int \<Rightarrow> ('k, 'v) ts_state \<Rightarrow> ('k, 'v) ts_state" where
  "AddIntoPageSet pid s = s\<lparr>page_set := page_set s @ [pid]\<rparr>"

definition AddIntoDeletedPageSet :: "int \<Rightarrow> ('k, 'v) ts_state \<Rightarrow> ('k, 'v) ts_state" where
  "AddIntoDeletedPageSet pid s = s\<lparr>deleted_page_set := deleted_page_set s @ [pid]\<rparr>"

fun reading :: "transaction_type \<Rightarrow> bool" where
  "reading INSERT = False"
| "reading DELETE = False"
| "reading tt = True"

definition root_mode :: "transaction_type \<Rightarrow> latch_mode" where
  "root_mode tt = (if reading tt then Shared else Exclusive)"

definition LockRoot :: "transaction_type \<Rightarrow> ('k, 'v) ts_state \<Rightarrow> ('k, 'v) ts_state" where
  "LockRoot tt s = latch_call (Acquire (root_mode tt) RootLatch) s"

definition UnlockRoot :: "transaction_type \<Rightarrow> ('k, 'v) ts_state \<Rightarrow> ('k, 'v) ts_state" where
  "UnlockRoot tt s = latch_call (Release (root_mode tt) RootLatch) s"

fun IsLeafPage :: "('k, 'v) page \<Rightarrow> bool" where
  "IsLeafPage (LeafNode p) = True"
| "IsLeafPage n = False"

definition page_mode :: "transaction_type \<Rightarrow> ('k, 'v) page \<Rightarrow> latch_mode" where
  "page_mode tt node =
     (if tt = INSERT \<or> tt = DELETE \<or>
         (tt = OPTIMISTIC_INSERT \<or> tt = OPTIMISTIC_DELETE) \<and> IsLeafPage node
      then Exclusive else Shared)"

definition LatchPage :: "int \<Rightarrow> transaction_type \<Rightarrow> ('k, 'v) ts_state \<Rightarrow> ('k, 'v) ts_state option" where
  "LatchPage pid tt s =
     do { node \<leftarrow> get_node pid (tree s);
          Some (latch_call (Acquire (page_mode tt node) (PageLatch pid)) s) }"

definition UnlatchPage :: "int \<Rightarrow> transaction_type \<Rightarrow> ('k, 'v) ts_state \<Rightarrow> ('k, 'v) ts_state option" where
  "UnlatchPage pid tt s =
     do { node \<leftarrow> get_node pid (tree s);
          let s1 = (if node_parent node = INVALID_PAGE_ID then UnlockRoot tt s else s);
          Some (latch_call (Release (page_mode tt node) (PageLatch pid)) s1) }"

definition UnlatchNode :: "int \<Rightarrow> transaction_type \<Rightarrow> ('k, 'v) ts_state \<Rightarrow> ('k, 'v) ts_state option" where
  "UnlatchNode pid tt s =
     do { (n, t) \<leftarrow> fetch_page pid (tree s);
          s1 \<leftarrow> UnlatchPage pid tt (s\<lparr>tree := t\<rparr>);
          Some (with_tree (unpin_page pid) s1) }"

fun release_pages ::
    "int list \<Rightarrow> transaction_type \<Rightarrow> ('k, 'v) ts_state \<Rightarrow> ('k, 'v) ts_state option" where
  "release_pages [] tt s = Some s"
| "release_pages (pid # ps) tt s =
     do { s1 \<leftarrow> UnlatchPage pid tt s;
          release_pages ps tt (with_tree (unpin_page pid) s1) }"

definition ReleasePages :: "transaction_type \<Rightarrow> ('k, 'v) ts_state \<Rightarrow> ('k, 'v) ts_state option" where
  "ReleasePages tt s =
     do { s1 \<leftarrow> release_pages (page_set s) tt s; Some (s1\<lparr>page_set := []\<rparr>) }"

text \<open>\<^verbatim>\<open>DeletePages\<close> walks over \<^verbatim>\<open>GetPageSet()\<close> and clears \<^verbatim>\<open>GetDeletedPageSet()\<close>.\<close>

definition DeletePages :: "('k, 'v) ts_state \<Rightarrow> ('k, 'v) ts_state" where
  "DeletePages s = s\<lparr>tree := fold delete_page (page_set s) (tree s), deleted_page_set := []\<rparr>"

text \<open>
  \<^verbatim>\<open>UnpinPage\<close> with its argument \<^verbatim>\<open>is_dirty\<close>, as the attempts with shared latches call it on a leaf they may
  have written: \<open>old\<close> is the leaf before. A leaf that was changed and is not marked comes back with its
  old contents if its frame is replaced before the pool is flushed; \<open>unsaved\<close> remembers it.
\<close>

definition UnpinLeaf :: "bool \<Rightarrow> int \<Rightarrow> ('k, 'v) leaf_page \<Rightarrow> ('k, 'v) ts_state \<Rightarrow> ('k, 'v) ts_state" where
  "UnpinLeaf is_dirty pid old s =
     (let s1 = with_tree (unpin_page pid) s
      in if \<not> is_dirty \<and> get_leaf pid (tree s) \<noteq> Some old
         then s1\<lparr>unsaved := (pid, old) # unsaved s1\<rparr> else s1)"

definition IsInsertSafe :: "('k, 'v) page \<Rightarrow> bool" where
  "IsInsertSafe node \<longleftrightarrow> node_size node + 1 < node_max_size node"

definition IsDeleteSafe :: "('k, 'v) page \<Rightarrow> bool" where
  "IsDeleteSafe node \<longleftrightarrow> node_min_size node < node_size node"

section \<open>The way down\<close>

text \<open>
  A reading operation lets go of a page when it has the latch of the next one; an update keeps
  its ancestors in the page set until it reaches a page that will not change its parent.
\<close>

partial_function (option) CrabToLeaf_loop ::
    "'k \<Rightarrow> transaction_type \<Rightarrow> bool \<Rightarrow> int \<Rightarrow> ('k, 'v) ts_state \<Rightarrow> (int \<times> ('k, 'v) ts_state) option" where
  "CrabToLeaf_loop key tt leftMost last_page_id s =
     do { last_node \<leftarrow> get_internal last_page_id (tree s);
          next_page_id \<leftarrow>
            (if leftMost then InternalPage_ValueAt 0 last_node
             else InternalPage_Lookup (comparator (tree s)) key last_node);
          (next_node, t1) \<leftarrow> fetch_page next_page_id (tree s);
          s2 \<leftarrow> LatchPage next_page_id tt (s\<lparr>tree := t1\<rparr>);
          s3 \<leftarrow>
            (if reading tt then do {
               s' \<leftarrow> UnlatchPage last_page_id tt s2;
               Some (with_tree (unpin_page last_page_id) s') }
             else
               let s' = AddIntoPageSet last_page_id s2
               in if tt = INSERT \<and> IsInsertSafe next_node \<or> tt = DELETE \<and> IsDeleteSafe next_node
                  then ReleasePages tt s' else Some s');
          (case next_node of
             LeafNode p \<Rightarrow> Some (next_page_id, s3)
           | InternalNode p \<Rightarrow> CrabToLeaf_loop key tt leftMost next_page_id s3
           | HeaderNode recs \<Rightarrow> None) }"

definition CrabToLeaf ::
    "'k \<Rightarrow> transaction_type \<Rightarrow> bool \<Rightarrow> bool \<Rightarrow> bool \<Rightarrow> ('k, 'v) ts_state \<Rightarrow>
     (int \<times> ('k, 'v) ts_state) option" where
  "CrabToLeaf key tt leftMost rootLatched isLocked s =
     (let s1 = (if rootLatched then s
                else let s' = LockRoot tt s in if isLocked then Transaction_Unlock s' else s');
          root = root_page_id (tree s1)
      in if root = INVALID_PAGE_ID then Some (INVALID_PAGE_ID, UnlockRoot tt s1)
         else do {
           (root_node, t) \<leftarrow> fetch_page root (tree s1);
           s2 \<leftarrow> LatchPage root tt (s1\<lparr>tree := t\<rparr>);
           (case root_node of
              LeafNode p \<Rightarrow> Some (root, s2)
            | InternalNode p \<Rightarrow> CrabToLeaf_loop key tt leftMost root s2
            | HeaderNode recs \<Rightarrow> None) })"

definition TS_FindLeafPage ::
    "'k \<Rightarrow> bool \<Rightarrow> ('k, 'v) ts_state \<Rightarrow> (int \<times> ('k, 'v) ts_state) option" where
  "TS_FindLeafPage key leftMost s = CrabToLeaf key FIND leftMost False True s"

section \<open>Searching\<close>

text \<open>Both \<^verbatim>\<open>GetValue\<close>s return their result and the values they push onto the vector.\<close>

definition TS_GetValue ::
    "'k \<Rightarrow> ('k, 'v) ts_state \<Rightarrow> (bool \<times> 'v list \<times> ('k, 'v) ts_state) option" where
  "TS_GetValue key s =
     do { (leaf_pid, s1) \<leftarrow> CrabToLeaf key FIND False False True s;
          if leaf_pid = INVALID_PAGE_ID then Some (False, [], s1)
          else do {
            leaf \<leftarrow> get_leaf leaf_pid (tree s1);
            let found = LeafPage_Lookup (comparator (tree s1)) key leaf;
            s2 \<leftarrow> UnlatchPage leaf_pid FIND s1;
            Some (found \<noteq> None, case found of None \<Rightarrow> [] | Some v \<Rightarrow> [v],
                  with_tree (unpin_page leaf_pid) s2) } }"

definition scan_clear_up :: "int \<Rightarrow> ('k, 'v) ts_state \<Rightarrow> ('k, 'v) ts_state option" where
  "scan_clear_up pid s =
     do { s1 \<leftarrow> UnlatchPage pid MULTIFIND s; Some (with_tree (unpin_page pid) s1) }"

partial_function (option) TS_scan_loop ::
    "'k \<Rightarrow> ('k \<Rightarrow> 'k \<Rightarrow> int) \<Rightarrow> int \<Rightarrow> int \<Rightarrow> 'v list \<Rightarrow> ('k, 'v) ts_state \<Rightarrow>
     ('v list \<times> ('k, 'v) ts_state) option" where
  "TS_scan_loop key new_comparator pid index result s =
     do { leaf \<leftarrow> get_leaf pid (tree s);
          (stop, index', result') \<leftarrow>
            (if index \<noteq> -1 then do {
               item \<leftarrow> LeafPage_GetItem index leaf;
               Some (if new_comparator key (fst item) \<noteq> 0 then (True, index, result)
                     else (False, index + 1, result @ [snd item])) }
             else Some (False, index, result));
          if stop then do {
            s1 \<leftarrow> scan_clear_up pid s;
            Some (result', Transaction_Unlock s1) }
          else if index' = -1 \<or> index' = LeafPage_GetSize leaf then do {
            s1 \<leftarrow> scan_clear_up pid s;
            if next_page_id leaf = INVALID_PAGE_ID then Some (result', Transaction_Unlock s1)
            else do {
              (n, t) \<leftarrow> fetch_page (next_page_id leaf) (tree s1);
              s2 \<leftarrow> LatchPage (next_page_id leaf) MULTIFIND (s1\<lparr>tree := t\<rparr>);
              TS_scan_loop key new_comparator (next_page_id leaf) 0 result' s2 } }
          else TS_scan_loop key new_comparator pid index' result' s }"

definition TS_ScanValue ::
    "'k \<Rightarrow> ('k \<Rightarrow> 'k \<Rightarrow> int) \<Rightarrow> ('k, 'v) ts_state \<Rightarrow> (bool \<times> 'v list \<times> ('k, 'v) ts_state) option" where
  "TS_ScanValue key new_comparator s =
     do { (leaf_pid, s1) \<leftarrow> CrabToLeaf key MULTIFIND False False False s;
          if leaf_pid = INVALID_PAGE_ID then Some (False, [], Transaction_Unlock s1)
          else do {
            leaf \<leftarrow> get_leaf leaf_pid (tree s1);
            let index = LeafPage_KeyIndex (comparator (tree s1)) key leaf;
            (result, s2) \<leftarrow> TS_scan_loop key new_comparator leaf_pid index [] s1;
            Some (True, result, s2) } }"

section \<open>Insertion\<close>

text \<open>Here the root is pinned as long as it is the root.\<close>

definition TS_UpdateRootPageId :: "('k, 'v) bpt \<Rightarrow> ('k, 'v) bpt option" where
  "TS_UpdateRootPageId t =
     do { (n, t1) \<leftarrow> fetch_page HEADER_PAGE_ID t;
          (case n of
             HeaderNode recs \<Rightarrow> do {
               found \<leftarrow> HeaderPage_SearchRecord (index_name t) recs;
               last_root_page_id \<leftarrow> found;
               let t2 = (if last_root_page_id \<noteq> -1 then unpin_page last_root_page_id t1 else t1);
               (ok, recs') \<leftarrow> HeaderPage_UpdateRecord (index_name t) (root_page_id t) recs;
               let t3 = put_page HEADER_PAGE_ID (HeaderNode recs') t2;
               t4 \<leftarrow> (if root_page_id t \<noteq> -1
                      then do { (m, t') \<leftarrow> fetch_page (root_page_id t) t3; Some t' }
                      else Some t3);
               Some (unpin_page HEADER_PAGE_ID t4) }
           | _ \<Rightarrow> None) }"

definition TS_StartNewTree :: "'k \<Rightarrow> 'v \<Rightarrow> ('k, 'v) bpt \<Rightarrow> ('k, 'v) bpt option" where
  "TS_StartNewTree key value t =
     do { let (pid, t1) = NewLeaf INVALID_PAGE_ID t;
          node \<leftarrow> get_leaf pid t1;
          let node' = snd (LeafPage_Insert (comparator t1) key value node);
          let t2 = unpin_page pid (put_page pid (LeafNode node') t1);
          TS_UpdateRootPageId (t2\<lparr>root_page_id := pid\<rparr>) }"

definition TS_GrowRoot :: "int \<Rightarrow> 'k \<Rightarrow> int \<Rightarrow> ('k, 'v) ts_state \<Rightarrow> ('k, 'v) ts_state option" where
  "TS_GrowRoot old_pid key new_pid s =
     do { let t = tree s;
          let (root_pid, t1) = NewInternal INVALID_PAGE_ID t;
          t2 \<leftarrow> update_internal root_pid
                  (InternalPage_PopulateNewRoot (zero_key t) old_pid key new_pid) t1;
          old_node \<leftarrow> get_node old_pid t2;
          let t3 = put_page old_pid (node_set_parent root_pid old_node) t2;
          new_node \<leftarrow> get_node new_pid t3;
          let t4 = put_page new_pid (node_set_parent root_pid new_node) t3;
          t5 \<leftarrow> TS_UpdateRootPageId (t4\<lparr>root_page_id := root_pid\<rparr>);
          let s1 = latch_call (Release Exclusive RootLatch) (s\<lparr>tree := t5\<rparr>);
          Some (with_tree (unpin_page new_pid)
                 (with_tree (unpin_page old_pid) (with_tree (unpin_page root_pid) s1))) }"

partial_function (option) TS_InsertIntoParent ::
    "int \<Rightarrow> 'k \<Rightarrow> int \<Rightarrow> ('k, 'v) ts_state \<Rightarrow> ('k, 'v) ts_state option" where
  "TS_InsertIntoParent old_pid key new_pid s =
     do { old_node \<leftarrow> get_node old_pid (tree s);
          if node_parent old_node = INVALID_PAGE_ID then TS_GrowRoot old_pid key new_pid s
          else do {
            let parent_pid = node_parent old_node;
            (n, t1) \<leftarrow> fetch_page parent_pid (tree s);
            let t2 = unpin_page new_pid (unpin_page old_pid t1);
            t3 \<leftarrow> update_internal parent_pid
                    (\<lambda>p. snd (InternalPage_InsertNodeAfter old_pid key new_pid p)) t2;
            parent_node \<leftarrow> get_internal parent_pid t3;
            if InternalPage_GetSize parent_node = max_size parent_node then do {
              (extra_pid, t4) \<leftarrow> SplitInternal parent_pid t3;
              extra_node \<leftarrow> get_internal extra_pid t4;
              extra_key \<leftarrow> InternalPage_KeyAt 0 extra_node;
              TS_InsertIntoParent parent_pid extra_key extra_pid (s\<lparr>tree := t4\<rparr>) }
            else Some (s\<lparr>tree := unpin_page parent_pid t3\<rparr>) } }"

definition TS_InsertIntoLeaf ::
    "'k \<Rightarrow> 'v \<Rightarrow> ('k, 'v) ts_state \<Rightarrow> (bool \<times> ('k, 'v) ts_state) option" where
  "TS_InsertIntoLeaf key value s =
     do { (leaf_pid, s1) \<leftarrow> CrabToLeaf key INSERT False True False s;
          leaf \<leftarrow> get_leaf leaf_pid (tree s1);
          let (size, leaf') = LeafPage_Insert (comparator (tree s1)) key value leaf;
          let s2 = with_tree (put_page leaf_pid (LeafNode leaf')) s1;
          if size = -1 then do {
            s3 \<leftarrow> ReleasePages INSERT s2;
            s4 \<leftarrow> UnlatchPage leaf_pid INSERT s3;
            Some (False, with_tree (unpin_page leaf_pid) s4) }
          else if LeafPage_GetSize leaf' < max_size leaf' then do {
            s3 \<leftarrow> UnlatchPage leaf_pid INSERT s2;
            Some (True, with_tree (unpin_page leaf_pid) s3) }
          else do {
            (extra_pid, t3) \<leftarrow> SplitLeaf leaf_pid (tree s2);
            leaf_node \<leftarrow> get_leaf leaf_pid t3;
            extra_node \<leftarrow> get_leaf extra_pid t3;
            let t4 = put_page extra_pid
                       (LeafNode (extra_node\<lparr>next_page_id := next_page_id leaf_node\<rparr>)) t3;
            let t5 = put_page leaf_pid (LeafNode (leaf_node\<lparr>next_page_id := extra_pid\<rparr>)) t4;
            extra_key \<leftarrow> LeafPage_KeyAt 0 extra_node;
            s3 \<leftarrow> TS_InsertIntoParent leaf_pid extra_key extra_pid (s2\<lparr>tree := t5\<rparr>);
            s4 \<leftarrow> ReleasePages INSERT s3;
            s5 \<leftarrow> UnlatchPage leaf_pid INSERT s4;
            Some (True, s5) } }"

definition TS_Insert ::
    "'k \<Rightarrow> 'v \<Rightarrow> bool \<Rightarrow> ('k, 'v) ts_state \<Rightarrow> (bool \<times> ('k, 'v) ts_state) option" where
  "TS_Insert key value isCalled s =
     (let s1 = latch_call (Acquire Exclusive RootLatch) s;
          s2 = (if isCalled then s1 else Transaction_Unlock s1)
      in if BPlusTree_IsEmpty (tree s2) then do {
           t \<leftarrow> TS_StartNewTree key value (tree s2);
           Some (True, latch_call (Release Exclusive RootLatch) (s2\<lparr>tree := t\<rparr>)) }
         else TS_InsertIntoLeaf key value s2)"

definition TentativeInsert ::
    "'k \<Rightarrow> 'v \<Rightarrow> ('k, 'v) ts_state \<Rightarrow> (insert_state \<times> ('k, 'v) ts_state) option" where
  "TentativeInsert key value s =
     do { (leaf_pid, s1) \<leftarrow> CrabToLeaf key OPTIMISTIC_INSERT False False True s;
          if leaf_pid = INVALID_PAGE_ID then Some (NO_ROOT, s1)
          else do {
            leaf \<leftarrow> get_leaf leaf_pid (tree s1);
            let (state, leaf') =
              (if \<not> IsInsertSafe (LeafNode leaf :: ('k, 'v) page) then (INSERT_UNSAFE, leaf)
               else let (size, l') = LeafPage_Insert (comparator (tree s1)) key value leaf
                    in (if size = -1 then DUPLICATE_KEY else INSERTED, l'));
            let s2 = with_tree (put_page leaf_pid (LeafNode leaf')) s1;
            s3 \<leftarrow> UnlatchPage leaf_pid OPTIMISTIC_INSERT s2;
            Some (state, UnpinLeaf (state = INSERTED) leaf_pid leaf s3) } }"

definition OptimisticInsert ::
    "'k \<Rightarrow> 'v \<Rightarrow> ('k, 'v) ts_state \<Rightarrow> (bool \<times> ('k, 'v) ts_state) option" where
  "OptimisticInsert key value s =
     do { (flag, s1) \<leftarrow> TentativeInsert key value s;
          (case flag of
             INSERTED \<Rightarrow> Some (True, s1)
           | DUPLICATE_KEY \<Rightarrow> Some (False, s1)
           | _ \<Rightarrow> TS_Insert key value True s1) }"

section \<open>Removal\<close>

definition TS_AdjustRoot :: "int \<Rightarrow> ('k, 'v) ts_state \<Rightarrow> (bool \<times> ('k, 'v) ts_state) option" where
  "TS_AdjustRoot pid s =
     do { old_root_node \<leftarrow> get_node pid (tree s);
          (case old_root_node of
             InternalNode root_node \<Rightarrow>
               if InternalPage_GetSize root_node = 1 then do {
                 (child_pid, root_node') \<leftarrow> InternalPage_RemoveAndReturnOnlyChild root_node;
                 let s1 = with_tree (\<lambda>t. unpin_page pid (put_page pid (InternalNode root_node') t)) s;
                 let s2 = AddIntoDeletedPageSet pid s1;
                 (child_node, t3) \<leftarrow> fetch_page child_pid (tree s2);
                 let t4 = put_page child_pid (node_set_parent INVALID_PAGE_ID child_node) t3;
                 let t5 = (unpin_page child_pid t4)\<lparr>root_page_id := child_pid\<rparr>;
                 t6 \<leftarrow> TS_UpdateRootPageId t5;
                 Some (True, latch_call (Release Exclusive RootLatch) (s2\<lparr>tree := t6\<rparr>)) }
               else Some (False, with_tree (unpin_page pid) s)
           | LeafNode root_node \<Rightarrow>
               if LeafPage_GetSize root_node = 0 then do {
                 let s1 = AddIntoDeletedPageSet pid (with_tree (unpin_page pid) s);
                 t2 \<leftarrow> TS_UpdateRootPageId ((tree s1)\<lparr>root_page_id := INVALID_PAGE_ID\<rparr>);
                 Some (True, latch_call (Release Exclusive RootLatch) (s1\<lparr>tree := t2\<rparr>)) }
               else Some (False, with_tree (unpin_page pid) s)
           | HeaderNode recs \<Rightarrow> None) }"

definition TS_Redistribute ::
    "int \<Rightarrow> int \<Rightarrow> int \<Rightarrow> ('k, 'v) ts_state \<Rightarrow> ('k, 'v) ts_state option" where
  "TS_Redistribute neighbor_pid node_pid index s =
     do { node \<leftarrow> get_node node_pid (tree s);
          let parent_pid = node_parent node;
          (n, t1) \<leftarrow> fetch_page parent_pid (tree s);
          parent_node \<leftarrow> get_internal parent_pid t1;
          let array_id =
            InternalPage_ValueIndex (if index = 0 then neighbor_pid else node_pid) parent_node;
          middle_key \<leftarrow> InternalPage_KeyAt array_id parent_node;
          (key, t2) \<leftarrow>
            (if index = 0 then shift_left_pages node_pid neighbor_pid middle_key t1
             else shift_right_pages neighbor_pid node_pid middle_key t1);
          t3 \<leftarrow> update_internal parent_pid (InternalPage_SetKeyAt array_id key) t2;
          s1 \<leftarrow> UnlatchNode neighbor_pid DELETE (s\<lparr>tree := unpin_page node_pid t3\<rparr>);
          Some (with_tree (\<lambda>t. unpin_page parent_pid (unpin_page neighbor_pid t)) s1) }"

text \<open>
  \<^verbatim>\<open>Coalesce\<close> up to its last statement, the call of \<^verbatim>\<open>CoalesceOrRedistribute\<close> on the parent.
  The page whose latch it releases is the neighbour it was called with, on either side.
\<close>

definition TS_Coalesce ::
    "int \<Rightarrow> int \<Rightarrow> int \<Rightarrow> int \<Rightarrow> ('k, 'v) ts_state \<Rightarrow> ('k, 'v) ts_state option" where
  "TS_Coalesce neighbor_pid0 node_pid0 parent_pid index0 s =
     do { let is_swap = (index0 = 0);
          let neighbor_pid = (if is_swap then node_pid0 else neighbor_pid0);
          let node_pid = (if is_swap then neighbor_pid0 else node_pid0);
          let index = (if is_swap then 1 else index0);
          parent \<leftarrow> get_internal parent_pid (tree s);
          middle_key \<leftarrow> InternalPage_KeyAt index parent;
          t1 \<leftarrow> merge_pages neighbor_pid node_pid middle_key (tree s);
          t2 \<leftarrow> update_internal parent_pid (InternalPage_Remove index) t1;
          s1 \<leftarrow> UnlatchNode (if is_swap then node_pid else neighbor_pid) DELETE (s\<lparr>tree := t2\<rparr>);
          let s2 = with_tree (\<lambda>t. unpin_page node_pid (unpin_page neighbor_pid t)) s1;
          Some (AddIntoDeletedPageSet node_pid s2) }"

partial_function (option) TS_CoalesceOrRedistribute ::
    "int \<Rightarrow> ('k, 'v) ts_state \<Rightarrow> (bool \<times> ('k, 'v) ts_state) option" where
  "TS_CoalesceOrRedistribute pid s =
     do { node \<leftarrow> get_node pid (tree s);
          if node_min_size node \<le> node_size node then Some (True, with_tree (unpin_page pid) s)
          else if node_parent node = INVALID_PAGE_ID then TS_AdjustRoot pid s
          else do {
            let parent_pid = node_parent node;
            (n, t1) \<leftarrow> fetch_page parent_pid (tree s);
            parent_node \<leftarrow> get_internal parent_pid t1;
            let node_id = InternalPage_ValueIndex pid parent_node;
            neighbor_pid \<leftarrow>
              InternalPage_ValueAt (if node_id = 0 then 1 else node_id - 1) parent_node;
            (neighbor, t2) \<leftarrow> fetch_page neighbor_pid t1;
            s2 \<leftarrow> LatchPage neighbor_pid DELETE (s\<lparr>tree := t2\<rparr>);
            if node_size neighbor + node_size node < node_max_size node then do {
              s3 \<leftarrow> TS_Coalesce neighbor_pid pid parent_pid node_id s2;
              TS_CoalesceOrRedistribute parent_pid s3 }
            else do {
              s3 \<leftarrow> TS_Redistribute neighbor_pid pid (if node_id = 0 then 0 else 1) s2;
              Some (False, with_tree (unpin_page parent_pid) s3) } } }"

definition TS_Remove :: "'k \<Rightarrow> bool \<Rightarrow> ('k, 'v) ts_state \<Rightarrow> ('k, 'v) ts_state option" where
  "TS_Remove key isCalled s =
     do { (leaf_pid, s1) \<leftarrow> CrabToLeaf key DELETE False False (\<not> isCalled) s;
          if leaf_pid = INVALID_PAGE_ID then Some s1
          else do {
            leaf \<leftarrow> get_leaf leaf_pid (tree s1);
            let (size, leaf') = LeafPage_RemoveAndDeleteRecord (comparator (tree s1)) key leaf;
            s2 \<leftarrow>
              (if size \<noteq> -1 then do {
                 (b, s') \<leftarrow> TS_CoalesceOrRedistribute leaf_pid
                             (with_tree (put_page leaf_pid (LeafNode leaf')) s1);
                 Some s' }
               else Some (with_tree (unpin_page leaf_pid) s1));
            s3 \<leftarrow> ReleasePages DELETE s2;
            s4 \<leftarrow> UnlatchPage leaf_pid DELETE s3;
            Some (DeletePages s4) } }"

definition TentativeRemove ::
    "'k \<Rightarrow> ('k, 'v) ts_state \<Rightarrow> (delete_state \<times> ('k, 'v) ts_state) option" where
  "TentativeRemove key s =
     do { (leaf_pid, s1) \<leftarrow> CrabToLeaf key OPTIMISTIC_DELETE False False True s;
          if leaf_pid = INVALID_PAGE_ID then Some (PAGE_FAULT, s1)
          else do {
            leaf \<leftarrow> get_leaf leaf_pid (tree s1);
            let (state, leaf') =
              (if \<not> IsDeleteSafe (LeafNode leaf :: ('k, 'v) page) then (DELETE_UNSAFE, leaf)
               else let (size, l') = LeafPage_RemoveAndDeleteRecord (comparator (tree s1)) key leaf
                    in (if size = -1 then NO_ENTRY else DELETED, l'));
            let s2 = with_tree (put_page leaf_pid (LeafNode leaf')) s1;
            s3 \<leftarrow> UnlatchPage leaf_pid OPTIMISTIC_DELETE s2;
            Some (state, UnpinLeaf (state = DELETED) leaf_pid leaf s3) } }"

definition OptimisticRemove :: "'k \<Rightarrow> ('k, 'v) ts_state \<Rightarrow> ('k, 'v) ts_state option" where
  "OptimisticRemove key s =
     do { (flag, s1) \<leftarrow> TentativeRemove key s;
          (case flag of DELETE_UNSAFE \<Rightarrow> TS_Remove key True s1 | _ \<Rightarrow> Some s1) }"

section \<open>The index\<close>

text \<open>
  Each entry point makes a transaction around the lock of the task queue and discards it at the
  end. The calls on latches that an operation makes are those of its final state.
\<close>

definition begin_transaction :: "('k, 'v) bpt \<Rightarrow> ('k, 'v) ts_state" where
  "begin_transaction t = \<lparr>tree = t, calls = [], page_set = [], deleted_page_set = [], unsaved = []\<rparr>"

text \<open>\<open>unsaved\<close> outlives the operation: a frame may be replaced at any time until the pool is flushed.\<close>

record ('k, 'v) index_ts =
  ts_tree :: "('k, 'v) bpt"
  ts_unsaved :: "(int \<times> ('k, 'v) leaf_page) list"

definition enter_tree :: "('k, 'v) index_ts \<Rightarrow> ('k, 'v) ts_state" where
  "enter_tree ix = (begin_transaction (ts_tree ix))\<lparr>unsaved := ts_unsaved ix\<rparr>"

definition leave_tree :: "('k, 'v) ts_state \<Rightarrow> ('k, 'v) index_ts" where
  "leave_tree s = \<lparr>ts_tree = tree s, ts_unsaved = unsaved s\<rparr>"

definition TS_InsertEntry :: "'k \<Rightarrow> 'v \<Rightarrow> ('k, 'v) index_ts \<Rightarrow> ('k, 'v) index_ts option" where
  "TS_InsertEntry key value ix =
     do { (b, s) \<leftarrow> OptimisticInsert key value (enter_tree ix); Some (leave_tree s) }"

definition TS_DeleteEntry :: "'k \<Rightarrow> ('k, 'v) index_ts \<Rightarrow> ('k, 'v) index_ts option" where
  "TS_DeleteEntry key ix =
     do { s \<leftarrow> OptimisticRemove key (enter_tree ix); Some (leave_tree s) }"

definition TS_ScanKey ::
    "'k \<Rightarrow> ('k \<Rightarrow> 'k \<Rightarrow> int) \<Rightarrow> ('k, 'v) index_ts \<Rightarrow> ('v list \<times> ('k, 'v) index_ts) option" where
  "TS_ScanKey key standby_cmp ix =
     do { (b, result, s) \<leftarrow> TS_ScanValue key standby_cmp (enter_tree ix); Some (result, leave_tree s) }"

definition TS_SearchKey :: "'k \<Rightarrow> ('k, 'v) index_ts \<Rightarrow> ('v list \<times> ('k, 'v) index_ts) option" where
  "TS_SearchKey key ix =
     do { (b, result, s) \<leftarrow> TS_GetValue key (enter_tree ix); Some (result, leave_tree s) }"

end
