(* ===== verification/TSLatches.thy ===== *)
theory TSLatches
  imports TSTree
begin

text \<open>
  The latches of an operation of the thread-safe tree. \<open>run_calls\<close> replays the calls of one
  thread from the latches it holds: an acquisition of a latch the thread holds already (it would
  wait for itself) and a release of a latch it does not hold in that mode have no result.
  \<open>latched\<close> is the set of latches that belongs to a set of pages: their own, and the root latch
  with the root page. The lemmas follow \<^verbatim>\<open>CrabToLeaf\<close> down a tree that satisfies the invariant.
\<close>

section \<open>Replaying the calls\<close>

fun run_calls :: "latch_call list \<Rightarrow> (latch \<Rightarrow> latch_mode option) \<Rightarrow> (latch \<Rightarrow> latch_mode option) option" where
  "run_calls [] h = Some h"
| "run_calls (Acquire m l # cs) h = (if h l = None then run_calls cs (h(l \<mapsto> m)) else None)"
| "run_calls (Release m l # cs) h = (if h l = Some m then run_calls cs (h(l := None)) else None)"

lemma run_calls_append:
  "run_calls (xs @ ys) h = do { h' \<leftarrow> run_calls xs h; run_calls ys h' }"
proof (induction xs arbitrary: h)
  case (Cons c xs)
  then show ?case by (cases c) (simp_all add: fun_upd_def)
qed simp

lemma run_calls_append_Some [intro]:
  "run_calls xs h = Some h' \<Longrightarrow> run_calls ys h' = r \<Longrightarrow> run_calls (xs @ ys) h = r"
  by (simp add: run_calls_append)

text \<open>A latch that is not held and not acquired is not released.\<close>

lemma run_calls_unheld:
  "run_calls cs h = Some h' \<Longrightarrow> h l = None \<Longrightarrow> \<forall>m. Acquire m l \<notin> set cs \<Longrightarrow> \<forall>m. Release m l \<notin> set cs"
  by (induction cs h rule: run_calls.induct) (auto split: if_splits)

lemma ts_update_commute:
  "s\<lparr>calls := cs, tree := t\<rparr> = s\<lparr>tree := t, calls := cs\<rparr>"
  "s\<lparr>page_set := ps, tree := t\<rparr> = s\<lparr>tree := t, page_set := ps\<rparr>"
  "s\<lparr>page_set := ps, calls := cs\<rparr> = s\<lparr>calls := cs, page_set := ps\<rparr>"
  "s\<lparr>deleted_page_set := ds, tree := t\<rparr> = s\<lparr>tree := t, deleted_page_set := ds\<rparr>"
  "s\<lparr>deleted_page_set := ds, calls := cs\<rparr> = s\<lparr>calls := cs, deleted_page_set := ds\<rparr>"
  "s\<lparr>deleted_page_set := ds, page_set := ps\<rparr> = s\<lparr>page_set := ps, deleted_page_set := ds\<rparr>"
  "s\<lparr>unsaved := us, tree := t\<rparr> = s\<lparr>tree := t, unsaved := us\<rparr>"
  "s\<lparr>unsaved := us, calls := cs\<rparr> = s\<lparr>calls := cs, unsaved := us\<rparr>"
  "s\<lparr>unsaved := us, page_set := ps\<rparr> = s\<lparr>page_set := ps, unsaved := us\<rparr>"
  "s\<lparr>unsaved := us, deleted_page_set := ds\<rparr> = s\<lparr>deleted_page_set := ds, unsaved := us\<rparr>"
  by (cases s, simp)+

lemma UnpinLeaf_put:
  "UnpinLeaf d q l (s\<lparr>tree := put_page q (LeafNode l') t, calls := cs, page_set := ps\<rparr>)
     = s\<lparr>tree := unpin_page q (put_page q (LeafNode l') t), calls := cs, page_set := ps,
         unsaved := (if \<not> d \<and> l' \<noteq> l then (q, l) # unsaved s else unsaved s)\<rparr>"
proof -
  have "get_leaf q (put_page q (LeafNode l') t) = Some l'" by (intro get_leaf_eq) simp
  then show ?thesis by (cases s) (simp add: UnpinLeaf_def with_tree_def)
qed

lemma UnpinLeaf_kept:
  "d \<or> l' = l \<Longrightarrow> UnpinLeaf d q l (s\<lparr>tree := put_page q (LeafNode l') t, calls := cs\<rparr>)
     = s\<lparr>tree := unpin_page q (put_page q (LeafNode l') t), calls := cs\<rparr>"
  using UnpinLeaf_put [where d = d and q = q and l = l and s = s and l' = l' and t = t and cs = cs and ps = "page_set s"] by (cases s) (auto split: if_splits)

section \<open>Pins of a list of pages\<close>

definition pinned :: "int list \<Rightarrow> ('k, 'v) bpt \<Rightarrow> ('k, 'v) bpt" where
  "pinned ps st = st\<lparr>pins := (\<lambda>x. pins st x + count_list ps x)\<rparr>"

lemma pinned_fields [simp]:
  "pages (pinned ps st) = pages st" "root_page_id (pinned ps st) = root_page_id st"
  "comparator (pinned ps st) = comparator st" "leaf_max_size (pinned ps st) = leaf_max_size st"
  "internal_max_size (pinned ps st) = internal_max_size st"
  "index_name (pinned ps st) = index_name st"
  "zero_key (pinned ps st) = zero_key st" "disk_next (pinned ps st) = disk_next st"
  "pins (pinned ps st) = (\<lambda>x. pins st x + count_list ps x)"
  by (simp_all add: pinned_def)

lemma pinned_Nil [simp]: "pinned [] st = st"
  by (simp add: pinned_def)

lemma pin_pinned: "pin p (pinned ps st) = pinned (ps @ [p]) st"
  by (auto simp: pin_def pinned_def fun_eq_iff intro!: bpt.equality)

lemma unpin_pinned: "unpin_page p (pinned (p # ps) st) = pinned ps st"
  by (auto simp: unpin_page_def pinned_def fun_eq_iff intro!: bpt.equality)

lemma pinned_single: "pinned [p] st = pin p st"
  using pin_pinned [of p "[]" st] by simp

definition unpins :: "int list \<Rightarrow> ('k, 'v) bpt \<Rightarrow> ('k, 'v) bpt" where
  "unpins ps t = fold unpin_page ps t"

lemma unpins_simps [simp]: "unpins [] t = t" "unpins (p # ps) t = unpins ps (unpin_page p t)"
  by (simp_all add: unpins_def)

lemma unpins_fields [simp]:
  "pages (unpins ps st) = pages st" "root_page_id (unpins ps st) = root_page_id st"
  "comparator (unpins ps st) = comparator st" "leaf_max_size (unpins ps st) = leaf_max_size st"
  "internal_max_size (unpins ps st) = internal_max_size st"
  "index_name (unpins ps st) = index_name st"
  "zero_key (unpins ps st) = zero_key st" "disk_next (unpins ps st) = disk_next st"
  by (induction ps arbitrary: st) simp_all

lemma pins_unpins: "pins (unpins ps st) = (\<lambda>x. pins st x - count_list ps x)"
  by (induction ps arbitrary: st) (auto simp: fun_eq_iff)

lemma unpins_pinned: "unpins ps (pinned (ps @ qs) st) = pinned qs st"
  by (auto simp: pins_unpins fun_eq_iff intro!: bpt.equality)

section \<open>Latching and unlatching\<close>

lemma get_node_pages: "pages t = pages t' \<Longrightarrow> get_node p t = get_node p t'"
  by (simp add: get_node_def)

definition mode_of :: "transaction_type \<Rightarrow> ('k, 'v) bpt \<Rightarrow> int \<Rightarrow> latch_mode" where
  "mode_of tt t p = page_mode tt (the (pages t p))"

lemma mode_of_writing: "\<not> reading tt \<Longrightarrow> mode_of tt t p = Exclusive"
  by (cases tt) (simp_all add: mode_of_def page_mode_def)

lemma mode_of_cong: "pages t = pages t' \<Longrightarrow> mode_of tt t p = mode_of tt t' p"
  by (simp add: mode_of_def)

lemma get_node_the: "get_node p t = Some n \<Longrightarrow> pages t p = Some n"
  by (auto simp: get_node_def split: option.splits page.splits)

definition let_go :: "transaction_type \<Rightarrow> ('k, 'v) bpt \<Rightarrow> int \<Rightarrow> latch_call list" where
  "let_go tt t p =
     (if p = root_page_id t then [Release (root_mode tt) RootLatch] else []) @
     [Release (mode_of tt t p) (PageLatch p)]"

text \<open>The pages of a path: nodes of which exactly the root has no parent.\<close>

definition path_ok :: "('k, 'v) bpt \<Rightarrow> int set \<Rightarrow> bool" where
  "path_ok t A \<longleftrightarrow>
     (\<forall>p \<in> A. \<exists>n. get_node p t = Some n \<and> (node_parent n = INVALID_PAGE_ID \<longleftrightarrow> p = root_page_id t))"

lemma path_ok_cong: "pages t = pages t' \<Longrightarrow> root_page_id t = root_page_id t' \<Longrightarrow> path_ok t A = path_ok t' A"
  by (simp add: path_ok_def get_node_def)

lemma path_ok_mono: "path_ok t A \<Longrightarrow> B \<subseteq> A \<Longrightarrow> path_ok t B"
  by (auto simp: path_ok_def)

lemma LatchPage_eq:
  "get_node p (tree s) = Some n \<Longrightarrow>
     LatchPage p tt s = Some (s\<lparr>calls := calls s @ [Acquire (mode_of tt (tree s) p) (PageLatch p)]\<rparr>)"
  by (simp add: LatchPage_def latch_call_def mode_of_def get_node_the)

lemma UnlatchPage_eq:
  assumes "path_ok (tree s) {p}"
  shows "UnlatchPage p tt s = Some (s\<lparr>calls := calls s @ let_go tt (tree s) p\<rparr>)"
  using assms
  by (auto simp: path_ok_def UnlatchPage_def latch_call_def UnlockRoot_def let_go_def mode_of_def get_node_the)

lemma let_go_cong:
  "pages t = pages t' \<Longrightarrow> root_page_id t = root_page_id t' \<Longrightarrow> let_go tt t p = let_go tt t' p"
  by (simp add: let_go_def mode_of_def)

lemma release_pages_eq:
  assumes "path_ok (tree s) (set ps)"
  shows "release_pages ps tt s = Some (s\<lparr>tree := unpins ps (tree s),
     calls := calls s @ concat (map (let_go tt (tree s)) ps)\<rparr>)"
  using assms
proof (induction ps arbitrary: s)
  case (Cons p ps)
  let ?s = "s\<lparr>tree := unpin_page p (tree s), calls := calls s @ let_go tt (tree s) p\<rparr>"
  have "UnlatchPage p tt s = Some (s\<lparr>calls := calls s @ let_go tt (tree s) p\<rparr>)"
    using Cons.prems by (intro UnlatchPage_eq path_ok_mono [OF Cons.prems]) simp
  moreover have "path_ok (tree ?s) (set ps)"
    using path_ok_cong [of "unpin_page p (tree s)" "tree s" "set ps"] path_ok_mono [OF Cons.prems, of "set ps"]
    by auto
  moreover have "let_go tt (unpin_page p (tree s)) = let_go tt (tree s)"
    by (intro ext let_go_cong) simp_all
  ultimately show ?case using Cons.IH [of ?s] by (simp add: with_tree_def ts_update_commute)
qed simp

lemma ReleasePages_eq:
  assumes "path_ok (tree s) (set (page_set s))"
  shows "ReleasePages tt s = Some (s\<lparr>tree := unpins (page_set s) (tree s),
     calls := calls s @ concat (map (let_go tt (tree s)) (page_set s)), page_set := []\<rparr>)"
  using release_pages_eq [OF assms] by (simp add: ReleasePages_def)

section \<open>The latches of a set of pages\<close>

definition latched ::
    "transaction_type \<Rightarrow> ('k, 'v) bpt \<Rightarrow> latch_mode option \<Rightarrow> int set \<Rightarrow> latch \<Rightarrow> latch_mode option" where
  "latched tt t tk A l =
     (case l of
        TaskLatch \<Rightarrow> tk
      | RootLatch \<Rightarrow> if root_page_id t \<in> A then Some (root_mode tt) else None
      | PageLatch p \<Rightarrow> if p \<in> A then Some (mode_of tt t p) else None)"

lemma latched_simps [simp]:
  "latched tt t tk A TaskLatch = tk"
  "latched tt t tk A RootLatch = (if root_page_id t \<in> A then Some (root_mode tt) else None)"
  "latched tt t tk A (PageLatch p) = (if p \<in> A then Some (mode_of tt t p) else None)"
  by (simp_all add: latched_def)

lemma latched_empty: "latched tt t tk {} = Map.empty(TaskLatch := tk)"
  by (auto simp: latched_def fun_eq_iff split: latch.splits)

lemma latched_cong:
  "pages t = pages t' \<Longrightarrow> root_page_id t = root_page_id t' \<Longrightarrow> latched tt t = latched tt t'"
  by (auto simp: latched_def mode_of_def fun_eq_iff split: latch.splits)

lemma run_acquire:
  assumes "p \<notin> A" and "p \<noteq> root_page_id t"
  shows "run_calls [Acquire (mode_of tt t p) (PageLatch p)] (latched tt t tk A)
     = Some (latched tt t tk (insert p A))"
  using assms by (auto simp: latched_def fun_eq_iff split: latch.splits)

lemma run_let_go:
  assumes "p \<in> A"
  shows "run_calls (let_go tt t p) (latched tt t tk A) = Some (latched tt t tk (A - {p}))"
  using assms by (auto simp: let_go_def latched_def fun_eq_iff split: latch.splits)

lemma run_let_go_all:
  assumes "distinct ps" and "set ps \<subseteq> A"
  shows "run_calls (concat (map (let_go tt t) ps)) (latched tt t tk A) = Some (latched tt t tk (A - set ps))"
  using assms
proof (induction ps arbitrary: A)
  case (Cons p ps)
  then have "run_calls (concat (map (let_go tt t) ps)) (latched tt t tk (A - {p}))
      = Some (latched tt t tk (A - {p} - set ps))"
    by (intro Cons.IH) auto
  moreover have "A - {p} - set ps = A - set (p # ps)" by auto
  ultimately show ?case using run_let_go [of p A tt t tk] Cons.prems by auto
qed simp

text \<open>The root latch, the lock of the task queue and the root page, in the order of the source.\<close>

lemma run_lock_root:
  assumes "tk = Some Exclusive"
  shows "run_calls [Acquire (root_mode tt) RootLatch, Release Exclusive TaskLatch,
       Acquire (mode_of tt t (root_page_id t)) (PageLatch (root_page_id t))] (latched tt t tk {})
     = Some (latched tt t None {root_page_id t})"
  using assms by (auto simp: latched_def fun_eq_iff split: latch.splits)

lemma run_lock_root_only:
  "run_calls [Acquire (root_mode tt) RootLatch,
       Acquire (mode_of tt t (root_page_id t)) (PageLatch (root_page_id t))] (latched tt t tk {})
     = Some (latched tt t tk {root_page_id t})"
  by (auto simp: latched_def fun_eq_iff split: latch.splits)

section \<open>The pages of a tree\<close>

lemma rep_get_node:
  "rep pg lm im par t \<Longrightarrow> p \<in> set (pids t) \<Longrightarrow> \<forall>x \<in> set (pids t). x \<noteq> INVALID_PAGE_ID \<Longrightarrow>
     \<exists>n. pg p = Some n \<and> (\<forall>recs. n \<noteq> HeaderNode recs) \<and>
       (if p = root_of t then node_parent n = par else node_parent n \<noteq> INVALID_PAGE_ID)"
proof (induction t arbitrary: par rule: pids.induct)
  case (2 q kts)
  show ?case
  proof (cases "p = q")
    case False
    then obtain kt where kt: "kt \<in> set kts" "p \<in> set (pids (snd kt))" using "2.prems"(2) by auto
    have "\<forall>x \<in> set (pids (snd kt)). x \<noteq> INVALID_PAGE_ID" using kt(1) "2.prems"(3) by auto
    moreover have "rep pg lm im q (snd kt)" using kt(1) "2.prems"(1) by auto
    ultimately obtain n where "pg p = Some n" "\<forall>recs. n \<noteq> HeaderNode recs"
      "if p = root_of (snd kt) then node_parent n = q else node_parent n \<noteq> INVALID_PAGE_ID"
      using "2.IH" [of kt q] kt by blast
    moreover have "q \<noteq> INVALID_PAGE_ID" using "2.prems"(3) by auto
    ultimately show ?thesis using False by (auto split: if_splits)
  qed (use "2.prems" in auto)
qed auto

lemma tree_inv_path_ok:
  assumes "tree_inv st g"
  shows "path_ok st (set (pids g))"
proof -
  have s: "stored st [] [g]" using assms by (simp add: tree_inv_def)
  have "\<forall>x \<in> set (pids g). x \<noteq> INVALID_PAGE_ID" using storedD(4) [OF s, of INVALID_PAGE_ID] by auto
  moreover have "rep_st st INVALID_PAGE_ID g" "root_page_id st = root_of g"
    using storedD(1,6) [OF s] by simp_all
  ultimately show ?thesis
    unfolding path_ok_def using rep_get_node [of "pages st" _ _ INVALID_PAGE_ID g] get_node_eq by metis
qed

section \<open>The way down a tree\<close>

text \<open>
  One step: from the internal page \<open>p\<close> to its child \<open>x\<close>. The page set \<open>next_set\<close> is what the
  operation holds above \<open>x\<close> afterwards.
\<close>

definition safe_for :: "transaction_type \<Rightarrow> ('a, 'b) page \<Rightarrow> bool" where
  "safe_for tt n \<longleftrightarrow> tt = INSERT \<and> IsInsertSafe n \<or> tt = DELETE \<and> IsDeleteSafe n"

definition next_set :: "transaction_type \<Rightarrow> ('a, 'b) page \<Rightarrow> int list \<Rightarrow> int list" where
  "next_set tt n ps = (if reading tt \<or> safe_for tt n then [] else ps)"

text \<open>The calls on the root latch and the task queue with which every operation begins.\<close>

definition prologue :: "transaction_type \<Rightarrow> bool \<Rightarrow> bool \<Rightarrow> latch_call list" where
  "prologue tt rootLatched isLocked =
     (if rootLatched then []
      else Acquire (root_mode tt) RootLatch # (if isLocked then [Release Exclusive TaskLatch] else []))"

text \<open>The pages above a position, without their other subtrees.\<close>

lemma frames_subset: "fst ` set c \<subseteq> set (ctx_pids c)"
  by (induction c rule: ctx_pids.induct) auto

lemma frames_in: "set P \<subseteq> fst ` set c \<Longrightarrow> set P \<subseteq> set (ctx_pids c)"
  using frames_subset by (rule subset_trans [rotated])

text \<open>What is known at the leaf: which leaf it is, and what is still held above it.\<close>

definition leaf_found ::
    "('k \<Rightarrow> 'k \<Rightarrow> int) \<Rightarrow> ('k, 'v) bpt \<Rightarrow> ('k, 'v) gtree \<Rightarrow> 'k \<Rightarrow> transaction_type \<Rightarrow>
     ('k, 'v) ctx \<Rightarrow> int \<Rightarrow> ('k \<times> 'v) list \<Rightarrow> int list \<Rightarrow> bool" where
  "leaf_found cmp st g key tt c q es P \<longleftrightarrow>
     g = plug c (GLeaf q es) \<and> within cmp (ctx_lo c) (ctx_hi c) key \<and>
     distinct (P @ [q]) \<and> set P \<subseteq> fst ` set c \<and> (reading tt \<longrightarrow> P = []) \<and>
     (tt = INSERT \<and> int (length es) + 1 < leaf_max_size st \<longrightarrow> P = []) \<and>
     (tt = INSERT \<longrightarrow> root_page_id st \<in> set (P @ [q]) \<or> int (length es) + 1 < leaf_max_size st \<or>
        (\<exists>f \<in> set c. roomy (internal_max_size st) f))"

context key_comparator
begin

lemma crab_step:
  assumes "tree s = pinned (P @ [p]) st" and "page_set s = P" and "reading tt \<Longrightarrow> P = []"
    and "path_ok st (set (P @ [p, x]))" and "distinct (P @ [p, x])"
    and "pages st x = Some n" and "x \<noteq> root_page_id st"
    and "pages st p = Some (InternalNode node)" and "InternalPage_Lookup (comparator st) key node = Some x"
  obtains tr where
    "CrabToLeaf_loop key tt False p s = (let Q = next_set tt n (P @ [p]);
         s' = s\<lparr>tree := pinned (Q @ [x]) st, calls := calls s @ tr, page_set := Q\<rparr>
        in case n of LeafNode l \<Rightarrow> Some (x, s') | InternalNode i \<Rightarrow> CrabToLeaf_loop key tt False x s'
          | HeaderNode recs \<Rightarrow> None)"
    "run_calls tr (latched tt st tk (set (P @ [p])))
       = Some (latched tt st tk (set (next_set tt n (P @ [p]) @ [x])))"
proof -
  let ?acq = "Acquire (mode_of tt st x) (PageLatch x)" and ?Q = "next_set tt n (P @ [p])"
  let ?gone = "if reading tt then [p] else if safe_for tt n then P @ [p] else []"
  let ?tr = "?acq # concat (map (let_go tt st) ?gone)"
  let ?s2 = "s\<lparr>tree := pinned (P @ [p, x]) st, calls := calls s @ [?acq]\<rparr>"
  have ok: "path_ok (pinned qs st) A = path_ok st A" for qs A by (rule path_ok_cong) simp_all
  have go: "let_go tt (pinned qs st) = let_go tt st" for qs by (intro ext let_go_cong) simp_all
  have md: "mode_of tt (pinned qs st) = mode_of tt st" for qs by (intro ext mode_of_cong) simp
  have x: "get_node x (pinned qs st) = Some n" for qs
    using assms(4,6) by (auto simp: path_ok_def get_node_def split: page.splits)
  have latch: "LatchPage x tt (s\<lparr>tree := pin x (tree s)\<rparr>) = Some ?s2"
    using LatchPage_eq [of x "s\<lparr>tree := pin x (tree s)\<rparr>" n tt] x
    by (simp add: assms(1) pin_pinned md ts_update_commute)
  have gone_ok: "path_ok st (set ?gone)" using assms(4) by (rule path_ok_mono) auto
  have mid: "(if reading tt then do {
          s' \<leftarrow> UnlatchPage p tt ?s2; Some (with_tree (unpin_page p) s') }
        else let s' = AddIntoPageSet p ?s2
             in if tt = INSERT \<and> IsInsertSafe n \<or> tt = DELETE \<and> IsDeleteSafe n
                then ReleasePages tt s' else Some s')
      = Some (s\<lparr>tree := pinned (?Q @ [x]) st, calls := calls s @ ?tr, page_set := ?Q\<rparr>)"
  proof (cases "reading tt")
    case True
    have "UnlatchPage p tt ?s2 = Some (?s2\<lparr>calls := calls ?s2 @ let_go tt (tree ?s2) p\<rparr>)"
      using gone_ok True by (intro UnlatchPage_eq) (simp add: ok)
    then show ?thesis
      using True assms(2,3) by (simp add: next_set_def with_tree_def go unpin_pinned ts_update_commute)
  next
    case False
    have eq: "AddIntoPageSet p ?s2 = ?s2\<lparr>page_set := P @ [p]\<rparr>"
      by (simp add: AddIntoPageSet_def assms(2))
    show ?thesis
    proof (cases "safe_for tt n")
      case True
      have "path_ok (tree (?s2\<lparr>page_set := P @ [p]\<rparr>)) (set (page_set (?s2\<lparr>page_set := P @ [p]\<rparr>)))"
        using gone_ok False True by (simp add: ok)
      from ReleasePages_eq [OF this, of tt] show ?thesis
        using False True unpins_pinned [of "P @ [p]" "[x]" st]
        by (simp add: eq next_set_def safe_for_def go)
    next
      case F: False
      then show ?thesis
        using False by (auto simp: eq next_set_def safe_for_def)
    qed
  qed
  have "CrabToLeaf_loop key tt False p s = (let Q = next_set tt n (P @ [p]);
         s' = s\<lparr>tree := pinned (Q @ [x]) st, calls := calls s @ ?tr, page_set := Q\<rparr>
        in case n of LeafNode l \<Rightarrow> Some (x, s') | InternalNode i \<Rightarrow> CrabToLeaf_loop key tt False x s'
          | HeaderNode recs \<Rightarrow> None)"
    using assms(1,6,8,9) latch mid
    by (subst CrabToLeaf_loop.simps) (simp add: get_internal_eq fetch_page_eq Let_def)
  moreover have "run_calls ?tr (latched tt st tk (set (P @ [p])))
      = Some (latched tt st tk (set (?Q @ [x])))"
  proof -
    have a: "run_calls [?acq] (latched tt st tk (set (P @ [p]))) = Some (latched tt st tk (insert x (set (P @ [p]))))"
      using assms(5,7) by (intro run_acquire) auto
    have b: "run_calls (concat (map (let_go tt st) ?gone)) (latched tt st tk (insert x (set (P @ [p]))))
        = Some (latched tt st tk (insert x (set (P @ [p])) - set ?gone))"
      using assms(5) by (intro run_let_go_all) auto
    have "insert x (set (P @ [p])) - set ?gone = set (?Q @ [x])"
      using assms(3,5) by (auto simp: next_set_def)
    then show ?thesis
      using run_calls_append_Some [OF a b] by (simp only: append_Cons append_Nil)
  qed
  ultimately show thesis using that by blast
qed

lemma CrabToLeaf_loop_ok:
  assumes "tree_inv st g" and "comparator st = cmp" and "g = plug c (GNode p kts)"
    and "within cmp (ctx_lo c) (ctx_hi c) key"
    and "tree s = pinned (P @ [p]) st" and "page_set s = P" and "distinct P"
    and "set P \<subseteq> fst ` set c" and "reading tt \<Longrightarrow> P = []"
    and "tt = INSERT \<Longrightarrow> root_page_id st \<in> set (P @ [p]) \<or>
       int (length kts) + 1 < internal_max_size st \<or> (\<exists>f \<in> set c. roomy (internal_max_size st) f)"
  shows "\<exists>c' q es P' tr.
     CrabToLeaf_loop key tt False p s
       = Some (q, s\<lparr>tree := pinned (P' @ [q]) st, calls := calls s @ tr, page_set := P'\<rparr>) \<and>
     run_calls tr (latched tt st tk (set (P @ [p]))) = Some (latched tt st tk (set (P' @ [q]))) \<and>
     leaf_found cmp st g key tt c' q es P' \<and>
     (\<forall>pn. FindLeafPage_loop key False False p (pin p (st\<lparr>pins := pn\<rparr>)) = Some (q, pin q (st\<lparr>pins := pn\<rparr>)))"
  using assms(3-10)
proof (induction "size (GNode p kts)" arbitrary: c p kts s P rule: less_induct)
  case less
  let ?t = "GNode p kts" and ?im = "internal_max_size st" and ?lm = "leaf_max_size st"
  have st: "stored st c [?t]" and ord: "ordered cmp (ctx_lo c) (ctx_hi c) ?t" "ordered_ctx cmp c"
    using assms(1,2) stored_plug [of st c ?t] ordered_plug [of cmp c ?t] by (simp_all add: tree_inv_def less.prems(1))
  have rep: "rep_st st (ctx_parent c) ?t" using storedD(1) [OF st] by simp
  then obtain node where node: "pages st p = Some (InternalNode node)"
    "internal_array node = child_slots kts" by auto
  obtain ls k t rs where ch: "kts = ls @ (k, t) # rs"
    "InternalPage_Lookup cmp key node = Some (root_of t)"
    "within cmp (if ls = [] then ctx_lo c else Some k)
       (case rs of [] \<Rightarrow> ctx_hi c | r # _ \<Rightarrow> Some (fst r)) key"
    using InternalPage_Lookup_child [OF ord(1) less.prems(2) node(2)] by metis
  let ?c = "(p, ls, k, rs) # c" and ?x = "root_of t"
  have plug: "g = plug ?c t" by (simp add: less.prems(1) ch(1))
  have within: "within cmp (ctx_lo ?c) (ctx_hi ?c) key" using ch(3) by simp
  have rept: "rep_st st p t" using rep by (simp add: ch(1))
  have dist: "distinct (p # pids_of ls @ pids t @ pids_of rs @ ctx_pids c)"
    using storedD(3) [OF st] by (simp add: ch(1))
  have xin: "?x \<in> set (pids t)" by simp
  have "set (pids t) \<inter> set (ctx_pids c) = {}" "p \<notin> set (pids t)" "p \<notin> set (ctx_pids c)" using dist by auto
  then have "?x \<notin> set (ctx_pids c)" "?x \<noteq> p" "p \<notin> set (ctx_pids c)" using xin by blast+
  then have dPx: "distinct (P @ [p, ?x])" using less.prems(5) frames_in [OF less.prems(6)] by auto
  have ids: "set (P @ [p, ?x]) \<subseteq> set (pids g)"
    using frames_in [OF less.prems(6)] xin by (auto simp: less.prems(1) set_pids_plug ch(1))
  obtain n where n: "pages st ?x = Some n" "node_parent n = p" "\<forall>recs. n \<noteq> HeaderNode recs"
    using rep_root_page [OF rept] by blast
  have "p \<noteq> INVALID_PAGE_ID" using storedD(4) [OF st, of p] by auto
  then have root: "?x \<noteq> root_page_id st"
    using path_ok_mono [OF tree_inv_path_ok [OF assms(1)] ids] get_node_eq [OF n(1,3)] n(2)
    by (auto simp: path_ok_def)
  obtain tr where step: "CrabToLeaf_loop key tt False p s = (let Q = next_set tt n (P @ [p]);
         s' = s\<lparr>tree := pinned (Q @ [?x]) st, calls := calls s @ tr, page_set := Q\<rparr>
        in case n of LeafNode l \<Rightarrow> Some (?x, s') | InternalNode i \<Rightarrow> CrabToLeaf_loop key tt False ?x s'
          | HeaderNode recs \<Rightarrow> None)"
    and run: "run_calls tr (latched tt st tk (set (P @ [p])))
       = Some (latched tt st tk (set (next_set tt n (P @ [p]) @ [?x])))"
    using crab_step [OF less.prems(3,4,7) path_ok_mono [OF tree_inv_path_ok [OF assms(1)] ids] dPx n(1) root node(1)]
      ch(2) assms(2) by metis
  let ?Q = "next_set tt n (P @ [p])"
  have Q: "set ?Q \<subseteq> fst ` set ?c" "distinct ?Q" "reading tt \<Longrightarrow> ?Q = []"
    using less.prems(5,6) dPx by (auto simp: next_set_def)
  have find: "FindLeafPage_loop key False False p (pin p (st\<lparr>pins := pn\<rparr>))
     = (case n of LeafNode l \<Rightarrow> Some (?x, pin ?x (st\<lparr>pins := pn\<rparr>))
        | InternalNode i \<Rightarrow> FindLeafPage_loop key False False ?x (pin ?x (st\<lparr>pins := pn\<rparr>))
        | HeaderNode recs \<Rightarrow> None)" for pn
    using node(1) ch(2) n(1) assms(2)
    by (subst FindLeafPage_loop.simps) (auto simp: store_eqs unpin_pin_other split: page.splits)
  show ?case
  proof (cases t)
    case (GLeaf q es)
    then obtain l where l: "n = LeafNode l" "leaf_array l = es" "max_size l = ?lm"
      using n(1) rept by auto
    have "tt = INSERT \<Longrightarrow> root_page_id st \<in> set (?Q @ [q]) \<or> int (length es) + 1 < ?lm \<or>
        (\<exists>f \<in> set ?c. roomy ?im f)"
      using less.prems(8) ch(1) l
      by (auto simp: next_set_def safe_for_def IsInsertSafe_def LeafPage_GetSize_def)
    moreover have "tt = INSERT \<and> int (length es) + 1 < ?lm \<longrightarrow> ?Q = []"
      using l by (auto simp: next_set_def safe_for_def IsInsertSafe_def LeafPage_GetSize_def)
    ultimately have "leaf_found cmp st g key tt ?c q es ?Q"
      using plug within dPx Q GLeaf unfolding leaf_found_def by (auto simp: next_set_def)
    then show ?thesis using step run find l(1) GLeaf by (auto simp: Let_def)
  next
    case (GNode q kts')
    then obtain i where i: "n = InternalNode i" "internal_array i = child_slots kts'" "max_size i = ?im"
      using n(1) rept by auto
    let ?s = "s\<lparr>tree := pinned (?Q @ [q]) st, calls := calls s @ tr, page_set := ?Q\<rparr>"
    have sz: "size (GNode q kts') < size ?t"
      using size_child [of "(k, t)" kts] by (simp add: ch(1) GNode)
    have len: "length (internal_array i) = length kts'" by (simp add: i(2) child_slots_def)
    have safe: "tt = INSERT \<Longrightarrow> root_page_id st \<in> set (?Q @ [q]) \<or> int (length kts') + 1 < ?im \<or>
        (\<exists>f \<in> set ?c. roomy ?im f)"
      using less.prems(8) ch(1) i(1,3) len
      by (auto simp: next_set_def safe_for_def IsInsertSafe_def InternalPage_GetSize_def)
    obtain c' q' es P' tr' where r:
      "CrabToLeaf_loop key tt False q ?s
         = Some (q', ?s\<lparr>tree := pinned (P' @ [q']) st, calls := calls ?s @ tr', page_set := P'\<rparr>)"
      "run_calls tr' (latched tt st tk (set (?Q @ [q]))) = Some (latched tt st tk (set (P' @ [q'])))"
      "leaf_found cmp st g key tt c' q' es P'"
      "\<forall>pn. FindLeafPage_loop key False False q (pin q (st\<lparr>pins := pn\<rparr>)) = Some (q', pin q' (st\<lparr>pins := pn\<rparr>))"
      using less.hyps [OF sz, of ?c ?s ?Q] plug within Q safe GNode by auto
    have "run_calls (tr @ tr') (latched tt st tk (set (P @ [p]))) = Some (latched tt st tk (set (P' @ [q'])))"
      using run r(2) GNode by (intro run_calls_append_Some) simp_all
    moreover have "CrabToLeaf_loop key tt False p s
        = Some (q', s\<lparr>tree := pinned (P' @ [q']) st, calls := calls s @ tr @ tr', page_set := P'\<rparr>)"
      using step r(1) i(1) GNode by (simp add: Let_def)
    moreover have "\<forall>pn. FindLeafPage_loop key False False p (pin p (st\<lparr>pins := pn\<rparr>)) = Some (q', pin q' (st\<lparr>pins := pn\<rparr>))"
      using find r(4) i(1) GNode by simp
    ultimately show ?thesis using r(3) by blast
  qed
qed

lemma CrabToLeaf_empty:
  assumes "root_page_id (tree s) = INVALID_PAGE_ID"
  shows "CrabToLeaf key tt False rl il s
     = Some (INVALID_PAGE_ID, s\<lparr>calls := calls s @ prologue tt rl il @ [Release (root_mode tt) RootLatch]\<rparr>)"
  using assms
  by (simp add: CrabToLeaf_def prologue_def LockRoot_def UnlockRoot_def Transaction_Unlock_def latch_call_def)

lemma CrabToLeaf_ok:
  assumes "tree_inv st g" and "comparator st = cmp" and "tree s = st" and "page_set s = []"
    and "run_calls (prologue tt rl il) h = Some ((latched tt st tk {})(RootLatch \<mapsto> root_mode tt))"
  obtains c q es P tr where
    "CrabToLeaf key tt False rl il s
       = Some (q, s\<lparr>tree := pinned (P @ [q]) st, calls := calls s @ tr, page_set := P\<rparr>)"
    "run_calls tr h = Some (latched tt st tk (set (P @ [q])))"
    "leaf_found cmp st g key tt c q es P"
    "\<And>pn. FindLeafPage key False False (st\<lparr>pins := pn\<rparr>) = Some (q, pin q (st\<lparr>pins := pn\<rparr>))"
proof -
  let ?r = "root_page_id st" and ?s0 = "s\<lparr>calls := calls s @ prologue tt rl il\<rparr>"
  let ?acq = "Acquire (mode_of tt st ?r) (PageLatch ?r)"
  let ?s2 = "s\<lparr>tree := pinned [?r] st, calls := calls s @ prologue tt rl il @ [?acq]\<rparr>"
  have inv: "stored st [] [g]" using assms(1) by (simp add: tree_inv_def)
  then have rep: "rep_st st INVALID_PAGE_ID g" "?r = root_of g" "?r \<noteq> INVALID_PAGE_ID"
    using root_in_pids [of g] by (auto simp: stored_def simp del: root_in_pids)
  obtain n where n: "pages st ?r = Some n" "\<forall>recs. n \<noteq> HeaderNode recs"
    using rep_root_page [OF rep(1)] rep(2) by auto
  have pro: "(if rl then s else let s' = LockRoot tt s in if il then Transaction_Unlock s' else s') = ?s0"
    by (simp add: prologue_def LockRoot_def Transaction_Unlock_def latch_call_def)
  have "get_node ?r (pinned [?r] st) = Some n" using n by (intro get_node_eq) simp_all
  then have latch: "LatchPage ?r tt (?s0\<lparr>tree := pin ?r st\<rparr>) = Some ?s2"
    using LatchPage_eq [of ?r "?s0\<lparr>tree := pin ?r st\<rparr>" n tt] mode_of_cong [of "pin ?r st" st tt ?r]
    by (simp add: pinned_single ts_update_commute)
  have crab: "CrabToLeaf key tt False rl il s =
      (case n of LeafNode p \<Rightarrow> Some (?r, ?s2) | InternalNode p \<Rightarrow> CrabToLeaf_loop key tt False ?r ?s2
         | HeaderNode recs \<Rightarrow> None)"
    using rep(3) n(1) latch assms(3)
    by (auto simp: CrabToLeaf_def pro fetch_page_eq Let_def split: page.splits)
  have "run_calls [?acq] ((latched tt st tk {})(RootLatch \<mapsto> root_mode tt)) = Some (latched tt st tk {?r})"
    by (auto simp: latched_def fun_eq_iff split: latch.splits)
  then have run: "run_calls (prologue tt rl il @ [?acq]) h = Some (latched tt st tk {?r})"
    using assms(5) by (intro run_calls_append_Some)
  have bounds: "within cmp (ctx_lo []) (ctx_hi []) key" by (simp add: within_def above_def below_def)
  show thesis
  proof (cases g)
    case (GLeaf q es)
    then obtain l where l: "n = LeafNode l" using rep n(1) by auto
    have "leaf_found cmp st g key tt [] q es []" using GLeaf bounds rep(2) by (simp add: leaf_found_def)
    moreover have "FindLeafPage key False False (st\<lparr>pins := pn\<rparr>) = Some (q, pin q (st\<lparr>pins := pn\<rparr>))" for pn
      using rep(2,3) n(1) l GLeaf by (auto simp: FindLeafPage_def fetch_page_eq)
    ultimately show thesis
      using that [of q "[]" "prologue tt rl il @ [?acq]" "[]" es] crab run l rep(2) assms(4) GLeaf by simp
  next
    case (GNode p kts)
    then obtain i where i: "n = InternalNode i" using rep n(1) by auto
    obtain c q es P tr where r:
      "CrabToLeaf_loop key tt False p ?s2
         = Some (q, ?s2\<lparr>tree := pinned (P @ [q]) st, calls := calls ?s2 @ tr, page_set := P\<rparr>)"
      "run_calls tr (latched tt st tk (set ([] @ [p]))) = Some (latched tt st tk (set (P @ [q])))"
      "leaf_found cmp st g key tt c q es P"
      "\<forall>pn. FindLeafPage_loop key False False p (pin p (st\<lparr>pins := pn\<rparr>)) = Some (q, pin q (st\<lparr>pins := pn\<rparr>))"
      using CrabToLeaf_loop_ok [OF assms(1,2), where c = "[]" and p = p and kts = kts and key = key
          and s = ?s2 and P = "[]" and tt = tt and tk = tk] GNode bounds assms(4) rep(2) by fastforce
    have "run_calls ((prologue tt rl il @ [?acq]) @ tr) h = Some (latched tt st tk (set (P @ [q])))"
      using run_calls_append_Some [OF run, of tr] r(2) rep(2) GNode by simp
    moreover have "FindLeafPage key False False (st\<lparr>pins := pn\<rparr>) = Some (q, pin q (st\<lparr>pins := pn\<rparr>))" for pn
      using rep(2,3) n(1) i GNode r(4) by (auto simp: FindLeafPage_def fetch_page_eq)
    moreover have "CrabToLeaf key tt False rl il s
        = Some (q, s\<lparr>tree := pinned (P @ [q]) st, calls := calls s @ (prologue tt rl il @ [?acq]) @ tr, page_set := P\<rparr>)"
      using crab i r(1) rep(2) GNode by simp
    ultimately show thesis using that r(3) by metis
  qed
qed

lemma leaf_foundD:
  assumes "leaf_found cmp st g key tt c q es P" and "tree_inv st g" and "comparator st = cmp"
  shows "g = plug c (GLeaf q es)" "stored st c [GLeaf q es]" "ordered_ctx cmp c"
    "ordered cmp (ctx_lo c) (ctx_hi c) (GLeaf q es)" "within cmp (ctx_lo c) (ctx_hi c) key"
    "path_ok st (set (P @ [q]))" "distinct (P @ [q])" "reading tt \<Longrightarrow> P = []"
    "tt = INSERT \<Longrightarrow> int (length es) + 1 < leaf_max_size st \<Longrightarrow> P = []"
    "tt = INSERT \<Longrightarrow> root_page_id st \<in> set (P @ [q]) \<or> int (length es) + 1 < leaf_max_size st \<or>
       (\<exists>f \<in> set c. roomy (internal_max_size st) f)"
proof -
  show g: "g = plug c (GLeaf q es)" "within cmp (ctx_lo c) (ctx_hi c) key" "distinct (P @ [q])"
    "reading tt \<Longrightarrow> P = []" "tt = INSERT \<Longrightarrow> int (length es) + 1 < leaf_max_size st \<Longrightarrow> P = []"
    "tt = INSERT \<Longrightarrow> root_page_id st \<in> set (P @ [q]) \<or> int (length es) + 1 < leaf_max_size st \<or>
       (\<exists>f \<in> set c. roomy (internal_max_size st) f)"
    using assms(1) by (simp_all add: leaf_found_def)
  show "stored st c [GLeaf q es]" "ordered_ctx cmp c" "ordered cmp (ctx_lo c) (ctx_hi c) (GLeaf q es)"
    using assms(2,3) stored_plug [of st c "GLeaf q es"] ordered_plug [of cmp c "GLeaf q es"] g(1)
    by (simp_all add: tree_inv_def)
  have "set (P @ [q]) \<subseteq> set (pids g)"
    using assms(1) frames_in [of P c] by (auto simp: leaf_found_def set_pids_plug)
  then show "path_ok st (set (P @ [q]))" using path_ok_mono tree_inv_path_ok [OF assms(2)] by blast
qed

end

end
