(* ===== verification/TSSearch.thy ===== *)
theory TSSearch
  imports TSLatches
begin

text \<open>
  Both \<^verbatim>\<open>GetValue\<close>s of the thread-safe tree: the result is that of the other tree, every page is
  unpinned, every latch is given back, and the lock of the task queue is released exactly once.
\<close>

section \<open>Point lookups\<close>

lemma holds_empty_tree:
  "holds st es \<Longrightarrow> root_page_id st = INVALID_PAGE_ID \<Longrightarrow> es = []"
  by (auto simp: holds_def tree_inv_def stored_def dest: bspec [OF _ root_in_pids])

lemma holds_tree:
  "holds st es \<Longrightarrow> root_page_id st \<noteq> INVALID_PAGE_ID \<Longrightarrow> \<exists>g. tree_inv st g \<and> es = entries g"
  by (auto simp: holds_def)

lemma map_upd_None: "Map.empty(x := None) = Map.empty"
  by auto

lemma run_prologue:
  "run_calls (prologue tt False True) (Map.empty(TaskLatch \<mapsto> Exclusive))
     = Some ((latched tt st None {})(RootLatch \<mapsto> root_mode tt))"
  "run_calls (prologue tt False False) (latched tt st tk {})
     = Some ((latched tt st tk {})(RootLatch \<mapsto> root_mode tt))"
  "run_calls (prologue tt True il) h = Some h"
  by (auto simp: prologue_def latched_def fun_eq_iff split: latch.splits)

context key_comparator
begin

lemma TS_GetValue_ok:
  assumes "holds (tree s) es" and "comparator (tree s) = cmp" and "page_set s = []"
  obtains tr where
    "TS_GetValue key s = Some (map_of es key \<noteq> None,
       case map_of es key of None \<Rightarrow> [] | Some v \<Rightarrow> [v], s\<lparr>calls := calls s @ tr\<rparr>)"
    "run_calls tr (Map.empty(TaskLatch \<mapsto> Exclusive)) = Some Map.empty"
proof (cases "root_page_id (tree s) = INVALID_PAGE_ID")
  case True
  then show thesis
    using that [of "prologue FIND False True @ [Release Shared RootLatch]"] holds_empty_tree [OF assms(1)]
    by (simp add: TS_GetValue_def CrabToLeaf_empty prologue_def root_mode_def fun_upd_twist map_upd_None)
next
  case False
  define st where "st = tree s"
  obtain g where g: "tree_inv st g" "es = entries g"
    using holds_tree [OF assms(1) False] by (auto simp: st_def)
  have cmp: "comparator st = cmp" using assms(2) by (simp add: st_def)
  obtain c q les P tr where f:
    "CrabToLeaf key FIND False False True s
       = Some (q, s\<lparr>tree := pinned (P @ [q]) st, calls := calls s @ tr, page_set := P\<rparr>)"
    "run_calls tr (Map.empty(TaskLatch \<mapsto> Exclusive)) = Some (latched FIND st None (set (P @ [q])))"
    "leaf_found cmp st g key FIND c q les P"
    using CrabToLeaf_ok [OF g(1) cmp st_def [symmetric] assms(3) run_prologue(1)] by metis
  note d = leaf_foundD [OF f(3) g(1) cmp]
  have P: "P = []" using d(8) by simp
  obtain l where l: "pages st q = Some (LeafNode l)" "leaf_array l = les" "0 < q"
    using stored_leaf [OF d(2)] by metis
  have look: "LeafPage_Lookup cmp key l = map_of es key"
    using LeafPage_Lookup_sorted [of l key] d(4) map_of_path [OF d(3,5), of les]
    by (simp add: l(2) g(2) d(1) entries_plug)
  have "UnlatchPage q FIND (s\<lparr>tree := pinned [q] st, calls := calls s @ tr, page_set := []\<rparr>)
      = Some (s\<lparr>tree := pinned [q] st, calls := calls s @ tr @ let_go FIND st q, page_set := []\<rparr>)"
    using UnlatchPage_eq [of "s\<lparr>tree := pinned [q] st, calls := calls s @ tr, page_set := []\<rparr>" q FIND]
      d(6) P path_ok_cong [of "pinned [q] st" st "{q}"] let_go_cong [of "pinned [q] st" st FIND q]
    by (simp add: ts_update_commute)
  moreover have "s\<lparr>tree := st, calls := cs, page_set := []\<rparr> = s\<lparr>calls := cs\<rparr>" for cs
    using assms(3) by (simp add: st_def)
  ultimately have "TS_GetValue key s = Some (map_of es key \<noteq> None,
       case map_of es key of None \<Rightarrow> [] | Some v \<Rightarrow> [v], s\<lparr>calls := calls s @ tr @ let_go FIND st q\<rparr>)"
    using f(1) P l look cmp by (simp add: TS_GetValue_def get_leaf_eq with_tree_def unpin_pinned ts_update_commute Let_def)
  moreover have "run_calls (tr @ let_go FIND st q) (Map.empty(TaskLatch \<mapsto> Exclusive)) = Some Map.empty"
    using run_calls_append_Some [OF f(2) run_let_go [of q "set (P @ [q])"]]
    by (simp add: P latched_empty map_upd_None)
  ultimately show thesis using that by blast
qed

end

section \<open>Scans\<close>

text \<open>A set of leaves that is closed under the links to the right, which never lead to the root.\<close>

definition leaf_links :: "('k, 'v) bpt \<Rightarrow> int set \<Rightarrow> bool" where
  "leaf_links st L \<longleftrightarrow> path_ok st L \<and>
     (\<forall>p \<in> L. \<forall>l. pages st p = Some (LeafNode l) \<longrightarrow>
        next_page_id l = INVALID_PAGE_ID \<or> next_page_id l \<in> L \<and> next_page_id l \<noteq> root_page_id st)"

lemma scan_clear_up_eq:
  assumes "path_ok st {p}" and "pages (tree s) = pages st" and "root_page_id (tree s) = root_page_id st"
  shows "scan_clear_up p s = Some (s\<lparr>tree := unpin_page p (tree s), calls := calls s @ let_go MULTIFIND st p\<rparr>)"
  using assms UnlatchPage_eq [of s p MULTIFIND] path_ok_cong [OF assms(2,3)] let_go_cong [OF assms(2,3)]
  by (simp add: scan_clear_up_def with_tree_def ts_update_commute)

lemma TS_scan_loop_sim:
  fixes st :: "('k, 'v) bpt"
  assumes "scan_loop key ncmp p i result t = Some (r, t')"
    and "leaf_links st L" and "p \<in> L" and "tree s = t" and "pages t = pages st"
    and "root_page_id t = root_page_id st"
  shows "\<exists>tr. TS_scan_loop key ncmp p i result s
       = Some (r, s\<lparr>tree := t', calls := calls s @ tr @ [Release Exclusive TaskLatch]\<rparr>) \<and>
     run_calls tr (latched MULTIFIND st tk {p}) = Some (latched MULTIFIND st tk {})"
proof -
  let ?Q = "\<lambda>key ncmp p i result t y. \<forall>s. p \<in> L \<longrightarrow> tree s = t \<longrightarrow> pages t = pages st \<longrightarrow>
     root_page_id t = root_page_id st \<longrightarrow>
     (\<exists>tr. TS_scan_loop key ncmp p i result s
        = Some (fst y, s\<lparr>tree := snd y, calls := calls s @ tr @ [Release Exclusive TaskLatch]\<rparr>) \<and>
      run_calls tr (latched MULTIFIND st tk {p}) = Some (latched MULTIFIND st tk {}))"
  have "?Q key ncmp p i result t (r, t')"
  proof (rule scan_loop.raw_induct [OF _ assms(1)])
    fix loop key ncmp pid index result and t :: "('k, 'v) bpt" and y
    assume IH: "\<And>key ncmp pid index result t y. loop key ncmp pid index result t = Some y \<Longrightarrow>
        ?Q key ncmp pid index result t y"
      and run: "(do { leaf \<leftarrow> get_leaf pid t;
          (stop, index', result') \<leftarrow>
            (if index \<noteq> -1 then do {
               item \<leftarrow> LeafPage_GetItem index leaf;
               Some (if ncmp key (fst item) \<noteq> 0 then (True, index, result)
                     else (False, index + 1, result @ [snd item])) }
             else Some (False, index, result));
          if stop then Some (result', unpin_page pid t)
          else if index' = -1 \<or> index' = LeafPage_GetSize leaf then do {
            let t1 = unpin_page pid t;
            if next_page_id leaf = INVALID_PAGE_ID then Some (result', t1)
            else do {
              (n, t2) \<leftarrow> fetch_page (next_page_id leaf) t1;
              loop key ncmp (next_page_id leaf) 0 result' t2 } }
          else loop key ncmp pid index' result' t }) = Some y"
    show "?Q key ncmp pid index result t y"
    proof (intro allI impI)
      fix s :: "('k, 'v) ts_state"
      assume s: "pid \<in> L" "tree s = t" "pages t = pages st" "root_page_id t = root_page_id st"
      obtain leaf where leaf: "get_leaf pid t = Some leaf"
        using run by (cases "get_leaf pid t") auto
      obtain stop i' res' where it: "(if index \<noteq> -1 then do {
             item \<leftarrow> LeafPage_GetItem index leaf;
             Some (if ncmp key (fst item) \<noteq> 0 then (True, index, result)
                   else (False, index + 1, result @ [snd item])) }
           else Some (False, index, result)) = Some (stop, i', res')"
        using run by (auto simp: leaf split: if_splits Option.bind_splits)
      note run' = run [unfolded leaf bind.bind_lunit it prod.case]
      let ?s1 = "s\<lparr>tree := unpin_page pid t, calls := calls s @ let_go MULTIFIND st pid\<rparr>"
      have ok: "path_ok st {pid}" using assms(2) s(1) path_ok_mono [of st L "{pid}"] by (simp add: leaf_links_def)
      have clear: "scan_clear_up pid s = Some ?s1"
        using scan_clear_up_eq [OF ok, of s] s by simp
      have gone: "run_calls (let_go MULTIFIND st pid) (latched MULTIFIND st tk {pid}) = Some (latched MULTIFIND st tk {})"
        using run_let_go [of pid "{pid}"] by simp
      have step: "TS_scan_loop key ncmp pid index result s =
          (if stop then do { s1 \<leftarrow> scan_clear_up pid s; Some (res', Transaction_Unlock s1) }
           else if i' = -1 \<or> i' = LeafPage_GetSize leaf then do {
             s1 \<leftarrow> scan_clear_up pid s;
             if next_page_id leaf = INVALID_PAGE_ID then Some (res', Transaction_Unlock s1)
             else do {
               (n, t) \<leftarrow> fetch_page (next_page_id leaf) (tree s1);
               s2 \<leftarrow> LatchPage (next_page_id leaf) MULTIFIND (s1\<lparr>tree := t\<rparr>);
               TS_scan_loop key ncmp (next_page_id leaf) 0 res' s2 } }
           else TS_scan_loop key ncmp pid i' res' s)"
        using leaf s(2) by (subst TS_scan_loop.simps) (simp only: leaf it bind.bind_lunit prod.case)
      consider "y = (res', unpin_page pid t)"
          "stop \<or> (i' = -1 \<or> i' = LeafPage_GetSize leaf) \<and> next_page_id leaf = INVALID_PAGE_ID"
        | "\<not> stop" "i' = -1 \<or> i' = LeafPage_GetSize leaf" "next_page_id leaf \<noteq> INVALID_PAGE_ID"
        | "\<not> stop" "\<not> (i' = -1 \<or> i' = LeafPage_GetSize leaf)" "loop key ncmp pid i' res' t = Some y"
        using run' by (auto split: if_splits simp: Let_def)
      then show "\<exists>tr. TS_scan_loop key ncmp pid index result s
          = Some (fst y, s\<lparr>tree := snd y, calls := calls s @ tr @ [Release Exclusive TaskLatch]\<rparr>) \<and>
        run_calls tr (latched MULTIFIND st tk {pid}) = Some (latched MULTIFIND st tk {})"
      proof cases
        case 1
        then show ?thesis
          using step clear gone by (auto simp: Transaction_Unlock_def latch_call_def intro!: exI [of _ "let_go MULTIFIND st pid"])
      next
        case 2
        let ?x = "next_page_id leaf" and ?acq = "Acquire (mode_of MULTIFIND st (next_page_id leaf)) (PageLatch (next_page_id leaf))"
        have page: "pages st pid = Some (LeafNode leaf)"
          using leaf s(3) by (auto simp: get_leaf_def split: option.splits page.splits)
        then have x: "?x \<in> L" "?x \<noteq> root_page_id st"
          using assms(2) s(1) 2(3) by (auto simp: leaf_links_def)
        obtain n where n: "get_node ?x st = Some n" using assms(2) x(1) by (auto simp: leaf_links_def path_ok_def)
        then have fetch: "fetch_page ?x (unpin_page pid t) = Some (n, pin ?x (unpin_page pid t))"
          using s(3) by (intro fetch_page_eq) (simp add: get_node_the)
        let ?s2 = "s\<lparr>tree := pin ?x (unpin_page pid t), calls := calls s @ let_go MULTIFIND st pid @ [?acq]\<rparr>"
        have latch: "LatchPage ?x MULTIFIND (?s1\<lparr>tree := pin ?x (unpin_page pid t)\<rparr>) = Some ?s2"
          using LatchPage_eq [of ?x "?s1\<lparr>tree := pin ?x (unpin_page pid t)\<rparr>" n MULTIFIND] n s(3)
            get_node_pages [of "pin ?x (unpin_page pid t)" st ?x] mode_of_cong [of "pin ?x (unpin_page pid t)" st]
          by (simp add: ts_update_commute)
        have "loop key ncmp ?x 0 res' (pin ?x (unpin_page pid t)) = Some y"
          using run' 2 fetch by (simp add: Let_def)
        from IH [OF this] obtain tr where tr: "TS_scan_loop key ncmp ?x 0 res' ?s2
            = Some (fst y, ?s2\<lparr>tree := snd y, calls := calls ?s2 @ tr @ [Release Exclusive TaskLatch]\<rparr>)"
          "run_calls tr (latched MULTIFIND st tk {?x}) = Some (latched MULTIFIND st tk {})"
          using x(1) s(3,4) by (elim allE [of _ ?s2]) auto
        have "run_calls ([?acq] @ tr) (latched MULTIFIND st tk {}) = Some (latched MULTIFIND st tk {})"
          using tr(2) x(2) by (intro run_calls_append_Some [OF run_acquire]) simp_all
        then have "run_calls (let_go MULTIFIND st pid @ [?acq] @ tr) (latched MULTIFIND st tk {pid})
            = Some (latched MULTIFIND st tk {})"
          by (rule run_calls_append_Some [OF gone])
        then show ?thesis
          using step clear fetch latch tr(1) 2 by (intro exI [of _ "let_go MULTIFIND st pid @ [?acq] @ tr"]) simp
      next
        case 3
        then show ?thesis using IH [OF 3(3)] s step by auto
      qed
    qed
  qed
  then show ?thesis using assms(3-6) by simp
qed

lemma chain_links:
  "chain pg ps nx \<Longrightarrow> p \<in> set ps \<Longrightarrow> pg p = Some (LeafNode l) \<Longrightarrow>
     next_page_id l = nx \<or> next_page_id l \<in> set (tl ps)"
proof (induction ps)
  case (Cons q ps)
  then show ?case by (cases ps) (auto simp: next_of_def)
qed simp

lemma tree_inv_leaf_links:
  assumes "tree_inv st g"
  shows "leaf_links st (set (leaf_ids g))"
proof -
  have st: "stored st [] [g]" using assms by (simp add: tree_inv_def)
  have chain: "chain (pages st) (leaf_ids g) INVALID_PAGE_ID" using storedD(5) [OF st] by simp
  have "root_page_id st = root_of g" "distinct (pids g)" using storedD(3,6) [OF st] by simp_all
  moreover have sub: "set (tl (leaf_ids g)) \<subseteq> set (leaf_ids g)" by (cases "leaf_ids g") auto
  ultimately have root: "root_page_id st \<notin> set (tl (leaf_ids g))"
  proof (cases g)
    case (GNode p kts)
    then have "set (leaf_ids g) \<subseteq> set (pids_of kts)" using leaf_ids_of_subset [of kts] by simp
    moreover have "p \<notin> set (pids_of kts)" using \<open>distinct (pids g)\<close> GNode by simp
    ultimately have "p \<notin> set (tl (leaf_ids g))" using sub by blast
    then show ?thesis using \<open>root_page_id st = root_of g\<close> GNode by simp
  qed simp
  have "path_ok st (set (leaf_ids g))"
    using path_ok_mono [OF tree_inv_path_ok [OF assms] leaf_ids_subset] .
  moreover have "next_page_id l = INVALID_PAGE_ID \<or>
      next_page_id l \<in> set (leaf_ids g) \<and> next_page_id l \<noteq> root_page_id st"
    if "p \<in> set (leaf_ids g)" "pages st p = Some (LeafNode l)" for p l
    using chain_links [OF chain that] root sub by auto
  ultimately show ?thesis by (simp add: leaf_links_def)
qed

context key_comparator
begin

lemma TS_ScanValue_ok:
  assumes "holds (tree s) es" and "comparator (tree s) = cmp" and "page_set s = []"
  obtains b tr where
    "TS_ScanValue key ncmp s = Some (b, al_scan cmp ncmp key es, s\<lparr>calls := calls s @ tr\<rparr>)"
    "run_calls tr (Map.empty(TaskLatch \<mapsto> Exclusive)) = Some Map.empty"
proof (cases "root_page_id (tree s) = INVALID_PAGE_ID")
  case True
  have "al_scan cmp ncmp key es = []" using holds_empty_tree [OF assms(1) True] by (simp add: al_scan_def)
  then show thesis
    using that [of False "prologue MULTIFIND False False @ [Release Shared RootLatch, Release Exclusive TaskLatch]"]
      True by (simp add: TS_ScanValue_def CrabToLeaf_empty prologue_def root_mode_def Transaction_Unlock_def
        latch_call_def fun_upd_twist map_upd_None)
next
  case False
  define st where "st = tree s"
  obtain g where g: "tree_inv st g" "es = entries g"
    using holds_tree [OF assms(1) False] by (auto simp: st_def)
  have cmp: "comparator st = cmp" using assms(2) by (simp add: st_def)
  obtain c q les P tr where f:
    "CrabToLeaf key MULTIFIND False False False s
       = Some (q, s\<lparr>tree := pinned (P @ [q]) st, calls := calls s @ tr, page_set := P\<rparr>)"
    "run_calls tr (latched MULTIFIND st (Some Exclusive) {})
       = Some (latched MULTIFIND st (Some Exclusive) (set (P @ [q])))"
    "leaf_found cmp st g key MULTIFIND c q les P"
    "\<And>pn. FindLeafPage key False False (st\<lparr>pins := pn\<rparr>) = Some (q, pin q (st\<lparr>pins := pn\<rparr>))"
    using CrabToLeaf_ok [OF g(1) cmp st_def [symmetric] assms(3) run_prologue(2)] by metis
  note d = leaf_foundD [OF f(3) g(1) cmp]
  have P: "P = []" using d(8) by simp
  obtain l where l: "pages st q = Some (LeafNode l)" "leaf_array l = les" "0 < q"
    using stored_leaf [OF d(2)] by metis
  let ?s1 = "s\<lparr>tree := pin q st, calls := calls s @ tr, page_set := []\<rparr>"
  let ?i = "LeafPage_KeyIndex cmp key l"
  have "BPlusTree_ScanValue key ncmp st = Some (al_scan cmp ncmp key es, st)"
    using ScanValue_ok [of st es key ncmp] assms(1,2) by (simp add: st_def)
  moreover have "FindLeafPage key False False st = Some (q, pin q st)" using f(4) [of "pins st"] by simp
  ultimately have scan: "scan_loop key ncmp q ?i [] (pin q st) = Some (al_scan cmp ncmp key es, st)"
    using l cmp by (simp add: BPlusTree_ScanValue_def get_leaf_eq)
  have "q \<in> set (leaf_ids g)" by (simp add: d(1) leaf_ids_plug)
  then obtain tr' where tr': "TS_scan_loop key ncmp q ?i [] ?s1 = Some (al_scan cmp ncmp key es,
       ?s1\<lparr>tree := st, calls := calls ?s1 @ tr' @ [Release Exclusive TaskLatch]\<rparr>)"
    "run_calls tr' (latched MULTIFIND st (Some Exclusive) {q}) = Some (latched MULTIFIND st (Some Exclusive) {})"
    using TS_scan_loop_sim [OF scan tree_inv_leaf_links [OF g(1)], of ?s1 "Some Exclusive"] by auto
  have "s\<lparr>tree := st, calls := cs, page_set := []\<rparr> = s\<lparr>calls := cs\<rparr>" for cs
    using assms(3) by (simp add: st_def)
  then have "TS_ScanValue key ncmp s = Some (True, al_scan cmp ncmp key es,
      s\<lparr>calls := calls s @ tr @ tr' @ [Release Exclusive TaskLatch]\<rparr>)"
    using f(1) P l cmp tr'(1)
    by (simp add: TS_ScanValue_def get_leaf_eq pinned_single ts_update_commute)
  moreover have "run_calls (tr @ tr' @ [Release Exclusive TaskLatch]) (latched MULTIFIND st (Some Exclusive) {}) = Some Map.empty"
    using run_calls_append_Some [OF tr'(2), of "[Release Exclusive TaskLatch]"]
    by (intro run_calls_append_Some [OF f(2)]) (simp add: P latched_empty map_upd_None)
  ultimately show thesis using that by (simp add: latched_empty)
qed

end

end
