(* ===== verification/TSFrames.thy ===== *)
theory TSFrames
  imports TSSearch
begin

text \<open>
  What the steps of an update leave alone: no page changes its kind, no page but a new root or
  the only child of the old one becomes a root, the header page keeps its records until
  \<^verbatim>\<open>UpdateRootPageId\<close>. \<open>tame\<close> says so of two states; it is shown for each of the shared steps.
\<close>

section \<open>Tame steps\<close>

fun same_kind :: "('k, 'v) page \<Rightarrow> ('k, 'v) page \<Rightarrow> bool" where
  "same_kind (HeaderNode r) n' \<longleftrightarrow> n' = HeaderNode r"
| "same_kind (LeafNode l) n' \<longleftrightarrow>
     (\<exists>l'. n' = LeafNode l' \<and> (parent_page_id l \<noteq> INVALID_PAGE_ID \<longrightarrow> parent_page_id l' \<noteq> INVALID_PAGE_ID))"
| "same_kind (InternalNode i) n' \<longleftrightarrow>
     (\<exists>i'. n' = InternalNode i' \<and> (parent_page_id i \<noteq> INVALID_PAGE_ID \<longrightarrow> parent_page_id i' \<noteq> INVALID_PAGE_ID))"

lemma same_kind_refl [simp]: "same_kind n n"
  by (cases n) auto

lemma same_kind_trans: "same_kind a b \<Longrightarrow> same_kind b c \<Longrightarrow> same_kind a c"
  by (cases a; cases b) auto

lemma same_kind_set_parent: "parent \<noteq> INVALID_PAGE_ID \<Longrightarrow> same_kind n (node_set_parent parent n)"
  by (cases n) auto

definition tame :: "('k, 'v) bpt \<Rightarrow> ('k, 'v) bpt \<Rightarrow> bool" where
  "tame t t' \<longleftrightarrow> root_page_id t' = root_page_id t \<and> index_name t' = index_name t \<and>
     disk_next t \<le> disk_next t' \<and>
     (\<forall>q n. q < disk_next t \<longrightarrow> pages t q = Some n \<longrightarrow> (\<exists>n'. pages t' q = Some n' \<and> same_kind n n')) \<and>
     (\<forall>q. pages t' q \<noteq> None \<longrightarrow> pages t q \<noteq> None \<or> disk_next t \<le> q \<and> q < disk_next t')"

lemma tameD:
  "tame t t' \<Longrightarrow> q < disk_next t \<Longrightarrow> pages t q = Some n \<Longrightarrow> \<exists>n'. pages t' q = Some n' \<and> same_kind n n'"
  unfolding tame_def by blast

lemma tame_refl [simp]: "tame t t"
  by (auto simp: tame_def)

lemma tame_trans: "tame a b \<Longrightarrow> tame b c \<Longrightarrow> tame a c"
proof -
  assume a: "tame a b" and b: "tame b c"
  show "tame a c"
    unfolding tame_def
  proof (intro conjI allI impI)
    show "root_page_id c = root_page_id a" "index_name c = index_name a" "disk_next a \<le> disk_next c"
      using a b by (auto simp: tame_def)
    show "\<exists>n'. pages c q = Some n' \<and> same_kind n n'" if q: "q < disk_next a" "pages a q = Some n" for q n
    proof -
      obtain n' where n': "pages b q = Some n'" "same_kind n n'" using tameD [OF a q] by blast
      moreover have "q < disk_next b" using a q(1) by (auto simp: tame_def)
      ultimately obtain n'' where "pages c q = Some n''" "same_kind n' n''" using tameD [OF b] n'(1) by blast
      then show ?thesis using n'(2) same_kind_trans by blast
    qed
    show "pages a q \<noteq> None \<or> disk_next a \<le> q \<and> q < disk_next c" if "pages c q \<noteq> None" for q
    proof -
      have "pages b q \<noteq> None \<or> disk_next b \<le> q \<and> q < disk_next c" using b that by (simp add: tame_def)
      moreover have "pages b q \<noteq> None \<longrightarrow> pages a q \<noteq> None \<or> disk_next a \<le> q \<and> q < disk_next b"
        using a by (simp add: tame_def)
      moreover have "disk_next a \<le> disk_next b" "disk_next b \<le> disk_next c" using a b by (simp_all add: tame_def)
      ultimately show ?thesis by linarith
    qed
  qed
qed

lemma tame_same_pages:
  "pages t' = pages t \<Longrightarrow> root_page_id t' = root_page_id t \<Longrightarrow> index_name t' = index_name t \<Longrightarrow>
     disk_next t' = disk_next t \<Longrightarrow> tame t t'"
  by (auto simp: tame_def)

lemma tame_pin: "tame t (pin p t)" and tame_unpin: "tame t (unpin_page p t)"
  by (rule tame_same_pages, simp_all)+

lemma tame_put: "pages t p = Some n \<Longrightarrow> same_kind n n' \<Longrightarrow> tame t (put_page p n' t)"
  by (auto simp: tame_def)

lemma tame_fetch: "fetch_page p t = Some (n, t') \<Longrightarrow> tame t t'"
  by (auto simp: fetch_page_def tame_def split: option.splits)

lemma tame_update_internal:
  assumes "update_internal p f t = Some t'" and "\<And>i. parent_page_id (f i) = parent_page_id i"
  shows "tame t t'"
proof -
  obtain i where i: "get_internal p t = Some i" "t' = put_page p (InternalNode (f i)) t"
    using assms(1) by (auto simp: update_internal_def split: Option.bind_splits)
  then have "pages t p = Some (InternalNode i)"
    by (auto simp: get_internal_def split: option.splits page.splits)
  then show ?thesis using i(2) assms(2) by (auto intro!: tame_put)
qed

lemma tame_adopt_child:
  assumes "adopt_child parent c t = Some t'" and "parent \<noteq> INVALID_PAGE_ID"
  shows "tame t t'"
proof -
  obtain n where "pages t c = Some n"
    using assms(1) by (auto simp: adopt_child_def fetch_page_def split: option.splits)
  then show ?thesis
    using assms adopt_child_eq [of t c n parent] by (auto intro: tame_put same_kind_set_parent)
qed

lemma tame_adopt_children:
  "adopt_children parent cs t = Some t' \<Longrightarrow> parent \<noteq> INVALID_PAGE_ID \<Longrightarrow> tame t t'"
proof (induction cs arbitrary: t)
  case (Cons c cs)
  then obtain t1 where "adopt_child parent c t = Some t1" "adopt_children parent cs t1 = Some t'"
    by (auto split: Option.bind_splits)
  then show ?case using Cons tame_adopt_child tame_trans by metis
qed simp

lemma bindE:
  assumes "do { x \<leftarrow> m; f x } = Some y"
  obtains x where "m = Some x" "f x = Some y"
  using assms by (cases m) auto

lemma tame_CopyNFrom:
  assumes "InternalPage_CopyNFrom p items t = Some t'" and "p \<noteq> INVALID_PAGE_ID"
  shows "tame t t'"
proof -
  obtain t1 where "update_internal p (\<lambda>p. p\<lparr>internal_array := internal_array p @ items\<rparr>) t = Some t1"
    "adopt_children p (map snd items) t1 = Some t'"
    using assms(1) by (auto simp: InternalPage_CopyNFrom_def split: if_splits Option.bind_splits)
  then show ?thesis
    using tame_trans tame_update_internal tame_adopt_children [OF _ assms(2)] by fastforce
qed

lemma tame_MoveHalfTo:
  assumes "InternalPage_MoveHalfTo p r t = Some t'" and "r \<noteq> INVALID_PAGE_ID"
  shows "tame t t'"
proof -
  obtain xs f g t1 t2 where "InternalPage_CopyNFrom r xs t = Some t1"
    "update_internal p (\<lambda>p. p\<lparr>internal_array := f p\<rparr>) t1 = Some t2"
    "update_internal r (\<lambda>p. p\<lparr>internal_array := g p\<rparr>) t2 = Some t'"
    using assms(1) by (auto simp: InternalPage_MoveHalfTo_def Let_def split: Option.bind_splits)
  then have "tame t t1" "tame t1 t2" "tame t2 t'"
    using tame_CopyNFrom [OF _ assms(2)] by (auto intro: tame_update_internal)
  then show ?thesis using tame_trans by blast
qed

lemma tame_MoveAllTo:
  assumes "InternalPage_MoveAllTo p r k t = Some t'" and "r \<noteq> INVALID_PAGE_ID"
  shows "tame t t'"
proof -
  obtain cs f t1 t2 where "update_internal r (\<lambda>q. InternalPage_SetKeyAt (InternalPage_GetSize q) k
        (q\<lparr>internal_array := f q\<rparr>)) t = Some t1"
    "adopt_children r cs t1 = Some t2" "update_internal p (\<lambda>p. p\<lparr>internal_array := []\<rparr>) t2 = Some t'"
    using assms(1) by (auto simp: InternalPage_MoveAllTo_def split: if_splits Option.bind_splits)
  then have "tame t t1" "tame t1 t2" "tame t2 t'"
    using tame_adopt_children [OF _ assms(2)] by (auto intro: tame_update_internal simp: InternalPage_SetKeyAt_def)
  then show ?thesis using tame_trans by blast
qed

lemma tame_MoveFirstToEndOf:
  assumes "InternalPage_MoveFirstToEndOf p r k t = Some t'" and "r \<noteq> INVALID_PAGE_ID"
  shows "tame t t'"
proof -
  obtain x t1 t2 where "update_internal r (\<lambda>p. p\<lparr>internal_array := internal_array p @ [x]\<rparr>) t = Some t1"
    "adopt_child r (snd x) t1 = Some t2" "update_internal p (InternalPage_Remove 0) t2 = Some t'"
    using assms(1) by (auto simp: InternalPage_MoveFirstToEndOf_def InternalPage_CopyLastFrom_def split: Option.bind_splits)
  then have "tame t t1" "tame t1 t2" "tame t2 t'"
    using tame_adopt_child [OF _ assms(2)] by (auto intro: tame_update_internal simp: InternalPage_Remove_def)
  then show ?thesis using tame_trans by blast
qed

lemma tame_MoveLastToFrontOf:
  assumes "InternalPage_MoveLastToFrontOf p r k t = Some t'" and "r \<noteq> INVALID_PAGE_ID"
  shows "tame t t'"
proof -
  obtain x t0 t1 t2 where "update_internal r (InternalPage_SetKeyAt 0 k) t = Some t0"
    "update_internal r (\<lambda>p. p\<lparr>internal_array := array_insert (internal_array p) 0 x\<rparr>) t0 = Some t1"
    "adopt_child r (snd x) t1 = Some t2"
    "update_internal p (\<lambda>p. p\<lparr>internal_array := butlast (internal_array p)\<rparr>) t2 = Some t'"
    using assms(1) by (auto simp: InternalPage_MoveLastToFrontOf_def InternalPage_CopyFirstFrom_def split: Option.bind_splits)
  then have "tame t t0" "tame t0 t1" "tame t1 t2" "tame t2 t'"
    using tame_adopt_child [OF _ assms(2)] by (auto intro: tame_update_internal simp: InternalPage_SetKeyAt_def)
  then show ?thesis using tame_trans by blast
qed

lemma tame_new_page: "new_page init t = (p, t') \<Longrightarrow> tame t t'"
  by (auto simp: new_page_def tame_def Let_def)

lemma tame_SplitInternal:
  assumes "SplitInternal p t = Some (e, t')" and "0 < disk_next t"
  shows "tame t t'"
proof -
  obtain par t1 where n: "NewInternal par t = (e, t1)" "InternalPage_MoveHalfTo p e t1 = Some t'"
    using assms(1) by (auto simp: SplitInternal_def Let_def split: Option.bind_splits prod.splits)
  have "e = disk_next t" using n(1) by (auto simp: NewInternal_def new_page_def Let_def)
  then show ?thesis
    using n assms(2) tame_MoveHalfTo [OF n(2)] tame_new_page tame_trans unfolding NewInternal_def by fastforce
qed


section \<open>Allocated pages\<close>

definition allocated :: "('k, 'v) bpt \<Rightarrow> bool" where
  "allocated t \<longleftrightarrow> (\<forall>q. pages t q \<noteq> None \<longrightarrow> 0 \<le> q \<and> q < disk_next t)"

definition root_recorded :: "('k, 'v) bpt \<Rightarrow> int \<Rightarrow> bool" where
  "root_recorded t old \<longleftrightarrow> old \<noteq> HEADER_PAGE_ID \<and>
     (\<exists>recs. pages t HEADER_PAGE_ID = Some (HeaderNode recs) \<and> map_of recs (index_name t) = Some old)"

definition ready :: "('k, 'v) bpt \<Rightarrow> bool" where
  "ready t \<longleftrightarrow> allocated t \<and> root_recorded t (root_page_id t) \<and> 0 < disk_next t \<and> root_page_id t < disk_next t"

lemma ready_tame:
  assumes "ready t" and "tame t t'"
  shows "ready t'"
proof -
  obtain recs where recs: "pages t 0 = Some (HeaderNode recs)" "map_of recs (index_name t) = Some (root_page_id t)"
    "0 < disk_next t" "root_page_id t < disk_next t" "root_page_id t \<noteq> 0" "allocated t"
    using assms(1) by (auto simp: ready_def root_recorded_def)
  have d: "disk_next t \<le> disk_next t'" "root_page_id t' = root_page_id t" "index_name t' = index_name t"
    using assms(2) by (simp_all add: tame_def)
  have "pages t' 0 = Some (HeaderNode recs)" using assms(2) recs(1,3) by (fastforce simp: tame_def)
  moreover have "allocated t'"
    unfolding allocated_def
  proof (intro allI impI)
    fix q assume "pages t' q \<noteq> None"
    then have "pages t q \<noteq> None \<or> disk_next t \<le> q \<and> q < disk_next t'"
      using assms(2) by (simp add: tame_def)
    moreover have "pages t q \<noteq> None \<longrightarrow> 0 \<le> q \<and> q < disk_next t" using recs(6) by (simp add: allocated_def)
    ultimately show "0 \<le> q \<and> q < disk_next t'" using d(1) recs(3) by linarith
  qed
  ultimately show ?thesis using recs d by (simp add: ready_def root_recorded_def)
qed

text \<open>The same without the header page, for the steps that replace the root.\<close>

definition nodes_tame :: "('k, 'v) bpt \<Rightarrow> ('k, 'v) bpt \<Rightarrow> bool" where
  "nodes_tame t t' \<longleftrightarrow> disk_next t \<le> disk_next t' \<and>
     (\<forall>q n. q < disk_next t \<longrightarrow> get_node q t = Some n \<longrightarrow> (\<exists>n'. get_node q t' = Some n' \<and> same_kind n n')) \<and>
     (\<forall>q. pages t' q \<noteq> None \<longrightarrow> pages t q \<noteq> None \<or> disk_next t \<le> q \<and> q < disk_next t')"

lemma nodes_tameD:
  "nodes_tame t t' \<Longrightarrow> q < disk_next t \<Longrightarrow> get_node q t = Some n \<Longrightarrow>
     \<exists>n'. get_node q t' = Some n' \<and> same_kind n n'"
  unfolding nodes_tame_def by blast

lemma same_kind_get_node:
  "get_node q t = Some n \<Longrightarrow> pages t' q = Some n' \<Longrightarrow> same_kind n n' \<Longrightarrow> get_node q t' = Some n'"
  by (cases n) (auto simp: get_node_def split: option.splits page.splits)

lemma tame_nodes: "tame t t' \<Longrightarrow> nodes_tame t t'"
  unfolding tame_def nodes_tame_def using same_kind_get_node get_node_the by (metis (no_types, lifting))

lemma nodes_tame_after:
  assumes "tame a b" and "nodes_tame b c"
  shows "nodes_tame a c"
  unfolding nodes_tame_def
proof (intro conjI allI impI)
  note a = tame_nodes [OF assms(1)]
  have le: "disk_next a \<le> disk_next b" "disk_next b \<le> disk_next c" using a assms(2) by (simp_all add: nodes_tame_def)
  then show "disk_next a \<le> disk_next c" by simp
  show "\<exists>n'. get_node q c = Some n' \<and> same_kind n n'" if q: "q < disk_next a" "get_node q a = Some n" for q n
  proof -
    obtain n' where n': "get_node q b = Some n'" "same_kind n n'" using nodes_tameD [OF a q] by blast
    moreover have "q < disk_next b" using le q(1) by simp
    ultimately obtain n'' where "get_node q c = Some n''" "same_kind n' n''"
      using nodes_tameD [OF assms(2)] n'(1) by blast
    then show ?thesis using n'(2) same_kind_trans by blast
  qed
  show "pages a q \<noteq> None \<or> disk_next a \<le> q \<and> q < disk_next c" if "pages c q \<noteq> None" for q
  proof -
    have "pages b q \<noteq> None \<or> disk_next b \<le> q \<and> q < disk_next c" using assms(2) that by (simp add: nodes_tame_def)
    moreover have "pages b q \<noteq> None \<longrightarrow> pages a q \<noteq> None \<or> disk_next a \<le> q \<and> q < disk_next b"
      using a by (simp add: nodes_tame_def)
    ultimately show ?thesis using le by linarith
  qed
qed

lemma allocated_nodes_tame:
  assumes "allocated t" and "nodes_tame t t'" and "0 < disk_next t"
  shows "allocated t'"
  unfolding allocated_def
proof (intro allI impI)
  fix q assume "pages t' q \<noteq> None"
  then have "pages t q \<noteq> None \<or> disk_next t \<le> q \<and> q < disk_next t'"
    using assms(2) by (simp add: nodes_tame_def)
  moreover have "pages t q \<noteq> None \<longrightarrow> 0 \<le> q \<and> q < disk_next t" using assms(1) by (simp add: allocated_def)
  moreover have "disk_next t \<le> disk_next t'" using assms(2) by (simp add: nodes_tame_def)
  ultimately show "0 \<le> q \<and> q < disk_next t'" using assms(3) by linarith
qed

lemma get_node_not_header:
  "get_node p t = Some n \<Longrightarrow> pages t HEADER_PAGE_ID = Some (HeaderNode r) \<Longrightarrow> p \<noteq> HEADER_PAGE_ID"
  by (auto simp: get_node_def)

lemma UpdateRootPageId_tame:
  assumes "UpdateRootPageId t = Some u"
  shows "nodes_tame t u" and "\<exists>r. pages u HEADER_PAGE_ID = Some (HeaderNode r)" "disk_next u = disk_next t"
    "root_page_id u = root_page_id t" "pins u = pins t"
proof -
  obtain recs recs' where u: "pages t 0 = Some (HeaderNode recs)" "u = unpin_page 0 (put_page 0 (HeaderNode recs') (pin 0 t))"
  proof (cases "pages t 0")
    case (Some n)
    then show thesis
      using that assms by (auto simp: UpdateRootPageId_def fetch_page_eq split: Option.bind_splits page.splits)
  qed (use assms in \<open>simp add: UpdateRootPageId_def fetch_page_def\<close>)
  show "nodes_tame t u" using u by (auto simp: nodes_tame_def get_node_def)
  show "\<exists>r. pages u HEADER_PAGE_ID = Some (HeaderNode r)" "disk_next u = disk_next t"
    "root_page_id u = root_page_id t" "pins u = pins t" by (simp_all add: u(2))
qed

end
