(* ===== verification/TSInsert.thy ===== *)
theory TSInsert
  imports TSFrames
begin

text \<open>
  Insertion into the thread-safe tree. On the pages it does what the other tree does: the lemmas
  take a run of the steps of \<open>BPlusTree\<close> and give the run of the steps here, with the pin of the
  root moved and the latches that are released. The correctness of the contents is then that of
  \<^verbatim>\<open>Insert\<close>, and what is new is that the latches come out even.
\<close>

section \<open>The pin of the root\<close>

definition move_root_pin :: "int \<Rightarrow> int \<Rightarrow> (int \<Rightarrow> nat) \<Rightarrow> int \<Rightarrow> nat" where
  "move_root_pin old new f =
     (\<lambda>x. f x - of_bool (x = old \<and> old \<noteq> INVALID_PAGE_ID) + of_bool (x = new \<and> new \<noteq> INVALID_PAGE_ID))"

lemma TS_UpdateRootPageId_eq:
  assumes "UpdateRootPageId t = Some u" and "root_recorded t old"
    and "root_page_id t \<noteq> HEADER_PAGE_ID"
    and "root_page_id t \<noteq> INVALID_PAGE_ID \<Longrightarrow> pages t (root_page_id t) \<noteq> None"
  shows "TS_UpdateRootPageId t = Some (u\<lparr>pins := move_root_pin old (root_page_id t) (pins u)\<rparr>)"
proof -
  obtain recs where recs: "pages t 0 = Some (HeaderNode recs)" "map_of recs (index_name t) = Some old" "old \<noteq> 0"
    using assms(2) by (auto simp: root_recorded_def)
  obtain ok recs' where u: "HeaderPage_UpdateRecord (index_name t) (root_page_id t) recs = Some (ok, recs')"
    "u = unpin_page 0 (put_page 0 (HeaderNode recs') (pin 0 t))"
    using assms(1) recs(1) by (auto simp: UpdateRootPageId_def fetch_page_eq split: Option.bind_splits)
  have "recs \<noteq> []" using recs(2) by auto
  then have search: "HeaderPage_SearchRecord (index_name t) recs = Some (Some old)"
    using recs(2) by (simp add: HeaderPage_SearchRecord_map)
  show ?thesis
  proof (cases "root_page_id t = INVALID_PAGE_ID")
    case True
    then show ?thesis
      using recs u search
      by (auto simp: TS_UpdateRootPageId_def fetch_page_eq move_root_pin_def drop_pin_def fun_eq_iff
          intro!: bpt.equality)
  next
    case False
    then obtain m where "pages t (root_page_id t) = Some m" using assms(4) by auto
    then show ?thesis
      using recs u search False assms(3)
      by (auto simp: TS_UpdateRootPageId_def fetch_page_eq move_root_pin_def drop_pin_def fun_eq_iff
          intro!: bpt.equality)
  qed
qed

lemma TS_GrowRoot_eq:
  assumes "GrowRoot a k b (tree s) = Some t'" and "root_recorded (tree s) (root_page_id (tree s))"
    and "root_page_id (tree s) < disk_next (tree s)" and "a < disk_next (tree s)" and "b < disk_next (tree s)"
    and "0 < disk_next (tree s)"
  shows "TS_GrowRoot a k b s = Some (s\<lparr>
       tree := t'\<lparr>pins := move_root_pin (root_page_id (tree s)) (root_page_id t') (pins t')\<rparr>,
       calls := calls s @ [Release Exclusive RootLatch]\<rparr>)" (is ?run)
    and "root_page_id t' = disk_next (tree s)"
    and "nodes_tame (tree s) t'"
proof -
  let ?t = "tree s" and ?r = "disk_next (tree s)"
  obtain recs where recs: "pages ?t 0 = Some (HeaderNode recs)" "map_of recs (index_name ?t) = Some (root_page_id ?t)"
    "root_page_id ?t \<noteq> 0" using assms(2) by (auto simp: root_recorded_def)
  let ?new = "InternalNode (InternalPage_PopulateNewRoot (zero_key ?t) a k b
      (InternalPage_Init ?r INVALID_PAGE_ID (internal_max_size ?t)))"
  define t2 where "t2 = ?t\<lparr>pages := (pages ?t)(?r \<mapsto> ?new), pins := (pins ?t)(?r := 1), disk_next := ?r + 1\<rparr>"
  let ?t1 = "?t\<lparr>pages := (pages ?t)(?r \<mapsto> InternalNode (InternalPage_Init ?r INVALID_PAGE_ID (internal_max_size ?t))),
      pins := (pins ?t)(?r := 1), disk_next := ?r + 1\<rparr>"
  have new: "NewInternal INVALID_PAGE_ID ?t = (?r, ?t1)"
    by (simp add: NewInternal_def new_page_def Let_def)
  have "update_internal ?r (InternalPage_PopulateNewRoot (zero_key ?t) a k b) ?t1 = Some t2"
    by (subst update_internal_eq, simp) (simp add: put_page_def t2_def)
  note shared = new this
  obtain na nb t5 where n: "get_node a t2 = Some na"
    "get_node b (put_page a (node_set_parent ?r na) t2) = Some nb"
    "UpdateRootPageId ((put_page b (node_set_parent ?r nb) (put_page a (node_set_parent ?r na) t2))\<lparr>root_page_id := ?r\<rparr>) = Some t5"
    "t' = unpin_page b (unpin_page a (unpin_page ?r t5))"
    using assms(1) by (auto simp: GrowRoot_def shared Let_def simp del: fun_upd_apply One_nat_def elim!: bindE)
  define t4 where "t4 = (put_page b (node_set_parent ?r nb) (put_page a (node_set_parent ?r na) t2))\<lparr>root_page_id := ?r\<rparr>"
  have hdr2: "pages t2 0 = Some (HeaderNode recs)" using recs(1) assms(6) by (simp add: t2_def)
  then have ab: "a \<noteq> 0" "b \<noteq> 0"
    using get_node_not_header [OF n(1)] get_node_not_header [OF n(2)] by auto
  have t4: "pages t4 0 = Some (HeaderNode recs)" "index_name t4 = index_name ?t" "root_page_id t4 = ?r"
    "pages t4 ?r \<noteq> None" "pins t4 = (pins ?t)(?r := 1)"
    using hdr2 ab by (simp_all add: t4_def) (simp_all add: t2_def)
  have rec: "root_recorded t4 (root_page_id ?t)" using recs t4 by (simp add: root_recorded_def)
  have upd: "TS_UpdateRootPageId t4 = Some (t5\<lparr>pins := move_root_pin (root_page_id ?t) ?r (pins t5)\<rparr>)"
    using TS_UpdateRootPageId_eq [OF n(3) [folded t4_def] rec] t4(3,4) assms(6) by simp
  have pins5: "pins t5 = (pins ?t)(?r := 1)" "root_page_id t5 = ?r"
    using n(3) t4 unfolding t4_def [symmetric]
    by (auto simp: UpdateRootPageId_def fetch_page_eq drop_pin_def fun_eq_iff split: Option.bind_splits)
  show root: "root_page_id t' = ?r" by (simp add: n(4) pins5)
  have "pins (unpin_page b (unpin_page a (unpin_page ?r (t5\<lparr>pins := move_root_pin (root_page_id ?t) ?r (pins t5)\<rparr>))))
      = move_root_pin (root_page_id ?t) ?r (pins t')"
    using assms(3-6) by (auto simp: n(4) pins5 move_root_pin_def drop_pin_def fun_eq_iff)
  then have fin: "unpin_page b (unpin_page a (unpin_page ?r (t5\<lparr>pins := move_root_pin (root_page_id ?t) ?r (pins t5)\<rparr>)))
      = t'\<lparr>pins := move_root_pin (root_page_id ?t) ?r (pins t')\<rparr>"
    by (intro bpt.equality) (simp_all add: n(4))
  show ?run
    using n(1,2) upd fin root unfolding t4_def
    by (simp add: TS_GrowRoot_def shared Let_def with_tree_def latch_call_def ts_update_commute del: One_nat_def)
  have "pages t2 q = pages ?t q" if "q \<noteq> ?r" for q using that by (simp add: t2_def)
  then have "tame ?t t2" by (auto simp: tame_def t2_def)
  moreover have "tame t2 (put_page a (node_set_parent ?r na) t2)"
    using get_node_the [OF n(1)] assms(6) by (intro tame_put [OF _ same_kind_set_parent]) simp_all
  moreover have "tame (put_page a (node_set_parent ?r na) t2)
      (put_page b (node_set_parent ?r nb) (put_page a (node_set_parent ?r na) t2))" (is "tame ?u ?v")
    using get_node_the [OF n(2)] assms(6) by (intro tame_put [OF _ same_kind_set_parent]) simp_all
  ultimately have "tame ?t ?v" by (metis tame_trans)
  moreover have "nodes_tame ?v t5"
    using UpdateRootPageId_tame(1) [OF n(3)] by (simp add: nodes_tame_def get_node_def)
  ultimately have "nodes_tame ?t t5" by (rule nodes_tame_after)
  then show "nodes_tame ?t t'"
    by (simp add: nodes_tame_def get_node_def n(4))
qed

section \<open>The climb\<close>

definition insert_outcome ::
    "('k, 'v) ts_state \<Rightarrow> ('k, 'v) bpt \<Rightarrow> ('k, 'v) ts_state \<Rightarrow> bool" where
  "insert_outcome s t' s' \<longleftrightarrow>
     (root_page_id t' = root_page_id (tree s) \<and> tame (tree s) t' \<and> s' = s\<lparr>tree := t'\<rparr> \<or>
      root_page_id t' \<noteq> root_page_id (tree s) \<and> nodes_tame (tree s) t' \<and>
      s' = s\<lparr>tree := t'\<lparr>pins := move_root_pin (root_page_id (tree s)) (root_page_id t') (pins t')\<rparr>,
             calls := calls s @ [Release Exclusive RootLatch]\<rparr>)"

lemma TS_InsertIntoParent_sim:
  fixes t :: "('k, 'v) bpt"
  assumes "InsertIntoParent old_pid key new_pid t = Some t'" and "tree s = t" and "ready t"
    and "pages t new_pid \<noteq> None"
  shows "\<exists>s'. TS_InsertIntoParent old_pid key new_pid s = Some s' \<and> insert_outcome s t' s'"
proof -
  let ?Q = "\<lambda>old_pid key new_pid t t'. \<forall>s. tree s = t \<longrightarrow> ready t \<longrightarrow> pages t new_pid \<noteq> None \<longrightarrow>
     (\<exists>s'. TS_InsertIntoParent old_pid key new_pid s = Some s' \<and> insert_outcome s t' s')"
  have "?Q old_pid key new_pid t t'"
  proof (rule InsertIntoParent.raw_induct [OF _ assms(1)])
    fix climb old_pid key new_pid and t t' :: "('k, 'v) bpt"
    assume IH: "\<And>old_pid key new_pid t t'. climb old_pid key new_pid t = Some t' \<Longrightarrow> ?Q old_pid key new_pid t t'"
      and run: "(do { old_node \<leftarrow> get_node old_pid t;
          if node_parent old_node = INVALID_PAGE_ID then GrowRoot old_pid key new_pid t
          else do {
            let parent_pid = node_parent old_node;
            (n, t1) \<leftarrow> fetch_page parent_pid t;
            let t2 = unpin_page new_pid (unpin_page old_pid t1);
            t3 \<leftarrow> update_internal parent_pid
                    (\<lambda>p. snd (InternalPage_InsertNodeAfter old_pid key new_pid p)) t2;
            parent_node \<leftarrow> get_internal parent_pid t3;
            if InternalPage_GetSize parent_node = max_size parent_node then do {
              (extra_pid, t4) \<leftarrow> SplitInternal parent_pid t3;
              extra_node \<leftarrow> get_internal extra_pid t4;
              extra_key \<leftarrow> InternalPage_KeyAt 0 extra_node;
              climb parent_pid extra_key extra_pid t4 }
            else Some (unpin_page parent_pid t3) } }) = Some t'"
    show "?Q old_pid key new_pid t t'"
    proof (intro allI impI)
      fix s :: "('k, 'v) ts_state"
      assume s: "tree s = t" "ready t" "pages t new_pid \<noteq> None"
      obtain node where node: "get_node old_pid t = Some node" using run by (auto elim: bindE)
      show "\<exists>s'. TS_InsertIntoParent old_pid key new_pid s = Some s' \<and> insert_outcome s t' s'"
      proof (cases "node_parent node = INVALID_PAGE_ID")
        case True
        have low: "old_pid < disk_next t" "new_pid < disk_next t"
          using s(2,3) get_node_the [OF node] by (auto simp: ready_def allocated_def)
        have grow: "GrowRoot old_pid key new_pid (tree s) = Some t'" using run node True s(1) by simp
        have "root_recorded (tree s) (root_page_id (tree s))" "root_page_id (tree s) < disk_next (tree s)"
          "0 < disk_next (tree s)" using s(1,2) by (simp_all add: ready_def)
        note eq = TS_GrowRoot_eq [OF grow this(1,2) low [folded s(1)] this(3)]
        show ?thesis
          using eq \<open>root_page_id (tree s) < disk_next (tree s)\<close> node True s(1)
          by (subst TS_InsertIntoParent.simps) (simp add: insert_outcome_def)
      next
        case False
        let ?p = "node_parent node"
        obtain n t1 where f: "fetch_page ?p t = Some (n, t1)" using run node False by (auto simp: Let_def elim!: bindE)
        let ?t2 = "unpin_page new_pid (unpin_page old_pid t1)"
        obtain t3 pn where u: "update_internal ?p (\<lambda>p. snd (InternalPage_InsertNodeAfter old_pid key new_pid p)) ?t2 = Some t3"
          "get_internal ?p t3 = Some pn"
          using run node False f by (auto simp: Let_def elim!: bindE)
        have par: "parent_page_id (snd (InternalPage_InsertNodeAfter a k b i)) = parent_page_id i" for a k b and i :: "'k internal_page"
          by (simp add: InternalPage_InsertNodeAfter_def Let_def)
        have "tame t t1" using f by (rule tame_fetch)
        moreover have "tame t1 ?t2" using tame_unpin tame_trans by blast
        moreover have "tame ?t2 t3" using u(1) par by (rule tame_update_internal)
        ultimately have t3: "tame t t3" using tame_trans by blast
        note step = node f u
        show ?thesis
        proof (cases "InternalPage_GetSize pn = max_size pn")
          case full: True
          obtain e t4 en k' where sp: "SplitInternal ?p t3 = Some (e, t4)" "get_internal e t4 = Some en"
            "InternalPage_KeyAt 0 en = Some k'" "climb ?p k' e t4 = Some t'"
            using run step False full by (auto simp: Let_def elim!: bindE)
          have "ready t3" using ready_tame [OF s(2) t3] .
          then have "tame t3 t4" using tame_SplitInternal [OF sp(1)] by (simp add: ready_def)
          then have t4: "tame t t4" using t3 tame_trans by blast
          have "ready t4" using ready_tame [OF s(2) t4] .
          moreover have "pages t4 e \<noteq> None" using sp(2) by (auto simp: get_internal_def split: option.splits)
          ultimately obtain s' where s': "TS_InsertIntoParent ?p k' e (s\<lparr>tree := t4\<rparr>) = Some s'"
            "insert_outcome (s\<lparr>tree := t4\<rparr>) t' s'"
            using IH [OF sp(4)] by (elim allE [of _ "s\<lparr>tree := t4\<rparr>"]) auto
          have "TS_InsertIntoParent old_pid key new_pid s = Some s'"
            using s(1) step False full sp(1-3) s'(1)
            by (subst TS_InsertIntoParent.simps) (simp add: Let_def)
          moreover have "root_page_id t4 = root_page_id t" using t4 by (simp add: tame_def)
          then have "insert_outcome s t' s'"
            using s'(2) t4 tame_trans [OF t4] nodes_tame_after [OF t4] s(1) by (auto simp: insert_outcome_def)
          ultimately show ?thesis by blast
        next
          case fits: False
          have t': "t' = unpin_page ?p t3" using run step False fits by (simp add: Let_def)
          have "TS_InsertIntoParent old_pid key new_pid s = Some (s\<lparr>tree := t'\<rparr>)"
            using s(1) step False fits t' by (subst TS_InsertIntoParent.simps) (simp add: Let_def)
          moreover have "tame t t'" unfolding t' by (rule tame_trans [OF t3 tame_unpin])
          ultimately show ?thesis using s(1) by (auto simp: insert_outcome_def tame_def)
        qed
      qed
    qed
  qed
  then show ?thesis using assms(2-4) by simp
qed

section \<open>Changes that keep the latches of a path\<close>

lemma path_ok_put_leaf:
  assumes "path_ok t A" and "pages t q = Some (LeafNode l)" and "parent_page_id l' = parent_page_id l"
  shows "path_ok (put_page q (LeafNode l') t) A"
  unfolding path_ok_def
proof
  fix p assume "p \<in> A"
  then obtain n where n: "get_node p t = Some n" "node_parent n = INVALID_PAGE_ID \<longleftrightarrow> p = root_page_id t"
    using assms(1) by (auto simp: path_ok_def)
  show "\<exists>n. get_node p (put_page q (LeafNode l') t) = Some n \<and>
      (node_parent n = INVALID_PAGE_ID \<longleftrightarrow> p = root_page_id (put_page q (LeafNode l') t))"
  proof (cases "p = q")
    case True
    then have "n = LeafNode l" using n(1) assms(2) get_node_the by fastforce
    then show ?thesis using n(2) True assms(3) by (simp add: get_node_def)
  qed (use n in \<open>simp add: get_node_def\<close>)
qed

lemma let_go_put_leaf:
  assumes "pages t q = Some (LeafNode l)"
  shows "let_go tt (put_page q (LeafNode l') t) = let_go tt t"
  using assms by (auto simp: let_go_def mode_of_def page_mode_def fun_eq_iff)

lemma let_go_writing:
  "\<not> reading tt \<Longrightarrow> root_page_id t = root_page_id t' \<Longrightarrow> let_go tt t = let_go tt t'"
  by (auto simp: let_go_def mode_of_writing fun_eq_iff)

lemma latched_writing:
  "\<not> reading tt \<Longrightarrow> root_page_id t = root_page_id t' \<Longrightarrow> latched tt t = latched tt t'"
  by (auto simp: latched_def mode_of_writing fun_eq_iff split: latch.splits)

lemma unpins_put: "unpins ps (put_page q n t) = put_page q n (unpins ps t)"
  by (intro bpt.equality) (simp_all add: pins_unpins)

lemma put_pinned: "put_page q n (pinned ps t) = pinned ps (put_page q n t)"
  by (intro bpt.equality) simp_all

text \<open>
  When the root has not moved, or has got a parent, the pages of a path still say which of them
  is the root.
\<close>

lemma path_ok_after:
  assumes "path_ok t A" and "A \<subseteq> {p. p < disk_next t}" and "nodes_tame t t'" and "tree_inv t' g'"
    and "root_page_id t' = root_page_id t \<or>
      (\<exists>n. get_node (root_page_id t) t' = Some n \<and> node_parent n \<noteq> INVALID_PAGE_ID)"
  shows "path_ok t' A"
  unfolding path_ok_def
proof
  fix p assume p: "p \<in> A"
  obtain n where n: "get_node p t = Some n" "node_parent n = INVALID_PAGE_ID \<longleftrightarrow> p = root_page_id t"
    using assms(1) p by (auto simp: path_ok_def)
  obtain n' where n': "get_node p t' = Some n'" "same_kind n n'"
    using nodes_tameD [OF assms(3) _ n(1)] assms(2) p by auto
  have low: "node_parent n' \<noteq> INVALID_PAGE_ID" if "node_parent n \<noteq> INVALID_PAGE_ID"
    using n'(2) that by (cases n) auto
  have "root_page_id t' \<in> set (pids g')" using assms(4) by (auto simp: tree_inv_def stored_def)
  then obtain r where r: "get_node (root_page_id t') t' = Some r" "node_parent r = INVALID_PAGE_ID"
    using tree_inv_path_ok [OF assms(4)] by (auto simp: path_ok_def)
  have "node_parent n' = INVALID_PAGE_ID \<longleftrightarrow> p = root_page_id t'"
  proof (cases "p = root_page_id t")
    case True
    show ?thesis
      using assms(5)
    proof
      assume "root_page_id t' = root_page_id t"
      then show ?thesis using True n'(1) r by simp
    next
      assume "\<exists>n. get_node (root_page_id t) t' = Some n \<and> node_parent n \<noteq> INVALID_PAGE_ID"
      then have "node_parent n' \<noteq> INVALID_PAGE_ID" using True n'(1) by auto
      moreover have "p \<noteq> root_page_id t'" using calculation n'(1) r by auto
      ultimately show ?thesis by simp
    qed
  next
    case False
    then have "node_parent n' \<noteq> INVALID_PAGE_ID" using n(2) low by simp
    moreover have "p \<noteq> root_page_id t'" using calculation n'(1) r by auto
    ultimately show ?thesis by simp
  qed
  then show "\<exists>n. get_node p t' = Some n \<and> (node_parent n = INVALID_PAGE_ID \<longleftrightarrow> p = root_page_id t')"
    using n'(1) by blast
qed

section \<open>Insertion into a leaf\<close>

definition root_pin_moved :: "('k, 'v) bpt \<Rightarrow> ('k, 'v) bpt \<Rightarrow> bool" where
  "root_pin_moved t t' \<longleftrightarrow> pins t' =
     (if root_page_id t' = root_page_id t then pins t
      else move_root_pin (root_page_id t) (root_page_id t') (pins t))"

lemma holds_ready:
  assumes "holds t es" and "allocated t"
  shows "ready t"
proof -
  have ok: "header_ok t" "alloc_ok t" using assms(1) by (auto simp: holds_def tree_inv_def stored_def)
  have root: "root_page_id t \<noteq> 0" "root_page_id t < disk_next t"
  proof (atomize (full), cases "root_page_id t = INVALID_PAGE_ID")
    case True
    then show "root_page_id t \<noteq> 0 \<and> root_page_id t < disk_next t" using ok(2) by (simp add: alloc_ok_def)
  next
    case False
    then obtain g where g: "tree_inv t g" using holds_tree [OF assms(1)] by blast
    then have "root_page_id t \<in> set (pids g)" "stored t [] [g]" by (auto simp: tree_inv_def stored_def)
    then show "root_page_id t \<noteq> 0 \<and> root_page_id t < disk_next t"
      using storedD(4) [of t "[]" "[g]" "root_page_id t"] by simp
  qed
  show ?thesis
    using ok root assms(2) by (auto simp: ready_def root_recorded_def header_ok_def alloc_ok_def)
qed

lemma tame_SplitLeaf:
  fixes t :: "('k, 'v) bpt"
  assumes "SplitLeaf q t = Some (e, t')" and "q < disk_next t"
  shows "tame t t'" and "e = disk_next t"
proof -
  obtain l where leaf: "get_leaf q t = Some l" using assms(1) by (auto simp: SplitLeaf_def elim: bindE)
  define e0 :: "('k, 'v) leaf_page" where "e0 = LeafPage_Init (disk_next t) (parent_page_id l) (leaf_max_size t)"
  define l' where "l' = fst (LeafPage_MoveHalfTo l e0)"
  define e' where "e' = snd (LeafPage_MoveHalfTo l e0)"
  define t1 where "t1 = snd (NewLeaf (parent_page_id l) t)"
  have new: "NewLeaf (parent_page_id l) t = (disk_next t, t1)" "get_leaf (disk_next t) t1 = Some e0"
    by (simp_all add: t1_def NewLeaf_def new_page_def Let_def get_leaf_def e0_def)
  have "t' = put_page (disk_next t) (LeafNode e') (put_page q (LeafNode l') t1)" "e = disk_next t"
    using assms(1) leaf new by (auto simp: SplitLeaf_def e'_def l'_def split: prod.splits)
  moreover have "parent_page_id l' = parent_page_id l"
    by (simp add: l'_def LeafPage_MoveHalfTo_def LeafPage_SetSize_def Let_def)
  ultimately have l: "get_leaf q t = Some l" "parent_page_id l' = parent_page_id l"
    "t' = put_page (disk_next t) (LeafNode e') (put_page q (LeafNode l') t1)"
    "e = disk_next t"
    using leaf by blast+
  have page: "pages t q = Some (LeafNode l)"
    using l(1) by (auto simp: get_leaf_def split: option.splits page.splits)
  show "e = disk_next t" by (rule l(4))
  show "tame t t'"
    using page l(2) assms(2) by (auto simp: l(3) t1_def tame_def NewLeaf_def new_page_def Let_def)
qed

end
