(* ===== verification/TSInsertOps.thy ===== *)
theory TSInsertOps
  imports TSInsert
begin

text \<open>
  The insertions of the thread-safe tree, from the leaf up: the pessimistic one, which keeps the
  ancestors that may change, the optimistic one, and their combination in \<^verbatim>\<open>OptimisticInsert\<close>.
\<close>

section \<open>At the leaf\<close>

definition ts_updated :: "('k, 'v) bpt \<Rightarrow> ('k \<times> 'v) list \<Rightarrow> ('k, 'v) bpt \<Rightarrow> bool" where
  "ts_updated t es' t' \<longleftrightarrow> holds t' es' \<and> allocated t' \<and> evolves t t' \<and> root_pin_moved t t'"

lemma allocated_put: "allocated t \<Longrightarrow> pages t q = Some n \<Longrightarrow> allocated (put_page q n' t)"
  by (auto simp: allocated_def)

text \<open>The invariant does not look at the pins of allocated pages.\<close>

lemma stored_pins:
  assumes "stored t c ts" and "\<forall>p \<ge> disk_next t. pn p = 0"
  shows "stored (t\<lparr>pins := pn\<rparr>) c ts"
  using assms(2) by (intro stored_cong [OF assms(1)]) simp_all

lemma tree_inv_pins:
  "tree_inv t g \<Longrightarrow> \<forall>p \<ge> disk_next t. pn p = 0 \<Longrightarrow> tree_inv (t\<lparr>pins := pn\<rparr>) g"
  using stored_pins by (auto simp: tree_inv_def)

lemma evolves_pins: "evolves t t' \<Longrightarrow> evolves t (t'\<lparr>pins := pn\<rparr>)"
  by (simp add: evolves_def)

lemma tree_inv_unused_pins: "tree_inv t g \<Longrightarrow> disk_next t \<le> p \<Longrightarrow> pins t p = 0"
  by (simp add: tree_inv_def stored_def alloc_ok_def)

lemma tree_inv_root_low: "tree_inv t g \<Longrightarrow> 0 < root_page_id t \<and> root_page_id t < disk_next t"
  using storedD(4) [of t "[]" "[g]" "root_page_id t"] storedD(6) [of t "[]" "[g]"]
  by (simp add: tree_inv_def)

lemma holds_root_low: "holds t es \<Longrightarrow> root_page_id t < disk_next t"
  using tree_inv_root_low by (auto simp: holds_def alloc_ok_def)

lemma holds_pins:
  assumes "holds t es" and "\<forall>p \<ge> disk_next t. pn p = 0"
  shows "holds (t\<lparr>pins := pn\<rparr>) es"
proof -
  have "header_ok (t\<lparr>pins := pn\<rparr>)" "alloc_ok (t\<lparr>pins := pn\<rparr>)"
    if "header_ok t" "alloc_ok t" using that assms(2) by (auto simp: header_ok_def alloc_ok_def)
  then show ?thesis using assms(1) tree_inv_pins [OF _ assms(2)] by (auto simp: holds_def sizes_ok_def)
qed

lemma ts_updatedI:
  assumes "holds st' es'" and "evolves st st'" and "allocated T"
    and "T = st'\<lparr>pins := pins T\<rparr>" and "root_pin_moved st T" and "\<And>p. disk_next st \<le> p \<Longrightarrow> pins st p = 0"
  shows "ts_updated st es' T"
proof -
  have root: "root_page_id T = root_page_id st'" by (subst assms(4)) simp
  have "\<forall>p \<ge> disk_next st'. pins T p = 0"
  proof (intro allI impI)
    fix p assume p: "disk_next st' \<le> p"
    then have "pins st p = 0" using assms(2,6) by (simp add: evolves_def)
    then show "pins T p = 0"
      using assms(5) p holds_root_low [OF assms(1)] root by (auto simp: root_pin_moved_def move_root_pin_def)
  qed
  then have "holds T es'" using holds_pins [OF assms(1)] assms(4) by metis
  moreover have "evolves st T" using evolves_pins [OF assms(2)] assms(4) by metis
  ultimately show ?thesis using assms(3,5) by (simp add: ts_updated_def)
qed

text \<open>A new root is not one of the pages of the old path.\<close>

lemma root_not_held:
  assumes "path_ok t A" and "A \<subseteq> {p. p < disk_next t}" and "nodes_tame t t'" and "path_ok t' A"
    and "root_page_id t' \<noteq> root_page_id t"
  shows "root_page_id t' \<notin> A"
proof
  assume r: "root_page_id t' \<in> A"
  obtain n where n: "get_node (root_page_id t') t = Some n" "node_parent n \<noteq> INVALID_PAGE_ID"
    using assms(1,5) r by (auto simp: path_ok_def)
  have "root_page_id t' < disk_next t" using r assms(2) by auto
  then obtain n' where "get_node (root_page_id t') t' = Some n'" "same_kind n n'"
    using nodes_tameD [OF assms(3) _ n(1)] by auto
  moreover have "\<exists>n'. get_node (root_page_id t') t' = Some n' \<and> node_parent n' = INVALID_PAGE_ID"
    using assms(4) r by (auto simp: path_ok_def)
  ultimately show False using n(2) by (cases n) auto
qed

lemma nodes_tame_cong:
  "pages u = pages u' \<Longrightarrow> disk_next u = disk_next u' \<Longrightarrow> nodes_tame t u = nodes_tame t u'"
  by (simp add: nodes_tame_def get_node_def)

lemma insert_outcome_steps:
  assumes "insert_outcome s t' s'"
  shows "nodes_tame (tree s) (tree s')" "root_page_id (tree s') = root_page_id t'"
    "pages (tree s') = pages t'" "disk_next (tree s') = disk_next t'"
  using assms tame_nodes nodes_tame_cong [of "t'\<lparr>pins := pn\<rparr>" t' "tree s" for pn]
  by (auto simp: insert_outcome_def)

lemma pins_moved_back:
  assumes "new \<noteq> old"
  shows "(\<lambda>x. move_root_pin old new (\<lambda>x. f x + count_list P x) x - count_list P x) = move_root_pin old new f"
  using assms by (auto simp: move_root_pin_def fun_eq_iff)

text \<open>The steps of \<^verbatim>\<open>InsertIntoLeaf\<close> when the leaf is full.\<close>

lemma InsertIntoLeaf_split_steps:
  assumes "InsertIntoLeaf key v t = Some (b, t')" and "FindLeafPage key False False t = Some (q, t1)"
    and "get_leaf q t1 = Some l" and "LeafPage_Insert (comparator t1) key v l = (n, l')"
    and "n \<noteq> -1" and "\<not> LeafPage_GetSize l' < max_size l'"
  obtains e t3 ln en k where "SplitLeaf q (put_page q (LeafNode l') t1) = Some (e, t3)"
    "get_leaf q t3 = Some ln" "get_leaf e t3 = Some en" "LeafPage_KeyAt 0 en = Some k"
    "InsertIntoParent q k e (put_page q (LeafNode (ln\<lparr>next_page_id := e\<rparr>))
       (put_page e (LeafNode (en\<lparr>next_page_id := next_page_id ln\<rparr>)) t3)) = Some t'"
  using assms by (auto simp: InsertIntoLeaf_def Let_def elim!: bindE)

lemma get_leaf_the: "get_leaf p t = Some l \<Longrightarrow> pages t p = Some (LeafNode l)"
  by (auto simp: get_leaf_def split: option.splits page.splits)

lemma tame_put_leaf:
  "pages t p = Some (LeafNode l) \<Longrightarrow> parent_page_id l' = parent_page_id l \<Longrightarrow> tame t (put_page p (LeafNode l') t)"
  by (rule tame_put) auto

context key_comparator
begin

lemma leaf_insert:
  assumes "leaf_found cmp st g key tt c q es P" and "tree_inv st g" and "comparator st = cmp"
  obtains l where "pages st q = Some (LeafNode l)" "leaf_array l = es" "max_size l = leaf_max_size st"
    "0 < q" "q < disk_next st"
    "LeafPage_Insert cmp key v l = (if key \<in> fst ` set es then -1 else int (length (al_insert cmp key v es)),
       l\<lparr>leaf_array := al_insert cmp key v es\<rparr>)"
    "key \<in> fst ` set (entries g) \<longleftrightarrow> key \<in> fst ` set es"
    "length (al_insert cmp key v es) = (if key \<in> fst ` set es then length es else length es + 1)"
    "int (length es) < leaf_max_size st"
proof -
  note d = leaf_foundD [OF assms]
  obtain l where l: "pages st q = Some (LeafNode l)" "leaf_array l = es" "max_size l = leaf_max_size st"
    "0 < q" "q < disk_next st"
    using stored_leaf [OF d(2)] by metis
  have sorted: "sorted_keys cmp es" using d(4) by simp
  have short: "int (length es) < leaf_max_size st"
    using assms(2) shape_plug [of c] by (cases "c = []") (auto simp: tree_inv_def d(1))
  have len: "length (al_insert cmp key v es) = (if key \<in> fst ` set es then length es else length es + 1)"
    using length_al_insert [OF sorted, of key v] by (auto split: if_splits)
  have "LeafPage_Insert cmp key v l = (if key \<in> fst ` set es then -1 else int (length (al_insert cmp key v es)),
       l\<lparr>leaf_array := al_insert cmp key v es\<rparr>)"
    using LeafPage_Insert_sorted [of l key v] sorted short len by (simp add: l)
  moreover have "key \<in> fst ` set (entries g) \<longleftrightarrow> key \<in> fst ` set es"
    using keys_path [OF d(3,5)] by (simp add: d(1) entries_plug)
  ultimately show thesis using that l len short by blast
qed

lemma insert_in_place:
  assumes "leaf_found cmp st g key tt c q es P" and "tree_inv st g" and "comparator st = cmp"
    and "sizes_ok st" and "allocated st" and "pages st q = Some (LeafNode l)" and "leaf_array l = es"
    and "int (length (al_insert cmp key v es)) < leaf_max_size st"
    and "FindLeafPage key False False st = Some (q, pin q st)"
  shows "ts_updated st (al_insert cmp key v (entries g))
     (put_page q (LeafNode (l\<lparr>leaf_array := al_insert cmp key v es\<rparr>)) st)"
proof -
  let ?l = "l\<lparr>leaf_array := al_insert cmp key v es\<rparr>"
  obtain l' where l': "pages st q = Some (LeafNode l')" "max_size l' = leaf_max_size st"
    "LeafPage_Insert cmp key v l' = (if key \<in> fst ` set es then -1 else int (length (al_insert cmp key v es)),
       l'\<lparr>leaf_array := al_insert cmp key v es\<rparr>)"
    using leaf_insert [OF assms(1-3), of v] by metis
  then have l: "l' = l" using assms(6) by simp
  have un: "unpin_page q (put_page q n (pin q st)) = put_page q n st" for n
    by (simp add: unpin_page_def put_page_def pin_def)
  have "snd (the (InsertIntoLeaf key v st)) = put_page q (LeafNode ?l) st"
    using assms(3,6,8,9) l' l un by (auto simp: InsertIntoLeaf_def get_leaf_eq LeafPage_GetSize_def)
  moreover obtain st' g' where "InsertIntoLeaf key v st = Some (key \<notin> fst ` set (entries g), st')" "tree_inv st' g'"
    "entries g' = al_insert cmp key v (entries g)" "evolves st st'"
    using InsertIntoLeaf_ok [OF assms(2,3,4), of key v] by metis
  ultimately show ?thesis
    using holdsI [of "put_page q (LeafNode ?l) st" g'] assms(4,5,6)
    by (auto simp: ts_updated_def root_pin_moved_def sizes_ok_def allocated_put)
qed

lemma TS_InsertIntoLeaf_place:
  assumes "leaf_found cmp st g key INSERT c q es P" and "tree_inv st g" and "comparator st = cmp"
    and "pages st q = Some (LeafNode l)" and "leaf_array l = es" and "max_size l = leaf_max_size st"
    and "CrabToLeaf key INSERT False True False s
       = Some (q, s\<lparr>tree := pinned (P @ [q]) st, calls := calls s @ tr, page_set := P\<rparr>)"
    and "LeafPage_Insert cmp key v l = (if key \<in> fst ` set es then -1 else int (length (al_insert cmp key v es)),
       l\<lparr>leaf_array := al_insert cmp key v es\<rparr>)"
    and "key \<in> fst ` set es \<or> int (length (al_insert cmp key v es)) < leaf_max_size st \<and> P = []"
  shows "TS_InsertIntoLeaf key v s = Some (key \<notin> fst ` set es,
     s\<lparr>tree := put_page q (LeafNode (l\<lparr>leaf_array := al_insert cmp key v es\<rparr>)) st,
       calls := calls s @ tr @ concat (map (let_go INSERT st) (P @ [q])), page_set := []\<rparr>)"
proof -
  let ?n = "LeafNode (l\<lparr>leaf_array := al_insert cmp key v es\<rparr>)"
  let ?t2 = "put_page q ?n (pinned (P @ [q]) st)"
  let ?s2 = "s\<lparr>tree := ?t2, calls := calls s @ tr, page_set := P\<rparr>"
  let ?s3 = "s\<lparr>tree := put_page q ?n (pinned [q] st), calls := calls s @ tr @ concat (map (let_go INSERT st) P), page_set := []\<rparr>"
  note d = leaf_foundD [OF assms(1-3)]
  have ok: "path_ok (put_page q ?n (pinned ps st)) (set (P @ [q]))" for ps
    using path_ok_put_leaf [of "pinned ps st" "set (P @ [q])" q l] d(6) assms(4)
      path_ok_cong [of "pinned ps st" st] by simp
  have okP: "path_ok (put_page q ?n (pinned ps st)) (set P)" for ps by (rule path_ok_mono [OF ok]) auto
  have go: "let_go INSERT (put_page q ?n (pinned ps st)) = let_go INSERT st" for ps
    by (rule let_go_writing) simp_all
  have rel: "ReleasePages INSERT ?s2 = Some ?s3"
    using ReleasePages_eq [of ?s2 INSERT] okP unpins_pinned [of P "[q]" st]
    by (simp add: unpins_put go)
  have un: "UnlatchPage q INSERT (s\<lparr>tree := put_page q ?n (pinned [q] st), calls := cs, page_set := []\<rparr>)
      = Some (s\<lparr>tree := put_page q ?n (pinned [q] st), calls := cs @ let_go INSERT st q, page_set := []\<rparr>)" for cs
    using UnlatchPage_eq [of "s\<lparr>tree := put_page q ?n (pinned [q] st), calls := cs, page_set := []\<rparr>" q INSERT]
      path_ok_mono [OF ok, of "{q}"] by (simp add: go ts_update_commute)
  have fin: "unpin_page q (put_page q ?n (pinned [q] st)) = put_page q ?n st"
    by (intro bpt.equality) (auto simp: fun_eq_iff)
  have leaf: "get_leaf q (pinned ps st) = Some l" for ps using assms(4) by (intro get_leaf_eq) simp
  show ?thesis
  proof (cases "key \<in> fst ` set es")
    case True
    then show ?thesis
      using assms(3,7,8) leaf rel un fin by (simp add: TS_InsertIntoLeaf_def with_tree_def ts_update_commute)
  next
    case False
    then have "P = []" "int (length (al_insert cmp key v es)) < leaf_max_size st" using assms(9) by auto
    then show ?thesis
      using False assms(3,6,7,8) leaf un fin
      by (simp add: TS_InsertIntoLeaf_def with_tree_def ts_update_commute LeafPage_GetSize_def)
  qed
qed

text \<open>The end of an operation that still holds the pages \<open>P\<close> and the leaf.\<close>

lemma release_path:
  assumes "path_ok (tree s) (set (P @ [q]))" and "page_set s = P" and "distinct (P @ [q])"
  obtains s4 where "ReleasePages tt s = Some s4"
    "UnlatchPage q tt s4 = Some (s\<lparr>tree := unpins P (tree s),
       calls := calls s @ concat (map (let_go tt (tree s)) (P @ [q])), page_set := []\<rparr>)"
    "run_calls (concat (map (let_go tt (tree s)) (P @ [q]))) (latched tt (tree s) None (set (P @ [q]))) = Some Map.empty"
proof -
  let ?s4 = "s\<lparr>tree := unpins P (tree s), calls := calls s @ concat (map (let_go tt (tree s)) P), page_set := []\<rparr>"
  have "path_ok (tree s) (set (page_set s))" "path_ok (tree s) {q}"
    using path_ok_mono [OF assms(1)] assms(2) by auto
  then have "ReleasePages tt s = Some ?s4" "path_ok (tree ?s4) {q}"
    using ReleasePages_eq [of s tt] path_ok_cong [of "unpins P (tree s)" "tree s" "{q}"] assms(2) by simp_all
  moreover have "let_go tt (unpins P (tree s)) = let_go tt (tree s)" by (intro ext let_go_cong) simp_all
  ultimately show thesis
    using that [of ?s4] UnlatchPage_eq [of ?s4 q tt] run_let_go_all [OF assms(3) subset_refl, of tt "tree s" None]
    by (simp add: latched_empty map_upd_None ts_update_commute)
qed

lemma TS_InsertIntoLeaf_split:
  assumes "leaf_found cmp st g key INSERT c q es P" and "tree_inv st g" and "comparator st = cmp"
    and "sizes_ok st" and "allocated st" and "pages st q = Some (LeafNode l)" and "leaf_array l = es"
    and "CrabToLeaf key INSERT False True False s
       = Some (q, s\<lparr>tree := pinned (P @ [q]) st, calls := calls s @ tr, page_set := P\<rparr>)"
    and "\<And>pn. FindLeafPage key False False (st\<lparr>pins := pn\<rparr>) = Some (q, pin q (st\<lparr>pins := pn\<rparr>))"
    and "key \<notin> fst ` set es" and "int (length (al_insert cmp key v es)) = leaf_max_size st"
  obtains T cs where "TS_InsertIntoLeaf key v s
       = Some (True, s\<lparr>tree := T, calls := calls s @ tr @ cs, page_set := []\<rparr>)"
    "ts_updated st (al_insert cmp key v (entries g)) T"
    "run_calls cs (latched INSERT st None (set (P @ [q]))) = Some Map.empty"
proof -
  let ?es = "al_insert cmp key v es" and ?A = "set (P @ [q])"
  let ?l = "l\<lparr>leaf_array := ?es\<rparr>" and ?lm = "leaf_max_size st"
  note d = leaf_foundD [OF assms(1-3)]
  define st0 where "st0 = pinned P st"
  obtain l' where l': "pages st q = Some (LeafNode l')" "max_size l' = ?lm" "0 < q" "q < disk_next st"
    "LeafPage_Insert cmp key v l' = (if key \<in> fst ` set es then -1 else int (length ?es), l'\<lparr>leaf_array := ?es\<rparr>)"
    "length ?es = (if key \<in> fst ` set es then length es else length es + 1)"
    using leaf_insert [OF assms(1-3), of v] by metis
  then have l: "max_size l = ?lm" "LeafPage_Insert cmp key v l = (int (length ?es), ?l)"
    using assms(6,10) by auto
  have low: "p < disk_next st" "0 < p" if "p \<in> set (pids g)" for p
    using storedD(4) [of st "[]" "[g]" p] assms(2) that by (auto simp: tree_inv_def)
  have A: "?A \<subseteq> set (pids g)"
    using assms(1) frames_in [of P c] by (auto simp: leaf_found_def set_pids_plug)
  have st0: "stored st0 c [GLeaf q es]" "tree_inv st0 g" "sizes_ok st0" "allocated st0" "comparator st0 = cmp"
  proof -
    have "\<forall>p \<ge> disk_next st. pins st0 p = 0"
    proof (intro allI impI)
      fix p assume p: "disk_next st \<le> p"
      then have "p \<notin> set P" using low A by force
      moreover have "pins st p = 0" using storedD(8) [OF d(2)] p by (simp add: alloc_ok_def)
      ultimately show "pins st0 p = 0" by (simp add: st0_def)
    qed
    then have cong: "stored st c ts \<Longrightarrow> stored st0 c ts" for c ts
      by (rule stored_cong [rotated -1]) (simp_all add: st0_def)
    show "stored st0 c [GLeaf q es]" by (rule cong [OF d(2)])
    show "tree_inv st0 g" using assms(2) cong by (simp add: tree_inv_def) (simp add: st0_def)
    show "sizes_ok st0" "allocated st0" "comparator st0 = cmp"
      using assms(3-5) by (simp_all add: st0_def sizes_ok_def allocated_def)
  qed
  have find0: "FindLeafPage key False False st0 = Some (q, pin q st0)"
    using assms(9) [of "pins st0"] by (simp add: st0_def pinned_def)
  have ents: "al_insert cmp key v (entries g) = ctx_left c @ ?es @ ctx_right c"
    using al_insert_path [OF d(3,5)] by (simp add: d(1) entries_plug)
  obtain st' g' where nts: "InsertIntoLeaf key v st0 = Some (True, st')" "tree_inv st' g'"
    "entries g' = ctx_left c @ ?es @ ctx_right c" "evolves st0 st'" "pins st' = pins st0" "root_kept st0 c st'"
  proof (rule InsertIntoLeaf_split [of st0 c q es l ?es key v])
    show "tree_inv st0 (plug c (GLeaf q es))" using st0(2) by (simp add: d(1))
    show "ordered cmp (ctx_lo c) (ctx_hi c) (GLeaf q ?es)" using d(4,5) by (rule ordered_leaf_insert)
  qed (use st0 d assms(6,7,11) find0 l in \<open>simp_all add: st0_def\<close>)
  let ?t2 = "put_page q (LeafNode ?l) (pinned (P @ [q]) st)"
  have pin0: "pin q st0 = pinned (P @ [q]) st" by (simp add: st0_def pin_pinned)
  obtain e t3 ln en k where sp: "SplitLeaf q ?t2 = Some (e, t3)" "get_leaf q t3 = Some ln"
    "get_leaf e t3 = Some en" "LeafPage_KeyAt 0 en = Some k"
    "InsertIntoParent q k e (put_page q (LeafNode (ln\<lparr>next_page_id := e\<rparr>))
       (put_page e (LeafNode (en\<lparr>next_page_id := next_page_id ln\<rparr>)) t3)) = Some st'"
  proof (rule InsertIntoLeaf_split_steps [OF nts(1) find0, of l "int (length ?es)" ?l])
    show "get_leaf q (pin q st0) = Some l" using assms(6) by (intro get_leaf_eq) (simp add: st0_def)
    show "LeafPage_Insert (comparator (pin q st0)) key v l = (int (length ?es), ?l)"
      using l(2) st0(5) by simp
  qed (use assms(11) l(1) in \<open>simp_all add: pin0 LeafPage_GetSize_def\<close>)
  let ?t4 = "put_page e (LeafNode (en\<lparr>next_page_id := next_page_id ln\<rparr>)) t3"
  define t5 where "t5 = put_page q (LeafNode (ln\<lparr>next_page_id := e\<rparr>)) ?t4"
  have e: "e \<noteq> q" "tame ?t2 t3" using tame_SplitLeaf [OF sp(1)] l'(4) by auto
  have "tame st (pinned (P @ [q]) st)" by (rule tame_same_pages) simp_all
  moreover have "tame (pinned (P @ [q]) st) ?t2" using assms(6) by (intro tame_put_leaf) simp_all
  moreover have "tame t3 ?t4" using get_leaf_the [OF sp(3)] by (intro tame_put_leaf) simp_all
  moreover have "tame ?t4 t5"
    unfolding t5_def using get_leaf_the [OF sp(2)] e(1) by (intro tame_put_leaf) simp_all
  ultimately have t5: "tame st t5" using e(2) tame_trans by meson
  have ready: "ready st" using holds_ready [OF holdsI [OF assms(2,4)] assms(5)] .
  let ?s2 = "s\<lparr>tree := t5, calls := calls s @ tr, page_set := P\<rparr>"
  obtain s3 where s3: "TS_InsertIntoParent q k e ?s2 = Some s3" "insert_outcome ?s2 st' s3"
    using TS_InsertIntoParent_sim [OF sp(5) [folded t5_def], of ?s2] ready_tame [OF ready t5] e(1)
    by (auto simp: t5_def)
  have r5: "root_page_id t5 = root_page_id st" using t5 by (simp add: tame_def)
  have steps: "nodes_tame st (tree s3)" "root_page_id (tree s3) = root_page_id st'"
    "pages (tree s3) = pages st'" "disk_next (tree s3) = disk_next st'"
    using insert_outcome_steps [OF s3(2)] nodes_tame_after [OF t5] by simp_all
  have low: "?A \<subseteq> {p. p < disk_next st}" using low A by auto
  have ok3: "path_ok (tree s3) ?A"
  proof -
    have "path_ok st' ?A"
    proof (rule path_ok_after [OF d(6) low _ nts(2)])
      show "nodes_tame st st'" using steps(1) nodes_tame_cong [OF steps(3,4)] by simp
      show "root_page_id st' = root_page_id st \<or>
          (\<exists>n. get_node (root_page_id st) st' = Some n \<and> node_parent n \<noteq> INVALID_PAGE_ID)"
        using nts(6) get_node_eq by (fastforce simp: root_kept_def st0_def)
    qed
    then show ?thesis using path_ok_cong [OF steps(3,2)] by simp
  qed
  have "\<exists>cs1. s3 = ?s2\<lparr>tree := tree s3, calls := calls ?s2 @ cs1\<rparr> \<and>
      run_calls cs1 (latched INSERT st None ?A) = Some (latched INSERT (tree s3) None ?A) \<and>
      root_pin_moved st (unpins P (tree s3))"
  proof (cases "root_page_id st' = root_page_id st")
    case True
    then have s3': "s3 = ?s2\<lparr>tree := st'\<rparr>" using s3(2) r5 by (auto simp: insert_outcome_def)
    have "latched INSERT (tree s3) = latched INSERT st" using steps(2) True by (intro latched_writing) simp_all
    then show ?thesis
      using True nts(5) by (intro exI [of _ "[]"]) (simp add: s3' root_pin_moved_def pins_unpins st0_def fun_eq_iff)
  next
    case False
    then have s3': "s3 = ?s2\<lparr>tree := st'\<lparr>pins := move_root_pin (root_page_id st) (root_page_id st') (pins st')\<rparr>,
        calls := calls ?s2 @ [Release Exclusive RootLatch]\<rparr>"
      using s3(2) r5 by (auto simp: insert_outcome_def)
    have new: "root_page_id st' \<notin> ?A"
      using root_not_held [OF d(6) low steps(1) ok3] False steps(2) by simp
    have "\<not> int (length es) + 1 < leaf_max_size st" using assms(10,11) l'(6) by simp
    then have old: "root_page_id st \<in> ?A" using d(10) nts(6) False by (auto simp: root_kept_def st0_def)
    have "run_calls [Release Exclusive RootLatch] (latched INSERT st None ?A) = Some (latched INSERT (tree s3) None ?A)"
      using old new steps(2)
      by (auto simp: latched_def root_mode_def mode_of_writing fun_eq_iff split: latch.splits)
    moreover have "root_pin_moved st (unpins P (tree s3))"
      using False pins_moved_back [of "root_page_id st'" "root_page_id st" "pins st" P] nts(5)
      by (simp add: root_pin_moved_def s3' pins_unpins st0_def)
    ultimately show ?thesis using s3' by (intro exI [of _ "[Release Exclusive RootLatch]"]) simp
  qed
  then obtain cs1 where cs1: "s3 = ?s2\<lparr>tree := tree s3, calls := calls ?s2 @ cs1\<rparr>"
    "run_calls cs1 (latched INSERT st None ?A) = Some (latched INSERT (tree s3) None ?A)"
    "root_pin_moved st (unpins P (tree s3))" by blast
  let ?T = "unpins P (tree s3)" and ?go = "concat (map (let_go INSERT (tree s3)) (P @ [q]))"
  have "page_set s3 = P" by (subst cs1(1)) simp
  then obtain s4 where s4: "ReleasePages INSERT s3 = Some s4"
    "UnlatchPage q INSERT s4 = Some (s3\<lparr>tree := ?T, calls := calls s3 @ ?go, page_set := []\<rparr>)"
    "run_calls ?go (latched INSERT (tree s3) None ?A) = Some Map.empty"
    using release_path [OF ok3 _ d(7), of INSERT] by metis
  have fin: "s3\<lparr>tree := ?T, calls := calls s3 @ ?go, page_set := []\<rparr>
      = s\<lparr>tree := ?T, calls := calls s @ tr @ cs1 @ ?go, page_set := []\<rparr>"
    by (subst cs1(1), subst (3) cs1(1)) (simp add: ts_update_commute)
  show thesis
  proof (rule that)
    have leaf: "get_leaf q (pinned (P @ [q]) st) = Some l" using assms(6) by (intro get_leaf_eq) simp
    show "TS_InsertIntoLeaf key v s
        = Some (True, s\<lparr>tree := ?T, calls := calls s @ tr @ cs1 @ ?go, page_set := []\<rparr>)"
      using assms(3,8,11) leaf l sp(1-4) s3(1) s4(1,2)
      by (simp add: TS_InsertIntoLeaf_def with_tree_def Let_def LeafPage_GetSize_def ts_update_commute
          t5_def [symmetric] fin [simplified])
    show "run_calls (cs1 @ ?go) (latched INSERT st None ?A) = Some Map.empty"
      by (rule run_calls_append_Some [OF cs1(2) s4(3)])
    have T: "?T = st'\<lparr>pins := pins ?T\<rparr>" using s3(2) by (intro bpt.equality) (auto simp: insert_outcome_def)
    have "evolves st st'" using nts(4) by (simp add: evolves_def st0_def)
    moreover have "allocated ?T"
      using allocated_nodes_tame [OF assms(5) steps(1)] ready by (simp add: allocated_def ready_def)
    moreover have "holds st' (entries g')"
      using holdsI [OF nts(2)] assms(4) evolves_fields [OF \<open>evolves st st'\<close>] by (simp add: sizes_ok_def)
    ultimately have "ts_updated st (entries g') ?T"
      using ts_updatedI [OF _ _ _ T cs1(3)] tree_inv_unused_pins [OF assms(2)] by blast
    then show "ts_updated st (al_insert cmp key v (entries g)) ?T" using nts(3) ents by simp
  qed
qed

end

end
