(* ===== verification/TSInsertEnd.thy ===== *)
theory TSInsertEnd
  imports TSInsertOps
begin

text \<open>
  The insertions that a transaction calls: \<^verbatim>\<open>Insert\<close>, which takes the root latch for writing,
  \<^verbatim>\<open>TentativeInsert\<close>, which takes shared latches down to the leaf and inserts there if that cannot
  split it, and \<^verbatim>\<open>OptimisticInsert\<close>, which tries the second and falls back to the first.
\<close>

section \<open>Insertion with exclusive latches\<close>

context key_comparator
begin

lemma TS_InsertIntoLeaf_ok:
  assumes "tree_inv (tree s) g" and "comparator (tree s) = cmp" and "sizes_ok (tree s)"
    and "allocated (tree s)" and "page_set s = []"
  obtains T tr where "TS_InsertIntoLeaf key v s
      = Some (key \<notin> fst ` set (entries g), s\<lparr>tree := T, calls := calls s @ tr\<rparr>)"
    "ts_updated (tree s) (al_insert cmp key v (entries g)) T"
    "run_calls tr [RootLatch \<mapsto> Exclusive] = Some Map.empty"
proof -
  define st where "st = tree s"
  note inv = assms(1-4) [folded st_def]
  have held: "run_calls (prologue INSERT True False) [RootLatch \<mapsto> Exclusive]
      = Some ((latched INSERT st None {})(RootLatch \<mapsto> root_mode INSERT))"
    by (simp add: run_prologue(3) latched_empty root_mode_def map_upd_None)
  obtain c q es P tr where f:
    "CrabToLeaf key INSERT False True False s
       = Some (q, s\<lparr>tree := pinned (P @ [q]) st, calls := calls s @ tr, page_set := P\<rparr>)"
    "run_calls tr [RootLatch \<mapsto> Exclusive] = Some (latched INSERT st None (set (P @ [q])))"
    "leaf_found cmp st g key INSERT c q es P"
    "\<And>pn. FindLeafPage key False False (st\<lparr>pins := pn\<rparr>) = Some (q, pin q (st\<lparr>pins := pn\<rparr>))"
    using CrabToLeaf_ok [OF inv(1,2) st_def [symmetric] assms(5) held] by metis
  note d = leaf_foundD [OF f(3) inv(1,2)]
  obtain l where l: "pages st q = Some (LeafNode l)" "leaf_array l = es" "max_size l = leaf_max_size st"
    "LeafPage_Insert cmp key v l = (if key \<in> fst ` set es then -1 else int (length (al_insert cmp key v es)),
       l\<lparr>leaf_array := al_insert cmp key v es\<rparr>)"
    "key \<in> fst ` set (entries g) \<longleftrightarrow> key \<in> fst ` set es"
    "length (al_insert cmp key v es) = (if key \<in> fst ` set es then length es else length es + 1)"
    "int (length es) < leaf_max_size st"
    using leaf_insert [OF f(3) inv(1,2), of v] by metis
  have ps: "s\<lparr>tree := T, calls := cs, page_set := []\<rparr> = s\<lparr>tree := T, calls := cs\<rparr>" for T cs
    using assms(5) by simp
  show thesis
  proof (cases "key \<notin> fst ` set es \<and> int (length (al_insert cmp key v es)) = leaf_max_size st")
    case True
    obtain T cs where r: "TS_InsertIntoLeaf key v s
         = Some (True, s\<lparr>tree := T, calls := calls s @ tr @ cs, page_set := []\<rparr>)"
      "ts_updated st (al_insert cmp key v (entries g)) T"
      "run_calls cs (latched INSERT st None (set (P @ [q]))) = Some Map.empty"
      using TS_InsertIntoLeaf_split [OF f(3) inv l(1,2) f(1,4)] True by metis
    show thesis
      using that [of "tr @ cs" T] r(1,2) run_calls_append_Some [OF f(2) r(3)] True l(5)
      by (simp add: ps st_def)
  next
    case False
    have small: "int (length (al_insert cmp key v es)) < leaf_max_size st" using False l(6,7) by auto
    have "TS_InsertIntoLeaf key v s = Some (key \<notin> fst ` set es,
       s\<lparr>tree := put_page q (LeafNode (l\<lparr>leaf_array := al_insert cmp key v es\<rparr>)) st,
         calls := calls s @ tr @ concat (map (let_go INSERT st) (P @ [q])), page_set := []\<rparr>)"
    proof (rule TS_InsertIntoLeaf_place [OF f(3) inv(1,2) l(1-3) f(1) l(4)])
      show "key \<in> fst ` set es \<or> int (length (al_insert cmp key v es)) < leaf_max_size st \<and> P = []"
        using small l(6) d(9) by (auto split: if_splits)
    qed
    moreover have "ts_updated st (al_insert cmp key v (entries g))
        (put_page q (LeafNode (l\<lparr>leaf_array := al_insert cmp key v es\<rparr>)) st)"
      using insert_in_place [OF f(3) inv l(1,2) small] f(4) [of "pins st"] by simp
    moreover have "run_calls (concat (map (let_go INSERT st) (P @ [q]))) (latched INSERT st None (set (P @ [q])))
        = Some Map.empty"
      using run_let_go_all [OF d(7) subset_refl, of INSERT st None] by (simp add: latched_empty map_upd_None)
    ultimately show thesis
      using that [of "tr @ concat (map (let_go INSERT st) (P @ [q]))"
          "put_page q (LeafNode (l\<lparr>leaf_array := al_insert cmp key v es\<rparr>)) st"] run_calls_append_Some [OF f(2)] l(5)
      by (simp add: ps st_def)
  qed
qed

lemma TS_StartNewTree_ok:
  assumes "root_page_id st = INVALID_PAGE_ID" and "holds st es" and "comparator st = cmp" and "allocated st"
  obtains T where "TS_StartNewTree key v st = Some T" "ts_updated st [(key, v)] T"
proof -
  let ?e = "disk_next st"
  have ok: "header_ok st" "alloc_ok st" "sizes_ok st"
    using assms(1,2) by (auto simp: holds_def tree_inv_def stored_def)
  have ready: "ready st" by (rule holds_ready [OF assms(2,4)])
  obtain st' g where nts: "StartNewTree key v st = Some st'" "tree_inv st' g" "entries g = [(key, v)]"
    "evolves st st'" "pins st' = pins st"
    using StartNewTree_ok [OF assms(1) ok assms(3)] by metis
  obtain t1 n where new: "NewLeaf INVALID_PAGE_ID st = (?e, t1)" "get_leaf ?e t1 = Some n"
    "UpdateRootPageId ((unpin_page ?e (put_page ?e (LeafNode (snd (LeafPage_Insert (comparator t1) key v n))) t1))
        \<lparr>root_page_id := ?e\<rparr>) = Some st'"
    using nts(1) by (auto simp: StartNewTree_def NewLeaf_def new_page_def Let_def elim!: bindE)
  define t2 where "t2 = (unpin_page ?e (put_page ?e (LeafNode (snd (LeafPage_Insert (comparator t1) key v n))) t1))
        \<lparr>root_page_id := ?e\<rparr>"
  have t1: "pages t1 = (pages st)(?e \<mapsto> LeafNode n)" "index_name t1 = index_name st" "disk_next t1 = ?e + 1"
    using new(1,2) by (auto simp: NewLeaf_def new_page_def Let_def get_leaf_def)
  have e: "0 < ?e" using ok(2) by (simp add: alloc_ok_def)
  have t2: "root_page_id t2 = ?e" "pages t2 ?e \<noteq> None" "root_recorded t2 INVALID_PAGE_ID"
    "disk_next t2 = ?e + 1" "\<And>q. pages t2 q \<noteq> None \<Longrightarrow> pages st q \<noteq> None \<or> q = ?e"
    using ready e t1 assms(1) by (auto simp: t2_def root_recorded_def ready_def split: if_splits)
  have root: "root_page_id st' = ?e" "disk_next st' = ?e + 1"
    using UpdateRootPageId_tame(3,4) [OF new(3) [folded t2_def]] t2(1,4) by simp_all
  define T where "T = st'\<lparr>pins := move_root_pin INVALID_PAGE_ID ?e (pins st')\<rparr>"
  have "TS_UpdateRootPageId t2 = Some T"
    using TS_UpdateRootPageId_eq [OF new(3) [folded t2_def] t2(3)] t2(1,2) e by (simp add: T_def)
  then have "TS_StartNewTree key v st = Some T"
    using new(1,2) by (simp add: TS_StartNewTree_def t2_def)
  moreover have "ts_updated st (entries g) T"
  proof (rule ts_updatedI [OF _ nts(4)])
    show "holds st' (entries g)"
      using holdsI [OF nts(2)] ok(3) evolves_fields [OF nts(4)] by (simp add: sizes_ok_def)
    show "allocated T"
      unfolding allocated_def
    proof (intro allI impI)
      fix p assume "pages T p \<noteq> None"
      then have "pages t2 p \<noteq> None \<or> disk_next t2 \<le> p \<and> p < disk_next st'"
        using UpdateRootPageId_tame(1) [OF new(3) [folded t2_def]] unfolding nodes_tame_def T_def by simp
      then have "pages t2 p \<noteq> None" using t2(4) root(2) by linarith
      then have "0 \<le> p \<and> p < ?e \<or> p = ?e" using t2(5) assms(4) by (auto simp: allocated_def)
      then show "0 \<le> p \<and> p < disk_next T" using root(2) e by (auto simp: T_def)
    qed
    show "root_pin_moved st T" using root(1) assms(1) nts(5) e by (simp add: root_pin_moved_def T_def)
  qed (use ok(2) in \<open>simp_all add: T_def alloc_ok_def\<close>)
  ultimately show thesis using that nts(3) by simp
qed

theorem TS_Insert_ok:
  assumes "holds (tree s) es" and "comparator (tree s) = cmp" and "allocated (tree s)" and "page_set s = []"
  obtains T tr where "TS_Insert key v isCalled s
      = Some (key \<notin> fst ` set es, s\<lparr>tree := T, calls := calls s @ tr\<rparr>)"
    "ts_updated (tree s) (al_insert cmp key v es) T"
    "run_calls tr (if isCalled then Map.empty else [TaskLatch \<mapsto> Exclusive]) = Some Map.empty"
proof -
  let ?pre = "Acquire Exclusive RootLatch # (if isCalled then [] else [Release Exclusive TaskLatch])"
  let ?s2 = "s\<lparr>calls := calls s @ ?pre\<rparr>" and ?h = "if isCalled then Map.empty else [TaskLatch \<mapsto> Exclusive]"
  have pre: "run_calls ?pre ?h = Some [RootLatch \<mapsto> Exclusive]"
    by (simp add: fun_upd_twist map_upd_None)
  have s2: "(let s1 = latch_call (Acquire Exclusive RootLatch) s
      in if isCalled then s1 else Transaction_Unlock s1) = ?s2"
    by (simp add: latch_call_def Transaction_Unlock_def)
  show thesis
  proof (cases "root_page_id (tree s) = INVALID_PAGE_ID")
    case True
    obtain T where T: "TS_StartNewTree key v (tree s) = Some T" "ts_updated (tree s) [(key, v)] T"
      using TS_StartNewTree_ok [OF True assms(1-3)] by metis
    have "TS_Insert key v isCalled s = Some (True, latch_call (Release Exclusive RootLatch) (?s2\<lparr>tree := T\<rparr>))"
      using T(1) True s2 by (simp add: TS_Insert_def Let_def BPlusTree_IsEmpty_def)
    moreover have "run_calls (?pre @ [Release Exclusive RootLatch]) ?h = Some Map.empty"
      using pre by (intro run_calls_append_Some [OF pre]) (simp add: map_upd_None)
    ultimately show thesis
      using that [of "?pre @ [Release Exclusive RootLatch]" T] T(2) holds_empty_tree [OF assms(1) True]
      by (simp add: latch_call_def ts_update_commute)
  next
    case False
    obtain g where g: "tree_inv (tree s) g" "es = entries g" using holds_tree [OF assms(1) False] by blast
    have "tree_inv (tree ?s2) g" "comparator (tree ?s2) = cmp" "sizes_ok (tree ?s2)" "allocated (tree ?s2)"
      "page_set ?s2 = []" using assms g(1) by (simp_all add: holds_def)
    from TS_InsertIntoLeaf_ok [OF this, of key v] obtain T tr where r: "TS_InsertIntoLeaf key v ?s2
        = Some (key \<notin> fst ` set (entries g), ?s2\<lparr>tree := T, calls := calls ?s2 @ tr\<rparr>)"
      "ts_updated (tree ?s2) (al_insert cmp key v (entries g)) T"
      "run_calls tr [RootLatch \<mapsto> Exclusive] = Some Map.empty"
      by metis
    have "TS_Insert key v isCalled s = TS_InsertIntoLeaf key v ?s2"
      using False s2 by (simp add: TS_Insert_def Let_def BPlusTree_IsEmpty_def)
    then show thesis
      using that [of "?pre @ tr" T] r(1,2) run_calls_append_Some [OF pre r(3)] g(2)
      by (simp add: ts_update_commute)
  qed
qed

end

section \<open>The attempt with shared latches\<close>

definition tentative :: "('k \<Rightarrow> 'k \<Rightarrow> int) \<Rightarrow> 'k \<Rightarrow> 'v \<Rightarrow> ('k \<times> 'v) list \<Rightarrow> ('k, 'v) bpt \<Rightarrow> insert_state \<Rightarrow>
    ('k, 'v) bpt \<Rightarrow> bool" where
  "tentative cmp key v es t flag t' \<longleftrightarrow>
     (if flag = INSERTED then key \<notin> fst ` set es \<and> ts_updated t (al_insert cmp key v es) t'
      else if flag = DUPLICATE_KEY then key \<in> fst ` set es \<and> ts_updated t (al_insert cmp key v es) t'
      else t' = t)"

text \<open>One leaf was overwritten and not marked; with its old contents the tree is the old one.\<close>

definition overwritten_in :: "('k, 'v) bpt \<Rightarrow> ('k, 'v) bpt \<Rightarrow> (int \<times> ('k, 'v) leaf_page) list \<Rightarrow>
    (int \<times> ('k, 'v) leaf_page) list \<Rightarrow> bool" where
  "overwritten_in t t' us us' \<longleftrightarrow> (\<exists>q l. us' = (q, l) # us \<and> put_page q (LeafNode l) t' = t)"

context key_comparator
begin

lemma TentativeInsert_at_leaf:
  assumes "leaf_found cmp (tree s) g key OPTIMISTIC_INSERT c q es P"
    and "pages (tree s) q = Some (LeafNode l)" and "parent_page_id l' = parent_page_id l"
    and "path_ok (tree s) {q}" and "page_set s = []"
    and "CrabToLeaf key OPTIMISTIC_INSERT False False True s
       = Some (q, s\<lparr>tree := pinned [q] (tree s), calls := calls s @ tr, page_set := []\<rparr>)"
    and "q \<noteq> INVALID_PAGE_ID"
    and "(if \<not> IsInsertSafe (LeafNode l :: ('k, 'v) page) then (INSERT_UNSAFE, l)
          else let (size, l') = LeafPage_Insert (comparator (tree s)) key v l
               in (if size = -1 then DUPLICATE_KEY else INSERTED, l')) = (flag, l')"
  shows "TentativeInsert key v s = Some (flag, s\<lparr>tree := put_page q (LeafNode l') (tree s),
     calls := calls s @ tr @ let_go OPTIMISTIC_INSERT (tree s) q,
     unsaved := (if flag \<noteq> INSERTED \<and> l' \<noteq> l then (q, l) # unsaved s else unsaved s)\<rparr>)"
proof -
  let ?st = "tree s" and ?tt = OPTIMISTIC_INSERT
  let ?s2 = "s\<lparr>tree := put_page q (LeafNode l') (pinned [q] ?st), calls := calls s @ tr, page_set := []\<rparr>"
  have ok: "path_ok (pinned [q] ?st) {q}" using assms(4) path_ok_cong [of "pinned [q] ?st" ?st] by simp
  have "path_ok (tree ?s2) {q}"
    using path_ok_put_leaf [OF ok _ assms(3)] assms(2) by simp
  moreover have "let_go ?tt (put_page q (LeafNode l') (pinned [q] ?st)) = let_go ?tt ?st"
    using let_go_put_leaf [of "pinned [q] ?st" q l ?tt l'] assms(2) let_go_cong [of "pinned [q] ?st" ?st ?tt]
    by (auto simp: fun_eq_iff)
  ultimately have un: "UnlatchPage q ?tt ?s2 = Some (?s2\<lparr>calls := calls ?s2 @ let_go ?tt ?st q\<rparr>)"
    using UnlatchPage_eq [of ?s2 q ?tt] by simp
  have fin: "unpin_page q (put_page q (LeafNode l') (pinned [q] ?st)) = put_page q (LeafNode l') ?st"
    by (intro bpt.equality) (auto simp: fun_eq_iff)
  have leaf: "get_leaf q (pinned [q] ?st) = Some l" using assms(2) by (intro get_leaf_eq) simp
  have ps: "s\<lparr>tree := T, calls := cs, page_set := [], unsaved := us\<rparr> = s\<lparr>tree := T, calls := cs, unsaved := us\<rparr>" for T cs us
    using assms(5) by (cases s) simp
  show ?thesis
    using assms(6-8) leaf un fin ps
    by (simp add: TentativeInsert_def with_tree_def Let_def ts_update_commute UnpinLeaf_put split del: if_split cong: if_cong)
qed

lemma insert_attempt:
  assumes "leaf_found cmp st g key OPTIMISTIC_INSERT c q es P" and "tree_inv st g" and "comparator st = cmp"
    and "sizes_ok st" and "allocated st" and "pages st q = Some (LeafNode l)"
    and "FindLeafPage key False False st = Some (q, pin q st)"
  obtains flag l' where "(if \<not> IsInsertSafe (LeafNode l :: ('k, 'v) page) then (INSERT_UNSAFE, l)
          else let (size, l') = LeafPage_Insert cmp key v l
               in (if size = -1 then DUPLICATE_KEY else INSERTED, l')) = (flag, l')"
    "parent_page_id l' = parent_page_id l" "flag \<noteq> NO_ROOT" "flag = INSERT_UNSAFE \<Longrightarrow> l' = l"
    "tentative cmp key v (entries g) st flag (put_page q (LeafNode l') st)"
proof -
  let ?es = "al_insert cmp key v es" and ?l = "l\<lparr>leaf_array := al_insert cmp key v es\<rparr>"
  obtain l0 where "pages st q = Some (LeafNode l0)" "leaf_array l0 = es" "max_size l0 = leaf_max_size st"
    "LeafPage_Insert cmp key v l0 = (if key \<in> fst ` set es then -1 else int (length ?es), l0\<lparr>leaf_array := ?es\<rparr>)"
    "key \<in> fst ` set (entries g) \<longleftrightarrow> key \<in> fst ` set es"
    "length ?es = (if key \<in> fst ` set es then length es else length es + 1)"
    using leaf_insert [OF assms(1-3), of v] by metis
  then have l: "leaf_array l = es" "max_size l = leaf_max_size st"
    "LeafPage_Insert cmp key v l = (if key \<in> fst ` set es then -1 else int (length ?es), ?l)"
    "key \<in> fst ` set (entries g) \<longleftrightarrow> key \<in> fst ` set es"
    "length ?es = (if key \<in> fst ` set es then length es else length es + 1)"
    using assms(6) by auto
  show thesis
  proof (cases "IsInsertSafe (LeafNode l :: ('k, 'v) page)")
    case False
    have "put_page q (LeafNode l) st = st" using assms(6) by (simp add: put_page_def fun_upd_idem)
    then show thesis using that [of INSERT_UNSAFE l] False by (simp add: tentative_def)
  next
    case True
    then have "int (length ?es) < leaf_max_size st"
      using l(1,2,5) by (simp add: IsInsertSafe_def LeafPage_GetSize_def)
    then have "ts_updated st (al_insert cmp key v (entries g)) (put_page q (LeafNode ?l) st)"
      using insert_in_place [OF assms(1-6) l(1) _ assms(7)] by simp
    then show thesis
      using that [of "if key \<in> fst ` set es then DUPLICATE_KEY else INSERTED" ?l] True l(3,4)
      by (cases "key \<in> fst ` set es") (auto simp: tentative_def)
  qed
qed

theorem TentativeInsert_ok:
  fixes s :: "('k, 'v) ts_state"
  assumes "holds (tree s) es" and "comparator (tree s) = cmp" and "allocated (tree s)" and "page_set s = []"
  obtains T tr flag us where
    "TentativeInsert key v s = Some (flag, s\<lparr>tree := T, calls := calls s @ tr, unsaved := us\<rparr>)"
    "tentative cmp key v es (tree s) flag T"
    "run_calls tr [TaskLatch \<mapsto> Exclusive] = Some Map.empty"
    "us = unsaved s \<or> flag = DUPLICATE_KEY \<and> overwritten_in (tree s) T (unsaved s) us"
proof (cases "root_page_id (tree s) = INVALID_PAGE_ID")
  case True
  then show thesis
    using that [of NO_ROOT "unsaved s" "prologue OPTIMISTIC_INSERT False True @ [Release Shared RootLatch]" "tree s"]
    by (simp add: TentativeInsert_def CrabToLeaf_empty prologue_def root_mode_def fun_upd_twist map_upd_None
        tentative_def)
next
  case False
  define st where "st = tree s"
  let ?tt = OPTIMISTIC_INSERT
  obtain g where g: "tree_inv st g" "es = entries g"
    using holds_tree [OF assms(1) False] by (auto simp: st_def)
  have inv: "comparator st = cmp" "sizes_ok st" "allocated st" using assms(1-3) by (simp_all add: st_def holds_def)
  obtain c q les P tr where f:
    "CrabToLeaf key ?tt False False True s
       = Some (q, s\<lparr>tree := pinned (P @ [q]) st, calls := calls s @ tr, page_set := P\<rparr>)"
    "run_calls tr [TaskLatch \<mapsto> Exclusive] = Some (latched ?tt st None (set (P @ [q])))"
    "leaf_found cmp st g key ?tt c q les P"
    "\<And>pn. FindLeafPage key False False (st\<lparr>pins := pn\<rparr>) = Some (q, pin q (st\<lparr>pins := pn\<rparr>))"
    using CrabToLeaf_ok [OF g(1) inv(1) st_def [symmetric] assms(4) run_prologue(1)] by metis
  note d = leaf_foundD [OF f(3) g(1) inv(1)]
  have P: "P = []" using d(8) by simp
  obtain l where l: "pages st q = Some (LeafNode l)" "0 < q" using stored_leaf [OF d(2)] by metis
  have find: "FindLeafPage key False False st = Some (q, pin q st)" using f(4) [of "pins st"] by simp
  obtain flag l' where t: "(if \<not> IsInsertSafe (LeafNode l :: ('k, 'v) page) then (INSERT_UNSAFE, l)
          else let (size, l') = LeafPage_Insert cmp key v l
               in (if size = -1 then DUPLICATE_KEY else INSERTED, l')) = (flag, l')"
    "parent_page_id l' = parent_page_id l" "flag \<noteq> NO_ROOT" "flag = INSERT_UNSAFE \<Longrightarrow> l' = l"
    "tentative cmp key v (entries g) st flag (put_page q (LeafNode l') st)"
    using insert_attempt [OF f(3) g(1) inv l(1) find, of v] by metis
  let ?us = "if flag \<noteq> INSERTED \<and> l' \<noteq> l then (q, l) # unsaved s else unsaved s"
  have "TentativeInsert key v s = Some (flag, s\<lparr>tree := put_page q (LeafNode l') (tree s),
     calls := calls s @ tr @ let_go ?tt (tree s) q, unsaved := ?us\<rparr>)"
  proof (rule TentativeInsert_at_leaf)
    show "leaf_found cmp (tree s) g key ?tt c q les P" using f(3) by (simp add: st_def)
    show "(if \<not> IsInsertSafe (LeafNode l :: ('k, 'v) page) then (INSERT_UNSAFE, l)
          else let (size, l') = LeafPage_Insert (comparator (tree s)) key v l
               in (if size = -1 then DUPLICATE_KEY else INSERTED, l')) = (flag, l')"
      unfolding assms(2) by (rule t(1))
  qed (use f(1) l t(2) d(6) P assms(4) in \<open>simp_all add: st_def\<close>)
  moreover have "run_calls (tr @ let_go ?tt st q) [TaskLatch \<mapsto> Exclusive] = Some Map.empty"
    using run_calls_append_Some [OF f(2) run_let_go [of q "set (P @ [q])"]]
    by (simp add: P latched_empty map_upd_None)
  moreover have "put_page q (LeafNode l) (put_page q (LeafNode l') st) = st"
    using l(1) by (simp add: put_page_def fun_upd_idem)
  then have "?us = unsaved s \<or> flag = DUPLICATE_KEY \<and> overwritten_in st (put_page q (LeafNode l') st) (unsaved s) ?us"
    using t(3,4) unfolding overwritten_in_def by (cases flag) auto
  ultimately show thesis using that t(5) g(2) by (simp add: st_def)
qed

section \<open>The optimistic insertion\<close>

theorem OptimisticInsert_ok:
  fixes s :: "('k, 'v) ts_state"
  assumes "holds (tree s) es" and "comparator (tree s) = cmp" and "allocated (tree s)" and "page_set s = []"
  obtains T tr us where "OptimisticInsert key v s
      = Some (key \<notin> fst ` set es, s\<lparr>tree := T, calls := calls s @ tr, unsaved := us\<rparr>)"
    "ts_updated (tree s) (al_insert cmp key v es) T"
    "run_calls tr [TaskLatch \<mapsto> Exclusive] = Some Map.empty"
    "us = unsaved s \<or> key \<in> fst ` set es \<and> overwritten_in (tree s) T (unsaved s) us"
proof -
  obtain T1 tr1 flag us where t: "TentativeInsert key v s = Some (flag, s\<lparr>tree := T1, calls := calls s @ tr1, unsaved := us\<rparr>)"
    "tentative cmp key v es (tree s) flag T1" "run_calls tr1 [TaskLatch \<mapsto> Exclusive] = Some Map.empty"
    "us = unsaved s \<or> flag = DUPLICATE_KEY \<and> overwritten_in (tree s) T1 (unsaved s) us"
    using TentativeInsert_ok [OF assms, of key v] by metis
  show thesis
  proof (cases "flag = INSERTED \<or> flag = DUPLICATE_KEY")
    case True
    then have "OptimisticInsert key v s = Some (key \<notin> fst ` set es, s\<lparr>tree := T1, calls := calls s @ tr1, unsaved := us\<rparr>)"
      "ts_updated (tree s) (al_insert cmp key v es) T1" "flag = DUPLICATE_KEY \<longrightarrow> key \<in> fst ` set es"
      using t(1,2) by (auto simp: OptimisticInsert_def tentative_def)
    then show thesis using that t(3,4) by blast
  next
    case False
    let ?s = "s\<lparr>calls := calls s @ tr1\<rparr>"
    have "T1 = tree s" "us = unsaved s" using False t(2,4) by (simp_all add: tentative_def)
    then have T1: "s\<lparr>tree := T1, calls := calls s @ tr1, unsaved := us\<rparr> = ?s" by (cases s) simp
    have "holds (tree ?s) es" "comparator (tree ?s) = cmp" "allocated (tree ?s)" "page_set ?s = []"
      using assms by simp_all
    from TS_Insert_ok [OF this, of key v True] obtain T tr where r:
      "TS_Insert key v True ?s = Some (key \<notin> fst ` set es, ?s\<lparr>tree := T, calls := calls ?s @ tr\<rparr>)"
      "ts_updated (tree ?s) (al_insert cmp key v es) T" "run_calls tr Map.empty = Some Map.empty"
      by (metis (no_types))
    have "OptimisticInsert key v s = TS_Insert key v True ?s"
      using False t(1) T1 by (cases flag) (simp_all add: OptimisticInsert_def)
    moreover have "?s\<lparr>tree := T, calls := calls ?s @ tr\<rparr> = s\<lparr>tree := T, calls := calls s @ tr1 @ tr, unsaved := unsaved s\<rparr>"
      by (cases s) simp
    ultimately show thesis
      using that [of "unsaved s" "tr1 @ tr" T] r(1,2) run_calls_append_Some [OF t(3) r(3)] by simp
  qed
qed

end

end
