(* ===== verification/TSDelete.thy ===== *)
theory TSDelete
  imports TSInsertEnd
begin

text \<open>
  Removal from the thread-safe tree, below the operations: the climb of \<^verbatim>\<open>CoalesceOrRedistribute\<close> does
  on the pages what that of the other tree does, latches each neighbour while it works on it, and
  leaves the pages above alone. The old root is pinned, so the other tree would not free it either.
\<close>

section \<open>The moves between two pages\<close>

lemma parent_leaf_moves:
  "parent_page_id (fst (LeafPage_MoveAllTo a b)) = parent_page_id a"
  "parent_page_id (snd (LeafPage_MoveAllTo a b)) = parent_page_id b"
  by (simp_all add: leaf_page_defs Let_def)

lemma tame_two_leaves:
  assumes "pages t a = Some (LeafNode la)" and "pages t b = Some (LeafNode lb)" and "a \<noteq> b"
    and "parent_page_id la' = parent_page_id la" and "parent_page_id lb' = parent_page_id lb"
  shows "tame t (put_page a (LeafNode la') (put_page b (LeafNode lb') t))"
proof -
  have "tame t (put_page b (LeafNode lb') t)" using assms(2,5) by (rule tame_put_leaf)
  moreover have "tame (put_page b (LeafNode lb') t) (put_page a (LeafNode la') (put_page b (LeafNode lb') t))"
    using assms(1,3,4) by (intro tame_put_leaf) simp_all
  ultimately show ?thesis by (rule tame_trans)
qed

lemma get_node_LeafD: "get_node b t = Some (LeafNode l) \<Longrightarrow> pages t b = Some (LeafNode l)"
  by (rule get_node_the)

lemma tame_merge_pages:
  assumes "merge_pages a b k t = Some t'" and "a \<noteq> b" and "a \<noteq> INVALID_PAGE_ID"
  shows "tame t t'"
proof -
  obtain n where n: "get_node b t = Some n" using assms(1) by (auto simp: merge_pages_def elim: bindE)
  show ?thesis
  proof (cases n)
    case (LeafNode lb)
    obtain la where la: "get_leaf a t = Some la"
      using assms(1) n LeafNode by (cases "get_leaf a t") (simp_all add: merge_pages_def)
    have t': "t' = put_page a (LeafNode ((snd (LeafPage_MoveAllTo lb la))\<lparr>next_page_id := next_page_id (fst (LeafPage_MoveAllTo lb la))\<rparr>))
         (put_page b (LeafNode (fst (LeafPage_MoveAllTo lb la))) t)"
      using assms(1) n LeafNode la by (simp add: merge_pages_def case_prod_beta Let_def)
    show ?thesis
      unfolding t' using get_leaf_the [OF la] get_node_the [OF n] LeafNode assms(2)
      by (intro tame_two_leaves) (simp_all add: parent_leaf_moves)
  next
    case (InternalNode i)
    then have "InternalPage_MoveAllTo b a k t = Some t'" using assms(1) n by (simp add: merge_pages_def)
    then show ?thesis using assms(3) by (rule tame_MoveAllTo)
  qed (use assms(1) n in \<open>simp add: merge_pages_def\<close>)
qed

lemma parent_leaf_shifts:
  "LeafPage_MoveFirstToEndOf a b = Some (a', b') \<Longrightarrow> parent_page_id a' = parent_page_id a \<and> parent_page_id b' = parent_page_id b"
  "LeafPage_MoveLastToFrontOf a b = Some (a', b') \<Longrightarrow> parent_page_id a' = parent_page_id a \<and> parent_page_id b' = parent_page_id b"
  by (auto simp: leaf_page_defs Let_def elim!: bindE)

lemma tame_shift_left_pages:
  assumes "shift_left_pages a b k t = Some (key, t')" and "a \<noteq> b" and "a \<noteq> INVALID_PAGE_ID"
  shows "tame t t'"
proof -
  obtain n where n: "get_node b t = Some n" using assms(1) by (auto simp: shift_left_pages_def elim: bindE)
  show ?thesis
  proof (cases n)
    case (LeafNode rn)
    obtain ln rn' ln' where l: "get_leaf a t = Some ln" "LeafPage_MoveFirstToEndOf rn ln = Some (rn', ln')"
      "t' = put_page a (LeafNode ln') (put_page b (LeafNode rn') t)"
      using assms(1) n LeafNode by (auto simp: shift_left_pages_def elim!: bindE)
    show ?thesis
      unfolding l(3) using get_leaf_the [OF l(1)] get_node_the [OF n] LeafNode assms(2) parent_leaf_shifts(1) [OF l(2)]
      by (intro tame_two_leaves) simp_all
  next
    case (InternalNode i)
    then have "InternalPage_MoveFirstToEndOf b a k t = Some t'"
      using assms(1) n by (auto simp: shift_left_pages_def elim!: bindE)
    then show ?thesis using assms(3) by (rule tame_MoveFirstToEndOf)
  qed (use assms(1) n in \<open>simp add: shift_left_pages_def\<close>)
qed

lemma tame_shift_right_pages:
  assumes "shift_right_pages a b k t = Some (key, t')" and "a \<noteq> b" and "b \<noteq> INVALID_PAGE_ID"
  shows "tame t t'"
proof -
  obtain n where n: "get_node a t = Some n" using assms(1) by (auto simp: shift_right_pages_def elim: bindE)
  show ?thesis
  proof (cases n)
    case (LeafNode ln)
    obtain rn rn' ln' where l: "get_leaf b t = Some rn" "LeafPage_MoveLastToFrontOf ln rn = Some (ln', rn')"
      "t' = put_page b (LeafNode rn') (put_page a (LeafNode ln') t)"
      using assms(1) n LeafNode by (auto simp: shift_right_pages_def elim!: bindE)
    show ?thesis
      unfolding l(3) using get_leaf_the [OF l(1)] get_node_the [OF n] LeafNode assms(2) parent_leaf_shifts(2) [OF l(2)]
      by (intro tame_two_leaves) simp_all
  next
    case (InternalNode i)
    then have "InternalPage_MoveLastToFrontOf a b k t = Some t'"
      using assms(1) n by (auto simp: shift_right_pages_def elim!: bindE)
    then show ?thesis using assms(3) by (rule tame_MoveLastToFrontOf)
  qed (use assms(1) n in \<open>simp add: shift_right_pages_def\<close>)
qed

section \<open>Coalesce and Redistribute\<close>

lemma UnlatchNode_eq:
  assumes "get_node p (tree s) = Some n" and "node_parent n \<noteq> INVALID_PAGE_ID"
  shows "UnlatchNode p DELETE s = Some (s\<lparr>calls := calls s @ [Release Exclusive (PageLatch p)]\<rparr>)"
proof -
  have "get_node p (pin p (tree s)) = Some n" using assms(1) by (simp add: get_node_def)
  then show ?thesis
    using assms get_node_the [OF assms(1)]
    by (simp add: UnlatchNode_def UnlatchPage_def fetch_page_eq latch_call_def with_tree_def page_mode_def)
qed

lemma non_root_tame:
  assumes "tame t t'" and "get_node p t = Some n" and "node_parent n \<noteq> INVALID_PAGE_ID" and "p < disk_next t"
  shows "\<exists>n'. get_node p t' = Some n' \<and> node_parent n' \<noteq> INVALID_PAGE_ID"
proof -
  obtain n' where "get_node p t' = Some n'" "same_kind n n'"
    using nodes_tameD [OF tame_nodes [OF assms(1)] assms(4,2)] by blast
  then show ?thesis using assms(3) by (cases n) auto
qed

lemma TS_Coalesce_sim:
  assumes "Coalesce a b p i (tree s) = Some t'" and "0 < i" and "a \<noteq> b" and "a \<noteq> INVALID_PAGE_ID"
    and "idx = 0 \<and> i = 1 \<and> a = q \<and> b = nb \<or> idx = i \<and> a = nb \<and> b = q"
    and "get_node nb (tree s) = Some n" and "node_parent n \<noteq> INVALID_PAGE_ID" and "nb < disk_next (tree s)"
  shows "TS_Coalesce nb q p idx s = Some (s\<lparr>tree := t',
       calls := calls s @ [Release Exclusive (PageLatch nb)], deleted_page_set := deleted_page_set s @ [b]\<rparr>)"
    and "tame (tree s) t'"
proof -
  obtain parent k t1 t2 where c: "get_internal p (tree s) = Some parent" "InternalPage_KeyAt i parent = Some k"
    "merge_pages a b k (tree s) = Some t1" "update_internal p (InternalPage_Remove i) t1 = Some t2"
    "t' = unpin_page b (unpin_page a t2)"
    using assms(1) by (auto simp: Coalesce_merge_pages [OF assms(2)] elim!: bindE)
  have "tame (tree s) t1" using c(3) assms(3,4) by (rule tame_merge_pages)
  moreover have "tame t1 t2" using c(4) by (rule tame_update_internal) (simp add: InternalPage_Remove_def)
  ultimately have t2: "tame (tree s) t2" by (rule tame_trans)
  obtain n' where n': "get_node nb t2 = Some n'" "node_parent n' \<noteq> INVALID_PAGE_ID"
    using non_root_tame [OF t2 assms(6-8)] by blast
  have un: "UnlatchNode nb DELETE (s\<lparr>tree := t2\<rparr>)
      = Some (s\<lparr>tree := t2, calls := calls s @ [Release Exclusive (PageLatch nb)]\<rparr>)"
    using UnlatchNode_eq [of nb "s\<lparr>tree := t2\<rparr>" n'] n' by simp
  show "TS_Coalesce nb q p idx s = Some (s\<lparr>tree := t',
       calls := calls s @ [Release Exclusive (PageLatch nb)], deleted_page_set := deleted_page_set s @ [b]\<rparr>)"
    using assms(2,5) c(1-4) un
    by (elim disjE conjE) (simp_all add: TS_Coalesce_def Let_def with_tree_def AddIntoDeletedPageSet_def c(5) ts_update_commute)
  show "tame (tree s) t'"
    unfolding c(5) using t2 tame_unpin tame_trans by meson
qed

lemma TS_Redistribute_sim:
  assumes "Redistribute nb q idx (tree s) = Some t'" and "idx = 0 \<or> idx = 1" and "nb \<noteq> q" and "q \<noteq> INVALID_PAGE_ID"
    and "get_node q (tree s) = Some m" and "node_parent m = p" and "pages (tree s) p = Some (InternalNode parent)"
    and "InternalPage_ValueIndex (if idx = 0 then nb else q) parent = i" and "InternalPage_KeyAt i parent = Some k"
    and "get_node nb (tree s) = Some n" and "node_parent n \<noteq> INVALID_PAGE_ID" and "nb < disk_next (tree s)"
  shows "TS_Redistribute nb q idx s = Some (s\<lparr>tree := t', calls := calls s @ [Release Exclusive (PageLatch nb)]\<rparr>)"
    and "tame (tree s) t'"
proof -
  let ?shift = "if idx = 0 then shift_left_pages q nb k (pin p (tree s)) else shift_right_pages nb q k (pin p (tree s))"
  have "Redistribute nb q idx (tree s) = do { (key, t1) \<leftarrow> ?shift;
          t2 \<leftarrow> update_internal p (InternalPage_SetKeyAt i key) t1;
          Some (unpin_page p (unpin_page nb (unpin_page q t2))) }"
    using assms(2) Redistribute_left [OF assms(5-7), of nb i k] Redistribute_right [OF assms(5-7), of i k nb] assms(8,9)
    by auto
  from assms(1) [unfolded this] obtain x where x: "?shift = Some x"
    "(case x of (key, t1) \<Rightarrow> do { t2 \<leftarrow> update_internal p (InternalPage_SetKeyAt i key) t1;
        Some (unpin_page p (unpin_page nb (unpin_page q t2))) }) = Some t'" by (rule bindE)
  obtain key t1 where x': "x = (key, t1)" by (cases x)
  obtain t2 where c: "?shift = Some (key, t1)"
    "update_internal p (InternalPage_SetKeyAt i key) t1 = Some t2"
    "t' = unpin_page p (unpin_page nb (unpin_page q t2))"
    using x by (auto simp: x' elim!: bindE)
  have "tame (pin p (tree s)) t1"
    using c(1) assms(3,4) tame_shift_left_pages [of q nb k "pin p (tree s)" key t1]
      tame_shift_right_pages [of nb q k "pin p (tree s)" key t1] by (auto split: if_splits)
  moreover have "tame t1 t2" using c(2) by (rule tame_update_internal) (simp add: InternalPage_SetKeyAt_def)
  ultimately have t2: "tame (tree s) t2" using tame_pin tame_trans by meson
  obtain n' where n': "get_node nb t2 = Some n'" "node_parent n' \<noteq> INVALID_PAGE_ID"
    using non_root_tame [OF t2 assms(10-12)] by blast
  then have "get_node nb (unpin_page q t2) = Some n'" by (simp add: get_node_def)
  then have un: "UnlatchNode nb DELETE (s\<lparr>tree := unpin_page q t2\<rparr>)
      = Some (s\<lparr>tree := unpin_page q t2, calls := calls s @ [Release Exclusive (PageLatch nb)]\<rparr>)"
    using UnlatchNode_eq [of nb "s\<lparr>tree := unpin_page q t2\<rparr>" n'] n'(2) by simp
  show "TS_Redistribute nb q idx s = Some (s\<lparr>tree := t', calls := calls s @ [Release Exclusive (PageLatch nb)]\<rparr>)"
    using assms(5-9) c(1,2) un
    by (simp add: TS_Redistribute_def Let_def with_tree_def c(3) fetch_page_eq get_internal_eq ts_update_commute)
  show "tame (tree s) t'"
    unfolding c(3) using t2 tame_unpin tame_trans by meson
qed

section \<open>What a climb leaves\<close>

text \<open>Every page is still a node, but the only child of the old root may have become the root.\<close>

definition kept :: "('k, 'v) bpt \<Rightarrow> ('k, 'v) bpt \<Rightarrow> bool" where
  "kept t t' \<longleftrightarrow> disk_next t \<le> disk_next t' \<and>
     (\<forall>q. q < disk_next t \<longrightarrow> get_node q t \<noteq> None \<longrightarrow> get_node q t' \<noteq> None) \<and>
     (\<forall>q. pages t' q \<noteq> None \<longrightarrow> pages t q \<noteq> None \<or> disk_next t \<le> q \<and> q < disk_next t')"

lemma nodes_tame_kept: "nodes_tame t t' \<Longrightarrow> kept t t'"
  unfolding nodes_tame_def kept_def by (metis option.exhaust option.simps(3))

lemma all_kept_trans:
  assumes "kept a b" and "kept b c"
  shows "kept a c"
  unfolding kept_def
proof (intro conjI allI impI)
  have le: "disk_next a \<le> disk_next b" "disk_next b \<le> disk_next c" using assms by (simp_all add: kept_def)
  then show "disk_next a \<le> disk_next c" by simp
  show "get_node q c \<noteq> None" if "q < disk_next a" "get_node q a \<noteq> None" for q
    using assms that le unfolding kept_def by (meson order_less_le_trans)
  show "pages a q \<noteq> None \<or> disk_next a \<le> q \<and> q < disk_next c" if "pages c q \<noteq> None" for q
  proof -
    have "pages b q \<noteq> None \<or> disk_next b \<le> q \<and> q < disk_next c" using assms(2) that by (simp add: kept_def)
    moreover have "pages b q \<noteq> None \<longrightarrow> pages a q \<noteq> None \<or> disk_next a \<le> q \<and> q < disk_next b"
      using assms(1) by (simp add: kept_def)
    ultimately show ?thesis using le by linarith
  qed
qed

lemma allocated_kept:
  assumes "allocated t" and "kept t t'" and "0 < disk_next t"
  shows "allocated t'"
  unfolding allocated_def
proof (intro allI impI)
  fix q assume "pages t' q \<noteq> None"
  then have "pages t q \<noteq> None \<or> disk_next t \<le> q \<and> q < disk_next t'" using assms(2) by (simp add: kept_def)
  moreover have "pages t q \<noteq> None \<longrightarrow> 0 \<le> q \<and> q < disk_next t" using assms(1) by (simp add: allocated_def)
  moreover have "disk_next t \<le> disk_next t'" using assms(2) by (simp add: kept_def)
  ultimately show "0 \<le> q \<and> q < disk_next t'" using assms(3) by linarith
qed

text \<open>Calls that only take and give back latches of pages in \<open>S\<close>.\<close>

definition quiet :: "int set \<Rightarrow> latch_call list \<Rightarrow> bool" where
  "quiet S tr \<longleftrightarrow> (\<forall>h. (\<forall>x \<in> S. h (PageLatch x) = None) \<longrightarrow> run_calls tr h = Some h)"

lemma quiet_Nil: "quiet S []"
  by (simp add: quiet_def)

lemma quiet_append: "quiet S xs \<Longrightarrow> quiet S ys \<Longrightarrow> quiet S (xs @ ys)"
  by (simp add: quiet_def run_calls_append)

lemma quiet_mono: "quiet S xs \<Longrightarrow> S \<subseteq> S' \<Longrightarrow> quiet S' xs"
  unfolding quiet_def by blast

lemma quiet_pair: "x \<in> S \<Longrightarrow> quiet S [Acquire m (PageLatch x), Release m (PageLatch x)]"
  by (auto simp: quiet_def fun_upd_idem_iff)

definition remove_outcome ::
    "int set \<Rightarrow> ('k, 'v) ts_state \<Rightarrow> ('k, 'v) bpt \<Rightarrow> ('k, 'v) ts_state \<Rightarrow> bool" where
  "remove_outcome S s t' s' \<longleftrightarrow> (\<exists>tr ds. quiet S tr \<and>
     (root_page_id t' = root_page_id (tree s) \<and> tame (tree s) t' \<and>
      s' = s\<lparr>tree := t', calls := calls s @ tr, deleted_page_set := ds\<rparr> \<or>
      root_page_id t' \<noteq> root_page_id (tree s) \<and> kept (tree s) t' \<and>
      s' = s\<lparr>tree := t'\<lparr>pins := move_root_pin (root_page_id (tree s)) (root_page_id t') (pins t')\<rparr>,
             calls := calls s @ tr @ [Release Exclusive RootLatch], deleted_page_set := ds\<rparr>))"

text \<open>
  The other tree deletes the page of an old root that nobody else has pinned; \<^verbatim>\<open>DeletePages\<close> of this tree
  leaves it where it is. Such a page belongs to no tree.
\<close>

definition twin :: "int \<Rightarrow> ('k, 'v) bpt \<Rightarrow> ('k, 'v) bpt \<Rightarrow> bool" where
  "twin q t t' \<longleftrightarrow> t' = t \<or> pages t q = None \<and> (\<exists>n. t' = t\<lparr>pages := (pages t)(q := n)\<rparr>)"

lemma twin_refl [simp]: "twin q t t"
  by (simp add: twin_def)

lemma twin_fields:
  assumes "twin q t t'"
  shows "pins t' = pins t" "root_page_id t' = root_page_id t" "disk_next t' = disk_next t"
  using assms by (auto simp: twin_def)

lemma UpdateRootPageId_twin:
  assumes "UpdateRootPageId (if c then t else t\<lparr>pages := (pages t)(q := None)\<rparr>) = Some t'" and "q \<noteq> 0"
  obtains t'' where "UpdateRootPageId t = Some t''" "twin q t' t''"
proof (cases c)
  case False
  let ?t = "t\<lparr>pages := (pages t)(q := None)\<rparr>"
  obtain recs ok recs' where recs: "pages t 0 = Some (HeaderNode recs)"
    "HeaderPage_UpdateRecord (index_name t) (root_page_id t) recs = Some (ok, recs')"
    "t' = unpin_page 0 (put_page 0 (HeaderNode recs') (pin 0 ?t))"
    using assms False
    by (cases "pages t 0") (auto simp: UpdateRootPageId_def fetch_page_def pin_def split: Option.bind_splits page.splits)
  let ?u = "unpin_page 0 (put_page 0 (HeaderNode recs') (pin 0 t))"
  have "UpdateRootPageId t = Some ?u" using recs(1,2) by (simp add: UpdateRootPageId_def fetch_page_eq)
  moreover have "twin q t' ?u"
    unfolding twin_def using assms(2)
    by (intro disjI2 conjI exI [of _ "pages t q"])
      (simp_all add: recs(3) put_page_def unpin_page_def pin_def fun_upd_twist fun_upd_idem)
  ultimately show thesis using that by blast
qed (use assms(1) that in simp)

lemma rep_present: "rep pg lm im par t \<Longrightarrow> \<forall>p \<in> set (pids t). pg p \<noteq> None"
  by (induction t arbitrary: par rule: pids.induct) auto

lemma holds_twin:
  assumes "holds t es" and "twin q t t'" and "q \<noteq> 0"
  shows "holds t' es"
proof (cases "t' = t")
  case False
  then obtain n where n: "t' = t\<lparr>pages := (pages t)(q := n)\<rparr>" and none: "pages t q = None"
    using assms(2) by (auto simp: twin_def)
  have "tree_inv t' g" if inv: "tree_inv t g" for g
  proof -
    have st: "stored t [] [g]" using inv by (simp add: tree_inv_def)
    have "q \<notin> set (pids g)" using rep_present [OF storedD(1) [OF st, of g]] none by auto
    then have same: "\<forall>p \<in> set (pids g). pages t' p = pages t p" by (auto simp: n)
    moreover have "\<forall>p \<in> set (leaf_ids g). next_of (pages t') p = next_of (pages t) p"
      using same leaf_ids_subset [of g] by (auto simp: next_of_def)
    ultimately have "stored t' [] [g]"
      using st rep_cong [of g "pages t'" "pages t"] chain_cong [of "leaf_ids g" "pages t'" "pages t"] assms(3)
      by (auto simp: stored_def header_ok_def alloc_ok_def n)
    then show ?thesis using inv by (simp add: tree_inv_def n)
  qed
  then show ?thesis using assms(1,3) by (auto simp: holds_def sizes_ok_def header_ok_def alloc_ok_def n)
qed (use assms(1) in simp)

lemma evolves_twin: "evolves st t \<Longrightarrow> twin q t t' \<Longrightarrow> q \<noteq> 0 \<Longrightarrow> evolves st t'"
  by (auto simp: twin_def evolves_def)

lemma remove_outcome_after:
  assumes "remove_outcome S (s\<lparr>tree := t1, calls := calls s @ tr1, deleted_page_set := ds1\<rparr>) t' s'"
    and "tame (tree s) t1" and "quiet S' tr1" and "S \<subseteq> S'"
  shows "remove_outcome S' s t' s'"
proof -
  have k: "kept (tree s) t1" "root_page_id t1 = root_page_id (tree s)"
    using nodes_tame_kept [OF tame_nodes [OF assms(2)]] assms(2) by (simp_all add: tame_def)
  obtain tr ds where tr: "quiet S tr"
    and d: "root_page_id t' = root_page_id t1 \<and> tame t1 t' \<and>
      s' = s\<lparr>tree := t', calls := calls s @ tr1 @ tr, deleted_page_set := ds\<rparr> \<or>
      root_page_id t' \<noteq> root_page_id t1 \<and> kept t1 t' \<and>
      s' = s\<lparr>tree := t'\<lparr>pins := move_root_pin (root_page_id t1) (root_page_id t') (pins t')\<rparr>,
             calls := calls s @ tr1 @ tr @ [Release Exclusive RootLatch], deleted_page_set := ds\<rparr>"
    using assms(1) by (auto simp: remove_outcome_def ts_update_commute)
  have "quiet S' (tr1 @ tr)" using quiet_append assms(3) quiet_mono [OF tr assms(4)] by blast
  then show ?thesis
    unfolding remove_outcome_def
    using d k tame_trans [OF assms(2)] all_kept_trans [OF k(1)] by (intro exI [of _ "tr1 @ tr"] exI [of _ ds]) auto
qed

end
