(* ===== verification/TSDeleteClimb.thy ===== *)
theory TSDeleteClimb
  imports TSDelete
begin

text \<open>
  The climb of a removal: the root, one level, and the whole way by the induction of the other
  tree.
\<close>

section \<open>The root\<close>

lemma stored_root_recorded: "stored st c ts \<Longrightarrow> root_page_id st \<noteq> 0 \<Longrightarrow> root_recorded st (root_page_id st)"
  by (auto simp: stored_def header_ok_def root_recorded_def)

lemma remove_outcome_unpin: "remove_outcome S s (unpin_page q (tree s)) (with_tree (unpin_page q) s)"
  unfolding remove_outcome_def
  by (intro exI [of _ "[]"] exI [of _ "deleted_page_set s"]) (simp add: quiet_Nil tame_unpin with_tree_def)

text \<open>The new root is recorded, the pin moves, and the root latch is released.\<close>

lemma new_root_outcome:
  assumes "UpdateRootPageId u = Some t'" and "root_recorded u q" and "root_page_id u \<noteq> 0" and "root_page_id u \<noteq> q"
    and "root_page_id u \<noteq> INVALID_PAGE_ID \<Longrightarrow> pages u (root_page_id u) \<noteq> None"
    and "q = root_page_id (tree s)" and "kept (tree s) u"
  shows "\<exists>T. TS_UpdateRootPageId u = Some T \<and>
     remove_outcome S s t' (latch_call (Release Exclusive RootLatch) (s\<lparr>tree := T, deleted_page_set := ds\<rparr>))"
proof -
  let ?T = "t'\<lparr>pins := move_root_pin q (root_page_id u) (pins t')\<rparr>"
  note u = UpdateRootPageId_tame [OF assms(1)]
  have "TS_UpdateRootPageId u = Some ?T"
    using TS_UpdateRootPageId_eq [OF assms(1,2)] assms(3,5) by simp
  moreover have "kept (tree s) t'" using all_kept_trans [OF assms(7) nodes_tame_kept [OF u(1)]] .
  ultimately show ?thesis
    using u(4) assms(4,6) unfolding remove_outcome_def
    by (intro exI [of _ ?T] conjI exI [of _ "[]"] exI [of _ ds])
      (simp_all add: quiet_Nil latch_call_def ts_update_commute)
qed

lemma TS_AdjustRoot_leaf:
  assumes "AdjustRoot q st = Some (b, t')" and "pages st q = Some (LeafNode l)" and "tree s = st"
    and "q = root_page_id st" and "0 < q" and "root_recorded st q"
  shows "\<exists>s' t''. TS_AdjustRoot q s = Some (b, s') \<and> twin q t' t'' \<and> remove_outcome S s t'' s'"
proof (cases "leaf_array l = []")
  case False
  then have "b = False" "t' = unpin_page q st"
    using assms(1,2) by (simp_all add: AdjustRoot_def get_node_eq LeafPage_GetSize_def)
  moreover have "TS_AdjustRoot q s = Some (False, with_tree (unpin_page q) s)"
    using False assms(2,3) by (simp add: TS_AdjustRoot_def get_node_eq LeafPage_GetSize_def)
  ultimately show ?thesis using remove_outcome_unpin [of S s q] assms(3) twin_refl by metis
next
  case True
  define u where "u = (unpin_page q st)\<lparr>root_page_id := INVALID_PAGE_ID\<rparr>"
  have del: "(delete_page q (unpin_page q st))\<lparr>root_page_id := INVALID_PAGE_ID\<rparr>
      = (if pins u q \<noteq> 0 then u else u\<lparr>pages := (pages u)(q := None)\<rparr>)"
    by (simp add: delete_page_def u_def)
  have "UpdateRootPageId (if pins u q \<noteq> 0 then u else u\<lparr>pages := (pages u)(q := None)\<rparr>) = Some t'" and b: "b = True"
    using True assms(1,2) by (auto simp: AdjustRoot_def get_node_eq LeafPage_GetSize_def del elim!: bindE split del: if_split)
  then obtain t'' where nts: "UpdateRootPageId u = Some t''" "twin q t' t''"
    using UpdateRootPageId_twin assms(5) by (metis less_irrefl)
  have "root_recorded u q" using assms(6) by (simp add: u_def root_recorded_def)
  moreover have "kept (tree s) u" by (auto simp: u_def kept_def get_node_def assms(3))
  ultimately obtain T where T: "TS_UpdateRootPageId u = Some T"
    "remove_outcome S s t'' (latch_call (Release Exclusive RootLatch) (s\<lparr>tree := T, deleted_page_set := deleted_page_set s @ [q]\<rparr>))"
    using new_root_outcome [OF nts(1), of q s S "deleted_page_set s @ [q]"] assms(3-5) by (auto simp: u_def)
  have "TS_AdjustRoot q s = Some (True, latch_call (Release Exclusive RootLatch)
      (s\<lparr>tree := T, deleted_page_set := deleted_page_set s @ [q]\<rparr>))"
    using True assms(2,3) T(1)
    by (simp add: TS_AdjustRoot_def get_node_eq LeafPage_GetSize_def with_tree_def AddIntoDeletedPageSet_def u_def
        ts_update_commute)
  then show ?thesis using b T(2) nts(2) by blast
qed

lemma TS_AdjustRoot_node:
  assumes "AdjustRoot q st = Some (b, t')" and "stored st [] [GNode q kts]" and "tree s = st"
  shows "\<exists>s' t''. TS_AdjustRoot q s = Some (b, s') \<and> twin q t' t'' \<and> remove_outcome S s t'' s'"
proof -
  note st = storedD [OF assms(2)]
  let ?node = "\<lparr>max_size = internal_max_size st, parent_page_id = INVALID_PAGE_ID, page_id = q,
     internal_array = child_slots kts\<rparr>"
  have page: "pages st q = Some (InternalNode ?node)" using st(1) [of "GNode q kts"] by simp
  have q: "0 < q" "root_page_id st = q" using st(4) [of q] st(6) by simp_all
  show ?thesis
  proof (cases "length kts = 1")
    case False
    then have "b = False" "t' = unpin_page q st"
      using assms(1) page by (simp_all add: AdjustRoot_def get_node_eq InternalPage_GetSize_def)
    moreover have "TS_AdjustRoot q s = Some (False, with_tree (unpin_page q) s)"
      using False assms(3) page by (simp add: TS_AdjustRoot_def get_node_eq InternalPage_GetSize_def)
    ultimately show ?thesis using remove_outcome_unpin [of S s q] assms(3) twin_refl by metis
  next
    case True
    then obtain k t where kts: "kts = [(k, t)]" by (cases kts) auto
    let ?c = "root_of t" and ?empty = "InternalNode \<lparr>max_size = internal_max_size st,
       parent_page_id = INVALID_PAGE_ID, page_id = q, internal_array = []\<rparr>"
    have c: "?c \<noteq> q" "?c \<noteq> 0"
      using st(3) st(4) [of ?c] root_in_pids [of t] by (auto simp: kts)
    have "rep_st st q t" using st(1) [of "GNode q kts"] by (simp add: kts)
    then obtain n where n: "pages st ?c = Some n" "\<forall>recs. n \<noteq> HeaderNode recs" using rep_root_page by blast
    define st2 where "st2 = unpin_page q (put_page q ?empty st)"
    define u where "u = (put_page ?c (node_set_parent INVALID_PAGE_ID n) st2)\<lparr>root_page_id := ?c\<rparr>"
    have st2: "pages st2 ?c = Some n" "pages (delete_page q st2) ?c = Some n" using n c by (simp_all add: st2_def delete_page_def)
    have un: "unpin_page ?c ((put_page ?c m (pin ?c x))\<lparr>root_page_id := ?c\<rparr>) = (put_page ?c m x)\<lparr>root_page_id := ?c\<rparr>"
        "unpin_page ?c (put_page ?c m (pin ?c x)) = put_page ?c m x" for m and x :: "('k, 'v) bpt"
      by (intro bpt.equality; simp)+
    have del: "(put_page ?c (node_set_parent INVALID_PAGE_ID n) (delete_page q st2))\<lparr>root_page_id := ?c\<rparr>
        = (if pins u q \<noteq> 0 then u else u\<lparr>pages := (pages u)(q := None)\<rparr>)"
      using c by (auto simp: u_def delete_page_def put_page_def fun_upd_twist)
    have "UpdateRootPageId (if pins u q \<noteq> 0 then u else u\<lparr>pages := (pages u)(q := None)\<rparr>) = Some t'" and b: "b = True"
      using assms(1) page st2
      by (auto simp: AdjustRoot_def get_node_eq InternalPage_GetSize_def InternalPage_RemoveAndReturnOnlyChild_def
          InternalPage_ValueAt_def kts st2_def [symmetric] fetch_page_eq del un elim!: bindE split del: if_split)
    then obtain t'' where nts: "UpdateRootPageId u = Some t''" "twin q t' t''"
      using UpdateRootPageId_twin q(1) by (metis less_irrefl)
    have u: "root_page_id u = ?c" "pages u ?c \<noteq> None" by (simp_all add: u_def)
    have "root_recorded st q" using stored_root_recorded [OF assms(2)] q by simp
    then have rr: "root_recorded u q" using c q by (simp add: root_recorded_def u_def st2_def)
    have kk: "kept (tree s) u"
      using page n c by (auto simp: kept_def assms(3) u_def st2_def get_node_def split: page.splits)
    have "root_page_id u \<noteq> 0" "root_page_id u \<noteq> q" "q = root_page_id (tree s)" using u(1) c q(2) assms(3) by simp_all
    then obtain T where T: "TS_UpdateRootPageId u = Some T"
      "remove_outcome S s t'' (latch_call (Release Exclusive RootLatch) (s\<lparr>tree := T, deleted_page_set := deleted_page_set s @ [q]\<rparr>))"
      using new_root_outcome [OF nts(1) rr _ _ _ _ kk, of S "deleted_page_set s @ [q]"] u by metis
    have "TS_AdjustRoot q s = Some (True, latch_call (Release Exclusive RootLatch)
        (s\<lparr>tree := T, deleted_page_set := deleted_page_set s @ [q]\<rparr>))"
      using page assms(3) st2 T(1)
      by (simp add: TS_AdjustRoot_def get_node_eq InternalPage_GetSize_def InternalPage_RemoveAndReturnOnlyChild_def
          InternalPage_ValueAt_def kts with_tree_def AddIntoDeletedPageSet_def st2_def [symmetric] fetch_page_eq u_def
          un ts_update_commute)
    then show ?thesis using b T(2) nts(2) by blast
  qed
qed

section \<open>One level\<close>

fun sib_pids :: "('k, 'v) ctx \<Rightarrow> int set" where
  "sib_pids [] = {}"
| "sib_pids ((p, ls, k, rs) # c) = set (pids_of ls) \<union> set (pids_of rs) \<union> sib_pids c"

definition climbs :: "('k, 'v) bpt \<Rightarrow> ('k, 'v) ctx \<Rightarrow> ('k, 'v) gtree \<Rightarrow> bool" where
  "climbs st c t \<longleftrightarrow> (\<forall>s b t'. tree s = st \<longrightarrow> CoalesceOrRedistribute (root_of t) st = Some (b, t') \<longrightarrow>
     (\<exists>s' t''. TS_CoalesceOrRedistribute (root_of t) s = Some (b, s') \<and> twin (root_page_id st) t' t'' \<and>
        remove_outcome (sib_pids c) s t'' s'))"

lemma LatchPage_DELETE:
  "pages (tree s) p = Some n \<Longrightarrow> \<forall>recs. n \<noteq> HeaderNode recs \<Longrightarrow>
     LatchPage p DELETE s = Some (s\<lparr>calls := calls s @ [Acquire Exclusive (PageLatch p)]\<rparr>)"
  using LatchPage_eq [of p s n DELETE] by (simp add: get_node_eq mode_of_writing)

lemma TS_CoR_left:
  assumes "stored st c [GNode p ((k1, l) # (k2, r) # rs)]"
    and "int (width l) < capacity (leaf_max_size st) (internal_max_size st) l div 2" and "tree s = st"
    and "s2 = s\<lparr>tree := pin (root_of r) (pin p st), calls := calls s @ [Acquire Exclusive (PageLatch (root_of r))]\<rparr>"
  shows "TS_CoalesceOrRedistribute (root_of l) s =
     (if int (width r + width l) < capacity (leaf_max_size st) (internal_max_size st) l
      then do { s3 \<leftarrow> TS_Coalesce (root_of r) (root_of l) p 0 s2; TS_CoalesceOrRedistribute p s3 }
      else do { s3 \<leftarrow> TS_Redistribute (root_of r) (root_of l) 0 s2; Some (False, with_tree (unpin_page p) s3) })"
proof -
  let ?kts = "(k1, l) # (k2, r) # rs"
  have st: "stored st c [GNode p ([] @ ?kts)]" using assms(1) by simp
  note ids = neighbours_roots [OF st] and ix = neighbours_index [OF st refl]
  obtain n where n: "pages st (root_of l) = Some n" "\<forall>recs. n \<noteq> HeaderNode recs" "node_parent n = p"
    "node_size n = int (width l)" "node_max_size n = capacity (leaf_max_size st) (internal_max_size st) l"
    "node_min_size n = capacity (leaf_max_size st) (internal_max_size st) l div 2"
    using rep_sizes [OF stored_node_rep [OF assms(1), of "(k1, l)", simplified]] by auto
  obtain m where m: "pages st (root_of r) = Some m" "\<forall>recs. m \<noteq> HeaderNode recs" "node_size m = int (width r)"
    using rep_sizes [OF stored_node_rep [OF assms(1), of "(k2, r)", simplified]] by auto
  have latch: "LatchPage (root_of r) DELETE (s\<lparr>tree := pin (root_of r) (pin p st)\<rparr>) = Some s2"
    using LatchPage_DELETE [of "s\<lparr>tree := pin (root_of r) (pin p st)\<rparr>" "root_of r" m] m by (simp add: assms(4))
  show ?thesis
    using n m(1,3) ids ix assms(2,3) stored_node_page [OF assms(1)] latch
    by (subst TS_CoalesceOrRedistribute.simps)
      (simp add: get_node_eq get_internal_eq fetch_page_eq del: child_slots_simps)
qed

lemma TS_CoR_right:
  assumes "stored st c [GNode p (ls @ (k1, l) # (k2, r) # rs)]"
    and "int (width r) < capacity (leaf_max_size st) (internal_max_size st) r div 2" and "tree s = st"
    and "s2 = s\<lparr>tree := pin (root_of l) (pin p st), calls := calls s @ [Acquire Exclusive (PageLatch (root_of l))]\<rparr>"
  shows "TS_CoalesceOrRedistribute (root_of r) s =
     (if int (width l + width r) < capacity (leaf_max_size st) (internal_max_size st) r
      then do { s3 \<leftarrow> TS_Coalesce (root_of l) (root_of r) p (int (length ls) + 1) s2; TS_CoalesceOrRedistribute p s3 }
      else do { s3 \<leftarrow> TS_Redistribute (root_of l) (root_of r) 1 s2; Some (False, with_tree (unpin_page p) s3) })"
proof -
  let ?kts = "ls @ (k1, l) # (k2, r) # rs"
  note ids = neighbours_roots [OF assms(1)] and ix = neighbours_index [OF assms(1) refl]
  obtain n where n: "pages st (root_of r) = Some n" "\<forall>recs. n \<noteq> HeaderNode recs" "node_parent n = p"
    "node_size n = int (width r)" "node_max_size n = capacity (leaf_max_size st) (internal_max_size st) r"
    "node_min_size n = capacity (leaf_max_size st) (internal_max_size st) r div 2"
    using rep_sizes [OF stored_node_rep [OF assms(1), of "(k2, r)", simplified]] by auto
  obtain m where m: "pages st (root_of l) = Some m" "\<forall>recs. m \<noteq> HeaderNode recs" "node_size m = int (width l)"
    using rep_sizes [OF stored_node_rep [OF assms(1), of "(k1, l)", simplified]] by auto
  have pos: "int (length ls) + 1 \<noteq> 0" by simp
  have latch: "LatchPage (root_of l) DELETE (s\<lparr>tree := pin (root_of l) (pin p st)\<rparr>) = Some s2"
    using LatchPage_DELETE [of "s\<lparr>tree := pin (root_of l) (pin p st)\<rparr>" "root_of l" m] m by (simp add: assms(4))
  show ?thesis
    using n m(1,3) ids ix pos assms(2,3) stored_node_page [OF assms(1)] latch
    by (subst TS_CoalesceOrRedistribute.simps)
      (simp add: get_node_eq get_internal_eq fetch_page_eq del: child_slots_simps)
qed

text \<open>The page \<open>q\<close> and its neighbour \<open>nb\<close>, on either side, with the index that \<^verbatim>\<open>Coalesce\<close> is given.\<close>

definition beside :: "('k, 'v) children \<Rightarrow> ('k, 'v) gtree \<Rightarrow> ('k, 'v) gtree \<Rightarrow> int \<Rightarrow> int \<Rightarrow> int \<Rightarrow> bool" where
  "beside ls l r q nb idx \<longleftrightarrow>
     idx = 0 \<and> ls = [] \<and> q = root_of l \<and> nb = root_of r \<or>
     idx = int (length ls) + 1 \<and> q = root_of r \<and> nb = root_of l"

lemma root_plug_frames: "root_of (plug c t) \<in> insert (root_of t) (fst ` set c)"
proof (induction c arbitrary: t)
  case (Cons f c)
  obtain p ls k rs where "f = (p, ls, k, rs)" by (cases f) auto
  then show ?case using Cons [of "GNode p (ls @ (k, t) # rs)"] by auto
qed simp

lemma beside_facts:
  assumes "pair_at st c h p ls k1 l k2 r rs" and "beside ls l r q nb idx"
  shows "nb \<noteq> q" "0 < p" "0 < q" "0 < nb" "nb < disk_next st" "p < disk_next st" "q \<noteq> p" "nb \<noteq> p"
    "root_page_id st \<noteq> root_of l" "root_page_id st \<noteq> root_of r"
    "\<exists>n. pages st q = Some n \<and> (\<forall>recs. n \<noteq> HeaderNode recs) \<and> node_parent n = p"
    "\<exists>n. pages st nb = Some n \<and> (\<forall>recs. n \<noteq> HeaderNode recs) \<and> node_parent n = p"
proof -
  note st = pair_atD(1) [OF assms(1)]
  note ids = neighbours_roots [OF st]
  show "nb \<noteq> q" "0 < p" "0 < q" "0 < nb" "nb < disk_next st" "p < disk_next st" "q \<noteq> p" "nb \<noteq> p"
    using assms(2) ids by (auto simp: beside_def)
  have "rep_st st p l" "rep_st st p r"
    using stored_node_rep [OF st, of "(k1, l)"] stored_node_rep [OF st, of "(k2, r)"] by simp_all
  then show "\<exists>n. pages st q = Some n \<and> (\<forall>recs. n \<noteq> HeaderNode recs) \<and> node_parent n = p"
    "\<exists>n. pages st nb = Some n \<and> (\<forall>recs. n \<noteq> HeaderNode recs) \<and> node_parent n = p"
    using assms(2) rep_root_page unfolding beside_def by blast+
  let ?t = "GNode p (ls @ (k1, l) # (k2, r) # rs)"
  have root: "root_page_id st = root_of (plug c ?t)" using storedD(6) [OF st] by simp
  have "root_of (plug c ?t) \<in> {p} \<union> set (ctx_pids c)"
    using root_plug_frames [of c ?t] frames_subset [of c] by auto
  moreover have "set (pids l) \<inter> set (ctx_pids c) = {}" "set (pids r) \<inter> set (ctx_pids c) = {}"
    using storedD(3) [OF st] by auto
  then have "root_of l \<notin> {p} \<union> set (ctx_pids c)" "root_of r \<notin> {p} \<union> set (ctx_pids c)"
    using ids(1,2) root_in_pids [of l] root_in_pids [of r] by blast+
  ultimately show "root_page_id st \<noteq> root_of l" "root_page_id st \<noteq> root_of r" using root by auto
qed

lemma TS_shift_level:
  assumes "pair_at st c h p ls k1 l k2 r rs" and "beside ls l r q nb idx" and "tree s = st"
    and "Redistribute nb q (if idx = 0 then 0 else 1) (pin nb (pin p st)) = Some t3"
    and "s2 = s\<lparr>tree := pin nb (pin p st), calls := calls s @ [Acquire Exclusive (PageLatch nb)]\<rparr>"
    and "nb \<in> S"
  shows "\<exists>s3. TS_Redistribute nb q (if idx = 0 then 0 else 1) s2 = Some s3 \<and>
     remove_outcome S s (unpin_page p t3) (with_tree (unpin_page p) s3)"
proof -
  note st = pair_atD(1) [OF assms(1)]
  note bf = beside_facts [OF assms(1,2)] and ix = neighbours_index [OF st refl]
  obtain m where m: "pages st q = Some m" "\<forall>recs. m \<noteq> HeaderNode recs" "node_parent m = p" using bf(11) by blast
  obtain n where n: "pages st nb = Some n" "\<forall>recs. n \<noteq> HeaderNode recs" "node_parent n = p" using bf(12) by blast
  have r: "(if (if idx = 0 then 0 else 1) = (0::int) then nb else q) = root_of r" using assms(2) by (auto simp: beside_def)
  have t2: "tree s2 = pin nb (pin p st)" by (simp add: assms(5))
  have facts: "get_node q (tree s2) = Some m" "get_node nb (tree s2) = Some n" "node_parent n \<noteq> INVALID_PAGE_ID"
    "pages (tree s2) p = Some (InternalNode (parent_node st c p (ls @ (k1, l) # (k2, r) # rs)))" "nb < disk_next (tree s2)"
    using m n bf(2,5) stored_node_page [OF st] by (auto simp: t2 get_node_eq)
  note sim = TS_Redistribute_sim [of nb q "if idx = 0 then 0 else 1" s2 t3, OF _ _ bf(1) _ facts(1) m(3) facts(4) _ ix(5) facts(2,3,5)]
  have "TS_Redistribute nb q (if idx = 0 then 0 else 1) s2
      = Some (s2\<lparr>tree := t3, calls := calls s2 @ [Release Exclusive (PageLatch nb)]\<rparr>)" "tame (tree s2) t3"
    using sim assms(4) bf(3) ix(2) r t2 by auto
  moreover have "tame st (unpin_page p t3)"
    using calculation(2) t2 tame_pin tame_unpin tame_trans by metis
  then have "remove_outcome S s (unpin_page p t3)
      (with_tree (unpin_page p) (s2\<lparr>tree := t3, calls := calls s2 @ [Release Exclusive (PageLatch nb)]\<rparr>))"
    using quiet_pair [OF assms(6), of Exclusive] assms(3) unfolding remove_outcome_def
    by (intro exI [of _ "[Acquire Exclusive (PageLatch nb), Release Exclusive (PageLatch nb)]"]
        exI [of _ "deleted_page_set s"])
      (simp add: assms(5) with_tree_def ts_update_commute tame_def)
  ultimately show ?thesis by blast
qed

lemma TS_merge_level:
  assumes "pair_at st c h p ls k1 l k2 r rs" and "beside ls l r q nb idx" and "tree s = st"
    and "Coalesce (root_of l) (root_of r) p (int (length ls) + 1) (pin nb (pin p st)) = Some st3"
    and "s2 = s\<lparr>tree := pin nb (pin p st), calls := calls s @ [Acquire Exclusive (PageLatch nb)]\<rparr>"
  shows "TS_Coalesce nb q p idx s2 = Some (s\<lparr>tree := st3,
       calls := calls s @ [Acquire Exclusive (PageLatch nb), Release Exclusive (PageLatch nb)],
       deleted_page_set := deleted_page_set s @ [root_of r]\<rparr>)"
    and "tame st st3"
proof -
  note st = pair_atD(1) [OF assms(1)]
  note bf = beside_facts [OF assms(1,2)] and ids = neighbours_roots [OF st]
  obtain n where n: "pages st nb = Some n" "\<forall>recs. n \<noteq> HeaderNode recs" "node_parent n = p" using bf(12) by blast
  have t2: "tree s2 = pin nb (pin p st)" by (simp add: assms(5))
  have facts: "get_node nb (tree s2) = Some n" "node_parent n \<noteq> INVALID_PAGE_ID" "nb < disk_next (tree s2)"
    "root_of l \<noteq> INVALID_PAGE_ID" "(0::int) < int (length ls) + 1"
    using n bf(2,5) ids(8) by (auto simp: t2 get_node_eq)
  have side: "idx = 0 \<and> int (length ls) + 1 = 1 \<and> root_of l = q \<and> root_of r = nb \<or>
      idx = int (length ls) + 1 \<and> root_of l = nb \<and> root_of r = q"
    using assms(2) by (auto simp: beside_def)
  have run: "Coalesce (root_of l) (root_of r) p (int (length ls) + 1) (tree s2) = Some st3" using assms(4) t2 by simp
  note sim = TS_Coalesce_sim [OF run facts(5) ids(3) facts(4) side facts(1-3)]
  show "TS_Coalesce nb q p idx s2 = Some (s\<lparr>tree := st3,
       calls := calls s @ [Acquire Exclusive (PageLatch nb), Release Exclusive (PageLatch nb)],
       deleted_page_set := deleted_page_set s @ [root_of r]\<rparr>)"
    unfolding sim(1) by (simp add: assms(5) ts_update_commute)
  show "tame st st3" using sim(2) t2 tame_pin tame_trans by metis
qed

section \<open>The whole climb\<close>

context key_comparator
begin

lemma climbs_level:
  assumes pair: "pair_at st c h p ls k1 l k2 r rs" "comparator st = cmp" and b: "beside ls l r q nb idx"
    and nts: "CoalesceOrRedistribute q st =
       (if m then do { t3 \<leftarrow> Coalesce (root_of l) (root_of r) p (int (length ls) + 1) (pin nb (pin p st));
                       CoalesceOrRedistribute p t3 }
        else do { t3 \<leftarrow> Redistribute nb q (if idx = 0 then 0 else 1) (pin nb (pin p st)); Some (False, unpin_page p t3) })"
    and ts: "\<And>s s2. tree s = st \<Longrightarrow>
       s2 = s\<lparr>tree := pin nb (pin p st), calls := calls s @ [Acquire Exclusive (PageLatch nb)]\<rparr> \<Longrightarrow>
       TS_CoalesceOrRedistribute q s =
       (if m then do { s3 \<leftarrow> TS_Coalesce nb q p idx s2; TS_CoalesceOrRedistribute p s3 }
        else do { s3 \<leftarrow> TS_Redistribute nb q (if idx = 0 then 0 else 1) s2; Some (False, with_tree (unpin_page p) s3) })"
    and merge: "m \<Longrightarrow> \<exists>st3 t. Coalesce (root_of l) (root_of r) p (int (length ls) + 1) (pin nb (pin p st)) = Some st3 \<and>
       climb_at st3 c (Suc h) t \<and> root_of t = p \<and> comparator st3 = cmp \<and>
       pins st3 = drop_pin (root_of r) (drop_pin (root_of l) (pins (pin nb (pin p st))))"
    and IH: "\<And>st' t. climb_at st' c (Suc h) t \<Longrightarrow> comparator st' = cmp \<Longrightarrow> climbs st' c t"
    and S: "nb \<in> S" "sib_pids c \<subseteq> S"
    and run: "CoalesceOrRedistribute q st = Some (res, t')" "tree s = st"
  shows "\<exists>s' t''. TS_CoalesceOrRedistribute q s = Some (res, s') \<and> twin (root_page_id st) t' t'' \<and> remove_outcome S s t'' s'"
proof -
  let ?s2 = "s\<lparr>tree := pin nb (pin p st), calls := calls s @ [Acquire Exclusive (PageLatch nb)]\<rparr>"
  note ts' = ts [OF run(2) refl]
  show ?thesis
  proof (cases m)
    case False
    then obtain t3 where t3: "Redistribute nb q (if idx = 0 then 0 else 1) (pin nb (pin p st)) = Some t3"
      "res = False" "t' = unpin_page p t3"
      using nts run(1)
      by (cases "Redistribute nb q (if idx = 0 then 0 else 1) (pin nb (pin p st))") simp_all
    then show ?thesis using TS_shift_level [OF pair(1) b run(2) t3(1) refl S(1)] ts' False twin_refl by fastforce
  next
    case True
    obtain st3 t where st3: "Coalesce (root_of l) (root_of r) p (int (length ls) + 1) (pin nb (pin p st)) = Some st3"
      "climb_at st3 c (Suc h) t" "root_of t = p" "comparator st3 = cmp"
      "pins st3 = drop_pin (root_of r) (drop_pin (root_of l) (pins (pin nb (pin p st))))"
      using merge [OF True] by blast
    let ?s3 = "s\<lparr>tree := st3, calls := calls s @ [Acquire Exclusive (PageLatch nb), Release Exclusive (PageLatch nb)],
       deleted_page_set := deleted_page_set s @ [root_of r]\<rparr>"
    note ml = TS_merge_level [OF pair(1) b run(2) st3(1) refl]
    have root: "root_page_id st3 = root_page_id st" using ml(2) by (simp add: tame_def)
    have "CoalesceOrRedistribute p st3 = Some (res, t')" using nts run(1) True st3(1) by simp
    then obtain s' t'' where s': "TS_CoalesceOrRedistribute p ?s3 = Some (res, s')"
      "twin (root_page_id st) t' t''" "remove_outcome (sib_pids c) ?s3 t'' s'"
      using IH [OF st3(2,4)] st3(3) root unfolding climbs_def by (elim allE [of _ ?s3]) auto
    have "TS_CoalesceOrRedistribute q s = Some (res, s')" using ts' True ml(1) s'(1) by simp
    moreover have "remove_outcome S s t'' s'"
      using remove_outcome_after [OF s'(3) _ quiet_pair [OF S(1)] S(2)] ml(2) run(2) by simp
    ultimately show ?thesis using s'(2) by blast
  qed
qed

lemma climbs_full:
  fixes st :: "('k, 'v) bpt"
  assumes "climb_at st c h t" and "comparator st = cmp"
    and "capacity (leaf_max_size st) (internal_max_size st) t div 2 \<le> int (width t)"
  shows "climbs st c t"
proof -
  note d = climb_atD [OF assms(1)]
  obtain n where n: "pages st (root_of t) = Some n" "\<forall>recs. n \<noteq> HeaderNode recs"
    "node_size n = int (width t)" "node_min_size n = capacity (leaf_max_size st) (internal_max_size st) t div 2"
    using rep_sizes [OF storedD(1) [OF d(1), of t]] by auto
  have "CoalesceOrRedistribute (root_of t) st = Some (True, unpin_page (root_of t) st)"
    using n assms(3) by (subst CoalesceOrRedistribute.simps) (simp add: get_node_eq)
  moreover have "TS_CoalesceOrRedistribute (root_of t) s = Some (True, with_tree (unpin_page (root_of t)) s)"
    if "tree s = st" for s using n assms(3) that by (subst TS_CoalesceOrRedistribute.simps) (simp add: get_node_eq)
  ultimately show ?thesis
    unfolding climbs_def using remove_outcome_unpin twin_refl by (metis option.inject prod.inject)
qed

lemma climbs_root:
  fixes st :: "('k, 'v) bpt"
  assumes "climb_at st [] h t" and "comparator st = cmp"
    and "int (width t) < capacity (leaf_max_size st) (internal_max_size st) t div 2"
  shows "climbs st [] t"
proof -
  note d = climb_atD [OF assms(1)]
  obtain n where n: "pages st (root_of t) = Some n" "\<forall>recs. n \<noteq> HeaderNode recs" "node_parent n = INVALID_PAGE_ID"
    "node_size n = int (width t)" "node_min_size n = capacity (leaf_max_size st) (internal_max_size st) t div 2"
    using rep_sizes [OF storedD(1) [OF d(1), of t]] by auto
  have r: "root_page_id st = root_of t" "0 < root_of t"
    using storedD(6) [OF d(1)] storedD(4) [OF d(1), of "root_of t"] by simp_all
  have adj: "CoalesceOrRedistribute (root_of t) st = AdjustRoot (root_of t) st"
    using n assms(3) by (subst CoalesceOrRedistribute.simps) (simp add: get_node_eq)
  have ts: "TS_CoalesceOrRedistribute (root_of t) s = TS_AdjustRoot (root_of t) s" if "tree s = st" for s
    using n assms(3) that by (subst TS_CoalesceOrRedistribute.simps) (simp add: get_node_eq)
  show ?thesis
    unfolding climbs_def adj
  proof (intro allI impI)
    fix s :: "('k, 'v) ts_state" and b t'
    assume run: "tree s = st" "AdjustRoot (root_of t) st = Some (b, t')"
    show "\<exists>s' t''. TS_CoalesceOrRedistribute (root_of t) s = Some (b, s') \<and> twin (root_page_id st) t' t'' \<and>
        remove_outcome (sib_pids []) s t'' s'"
    proof (cases t)
      case (GLeaf q es)
      then obtain l where "pages st q = Some (LeafNode l)" using storedD(1) [OF d(1), of t] by auto
      moreover have "root_recorded st q" "q = root_page_id st" "0 < q" "root_of t = q"
        using stored_root_recorded [OF d(1)] r GLeaf by simp_all
      ultimately show ?thesis
        unfolding ts [OF run(1)] using TS_AdjustRoot_leaf [of q st b t' l s "sib_pids []"] run(1,2) r(1) by metis
    next
      case (GNode q kts)
      then have "root_of t = q" "stored st [] [GNode q kts]" using d(1) by simp_all
      then show ?thesis
        unfolding ts [OF run(1)] using TS_AdjustRoot_node [of q st b t' kts s "sib_pids []"] run(1,2) r(1) by metis
    qed
  qed
qed

lemma climbs_left:
  fixes st :: "('k, 'v) bpt"
  assumes "pair_at st c h p [] k1 l k2 r rs" and "comparator st = cmp"
    and "shape (leaf_max_size st) (internal_max_size st) h r"
    and "int (width l) = capacity (leaf_max_size st) (internal_max_size st) l div 2 - 1"
    and IH: "\<And>st' t. climb_at st' c (Suc h) t \<Longrightarrow> comparator st' = cmp \<Longrightarrow> climbs st' c t"
  shows "climbs st ((p, [], k1, (k2, r) # rs) # c) l"
proof -
  let ?m = "int (width r + width l) < capacity (leaf_max_size st) (internal_max_size st) l"
  note d = pair_atD [OF assms(1)]
  note r = neighbour_facts [OF assms(3) d(6)]
  have st: "stored st c [GNode p ((k1, l) # (k2, r) # rs)]" using d(1) by simp
  have small: "int (width l) < capacity (leaf_max_size st) (internal_max_size st) l div 2" using assms(4) by simp
  have pos: "h \<noteq> 0 \<Longrightarrow> 0 < width l" "h \<noteq> 0 \<Longrightarrow> 0 < width r"
    using width_pos [OF d(2) _ d(6)] width_pos [OF d(2) _ d(7)] assms(4) r by auto
  have b: "beside [] l r (root_of l) (root_of r) 0" by (simp add: beside_def)
  let ?nts = "\<lambda>idx. if ?m then do { t3 \<leftarrow> Coalesce (root_of l) (root_of r) p (int (length ([] :: ('k, 'v) children)) + 1) (pin (root_of r) (pin p st));
                       CoalesceOrRedistribute p t3 }
        else do { t3 \<leftarrow> Redistribute (root_of r) (root_of l) (if idx = 0 then 0 else 1) (pin (root_of r) (pin p st)); Some (False, unpin_page p t3) }"
  have nts: "CoalesceOrRedistribute (root_of l) st = ?nts (0)"
    using CoR_left [OF st small refl] by simp
  have ts: "TS_CoalesceOrRedistribute (root_of l) s =
       (if ?m then do { s3 \<leftarrow> TS_Coalesce (root_of r) (root_of l) p (0) s2; TS_CoalesceOrRedistribute p s3 }
        else do { s3 \<leftarrow> TS_Redistribute (root_of r) (root_of l) (if 0 = (0::int) then 0 else 1) s2;
                  Some (False, with_tree (unpin_page p) s3) })"
    if "tree s = st" "s2 = s\<lparr>tree := pin (root_of r) (pin p st), calls := calls s @ [Acquire Exclusive (PageLatch (root_of r))]\<rparr>"
    for s s2 using TS_CoR_left [OF st small that] by simp
  have merge: "\<exists>st3 t. Coalesce (root_of l) (root_of r) p (int (length ([] :: ('k, 'v) children)) + 1) (pin (root_of r) (pin p st)) = Some st3 \<and>
         climb_at st3 c (Suc h) t \<and> root_of t = p \<and> comparator st3 = cmp \<and>
         pins st3 = drop_pin (root_of r) (drop_pin (root_of l) (pins (pin (root_of r) (pin p st))))" if ?m
  proof -
    have "int (width l + width r) < capacity (leaf_max_size st) (internal_max_size st) l"
      "capacity (leaf_max_size st) (internal_max_size st) l div 2 \<le> int (width l) \<or>
       capacity (leaf_max_size st) (internal_max_size st) l div 2 \<le> int (width r)"
      using that r by (simp_all add: add.commute)
    note m = this
    obtain st3 t where "Coalesce (root_of l) (root_of r) p (int (length ([] :: ('k, 'v) children)) + 1) (pin (root_of r) (pin p st)) = Some st3"
      "climb_at st3 c (Suc h) t" "root_of t = p" "comparator st3 = cmp"
      "pins st3 = drop_pin (root_of r) (drop_pin (root_of l) (pins (pin (root_of r) (pin p st))))"
      using Coalesce_climbs [OF assms(1,2) pos(2,1) m, of "root_of r"] by metis
    then show ?thesis by blast
  qed
  show ?thesis
    unfolding climbs_def
  proof (intro allI impI)
    fix s :: "('k, 'v) ts_state" and res t'
    assume run: "tree s = st" "CoalesceOrRedistribute (root_of l) st = Some (res, t')"
    show "\<exists>s' t''. TS_CoalesceOrRedistribute (root_of l) s = Some (res, s') \<and> twin (root_page_id st) t' t'' \<and>
        remove_outcome (sib_pids ((p, [], k1, (k2, r) # rs) # c)) s t'' s'"
      by (rule climbs_level [OF assms(1,2) b nts ts merge IH _ _ run(2,1)]) auto
  qed
qed

lemma climbs_right:
  fixes st :: "('k, 'v) bpt"
  assumes "pair_at st c h p ls k1 l k2 r rs" and "comparator st = cmp"
    and "shape (leaf_max_size st) (internal_max_size st) h l"
    and "int (width r) = capacity (leaf_max_size st) (internal_max_size st) r div 2 - 1"
    and IH: "\<And>st' t. climb_at st' c (Suc h) t \<Longrightarrow> comparator st' = cmp \<Longrightarrow> climbs st' c t"
  shows "climbs st ((p, ls @ [(k1, l)], k2, rs) # c) r"
proof -
  let ?m = "int (width l + width r) < capacity (leaf_max_size st) (internal_max_size st) r"
  note d = pair_atD [OF assms(1)]
  note l = neighbour_facts [OF assms(3) d(7)]
  have small: "int (width r) < capacity (leaf_max_size st) (internal_max_size st) r div 2" using assms(4) by simp
  have pos: "h \<noteq> 0 \<Longrightarrow> 0 < width l" "h \<noteq> 0 \<Longrightarrow> 0 < width r"
    using width_pos [OF d(2) _ d(6)] width_pos [OF d(2) _ d(7)] assms(4) l by auto
  have b: "beside ls l r (root_of r) (root_of l) (int (length ls) + 1)" by (simp add: beside_def)
  have nz: "int (length ls) + 1 \<noteq> 0" by simp
  let ?nts = "\<lambda>idx. if ?m then do { t3 \<leftarrow> Coalesce (root_of l) (root_of r) p (int (length ls) + 1) (pin (root_of l) (pin p st));
                       CoalesceOrRedistribute p t3 }
        else do { t3 \<leftarrow> Redistribute (root_of l) (root_of r) (if idx = 0 then 0 else 1) (pin (root_of l) (pin p st)); Some (False, unpin_page p t3) }"
  have nts: "CoalesceOrRedistribute (root_of r) st = ?nts (int (length ls) + 1)"
    using CoR_right [OF d(1) small refl] nz by simp
  have ts: "TS_CoalesceOrRedistribute (root_of r) s =
       (if ?m then do { s3 \<leftarrow> TS_Coalesce (root_of l) (root_of r) p (int (length ls) + 1) s2; TS_CoalesceOrRedistribute p s3 }
        else do { s3 \<leftarrow> TS_Redistribute (root_of l) (root_of r) (if int (length ls) + 1 = (0::int) then 0 else 1) s2;
                  Some (False, with_tree (unpin_page p) s3) })"
    if "tree s = st" "s2 = s\<lparr>tree := pin (root_of l) (pin p st), calls := calls s @ [Acquire Exclusive (PageLatch (root_of l))]\<rparr>"
    for s s2 using TS_CoR_right [OF d(1) small that] nz by simp
  have merge: "\<exists>st3 t. Coalesce (root_of l) (root_of r) p (int (length ls) + 1) (pin (root_of l) (pin p st)) = Some st3 \<and>
         climb_at st3 c (Suc h) t \<and> root_of t = p \<and> comparator st3 = cmp \<and>
         pins st3 = drop_pin (root_of r) (drop_pin (root_of l) (pins (pin (root_of l) (pin p st))))" if ?m
  proof -
    have "int (width l + width r) < capacity (leaf_max_size st) (internal_max_size st) l"
      "capacity (leaf_max_size st) (internal_max_size st) l div 2 \<le> int (width l) \<or>
       capacity (leaf_max_size st) (internal_max_size st) l div 2 \<le> int (width r)"
      using that l by (simp_all add: add.commute)
    note m = this
    obtain st3 t where "Coalesce (root_of l) (root_of r) p (int (length ls) + 1) (pin (root_of l) (pin p st)) = Some st3"
      "climb_at st3 c (Suc h) t" "root_of t = p" "comparator st3 = cmp"
      "pins st3 = drop_pin (root_of r) (drop_pin (root_of l) (pins (pin (root_of l) (pin p st))))"
      using Coalesce_climbs [OF assms(1,2) pos(2,1) m, of "root_of l"] by metis
    then show ?thesis by blast
  qed
  show ?thesis
    unfolding climbs_def
  proof (intro allI impI)
    fix s :: "('k, 'v) ts_state" and res t'
    assume run: "tree s = st" "CoalesceOrRedistribute (root_of r) st = Some (res, t')"
    show "\<exists>s' t''. TS_CoalesceOrRedistribute (root_of r) s = Some (res, s') \<and> twin (root_page_id st) t' t'' \<and>
        remove_outcome (sib_pids ((p, ls @ [(k1, l)], k2, rs) # c)) s t'' s'"
      by (rule climbs_level [OF assms(1,2) b nts ts merge IH _ _ run(2,1)]) auto
  qed
qed

lemma climb_run:
  fixes st :: "('k, 'v) bpt"
  assumes "climb_at st c h t" and "comparator st = cmp"
  shows "climbs st c t"
  using assms
proof (induction rule: climb_induct)
  case (left st c h p k1 l k2 r rs)
  then show ?case by (rule climbs_left)
next
  case (right st c h p ls k1 l k2 r rs)
  then show ?case by (rule climbs_right)
qed (fact climbs_full climbs_root)+

end

end
