(* ===== verification/TSDeleteEnd.thy ===== *)
theory TSDeleteEnd
  imports TSDeleteClimb
begin

text \<open>
  The removals that a transaction calls: \<^verbatim>\<open>Remove\<close>, \<^verbatim>\<open>TentativeRemove\<close> and \<^verbatim>\<open>OptimisticRemove\<close>. The rows
  come out right in every case; the latches come out even as long as the root stays.
\<close>

section \<open>Removal with exclusive latches\<close>

lemma unlatch_total:
  "get_node p (tree s) \<noteq> None \<Longrightarrow> \<exists>cs. UnlatchPage p tt s = Some (s\<lparr>calls := calls s @ cs\<rparr>)"
  by (auto simp: UnlatchPage_def latch_call_def UnlockRoot_def Let_def split: if_splits)

lemma release_pages_total:
  assumes "\<forall>p \<in> set ps. get_node p (tree s) \<noteq> None"
  shows "\<exists>cs. release_pages ps tt s = Some (s\<lparr>tree := unpins ps (tree s), calls := calls s @ cs\<rparr>)"
  using assms
proof (induction ps arbitrary: s)
  case Nil
  show ?case by (intro exI [of _ "[]"]) simp
next
  case (Cons p ps)
  obtain cs where cs: "UnlatchPage p tt s = Some (s\<lparr>calls := calls s @ cs\<rparr>)"
    using unlatch_total [of p s tt] Cons.prems by auto
  let ?s = "s\<lparr>tree := unpin_page p (tree s), calls := calls s @ cs\<rparr>"
  have "\<forall>p \<in> set ps. get_node p (tree ?s) \<noteq> None" using Cons.prems by (simp add: get_node_def)
  then obtain ds where "release_pages ps tt ?s = Some (?s\<lparr>tree := unpins ps (tree ?s), calls := calls ?s @ ds\<rparr>)"
    using Cons.IH by blast
  then show ?case
    using cs by (intro exI [of _ "cs @ ds"]) (simp add: with_tree_def ts_update_commute)
qed

text \<open>The end of a removal: the path is let go of, whatever has become of the root.\<close>

lemma finish_total:
  assumes "\<forall>p \<in> set (P @ [q]). get_node p (tree s) \<noteq> None" and "page_set s = P"
  shows "\<exists>cs s4. ReleasePages tt s = Some s4 \<and>
     UnlatchPage q tt s4 = Some (s\<lparr>tree := unpins P (tree s), calls := calls s @ cs, page_set := []\<rparr>)"
proof -
  obtain cs where "release_pages P tt s = Some (s\<lparr>tree := unpins P (tree s), calls := calls s @ cs\<rparr>)"
    using release_pages_total [of P s tt] assms(1) by auto
  then have rel: "ReleasePages tt s = Some (s\<lparr>tree := unpins P (tree s), calls := calls s @ cs, page_set := []\<rparr>)"
    by (simp add: ReleasePages_def assms(2))
  let ?s4 = "s\<lparr>tree := unpins P (tree s), calls := calls s @ cs, page_set := []\<rparr>"
  have "get_node q (tree ?s4) \<noteq> None" using assms(1) by (simp add: get_node_def)
  then obtain ds where "UnlatchPage q tt ?s4 = Some (?s4\<lparr>calls := calls ?s4 @ ds\<rparr>)"
    using unlatch_total by blast
  then show ?thesis using rel by (intro exI [of _ "cs @ ds"] exI [of _ ?s4]) (simp add: ts_update_commute)
qed

lemma tree_inv_pinned:
  assumes "tree_inv st g" and "set P \<subseteq> set (pids g)"
  shows "tree_inv (pinned P st) g"
  unfolding pinned_def
proof (rule tree_inv_pins [OF assms(1)], intro allI impI)
  fix p assume p: "disk_next st \<le> p"
  then have "p \<notin> set P" using assms storedD(4) [of st "[]" "[g]" p] by (auto simp: tree_inv_def)
  then show "pins st p + count_list P p = 0" using tree_inv_unused_pins [OF assms(1) p] by (simp add: count_list_0_iff)
qed

lemma DeletePages_none: "page_set s = [] \<Longrightarrow> DeletePages s = s\<lparr>deleted_page_set := []\<rparr>"
  by (simp add: DeletePages_def)

context key_comparator
begin

lemma removal_at_leaf:
  fixes st :: "('k, 'v) bpt"
  assumes "leaf_found cmp st g key tt c q es P" and "tree_inv st g" and "comparator st = cmp"
    and "sizes_ok st"
    and "pages st q = Some (LeafNode l)" and "leaf_array l = es" and "key \<in> fst ` set es"
    and "tree s = put_page q (LeafNode (l\<lparr>leaf_array := al_delete cmp key es\<rparr>)) (pinned (P @ [q]) st)"
  obtains b s2 t' where "TS_CoalesceOrRedistribute q s = Some (b, s2)" "remove_outcome (sib_pids c) s t' s2"
    "holds t' (al_delete cmp key (entries g))" "evolves st t'" "pins t' = (\<lambda>x. pins st x + count_list P x)"
proof -
  let ?st0 = "pinned P st" and ?es = "al_delete cmp key es"
  note d = leaf_foundD [OF assms(1-3)]
  have "set P \<subseteq> set (pids g)"
    using assms(1) frames_in [of P c] by (auto simp: leaf_found_def set_pids_plug)
  then have inv: "tree_inv ?st0 (plug c (GLeaf q es))" using tree_inv_pinned [OF assms(2)] d(1) by simp
  have t1: "tree s = put_page q (LeafNode (l\<lparr>leaf_array := ?es\<rparr>)) (pin q ?st0)"
    by (simp add: assms(8) pin_pinned)
  have st0: "comparator ?st0 = cmp" "sizes_ok ?st0" "pages ?st0 q = Some (LeafNode l)"
    using assms(3-5) by (simp_all add: sizes_ok_def)
  note rc = Remove_climbs [OF inv st0 assms(6,7) t1]
  from CoalesceOrRedistribute_ok [OF rc(1,2)] obtain b t' where t': "CoalesceOrRedistribute q (tree s) = Some (b, t')"
    "holds t' (ctx_left c @ ?es @ ctx_right c)" "evolves (tree s) t'" "pins t' = drop_pin q (pins (tree s))"
    by (auto simp: CoR_result_def)
  obtain s2 t'' where s2: "TS_CoalesceOrRedistribute q s = Some (b, s2)" "twin (root_page_id st) t' t''"
    "remove_outcome (sib_pids c) s t'' s2"
    using climb_run [OF rc(1,2), unfolded climbs_def, rule_format, of s] t'(1) by (auto simp: assms(8))
  have root: "root_page_id st \<noteq> 0" using tree_inv_root_low [OF assms(2)] by simp
  have "ctx_left c @ ?es @ ctx_right c = al_delete cmp key (entries g)"
    using al_delete_path [OF d(3,5), of es] by (simp add: d(1) entries_plug)
  moreover have "evolves st t'"
    using evolves_trans [OF rc(3) t'(3)] by (simp add: evolves_def)
  moreover have "pins t' = (\<lambda>x. pins st x + count_list P x)"
    by (auto simp: t'(4) assms(8) drop_pin_def fun_eq_iff)
  ultimately show thesis
    using that [OF s2(1,3)] holds_twin [OF t'(2) s2(2) root] evolves_twin [OF _ s2(2) root, of st] twin_fields(1) [OF s2(2)]
    by simp
qed

lemma sib_pids_subset: "sib_pids c \<subseteq> set (ctx_pids c)"
  by (induction c rule: ctx_pids.induct) auto

lemma sib_pids_frames: "distinct (ctx_pids c) \<Longrightarrow> fst ` set c \<inter> sib_pids c = {}"
proof (induction c rule: ctx_pids.induct)
  case (2 p ls k rs c)
  have "p \<notin> set (pids_of ls) \<union> set (pids_of rs) \<union> set (ctx_pids c)"
    "(set (pids_of ls) \<union> set (pids_of rs)) \<inter> set (ctx_pids c) = {}" "fst ` set c \<inter> sib_pids c = {}"
    using 2 by auto
  then have "insert p (fst ` set c) \<inter> (set (pids_of ls) \<union> set (pids_of rs) \<union> sib_pids c) = {}"
    using sib_pids_subset [of c] frames_subset [of c] by blast
  then show ?case by simp
qed simp

lemma path_apart:
  assumes "stored st c [GLeaf q es]" and "set P \<subseteq> fst ` set c" and "x \<in> sib_pids c"
  shows "x \<notin> set (P @ [q])"
  using storedD(3) [OF assms(1)] sib_pids_frames [of c] sib_pids_subset [of c] assms(2,3) by auto

lemma leaf_found_low:
  assumes "leaf_found cmp st g key tt c q es P" and "tree_inv st g"
  shows "set (P @ [q]) \<subseteq> {p. p < disk_next st}"
proof -
  have "set (P @ [q]) \<subseteq> set (pids g)"
    using assms(1) frames_in [of P c] by (auto simp: leaf_found_def set_pids_plug)
  then show ?thesis using assms(2) storedD(4) [of st "[]" "[g]"] by (auto simp: tree_inv_def)
qed

text \<open>The pages of the path are let go of: first when the root has stayed.\<close>

lemma finish_same_root:
  fixes st :: "('k, 'v) bpt"
  assumes "leaf_found cmp st g key DELETE c q es P" and "tree_inv st g" and "comparator st = cmp"
    and "tame st t'" and "holds t' es'" and "root_page_id t' = root_page_id st"
    and "tree s2 = t'" and "page_set s2 = P" and "quiet (sib_pids c) tr"
  obtains s4 cs where "ReleasePages DELETE s2 = Some s4"
    "UnlatchPage q DELETE s4 = Some (s2\<lparr>tree := unpins P t', calls := calls s2 @ cs, page_set := []\<rparr>)"
    "run_calls (tr @ cs) (latched DELETE st None (set (P @ [q]))) = Some Map.empty"
proof -
  let ?A = "set (P @ [q])"
  note d = leaf_foundD [OF assms(1-3)]
  have "root_page_id t' \<noteq> INVALID_PAGE_ID" using tree_inv_root_low [OF assms(2)] assms(6) by simp
  then obtain g' where g': "tree_inv t' g'" using holds_tree [OF assms(5)] by blast
  have ok: "path_ok (tree s2) ?A"
    using path_ok_after [OF d(6) leaf_found_low [OF assms(1,2)] tame_nodes [OF assms(4)] g'] assms(6,7) by simp
  obtain s4 where s4: "ReleasePages DELETE s2 = Some s4"
    "UnlatchPage q DELETE s4 = Some (s2\<lparr>tree := unpins P (tree s2),
       calls := calls s2 @ concat (map (let_go DELETE (tree s2)) (P @ [q])), page_set := []\<rparr>)"
    "run_calls (concat (map (let_go DELETE (tree s2)) (P @ [q]))) (latched DELETE (tree s2) None ?A) = Some Map.empty"
    using release_path [OF ok assms(8) d(7), of DELETE] by metis
  have "set P \<subseteq> fst ` set c" using assms(1) by (simp add: leaf_found_def)
  then have "\<forall>x \<in> sib_pids c. latched DELETE st None ?A (PageLatch x) = None"
    using path_apart [OF d(2)] by simp
  then have "run_calls tr (latched DELETE st None ?A) = Some (latched DELETE st None ?A)"
    using assms(9) unfolding quiet_def by blast
  moreover have "latched DELETE (tree s2) = latched DELETE st"
    using assms(6,7) by (intro latched_writing) simp_all
  ultimately have "run_calls (tr @ concat (map (let_go DELETE (tree s2)) (P @ [q]))) (latched DELETE st None ?A) = Some Map.empty"
    using s4(3) by (intro run_calls_append_Some) simp_all
  then show thesis using that s4(1,2) assms(7) by simp
qed

lemma finish_removal:
  fixes st :: "('k, 'v) bpt"
  assumes "leaf_found cmp st g key DELETE c q es P" and "tree_inv st g" and "comparator st = cmp"
    and "allocated st" and "tame st (tree s1)" and "page_set s1 = P"
    and "remove_outcome (sib_pids c) s1 t' s2" and "holds t' es'" and "evolves st t'"
    and "pins t' = (\<lambda>x. pins st x + count_list P x)"
  obtains T s4 cs ds where "ReleasePages DELETE s2 = Some s4"
    "UnlatchPage q DELETE s4 = Some (s1\<lparr>tree := T, calls := calls s1 @ cs, page_set := [], deleted_page_set := ds\<rparr>)"
    "ts_updated st es' T"
    "root_page_id T = root_page_id st \<longrightarrow> run_calls cs (latched DELETE st None (set (P @ [q]))) = Some Map.empty"
proof -
  note d = leaf_foundD [OF assms(1-3)]
  have root1: "root_page_id (tree s1) = root_page_id st" using assms(5) by (simp add: tame_def)
  have low: "0 < disk_next st" using tree_inv_root_low [OF assms(2)] by simp
  have updated: "ts_updated st es' T" if "allocated T" "T = t'\<lparr>pins := pins T\<rparr>" "root_pin_moved st T" for T
    using ts_updatedI [OF assms(8,9) that] tree_inv_unused_pins [OF assms(2)] by blast
  obtain tr ds where out: "quiet (sib_pids c) tr"
    "root_page_id t' = root_page_id st \<and> tame (tree s1) t' \<and>
      s2 = s1\<lparr>tree := t', calls := calls s1 @ tr, deleted_page_set := ds\<rparr> \<or>
      root_page_id t' \<noteq> root_page_id st \<and> kept (tree s1) t' \<and>
      s2 = s1\<lparr>tree := t'\<lparr>pins := move_root_pin (root_page_id st) (root_page_id t') (pins t')\<rparr>,
             calls := calls s1 @ tr @ [Release Exclusive RootLatch], deleted_page_set := ds\<rparr>"
    using assms(7) unfolding remove_outcome_def root1 by blast
  show thesis
  proof (cases "root_page_id t' = root_page_id st")
    case True
    then have s2: "tame (tree s1) t'" "s2 = s1\<lparr>tree := t', calls := calls s1 @ tr, deleted_page_set := ds\<rparr>"
      using out(2) by blast+
    have t': "tame st t'" by (rule tame_trans [OF assms(5) s2(1)])
    have "tree s2 = t'" "page_set s2 = P" using assms(6) by (simp_all add: s2(2))
    from finish_same_root [OF assms(1-3) t' assms(8) True this out(1)] obtain s4 cs where
      s4: "ReleasePages DELETE s2 = Some s4"
      "UnlatchPage q DELETE s4 = Some (s2\<lparr>tree := unpins P t', calls := calls s2 @ cs, page_set := []\<rparr>)"
      "run_calls (tr @ cs) (latched DELETE st None (set (P @ [q]))) = Some Map.empty" by metis
    have "allocated (unpins P t')"
      using allocated_kept [OF assms(4) nodes_tame_kept [OF tame_nodes [OF t']] low] by (simp add: allocated_def)
    moreover have "unpins P t' = t'\<lparr>pins := pins (unpins P t')\<rparr>" by (intro bpt.equality) simp_all
    moreover have "root_pin_moved st (unpins P t')"
      using True by (simp add: root_pin_moved_def pins_unpins assms(10))
    ultimately have "ts_updated st es' (unpins P t')" by (rule updated)
    moreover have "s2\<lparr>tree := unpins P t', calls := calls s2 @ cs, page_set := []\<rparr>
        = s1\<lparr>tree := unpins P t', calls := calls s1 @ tr @ cs, page_set := [], deleted_page_set := ds\<rparr>"
      by (simp add: s2(2) ts_update_commute)
    ultimately show thesis using that [of s4 ds "tr @ cs" "unpins P t'"] s4 by simp
  next
    case False
    let ?T = "t'\<lparr>pins := move_root_pin (root_page_id st) (root_page_id t') (pins t')\<rparr>"
    have s2: "kept (tree s1) t'" "s2 = s1\<lparr>tree := ?T,
             calls := calls s1 @ tr @ [Release Exclusive RootLatch], deleted_page_set := ds\<rparr>"
      using out(2) False by blast+
    have kept: "kept st t'" by (rule all_kept_trans [OF nodes_tame_kept [OF tame_nodes [OF assms(5)]] s2(1)])
    have "get_node p t' \<noteq> None" if "p \<in> set (P @ [q])" for p
    proof -
      have "p < disk_next st" using leaf_found_low [OF assms(1,2)] that by auto
      moreover have "get_node p st \<noteq> None" using d(6) that by (auto simp: path_ok_def)
      ultimately show ?thesis using kept by (simp add: kept_def)
    qed
    then have "\<forall>p \<in> set (P @ [q]). get_node p (tree s2) \<noteq> None" by (simp add: s2(2) get_node_def)
    moreover have "page_set s2 = P" using assms(6) by (simp add: s2(2))
    ultimately obtain cs s4 where s4: "ReleasePages DELETE s2 = Some s4"
      "UnlatchPage q DELETE s4 = Some (s2\<lparr>tree := unpins P (tree s2), calls := calls s2 @ cs, page_set := []\<rparr>)"
      using finish_total by blast
    have "allocated (unpins P ?T)"
      using allocated_kept [OF assms(4) kept low] by (simp add: allocated_def)
    moreover have "unpins P ?T = t'\<lparr>pins := pins (unpins P ?T)\<rparr>" by (intro bpt.equality) simp_all
    moreover have "root_pin_moved st (unpins P ?T)"
      using False pins_moved_back [OF False, of "pins st" P] by (simp add: root_pin_moved_def pins_unpins assms(10))
    ultimately have "ts_updated st es' (unpins P ?T)" by (rule updated)
    moreover have "s2\<lparr>tree := unpins P (tree s2), calls := calls s2 @ cs, page_set := []\<rparr>
        = s1\<lparr>tree := unpins P ?T, calls := calls s1 @ tr @ [Release Exclusive RootLatch] @ cs,
            page_set := [], deleted_page_set := ds\<rparr>"
      by (simp add: s2(2) ts_update_commute)
    ultimately show thesis
      using that [of s4 ds "tr @ [Release Exclusive RootLatch] @ cs" "unpins P ?T"] s4 False by simp
  qed
qed

theorem TS_Remove_ok:
  fixes s :: "('k, 'v) ts_state"
  assumes "holds (tree s) es" and "comparator (tree s) = cmp" and "allocated (tree s)"
    and "page_set s = []" and "deleted_page_set s = []"
  obtains T tr where "TS_Remove key isCalled s = Some (s\<lparr>tree := T, calls := calls s @ tr\<rparr>)"
    "ts_updated (tree s) (al_delete cmp key es) T"
    "root_page_id T = root_page_id (tree s) \<longrightarrow>
       run_calls tr (if isCalled then Map.empty else [TaskLatch \<mapsto> Exclusive]) = Some Map.empty"
proof (cases "root_page_id (tree s) = INVALID_PAGE_ID")
  case True
  have "es = []" using holds_empty_tree [OF assms(1) True] .
  then have "ts_updated (tree s) (al_delete cmp key es) (tree s)"
    using assms(1,3) by (simp add: ts_updated_def root_pin_moved_def)
  moreover have "TS_Remove key isCalled s
      = Some (s\<lparr>calls := calls s @ prologue DELETE False (\<not> isCalled) @ [Release (root_mode DELETE) RootLatch]\<rparr>)"
    using True by (simp add: TS_Remove_def CrabToLeaf_empty)
  moreover have "run_calls (prologue DELETE False (\<not> isCalled) @ [Release (root_mode DELETE) RootLatch])
      (if isCalled then Map.empty else [TaskLatch \<mapsto> Exclusive]) = Some Map.empty"
    by (simp add: prologue_def root_mode_def fun_upd_twist map_upd_None)
  ultimately show thesis
    using that [of "prologue DELETE False (\<not> isCalled) @ [Release (root_mode DELETE) RootLatch]" "tree s"] by simp
next
  case False
  define st where "st = tree s"
  let ?h = "if isCalled then Map.empty else [TaskLatch \<mapsto> Exclusive]"
  obtain g where g: "tree_inv st g" "es = entries g"
    using holds_tree [OF assms(1) False] by (auto simp: st_def)
  have inv: "comparator st = cmp" "sizes_ok st" "allocated st"
    using assms(1-3) by (simp_all add: st_def holds_def)
  have pro: "run_calls (prologue DELETE False (\<not> isCalled)) ?h
      = Some ((latched DELETE st None {})(RootLatch \<mapsto> root_mode DELETE))"
    by (simp add: prologue_def latched_empty fun_upd_twist map_upd_None)
  obtain c q les P tr where f:
    "CrabToLeaf key DELETE False False (\<not> isCalled) s
       = Some (q, s\<lparr>tree := pinned (P @ [q]) st, calls := calls s @ tr, page_set := P\<rparr>)"
    "run_calls tr ?h = Some (latched DELETE st None (set (P @ [q])))"
    "leaf_found cmp st g key DELETE c q les P"
    using CrabToLeaf_ok [OF g(1) inv(1) st_def [symmetric] assms(4) pro] by metis
  note d = leaf_foundD [OF f(3) g(1) inv(1)]
  obtain l where l: "pages st q = Some (LeafNode l)" "leaf_array l = les" "0 < q" using stored_leaf [OF d(2)] by metis
  have leaf: "get_leaf q (pinned (P @ [q]) st) = Some l" using l(1) by (intro get_leaf_eq) simp
  have key: "key \<in> fst ` set es \<longleftrightarrow> key \<in> fst ` set les"
    using keys_path [OF d(3,5)] by (simp add: g(2) d(1) entries_plug)
  have keep: "s\<lparr>tree := T, calls := cs, page_set := [], deleted_page_set := []\<rparr> = s\<lparr>tree := T, calls := cs\<rparr>" for T cs
    using assms(4,5) by simp
  show thesis
  proof (cases "key \<in> fst ` set les")
    case True
    let ?n = "LeafNode (l\<lparr>leaf_array := al_delete cmp key les\<rparr>)"
    let ?s1 = "s\<lparr>tree := put_page q ?n (pinned (P @ [q]) st), calls := calls s @ tr, page_set := P\<rparr>"
    obtain b s2 t' where r: "TS_CoalesceOrRedistribute q ?s1 = Some (b, s2)" "remove_outcome (sib_pids c) ?s1 t' s2"
      "holds t' (al_delete cmp key (entries g))" "evolves st t'" "pins t' = (\<lambda>x. pins st x + count_list P x)"
      using removal_at_leaf [OF f(3) g(1) inv(1,2) l(1,2) True, of ?s1] by auto
    have "tame st (pinned (P @ [q]) st)" by (rule tame_same_pages) simp_all
    moreover have "tame (pinned (P @ [q]) st) (tree ?s1)" using l(1) by (auto intro: tame_put_leaf)
    ultimately have "tame st (tree ?s1)" by (rule tame_trans)
    moreover have "page_set ?s1 = P" by simp
    ultimately obtain T s4 cs ds where e: "ReleasePages DELETE s2 = Some s4"
      "UnlatchPage q DELETE s4 = Some (?s1\<lparr>tree := T, calls := calls ?s1 @ cs, page_set := [], deleted_page_set := ds\<rparr>)"
      "ts_updated st (al_delete cmp key (entries g)) T"
      "root_page_id T = root_page_id st \<longrightarrow> run_calls cs (latched DELETE st None (set (P @ [q]))) = Some Map.empty"
      using finish_removal [OF f(3) g(1) inv(1,3) _ _ r(2-5)] by metis
    have rem: "LeafPage_RemoveAndDeleteRecord cmp key l = (int (length les) - 1, l\<lparr>leaf_array := al_delete cmp key les\<rparr>)"
      "int (length les) - 1 \<noteq> -1"
      using LeafPage_RemoveAndDeleteRecord_sorted [of l key] d(4) True l(2) by auto
    have "TS_Remove key isCalled s = Some (s\<lparr>tree := T, calls := calls s @ tr @ cs\<rparr>)"
      using f(1) l(3) leaf inv(1) rem r(1) e(1,2) keep
      by (simp add: TS_Remove_def with_tree_def Let_def ts_update_commute DeletePages_none)
    moreover have "root_page_id T = root_page_id st \<longrightarrow> run_calls (tr @ cs) ?h = Some Map.empty"
      using run_calls_append_Some [OF f(2)] e(4) by blast
    ultimately show thesis using that [of "tr @ cs" T] e(3) g(2) by (simp add: st_def)
  next
    case absent: False
    let ?s1 = "s\<lparr>tree := pinned P st, calls := calls s @ tr, page_set := P\<rparr>"
    have "path_ok (tree ?s1) (set (P @ [q]))" using d(6) path_ok_cong [of "pinned P st" st] by simp
    from release_path [OF this _ d(7), of DELETE] obtain s4 where s4: "ReleasePages DELETE ?s1 = Some s4"
      "UnlatchPage q DELETE s4 = Some (?s1\<lparr>tree := unpins P (tree ?s1),
         calls := calls ?s1 @ concat (map (let_go DELETE (tree ?s1)) (P @ [q])), page_set := []\<rparr>)"
      "run_calls (concat (map (let_go DELETE (tree ?s1)) (P @ [q]))) (latched DELETE (tree ?s1) None (set (P @ [q]))) = Some Map.empty"
      by auto
    let ?go = "concat (map (let_go DELETE (tree ?s1)) (P @ [q]))"
    have un: "unpin_page q (pinned (P @ [q]) st) = pinned P st" "unpins P (pinned P st) = st"
      using unpins_pinned [of P "[]" st] by (auto simp: fun_eq_iff intro!: bpt.equality)
    have rem: "LeafPage_RemoveAndDeleteRecord cmp key l = (-1, l)"
      using LeafPage_RemoveAndDeleteRecord_sorted [of l key] d(4) absent l(2) by simp
    have "TS_Remove key isCalled s = Some (s\<lparr>tree := st, calls := calls s @ tr @ ?go\<rparr>)"
      using f(1) l(3) leaf inv(1) rem un s4(1,2) keep
      by (simp add: TS_Remove_def with_tree_def Let_def ts_update_commute DeletePages_none)
    moreover have "latched DELETE (tree ?s1) = latched DELETE st" by (intro latched_writing) simp_all
    then have "run_calls (tr @ ?go) ?h = Some Map.empty"
      using s4(3) by (intro run_calls_append_Some [OF f(2)]) simp
    moreover have "ts_updated st (al_delete cmp key es) st"
      using assms(1) inv(3) absent key by (simp add: ts_updated_def root_pin_moved_def al_delete_absent st_def)
    ultimately show thesis using that [of "tr @ ?go" st] by (simp add: st_def)
  qed
qed

end

section \<open>The attempt with shared latches\<close>

definition tentative_remove :: "('k \<Rightarrow> 'k \<Rightarrow> int) \<Rightarrow> 'k \<Rightarrow> ('k \<times> 'v) list \<Rightarrow> ('k, 'v) bpt \<Rightarrow> delete_state \<Rightarrow>
    ('k, 'v) bpt \<Rightarrow> bool" where
  "tentative_remove cmp key es t flag t' \<longleftrightarrow>
     (if flag = DELETED then ts_updated t (al_delete cmp key es) t' \<and> root_page_id t' = root_page_id t
      else t' = t \<and> (flag \<noteq> DELETE_UNSAFE \<longrightarrow> key \<notin> fst ` set es))"

text \<open>A leaf is written and let go of.\<close>

lemma unlatch_put_leaf:
  assumes "pages (tree s0) q = Some (LeafNode l)" and "parent_page_id l' = parent_page_id l" and "path_ok (tree s0) {q}"
  shows "UnlatchPage q tt (s\<lparr>tree := put_page q (LeafNode l') (pinned [q] (tree s0)), calls := cs, page_set := []\<rparr>)
     = Some (s\<lparr>tree := put_page q (LeafNode l') (pinned [q] (tree s0)), calls := cs @ let_go tt (tree s0) q, page_set := []\<rparr>)"
proof -
  let ?st = "tree s0"
  let ?s2 = "s\<lparr>tree := put_page q (LeafNode l') (pinned [q] ?st), calls := cs, page_set := []\<rparr>"
  have ok: "path_ok (pinned [q] ?st) {q}" using assms(3) path_ok_cong [of "pinned [q] ?st" ?st] by simp
  have "path_ok (tree ?s2) {q}"
    using path_ok_put_leaf [OF ok _ assms(2)] assms(1) by simp
  moreover have "let_go tt (put_page q (LeafNode l') (pinned [q] ?st)) = let_go tt ?st"
    using let_go_put_leaf [of "pinned [q] ?st" q l tt l'] assms(1) let_go_cong [of "pinned [q] ?st" ?st tt]
    by (auto simp: fun_eq_iff)
  ultimately show ?thesis using UnlatchPage_eq [of ?s2 q tt] by (simp add: ts_update_commute)
qed

lemma unpin_put_pinned: "unpin_page q (put_page q n (pinned [q] t)) = put_page q n t"
  by (intro bpt.equality) (auto simp: fun_eq_iff)

context key_comparator
begin

lemma delete_in_place:
  fixes st :: "('k, 'v) bpt"
  assumes "leaf_found cmp st g key tt c q es P" and "tree_inv st g" and "comparator st = cmp"
    and "sizes_ok st" and "allocated st" and "pages st q = Some (LeafNode l)" and "leaf_array l = es"
    and "key \<in> fst ` set es" and "IsDeleteSafe (LeafNode l :: ('k, 'v) page)"
  shows "ts_updated st (al_delete cmp key (entries g))
     (put_page q (LeafNode (l\<lparr>leaf_array := al_delete cmp key es\<rparr>)) st)"
proof -
  let ?n = "LeafNode (l\<lparr>leaf_array := al_delete cmp key es\<rparr>) :: ('k, 'v) page"
  note d = leaf_foundD [OF assms(1-3)]
  note rc = Remove_climbs [OF assms(2) [unfolded d(1)] assms(3,4,6-8) refl]
  have un: "unpin_page q (put_page q ?n (pin q st)) = put_page q ?n st"
    by (simp add: unpin_page_def put_page_def pin_def)
  have "node_min_size ?n \<le> node_size ?n"
    using assms(7,9) rc(5) by (simp add: IsDeleteSafe_def LeafPage_GetSize_def GetMinSize_def)
  then have "CoalesceOrRedistribute q (put_page q ?n (pin q st)) = Some (True, put_page q ?n st)"
    by (subst CoalesceOrRedistribute.simps) (simp add: get_node_eq un)
  then have "holds (put_page q ?n st) (ctx_left c @ al_delete cmp key es @ ctx_right c)"
    "evolves (put_page q ?n (pin q st)) (put_page q ?n st)"
    using CoalesceOrRedistribute_ok [OF rc(1,2)] by (auto simp: CoR_result_def)
  moreover have "ctx_left c @ al_delete cmp key es @ ctx_right c = al_delete cmp key (entries g)"
    using al_delete_path [OF d(3,5), of es] by (simp add: d(1) entries_plug)
  ultimately show ?thesis
    using evolves_trans [OF rc(3)] allocated_put [OF assms(5,6)] by (simp add: ts_updated_def root_pin_moved_def)
qed

lemma remove_attempt:
  fixes st :: "('k, 'v) bpt"
  assumes "leaf_found cmp st g key OPTIMISTIC_DELETE c q es P" and "tree_inv st g" and "comparator st = cmp"
    and "sizes_ok st" and "allocated st" and "pages st q = Some (LeafNode l)" and "leaf_array l = es"
  obtains flag l' where "(if \<not> IsDeleteSafe (LeafNode l :: ('k, 'v) page) then (DELETE_UNSAFE, l)
          else let (size, l') = LeafPage_RemoveAndDeleteRecord cmp key l
               in (if size = -1 then NO_ENTRY else DELETED, l')) = (flag, l')"
    "parent_page_id l' = parent_page_id l" "flag = DELETED \<or> l' = l"
    "tentative_remove cmp key (entries g) st flag (put_page q (LeafNode l') st)"
proof -
  let ?l = "l\<lparr>leaf_array := al_delete cmp key es\<rparr>"
  note d = leaf_foundD [OF assms(1-3)]
  have same: "put_page q (LeafNode l) st = st" using assms(6) by (simp add: put_page_def fun_upd_idem)
  show thesis
  proof (cases "IsDeleteSafe (LeafNode l :: ('k, 'v) page)")
    case False
    then show thesis using that [of DELETE_UNSAFE l] same by (simp add: tentative_remove_def)
  next
    case safe: True
    have sorted: "sorted_keys cmp (leaf_array l)" using d(4) assms(7) by simp
    show thesis
    proof (cases "key \<in> fst ` set es")
      case True
      then have "LeafPage_RemoveAndDeleteRecord cmp key l = (int (length es) - 1, ?l)" "int (length es) - 1 \<noteq> -1"
        using LeafPage_RemoveAndDeleteRecord_sorted [OF sorted, of key] assms(7) by auto
      then show thesis
        using that [of DELETED ?l] safe delete_in_place [OF assms True safe] by (simp add: tentative_remove_def)
    next
      case False
      then have "LeafPage_RemoveAndDeleteRecord cmp key l = (-1, l)"
        using LeafPage_RemoveAndDeleteRecord_sorted [OF sorted, of key] assms(7) by simp
      moreover have "key \<notin> fst ` set (entries g)" using keys_path [OF d(3,5)] False by (simp add: d(1) entries_plug)
      ultimately show thesis using that [of NO_ENTRY l] safe same by (simp add: tentative_remove_def)
    qed
  qed
qed

lemma TentativeRemove_at_leaf:
  fixes s :: "('k, 'v) ts_state"
  assumes "pages (tree s) q = Some (LeafNode l)" and "parent_page_id l' = parent_page_id l"
    and "path_ok (tree s) {q}" and "page_set s = []" and "flag = DELETED \<or> l' = l"
    and "CrabToLeaf key OPTIMISTIC_DELETE False False True s
       = Some (q, s\<lparr>tree := pinned [q] (tree s), calls := calls s @ tr, page_set := []\<rparr>)"
    and "q \<noteq> INVALID_PAGE_ID"
    and "(if \<not> IsDeleteSafe (LeafNode l :: ('k, 'v) page) then (DELETE_UNSAFE, l)
          else let (size, l') = LeafPage_RemoveAndDeleteRecord (comparator (tree s)) key l
               in (if size = -1 then NO_ENTRY else DELETED, l')) = (flag, l')"
  shows "TentativeRemove key s = Some (flag, s\<lparr>tree := put_page q (LeafNode l') (tree s),
     calls := calls s @ tr @ let_go OPTIMISTIC_DELETE (tree s) q\<rparr>)"
proof -
  have leaf: "get_leaf q (pinned [q] (tree s)) = Some l" using assms(1) by (intro get_leaf_eq) simp
  have keep: "s\<lparr>tree := T, calls := cs, page_set := []\<rparr> = s\<lparr>tree := T, calls := cs\<rparr>" for T cs
    using assms(4) by simp
  have un: "UnpinLeaf (flag = DELETED) q l (s\<lparr>tree := put_page q (LeafNode l') (pinned [q] (tree s)), calls := cs\<rparr>)
      = s\<lparr>tree := put_page q (LeafNode l') (tree s), calls := cs\<rparr>" for cs
    unfolding UnpinLeaf_kept [OF assms(5)] by (simp only: unpin_put_pinned)
  show ?thesis
    using assms(6-8) leaf unlatch_put_leaf [OF assms(1-3), where tt = OPTIMISTIC_DELETE and s = s and cs = "calls s @ tr"]
      keep
    by (simp add: TentativeRemove_def with_tree_def Let_def ts_update_commute un split del: if_split cong: if_cong)
qed

theorem TentativeRemove_ok:
  fixes s :: "('k, 'v) ts_state"
  assumes "holds (tree s) es" and "comparator (tree s) = cmp" and "allocated (tree s)" and "page_set s = []"
  obtains T tr flag where "TentativeRemove key s = Some (flag, s\<lparr>tree := T, calls := calls s @ tr\<rparr>)"
    "tentative_remove cmp key es (tree s) flag T"
    "run_calls tr [TaskLatch \<mapsto> Exclusive] = Some Map.empty"
proof (cases "root_page_id (tree s) = INVALID_PAGE_ID")
  case True
  then show thesis
    using that [of PAGE_FAULT "prologue OPTIMISTIC_DELETE False True @ [Release Shared RootLatch]" "tree s"]
      holds_empty_tree [OF assms(1) True]
    by (simp add: TentativeRemove_def CrabToLeaf_empty prologue_def root_mode_def fun_upd_twist map_upd_None
        tentative_remove_def)
next
  case False
  define st where "st = tree s"
  let ?tt = OPTIMISTIC_DELETE
  obtain g where g: "tree_inv st g" "es = entries g"
    using holds_tree [OF assms(1) False] by (auto simp: st_def)
  have inv: "comparator st = cmp" "sizes_ok st" "allocated st" using assms(1-3) by (simp_all add: st_def holds_def)
  obtain c q les P tr where f:
    "CrabToLeaf key ?tt False False True s
       = Some (q, s\<lparr>tree := pinned (P @ [q]) st, calls := calls s @ tr, page_set := P\<rparr>)"
    "run_calls tr [TaskLatch \<mapsto> Exclusive] = Some (latched ?tt st None (set (P @ [q])))"
    "leaf_found cmp st g key ?tt c q les P"
    using CrabToLeaf_ok [OF g(1) inv(1) st_def [symmetric] assms(4) run_prologue(1)] by metis
  note d = leaf_foundD [OF f(3) g(1) inv(1)]
  have P: "P = []" using d(8) by simp
  obtain l where l: "pages st q = Some (LeafNode l)" "leaf_array l = les" "0 < q" using stored_leaf [OF d(2)] by metis
  obtain flag l' where t: "(if \<not> IsDeleteSafe (LeafNode l :: ('k, 'v) page) then (DELETE_UNSAFE, l)
          else let (size, l') = LeafPage_RemoveAndDeleteRecord cmp key l
               in (if size = -1 then NO_ENTRY else DELETED, l')) = (flag, l')"
    "parent_page_id l' = parent_page_id l" "flag = DELETED \<or> l' = l"
    "tentative_remove cmp key (entries g) st flag (put_page q (LeafNode l') st)"
    using remove_attempt [OF f(3) g(1) inv l(1,2)] by metis
  have "TentativeRemove key s = Some (flag, s\<lparr>tree := put_page q (LeafNode l') (tree s),
     calls := calls s @ tr @ let_go ?tt (tree s) q\<rparr>)"
  proof (rule TentativeRemove_at_leaf)
    show "(if \<not> IsDeleteSafe (LeafNode l :: ('k, 'v) page) then (DELETE_UNSAFE, l)
          else let (size, l') = LeafPage_RemoveAndDeleteRecord (comparator (tree s)) key l
               in (if size = -1 then NO_ENTRY else DELETED, l')) = (flag, l')"
      unfolding assms(2) by (rule t(1))
  qed (use f(1) l t(2,3) d(6) P assms(4) in \<open>simp_all add: st_def\<close>)
  moreover have "run_calls (tr @ let_go ?tt st q) [TaskLatch \<mapsto> Exclusive] = Some Map.empty"
    using run_calls_append_Some [OF f(2) run_let_go [of q "set (P @ [q])"]]
    by (simp add: P latched_empty map_upd_None)
  ultimately show thesis using that t(4) g(2) by (simp add: st_def)
qed

section \<open>The optimistic removal\<close>

theorem OptimisticRemove_ok:
  fixes s :: "('k, 'v) ts_state"
  assumes "holds (tree s) es" and "comparator (tree s) = cmp" and "allocated (tree s)"
    and "page_set s = []" and "deleted_page_set s = []"
  obtains T tr where "OptimisticRemove key s = Some (s\<lparr>tree := T, calls := calls s @ tr\<rparr>)"
    "ts_updated (tree s) (al_delete cmp key es) T"
    "root_page_id T = root_page_id (tree s) \<longrightarrow> run_calls tr [TaskLatch \<mapsto> Exclusive] = Some Map.empty"
proof -
  obtain T1 tr1 flag where t: "TentativeRemove key s = Some (flag, s\<lparr>tree := T1, calls := calls s @ tr1\<rparr>)"
    "tentative_remove cmp key es (tree s) flag T1" "run_calls tr1 [TaskLatch \<mapsto> Exclusive] = Some Map.empty"
    using TentativeRemove_ok [OF assms(1-4), of key] by metis
  show thesis
  proof (cases "flag = DELETE_UNSAFE")
    case False
    have "ts_updated (tree s) (al_delete cmp key es) T1"
      using t(2) False assms(1,3)
      by (auto simp: tentative_remove_def ts_updated_def root_pin_moved_def al_delete_absent split: if_splits)
    moreover have "OptimisticRemove key s = Some (s\<lparr>tree := T1, calls := calls s @ tr1\<rparr>)"
      using t(1) False by (cases flag) (simp_all add: OptimisticRemove_def)
    ultimately show thesis using that t(3) by blast
  next
    case True
    let ?s = "s\<lparr>calls := calls s @ tr1\<rparr>"
    have T1: "T1 = tree s" using True t(2) by (simp add: tentative_remove_def)
    have "holds (tree ?s) es" "comparator (tree ?s) = cmp" "allocated (tree ?s)"
      "page_set ?s = []" "deleted_page_set ?s = []" using assms by simp_all
    from TS_Remove_ok [OF this, of key True, unfolded if_True] obtain T tr where r:
      "TS_Remove key True ?s = Some (?s\<lparr>tree := T, calls := calls ?s @ tr\<rparr>)"
      "ts_updated (tree ?s) (al_delete cmp key es) T"
      "root_page_id T = root_page_id (tree ?s) \<longrightarrow> run_calls tr Map.empty = Some Map.empty"
      by metis
    have "OptimisticRemove key s = TS_Remove key True ?s"
      using True t(1) T1 by (simp add: OptimisticRemove_def)
    moreover have "root_page_id T = root_page_id (tree s) \<longrightarrow> run_calls (tr1 @ tr) [TaskLatch \<mapsto> Exclusive] = Some Map.empty"
      using run_calls_append_Some [OF t(3)] r(3) by simp
    ultimately show thesis using that [of "tr1 @ tr" T] r(1,2) by (simp add: ts_update_commute)
  qed
qed

end

end
