(* ===== verification/TSIndex.thy ===== *)
theory TSIndex
  imports TSInsertEnd TSDeleteEnd
begin

text \<open>
  The index over the thread-safe tree (\<^verbatim>\<open>database/src/storage/index/b_plus_tree_index_ts.cpp\<close>): its
  constructor and destructor, and the contract \<open>ordered_index\<close> for its four entry operations. It
  keeps no count of its entries.

  The contract is about the frames of the pool: \<open>ts_unsaved\<close> has the leaves whose frame must not be
  replaced before the next flush, because an overwritten value would be lost. There are none as long
  as no insertion overwrites a value (\<open>no_overwrite\<close>).

  The tree keeps its root pinned between two operations; the destructor gives this pin and the
  one of the header page back. The pins of an index that was opened on an empty file are therefore
  known exactly (\<open>ts_pins\<close>).
\<close>

section \<open>Opening and closing\<close>

definition BPlusTreeIndexTS_open ::
    "('k \<Rightarrow> 'k \<Rightarrow> int) \<Rightarrow> int \<Rightarrow> int \<Rightarrow> 'k \<Rightarrow> ('k, 'v) db_file \<Rightarrow> ('k, 'v) index_ts option" where
  "BPlusTreeIndexTS_open cmp leaf_max internal_max zero file =
     (case file HEADER_PAGE_ID of
        None \<Rightarrow>
          do { (b1, r1) \<leftarrow> HeaderPage_InsertRecord ''index'' (-1) [];
               (b2, r2) \<leftarrow> HeaderPage_InsertRecord ''page_amount'' 1 r1;
               t \<leftarrow> BPlusTree_open cmp leaf_max internal_max zero
                     (\<lambda>p. if p = HEADER_PAGE_ID then Some (HeaderNode r2) else None) r2 1;
               Some \<lparr>ts_tree = t, ts_unsaved = []\<rparr> }
      | Some (HeaderNode recs) \<Rightarrow>
          do { page_amount \<leftarrow> HeaderPage_SearchRecord ''page_amount'' recs;
               next \<leftarrow> page_amount;
               t \<leftarrow> BPlusTree_open cmp leaf_max internal_max zero file recs next;
               Some \<lparr>ts_tree = t, ts_unsaved = []\<rparr> }
      | Some _ \<Rightarrow> None)"

text \<open>
  \<^verbatim>\<open>FlushAllPages\<close> writes every frame, dirty or not: the file that is left consists of the pages of
  the resulting state.
\<close>

definition BPlusTreeIndexTS_close :: "('k, 'v) index_ts \<Rightarrow> ('k, 'v) bpt option" where
  "BPlusTreeIndexTS_close ix =
     (let t = ts_tree ix
      in case pages t HEADER_PAGE_ID of
        Some (HeaderNode recs) \<Rightarrow>
          do { (b, r1) \<leftarrow> HeaderPage_UpdateRecord ''page_amount'' (disk_next t) recs;
               let t1 = put_page HEADER_PAGE_ID (HeaderNode r1) t;
               found \<leftarrow> HeaderPage_SearchRecord ''index'' r1;
               root_page_id \<leftarrow> found;
               let t2 = (if root_page_id \<noteq> -1 then unpin_page root_page_id t1 else t1);
               Some (unpin_page HEADER_PAGE_ID t2) }
      | _ \<Rightarrow> None)"

section \<open>The invariant\<close>

definition ts_header :: "('k, 'v) bpt \<Rightarrow> bool" where
  "ts_header t \<longleftrightarrow> index_name t = ''index'' \<and>
     (\<exists>recs. pages t HEADER_PAGE_ID = Some (HeaderNode recs) \<and> map_of recs ''page_amount'' \<noteq> None)"

definition ts_rel :: "('k \<Rightarrow> 'k \<Rightarrow> int) \<Rightarrow> ('k, 'v) index_ts \<Rightarrow> ('k \<times> 'v) list \<Rightarrow> bool" where
  "ts_rel cmp ix es \<longleftrightarrow> holds (ts_tree ix) es \<and> comparator (ts_tree ix) = cmp \<and> allocated (ts_tree ix) \<and>
     ts_header (ts_tree ix)"

definition header_pin :: "int \<Rightarrow> nat" where
  "header_pin = (\<lambda>_. 0)(HEADER_PAGE_ID := 1)"

definition ts_pins :: "('k, 'v) bpt \<Rightarrow> bool" where
  "ts_pins t \<longleftrightarrow> pins t = move_root_pin INVALID_PAGE_ID (root_page_id t) header_pin"

lemma evolves_ts_header: "evolves t t' \<Longrightarrow> ts_header t \<Longrightarrow> ts_header t'"
  unfolding evolves_def ts_header_def by (elim conjE exE) (auto dest: spec)

lemma ts_rel_updated: "ts_rel cmp ix es \<Longrightarrow> ts_updated (ts_tree ix) es' (ts_tree ix') \<Longrightarrow> ts_rel cmp ix' es'"
  using evolves_fields(2) [of "ts_tree ix" "ts_tree ix'"] evolves_ts_header [of "ts_tree ix" "ts_tree ix'"]
  by (auto simp: ts_rel_def ts_updated_def)

lemma ts_pins_updated: "ts_pins t \<Longrightarrow> ts_updated t es' t' \<Longrightarrow> ts_pins t'"
  by (auto simp: ts_pins_def ts_updated_def root_pin_moved_def move_root_pin_def fun_eq_iff split: if_splits)

lemma begin_transaction_simps [simp]:
  "tree (begin_transaction t) = t" "calls (begin_transaction t) = []" "unsaved (begin_transaction t) = []"
  "page_set (begin_transaction t) = []" "deleted_page_set (begin_transaction t) = []"
  by (simp_all add: begin_transaction_def)

lemma enter_tree_simps [simp]:
  "tree (enter_tree ix) = ts_tree ix" "unsaved (enter_tree ix) = ts_unsaved ix"
  "page_set (enter_tree ix) = []" "deleted_page_set (enter_tree ix) = []"
  by (simp_all add: enter_tree_def)

lemma leave_tree_simps [simp]: "ts_tree (leave_tree s) = tree s" "ts_unsaved (leave_tree s) = unsaved s"
  by (simp_all add: leave_tree_def)

section \<open>The index keeps the contract\<close>

context key_comparator
begin

lemma TS_InsertEntry_ok:
  fixes ix :: "('k, 'v) index_ts"
  assumes "ts_rel cmp ix es"
  shows "\<exists>ix'. TS_InsertEntry k v ix = Some ix' \<and> ts_rel cmp ix' (al_insert cmp k v es) \<and>
     (k \<notin> fst ` set es \<longrightarrow> ts_unsaved ix' = ts_unsaved ix) \<and> (ts_pins (ts_tree ix) \<longrightarrow> ts_pins (ts_tree ix'))"
proof -
  have s: "holds (tree (enter_tree ix)) es" "comparator (tree (enter_tree ix)) = cmp"
    "allocated (tree (enter_tree ix))" "page_set (enter_tree ix) = []"
    using assms by (simp_all add: ts_rel_def)
  obtain T tr us where r: "OptimisticInsert k v (enter_tree ix)
      = Some (k \<notin> fst ` set es, (enter_tree ix)\<lparr>tree := T, calls := calls (enter_tree ix) @ tr, unsaved := us\<rparr>)"
    "ts_updated (tree (enter_tree ix)) (al_insert cmp k v es) T"
    "us = unsaved (enter_tree ix) \<or> k \<in> fst ` set es \<and> overwritten_in (tree (enter_tree ix)) T (unsaved (enter_tree ix)) us"
    using OptimisticInsert_ok [OF s, of k v] by metis
  let ?ix = "\<lparr>ts_tree = T, ts_unsaved = us\<rparr>"
  have "TS_InsertEntry k v ix = Some ?ix" using r(1) by (simp add: TS_InsertEntry_def leave_tree_def)
  then show ?thesis
    using r(2,3) ts_rel_updated [OF assms, of _ ?ix] ts_pins_updated [of "ts_tree ix" _ T]
    by (intro exI [of _ ?ix]) auto
qed

lemma TS_DeleteEntry_ok:
  fixes ix :: "('k, 'v) index_ts"
  assumes "ts_rel cmp ix es"
  shows "\<exists>ix'. TS_DeleteEntry k ix = Some ix' \<and> ts_rel cmp ix' (al_delete cmp k es) \<and>
     ts_unsaved ix' = ts_unsaved ix \<and> (ts_pins (ts_tree ix) \<longrightarrow> ts_pins (ts_tree ix'))"
proof -
  have s: "holds (tree (enter_tree ix)) es" "comparator (tree (enter_tree ix)) = cmp"
    "allocated (tree (enter_tree ix))" "page_set (enter_tree ix) = []" "deleted_page_set (enter_tree ix) = []"
    using assms by (simp_all add: ts_rel_def)
  obtain T tr where r: "OptimisticRemove k (enter_tree ix)
      = Some ((enter_tree ix)\<lparr>tree := T, calls := calls (enter_tree ix) @ tr\<rparr>)"
    "ts_updated (tree (enter_tree ix)) (al_delete cmp k es) T"
    using OptimisticRemove_ok [OF s, of k] by metis
  let ?ix = "\<lparr>ts_tree = T, ts_unsaved = ts_unsaved ix\<rparr>"
  have "TS_DeleteEntry k ix = Some ?ix" using r(1) by (simp add: TS_DeleteEntry_def leave_tree_def)
  then show ?thesis
    using r(2) ts_rel_updated [OF assms, of _ ?ix] ts_pins_updated [of "ts_tree ix" _ T]
    by (intro exI [of _ ?ix]) auto
qed

lemma TS_SearchKey_ok:
  assumes "ts_rel cmp ix es"
  shows "TS_SearchKey k ix = Some (case map_of es k of None \<Rightarrow> [] | Some v \<Rightarrow> [v], ix)"
proof -
  have s: "holds (tree (enter_tree ix)) es" "comparator (tree (enter_tree ix)) = cmp" "page_set (enter_tree ix) = []"
    using assms by (simp_all add: ts_rel_def)
  show ?thesis by (rule TS_GetValue_ok [OF s, of k]) (simp add: TS_SearchKey_def leave_tree_def)
qed

lemma TS_ScanKey_ok:
  assumes "ts_rel cmp ix es"
  shows "TS_ScanKey k scmp ix = Some (al_scan cmp scmp k es, ix)"
proof -
  have s: "holds (tree (enter_tree ix)) es" "comparator (tree (enter_tree ix)) = cmp" "page_set (enter_tree ix) = []"
    using assms by (simp_all add: ts_rel_def)
  show ?thesis by (rule TS_ScanValue_ok [OF s, of k scmp]) (simp add: TS_ScanKey_def leave_tree_def)
qed

lemma ordered_index_ts:
  "ordered_index cmp (TS_InsertEntry :: 'k \<Rightarrow> 'v \<Rightarrow> ('k, 'v) index_ts \<Rightarrow> _) TS_DeleteEntry TS_SearchKey TS_ScanKey
     (ts_rel cmp)"
proof unfold_locales
  fix s :: "('k, 'v) index_ts" and es k v scmp
  assume r: "ts_rel cmp s es"
  show "sorted_keys cmp es" using r holds_sorted by (auto simp: ts_rel_def)
  show "\<exists>s'. TS_InsertEntry k v s = Some s' \<and> ts_rel cmp s' (al_insert cmp k v es)" using TS_InsertEntry_ok [OF r] by blast
  show "\<exists>s'. TS_DeleteEntry k s = Some s' \<and> ts_rel cmp s' (al_delete cmp k es)" using TS_DeleteEntry_ok [OF r] by blast
  show "TS_SearchKey k s = Some (case map_of es k of None \<Rightarrow> [] | Some v \<Rightarrow> [v], s)" using r by (rule TS_SearchKey_ok)
  show "TS_ScanKey k scmp s = Some (al_scan cmp scmp k es, s)" using r by (rule TS_ScanKey_ok)
qed

end

interpretation ts_string_index: ordered_index StringComparator TS_InsertEntry TS_DeleteEntry TS_SearchKey
    TS_ScanKey "ts_rel StringComparator"
  by (rule string_key.ordered_index_ts)

interpretation ts_string_any_index: ordered_index "StringAnyComparator 3" TS_InsertEntry TS_DeleteEntry
    TS_SearchKey TS_ScanKey "ts_rel (StringAnyComparator 3)"
  by (rule string_any_key.ordered_index_ts)

interpretation ts_dual_string_index: ordered_index "DualStringComparator 2" TS_InsertEntry TS_DeleteEntry
    TS_SearchKey TS_ScanKey "ts_rel (DualStringComparator 2)"
  by (rule dual_string_key.ordered_index_ts)

interpretation ts_string_int_int_index: ordered_index "StringIntIntComparator 2" TS_InsertEntry TS_DeleteEntry
    TS_SearchKey TS_ScanKey "ts_rel (StringIntIntComparator 2)"
  by (rule string_int_int_key.ordered_index_ts)

section \<open>Runs of updates\<close>

text \<open>No insertion of the sequence meets a key that the map has at that point.\<close>

fun no_overwrite :: "('k, 'v) index_op list \<Rightarrow> ('k \<Rightarrow> 'v option) \<Rightarrow> bool" where
  "no_overwrite [] m = True"
| "no_overwrite (Ins k v # xs) m = (m k = None \<and> no_overwrite xs (m(k \<mapsto> v)))"
| "no_overwrite (Del k # xs) m = no_overwrite xs (m(k := None))"

lemma no_overwrite_append: "no_overwrite (xs @ ys) m \<longleftrightarrow> no_overwrite xs m \<and> no_overwrite ys (fold op_map xs m)"
proof (induction xs arbitrary: m)
  case (Cons x xs)
  then show ?case by (cases x) (simp_all del: fun_upd_apply)
qed simp

context key_comparator
begin

lemma map_of_rows_fold: "map_of (fold (op_rows cmp) xs es) = fold op_map xs (map_of es)"
  by (rule ordered_index.map_of_fold_rows [OF ordered_index_ts])

lemma TS_run_ops:
  fixes ix :: "('k, 'v) index_ts"
  assumes "ts_rel cmp ix es" and "no_overwrite xs (map_of es)"
  shows "\<exists>ix'. run_ops TS_InsertEntry TS_DeleteEntry xs ix = Some ix' \<and> ts_rel cmp ix' (fold (op_rows cmp) xs es) \<and>
     ts_unsaved ix' = ts_unsaved ix \<and> (ts_pins (ts_tree ix) \<longrightarrow> ts_pins (ts_tree ix'))"
  using assms
proof (induction xs arbitrary: ix es)
  case (Cons x xs)
  obtain ix1 where ix1: "run_op TS_InsertEntry TS_DeleteEntry x ix = Some ix1" "ts_rel cmp ix1 (op_rows cmp x es)"
    "ts_unsaved ix1 = ts_unsaved ix" "ts_pins (ts_tree ix) \<longrightarrow> ts_pins (ts_tree ix1)"
  proof (cases x)
    case (Ins k v)
    then have "k \<notin> fst ` set es" using Cons.prems(2) by (simp add: map_of_eq_None_iff)
    then show thesis using TS_InsertEntry_ok [OF Cons.prems(1), of k v] that Ins by auto
  next
    case (Del k)
    then show thesis using TS_DeleteEntry_ok [OF Cons.prems(1), of k] that by auto
  qed
  have "no_overwrite xs (map_of (op_rows cmp x es))"
    using Cons.prems(2) by (cases x) (simp_all add: map_of_al_insert map_of_al_delete)
  then show ?case using Cons.IH [OF ix1(2)] ix1 by auto
qed simp

end

section \<open>The life of an index\<close>

lemma TS_open_fresh:
  fixes cmp :: "'k \<Rightarrow> 'k \<Rightarrow> int"
  assumes "2 \<le> lm" and "4 \<le> im"
  obtains ix :: "('k, 'v) index_ts" where "BPlusTreeIndexTS_open cmp lm im z (\<lambda>p. None) = Some ix" "ts_rel cmp ix []"
    "ts_pins (ts_tree ix)" "ts_unsaved ix = []"
proof -
  let ?recs = "[(''index'', -1), (''page_amount'', 1)] :: header_records"
  let ?t = "\<lparr>index_name = ''index'', root_page_id = -1, comparator = cmp, leaf_max_size = lm,
     internal_max_size = im, zero_key = z,
     pages = \<lambda>p. if p = HEADER_PAGE_ID then Some (HeaderNode ?recs) else None,
     pins = (\<lambda>_. 0)(HEADER_PAGE_ID := 1), disk_next = 1\<rparr> :: ('k, 'v) bpt"
  let ?ix = "\<lparr>ts_tree = ?t, ts_unsaved = []\<rparr>"
  have "BPlusTreeIndexTS_open cmp lm im z (\<lambda>p. None) = Some ?ix"
    by (simp add: BPlusTreeIndexTS_open_def BPlusTree_open_def HeaderPage_InsertRecord_map HeaderPage_SearchRecord_map)
  moreover have "ts_rel cmp ?ix []" "ts_pins (ts_tree ?ix)"
    using assms by (auto simp: ts_rel_def holds_def sizes_ok_def header_ok_def alloc_ok_def ts_header_def
        allocated_def ts_pins_def header_pin_def move_root_pin_def)
  ultimately show thesis using that by simp
qed

text \<open>
  The destructor leaves no page pinned, and a tree that is opened on the file it leaves has the
  same rows. Its root is not pinned then, because the constructor of the tree does not fetch it.
\<close>

lemma TS_close_reopen:
  fixes ix :: "('k, 'v) index_ts"
  assumes "ts_rel cmp ix es" and "lm = leaf_max_size (ts_tree ix)" and "im = internal_max_size (ts_tree ix)"
  obtains u ix' where "BPlusTreeIndexTS_close ix = Some u" "ts_pins (ts_tree ix) \<longrightarrow> pins u = (\<lambda>_. 0)"
    "BPlusTreeIndexTS_open cmp lm im z (pages u) = Some ix'" "ts_rel cmp ix' es" "ts_unsaved ix' = []"
proof -
  let ?t = "ts_tree ix"
  have h: "holds ?t es" "comparator ?t = cmp" "ts_header ?t" "allocated ?t"
    using assms(1) by (simp_all add: ts_rel_def)
  obtain recs where recs: "pages ?t 0 = Some (HeaderNode recs)" "map_of recs ''index'' = Some (root_page_id ?t)"
    "map_of recs ''page_amount'' \<noteq> None"
    using h(3) holds_header_root(1) [OF h(1)] by (auto simp: ts_header_def)
  obtain r1 where r1: "HeaderPage_UpdateRecord ''page_amount'' (disk_next ?t) recs = Some (True, r1)"
    "map_of r1 = (map_of recs)(''page_amount'' \<mapsto> disk_next ?t)"
    using HeaderPage_UpdateRecord_map [of "''page_amount''" "disk_next ?t" recs] recs(3) by auto
  have m: "map_of r1 ''index'' = Some (root_page_id ?t)" "map_of r1 ''page_amount'' = Some (disk_next ?t)"
    using r1(2) recs(2) by simp_all
  then have ne: "r1 \<noteq> []" by auto
  let ?t1 = "put_page 0 (HeaderNode r1) ?t"
  let ?u = "unpin_page 0 (if root_page_id ?t \<noteq> -1 then unpin_page (root_page_id ?t) ?t1 else ?t1)"
  have "BPlusTreeIndexTS_close ix = Some ?u"
    using recs(1) r1(1) m ne by (simp add: BPlusTreeIndexTS_close_def Let_def HeaderPage_SearchRecord_map)
  moreover have "ts_pins ?t \<longrightarrow> pins ?u = (\<lambda>_. 0)"
    by (auto simp: ts_pins_def move_root_pin_def header_pin_def unpin_page_def put_page_def fun_eq_iff)
  moreover have u: "pages ?u = (pages ?t)(0 \<mapsto> HeaderNode r1)" by (simp add: unpin_page_def put_page_def)
  let ?t' = "\<lparr>index_name = ''index'', root_page_id = root_page_id ?t, comparator = cmp, leaf_max_size = lm,
     internal_max_size = im, zero_key = z, pages = pages ?u, pins = header_pin, disk_next = disk_next ?t\<rparr>"
  let ?ix' = "\<lparr>ts_tree = ?t', ts_unsaved = []\<rparr>"
  have "BPlusTreeIndexTS_open cmp lm im z (pages ?u) = Some ?ix'"
    using m ne unfolding u
    by (simp add: BPlusTreeIndexTS_open_def BPlusTree_open_def HeaderPage_SearchRecord_map header_pin_def)
  moreover have "holds ?t' es"
    using holds_header_root(2) [OF h(1)] m(1) h(2) assms(2,3) unfolding u
    by (intro holds_reopen [OF h(1)]) (auto simp: header_ok_def alloc_ok_def header_pin_def)
  moreover have "allocated ?t'" "ts_header ?t'"
    using h(4) holds_header_root(2) [OF h(1)] m(2) unfolding u by (auto simp: allocated_def ts_header_def)
  ultimately show thesis using that [of ?u ?ix'] by (simp add: ts_rel_def)
qed

end
