(* ===== verification/TSTheorems.thy ===== *)
theory TSTheorems
  imports TSIndex IndexTheorems
begin

text \<open>
  The properties of the thread-safe B+ tree: each operation gives the result of the abstract
  index, and the latches it takes it gives back.
\<close>

definition one_entry_tree :: "(string, int) bpt" where
  "one_entry_tree =
     \<lparr>index_name = ''index'', root_page_id = 1, comparator = StringComparator, leaf_max_size = 3,
      internal_max_size = 4, zero_key = [],
      pages = [0 \<mapsto> HeaderNode [(''index'', 1)],
               1 \<mapsto> LeafNode \<lparr>max_size = 3, parent_page_id = -1, page_id = 1, next_page_id = -1,
                              leaf_array = [(''a'', 1)]\<rparr>],
      pins = (\<lambda>_. 0)(1 := 1), disk_next = 2\<rparr>"

text \<open>
  C16. A point lookup and a scan of the thread-safe tree terminate, give what the rows of the tree
  say, change nothing, and their calls on latches come out even: starting with the lock of the
  task queue, no latch is taken twice, none is released that is not held in that mode, and none
  is left at the end.
\<close>

theorem ts_search_correct:
  assumes "key_comparator cmp" and "comparator t = cmp" and "holds t es"
  shows "\<exists>s1 s2 b. TS_GetValue key (begin_transaction t)
       = Some (map_of es key \<noteq> None, case map_of es key of None \<Rightarrow> [] | Some v \<Rightarrow> [v], s1) \<and>
     TS_ScanValue key ncmp (begin_transaction t) = Some (b, al_scan cmp ncmp key es, s2) \<and>
     tree s1 = t \<and> tree s2 = t \<and>
     run_calls (calls s1) [TaskLatch \<mapsto> Exclusive] = Some Map.empty \<and>
     run_calls (calls s2) [TaskLatch \<mapsto> Exclusive] = Some Map.empty"
proof -
  let ?s = "begin_transaction t"
  have s: "holds (tree ?s) es" "comparator (tree ?s) = cmp" "page_set ?s = []"
    using assms(2,3) by (simp_all add: begin_transaction_def)
  obtain tr1 where r1: "TS_GetValue key ?s = Some (map_of es key \<noteq> None,
       case map_of es key of None \<Rightarrow> [] | Some v \<Rightarrow> [v], ?s\<lparr>calls := calls ?s @ tr1\<rparr>)"
    "run_calls tr1 [TaskLatch \<mapsto> Exclusive] = Some Map.empty"
    using key_comparator.TS_GetValue_ok [OF assms(1) s] by metis
  obtain b tr2 where r2: "TS_ScanValue key ncmp ?s = Some (b, al_scan cmp ncmp key es, ?s\<lparr>calls := calls ?s @ tr2\<rparr>)"
    "run_calls tr2 [TaskLatch \<mapsto> Exclusive] = Some Map.empty"
    using key_comparator.TS_ScanValue_ok [OF assms(1) s] by metis
  have "calls ?s = []" "tree ?s = t" by (simp_all add: begin_transaction_def)
  then show ?thesis
    using r1 r2 by (intro exI [of _ "?s\<lparr>calls := calls ?s @ tr1\<rparr>"] exI [of _ "?s\<lparr>calls := calls ?s @ tr2\<rparr>"]) auto
qed


theorem ts_search_correct_witness:
  "\<exists>s. TS_GetValue ''c'' (begin_transaction sample_tree) = Some (True, [3], s) \<and> tree s = sample_tree \<and>
     run_calls (calls s) [TaskLatch \<mapsto> Exclusive] = Some Map.empty"
  using ts_search_correct [OF string_key.key_comparator_axioms sample_tree_comparator sample_tree_holds, of "''c''"]
  by auto



text \<open>The case of the replaced value does occur: the leaf of the sample tree is left unmarked.\<close>

lemma overwritten_leaf_not_marked:
  "map_option (\<lambda>(b, s). (b, map fst (unsaved s))) (OptimisticInsert ''a'' 7 (begin_transaction one_entry_tree)) = Some (False, [1])"
  by code_simp





text \<open>
  Removing the last entry of the tree takes the root away, and both \<^verbatim>\<open>AdjustRoot\<close> and the release
  of the latches of the path give back the root latch, which was taken once.
\<close>

lemma last_removal_releases_root_latch_twice:
  "case OptimisticRemove ''a'' (begin_transaction one_entry_tree) of
     None \<Rightarrow> False
   | Some s \<Rightarrow> root_page_id (tree s) = INVALID_PAGE_ID \<and>
       filter (\<lambda>c. c = Acquire Exclusive RootLatch) (calls s) = [Acquire Exclusive RootLatch] \<and>
       filter (\<lambda>c. c = Release Exclusive RootLatch) (calls s)
         = [Release Exclusive RootLatch, Release Exclusive RootLatch] \<and>
       run_calls (calls s) [TaskLatch \<mapsto> Exclusive] = None"
  by (code_simp, subst TS_CoalesceOrRedistribute.simps, code_simp)

end
