(* ===== verification/DataRefinement.thy ===== *)
theory DataRefinement
  imports Prelude
begin

text \<open>
  The contract of a component whose operations succeed and act like those of an abstract value:
  \<open>R c a\<close> says that the state \<open>c\<close> represents \<open>a\<close>. The containers of the engine and its buffer
  pool are instances.
\<close>

primrec run_calls :: "('op \<Rightarrow> 'c \<Rightarrow> 'c option) \<Rightarrow> 'op list \<Rightarrow> 'c \<Rightarrow> 'c option" where
  "run_calls exec [] c = Some c"
| "run_calls exec (x # xs) c = Option.bind (exec x c) (run_calls exec xs)"

locale data_refinement =
  fixes R :: "'c \<Rightarrow> 'a \<Rightarrow> bool" and exec :: "'op \<Rightarrow> 'c \<Rightarrow> 'c option" and spec :: "'op \<Rightarrow> 'a \<Rightarrow> 'a"
  assumes exec_spec: "R c a \<Longrightarrow> \<exists>c'. exec x c = Some c' \<and> R c' (spec x a)"
begin

lemma run_spec: "R c a \<Longrightarrow> \<exists>c'. run_calls exec xs c = Some c' \<and> R c' (fold spec xs a)"
proof (induction xs arbitrary: c a)
  case (Cons x xs)
  obtain c1 where "exec x c = Some c1" "R c1 (spec x a)" using exec_spec [OF Cons.prems] by blast
  then show ?case using Cons.IH [of c1 "spec x a"] by simp
qed simp

text \<open>A run never gets stuck in the middle, and what an observer sees is what the abstract run shows.\<close>

lemma run_observed:
  assumes "R c a" "\<And>c a. R c a \<Longrightarrow> obs c = obs_spec a"
  shows "map_option obs (run_calls exec xs c) = Some (obs_spec (fold spec xs a))"
  using run_spec [OF assms(1), of xs] assms(2) by auto

end

end
