(* ===== verification/Storage.thy ===== *)
theory Storage
  imports DataRefinement "HOL-Library.Word"
begin

text \<open>
  The page file of the engine, \<^verbatim>\<open>DiskManager\<close> of \<^verbatim>\<open>database/src/storage/disk/disk_manager.cpp\<close>, and
  the frames of the buffer pool, \<^verbatim>\<open>Page\<close> of \<^verbatim>\<open>database/src/include/storage/page/page.h\<close>.

  The file is its list of bytes. A write past the end leaves zero bytes in between; a read that
  the file is too short for fills a part of the buffer and throws. The system calls themselves do
  not fail (\<^verbatim>\<open>bad()\<close> is false). An offset that its type cannot hold has no result: \<^verbatim>\<open>ReadPage\<close>
  computes the offset as an \<^verbatim>\<open>int\<close>, so that it reaches the pages below 65536 only.
\<close>

section \<open>The file\<close>

type_synonym byte = "8 word"

definition PAGE_SIZE :: nat where "PAGE_SIZE = 32768"

datatype io_error = read_less_then_a_page

record disk_manager =
  db_io :: "byte list"
  disk_next_page_id :: nat

text \<open>
  The constructor refuses a name without a dot; a file that does not exist is created. The page
  counter starts at 0 also for a file with pages, until \<^verbatim>\<open>SetNextPageId\<close>.
\<close>

definition DiskManager_open :: "string \<Rightarrow> byte list option \<Rightarrow> string + disk_manager" where
  "DiskManager_open db_file existing =
     (if CHR ''.'' \<notin> set db_file then Inl ''wrong file format''
      else Inr \<lparr>db_io = (case existing of None \<Rightarrow> [] | Some f \<Rightarrow> f), disk_next_page_id = 0\<rparr>)"

definition DiskManager_new :: disk_manager where
  "DiskManager_new = projr (DiskManager_open ''.db'' None)"

definition DiskManager_Clear :: "disk_manager \<Rightarrow> disk_manager" where
  "DiskManager_Clear dm = dm\<lparr>db_io := [], disk_next_page_id := 0\<rparr>"

text \<open>\<^verbatim>\<open>seekp(offset); write(data, n)\<close> and \<^verbatim>\<open>seekp(offset); read(buffer, n)\<close>\<close>

definition write_at :: "nat \<Rightarrow> byte list \<Rightarrow> byte list \<Rightarrow> byte list" where
  "write_at offset d f = take offset f @ replicate (offset - length f) 0 @ d @ drop (offset + length d) f"

definition read_at :: "nat \<Rightarrow> nat \<Rightarrow> byte list \<Rightarrow> byte list" where
  "read_at offset n f = take n (drop offset f)"

definition WritePage :: "int \<Rightarrow> byte list \<Rightarrow> disk_manager \<Rightarrow> disk_manager option" where
  "WritePage pid page_data dm =
     (if pid < 0 then None else Some (dm\<lparr>db_io := write_at (nat pid * PAGE_SIZE) page_data (db_io dm)\<rparr>))"

definition ReadPage :: "int \<Rightarrow> byte list \<Rightarrow> disk_manager \<Rightarrow> (io_error option \<times> byte list) option" where
  "ReadPage pid page_data dm =
     (if pid < 0 \<or> 2 ^ 31 \<le> pid * int PAGE_SIZE then None
      else let got = read_at (nat (pid * int PAGE_SIZE)) PAGE_SIZE (db_io dm)
           in Some (if length got < PAGE_SIZE then Some read_less_then_a_page else None,
                    got @ drop (length got) page_data))"

definition AllocatePage :: "disk_manager \<Rightarrow> int \<times> disk_manager" where
  "AllocatePage dm = (int (disk_next_page_id dm), dm\<lparr>disk_next_page_id := Suc (disk_next_page_id dm)\<rparr>)"

definition DeallocatePage :: "int \<Rightarrow> disk_manager \<Rightarrow> disk_manager" where
  "DeallocatePage pid dm = dm"

definition SetNextPageId :: "nat \<Rightarrow> disk_manager \<Rightarrow> disk_manager" where
  "SetNextPageId n dm = dm\<lparr>disk_next_page_id := n\<rparr>"

definition GetNextPageId :: "disk_manager \<Rightarrow> nat" where
  "GetNextPageId dm = disk_next_page_id dm"

section \<open>The frames\<close>

record frame =
  page_data :: "byte list"
  frame_page_id :: int
  pin_count :: nat
  is_dirty :: bool

definition ResetMemory :: "frame \<Rightarrow> frame" where
  "ResetMemory p = p\<lparr>page_data := replicate PAGE_SIZE 0\<rparr>"

definition Page_new :: frame where
  "Page_new = ResetMemory \<lparr>page_data = [], frame_page_id = -1, pin_count = 0, is_dirty = False\<rparr>"

section \<open>Pages of the file\<close>

lemma DiskManager_new_eq: "DiskManager_new = \<lparr>db_io = [], disk_next_page_id = 0\<rparr>"
  by (simp add: DiskManager_new_def DiskManager_open_def)

text \<open>The page \<open>pid\<close> of a file that is long enough for it.\<close>

definition disk_page :: "nat \<Rightarrow> byte list \<Rightarrow> byte list" where
  "disk_page pid f = read_at (pid * PAGE_SIZE) PAGE_SIZE f"

definition on_disk :: "nat \<Rightarrow> byte list \<Rightarrow> bool" where
  "on_disk pid f \<longleftrightarrow> (pid + 1) * PAGE_SIZE \<le> length f"

lemma length_write_at: "length (write_at offset d f) = max (length f) (offset + length d)"
  by (simp add: write_at_def)

lemma on_disk_write:
  assumes "length d = PAGE_SIZE"
  shows "on_disk q (write_at (p * PAGE_SIZE) d f) \<longleftrightarrow> on_disk q f \<or> q \<le> p"
proof -
  have "(q + 1) * PAGE_SIZE \<le> p * PAGE_SIZE + PAGE_SIZE \<longleftrightarrow> q \<le> p" by (simp add: PAGE_SIZE_def)
  then show ?thesis using assms by (auto simp: on_disk_def length_write_at le_max_iff_disj)
qed

lemma disk_page_write_same:
  assumes "length d = PAGE_SIZE"
  shows "disk_page p (write_at (p * PAGE_SIZE) d f) = d"
  using assms by (simp add: disk_page_def read_at_def write_at_def)

lemma disk_page_write_other:
  assumes "length d = PAGE_SIZE" "q \<noteq> p" "on_disk q f"
  shows "disk_page q (write_at (p * PAGE_SIZE) d f) = disk_page q f"
proof -
  let ?o = "p * PAGE_SIZE"
  have l: "q * PAGE_SIZE + PAGE_SIZE \<le> length f" using assms(3) by (simp add: on_disk_def)
  show ?thesis
  proof (rule nth_equalityI)
    show "length (disk_page q (write_at ?o d f)) = length (disk_page q f)"
      using l by (simp add: disk_page_def read_at_def length_write_at max_def)
  next
    fix i assume "i < length (disk_page q (write_at ?o d f))"
    then have i: "i < PAGE_SIZE" by (simp add: disk_page_def read_at_def)
    have "q * PAGE_SIZE + i < ?o \<or> ?o + PAGE_SIZE \<le> q * PAGE_SIZE + i"
    proof (cases "q < p")
      case True
      then have "(q + 1) * PAGE_SIZE \<le> p * PAGE_SIZE" by (intro mult_le_mono1) simp
      then show ?thesis using i by simp
    next
      case False
      then have "(p + 1) * PAGE_SIZE \<le> q * PAGE_SIZE" using assms(2) by (intro mult_le_mono1) simp
      then show ?thesis by simp
    qed
    then have "write_at ?o d f ! (q * PAGE_SIZE + i) = f ! (q * PAGE_SIZE + i)"
      using l i assms(1) by (auto simp: write_at_def nth_append min_def)
    then show "disk_page q (write_at ?o d f) ! i = disk_page q f ! i"
      using l i by (simp add: disk_page_def read_at_def length_write_at)
  qed
qed

lemma length_disk_page: "on_disk p f \<Longrightarrow> length (disk_page p f) = PAGE_SIZE"
  by (simp add: on_disk_def disk_page_def read_at_def)

lemma ReadPage_ok:
  assumes "on_disk p (db_io dm)" "p < 65536" "length buf = PAGE_SIZE"
  shows "ReadPage (int p) buf dm = Some (None, disk_page p (db_io dm))"
proof -
  have "int p * int PAGE_SIZE < 2 ^ 31" using assms(2) by (simp add: PAGE_SIZE_def)
  moreover have "nat (int p * int PAGE_SIZE) = p * PAGE_SIZE" by (simp add: nat_mult_distrib)
  moreover have "length (read_at (p * PAGE_SIZE) PAGE_SIZE (db_io dm)) = PAGE_SIZE"
    using length_disk_page [OF assms(1)] by (simp add: disk_page_def)
  ultimately show ?thesis using assms(3) by (simp add: ReadPage_def Let_def disk_page_def)
qed

lemma ReadPage_short:
  assumes "\<not> on_disk p (db_io dm)" "p < 65536"
  shows "\<exists>buf'. ReadPage (int p) buf dm = Some (Some read_less_then_a_page, buf')"
proof -
  have "int p * int PAGE_SIZE < 2 ^ 31" using assms(2) by (simp add: PAGE_SIZE_def)
  moreover have "nat (int p * int PAGE_SIZE) = p * PAGE_SIZE" by (simp add: nat_mult_distrib)
  moreover have "length (read_at (p * PAGE_SIZE) PAGE_SIZE (db_io dm)) < PAGE_SIZE"
    using assms(1) by (simp add: on_disk_def read_at_def PAGE_SIZE_def)
  ultimately show ?thesis by (simp add: ReadPage_def Let_def)
qed

end
