(* ===== verification/LinkedHashmap.thy ===== *)
theory LinkedHashmap
  imports Prelude
begin

text \<open>
  \<^verbatim>\<open>linked_hashmap\<close> of \<^verbatim>\<open>database/src/include/container/linked_hashmap.hpp\<close>: a hash table with
  chaining whose nodes are also in one doubly linked list, in the order of their insertion.

  The pointers of the source are modelled. The memory holds the fields of the nodes, one function
  per field, and the set of live addresses; an access through a null or dead pointer has no
  result. An address is an element of an array of \<^verbatim>\<open>new Node[capacity]\<close> or a single \<^verbatim>\<open>new Node\<close>;
  allocation numbers are not reused. The hash function is a parameter, a \<^verbatim>\<open>size_t\<close> is a natural
  number (a table holds fewer than \<open>2 ^ 62\<close> nodes) and \<^verbatim>\<open>LOAD_FACTOR\<close> is 1.

  \<^verbatim>\<open>Debug\<close>, a printer, is left out.
\<close>

section \<open>Nodes\<close>

datatype ptr = Slot nat nat | Node nat

record ('k, 'v) nodes =
  live :: "ptr \<Rightarrow> bool"
  packet :: "ptr \<Rightarrow> ('k \<times> 'v) option"
  prev_hash :: "ptr \<Rightarrow> ptr option"
  next_hash :: "ptr \<Rightarrow> ptr option"
  prev_list :: "ptr \<Rightarrow> ptr option"
  next_list :: "ptr \<Rightarrow> ptr option"

text \<open>\<^verbatim>\<open>a->field\<close> and \<^verbatim>\<open>a->field = x\<close> for each pointer field.\<close>

definition get :: "(('k, 'v) nodes \<Rightarrow> ptr \<Rightarrow> 'x) \<Rightarrow> ptr \<Rightarrow> ('k, 'v) nodes \<Rightarrow> 'x option" where
  "get field a m = (if live m a then Some (field m a) else None)"

definition set_prev_hash :: "ptr \<Rightarrow> ptr option \<Rightarrow> ('k, 'v) nodes \<Rightarrow> ('k, 'v) nodes option" where
  "set_prev_hash a x m = (if live m a then Some (m\<lparr>prev_hash := (prev_hash m)(a := x)\<rparr>) else None)"

definition set_next_hash :: "ptr \<Rightarrow> ptr option \<Rightarrow> ('k, 'v) nodes \<Rightarrow> ('k, 'v) nodes option" where
  "set_next_hash a x m = (if live m a then Some (m\<lparr>next_hash := (next_hash m)(a := x)\<rparr>) else None)"

definition set_prev_list :: "ptr \<Rightarrow> ptr option \<Rightarrow> ('k, 'v) nodes \<Rightarrow> ('k, 'v) nodes option" where
  "set_prev_list a x m = (if live m a then Some (m\<lparr>prev_list := (prev_list m)(a := x)\<rparr>) else None)"

definition set_next_list :: "ptr \<Rightarrow> ptr option \<Rightarrow> ('k, 'v) nodes \<Rightarrow> ('k, 'v) nodes option" where
  "set_next_list a x m = (if live m a then Some (m\<lparr>next_list := (next_list m)(a := x)\<rparr>) else None)"

text \<open>\<^verbatim>\<open>if (p) p->field = x\<close>\<close>

definition if_ptr :: "ptr option \<Rightarrow> (ptr \<Rightarrow> 'm \<Rightarrow> 'm option) \<Rightarrow> 'm \<Rightarrow> 'm option" where
  "if_ptr p f m = (case p of None \<Rightarrow> Some m | Some a \<Rightarrow> f a m)"

definition new_node :: "ptr \<Rightarrow> ('k \<times> 'v) option \<Rightarrow> ('k, 'v) nodes \<Rightarrow> ('k, 'v) nodes" where
  "new_node a x m =
     m\<lparr>live := (live m)(a := True), packet := (packet m)(a := x),
       prev_hash := (prev_hash m)(a := None), next_hash := (next_hash m)(a := None),
       prev_list := (prev_list m)(a := None), next_list := (next_list m)(a := None)\<rparr>"

definition delete_node :: "ptr \<Rightarrow> ('k, 'v) nodes \<Rightarrow> ('k, 'v) nodes option" where
  "delete_node a m = (if live m a then Some (m\<lparr>live := (live m)(a := False)\<rparr>) else None)"

text \<open>\<^verbatim>\<open>new Node[capacity]()\<close> and \<^verbatim>\<open>delete[] table\<close>.\<close>

fun in_table :: "nat \<Rightarrow> nat \<Rightarrow> ptr \<Rightarrow> bool" where
  "in_table t cap (Slot t' h) \<longleftrightarrow> t' = t \<and> h < cap"
| "in_table t cap (Node i) \<longleftrightarrow> False"

definition new_table :: "nat \<Rightarrow> nat \<Rightarrow> ('k, 'v) nodes \<Rightarrow> ('k, 'v) nodes" where
  "new_table t cap m =
     m\<lparr>live := (\<lambda>p. in_table t cap p \<or> live m p),
       packet := (\<lambda>p. if in_table t cap p then None else packet m p),
       prev_hash := (\<lambda>p. if in_table t cap p then None else prev_hash m p),
       next_hash := (\<lambda>p. if in_table t cap p then None else next_hash m p),
       prev_list := (\<lambda>p. if in_table t cap p then None else prev_list m p),
       next_list := (\<lambda>p. if in_table t cap p then None else next_list m p)\<rparr>"

definition delete_table :: "nat \<Rightarrow> nat \<Rightarrow> ('k, 'v) nodes \<Rightarrow> ('k, 'v) nodes" where
  "delete_table t cap m = m\<lparr>live := (\<lambda>p. live m p \<and> \<not> in_table t cap p)\<rparr>"

definition InsertAfterHash :: "ptr \<Rightarrow> ptr \<Rightarrow> ('k, 'v) nodes \<Rightarrow> ('k, 'v) nodes option" where
  "InsertAfterHash this prev m =
     do { nxt \<leftarrow> get next_hash prev m;
          m1 \<leftarrow> if_ptr nxt (\<lambda>x. set_prev_hash x (Some this)) m;
          m2 \<leftarrow> set_next_hash this nxt m1;
          m3 \<leftarrow> set_next_hash prev (Some this) m2;
          set_prev_hash this (Some prev) m3 }"

definition InsertBeforeLink :: "ptr \<Rightarrow> ptr \<Rightarrow> ('k, 'v) nodes \<Rightarrow> ('k, 'v) nodes option" where
  "InsertBeforeLink this nxt m =
     do { prev \<leftarrow> get prev_list nxt m;
          m1 \<leftarrow> if_ptr prev (\<lambda>x. set_next_list x (Some this)) m;
          m2 \<leftarrow> set_prev_list this prev m1;
          m3 \<leftarrow> set_prev_list nxt (Some this) m2;
          set_next_list this (Some nxt) m3 }"

definition Delete :: "ptr \<Rightarrow> ('k, 'v) nodes \<Rightarrow> ('k, 'v) nodes option" where
  "Delete this m =
     do { pl \<leftarrow> get prev_list this m; nl \<leftarrow> get next_list this m;
          m1 \<leftarrow> if_ptr pl (\<lambda>x. set_next_list x nl) m;
          m2 \<leftarrow> if_ptr nl (\<lambda>x. set_prev_list x pl) m1;
          ph \<leftarrow> get prev_hash this m2; nh \<leftarrow> get next_hash this m2;
          m3 \<leftarrow> if_ptr ph (\<lambda>x. set_next_hash x nh) m2;
          if_ptr nh (\<lambda>x. set_prev_hash x ph) m3 }"

section \<open>The map\<close>

record ('k, 'v) linked_hashmap =
  hm_nodes :: "('k, 'v) nodes"
  hm_capacity :: nat
  hm_sum :: nat
  hm_table :: nat
  hm_head :: ptr
  hm_tail :: ptr
  hm_fresh :: nat

definition INIT_SIZE :: nat where "INIT_SIZE = 8192"

partial_function (option) Find_loop :: "'k \<Rightarrow> ('k, 'v) nodes \<Rightarrow> ptr option \<Rightarrow> ptr option option" where
  "Find_loop key m c =
     (case c of
        None \<Rightarrow> Some None
      | Some a \<Rightarrow> do {
          pk \<leftarrow> get packet a m;
          (k, v) \<leftarrow> pk;
          if k = key then Some (Some a)
          else do { nxt \<leftarrow> get next_hash a m; Find_loop key m nxt } })"

definition Find :: "('k \<Rightarrow> nat) \<Rightarrow> 'k \<Rightarrow> ('k, 'v) linked_hashmap \<Rightarrow> ptr option option" where
  "Find hash key mp =
     do { c \<leftarrow> get next_hash (Slot (hm_table mp) (hash key mod hm_capacity mp)) (hm_nodes mp);
          Find_loop key (hm_nodes mp) c }"

definition Insert :: "('k \<Rightarrow> nat) \<Rightarrow> 'k \<times> 'v \<Rightarrow> ('k, 'v) linked_hashmap \<Rightarrow> (ptr \<times> ('k, 'v) linked_hashmap) option" where
  "Insert hash x mp =
     do { let c = Node (hm_fresh mp);
          let m0 = new_node c (Some x) (hm_nodes mp);
          m1 \<leftarrow> InsertAfterHash c (Slot (hm_table mp) (hash (fst x) mod hm_capacity mp)) m0;
          m2 \<leftarrow> InsertBeforeLink c (hm_tail mp) m1;
          Some (c, mp\<lparr>hm_nodes := m2, hm_fresh := Suc (hm_fresh mp)\<rparr>) }"

text \<open>The loop of \<^verbatim>\<open>Expand\<close> and \<^verbatim>\<open>Shrink\<close> that moves the nodes to the table \<^verbatim>\<open>temp\<close>.\<close>

partial_function (option) refill :: "('k \<Rightarrow> nat) \<Rightarrow> nat \<Rightarrow> nat \<Rightarrow> ptr \<Rightarrow> ptr \<Rightarrow> ('k, 'v) nodes \<Rightarrow> ('k, 'v) nodes option" where
  "refill hash temp cap last_p c m =
     (if c = last_p then Some m
      else do {
        m1 \<leftarrow> set_next_hash c None m;
        m2 \<leftarrow> set_prev_hash c None m1;
        pk \<leftarrow> get packet c m2;
        (k, v) \<leftarrow> pk;
        m3 \<leftarrow> InsertAfterHash c (Slot temp (hash k mod cap)) m2;
        nxt \<leftarrow> get next_list c m3;
        a \<leftarrow> nxt;
        refill hash temp cap last_p a m3 })"

definition resize :: "('k \<Rightarrow> nat) \<Rightarrow> nat \<Rightarrow> ('k, 'v) linked_hashmap \<Rightarrow> ('k, 'v) linked_hashmap option" where
  "resize hash cap mp =
     do { let temp = hm_fresh mp;
          fst_p \<leftarrow> get next_list (hm_head mp) (hm_nodes mp);
          a \<leftarrow> fst_p;
          m \<leftarrow> refill hash temp cap (hm_tail mp) a (new_table temp cap (hm_nodes mp));
          Some (mp\<lparr>hm_nodes := delete_table (hm_table mp) (hm_capacity mp) m, hm_capacity := cap,
                   hm_table := temp, hm_fresh := Suc (hm_fresh mp)\<rparr>) }"

definition Expand :: "('k \<Rightarrow> nat) \<Rightarrow> ('k, 'v) linked_hashmap \<Rightarrow> ('k, 'v) linked_hashmap option" where
  "Expand hash mp = (if hm_sum mp \<le> hm_capacity mp * 1 then Some mp else resize hash (hm_capacity mp * 2) mp)"

definition Shrink :: "('k \<Rightarrow> nat) \<Rightarrow> ('k, 'v) linked_hashmap \<Rightarrow> ('k, 'v) linked_hashmap option" where
  "Shrink hash mp =
     (if hm_sum mp * 4 \<ge> hm_capacity mp \<or> hm_sum mp \<le> INIT_SIZE then Some mp
      else resize hash (hm_capacity mp div 2) mp)"

text \<open>The private \<^verbatim>\<open>Clear\<close>: the nodes and the table are freed, head and tail are linked.\<close>

partial_function (option) Clear_loop :: "ptr \<Rightarrow> ptr \<Rightarrow> ('k, 'v) nodes \<Rightarrow> ('k, 'v) nodes option" where
  "Clear_loop last_p c m =
     (if c = last_p then Some m
      else do {
        nxt \<leftarrow> get next_list c m;
        a \<leftarrow> nxt;
        m1 \<leftarrow> delete_node c m;
        Clear_loop last_p a m1 })"

definition Clear :: "('k, 'v) linked_hashmap \<Rightarrow> ('k, 'v) nodes option" where
  "Clear mp =
     do { fst_p \<leftarrow> get next_list (hm_head mp) (hm_nodes mp);
          a \<leftarrow> fst_p;
          m \<leftarrow> Clear_loop (hm_tail mp) a (hm_nodes mp);
          let m1 = delete_table (hm_table mp) (hm_capacity mp) m;
          m2 \<leftarrow> set_next_list (hm_head mp) (Some (hm_tail mp)) m1;
          set_prev_list (hm_tail mp) (Some (hm_head mp)) m2 }"

section \<open>The public operations\<close>

definition no_nodes :: "('k, 'v) nodes" where
  "no_nodes = \<lparr>live = (\<lambda>p. False), packet = (\<lambda>p. None), prev_hash = (\<lambda>p. None), next_hash = (\<lambda>p. None),
     prev_list = (\<lambda>p. None), next_list = (\<lambda>p. None)\<rparr>"

definition fresh_lists :: "nat \<Rightarrow> ('k, 'v) nodes" where
  "fresh_lists cap =
     (let m = new_node (Node 2) None (new_node (Node 1) None (new_table 0 cap no_nodes))
      in m\<lparr>next_list := (next_list m)(Node 1 := Some (Node 2)), prev_list := (prev_list m)(Node 2 := Some (Node 1))\<rparr>)"

definition lhm_new :: "('k, 'v) linked_hashmap" where
  "lhm_new = \<lparr>hm_nodes = fresh_lists INIT_SIZE, hm_capacity = INIT_SIZE, hm_sum = 0, hm_table = 0, hm_head = Node 1,
     hm_tail = Node 2, hm_fresh = 3\<rparr>"

text \<open>The copy constructor: the nodes of the other map are inserted in their order.\<close>

partial_function (option) copy_loop ::
    "('k \<Rightarrow> nat) \<Rightarrow> ('k, 'v) linked_hashmap \<Rightarrow> ptr \<Rightarrow> ('k, 'v) linked_hashmap \<Rightarrow> ('k, 'v) linked_hashmap option" where
  "copy_loop hash other c mp =
     (if c = hm_tail other then Some mp
      else do {
        pk \<leftarrow> get packet c (hm_nodes other);
        x \<leftarrow> pk;
        (a, mp1) \<leftarrow> Insert hash x mp;
        nxt \<leftarrow> get next_list c (hm_nodes other);
        b \<leftarrow> nxt;
        copy_loop hash other b mp1 })"

definition lhm_copy :: "('k \<Rightarrow> nat) \<Rightarrow> ('k, 'v) linked_hashmap \<Rightarrow> ('k, 'v) linked_hashmap option" where
  "lhm_copy hash other =
     do { let mp = \<lparr>hm_nodes = fresh_lists (hm_capacity other), hm_capacity = hm_capacity other, hm_sum = hm_sum other,
                    hm_table = 0, hm_head = Node 1, hm_tail = Node 2, hm_fresh = 3\<rparr>;
          fst_p \<leftarrow> get next_list (hm_head other) (hm_nodes other);
          a \<leftarrow> fst_p;
          copy_loop hash other a mp }"

text \<open>\<^verbatim>\<open>operator=\<close> from another map; an assignment of a map to itself does nothing.\<close>

definition lhm_copy_assign ::
    "('k \<Rightarrow> nat) \<Rightarrow> ('k, 'v) linked_hashmap \<Rightarrow> ('k, 'v) linked_hashmap \<Rightarrow> ('k, 'v) linked_hashmap option" where
  "lhm_copy_assign hash other mp =
     do { m \<leftarrow> Clear mp;
          let mp1 = mp\<lparr>hm_nodes := new_table (hm_fresh mp) (hm_capacity other) m, hm_capacity := hm_capacity other,
                       hm_sum := hm_sum other, hm_table := hm_fresh mp, hm_fresh := Suc (hm_fresh mp)\<rparr>;
          fst_p \<leftarrow> get next_list (hm_head other) (hm_nodes other);
          a \<leftarrow> fst_p;
          copy_loop hash other a mp1 }"

text \<open>An error of a public operation is an exception of the source.\<close>

datatype lhm_error = index_out_of_bound | invalid_iterator

definition lhm_at :: "('k \<Rightarrow> nat) \<Rightarrow> 'k \<Rightarrow> ('k, 'v) linked_hashmap \<Rightarrow> (lhm_error + 'v) option" where
  "lhm_at hash key mp =
     do { c \<leftarrow> Find hash key mp;
          (case c of
             None \<Rightarrow> Some (Inl index_out_of_bound)
           | Some a \<Rightarrow> do { pk \<leftarrow> get packet a (hm_nodes mp); (k, v) \<leftarrow> pk; Some (Inr v) }) }"

text \<open>\<^verbatim>\<open>operator[]\<close> returns a reference into the node; \<open>lhm_assign\<close> is \<^verbatim>\<open>map[key] = value\<close>.\<close>

definition lhm_subscript :: "('k \<Rightarrow> nat) \<Rightarrow> 'k \<Rightarrow> 'v \<Rightarrow> ('k, 'v) linked_hashmap \<Rightarrow> (ptr \<times> ('k, 'v) linked_hashmap) option" where
  "lhm_subscript hash key dflt mp =
     do { c \<leftarrow> Find hash key mp;
          (case c of
             None \<Rightarrow> do {
               (a, mp1) \<leftarrow> Insert hash (key, dflt) mp;
               mp2 \<leftarrow> Expand hash (mp1\<lparr>hm_sum := Suc (hm_sum mp1)\<rparr>);
               Some (a, mp2) }
           | Some a \<Rightarrow> Some (a, mp)) }"

definition lhm_assign :: "('k \<Rightarrow> nat) \<Rightarrow> 'k \<Rightarrow> 'v \<Rightarrow> 'v \<Rightarrow> ('k, 'v) linked_hashmap \<Rightarrow> ('k, 'v) linked_hashmap option" where
  "lhm_assign hash key v dflt mp =
     do { (a, mp1) \<leftarrow> lhm_subscript hash key dflt mp;
          pk \<leftarrow> get packet a (hm_nodes mp1);
          (k, w) \<leftarrow> pk;
          Some (mp1\<lparr>hm_nodes := (hm_nodes mp1)\<lparr>packet := (packet (hm_nodes mp1))(a \<mapsto> (k, v))\<rparr>\<rparr>) }"

definition lhm_begin :: "('k, 'v) linked_hashmap \<Rightarrow> ptr option" where
  "lhm_begin mp = Option.bind (get next_list (hm_head mp) (hm_nodes mp)) (\<lambda>p. p)"

definition lhm_end :: "('k, 'v) linked_hashmap \<Rightarrow> ptr" where
  "lhm_end mp = hm_tail mp"

definition lhm_size :: "('k, 'v) linked_hashmap \<Rightarrow> nat" where
  "lhm_size mp = hm_sum mp"

definition lhm_empty :: "('k, 'v) linked_hashmap \<Rightarrow> bool" where
  "lhm_empty mp \<longleftrightarrow> hm_sum mp = 0"

definition lhm_clear :: "('k, 'v) linked_hashmap \<Rightarrow> ('k, 'v) linked_hashmap option" where
  "lhm_clear mp =
     do { m \<leftarrow> Clear mp;
          Some (mp\<lparr>hm_nodes := new_table (hm_fresh mp) INIT_SIZE m, hm_capacity := INIT_SIZE, hm_sum := 0,
                   hm_table := hm_fresh mp, hm_fresh := Suc (hm_fresh mp)\<rparr>) }"

definition lhm_insert :: "('k \<Rightarrow> nat) \<Rightarrow> 'k \<times> 'v \<Rightarrow> ('k, 'v) linked_hashmap \<Rightarrow> (ptr \<times> bool \<times> ('k, 'v) linked_hashmap) option" where
  "lhm_insert hash x mp =
     do { c \<leftarrow> Find hash (fst x) mp;
          (case c of
             None \<Rightarrow> do {
               (a, mp1) \<leftarrow> Insert hash x mp;
               mp2 \<leftarrow> Expand hash (mp1\<lparr>hm_sum := Suc (hm_sum mp1)\<rparr>);
               Some (a, True, mp2) }
           | Some a \<Rightarrow> Some (a, False, mp)) }"

text \<open>\<^verbatim>\<open>erase\<close> of an iterator of this map.\<close>

definition lhm_erase :: "('k \<Rightarrow> nat) \<Rightarrow> ptr \<Rightarrow> ('k, 'v) linked_hashmap \<Rightarrow> (lhm_error + ('k, 'v) linked_hashmap) option" where
  "lhm_erase hash pos mp =
     (if pos = hm_tail mp then Some (Inl invalid_iterator)
      else do {
        m1 \<leftarrow> Delete pos (hm_nodes mp);
        m2 \<leftarrow> delete_node pos m1;
        mp1 \<leftarrow> Shrink hash (mp\<lparr>hm_nodes := m2, hm_sum := hm_sum mp - 1\<rparr>);
        Some (Inr mp1) })"

definition lhm_count :: "('k \<Rightarrow> nat) \<Rightarrow> 'k \<Rightarrow> ('k, 'v) linked_hashmap \<Rightarrow> nat option" where
  "lhm_count hash key mp = do { c \<leftarrow> Find hash key mp; Some (of_bool (c \<noteq> None)) }"

definition lhm_find :: "('k \<Rightarrow> nat) \<Rightarrow> 'k \<Rightarrow> ('k, 'v) linked_hashmap \<Rightarrow> ptr option" where
  "lhm_find hash key mp =
     do { c \<leftarrow> Find hash key mp; Some (case c of None \<Rightarrow> hm_tail mp | Some a \<Rightarrow> a) }"

text \<open>
  The iterators: \<^verbatim>\<open>++\<close>, \<^verbatim>\<open>--\<close>, which moves before it throws, and \<^verbatim>\<open>*\<close>. \<^verbatim>\<open>const_iterator\<close> has the same
  operations.
\<close>

definition iter_next :: "ptr \<Rightarrow> ('k, 'v) linked_hashmap \<Rightarrow> (lhm_error + ptr) option" where
  "iter_next c mp =
     (if c = hm_tail mp then Some (Inl invalid_iterator)
      else do { nxt \<leftarrow> get next_list c (hm_nodes mp); a \<leftarrow> nxt; Some (Inr a) })"

definition iter_prev :: "ptr \<Rightarrow> ('k, 'v) linked_hashmap \<Rightarrow> (lhm_error option \<times> ptr) option" where
  "iter_prev c mp =
     do { prv \<leftarrow> get prev_list c (hm_nodes mp);
          a \<leftarrow> prv;
          Some (if a = hm_head mp then Some invalid_iterator else None, a) }"

definition iter_deref :: "ptr \<Rightarrow> ('k, 'v) linked_hashmap \<Rightarrow> ('k \<times> 'v) option" where
  "iter_deref c mp = Option.bind (get packet c (hm_nodes mp)) (\<lambda>pk. pk)"

end
