(* ===== verification/LinkedHashmapRep.thy ===== *)
theory LinkedHashmapRep
  imports LinkedHashmap
begin

text \<open>
  The representation invariant of \<open>LinkedHashmap\<close>: the addresses \<open>as\<close> between head and tail form
  the doubly linked list, every slot of the table heads a doubly linked chain of the nodes whose
  key hashes to it, and \<^verbatim>\<open>sum\<close> counts the nodes. Every operation succeeds on a map that satisfies
  it, keeps it, and acts on the contents like an association list in insertion order.
\<close>

section \<open>Chains of pointers\<close>

fun linked :: "(ptr \<Rightarrow> ptr option) \<Rightarrow> (ptr \<Rightarrow> ptr option) \<Rightarrow> ptr list \<Rightarrow> bool" where
  "linked n p (a # b # xs) \<longleftrightarrow> n a = Some b \<and> p b = Some a \<and> linked n p (b # xs)"
| "linked n p xs \<longleftrightarrow> True"

lemma linked_append: "linked n p (xs @ a # ys) \<longleftrightarrow> linked n p (xs @ [a]) \<and> linked n p (a # ys)"
proof (induction xs)
  case (Cons x xs)
  then show ?case by (cases xs) auto
qed simp

lemma linked_snoc: "linked n p (xs @ [a, b]) \<longleftrightarrow> linked n p (xs @ [a]) \<and> n a = Some b \<and> p b = Some a"
  using linked_append [of n p xs a "[b]"] by simp

lemma linked_next_upd: "a \<notin> set (butlast xs) \<Longrightarrow> linked (n(a := v)) p xs = linked n p xs"
  by (induction n p xs rule: linked.induct) auto

lemma linked_prev_upd: "a \<notin> set (tl xs) \<Longrightarrow> linked n (p(a := v)) xs = linked n p xs"
  by (induction n p xs rule: linked.induct) auto

lemma linked_cong:
  "(\<And>x. x \<in> set xs \<Longrightarrow> n' x = n x \<and> p' x = p x) \<Longrightarrow> linked n' p' xs = linked n p xs"
  by (induction n p xs rule: linked.induct) auto

lemma linked_nth:
  assumes "linked n p (xs @ a # b # ys)"
  shows "n a = Some b" "p b = Some a"
  using assms by (simp_all add: linked_append [of n p xs a "b # ys"])

lemma notin_parts: "x \<notin> set xs \<Longrightarrow> x \<notin> set (tl xs)" "x \<notin> set xs \<Longrightarrow> x \<notin> set (butlast xs)"
  by (cases xs; auto dest: in_set_butlastD)+

lemma linked_upd:
  "u \<notin> set (butlast xs) \<Longrightarrow> w \<notin> set (tl xs) \<Longrightarrow> linked (n(u := v)) (p(w := v')) xs = linked n p xs"
  by (simp add: linked_next_upd linked_prev_upd)

text \<open>Unlinking a node, and linking one at the end.\<close>

lemma linked_unlink:
  assumes l: "linked n p (xs @ u # a # w # ys)" and d: "distinct (xs @ u # a # w # ys)"
  shows "linked (n(u := Some w)) (p(w := Some u)) (xs @ u # w # ys)"
proof -
  have parts: "linked n p (xs @ [u])" "linked n p (w # ys)"
    using l linked_append [of n p xs u "a # w # ys"] by simp_all
  have "linked (n(u := Some w)) (p(w := Some u)) (xs @ [u])"
    using parts(1) d notin_parts(1) [of w "xs @ [u]"] by (subst linked_upd) auto
  moreover have "linked (n(u := Some w)) (p(w := Some u)) (w # ys)"
    using parts(2) d notin_parts(2) [of u "w # ys"] by (subst linked_upd) auto
  ultimately show ?thesis using linked_append [of _ _ xs u "w # ys"] by simp
qed

lemma linked_unlink_last:
  assumes "linked n p (xs @ [u, a])" "distinct (xs @ [u, a])"
  shows "linked (n(u := None)) p (xs @ [u])"
  using assms by (subst linked_next_upd) (auto simp: linked_snoc)

lemma linked_before_last:
  assumes "linked n p (xs @ [u, w])" "distinct (xs @ [u, a, w])"
  shows "linked (n(u := Some a, a := Some w)) (p(a := Some u, w := Some a)) (xs @ [u, a, w])"
proof -
  have l: "linked n p (xs @ [u])" using assms(1) by (simp add: linked_snoc)
  have notin: "w \<notin> set (tl (xs @ [u]))" "a \<notin> set (tl (xs @ [u]))" "a \<notin> set xs" "u \<notin> set xs"
    using assms(2) notin_parts(1) [of w "xs @ [u]"] notin_parts(1) [of a "xs @ [u]"] by auto
  have "linked (n(u := Some a, a := Some w)) (p(a := Some u, w := Some a)) (xs @ [u])"
    using l notin by (simp add: linked_next_upd linked_prev_upd)
  then show ?thesis using assms(2) linked_append [of _ _ xs u "[a, w]"] by auto
qed

lemma linked_after_first:
  assumes "linked n p (s # xs)" "distinct (s # a # xs)"
  shows "linked (n(a := n s, s := Some a)) ((case xs of [] \<Rightarrow> p | x # _ \<Rightarrow> p(x := Some a))(a := Some s)) (s # a # xs)"
proof (cases xs)
  case (Cons x ys)
  then have "linked (n(a := n s, s := Some a)) (p(x := Some a, a := Some s)) (x # ys)"
    using assms notin_parts [of a "x # ys"] notin_parts(2) [of s "x # ys"]
    by (subst linked_upd, simp, simp) (subst linked_upd, auto)
  then show ?thesis using assms Cons by auto
qed simp

section \<open>The invariant\<close>

definition key_of :: "('k, 'v) nodes \<Rightarrow> ptr \<Rightarrow> 'k" where
  "key_of m a = fst (the (packet m a))"

definition contents :: "('k, 'v) nodes \<Rightarrow> ptr list \<Rightarrow> ('k \<times> 'v) list" where
  "contents m as = map (\<lambda>a. the (packet m a)) as"

definition chain_ok :: "('k, 'v) nodes \<Rightarrow> ptr \<Rightarrow> ptr list \<Rightarrow> bool" where
  "chain_ok m s c \<longleftrightarrow> live m s \<and> distinct (s # c) \<and> linked (next_hash m) (prev_hash m) (s # c) \<and>
     next_hash m (last (s # c)) = None"

definition list_ok :: "('k, 'v) nodes \<Rightarrow> ptr \<Rightarrow> ptr list \<Rightarrow> ptr \<Rightarrow> bool" where
  "list_ok m h as t \<longleftrightarrow> live m h \<and> live m t \<and> distinct (h # as @ [t]) \<and> linked (next_list m) (prev_list m) (h # as @ [t])"

definition nodes_ok :: "('k, 'v) nodes \<Rightarrow> ptr list \<Rightarrow> bool" where
  "nodes_ok m as \<longleftrightarrow> (\<forall>a \<in> set as. live m a \<and> packet m a \<noteq> None \<and> (\<exists>i. a = Node i)) \<and> distinct (map (key_of m) as)"

definition buckets_ok :: "('k \<Rightarrow> nat) \<Rightarrow> ('k, 'v) nodes \<Rightarrow> nat \<Rightarrow> nat \<Rightarrow> ptr list \<Rightarrow> (nat \<Rightarrow> ptr list) \<Rightarrow> bool" where
  "buckets_ok hash m t cap as cs \<longleftrightarrow>
     (\<forall>h < cap. chain_ok m (Slot t h) (cs h) \<and> set (cs h) = {a \<in> set as. hash (key_of m a) mod cap = h})"

definition fresh_ok :: "('k, 'v) nodes \<Rightarrow> nat \<Rightarrow> bool" where
  "fresh_ok m n \<longleftrightarrow> (\<forall>i. live m (Node i) \<longrightarrow> i < n) \<and> (\<forall>t h. live m (Slot t h) \<longrightarrow> t < n)"

definition map_rep :: "('k \<Rightarrow> nat) \<Rightarrow> ('k, 'v) linked_hashmap \<Rightarrow> ptr list \<Rightarrow> (nat \<Rightarrow> ptr list) \<Rightarrow> bool" where
  "map_rep hash mp as cs \<longleftrightarrow>
     list_ok (hm_nodes mp) (hm_head mp) as (hm_tail mp) \<and> nodes_ok (hm_nodes mp) as \<and>
     buckets_ok hash (hm_nodes mp) (hm_table mp) (hm_capacity mp) as cs \<and> fresh_ok (hm_nodes mp) (hm_fresh mp) \<and>
     0 < hm_capacity mp \<and> hm_table mp < hm_fresh mp \<and> (\<exists>i j. hm_head mp = Node i \<and> hm_tail mp = Node j)"

text \<open>
  A map that represents the association list \<open>xs\<close>. Its load factor is at most 1 and its capacity is
  never below the initial one.
\<close>

definition lhm_rel :: "('k \<Rightarrow> nat) \<Rightarrow> ('k, 'v) linked_hashmap \<Rightarrow> ('k \<times> 'v) list \<Rightarrow> bool" where
  "lhm_rel hash mp xs \<longleftrightarrow> (\<exists>as cs. map_rep hash mp as cs \<and> xs = contents (hm_nodes mp) as \<and> hm_sum mp = length as) \<and>
     hm_sum mp \<le> hm_capacity mp * 1 \<and> INIT_SIZE \<le> hm_capacity mp"

lemma map_fst_contents: "map fst (contents m as) = map (key_of m) as"
  by (simp add: contents_def key_of_def)

lemma lhm_rel_distinct: "lhm_rel hash mp xs \<Longrightarrow> distinct (map fst xs)"
  by (auto simp: lhm_rel_def map_rep_def nodes_ok_def map_fst_contents)

lemma new_map_rep: "lhm_rel hash lhm_new []"
proof -
  have "map_rep hash lhm_new [] (\<lambda>h. [])"
    by (auto simp: map_rep_def lhm_new_def fresh_lists_def Let_def list_ok_def nodes_ok_def buckets_ok_def chain_ok_def fresh_ok_def
        new_node_def new_table_def no_nodes_def INIT_SIZE_def)
  then show ?thesis by (auto simp: lhm_rel_def contents_def lhm_new_def)
qed

section \<open>Searching\<close>

lemma Find_loop_chain:
  assumes "chain_ok m s (xs @ c)" "\<forall>a \<in> set c. live m a \<and> packet m a \<noteq> None"
  shows "Find_loop k m (next_hash m (last (s # xs))) = Some (find (\<lambda>a. key_of m a = k) c)"
  using assms
proof (induction c arbitrary: xs)
  case Nil
  then show ?case by (simp add: Find_loop.simps chain_ok_def)
next
  case (Cons a c)
  have "next_hash m (last (s # xs)) = Some a"
  proof -
    have "s # xs @ a # c = butlast (s # xs) @ last (s # xs) # a # c" by (metis append_Cons append_butlast_last_id append.assoc append_Nil list.distinct(1))
    then show ?thesis using Cons.prems(1) linked_nth(1) unfolding chain_ok_def by metis
  qed
  moreover obtain k' v where "packet m a = Some (k', v)" using Cons.prems(2) by auto
  moreover have "Find_loop k m (next_hash m a) = Some (find (\<lambda>a. key_of m a = k) c)"
    using Cons.IH [of "xs @ [a]"] Cons.prems by simp
  ultimately show ?case using Cons.prems(2) by (simp add: Find_loop.simps [of k m "Some a"] get_def key_of_def)
qed

lemma find_unique:
  assumes "a \<in> set xs" "P a" "\<forall>b \<in> set xs. P b \<longrightarrow> b = a"
  shows "find P xs = Some a"
proof (cases "find P xs")
  case None
  then show ?thesis using assms(1,2) by (simp add: find_None_iff)
next
  case (Some b)
  then have "b \<in> set xs" "P b" by (auto simp: find_Some_iff)
  then show ?thesis using Some assms(3) by simp
qed

lemma find_in_bucket:
  assumes c: "set c = {a \<in> set as. hash (f a) mod cap = hash k mod cap}" and d: "distinct (map f as)"
  shows "find (\<lambda>a. f a = k) c = find (\<lambda>a. f a = k) as"
proof (cases "find (\<lambda>a. f a = k) as")
  case None
  then have "\<not> (\<exists>a. a \<in> set as \<and> f a = k)" by (simp add: find_None_iff)
  then have "\<not> (\<exists>a. a \<in> set c \<and> f a = k)" using c by simp
  then have "find (\<lambda>a. f a = k) c = None" by (simp add: find_None_iff)
  then show ?thesis using None by simp
next
  case (Some a)
  then have a: "a \<in> set as" "f a = k" by (auto simp: find_Some_iff)
  have "\<forall>b \<in> set c. f b = k \<longrightarrow> b = a" using c a d by (simp add: distinct_map inj_on_def)
  then show ?thesis using Some a c find_unique [of a c "\<lambda>a. f a = k"] by simp
qed

lemma buckets_chain: "buckets_ok hash m t cap as cs \<Longrightarrow> h < cap \<Longrightarrow> chain_ok m (Slot t h) (cs h)"
  by (simp add: buckets_ok_def)

lemma buckets_set: "buckets_ok hash m t cap as cs \<Longrightarrow> h < cap \<Longrightarrow> set (cs h) = {a \<in> set as. hash (key_of m a) mod cap = h}"
  by (simp add: buckets_ok_def)

lemma Find_rep:
  assumes "map_rep hash mp as cs"
  shows "Find hash k mp = Some (find (\<lambda>a. key_of (hm_nodes mp) a = k) as)"
proof -
  let ?m = "hm_nodes mp" and ?h = "hash k mod hm_capacity mp"
  let ?s = "Slot (hm_table mp) ?h"
  have b: "buckets_ok hash ?m (hm_table mp) (hm_capacity mp) as cs" and n: "nodes_ok ?m as" and h: "?h < hm_capacity mp"
    using assms by (simp_all add: map_rep_def)
  note c = buckets_chain [OF b h] buckets_set [OF b h]
  have "Find_loop k ?m (next_hash ?m (last (?s # []))) = Some (find (\<lambda>a. key_of ?m a = k) (cs ?h))"
    using c n by (intro Find_loop_chain) (auto simp: nodes_ok_def)
  moreover have "find (\<lambda>a. key_of ?m a = k) (cs ?h) = find (\<lambda>a. key_of ?m a = k) as"
    using n c(2) by (intro find_in_bucket [where hash = hash and cap = "hm_capacity mp"]) (simp_all add: nodes_ok_def)
  ultimately show ?thesis using c(1) by (simp add: Find_def get_def chain_ok_def)
qed

section \<open>Linking and unlinking\<close>

lemma chain_ok_frame:
  assumes "live m' s = live m s" "\<And>x. x \<in> set (s # c) \<Longrightarrow> next_hash m' x = next_hash m x \<and> prev_hash m' x = prev_hash m x"
  shows "chain_ok m' s c = chain_ok m s c"
proof -
  have "linked (next_hash m') (prev_hash m') (s # c) = linked (next_hash m) (prev_hash m) (s # c)"
    using assms(2) by (intro linked_cong)
  moreover have "next_hash m' (last (s # c)) = next_hash m (last (s # c))" using assms(2) last_in_set by blast
  ultimately show ?thesis using assms(1) by (simp add: chain_ok_def)
qed

lemma chain_next: "chain_ok m s c \<Longrightarrow> next_hash m s = (case c of [] \<Rightarrow> None | x # _ \<Rightarrow> Some x)"
  by (cases c) (auto simp: chain_ok_def)

definition after_hash :: "ptr \<Rightarrow> ptr \<Rightarrow> ('k, 'v) nodes \<Rightarrow> ('k, 'v) nodes" where
  "after_hash a s m =
     m\<lparr>next_hash := (next_hash m)(a := next_hash m s, s := Some a),
       prev_hash := (case next_hash m s of None \<Rightarrow> prev_hash m | Some x \<Rightarrow> (prev_hash m)(x := Some a))(a := Some s)\<rparr>"

lemma after_hash_simps [simp]:
  "live (after_hash a s m) = live m" "packet (after_hash a s m) = packet m"
  "prev_list (after_hash a s m) = prev_list m" "next_list (after_hash a s m) = next_list m"
  "key_of (after_hash a s m) = key_of m"
  by (simp_all add: after_hash_def key_of_def fun_eq_iff)

lemma after_hash_links:
  "next_hash (after_hash a s m) = (next_hash m)(a := next_hash m s, s := Some a)"
  "prev_hash (after_hash a s m) =
     (case next_hash m s of None \<Rightarrow> prev_hash m | Some x \<Rightarrow> (prev_hash m)(x := Some a))(a := Some s)"
  by (simp_all add: after_hash_def)

lemma InsertAfterHash_eq:
  assumes "chain_ok m s c" "\<forall>x \<in> set c. live m x" "live m a" "a \<notin> set (s # c)"
  shows "InsertAfterHash a s m = Some (after_hash a s m)"
proof -
  have s: "live m s" using assms(1) by (simp add: chain_ok_def)
  show ?thesis
  proof (cases c)
    case Nil
    then have "next_hash m s = None" using chain_next [OF assms(1)] by simp
    then show ?thesis using s assms(3,4)
      by (simp add: InsertAfterHash_def after_hash_def get_def if_ptr_def set_prev_hash_def set_next_hash_def)
  next
    case (Cons x xs)
    then have "next_hash m s = Some x" "live m x" using chain_next [OF assms(1)] assms(2) by simp_all
    then show ?thesis using s assms(3,4)
      by (simp add: InsertAfterHash_def after_hash_def get_def if_ptr_def set_prev_hash_def set_next_hash_def)
  qed
qed

lemma after_hash_chain:
  assumes "chain_ok m s c" "live m a" "a \<notin> set (s # c)"
  shows "chain_ok (after_hash a s m) s (a # c)"
proof -
  have d: "distinct (s # a # c)" using assms by (auto simp: chain_ok_def)
  have "linked (next_hash (after_hash a s m)) (prev_hash (after_hash a s m)) (s # a # c)"
  proof -
    have "linked (next_hash m) (prev_hash m) (s # c)" using assms(1) by (simp add: chain_ok_def)
    from linked_after_first [OF this d] show ?thesis
      using chain_next [OF assms(1)] by (cases c) (simp_all only: after_hash_links list.case option.case)
  qed
  moreover have "next_hash (after_hash a s m) (last (a # c)) = None"
  proof (cases c rule: rev_cases)
    case Nil
    then show ?thesis using assms(1) d by (simp add: after_hash_def chain_ok_def)
  next
    case (snoc ys y)
    then have "y \<noteq> a" "y \<noteq> s" using d by auto
    then show ?thesis using assms(1) snoc by (simp add: after_hash_def chain_ok_def)
  qed
  ultimately show ?thesis using d assms(1) by (simp add: chain_ok_def)
qed

lemma after_hash_other:
  assumes "chain_ok m s c" "x \<notin> set (s # a # c)"
  shows "next_hash (after_hash a s m) x = next_hash m x \<and> prev_hash (after_hash a s m) x = prev_hash m x"
  using assms by (cases c) (simp_all add: after_hash_def chain_next [OF assms(1)])

text \<open>A new node in the buckets.\<close>

lemma buckets_insert:
  assumes b: "buckets_ok hash m t cap as cs" and n: "\<forall>x \<in> set (a # as). live m x \<and> (\<exists>i. x = Node i)" and new: "a \<notin> set as"
    and h: "h = hash (key_of m a) mod cap" and cap: "0 < cap"
  shows "InsertAfterHash a (Slot t h) m = Some (after_hash a (Slot t h) m)"
    and "buckets_ok hash (after_hash a (Slot t h) m) t cap (as @ [a]) (cs(h := a # cs h))"
proof -
  have hc: "h < cap" using h cap by simp
  note c = buckets_chain [OF b hc] buckets_set [OF b hc]
  have a: "live m a" "a \<notin> set (Slot t h # cs h)" using c(2) n new by auto
  show "InsertAfterHash a (Slot t h) m = Some (after_hash a (Slot t h) m)"
    using c a n by (intro InsertAfterHash_eq) auto
  have "chain_ok (after_hash a (Slot t h) m) (Slot t h') (cs h')" if "h' < cap" "h' \<noteq> h" for h'
  proof -
    have "x \<notin> set (Slot t h # a # cs h)" if x: "x \<in> set (Slot t h' # cs h')" for x
      using x c(2) buckets_set [OF b \<open>h' < cap\<close>] n new \<open>h' \<noteq> h\<close> by auto
    then have "chain_ok (after_hash a (Slot t h) m) (Slot t h') (cs h') = chain_ok m (Slot t h') (cs h')"
      using after_hash_other [OF c(1)] by (intro chain_ok_frame) simp_all
    then show ?thesis using buckets_chain [OF b that(1)] by simp
  qed
  moreover have "chain_ok (after_hash a (Slot t h) m) (Slot t h) (a # cs h)" using c(1) a by (rule after_hash_chain)
  ultimately show "buckets_ok hash (after_hash a (Slot t h) m) t cap (as @ [a]) (cs(h := a # cs h))"
    using b h new by (auto simp: buckets_ok_def)
qed

text \<open>The linked list of all nodes.\<close>

definition before_link :: "ptr \<Rightarrow> ptr \<Rightarrow> ptr \<Rightarrow> ('k, 'v) nodes \<Rightarrow> ('k, 'v) nodes" where
  "before_link a u t m =
     m\<lparr>next_list := (next_list m)(u := Some a, a := Some t), prev_list := (prev_list m)(a := Some u, t := Some a)\<rparr>"

lemma before_link_simps [simp]:
  "live (before_link a u t m) = live m" "packet (before_link a u t m) = packet m"
  "prev_hash (before_link a u t m) = prev_hash m" "next_hash (before_link a u t m) = next_hash m"
  "key_of (before_link a u t m) = key_of m"
  by (simp_all add: before_link_def key_of_def fun_eq_iff)

lemma last_link: "list_ok m h as t \<Longrightarrow> prev_list m t = Some (last (h # as))"
  using linked_snoc [of "next_list m" "prev_list m" "butlast (h # as)" "last (h # as)" t]
  by (cases as rule: rev_cases) (simp_all add: list_ok_def)

lemma InsertBeforeLink_eq:
  assumes l: "list_ok m h as t" and n: "\<forall>x \<in> set as. live m x" and a: "live m a" "a \<notin> set (h # as @ [t])"
  shows "InsertBeforeLink a t m = Some (before_link a (last (h # as)) t m)"
proof -
  have u: "last (h # as) \<in> set (h # as)" by (rule last_in_set) simp
  then have "live m (last (h # as))" "last (h # as) \<noteq> a" "last (h # as) \<noteq> t" "a \<noteq> t"
    using l n a by (auto simp: list_ok_def split: if_splits)
  moreover have "live m t" using l by (simp add: list_ok_def)
  ultimately show ?thesis
    using a(1) last_link [OF l]
    by (simp add: InsertBeforeLink_def before_link_def get_def if_ptr_def set_prev_list_def set_next_list_def
        fun_upd_twist del: last.simps)
qed

lemma before_link_list:
  assumes l: "list_ok m h as t" and a: "live m a" "a \<notin> set (h # as @ [t])"
  shows "list_ok (before_link a (last (h # as)) t m) h (as @ [a]) t"
proof -
  obtain ys u where yu: "h # as = ys @ [u]" by (metis append_butlast_last_id list.discI)
  have u: "last (h # as) = u" using yu by simp
  have "h # as @ [t] = (h # as) @ [t]" "h # (as @ [a]) @ [t] = (h # as) @ [a, t]" by simp_all
  then have e: "h # as @ [t] = ys @ [u, t]" "h # (as @ [a]) @ [t] = ys @ [u, a, t]" unfolding yu by simp_all
  have d: "distinct (h # (as @ [a]) @ [t])" using l a by (auto simp: list_ok_def)
  have "linked (next_list m) (prev_list m) (h # as @ [t])" using l by (simp add: list_ok_def)
  from linked_before_last [OF this [unfolded e] d [unfolded e]]
  have "linked (next_list (before_link a (last (h # as)) t m)) (prev_list (before_link a (last (h # as)) t m)) (h # (as @ [a]) @ [t])"
    unfolding e u before_link_def by simp
  then show ?thesis using d l unfolding list_ok_def by (simp del: last.simps)
qed

section \<open>Frames\<close>

lemma list_ok_frame:
  assumes "\<And>x. x \<in> set (h # as @ [t]) \<Longrightarrow> live m' x = live m x \<and> next_list m' x = next_list m x \<and> prev_list m' x = prev_list m x"
  shows "list_ok m' h as t = list_ok m h as t"
proof -
  have "linked (next_list m') (prev_list m') (h # as @ [t]) = linked (next_list m) (prev_list m) (h # as @ [t])"
    using assms by (intro linked_cong) blast
  then show ?thesis using assms unfolding list_ok_def by simp
qed

lemma key_of_frame: "packet m' x = packet m x \<Longrightarrow> key_of m' x = key_of m x"
  by (simp add: key_of_def)

lemma nodes_ok_frame:
  assumes "\<And>x. x \<in> set as \<Longrightarrow> live m' x = live m x \<and> packet m' x = packet m x"
  shows "nodes_ok m' as = nodes_ok m as" "contents m' as = contents m as"
proof -
  have k: "map (key_of m') as = map (key_of m) as" using assms by (intro map_cong) (auto intro: key_of_frame)
  show "nodes_ok m' as = nodes_ok m as" unfolding nodes_ok_def k using assms by simp
  show "contents m' as = contents m as" using assms by (simp add: contents_def)
qed

lemma buckets_ok_frame:
  assumes b: "buckets_ok hash m t cap as cs"
    and n: "\<And>x. x \<in> set as \<Longrightarrow> packet m' x = packet m x \<and> next_hash m' x = next_hash m x \<and> prev_hash m' x = prev_hash m x"
    and s: "\<And>i. i < cap \<Longrightarrow> live m' (Slot t i) \<and> next_hash m' (Slot t i) = next_hash m (Slot t i) \<and> prev_hash m' (Slot t i) = prev_hash m (Slot t i)"
  shows "buckets_ok hash m' t cap as cs"
  unfolding buckets_ok_def
proof (intro allI impI conjI)
  fix h assume h: "h < cap"
  note c = buckets_chain [OF b h] buckets_set [OF b h]
  have "chain_ok m' (Slot t h) (cs h) = chain_ok m (Slot t h) (cs h)"
    using n s [OF h] c by (intro chain_ok_frame) (auto simp: chain_ok_def)
  then show "chain_ok m' (Slot t h) (cs h)" using c(1) by simp
  have "key_of m' a = key_of m a" if "a \<in> set as" for a using n [OF that] by (simp add: key_of_def)
  then show "set (cs h) = {a \<in> set as. hash (key_of m' a) mod cap = h}" using c(2) by auto
qed

section \<open>Insertion\<close>

lemma new_node_other:
  "x \<noteq> a \<Longrightarrow> live (new_node a y m) x = live m x" "x \<noteq> a \<Longrightarrow> packet (new_node a y m) x = packet m x"
  "x \<noteq> a \<Longrightarrow> next_hash (new_node a y m) x = next_hash m x" "x \<noteq> a \<Longrightarrow> prev_hash (new_node a y m) x = prev_hash m x"
  "x \<noteq> a \<Longrightarrow> next_list (new_node a y m) x = next_list m x" "x \<noteq> a \<Longrightarrow> prev_list (new_node a y m) x = prev_list m x"
  by (simp_all add: new_node_def)

lemma rep_live:
  assumes "map_rep hash mp as cs"
  shows "x \<in> set (hm_head mp # as @ [hm_tail mp]) \<Longrightarrow> live (hm_nodes mp) x"
    and "x \<in> set (hm_head mp # as @ [hm_tail mp]) \<Longrightarrow> \<exists>i < hm_fresh mp. x = Node i"
    and "h < hm_capacity mp \<Longrightarrow> live (hm_nodes mp) (Slot (hm_table mp) h)"
proof -
  show l: "live (hm_nodes mp) x" if "x \<in> set (hm_head mp # as @ [hm_tail mp])" for x
    using that assms by (auto simp: map_rep_def list_ok_def nodes_ok_def)
  show "\<exists>i < hm_fresh mp. x = Node i" if x: "x \<in> set (hm_head mp # as @ [hm_tail mp])" for x
  proof -
    obtain i where "x = Node i" using x assms by (auto simp: map_rep_def nodes_ok_def)
    then show ?thesis using l [OF x] assms by (auto simp: map_rep_def fresh_ok_def)
  qed
  show "live (hm_nodes mp) (Slot (hm_table mp) h)" if "h < hm_capacity mp" for h
    using assms that by (auto simp: map_rep_def buckets_ok_def chain_ok_def)
qed

lemma Insert_rep:
  assumes r: "map_rep hash mp as cs" and new: "fst x \<notin> key_of (hm_nodes mp) ` set as"
  obtains mp' cs' where "Insert hash x mp = Some (Node (hm_fresh mp), mp')" "map_rep hash mp' (as @ [Node (hm_fresh mp)]) cs'"
    "contents (hm_nodes mp') (as @ [Node (hm_fresh mp)]) = contents (hm_nodes mp) as @ [x]"
    "hm_sum mp' = hm_sum mp" "hm_capacity mp' = hm_capacity mp" "hm_tail mp' = hm_tail mp"
proof -
  let ?a = "Node (hm_fresh mp)" and ?t = "hm_table mp" and ?cap = "hm_capacity mp"
  let ?h = "hash (fst x) mod ?cap" and ?u = "last (hm_head mp # as)"
  define m0 where "m0 = new_node ?a (Some x) (hm_nodes mp)"
  define m1 where "m1 = after_hash ?a (Slot ?t ?h) m0"
  define m2 where "m2 = before_link ?a ?u (hm_tail mp) m1"
  have a: "?a \<notin> set (hm_head mp # as @ [hm_tail mp])" using rep_live(2) [OF r] by fastforce
  have o: "x \<noteq> ?a" if "x \<in> set (hm_head mp # as @ [hm_tail mp])" for x using a that by metis
  have k: "key_of m0 ?a = fst x" "live m0 ?a" "packet m0 ?a = Some x" by (simp_all add: m0_def key_of_def new_node_def)
  have l0: "list_ok m0 (hm_head mp) as (hm_tail mp)"
  proof -
    have "list_ok m0 (hm_head mp) as (hm_tail mp) = list_ok (hm_nodes mp) (hm_head mp) as (hm_tail mp)"
      using o unfolding m0_def by (intro list_ok_frame) (simp add: new_node_other)
    then show ?thesis using r by (simp add: map_rep_def)
  qed
  have n0: "nodes_ok m0 as" "contents m0 as = contents (hm_nodes mp) as"
  proof -
    have "live m0 x = live (hm_nodes mp) x \<and> packet m0 x = packet (hm_nodes mp) x" if "x \<in> set as" for x
      using o [of x] that unfolding m0_def by (simp add: new_node_other)
    from nodes_ok_frame [of as m0 "hm_nodes mp", OF this] show "nodes_ok m0 as" "contents m0 as = contents (hm_nodes mp) as"
      using r by (simp_all add: map_rep_def)
  qed
  have ko: "key_of m0 y = key_of (hm_nodes mp) y" if "y \<in> set as" for y
    using o [of y] that unfolding m0_def by (intro key_of_frame) (simp add: new_node_other)
  have b0: "buckets_ok hash m0 ?t ?cap as cs"
  proof (rule buckets_ok_frame)
    show "buckets_ok hash (hm_nodes mp) ?t ?cap as cs" using r by (simp add: map_rep_def)
  qed (use o rep_live(3) [OF r] in \<open>simp_all add: m0_def new_node_other\<close>)
  have n: "\<forall>y \<in> set (?a # as). live m0 y \<and> (\<exists>i. y = Node i)" using n0(1) k by (auto simp: nodes_ok_def)
  have cap: "0 < ?cap" using r by (simp add: map_rep_def)
  have an: "?a \<notin> set as" using a by simp
  note b1 = buckets_insert [OF b0 n an _ cap, of ?h, folded m1_def] 
  have l1: "list_ok m1 (hm_head mp) as (hm_tail mp)" using l0 by (subst list_ok_frame [where m = m0]) (simp_all add: m1_def)
  have "Insert hash x mp = Some (?a, mp\<lparr>hm_nodes := m2, hm_fresh := Suc (hm_fresh mp)\<rparr>)"
    using b1(1) k InsertBeforeLink_eq [OF l1 _ _ a] n
    by (simp add: Insert_def Let_def m2_def m1_def flip: m0_def del: last.simps)
  moreover have "map_rep hash (mp\<lparr>hm_nodes := m2, hm_fresh := Suc (hm_fresh mp)\<rparr>) (as @ [?a]) (cs(?h := ?a # cs ?h))"
  proof -
    have "list_ok m2 (hm_head mp) (as @ [?a]) (hm_tail mp)"
      unfolding m2_def using l1 k a by (intro before_link_list) (simp_all add: m1_def)
    moreover have "buckets_ok hash m2 ?t ?cap (as @ [?a]) (cs(?h := ?a # cs ?h))"
      using b1(2) k n by (intro buckets_ok_frame [OF b1(2)]) (auto simp: m2_def buckets_ok_def chain_ok_def)
    moreover have "nodes_ok m2 (as @ [?a])"
      using n0(1) n k ko new by (auto simp: nodes_ok_def m2_def m1_def)
    moreover have "fresh_ok m2 (Suc (hm_fresh mp))"
      using r by (auto simp: map_rep_def fresh_ok_def m2_def m1_def m0_def new_node_def less_Suc_eq)
    ultimately show ?thesis using r by (auto simp: map_rep_def)
  qed
  moreover have "contents m2 (as @ [?a]) = contents (hm_nodes mp) as @ [x]"
    using n0(2) k by (simp add: contents_def m2_def m1_def)
  ultimately show ?thesis using that by simp
qed

end
