(* ===== verification/LinkedHashmapOps.thy ===== *)
theory LinkedHashmapOps
  imports LinkedHashmapRep
begin

text \<open>
  The operations of \<open>LinkedHashmap\<close> on a map that satisfies the invariant of \<open>LinkedHashmapRep\<close>:
  the moves of the nodes to another table, removal, clearing and copying.
\<close>

section \<open>Moving the nodes to another table\<close>

lemma list_next:
  assumes "list_ok m h (xs @ a # ys) t"
  shows "next_list m a = Some (hd (ys @ [t]))" "prev_list m a = Some (last (h # xs))"
    "prev_list m (hd (ys @ [t])) = Some a" "next_list m (last (h # xs)) = Some a"
proof -
  obtain us u where u: "h # xs = us @ [u]" by (metis append_butlast_last_id list.discI)
  obtain w ws where w: "ys @ [t] = w # ws" by (cases ys) auto
  have "h # (xs @ a # ys) @ [t] = (h # xs) @ a # (ys @ [t])" by simp
  also have "\<dots> = us @ u # a # w # ws" unfolding u w by simp
  finally have l: "linked (next_list m) (prev_list m) (us @ u # a # w # ws)" using assms by (simp add: list_ok_def)
  have "last (h # xs) = u" "hd (ys @ [t]) = w" unfolding u w by simp_all
  then show "next_list m a = Some (hd (ys @ [t]))" "prev_list m a = Some (last (h # xs))"
    "prev_list m (hd (ys @ [t])) = Some a" "next_list m (last (h # xs)) = Some a"
    using linked_nth [OF l] linked_nth [of "next_list m" "prev_list m" "us @ [u]" a w ws] l by simp_all
qed

lemma list_first: "list_ok m h as t \<Longrightarrow> next_list m h = Some (hd (as @ [t]))"
  by (cases as) (simp_all add: list_ok_def)

definition unhash :: "ptr \<Rightarrow> ('k, 'v) nodes \<Rightarrow> ('k, 'v) nodes" where
  "unhash a m = m\<lparr>next_hash := (next_hash m)(a := None), prev_hash := (prev_hash m)(a := None)\<rparr>"

lemma unhash_simps [simp]:
  "live (unhash a m) = live m" "packet (unhash a m) = packet m" "key_of (unhash a m) = key_of m"
  "prev_list (unhash a m) = prev_list m" "next_list (unhash a m) = next_list m"
  "x \<noteq> a \<Longrightarrow> next_hash (unhash a m) x = next_hash m x" "x \<noteq> a \<Longrightarrow> prev_hash (unhash a m) x = prev_hash m x"
  by (simp_all add: unhash_def key_of_def fun_eq_iff)

lemma refill_step:
  assumes "live m c" "packet m c = Some x" "c \<noteq> t" "next_list m c = Some b"
    and "InsertAfterHash c (Slot temp (hash (fst x) mod cap)) (unhash c m) = Some m3" "next_list m3 = next_list m" "live m3 = live m"
  shows "refill hash temp cap t c m = refill hash temp cap t b m3"
proof -
  obtain k v where "x = (k, v)" by (cases x)
  then show ?thesis using assms
    by (subst refill.simps) (simp add: set_next_hash_def set_prev_hash_def get_def unhash_def)
qed

lemma refill_rep:
  assumes "list_ok m h (pre @ post) t" "nodes_ok m (pre @ post)" "buckets_ok hash m temp cap pre cs" "0 < cap"
  obtains m' cs' where "refill hash temp cap t (hd (post @ [t])) m = Some m'" "buckets_ok hash m' temp cap (pre @ post) cs'"
    "live m' = live m" "packet m' = packet m" "next_list m' = next_list m" "prev_list m' = prev_list m"
  using assms
proof (induction post arbitrary: pre m cs thesis)
  case Nil
  then show ?case by (simp add: refill.simps)
next
  case (Cons a post)
  let ?h = "hash (key_of m a) mod cap"
  let ?m = "after_hash a (Slot temp ?h) (unhash a m)"
  have a: "live m a" "a \<notin> set pre" "a \<noteq> t" using Cons.prems(2,3) by (auto simp: list_ok_def nodes_ok_def)
  obtain x where x: "packet m a = Some x" using Cons.prems(3) by (auto simp: nodes_ok_def)
  then have k: "key_of m a = fst x" by (simp add: key_of_def)
  have b: "buckets_ok hash (unhash a m) temp cap pre cs"
  proof (rule buckets_ok_frame [OF Cons.prems(4)])
    obtain i where "a = Node i" using Cons.prems(3) by (auto simp: nodes_ok_def)
    then show "live (unhash a m) (Slot temp j) \<and> next_hash (unhash a m) (Slot temp j) = next_hash m (Slot temp j) \<and>
        prev_hash (unhash a m) (Slot temp j) = prev_hash m (Slot temp j)" if "j < cap" for j
      using buckets_chain [OF Cons.prems(4) that] by (simp add: chain_ok_def)
    fix x assume "x \<in> set pre"
    then have "x \<noteq> a" using a(2) by metis
    then show "packet (unhash a m) x = packet m x \<and> next_hash (unhash a m) x = next_hash m x \<and> prev_hash (unhash a m) x = prev_hash m x"
      by simp
  qed
  have n: "\<forall>y \<in> set (a # pre). live (unhash a m) y \<and> (\<exists>i. y = Node i)" using Cons.prems(3) by (auto simp: nodes_ok_def)
  note bi = buckets_insert [OF b n a(2) _ Cons.prems(5), of ?h]
  have step: "refill hash temp cap t a m = refill hash temp cap t (hd (post @ [t])) ?m"
    by (rule refill_step [OF a(1) x a(3) list_next(1) [OF Cons.prems(2)]]) (use bi(1) k in simp_all)
  have "list_ok ?m h ((pre @ [a]) @ post) t" using Cons.prems(2) by (subst list_ok_frame [where m = m]) simp_all
  moreover have "nodes_ok ?m ((pre @ [a]) @ post)" using Cons.prems(3) by (subst nodes_ok_frame [where m = m]) simp_all
  moreover have "buckets_ok hash ?m temp cap (pre @ [a]) (cs(?h := a # cs ?h))" using bi(2) by simp
  ultimately obtain m' cs' where "refill hash temp cap t (hd (post @ [t])) ?m = Some m'"
      "buckets_ok hash m' temp cap ((pre @ [a]) @ post) cs'"
      "live m' = live ?m" "packet m' = packet ?m" "next_list m' = next_list ?m" "prev_list m' = prev_list ?m"
    using Cons.prems(5) by (rule Cons.IH [rotated])
  then show ?case using Cons.prems(1) step by simp
qed

lemma new_table_other [simp]:
  "live (new_table t cap m) (Node i) = live m (Node i)" "packet (new_table t cap m) (Node i) = packet m (Node i)"
  "next_list (new_table t cap m) (Node i) = next_list m (Node i)" "prev_list (new_table t cap m) (Node i) = prev_list m (Node i)"
  by (simp_all add: new_table_def)

lemma new_table_frame:
  assumes "\<forall>x \<in> set (h # as @ [t]). \<exists>i. x = Node i"
  shows "list_ok (new_table n cap m) h as t = list_ok m h as t" "nodes_ok (new_table n cap m) as = nodes_ok m as"
    "contents (new_table n cap m) as = contents m as"
proof -
  have o: "live (new_table n cap m) x = live m x \<and> packet (new_table n cap m) x = packet m x \<and>
     next_list (new_table n cap m) x = next_list m x \<and> prev_list (new_table n cap m) x = prev_list m x"
    if "x \<in> set (h # as @ [t])" for x
    using assms that by (metis new_table_other)
  show "list_ok (new_table n cap m) h as t = list_ok m h as t" using o by (intro list_ok_frame) simp
  show "nodes_ok (new_table n cap m) as = nodes_ok m as" "contents (new_table n cap m) as = contents m as"
    using o by (intro nodes_ok_frame, simp)+
qed

lemma new_table_buckets: "buckets_ok hash (new_table t cap m) t cap [] (\<lambda>h. [])"
  by (simp add: buckets_ok_def chain_ok_def new_table_def)

lemma delete_table_simps [simp]:
  "live (delete_table t cap m) (Node i) = live m (Node i)" "packet (delete_table t cap m) = packet m"
  "next_hash (delete_table t cap m) = next_hash m" "prev_hash (delete_table t cap m) = prev_hash m"
  "next_list (delete_table t cap m) = next_list m" "prev_list (delete_table t cap m) = prev_list m"
  "t' \<noteq> t \<Longrightarrow> live (delete_table t cap m) (Slot t' h) = live m (Slot t' h)"
  by (simp_all add: delete_table_def)

lemma delete_table_frame:
  assumes "\<forall>x \<in> set (h # as @ [t]). \<exists>i. x = Node i"
  shows "list_ok (delete_table n cap m) h as t = list_ok m h as t" "nodes_ok (delete_table n cap m) as = nodes_ok m as"
    "contents (delete_table n cap m) as = contents m as"
proof -
  have o: "live (delete_table n cap m) x = live m x" if "x \<in> set (h # as @ [t])" for x
    using assms that by (metis delete_table_simps(1))
  show "list_ok (delete_table n cap m) h as t = list_ok m h as t" using o by (intro list_ok_frame) simp
  show "nodes_ok (delete_table n cap m) as = nodes_ok m as" "contents (delete_table n cap m) as = contents m as"
    using o by (intro nodes_ok_frame, simp)+
qed

lemma resize_rep:
  assumes r: "map_rep hash mp as cs" and cap: "0 < cap"
  obtains mp' cs' where "resize hash cap mp = Some mp'" "map_rep hash mp' as cs'"
    "contents (hm_nodes mp') as = contents (hm_nodes mp) as" "hm_sum mp' = hm_sum mp" "hm_tail mp' = hm_tail mp"
    "hm_capacity mp' = cap"
proof -
  let ?m = "new_table (hm_fresh mp) cap (hm_nodes mp)"
  have N: "\<forall>x \<in> set (hm_head mp # as @ [hm_tail mp]). \<exists>i. x = Node i" using rep_live(2) [OF r] by blast
  have l: "list_ok ?m (hm_head mp) ([] @ as) (hm_tail mp)" and n: "nodes_ok ?m ([] @ as)"
    using r by (simp_all add: map_rep_def new_table_frame [OF N])
  obtain m' cs' where m': "refill hash (hm_fresh mp) cap (hm_tail mp) (hd (as @ [hm_tail mp])) ?m = Some m'"
    "buckets_ok hash m' (hm_fresh mp) cap ([] @ as) cs'"
    "live m' = live ?m" "packet m' = packet ?m" "next_list m' = next_list ?m" "prev_list m' = prev_list ?m"
    using refill_rep [OF l n new_table_buckets cap] by metis
  let ?mp = "mp\<lparr>hm_nodes := delete_table (hm_table mp) (hm_capacity mp) m', hm_capacity := cap,
                   hm_table := hm_fresh mp, hm_fresh := Suc (hm_fresh mp)\<rparr>"
  have lr: "list_ok (hm_nodes mp) (hm_head mp) as (hm_tail mp)" using r by (simp add: map_rep_def)
  have e: "resize hash cap mp = Some ?mp"
    using m'(1) list_first [OF lr] rep_live(1) [OF r, of "hm_head mp"] by (simp add: resize_def Let_def get_def)
  have ne: "hm_fresh mp \<noteq> hm_table mp" using r by (simp add: map_rep_def)
  have nm: "nodes_ok m' as = nodes_ok ?m as" "contents m' as = contents ?m as" by (intro nodes_ok_frame, simp add: m')+
  have "list_ok (hm_nodes ?mp) (hm_head mp) as (hm_tail mp)"
    using l m' list_ok_frame [of "hm_head mp" as "hm_tail mp" m' ?m] by (simp add: delete_table_frame(1) [OF N])
  moreover have "nodes_ok (hm_nodes ?mp) as" using n nm by (simp add: delete_table_frame(2) [OF N])
  moreover have "buckets_ok hash (hm_nodes ?mp) (hm_fresh mp) cap as cs'"
  proof (rule buckets_ok_frame [where m = m'])
    show "buckets_ok hash m' (hm_fresh mp) cap as cs'" using m'(2) by simp
    show "live (hm_nodes ?mp) (Slot (hm_fresh mp) i) \<and> next_hash (hm_nodes ?mp) (Slot (hm_fresh mp) i) = next_hash m' (Slot (hm_fresh mp) i) \<and>
        prev_hash (hm_nodes ?mp) (Slot (hm_fresh mp) i) = prev_hash m' (Slot (hm_fresh mp) i)" if "i < cap" for i
      using buckets_chain [OF m'(2) that] ne by (simp add: chain_ok_def)
  qed simp
  moreover have "fresh_ok (hm_nodes ?mp) (Suc (hm_fresh mp))"
    using r m'(3) by (auto simp: map_rep_def fresh_ok_def delete_table_def new_table_def less_Suc_eq)
  ultimately have "map_rep hash ?mp as cs'" using r cap by (simp add: map_rep_def)
  moreover have "contents (hm_nodes ?mp) as = contents (hm_nodes mp) as"
    using nm(2) by (simp add: new_table_frame(3) [OF N] delete_table_frame(3) [OF N])
  ultimately show ?thesis using that e by simp
qed

section \<open>Removal\<close>

definition unlink :: "ptr \<Rightarrow> ptr \<Rightarrow> ptr \<Rightarrow> ptr \<Rightarrow> ('k, 'v) nodes \<Rightarrow> ('k, 'v) nodes" where
  "unlink a u w p m =
     m\<lparr>next_list := (next_list m)(u := Some w), prev_list := (prev_list m)(w := Some u),
       next_hash := (next_hash m)(p := next_hash m a),
       prev_hash := (case next_hash m a of None \<Rightarrow> prev_hash m | Some x \<Rightarrow> (prev_hash m)(x := Some p))\<rparr>"

lemma unlink_simps [simp]:
  "live (unlink a u w p m) = live m" "packet (unlink a u w p m) = packet m" "key_of (unlink a u w p m) = key_of m"
  by (simp_all add: unlink_def key_of_def fun_eq_iff)

lemma unlink_links:
  "next_list (unlink a u w p m) = (next_list m)(u := Some w)" "prev_list (unlink a u w p m) = (prev_list m)(w := Some u)"
  "next_hash (unlink a u w p m) = (next_hash m)(p := next_hash m a)"
  "prev_hash (unlink a u w p m) = (case next_hash m a of None \<Rightarrow> prev_hash m | Some x \<Rightarrow> (prev_hash m)(x := Some p))"
  by (simp_all add: unlink_def)

lemma Delete_eq:
  assumes "live m a" "prev_list m a = Some u" "next_list m a = Some w" "prev_hash m a = Some p" "live m u" "live m w" "live m p"
    and "\<And>x. next_hash m a = Some x \<Longrightarrow> live m x"
  shows "Delete a m = Some (unlink a u w p m)"
  using assms
  by (cases "next_hash m a") (simp_all add: Delete_def unlink_def get_def if_ptr_def set_next_list_def set_prev_list_def
      set_next_hash_def set_prev_hash_def)

lemma chain_pos:
  assumes "chain_ok m s (us @ a # vs)"
  shows "next_hash m a = (case vs of [] \<Rightarrow> None | x # _ \<Rightarrow> Some x)" "prev_hash m a = Some (last (s # us))"
proof -
  obtain ps p where p: "s # us = ps @ [p]" by (metis append_butlast_last_id list.discI)
  have "s # us @ a # vs = (s # us) @ a # vs" by simp
  also have "\<dots> = ps @ p # a # vs" unfolding p by simp
  finally have l: "linked (next_hash m) (prev_hash m) (ps @ p # a # vs)" "next_hash m (last (ps @ p # a # vs)) = None"
    using assms unfolding chain_ok_def by metis+
  show "prev_hash m a = Some (last (s # us))" using linked_nth(2) [OF l(1)] p by simp
  show "next_hash m a = (case vs of [] \<Rightarrow> None | x # _ \<Rightarrow> Some x)"
    using l linked_nth(1) [of "next_hash m" "prev_hash m" "ps @ [p]" a] by (cases vs) simp_all
qed

lemma unlink_chain:
  assumes c: "chain_ok m s (us @ a # vs)"
  shows "chain_ok (unlink a u w (last (s # us)) m) s (us @ vs)"
proof -
  obtain ps p where p: "s # us = ps @ [p]" by (metis append_butlast_last_id list.discI)
  have lp: "last (s # us) = p" using p by simp
  have ex: "s # us @ zs = ps @ p # zs" for zs using p by (metis append.assoc append_Cons append_Nil)
  note c' = c [unfolded chain_ok_def ex]
  let ?m = "unlink a u w p m"
  have "linked (next_hash ?m) (prev_hash ?m) (ps @ p # vs) \<and> next_hash ?m (last (ps @ p # vs)) = None"
  proof (cases vs)
    case Nil
    then show ?thesis using linked_unlink_last [of "next_hash m" "prev_hash m" ps p a] c' chain_pos(1) [OF c]
      by (simp add: unlink_links)
  next
    case (Cons x zs)
    have "last (ps @ p # x # zs) \<noteq> p" "last (ps @ p # x # zs) = last (ps @ p # a # x # zs)"
      using c' last_in_set [of "x # zs"] unfolding Cons by (auto split: if_splits)
    then show ?thesis using linked_unlink [of "next_hash m" "prev_hash m" ps p a x zs] c' chain_pos(1) [OF c]
      unfolding Cons by (simp add: unlink_links)
  qed
  then show ?thesis unfolding lp chain_ok_def ex using c' by auto
qed

lemma unlink_chain_other:
  assumes "chain_ok m s (us @ a # vs)" "y \<notin> set (s # us @ a # vs)"
  shows "next_hash (unlink a u w (last (s # us)) m) y = next_hash m y \<and> prev_hash (unlink a u w (last (s # us)) m) y = prev_hash m y"
proof -
  have "last (s # us) \<in> set (s # us)" by (rule last_in_set) simp
  then have "y \<noteq> last (s # us)" using assms(2) by (metis UnCI append_Cons set_append)
  then show ?thesis using assms(2) chain_pos(1) [OF assms(1)] by (cases vs) (simp_all add: unlink_links del: last.simps)
qed

lemma unlink_list:
  assumes l: "list_ok m h (xs @ a # ys) t"
  shows "list_ok (unlink a (last (h # xs)) (hd (ys @ [t])) p m) h (xs @ ys) t"
proof -
  obtain us u where u: "h # xs = us @ [u]" by (metis append_butlast_last_id list.discI)
  obtain w ws where w: "ys @ [t] = w # ws" by (cases ys) auto
  have ex: "h # (xs @ zs) @ [t] = us @ u # (zs @ [t])" for zs using u by (metis append.assoc append_Cons append_Nil)
  have e: "last (h # xs) = u" "hd (ys @ [t]) = w" "(a # ys) @ [t] = a # w # ws" unfolding u w using w by simp_all
  note l' = l [unfolded list_ok_def ex e w]
  show ?thesis unfolding list_ok_def ex e w using l' linked_unlink [of "next_list m" "prev_list m" us u a w ws]
    by (auto simp: unlink_links)
qed

lemma delete_rep:
  assumes r: "map_rep hash mp (xs @ a # ys) cs"
  obtains m1 m2 cs' where "Delete a (hm_nodes mp) = Some m1" "delete_node a m1 = Some m2"
    "map_rep hash (mp\<lparr>hm_nodes := m2, hm_sum := n\<rparr>) (xs @ ys) cs'"
    "contents m2 (xs @ ys) = contents (hm_nodes mp) xs @ contents (hm_nodes mp) ys"
proof -
  let ?m = "hm_nodes mp" and ?t = "hm_table mp" and ?cap = "hm_capacity mp"
  let ?h = "hash (key_of ?m a) mod ?cap" and ?u = "last (hm_head mp # xs)" and ?w = "hd (ys @ [hm_tail mp])"
  have l: "list_ok ?m (hm_head mp) (xs @ a # ys) (hm_tail mp)" and n: "nodes_ok ?m (xs @ a # ys)"
    and b: "buckets_ok hash ?m ?t ?cap (xs @ a # ys) cs" and h: "?h < ?cap" using r by (simp_all add: map_rep_def)
  have "a \<in> set (cs ?h)" using buckets_set [OF b h] by simp
  then obtain us vs where cs: "cs ?h = us @ a # vs" by (meson split_list)
  let ?p = "last (Slot ?t ?h # us)"
  note c = buckets_chain [OF b h, unfolded cs]
  have p: "?p \<in> set (Slot ?t ?h # us)" by (rule last_in_set) simp
  have u: "?u \<in> set (hm_head mp # xs)" by (rule last_in_set) simp
  have w: "?w \<in> set (ys @ [hm_tail mp])" by (rule hd_in_set) simp
  define m1 where "m1 = unlink a ?u ?w ?p ?m"
  define m2 where "m2 = m1\<lparr>live := (live m1)(a := False)\<rparr>"
  have lv: "live ?m y" if "y \<in> set (hm_head mp # (xs @ a # ys) @ [hm_tail mp])" for y using rep_live(1) [OF r that] .
  have bl: "live ?m y" if "y \<in> set (us @ a # vs)" for y
    using that buckets_set [OF b h] lv by (auto simp: cs)
  have "Delete a ?m = Some m1" unfolding m1_def
  proof (rule Delete_eq)
    show "live ?m ?p" using p rep_live(3) [OF r h] bl by auto
    show "live ?m x" if "next_hash ?m a = Some x" for x using that chain_pos(1) [OF c] bl by (cases vs) auto
  qed (use lv u w list_next [OF l] chain_pos(2) [OF c] in \<open>auto simp del: last.simps\<close>)
  moreover have "delete_node a m1 = Some m2" using lv by (simp add: delete_node_def m2_def m1_def)
  moreover have d: "a \<notin> set (hm_head mp # (xs @ ys) @ [hm_tail mp])" using l by (auto simp: list_ok_def)
  moreover have "\<exists>cs'. map_rep hash (mp\<lparr>hm_nodes := m2, hm_sum := n\<rparr>) (xs @ ys) cs'"
  proof -
    have "list_ok m2 (hm_head mp) (xs @ ys) (hm_tail mp)"
      using unlink_list [OF l, of ?p] d by (subst list_ok_frame [where m = m1]) (auto simp: m2_def m1_def)
    moreover have "nodes_ok m2 (xs @ ys)"
    proof -
      have "nodes_ok m2 (xs @ ys) = nodes_ok ?m (xs @ ys)"
        using d by (intro nodes_ok_frame) (auto simp: m2_def m1_def)
      then show ?thesis using n by (auto simp: nodes_ok_def)
    qed
    moreover have "buckets_ok hash m2 ?t ?cap (xs @ ys) (cs(?h := us @ vs))"
      unfolding buckets_ok_def
    proof (intro allI impI conjI)
      fix h' assume h': "h' < ?cap"
      have k: "key_of m2 = key_of ?m" by (simp add: m2_def m1_def key_of_def fun_eq_iff)
      have aS: "a \<noteq> Slot ?t i" for i using n by (auto simp: nodes_ok_def)
      have sl: "live m2 (Slot ?t h')" using rep_live(3) [OF r h'] aS [of h'] by (simp add: m2_def m1_def)
      have f: "next_hash m2 = next_hash m1" "prev_hash m2 = prev_hash m1" by (simp_all add: m2_def)
      show "chain_ok m2 (Slot ?t h') ((cs(?h := us @ vs)) h')"
      proof (cases "h' = ?h")
        case True
        then show ?thesis using unlink_chain [OF c, of ?u ?w, folded m1_def] f sl by (simp add: chain_ok_def del: last.simps)
      next
        case False
        have "y \<notin> set (Slot ?t ?h # us @ a # vs)" if "y \<in> set (Slot ?t h' # cs h')" for y
          using that buckets_set [OF b h', folded cs] buckets_set [OF b h] n False by (auto simp: nodes_ok_def simp flip: cs)
        then have "chain_ok m2 (Slot ?t h') (cs h') = chain_ok ?m (Slot ?t h') (cs h')"
          using unlink_chain_other [OF c, of _ ?u ?w, folded m1_def] f sl rep_live(3) [OF r h'] by (intro chain_ok_frame) auto
        then show ?thesis using buckets_chain [OF b h'] False by simp
      qed
      have "a \<notin> set (us @ vs)" using c by (auto simp: chain_ok_def)
      then show "set ((cs(?h := us @ vs)) h') = {x \<in> set (xs @ ys). hash (key_of m2 x) mod ?cap = h'}"
        using buckets_set [OF b h'] buckets_set [OF b h, unfolded cs] d by (auto simp: k)
    qed
    moreover have "fresh_ok m2 (hm_fresh mp)" using r by (auto simp: map_rep_def fresh_ok_def m2_def m1_def)
    ultimately show ?thesis using r by (auto simp: map_rep_def)
  qed
  moreover have "contents m2 (xs @ ys) = contents ?m xs @ contents ?m ys" by (simp add: contents_def m2_def m1_def)
  ultimately show ?thesis using that by blast
qed

section \<open>Clearing\<close>

lemma linked_tl: "linked n p (a # xs) \<Longrightarrow> linked n p xs"
  by (cases xs) simp_all

lemma Clear_loop_step:
  assumes "live m c" "c \<noteq> t" "next_list m c = Some b"
  shows "Clear_loop t c m = Clear_loop t b (m\<lparr>live := (live m)(c := False)\<rparr>)"
  using assms by (subst Clear_loop.simps) (simp add: get_def delete_node_def)

lemma Clear_loop_list:
  assumes "\<forall>x \<in> set as. live m x \<and> x \<noteq> t" "distinct as" "linked (next_list m) (prev_list m) (as @ [t])"
  shows "Clear_loop t (hd (as @ [t])) m = Some (m\<lparr>live := (\<lambda>x. live m x \<and> x \<notin> set as)\<rparr>)"
  using assms
proof (induction as arbitrary: m)
  case Nil
  then show ?case by (simp add: Clear_loop.simps)
next
  case (Cons a as)
  let ?m = "m\<lparr>live := (live m)(a := False)\<rparr>"
  have nx: "next_list m a = Some (hd (as @ [t]))" and lk: "linked (next_list m) (prev_list m) (as @ [t])"
    using Cons.prems(3) by (cases as; simp)+
  have "Clear_loop t a m = Clear_loop t (hd (as @ [t])) ?m"
    using Clear_loop_step [of m a t] Cons.prems(1) nx by simp
  also have "\<dots> = Some (?m\<lparr>live := (\<lambda>x. live ?m x \<and> x \<notin> set as)\<rparr>)"
    using Cons.prems lk by (intro Cons.IH) auto
  also have "(\<lambda>x. live ?m x \<and> x \<notin> set as) = (\<lambda>x. live m x \<and> x \<notin> set (a # as))" by (auto simp: fun_eq_iff)
  finally show ?case by simp
qed

lemma Clear_rep:
  assumes r: "map_rep hash mp as cs"
  obtains m' where "Clear mp = Some m'" "list_ok m' (hm_head mp) [] (hm_tail mp)" "fresh_ok m' (hm_fresh mp)"
proof -
  let ?m = "hm_nodes mp" and ?h = "hm_head mp" and ?t = "hm_tail mp"
  have l: "list_ok ?m ?h as ?t" using r by (simp add: map_rep_def)
  have d: "distinct (?h # as @ [?t])" and lh: "live ?m ?h" and lt: "live ?m ?t" using l by (simp_all add: list_ok_def)
  obtain i j where ij: "?h = Node i" "?t = Node j" using r by (auto simp: map_rep_def)
  have "Clear_loop ?t (hd (as @ [?t])) ?m = Some (?m\<lparr>live := (\<lambda>x. live ?m x \<and> x \<notin> set as)\<rparr>)"
    using l rep_live(1) [OF r] by (intro Clear_loop_list) (auto simp: list_ok_def dest: linked_tl)
  then have "Clear mp = Some (delete_table (hm_table mp) (hm_capacity mp) (?m\<lparr>live := (\<lambda>x. live ?m x \<and> x \<notin> set as)\<rparr>)
     \<lparr>next_list := (next_list ?m)(?h := Some ?t), prev_list := (prev_list ?m)(?t := Some ?h)\<rparr>)" (is "_ = Some ?m'")
    using list_first [OF l] lh lt d ij
    by (simp add: Clear_def get_def Let_def set_next_list_def set_prev_list_def delete_table_def)
  moreover have "list_ok ?m' ?h [] ?t" using lh lt d ij by (simp add: list_ok_def delete_table_def)
  moreover have "fresh_ok ?m' (hm_fresh mp)" using r by (auto simp: map_rep_def fresh_ok_def delete_table_def)
  ultimately show ?thesis using that by blast
qed

section \<open>Copying\<close>

lemma copy_loop_step:
  assumes "c \<noteq> hm_tail other" "live (hm_nodes other) c" "packet (hm_nodes other) c = Some x" "Insert hash x mp = Some (a, mp1)"
    and "next_list (hm_nodes other) c = Some b"
  shows "copy_loop hash other c mp = copy_loop hash other b mp1"
  using assms by (subst copy_loop.simps) (simp add: get_def)

lemma contents_simps [simp]: "contents m [] = []" "contents m (a # as) = the (packet m a) # contents m as"
  "contents m (as @ bs) = contents m as @ contents m bs" "length (contents m as) = length as"
  by (simp_all add: contents_def)

lemma copy_loop_rep:
  assumes "map_rep hash other (xs @ ys) cs" "map_rep hash mp as bs" "contents (hm_nodes mp) as = contents (hm_nodes other) xs"
  obtains mp' as' bs' where "copy_loop hash other (hd (ys @ [hm_tail other])) mp = Some mp'" "map_rep hash mp' as' bs'"
    "contents (hm_nodes mp') as' = contents (hm_nodes other) (xs @ ys)" "hm_sum mp' = hm_sum mp"
    "hm_capacity mp' = hm_capacity mp"
  using assms
proof (induction ys arbitrary: xs mp as bs thesis)
  case Nil
  then show ?case by (auto simp: copy_loop.simps)
next
  case (Cons a ys)
  have l: "list_ok (hm_nodes other) (hm_head other) (xs @ a # ys) (hm_tail other)" and n: "nodes_ok (hm_nodes other) (xs @ a # ys)"
    using Cons.prems(2) by (simp_all add: map_rep_def)
  obtain x where x: "packet (hm_nodes other) a = Some x" using n by (auto simp: nodes_ok_def)
  have "key_of (hm_nodes mp) ` set as = fst ` set (contents (hm_nodes mp) as)" by (simp add: contents_def key_of_def image_image)
  also have "\<dots> = key_of (hm_nodes other) ` set xs" unfolding Cons.prems(4) by (simp add: contents_def key_of_def image_image)
  finally have new: "fst x \<notin> key_of (hm_nodes mp) ` set as" using n x by (auto simp: nodes_ok_def key_of_def)
  from Insert_rep [OF Cons.prems(3) new] obtain mp1 bs1 where i: "Insert hash x mp = Some (Node (hm_fresh mp), mp1)"
    "map_rep hash mp1 (as @ [Node (hm_fresh mp)]) bs1"
    "contents (hm_nodes mp1) (as @ [Node (hm_fresh mp)]) = contents (hm_nodes mp) as @ [x]" "hm_sum mp1 = hm_sum mp"
    "hm_capacity mp1 = hm_capacity mp" by metis
  have "live (hm_nodes other) a" "a \<noteq> hm_tail other" using n l by (auto simp: nodes_ok_def list_ok_def)
  then have s: "copy_loop hash other a mp = copy_loop hash other (hd (ys @ [hm_tail other])) mp1"
    using copy_loop_step [OF _ _ x i(1) list_next(1) [OF l]] by simp
  have "map_rep hash other ((xs @ [a]) @ ys) cs" using Cons.prems(2) by simp
  moreover have "contents (hm_nodes mp1) (as @ [Node (hm_fresh mp)]) = contents (hm_nodes other) (xs @ [a])"
    using i(3) Cons.prems(4) x by simp
  ultimately obtain mp' as' bs' where "copy_loop hash other (hd (ys @ [hm_tail other])) mp1 = Some mp'" "map_rep hash mp' as' bs'"
    "contents (hm_nodes mp') as' = contents (hm_nodes other) ((xs @ [a]) @ ys)" "hm_sum mp' = hm_sum mp1"
    "hm_capacity mp' = hm_capacity mp1"
    using Cons.IH [OF _ _ i(2)] by blast
  then show ?case using Cons.prems(1) s i(4,5) by simp
qed

lemma empty_rep:
  assumes "list_ok m h [] t" "fresh_ok m n" "0 < cap" "h = Node i" "t = Node j"
  shows "map_rep hash \<lparr>hm_nodes = new_table n cap m, hm_capacity = cap, hm_sum = k, hm_table = n, hm_head = h, hm_tail = t,
     hm_fresh = Suc n\<rparr> [] (\<lambda>h. [])"
proof -
  have "\<forall>x \<in> set (h # [] @ [t]). \<exists>i. x = Node i" using assms by simp
  note f = new_table_frame(1) [OF this]
  have "fresh_ok (new_table n cap m) (Suc n)" using assms(2) by (auto simp: fresh_ok_def new_table_def less_Suc_eq)
  then show ?thesis using assms f new_table_buckets by (auto simp: map_rep_def nodes_ok_def)
qed

lemma fresh_lists_rep:
  "0 < cap \<Longrightarrow> map_rep hash \<lparr>hm_nodes = fresh_lists cap, hm_capacity = cap, hm_sum = k, hm_table = 0, hm_head = Node 1, hm_tail = Node 2,
     hm_fresh = 3\<rparr> [] (\<lambda>h. [])"
  by (auto simp: map_rep_def fresh_lists_def Let_def list_ok_def nodes_ok_def buckets_ok_def chain_ok_def fresh_ok_def
      new_node_def new_table_def no_nodes_def)

end
