(* ===== verification/HashmapRefinement.thy ===== *)
theory HashmapRefinement
  imports LinkedHashmapOps DataRefinement "HOL-Library.AList"
begin

text \<open>
  The public operations of \<open>LinkedHashmap\<close> refine an association list in insertion order. The
  contract of such a map is the locale \<open>ordered_map\<close>, an extension of \<open>data_refinement\<close> by what the
  reads return; \<^verbatim>\<open>linked_hashmap\<close> is an instance.
\<close>

section \<open>The operations one by one\<close>

lemma lhm_relE:
  assumes "lhm_rel hash mp xs"
  obtains as cs where "map_rep hash mp as cs" "xs = contents (hm_nodes mp) as" "hm_sum mp = length as"
    "hm_sum mp \<le> hm_capacity mp" "INIT_SIZE \<le> hm_capacity mp"
  using assms by (auto simp: lhm_rel_def)

lemma lhm_relI:
  "map_rep hash mp as cs \<Longrightarrow> contents (hm_nodes mp) as = xs \<Longrightarrow> hm_sum mp = length as \<Longrightarrow> hm_sum mp \<le> hm_capacity mp \<Longrightarrow>
    INIT_SIZE \<le> hm_capacity mp \<Longrightarrow> lhm_rel hash mp xs"
  by (auto simp: lhm_rel_def)

lemma lhm_rel_sum:
  assumes "lhm_rel hash mp xs"
  shows "hm_sum mp = length xs" "hm_sum mp \<le> hm_capacity mp" "INIT_SIZE \<le> hm_capacity mp"
  using assms by (auto elim!: lhm_relE)

lemma find_key:
  assumes "nodes_ok m as"
  shows "find (\<lambda>a. key_of m a = k) as = None \<Longrightarrow> map_of (contents m as) k = None"
    and "find (\<lambda>a. key_of m a = k) as = Some a \<Longrightarrow> \<exists>xs ys v. as = xs @ a # ys \<and> packet m a = Some (k, v) \<and> map_of (contents m as) k = Some v"
proof -
  show "map_of (contents m as) k = None" if "find (\<lambda>a. key_of m a = k) as = None"
    using that by (auto simp: find_None_iff map_of_eq_None_iff contents_def key_of_def)
  show "\<exists>xs ys v. as = xs @ a # ys \<and> packet m a = Some (k, v) \<and> map_of (contents m as) k = Some v"
    if f: "find (\<lambda>a. key_of m a = k) as = Some a"
  proof -
    have a: "a \<in> set as" "key_of m a = k" using f by (auto simp: find_Some_iff)
    then obtain v where v: "packet m a = Some (k, v)" using assms by (auto simp: nodes_ok_def key_of_def)
    have "distinct (map fst (contents m as))" using assms by (simp add: map_fst_contents nodes_ok_def)
    moreover have "the (packet m a) \<in> set (contents m as)" using a(1) by (simp add: contents_def)
    ultimately have "map_of (contents m as) k = Some v" using v by simp
    then show ?thesis using v split_list [OF a(1)] by blast
  qed
qed

lemma Find_rel:
  assumes "lhm_rel hash mp xs" "map_of xs k = None"
  shows "Find hash k mp = Some None"
proof -
  obtain as cs where r: "map_rep hash mp as cs" "xs = contents (hm_nodes mp) as" using assms(1) by (rule lhm_relE)
  have "nodes_ok (hm_nodes mp) as" using r by (simp add: map_rep_def)
  then have "find (\<lambda>a. key_of (hm_nodes mp) a = k) as = None"
    using find_key(2) [of "hm_nodes mp" as k] assms(2) r(2) by (cases "find (\<lambda>a. key_of (hm_nodes mp) a = k) as") auto
  then show ?thesis using Find_rep [OF r(1)] by simp
qed

lemma Find_rel_Some:
  assumes "map_rep hash mp as cs" "map_of (contents (hm_nodes mp) as) k = Some v"
  obtains a xs ys where "Find hash k mp = Some (Some a)" "as = xs @ a # ys" "packet (hm_nodes mp) a = Some (k, v)" "a \<noteq> hm_tail mp"
proof -
  have n: "nodes_ok (hm_nodes mp) as" and t: "hm_tail mp \<notin> set as" using assms(1) by (auto simp: map_rep_def list_ok_def)
  obtain a where a: "find (\<lambda>a. key_of (hm_nodes mp) a = k) as = Some a"
    using find_key(1) [OF n, of k] assms(2) by (cases "find (\<lambda>a. key_of (hm_nodes mp) a = k) as") auto
  then show ?thesis using find_key(2) [OF n a] Find_rep [OF assms(1), of k] assms(2) t that by fastforce
qed

lemma lhm_at_rel:
  assumes "lhm_rel hash mp xs"
  shows "lhm_at hash k mp = Some (case map_of xs k of None \<Rightarrow> Inl index_out_of_bound | Some v \<Rightarrow> Inr v)"
proof -
  obtain as cs where r: "map_rep hash mp as cs" "xs = contents (hm_nodes mp) as" using assms by (rule lhm_relE)
  show ?thesis
  proof (cases "map_of xs k")
    case None
    then show ?thesis using Find_rel [OF assms None] by (simp add: lhm_at_def)
  next
    case (Some v)
    then obtain a us ws where a: "Find hash k mp = Some (Some a)" "as = us @ a # ws" "packet (hm_nodes mp) a = Some (k, v)"
      using Find_rel_Some [OF r(1), of k v] r(2) by metis
    then have "live (hm_nodes mp) a" using rep_live(1) [OF r(1)] by simp
    then show ?thesis using a Some by (simp add: lhm_at_def get_def)
  qed
qed

lemma lhm_count_rel: "lhm_rel hash mp xs \<Longrightarrow> lhm_count hash k mp = Some (of_bool (k \<in> fst ` set xs))"
proof (cases "map_of xs k")
  case None
  moreover assume "lhm_rel hash mp xs"
  ultimately show ?thesis using Find_rel [of hash mp xs k] by (auto simp: lhm_count_def map_of_eq_None_iff)
next
  case (Some v)
  assume "lhm_rel hash mp xs"
  then obtain as cs where r: "map_rep hash mp as cs" "xs = contents (hm_nodes mp) as" by (rule lhm_relE)
  obtain a us ws where "Find hash k mp = Some (Some a)" using Find_rel_Some [OF r(1), of k v] Some r(2) by metis
  moreover have "k \<in> fst ` set xs" using Some by (metis fst_conv image_eqI map_of_SomeD)
  ultimately show ?thesis by (simp add: lhm_count_def)
qed

text \<open>Adding a new key, with the table doubled where the load passes 1.\<close>

lemma Expand_rel:
  assumes "map_rep hash mp as cs" "hm_sum mp = length as" "hm_sum mp \<le> Suc (hm_capacity mp)" "INIT_SIZE \<le> hm_capacity mp"
  obtains mp' cs' where "Expand hash mp = Some mp'" "map_rep hash mp' as cs'" "contents (hm_nodes mp') as = contents (hm_nodes mp) as"
    "hm_sum mp' = hm_sum mp" "hm_sum mp' \<le> hm_capacity mp'" "INIT_SIZE \<le> hm_capacity mp'" "hm_tail mp' = hm_tail mp"
proof (cases "hm_sum mp \<le> hm_capacity mp * 1")
  case True
  then show ?thesis using assms that by (simp add: Expand_def)
next
  case False
  have p: "0 < hm_capacity mp * 2" using assms(4) by (simp add: INIT_SIZE_def)
  obtain mp' cs' where "resize hash (hm_capacity mp * 2) mp = Some mp'" "map_rep hash mp' as cs'"
    "contents (hm_nodes mp') as = contents (hm_nodes mp) as" "hm_sum mp' = hm_sum mp" "hm_tail mp' = hm_tail mp"
    "hm_capacity mp' = hm_capacity mp * 2"
    using resize_rep [OF assms(1) p] by metis
  then show ?thesis using False assms that [of mp' cs'] p by (simp add: Expand_def)
qed

lemma add_rel:
  assumes rel: "lhm_rel hash mp xs" and new: "map_of xs (fst x) = None"
  obtains a mp1 mp2 as cs where "Insert hash x mp = Some (a, mp1)" "Expand hash (mp1\<lparr>hm_sum := Suc (hm_sum mp1)\<rparr>) = Some mp2"
    "lhm_rel hash mp2 (xs @ [x])" "map_rep hash mp2 (as @ [a]) cs" "contents (hm_nodes mp2) (as @ [a]) = xs @ [x]"
proof -
  obtain as cs where r: "map_rep hash mp as cs" "xs = contents (hm_nodes mp) as" "hm_sum mp = length as" "hm_sum mp \<le> hm_capacity mp"
    "INIT_SIZE \<le> hm_capacity mp" using rel by (rule lhm_relE)
  have "fst x \<notin> key_of (hm_nodes mp) ` set as"
    using new unfolding r(2) map_of_eq_None_iff by (simp add: contents_def key_of_def image_image)
  from Insert_rep [OF r(1) this] obtain mp1 cs1 where i: "Insert hash x mp = Some (Node (hm_fresh mp), mp1)"
    "map_rep hash mp1 (as @ [Node (hm_fresh mp)]) cs1"
    "contents (hm_nodes mp1) (as @ [Node (hm_fresh mp)]) = contents (hm_nodes mp) as @ [x]"
    "hm_sum mp1 = hm_sum mp" "hm_capacity mp1 = hm_capacity mp" by metis
  have "map_rep hash (mp1\<lparr>hm_sum := Suc (hm_sum mp1)\<rparr>) (as @ [Node (hm_fresh mp)]) cs1" using i(2) by (simp add: map_rep_def)
  then obtain mp2 cs2 where e: "Expand hash (mp1\<lparr>hm_sum := Suc (hm_sum mp1)\<rparr>) = Some mp2"
    "map_rep hash mp2 (as @ [Node (hm_fresh mp)]) cs2" "contents (hm_nodes mp2) (as @ [Node (hm_fresh mp)]) = contents (hm_nodes mp1) (as @ [Node (hm_fresh mp)])"
    "hm_sum mp2 = Suc (hm_sum mp1)" "hm_sum mp2 \<le> hm_capacity mp2" "INIT_SIZE \<le> hm_capacity mp2"
    by (rule Expand_rel) (use i(4,5) r(3-5) in simp_all)
  have "lhm_rel hash mp2 (xs @ [x])" using i r e by (intro lhm_relI [OF e(2)]) simp_all
  then show ?thesis using that [OF i(1) e(1) _ e(2)] e(3) i(3) r(2) by simp
qed

lemma lhm_insert_new:
  assumes "lhm_rel hash mp xs" "map_of xs (fst x) = None"
  obtains a mp' where "lhm_insert hash x mp = Some (a, True, mp')" "lhm_rel hash mp' (xs @ [x])"
proof -
  obtain a mp1 mp2 where "Insert hash x mp = Some (a, mp1)" "Expand hash (mp1\<lparr>hm_sum := Suc (hm_sum mp1)\<rparr>) = Some mp2"
    "lhm_rel hash mp2 (xs @ [x])"
    using add_rel [OF assms] by metis
  then show ?thesis using Find_rel [OF assms] by (intro that [of a mp2]) (simp_all add: lhm_insert_def)
qed

lemma lhm_insert_present:
  assumes "lhm_rel hash mp xs" "map_of xs (fst x) = Some v"
  obtains a where "lhm_insert hash x mp = Some (a, False, mp)"
proof -
  obtain as cs where r: "map_rep hash mp as cs" "xs = contents (hm_nodes mp) as" using assms(1) by (rule lhm_relE)
  obtain a where "Find hash (fst x) mp = Some (Some a)" using Find_rel_Some [OF r(1), of "fst x" v] assms(2) r(2) by metis
  then show ?thesis by (intro that [of a]) (simp add: lhm_insert_def)
qed

text \<open>\<^verbatim>\<open>map[key] = value\<close>: the value of a present key is replaced in its place.\<close>

lemma set_packet_rel:
  assumes r: "map_rep hash mp (xs @ a # ys) cs" and p: "packet (hm_nodes mp) a = Some (k, w)" and mp': "mp' = mp\<lparr>hm_nodes := (hm_nodes mp)\<lparr>packet := (packet (hm_nodes mp))(a \<mapsto> (k, v))\<rparr>\<rparr>"
  shows "map_rep hash mp' (xs @ a # ys) cs"
    and "contents (hm_nodes mp') (xs @ a # ys) = contents (hm_nodes mp) xs @ (k, v) # contents (hm_nodes mp) ys"
proof -
  let ?m = "hm_nodes mp" and ?m' = "hm_nodes mp'"
  have k: "key_of ?m' = key_of ?m" using p by (simp add: mp' key_of_def fun_eq_iff)
  have f: "live ?m' = live ?m" "next_hash ?m' = next_hash ?m" "prev_hash ?m' = prev_hash ?m" "next_list ?m' = next_list ?m"
    "prev_list ?m' = prev_list ?m" by (simp_all add: mp')
  have "list_ok ?m' (hm_head mp) (xs @ a # ys) (hm_tail mp)" using r f by (simp add: map_rep_def list_ok_def)
  moreover have "nodes_ok ?m' (xs @ a # ys)"
  proof -
    have "nodes_ok ?m (xs @ a # ys)" using r by (simp add: map_rep_def)
    then show ?thesis unfolding nodes_ok_def k f by (auto simp: mp')
  qed
  moreover have "buckets_ok hash ?m' (hm_table mp) (hm_capacity mp) (xs @ a # ys) cs"
  proof -
    have "buckets_ok hash ?m (hm_table mp) (hm_capacity mp) (xs @ a # ys) cs" using r by (simp add: map_rep_def)
    then show ?thesis unfolding buckets_ok_def chain_ok_def k f .
  qed
  moreover have "fresh_ok ?m' (hm_fresh mp)" using r f by (simp add: map_rep_def fresh_ok_def)
  ultimately show "map_rep hash mp' (xs @ a # ys) cs" using r by (simp add: map_rep_def mp')
  have "a \<notin> set xs" "a \<notin> set ys" using r by (auto simp: map_rep_def list_ok_def)
  then show "contents ?m' (xs @ a # ys) = contents ?m xs @ (k, v) # contents ?m ys" by (simp add: contents_def mp')
qed

lemma update_split: "k \<notin> fst ` set xs \<Longrightarrow> AList.update k v (xs @ (k, w) # ys) = xs @ (k, v) # ys"
  by (induction xs) auto

lemma update_new: "k \<notin> fst ` set xs \<Longrightarrow> AList.update k v xs = xs @ [(k, v)]"
  by (induction xs) auto

lemma delete_absent: "k \<notin> fst ` set xs \<Longrightarrow> AList.delete k xs = xs"
  by (induction xs) auto

lemma delete_split: "k \<notin> fst ` set xs \<Longrightarrow> k \<notin> fst ` set ys \<Longrightarrow> AList.delete k (xs @ (k, w) # ys) = xs @ ys"
  by (induction xs) (auto simp: delete_absent)

lemma split_distinct:
  assumes "map_rep hash mp (xs @ a # ys) cs" "packet (hm_nodes mp) a = Some (k, v)"
  shows "k \<notin> fst ` set (contents (hm_nodes mp) xs)" "k \<notin> fst ` set (contents (hm_nodes mp) ys)"
    "contents (hm_nodes mp) (xs @ a # ys) = contents (hm_nodes mp) xs @ (k, v) # contents (hm_nodes mp) ys"
  using assms by (auto simp: map_rep_def nodes_ok_def contents_def key_of_def)

lemma lhm_assign_rel:
  assumes rel: "lhm_rel hash mp xs"
  obtains mp' where "lhm_assign hash k v d mp = Some mp'" "lhm_rel hash mp' (AList.update k v xs)"
proof (cases "map_of xs k")
  case None
  then obtain a mp1 mp2 as cs where n: "Insert hash (k, d) mp = Some (a, mp1)" "Expand hash (mp1\<lparr>hm_sum := Suc (hm_sum mp1)\<rparr>) = Some mp2"
    "lhm_rel hash mp2 (xs @ [(k, d)])" "map_rep hash mp2 (as @ a # []) cs" "contents (hm_nodes mp2) (as @ [a]) = xs @ [(k, d)]"
    using add_rel [OF rel, of "(k, d)"] by (metis fst_conv)
  have "the (packet (hm_nodes mp2) a) = (k, d)" "packet (hm_nodes mp2) a \<noteq> None" "contents (hm_nodes mp2) as = xs"
    using n(4,5) by (auto simp: map_rep_def nodes_ok_def)
  then have a: "packet (hm_nodes mp2) a = Some (k, d)" "contents (hm_nodes mp2) as = xs" by auto
  have "live (hm_nodes mp2) a" using rep_live(1) [OF n(4)] by simp
  then have e: "lhm_assign hash k v d mp = Some (mp2\<lparr>hm_nodes := (hm_nodes mp2)\<lparr>packet := (packet (hm_nodes mp2))(a \<mapsto> (k, v))\<rparr>\<rparr>)"
    using Find_rel [OF rel None] n(1,2) a by (simp add: lhm_assign_def lhm_subscript_def get_def)
  note s = set_packet_rel [OF n(4) a(1) refl, of v]
  have "hm_sum mp2 = length (xs @ [(k, d)])" "hm_sum mp2 \<le> hm_capacity mp2" "INIT_SIZE \<le> hm_capacity mp2"
    using lhm_rel_sum [OF n(3)] by simp_all
  moreover have "length as = length xs" using a(2) contents_simps(4) by metis
  moreover have "AList.update k v xs = xs @ [(k, v)]" using None by (intro update_new) (simp add: map_of_eq_None_iff)
  ultimately show ?thesis using s a(2) by (intro that [OF e] lhm_relI [OF s(1)]) simp_all
next
  case (Some w)
  obtain as cs where r: "map_rep hash mp as cs" "xs = contents (hm_nodes mp) as" "hm_sum mp = length as" "hm_sum mp \<le> hm_capacity mp"
    "INIT_SIZE \<le> hm_capacity mp" using rel by (rule lhm_relE)
  obtain a us ws where a: "Find hash k mp = Some (Some a)" "as = us @ a # ws" "packet (hm_nodes mp) a = Some (k, w)"
    using Find_rel_Some [OF r(1), of k w] Some r(2) by metis
  have "live (hm_nodes mp) a" using rep_live(1) [OF r(1)] a(2) by simp
  then have e: "lhm_assign hash k v d mp = Some (mp\<lparr>hm_nodes := (hm_nodes mp)\<lparr>packet := (packet (hm_nodes mp))(a \<mapsto> (k, v))\<rparr>\<rparr>)"
    using a by (simp add: lhm_assign_def lhm_subscript_def get_def)
  note r' = r(1) [unfolded a(2)]
  note s = set_packet_rel [OF r' a(3) refl, of v] and d = split_distinct [OF r' a(3)]
  have "AList.update k v xs = contents (hm_nodes mp) us @ (k, v) # contents (hm_nodes mp) ws"
    using d by (simp add: r(2) a(2) update_split del: contents_simps)
  then show ?thesis using s r a(2) by (intro that [OF e] lhm_relI [OF s(1)]) simp_all
qed

text \<open>\<^verbatim>\<open>erase(find(key))\<close>\<close>

definition erase_key :: "('k \<Rightarrow> nat) \<Rightarrow> 'k \<Rightarrow> ('k, 'v) linked_hashmap \<Rightarrow> (lhm_error + ('k, 'v) linked_hashmap) option" where
  "erase_key hash k mp = do { pos \<leftarrow> lhm_find hash k mp; lhm_erase hash pos mp }"

lemma Shrink_rel:
  assumes "map_rep hash mp as cs" "hm_sum mp = length as" "hm_sum mp \<le> hm_capacity mp" "INIT_SIZE \<le> hm_capacity mp"
  obtains mp' where "Shrink hash mp = Some mp'" "lhm_rel hash mp' (contents (hm_nodes mp) as)"
proof (cases "hm_sum mp * 4 \<ge> hm_capacity mp \<or> hm_sum mp \<le> INIT_SIZE")
  case True
  then show ?thesis using assms by (intro that [of mp] lhm_relI [OF assms(1)]) (simp_all add: Shrink_def)
next
  case False
  have p: "0 < hm_capacity mp div 2" using assms(4) by (simp add: INIT_SIZE_def)
  obtain mp' cs' where m: "resize hash (hm_capacity mp div 2) mp = Some mp'" "map_rep hash mp' as cs'"
    "contents (hm_nodes mp') as = contents (hm_nodes mp) as" "hm_sum mp' = hm_sum mp" "hm_capacity mp' = hm_capacity mp div 2"
    using resize_rep [OF assms(1) p] by metis
  have "hm_sum mp \<le> hm_capacity mp div 2" "INIT_SIZE \<le> hm_capacity mp div 2" using False unfolding INIT_SIZE_def by linarith+
  then show ?thesis using False assms(2) m by (intro that [of mp'] lhm_relI [OF m(2)]) (simp_all add: Shrink_def)
qed

lemma lhm_erase_rel:
  assumes rel: "lhm_rel hash mp xs" and r: "map_rep hash mp (us @ a # ws) cs" and xs: "xs = contents (hm_nodes mp) (us @ a # ws)"
  obtains mp' where "lhm_erase hash a mp = Some (Inr mp')"
    "lhm_rel hash mp' (contents (hm_nodes mp) us @ contents (hm_nodes mp) ws)"
proof -
  obtain m1 m2 cs' where m: "Delete a (hm_nodes mp) = Some m1" "delete_node a m1 = Some m2"
    "map_rep hash (mp\<lparr>hm_nodes := m2, hm_sum := hm_sum mp - 1\<rparr>) (us @ ws) cs'"
    "contents m2 (us @ ws) = contents (hm_nodes mp) us @ contents (hm_nodes mp) ws"
    by (rule delete_rep [OF r, of "hm_sum mp - 1"])
  have len: "hm_sum mp - 1 = length (us @ ws)" "hm_sum mp - 1 \<le> hm_capacity mp" "INIT_SIZE \<le> hm_capacity mp"
    using lhm_rel_sum [OF rel] xs by simp_all
  obtain mp' where s: "Shrink hash (mp\<lparr>hm_nodes := m2, hm_sum := hm_sum mp - 1\<rparr>) = Some mp'"
    "lhm_rel hash mp' (contents m2 (us @ ws))"
    by (rule Shrink_rel [OF m(3)]) (use len in simp_all)
  have "a \<noteq> hm_tail mp" using r by (auto simp: map_rep_def list_ok_def)
  then have "lhm_erase hash a mp = Some (Inr mp')" using s m(1,2) by (simp add: lhm_erase_def)
  then show ?thesis using that s(2) m(4) by metis
qed

lemma erase_key_rel:
  assumes rel: "lhm_rel hash mp xs" and k: "map_of xs k = Some v"
  obtains a mp' where "lhm_find hash k mp = Some a" "a \<noteq> lhm_end mp" "lhm_erase hash a mp = Some (Inr mp')"
    "lhm_rel hash mp' (AList.delete k xs)"
proof -
  obtain as cs where r: "map_rep hash mp as cs" "xs = contents (hm_nodes mp) as" using rel by (rule lhm_relE)
  obtain a us ws where a: "Find hash k mp = Some (Some a)" "as = us @ a # ws" "packet (hm_nodes mp) a = Some (k, v)" "a \<noteq> hm_tail mp"
    using Find_rel_Some [OF r(1), of k v] k r(2) by metis
  note d = split_distinct [OF r(1) [unfolded a(2)] a(3)]
  obtain mp' where e: "lhm_erase hash a mp = Some (Inr mp')" "lhm_rel hash mp' (contents (hm_nodes mp) us @ contents (hm_nodes mp) ws)"
    using rel r [unfolded a(2)] by (rule lhm_erase_rel)
  have "AList.delete k xs = contents (hm_nodes mp) us @ contents (hm_nodes mp) ws"
    unfolding r(2) a(2) d(3) using d(1,2) by (rule delete_split)
  then show ?thesis using that [of a mp'] e a by (simp add: lhm_find_def lhm_end_def)
qed

text \<open>\<^verbatim>\<open>find(key)\<close>: the iterator shows the entry, or is \<^verbatim>\<open>end()\<close>.\<close>

lemma lhm_find_rel:
  assumes "lhm_rel hash mp xs"
  shows "map_of xs k = None \<Longrightarrow> lhm_find hash k mp = Some (lhm_end mp)"
    and "map_of xs k = Some v \<Longrightarrow> \<exists>a. lhm_find hash k mp = Some a \<and> a \<noteq> lhm_end mp \<and> iter_deref a mp = Some (k, v)"
proof -
  show "map_of xs k = None \<Longrightarrow> lhm_find hash k mp = Some (lhm_end mp)"
    using Find_rel [OF assms] by (simp add: lhm_find_def lhm_end_def)
  assume k: "map_of xs k = Some v"
  obtain as cs where r: "map_rep hash mp as cs" "xs = contents (hm_nodes mp) as" using assms by (rule lhm_relE)
  obtain a us ws where a: "Find hash k mp = Some (Some a)" "as = us @ a # ws" "packet (hm_nodes mp) a = Some (k, v)" "a \<noteq> hm_tail mp"
    using Find_rel_Some [OF r(1), of k v] k r(2) by metis
  have "live (hm_nodes mp) a" using rep_live(1) [OF r(1)] a(2) by simp
  then show "\<exists>a. lhm_find hash k mp = Some a \<and> a \<noteq> lhm_end mp \<and> iter_deref a mp = Some (k, v)"
    using a by (simp add: lhm_find_def lhm_end_def iter_deref_def get_def)
qed

text \<open>\<^verbatim>\<open>begin()\<close> of a map that is not empty, and its removal.\<close>

lemma lhm_begin_rel:
  assumes rel: "lhm_rel hash mp (x # xs)"
  obtains a mp' where "lhm_begin mp = Some a" "iter_deref a mp = Some x" "lhm_erase hash a mp = Some (Inr mp')" "lhm_rel hash mp' xs"
proof -
  obtain as cs where r: "map_rep hash mp as cs" "x # xs = contents (hm_nodes mp) as" using rel by (rule lhm_relE)
  then obtain a ws where as: "as = [] @ a # ws" by (cases as) auto
  have l: "list_ok (hm_nodes mp) (hm_head mp) as (hm_tail mp)" using r by (simp add: map_rep_def)
  then have "lhm_begin mp = Some a" using list_first [OF l] as by (simp add: lhm_begin_def get_def list_ok_def)
  moreover have "iter_deref a mp = Some x"
  proof -
    have "live (hm_nodes mp) a" "packet (hm_nodes mp) a \<noteq> None" using r(1) as by (auto simp: map_rep_def nodes_ok_def)
    then show ?thesis using r(2) as by (simp add: iter_deref_def get_def)
  qed
  moreover obtain mp' where "lhm_erase hash a mp = Some (Inr mp')" "lhm_rel hash mp' (contents (hm_nodes mp) [] @ contents (hm_nodes mp) ws)"
    using rel r [unfolded as] by (rule lhm_erase_rel)
  moreover have "xs = contents (hm_nodes mp) ws" using r(2) as by simp
  ultimately show ?thesis using that by simp
qed

lemma erase_key_absent:
  assumes "lhm_rel hash mp xs" "map_of xs k = None"
  shows "erase_key hash k mp = Some (Inl invalid_iterator)"
  using Find_rel [OF assms] by (simp add: erase_key_def lhm_find_def lhm_erase_def)

lemma lhm_clear_rel:
  assumes "lhm_rel hash mp xs"
  obtains mp' where "lhm_clear mp = Some mp'" "lhm_rel hash mp' []"
proof -
  obtain as cs where r: "map_rep hash mp as cs" using assms by (rule lhm_relE)
  obtain m' where m: "Clear mp = Some m'" "list_ok m' (hm_head mp) [] (hm_tail mp)" "fresh_ok m' (hm_fresh mp)"
    using r by (rule Clear_rep)
  obtain i j where ij: "hm_head mp = Node i" "hm_tail mp = Node j" using r by (auto simp: map_rep_def)
  have p: "0 < INIT_SIZE" by (simp add: INIT_SIZE_def)
  let ?mp = "mp\<lparr>hm_nodes := new_table (hm_fresh mp) INIT_SIZE m', hm_capacity := INIT_SIZE, hm_sum := 0,
                   hm_table := hm_fresh mp, hm_fresh := Suc (hm_fresh mp)\<rparr>"
  have "map_rep hash ?mp [] (\<lambda>h. [])" using empty_rep [OF m(2,3) p ij, of hash 0] by (simp add: map_rep_def)
  then have "lhm_rel hash ?mp []" by (rule lhm_relI) simp_all
  then show ?thesis using that [of ?mp] m(1) by (simp add: lhm_clear_def)
qed

text \<open>Copies have the contents of the original and leave it as it is.\<close>

lemma copy_from_rel:
  assumes o: "lhm_rel hash other xs" and r: "map_rep hash mp [] bs" "hm_sum mp = hm_sum other" "hm_capacity mp = hm_capacity other"
  obtains mp' a where "get next_list (hm_head other) (hm_nodes other) = Some (Some a)" "copy_loop hash other a mp = Some mp'" "lhm_rel hash mp' xs"
proof -
  obtain as cs where ro: "map_rep hash other as cs" "xs = contents (hm_nodes other) as" using o by (rule lhm_relE)
  have l: "list_ok (hm_nodes other) (hm_head other) as (hm_tail other)" using ro by (simp add: map_rep_def)
  have g: "get next_list (hm_head other) (hm_nodes other) = Some (Some (hd (as @ [hm_tail other])))"
    using list_first [OF l] l by (simp add: get_def list_ok_def)
  have "map_rep hash other ([] @ as) cs" using ro(1) by simp
  then obtain mp' as' bs' where c: "copy_loop hash other (hd (as @ [hm_tail other])) mp = Some mp'" "map_rep hash mp' as' bs'"
    "contents (hm_nodes mp') as' = contents (hm_nodes other) ([] @ as)" "hm_sum mp' = hm_sum mp" "hm_capacity mp' = hm_capacity mp"
    using copy_loop_rep [OF _ r(1)] contents_simps(1) by metis
  have "length as' = length xs" using c(3) ro(2) contents_simps(4) by (metis append_Nil)
  then have "lhm_rel hash mp' xs" using c r(2,3) ro(2) lhm_rel_sum [OF o] by (intro lhm_relI [OF c(2)]) simp_all
  then show ?thesis using that g c(1) by blast
qed

lemma lhm_copy_rel:
  assumes "lhm_rel hash other xs"
  obtains mp' where "lhm_copy hash other = Some mp'" "lhm_rel hash mp' xs"
proof -
  have "0 < hm_capacity other" using lhm_rel_sum(3) [OF assms] by (simp add: INIT_SIZE_def)
  note e = fresh_lists_rep [OF this, of hash "hm_sum other"]
  show ?thesis by (rule copy_from_rel [OF assms e]) (use that in \<open>simp_all add: lhm_copy_def Let_def\<close>)
qed

lemma lhm_copy_assign_rel:
  assumes o: "lhm_rel hash other xs" and m: "lhm_rel hash mp ys"
  obtains mp' where "lhm_copy_assign hash other mp = Some mp'" "lhm_rel hash mp' xs"
proof -
  obtain as cs where r: "map_rep hash mp as cs" using m by (rule lhm_relE)
  obtain m' where m': "Clear mp = Some m'" "list_ok m' (hm_head mp) [] (hm_tail mp)" "fresh_ok m' (hm_fresh mp)"
    using r by (rule Clear_rep)
  obtain i j where ij: "hm_head mp = Node i" "hm_tail mp = Node j" using r by (auto simp: map_rep_def)
  have p: "0 < hm_capacity other" using lhm_rel_sum(3) [OF o] by (simp add: INIT_SIZE_def)
  let ?mp = "mp\<lparr>hm_nodes := new_table (hm_fresh mp) (hm_capacity other) m', hm_capacity := hm_capacity other,
                       hm_sum := hm_sum other, hm_table := hm_fresh mp, hm_fresh := Suc (hm_fresh mp)\<rparr>"
  have e: "map_rep hash ?mp [] (\<lambda>h. [])" using empty_rep [OF m'(2,3) p ij, of hash 0] by (simp add: map_rep_def)
  show ?thesis by (rule copy_from_rel [OF o e]) (use that m'(1) in \<open>simp_all add: lhm_copy_assign_def Let_def\<close>)
qed

text \<open>A walk from \<^verbatim>\<open>begin()\<close> to \<^verbatim>\<open>end()\<close>.\<close>

partial_function (option) lhm_walk :: "('k, 'v) linked_hashmap \<Rightarrow> ptr \<Rightarrow> ('k \<times> 'v) list option" where
  "lhm_walk mp c =
     (if c = lhm_end mp then Some []
      else do {
        x \<leftarrow> iter_deref c mp;
        r \<leftarrow> iter_next c mp;
        a \<leftarrow> (case r of Inl e \<Rightarrow> None | Inr a \<Rightarrow> Some a);
        xs \<leftarrow> lhm_walk mp a;
        Some (x # xs) })"

lemma lhm_walk_rep:
  assumes "map_rep hash mp (xs @ ys) cs"
  shows "lhm_walk mp (hd (ys @ [hm_tail mp])) = Some (contents (hm_nodes mp) ys)"
  using assms
proof (induction ys arbitrary: xs)
  case Nil
  then show ?case by (simp add: lhm_walk.simps lhm_end_def)
next
  case (Cons a ys)
  have l: "list_ok (hm_nodes mp) (hm_head mp) (xs @ a # ys) (hm_tail mp)" using Cons.prems by (simp add: map_rep_def)
  have a: "live (hm_nodes mp) a" "a \<noteq> hm_tail mp" "packet (hm_nodes mp) a \<noteq> None"
    using Cons.prems by (auto simp: map_rep_def list_ok_def nodes_ok_def)
  have "lhm_walk mp (hd (ys @ [hm_tail mp])) = Some (contents (hm_nodes mp) ys)" using Cons.IH [of "xs @ [a]"] Cons.prems by simp
  then show ?case using a list_next(1) [OF l]
    by (subst lhm_walk.simps) (auto simp: iter_deref_def iter_next_def get_def lhm_end_def)
qed

lemma lhm_walk_rel:
  assumes "lhm_rel hash mp xs"
  shows "Option.bind (lhm_begin mp) (lhm_walk mp) = Some xs"
proof -
  obtain as cs where r: "map_rep hash mp as cs" "xs = contents (hm_nodes mp) as" using assms by (rule lhm_relE)
  then have "lhm_begin mp = Some (hd (as @ [hm_tail mp]))"
    using list_first [of "hm_nodes mp"] by (auto simp: lhm_begin_def get_def map_rep_def list_ok_def)
  then show ?thesis using lhm_walk_rep [of hash mp "[]" as cs] r by simp
qed

section \<open>The contract\<close>

datatype ('k, 'v) map_op = Op_insert 'k 'v | Op_assign 'k 'v | Op_erase 'k | Op_clear | Op_copy

fun map_spec :: "('k, 'v) map_op \<Rightarrow> ('k \<times> 'v) list \<Rightarrow> ('k \<times> 'v) list" where
  "map_spec (Op_insert k v) xs = (if k \<in> fst ` set xs then xs else xs @ [(k, v)])"
| "map_spec (Op_assign k v) xs = AList.update k v xs"
| "map_spec (Op_erase k) xs = AList.delete k xs"
| "map_spec Op_clear xs = []"
| "map_spec Op_copy xs = xs"

locale ordered_map = data_refinement R exec map_spec
  for R :: "'m \<Rightarrow> ('k \<times> 'v) list \<Rightarrow> bool" and exec :: "('k, 'v) map_op \<Rightarrow> 'm \<Rightarrow> 'm option" +
  fixes lookup :: "'k \<Rightarrow> 'm \<Rightarrow> 'v option" and items :: "'m \<Rightarrow> ('k \<times> 'v) list option" and new_map :: 'm
  assumes new_map: "R new_map []" and lookup: "R m xs \<Longrightarrow> lookup k m = map_of xs k" and items: "R m xs \<Longrightarrow> items m = Some xs"
begin

lemma lookup_run: "map_option (lookup k) (run_calls exec ops new_map) = Some (map_of (fold map_spec ops []) k)"
  using new_map lookup by (rule run_observed)

lemma items_run: "Option.bind (run_calls exec ops new_map) items = Some (fold map_spec ops [])"
  using run_spec [OF new_map, of ops] items by auto

lemma lookup_assigned: "map_option (lookup k) (run_calls exec (ops @ [Op_assign k v]) new_map) = Some (Some v)"
  using lookup_run [of k "ops @ [Op_assign k v]"] by (simp add: AList.update_conv')

lemma lookup_erased: "map_option (lookup k) (run_calls exec (ops @ [Op_erase k]) new_map) = Some None"
  using lookup_run [of k "ops @ [Op_erase k]"] by (simp add: AList.delete_conv')

end

text \<open>The operations on \<^verbatim>\<open>linked_hashmap\<close>. \<open>d\<close> is the default value of \<^verbatim>\<open>operator[]\<close>.\<close>

fun lhm_exec :: "('k \<Rightarrow> nat) \<Rightarrow> 'v \<Rightarrow> ('k, 'v) map_op \<Rightarrow> ('k, 'v) linked_hashmap \<Rightarrow> ('k, 'v) linked_hashmap option" where
  "lhm_exec hash d (Op_insert k v) mp = map_option (\<lambda>(a, b, mp'). mp') (lhm_insert hash (k, v) mp)"
| "lhm_exec hash d (Op_assign k v) mp = lhm_assign hash k v d mp"
| "lhm_exec hash d (Op_erase k) mp = map_option (\<lambda>r. case r of Inl e \<Rightarrow> mp | Inr mp' \<Rightarrow> mp') (erase_key hash k mp)"
| "lhm_exec hash d Op_clear mp = lhm_clear mp"
| "lhm_exec hash d Op_copy mp = lhm_copy hash mp"

definition lhm_lookup :: "('k \<Rightarrow> nat) \<Rightarrow> 'k \<Rightarrow> ('k, 'v) linked_hashmap \<Rightarrow> 'v option" where
  "lhm_lookup hash k mp = (case lhm_at hash k mp of Some (Inr v) \<Rightarrow> Some v | _ \<Rightarrow> None)"

definition lhm_items :: "('k, 'v) linked_hashmap \<Rightarrow> ('k \<times> 'v) list option" where
  "lhm_items mp = Option.bind (lhm_begin mp) (lhm_walk mp)"

lemma lhm_exec_insert:
  assumes "lhm_rel hash mp xs"
  shows "\<exists>mp'. lhm_exec hash d (Op_insert k v) mp = Some mp' \<and> lhm_rel hash mp' (map_spec (Op_insert k v) xs)"
proof (cases "map_of xs k")
  case None
  then have "k \<notin> fst ` set xs" by (simp add: map_of_eq_None_iff)
  moreover obtain a mp' where "lhm_insert hash (k, v) mp = Some (a, True, mp')" "lhm_rel hash mp' (xs @ [(k, v)])"
    using lhm_insert_new [OF assms, of "(k, v)"] None by (metis fst_conv)
  ultimately show ?thesis by simp
next
  case (Some w)
  then have "k \<in> fst ` set xs" by (metis map_of_eq_None_iff option.discI)
  moreover obtain a where "lhm_insert hash (k, v) mp = Some (a, False, mp)"
    using lhm_insert_present [OF assms, of "(k, v)"] Some by (metis fst_conv)
  ultimately show ?thesis using assms by simp
qed

lemma lhm_exec_erase:
  assumes "lhm_rel hash mp xs"
  shows "\<exists>mp'. lhm_exec hash d (Op_erase k) mp = Some mp' \<and> lhm_rel hash mp' (map_spec (Op_erase k) xs)"
proof (cases "map_of xs k")
  case None
  then show ?thesis using erase_key_absent [OF assms None] assms delete_absent [of k xs] by (simp add: map_of_eq_None_iff)
next
  case (Some v)
  obtain a mp' where "lhm_find hash k mp = Some a" "a \<noteq> lhm_end mp" "lhm_erase hash a mp = Some (Inr mp')"
    "lhm_rel hash mp' (AList.delete k xs)"
    using assms Some by (rule erase_key_rel)
  then show ?thesis by (simp add: erase_key_def)
qed

interpretation lhm: ordered_map "lhm_rel hash" "lhm_exec hash d" "lhm_lookup hash" lhm_items lhm_new
proof
  show "\<exists>mp'. lhm_exec hash d op mp = Some mp' \<and> lhm_rel hash mp' (map_spec op xs)" if r: "lhm_rel hash mp xs" for mp xs op
  proof (cases op)
    case (Op_assign k v)
    obtain mp' where "lhm_assign hash k v d mp = Some mp'" "lhm_rel hash mp' (AList.update k v xs)" using r by (rule lhm_assign_rel)
    then show ?thesis using Op_assign by simp
  next
    case Op_clear
    obtain mp' where "lhm_clear mp = Some mp'" "lhm_rel hash mp' []" using r by (rule lhm_clear_rel)
    then show ?thesis using Op_clear by simp
  next
    case Op_copy
    obtain mp' where "lhm_copy hash mp = Some mp'" "lhm_rel hash mp' xs" using r by (rule lhm_copy_rel)
    then show ?thesis using Op_copy by simp
  qed (use lhm_exec_insert [OF r] lhm_exec_erase [OF r] in simp_all)
  show "lhm_rel hash lhm_new []" by (rule new_map_rep)
  show "lhm_lookup hash k mp = map_of xs k" if "lhm_rel hash mp xs" for k mp xs
    using lhm_at_rel [OF that, of k] by (simp add: lhm_lookup_def split: option.splits)
  show "lhm_items mp = Some xs" if "lhm_rel hash mp xs" for mp xs
    using lhm_walk_rel [OF that] by (simp add: lhm_items_def)
qed

end
