(* ===== verification/Replacer.thy ===== *)
theory Replacer
  imports HashmapRefinement
begin

text \<open>
  The replacers of the buffer pool. \<^verbatim>\<open>Replacer\<close> of \<^verbatim>\<open>database/src/include/buffer/replacer.h\<close> is an
  abstract class: its virtual functions are the fields of \<open>replacer_ops\<close>, and the locale \<open>replacer\<close>
  is the contract that the buffer pool relies on. \<^verbatim>\<open>LRUReplacer\<close> of
  \<^verbatim>\<open>database/src/buffer/lru_replacer.cpp\<close>, which the pool uses, runs on \<^verbatim>\<open>linked_hashmap\<close> and is an
  instance.
\<close>

section \<open>The interface\<close>

record 'r replacer_ops =
  rp_Victim :: "'r \<Rightarrow> (nat option \<times> 'r) option"
  rp_Pin :: "nat \<Rightarrow> 'r \<Rightarrow> 'r option"
  rp_Unpin :: "nat \<Rightarrow> 'r \<Rightarrow> 'r option"
  rp_Size :: "'r \<Rightarrow> nat"
  rp_Clear :: "'r \<Rightarrow> 'r option"

text \<open>
  The frames that may be replaced, in the order in which the replacer gives them up. A frame that
  becomes free goes to the end; the replacer holds at most \<open>n\<close> frames.
\<close>

lemma filter_absent: "f \<notin> set fs \<Longrightarrow> filter (\<lambda>g. g \<noteq> f) fs = fs"
  by (induction fs) auto

locale replacer =
  fixes ops :: "'r replacer_ops" and R :: "nat \<Rightarrow> 'r \<Rightarrow> nat list \<Rightarrow> bool"
  assumes frames_distinct: "R n r fs \<Longrightarrow> distinct fs"
    and Victim_none: "R n r [] \<Longrightarrow> \<exists>r'. rp_Victim ops r = Some (None, r') \<and> R n r' []"
    and Victim_some: "R n r (f # fs) \<Longrightarrow> \<exists>r'. rp_Victim ops r = Some (Some f, r') \<and> R n r' fs"
    and Pin: "R n r fs \<Longrightarrow> \<exists>r'. rp_Pin ops f r = Some r' \<and> R n r' (filter (\<lambda>g. g \<noteq> f) fs)"
    and Unpin: "R n r fs \<Longrightarrow> length fs < n \<Longrightarrow> \<exists>r'. rp_Unpin ops f r = Some r' \<and> R n r' (filter (\<lambda>g. g \<noteq> f) fs @ [f])"
    and Size: "R n r fs \<Longrightarrow> rp_Size ops r = length fs"
    and Clear: "R n r fs \<Longrightarrow> \<exists>r'. rp_Clear ops r = Some r' \<and> R n r' []"
begin

lemma Pin_absent: "R n r fs \<Longrightarrow> f \<notin> set fs \<Longrightarrow> \<exists>r'. rp_Pin ops f r = Some r' \<and> R n r' fs"
  using Pin [of n r fs f] by (simp add: filter_absent)

lemma Unpin_absent: "R n r fs \<Longrightarrow> length fs < n \<Longrightarrow> f \<notin> set fs \<Longrightarrow> \<exists>r'. rp_Unpin ops f r = Some r' \<and> R n r' (fs @ [f])"
  using Unpin [of n r fs f] by (simp add: filter_absent)

lemma Pin_then_Unpin:
  assumes "R n r fs" "length fs < n"
  shows "\<exists>r1 r2. rp_Pin ops f r = Some r1 \<and> rp_Unpin ops f r1 = Some r2 \<and> R n r2 (filter (\<lambda>g. g \<noteq> f) fs @ [f])"
proof -
  obtain r1 where r1: "rp_Pin ops f r = Some r1" "R n r1 (filter (\<lambda>g. g \<noteq> f) fs)" using Pin [OF assms(1)] by blast
  have "length (filter (\<lambda>g. g \<noteq> f) fs) < n" using assms(2) le_less_trans [OF length_filter_le] by blast
  then show ?thesis using Unpin_absent [OF r1(2)] r1(1) by auto
qed

end

section \<open>LRUReplacer\<close>

record lru_replacer =
  lru_queue :: "(nat, nat) linked_hashmap"
  lru_num_pages :: nat

definition LRUReplacer_new :: "nat \<Rightarrow> lru_replacer" where
  "LRUReplacer_new n = \<lparr>lru_queue = lhm_new, lru_num_pages = n\<rparr>"

text \<open>\<^verbatim>\<open>queue_.erase(it)\<close>; an exception would leave the replacer.\<close>

definition queue_erase :: "(nat \<Rightarrow> nat) \<Rightarrow> ptr \<Rightarrow> lru_replacer \<Rightarrow> lru_replacer option" where
  "queue_erase hash it r =
     do { res \<leftarrow> lhm_erase hash it (lru_queue r);
          (case res of Inl e \<Rightarrow> None | Inr q \<Rightarrow> Some (r\<lparr>lru_queue := q\<rparr>)) }"

definition LRU_Victim :: "(nat \<Rightarrow> nat) \<Rightarrow> lru_replacer \<Rightarrow> (nat option \<times> lru_replacer) option" where
  "LRU_Victim hash r =
     (if lhm_empty (lru_queue r) then Some (None, r)
      else do {
        it \<leftarrow> lhm_begin (lru_queue r);
        (k, f) \<leftarrow> iter_deref it (lru_queue r);
        r' \<leftarrow> queue_erase hash it r;
        Some (Some f, r') })"

definition LRU_Pin :: "(nat \<Rightarrow> nat) \<Rightarrow> nat \<Rightarrow> lru_replacer \<Rightarrow> lru_replacer option" where
  "LRU_Pin hash frame_id r =
     do { it \<leftarrow> lhm_find hash frame_id (lru_queue r);
          (if it \<noteq> lhm_end (lru_queue r) then queue_erase hash it r else Some r) }"

definition LRU_Unpin :: "(nat \<Rightarrow> nat) \<Rightarrow> nat \<Rightarrow> lru_replacer \<Rightarrow> lru_replacer option" where
  "LRU_Unpin hash frame_id r =
     (if lhm_size (lru_queue r) \<ge> lru_num_pages r then Some r
      else do {
        it \<leftarrow> lhm_find hash frame_id (lru_queue r);
        r1 \<leftarrow> (if it \<noteq> lhm_end (lru_queue r) then queue_erase hash it r else Some r);
        q \<leftarrow> lhm_assign hash frame_id frame_id 0 (lru_queue r1);
        Some (r1\<lparr>lru_queue := q\<rparr>) })"

definition LRU_Size :: "lru_replacer \<Rightarrow> nat" where
  "LRU_Size r = lhm_size (lru_queue r)"

definition LRU_Clear :: "lru_replacer \<Rightarrow> lru_replacer option" where
  "LRU_Clear r = map_option (\<lambda>q. r\<lparr>lru_queue := q\<rparr>) (lhm_clear (lru_queue r))"

definition lru_ops :: "(nat \<Rightarrow> nat) \<Rightarrow> lru_replacer replacer_ops" where
  "lru_ops hash = \<lparr>rp_Victim = LRU_Victim hash, rp_Pin = LRU_Pin hash, rp_Unpin = LRU_Unpin hash, rp_Size = LRU_Size,
     rp_Clear = LRU_Clear\<rparr>"

text \<open>The queue holds the frames, the one that was unpinned first in front.\<close>

definition lru_rel :: "(nat \<Rightarrow> nat) \<Rightarrow> nat \<Rightarrow> lru_replacer \<Rightarrow> nat list \<Rightarrow> bool" where
  "lru_rel hash n r fs \<longleftrightarrow> lru_num_pages r = n \<and> lhm_rel hash (lru_queue r) (map (\<lambda>f. (f, f)) fs)"

lemma lru_rel_new: "lru_rel hash n (LRUReplacer_new n) []"
  using new_map_rep by (simp add: lru_rel_def LRUReplacer_new_def)

lemma map_of_frames: "map_of (map (\<lambda>f. (f, f)) fs) f = (if f \<in> set fs then Some f else None)"
  by (induction fs) auto

lemma delete_frames: "AList.delete f (map (\<lambda>f. (f, f)) fs) = map (\<lambda>f. (f, f)) (filter (\<lambda>g. g \<noteq> f) fs)"
  by (induction fs) auto

lemma drop_frame:
  assumes "lru_rel hash n r fs"
  shows "\<exists>it r'. lhm_find hash f (lru_queue r) = Some it \<and>
     (if it \<noteq> lhm_end (lru_queue r) then queue_erase hash it r else Some r) = Some r' \<and> lru_rel hash n r' (filter (\<lambda>g. g \<noteq> f) fs)"
proof (cases "f \<in> set fs")
  case True
  then have m: "map_of (map (\<lambda>f. (f, f)) fs) f = Some f" by (simp add: map_of_frames)
  have rel: "lhm_rel hash (lru_queue r) (map (\<lambda>f. (f, f)) fs)" using assms by (simp add: lru_rel_def)
  obtain a q where "lhm_find hash f (lru_queue r) = Some a" "a \<noteq> lhm_end (lru_queue r)" "lhm_erase hash a (lru_queue r) = Some (Inr q)"
    "lhm_rel hash q (AList.delete f (map (\<lambda>f. (f, f)) fs))" using rel m by (rule erase_key_rel)
  then show ?thesis using assms by (auto simp: queue_erase_def lru_rel_def delete_frames)
next
  case False
  then have "filter (\<lambda>g. g \<noteq> f) fs = fs" by (rule filter_absent)
  moreover have "lhm_find hash f (lru_queue r) = Some (lhm_end (lru_queue r))"
    using lhm_find_rel(1) [of hash "lru_queue r" "map (\<lambda>f. (f, f)) fs" f] assms False by (simp add: lru_rel_def map_of_frames)
  ultimately show ?thesis using assms by simp
qed

lemma LRU_Victim_none: "lru_rel hash n r [] \<Longrightarrow> LRU_Victim hash r = Some (None, r)"
  using lhm_rel_sum(1) [of hash "lru_queue r" "[]"] by (simp add: LRU_Victim_def lru_rel_def lhm_empty_def)

lemma LRU_Victim_some:
  assumes "lru_rel hash n r (f # fs)"
  shows "\<exists>r'. LRU_Victim hash r = Some (Some f, r') \<and> lru_rel hash n r' fs"
proof -
  have q: "lhm_rel hash (lru_queue r) ((f, f) # map (\<lambda>f. (f, f)) fs)" using assms by (simp add: lru_rel_def)
  then obtain a q' where "lhm_begin (lru_queue r) = Some a" "iter_deref a (lru_queue r) = Some (f, f)"
    "lhm_erase hash a (lru_queue r) = Some (Inr q')" "lhm_rel hash q' (map (\<lambda>f. (f, f)) fs)" by (rule lhm_begin_rel)
  moreover have "\<not> lhm_empty (lru_queue r)" using lhm_rel_sum(1) [OF q] by (simp add: lhm_empty_def)
  ultimately show ?thesis using assms by (simp add: LRU_Victim_def queue_erase_def lru_rel_def)
qed

lemma LRU_Unpin_rel:
  assumes "lru_rel hash n r fs" "length fs < n"
  shows "\<exists>r'. LRU_Unpin hash f r = Some r' \<and> lru_rel hash n r' (filter (\<lambda>g. g \<noteq> f) fs @ [f])"
proof -
  obtain it r1 where d: "lhm_find hash f (lru_queue r) = Some it"
    "(if it \<noteq> lhm_end (lru_queue r) then queue_erase hash it r else Some r) = Some r1" "lru_rel hash n r1 (filter (\<lambda>g. g \<noteq> f) fs)"
    using drop_frame [OF assms(1)] by blast
  let ?xs = "map (\<lambda>f. (f, f)) (filter (\<lambda>g. g \<noteq> f) fs)"
  have "lhm_rel hash (lru_queue r1) ?xs" using d(3) by (simp add: lru_rel_def)
  then obtain q where q: "lhm_assign hash f f 0 (lru_queue r1) = Some q" "lhm_rel hash q (AList.update f f ?xs)"
    by (rule lhm_assign_rel)
  have "AList.update f f ?xs = ?xs @ [(f, f)]" by (intro update_new) auto
  moreover have "lhm_size (lru_queue r) < lru_num_pages r"
    using assms lhm_rel_sum(1) [of hash "lru_queue r"] by (auto simp: lru_rel_def lhm_size_def)
  ultimately show ?thesis using d q by (simp add: LRU_Unpin_def lru_rel_def)
qed

interpretation lru: replacer "lru_ops hash" "lru_rel hash"
proof
  show "distinct fs" if "lru_rel hash n r fs" for n r fs
    using lhm_rel_distinct [of hash "lru_queue r" "map (\<lambda>f. (f, f)) fs"] that by (simp add: lru_rel_def comp_def)
  show "\<exists>r'. rp_Victim (lru_ops hash) r = Some (None, r') \<and> lru_rel hash n r' []" if "lru_rel hash n r []" for n r
    using LRU_Victim_none [OF that] that by (simp add: lru_ops_def)
  show "\<exists>r'. rp_Victim (lru_ops hash) r = Some (Some f, r') \<and> lru_rel hash n r' fs" if "lru_rel hash n r (f # fs)" for n r f fs
    using LRU_Victim_some [OF that] by (simp add: lru_ops_def)
  show "\<exists>r'. rp_Pin (lru_ops hash) f r = Some r' \<and> lru_rel hash n r' (filter (\<lambda>g. g \<noteq> f) fs)" if "lru_rel hash n r fs" for n r fs f
    using drop_frame [OF that, of f] by (auto simp: lru_ops_def LRU_Pin_def)
  show "\<exists>r'. rp_Unpin (lru_ops hash) f r = Some r' \<and> lru_rel hash n r' (filter (\<lambda>g. g \<noteq> f) fs @ [f])"
    if "lru_rel hash n r fs" "length fs < n" for n r fs f
    using LRU_Unpin_rel [OF that, of f] by (simp add: lru_ops_def)
  show "rp_Size (lru_ops hash) r = length fs" if "lru_rel hash n r fs" for n r fs
    using lhm_rel_sum(1) [of hash "lru_queue r"] that by (auto simp: lru_ops_def LRU_Size_def lhm_size_def lru_rel_def)
  show "\<exists>r'. rp_Clear (lru_ops hash) r = Some r' \<and> lru_rel hash n r' []" if "lru_rel hash n r fs" for n r fs
  proof -
    have "lhm_rel hash (lru_queue r) (map (\<lambda>f. (f, f)) fs)" using that by (simp add: lru_rel_def)
    then obtain q where "lhm_clear (lru_queue r) = Some q" "lhm_rel hash q []" by (rule lhm_clear_rel)
    then show ?thesis using that by (simp add: lru_ops_def LRU_Clear_def lru_rel_def)
  qed
qed

section \<open>Runs of the replacer\<close>

datatype replacer_op = Rp_victim | Rp_pin nat | Rp_unpin nat | Rp_clear

text \<open>The frames in the order in which they will be given up; a full replacer ignores \<^verbatim>\<open>Unpin\<close>.\<close>

fun lru_spec :: "nat \<Rightarrow> replacer_op \<Rightarrow> nat list \<Rightarrow> nat list" where
  "lru_spec n Rp_victim fs = tl fs"
| "lru_spec n (Rp_pin f) fs = filter (\<lambda>g. g \<noteq> f) fs"
| "lru_spec n (Rp_unpin f) fs = (if length fs < n then filter (\<lambda>g. g \<noteq> f) fs @ [f] else fs)"
| "lru_spec n Rp_clear fs = []"

fun lru_exec :: "(nat \<Rightarrow> nat) \<Rightarrow> replacer_op \<Rightarrow> lru_replacer \<Rightarrow> lru_replacer option" where
  "lru_exec hash Rp_victim r = map_option snd (LRU_Victim hash r)"
| "lru_exec hash (Rp_pin f) r = LRU_Pin hash f r"
| "lru_exec hash (Rp_unpin f) r = LRU_Unpin hash f r"
| "lru_exec hash Rp_clear r = LRU_Clear r"

lemma LRU_Unpin_full:
  assumes "lru_rel hash n r fs" "\<not> length fs < n"
  shows "LRU_Unpin hash f r = Some r"
  using assms lhm_rel_sum(1) [of hash "lru_queue r"] by (auto simp: LRU_Unpin_def lru_rel_def lhm_size_def)

interpretation lru_run: data_refinement "lru_rel hash n" "lru_exec hash" "lru_spec n"
proof
  show "\<exists>r'. lru_exec hash x r = Some r' \<and> lru_rel hash n r' (lru_spec n x fs)" if R: "lru_rel hash n r fs" for r fs x
  proof (cases x)
    case Rp_victim
    then show ?thesis using R LRU_Victim_none [of hash n r] LRU_Victim_some [of hash n r] by (cases fs) fastforce+
  next
    case (Rp_pin f)
    then show ?thesis using lru.Pin [OF R, of f] by (simp add: lru_ops_def)
  next
    case (Rp_unpin f)
    then show ?thesis using LRU_Unpin_rel [OF R, of f] LRU_Unpin_full [OF R, of f] R by (cases "length fs < n") auto
  next
    case Rp_clear
    then show ?thesis using lru.Clear [OF R] by (simp add: lru_ops_def)
  qed
qed

end
