(* ===== verification/EngineVector.thy ===== *)
theory EngineVector
  imports DataRefinement
begin

text \<open>
  \<^verbatim>\<open>thomas::vector\<close> of \<^verbatim>\<open>database/src/include/container/vector.hpp\<close>: a block of \<^verbatim>\<open>max_size\<close> cells of
  which the first \<^verbatim>\<open>cur_size\<close> hold elements. A cell of raw memory is \<open>None\<close>; reading it, an access
  outside the block and a call of \<^verbatim>\<open>GetId\<close> that runs off its end have no result. The blocks that a
  vector allocates are numbered, so that an iterator into an abandoned block is told from one into
  the current block. \<^verbatim>\<open>int\<close> sizes are natural numbers (a vector holds fewer than \<open>2 ^ 30\<close> elements),
  \<^verbatim>\<open>T\<close> is copied by value. \<^verbatim>\<open>const_iterator\<close> has the operations of \<^verbatim>\<open>iterator\<close>.
\<close>

section \<open>The vector and its iterators\<close>

record 'a vec =
  vec_this :: nat
  vec_block :: nat
  vec_data :: "'a option list"
  cur_size :: nat
  vec_max_size :: nat

record viter =
  it_block :: nat
  it_off :: int
  it_from :: nat

datatype vec_error = vec_index_out_of_bound | vec_container_is_empty | vec_invalid_iterator

definition it_plus :: "viter \<Rightarrow> int \<Rightarrow> viter" where
  "it_plus it n = it\<lparr>it_off := it_off it + n\<rparr>"

definition it_minus :: "viter \<Rightarrow> int \<Rightarrow> viter" where
  "it_minus it n = it\<lparr>it_off := it_off it - n\<rparr>"

text \<open>The distance of two iterators. Pointers into different blocks have no difference.\<close>

definition it_diff :: "viter \<Rightarrow> viter \<Rightarrow> (vec_error + int) option" where
  "it_diff it rhs =
     (if it_from it \<noteq> it_from rhs then Some (Inl vec_invalid_iterator)
      else if it_block it = it_block rhs then Some (Inr (it_off it - it_off rhs)) else None)"

definition it_eq :: "viter \<Rightarrow> viter \<Rightarrow> bool" where
  "it_eq it rhs \<longleftrightarrow> it_block it = it_block rhs \<and> it_off it = it_off rhs"

text \<open>\<^verbatim>\<open>iterator(data + i, this)\<close>\<close>

definition it_at :: "'a vec \<Rightarrow> int \<Rightarrow> viter" where
  "it_at v i = \<lparr>it_block = vec_block v, it_off = i, it_from = vec_this v\<rparr>"

definition read_cell :: "'a option list \<Rightarrow> nat \<Rightarrow> 'a option" where
  "read_cell d i = (if i < length d then d ! i else None)"

definition write_cell :: "'a option list \<Rightarrow> nat \<Rightarrow> 'a \<Rightarrow> 'a option list option" where
  "write_cell d i x = (if i < length d then Some (d[i := Some x]) else None)"

definition it_deref :: "'a vec \<Rightarrow> viter \<Rightarrow> 'a option" where
  "it_deref v it = (if it_block it = vec_block v \<and> 0 \<le> it_off it then read_cell (vec_data v) (nat (it_off it)) else None)"

text \<open>\<^verbatim>\<open>for (i = 0; i < n; ++i) new (dst + i) T(src[i])\<close>\<close>

fun copy_cells :: "nat \<Rightarrow> 'a option list \<Rightarrow> 'a option list \<Rightarrow> 'a option list option" where
  "copy_cells 0 src dst = Some dst"
| "copy_cells (Suc i) src dst = do { d \<leftarrow> copy_cells i src dst; x \<leftarrow> read_cell src i; write_cell d i x }"

text \<open>\<^verbatim>\<open>DoubleSpace\<close>: an iterator to one of the elements follows the move, another one stays.\<close>

definition DoubleSpace :: "viter \<Rightarrow> 'a vec \<Rightarrow> (viter \<times> 'a vec) option" where
  "DoubleSpace pos v =
     do { let n = vec_max_size v * 2;
          d \<leftarrow> copy_cells (cur_size v) (vec_data v) (replicate n None);
          let v' = v\<lparr>vec_max_size := n, vec_data := d, vec_block := Suc (vec_block v)\<rparr>;
          Some (if \<exists>i < cur_size v. it_eq (it_at v (int i)) pos then it_at v' (it_off pos) else pos, v') }"

definition GetId :: "viter \<Rightarrow> 'a vec \<Rightarrow> nat option" where
  "GetId it v = find (\<lambda>i. it_eq (it_at v (int i)) it) [0..<cur_size v]"

definition vec_new :: "nat \<Rightarrow> 'a vec" where
  "vec_new this = \<lparr>vec_this = this, vec_block = 0, vec_data = replicate 32 None, cur_size = 0, vec_max_size = 32\<rparr>"

definition vec_copy :: "nat \<Rightarrow> 'a vec \<Rightarrow> 'a vec option" where
  "vec_copy this other =
     do { d \<leftarrow> copy_cells (cur_size other) (vec_data other) (replicate (vec_max_size other) None);
          Some \<lparr>vec_this = this, vec_block = 0, vec_data = d, cur_size = cur_size other, vec_max_size = vec_max_size other\<rparr> }"

definition vec_assign :: "'a vec \<Rightarrow> 'a vec \<Rightarrow> 'a vec option" where
  "vec_assign other v =
     (if vec_this v = vec_this other then Some v
      else do {
        d \<leftarrow> copy_cells (cur_size other) (vec_data other) (replicate (vec_max_size other) None);
        Some (v\<lparr>cur_size := cur_size other, vec_max_size := vec_max_size other, vec_data := d, vec_block := Suc (vec_block v)\<rparr>) })"

definition vec_at :: "nat \<Rightarrow> 'a vec \<Rightarrow> (vec_error + 'a) option" where
  "vec_at pos v =
     (if pos \<ge> cur_size v then Some (Inl vec_index_out_of_bound)
      else map_option Inr (read_cell (vec_data v) pos))"

text \<open>\<^verbatim>\<open>v[pos] = x\<close> through the reference that \<^verbatim>\<open>operator[]\<close> returns.\<close>

definition vec_set :: "nat \<Rightarrow> 'a \<Rightarrow> 'a vec \<Rightarrow> (vec_error + 'a vec) option" where
  "vec_set pos x v =
     (if pos \<ge> cur_size v then Some (Inl vec_index_out_of_bound)
      else map_option (\<lambda>d. Inr (v\<lparr>vec_data := d\<rparr>)) (write_cell (vec_data v) pos x))"

definition vec_front :: "'a vec \<Rightarrow> (vec_error + 'a) option" where
  "vec_front v =
     (if cur_size v = 0 then Some (Inl vec_container_is_empty) else map_option Inr (read_cell (vec_data v) 0))"

definition vec_back :: "'a vec \<Rightarrow> (vec_error + 'a) option" where
  "vec_back v =
     (if cur_size v = 0 then Some (Inl vec_container_is_empty)
      else map_option Inr (read_cell (vec_data v) (cur_size v - 1)))"

definition vec_begin :: "'a vec \<Rightarrow> viter" where
  "vec_begin v = it_at v 0"

definition vec_end :: "'a vec \<Rightarrow> viter" where
  "vec_end v = it_at v (int (cur_size v))"

definition vec_empty :: "'a vec \<Rightarrow> bool" where
  "vec_empty v \<longleftrightarrow> cur_size v = 0"

definition vec_size :: "'a vec \<Rightarrow> nat" where
  "vec_size v = cur_size v"

definition vec_clear :: "'a vec \<Rightarrow> 'a vec" where
  "vec_clear v = v\<lparr>cur_size := 0, vec_max_size := 32, vec_data := replicate 32 None, vec_block := Suc (vec_block v)\<rparr>"

text \<open>The loops of \<^verbatim>\<open>insert\<close> and \<^verbatim>\<open>erase\<close> that move the elements by one cell; \<open>n\<close> moves are left.\<close>

fun shift_up :: "nat \<Rightarrow> nat \<Rightarrow> 'a option list \<Rightarrow> 'a option list option" where
  "shift_up 0 i d = Some d"
| "shift_up (Suc n) i d = do { x \<leftarrow> read_cell d (i - 1); d' \<leftarrow> write_cell d i x; shift_up n (i - 1) d' }"

fun shift_down :: "nat \<Rightarrow> nat \<Rightarrow> 'a option list \<Rightarrow> 'a option list option" where
  "shift_down 0 i d = Some d"
| "shift_down (Suc n) i d = do { x \<leftarrow> read_cell d (Suc i); d' \<leftarrow> write_cell d i x; shift_down n (Suc i) d' }"

definition vec_insert :: "viter \<Rightarrow> 'a \<Rightarrow> 'a vec \<Rightarrow> (viter \<times> 'a vec) option" where
  "vec_insert pos x v =
     do { (pos1, v1) \<leftarrow> (if cur_size v + 1 > vec_max_size v then DoubleSpace pos v else Some (pos, v));
          let v2 = v1\<lparr>cur_size := cur_size v1 + 1\<rparr>;
          i \<leftarrow> GetId pos1 v2;
          d \<leftarrow> shift_up (cur_size v2 - 1 - i) (cur_size v2 - 1) (vec_data v2);
          d' \<leftarrow> write_cell d i x;
          Some (pos1, v2\<lparr>vec_data := d'\<rparr>) }"

definition vec_insert_ind :: "nat \<Rightarrow> 'a \<Rightarrow> 'a vec \<Rightarrow> (vec_error + viter \<times> 'a vec) option" where
  "vec_insert_ind ind x v =
     (if ind > cur_size v then Some (Inl vec_index_out_of_bound)
      else map_option Inr (vec_insert (it_at v (int ind - 1)) x v))"

definition vec_erase :: "viter \<Rightarrow> 'a vec \<Rightarrow> (viter \<times> 'a vec) option" where
  "vec_erase pos v =
     do { i \<leftarrow> GetId pos v;
          d \<leftarrow> shift_down (cur_size v - 1 - i) i ((vec_data v)[i := None]);
          Some (pos, v\<lparr>vec_data := d, cur_size := cur_size v - 1\<rparr>) }"

definition vec_erase_ind :: "nat \<Rightarrow> 'a vec \<Rightarrow> (vec_error + viter \<times> 'a vec) option" where
  "vec_erase_ind ind v =
     (if ind \<ge> cur_size v then Some (Inl vec_index_out_of_bound)
      else map_option Inr (vec_erase (it_at v (int ind - 1)) v))"

definition push_back :: "'a \<Rightarrow> 'a vec \<Rightarrow> 'a vec option" where
  "push_back x v =
     do { v1 \<leftarrow> (if cur_size v + 1 > vec_max_size v then map_option snd (DoubleSpace (vec_begin v) v) else Some v);
          d \<leftarrow> write_cell (vec_data v1) (cur_size v1) x;
          Some (v1\<lparr>vec_data := d, cur_size := cur_size v1 + 1\<rparr>) }"

definition pop_back :: "'a vec \<Rightarrow> (vec_error + 'a vec) option" where
  "pop_back v =
     (if cur_size v = 0 then Some (Inl vec_container_is_empty)
      else Some (Inr (v\<lparr>vec_data := (vec_data v)[cur_size v - 1 := None], cur_size := cur_size v - 1\<rparr>)))"

section \<open>The representation\<close>

definition vec_rel :: "'a vec \<Rightarrow> 'a list \<Rightarrow> bool" where
  "vec_rel v xs \<longleftrightarrow> cur_size v = length xs \<and> vec_max_size v = length (vec_data v) \<and> 0 < vec_max_size v \<and>
     take (cur_size v) (vec_data v) = map Some xs"

lemma vec_rel_size: "vec_rel v xs \<Longrightarrow> cur_size v = length xs \<and> length xs \<le> length (vec_data v)"
  unfolding vec_rel_def by (metis length_map length_take min.absorb_iff2)

lemma vec_rel_cell: "vec_rel v xs \<Longrightarrow> i < length xs \<Longrightarrow> read_cell (vec_data v) i = Some (xs ! i)"
  using vec_rel_size [of v xs] unfolding vec_rel_def read_cell_def by (metis dual_order.strict_trans1 nth_map nth_take)

text \<open>Cells of which the first \<open>n\<close> hold the elements \<open>xs\<close>.\<close>

lemma vec_relI:
  assumes "vec_data v = map Some xs @ rest" "cur_size v = length xs" "vec_max_size v = length (vec_data v)" "0 < vec_max_size v"
  shows "vec_rel v xs"
  using assms by (simp add: vec_rel_def)

lemma vec_relE:
  assumes "vec_rel v xs"
  obtains rest where "vec_data v = map Some xs @ rest" "cur_size v = length xs" "vec_max_size v = length xs + length rest" "0 < vec_max_size v"
  using assms that [of "drop (cur_size v) (vec_data v)"] vec_rel_size [OF assms] unfolding vec_rel_def
  by (metis append_take_drop_id length_append length_map)

lemma copy_cells_prefix:
  assumes "length xs \<le> length dst"
  shows "copy_cells (length xs) (map Some xs @ rest) dst = Some (map Some xs @ drop (length xs) dst)"
proof -
  have "n \<le> length xs \<Longrightarrow> copy_cells n (map Some xs @ rest) dst = Some (map Some (take n xs) @ drop n dst)" for n
  proof (induction n)
    case (Suc n)
    then have "(map Some (take n xs) @ drop n dst)[n := Some (xs ! n)] = map Some (take (Suc n) xs) @ drop (Suc n) dst"
      using assms by (auto simp: list_update_append take_Suc_conv_app_nth nth_append min_def simp flip: Cons_nth_drop_Suc)
    then show ?case using Suc assms by (auto simp: read_cell_def write_cell_def nth_append)
  qed simp
  from this [of "length xs"] show ?thesis by simp
qed

lemma vec_new_rel: "vec_rel (vec_new t) []"
  by (simp add: vec_rel_def vec_new_def)

lemma vec_clear_rel: "vec_rel (vec_clear v) []"
  by (simp add: vec_rel_def vec_clear_def)

lemma vec_copy_rel:
  assumes "vec_rel v xs"
  shows "\<exists>v'. vec_copy t v = Some v' \<and> vec_rel v' xs"
proof -
  obtain rest where r: "vec_data v = map Some xs @ rest" "cur_size v = length xs" "vec_max_size v = length xs + length rest" "0 < vec_max_size v"
    using assms by (rule vec_relE)
  then have "copy_cells (cur_size v) (vec_data v) (replicate (vec_max_size v) None) = Some (map Some xs @ replicate (length rest) None)"
    using copy_cells_prefix [of xs "replicate (vec_max_size v) None" rest] by simp
  then show ?thesis using r by (auto simp: vec_copy_def intro!: vec_relI [where rest = "replicate (length rest) None"])
qed

lemma DoubleSpace_rel:
  assumes "vec_rel v xs"
  obtains v' where "DoubleSpace pos v = Some (if \<exists>i < cur_size v. it_eq (it_at v (int i)) pos then it_at v' (it_off pos) else pos, v')"
    "vec_rel v' xs" "vec_max_size v' = 2 * vec_max_size v" "vec_block v' = Suc (vec_block v)" "vec_this v' = vec_this v"
proof -
  obtain rest where r: "vec_data v = map Some xs @ rest" "cur_size v = length xs" "vec_max_size v = length xs + length rest" "0 < vec_max_size v"
    using assms by (rule vec_relE)
  let ?d = "map Some xs @ drop (length xs) (replicate (vec_max_size v * 2) None)"
  let ?v = "v\<lparr>vec_max_size := vec_max_size v * 2, vec_data := ?d, vec_block := Suc (vec_block v)\<rparr>"
  have "copy_cells (cur_size v) (vec_data v) (replicate (vec_max_size v * 2) None) = Some ?d"
    unfolding r(1,2) by (rule copy_cells_prefix) (use r(3) in simp)
  then have "DoubleSpace pos v = Some (if \<exists>i < cur_size v. it_eq (it_at v (int i)) pos then it_at ?v (it_off pos) else pos, ?v)"
    by (auto simp: DoubleSpace_def Let_def)
  moreover have "vec_rel ?v xs" by (rule vec_relI) (use r in simp_all)
  ultimately show ?thesis using that [of ?v] by simp
qed

section \<open>The operations act like those of a list\<close>

lemma push_back_rel:
  assumes "vec_rel v xs"
  shows "\<exists>v'. push_back x v = Some v' \<and> vec_rel v' (xs @ [x])"
proof -
  obtain v1 where v1: "(if cur_size v + 1 > vec_max_size v then map_option snd (DoubleSpace (vec_begin v) v) else Some v) = Some v1"
    "vec_rel v1 xs" "length xs < vec_max_size v1"
  proof (cases "cur_size v + 1 > vec_max_size v")
    case True
    obtain v' where v': "\<exists>p. DoubleSpace (vec_begin v) v = Some (p, v')" "vec_rel v' xs" "vec_max_size v' = 2 * vec_max_size v"
      using DoubleSpace_rel [OF assms, of "vec_begin v"] by metis
    moreover have "length xs < 2 * vec_max_size v" using True assms vec_rel_size [OF assms] unfolding vec_rel_def by linarith
    ultimately show ?thesis using True that [of v'] by auto
  next
    case False
    then show ?thesis using that [of v] assms vec_rel_size [OF assms] by simp
  qed
  obtain rest where r: "vec_data v1 = map Some xs @ rest" "cur_size v1 = length xs" "vec_max_size v1 = length xs + length rest"
    using v1(2) by (rule vec_relE)
  then obtain y ys where "rest = y # ys" using v1(3) by (cases rest) auto
  then have "push_back x v = Some (v1\<lparr>vec_data := map Some (xs @ [x]) @ ys, cur_size := length (xs @ [x])\<rparr>)"
    using v1(1) r by (simp add: push_back_def write_cell_def list_update_append)
  moreover have "vec_rel (v1\<lparr>vec_data := map Some (xs @ [x]) @ ys, cur_size := length (xs @ [x])\<rparr>) (xs @ [x])"
    using \<open>rest = y # ys\<close> r by (intro vec_relI) simp_all
  ultimately show ?thesis by blast
qed

lemma pop_back_rel:
  assumes "vec_rel v xs"
  shows "xs = [] \<Longrightarrow> pop_back v = Some (Inl vec_container_is_empty)"
    and "xs \<noteq> [] \<Longrightarrow> \<exists>v'. pop_back v = Some (Inr v') \<and> vec_rel v' (butlast xs)"
proof -
  obtain rest where r: "vec_data v = map Some xs @ rest" "cur_size v = length xs" "vec_max_size v = length xs + length rest" "0 < vec_max_size v"
    using assms by (rule vec_relE)
  show "pop_back v = Some (Inl vec_container_is_empty)" if "xs = []" using that r by (simp add: pop_back_def)
  assume "xs \<noteq> []"
  then obtain ys y where xs: "xs = ys @ [y]" by (meson rev_exhaust)
  let ?v = "v\<lparr>vec_data := map Some ys @ None # rest, cur_size := length ys\<rparr>"
  have "pop_back v = Some (Inr ?v)" using r xs by (simp add: pop_back_def list_update_append)
  moreover have "vec_rel ?v ys" using r xs by (intro vec_relI) simp_all
  ultimately show "\<exists>v'. pop_back v = Some (Inr v') \<and> vec_rel v' (butlast xs)" using xs by simp
qed

lemma vec_at_rel:
  assumes "vec_rel v xs"
  shows "vec_at i v = Some (if i < length xs then Inr (xs ! i) else Inl vec_index_out_of_bound)"
  using assms vec_rel_cell [OF assms, of i] vec_rel_size [OF assms] by (simp add: vec_at_def)

lemma vec_set_rel:
  assumes "vec_rel v xs"
  shows "i \<ge> length xs \<Longrightarrow> vec_set i x v = Some (Inl vec_index_out_of_bound)"
    and "i < length xs \<Longrightarrow> \<exists>v'. vec_set i x v = Some (Inr v') \<and> vec_rel v' (xs[i := x])"
proof -
  obtain rest where r: "vec_data v = map Some xs @ rest" "cur_size v = length xs" "vec_max_size v = length xs + length rest" "0 < vec_max_size v"
    using assms by (rule vec_relE)
  show "vec_set i x v = Some (Inl vec_index_out_of_bound)" if "i \<ge> length xs" using that r by (simp add: vec_set_def)
  assume i: "i < length xs"
  let ?v = "v\<lparr>vec_data := map Some (xs[i := x]) @ rest\<rparr>"
  have "vec_set i x v = Some (Inr ?v)" using r i by (simp add: vec_set_def write_cell_def list_update_append map_update)
  moreover have "vec_rel ?v (xs[i := x])" using r by (intro vec_relI) simp_all
  ultimately show "\<exists>v'. vec_set i x v = Some (Inr v') \<and> vec_rel v' (xs[i := x])" by blast
qed

lemma vec_ends_rel:
  assumes "vec_rel v xs"
  shows "vec_front v = Some (if xs = [] then Inl vec_container_is_empty else Inr (hd xs))"
    and "vec_back v = Some (if xs = [] then Inl vec_container_is_empty else Inr (last xs))"
  using assms vec_rel_cell [OF assms] vec_rel_size [OF assms]
  by (auto simp: vec_front_def vec_back_def hd_conv_nth last_conv_nth)

text \<open>\<^verbatim>\<open>insert\<close> before a position and \<^verbatim>\<open>erase\<close>.\<close>

lemma GetId_at: "i < cur_size v \<Longrightarrow> it_eq (it_at v (int i)) it \<Longrightarrow> GetId it v = Some i"
  by (auto simp: GetId_def it_eq_def it_at_def find_Some_iff2 find_Some_iff intro!: exI [of _ i])

lemma GetId_none: "(\<And>i. i < cur_size v \<Longrightarrow> \<not> it_eq (it_at v (int i)) it) \<Longrightarrow> GetId it v = None"
  by (auto simp: GetId_def find_None_iff)

lemma shift_up_cells:
  "\<exists>c. shift_up (length ys) (length us + length ys) (us @ map Some ys @ z # rest) = Some (us @ c # map Some ys @ rest)"
proof (induction ys arbitrary: z rest rule: rev_induct)
  case (snoc y ys)
  let ?d = "us @ map Some ys @ Some y # z # rest"
  have "read_cell ?d (length us + length ys) = Some y"
    by (simp add: read_cell_def nth_append)
  moreover have "write_cell ?d (Suc (length us + length ys)) y = Some (us @ map Some ys @ Some y # Some y # rest)"
    by (simp add: write_cell_def list_update_append)
  moreover obtain c where "shift_up (length ys) (length us + length ys) (us @ map Some ys @ Some y # Some y # rest) =
      Some (us @ c # map Some ys @ Some y # rest)" using snoc [of "Some y" "Some y # rest"] by auto
  ultimately show ?case by simp
qed simp

lemma shift_down_cells:
  "shift_down (length ys) (length us) (us @ z # map Some ys @ rest) =
     Some (us @ map Some ys @ (if ys = [] then z else Some (last ys)) # rest)"
proof (induction ys arbitrary: us z)
  case (Cons y ys)
  let ?d = "us @ z # Some y # map Some ys @ rest"
  have "read_cell ?d (Suc (length us)) = Some y" by (simp add: read_cell_def nth_append)
  moreover have "write_cell ?d (length us) y = Some ((us @ [Some y]) @ Some y # map Some ys @ rest)"
    by (simp add: write_cell_def list_update_append)
  ultimately show ?case using Cons [of "us @ [Some y]" "Some y"] by simp
qed simp

text \<open>The part of \<^verbatim>\<open>insert\<close> after the room is made.\<close>

lemma insert_cells:
  assumes "vec_rel v xs" "i \<le> length xs" "length xs < vec_max_size v"
  obtains d d' where "shift_up (length xs - i) (length xs) (vec_data v) = Some d" "write_cell d i x = Some d'"
    "length d' = length (vec_data v)" "\<exists>rest. d' = map Some (take i xs @ x # drop i xs) @ rest"
proof -
  obtain rest where r: "vec_data v = map Some xs @ rest" "vec_max_size v = length xs + length rest" using assms(1) by (rule vec_relE)
  then obtain z rs where z: "rest = z # rs" using assms(3) by (cases rest) auto
  have d: "vec_data v = map Some (take i xs) @ map Some (drop i xs) @ z # rs"
    unfolding r(1) z by (metis append.assoc append_take_drop_id map_append)
  have l: "length (map Some (take i xs)) = i" "length (drop i xs) = length xs - i" "i + (length xs - i) = length xs"
    using assms(2) by simp_all
  obtain c where "shift_up (length xs - i) (length xs) (vec_data v) = Some (map Some (take i xs) @ c # map Some (drop i xs) @ rs)"
    unfolding d using shift_up_cells [of "drop i xs" "map Some (take i xs)" z rs] l by metis
  moreover have "write_cell (map Some (take i xs) @ c # map Some (drop i xs) @ rs) i x =
      Some (map Some (take i xs @ x # drop i xs) @ rs)"
    using l(1) by (simp add: write_cell_def list_update_append)
  ultimately show ?thesis using that d by fastforce
qed

lemma vec_insert_step:
  assumes "vec_rel v1 xs" "i \<le> length xs" "length xs < vec_max_size v1" "it_eq (it_at v1 (int i)) pos1"
    and "(if cur_size v + 1 > vec_max_size v then DoubleSpace pos v else Some (pos, v)) = Some (pos1, v1)"
  shows "\<exists>v'. vec_insert pos x v = Some (pos1, v') \<and> vec_rel v' (take i xs @ x # drop i xs) \<and> vec_block v' = vec_block v1"
proof -
  let ?v2 = "v1\<lparr>cur_size := cur_size v1 + 1\<rparr>"
  have c: "cur_size v1 = length xs" using vec_rel_size [OF assms(1)] by simp
  have g: "GetId pos1 ?v2 = Some i" using assms(2,4) c by (intro GetId_at) (simp_all add: it_at_def it_eq_def)
  obtain d d' where d: "shift_up (length xs - i) (length xs) (vec_data v1) = Some d" "write_cell d i x = Some d'"
    "length d' = length (vec_data v1)" "\<exists>rest. d' = map Some (take i xs @ x # drop i xs) @ rest"
    using assms(1-3) by (rule insert_cells)
  have "vec_insert pos x v = Some (pos1, ?v2\<lparr>vec_data := d'\<rparr>)"
    using assms(5) g d(1,2) c unfolding vec_insert_def by simp
  moreover obtain rest where "d' = map Some (take i xs @ x # drop i xs) @ rest" using d(4) by blast
  then have "vec_rel (?v2\<lparr>vec_data := d'\<rparr>) (take i xs @ x # drop i xs)"
    using assms(1,2) d(3) c by (intro vec_relI [where rest = rest]) (auto simp: vec_rel_def)
  ultimately show ?thesis by simp
qed

lemma vec_insert_rel:
  assumes r: "vec_rel v xs" and i: "i \<le> length xs" and pos: "it_eq (it_at v (int i)) pos" and room: "i < length xs \<or> length xs < vec_max_size v"
  shows "\<exists>p v'. vec_insert pos x v = Some (p, v') \<and> vec_rel v' (take i xs @ x # drop i xs) \<and> it_eq (it_at v' (int i)) p"
proof (cases "cur_size v + 1 > vec_max_size v")
  case False
  then have "length xs < vec_max_size v" using vec_rel_size [OF r] by simp
  then show ?thesis using vec_insert_step [OF r i _ pos, of v pos x] False pos by (auto simp: it_eq_def it_at_def)
next
  case True
  obtain v1 where v1: "DoubleSpace pos v = Some (if \<exists>i < cur_size v. it_eq (it_at v (int i)) pos then it_at v1 (it_off pos) else pos, v1)"
    "vec_rel v1 xs" "vec_max_size v1 = 2 * vec_max_size v" using r by (rule DoubleSpace_rel)
  have "i < length xs" "length xs = vec_max_size v" using True room vec_rel_size [OF r] r by (auto simp: vec_rel_def)
  then have d: "DoubleSpace pos v = Some (it_at v1 (it_off pos), v1)" "length xs < vec_max_size v1"
    using v1 pos vec_rel_size [OF r] r by (auto simp: vec_rel_def)
  have e: "it_eq (it_at v1 (int i)) (it_at v1 (it_off pos))" using pos by (simp add: it_eq_def it_at_def)
  show ?thesis using vec_insert_step [OF v1(2) i d(2) e, of v pos x] True d(1) e by (auto simp: it_eq_def it_at_def)
qed

text \<open>An insertion at the end of a full vector looks for an iterator into the freed block.\<close>

lemma vec_insert_full:
  assumes r: "vec_rel v xs" and full: "length xs = vec_max_size v" and pos: "it_eq (it_at v (int (length xs))) pos"
  shows "vec_insert pos x v = None"
proof -
  obtain v1 where v1: "DoubleSpace pos v = Some (if \<exists>i < cur_size v. it_eq (it_at v (int i)) pos then it_at v1 (it_off pos) else pos, v1)"
    "vec_block v1 = Suc (vec_block v)" using r by (rule DoubleSpace_rel)
  have no: "\<not> (\<exists>i < cur_size v. it_eq (it_at v (int i)) pos)" using pos vec_rel_size [OF r] by (auto simp: it_eq_def it_at_def)
  have b: "it_block pos = vec_block v" using pos by (simp add: it_eq_def it_at_def)
  have "GetId pos (v1\<lparr>cur_size := cur_size v1 + 1\<rparr>) = None"
    using v1(2) b by (intro GetId_none) (simp add: it_eq_def it_at_def)
  moreover have "DoubleSpace pos v = Some (pos, v1)" using v1(1) no by (simp only: if_False)
  ultimately show ?thesis using full vec_rel_size [OF r] by (simp add: vec_insert_def)
qed

lemma vec_erase_rel:
  assumes r: "vec_rel v xs" and i: "i < length xs" and pos: "it_eq (it_at v (int i)) pos"
  shows "\<exists>v'. vec_erase pos v = Some (pos, v') \<and> vec_rel v' (take i xs @ drop (Suc i) xs) \<and> vec_block v' = vec_block v"
proof -
  obtain rest where rest: "vec_data v = map Some xs @ rest" "cur_size v = length xs" "vec_max_size v = length xs + length rest" "0 < vec_max_size v"
    using r by (rule vec_relE)
  have g: "GetId pos v = Some i" using i pos rest(2) by (intro GetId_at) simp_all
  have l: "length (map Some (take i xs)) = i" "length (drop (Suc i) xs) = length xs - 1 - i" using i by simp_all
  have "(vec_data v)[i := None] = map Some (take i xs) @ None # map Some (drop (Suc i) xs) @ rest"
    using i unfolding rest(1) by (simp add: list_update_append upd_conv_take_nth_drop drop_map take_map)
  then obtain z where d: "shift_down (cur_size v - 1 - i) i ((vec_data v)[i := None]) =
      Some (map Some (take i xs @ drop (Suc i) xs) @ z # rest)"
    using shift_down_cells [of "drop (Suc i) xs" "map Some (take i xs)" None rest] l rest(2) by simp
  let ?v = "v\<lparr>vec_data := map Some (take i xs @ drop (Suc i) xs) @ z # rest, cur_size := cur_size v - 1\<rparr>"
  have "vec_erase pos v = Some (pos, ?v)" using g d by (simp add: vec_erase_def)
  moreover have "vec_rel ?v (take i xs @ drop (Suc i) xs)" using i rest by (intro vec_relI) simp_all
  ultimately show ?thesis by auto
qed

lemma vec_insert_outside:
  assumes r: "vec_rel v xs" and i: "length xs < i"
  shows "vec_insert (it_at v (int i)) x v = None"
proof (cases "cur_size v + 1 > vec_max_size v")
  case False
  have "GetId (it_at v (int i)) (v\<lparr>cur_size := cur_size v + 1\<rparr>) = None"
    using i vec_rel_size [OF r] by (intro GetId_none) (simp add: it_eq_def it_at_def)
  then show ?thesis using False by (simp add: vec_insert_def)
next
  case True
  obtain v1 where v1: "DoubleSpace (it_at v (int i)) v =
      Some (if \<exists>j < cur_size v. it_eq (it_at v (int j)) (it_at v (int i)) then it_at v1 (it_off (it_at v (int i))) else it_at v (int i), v1)"
    "vec_block v1 = Suc (vec_block v)" using r by (rule DoubleSpace_rel)
  have no: "\<not> (\<exists>j < cur_size v. it_eq (it_at v (int j)) (it_at v (int i)))"
    using i vec_rel_size [OF r] by (auto simp: it_eq_def it_at_def)
  have "GetId (it_at v (int i)) (v1\<lparr>cur_size := cur_size v1 + 1\<rparr>) = None"
    using v1(2) by (intro GetId_none) (simp add: it_eq_def it_at_def)
  moreover have "DoubleSpace (it_at v (int i)) v = Some (it_at v (int i), v1)" using v1(1) no by (simp only: if_False)
  ultimately show ?thesis using True by (simp add: vec_insert_def)
qed

lemma vec_erase_outside:
  assumes "vec_rel v xs" "length xs \<le> i"
  shows "vec_erase (it_at v (int i)) v = None"
proof -
  have "GetId (it_at v (int i)) v = None"
    using assms(2) vec_rel_size [OF assms(1)] by (intro GetId_none) (simp add: it_eq_def it_at_def)
  then show ?thesis by (simp add: vec_erase_def)
qed

lemma vec_before_begin:
  assumes "vec_rel v xs"
  shows "vec_insert (it_at v (- 1)) x v = None" "vec_erase (it_at v (- 1)) v = None"
proof -
  have g: "GetId (it_at v (- 1)) w = None" if "vec_block w = vec_block v \<or> vec_block w = Suc (vec_block v)" for w :: "'a vec"
    by (intro GetId_none) (simp add: it_eq_def it_at_def)
  then show "vec_erase (it_at v (- 1)) v = None" by (simp add: vec_erase_def)
  obtain v1 where v1: "DoubleSpace (it_at v (- 1)) v =
      Some (if \<exists>j < cur_size v. it_eq (it_at v (int j)) (it_at v (- 1)) then it_at v1 (it_off (it_at v (- 1))) else it_at v (- 1), v1)"
    "vec_block v1 = Suc (vec_block v)" using assms by (rule DoubleSpace_rel)
  have "\<not> (\<exists>j < cur_size v. it_eq (it_at v (int j)) (it_at v (- 1)))" by (auto simp: it_eq_def it_at_def)
  then have "DoubleSpace (it_at v (- 1)) v = Some (it_at v (- 1), v1)" using v1(1) by (simp only: if_False)
  then show "vec_insert (it_at v (- 1)) x v = None"
    using g [of "v\<lparr>cur_size := cur_size v + 1\<rparr>"] g [of "v1\<lparr>cur_size := cur_size v1 + 1\<rparr>"] v1(2) by (simp add: vec_insert_def)
qed

text \<open>The size of the block.\<close>

lemma max_size_kept:
  "push_back x v = Some v' \<Longrightarrow> vec_max_size v' = (if cur_size v < vec_max_size v then vec_max_size v else 2 * vec_max_size v)"
  "vec_insert pos x v = Some (p, v') \<Longrightarrow> vec_max_size v' = (if cur_size v < vec_max_size v then vec_max_size v else 2 * vec_max_size v)"
  "vec_erase pos v = Some (p, v') \<Longrightarrow> vec_max_size v' = vec_max_size v"
  "pop_back v = Some (Inr v') \<Longrightarrow> vec_max_size v' = vec_max_size v"
  "vec_set i x v = Some (Inr v') \<Longrightarrow> vec_max_size v' = vec_max_size v"
  "vec_copy t v = Some v' \<Longrightarrow> vec_max_size v' = vec_max_size v"
  "vec_max_size (vec_clear v) = 32"
  by (auto simp: push_back_def vec_insert_def vec_erase_def pop_back_def vec_set_def vec_copy_def vec_clear_def DoubleSpace_def
      bind_Some_iff Let_def split: if_splits)

section \<open>The contract\<close>

text \<open>
  The calls a client makes. \<open>Op_insert_at i\<close> and \<open>Op_erase_at i\<close> are \<^verbatim>\<open>insert\<close> and \<^verbatim>\<open>erase\<close> with the
  iterator \<^verbatim>\<open>begin() + i\<close>, \<open>Op_insert_index i\<close> and \<open>Op_erase_index i\<close> the versions with an index.
\<close>

datatype 'a seq_op = Op_push 'a | Op_pop | Op_set nat 'a | Op_insert_at nat 'a | Op_erase_at nat
  | Op_insert_index nat 'a | Op_erase_index nat | Op_reset | Op_duplicate

text \<open>
  What they do to the size of the block and the list of elements. The result is an exception, or the
  new state, or none where the behaviour of the code is not defined: at an iterator to no element
  (and, for insertion, to no place before the end or at the end of a block that is full), and for the
  index 0 of the versions with an index, which work one place to the left of the index.
\<close>

definition grown :: "nat \<Rightarrow> 'a list \<Rightarrow> nat" where
  "grown c xs = (if length xs < c then c else 2 * c)"

fun seq_call :: "'a seq_op \<Rightarrow> nat \<times> 'a list \<Rightarrow> (vec_error + nat \<times> 'a list) option" where
  "seq_call (Op_push x) (c, xs) = Some (Inr (grown c xs, xs @ [x]))"
| "seq_call Op_pop (c, xs) = Some (if xs = [] then Inl vec_container_is_empty else Inr (c, butlast xs))"
| "seq_call (Op_set i x) (c, xs) = Some (if i < length xs then Inr (c, xs[i := x]) else Inl vec_index_out_of_bound)"
| "seq_call (Op_insert_at i x) (c, xs) =
     (if i < length xs \<or> i = length xs \<and> length xs < c then Some (Inr (grown c xs, take i xs @ x # drop i xs)) else None)"
| "seq_call (Op_erase_at i) (c, xs) = (if i < length xs then Some (Inr (c, take i xs @ drop (Suc i) xs)) else None)"
| "seq_call (Op_insert_index i x) (c, xs) =
     (if length xs < i then Some (Inl vec_index_out_of_bound)
      else if i = 0 then None else Some (Inr (grown c xs, take (i - 1) xs @ x # drop (i - 1) xs)))"
| "seq_call (Op_erase_index i) (c, xs) =
     (if length xs \<le> i then Some (Inl vec_index_out_of_bound)
      else if i = 0 then None else Some (Inr (c, take (i - 1) xs @ drop i xs)))"
| "seq_call Op_reset (c, xs) = Some (Inr (32, []))"
| "seq_call Op_duplicate (c, xs) = Some (Inr (c, xs))"

text \<open>A run keeps a log of the exceptions; a call that throws leaves the state as it was.\<close>

definition logged :: "('op \<Rightarrow> 's \<Rightarrow> (vec_error + 's) option) \<Rightarrow> 'op \<Rightarrow> 's \<times> vec_error option list \<Rightarrow> ('s \<times> vec_error option list) option" where
  "logged call x st = (case call x (fst st) of None \<Rightarrow> None
     | Some (Inl e) \<Rightarrow> Some (fst st, snd st @ [Some e])
     | Some (Inr s) \<Rightarrow> Some (s, snd st @ [None]))"

locale sequence =
  fixes R :: "'s \<Rightarrow> nat \<times> 'a list \<Rightarrow> bool" and call :: "'a seq_op \<Rightarrow> 's \<Rightarrow> (vec_error + 's) option"
    and elem :: "nat \<Rightarrow> 's \<Rightarrow> 'a option" and len :: "'s \<Rightarrow> nat" and new_seq :: 's
  assumes call_spec: "R s a \<Longrightarrow> rel_option (rel_sum (=) R) (call x s) (seq_call x a)"
    and new_seq: "R new_seq (32, [])" and len: "R s (c, xs) \<Longrightarrow> len s = length xs"
    and elem: "R s (c, xs) \<Longrightarrow> elem i s = (if i < length xs then Some (xs ! i) else None)"
begin

lemma logged_spec:
  "R s a \<Longrightarrow> rel_option (rel_prod R (=)) (logged call x (s, es)) (logged seq_call x (a, es))"
  using call_spec [of s a x] by (auto simp: logged_def rel_option_iff rel_sum.simps split: option.splits sum.splits)

lemma run_spec:
  "R s a \<Longrightarrow> rel_option (rel_prod R (=)) (run_calls (logged call) xs (s, es)) (run_calls (logged seq_call) xs (a, es))"
proof (induction xs arbitrary: s a es)
  case (Cons x xs)
  from logged_spec [OF Cons.prems, of x es] show ?case using Cons.IH by (cases rule: option.rel_cases) auto
qed simp

lemma read_back: "R s (c, xs) \<Longrightarrow> map (\<lambda>i. elem i s) [0..<len s] = map Some xs"
  by (auto simp: len elem intro!: nth_equalityI)

lemma elements_run:
  "map_option (\<lambda>(s, es). (map (\<lambda>i. elem i s) [0..<len s], es)) (run_calls (logged call) ops (new_seq, [])) =
   map_option (\<lambda>((c, xs), es). (map Some xs, es)) (run_calls (logged seq_call) ops ((32, []), []))"
  using run_spec [OF new_seq, of ops "[]"] by (cases rule: option.rel_cases) (auto simp: read_back)

end

text \<open>The calls on \<^verbatim>\<open>thomas::vector\<close>.\<close>

fun vec_call :: "'a seq_op \<Rightarrow> 'a vec \<Rightarrow> (vec_error + 'a vec) option" where
  "vec_call (Op_push x) v = map_option Inr (push_back x v)"
| "vec_call Op_pop v = pop_back v"
| "vec_call (Op_set i x) v = vec_set i x v"
| "vec_call (Op_insert_at i x) v = map_option (\<lambda>r. Inr (snd r)) (vec_insert (it_plus (vec_begin v) (int i)) x v)"
| "vec_call (Op_erase_at i) v = map_option (\<lambda>r. Inr (snd r)) (vec_erase (it_plus (vec_begin v) (int i)) v)"
| "vec_call (Op_insert_index i x) v = map_option (map_sum id snd) (vec_insert_ind i x v)"
| "vec_call (Op_erase_index i) v = map_option (map_sum id snd) (vec_erase_ind i v)"
| "vec_call Op_reset v = Some (Inr (vec_clear v))"
| "vec_call Op_duplicate v = map_option Inr (vec_copy (Suc (vec_this v)) v)"

definition vec_elem :: "nat \<Rightarrow> 'a vec \<Rightarrow> 'a option" where
  "vec_elem i v = (case vec_at i v of Some (Inr x) \<Rightarrow> Some x | _ \<Rightarrow> None)"

definition block_rel :: "'a vec \<Rightarrow> nat \<times> 'a list \<Rightarrow> bool" where
  "block_rel v a \<longleftrightarrow> vec_rel v (snd a) \<and> vec_max_size v = fst a"

lemma begin_plus: "it_plus (vec_begin v) (int i) = it_at v (int i)"
  by (simp add: it_at_def it_plus_def vec_begin_def)

lemma it_eq_refl [simp]: "it_eq it it"
  by (simp add: it_eq_def)

lemma insert_call:
  assumes r: "vec_rel v xs"
  shows "rel_option block_rel (map_option snd (vec_insert (it_at v (int i)) x v))
    (if i < length xs \<or> i = length xs \<and> length xs < vec_max_size v
     then Some (grown (vec_max_size v) xs, take i xs @ x # drop i xs) else None)"
proof (cases "i < length xs \<or> i = length xs \<and> length xs < vec_max_size v")
  case True
  then obtain p v' where v': "vec_insert (it_at v (int i)) x v = Some (p, v')" "vec_rel v' (take i xs @ x # drop i xs)"
    using vec_insert_rel [OF r _ it_eq_refl [of "it_at v (int i)"], of x] by fastforce
  then show ?thesis using True max_size_kept(2) [OF v'(1)] vec_rel_size [OF r] by (simp add: block_rel_def grown_def)
next
  case False
  have "length xs \<le> vec_max_size v" using vec_rel_size [OF r] r by (simp add: vec_rel_def)
  then have "vec_insert (it_at v (int i)) x v = None"
    using False vec_insert_outside [OF r, of i x] vec_insert_full [OF r _ it_eq_refl, of x] by (cases "length xs < i") auto
  then show ?thesis using False by simp
qed

lemma erase_call:
  assumes r: "vec_rel v xs"
  shows "rel_option block_rel (map_option snd (vec_erase (it_at v (int i)) v))
    (if i < length xs then Some (vec_max_size v, take i xs @ drop (Suc i) xs) else None)"
proof (cases "i < length xs")
  case True
  then obtain v' where v': "vec_erase (it_at v (int i)) v = Some (it_at v (int i), v')" "vec_rel v' (take i xs @ drop (Suc i) xs)"
    using vec_erase_rel [OF r True it_eq_refl] by blast
  then show ?thesis using True max_size_kept(3) [OF v'(1)] by (simp add: block_rel_def)
qed (use vec_erase_outside [OF r, of i] in simp)

interpretation vec: sequence block_rel vec_call vec_elem vec_size "vec_new t"
proof
  show "rel_option (rel_sum (=) block_rel) (vec_call op v) (seq_call op a)" if R: "block_rel v a"
    for v a and op :: "'a seq_op"
  proof -
    obtain c xs where a: "a = (c, xs)" by force
    have r: "vec_rel v xs" and c: "c = vec_max_size v" using R by (simp_all add: block_rel_def a)
    note size = vec_rel_size [OF r]
    show ?thesis
    proof (cases op)
      case (Op_push x)
      obtain v' where "push_back x v = Some v'" "vec_rel v' (xs @ [x])" using push_back_rel [OF r] by blast
      then show ?thesis using max_size_kept(1) [of x v v'] size by (simp add: Op_push a c block_rel_def grown_def)
    next
      case Op_pop
      then show ?thesis using pop_back_rel [OF r] max_size_kept(4) [of v] by (auto simp: a c block_rel_def)
    next
      case (Op_set i x)
      then show ?thesis using vec_set_rel [OF r, of i x] max_size_kept(5) [of i x v] by (auto simp: a c block_rel_def)
    next
      case (Op_insert_at i x)
      then show ?thesis
        using insert_call [OF r, of i x]
        by (cases "vec_insert (it_at v (int i)) x v") (auto simp: a c begin_plus split: if_splits)
    next
      case (Op_erase_at i)
      then show ?thesis
        using erase_call [OF r, of i]
        by (cases "vec_erase (it_at v (int i)) v") (auto simp: a c begin_plus split: if_splits)
    next
      case (Op_insert_index i x)
      show ?thesis
      proof (cases "i = 0")
        case False
        then have "it_at v (int i - 1) = it_at v (int (i - 1))" by (simp add: of_nat_diff)
        then show ?thesis
          using insert_call [OF r, of "i - 1" x] size False
          by (cases "vec_insert (it_at v (int (i - 1))) x v") (auto simp: Op_insert_index a c vec_insert_ind_def split: if_splits)
      qed (use vec_before_begin(1) [OF r, of x] in \<open>simp add: Op_insert_index a vec_insert_ind_def\<close>)
    next
      case (Op_erase_index i)
      show ?thesis
      proof (cases "i = 0")
        case False
        then have "it_at v (int i - 1) = it_at v (int (i - 1))" by (simp add: of_nat_diff)
        then show ?thesis
          using erase_call [OF r, of "i - 1"] size False
          by (cases "vec_erase (it_at v (int (i - 1))) v") (auto simp: Op_erase_index a c vec_erase_ind_def split: if_splits)
      qed (use vec_before_begin(2) [OF r] size in \<open>simp add: Op_erase_index a vec_erase_ind_def\<close>)
    next
      case Op_reset
      then show ?thesis using vec_clear_rel [of v] by (simp add: a block_rel_def max_size_kept(7))
    next
      case Op_duplicate
      obtain v' where "vec_copy (Suc (vec_this v)) v = Some v'" "vec_rel v' xs" using vec_copy_rel [OF r] by blast
      then show ?thesis using max_size_kept(6) by (auto simp: Op_duplicate a c block_rel_def)
    qed
  qed
  show "block_rel (vec_new t) (32, [])" using vec_new_rel [of t] by (simp add: block_rel_def vec_new_def)
  show "vec_size v = length xs" if "block_rel v (c, xs)" for v c and xs :: "'a list"
    using that vec_rel_size [of v xs] by (simp add: vec_size_def block_rel_def)
  show "vec_elem i v = (if i < length xs then Some (xs ! i) else None)" if "block_rel v (c, xs)" for v c and xs :: "'a list" and i
    using that vec_at_rel [of v xs i] by (simp add: vec_elem_def block_rel_def)
qed

end
