(* ===== verification/BufferPool.thy ===== *)
theory BufferPool
  imports Storage Replacer EngineVector
begin

text \<open>
  \<^verbatim>\<open>BufferPoolManager\<close> of \<^verbatim>\<open>database/src/buffer/buffer_pool_manager.cpp\<close>, on the pointer-level
  models of its containers: \<^verbatim>\<open>page_table_\<close> is a \<^verbatim>\<open>linked_hashmap\<close>, \<^verbatim>\<open>free_list_\<close> a
  \<^verbatim>\<open>thomas::vector\<close> and \<^verbatim>\<open>replacer_\<close> any replacer, whose virtual functions are the parameter \<open>rp\<close>.
  The hash function of the page numbers is the parameter \<open>hash\<close>.

  A \<^verbatim>\<open>Page *\<close> is the number of its frame, a null pointer is \<open>None\<close>. The latch is left out: a call
  runs alone. A call that would leave through an exception of a container has no result.
\<close>

record 'r bpm =
  pool_size :: nat
  pool_pages :: "frame list"
  pool_disk :: disk_manager
  page_table :: "(int, nat) linked_hashmap"
  pool_replacer :: 'r
  free_list :: "nat vec"

definition get_page :: "nat \<Rightarrow> 'r bpm \<Rightarrow> frame option" where
  "get_page f b = (if f < length (pool_pages b) then Some (pool_pages b ! f) else None)"

definition set_page :: "nat \<Rightarrow> frame \<Rightarrow> 'r bpm \<Rightarrow> 'r bpm" where
  "set_page f p b = b\<lparr>pool_pages := (pool_pages b)[f := p]\<rparr>"

text \<open>The loop that puts every frame into the free list; \<open>n\<close> frames are left.\<close>

fun fill_free :: "nat \<Rightarrow> nat \<Rightarrow> nat vec \<Rightarrow> nat vec option" where
  "fill_free 0 i v = Some v"
| "fill_free (Suc n) i v = do { v' \<leftarrow> push_back i v; fill_free n (Suc i) v' }"

definition BufferPoolManager :: "nat \<Rightarrow> 'r \<Rightarrow> disk_manager \<Rightarrow> 'r bpm option" where
  "BufferPoolManager n r dm =
     do { v \<leftarrow> fill_free n 0 (vec_new 0);
          Some \<lparr>pool_size = n, pool_pages = replicate n Page_new, pool_disk = dm, page_table = lhm_new, pool_replacer = r,
                free_list = v\<rparr> }"

definition bpm_Size :: "'r replacer_ops \<Rightarrow> 'r bpm \<Rightarrow> nat" where
  "bpm_Size rp b = vec_size (free_list b) + rp_Size rp (pool_replacer b)"

text \<open>\<^verbatim>\<open>page_table_.find(page_id)\<close> with \<^verbatim>\<open>it->second\<close>, \<^verbatim>\<open>page_table_.erase(it)\<close>, \<^verbatim>\<open>page_table_[page_id] = frame\<close>\<close>

definition table_find :: "(int \<Rightarrow> nat) \<Rightarrow> int \<Rightarrow> 'r bpm \<Rightarrow> nat option option" where
  "table_find hash pid b =
     do { it \<leftarrow> lhm_find hash pid (page_table b);
          (if it = lhm_end (page_table b) then Some None
           else do { (k, f) \<leftarrow> iter_deref it (page_table b); Some (Some f) }) }"

definition table_erase :: "(int \<Rightarrow> nat) \<Rightarrow> int \<Rightarrow> 'r bpm \<Rightarrow> 'r bpm option" where
  "table_erase hash pid b =
     do { it \<leftarrow> lhm_find hash pid (page_table b);
          res \<leftarrow> lhm_erase hash it (page_table b);
          (case res of Inl e \<Rightarrow> None | Inr t \<Rightarrow> Some (b\<lparr>page_table := t\<rparr>)) }"

definition table_set :: "(int \<Rightarrow> nat) \<Rightarrow> int \<Rightarrow> nat \<Rightarrow> 'r bpm \<Rightarrow> 'r bpm option" where
  "table_set hash pid f b =
     do { t \<leftarrow> lhm_assign hash pid f 0 (page_table b); Some (b\<lparr>page_table := t\<rparr>) }"

definition write_page :: "int \<Rightarrow> byte list \<Rightarrow> 'r bpm \<Rightarrow> 'r bpm option" where
  "write_page pid d b = do { dm \<leftarrow> WritePage pid d (pool_disk b); Some (b\<lparr>pool_disk := dm\<rparr>) }"

definition bpm_Pin :: "'r replacer_ops \<Rightarrow> nat \<Rightarrow> 'r bpm \<Rightarrow> 'r bpm option" where
  "bpm_Pin rp f b = do { r \<leftarrow> rp_Pin rp f (pool_replacer b); Some (b\<lparr>pool_replacer := r\<rparr>) }"

text \<open>The frame at the end of the free list.\<close>

definition take_free :: "'r bpm \<Rightarrow> (nat \<times> 'r bpm) option" where
  "take_free b =
     do { x \<leftarrow> vec_back (free_list b);
          v \<leftarrow> pop_back (free_list b);
          (case (x, v) of (Inr f, Inr v') \<Rightarrow> Some (f, b\<lparr>free_list := v'\<rparr>) | _ \<Rightarrow> None) }"

definition evict :: "(int \<Rightarrow> nat) \<Rightarrow> nat \<Rightarrow> 'r bpm \<Rightarrow> 'r bpm option" where
  "evict hash f b =
     do { p \<leftarrow> get_page f b;
          b1 \<leftarrow> (if is_dirty p then write_page (frame_page_id p) (page_data p) b else Some b);
          table_erase hash (frame_page_id p) b1 }"

definition FindFrame :: "'r replacer_ops \<Rightarrow> (int \<Rightarrow> nat) \<Rightarrow> 'r bpm \<Rightarrow> (nat option \<times> 'r bpm) option" where
  "FindFrame rp hash b =
     do { (victim, b1) \<leftarrow>
            (if vec_empty (free_list b)
             then do { (v, r) \<leftarrow> rp_Victim rp (pool_replacer b); Some (v, b\<lparr>pool_replacer := r\<rparr>) }
             else Some (None, b));
          (if vec_empty (free_list b) \<and> victim = None then Some (None, b1)
           else do {
             (f, b2) \<leftarrow>
               (if \<not> vec_empty (free_list b1) then take_free b1
                else do { f \<leftarrow> victim; b2 \<leftarrow> evict hash f b1; Some (f, b2) });
             p \<leftarrow> get_page f b2;
             Some (Some f, set_page f (ResetMemory (p\<lparr>frame_page_id := -1, is_dirty := False, pin_count := 0\<rparr>)) b2) }) }"

text \<open>The result of \<^verbatim>\<open>FetchPage\<close> is an exception or a pointer.\<close>

definition bpm_FetchPage :: "'r replacer_ops \<Rightarrow> (int \<Rightarrow> nat) \<Rightarrow> int \<Rightarrow> 'r bpm \<Rightarrow> ((io_error + nat option) \<times> 'r bpm) option" where
  "bpm_FetchPage rp hash pid b =
     do { it \<leftarrow> table_find hash pid b;
          (case it of
             Some f \<Rightarrow> do {
               p \<leftarrow> get_page f b;
               b1 \<leftarrow> bpm_Pin rp f (set_page f (p\<lparr>pin_count := pin_count p + 1\<rparr>) b);
               Some (Inr (Some f), b1) }
           | None \<Rightarrow> do {
               (frame, b1) \<leftarrow> FindFrame rp hash b;
               (case frame of
                  None \<Rightarrow> Some (Inr None, b1)
                | Some f \<Rightarrow> do {
                    b2 \<leftarrow> table_set hash pid f b1;
                    p \<leftarrow> get_page f b2;
                    b3 \<leftarrow> bpm_Pin rp f (set_page f (p\<lparr>frame_page_id := pid, pin_count := 1\<rparr>) b2);
                    (e, d) \<leftarrow> ReadPage pid (page_data p) (pool_disk b3);
                    let b4 = set_page f (p\<lparr>frame_page_id := pid, pin_count := 1, page_data := d\<rparr>) b3;
                    Some (case e of Some x \<Rightarrow> Inl x | None \<Rightarrow> Inr (Some f), b4) }) }) }"

definition bpm_UnpinPage :: "'r replacer_ops \<Rightarrow> (int \<Rightarrow> nat) \<Rightarrow> int \<Rightarrow> bool \<Rightarrow> 'r bpm \<Rightarrow> (bool \<times> 'r bpm) option" where
  "bpm_UnpinPage rp hash pid dirty b =
     do { it \<leftarrow> table_find hash pid b;
          (case it of
             None \<Rightarrow> Some (False, b)
           | Some f \<Rightarrow> do {
               p \<leftarrow> get_page f b;
               (if pin_count p = 0 then Some (False, b)
                else do {
                  let p1 = p\<lparr>is_dirty := is_dirty p \<or> dirty, pin_count := pin_count p - 1\<rparr>;
                  let b1 = set_page f p1 b;
                  b2 \<leftarrow> (if pin_count p1 = 0
                          then do { r \<leftarrow> rp_Unpin rp f (pool_replacer b1); Some (b1\<lparr>pool_replacer := r\<rparr>) } else Some b1);
                  Some (True, b2) }) }) }"

definition bpm_FlushPage :: "(int \<Rightarrow> nat) \<Rightarrow> int \<Rightarrow> 'r bpm \<Rightarrow> (bool \<times> 'r bpm) option" where
  "bpm_FlushPage hash pid b =
     (if pid = -1 then Some (False, b)
      else do {
        it \<leftarrow> table_find hash pid b;
        (case it of
           None \<Rightarrow> Some (False, b)
         | Some f \<Rightarrow> do {
             p \<leftarrow> get_page f b;
             b1 \<leftarrow> write_page pid (page_data p) b;
             Some (True, set_page f (p\<lparr>is_dirty := False\<rparr>) b1) }) })"

definition bpm_NewPage :: "'r replacer_ops \<Rightarrow> (int \<Rightarrow> nat) \<Rightarrow> 'r bpm \<Rightarrow> ((int \<times> nat) option \<times> 'r bpm) option" where
  "bpm_NewPage rp hash b =
     do { (frame, b1) \<leftarrow> FindFrame rp hash b;
          (case frame of
             None \<Rightarrow> Some (None, b1)
           | Some f \<Rightarrow> do {
               p \<leftarrow> get_page f b1;
               let (pid, dm) = AllocatePage (pool_disk b1);
               b2 \<leftarrow> write_page pid (page_data p) (b1\<lparr>pool_disk := dm\<rparr>);
               b3 \<leftarrow> bpm_Pin rp f (set_page f (p\<lparr>frame_page_id := pid, pin_count := 1\<rparr>) b2);
               b4 \<leftarrow> table_set hash pid f b3;
               Some (Some (pid, f), b4) }) }"

definition bpm_DeletePage :: "'r replacer_ops \<Rightarrow> (int \<Rightarrow> nat) \<Rightarrow> int \<Rightarrow> 'r bpm \<Rightarrow> (bool \<times> 'r bpm) option" where
  "bpm_DeletePage rp hash pid b =
     do { it \<leftarrow> table_find hash pid b;
          (case it of
             None \<Rightarrow> Some (True, b)
           | Some f \<Rightarrow> do {
               p \<leftarrow> get_page f b;
               (if pin_count p \<noteq> 0 then Some (False, b)
                else do {
                  b1 \<leftarrow> table_erase hash pid b;
                  let b2 = b1\<lparr>pool_disk := DeallocatePage pid (pool_disk b1)\<rparr>;
                  let b3 = set_page f (p\<lparr>is_dirty := False, frame_page_id := -1, pin_count := 0\<rparr>) b2;
                  v \<leftarrow> push_back f (free_list b3);
                  b4 \<leftarrow> bpm_Pin rp f (b3\<lparr>free_list := v\<rparr>);
                  Some (True, b4) }) }) }"

text \<open>The body of the loop of \<^verbatim>\<open>FlushAllPages\<close>, and the loop over the entries of the page table.\<close>

definition flush_entry :: "nat \<Rightarrow> 'r bpm \<Rightarrow> 'r bpm option" where
  "flush_entry f b =
     do { p \<leftarrow> get_page f b;
          b1 \<leftarrow> write_page (frame_page_id p) (page_data p) b;
          Some (set_page f (p\<lparr>is_dirty := False\<rparr>) b1) }"

fun flush_loop :: "(int \<times> nat) list \<Rightarrow> 'r bpm \<Rightarrow> 'r bpm option" where
  "flush_loop [] b = Some b"
| "flush_loop ((pid, f) # xs) b = do { b1 \<leftarrow> flush_entry f b; flush_loop xs b1 }"

definition bpm_FlushAllPages :: "'r bpm \<Rightarrow> 'r bpm option" where
  "bpm_FlushAllPages b = do { xs \<leftarrow> lhm_items (page_table b); flush_loop xs b }"

definition bpm_Initialize :: "'r replacer_ops \<Rightarrow> 'r bpm \<Rightarrow> 'r bpm option" where
  "bpm_Initialize rp b =
     do { r \<leftarrow> rp_Clear rp (pool_replacer b);
          v \<leftarrow> fill_free (pool_size b) 0 (vec_clear (free_list b));
          Some (b\<lparr>pool_replacer := r, free_list := v\<rparr>) }"

end
