(* ===== verification/BufferPoolInv.thy ===== *)
theory BufferPoolInv
  imports BufferPool
begin

text \<open>
  The invariant of the buffer pool. Every frame is free, holds the page of one entry of the page
  table, or is in the hands of the running call (\<open>D\<close>); the replacer holds the frames of the pages
  that nobody has pinned; a page that is not dirty is the page of the file. The logical
  contents of a page are those of its frame, or of the file when no frame holds it. The lemmas
  here are about the lists that the containers represent.
\<close>

section \<open>The invariant\<close>

definition frames_ok :: "nat set \<Rightarrow> nat \<Rightarrow> (int \<times> nat) list \<Rightarrow> nat list \<Rightarrow> nat list \<Rightarrow> frame list \<Rightarrow> bool" where
  "frames_ok D n pt fl rq ps \<longleftrightarrow>
     length ps = n \<and> distinct (map fst pt) \<and> distinct (map snd pt) \<and> distinct fl \<and>
     D \<union> set fl \<union> snd ` set pt = {..<n} \<and> set fl \<inter> snd ` set pt = {} \<and> D \<inter> (set fl \<union> snd ` set pt) = {} \<and>
     set rq = {f \<in> snd ` set pt. pin_count (ps ! f) = 0}"

definition entry_ok :: "frame list \<Rightarrow> disk_manager \<Rightarrow> int \<Rightarrow> nat \<Rightarrow> bool" where
  "entry_ok ps dm pid f \<longleftrightarrow>
     0 \<le> pid \<and> nat pid < disk_next_page_id dm \<and> frame_page_id (ps ! f) = pid \<and> length (page_data (ps ! f)) = PAGE_SIZE \<and>
     (\<not> is_dirty (ps ! f) \<longrightarrow> page_data (ps ! f) = disk_page (nat pid) (db_io dm))"

definition entries_ok :: "(int \<times> nat) list \<Rightarrow> frame list \<Rightarrow> disk_manager \<Rightarrow> bool" where
  "entries_ok pt ps dm \<longleftrightarrow> (\<forall>(pid, f) \<in> set pt. entry_ok ps dm pid f)"

text \<open>The pages that were allocated are in the file, and the file is one that \<^verbatim>\<open>ReadPage\<close> can address.\<close>

definition disk_ok :: "disk_manager \<Rightarrow> bool" where
  "disk_ok dm \<longleftrightarrow> disk_next_page_id dm \<le> 65536 \<and> (\<forall>p < disk_next_page_id dm. on_disk p (db_io dm))"

definition page_contents :: "(int \<times> nat) list \<Rightarrow> frame list \<Rightarrow> disk_manager \<Rightarrow> nat \<Rightarrow> byte list" where
  "page_contents pt ps dm p =
     (case map_of pt (int p) of Some f \<Rightarrow> page_data (ps ! f) | None \<Rightarrow> disk_page p (db_io dm))"

definition write_disk :: "nat \<Rightarrow> byte list \<Rightarrow> disk_manager \<Rightarrow> disk_manager" where
  "write_disk p d dm = dm\<lparr>db_io := write_at (p * PAGE_SIZE) d (db_io dm)\<rparr>"

lemma WritePage_eq: "0 \<le> pid \<Longrightarrow> WritePage pid d dm = Some (write_disk (nat pid) d dm)"
  by (simp add: WritePage_def write_disk_def)

lemma write_disk_next [simp]: "disk_next_page_id (write_disk p d dm) = disk_next_page_id dm"
  by (simp add: write_disk_def)

lemma disk_ok_write: "disk_ok dm \<Longrightarrow> length d = PAGE_SIZE \<Longrightarrow> disk_ok (write_disk p d dm)"
  by (auto simp: disk_ok_def write_disk_def on_disk_write)

lemma write_disk_page:
  assumes "disk_ok dm" "q < disk_next_page_id dm" "length d = PAGE_SIZE"
  shows "disk_page q (db_io (write_disk p d dm)) = (if q = p then d else disk_page q (db_io dm))"
  using assms by (simp add: write_disk_def disk_page_write_same disk_page_write_other disk_ok_def)

section \<open>Entries of the page table\<close>

lemma frames_okD:
  assumes "frames_ok D n pt fl rq ps"
  shows "distinct (map fst pt)" "distinct (map snd pt)" "distinct fl" "length ps = n"
  using assms by (simp_all add: frames_ok_def)

lemma frame_unique:
  assumes "frames_ok D n pt fl rq ps" "(pid, f) \<in> set pt" "(q, f) \<in> set pt"
  shows "q = pid"
proof -
  have "inj_on snd (set pt)" using frames_okD(2) [OF assms(1)] by (simp add: distinct_map)
  from inj_onD [OF this, of "(q, f)" "(pid, f)"] show ?thesis using assms(2,3) by simp
qed

lemma entry_lookup: "frames_ok D n pt fl rq ps \<Longrightarrow> map_of pt pid = Some f \<longleftrightarrow> (pid, f) \<in> set pt"
  by (simp add: frames_okD(1))

lemma entry_frame: "frames_ok D n pt fl rq ps \<Longrightarrow> (pid, f) \<in> set pt \<Longrightarrow> f < n \<and> f \<notin> D \<and> f \<notin> set fl"
proof -
  assume a: "frames_ok D n pt fl rq ps" and "(pid, f) \<in> set pt"
  then have "f \<in> snd ` set pt" by force
  then show ?thesis using a by (auto simp: frames_ok_def)
qed

lemma entriesD: "entries_ok pt ps dm \<Longrightarrow> (pid, f) \<in> set pt \<Longrightarrow> entry_ok ps dm pid f"
  by (auto simp: entries_ok_def)

lemma entries_okI: "(\<And>pid f. (pid, f) \<in> set pt \<Longrightarrow> entry_ok ps dm pid f) \<Longrightarrow> entries_ok pt ps dm"
  by (auto simp: entries_ok_def)

lemma entry_ok_other: "g \<noteq> f \<Longrightarrow> entry_ok (ps[f := p]) dm pid g = entry_ok ps dm pid g"
  by (simp add: entry_ok_def)

lemma entry_ok_write:
  assumes "entry_ok ps dm q g" "disk_ok dm" "length d = PAGE_SIZE" "0 \<le> pid" "q \<noteq> pid"
  shows "entry_ok ps (write_disk (nat pid) d dm) q g"
proof -
  have "nat q \<noteq> nat pid" using assms(1,4,5) by (auto simp: entry_ok_def)
  moreover have "nat q < disk_next_page_id dm" using assms(1) by (simp add: entry_ok_def)
  ultimately show ?thesis using assms write_disk_page [OF assms(2) _ assms(3)] by (simp add: entry_ok_def)
qed

lemma delete_set: "distinct (map fst pt) \<Longrightarrow> set (AList.delete k pt) = {(pid, f) \<in> set pt. pid \<noteq> k}"
  by (auto simp: AList.delete_eq)

lemma map_of_delete: "map_of (AList.delete k pt) q = (if q = k then None else map_of pt q)"
  by (simp add: AList.delete_conv')

lemma distinct_delete:
  "distinct (map fst pt) \<Longrightarrow> distinct (map fst (AList.delete k pt))" "distinct (map snd pt) \<Longrightarrow> distinct (map snd (AList.delete k pt))"
  by (simp_all add: AList.delete_eq distinct_map_filter)

lemma delete_frames_set:
  assumes "frames_ok D n pt fl rq ps" "(pid, f) \<in> set pt"
  shows "snd ` set (AList.delete pid pt) = snd ` set pt - {f}"
proof -
  have d: "distinct (map fst pt)" using frames_okD(1) [OF assms(1)] .
  have "g \<in> snd ` set (AList.delete pid pt) \<longleftrightarrow> g \<in> snd ` set pt \<and> g \<noteq> f" for g
  proof
    assume "g \<in> snd ` set (AList.delete pid pt)"
    then obtain q where q: "(q, g) \<in> set pt" "q \<noteq> pid" unfolding delete_set [OF d] by auto
    then show "g \<in> snd ` set pt \<and> g \<noteq> f" using frame_unique [OF assms, of q] by force
  next
    assume a: "g \<in> snd ` set pt \<and> g \<noteq> f"
    then obtain q where q: "(q, g) \<in> set pt" by auto
    then have "q \<noteq> pid" using a eq_key_imp_eq_value [OF d, of pid f g] assms(2) by auto
    then show "g \<in> snd ` set (AList.delete pid pt)" unfolding delete_set [OF d] using q by force
  qed
  then show ?thesis by blast
qed

section \<open>Steps on the lists\<close>

text \<open>A frame leaves the page table or the free list for the running call.\<close>

lemma frames_ok_evict:
  assumes f: "frames_ok {} n pt fl (f # rq) ps" and d: "distinct (f # rq)" and e: "(pid, f) \<in> set pt"
  shows "frames_ok {f} n (AList.delete pid pt) fl rq ps"
proof -
  have s: "snd ` set (AList.delete pid pt) = snd ` set pt - {f}" using delete_frames_set [OF f e] .
  have fr: "f < n" "f \<notin> set fl" "f \<in> snd ` set pt" using entry_frame [OF f e] e by force+
  have q: "insert f (set rq) = {g \<in> snd ` set pt. pin_count (ps ! g) = 0}" using f by (simp add: frames_ok_def)
  have u: "set fl \<union> snd ` set pt = {..<n}" "set fl \<inter> snd ` set pt = {}" using f by (simp_all add: frames_ok_def)
  have rq: "set rq = {g \<in> snd ` set pt - {f}. pin_count (ps ! g) = 0}" using q d by auto
  have un: "insert f (set fl \<union> (snd ` set pt - {f})) = {..<n}" using u(1) fr(3) by blast
  show ?thesis
    unfolding frames_ok_def s
    using frames_okD [OF f] distinct_delete [of pt pid] rq un u(2) fr(2) by auto
qed

lemma frames_ok_take:
  assumes "frames_ok {} n pt (fl @ [f]) rq ps"
  shows "frames_ok {f} n pt fl rq ps"
proof -
  have "insert f (set fl) \<union> snd ` set pt = {..<n}" "f \<notin> set fl" "f \<notin> snd ` set pt" "set fl \<inter> snd ` set pt = {}"
    using assms by (auto simp: frames_ok_def)
  then show ?thesis using assms by (auto simp: frames_ok_def)
qed

text \<open>A frame in the hands of the call can change.\<close>

lemma frames_ok_update:
  assumes "frames_ok D n pt fl rq ps" "\<And>pid. (pid, f) \<in> set pt \<Longrightarrow> (pin_count p = 0) = (pin_count (ps ! f) = 0)"
  shows "frames_ok D n pt fl rq (ps[f := p])"
proof -
  have "(pin_count (ps[f := p] ! g) = 0) = (pin_count (ps ! g) = 0)" if g: "g \<in> snd ` set pt" for g
  proof (cases "g = f")
    case True
    then obtain pid where e: "(pid, f) \<in> set pt" using g by force
    then have "f < length ps" using entry_frame [OF assms(1)] frames_okD(4) [OF assms(1)] by simp
    then show ?thesis using True assms(2) [OF e] by simp
  qed simp
  then have "set rq = {g \<in> snd ` set pt. pin_count (ps[f := p] ! g) = 0}" using assms(1) unfolding frames_ok_def by blast
  then show ?thesis using assms(1) unfolding frames_ok_def by simp
qed

lemma detached_update:
  assumes "frames_ok {f} n pt fl rq ps"
  shows "frames_ok {f} n pt fl rq (ps[f := p])" "entries_ok pt ps dm \<Longrightarrow> entries_ok pt (ps[f := p]) dm"
    "page_contents pt (ps[f := p]) dm = page_contents pt ps dm"
proof -
  have no: "(pid, f) \<notin> set pt" for pid using entry_frame [OF assms] by blast
  show "frames_ok {f} n pt fl rq (ps[f := p])" using assms no by (intro frames_ok_update) auto
  show "entries_ok pt (ps[f := p]) dm" if "entries_ok pt ps dm"
    using entriesD [OF that] no by (intro entries_okI) (metis entry_ok_other)
  have "g \<noteq> f" if "map_of pt q = Some g" for q g using that no entry_lookup [OF assms] by metis
  then have "ps[f := p] ! g = ps ! g" if "map_of pt q = Some g" for q g using that by (metis nth_list_update_neq)
  then show "page_contents pt (ps[f := p]) dm = page_contents pt ps dm"
    by (simp add: page_contents_def fun_eq_iff split: option.split)
qed

lemma frames_ok_attach:
  assumes f: "frames_ok {f} n pt fl rq ps" and new: "map_of pt pid = None" and p: "pin_count p \<noteq> 0"
  shows "frames_ok {} n (pt @ [(pid, f)]) fl rq (ps[f := p])"
proof -
  note g = detached_update(1) [OF f, of p]
  have no: "f \<notin> snd ` set pt" "f \<notin> set fl" and u: "insert f (set fl \<union> snd ` set pt) = {..<n}" "set fl \<inter> snd ` set pt = {}"
    using f by (auto simp: frames_ok_def)
  have "f < length ps" using u(1) frames_okD(4) [OF f] by blast
  then have "pin_count (ps[f := p] ! f) \<noteq> 0" using p by simp
  then have "{h \<in> insert f (snd ` set pt). pin_count (ps[f := p] ! h) = 0} = set rq"
    using g by (auto simp: frames_ok_def)
  moreover have "distinct (map fst (pt @ [(pid, f)]))" using frames_okD(1) [OF f] new by (simp add: map_of_eq_None_iff)
  moreover have "distinct (map snd (pt @ [(pid, f)]))" using frames_okD(2) [OF f] no(1) by simp
  ultimately show ?thesis using u no frames_okD(3) [OF f] frames_okD(4) [OF g] by (simp add: frames_ok_def)
qed

lemma entries_ok_attach:
  assumes f: "frames_ok {f} n pt fl rq ps" and e: "entries_ok pt ps dm"
    and p: "0 \<le> pid" "nat pid < disk_next_page_id dm" "frame_page_id p = pid" "length (page_data p) = PAGE_SIZE"
      "is_dirty p \<or> page_data p = disk_page (nat pid) (db_io dm)"
  shows "entries_ok (pt @ [(pid, f)]) (ps[f := p]) dm"
proof -
  have "f < length ps" using f by (auto simp: frames_ok_def)
  then have "entry_ok (ps[f := p]) dm pid f" using p by (auto simp: entry_ok_def)
  then show ?thesis using detached_update(2) [OF f e] by (auto simp: entries_ok_def)
qed

text \<open>A resident page is pinned, unpinned or changed.\<close>

lemma frames_ok_repin:
  assumes f: "frames_ok D n pt fl rq ps" and e: "(pid, f) \<in> set pt"
    and rq': "set rq' = (if pin_count p = 0 then insert f (set rq) else set rq - {f})"
  shows "frames_ok D n pt fl rq' (ps[f := p])"
proof -
  have l: "f < length ps" and s: "f \<in> snd ` set pt" using entry_frame [OF f e] frames_okD(4) [OF f] e by force+
  have q: "set rq = {g \<in> snd ` set pt. pin_count (ps ! g) = 0}" using f by (simp add: frames_ok_def)
  have "g \<in> set rq' \<longleftrightarrow> g \<in> snd ` set pt \<and> pin_count (ps[f := p] ! g) = 0" for g
    using l s unfolding rq' q by (cases "g = f") auto
  then have "set rq' = {g \<in> snd ` set pt. pin_count (ps[f := p] ! g) = 0}" by blast
  then show ?thesis using f unfolding frames_ok_def by simp
qed

lemma entries_ok_update:
  assumes f: "frames_ok D n pt fl rq ps" and e: "(pid, f) \<in> set pt"
    and o: "\<And>q g. (q, g) \<in> set pt \<Longrightarrow> g \<noteq> f \<Longrightarrow> entry_ok ps dm q g" and n: "entry_ok (ps[f := p]) dm pid f"
  shows "entries_ok pt (ps[f := p]) dm"
proof (rule entries_okI)
  fix q g assume q: "(q, g) \<in> set pt"
  show "entry_ok (ps[f := p]) dm q g"
  proof (cases "g = f")
    case True
    then show ?thesis using frame_unique [OF f e] q n by metis
  next
    case False
    then show ?thesis using o [OF q] by (simp add: entry_ok_other)
  qed
qed

lemma entries_ok_update1:
  "frames_ok D n pt fl rq ps \<Longrightarrow> (pid, f) \<in> set pt \<Longrightarrow> entries_ok pt ps dm \<Longrightarrow> entry_ok (ps[f := p]) dm pid f \<Longrightarrow>
    entries_ok pt (ps[f := p]) dm"
  by (rule entries_ok_update) (auto dest: entriesD)

lemma contents_update:
  assumes f: "frames_ok D n pt fl rq ps" and e: "(int p, f) \<in> set pt"
  shows "page_contents pt (ps[f := pg]) dm = (page_contents pt ps dm)(p := page_data pg)"
proof
  fix q
  have l: "f < length ps" using entry_frame [OF f e] frames_okD(4) [OF f] by simp
  show "page_contents pt (ps[f := pg]) dm q = ((page_contents pt ps dm)(p := page_data pg)) q"
  proof (cases "q = p")
    case True
    then show ?thesis using l e entry_lookup [OF f, of "int p" f] by (simp add: page_contents_def)
  next
    case False
    have "g \<noteq> f" if "map_of pt (int q) = Some g" for g
      using frame_unique [OF f e, of "int q"] that False entry_lookup [OF f, of "int q" g] by auto
    then have "ps[f := pg] ! g = ps ! g" if "map_of pt (int q) = Some g" for g using that by (metis nth_list_update_neq)
    then show ?thesis using False by (simp add: page_contents_def split: option.split)
  qed
qed

lemma contents_attach:
  assumes f: "frames_ok {f} n pt fl rq ps" and new: "map_of pt (int p) = None"
  shows "page_contents (pt @ [(int p, f)]) (ps[f := pg]) dm = (page_contents pt ps dm)(p := page_data pg)"
proof
  fix q
  have "f < length ps" using f by (auto simp: frames_ok_def)
  moreover have "map_of (pt @ [(int p, f)]) (int q) = (if q = p then Some f else map_of pt (int q))"
    using new by (cases "map_of pt (int q)") (auto simp: map_add_def)
  moreover have "page_contents pt (ps[f := pg]) dm q = page_contents pt ps dm q" using detached_update(3) [OF f] by metis
  ultimately show "page_contents (pt @ [(int p, f)]) (ps[f := pg]) dm q = ((page_contents pt ps dm)(p := page_data pg)) q"
    by (simp add: page_contents_def)
qed

text \<open>The page of a frame is written to the file.\<close>

lemma contents_write:
  assumes f: "frames_ok D n pt fl rq ps" and e: "map_of pt (int p) = Some f" and d: "disk_ok dm" "length (page_data (ps ! f)) = PAGE_SIZE"
    and q: "q < disk_next_page_id dm"
  shows "page_contents pt ps (write_disk p (page_data (ps ! f)) dm) q = page_contents pt ps dm q"
    "page_contents (AList.delete (int p) pt) ps (write_disk p (page_data (ps ! f)) dm) q = page_contents pt ps dm q"
  using e write_disk_page [OF d(1) q d(2), of p] by (auto simp: page_contents_def map_of_delete split: option.split)

lemma contents_drop:
  assumes "map_of pt (int p) = Some f" "page_data (ps ! f) = disk_page p (db_io dm)"
  shows "page_contents (AList.delete (int p) pt) ps dm = page_contents pt ps dm"
  using assms by (auto simp: page_contents_def map_of_delete fun_eq_iff)

lemma entries_ok_write:
  assumes f: "frames_ok D n pt fl rq ps" and e: "entries_ok pt ps dm" "(pid, f) \<in> set pt" and d: "disk_ok dm"
  shows "entries_ok pt ps (write_disk (nat pid) (page_data (ps ! f)) dm)"
    "entries_ok pt (ps[f := (ps ! f)\<lparr>is_dirty := False\<rparr>]) (write_disk (nat pid) (page_data (ps ! f)) dm)"
proof -
  let ?dm = "write_disk (nat pid) (page_data (ps ! f)) dm"
  have p: "0 \<le> pid" "length (page_data (ps ! f)) = PAGE_SIZE" "nat pid < disk_next_page_id dm" and pid: "frame_page_id (ps ! f) = pid"
    using entriesD [OF e] by (simp_all add: entry_ok_def)
  have l: "f < length ps" using entry_frame [OF f e(2)] frames_okD(4) [OF f] by simp
  have other: "entry_ok ps ?dm q g" if "(q, g) \<in> set pt" "g \<noteq> f" for q g
  proof -
    have "q \<noteq> pid" using that e(2) eq_key_imp_eq_value [OF frames_okD(1) [OF f], of pid f g] by auto
    then show ?thesis using entry_ok_write [OF entriesD [OF e(1) that(1)] d p(2,1)] by simp
  qed
  have w: "disk_page (nat pid) (db_io ?dm) = page_data (ps ! f)" using write_disk_page [OF d p(3,2)] by simp
  have "entry_ok (ps[f := (ps ! f)\<lparr>is_dirty := False\<rparr>]) ?dm pid f" using p pid l w by (simp add: entry_ok_def)
  from entries_ok_update [OF f e(2) other this] show "entries_ok pt (ps[f := (ps ! f)\<lparr>is_dirty := False\<rparr>]) ?dm" .
  have "entry_ok (ps[f := ps ! f]) ?dm pid f" using p pid w by (simp add: entry_ok_def)
  from entries_ok_update [OF f e(2) other this] show "entries_ok pt ps ?dm" by simp
qed

lemma entries_ok_delete: "frames_ok D n pt fl rq ps \<Longrightarrow> entries_ok pt ps dm \<Longrightarrow> entries_ok (AList.delete pid pt) ps dm"
  using delete_set [OF frames_okD(1)] by (fastforce simp: entries_ok_def)

lemma frames_ok_delete:
  assumes f: "frames_ok {} n pt fl rq ps" and e: "(pid, f) \<in> set pt"
  shows "frames_ok {} n (AList.delete pid pt) (fl @ [f]) (filter (\<lambda>g. g \<noteq> f) rq) (ps[f := p])"
    and "entries_ok pt ps dm \<Longrightarrow> entries_ok (AList.delete pid pt) (ps[f := p]) dm"
proof -
  have s: "snd ` set (AList.delete pid pt) = snd ` set pt - {f}" using delete_frames_set [OF f e] .
  have fr: "f < n" "f \<notin> set fl" "f \<in> snd ` set pt" using entry_frame [OF f e] e by force+
  have u: "set fl \<union> snd ` set pt = {..<n}" "set fl \<inter> snd ` set pt = {}" using f by (simp_all add: frames_ok_def)
  have q: "set rq = {g \<in> snd ` set pt. pin_count (ps ! g) = 0}" using f by (simp add: frames_ok_def)
  have "g \<in> set (filter (\<lambda>g. g \<noteq> f) rq) \<longleftrightarrow> g \<in> snd ` set pt - {f} \<and> pin_count (ps[f := p] ! g) = 0" for g
    unfolding set_filter q by (cases "g = f") simp_all
  then have rq: "set (filter (\<lambda>g. g \<noteq> f) rq) = {g \<in> snd ` set pt - {f}. pin_count (ps[f := p] ! g) = 0}" by blast
  have un: "set (fl @ [f]) \<union> (snd ` set pt - {f}) = {..<n}" using u(1) fr(3) by auto
  show "frames_ok {} n (AList.delete pid pt) (fl @ [f]) (filter (\<lambda>g. g \<noteq> f) rq) (ps[f := p])"
    unfolding frames_ok_def s rq
    using frames_okD [OF f] distinct_delete [of pt pid] un u(2) fr(2) by auto
  assume "entries_ok pt ps dm"
  from entries_ok_delete [OF f this, of pid] have "entry_ok ps dm q g" if "(q, g) \<in> set (AList.delete pid pt)" for q g
    using that by (rule entriesD)
  moreover have "g \<noteq> f" if "(q, g) \<in> set (AList.delete pid pt)" for q g using that s by force
  ultimately show "entries_ok (AList.delete pid pt) (ps[f := p]) dm" by (intro entries_okI) (metis entry_ok_other)
qed

lemma contents_delete:
  assumes f: "frames_ok {} n pt fl rq ps" and e: "(int p, f) \<in> set pt" and q: "q \<noteq> p"
  shows "page_contents (AList.delete (int p) pt) (ps[f := pg]) dm q = page_contents pt ps dm q"
proof -
  have "g \<noteq> f" if "map_of pt (int q) = Some g" for g
    using frame_unique [OF f e, of "int q"] that q entry_lookup [OF f, of "int q" g] by auto
  then have "ps[f := pg] ! g = ps ! g" if "map_of pt (int q) = Some g" for g using that by (metis nth_list_update_neq)
  then show ?thesis using q by (simp add: page_contents_def map_of_delete split: option.split)
qed

text \<open>There is room in the replacer for a frame that is not in it.\<close>

lemma replacer_room:
  assumes f: "frames_ok D n pt fl rq ps" and e: "(pid, f) \<in> set pt" and d: "distinct rq" and g: "f \<notin> set rq"
  shows "length rq < n"
proof -
  have "set rq \<subseteq> {..<n} - {f}" using f g by (auto simp: frames_ok_def)
  then have "card (set rq) \<le> card ({..<n} - {f})" by (intro card_mono) auto
  moreover have "f < n" using entry_frame [OF f e] by simp
  ultimately show ?thesis using distinct_card [OF d] by simp
qed

end
