(* ===== verification/BufferPoolOps.thy ===== *)
theory BufferPoolOps
  imports BufferPoolInv
begin

text \<open>
  The operations of the buffer pool on a pool that satisfies the invariant, for every replacer that
  keeps the contract \<open>replacer\<close>: each of them has a result, keeps the invariant and the contents
  of the pages, and changes the pin counts as it says.
\<close>

section \<open>The pool and its lists\<close>

definition pool_inv ::
    "(nat \<Rightarrow> 'r \<Rightarrow> nat list \<Rightarrow> bool) \<Rightarrow> (int \<Rightarrow> nat) \<Rightarrow> nat set \<Rightarrow> 'r bpm \<Rightarrow> (int \<times> nat) list \<Rightarrow> nat list \<Rightarrow> nat list \<Rightarrow> bool" where
  "pool_inv R hash D b pt fl rq \<longleftrightarrow>
     lhm_rel hash (page_table b) pt \<and> vec_rel (free_list b) fl \<and> R (pool_size b) (pool_replacer b) rq \<and>
     frames_ok D (pool_size b) pt fl rq (pool_pages b) \<and> entries_ok pt (pool_pages b) (pool_disk b) \<and> disk_ok (pool_disk b)"

abbreviation pool_contents :: "'r bpm \<Rightarrow> (int \<times> nat) list \<Rightarrow> nat \<Rightarrow> byte list" where
  "pool_contents b pt \<equiv> page_contents pt (pool_pages b) (pool_disk b)"

definition pins_of :: "(int \<times> nat) list \<Rightarrow> frame list \<Rightarrow> nat \<Rightarrow> nat" where
  "pins_of pt ps p = (case map_of pt (int p) of Some f \<Rightarrow> pin_count (ps ! f) | None \<Rightarrow> 0)"

lemma pool_invD:
  assumes "pool_inv R hash D b pt fl rq"
  shows "lhm_rel hash (page_table b) pt" "vec_rel (free_list b) fl" "R (pool_size b) (pool_replacer b) rq"
    "frames_ok D (pool_size b) pt fl rq (pool_pages b)" "entries_ok pt (pool_pages b) (pool_disk b)" "disk_ok (pool_disk b)"
  using assms by (simp_all add: pool_inv_def)

lemma table_find_rel:
  assumes "lhm_rel hash (page_table b) pt"
  shows "table_find hash pid b = Some (map_of pt pid)"
  using lhm_find_rel [OF assms, of pid] by (cases "map_of pt pid") (auto simp: table_find_def)

lemma table_erase_rel:
  assumes "lhm_rel hash (page_table b) pt" "map_of pt pid = Some f"
  shows "\<exists>t. table_erase hash pid b = Some (b\<lparr>page_table := t\<rparr>) \<and> lhm_rel hash t (AList.delete pid pt)"
proof -
  obtain a t where "lhm_find hash pid (page_table b) = Some a" "lhm_erase hash a (page_table b) = Some (Inr t)"
    "lhm_rel hash t (AList.delete pid pt)" using assms by (rule erase_key_rel)
  then show ?thesis by (auto simp: table_erase_def)
qed

lemma table_set_rel:
  assumes "lhm_rel hash (page_table b) pt" "map_of pt pid = None"
  shows "\<exists>t. table_set hash pid f b = Some (b\<lparr>page_table := t\<rparr>) \<and> lhm_rel hash t (pt @ [(pid, f)])"
proof -
  obtain t where "lhm_assign hash pid f 0 (page_table b) = Some t" "lhm_rel hash t (AList.update pid f pt)"
    using assms(1) by (rule lhm_assign_rel)
  then show ?thesis using update_new [of pid pt f] assms(2) by (auto simp: table_set_def map_of_eq_None_iff)
qed

lemma take_free_rel:
  assumes "vec_rel (free_list b) (fl @ [f])"
  shows "\<exists>v. take_free b = Some (f, b\<lparr>free_list := v\<rparr>) \<and> vec_rel v fl"
  using vec_ends_rel(2) [OF assms] pop_back_rel(2) [OF assms] by (auto simp: take_free_def)

lemma fill_free_rel: "vec_rel v xs \<Longrightarrow> \<exists>v'. fill_free n i v = Some v' \<and> vec_rel v' (xs @ [i..<i + n])"
proof (induction n arbitrary: i v xs)
  case (Suc n)
  obtain v1 where v1: "push_back i v = Some v1" "vec_rel v1 (xs @ [i])" using push_back_rel [OF Suc.prems] by blast
  have "[i..<i + Suc n] = i # [Suc i..<Suc i + n]" by (simp add: upt_rec)
  then show ?case using Suc.IH [OF v1(2), of "Suc i"] v1(1) by simp
qed simp

lemma get_page_ok: "frames_ok D n pt fl rq (pool_pages b) \<Longrightarrow> f < n \<Longrightarrow> get_page f b = Some (pool_pages b ! f)"
  using frames_okD(4) by (fastforce simp: get_page_def)

lemma free_empty: "vec_rel (free_list b) fl \<Longrightarrow> vec_empty (free_list b) \<longleftrightarrow> fl = []"
  using vec_rel_size [of "free_list b" fl] by (auto simp: vec_empty_def)

lemma set_page_simps [simp]:
  "pool_size (set_page f p b) = pool_size b" "pool_pages (set_page f p b) = (pool_pages b)[f := p]"
  "pool_disk (set_page f p b) = pool_disk b" "page_table (set_page f p b) = page_table b"
  "pool_replacer (set_page f p b) = pool_replacer b" "free_list (set_page f p b) = free_list b"
  by (simp_all add: set_page_def)

section \<open>Pin counts\<close>

lemma pins_update:
  assumes f: "frames_ok D n pt fl rq ps" and e: "(int p, f) \<in> set pt"
  shows "pins_of pt (ps[f := pg]) = (pins_of pt ps)(p := pin_count pg)"
proof
  fix q
  have l: "f < length ps" using entry_frame [OF f e] frames_okD(4) [OF f] by simp
  have "g \<noteq> f" if "map_of pt (int q) = Some g" "q \<noteq> p" for g
    using frame_unique [OF f e, of "int q"] that entry_lookup [OF f, of "int q" g] by auto
  then have "ps[f := pg] ! g = ps ! g" if "map_of pt (int q) = Some g" "q \<noteq> p" for g using that by (metis nth_list_update_neq)
  then show "pins_of pt (ps[f := pg]) q = ((pins_of pt ps)(p := pin_count pg)) q"
    using l e entry_lookup [OF f, of "int p" f] by (cases "q = p") (auto simp: pins_of_def split: option.split)
qed

lemma pins_detached:
  assumes "frames_ok {f} n pt fl rq ps"
  shows "pins_of pt (ps[f := pg]) = pins_of pt ps"
proof
  fix q
  have "ps[f := pg] ! g = ps ! g" if "map_of pt (int q) = Some g" for g
    using that entry_frame [OF assms, of "int q" g] entry_lookup [OF assms, of "int q" g] by (metis insertCI nth_list_update_neq)
  then show "pins_of pt (ps[f := pg]) q = pins_of pt ps q" by (simp add: pins_of_def split: option.split)
qed

lemma pins_attach:
  assumes f: "frames_ok {f} n pt fl rq ps" and new: "map_of pt (int p) = None"
  shows "pins_of (pt @ [(int p, f)]) (ps[f := pg]) = (pins_of pt ps)(p := pin_count pg)"
proof
  fix q
  have "f < length ps" using f by (auto simp: frames_ok_def)
  moreover have "map_of (pt @ [(int p, f)]) (int q) = (if q = p then Some f else map_of pt (int q))"
    using new by (cases "map_of pt (int q)") (auto simp: map_add_def)
  moreover have "pins_of pt (ps[f := pg]) q = pins_of pt ps q" using pins_detached [OF f] by metis
  ultimately show "pins_of (pt @ [(int p, f)]) (ps[f := pg]) q = ((pins_of pt ps)(p := pin_count pg)) q" by (simp add: pins_of_def)
qed

lemma pins_delete:
  assumes "map_of pt (int p) = Some f" "pin_count (ps ! f) = 0"
  shows "pins_of (AList.delete (int p) pt) ps = pins_of pt ps"
  using assms by (auto simp: pins_of_def map_of_delete fun_eq_iff)

section \<open>FindFrame\<close>

text \<open>
  A frame was found: it is detached and fresh, and nothing that a client can see has changed.
\<close>

definition found :: "(nat \<Rightarrow> 'r \<Rightarrow> nat list \<Rightarrow> bool) \<Rightarrow> (int \<Rightarrow> nat) \<Rightarrow> 'r bpm \<Rightarrow> (int \<times> nat) list \<Rightarrow> nat \<Rightarrow> 'r bpm \<Rightarrow> (int \<times> nat) list \<Rightarrow> nat list \<Rightarrow> nat list \<Rightarrow> bool" where
  "found R hash b pt f b' pt' fl' rq' \<longleftrightarrow>
     pool_inv R hash {f} b' pt' fl' rq' \<and> pool_size b' = pool_size b \<and> f \<notin> set rq' \<and>
     disk_next_page_id (pool_disk b') = disk_next_page_id (pool_disk b) \<and>
     (\<forall>q < disk_next_page_id (pool_disk b). pool_contents b' pt' q = pool_contents b pt q) \<and>
     pins_of pt' (pool_pages b') = pins_of pt (pool_pages b) \<and>
     (\<forall>pid. map_of pt pid = None \<longrightarrow> map_of pt' pid = None) \<and>
     pool_pages b' ! f = \<lparr>page_data = replicate PAGE_SIZE 0, frame_page_id = -1, pin_count = 0, is_dirty = False\<rparr>"

definition reset_page :: frame where
  "reset_page = \<lparr>page_data = replicate PAGE_SIZE 0, frame_page_id = -1, pin_count = 0, is_dirty = False\<rparr>"

lemma ResetMemory_eq: "ResetMemory (p\<lparr>frame_page_id := -1, is_dirty := False, pin_count := 0\<rparr>) = reset_page"
  by (cases p) (simp add: ResetMemory_def reset_page_def)

lemma found_reset:
  assumes i: "pool_inv R hash {f} b' pt' fl' rq'" and "pool_size b' = pool_size b" "f \<notin> set rq'"
    "disk_next_page_id (pool_disk b') = disk_next_page_id (pool_disk b)"
    "\<forall>q < disk_next_page_id (pool_disk b). pool_contents b' pt' q = pool_contents b pt q"
    "pins_of pt' (pool_pages b') = pins_of pt (pool_pages b)" "\<forall>pid. map_of pt pid = None \<longrightarrow> map_of pt' pid = None"
  shows "found R hash b pt f (set_page f reset_page b') pt' fl' rq'"
proof -
  note fr = pool_invD(4) [OF i]
  have "f < length (pool_pages b')" using fr by (auto simp: frames_ok_def)
  moreover have "pool_inv R hash {f} (set_page f reset_page b') pt' fl' rq'"
    using i detached_update(1) [OF fr, of reset_page] detached_update(2) [OF fr, where p = reset_page] by (simp add: pool_inv_def)
  ultimately show ?thesis using assms detached_update(3) [OF fr] pins_detached [OF fr] by (simp add: found_def reset_page_def)
qed

text \<open>What a client sees of two states: the same pages and contents, and the pin counts \<open>pins\<close>.\<close>

definition same_view :: "'r bpm \<Rightarrow> (int \<times> nat) list \<Rightarrow> 'r bpm \<Rightarrow> (int \<times> nat) list \<Rightarrow> (nat \<Rightarrow> nat) \<Rightarrow> bool" where
  "same_view b pt b' pt' pins \<longleftrightarrow>
     pool_size b' = pool_size b \<and> disk_next_page_id (pool_disk b') = disk_next_page_id (pool_disk b) \<and>
     (\<forall>q < disk_next_page_id (pool_disk b). pool_contents b' pt' q = pool_contents b pt q) \<and>
     pins_of pt' (pool_pages b') = pins"

text \<open>The state after the page \<open>p\<close> in the frame \<open>f\<close> was written to the file.\<close>

definition flushed :: "nat \<Rightarrow> nat \<Rightarrow> 'r bpm \<Rightarrow> 'r bpm" where
  "flushed p f b = set_page f ((pool_pages b ! f)\<lparr>is_dirty := False\<rparr>)
     (b\<lparr>pool_disk := write_disk p (page_data (pool_pages b ! f)) (pool_disk b)\<rparr>)"

context replacer
begin

lemma FindFrame_free:
  assumes i: "pool_inv R hash {} b pt (fl @ [f]) rq"
  shows "\<exists>b'. FindFrame ops hash b = Some (Some f, b') \<and> found R hash b pt f b' pt fl rq"
proof -
  note d = pool_invD [OF i]
  have ne: "\<not> vec_empty (free_list b)" using free_empty [OF d(2)] by simp
  obtain v where v: "take_free b = Some (f, b\<lparr>free_list := v\<rparr>)" "vec_rel v fl" using take_free_rel [OF d(2)] by blast
  have fo: "frames_ok {f} (pool_size b) pt fl rq (pool_pages b)" using frames_ok_take [OF d(4)] .
  then have i': "pool_inv R hash {f} (b\<lparr>free_list := v\<rparr>) pt fl rq" using d v(2) by (simp add: pool_inv_def)
  have f: "f < pool_size b" "f \<notin> set rq" using fo by (auto simp: frames_ok_def)
  have "found R hash b pt f (set_page f reset_page (b\<lparr>free_list := v\<rparr>)) pt fl rq"
    by (rule found_reset [OF i']) (use f in simp_all)
  moreover have "get_page f (b\<lparr>free_list := v\<rparr>) = Some (pool_pages b ! f)" using f(1) fo by (simp add: get_page_def frames_ok_def)
  ultimately show ?thesis using ne v(1) by (simp add: FindFrame_def ResetMemory_eq)
qed

lemma FindFrame_none:
  assumes i: "pool_inv R hash {} b pt [] []"
  shows "\<exists>r. FindFrame ops hash b = Some (None, b\<lparr>pool_replacer := r\<rparr>) \<and> R (pool_size b) r []"
proof -
  note d = pool_invD [OF i]
  obtain r where "rp_Victim ops (pool_replacer b) = Some (None, r)" "R (pool_size b) r []" using Victim_none [OF d(3)] by blast
  then show ?thesis using free_empty [OF d(2)] by (auto simp: FindFrame_def)
qed

lemma evict_rel:
  assumes i: "pool_inv R hash {} b pt fl (f # rq)" and r: "R (pool_size b) r rq"
  shows "\<exists>b' pt'. evict hash f (b\<lparr>pool_replacer := r\<rparr>) = Some b' \<and> free_list b' = free_list b \<and>
     found R hash b pt f (set_page f reset_page b') pt' fl rq"
proof -
  note d = pool_invD [OF i]
  let ?p = "pool_pages b ! f"
  have dq: "distinct (f # rq)" using frames_distinct [OF d(3)] .
  have "f \<in> snd ` set pt" and pin: "pin_count ?p = 0" using d(4) by (auto simp: frames_ok_def)
  then obtain pid where e: "(pid, f) \<in> set pt" by auto
  then obtain p where p: "pid = int p" "p < disk_next_page_id (pool_disk b)" "frame_page_id ?p = int p" "length (page_data ?p) = PAGE_SIZE"
    and clean: "\<not> is_dirty ?p \<Longrightarrow> page_data ?p = disk_page p (db_io (pool_disk b))"
    using entriesD [OF d(5) e] that [of "nat pid"] by (auto simp: entry_ok_def)
  have m: "map_of pt (int p) = Some f" using e entry_lookup [OF d(4)] p(1) by simp
  define dm where "dm = (if is_dirty ?p then write_disk p (page_data ?p) (pool_disk b) else pool_disk b)"
  let ?b = "b\<lparr>pool_replacer := r, pool_disk := dm\<rparr>"
  obtain t where t: "table_erase hash (int p) ?b = Some (?b\<lparr>page_table := t\<rparr>)" "lhm_rel hash t (AList.delete (int p) pt)"
    using table_erase_rel [of hash ?b pt "int p" f] d(1) m by auto
  have g: "get_page f (b\<lparr>pool_replacer := r\<rparr>) = Some ?p"
    using entry_frame [OF d(4) e] frames_okD(4) [OF d(4)] by (simp add: get_page_def)
  have ev: "evict hash f (b\<lparr>pool_replacer := r\<rparr>) = Some (?b\<lparr>page_table := t\<rparr>)"
    using t(1) p(3) g by (simp add: evict_def write_page_def WritePage_eq dm_def split: if_splits)
  have fo: "frames_ok {f} (pool_size b) (AList.delete (int p) pt) fl rq (pool_pages b)"
    using frames_ok_evict [OF d(4) dq e] p(1) by simp
  have en: "entries_ok (AList.delete (int p) pt) (pool_pages b) dm"
    using entries_ok_delete [OF d(4)] entries_ok_write(1) [OF d(4,5) e d(6)] d(5) p(1) by (simp add: dm_def)
  have "disk_ok dm" using disk_ok_write [OF d(6) p(4)] d(6) by (simp add: dm_def)
  then have "pool_inv R hash {f} (?b\<lparr>page_table := t\<rparr>) (AList.delete (int p) pt) fl rq"
    using t(2) d(2) r fo en by (simp add: pool_inv_def)
  then have "found R hash b pt f (set_page f reset_page (?b\<lparr>page_table := t\<rparr>)) (AList.delete (int p) pt) fl rq"
  proof (rule found_reset)
    show "\<forall>q < disk_next_page_id (pool_disk b). pool_contents (?b\<lparr>page_table := t\<rparr>) (AList.delete (int p) pt) q = pool_contents b pt q"
      using contents_write(2) [OF d(4) m d(6) p(4)] contents_drop [OF m, of "pool_pages b" "pool_disk b"] clean by (simp add: dm_def)
    show "pins_of (AList.delete (int p) pt) (pool_pages (?b\<lparr>page_table := t\<rparr>)) = pins_of pt (pool_pages b)"
      using pins_delete [OF m pin] by simp
  qed (use dq in \<open>simp_all add: dm_def map_of_delete\<close>)
  then show ?thesis using ev by auto
qed

lemma FindFrame_victim:
  assumes i: "pool_inv R hash {} b pt [] (f # rq)"
  shows "\<exists>b' pt'. FindFrame ops hash b = Some (Some f, b') \<and> found R hash b pt f b' pt' [] rq"
proof -
  note d = pool_invD [OF i]
  obtain r where r: "rp_Victim ops (pool_replacer b) = Some (Some f, r)" "R (pool_size b) r rq" using Victim_some [OF d(3)] by blast
  obtain b' pt' where e: "evict hash f (b\<lparr>pool_replacer := r\<rparr>) = Some b'" "free_list b' = free_list b"
    "found R hash b pt f (set_page f reset_page b') pt' [] rq" using evict_rel [OF i r(2)] by blast
  have "pool_inv R hash {f} (set_page f reset_page b') pt' [] rq" using e(3) by (simp only: found_def)
  note fo = pool_invD(4) [OF this]
  then have "f < length (pool_pages b')" by (auto simp: frames_ok_def)
  then have "get_page f b' = Some (pool_pages b' ! f)" by (simp add: get_page_def)
  moreover have "vec_empty (free_list b)" using free_empty [OF d(2)] by simp
  ultimately show ?thesis using r(1) e by (auto simp: FindFrame_def ResetMemory_eq)
qed

text \<open>A frame is found unless every frame holds a pinned page.\<close>

lemma FindFrame_rel:
  assumes i: "pool_inv R hash {} b pt fl rq"
  obtains (none) r where "fl = []" "rq = []" "FindFrame ops hash b = Some (None, b\<lparr>pool_replacer := r\<rparr>)"
      "pool_inv R hash {} (b\<lparr>pool_replacer := r\<rparr>) pt [] []"
  | (some) f b' pt' fl' rq' where "fl \<noteq> [] \<or> rq \<noteq> []" "FindFrame ops hash b = Some (Some f, b')" "found R hash b pt f b' pt' fl' rq'"
proof (cases "fl = []")
  case fl: True
  show thesis
  proof (cases rq)
    case Nil
    then obtain r where "FindFrame ops hash b = Some (None, b\<lparr>pool_replacer := r\<rparr>)" "R (pool_size b) r []"
      using FindFrame_none i fl by blast
    then show thesis using none [of r] fl Nil i by (simp add: pool_inv_def)
  next
    case (Cons f fs)
    then show thesis using FindFrame_victim i fl some by blast
  qed
next
  case False
  then obtain fs f where "fl = fs @ [f]" by (meson rev_exhaust)
  then show thesis using FindFrame_free i some False by blast
qed

section \<open>FetchPage and UnpinPage\<close>

lemma bpm_Pin_rel:
  assumes "R (pool_size b) (pool_replacer b) rq"
  shows "\<exists>r. bpm_Pin ops f b = Some (b\<lparr>pool_replacer := r\<rparr>) \<and> R (pool_size b) r (filter (\<lambda>g. g \<noteq> f) rq)"
  using Pin [OF assms, of f] by (auto simp: bpm_Pin_def)

lemma FetchPage_resident:
  assumes i: "pool_inv R hash {} b pt fl rq" and m: "map_of pt (int p) = Some f"
  shows "\<exists>b'. bpm_FetchPage ops hash (int p) b = Some (Inr (Some f), b') \<and> pool_inv R hash {} b' pt fl (filter (\<lambda>g. g \<noteq> f) rq) \<and>
     same_view b pt b' pt ((pins_of pt (pool_pages b))(p := Suc (pins_of pt (pool_pages b) p)))"
proof -
  note d = pool_invD [OF i]
  let ?pg = "(pool_pages b ! f)\<lparr>pin_count := pin_count (pool_pages b ! f) + 1\<rparr>"
  have e: "(int p, f) \<in> set pt" using m entry_lookup [OF d(4)] by simp
  have l: "f < pool_size b" "f < length (pool_pages b)" using entry_frame [OF d(4) e] frames_okD(4) [OF d(4)] by simp_all
  obtain r where r: "bpm_Pin ops f (set_page f ?pg b) = Some ((set_page f ?pg b)\<lparr>pool_replacer := r\<rparr>)"
    "R (pool_size b) r (filter (\<lambda>g. g \<noteq> f) rq)" using bpm_Pin_rel [of "set_page f ?pg b" rq f] d(3) by auto
  let ?b = "(set_page f ?pg b)\<lparr>pool_replacer := r\<rparr>"
  have "bpm_FetchPage ops hash (int p) b = Some (Inr (Some f), ?b)"
    using table_find_rel [OF d(1), of "int p"] m r(1) get_page_ok [OF d(4) l(1)] by (simp add: bpm_FetchPage_def)
  moreover have "frames_ok {} (pool_size b) pt fl (filter (\<lambda>g. g \<noteq> f) rq) ((pool_pages b)[f := ?pg])"
    using d(4) e by (rule frames_ok_repin) auto
  moreover have "entries_ok pt ((pool_pages b)[f := ?pg]) (pool_disk b)"
    using d(4) e d(5) by (rule entries_ok_update1) (use entriesD [OF d(5) e] l in \<open>simp add: entry_ok_def\<close>)
  moreover have "page_contents pt ((pool_pages b)[f := ?pg]) (pool_disk b) = pool_contents b pt"
    using contents_update [OF d(4) e, of ?pg] m by (simp add: page_contents_def fun_eq_iff)
  moreover have "pins_of pt ((pool_pages b)[f := ?pg]) = (pins_of pt (pool_pages b))(p := Suc (pins_of pt (pool_pages b) p))"
    using pins_update [OF d(4) e, of ?pg] m by (simp add: pins_of_def)
  ultimately show ?thesis using d r(2) by (auto simp: pool_inv_def same_view_def)
qed

lemma FetchPage_load:
  assumes i: "pool_inv R hash {} b pt fl rq" and m: "map_of pt (int p) = None" and p: "p < disk_next_page_id (pool_disk b)"
    and ff: "FindFrame ops hash b = Some (Some f, b1)" and fo: "found R hash b pt f b1 pt1 fl1 rq1"
  shows "\<exists>b'. bpm_FetchPage ops hash (int p) b = Some (Inr (Some f), b') \<and> pool_inv R hash {} b' (pt1 @ [(int p, f)]) fl1 rq1 \<and>
     same_view b pt b' (pt1 @ [(int p, f)]) ((pins_of pt (pool_pages b))(p := Suc (pins_of pt (pool_pages b) p)))"
proof -
  have i1: "pool_inv R hash {f} b1 pt1 fl1 rq1" and sz: "pool_size b1 = pool_size b" and nrq: "f \<notin> set rq1"
    and nx: "disk_next_page_id (pool_disk b1) = disk_next_page_id (pool_disk b)"
    and ct: "\<And>q. q < disk_next_page_id (pool_disk b) \<Longrightarrow> pool_contents b1 pt1 q = pool_contents b pt q"
    and pn: "pins_of pt1 (pool_pages b1) = pins_of pt (pool_pages b)" and m1: "map_of pt1 (int p) = None"
    and pg: "pool_pages b1 ! f = reset_page"
    using fo m by (simp_all add: found_def reset_page_def)
  note d = pool_invD [OF i1]
  let ?q = "reset_page\<lparr>frame_page_id := int p, pin_count := 1\<rparr>" and ?data = "disk_page p (db_io (pool_disk b1))"
  let ?pg = "?q\<lparr>page_data := ?data\<rparr>"
  have l: "f < pool_size b1" "f < length (pool_pages b1)" using d(4) by (auto simp: frames_ok_def)
  obtain t where t: "table_set hash (int p) f b1 = Some (b1\<lparr>page_table := t\<rparr>)" "lhm_rel hash t (pt1 @ [(int p, f)])"
    using table_set_rel [OF d(1) m1] by blast
  let ?b2 = "set_page f ?q (b1\<lparr>page_table := t\<rparr>)"
  obtain r where r: "bpm_Pin ops f ?b2 = Some (?b2\<lparr>pool_replacer := r\<rparr>)" "R (pool_size b1) r rq1"
    using bpm_Pin_rel [of ?b2 rq1 f] d(3) filter_absent [OF nrq] by auto
  have od: "on_disk p (db_io (pool_disk b1))" "p < 65536" using d(6) p nx by (auto simp: disk_ok_def)
  have rd: "ReadPage (int p) (page_data reset_page) (pool_disk b1) = Some (None, ?data)"
    by (rule ReadPage_ok [OF od]) (simp add: reset_page_def)
  let ?b = "set_page f ?pg (?b2\<lparr>pool_replacer := r\<rparr>)"
  have g: "get_page f (b1\<lparr>page_table := t\<rparr>) = Some reset_page" using l pg by (simp add: get_page_def)
  have fe: "bpm_FetchPage ops hash (int p) b = Some (Inr (Some f), ?b)"
    using table_find_rel [OF pool_invD(1) [OF i], of "int p"] m ff t(1) g r(1) rd
    by (simp add: bpm_FetchPage_def Let_def)
  have "frames_ok {} (pool_size b1) (pt1 @ [(int p, f)]) fl1 rq1 ((pool_pages b1)[f := ?pg])"
    using d(4) m1 by (rule frames_ok_attach) simp
  moreover have "entries_ok (pt1 @ [(int p, f)]) ((pool_pages b1)[f := ?pg]) (pool_disk b1)"
    using d(4,5) by (rule entries_ok_attach) (use p nx length_disk_page [OF od(1)] in simp_all)
  ultimately have "pool_inv R hash {} ?b (pt1 @ [(int p, f)]) fl1 rq1" using d t(2) r(2) by (simp add: pool_inv_def)
  moreover have "same_view b pt ?b (pt1 @ [(int p, f)]) ((pins_of pt (pool_pages b))(p := Suc (pins_of pt (pool_pages b) p)))"
  proof -
    have "pool_contents b1 pt1 p = ?data" using m1 by (simp add: page_contents_def)
    then have "page_contents (pt1 @ [(int p, f)]) ((pool_pages b1)[f := ?pg]) (pool_disk b1) = pool_contents b1 pt1"
      using contents_attach [OF d(4) m1, of ?pg] by (simp add: fun_eq_iff)
    moreover have "pins_of pt (pool_pages b) p = 0" using m by (simp add: pins_of_def)
    ultimately show ?thesis using pins_attach [OF d(4) m1, of ?pg] pn sz nx ct by (simp add: same_view_def)
  qed
  ultimately show ?thesis using fe by blast
qed

lemma FetchPage_rel:
  assumes i: "pool_inv R hash {} b pt fl rq" and p: "p < disk_next_page_id (pool_disk b)"
  obtains (none) b' where "fl = []" "rq = []" "map_of pt (int p) = None" "bpm_FetchPage ops hash (int p) b = Some (Inr None, b')"
      "pool_inv R hash {} b' pt [] []" "same_view b pt b' pt (pins_of pt (pool_pages b))"
  | (some) f b' pt' fl' rq' where "map_of pt (int p) \<noteq> None \<or> fl \<noteq> [] \<or> rq \<noteq> []" "bpm_FetchPage ops hash (int p) b = Some (Inr (Some f), b')"
      "pool_inv R hash {} b' pt' fl' rq'" "map_of pt' (int p) = Some f"
      "same_view b pt b' pt' ((pins_of pt (pool_pages b))(p := Suc (pins_of pt (pool_pages b) p)))"
proof (cases "map_of pt (int p)")
  case (Some f)
  then show thesis using FetchPage_resident [OF i Some] some by blast
next
  case None
  show thesis
  proof (rule FindFrame_rel [OF i])
    fix r assume a: "fl = []" "rq = []" "FindFrame ops hash b = Some (None, b\<lparr>pool_replacer := r\<rparr>)"
      "pool_inv R hash {} (b\<lparr>pool_replacer := r\<rparr>) pt [] []"
    have "bpm_FetchPage ops hash (int p) b = Some (Inr None, b\<lparr>pool_replacer := r\<rparr>)"
      using table_find_rel [OF pool_invD(1) [OF i], of "int p"] None a(3) by (simp add: bpm_FetchPage_def)
    then show thesis using none a None by (simp add: same_view_def)
  next
    fix f b1 pt1 fl1 rq1 assume a: "fl \<noteq> [] \<or> rq \<noteq> []" "FindFrame ops hash b = Some (Some f, b1)" "found R hash b pt f b1 pt1 fl1 rq1"
    have "map_of pt1 (int p) = None" using a(3) None by (simp add: found_def)
    then have "map_of (pt1 @ [(int p, f)]) (int p) = Some f" by (simp add: map_add_def)
    then show thesis using FetchPage_load [OF i None p a(2,3)] some a(1) by blast
  qed
qed

text \<open>
  \<^verbatim>\<open>UnpinPage\<close> of a pinned page. The page of the frame may have been changed since it was fetched, if
  it is dirty afterwards.
\<close>

lemma UnpinPage_rel:
  assumes c: "lhm_rel hash (page_table b) pt" "vec_rel (free_list b) fl" "R (pool_size b) (pool_replacer b) rq" "disk_ok (pool_disk b)"
    and fo: "frames_ok {} (pool_size b) pt fl rq (pool_pages b)" and m: "map_of pt (int p) = Some f"
    and pin: "pin_count (pool_pages b ! f) = Suc k"
    and pg: "pg = (pool_pages b ! f)\<lparr>is_dirty := is_dirty (pool_pages b ! f) \<or> dirty, pin_count := k\<rparr>"
    and o: "\<And>q g. (q, g) \<in> set pt \<Longrightarrow> g \<noteq> f \<Longrightarrow> entry_ok (pool_pages b) (pool_disk b) q g"
    and own: "entry_ok ((pool_pages b)[f := pg]) (pool_disk b) (int p) f"
  shows "\<exists>b' rq'. bpm_UnpinPage ops hash (int p) dirty b = Some (True, b') \<and> pool_inv R hash {} b' pt fl rq' \<and>
     pool_pages b' = (pool_pages b)[f := pg] \<and> pool_disk b' = pool_disk b \<and> pool_size b' = pool_size b"
proof -
  have e: "(int p, f) \<in> set pt" using m entry_lookup [OF fo] by simp
  have l: "f < pool_size b" using entry_frame [OF fo e] by simp
  have nrq: "f \<notin> set rq" using fo pin by (auto simp: frames_ok_def)
  have en: "entries_ok pt ((pool_pages b)[f := pg]) (pool_disk b)" using fo e o own by (rule entries_ok_update)
  have start: "bpm_UnpinPage ops hash (int p) dirty b =
      Option.bind (if k = 0 then do { r \<leftarrow> rp_Unpin ops f (pool_replacer b); Some ((set_page f pg b)\<lparr>pool_replacer := r\<rparr>) }
        else Some (set_page f pg b)) (\<lambda>b2. Some (True, b2))"
    using table_find_rel [OF c(1), of "int p"] m get_page_ok [OF fo l] pin by (simp add: bpm_UnpinPage_def Let_def pg)
  show ?thesis
  proof (cases "k = 0")
    case True
    obtain r where r: "rp_Unpin ops f (pool_replacer b) = Some r" "R (pool_size b) r (rq @ [f])"
      using Unpin_absent [OF c(3) replacer_room [OF fo e frames_distinct [OF c(3)] nrq] nrq] by blast
    have "frames_ok {} (pool_size b) pt fl (rq @ [f]) ((pool_pages b)[f := pg])"
      using fo e by (rule frames_ok_repin) (use True pg in simp)
    then show ?thesis using start True r c en by (auto simp: pool_inv_def)
  next
    case False
    have "frames_ok {} (pool_size b) pt fl rq ((pool_pages b)[f := pg])"
      using fo e by (rule frames_ok_repin) (use False pg nrq in simp)
    then show ?thesis using start False c en by (auto simp: pool_inv_def)
  qed
qed

lemma UnpinPage_false:
  assumes i: "pool_inv R hash {} b pt fl rq" and p: "pins_of pt (pool_pages b) p = 0"
  shows "bpm_UnpinPage ops hash (int p) dirty b = Some (False, b)"
proof (cases "map_of pt (int p)")
  case None
  then show ?thesis using table_find_rel [OF pool_invD(1) [OF i], of "int p"] by (simp add: bpm_UnpinPage_def)
next
  case (Some f)
  then have "f < pool_size b" using entry_frame [OF pool_invD(4) [OF i]] entry_lookup [OF pool_invD(4) [OF i]] by blast
  then show ?thesis using table_find_rel [OF pool_invD(1) [OF i], of "int p"] Some p get_page_ok [OF pool_invD(4) [OF i], of f]
    by (simp add: bpm_UnpinPage_def pins_of_def)
qed

lemma UnpinPage_clean:
  assumes i: "pool_inv R hash {} b pt fl rq" and p: "pins_of pt (pool_pages b) p = Suc k"
  shows "\<exists>b' rq'. bpm_UnpinPage ops hash (int p) False b = Some (True, b') \<and> pool_inv R hash {} b' pt fl rq' \<and>
     same_view b pt b' pt ((pins_of pt (pool_pages b))(p := k))"
proof -
  note d = pool_invD [OF i]
  obtain f where m: "map_of pt (int p) = Some f" using p by (auto simp: pins_of_def split: option.splits)
  then have pin: "pin_count (pool_pages b ! f) = Suc k" using p by (simp add: pins_of_def)
  let ?pg = "(pool_pages b ! f)\<lparr>is_dirty := is_dirty (pool_pages b ! f) \<or> False, pin_count := k\<rparr>"
  have e: "(int p, f) \<in> set pt" using m entry_lookup [OF d(4)] by simp
  have l: "f < length (pool_pages b)" using entry_frame [OF d(4) e] frames_okD(4) [OF d(4)] by simp
  have own: "entry_ok ((pool_pages b)[f := ?pg]) (pool_disk b) (int p) f" using entriesD [OF d(5) e] l by (simp add: entry_ok_def)
  obtain b' rq' where b': "bpm_UnpinPage ops hash (int p) False b = Some (True, b')" "pool_inv R hash {} b' pt fl rq'"
     "pool_pages b' = (pool_pages b)[f := ?pg]" "pool_disk b' = pool_disk b" "pool_size b' = pool_size b"
    using UnpinPage_rel [OF d(1-3,6,4) m pin refl entriesD [OF d(5)] own] by blast
  have "page_contents pt ((pool_pages b)[f := ?pg]) (pool_disk b) = pool_contents b pt"
    using contents_update [OF d(4) e, of ?pg] m by (simp add: page_contents_def fun_eq_iff)
  moreover have "pins_of pt ((pool_pages b)[f := ?pg]) = (pins_of pt (pool_pages b))(p := k)"
    using pins_update [OF d(4) e, of ?pg] by simp
  ultimately show ?thesis using b' by (auto simp: same_view_def)
qed

text \<open>A page that was fetched is overwritten and unpinned as dirty.\<close>

lemma UnpinPage_modified:
  assumes i: "pool_inv R hash {} b pt fl rq" and m: "map_of pt (int p) = Some f" and pin: "pin_count (pool_pages b ! f) = Suc k"
    and dt: "length dt = PAGE_SIZE"
  shows "\<exists>b' rq'. bpm_UnpinPage ops hash (int p) True (set_page f ((pool_pages b ! f)\<lparr>page_data := dt\<rparr>) b) = Some (True, b') \<and>
     pool_inv R hash {} b' pt fl rq' \<and> pool_size b' = pool_size b \<and> disk_next_page_id (pool_disk b') = disk_next_page_id (pool_disk b) \<and>
     pool_contents b' pt = (pool_contents b pt)(p := dt) \<and> pins_of pt (pool_pages b') = (pins_of pt (pool_pages b))(p := k)"
proof -
  note d = pool_invD [OF i]
  let ?b = "set_page f ((pool_pages b ! f)\<lparr>page_data := dt\<rparr>) b"
  let ?pg = "(pool_pages b ! f)\<lparr>page_data := dt, is_dirty := True, pin_count := k\<rparr>"
  have e: "(int p, f) \<in> set pt" using m entry_lookup [OF d(4)] by simp
  have l: "f < length (pool_pages b)" using entry_frame [OF d(4) e] frames_okD(4) [OF d(4)] by simp
  have c: "lhm_rel hash (page_table ?b) pt" "vec_rel (free_list ?b) fl" "R (pool_size ?b) (pool_replacer ?b) rq" "disk_ok (pool_disk ?b)"
    using d by simp_all
  have fo: "frames_ok {} (pool_size ?b) pt fl rq (pool_pages ?b)" using frames_ok_update [OF d(4)] by simp
  have pin': "pin_count (pool_pages ?b ! f) = Suc k" using pin l by simp
  have o: "entry_ok (pool_pages ?b) (pool_disk ?b) q g" if "(q, g) \<in> set pt" "g \<noteq> f" for q g
    using entriesD [OF d(5) that(1)] that(2) by (simp add: entry_ok_other)
  have pg: "?pg = (pool_pages ?b ! f)\<lparr>is_dirty := is_dirty (pool_pages ?b ! f) \<or> True, pin_count := k\<rparr>" using l by simp
  have own: "entry_ok ((pool_pages ?b)[f := ?pg]) (pool_disk ?b) (int p) f" using entriesD [OF d(5) e] l dt by (simp add: entry_ok_def)
  obtain b' rq' where b': "bpm_UnpinPage ops hash (int p) True ?b = Some (True, b')" "pool_inv R hash {} b' pt fl rq'"
     "pool_pages b' = (pool_pages ?b)[f := ?pg]" "pool_disk b' = pool_disk ?b" "pool_size b' = pool_size ?b"
    using UnpinPage_rel [OF c fo m pin' pg o own] by blast
  have pp: "pool_pages b' = (pool_pages b)[f := ?pg]" using b'(3) by simp
  show ?thesis using b'(1,2,4,5) contents_update [OF d(4) e, of ?pg] pins_update [OF d(4) e, of ?pg] pp by auto
qed

section \<open>FlushPage, NewPage and DeletePage\<close>

lemma flushed_rel:
  assumes i: "pool_inv R hash {} b pt fl rq" and e: "(int p, f) \<in> set pt"
  shows "pool_inv R hash {} (flushed p f b) pt fl rq" "same_view b pt (flushed p f b) pt (pins_of pt (pool_pages b))"
    "disk_page p (db_io (pool_disk (flushed p f b))) = pool_contents b pt p"
    "get_page f b = Some (pool_pages b ! f)" "frame_page_id (pool_pages b ! f) = int p" "f < length (pool_pages b)"
proof -
  note d = pool_invD [OF i]
  let ?pg = "(pool_pages b ! f)\<lparr>is_dirty := False\<rparr>" and ?dm = "write_disk p (page_data (pool_pages b ! f)) (pool_disk b)"
  have m: "map_of pt (int p) = Some f" using e entry_lookup [OF d(4)] by simp
  have l: "f < pool_size b" using entry_frame [OF d(4) e] by simp
  have en: "p < disk_next_page_id (pool_disk b)" "length (page_data (pool_pages b ! f)) = PAGE_SIZE" "frame_page_id (pool_pages b ! f) = int p"
    using entriesD [OF d(5) e] by (simp_all add: entry_ok_def)
  have "frames_ok {} (pool_size b) pt fl rq ((pool_pages b)[f := ?pg])" using d(4) by (rule frames_ok_update) simp
  moreover have "entries_ok pt ((pool_pages b)[f := ?pg]) ?dm" using entries_ok_write(2) [OF d(4,5) e d(6)] by simp
  ultimately show "pool_inv R hash {} (flushed p f b) pt fl rq" using d disk_ok_write [OF d(6) en(2)] by (simp add: pool_inv_def flushed_def)
  have "page_contents pt ((pool_pages b)[f := ?pg]) ?dm = page_contents pt (pool_pages b) ?dm"
    using contents_update [OF d(4) e, of ?pg] m by (simp add: page_contents_def fun_eq_iff)
  moreover have "pins_of pt ((pool_pages b)[f := ?pg]) = pins_of pt (pool_pages b)"
    using pins_update [OF d(4) e, of ?pg] m by (auto simp: pins_of_def fun_eq_iff)
  ultimately show "same_view b pt (flushed p f b) pt (pins_of pt (pool_pages b))"
    using contents_write(1) [OF d(4) m d(6) en(2)] by (simp add: same_view_def flushed_def)
  show "disk_page p (db_io (pool_disk (flushed p f b))) = pool_contents b pt p"
    using write_disk_page [OF d(6) en(1,2), of p] m by (simp add: page_contents_def flushed_def)
  show "get_page f b = Some (pool_pages b ! f)" "f < length (pool_pages b)" using get_page_ok [OF d(4) l] l frames_okD(4) [OF d(4)] by simp_all
qed (use entriesD [OF pool_invD(5) [OF i] e] in \<open>simp add: entry_ok_def\<close>)

lemma FlushPage_rel:
  assumes i: "pool_inv R hash {} b pt fl rq"
  shows "\<exists>b'. bpm_FlushPage hash (int p) b = Some (map_of pt (int p) \<noteq> None, b') \<and> pool_inv R hash {} b' pt fl rq \<and>
     same_view b pt b' pt (pins_of pt (pool_pages b)) \<and> disk_page p (db_io (pool_disk b')) = pool_contents b pt p"
proof (cases "map_of pt (int p)")
  case None
  then show ?thesis using table_find_rel [OF pool_invD(1) [OF i], of "int p"] i
    by (simp add: bpm_FlushPage_def same_view_def page_contents_def)
next
  case (Some f)
  then have e: "(int p, f) \<in> set pt" using entry_lookup [OF pool_invD(4) [OF i]] by simp
  note fl = flushed_rel [OF i e]
  have "bpm_FlushPage hash (int p) b = Some (True, flushed p f b)"
    using table_find_rel [OF pool_invD(1) [OF i], of "int p"] Some fl(4) WritePage_eq [of "int p"]
    by (simp add: bpm_FlushPage_def write_page_def flushed_def)
  then show ?thesis using Some fl(1-3) by simp
qed

text \<open>\<^verbatim>\<open>FlushAllPages\<close> leaves no dirty page: every page of the pool is then the page of the file.\<close>

lemma same_view_trans:
  "same_view b pt b1 pt1 (pins_of pt (pool_pages b)) \<Longrightarrow> same_view b1 pt1 b2 pt2 (pins_of pt1 (pool_pages b1)) \<Longrightarrow>
    same_view b pt b2 pt2 (pins_of pt (pool_pages b))"
  by (simp add: same_view_def)

lemma flush_loop_rel:
  assumes "pool_inv R hash {} b pt fl rq" "set xs \<subseteq> set pt"
  shows "\<exists>b'. flush_loop xs b = Some b' \<and> pool_inv R hash {} b' pt fl rq \<and> same_view b pt b' pt (pins_of pt (pool_pages b)) \<and>
     (\<forall>g. is_dirty (pool_pages b' ! g) \<longrightarrow> is_dirty (pool_pages b ! g)) \<and> (\<forall>(pid, f) \<in> set xs. \<not> is_dirty (pool_pages b' ! f))"
  using assms
proof (induction xs arbitrary: b)
  case Nil
  then show ?case by (simp add: same_view_def)
next
  case (Cons x xs)
  obtain pid f where x: "x = (pid, f)" by (cases x)
  have "0 \<le> pid" using entriesD [OF pool_invD(5) [OF Cons.prems(1)], of pid f] Cons.prems(2) x by (simp add: entry_ok_def)
  then obtain p where p: "pid = int p" using nonneg_int_cases by blast
  have e: "(int p, f) \<in> set pt" using Cons.prems(2) x p by simp
  note fl = flushed_rel [OF Cons.prems(1) e]
  have en: "flush_entry f b = Some (flushed p f b)"
    using fl(4,5) WritePage_eq [of "int p"] by (simp add: flush_entry_def write_page_def flushed_def)
  have dt: "is_dirty (pool_pages (flushed p f b) ! g) \<longleftrightarrow> is_dirty (pool_pages b ! g) \<and> g \<noteq> f" for g
    using fl(6) by (cases "g = f") (simp_all add: flushed_def)
  have "set xs \<subseteq> set pt" using Cons.prems(2) by simp
  then obtain b' where b': "flush_loop xs (flushed p f b) = Some b'" "pool_inv R hash {} b' pt fl rq"
    "same_view (flushed p f b) pt b' pt (pins_of pt (pool_pages (flushed p f b)))"
    "\<forall>g. is_dirty (pool_pages b' ! g) \<longrightarrow> is_dirty (pool_pages (flushed p f b) ! g)" "\<forall>(pid, f) \<in> set xs. \<not> is_dirty (pool_pages b' ! f)"
    using Cons.IH [OF fl(1)] by blast
  have "flush_loop (x # xs) b = Some b'" using en b'(1) x by simp
  moreover have "same_view b pt b' pt (pins_of pt (pool_pages b))" using fl(2) b'(3) by (rule same_view_trans)
  moreover have "\<forall>(pid, f) \<in> set (x # xs). \<not> is_dirty (pool_pages b' ! f)" using b'(4,5) dt x by auto
  ultimately show ?case using b'(2,4) dt by blast
qed

lemma FlushAllPages_rel:
  assumes i: "pool_inv R hash {} b pt fl rq"
  shows "\<exists>b'. bpm_FlushAllPages b = Some b' \<and> pool_inv R hash {} b' pt fl rq \<and> same_view b pt b' pt (pins_of pt (pool_pages b)) \<and>
     (\<forall>p < disk_next_page_id (pool_disk b). disk_page p (db_io (pool_disk b')) = pool_contents b pt p)"
proof -
  have it: "lhm_items (page_table b) = Some pt" using lhm_walk_rel [OF pool_invD(1) [OF i]] by (simp add: lhm_items_def)
  obtain b' where b': "flush_loop pt b = Some b'" "pool_inv R hash {} b' pt fl rq" "same_view b pt b' pt (pins_of pt (pool_pages b))"
    "\<forall>(pid, f) \<in> set pt. \<not> is_dirty (pool_pages b' ! f)" using flush_loop_rel [OF i subset_refl] by blast
  have "disk_page p (db_io (pool_disk b')) = pool_contents b' pt p" for p
  proof (cases "map_of pt (int p)")
    case (Some f)
    then have "(int p, f) \<in> set pt" by (rule map_of_SomeD)
    then show ?thesis using entriesD [OF pool_invD(5) [OF b'(2)]] b'(4) Some by (fastforce simp: page_contents_def entry_ok_def)
  qed (simp add: page_contents_def)
  then show ?thesis using b' it by (simp add: bpm_FlushAllPages_def same_view_def)
qed

lemma NewPage_rel:
  assumes i: "pool_inv R hash {} b pt fl rq" and room: "disk_next_page_id (pool_disk b) < 65536"
    and ff: "FindFrame ops hash b = Some (Some f, b1)" and fo: "found R hash b pt f b1 pt1 fl1 rq1"
    and p: "p = disk_next_page_id (pool_disk b)"
  shows "\<exists>b'. bpm_NewPage ops hash b = Some (Some (int p, f), b') \<and> pool_inv R hash {} b' (pt1 @ [(int p, f)]) fl1 rq1 \<and>
     pool_size b' = pool_size b \<and> disk_next_page_id (pool_disk b') = Suc p \<and>
     (\<forall>q < p. pool_contents b' (pt1 @ [(int p, f)]) q = pool_contents b pt q) \<and>
     pool_contents b' (pt1 @ [(int p, f)]) p = replicate PAGE_SIZE 0 \<and>
     pins_of (pt1 @ [(int p, f)]) (pool_pages b') = (pins_of pt (pool_pages b))(p := 1)"
proof -
  have i1: "pool_inv R hash {f} b1 pt1 fl1 rq1" and sz: "pool_size b1 = pool_size b" and nrq: "f \<notin> set rq1"
    and nx: "disk_next_page_id (pool_disk b1) = p"
    and ct: "\<And>q. q < p \<Longrightarrow> pool_contents b1 pt1 q = pool_contents b pt q"
    and pn: "pins_of pt1 (pool_pages b1) = pins_of pt (pool_pages b)" and pg: "pool_pages b1 ! f = reset_page"
    using fo p by (simp_all add: found_def reset_page_def)
  note d = pool_invD [OF i1]
  let ?z = "replicate PAGE_SIZE (0 :: byte)" and ?pg = "reset_page\<lparr>frame_page_id := int p, pin_count := 1\<rparr>"
  let ?dm0 = "(pool_disk b1)\<lparr>disk_next_page_id := Suc p\<rparr>"
  let ?dm = "write_disk p ?z ?dm0"
  have z: "page_data reset_page = ?z" "length ?z = PAGE_SIZE" by (simp_all add: reset_page_def)
  have m1: "map_of pt1 (int p) = None"
  proof (rule ccontr)
    assume "map_of pt1 (int p) \<noteq> None"
    then obtain g where "(int p, g) \<in> set pt1" by (metis map_of_SomeD option.exhaust)
    then show False using entriesD [OF d(5), of "int p" g] nx by (simp add: entry_ok_def)
  qed
  have l: "f < pool_size b1" "f < length (pool_pages b1)" using d(4) by (auto simp: frames_ok_def)
  have dk: "disk_ok ?dm"
    using d(6) room p nx z(2) by (auto simp: disk_ok_def write_disk_def on_disk_write less_Suc_eq)
  have dp: "disk_page q (db_io ?dm) = (if q = p then ?z else disk_page q (db_io (pool_disk b1)))" if "q \<le> p" for q
    using that d(6) nx z(2) by (auto simp: disk_ok_def write_disk_def disk_page_write_same disk_page_write_other)
  have en1: "entries_ok pt1 (pool_pages b1) ?dm"
    using entriesD [OF d(5)] nx dp by (intro entries_okI) (fastforce simp: entry_ok_def)
  let ?b2 = "set_page f ?pg (b1\<lparr>pool_disk := ?dm\<rparr>)"
  obtain r where r: "bpm_Pin ops f ?b2 = Some (?b2\<lparr>pool_replacer := r\<rparr>)" "R (pool_size b1) r rq1"
    using bpm_Pin_rel [of ?b2 rq1 f] d(3) filter_absent [OF nrq] by auto
  let ?b3 = "?b2\<lparr>pool_replacer := r\<rparr>"
  obtain t where t: "table_set hash (int p) f ?b3 = Some (?b3\<lparr>page_table := t\<rparr>)" "lhm_rel hash t (pt1 @ [(int p, f)])"
    using table_set_rel [of hash ?b3 pt1 "int p" f] d(1) m1 by auto
  let ?b = "?b3\<lparr>page_table := t\<rparr>"
  have ne: "bpm_NewPage ops hash b = Some (Some (int p, f), ?b)"
    using ff get_page_ok [OF d(4) l(1)] pg nx r(1) t(1) z(1)
    by (simp add: bpm_NewPage_def AllocatePage_def Let_def write_page_def WritePage_eq)
  have "frames_ok {} (pool_size b1) (pt1 @ [(int p, f)]) fl1 rq1 ((pool_pages b1)[f := ?pg])"
    using d(4) m1 by (rule frames_ok_attach) simp
  moreover have "entries_ok (pt1 @ [(int p, f)]) ((pool_pages b1)[f := ?pg]) ?dm"
    using d(4) en1 by (rule entries_ok_attach) (use z dp in \<open>simp_all add: write_disk_def\<close>)
  ultimately have "pool_inv R hash {} ?b (pt1 @ [(int p, f)]) fl1 rq1" using d t(2) r(2) dk by (simp add: pool_inv_def)
  moreover have "pool_contents ?b (pt1 @ [(int p, f)]) = (page_contents pt1 (pool_pages b1) ?dm)(p := ?z)"
    using contents_attach [OF d(4) m1, of ?pg ?dm] z by simp
  moreover have "page_contents pt1 (pool_pages b1) ?dm q = pool_contents b pt q" if "q < p" for q
    using ct [OF that] dp [of q] that by (simp add: page_contents_def split: option.splits)
  moreover have "pins_of (pt1 @ [(int p, f)]) (pool_pages ?b) = (pins_of pt (pool_pages b))(p := 1)"
    using pins_attach [OF d(4) m1, of ?pg] pn by simp
  ultimately show ?thesis using ne sz by (auto simp: write_disk_def)
qed

lemma NewPage_none:
  "FindFrame ops hash b = Some (None, b') \<Longrightarrow> bpm_NewPage ops hash b = Some (None, b')"
  by (simp add: bpm_NewPage_def)

lemma DeletePage_absent:
  "pool_inv R hash {} b pt fl rq \<Longrightarrow> map_of pt (int p) = None \<Longrightarrow> bpm_DeletePage ops hash (int p) b = Some (True, b)"
  using table_find_rel [OF pool_invD(1), of R hash "{}" b pt fl rq "int p"] by (simp add: bpm_DeletePage_def)

lemma DeletePage_pinned:
  assumes i: "pool_inv R hash {} b pt fl rq" and p: "pins_of pt (pool_pages b) p \<noteq> 0"
  shows "bpm_DeletePage ops hash (int p) b = Some (False, b)"
proof -
  note d = pool_invD [OF i]
  obtain f where m: "map_of pt (int p) = Some f" "pin_count (pool_pages b ! f) \<noteq> 0" using p by (auto simp: pins_of_def split: option.splits)
  then have "f < pool_size b" using entry_frame [OF d(4)] entry_lookup [OF d(4)] by blast
  then show ?thesis using table_find_rel [OF d(1), of "int p"] m get_page_ok [OF d(4), of f] by (simp add: bpm_DeletePage_def)
qed

lemma DeletePage_rel:
  assumes i: "pool_inv R hash {} b pt fl rq" and m: "map_of pt (int p) = Some f" and pin: "pin_count (pool_pages b ! f) = 0"
  shows "\<exists>b'. bpm_DeletePage ops hash (int p) b = Some (True, b') \<and>
     pool_inv R hash {} b' (AList.delete (int p) pt) (fl @ [f]) (filter (\<lambda>g. g \<noteq> f) rq) \<and>
     pool_size b' = pool_size b \<and> pool_disk b' = pool_disk b \<and>
     (\<forall>q. q \<noteq> p \<longrightarrow> pool_contents b' (AList.delete (int p) pt) q = pool_contents b pt q) \<and>
     pins_of (AList.delete (int p) pt) (pool_pages b') = pins_of pt (pool_pages b)"
proof -
  note d = pool_invD [OF i]
  let ?pt = "AList.delete (int p) pt" and ?pg = "(pool_pages b ! f)\<lparr>is_dirty := False, frame_page_id := -1, pin_count := 0\<rparr>"
  have e: "(int p, f) \<in> set pt" using m entry_lookup [OF d(4)] by simp
  have l: "f < pool_size b" using entry_frame [OF d(4) e] by simp
  obtain t where t: "table_erase hash (int p) b = Some (b\<lparr>page_table := t\<rparr>)" "lhm_rel hash t ?pt" using table_erase_rel [OF d(1) m] by blast
  obtain v where v: "push_back f (free_list b) = Some v" "vec_rel v (fl @ [f])" using push_back_rel [OF d(2)] by blast
  let ?b = "(set_page f ?pg (b\<lparr>page_table := t\<rparr>))\<lparr>free_list := v\<rparr>"
  obtain r where r: "bpm_Pin ops f ?b = Some (?b\<lparr>pool_replacer := r\<rparr>)" "R (pool_size b) r (filter (\<lambda>g. g \<noteq> f) rq)"
    using bpm_Pin_rel [of ?b rq f] d(3) by auto
  have de: "bpm_DeletePage ops hash (int p) b = Some (True, ?b\<lparr>pool_replacer := r\<rparr>)"
    using table_find_rel [OF d(1), of "int p"] m get_page_ok [OF d(4) l] pin t(1) v(1) r(1)
    by (simp add: bpm_DeletePage_def Let_def DeallocatePage_def)
  note fd = frames_ok_delete(1) [OF d(4) e, of ?pg] frames_ok_delete(2) [OF d(4) e d(5), where p = ?pg]
  have "pool_inv R hash {} (?b\<lparr>pool_replacer := r\<rparr>) ?pt (fl @ [f]) (filter (\<lambda>g. g \<noteq> f) rq)"
    using d t(2) v(2) r(2) fd by (simp add: pool_inv_def)
  moreover have "pins_of ?pt ((pool_pages b)[f := ?pg]) = pins_of pt (pool_pages b)"
  proof -
    have "(pins_of pt (pool_pages b))(p := 0) = pins_of pt (pool_pages b)" using m pin by (simp add: pins_of_def fun_eq_iff)
    moreover have "pin_count ((pool_pages b)[f := ?pg] ! f) = 0" using l frames_okD(4) [OF d(4)] by simp
    ultimately show ?thesis using pins_update [OF d(4) e, of ?pg] pins_delete [OF m, of "(pool_pages b)[f := ?pg]"] by simp
  qed
  ultimately show ?thesis using de contents_delete [OF d(4) e] by auto
qed

end

end
