(* ===== verification/BufferPoolRefinement.thy ===== *)
theory BufferPoolRefinement
  imports BufferPoolOps
begin

text \<open>
  The buffer pool refines a store of pages. A client holds the numbers of the pages that it has
  created and not deleted, and calls the pool with these numbers only; it changes a page between
  \<^verbatim>\<open>FetchPage\<close> and \<^verbatim>\<open>UnpinPage(page, true)\<close>, as the B+ tree does. The abstract state has the contents
  and the pin counts of the pages; frames, replacement, dirty flags and the file do not occur in it.
\<close>

section \<open>The abstract store\<close>

datatype pool_op =
  Pool_new | Pool_fetch nat | Pool_release nat | Pool_modify nat "byte list" | Pool_flush nat | Pool_flush_all | Pool_delete nat

record pool_view =
  pv_contents :: "nat \<Rightarrow> byte list option"
  pv_pins :: "nat \<Rightarrow> nat"
  pv_next :: nat

definition pinned_pages :: "pool_view \<Rightarrow> nat set" where
  "pinned_pages s = {q. pv_pins s q \<noteq> 0}"

text \<open>A page can be fetched when it is pinned already or some frame of the \<open>n\<close> is not in use.\<close>

definition fetchable :: "nat \<Rightarrow> nat \<Rightarrow> pool_view \<Rightarrow> bool" where
  "fetchable n p s \<longleftrightarrow> pv_pins s p \<noteq> 0 \<or> card (pinned_pages s) < n"

fun pool_spec :: "nat \<Rightarrow> pool_op \<Rightarrow> pool_view \<Rightarrow> pool_view" where
  "pool_spec n Pool_new s =
     (if card (pinned_pages s) < n \<and> pv_next s < 65536
      then s\<lparr>pv_contents := (pv_contents s)(pv_next s \<mapsto> replicate PAGE_SIZE 0), pv_pins := (pv_pins s)(pv_next s := 1),
             pv_next := Suc (pv_next s)\<rparr>
      else s)"
| "pool_spec n (Pool_fetch p) s =
     (if p \<in> dom (pv_contents s) \<and> fetchable n p s then s\<lparr>pv_pins := (pv_pins s)(p := Suc (pv_pins s p))\<rparr> else s)"
| "pool_spec n (Pool_release p) s =
     (if p \<in> dom (pv_contents s) then s\<lparr>pv_pins := (pv_pins s)(p := pv_pins s p - 1)\<rparr> else s)"
| "pool_spec n (Pool_modify p dt) s =
     (if p \<in> dom (pv_contents s) \<and> fetchable n p s \<and> length dt = PAGE_SIZE then s\<lparr>pv_contents := (pv_contents s)(p \<mapsto> dt)\<rparr> else s)"
| "pool_spec n (Pool_flush p) s = s"
| "pool_spec n Pool_flush_all s = s"
| "pool_spec n (Pool_delete p) s =
     (if p \<in> dom (pv_contents s) \<and> pv_pins s p = 0 then s\<lparr>pv_contents := (pv_contents s)(p := None)\<rparr> else s)"

definition empty_view :: pool_view where
  "empty_view = \<lparr>pv_contents = Map.empty, pv_pins = (\<lambda>p. 0), pv_next = 0\<rparr>"

section \<open>The client of the pool\<close>

definition pool_modify :: "'r replacer_ops \<Rightarrow> (int \<Rightarrow> nat) \<Rightarrow> nat \<Rightarrow> byte list \<Rightarrow> 'r bpm \<Rightarrow> 'r bpm option" where
  "pool_modify rp hash p dt b =
     do { (res, b1) \<leftarrow> bpm_FetchPage rp hash (int p) b;
          (case res of
             Inr (Some f) \<Rightarrow> do {
               pg \<leftarrow> get_page f b1;
               (ok, b2) \<leftarrow> bpm_UnpinPage rp hash (int p) True (set_page f (pg\<lparr>page_data := dt\<rparr>) b1);
               Some b2 }
           | _ \<Rightarrow> Some b1) }"

definition pool_read :: "'r replacer_ops \<Rightarrow> (int \<Rightarrow> nat) \<Rightarrow> nat \<Rightarrow> 'r bpm \<Rightarrow> byte list option option" where
  "pool_read rp hash p b =
     do { (res, b1) \<leftarrow> bpm_FetchPage rp hash (int p) b;
          (case res of
             Inr (Some f) \<Rightarrow> do { pg \<leftarrow> get_page f b1; Some (Some (page_data pg)) }
           | _ \<Rightarrow> Some None) }"

fun pool_exec :: "'r replacer_ops \<Rightarrow> (int \<Rightarrow> nat) \<Rightarrow> pool_op \<Rightarrow> 'r bpm \<times> nat set \<Rightarrow> ('r bpm \<times> nat set) option" where
  "pool_exec rp hash Pool_new (b, G) =
     (if disk_next_page_id (pool_disk b) < 65536
      then do { (res, b') \<leftarrow> bpm_NewPage rp hash b; Some (b', case res of None \<Rightarrow> G | Some (pid, f) \<Rightarrow> insert (nat pid) G) }
      else Some (b, G))"
| "pool_exec rp hash (Pool_fetch p) (b, G) =
     (if p \<in> G then do { (res, b') \<leftarrow> bpm_FetchPage rp hash (int p) b; Some (b', G) } else Some (b, G))"
| "pool_exec rp hash (Pool_release p) (b, G) =
     (if p \<in> G then do { (ok, b') \<leftarrow> bpm_UnpinPage rp hash (int p) False b; Some (b', G) } else Some (b, G))"
| "pool_exec rp hash (Pool_modify p dt) (b, G) =
     (if p \<in> G \<and> length dt = PAGE_SIZE then do { b' \<leftarrow> pool_modify rp hash p dt b; Some (b', G) } else Some (b, G))"
| "pool_exec rp hash (Pool_flush p) (b, G) =
     (if p \<in> G then do { (ok, b') \<leftarrow> bpm_FlushPage hash (int p) b; Some (b', G) } else Some (b, G))"
| "pool_exec rp hash Pool_flush_all (b, G) = do { b' \<leftarrow> bpm_FlushAllPages b; Some (b', G) }"
| "pool_exec rp hash (Pool_delete p) (b, G) =
     (if p \<in> G then do { (ok, b') \<leftarrow> bpm_DeletePage rp hash (int p) b; Some (b', if ok then G - {p} else G) } else Some (b, G))"

definition run_pool :: "'r replacer_ops \<Rightarrow> (int \<Rightarrow> nat) \<Rightarrow> nat \<Rightarrow> 'r \<Rightarrow> pool_op list \<Rightarrow> ('r bpm \<times> nat set) option" where
  "run_pool rp hash n r xs = do { b \<leftarrow> BufferPoolManager n r DiskManager_new; run_calls (pool_exec rp hash) xs (b, {}) }"

text \<open>The pool and the pages of its client represent an abstract store.\<close>

definition view_rel :: "'r bpm \<Rightarrow> (int \<times> nat) list \<Rightarrow> nat set \<Rightarrow> pool_view \<Rightarrow> bool" where
  "view_rel b pt G s \<longleftrightarrow>
     dom (pv_contents s) = G \<and> (\<forall>p \<in> G. p < pv_next s \<and> pv_contents s p = Some (pool_contents b pt p)) \<and>
     pv_pins s = pins_of pt (pool_pages b) \<and> pv_next s = disk_next_page_id (pool_disk b)"

definition pool_rel :: "(nat \<Rightarrow> 'r \<Rightarrow> nat list \<Rightarrow> bool) \<Rightarrow> (int \<Rightarrow> nat) \<Rightarrow> nat \<Rightarrow> 'r bpm \<times> nat set \<Rightarrow> pool_view \<Rightarrow> bool" where
  "pool_rel R hash n bG s \<longleftrightarrow>
     pool_size (fst bG) = n \<and> (\<exists>pt fl rq. pool_inv R hash {} (fst bG) pt fl rq \<and> view_rel (fst bG) pt (snd bG) s)"

lemma pool_relE:
  assumes "pool_rel R hash n (b, G) s"
  obtains pt fl rq where "pool_size b = n" "pool_inv R hash {} b pt fl rq" "view_rel b pt G s"
  using assms by (auto simp: pool_rel_def)

lemma pool_relI: "pool_size b = n \<Longrightarrow> pool_inv R hash {} b pt fl rq \<Longrightarrow> view_rel b pt G s \<Longrightarrow> pool_rel R hash n (b, G) s"
  by (auto simp: pool_rel_def)

lemma view_relD:
  assumes "view_rel b pt G s"
  shows "dom (pv_contents s) = G" "pv_pins s = pins_of pt (pool_pages b)" "pv_next s = disk_next_page_id (pool_disk b)"
    "p \<in> G \<Longrightarrow> p < disk_next_page_id (pool_disk b)" "p \<in> G \<Longrightarrow> pv_contents s p = Some (pool_contents b pt p)"
  using assms by (auto simp: view_rel_def)

lemma same_viewD:
  assumes "same_view b pt b' pt' pins"
  shows "pool_size b' = pool_size b" "disk_next_page_id (pool_disk b') = disk_next_page_id (pool_disk b)"
    "q < disk_next_page_id (pool_disk b) \<Longrightarrow> pool_contents b' pt' q = pool_contents b pt q" "pins_of pt' (pool_pages b') = pins"
  using assms by (auto simp: same_view_def)

lemma view_same:
  assumes v: "view_rel b pt G s" and sv: "same_view b pt b' pt' pins"
  shows "view_rel b' pt' G (s\<lparr>pv_pins := pins\<rparr>)"
  unfolding view_rel_def using view_relD [OF v] same_viewD [OF sv] by simp

lemma view_unchanged:
  assumes v: "view_rel b pt G s" and sv: "same_view b pt b' pt' (pins_of pt (pool_pages b))"
  shows "view_rel b' pt' G s"
  unfolding view_rel_def using view_relD [OF v] same_viewD [OF sv] by simp

section \<open>Pinned pages and frames\<close>

lemma card_pinned:
  assumes i: "pool_inv R hash {} b pt fl rq"
  shows "card {q. pins_of pt (pool_pages b) q \<noteq> 0} < pool_size b \<longleftrightarrow> fl \<noteq> [] \<or> rq \<noteq> []"
proof -
  note d = pool_invD [OF i]
  let ?P = "{q. pins_of pt (pool_pages b) q \<noteq> 0}" and ?F = "{f \<in> snd ` set pt. pin_count (pool_pages b ! f) \<noteq> 0}"
  let ?g = "\<lambda>q. the (map_of pt (int q))"
  have P: "\<exists>f. map_of pt (int q) = Some f \<and> pin_count (pool_pages b ! f) \<noteq> 0" if "q \<in> ?P" for q
    using that by (auto simp: pins_of_def split: option.splits)
  have "bij_betw ?g ?P ?F"
  proof (rule bij_betwI')
    fix x y assume "x \<in> ?P" "y \<in> ?P"
    then obtain f g where m: "map_of pt (int x) = Some f" "map_of pt (int y) = Some g" using P by blast
    then have "f = g \<Longrightarrow> int y = int x" using frame_unique [OF d(4), of "int x" f "int y"] map_of_SomeD by metis
    then show "(?g x = ?g y) = (x = y)" using m by auto
  next
    fix x assume "x \<in> ?P"
    then obtain f where "map_of pt (int x) = Some f" "pin_count (pool_pages b ! f) \<noteq> 0" using P by blast
    then show "?g x \<in> ?F" using map_of_SomeD by force
  next
    fix f assume "f \<in> ?F"
    then obtain pid where e: "(pid, f) \<in> set pt" "pin_count (pool_pages b ! f) \<noteq> 0" by auto
    then have "0 \<le> pid" using entriesD [OF d(5)] by (auto simp: entry_ok_def)
    then have "map_of pt (int (nat pid)) = Some f" using entry_lookup [OF d(4)] e(1) by simp
    then show "\<exists>x \<in> ?P. f = ?g x" using e(2) by (intro bexI [of _ "nat pid"]) (simp_all add: pins_of_def)
  qed
  then have c: "card ?P = card ?F" by (rule bij_betw_same_card)
  have u: "set fl \<union> snd ` set pt = {..<pool_size b}" "set fl \<inter> snd ` set pt = {}" "set rq = {f \<in> snd ` set pt. pin_count (pool_pages b ! f) = 0}"
    using d(4) by (auto simp: frames_ok_def)
  then have F: "?F = {..<pool_size b} - (set fl \<union> set rq)" "set fl \<union> set rq \<subseteq> {..<pool_size b}" by auto
  show ?thesis
  proof (cases "fl = [] \<and> rq = []")
    case True
    then show ?thesis using F(1) c by simp
  next
    case False
    then have "?F \<subset> {..<pool_size b}" using F by (auto simp: neq_Nil_conv)
    then have "card ?F < card {..<pool_size b}" by (intro psubset_card_mono) auto
    then show ?thesis using c False by simp
  qed
qed

lemma fetchable_iff:
  assumes "pool_inv R hash {} b pt fl rq" "view_rel b pt G s" "pool_size b = n"
  shows "fetchable n p s \<longleftrightarrow> map_of pt (int p) \<noteq> None \<or> fl \<noteq> [] \<or> rq \<noteq> []"
proof -
  have s: "pv_pins s = pins_of pt (pool_pages b)" using assms(2) by (simp add: view_rel_def)
  have "rq \<noteq> []" if "map_of pt (int p) = Some f" "pin_count (pool_pages b ! f) = 0" for f
  proof -
    have "f \<in> snd ` set pt" using map_of_SomeD [OF that(1)] by force
    then have "f \<in> set rq" using pool_invD(4) [OF assms(1)] that(2) by (auto simp: frames_ok_def)
    then show ?thesis by auto
  qed
  then show ?thesis using card_pinned [OF assms(1)] assms(3)
    by (auto simp: fetchable_def pinned_pages_def s pins_of_def split: option.splits)
qed

section \<open>The refinement\<close>

locale buffer_pool = replacer ops R
  for ops :: "'r replacer_ops" and R :: "nat \<Rightarrow> 'r \<Rightarrow> nat list \<Rightarrow> bool" +
  fixes hash :: "int \<Rightarrow> nat" and n :: nat and r0 :: 'r
  assumes initial_replacer: "R n r0 []"
begin

lemma exec_new:
  assumes "pool_rel R hash n (b, G) s"
  shows "\<exists>c. pool_exec ops hash Pool_new (b, G) = Some c \<and> pool_rel R hash n c (pool_spec n Pool_new s)"
proof -
  obtain pt fl rq where r: "pool_size b = n" "pool_inv R hash {} b pt fl rq" "view_rel b pt G s" using assms by (rule pool_relE)
  have v: "dom (pv_contents s) = G" "pv_pins s = pins_of pt (pool_pages b)" "pv_next s = disk_next_page_id (pool_disk b)"
    "\<And>p. p \<in> G \<Longrightarrow> p < pv_next s \<and> pv_contents s p = Some (pool_contents b pt p)" using view_relD [OF r(3)] by simp_all
  have c: "card (pinned_pages s) < n \<longleftrightarrow> fl \<noteq> [] \<or> rq \<noteq> []" using card_pinned [OF r(2)] r(1) v(2) by (simp add: pinned_pages_def)
  show ?thesis
  proof (cases "disk_next_page_id (pool_disk b) < 65536")
    case False
    then show ?thesis using assms v(3) by simp
  next
    case True
    from r(2) show ?thesis
    proof (cases rule: FindFrame_rel)
      case (none rr)
      then show ?thesis using NewPage_none [OF none(3)] c assms True r
        by (auto intro!: pool_relI [OF _ none(4)] view_unchanged [OF r(3)] simp: same_view_def)
    next
      case (some f b1 pt1 fl1 rq1)
      let ?p = "disk_next_page_id (pool_disk b)"
      obtain b' where b': "bpm_NewPage ops hash b = Some (Some (int ?p, f), b')" "pool_inv R hash {} b' (pt1 @ [(int ?p, f)]) fl1 rq1"
        "pool_size b' = pool_size b" "disk_next_page_id (pool_disk b') = Suc ?p"
        "\<forall>q < ?p. pool_contents b' (pt1 @ [(int ?p, f)]) q = pool_contents b pt q"
        "pool_contents b' (pt1 @ [(int ?p, f)]) ?p = replicate PAGE_SIZE 0"
        "pins_of (pt1 @ [(int ?p, f)]) (pool_pages b') = (pins_of pt (pool_pages b))(?p := 1)"
        using NewPage_rel [OF r(2) True some(2,3) refl] by blast
      have e: "pool_exec ops hash Pool_new (b, G) = Some (b', insert ?p G)" using b'(1) True by simp
      have sp: "pool_spec n Pool_new s = s\<lparr>pv_contents := (pv_contents s)(?p \<mapsto> replicate PAGE_SIZE 0), pv_pins := (pv_pins s)(?p := 1),
          pv_next := Suc ?p\<rparr>" using c some(1) True v(3) by simp
      have "view_rel b' (pt1 @ [(int ?p, f)]) (insert ?p G) (pool_spec n Pool_new s)"
        unfolding sp view_rel_def using b'(4-7) v by (auto simp: less_Suc_eq)
      then have "pool_rel R hash n (b', insert ?p G) (pool_spec n Pool_new s)" using b'(2,3) r(1) by (intro pool_relI) simp_all
      then show ?thesis using e by blast
    qed
  qed
qed

lemma exec_fetch:
  assumes "pool_rel R hash n (b, G) s"
  shows "\<exists>c. pool_exec ops hash (Pool_fetch p) (b, G) = Some c \<and> pool_rel R hash n c (pool_spec n (Pool_fetch p) s)"
proof -
  obtain pt fl rq where r: "pool_size b = n" "pool_inv R hash {} b pt fl rq" "view_rel b pt G s" using assms by (rule pool_relE)
  note ft = fetchable_iff [OF r(2,3,1), of p]
  show ?thesis
  proof (cases "p \<in> G")
    case False
    then show ?thesis using assms r(3) by (simp add: view_rel_def)
  next
    case True
    then have p: "p < disk_next_page_id (pool_disk b)" "p \<in> dom (pv_contents s)" using r(3) by (auto simp: view_rel_def)
    from r(2) p(1) show ?thesis
    proof (cases rule: FetchPage_rel)
      case (none b')
      have "pool_rel R hash n (b', G) s" using none(5) view_unchanged [OF r(3) none(6)] none(6) r(1) by (intro pool_relI) (simp_all add: same_view_def)
      then show ?thesis using none(1-4) ft True by simp
    next
      case (some f b' pt' fl' rq')
      have "pool_rel R hash n (b', G) (pool_spec n (Pool_fetch p) s)"
        using some(1,3) view_same [OF r(3) some(5)] same_viewD(1) [OF some(5)] r(1) p(2) ft view_relD(2) [OF r(3)]
        by (intro pool_relI) simp_all
      then show ?thesis using some(2) True by simp
    qed
  qed
qed

lemma exec_release:
  assumes "pool_rel R hash n (b, G) s"
  shows "\<exists>c. pool_exec ops hash (Pool_release p) (b, G) = Some c \<and> pool_rel R hash n c (pool_spec n (Pool_release p) s)"
proof -
  obtain pt fl rq where r: "pool_size b = n" "pool_inv R hash {} b pt fl rq" "view_rel b pt G s" using assms by (rule pool_relE)
  have s: "pv_pins s = pins_of pt (pool_pages b)" "dom (pv_contents s) = G" using r(3) by (simp_all add: view_rel_def)
  show ?thesis
  proof (cases "p \<in> G")
    case False
    then show ?thesis using assms s(2) by simp
  next
    case True
    show ?thesis
    proof (cases "pins_of pt (pool_pages b) p")
      case 0
      then have "s\<lparr>pv_pins := (pv_pins s)(p := pv_pins s p - 1)\<rparr> = s" using s(1) fun_upd_triv [of "pv_pins s" p] by simp
      then show ?thesis using UnpinPage_false [OF r(2) 0] True s(2) assms by simp
    next
      case (Suc k)
      obtain b' rq' where b': "bpm_UnpinPage ops hash (int p) False b = Some (True, b')" "pool_inv R hash {} b' pt fl rq'"
        "same_view b pt b' pt ((pins_of pt (pool_pages b))(p := k))" using UnpinPage_clean [OF r(2) Suc] by blast
      have "pool_rel R hash n (b', G) (pool_spec n (Pool_release p) s)"
        using b'(2) view_same [OF r(3) b'(3)] b'(3) r(1) True s Suc by (intro pool_relI) (simp_all add: same_view_def)
      then show ?thesis using b'(1) True by simp
    qed
  qed
qed

lemma exec_modify:
  assumes "pool_rel R hash n (b, G) s"
  shows "\<exists>c. pool_exec ops hash (Pool_modify p dt) (b, G) = Some c \<and> pool_rel R hash n c (pool_spec n (Pool_modify p dt) s)"
proof -
  obtain pt fl rq where r: "pool_size b = n" "pool_inv R hash {} b pt fl rq" "view_rel b pt G s" using assms by (rule pool_relE)
  note ft = fetchable_iff [OF r(2,3,1), of p]
  show ?thesis
  proof (cases "p \<in> G \<and> length dt = PAGE_SIZE")
    case False
    then show ?thesis using assms r(3) by (auto simp: view_rel_def)
  next
    case True
    then have p: "p < disk_next_page_id (pool_disk b)" "p \<in> dom (pv_contents s)" using r(3) by (auto simp: view_rel_def)
    from r(2) p(1) show ?thesis
    proof (cases rule: FetchPage_rel)
      case (none b')
      have "pool_rel R hash n (b', G) s" using none(5) view_unchanged [OF r(3) none(6)] none(6) r(1) by (intro pool_relI) (simp_all add: same_view_def)
      then show ?thesis using none(1-4) ft True by (simp add: pool_modify_def)
    next
      case (some f b1 pt1 fl1 rq1)
      have pin: "pin_count (pool_pages b1 ! f) = Suc (pins_of pt (pool_pages b) p)"
        using some(4) fun_cong [OF same_viewD(4) [OF some(5)], of p] by (simp add: pins_of_def)
      obtain b' rq' where b': "bpm_UnpinPage ops hash (int p) True (set_page f ((pool_pages b1 ! f)\<lparr>page_data := dt\<rparr>) b1) = Some (True, b')"
         "pool_inv R hash {} b' pt1 fl1 rq'" "pool_size b' = pool_size b1" "disk_next_page_id (pool_disk b') = disk_next_page_id (pool_disk b1)"
         "pool_contents b' pt1 = (pool_contents b1 pt1)(p := dt)"
         "pins_of pt1 (pool_pages b') = (pins_of pt1 (pool_pages b1))(p := pins_of pt (pool_pages b) p)"
        using UnpinPage_modified [OF some(3,4) pin, of dt] True by blast
      have "get_page f b1 = Some (pool_pages b1 ! f)"
        using flushed_rel(4) [OF some(3), of p f] map_of_SomeD [OF some(4)] by simp
      then have e: "pool_exec ops hash (Pool_modify p dt) (b, G) = Some (b', G)" using b'(1) some(2) True by (simp add: pool_modify_def)
      have pp: "pins_of pt1 (pool_pages b') = pins_of pt (pool_pages b)" using b'(6) same_viewD(4) [OF some(5)] by simp
      have "view_rel b' pt1 G (s\<lparr>pv_contents := (pv_contents s)(p \<mapsto> dt)\<rparr>)"
        unfolding view_rel_def using b'(4,5) same_viewD(2,3) [OF some(5)] view_relD [OF r(3)] True pp by auto
      then have "pool_rel R hash n (b', G) (pool_spec n (Pool_modify p dt) s)"
        using b'(2,3) some(1,5) r(1) True p(2) ft by (intro pool_relI) (simp_all add: same_view_def)
      then show ?thesis using e by blast
    qed
  qed
qed

lemma exec_flush:
  assumes "pool_rel R hash n (b, G) s"
  shows "\<exists>c. pool_exec ops hash (Pool_flush p) (b, G) = Some c \<and> pool_rel R hash n c s"
    and "\<exists>c. pool_exec ops hash Pool_flush_all (b, G) = Some c \<and> pool_rel R hash n c s"
proof -
  obtain pt fl rq where r: "pool_size b = n" "pool_inv R hash {} b pt fl rq" "view_rel b pt G s" using assms by (rule pool_relE)
  have k: "pool_rel R hash n (b', G) s" if "pool_inv R hash {} b' pt fl rq" "same_view b pt b' pt (pins_of pt (pool_pages b))" for b'
    using that r(1) view_unchanged [OF r(3) that(2)] by (intro pool_relI) (simp_all add: same_view_def)
  show "\<exists>c. pool_exec ops hash (Pool_flush p) (b, G) = Some c \<and> pool_rel R hash n c s"
    using FlushPage_rel [OF r(2), of p] k assms by (cases "p \<in> G") auto
  show "\<exists>c. pool_exec ops hash Pool_flush_all (b, G) = Some c \<and> pool_rel R hash n c s"
    using FlushAllPages_rel [OF r(2)] k by auto
qed

lemma exec_delete:
  assumes "pool_rel R hash n (b, G) s"
  shows "\<exists>c. pool_exec ops hash (Pool_delete p) (b, G) = Some c \<and> pool_rel R hash n c (pool_spec n (Pool_delete p) s)"
proof -
  obtain pt fl rq where r: "pool_size b = n" "pool_inv R hash {} b pt fl rq" "view_rel b pt G s" using assms by (rule pool_relE)
  have v: "dom (pv_contents s) = G" "pv_pins s = pins_of pt (pool_pages b)" using r(3) by (simp_all add: view_rel_def)
  show ?thesis
  proof (cases "p \<in> G")
    case False
    then show ?thesis using assms v(1) by simp
  next
    case G: True
    show ?thesis
    proof (cases "pins_of pt (pool_pages b) p = 0")
      case False
      then show ?thesis using DeletePage_pinned [OF r(2) False] G v assms by simp
    next
      case pin: True
      have sp: "pool_spec n (Pool_delete p) s = s\<lparr>pv_contents := (pv_contents s)(p := None)\<rparr>" using G v pin by simp
      show ?thesis
      proof (cases "map_of pt (int p)")
        case None
        have "view_rel b pt (G - {p}) (pool_spec n (Pool_delete p) s)" unfolding sp using r(3) by (auto simp: view_rel_def)
        then have "pool_rel R hash n (b, G - {p}) (pool_spec n (Pool_delete p) s)" using r by (intro pool_relI)
        then show ?thesis using DeletePage_absent [OF r(2) None] G by simp
      next
        case (Some f)
        then have "pin_count (pool_pages b ! f) = 0" using pin by (simp add: pins_of_def)
        from DeletePage_rel [OF r(2) Some this] obtain b' where b': "bpm_DeletePage ops hash (int p) b = Some (True, b')"
          "pool_inv R hash {} b' (AList.delete (int p) pt) (fl @ [f]) (filter (\<lambda>g. g \<noteq> f) rq)"
          "pool_size b' = pool_size b" "pool_disk b' = pool_disk b"
          "\<forall>q. q \<noteq> p \<longrightarrow> pool_contents b' (AList.delete (int p) pt) q = pool_contents b pt q"
          "pins_of (AList.delete (int p) pt) (pool_pages b') = pins_of pt (pool_pages b)" by blast
        have "view_rel b' (AList.delete (int p) pt) (G - {p}) (pool_spec n (Pool_delete p) s)"
          unfolding sp using b'(4-6) r(3) by (auto simp: view_rel_def)
        then have "pool_rel R hash n (b', G - {p}) (pool_spec n (Pool_delete p) s)" using b'(2,3) r(1) by (intro pool_relI) simp_all
        then show ?thesis using b'(1) G by simp
      qed
    qed
  qed
qed

lemma exec_refines: "pool_rel R hash n c s \<Longrightarrow> \<exists>c'. pool_exec ops hash x c = Some c' \<and> pool_rel R hash n c' (pool_spec n x s)"
  using exec_new exec_fetch exec_release exec_modify exec_flush exec_delete by (cases c; cases x) fastforce+

sublocale pool: data_refinement "pool_rel R hash n" "pool_exec ops hash" "pool_spec n"
  by unfold_locales (rule exec_refines)

text \<open>A pool on an empty file.\<close>

lemma new_pool: "\<exists>b. BufferPoolManager n r0 DiskManager_new = Some b \<and> pool_rel R hash n (b, {}) empty_view"
proof -
  obtain v where v: "fill_free n 0 (vec_new 0) = Some v" "vec_rel v ([] @ [0..<0 + n])" using fill_free_rel [OF vec_new_rel] by blast
  let ?b = "\<lparr>pool_size = n, pool_pages = replicate n Page_new, pool_disk = DiskManager_new, page_table = lhm_new, pool_replacer = r0, free_list = v\<rparr>"
  have "pool_inv R hash {} ?b [] [0..<n] []"
    using v(2) new_map_rep initial_replacer
    by (auto simp: pool_inv_def frames_ok_def entries_ok_def disk_ok_def DiskManager_new_eq)
  moreover have "view_rel ?b [] {} empty_view" by (simp add: view_rel_def empty_view_def pins_of_def fun_eq_iff DiskManager_new_eq)
  ultimately have "pool_rel R hash n (?b, {}) empty_view" by (intro pool_relI) simp_all
  then show ?thesis using v(1) by (simp add: BufferPoolManager_def)
qed

lemma run_pool_rel:
  "\<exists>b G. run_pool ops hash n r0 xs = Some (b, G) \<and> pool_rel R hash n (b, G) (fold (pool_spec n) xs empty_view)"
proof -
  obtain b where b: "BufferPoolManager n r0 DiskManager_new = Some b" "pool_rel R hash n (b, {}) empty_view" using new_pool by blast
  then show ?thesis using pool.run_spec [OF b(2), of xs] by (auto simp: run_pool_def)
qed

text \<open>What a client reads, and what \<^verbatim>\<open>FlushAllPages\<close> leaves in the file.\<close>

lemma read_rel:
  assumes "pool_rel R hash n (b, G) s" "pv_contents s p = Some dt"
  shows "pool_read ops hash p b = Some (if fetchable n p s then Some dt else None)"
proof -
  obtain pt fl rq where r: "pool_size b = n" "pool_inv R hash {} b pt fl rq" "view_rel b pt G s" using assms(1) by (rule pool_relE)
  have p: "p < disk_next_page_id (pool_disk b)" "pool_contents b pt p = dt" using view_relD(1) [OF r(3)] view_relD(4,5) [OF r(3), of p] assms(2) by auto
  note ft = fetchable_iff [OF r(2,3,1), of p]
  from r(2) p(1) show ?thesis
  proof (cases rule: FetchPage_rel)
    case (none b')
    then show ?thesis using ft by (simp add: pool_read_def)
  next
    case (some f b' pt' fl' rq')
    have "page_data (pool_pages b' ! f) = dt" using some(4) same_viewD(3) [OF some(5) p(1)] p(2) by (simp add: page_contents_def)
    moreover have "get_page f b' = Some (pool_pages b' ! f)" using flushed_rel(4) [OF some(3), of p f] map_of_SomeD [OF some(4)] by simp
    ultimately show ?thesis using some(1,2) ft by (simp add: pool_read_def)
  qed
qed

lemma flush_all_rel:
  assumes "pool_rel R hash n (b, G) s" "pv_contents s p = Some dt"
  shows "\<exists>b'. bpm_FlushAllPages b = Some b' \<and> ReadPage (int p) (replicate PAGE_SIZE 0) (pool_disk b') = Some (None, dt)"
proof -
  obtain pt fl rq where r: "pool_size b = n" "pool_inv R hash {} b pt fl rq" "view_rel b pt G s" using assms(1) by (rule pool_relE)
  have p: "p < disk_next_page_id (pool_disk b)" "pool_contents b pt p = dt" using view_relD(1) [OF r(3)] view_relD(4,5) [OF r(3), of p] assms(2) by auto
  obtain b' where b': "bpm_FlushAllPages b = Some b'" "pool_inv R hash {} b' pt fl rq" "same_view b pt b' pt (pins_of pt (pool_pages b))"
    "disk_page p (db_io (pool_disk b')) = dt" using FlushAllPages_rel [OF r(2)] p by blast
  have "on_disk p (db_io (pool_disk b'))" "p < 65536"
    using pool_invD(6) [OF b'(2)] p(1) same_viewD(2) [OF b'(3)] by (auto simp: disk_ok_def)
  then show ?thesis using ReadPage_ok [of p "pool_disk b'" "replicate PAGE_SIZE 0"] b'(1,4) by simp
qed

text \<open>\<^verbatim>\<open>FetchPage\<close> returns a null pointer only when every frame holds a pinned page.\<close>

lemma fetch_progress:
  assumes "pool_rel R hash n (b, G) s" "p \<in> G"
  shows "map_option (\<lambda>(res, b'). res \<noteq> Inr None) (bpm_FetchPage ops hash (int p) b) = Some (fetchable n p s)"
proof -
  obtain pt fl rq where r: "pool_size b = n" "pool_inv R hash {} b pt fl rq" "view_rel b pt G s" using assms(1) by (rule pool_relE)
  have p: "p < disk_next_page_id (pool_disk b)" using view_relD(4) [OF r(3) assms(2)] .
  note ft = fetchable_iff [OF r(2,3,1), of p]
  from r(2) p show ?thesis by (cases rule: FetchPage_rel) (use ft in simp_all)
qed

end

interpretation lru_pool: buffer_pool "lru_ops h" "lru_rel h" hash n "LRUReplacer_new n"
  for h :: "nat \<Rightarrow> nat" and hash :: "int \<Rightarrow> nat" and n :: nat
  by unfold_locales (rule lru_rel_new)

end
