(* ===== verification/EngineTheorems.thy ===== *)
theory EngineTheorems
  imports BufferPoolRefinement
begin

text \<open>
  The properties of the storage engine below the B+ tree: the page file, the two containers, the
  replacer and the buffer pool. They rest on the interpretations of \<open>ordered_map\<close>, \<open>sequence\<close>,
  \<open>replacer\<close> and \<open>buffer_pool\<close> on the models of the code.
\<close>

section \<open>The buffer pool\<close>

text \<open>
  C13. What a client reads is what it wrote: after any sequence of calls on a pool of \<open>n\<close> frames that
  started empty, a read of a page that the client owns returns the contents that were written
  last, through all evictions and reloads, provided that some frame can take the page.
\<close>

theorem pool_reads_last_write:
  assumes "pv_contents (fold (pool_spec n) xs empty_view) p = Some d" "fetchable n p (fold (pool_spec n) xs empty_view)"
  shows "Option.bind (run_pool (lru_ops h) hash n (LRUReplacer_new n) xs) (\<lambda>(b, G). pool_read (lru_ops h) hash p b) = Some (Some d)"
  using lru_pool.run_pool_rel [of h hash n xs] lru_pool.read_rel [of h hash n _ _ _ p d] assms by fastforce

theorem pool_reads_last_write_witness:
  "Option.bind (run_pool (lru_ops (\<lambda>f. f)) nat 1 (LRUReplacer_new 1)
       [Pool_new, Pool_release 0, Pool_new, Pool_release 1, Pool_modify 0 (replicate PAGE_SIZE 7), Pool_modify 1 (replicate PAGE_SIZE 8)])
     (\<lambda>(b, G). pool_read (lru_ops (\<lambda>f. f)) nat 0 b) = Some (Some (replicate PAGE_SIZE 7))"
  by (rule pool_reads_last_write) (simp_all add: empty_view_def pinned_pages_def fetchable_def)

text \<open>
  C14. Nothing is lost at the end: after any sequence of calls and \<^verbatim>\<open>FlushAllPages\<close>, the file holds the
  last contents of every page that the client owns.
\<close>

theorem flush_all_persists:
  assumes "pv_contents (fold (pool_spec n) xs empty_view) p = Some d"
  shows "Option.bind (run_pool (lru_ops h) hash n (LRUReplacer_new n) xs)
      (\<lambda>(b, G). Option.bind (bpm_FlushAllPages b) (\<lambda>b'. ReadPage (int p) (replicate PAGE_SIZE 0) (pool_disk b'))) = Some (None, d)"
  using lru_pool.run_pool_rel [of h hash n xs] lru_pool.flush_all_rel [of h hash n _ _ _ p d] assms by fastforce

theorem flush_all_persists_witness:
  "Option.bind (run_pool (lru_ops (\<lambda>f. f)) nat 2 (LRUReplacer_new 2) [Pool_new, Pool_modify 0 (replicate PAGE_SIZE 7)])
      (\<lambda>(b, G). Option.bind (bpm_FlushAllPages b) (\<lambda>b'. ReadPage (int 0) (replicate PAGE_SIZE 0) (pool_disk b'))) =
     Some (None, replicate PAGE_SIZE 7)"
  by (rule flush_all_persists) (simp add: empty_view_def pinned_pages_def fetchable_def)

text \<open>
  C15. \<^verbatim>\<open>FetchPage\<close> of a page that the client owns returns a null pointer exactly when the page is not
  pinned and all frames hold pinned pages.
\<close>

theorem fetch_fails_iff_all_pinned:
  assumes "p \<in> dom (pv_contents (fold (pool_spec n) xs empty_view))"
  shows "Option.bind (run_pool (lru_ops h) hash n (LRUReplacer_new n) xs)
      (\<lambda>(b, G). map_option (\<lambda>(res, b'). res \<noteq> Inr None) (bpm_FetchPage (lru_ops h) hash (int p) b)) =
     Some (fetchable n p (fold (pool_spec n) xs empty_view))"
proof -
  obtain b G where r: "run_pool (lru_ops h) hash n (LRUReplacer_new n) xs = Some (b, G)"
    "pool_rel (lru_rel h) hash n (b, G) (fold (pool_spec n) xs empty_view)" using lru_pool.run_pool_rel by blast
  have "p \<in> G" using r(2) assms by (auto elim!: pool_relE dest!: view_relD(1))
  from lru_pool.fetch_progress [OF r(2) this] show ?thesis using r(1) by simp
qed

theorem fetch_fails_iff_all_pinned_witness:
  "Option.bind (run_pool (lru_ops (\<lambda>f. f)) nat 1 (LRUReplacer_new 1) [Pool_new, Pool_release 0, Pool_new])
      (\<lambda>(b, G). map_option (\<lambda>(res, b'). res \<noteq> Inr None) (bpm_FetchPage (lru_ops (\<lambda>f. f)) nat (int 0) b)) = Some False"
  using fetch_fails_iff_all_pinned [of 0 1 "[Pool_new, Pool_release 0, Pool_new]" "\<lambda>f. f" nat]
  by (simp add: empty_view_def pinned_pages_def fetchable_def)

section \<open>The replacer\<close>

text \<open>
  C31. After any sequence of calls, \<^verbatim>\<open>Victim\<close> of \<^verbatim>\<open>LRUReplacer\<close> gives the frame that was unpinned first
  among those that are unpinned, and false when there is none.
\<close>

theorem lru_victim_is_oldest:
  "Option.bind (run_calls (lru_exec hash) xs (LRUReplacer_new n)) (\<lambda>r. map_option fst (LRU_Victim hash r)) =
     Some (case fold (lru_spec n) xs [] of [] \<Rightarrow> None | f # fs \<Rightarrow> Some f)"
proof -
  obtain r where "run_calls (lru_exec hash) xs (LRUReplacer_new n) = Some r" "lru_rel hash n r (fold (lru_spec n) xs [])"
    using lru_run.run_spec [OF lru_rel_new] by blast
  then show ?thesis using LRU_Victim_none [of hash n r] LRU_Victim_some [of hash n r] by (fastforce split: list.split)
qed

section \<open>The containers\<close>

text \<open>
  C32. \<^verbatim>\<open>linked_hashmap\<close> refines an association list in insertion order: after any sequence of
  operations, a walk from \<^verbatim>\<open>begin()\<close> to \<^verbatim>\<open>end()\<close> shows the entries of the list, in its order.
\<close>

theorem linked_hashmap_refines_alist:
  "Option.bind (run_calls (lhm_exec hash d) xs lhm_new) lhm_items = Some (fold map_spec xs [])"
  by (rule lhm.items_run)

text \<open>
  After any sequence of operations, \<^verbatim>\<open>at(key)\<close> returns the value of the key, or throws.
\<close>

theorem linked_hashmap_at:
  "Option.bind (run_calls (lhm_exec hash d) xs lhm_new) (lhm_at hash k) =
     Some (case map_of (fold map_spec xs []) k of None \<Rightarrow> Inl index_out_of_bound | Some v \<Rightarrow> Inr v)"
proof -
  obtain mp where "run_calls (lhm_exec hash d) xs lhm_new = Some mp" "lhm_rel hash mp (fold map_spec xs [])"
    using lhm.run_spec [OF new_map_rep [of hash], of d xs] by blast
  then show ?thesis using lhm_at_rel [of hash mp "fold map_spec xs []" k] by simp
qed

text \<open>
  The load factor of the table stays at most 1: no operation leaves more nodes than slots.
\<close>

theorem linked_hashmap_load:
  "map_option (\<lambda>mp. hm_sum mp \<le> hm_capacity mp) (run_calls (lhm_exec hash d) xs lhm_new) = Some True"
proof -
  obtain mp where "run_calls (lhm_exec hash d) xs lhm_new = Some mp" "lhm_rel hash mp (fold map_spec xs [])"
    using lhm.run_spec [OF new_map_rep [of hash], of d xs] by blast
  then show ?thesis using lhm_rel_sum(2) by auto
qed

text \<open>
  C33. \<^verbatim>\<open>thomas::vector\<close> does what \<open>seq_call\<close> says, for any sequence of its operations: the elements that
  \<^verbatim>\<open>at(i)\<close> shows for the indices below \<^verbatim>\<open>size()\<close> are those of the list, whatever was moved when the block
  was doubled, the same calls throw the same exceptions, and a sequence has no defined result exactly
  when one of its calls has none: an insertion or removal at an iterator to no element, except an
  insertion at \<^verbatim>\<open>end()\<close> of a block with room, and the index 0 of the versions with an index, which put
  or remove the element one place to the left of the index.
\<close>

theorem vector_refines_list:
  "map_option (\<lambda>(v, thrown). (map (\<lambda>i. vec_elem i v) [0..<vec_size v], thrown))
     (run_calls (logged vec_call) ops (vec_new t, [])) =
   map_option (\<lambda>((c, xs), thrown). (map Some xs, thrown)) (run_calls (logged seq_call) ops ((32, []), []))"
  by (rule vec.elements_run)

section \<open>The page file\<close>

text \<open>
  A page that was written is read back, also after other pages were written, for the page
  numbers below 65536.
\<close>

theorem page_file_round_trip:
  assumes "length d = PAGE_SIZE" "length d' = PAGE_SIZE" "p < 65536" "q \<noteq> p" "length buf = PAGE_SIZE"
  shows "do { dm1 \<leftarrow> WritePage (int p) d dm; dm2 \<leftarrow> WritePage (int q) d' dm1; ReadPage (int p) buf dm2 } = Some (None, d)"
proof -
  have "on_disk p (write_at (p * PAGE_SIZE) d (db_io dm))" using assms(1) by (simp add: on_disk_write)
  then have "ReadPage (int p) buf (write_disk q d' (write_disk p d dm)) = Some (None, d)"
    using assms ReadPage_ok [of p "write_disk q d' (write_disk p d dm)" buf]
    by (simp add: write_disk_def on_disk_write disk_page_write_other disk_page_write_same)
  then show ?thesis by (simp add: WritePage_eq)
qed

theorem page_file_round_trip_witness:
  "do { dm1 \<leftarrow> WritePage (int 3) (replicate PAGE_SIZE 7) DiskManager_new;
        dm2 \<leftarrow> WritePage (int 0) (replicate PAGE_SIZE 8) dm1;
        ReadPage (int 3) (replicate PAGE_SIZE 0) dm2 } = Some (None, replicate PAGE_SIZE 7)"
  by (rule page_file_round_trip) simp_all

end
