(* ===== verification/RedBlackMap.thy ===== *)
theory RedBlackMap
  imports Prelude
begin

text \<open>
  \<^verbatim>\<open>sjtu::map\<close> of \<^verbatim>\<open>backend/libs/map.hpp\<close>: a red-black tree with parent pointers whose insertion and
  removal work in one pass from the root down. The service keeps its login pool in it.

  The pointers of the source are modelled: the fields of the nodes are functions of the address,
  \<open>rb_live\<close> says which addresses are allocated, and an access through a null or dead pointer has
  no result. Addresses are not reused. \<^verbatim>\<open>Compare\<close> is \<^verbatim>\<open>std::less\<close>, the order of the key type. The
  arguments that the source passes by reference are returned.
\<close>

section \<open>Nodes\<close>

datatype rb_color = RED | BLACK

type_synonym rb_ptr = "nat option"

record ('k, 'v) rb_map =
  rb_live :: "nat \<Rightarrow> bool"
  rb_data :: "nat \<Rightarrow> ('k \<times> 'v) option"
  rb_left :: "nat \<Rightarrow> rb_ptr"
  rb_right :: "nat \<Rightarrow> rb_ptr"
  rb_fa :: "nat \<Rightarrow> rb_ptr"
  rb_color :: "nat \<Rightarrow> rb_color"
  rb_root :: rb_ptr
  rb_end :: rb_ptr
  rb_head :: rb_ptr
  rb_rear :: rb_ptr
  rb_len :: int
  rb_fresh :: nat

text \<open>\<^verbatim>\<open>p->field\<close>, \<^verbatim>\<open>p->field = x\<close> and \<^verbatim>\<open>p->data->first\<close>.\<close>

definition rb_get :: "(('k, 'v) rb_map \<Rightarrow> nat \<Rightarrow> 'x) \<Rightarrow> rb_ptr \<Rightarrow> ('k, 'v) rb_map \<Rightarrow> 'x option" where
  "rb_get field p s = (case p of None \<Rightarrow> None | Some a \<Rightarrow> if rb_live s a then Some (field s a) else None)"

definition rb_set ::
    "(nat \<Rightarrow> ('k, 'v) rb_map \<Rightarrow> ('k, 'v) rb_map) \<Rightarrow> rb_ptr \<Rightarrow> ('k, 'v) rb_map \<Rightarrow> ('k, 'v) rb_map option" where
  "rb_set write p s = (case p of None \<Rightarrow> None | Some a \<Rightarrow> if rb_live s a then Some (write a s) else None)"

definition set_left :: "rb_ptr \<Rightarrow> rb_ptr \<Rightarrow> ('k, 'v) rb_map \<Rightarrow> ('k, 'v) rb_map option" where
  "set_left p x = rb_set (\<lambda>a s. s\<lparr>rb_left := (rb_left s)(a := x)\<rparr>) p"

definition set_right :: "rb_ptr \<Rightarrow> rb_ptr \<Rightarrow> ('k, 'v) rb_map \<Rightarrow> ('k, 'v) rb_map option" where
  "set_right p x = rb_set (\<lambda>a s. s\<lparr>rb_right := (rb_right s)(a := x)\<rparr>) p"

definition set_fa :: "rb_ptr \<Rightarrow> rb_ptr \<Rightarrow> ('k, 'v) rb_map \<Rightarrow> ('k, 'v) rb_map option" where
  "set_fa p x = rb_set (\<lambda>a s. s\<lparr>rb_fa := (rb_fa s)(a := x)\<rparr>) p"

definition set_color :: "rb_ptr \<Rightarrow> rb_color \<Rightarrow> ('k, 'v) rb_map \<Rightarrow> ('k, 'v) rb_map option" where
  "set_color p c = rb_set (\<lambda>a s. s\<lparr>rb_color := (rb_color s)(a := c)\<rparr>) p"

definition rb_item :: "rb_ptr \<Rightarrow> ('k, 'v) rb_map \<Rightarrow> ('k \<times> 'v) option" where
  "rb_item p s = do { d \<leftarrow> rb_get rb_data p s; d }"

definition rb_key :: "rb_ptr \<Rightarrow> ('k, 'v) rb_map \<Rightarrow> 'k option" where
  "rb_key p s = map_option fst (rb_item p s)"

text \<open>\<^verbatim>\<open>p && p->color == RED\<close>, and \<^verbatim>\<open>p && p->color == BLACK || p == nullptr\<close>.\<close>

definition is_red :: "rb_ptr \<Rightarrow> ('k, 'v) rb_map \<Rightarrow> bool option" where
  "is_red p s = (case p of None \<Rightarrow> Some False | Some a \<Rightarrow> map_option (\<lambda>c. c = RED) (rb_get rb_color p s))"

definition black_or_null :: "rb_ptr \<Rightarrow> ('k, 'v) rb_map \<Rightarrow> bool option" where
  "black_or_null p s = (case p of None \<Rightarrow> Some True | Some a \<Rightarrow> map_option (\<lambda>c. c = BLACK) (rb_get rb_color p s))"

text \<open>\<^verbatim>\<open>if (p) p->fa = x\<close>, and the relinking of a parent: \<^verbatim>\<open>if (f) { if (f->left == old) f->left = new; else f->right = new; }\<close>\<close>

definition set_fa_if :: "rb_ptr \<Rightarrow> rb_ptr \<Rightarrow> ('k, 'v) rb_map \<Rightarrow> ('k, 'v) rb_map option" where
  "set_fa_if p x s = (if p = None then Some s else set_fa p x s)"

definition relink :: "rb_ptr \<Rightarrow> rb_ptr \<Rightarrow> rb_ptr \<Rightarrow> ('k, 'v) rb_map \<Rightarrow> ('k, 'v) rb_map option" where
  "relink f old new s =
     (if f = None then Some s
      else do { l \<leftarrow> rb_get rb_left f s; if l = old then set_left f new s else set_right f new s })"

definition new_NODE :: "('k \<times> 'v) option \<Rightarrow> rb_color \<Rightarrow> rb_ptr \<Rightarrow> ('k, 'v) rb_map \<Rightarrow> rb_ptr \<times> ('k, 'v) rb_map" where
  "new_NODE x c f s =
     (let a = rb_fresh s
      in (Some a, s\<lparr>rb_live := (rb_live s)(a := True), rb_data := (rb_data s)(a := x),
                    rb_left := (rb_left s)(a := None), rb_right := (rb_right s)(a := None),
                    rb_fa := (rb_fa s)(a := f), rb_color := (rb_color s)(a := c), rb_fresh := Suc a\<rparr>))"

definition delete_NODE :: "rb_ptr \<Rightarrow> ('k, 'v) rb_map \<Rightarrow> ('k, 'v) rb_map option" where
  "delete_NODE = rb_set (\<lambda>a s. s\<lparr>rb_live := (rb_live s)(a := False), rb_data := (rb_data s)(a := None)\<rparr>)"

section \<open>Rotations\<close>

text \<open>\<^verbatim>\<open>while (root->fa) root = root->fa;\<close>\<close>

partial_function (option) raise_root :: "('k, 'v) rb_map \<Rightarrow> ('k, 'v) rb_map option" where
  "raise_root s =
     do { f \<leftarrow> rb_get rb_fa (rb_root s) s;
          if f = None then Some s else raise_root (s\<lparr>rb_root := f\<rparr>) }"

definition rb_LL :: "rb_ptr \<Rightarrow> ('k, 'v) rb_map \<Rightarrow> ('k, 'v) rb_map option" where
  "rb_LL gp s =
     do { p \<leftarrow> rb_get rb_left gp s; gp_fa \<leftarrow> rb_get rb_fa gp s;
          s \<leftarrow> relink gp_fa gp p s;
          s \<leftarrow> set_fa p gp_fa s;
          pr \<leftarrow> rb_get rb_right p s; s \<leftarrow> set_left gp pr s;
          s \<leftarrow> set_fa_if pr gp s;
          s \<leftarrow> set_right p gp s; s \<leftarrow> set_fa gp p s;
          s \<leftarrow> set_color gp RED s; s \<leftarrow> set_color p BLACK s;
          raise_root s }"

definition rb_RR :: "rb_ptr \<Rightarrow> ('k, 'v) rb_map \<Rightarrow> ('k, 'v) rb_map option" where
  "rb_RR gp s =
     do { p \<leftarrow> rb_get rb_right gp s; gp_fa \<leftarrow> rb_get rb_fa gp s;
          s \<leftarrow> relink gp_fa gp p s;
          s \<leftarrow> set_fa p gp_fa s;
          pl \<leftarrow> rb_get rb_left p s; s \<leftarrow> set_right gp pl s;
          s \<leftarrow> set_fa_if pl gp s;
          s \<leftarrow> set_left p gp s; s \<leftarrow> set_fa gp p s;
          s \<leftarrow> set_color gp RED s; s \<leftarrow> set_color p BLACK s;
          raise_root s }"

definition rb_LR :: "rb_ptr \<Rightarrow> ('k, 'v) rb_map \<Rightarrow> ('k, 'v) rb_map option" where
  "rb_LR gp s =
     do { p \<leftarrow> rb_get rb_left gp s; t \<leftarrow> rb_get rb_right p s; gp_fa \<leftarrow> rb_get rb_fa gp s;
          s \<leftarrow> relink gp_fa gp t s;
          s \<leftarrow> set_fa t gp_fa s;
          tr \<leftarrow> rb_get rb_right t s; s \<leftarrow> set_left gp tr s;
          s \<leftarrow> set_fa_if tr gp s;
          tl \<leftarrow> rb_get rb_left t s; s \<leftarrow> set_right p tl s;
          s \<leftarrow> set_fa_if tl p s;
          s \<leftarrow> set_left t p s; s \<leftarrow> set_fa p t s;
          s \<leftarrow> set_right t gp s; s \<leftarrow> set_fa gp t s;
          s \<leftarrow> set_color gp RED s; s \<leftarrow> set_color t BLACK s;
          raise_root s }"

definition rb_RL :: "rb_ptr \<Rightarrow> ('k, 'v) rb_map \<Rightarrow> ('k, 'v) rb_map option" where
  "rb_RL gp s =
     do { p \<leftarrow> rb_get rb_right gp s; t \<leftarrow> rb_get rb_left p s; gp_fa \<leftarrow> rb_get rb_fa gp s;
          s \<leftarrow> relink gp_fa gp t s;
          s \<leftarrow> set_fa t gp_fa s;
          tl \<leftarrow> rb_get rb_left t s; s \<leftarrow> set_right gp tl s;
          s \<leftarrow> set_fa_if tl gp s;
          tr \<leftarrow> rb_get rb_right t s; s \<leftarrow> set_left p tr s;
          s \<leftarrow> set_fa_if tr p s;
          s \<leftarrow> set_right t p s; s \<leftarrow> set_fa p t s;
          s \<leftarrow> set_left t gp s; s \<leftarrow> set_fa gp t s;
          s \<leftarrow> set_color gp RED s; s \<leftarrow> set_color t BLACK s;
          raise_root s }"

section \<open>Searching\<close>

definition rb_equal :: "'k::linorder \<Rightarrow> 'k \<Rightarrow> bool" where
  "rb_equal a b \<longleftrightarrow> \<not> (a < b \<or> b < a)"

partial_function (option) leftmost :: "rb_ptr \<Rightarrow> ('k, 'v) rb_map \<Rightarrow> rb_ptr option" where
  "leftmost t s = do { l \<leftarrow> rb_get rb_left t s; if l = None then Some t else leftmost l s }"

partial_function (option) rightmost :: "rb_ptr \<Rightarrow> ('k, 'v) rb_map \<Rightarrow> rb_ptr option" where
  "rightmost t s = do { r \<leftarrow> rb_get rb_right t s; if r = None then Some t else rightmost r s }"

definition rb_front :: "('k, 'v) rb_map \<Rightarrow> rb_ptr option" where
  "rb_front s = (if rb_root s = None then Some None else leftmost (rb_root s) s)"

definition rb_back :: "('k, 'v) rb_map \<Rightarrow> rb_ptr option" where
  "rb_back s = (if rb_root s = None then Some None else rightmost (rb_root s) s)"

definition child_for :: "'k::linorder \<Rightarrow> rb_ptr \<Rightarrow> ('k, 'v) rb_map \<Rightarrow> rb_ptr option" where
  "child_for x t s = do { k \<leftarrow> rb_key t s; if x < k then rb_get rb_left t s else rb_get rb_right t s }"

partial_function (option) find_loop :: "'k::linorder \<Rightarrow> rb_ptr \<Rightarrow> ('k, 'v) rb_map \<Rightarrow> rb_ptr option" where
  "find_loop x t s =
     (if t = None then Some None
      else do {
        k \<leftarrow> rb_key t s;
        if rb_equal k x then Some t
        else do { t' \<leftarrow> child_for x t s; find_loop x t' s } })"

definition rb_find :: "'k::linorder \<Rightarrow> ('k, 'v) rb_map \<Rightarrow> rb_ptr option" where
  "rb_find x s = find_loop x (rb_root s) s"

text \<open>\<^verbatim>\<open>head = front(); rear = back();\<close>\<close>

definition set_ends :: "('k, 'v) rb_map \<Rightarrow> ('k, 'v) rb_map option" where
  "set_ends s = do { h \<leftarrow> rb_front s; r \<leftarrow> rb_back s; Some (s\<lparr>rb_head := h, rb_rear := r\<rparr>) }"

section \<open>Insertion\<close>

definition insert_adjust :: "rb_ptr \<Rightarrow> rb_ptr \<Rightarrow> rb_ptr \<Rightarrow> ('k, 'v) rb_map \<Rightarrow> ('k, 'v) rb_map option" where
  "insert_adjust gp p t s =
     do { c \<leftarrow> rb_get rb_color p s;
          if c = BLACK then Some s
          else if p = rb_root s then set_color p BLACK s
          else do {
            gl \<leftarrow> rb_get rb_left gp s;
            if gl = p then do {
              pl \<leftarrow> rb_get rb_left p s;
              if pl = t then rb_LL gp s else rb_LR gp s }
            else do {
              pr \<leftarrow> rb_get rb_right p s;
              if pr = t then rb_RR gp s else rb_RL gp s } } }"

text \<open>A node with two red children is repainted.\<close>

definition flip_colors :: "rb_ptr \<Rightarrow> rb_ptr \<Rightarrow> rb_ptr \<Rightarrow> ('k, 'v) rb_map \<Rightarrow> ('k, 'v) rb_map option" where
  "flip_colors gp p t s =
     do { l \<leftarrow> rb_get rb_left t s; lr \<leftarrow> is_red l s;
          r \<leftarrow> rb_get rb_right t s; rr \<leftarrow> is_red r s;
          if lr \<and> rr then do {
            s \<leftarrow> set_color r BLACK s; s \<leftarrow> set_color l BLACK s;
            s \<leftarrow> set_color t RED s;
            insert_adjust gp p t s }
          else Some s }"

partial_function (option) insert_loop ::
    "'k::linorder \<times> 'v \<Rightarrow> rb_ptr \<Rightarrow> rb_ptr \<Rightarrow> rb_ptr \<Rightarrow> ('k, 'v) rb_map \<Rightarrow> ('k, 'v) rb_map option" where
  "insert_loop x gp p t s =
     (if t \<noteq> None then do {
        s \<leftarrow> flip_colors gp p t s;
        t' \<leftarrow> child_for (fst x) t s;
        insert_loop x p t t' s }
      else do {
        let (n, s) = new_NODE (Some x) RED p s;
        let s = s\<lparr>rb_len := rb_len s + 1\<rparr>;
        k \<leftarrow> rb_key p s;
        s \<leftarrow> (if fst x < k then set_left p n s else set_right p n s);
        s \<leftarrow> insert_adjust gp p n s;
        s \<leftarrow> set_color (rb_root s) BLACK s;
        set_ends s })"

definition rb_insert :: "'k::linorder \<times> 'v \<Rightarrow> ('k, 'v) rb_map \<Rightarrow> ('k, 'v) rb_map option" where
  "rb_insert x s =
     (if rb_root s = None then
        let (n, s) = new_NODE (Some x) BLACK None s
        in Some (s\<lparr>rb_root := n, rb_head := n, rb_rear := n, rb_len := rb_len s + 1\<rparr>)
      else insert_loop x (rb_root s) (rb_root s) (rb_root s) s)"

section \<open>Removal\<close>

text \<open>
  \<^verbatim>\<open>remove_adjust\<close> returns the new values of \<^verbatim>\<open>p\<close>, \<^verbatim>\<open>t\<close> and \<^verbatim>\<open>t2\<close>, which it takes by reference. Its cases
  have a definition each: a black node with black children (1.1, 1.2), the node to be removed with a
  red child (2.1), another node with a red child (2.2).
\<close>

type_synonym ('k, 'v) rb_cursor = "rb_ptr \<times> rb_ptr \<times> rb_ptr \<times> ('k, 'v) rb_map"

definition black_kids :: "rb_ptr \<Rightarrow> ('k, 'v) rb_map \<Rightarrow> bool option" where
  "black_kids t s =
     do { l \<leftarrow> rb_get rb_left t s; lb \<leftarrow> black_or_null l s;
          if \<not> lb then Some False else do { r \<leftarrow> rb_get rb_right t s; black_or_null r s } }"

definition adjust_black :: "rb_ptr \<Rightarrow> rb_ptr \<Rightarrow> rb_ptr \<Rightarrow> ('k, 'v) rb_map \<Rightarrow> ('k, 'v) rb_cursor option" where
  "adjust_black p t t2 s =
     do { b \<leftarrow> black_kids t2 s;
          if b then do {
            s \<leftarrow> set_color p BLACK s;
            s \<leftarrow> set_color t2 RED s; s \<leftarrow> set_color t RED s;
            Some (p, t, t2, s) }
          else do {
            pl \<leftarrow> rb_get rb_left p s;
            if pl = t2 then do {
              l \<leftarrow> rb_get rb_left t2 s; lr \<leftarrow> is_red l s;
              if lr then do {
                s \<leftarrow> rb_LL p s;
                s \<leftarrow> set_color t2 RED s; s \<leftarrow> set_color t RED s;
                s \<leftarrow> set_color p BLACK s; l2 \<leftarrow> rb_get rb_left t2 s; s \<leftarrow> set_color l2 BLACK s;
                t2' \<leftarrow> rb_get rb_left p s; Some (p, t, t2', s) }
              else do {
                s \<leftarrow> rb_LR p s;
                s \<leftarrow> set_color t RED s; pf \<leftarrow> rb_get rb_fa p s; s \<leftarrow> set_color pf RED s;
                s \<leftarrow> set_color t2 BLACK s; s \<leftarrow> set_color p BLACK s;
                t2' \<leftarrow> rb_get rb_left p s; Some (p, t, t2', s) } }
            else do {
              r \<leftarrow> rb_get rb_right t2 s; rr \<leftarrow> is_red r s;
              if rr then do {
                s \<leftarrow> rb_RR p s;
                s \<leftarrow> set_color t2 RED s; s \<leftarrow> set_color t RED s;
                s \<leftarrow> set_color p BLACK s; r2 \<leftarrow> rb_get rb_right t2 s; s \<leftarrow> set_color r2 BLACK s;
                t2' \<leftarrow> rb_get rb_right p s; Some (p, t, t2', s) }
              else do {
                s \<leftarrow> rb_RL p s;
                s \<leftarrow> set_color t RED s; pf \<leftarrow> rb_get rb_fa p s; s \<leftarrow> set_color pf RED s;
                s \<leftarrow> set_color t2 BLACK s; s \<leftarrow> set_color p BLACK s;
                t2' \<leftarrow> rb_get rb_right p s; Some (p, t, t2', s) } } } }"

definition adjust_found :: "rb_ptr \<Rightarrow> rb_ptr \<Rightarrow> rb_ptr \<Rightarrow> ('k, 'v) rb_map \<Rightarrow> ('k, 'v) rb_cursor option" where
  "adjust_found p t t2 s =
     do { l \<leftarrow> rb_get rb_left t s; r \<leftarrow> rb_get rb_right t s;
          if l \<noteq> None \<and> r \<noteq> None then do {
            rc \<leftarrow> rb_get rb_color r s;
            if rc = BLACK then do {
              s \<leftarrow> rb_LL t s;
              s \<leftarrow> set_color t RED s; tf \<leftarrow> rb_get rb_fa t s; s \<leftarrow> set_color tf BLACK s;
              t2' \<leftarrow> rb_get rb_left tf s; Some (tf, t, t2', s) }
            else Some (p, t, t2, s) }
          else if l \<noteq> None then do {
            s \<leftarrow> rb_LL t s;
            s \<leftarrow> set_color t RED s; tf \<leftarrow> rb_get rb_fa t s; s \<leftarrow> set_color tf BLACK s;
            t2' \<leftarrow> rb_get rb_left tf s; Some (tf, t, t2', s) }
          else do {
            s \<leftarrow> rb_RR t s;
            s \<leftarrow> set_color t RED s; tf \<leftarrow> rb_get rb_fa t s; s \<leftarrow> set_color tf BLACK s;
            t2' \<leftarrow> rb_get rb_right tf s; Some (tf, t, t2', s) } }"

text \<open>\<^verbatim>\<open>t2 = (t == p->left) ? p->right : p->left;\<close>\<close>

definition sibling :: "rb_ptr \<Rightarrow> rb_ptr \<Rightarrow> ('k, 'v) rb_map \<Rightarrow> rb_ptr option" where
  "sibling p t s = do { l \<leftarrow> rb_get rb_left p s; if t = l then rb_get rb_right p s else Some l }"

partial_function (option) remove_adjust ::
    "'k::linorder \<Rightarrow> rb_ptr \<Rightarrow> rb_ptr \<Rightarrow> rb_ptr \<Rightarrow> ('k, 'v) rb_map \<Rightarrow> ('k, 'v) rb_cursor option" where
  "remove_adjust del p t t2 s =
     do { c \<leftarrow> rb_get rb_color t s;
          if c = RED then Some (p, t, t2, s)
          else do {
            l \<leftarrow> rb_get rb_left t s; r \<leftarrow> rb_get rb_right t s;
            same \<leftarrow> (if t = rb_root s \<and> l \<noteq> None \<and> r \<noteq> None
                     then do { lc \<leftarrow> rb_get rb_color l s; rc \<leftarrow> rb_get rb_color r s; Some (lc = rc) }
                     else Some False);
            if same then do {
              s \<leftarrow> set_color t RED s; s \<leftarrow> set_color r BLACK s; s \<leftarrow> set_color l BLACK s;
              Some (p, t, t2, s) }
            else do {
              b \<leftarrow> black_kids t s;
              if b then adjust_black p t t2 s
              else do {
                k \<leftarrow> rb_key t s;
                if rb_equal k del then adjust_found p t t2 s
                else do {
                  let p = t;
                  t \<leftarrow> child_for del p s;
                  t2 \<leftarrow> sibling p t s;
                  tc \<leftarrow> rb_get rb_color t s;
                  if tc = BLACK then do {
                    pr \<leftarrow> rb_get rb_right p s;
                    s \<leftarrow> (if t2 = pr then rb_RR p s else rb_LL p s);
                    s \<leftarrow> set_color p RED s; s \<leftarrow> set_color t2 BLACK s;
                    let t = p; let p = t2;
                    t2 \<leftarrow> sibling p t s;
                    remove_adjust del p t t2 s }
                  else Some (p, t, t2, s) } } } } }"

text \<open>The node \<^verbatim>\<open>t\<close> changes places with \<^verbatim>\<open>rep\<close>, the first node of its right subtree.\<close>

definition swap_nodes :: "rb_ptr \<Rightarrow> rb_ptr \<Rightarrow> ('k, 'v) rb_map \<Rightarrow> ('k, 'v) rb_map option" where
  "swap_nodes t rep s =
     do { rc \<leftarrow> rb_get rb_color rep s; tc \<leftarrow> rb_get rb_color t s;
          s \<leftarrow> set_color rep tc s; s \<leftarrow> set_color t rc s;
          t_fa \<leftarrow> rb_get rb_fa t s; rep_fa \<leftarrow> rb_get rb_fa rep s;
          s \<leftarrow> relink t_fa t rep s;
          s \<leftarrow> set_fa rep t_fa s;
          s \<leftarrow> (if rep_fa = t then do {
                 tmp \<leftarrow> rb_get rb_left t s;
                 rl \<leftarrow> rb_get rb_left rep s; s \<leftarrow> set_left t rl s;
                 s \<leftarrow> set_fa_if rl t s;
                 rr \<leftarrow> rb_get rb_right rep s; s \<leftarrow> set_right t rr s;
                 s \<leftarrow> set_fa_if rr t s;
                 s \<leftarrow> set_left rep tmp s; s \<leftarrow> set_fa tmp rep s;
                 s \<leftarrow> set_right rep t s; set_fa t rep s }
               else do {
                 s \<leftarrow> set_left rep_fa t s; s \<leftarrow> set_fa t rep_fa s;
                 rep_rs \<leftarrow> rb_get rb_right rep s;
                 tl \<leftarrow> rb_get rb_left t s; s \<leftarrow> set_left rep tl s; s \<leftarrow> set_fa tl rep s;
                 tr \<leftarrow> rb_get rb_right t s; s \<leftarrow> set_right rep tr s; s \<leftarrow> set_fa tr rep s;
                 s \<leftarrow> set_left t None s; s \<leftarrow> set_right t rep_rs s;
                 set_fa_if rep_rs t s });
          Some (if t = rb_root s then s\<lparr>rb_root := rep\<rparr> else s) }"

text \<open>The removal of a node without two children.\<close>

definition unlink_node :: "rb_ptr \<Rightarrow> rb_ptr \<Rightarrow> ('k, 'v) rb_map \<Rightarrow> ('k, 'v) rb_map option" where
  "unlink_node parent t s =
     do { pl \<leftarrow> rb_get rb_left parent s; tr \<leftarrow> rb_get rb_right t s;
          s \<leftarrow> (if pl = t then set_left parent tr s else set_right parent tr s);
          s \<leftarrow> delete_NODE t (s\<lparr>rb_len := rb_len s - 1\<rparr>);
          s \<leftarrow> set_color (rb_root s) BLACK s;
          set_ends s }"

partial_function (option) remove_loop ::
    "'k::linorder \<Rightarrow> rb_ptr \<Rightarrow> rb_ptr \<Rightarrow> rb_ptr \<Rightarrow> ('k, 'v) rb_map \<Rightarrow> ('k, 'v) rb_map option" where
  "remove_loop del parent t t2 s =
     do { (parent, t, t2, s) \<leftarrow> remove_adjust del parent t t2 s;
          k \<leftarrow> rb_key t s;
          l \<leftarrow> rb_get rb_left t s; r \<leftarrow> rb_get rb_right t s;
          if rb_equal k del \<and> l \<noteq> None \<and> r \<noteq> None then do {
            rep \<leftarrow> leftmost r s;
            s \<leftarrow> swap_nodes t rep s;
            t' \<leftarrow> rb_get rb_right rep s; t2' \<leftarrow> rb_get rb_left rep s;
            remove_loop del rep t' t2' s }
          else if rb_equal k del then unlink_node parent t s
          else do {
            t' \<leftarrow> child_for del t s;
            t2' \<leftarrow> sibling t t' s;
            remove_loop del t t' t2' s } }"

definition rb_remove :: "'k::linorder \<Rightarrow> ('k, 'v) rb_map \<Rightarrow> ('k, 'v) rb_map option" where
  "rb_remove del s =
     (if rb_root s = None then Some s
      else do {
        k \<leftarrow> rb_key (rb_root s) s;
        l \<leftarrow> rb_get rb_left (rb_root s) s; r \<leftarrow> rb_get rb_right (rb_root s) s;
        if rb_equal k del \<and> l = None \<and> r = None then do {
          s \<leftarrow> delete_NODE (rb_root s) (s\<lparr>rb_len := rb_len s - 1\<rparr>);
          Some (s\<lparr>rb_root := None, rb_head := None, rb_rear := None\<rparr>) }
        else remove_loop del (rb_root s) (rb_root s) (rb_root s) s })"

section \<open>Construction, copies and clearing\<close>

definition rb_none :: "('k, 'v) rb_map" where
  "rb_none = \<lparr>rb_live = (\<lambda>a. False), rb_data = (\<lambda>a. None), rb_left = (\<lambda>a. None), rb_right = (\<lambda>a. None), rb_fa = (\<lambda>a. None),
     rb_color = (\<lambda>a. RED), rb_root = None, rb_end = None, rb_head = None, rb_rear = None, rb_len = 0, rb_fresh = 0\<rparr>"

definition new_end :: "('k, 'v) rb_map \<Rightarrow> ('k, 'v) rb_map" where
  "new_end s = (let (e, s) = new_NODE None RED None s in s\<lparr>rb_end := e\<rparr>)"

definition map_new :: "('k, 'v) rb_map" where
  "map_new = new_end rb_none"

text \<open>\<^verbatim>\<open>clone(t, p)\<close> gives back the node it puts into \<^verbatim>\<open>t\<close>.\<close>

partial_function (option) rb_clone :: "('k, 'v) rb_map \<Rightarrow> rb_ptr \<Rightarrow> ('k, 'v) rb_map \<Rightarrow> (rb_ptr \<times> ('k, 'v) rb_map) option" where
  "rb_clone other p s =
     (if p = None then Some (None, s)
      else do {
        d \<leftarrow> rb_item p other; c \<leftarrow> rb_get rb_color p other;
        let (t, s) = new_NODE (Some d) c None s;
        pl \<leftarrow> rb_get rb_left p other; (l, s) \<leftarrow> rb_clone other pl s; s \<leftarrow> set_left t l s;
        pr \<leftarrow> rb_get rb_right p other; (r, s) \<leftarrow> rb_clone other pr s; s \<leftarrow> set_right t r s;
        s \<leftarrow> set_fa_if l t s; s \<leftarrow> set_fa_if r t s;
        Some (t, s) })"

partial_function (option) make_empty :: "rb_ptr \<Rightarrow> ('k, 'v) rb_map \<Rightarrow> ('k, 'v) rb_map option" where
  "make_empty t s =
     (if t = None then Some s
      else do {
        l \<leftarrow> rb_get rb_left t s; s \<leftarrow> make_empty l s; s \<leftarrow> set_left t None s;
        r \<leftarrow> rb_get rb_right t s; s \<leftarrow> make_empty r s; s \<leftarrow> set_right t None s;
        delete_NODE t s })"

definition map_copy :: "('k, 'v) rb_map \<Rightarrow> ('k, 'v) rb_map option" where
  "map_copy other =
     do { (r, s) \<leftarrow> rb_clone other (rb_root other) (rb_none\<lparr>rb_len := rb_len other\<rparr>);
          s \<leftarrow> set_ends (s\<lparr>rb_root := r\<rparr>);
          Some (new_end s) }"

text \<open>\<^verbatim>\<open>operator=\<close> from another map; the assignment of a map to itself does nothing.\<close>

definition map_assign :: "('k, 'v) rb_map \<Rightarrow> ('k, 'v) rb_map \<Rightarrow> ('k, 'v) rb_map option" where
  "map_assign other s =
     do { s \<leftarrow> make_empty (rb_root s) s;
          s \<leftarrow> delete_NODE (rb_end s) s;
          (r, s) \<leftarrow> rb_clone other (rb_root other) (new_end s);
          s \<leftarrow> set_ends (s\<lparr>rb_root := r\<rparr>);
          Some (s\<lparr>rb_len := rb_len other\<rparr>) }"

definition map_destroy :: "('k, 'v) rb_map \<Rightarrow> ('k, 'v) rb_map option" where
  "map_destroy s =
     do { s \<leftarrow> make_empty (rb_root s) s;
          let s = s\<lparr>rb_root := None, rb_len := 0, rb_head := None, rb_rear := None\<rparr>;
          if rb_end s = None then Some s
          else do { s \<leftarrow> delete_NODE (rb_end s) s; Some (s\<lparr>rb_end := None\<rparr>) } }"

definition map_clear :: "('k, 'v) rb_map \<Rightarrow> ('k, 'v) rb_map option" where
  "map_clear s =
     do { s \<leftarrow> make_empty (rb_root s) s;
          Some (s\<lparr>rb_root := None, rb_len := 0, rb_head := None, rb_rear := None\<rparr>) }"

section \<open>The public operations\<close>

text \<open>An error is an exception of the source. Iterators are those of the map itself.\<close>

datatype map_error = map_index_out_of_bound | map_invalid_iterator

definition map_at :: "'k::linorder \<Rightarrow> ('k, 'v) rb_map \<Rightarrow> (map_error + 'v) option" where
  "map_at key s =
     do { tmp \<leftarrow> rb_find key s;
          if tmp = None then Some (Inl map_index_out_of_bound)
          else do { d \<leftarrow> rb_item tmp s; Some (Inr (snd d)) } }"

definition map_begin :: "('k, 'v) rb_map \<Rightarrow> rb_ptr" where
  "map_begin s = (if rb_root s = None then rb_end s else rb_head s)"

definition map_end :: "('k, 'v) rb_map \<Rightarrow> rb_ptr" where
  "map_end s = rb_end s"

definition map_empty :: "('k, 'v) rb_map \<Rightarrow> bool" where
  "map_empty s \<longleftrightarrow> rb_len s = 0"

definition map_size :: "('k, 'v) rb_map \<Rightarrow> int" where
  "map_size s = rb_len s"

definition map_insert :: "'k::linorder \<times> 'v \<Rightarrow> ('k, 'v) rb_map \<Rightarrow> (rb_ptr \<times> bool \<times> ('k, 'v) rb_map) option" where
  "map_insert x s =
     do { tmp \<leftarrow> rb_find (fst x) s;
          if tmp \<noteq> None then Some (tmp, False, s)
          else do {
            s \<leftarrow> rb_insert x s;
            tmp \<leftarrow> rb_find (fst x) s;
            Some (tmp, True, s) } }"

text \<open>\<^verbatim>\<open>operator[]\<close> returns a reference to the value of the node.\<close>

definition map_subscript :: "'k::linorder \<Rightarrow> 'v \<Rightarrow> ('k, 'v) rb_map \<Rightarrow> (rb_ptr \<times> ('k, 'v) rb_map) option" where
  "map_subscript key dflt s =
     do { tmp \<leftarrow> rb_find key s;
          if tmp \<noteq> None then Some (tmp, s)
          else do { (it, b, s) \<leftarrow> map_insert (key, dflt) s; Some (it, s) } }"

definition map_erase :: "rb_ptr \<Rightarrow> ('k::linorder, 'v) rb_map \<Rightarrow> (map_error + ('k, 'v) rb_map) option" where
  "map_erase pos s =
     (if pos = map_end s \<or> pos = None then Some (Inl map_invalid_iterator)
      else do { k \<leftarrow> rb_key pos s; s \<leftarrow> rb_remove k s; Some (Inr s) })"

definition map_count :: "'k::linorder \<Rightarrow> ('k, 'v) rb_map \<Rightarrow> nat option" where
  "map_count key s = do { tmp \<leftarrow> rb_find key s; Some (if tmp \<noteq> None then 1 else 0) }"

definition map_find :: "'k::linorder \<Rightarrow> ('k, 'v) rb_map \<Rightarrow> rb_ptr option" where
  "map_find key s = do { tmp \<leftarrow> rb_find key s; Some (if tmp = None then map_end s else tmp) }"

section \<open>Iterators\<close>

text \<open>\<^verbatim>\<open>while (p->fa && p->fa->right == p) p = p->fa;\<close> and its mirror image.\<close>

partial_function (option) climb_right :: "rb_ptr \<Rightarrow> ('k, 'v) rb_map \<Rightarrow> rb_ptr option" where
  "climb_right p s =
     do { f \<leftarrow> rb_get rb_fa p s;
          if f = None then Some p
          else do { fr \<leftarrow> rb_get rb_right f s; if fr = p then climb_right f s else Some p } }"

partial_function (option) climb_left :: "rb_ptr \<Rightarrow> ('k, 'v) rb_map \<Rightarrow> rb_ptr option" where
  "climb_left p s =
     do { f \<leftarrow> rb_get rb_fa p s;
          if f = None then Some p
          else do { fl \<leftarrow> rb_get rb_left f s; if fl = p then climb_left f s else Some p } }"

definition map_iter_next :: "rb_ptr \<Rightarrow> ('k, 'v) rb_map \<Rightarrow> (map_error + rb_ptr) option" where
  "map_iter_next p s =
     (if p = rb_end s \<or> p = None then Some (Inl map_invalid_iterator)
      else if p = rb_rear s then Some (Inr (rb_end s))
      else do {
        r \<leftarrow> rb_get rb_right p s;
        if r \<noteq> None then do { q \<leftarrow> leftmost r s; Some (Inr q) }
        else do { q \<leftarrow> climb_right p s; f \<leftarrow> rb_get rb_fa q s; Some (Inr f) } })"

definition map_iter_prev :: "rb_ptr \<Rightarrow> ('k, 'v) rb_map \<Rightarrow> (map_error + rb_ptr) option" where
  "map_iter_prev p s =
     (if rb_root s = None then Some (Inl map_invalid_iterator)
      else if p = rb_head s \<or> p = None then Some (Inl map_invalid_iterator)
      else if p = rb_end s then do { b \<leftarrow> rb_back s; Some (Inr b) }
      else do {
        l \<leftarrow> rb_get rb_left p s;
        if l \<noteq> None then do { q \<leftarrow> rightmost l s; Some (Inr q) }
        else do { q \<leftarrow> climb_left p s; f \<leftarrow> rb_get rb_fa q s; Some (Inr f) } })"

definition map_iter_item :: "rb_ptr \<Rightarrow> ('k, 'v) rb_map \<Rightarrow> (map_error + 'k \<times> 'v) option" where
  "map_iter_item p s =
     (if p = rb_end s \<or> p = None then Some (Inl map_invalid_iterator)
      else do { d \<leftarrow> rb_item p s; Some (Inr d) })"

end
