(* ===== verification/RedBlackRep.thy ===== *)
theory RedBlackRep
  imports RedBlackMap
begin

text \<open>
  The trees that the pointers of \<open>RedBlackMap\<close> form. A tree has the address, the color and the
  item of every node; a context is the path from a node up to the root, with the sibling at each
  step. \<open>rb_rep s T\<close> says that the map \<open>s\<close> holds the tree \<open>T\<close>: the child pointers, the parent
  pointers and the root agree with it. The four rotations are shown to rotate the tree.
\<close>

section \<open>Trees and contexts\<close>

datatype ('k, 'v) rbt = Lf | Nd nat rb_color "'k \<times> 'v" "('k, 'v) rbt" "('k, 'v) rbt"

fun addr :: "('k, 'v) rbt \<Rightarrow> rb_ptr" where
  "addr Lf = None"
| "addr (Nd a c x l r) = Some a"

fun addrs :: "('k, 'v) rbt \<Rightarrow> nat list" where
  "addrs Lf = []"
| "addrs (Nd a c x l r) = a # addrs l @ addrs r"

fun inorder :: "('k, 'v) rbt \<Rightarrow> ('k \<times> 'v) list" where
  "inorder Lf = []"
| "inorder (Nd a c x l r) = inorder l @ x # inorder r"

text \<open>\<open>LF\<close>: the hole is the left child of the node, \<open>RF\<close>: it is the right child.\<close>

datatype ('k, 'v) frame =
    LF (f_addr: nat) (f_color: rb_color) (f_item: "'k \<times> 'v") (f_sib: "('k, 'v) rbt")
  | RF (f_addr: nat) (f_color: rb_color) (f_item: "'k \<times> 'v") (f_sib: "('k, 'v) rbt")

fun fill :: "('k, 'v) frame \<Rightarrow> ('k, 'v) rbt \<Rightarrow> ('k, 'v) rbt" where
  "fill (LF a c x r) t = Nd a c x t r"
| "fill (RF a c x l) t = Nd a c x l t"

fun plug :: "('k, 'v) frame list \<Rightarrow> ('k, 'v) rbt \<Rightarrow> ('k, 'v) rbt" where
  "plug [] t = t"
| "plug (f # fs) t = plug fs (fill f t)"

fun ctx_fa :: "('k, 'v) frame list \<Rightarrow> rb_ptr" where
  "ctx_fa [] = None"
| "ctx_fa (f # fs) = Some (f_addr f)"

fun ctx_root :: "('k, 'v) frame list \<Rightarrow> rb_ptr \<Rightarrow> rb_ptr" where
  "ctx_root [] p = p"
| "ctx_root (f # fs) p = ctx_root fs (Some (f_addr f))"

fun ctx_addrs :: "('k, 'v) frame list \<Rightarrow> nat list" where
  "ctx_addrs [] = []"
| "ctx_addrs (f # fs) = f_addr f # addrs (f_sib f) @ ctx_addrs fs"

fun ctx_before :: "('k, 'v) frame list \<Rightarrow> ('k \<times> 'v) list" where
  "ctx_before [] = []"
| "ctx_before (LF a c x r # fs) = ctx_before fs"
| "ctx_before (RF a c x l # fs) = ctx_before fs @ inorder l @ [x]"

fun ctx_after :: "('k, 'v) frame list \<Rightarrow> ('k \<times> 'v) list" where
  "ctx_after [] = []"
| "ctx_after (LF a c x r # fs) = x # inorder r @ ctx_after fs"
| "ctx_after (RF a c x l # fs) = ctx_after fs"

lemma inorder_plug [simp]: "inorder (plug fs t) = ctx_before fs @ inorder t @ ctx_after fs"
  by (induction fs t rule: plug.induct) (simp_all split: frame.splits, (case_tac f; simp)+)

lemma addr_plug [simp]: "addr (plug fs t) = ctx_root fs (addr t)"
  by (induction fs t rule: plug.induct) (simp, case_tac f, simp_all)

lemma set_addrs_plug [simp]: "set (addrs (plug fs t)) = set (addrs t) \<union> set (ctx_addrs fs)"
  by (induction fs t rule: plug.induct) (simp, case_tac f, auto)

lemma distinct_addrs_plug [simp]:
  "distinct (addrs (plug fs t)) \<longleftrightarrow> distinct (addrs t) \<and> distinct (ctx_addrs fs) \<and> set (addrs t) \<inter> set (ctx_addrs fs) = {}"
  by (induction fs t rule: plug.induct) (simp, case_tac f, auto)

lemma addr_None [simp]: "addr t = None \<longleftrightarrow> t = Lf" "None = addr t \<longleftrightarrow> t = Lf"
  by (cases t; simp)+

lemma addr_notin [simp]: "a \<notin> set (addrs t) \<Longrightarrow> addr t \<noteq> Some a" "a \<notin> set (addrs t) \<Longrightarrow> Some a \<noteq> addr t"
  by (cases t; auto)+

lemma addr_in_addrs: "addr t = Some a \<Longrightarrow> a \<in> set (addrs t)"
  by (cases t) auto

section \<open>Representation\<close>

fun rept where
  "rept lv dt lf rt fa cl f Lf \<longleftrightarrow> True"
| "rept lv dt lf rt fa cl f (Nd a c x l r) \<longleftrightarrow>
     lv a \<and> dt a = Some x \<and> lf a = addr l \<and> rt a = addr r \<and> fa a = f \<and> cl a = c \<and>
     rept lv dt lf rt fa cl (Some a) l \<and> rept lv dt lf rt fa cl (Some a) r"

fun rept_ctx where
  "rept_ctx lv dt lf rt fa cl p [] \<longleftrightarrow> True"
| "rept_ctx lv dt lf rt fa cl p (LF a c x r # fs) \<longleftrightarrow>
     lv a \<and> dt a = Some x \<and> lf a = p \<and> rt a = addr r \<and> fa a = ctx_fa fs \<and> cl a = c \<and>
     rept lv dt lf rt fa cl (Some a) r \<and> rept_ctx lv dt lf rt fa cl (Some a) fs"
| "rept_ctx lv dt lf rt fa cl p (RF a c x l # fs) \<longleftrightarrow>
     lv a \<and> dt a = Some x \<and> lf a = addr l \<and> rt a = p \<and> fa a = ctx_fa fs \<and> cl a = c \<and>
     rept lv dt lf rt fa cl (Some a) l \<and> rept_ctx lv dt lf rt fa cl (Some a) fs"

lemma rept_cong:
  "(\<And>a. a \<in> set (addrs t) \<Longrightarrow>
      lv' a = lv a \<and> dt' a = dt a \<and> lf' a = lf a \<and> rt' a = rt a \<and> fa' a = fa a \<and> cl' a = cl a) \<Longrightarrow>
   rept lv' dt' lf' rt' fa' cl' f t = rept lv dt lf rt fa cl f t"
  by (induction t arbitrary: f) auto

lemma rept_upd [simp]:
  assumes "a \<notin> set (addrs t)"
  shows "rept lv (dt(a := d)) lf rt fa cl f t = rept lv dt lf rt fa cl f t"
    and "rept lv dt (lf(a := p)) rt fa cl f t = rept lv dt lf rt fa cl f t"
    and "rept lv dt lf (rt(a := p)) fa cl f t = rept lv dt lf rt fa cl f t"
    and "rept lv dt lf rt (fa(a := p)) cl f t = rept lv dt lf rt fa cl f t"
    and "rept lv dt lf rt fa (cl(a := c)) f t = rept lv dt lf rt fa cl f t"
  using assms by (induction t arbitrary: f) auto

lemma rept_ctx_cong:
  assumes "\<And>a. a \<in> set (ctx_addrs fs) \<Longrightarrow>
      lv' a = lv a \<and> dt' a = dt a \<and> lf' a = lf a \<and> rt' a = rt a \<and> fa' a = fa a \<and> cl' a = cl a"
  shows "rept_ctx lv' dt' lf' rt' fa' cl' p fs = rept_ctx lv dt lf rt fa cl p fs"
  using assms
proof (induction fs arbitrary: p)
  case (Cons f fs)
  have "rept_ctx lv' dt' lf' rt' fa' cl' q fs = rept_ctx lv dt lf rt fa cl q fs" for q
    using Cons.prems by (intro Cons.IH) simp
  moreover have "rept lv' dt' lf' rt' fa' cl' q (f_sib f) = rept lv dt lf rt fa cl q (f_sib f)" for q
    using Cons.prems by (intro rept_cong) simp
  ultimately show ?case using Cons.prems [of "f_addr f"] by (cases f) simp_all
qed simp

lemma rept_ctx_upd [simp]:
  assumes "a \<notin> set (ctx_addrs fs)"
  shows "rept_ctx lv (dt(a := d)) lf rt fa cl p fs = rept_ctx lv dt lf rt fa cl p fs"
    and "rept_ctx lv dt (lf(a := q)) rt fa cl p fs = rept_ctx lv dt lf rt fa cl p fs"
    and "rept_ctx lv dt lf (rt(a := q)) fa cl p fs = rept_ctx lv dt lf rt fa cl p fs"
    and "rept_ctx lv dt lf rt (fa(a := q)) cl p fs = rept_ctx lv dt lf rt fa cl p fs"
    and "rept_ctx lv dt lf rt fa (cl(a := c)) p fs = rept_ctx lv dt lf rt fa cl p fs"
  using assms by (auto intro!: rept_ctx_cong)

abbreviation rep where
  "rep s \<equiv> rept (rb_live s) (rb_data s) (rb_left s) (rb_right s) (rb_fa s) (rb_color s)"

abbreviation rep_ctx where
  "rep_ctx s \<equiv> rept_ctx (rb_live s) (rb_data s) (rb_left s) (rb_right s) (rb_fa s) (rb_color s)"

lemma rept_plug: "rept lv dt lf rt fa cl None (plug fs t)
    \<longleftrightarrow> rept_ctx lv dt lf rt fa cl (addr t) fs \<and> rept lv dt lf rt fa cl (ctx_fa fs) t"
  by (induction fs t rule: plug.induct) (simp, case_tac f, auto)

definition rb_rep :: "('k, 'v) rb_map \<Rightarrow> ('k, 'v) rbt \<Rightarrow> bool" where
  "rb_rep s T \<longleftrightarrow> rep s None T \<and> distinct (addrs T) \<and> rb_root s = addr T"

lemma rb_rep_plug:
  "rb_rep s (plug fs t) \<longleftrightarrow> rep_ctx s (addr t) fs \<and> rep s (ctx_fa fs) t \<and>
     distinct (addrs t) \<and> distinct (ctx_addrs fs) \<and> set (addrs t) \<inter> set (ctx_addrs fs) = {} \<and>
     rb_root s = ctx_root fs (addr t)"
  by (auto simp: rb_rep_def rept_plug)

text \<open>What rotations and repainting leave alone.\<close>

definition kept :: "('k, 'v) rb_map \<Rightarrow> ('k, 'v) rb_map \<Rightarrow> bool" where
  "kept s s' \<longleftrightarrow> rb_live s' = rb_live s \<and> rb_data s' = rb_data s \<and> rb_end s' = rb_end s \<and> rb_head s' = rb_head s \<and>
     rb_rear s' = rb_rear s \<and> rb_len s' = rb_len s \<and> rb_fresh s' = rb_fresh s"

lemma kept_refl [simp]: "kept s s"
  by (simp add: kept_def)

lemma kept_trans [trans]: "kept s s' \<Longrightarrow> kept s' s'' \<Longrightarrow> kept s s''"
  by (simp add: kept_def)

section \<open>Pointer accesses\<close>

lemma rb_get_Some [simp]: "rb_live s a \<Longrightarrow> rb_get field (Some a) s = Some (field s a)"
  by (simp add: rb_get_def)

lemma rb_set_Some [simp]: "rb_live s a \<Longrightarrow> rb_set write (Some a) s = Some (write a s)"
  by (simp add: rb_set_def)

lemmas rb_sets = set_left_def set_right_def set_fa_def set_color_def

lemma rb_item_Some [simp]: "rb_live s a \<Longrightarrow> rb_data s a = Some x \<Longrightarrow> rb_item (Some a) s = Some x"
  by (simp add: rb_item_def)

lemma rb_key_Some [simp]: "rb_live s a \<Longrightarrow> rb_data s a = Some x \<Longrightarrow> rb_key (Some a) s = Some (fst x)"
  by (simp add: rb_key_def)

lemma set_color_rep:
  assumes "rb_rep s (plug fs (Nd a c x l r))"
  shows "set_color (Some a) c' s = Some (s\<lparr>rb_color := (rb_color s)(a := c')\<rparr>)"
    and "rb_rep (s\<lparr>rb_color := (rb_color s)(a := c')\<rparr>) (plug fs (Nd a c' x l r))"
    and "kept s (s\<lparr>rb_color := (rb_color s)(a := c')\<rparr>)"
  using assms by (simp_all add: rb_rep_plug rb_sets kept_def)

section \<open>Rotations\<close>

lemma raise_root_top [simp]:
  "rb_root s = Some a \<Longrightarrow> rb_live s a \<Longrightarrow> rb_fa s a = None \<Longrightarrow> raise_root s = Some s"
  by (simp add: raise_root.simps)

lemma ctx_root_fa:
  assumes "rept_ctx lv dt lf rt fa cl p (f # fs)"
  shows "\<exists>a. ctx_root fs (Some (f_addr f)) = Some a \<and> lv a \<and> fa a = None \<and> a \<in> set (ctx_addrs (f # fs))"
  using assms
proof (induction fs arbitrary: f p)
  case Nil
  then show ?case by (cases f) auto
next
  case (Cons g fs)
  then obtain q where "rept_ctx lv dt lf rt fa cl q (g # fs)" by (cases f) auto
  then show ?case using Cons.IH [of q g] by auto
qed

text \<open>The end of a rotation: the root has a parent exactly when the rotation was at the root.\<close>

lemma raise_root_rep:
  assumes "rep_ctx s (Some p) fs" and "rb_live s p" and "rb_live s g" and "rb_fa s p = ctx_fa fs" and "rb_fa s g \<noteq> None"
    and "fs = [] \<Longrightarrow> rb_fa s g = Some p" and "rb_root s = ctx_root fs (Some g)"
  shows "raise_root s = Some (s\<lparr>rb_root := ctx_root fs (Some p)\<rparr>)"
proof (cases fs)
  case Nil
  then show ?thesis using assms by (simp add: raise_root.simps [of s])
next
  case (Cons f fs')
  then obtain a where "ctx_root fs (Some p) = Some a" "rb_live s a" "rb_fa s a = None"
    using ctx_root_fa [of "rb_live s"] assms(1) by fastforce
  then show ?thesis using assms(7) Cons by (simp add: raise_root.simps)
qed

text \<open>Closed forms of the pointer updates of a rotation.\<close>

definition fa_upd :: "rb_ptr \<Rightarrow> rb_ptr \<Rightarrow> (nat \<Rightarrow> rb_ptr) \<Rightarrow> nat \<Rightarrow> rb_ptr" where
  "fa_upd p q fa = (case p of None \<Rightarrow> fa | Some a \<Rightarrow> fa(a := q))"

definition ctx_left :: "('k, 'v) frame list \<Rightarrow> rb_ptr \<Rightarrow> (nat \<Rightarrow> rb_ptr) \<Rightarrow> nat \<Rightarrow> rb_ptr" where
  "ctx_left fs q lf = (case fs of LF a c x r # fs' \<Rightarrow> lf(a := q) | _ \<Rightarrow> lf)"

definition ctx_right :: "('k, 'v) frame list \<Rightarrow> rb_ptr \<Rightarrow> (nat \<Rightarrow> rb_ptr) \<Rightarrow> nat \<Rightarrow> rb_ptr" where
  "ctx_right fs q rt = (case fs of RF a c x l # fs' \<Rightarrow> rt(a := q) | _ \<Rightarrow> rt)"

lemma rept_live: "rept lv dt lf rt fa cl f t \<Longrightarrow> a \<in> set (addrs t) \<Longrightarrow> lv a"
  by (induction t arbitrary: f) auto

lemma set_fa_if_eq [simp]:
  "(\<And>a. addr B = Some a \<Longrightarrow> rb_live s a) \<Longrightarrow> set_fa_if (addr B) q s = Some (s\<lparr>rb_fa := fa_upd (addr B) q (rb_fa s)\<rparr>)"
  by (cases B) (simp_all add: set_fa_if_def fa_upd_def rb_sets)

lemma relink_eq [simp]:
  assumes "rep_ctx s (Some g) fs" and "g \<notin> set (ctx_addrs fs)"
  shows "relink (ctx_fa fs) (Some g) q s
     = Some (s\<lparr>rb_left := ctx_left fs q (rb_left s), rb_right := ctx_right fs q (rb_right s)\<rparr>)"
proof (cases fs)
  case (Cons f fs')
  then show ?thesis using assms by (cases f) (simp_all add: relink_def ctx_left_def ctx_right_def rb_sets)
qed (simp add: relink_def ctx_left_def ctx_right_def)

lemma fa_upd_other [simp]: "b \<notin> set (addrs B) \<Longrightarrow> fa_upd (addr B) q fa b = fa b"
  by (cases B) (simp_all add: fa_upd_def)

lemma ctx_left_other [simp]: "b \<notin> set (ctx_addrs fs) \<Longrightarrow> ctx_left fs q lf b = lf b"
  by (auto simp: ctx_left_def split: list.split frame.split)

lemma ctx_right_other [simp]: "b \<notin> set (ctx_addrs fs) \<Longrightarrow> ctx_right fs q lf b = lf b"
  by (auto simp: ctx_right_def split: list.split frame.split)

lemma rept_other [simp]:
  "set (addrs t) \<inter> set (addrs B) = {} \<Longrightarrow> rept lv dt lf rt (fa_upd (addr B) q fa) cl f t = rept lv dt lf rt fa cl f t"
  "set (addrs t) \<inter> set (ctx_addrs fs) = {} \<Longrightarrow> rept lv dt (ctx_left fs q lf) rt fa cl f t = rept lv dt lf rt fa cl f t"
  "set (addrs t) \<inter> set (ctx_addrs fs) = {} \<Longrightarrow> rept lv dt lf (ctx_right fs q rt) fa cl f t = rept lv dt lf rt fa cl f t"
  by (auto intro!: rept_cong fa_upd_other ctx_left_other ctx_right_other)

lemma rept_ctx_other [simp]:
  "set (addrs B) \<inter> set (ctx_addrs fs) = {} \<Longrightarrow>
     rept_ctx lv dt lf rt (fa_upd (addr B) q fa) cl p fs = rept_ctx lv dt lf rt fa cl p fs"
  by (auto intro!: rept_ctx_cong fa_upd_other)

lemma rept_new_fa:
  "rept lv dt lf rt fa cl f B \<Longrightarrow> distinct (addrs B) \<Longrightarrow> rept lv dt lf rt (fa_upd (addr B) q fa) cl q B"
  by (cases B) (simp_all add: fa_upd_def)

lemma rept_ctx_new_child:
  assumes "rept_ctx lv dt lf rt fa cl p fs" "distinct (ctx_addrs fs)"
  shows "rept_ctx lv dt (ctx_left fs q lf) (ctx_right fs q rt) fa cl q fs"
proof (cases fs)
  case (Cons f fs')
  then show ?thesis using assms by (cases f) (simp_all add: ctx_left_def ctx_right_def)
qed simp

text \<open>The nodes and subtrees of a rotation are apart.\<close>

lemma disjoint_parts: "A \<inter> (B \<union> C) = {} \<longleftrightarrow> A \<inter> B = {} \<and> A \<inter> C = {}" "(A \<union> B) \<inter> C = {} \<longleftrightarrow> A \<inter> C = {} \<and> B \<inter> C = {}"
  by blast+

lemma LL_rep:
  assumes "rb_rep s (plug fs (Nd g cg xg (Nd p cp xp A B) C))"
  shows "\<exists>s'. rb_LL (Some g) s = Some s' \<and> rb_rep s' (plug fs (Nd p BLACK xp A (Nd g RED xg B C))) \<and> kept s s'"
proof -
  note parts = assms [unfolded rb_rep_plug, simplified disjoint_parts, simplified]
  have apart: "p \<noteq> g" "set (addrs B) \<inter> set (addrs A) = {}" "set (addrs C) \<inter> set (addrs A) = {}" "set (addrs C) \<inter> set (addrs B) = {}"
    using parts by auto
  have live: "addr B = Some a \<Longrightarrow> rb_live s a" for a
    using parts by (cases B; simp)+
  show ?thesis
    using parts apart live
    by (simp add: rb_LL_def rb_sets kept_def
        rept_ctx_new_child [where p = "Some g"] rept_new_fa [where f = "Some p"] raise_root_rep [of _ p fs g] rb_rep_plug disjoint_parts)
qed

lemma RR_rep:
  assumes "rb_rep s (plug fs (Nd g cg xg C (Nd p cp xp B A)))"
  shows "\<exists>s'. rb_RR (Some g) s = Some s' \<and> rb_rep s' (plug fs (Nd p BLACK xp (Nd g RED xg C B) A)) \<and> kept s s'"
proof -
  note parts = assms [unfolded rb_rep_plug, simplified disjoint_parts, simplified]
  have apart: "p \<noteq> g" "set (addrs B) \<inter> set (addrs C) = {}" "set (addrs A) \<inter> set (addrs C) = {}" "set (addrs A) \<inter> set (addrs B) = {}"
    using parts by auto
  have live: "addr B = Some a \<Longrightarrow> rb_live s a" for a
    using parts by (cases B; simp)+
  show ?thesis
    using parts apart live
    by (simp add: rb_RR_def rb_sets kept_def
        rept_ctx_new_child [where p = "Some g"] rept_new_fa [where f = "Some p"] raise_root_rep [of _ p fs g] rb_rep_plug disjoint_parts)
qed

lemma LR_rep:
  assumes "rb_rep s (plug fs (Nd g cg xg (Nd p cp xp A (Nd t ct xt B1 B2)) C))"
  shows "\<exists>s'. rb_LR (Some g) s = Some s' \<and> rb_rep s' (plug fs (Nd t BLACK xt (Nd p cp xp A B1) (Nd g RED xg B2 C))) \<and> kept s s'"
proof -
  note parts = assms [unfolded rb_rep_plug, simplified disjoint_parts, simplified]
  have apart: "p \<noteq> g" "t \<noteq> g" "t \<noteq> p" "set (addrs B1) \<inter> set (addrs A) = {}" "set (addrs B2) \<inter> set (addrs A) = {}" "set (addrs C) \<inter> set (addrs A) = {}" "set (addrs B2) \<inter> set (addrs B1) = {}" "set (addrs C) \<inter> set (addrs B1) = {}" "set (addrs C) \<inter> set (addrs B2) = {}"
    using parts by auto
  have live: "addr B1 = Some a \<Longrightarrow> rb_live s a" "addr B2 = Some a \<Longrightarrow> rb_live s a" for a
    using parts by (cases B1; cases B2; simp)+
  show ?thesis
    using parts apart live
    by (simp add: rb_LR_def rb_sets kept_def
        rept_ctx_new_child [where p = "Some g"] rept_new_fa [where f = "Some t"] raise_root_rep [of _ t fs g] rb_rep_plug disjoint_parts)
qed

lemma RL_rep:
  assumes "rb_rep s (plug fs (Nd g cg xg C (Nd p cp xp (Nd t ct xt B1 B2) A)))"
  shows "\<exists>s'. rb_RL (Some g) s = Some s' \<and> rb_rep s' (plug fs (Nd t BLACK xt (Nd g RED xg C B1) (Nd p cp xp B2 A))) \<and> kept s s'"
proof -
  note parts = assms [unfolded rb_rep_plug, simplified disjoint_parts, simplified]
  have apart: "p \<noteq> g" "t \<noteq> g" "t \<noteq> p" "set (addrs B1) \<inter> set (addrs C) = {}" "set (addrs B2) \<inter> set (addrs C) = {}" "set (addrs A) \<inter> set (addrs C) = {}" "set (addrs B2) \<inter> set (addrs B1) = {}" "set (addrs A) \<inter> set (addrs B1) = {}" "set (addrs A) \<inter> set (addrs B2) = {}"
    using parts by auto
  have live: "addr B1 = Some a \<Longrightarrow> rb_live s a" "addr B2 = Some a \<Longrightarrow> rb_live s a" for a
    using parts by (cases B1; cases B2; simp)+
  show ?thesis
    using parts apart live
    by (simp add: rb_RL_def rb_sets kept_def
        rept_ctx_new_child [where p = "Some g"] rept_new_fa [where f = "Some t"] raise_root_rep [of _ t fs g] rb_rep_plug disjoint_parts)
qed

end
