(* ===== verification/RedBlackInsert.thy ===== *)
theory RedBlackInsert
  imports RedBlackRep
begin

text \<open>
  Insertion into the red-black tree. The loop descends from the root, repaints nodes with two red
  children on the way and rotates at once where this puts a red node under a red one, so that
  nothing is left to repair above the new leaf.
\<close>

section \<open>Red-black trees\<close>

fun col :: "('k, 'v) rbt \<Rightarrow> rb_color" where
  "col Lf = BLACK"
| "col (Nd a c x l r) = c"

fun bh :: "('k, 'v) rbt \<Rightarrow> nat" where
  "bh Lf = 0"
| "bh (Nd a c x l r) = (if c = BLACK then Suc (bh l) else bh l)"

fun balanced :: "('k, 'v) rbt \<Rightarrow> bool" where
  "balanced Lf \<longleftrightarrow> True"
| "balanced (Nd a c x l r) \<longleftrightarrow> bh l = bh r \<and> balanced l \<and> balanced r"

fun no_red_red :: "('k, 'v) rbt \<Rightarrow> bool" where
  "no_red_red Lf \<longleftrightarrow> True"
| "no_red_red (Nd a c x l r) \<longleftrightarrow> (c = RED \<longrightarrow> col l = BLACK \<and> col r = BLACK) \<and> no_red_red l \<and> no_red_red r"

definition sorted_map :: "('k::linorder \<times> 'v) list \<Rightarrow> bool" where
  "sorted_map xs \<longleftrightarrow> sorted_wrt (\<lambda>a b. fst a < fst b) xs"

definition rb_tree :: "('k::linorder, 'v) rbt \<Rightarrow> bool" where
  "rb_tree T \<longleftrightarrow> balanced T \<and> no_red_red T \<and> sorted_map (inorder T)"

lemma color_cases: "c \<noteq> RED \<longleftrightarrow> c = BLACK" "c \<noteq> BLACK \<longleftrightarrow> c = RED"
  by (cases c; simp)+

lemma col_RED_D: "col t = RED \<Longrightarrow> \<exists>a x l r. t = Nd a RED x l r"
  by (cases t) auto

lemma fill_props [simp]:
  "balanced (fill f t) \<longleftrightarrow> bh t = bh (f_sib f) \<and> balanced t \<and> balanced (f_sib f)"
  "no_red_red (fill f t) \<longleftrightarrow> (f_color f = RED \<longrightarrow> col t = BLACK \<and> col (f_sib f) = BLACK) \<and> no_red_red t \<and> no_red_red (f_sib f)"
  "col (fill f t) = f_color f" "addr (fill f t) = Some (f_addr f)"
  by (cases f; auto)+

lemma bh_fill: "bh t = bh t' \<Longrightarrow> bh (fill f t) = bh (fill f t')"
  by (cases f) auto

lemma balanced_plug:
  assumes "balanced (plug fs t)"
  shows "balanced t" and "balanced t' \<Longrightarrow> bh t' = bh t \<Longrightarrow> balanced (plug fs t')"
proof -
  have "balanced t \<and> (balanced t' \<longrightarrow> bh t' = bh t \<longrightarrow> balanced (plug fs t'))"
    using assms
  proof (induction fs arbitrary: t t')
    case (Cons f fs)
    have "balanced (plug fs (fill f t))" using Cons.prems by simp
    note ih = Cons.IH [OF this, of "fill f t'"]
    show ?case
    proof (intro conjI impI)
      show "balanced t" using conjunct1 [OF ih] by simp
      assume t': "balanced t'" "bh t' = bh t"
      then have "balanced (fill f t')" using conjunct1 [OF ih] by simp
      then show "balanced (plug (f # fs) t')" using ih bh_fill [OF t'(2)] by simp
    qed
  qed simp
  then show "balanced t" "balanced t' \<Longrightarrow> bh t' = bh t \<Longrightarrow> balanced (plug fs t')" by simp_all
qed

lemma no_red_red_plug:
  assumes "no_red_red (plug fs t)"
  shows "no_red_red t" and "no_red_red t' \<Longrightarrow> col t' = BLACK \<or> col t' = col t \<Longrightarrow> no_red_red (plug fs t')"
proof -
  have "no_red_red t \<and> (no_red_red t' \<longrightarrow> col t' = BLACK \<or> col t' = col t \<longrightarrow> no_red_red (plug fs t'))"
    using assms
  proof (induction fs arbitrary: t t')
    case (Cons f fs)
    have "no_red_red (plug fs (fill f t))" using Cons.prems by simp
    note ih = Cons.IH [OF this, of "fill f t'"]
    show ?case
    proof (intro conjI impI)
      show "no_red_red t" using conjunct1 [OF ih] by simp
      assume t': "no_red_red t'" "col t' = BLACK \<or> col t' = col t"
      then have "no_red_red (fill f t')" using conjunct1 [OF ih] by auto
      then show "no_red_red (plug (f # fs) t')" using ih by simp
    qed
  qed simp
  then show "no_red_red t" "no_red_red t' \<Longrightarrow> col t' = BLACK \<or> col t' = col t \<Longrightarrow> no_red_red (plug fs t')" by simp_all
qed

lemma col_plug: "fs \<noteq> [] \<or> col t' = col t \<Longrightarrow> col (plug fs t') = col (plug fs t)"
proof (induction fs arbitrary: t t')
  case (Cons f fs)
  then show ?case using Cons.IH [of "fill f t'" "fill f t"] by simp
qed simp

section \<open>Rotations after an insertion\<close>

text \<open>What \<^verbatim>\<open>insert_adjust\<close> makes of a red node under the red node of the frame \<open>f\<close>, whose parent is that of \<open>g\<close>.\<close>

fun rotated :: "('k, 'v) frame \<Rightarrow> ('k, 'v) frame \<Rightarrow> nat \<Rightarrow> 'k \<times> 'v \<Rightarrow> ('k, 'v) rbt \<Rightarrow> ('k, 'v) rbt \<Rightarrow> ('k, 'v) rbt" where
  "rotated (LF p cp xp B) (LF g cg xg C) a x l r = Nd p BLACK xp (Nd a RED x l r) (Nd g RED xg B C)"
| "rotated (RF p cp xp A) (LF g cg xg C) a x l r = Nd a BLACK x (Nd p cp xp A l) (Nd g RED xg r C)"
| "rotated (RF p cp xp B) (RF g cg xg C) a x l r = Nd p BLACK xp (Nd g RED xg C B) (Nd a RED x l r)"
| "rotated (LF p cp xp A) (RF g cg xg C) a x l r = Nd a BLACK x (Nd g RED xg C l) (Nd p cp xp r A)"

lemma insert_adjust_black:
  assumes "rb_rep s (plug (f # fs) t)" and "f_color f = BLACK"
  shows "insert_adjust gp (Some (f_addr f)) q s = Some s"
  using assms by (cases f) (simp_all add: insert_adjust_def rb_rep_plug)

lemma ctx_root_in: "ctx_root fs (Some g) = Some b \<Longrightarrow> b = g \<or> b \<in> set (ctx_addrs fs)"
  by (induction fs arbitrary: g) auto

lemma insert_adjust_red:
  assumes "rb_rep s (plug (f # g # fs) (Nd a RED x l r))" and "f_color f = RED"
  shows "\<exists>s'. insert_adjust (Some (f_addr g)) (Some (f_addr f)) (Some a) s = Some s' \<and>
     rb_rep s' (plug fs (rotated f g a x l r)) \<and> kept s s'"
proof -
  have root: "rb_root s \<noteq> Some (f_addr f)"
    using assms(1) ctx_root_in [of fs "f_addr g" "f_addr f"] by (cases f; cases g) (auto simp: rb_rep_plug)
  consider p xp A q cq y C where "f = LF p RED xp A" "g = LF q cq y C"
    | p xp A q cq y C where "f = RF p RED xp A" "g = LF q cq y C"
    | p xp A q cq y C where "f = RF p RED xp A" "g = RF q cq y C"
    | p xp A q cq y C where "f = LF p RED xp A" "g = RF q cq y C"
    using assms(2) by (cases f; cases g) auto
  then show ?thesis
  proof cases
    case 1
    then have "insert_adjust (Some (f_addr g)) (Some (f_addr f)) (Some a) s = rb_LL (Some q) s"
      using assms(1) root by (simp add: insert_adjust_def rb_rep_plug)
    then show ?thesis using LL_rep [of s fs q cq y p RED xp "Nd a RED x l r" A C] assms(1) by (simp add: 1)
  next
    case 2
    then have "insert_adjust (Some (f_addr g)) (Some (f_addr f)) (Some a) s = rb_LR (Some q) s"
      using assms(1) root by (auto simp: insert_adjust_def rb_rep_plug)
    then show ?thesis using LR_rep [of s fs q cq y p RED xp A a RED x l r C] assms(1) by (simp add: 2)
  next
    case 3
    then have "insert_adjust (Some (f_addr g)) (Some (f_addr f)) (Some a) s = rb_RR (Some q) s"
      using assms(1) root by (auto simp: insert_adjust_def rb_rep_plug)
    then show ?thesis using RR_rep [of s fs q cq y C p RED xp A "Nd a RED x l r"] assms(1) by (simp add: 3)
  next
    case 4
    then have "insert_adjust (Some (f_addr g)) (Some (f_addr f)) (Some a) s = rb_RL (Some q) s"
      using assms(1) root by (auto simp: insert_adjust_def rb_rep_plug)
    then show ?thesis using RL_rep [of s fs q cq y C p RED xp a RED x l r A] assms(1) by (simp add: 4)
  qed
qed

text \<open>The rotated tree may stand where \<open>fill g (fill f t)\<close> stood.\<close>

lemma rotated_ok:
  assumes "balanced (plug (f # g # fs) t)" and "no_red_red (plug (f # g # fs) t)"
    and "balanced (Nd a RED x l r)" and "bh (Nd a RED x l r) = bh t" and "no_red_red (Nd a RED x l r)"
    and "f_color f = RED" and "col (f_sib g) = BLACK"
  shows "balanced (plug fs (rotated f g a x l r))" and "no_red_red (plug fs (rotated f g a x l r))"
    and "col (plug fs (rotated f g a x l r)) = col (plug (f # g # fs) t)"
    and "inorder (rotated f g a x l r) = inorder (fill g (fill f (Nd a RED x l r)))"
proof -
  let ?t = "fill g (fill f t)"
  have b: "balanced ?t" "no_red_red ?t" using balanced_plug(1) [of fs ?t] no_red_red_plug(1) [of fs ?t] assms(1,2) by simp_all
  then have g: "f_color g = BLACK" using assms(6) color_cases by auto
  have "balanced (rotated f g a x l r) \<and> bh (rotated f g a x l r) = bh ?t"
    using b(1) assms(3,4,6,7) g by (cases f; cases g) auto
  then show "balanced (plug fs (rotated f g a x l r))"
    using balanced_plug(2) assms(1) by (metis plug.simps(2))
  have n: "no_red_red (rotated f g a x l r) \<and> col (rotated f g a x l r) = BLACK"
    using b(2) assms(5,6,7) g by (cases f; cases g) auto
  then show "no_red_red (plug fs (rotated f g a x l r))"
    using no_red_red_plug(2) assms(2) by (metis plug.simps(2))
  show "col (plug fs (rotated f g a x l r)) = col (plug (f # g # fs) t)"
    using n g by (simp add: col_plug)
  show "inorder (rotated f g a x l r) = inorder (fill g (fill f (Nd a RED x l r)))"
    by (cases f; cases g) simp_all
qed

section \<open>Reading the tree\<close>

lemma is_red_rep [simp]: "rep s f t \<Longrightarrow> is_red (addr t) s = Some (col t = RED)"
  by (cases t) (auto simp: is_red_def)

lemma black_or_null_rep [simp]: "rep s f t \<Longrightarrow> black_or_null (addr t) s = Some (col t = BLACK)"
  by (cases t) (auto simp: black_or_null_def)

lemma child_for_rep:
  "rb_rep s (plug fs (Nd a c x l r)) \<Longrightarrow> child_for k (Some a) s = Some (if k < fst x then addr l else addr r)"
  by (simp add: child_for_def rb_rep_plug)

fun hot :: "('k, 'v) rbt \<Rightarrow> bool" where
  "hot Lf \<longleftrightarrow> True"
| "hot (Nd a c x l r) \<longleftrightarrow> col l = RED \<and> col r = RED"

lemma flip_cold:
  assumes "rb_rep s (plug fs (Nd a c x l r))" and "\<not> hot (Nd a c x l r)"
  shows "flip_colors gp p (Some a) s = Some s"
proof -
  have r: "rep s (Some a) l" "rep s (Some a) r" and "rb_live s a" "rb_left s a = addr l" "rb_right s a = addr r"
    using assms(1) by (simp_all add: rb_rep_plug)
  then show ?thesis using assms(2) is_red_rep [OF r(1)] is_red_rep [OF r(2)] by (auto simp: flip_colors_def)
qed

lemma flip_hot:
  assumes "rb_rep s (plug fs (Nd a c x (Nd b RED y l1 l2) (Nd d RED z r1 r2)))"
  shows "\<exists>s'. flip_colors gp p (Some a) s = insert_adjust gp p (Some a) s' \<and>
     rb_rep s' (plug fs (Nd a RED x (Nd b BLACK y l1 l2) (Nd d BLACK z r1 r2))) \<and> kept s s'"
proof -
  let ?s = "s\<lparr>rb_color := (rb_color s)(d := BLACK, b := BLACK, a := RED)\<rparr>"
  have "flip_colors gp p (Some a) s = insert_adjust gp p (Some a) ?s"
    using assms by (simp add: rb_rep_plug flip_colors_def is_red_def rb_sets)
  moreover have "rb_rep ?s (plug fs (Nd a RED x (Nd b BLACK y l1 l2) (Nd d BLACK z r1 r2)))"
    using assms by (auto simp: rb_rep_plug)
  ultimately show ?thesis by (auto simp: kept_def)
qed

section \<open>First and last node\<close>

fun first_node :: "('k, 'v) rbt \<Rightarrow> rb_ptr" where
  "first_node Lf = None"
| "first_node (Nd a c x l r) = (if l = Lf then Some a else first_node l)"

fun last_node :: "('k, 'v) rbt \<Rightarrow> rb_ptr" where
  "last_node Lf = None"
| "last_node (Nd a c x l r) = (if r = Lf then Some a else last_node r)"

lemma leftmost_rep: "rep s f t \<Longrightarrow> t \<noteq> Lf \<Longrightarrow> leftmost (addr t) s = Some (first_node t)"
proof (induction t arbitrary: f)
  case (Nd a c x l r)
  then show ?case using Nd.IH(1) [of "Some a"] by (simp add: leftmost.simps [of "Some a"])
qed simp

lemma rightmost_rep: "rep s f t \<Longrightarrow> t \<noteq> Lf \<Longrightarrow> rightmost (addr t) s = Some (last_node t)"
proof (induction t arbitrary: f)
  case (Nd a c x l r)
  then show ?case using Nd.IH(2) [of "Some a"] by (simp add: rightmost.simps [of "Some a"])
qed simp

lemma set_ends_rep: "rb_rep s T \<Longrightarrow> set_ends s = Some (s\<lparr>rb_head := first_node T, rb_rear := last_node T\<rparr>)"
  using leftmost_rep [of s None T] rightmost_rep [of s None T]
  by (cases "T = Lf") (simp_all add: rb_rep_def set_ends_def rb_front_def rb_back_def)

lemma node_live: "rep s f t \<Longrightarrow> a \<in> set (addrs t) \<Longrightarrow> rb_live s a \<and> rb_data s a \<noteq> None"
  by (induction t arbitrary: f) auto

lemma rb_rep_live: "rb_rep s T \<Longrightarrow> a \<in> set (addrs T) \<Longrightarrow> rb_live s a \<and> rb_data s a \<noteq> None"
  using node_live by (auto simp: rb_rep_def)

section \<open>The loop\<close>

fun is_LF :: "('k, 'v) frame \<Rightarrow> bool" where
  "is_LF (LF a c x r) \<longleftrightarrow> True"
| "is_LF (RF a c x l) \<longleftrightarrow> False"

definition around :: "'k::linorder \<Rightarrow> ('k, 'v) frame list \<Rightarrow> bool" where
  "around k fs \<longleftrightarrow> (\<forall>e \<in> set (ctx_before fs). fst e < k) \<and> (\<forall>e \<in> set (ctx_after fs). k < fst e)"

definition insert_state :: "'k::linorder \<Rightarrow> rb_ptr \<Rightarrow> rb_ptr \<Rightarrow> ('k, 'v) frame list \<Rightarrow> ('k, 'v) rbt \<Rightarrow> ('k, 'v) rb_map \<Rightarrow> bool" where
  "insert_state k gp p fs t s \<longleftrightarrow>
     rb_rep s (plug fs t) \<and> rb_tree (plug fs t) \<and> col (plug fs t) = BLACK \<and> around k fs \<and> k \<notin> fst ` set (inorder t) \<and>
     (case fs of
        [] \<Rightarrow> t \<noteq> Lf \<and> p = addr t
      | f # fs' \<Rightarrow> p = Some (f_addr f) \<and> (col t = RED \<longrightarrow> col (f_sib f) = BLACK) \<and>
          (hot t \<longrightarrow> f_color f = RED \<longrightarrow>
             (\<exists>g fs''. fs' = g # fs'' \<and> col (f_sib g) = BLACK \<and> gp = Some (f_addr g))))"

text \<open>One step down from a node: the frame it leaves behind and the child.\<close>

fun down :: "'k::linorder \<Rightarrow> ('k, 'v) rbt \<Rightarrow> ('k, 'v) frame \<times> ('k, 'v) rbt" where
  "down k (Nd a c x l r) = (if k < fst x then (LF a c x r, l) else (RF a c x l, r))"
| "down k Lf = undefined"

lemma down_props:
  assumes "down k (Nd a c x l r) = (F, t')"
  shows "fill F t' = Nd a c x l r" "f_addr F = a" "f_color F = c" "size t' < size (Nd a c x l r)"
    "addr t' = (if k < fst x then addr l else addr r)" "t' = l \<and> f_sib F = r \<or> t' = r \<and> f_sib F = l"
  using assms by (auto split: if_splits)

lemma around_down:
  assumes "down k (Nd a c x l r) = (F, t')" and "around k fs" and "k \<notin> fst ` set (inorder (Nd a c x l r))"
    and "sorted_map (inorder (plug fs (Nd a c x l r)))"
  shows "around k (F # fs)" and "k \<notin> fst ` set (inorder t')"
proof -
  have srt: "\<And>e. e \<in> set (inorder l) \<Longrightarrow> fst e < fst x" "\<And>e. e \<in> set (inorder r) \<Longrightarrow> fst x < fst e"
    using assms(4) by (auto simp: sorted_map_def sorted_wrt_append)
  have "k \<noteq> fst x" using assms(3) by auto
  then have d: "k < fst x \<and> F = LF a c x r \<and> t' = l \<or> fst x < k \<and> F = RF a c x l \<and> t' = r"
    using assms(1) by (auto split: if_splits)
  have "k < fst x \<Longrightarrow> \<forall>e \<in> set (inorder r). k < fst e" "fst x < k \<Longrightarrow> \<forall>e \<in> set (inorder l). fst e < k"
    using srt by (meson less_trans)+
  then show "around k (F # fs)"
    using d assms(2) by (elim disjE) (simp_all add: around_def ball_Un)
  show "k \<notin> fst ` set (inorder t')" using d assms(3) by auto
qed

lemma insert_stateD:
  assumes "insert_state k gp p fs t s"
  shows "rb_rep s (plug fs t)" "rb_tree (plug fs t)" "col (plug fs t) = BLACK" "around k fs" "k \<notin> fst ` set (inorder t)"
    "fs = [] \<Longrightarrow> t \<noteq> Lf \<and> p = addr t"
    "fs = f # fs' \<Longrightarrow> p = Some (f_addr f) \<and> (col t = RED \<longrightarrow> col (f_sib f) = BLACK)"
    "fs = f # fs' \<Longrightarrow> hot t \<Longrightarrow> f_color f = RED \<Longrightarrow> \<exists>g fs''. fs' = g # fs'' \<and> col (f_sib g) = BLACK \<and> gp = Some (f_addr g)"
  using assms by (simp_all add: insert_state_def)

lemma rb_treeD:
  assumes "rb_tree (plug fs t)"
  shows "balanced (plug fs t)" "no_red_red (plug fs t)" "sorted_map (inorder (plug fs t))" "balanced t" "no_red_red t"
  using assms balanced_plug(1) [of fs t] no_red_red_plug(1) [of fs t] by (simp_all add: rb_tree_def)

lemma insert_loop_down:
  assumes flip: "flip_colors gp p (Some a) s = Some s1"
    and st: "rb_rep s1 (plug fs (Nd a c x l r))" "rb_tree (plug fs (Nd a c x l r))" "col (plug fs (Nd a c x l r)) = BLACK"
      "around (fst v) fs" "fst v \<notin> fst ` set (inorder (Nd a c x l r))"
    and d: "down (fst v) (Nd a c x l r) = (F, t')" and cold: "\<not> (col l = RED \<and> col r = RED)"
    and gp: "hot t' \<Longrightarrow> c = RED \<Longrightarrow> \<exists>g fs'. fs = g # fs' \<and> col (f_sib g) = BLACK \<and> p = Some (f_addr g)"
  shows "insert_loop v gp p (Some a) s = insert_loop v p (Some a) (addr t') s1"
    and "insert_state (fst v) p (Some a) (F # fs) t' s1"
proof -
  note dp = down_props [OF d]
  show "insert_loop v gp p (Some a) s = insert_loop v p (Some a) (addr t') s1"
    using flip child_for_rep [OF st(1), of "fst v"] dp(5) by (simp add: insert_loop.simps [of _ _ _ "Some a"])
  have "around (fst v) (F # fs)" "fst v \<notin> fst ` set (inorder t')"
    using around_down [OF d st(4,5)] st(2) by (simp_all add: rb_tree_def)
  moreover have "plug (F # fs) t' = plug fs (Nd a c x l r)" using dp(1) by simp
  moreover have "col t' = RED \<longrightarrow> col (f_sib F) = BLACK" using dp(6) cold color_cases by metis
  ultimately show "insert_state (fst v) p (Some a) (F # fs) t' s1"
    using st(1-3) dp(2,3) gp unfolding insert_state_def by simp
qed

lemma insert_step_cold:
  assumes st: "insert_state (fst v) gp p fs (Nd a c x l r) s" and cold: "\<not> hot (Nd a c x l r)"
    and d: "down (fst v) (Nd a c x l r) = (F, t')"
  shows "insert_loop v gp p (Some a) s = insert_loop v p (Some a) (addr t') s"
    and "insert_state (fst v) p (Some a) (F # fs) t' s"
proof -
  note I = insert_stateD [OF st]
  have "\<exists>g fs'. fs = g # fs' \<and> col (f_sib g) = BLACK \<and> p = Some (f_addr g)" if "c = RED"
  proof (cases fs)
    case Nil
    then show ?thesis using I(3) that by simp
  next
    case (Cons f fs')
    then show ?thesis using I(7) [OF Cons] that by simp
  qed
  then show "insert_loop v gp p (Some a) s = insert_loop v p (Some a) (addr t') s"
    "insert_state (fst v) p (Some a) (F # fs) t' s"
    using insert_loop_down [OF flip_cold [OF I(1) cold] I(1-5) d] cold by simp_all
qed

text \<open>After the repainting the children are black, with black children of their own.\<close>

lemma down_cold:
  assumes "down k (Nd a c x (Nd b BLACK y l1 l2) (Nd e BLACK z r1 r2)) = (F, t')"
    and "no_red_red (Nd a c' x (Nd b RED y l1 l2) (Nd e RED z r1 r2))"
  shows "\<not> hot t'" and "size t' < size (Nd a c' x (Nd b RED y l1 l2) (Nd e RED z r1 r2))"
  using assms by (auto split: if_splits)

text \<open>After a double rotation the search passes through a rotated node, which has black children.\<close>

lemma insert_loop_inner:
  assumes flip: "flip_colors gp p (Some a) s = Some s1"
    and st: "rb_rep s1 (plug fs (Nd a BLACK x X Y))" "rb_tree (plug fs (Nd a BLACK x X Y))" "col (plug fs (Nd a BLACK x X Y)) = BLACK"
      "around (fst v) fs" "fst v \<notin> fst ` set (inorder (Nd a BLACK x X Y))"
    and d: "down (fst v) (Nd a BLACK x X Y) = (F, Nd u RED xu m1 m2)" "col m1 = BLACK" "col m2 = BLACK"
      "down (fst v) (Nd u RED xu m1 m2) = (F', t')" "\<not> hot t'"
  shows "insert_loop v gp p (Some a) s = insert_loop v (Some a) (Some u) (addr t') s1"
    and "insert_state (fst v) (Some a) (Some u) (F' # F # fs) t' s1"
proof -
  note dp = down_props [OF d(1)]
  have first: "insert_loop v gp p (Some a) s = insert_loop v p (Some a) (Some u) s1"
    using flip child_for_rep [OF st(1), of "fst v"] dp(5) by (simp add: insert_loop.simps [of _ _ _ "Some a"])
  have plug: "plug (F # fs) (Nd u RED xu m1 m2) = plug fs (Nd a BLACK x X Y)" using dp(1) by simp
  have rep: "rb_rep s1 (plug (F # fs) (Nd u RED xu m1 m2))" using st(1) by (simp only: plug)
  have ar: "around (fst v) (F # fs)" "fst v \<notin> fst ` set (inorder (Nd u RED xu m1 m2))"
    using around_down [OF d(1) st(4,5)] st(2) by (simp_all add: rb_tree_def)
  have "\<not> hot (Nd u RED xu m1 m2)" using d(2) by simp
  note fl = flip_cold [OF rep this, of p "Some a"]
  show "insert_loop v gp p (Some a) s = insert_loop v (Some a) (Some u) (addr t') s1"
    "insert_state (fst v) (Some a) (Some u) (F' # F # fs) t' s1"
    using insert_loop_down [OF fl rep _ _ ar d(4)] d(2,5) st(2,3) first by (simp_all only: plug) simp_all
qed

lemma rotated_outer:
  assumes "is_LF f = is_LF g"
  obtains h where "rotated f g a x l r = fill h (Nd a RED x l r)" "f_addr h = f_addr f" "f_color h = BLACK"
    "ctx_before (h # fs) = ctx_before (f # g # fs)" "ctx_after (h # fs) = ctx_after (f # g # fs)"
proof (cases f; cases g)
  fix p cp xp A q cq y C assume e: "f = LF p cp xp A" "g = LF q cq y C"
  show thesis by (rule that [of "LF p BLACK xp (Nd q RED y A C)"]) (simp_all add: e)
next
  fix p cp xp A q cq y C assume e: "f = RF p cp xp A" "g = RF q cq y C"
  show thesis by (rule that [of "RF p BLACK xp (Nd q RED y C A)"]) (simp_all add: e)
qed (use assms in auto)

lemma rotated_inner:
  assumes "is_LF f \<noteq> is_LF g" and "f_color f = RED" and "around k (f # g # fs)"
  obtains u xu A w xw C where "rotated f g a x l r = Nd a BLACK x (Nd u RED xu A l) (Nd w RED xw r C)"
    "fst xu < k" "k < fst xw" "{A, C} = {f_sib f, f_sib g}"
    "ctx_before (f # g # fs) = ctx_before fs @ inorder A @ [xu]" "ctx_after (f # g # fs) = xw # inorder C @ ctx_after fs"
proof (cases f; cases g)
  fix p cp xp A q cq y C assume e: "f = RF p cp xp A" "g = LF q cq y C"
  show thesis by (rule that [of p xp A q y C]) (use assms in \<open>auto simp: e around_def\<close>)
next
  fix p cp xp A q cq y C assume e: "f = LF p cp xp A" "g = RF q cq y C"
  show thesis by (rule that [of q y C p xp A]) (use assms in \<open>auto simp: e around_def\<close>)
qed (use assms in auto)

text \<open>The same items in the same order, in the same nodes.\<close>

definition same_nodes :: "('k, 'v) rbt \<Rightarrow> ('k, 'v) rbt \<Rightarrow> bool" where
  "same_nodes T T' \<longleftrightarrow> inorder T = inorder T' \<and> set (addrs T) = set (addrs T')"

lemma same_nodes_refl [simp]: "same_nodes T T"
  by (simp add: same_nodes_def)

lemma same_nodes_trans: "same_nodes T1 T2 \<Longrightarrow> same_nodes T2 T3 \<Longrightarrow> same_nodes T1 T3"
  by (simp add: same_nodes_def)

definition insert_goes_down ::
    "'k::linorder \<times> 'v \<Rightarrow> rb_ptr \<Rightarrow> rb_ptr \<Rightarrow> ('k, 'v) frame list \<Rightarrow> ('k, 'v) rbt \<Rightarrow> ('k, 'v) rb_map \<Rightarrow> bool" where
  "insert_goes_down v gp p fs t s \<longleftrightarrow>
     (\<exists>gp' p' fs' t' s'. insert_loop v gp p (addr t) s = insert_loop v gp' p' (addr t') s' \<and>
        insert_state (fst v) gp' p' fs' t' s' \<and> size t' < size t \<and> kept s s' \<and>
        same_nodes (plug fs' t') (plug fs t))"

lemma no_red_red_black:
  "no_red_red (plug (f # fs) t) \<Longrightarrow> f_color f = BLACK \<Longrightarrow> no_red_red t' \<Longrightarrow> no_red_red (plug (f # fs) t')"
  using no_red_red_plug [of fs "fill f t"] by (simp add: color_cases)

lemma insert_step_hot:
  assumes st: "insert_state (fst v) gp p fs (Nd a c x (Nd b RED y l1 l2) (Nd e RED z r1 r2)) s"
  shows "insert_goes_down v gp p fs (Nd a c x (Nd b RED y l1 l2) (Nd e RED z r1 r2)) s"
proof -
  let ?t = "Nd a c x (Nd b RED y l1 l2) (Nd e RED z r1 r2)"
  let ?L = "Nd b BLACK y l1 l2" and ?R = "Nd e BLACK z r1 r2"
  note I = insert_stateD [OF st]
  note T = rb_treeD [OF I(2)]
  have c: "c = BLACK" using T(5) color_cases by auto
  obtain s1 where s1: "flip_colors gp p (Some a) s = insert_adjust gp p (Some a) s1"
    "rb_rep s1 (plug fs (Nd a RED x ?L ?R))" "kept s s1"
    using flip_hot [OF I(1)] by blast
  have nrr: "no_red_red (Nd a RED x ?L ?R)" "balanced (Nd a RED x ?L ?R)" "bh (Nd a RED x ?L ?R) = bh ?t"
    using T(4,5) by (simp_all add: c)
  have notin: "fst v \<notin> fst ` set (inorder (Nd a c' x ?L ?R))" for c' using I(5) by simp
  obtain F t' where d: "down (fst v) (Nd a RED x ?L ?R) = (F, t')" by fastforce
  note cold = down_cold [OF d T(5)]
  consider (root) "fs = []" | (black) f fs' where "fs = f # fs'" "f_color f = BLACK"
    | (red) f g fs' where "fs = f # g # fs'" "f_color f = RED" "col (f_sib g) = BLACK" "gp = Some (f_addr g)" "p = Some (f_addr f)"
    using I(7,8) color_cases by (cases fs) (force, auto)
  then show ?thesis
  proof cases
    case root
    have p: "p = Some a" using I(6) [OF root] by simp
    let ?s = "s1\<lparr>rb_color := (rb_color s1)(a := BLACK)\<rparr>"
    have "rb_color s1 a = RED \<and> rb_root s1 = Some a \<and> rb_live s1 a" using s1(2) unfolding root rb_rep_plug by simp
    then have fl: "flip_colors gp p (Some a) s = Some ?s"
      using s1(1) set_color_rep(1) [OF s1(2)] by (simp add: p insert_adjust_def)
    have rep: "rb_rep ?s (plug fs (Nd a BLACK x ?L ?R))" using set_color_rep(2) [OF s1(2)] .
    have tree: "rb_tree (plug fs (Nd a BLACK x ?L ?R))"
      using T(3-5) by (simp add: root rb_tree_def c)
    obtain F2 t2 where d2: "down (fst v) (Nd a BLACK x ?L ?R) = (F2, t2)" by fastforce
    have sn: "same_nodes (plug (F2 # fs) t2) (plug fs ?t)" by (simp add: same_nodes_def down_props(1) [OF d2])
    show ?thesis
      using insert_loop_down [OF fl rep tree _ I(4) notin d2] down_cold(2) [OF d2 T(5)] kept_trans [OF s1(3) set_color_rep(3) [OF s1(2)]]
        sn
      unfolding insert_goes_down_def by (intro exI [of _ p] exI [of _ "Some a"] exI [of _ "F2 # fs"] exI [of _ t2] exI [of _ ?s]) (simp add: root)
  next
    case black
    have p: "p = Some (f_addr f)" using I(7) [OF black(1)] by simp
    have fl: "flip_colors gp p (Some a) s = Some s1"
      using s1 insert_adjust_black [of s1 f fs'] black by (simp add: p)
    have "no_red_red (plug fs (Nd a RED x ?L ?R))" using no_red_red_black T(2) nrr(1) black(2) unfolding black(1) by blast
    then have tree: "rb_tree (plug fs (Nd a RED x ?L ?R))"
      using balanced_plug(2) [OF T(1) nrr(2,3)] T(3) by (simp add: rb_tree_def)
    have "col (plug fs (Nd a RED x ?L ?R)) = BLACK" using I(3) col_plug [of fs "Nd a RED x ?L ?R" ?t] by (simp add: black(1))
    moreover have sn: "same_nodes (plug (F # fs) t') (plug fs ?t)" by (simp add: same_nodes_def down_props(1) [OF d])
    ultimately show ?thesis
      using insert_loop_down [OF fl s1(2) tree _ I(4) notin d] cold s1(3)
      unfolding insert_goes_down_def by (intro exI [of _ p] exI [of _ "Some a"] exI [of _ "F # fs"] exI [of _ t'] exI [of _ s1]) simp
  next
    case red
    have rep1: "rb_rep s1 (plug (f # g # fs') (Nd a RED x ?L ?R))" using s1(2) by (simp only: red(1))
    obtain s2 where s2: "insert_adjust gp p (Some a) s1 = Some s2" "rb_rep s2 (plug fs' (rotated f g a x ?L ?R))" "kept s1 s2"
      using insert_adjust_red [OF rep1 red(2)] red(4,5) by auto
    have fl: "flip_colors gp p (Some a) s = Some s2" using s1(1) s2(1) by simp
    have keep: "kept s s2" using kept_trans [OF s1(3) s2(3)] .
    note R = rotated_ok [OF T(1,2) [unfolded red(1)] nrr(2,3,1) red(2,3)]
    have io: "inorder (plug fs' (rotated f g a x ?L ?R)) = inorder (plug fs ?t)"
      using R(4) by (cases f; cases g) (simp_all add: red(1))
    have sn: "same_nodes (plug fs' (rotated f g a x ?L ?R)) (plug fs ?t)"
      using io by (cases f; cases g) (auto simp: same_nodes_def red(1))
    have tree: "rb_tree (plug fs' (rotated f g a x ?L ?R))" "col (plug fs' (rotated f g a x ?L ?R)) = BLACK"
      using R(1-3) T(3) I(3) io by (simp_all add: rb_tree_def red(1) del: inorder_plug)
    have ar: "around (fst v) (f # g # fs')" using I(4) by (simp only: red(1))
    show ?thesis
    proof (cases "is_LF f = is_LF g")
      case True
      then obtain h where h: "rotated f g a x ?L ?R = fill h (Nd a RED x ?L ?R)" "f_addr h = f_addr f" "f_color h = BLACK"
        "ctx_before (h # fs') = ctx_before (f # g # fs')" "ctx_after (h # fs') = ctx_after (f # g # fs')"
        by (rule rotated_outer)
      have st: "rb_rep s2 (plug (h # fs') (Nd a RED x ?L ?R))" "rb_tree (plug (h # fs') (Nd a RED x ?L ?R))"
        "col (plug (h # fs') (Nd a RED x ?L ?R)) = BLACK" "around (fst v) (h # fs')"
        using s2(2) tree ar h(4,5) by (simp_all add: h(1) around_def)
      have "same_nodes (plug (F # h # fs') t') (plug fs ?t)"
        using sn down_props(1) [OF d] by (simp add: h(1))
      then show ?thesis
        using insert_loop_down [OF fl st notin d] cold keep
        unfolding insert_goes_down_def
        by (intro exI [of _ p] exI [of _ "Some a"] exI [of _ "F # h # fs'"] exI [of _ t'] exI [of _ s2]) simp
    next
      case False
      then obtain u xu A w xw C where i: "rotated f g a x ?L ?R = Nd a BLACK x (Nd u RED xu A ?L) (Nd w RED xw ?R C)"
        "fst xu < fst v" "fst v < fst xw" "{A, C} = {f_sib f, f_sib g}"
        "ctx_before (f # g # fs') = ctx_before fs' @ inorder A @ [xu]" "ctx_after (f # g # fs') = xw # inorder C @ ctx_after fs'"
        using red(2) ar by (rule rotated_inner)
      have st: "rb_rep s2 (plug fs' (Nd a BLACK x (Nd u RED xu A ?L) (Nd w RED xw ?R C)))"
        "rb_tree (plug fs' (Nd a BLACK x (Nd u RED xu A ?L) (Nd w RED xw ?R C)))"
        "col (plug fs' (Nd a BLACK x (Nd u RED xu A ?L) (Nd w RED xw ?R C))) = BLACK"
        using s2(2) tree by (simp_all only: i(1))
      have "\<forall>e \<in> set (inorder A). fst e < fst v" "\<forall>e \<in> set (inorder C). fst v < fst e"
        using ar unfolding around_def i(5,6) by simp_all
      then have AC: "fst v \<notin> fst ` set (inorder A)" "fst v \<notin> fst ` set (inorder C)" by (metis imageE less_irrefl)+
      have ar': "around (fst v) fs'" "fst v \<notin> fst ` set (inorder (Nd a BLACK x (Nd u RED xu A ?L) (Nd w RED xw ?R C)))"
        using ar I(5) i(2,3) AC unfolding around_def i(5,6) by (auto simp: ball_Un image_Un)
      have black: "col A = BLACK" "col C = BLACK" using rb_treeD(5) [OF st(2)] by auto
      show ?thesis
      proof (cases "fst v < fst x")
        case True
        have d: "down (fst v) (Nd a BLACK x (Nd u RED xu A ?L) (Nd w RED xw ?R C))
            = (LF a BLACK x (Nd w RED xw ?R C), Nd u RED xu A ?L)" "down (fst v) (Nd u RED xu A ?L) = (RF u RED xu A, ?L)"
          using True i(2) by simp_all
        have "\<not> hot ?L" using T(5) by simp
        then show ?thesis
          using insert_loop_inner [OF fl st ar' d(1) black(1) _ d(2)] keep sn
          unfolding insert_goes_down_def i(1)
          by (intro exI [of _ "Some a"] exI [of _ "Some u"] exI [of _ "RF u RED xu A # LF a BLACK x (Nd w RED xw ?R C) # fs'"]
              exI [of _ ?L] exI [of _ s2]) simp
      next
        case False
        have d: "down (fst v) (Nd a BLACK x (Nd u RED xu A ?L) (Nd w RED xw ?R C))
            = (RF a BLACK x (Nd u RED xu A ?L), Nd w RED xw ?R C)" "down (fst v) (Nd w RED xw ?R C) = (LF w RED xw C, ?R)"
          using False i(3) by simp_all
        have "\<not> hot ?R" using T(5) by simp
        then show ?thesis
          using insert_loop_inner [OF fl st ar' d(1) _ black(2) d(2)] keep sn
          unfolding insert_goes_down_def i(1)
          by (intro exI [of _ "Some a"] exI [of _ "Some w"] exI [of _ "LF w RED xw C # RF a BLACK x (Nd u RED xu A ?L) # fs'"]
              exI [of _ ?R] exI [of _ s2]) simp
      qed
    qed
  qed
qed

section \<open>The new leaf\<close>

text \<open>The state after the allocation and the linking of the new node.\<close>

lemma insert_adjust_leaf:
  assumes st: "insert_state (fst v) gp p fs Lf s" and rep: "rb_rep s1 (plug fs (Nd n RED v Lf Lf))"
  shows "\<exists>s' T. insert_adjust gp p (Some n) s1 = Some s' \<and> rb_rep s' T \<and> kept s1 s' \<and> rb_tree T \<and> col T = BLACK \<and>
     same_nodes T (plug fs (Nd n RED v Lf Lf))"
proof -
  note I = insert_stateD [OF st]
  note T = rb_treeD [OF I(2)]
  let ?N = "Nd n RED v Lf Lf"
  obtain f fs1 where fs: "fs = f # fs1" using I(6) by (cases fs) auto
  have p: "p = Some (f_addr f)" using I(7) [OF fs] by simp
  have srt: "sorted_map (inorder (plug fs ?N))"
    using T(3) I(4) by (auto simp: sorted_map_def around_def sorted_wrt_append)
  have N: "balanced ?N" "bh ?N = bh (Lf :: ('a, 'b) rbt)" "no_red_red ?N" by simp_all
  have bal: "balanced (plug fs ?N)" using balanced_plug(2) [OF T(1) N(1,2)] .
  show ?thesis
  proof (cases "f_color f")
    case BLACK
    have "no_red_red (plug fs ?N)" using no_red_red_black T(2) N(3) BLACK unfolding fs by blast
    moreover have "col (plug fs ?N) = BLACK" using I(3) col_plug [of fs ?N Lf] by (simp add: fs)
    moreover have "insert_adjust gp p (Some n) s1 = Some s1" using insert_adjust_black rep BLACK unfolding fs p by blast
    ultimately show ?thesis using rep bal srt
      by (intro exI [of _ s1] exI [of _ "plug fs ?N"]) (simp add: rb_tree_def)
  next
    case RED
    then obtain g fs2 where g: "fs1 = g # fs2" "col (f_sib g) = BLACK" "gp = Some (f_addr g)"
      using I(8) [OF fs] by auto
    note R = rotated_ok [OF T(1,2) [unfolded fs g(1)] N RED g(2)]
    obtain s' where s': "insert_adjust gp p (Some n) s1 = Some s'" "rb_rep s' (plug fs2 (rotated f g n v Lf Lf))" "kept s1 s'"
      using insert_adjust_red [OF rep [unfolded fs g(1)] RED] unfolding p g(3) by blast
    have sn: "same_nodes (plug fs2 (rotated f g n v Lf Lf)) (plug fs ?N)"
      using R(4) by (cases f; cases g) (auto simp: same_nodes_def fs g(1))
    then have "rb_tree (plug fs2 (rotated f g n v Lf Lf))"
      using R(1,2) srt by (simp add: rb_tree_def same_nodes_def del: inorder_plug)
    then show ?thesis using s' sn R(3) I(3) by (intro exI [of _ s'] exI [of _ "plug fs2 (rotated f g n v Lf Lf)"]) (simp add: fs g(1))
  qed
qed

text \<open>The effect of a successful insertion on the fields outside the tree.\<close>

definition inserted :: "'k \<times> 'v \<Rightarrow> ('k, 'v) rb_map \<Rightarrow> ('k, 'v) rb_map \<Rightarrow> bool" where
  "inserted v s s' \<longleftrightarrow> rb_live s' = (rb_live s)(rb_fresh s := True) \<and> rb_data s' = (rb_data s)(rb_fresh s \<mapsto> v) \<and>
     rb_end s' = rb_end s \<and> rb_len s' = rb_len s + 1 \<and> rb_fresh s' = Suc (rb_fresh s)"

lemma insert_leaf:
  assumes st: "insert_state (fst v) gp p fs Lf s" and fresh: "\<forall>a. rb_live s a \<longrightarrow> a < rb_fresh s"
  shows "\<exists>s' T. insert_loop v gp p None s = Some s' \<and> rb_rep s' T \<and> rb_tree T \<and> col T = BLACK \<and>
     inorder T = ctx_before fs @ v # ctx_after fs \<and> set (addrs T) = insert (rb_fresh s) (set (addrs (plug fs Lf))) \<and>
     rb_head s' = first_node T \<and> rb_rear s' = last_node T \<and> inserted v s s'"
proof -
  note I = insert_stateD [OF st]
  let ?n = "rb_fresh s"
  obtain f fs1 where fs: "fs = f # fs1" using I(6) by (cases fs) auto
  have p: "p = Some (f_addr f)" using I(7) [OF fs] by simp
  define s1 where "s1 = (snd (new_NODE (Some v) RED p s))\<lparr>rb_len := rb_len s + 1\<rparr>"
  have nfresh: "?n \<notin> set (ctx_addrs fs)"
    using rb_rep_live [OF I(1), of ?n] fresh by auto
  have rep0: "rep_ctx s None fs" "distinct (ctx_addrs fs)" "rb_root s = ctx_root fs None" using I(1) by (simp_all add: rb_rep_plug)
  have ctx: "rep_ctx s1 None fs"
  proof -
    have "rep_ctx s1 None fs = rep_ctx s None fs"
    proof (rule rept_ctx_cong)
      fix b assume "b \<in> set (ctx_addrs fs)"
      then have "b \<noteq> ?n" using nfresh by blast
      then show "rb_live s1 b = rb_live s b \<and> rb_data s1 b = rb_data s b \<and> rb_left s1 b = rb_left s b \<and> rb_right s1 b = rb_right s b \<and>
          rb_fa s1 b = rb_fa s b \<and> rb_color s1 b = rb_color s b"
        by (simp add: s1_def new_NODE_def Let_def)
    qed
    then show ?thesis using rep0(1) by simp
  qed
  have s1: "rb_live s1 ?n" "rb_data s1 ?n = Some v" "rb_left s1 ?n = None" "rb_right s1 ?n = None" "rb_fa s1 ?n = p"
    "rb_color s1 ?n = RED" "rb_root s1 = rb_root s" "inserted v s s1"
    by (simp_all add: s1_def new_NODE_def Let_def inserted_def)
  have key: "rb_key p s1 = Some (fst (f_item f))" and side: "fst v < fst (f_item f) \<longleftrightarrow> is_LF f"
    using ctx I(4) by (cases f; force simp: fs p around_def)+
  obtain s0 where alloc: "new_NODE (Some v) RED p s = (Some ?n, s0)" and s0: "s0\<lparr>rb_len := rb_len s0 + 1\<rparr> = s1"
    by (simp add: s1_def new_NODE_def Let_def)
  define s2 where "s2 = (if is_LF f then s1\<lparr>rb_left := (rb_left s1)(f_addr f \<mapsto> ?n)\<rparr> else s1\<lparr>rb_right := (rb_right s1)(f_addr f \<mapsto> ?n)\<rparr>)"
  have link: "(if fst v < fst (f_item f) then set_left p (Some ?n) s1 else set_right p (Some ?n) s1) = Some s2"
    using ctx unfolding side by (cases f) (simp_all add: fs p rb_sets s2_def)
  have rep2: "rb_rep s2 (plug fs (Nd ?n RED v Lf Lf))"
    using ctx s1 rep0(2,3) nfresh by (cases f) (auto simp: rb_rep_plug s2_def fs p)
  have ins2: "inserted v s s2" using s1(8) by (simp add: s2_def inserted_def)
  obtain s3 T where s3: "insert_adjust gp p (Some ?n) s2 = Some s3" "rb_rep s3 T" "kept s2 s3" "rb_tree T" "col T = BLACK"
    "same_nodes T (plug fs (Nd ?n RED v Lf Lf))"
    using insert_adjust_leaf [OF st rep2] by blast
  have io: "inorder T = ctx_before fs @ v # ctx_after fs" "set (addrs T) = insert ?n (set (addrs (plug fs Lf)))"
    using s3(6) by (simp_all add: same_nodes_def)
  obtain a x l r where T: "T = Nd a BLACK x l r" using io(1) s3(5) by (cases T) auto
  let ?s4 = "s3\<lparr>rb_color := (rb_color s3)(a := BLACK)\<rparr>"
  have root: "set_color (rb_root s3) BLACK s3 = Some ?s4" and rep4: "rb_rep ?s4 T"
    using set_color_rep [of s3 "[]" a BLACK x l r BLACK] s3(2) by (simp_all add: T rb_rep_def)
  let ?s5 = "?s4\<lparr>rb_head := first_node T, rb_rear := last_node T\<rparr>"
  have "insert_loop v gp p None s = Some ?s5"
    using key link s3(1) root set_ends_rep [OF rep4] s0
    unfolding insert_loop.simps [of _ _ _ None] alloc by simp
  moreover have "rb_rep ?s5 T" using rep4 by (simp add: rb_rep_def)
  moreover have "inserted v s ?s5" using ins2 s3(3) by (simp add: inserted_def kept_def)
  ultimately show ?thesis using s3(4,5) io by (intro exI [of _ ?s5] exI [of _ T]) simp
qed

section \<open>Insertion\<close>

lemma insert_goes_down_node:
  assumes "insert_state (fst v) gp p fs (Nd a c x l r) s"
  shows "insert_goes_down v gp p fs (Nd a c x l r) s"
proof (cases "hot (Nd a c x l r)")
  case True
  then obtain b y l1 l2 e z r1 r2 where "l = Nd b RED y l1 l2" "r = Nd e RED z r1 r2"
    using col_RED_D by fastforce
  then show ?thesis using insert_step_hot assms by blast
next
  case False
  obtain F t' where d: "down (fst v) (Nd a c x l r) = (F, t')" by fastforce
  show ?thesis
    using insert_step_cold [OF assms False d] down_props(1,4) [OF d]
    unfolding insert_goes_down_def
    by (intro exI [of _ p] exI [of _ "Some a"] exI [of _ "F # fs"] exI [of _ t'] exI [of _ s]) simp
qed

lemma insert_loop_ok:
  assumes "insert_state (fst v) gp p fs t s" and "\<forall>a. rb_live s a \<longrightarrow> a < rb_fresh s"
  shows "\<exists>s' T ys zs. insert_loop v gp p (addr t) s = Some s' \<and> rb_rep s' T \<and> rb_tree T \<and> col T = BLACK \<and>
     inorder (plug fs t) = ys @ zs \<and> inorder T = ys @ v # zs \<and>
     set (addrs T) = insert (rb_fresh s) (set (addrs (plug fs t))) \<and>
     rb_head s' = first_node T \<and> rb_rear s' = last_node T \<and> inserted v s s'"
  using assms
proof (induction "size t" arbitrary: gp p fs t s rule: less_induct)
  case less
  show ?case
  proof (cases t)
    case Lf
    obtain s' T where r: "insert_loop v gp p None s = Some s'" "rb_rep s' T" "rb_tree T" "col T = BLACK"
      "inorder T = ctx_before fs @ v # ctx_after fs" "set (addrs T) = insert (rb_fresh s) (set (addrs (plug fs Lf)))"
      "rb_head s' = first_node T" "rb_rear s' = last_node T" "inserted v s s'"
      using insert_leaf [OF less.prems [unfolded Lf]] by blast
    show ?thesis
      by (intro exI [of _ s'] exI [of _ T] exI [of _ "ctx_before fs"] exI [of _ "ctx_after fs"]) (use r Lf in simp)
  next
    case (Nd a c x l r)
    obtain gp' p' fs' t' s1 where d: "insert_loop v gp p (addr t) s = insert_loop v gp' p' (addr t') s1"
      "insert_state (fst v) gp' p' fs' t' s1" "size t' < size t" "kept s s1" "same_nodes (plug fs' t') (plug fs t)"
      using insert_goes_down_node less.prems(1) unfolding Nd insert_goes_down_def by blast
    have fr: "\<forall>a. rb_live s1 a \<longrightarrow> a < rb_fresh s1" "rb_fresh s1 = rb_fresh s" and ins: "inserted v s1 s' \<Longrightarrow> inserted v s s'" for s'
      using d(4) less.prems(2) by (simp_all add: kept_def inserted_def)
    have "inorder (plug fs' t') = inorder (plug fs t)" "set (addrs (plug fs' t')) = set (addrs (plug fs t))"
      using d(5) by (simp_all only: same_nodes_def)
    then show ?thesis
      using less.hyps [OF d(3,2) fr(1)] unfolding d(1) fr(2) by (metis ins)
  qed
qed

text \<open>A map that holds the tree \<open>T\<close>: the nodes of the tree and \<^verbatim>\<open>end_node\<close> are all that is allocated.\<close>

definition rbm_ok :: "('k::linorder, 'v) rb_map \<Rightarrow> ('k, 'v) rbt \<Rightarrow> bool" where
  "rbm_ok s T \<longleftrightarrow> rb_rep s T \<and> rb_tree T \<and> col T = BLACK \<and> rb_len s = int (length (inorder T)) \<and>
     rb_head s = first_node T \<and> rb_rear s = last_node T \<and>
     (\<exists>e. rb_end s = Some e \<and> e \<notin> set (addrs T) \<and> (\<forall>a. rb_live s a \<longleftrightarrow> a \<in> set (addrs T) \<or> a = e)) \<and>
     (\<forall>a. rb_live s a \<longrightarrow> a < rb_fresh s)"

lemma rbm_okD:
  assumes "rbm_ok s T"
  shows "rb_rep s T" "rb_tree T" "col T = BLACK" "rb_len s = int (length (inorder T))" "rb_head s = first_node T"
    "rb_rear s = last_node T" "\<forall>a. rb_live s a \<longrightarrow> a < rb_fresh s" "sorted_map (inorder T)"
    "\<exists>e. rb_end s = Some e \<and> e \<notin> set (addrs T) \<and> (\<forall>a. rb_live s a \<longleftrightarrow> a \<in> set (addrs T) \<or> a = e)"
  using assms by (simp_all add: rbm_ok_def rb_tree_def)

lemma rbm_ok_inserted:
  assumes ok: "rbm_ok s T" and ins: "inserted v s s'" and T': "rb_rep s' T'" "rb_tree T'" "col T' = BLACK"
    "inorder T = ys @ zs" "inorder T' = ys @ v # zs" "set (addrs T') = insert (rb_fresh s) (set (addrs T))"
    "rb_head s' = first_node T'" "rb_rear s' = last_node T'"
  shows "rbm_ok s' T'"
proof -
  obtain e where e: "rb_end s = Some e" "e \<notin> set (addrs T)" "\<forall>a. rb_live s a \<longleftrightarrow> a \<in> set (addrs T) \<or> a = e"
    using rbm_okD(9) [OF ok] by blast
  have "e < rb_fresh s" using e(3) rbm_okD(7) [OF ok] by simp
  then have "\<exists>e. rb_end s' = Some e \<and> e \<notin> set (addrs T') \<and> (\<forall>a. rb_live s' a \<longleftrightarrow> a \<in> set (addrs T') \<or> a = e)"
    using e ins T'(6) by (auto simp: inserted_def)
  moreover have "\<forall>a. rb_live s' a \<longrightarrow> a < rb_fresh s'"
    using ins rbm_okD(7) [OF ok] by (auto simp: inserted_def less_Suc_eq)
  moreover have "rb_len s' = int (length (inorder T'))"
    using ins rbm_okD(4) [OF ok] T'(4,5) by (simp add: inserted_def)
  ultimately show ?thesis using T' by (simp add: rbm_ok_def)
qed

theorem rb_insert_ok:
  assumes ok: "rbm_ok s T" and new: "fst v \<notin> fst ` set (inorder T)"
  shows "\<exists>s' T' ys zs. rb_insert v s = Some s' \<and> rbm_ok s' T' \<and> inorder T = ys @ zs \<and> inorder T' = ys @ v # zs"
proof (cases T)
  case Lf
  let ?n = "rb_fresh s"
  let ?s = "(snd (new_NODE (Some v) BLACK None s))\<lparr>rb_root := Some ?n, rb_head := Some ?n, rb_rear := Some ?n, rb_len := rb_len s + 1\<rparr>"
  have "rb_root s = None" using rbm_okD(1) [OF ok] by (simp add: Lf rb_rep_def)
  then have "rb_insert v s = Some ?s" by (simp add: rb_insert_def new_NODE_def Let_def)
  moreover have "rbm_ok ?s (Nd ?n BLACK v Lf Lf)"
    by (rule rbm_ok_inserted [OF ok, where ys = "[]" and zs = "[]" and v = v])
      (simp_all add: Lf inserted_def new_NODE_def Let_def rb_rep_def rb_tree_def sorted_map_def)
  ultimately show ?thesis by (intro exI [of _ ?s] exI [of _ "Nd ?n BLACK v Lf Lf"]) (simp add: Lf)
next
  case (Nd a c x l r)
  have root: "rb_root s = Some a" using rbm_okD(1) [OF ok] by (simp add: Nd rb_rep_def)
  have st: "insert_state (fst v) (Some a) (Some a) [] T s"
    using rbm_okD(1-3) [OF ok] new by (simp add: insert_state_def around_def Nd)
  obtain s' T' ys zs where r: "insert_loop v (Some a) (Some a) (addr T) s = Some s'" "rb_rep s' T'" "rb_tree T'" "col T' = BLACK"
    "inorder (plug [] T) = ys @ zs" "inorder T' = ys @ v # zs" "set (addrs T') = insert (rb_fresh s) (set (addrs (plug [] T)))"
    "rb_head s' = first_node T'" "rb_rear s' = last_node T'" "inserted v s s'"
    using insert_loop_ok [OF st rbm_okD(7) [OF ok]] by metis
  have "rbm_ok s' T'" using rbm_ok_inserted [OF ok r(10,2-4) _ r(6) _ r(8,9)] r(5,7) by simp
  then show ?thesis using r(1,5,6) root by (intro exI [of _ s'] exI [of _ T'] exI [of _ ys] exI [of _ zs]) (simp add: rb_insert_def Nd)
qed

end
