(* ===== verification/RedBlackRemove.thy ===== *)
theory RedBlackRemove
  imports RedBlackInsert
begin

text \<open>
  Removal from the red-black tree. On the way down \<^verbatim>\<open>remove_adjust\<close> makes the current node red, so
  that the node taken out in the end is a red leaf. A node with two children changes places with
  its successor, and the search goes on below it.
\<close>

section \<open>States\<close>

text \<open>
  \<open>remove_state\<close>: before \<^verbatim>\<open>remove_adjust\<close>; the current node or its parent is red, or the node is the root.
  \<open>adjusted_state\<close>: after it; the node is red, or it is the one to remove and its right child is red.
\<close>

definition keys_once :: "('k, 'v) rbt \<Rightarrow> bool" where
  "keys_once T \<longleftrightarrow> distinct (map fst (inorder T))"

definition tree_state :: "'k::linorder \<Rightarrow> ('k, 'v) frame list \<Rightarrow> ('k, 'v) rbt \<Rightarrow> ('k, 'v) rb_map \<Rightarrow> bool" where
  "tree_state del fs t s \<longleftrightarrow> rb_rep s (plug fs t) \<and> balanced (plug fs t) \<and> no_red_red (plug fs t) \<and> keys_once (plug fs t) \<and>
     sorted_map (inorder t) \<and> del \<in> fst ` set (inorder t)"

definition remove_state ::
    "'k::linorder \<Rightarrow> rb_ptr \<Rightarrow> rb_ptr \<Rightarrow> ('k, 'v) frame list \<Rightarrow> ('k, 'v) rbt \<Rightarrow> ('k, 'v) rb_map \<Rightarrow> bool" where
  "remove_state del p t2 fs t s \<longleftrightarrow> tree_state del fs t s \<and>
     (case fs of
        [] \<Rightarrow> col t = BLACK \<and> (\<forall>a c x. t \<noteq> Nd a c x Lf Lf)
      | f # fs' \<Rightarrow> p = Some (f_addr f) \<and> t2 = addr (f_sib f) \<and> (col t = RED \<or> f_color f = RED))"

fun ready :: "'k::linorder \<Rightarrow> ('k, 'v) rbt \<Rightarrow> bool" where
  "ready del Lf \<longleftrightarrow> False"
| "ready del (Nd a c x l r) \<longleftrightarrow> c = RED \<or> fst x = del \<and> l \<noteq> Lf \<and> col r = RED"

fun two_kids :: "('k, 'v) rbt \<Rightarrow> bool" where
  "two_kids Lf \<longleftrightarrow> False"
| "two_kids (Nd a c x l r) \<longleftrightarrow> l \<noteq> Lf \<and> r \<noteq> Lf"

definition adjusted_state :: "'k::linorder \<Rightarrow> rb_ptr \<Rightarrow> ('k, 'v) frame list \<Rightarrow> ('k, 'v) rbt \<Rightarrow> ('k, 'v) rb_map \<Rightarrow> bool" where
  "adjusted_state del p fs t s \<longleftrightarrow> tree_state del fs t s \<and> ready del t \<and>
     (case fs of [] \<Rightarrow> two_kids t | f # fs' \<Rightarrow> p = Some (f_addr f))"

definition adjusts_to ::
    "'k::linorder \<Rightarrow> ('k, 'v) frame list \<Rightarrow> ('k, 'v) rbt \<Rightarrow> ('k, 'v) rb_map \<Rightarrow> ('k, 'v) rb_cursor option \<Rightarrow> bool" where
  "adjusts_to del fs t s result \<longleftrightarrow>
     (\<exists>p' t2' fs' t' s'. result = Some (p', addr t', t2', s') \<and> adjusted_state del p' fs' t' s' \<and> size t' \<le> size t \<and>
        kept s s' \<and> same_nodes (plug fs' t') (plug fs t))"

lemma tree_stateD:
  assumes "tree_state del fs t s"
  shows "rb_rep s (plug fs t)" "balanced (plug fs t)" "no_red_red (plug fs t)" "keys_once (plug fs t)"
    "sorted_map (inorder t)" "del \<in> fst ` set (inorder t)" "balanced t" "no_red_red t"
  using assms balanced_plug(1) [of fs t] no_red_red_plug(1) [of fs t] by (simp_all add: tree_state_def)

lemma black_kids_rep:
  assumes "rep s f (Nd a c x l r)"
  shows "black_kids (Some a) s = Some (col l = BLACK \<and> col r = BLACK)"
proof -
  have "rep s (Some a) l" "rep s (Some a) r" using assms by simp_all
  then show ?thesis using assms black_or_null_rep [of s _ l] black_or_null_rep [of s _ r]
    by (simp add: black_kids_def)
qed

text \<open>A subtree may be replaced by one with the same items, the same black height and no new red root.\<close>

lemma adjusts_toI:
  assumes st: "tree_state del fs t s" and res: "result = Some (p', addr t', t2', s')"
    and old: "plug fs t = plug hs T" and new: "plug fs' t' = plug hs T'"
    and T': "balanced T \<Longrightarrow> balanced T' \<and> bh T' = bh T" "no_red_red T \<Longrightarrow> no_red_red T'" "col T' = BLACK \<or> col T' = col T"
      "same_nodes T' T"
    and rep: "rb_rep s' (plug fs' t')" and keep: "kept s s'"
    and t': "sorted_map (inorder t')" "del \<in> fst ` set (inorder t')" "ready del t'" "size t' \<le> size t"
    and p': "case fs' of [] \<Rightarrow> two_kids t' | f # fs'' \<Rightarrow> p' = Some (f_addr f)"
  shows "adjusts_to del fs t s result"
proof -
  note S = tree_stateD [OF st]
  have T: "balanced (plug hs T)" "no_red_red (plug hs T)" using S(2,3) old by simp_all
  have "balanced (plug hs T')" using balanced_plug(2) [OF T(1), of T'] balanced_plug(1) [OF T(1)] T'(1) by blast
  moreover have "no_red_red (plug hs T')" using no_red_red_plug(2) [OF T(2), of T'] no_red_red_plug(1) [OF T(2)] T'(2,3) by blast
  moreover have sn: "same_nodes (plug hs T') (plug hs T)" using T'(4) by (simp add: same_nodes_def)
  moreover have "keys_once (plug hs T')" using S(4) sn unfolding old keys_once_def same_nodes_def by (simp only:)
  ultimately have "adjusted_state del p' fs' t' s'"
    using rep t' p' unfolding adjusted_state_def tree_state_def new [symmetric] by simp
  moreover have "same_nodes (plug fs' t') (plug fs t)" using sn unfolding old new .
  ultimately show ?thesis using res keep t'(4) unfolding adjusts_to_def by blast
qed

section \<open>A black node with black children\<close>

lemma adjust_black_recolor:
  assumes st: "tree_state del (f # fs) (Nd a BLACK x l r) s" and f: "f_color f = RED" "f_sib f = Nd e BLACK z n1 n2"
    and black: "col l = BLACK" "col r = BLACK" "col n1 = BLACK" "col n2 = BLACK"
  shows "adjusts_to del (f # fs) (Nd a BLACK x l r) s (adjust_black (Some (f_addr f)) (Some a) (Some e) s)"
proof -
  note S = tree_stateD [OF st]
  let ?s = "s\<lparr>rb_color := (rb_color s)(f_addr f := BLACK, e := RED, a := RED)\<rparr>"
  define h where "h = (case f of LF p c y u \<Rightarrow> LF p BLACK y (Nd e RED z n1 n2) | RF p c y u \<Rightarrow> RF p BLACK y (Nd e RED z n1 n2))"
  have "\<exists>q. rep s q (Nd e BLACK z n1 n2)" using S(1) f(2) by (cases f) (auto simp: rb_rep_plug)
  then have bk: "black_kids (Some e) s = Some True" using black_kids_rep black(3,4) by fastforce
  have res: "adjust_black (Some (f_addr f)) (Some a) (Some e) s = Some (Some (f_addr f), addr (Nd a RED x l r), Some e, ?s)"
    using bk S(1) f by (cases f) (auto simp: adjust_black_def rb_rep_plug rb_sets)
  show ?thesis
  proof (rule adjusts_toI [OF st res, where hs = fs and fs' = "h # fs" and T = "fill f (Nd a BLACK x l r)" and T' = "fill h (Nd a RED x l r)"])
    show "rb_rep ?s (plug (h # fs) (Nd a RED x l r))"
      using S(1) f by (cases f) (auto simp: h_def rb_rep_plug)
    show "same_nodes (fill h (Nd a RED x l r)) (fill f (Nd a BLACK x l r))"
      using f(2) by (cases f) (simp_all add: h_def same_nodes_def)
    show "balanced (fill h (Nd a RED x l r)) \<and> bh (fill h (Nd a RED x l r)) = bh (fill f (Nd a BLACK x l r))"
      if "balanced (fill f (Nd a BLACK x l r))" using that f by (cases f) (auto simp: h_def)
  qed (use S(5,6) f black in \<open>cases f; simp add: h_def kept_def; fail\<close>)+
qed

text \<open>The sibling has a red child: a rotation at the parent.\<close>

lemma adjust_black_LL:
  assumes st: "tree_state del (RF p RED y (Nd e BLACK z (Nd b RED w b1 b2) n2) # fs) (Nd a BLACK x l r) s" and black: "col l = BLACK" "col r = BLACK"
  shows "adjusts_to del (RF p RED y (Nd e BLACK z (Nd b RED w b1 b2) n2) # fs) (Nd a BLACK x l r) s (adjust_black (Some p) (Some a) (Some e) s)"
proof -
  note S = tree_stateD [OF st]
  obtain s1 where s1: "rb_LL (Some p) s = Some s1" "rb_rep s1 (plug fs (Nd e BLACK z (Nd b RED w b1 b2) (Nd p RED y n2 (Nd a BLACK x l r))))" "kept s s1"
    using LL_rep [of s fs p RED y e BLACK z "Nd b RED w b1 b2" n2 "Nd a BLACK x l r"] S(1) by auto
  let ?s = "s1\<lparr>rb_color := (rb_color s1)(e := RED, a := RED, p := BLACK, b := BLACK)\<rparr>"
  have bk: "black_kids (Some e) s = Some False"
    using S(1) black_kids_rep [of s "Some p" e BLACK z "Nd b RED w b1 b2" n2] black by (simp add: rb_rep_plug)
  have rd: "is_red (Some b) s = Some True"
    using S(1) black by (simp add: rb_rep_plug is_red_rep [of s "Some e"] is_red_def [of "Some _"])
  have res: "adjust_black (Some p) (Some a) (Some e) s = Some (Some p, addr (Nd a RED x l r), addr n2, ?s)"
    using bk rd S(1) s1(1,2) black by (simp add: adjust_black_def rb_rep_plug rb_sets)
  show ?thesis
  proof (rule adjusts_toI [OF st res, where hs = fs and fs' = "RF p BLACK y n2 # RF e RED z (Nd b BLACK w b1 b2) # fs"
        and T = "fill (RF p RED y (Nd e BLACK z (Nd b RED w b1 b2) n2)) (Nd a BLACK x l r)" and T' = "Nd e RED z (Nd b BLACK w b1 b2) (Nd p BLACK y n2 (Nd a RED x l r))"])
    show "rb_rep ?s (plug (RF p BLACK y n2 # RF e RED z (Nd b BLACK w b1 b2) # fs) (Nd a RED x l r))"
      using s1(2) by (auto simp: rb_rep_plug)
  qed (use S(5,6) black s1(3) in \<open>auto simp: same_nodes_def kept_def\<close>)
qed

lemma adjust_black_LR:
  assumes st: "tree_state del (RF p RED y (Nd e BLACK z n1 (Nd m RED w m1 m2)) # fs) (Nd a BLACK x l r) s" and black: "col l = BLACK" "col r = BLACK" "col n1 = BLACK"
  shows "adjusts_to del (RF p RED y (Nd e BLACK z n1 (Nd m RED w m1 m2)) # fs) (Nd a BLACK x l r) s (adjust_black (Some p) (Some a) (Some e) s)"
proof -
  note S = tree_stateD [OF st]
  obtain s1 where s1: "rb_LR (Some p) s = Some s1" "rb_rep s1 (plug fs (Nd m BLACK w (Nd e BLACK z n1 m1) (Nd p RED y m2 (Nd a BLACK x l r))))" "kept s s1"
    using LR_rep [of s fs p RED y e BLACK z n1 m RED w m1 m2 "Nd a BLACK x l r"] S(1) by auto
  let ?s = "s1\<lparr>rb_color := (rb_color s1)(a := RED, m := RED, e := BLACK, p := BLACK)\<rparr>"
  have bk: "black_kids (Some e) s = Some False"
    using S(1) black_kids_rep [of s "Some p" e BLACK z n1 "Nd m RED w m1 m2"] black by (simp add: rb_rep_plug)
  have rd: "is_red (addr n1) s = Some False"
    using S(1) black by (simp add: rb_rep_plug is_red_rep [of s "Some e"] is_red_def [of "Some _"])
  have res: "adjust_black (Some p) (Some a) (Some e) s = Some (Some p, addr (Nd a RED x l r), addr m2, ?s)"
    using bk rd S(1) s1(1,2) black by (simp add: adjust_black_def rb_rep_plug rb_sets)
  show ?thesis
  proof (rule adjusts_toI [OF st res, where hs = fs and fs' = "RF p BLACK y m2 # RF m RED w (Nd e BLACK z n1 m1) # fs"
        and T = "fill (RF p RED y (Nd e BLACK z n1 (Nd m RED w m1 m2))) (Nd a BLACK x l r)" and T' = "Nd m RED w (Nd e BLACK z n1 m1) (Nd p BLACK y m2 (Nd a RED x l r))"])
    show "rb_rep ?s (plug (RF p BLACK y m2 # RF m RED w (Nd e BLACK z n1 m1) # fs) (Nd a RED x l r))"
      using s1(2) by (auto simp: rb_rep_plug)
  qed (use S(5,6) black s1(3) in \<open>auto simp: same_nodes_def kept_def\<close>)
qed

lemma adjust_black_RR:
  assumes st: "tree_state del (LF p RED y (Nd e BLACK z n2 (Nd b RED w b1 b2)) # fs) (Nd a BLACK x l r) s" and black: "col l = BLACK" "col r = BLACK"
  shows "adjusts_to del (LF p RED y (Nd e BLACK z n2 (Nd b RED w b1 b2)) # fs) (Nd a BLACK x l r) s (adjust_black (Some p) (Some a) (Some e) s)"
proof -
  note S = tree_stateD [OF st]
  obtain s1 where s1: "rb_RR (Some p) s = Some s1" "rb_rep s1 (plug fs (Nd e BLACK z (Nd p RED y (Nd a BLACK x l r) n2) (Nd b RED w b1 b2)))" "kept s s1"
    using RR_rep [of s fs p RED y "Nd a BLACK x l r" e BLACK z n2 "Nd b RED w b1 b2"] S(1) by auto
  let ?s = "s1\<lparr>rb_color := (rb_color s1)(e := RED, a := RED, p := BLACK, b := BLACK)\<rparr>"
  have bk: "black_kids (Some e) s = Some False"
    using S(1) black_kids_rep [of s "Some p" e BLACK z n2 "Nd b RED w b1 b2"] black by (simp add: rb_rep_plug)
  have rd: "is_red (Some b) s = Some True"
    using S(1) black by (simp add: rb_rep_plug is_red_rep [of s "Some e"] is_red_def [of "Some _"])
  have res: "adjust_black (Some p) (Some a) (Some e) s = Some (Some p, addr (Nd a RED x l r), addr n2, ?s)"
    using bk rd S(1) s1(1,2) black by (auto simp: adjust_black_def rb_rep_plug rb_sets)
  show ?thesis
  proof (rule adjusts_toI [OF st res, where hs = fs and fs' = "LF p BLACK y n2 # LF e RED z (Nd b BLACK w b1 b2) # fs"
        and T = "fill (LF p RED y (Nd e BLACK z n2 (Nd b RED w b1 b2))) (Nd a BLACK x l r)" and T' = "Nd e RED z (Nd p BLACK y (Nd a RED x l r) n2) (Nd b BLACK w b1 b2)"])
    show "rb_rep ?s (plug (LF p BLACK y n2 # LF e RED z (Nd b BLACK w b1 b2) # fs) (Nd a RED x l r))"
      using s1(2) by (auto simp: rb_rep_plug)
  qed (use S(5,6) black s1(3) in \<open>auto simp: same_nodes_def kept_def\<close>)
qed

lemma adjust_black_RL:
  assumes st: "tree_state del (LF p RED y (Nd e BLACK z (Nd m RED w m1 m2) n2) # fs) (Nd a BLACK x l r) s" and black: "col l = BLACK" "col r = BLACK" "col n2 = BLACK"
  shows "adjusts_to del (LF p RED y (Nd e BLACK z (Nd m RED w m1 m2) n2) # fs) (Nd a BLACK x l r) s (adjust_black (Some p) (Some a) (Some e) s)"
proof -
  note S = tree_stateD [OF st]
  obtain s1 where s1: "rb_RL (Some p) s = Some s1" "rb_rep s1 (plug fs (Nd m BLACK w (Nd p RED y (Nd a BLACK x l r) m1) (Nd e BLACK z m2 n2)))" "kept s s1"
    using RL_rep [of s fs p RED y "Nd a BLACK x l r" e BLACK z m RED w m1 m2 n2] S(1) by auto
  let ?s = "s1\<lparr>rb_color := (rb_color s1)(a := RED, m := RED, e := BLACK, p := BLACK)\<rparr>"
  have bk: "black_kids (Some e) s = Some False"
    using S(1) black_kids_rep [of s "Some p" e BLACK z "Nd m RED w m1 m2" n2] black by (simp add: rb_rep_plug)
  have rd: "is_red (addr n2) s = Some False"
    using S(1) black by (simp add: rb_rep_plug is_red_rep [of s "Some e"] is_red_def [of "Some _"])
  have res: "adjust_black (Some p) (Some a) (Some e) s = Some (Some p, addr (Nd a RED x l r), addr m1, ?s)"
    using bk rd S(1) s1(1,2) black by (auto simp: adjust_black_def rb_rep_plug rb_sets)
  show ?thesis
  proof (rule adjusts_toI [OF st res, where hs = fs and fs' = "LF p BLACK y m1 # LF m RED w (Nd e BLACK z m2 n2) # fs"
        and T = "fill (LF p RED y (Nd e BLACK z (Nd m RED w m1 m2) n2)) (Nd a BLACK x l r)" and T' = "Nd m RED w (Nd p BLACK y (Nd a RED x l r) m1) (Nd e BLACK z m2 n2)"])
    show "rb_rep ?s (plug (LF p BLACK y m1 # LF m RED w (Nd e BLACK z m2 n2) # fs) (Nd a RED x l r))"
      using s1(2) by (auto simp: rb_rep_plug)
  qed (use S(5,6) black s1(3) in \<open>auto simp: same_nodes_def kept_def\<close>)
qed

lemma adjust_black_ok:
  assumes st: "tree_state del (f # fs) (Nd a BLACK x l r) s" and f: "f_color f = RED" and black: "col l = BLACK" "col r = BLACK"
  shows "adjusts_to del (f # fs) (Nd a BLACK x l r) s (adjust_black (Some (f_addr f)) (Some a) (addr (f_sib f)) s)"
proof -
  have "balanced (fill f (Nd a BLACK x l r))" "no_red_red (fill f (Nd a BLACK x l r))"
    using tree_stateD(2,3) [OF st] balanced_plug(1) [of fs "fill f (Nd a BLACK x l r)"]
      no_red_red_plug(1) [of fs "fill f (Nd a BLACK x l r)"] by simp_all
  then have "bh (f_sib f) \<noteq> 0" "col (f_sib f) = BLACK" using f by auto
  then obtain e z n1 n2 where sib: "f_sib f = Nd e BLACK z n1 n2" by (cases "f_sib f") auto
  show ?thesis
  proof (cases "col n1 = BLACK \<and> col n2 = BLACK")
    case True
    then show ?thesis using adjust_black_recolor [OF st f sib black] sib by simp
  next
    case red: False
    show ?thesis
    proof (cases f)
      case (RF p c y u)
      have eq: "f = RF p RED y (Nd e BLACK z n1 n2)" using RF f sib by simp
      show ?thesis
      proof (cases "col n1")
        case RED
        then obtain b w b1 b2 where n1: "n1 = Nd b RED w b1 b2" using col_RED_D by blast
        show ?thesis using adjust_black_LL [OF st [unfolded eq n1] black] unfolding eq n1 by simp
      next
        case BLACK
        then obtain m w m1 m2 where n2: "n2 = Nd m RED w m1 m2" using red col_RED_D color_cases by metis
        show ?thesis using adjust_black_LR [OF st [unfolded eq n2] black BLACK] unfolding eq n2 by simp
      qed
    next
      case (LF p c y u)
      have eq: "f = LF p RED y (Nd e BLACK z n1 n2)" using LF f sib by simp
      show ?thesis
      proof (cases "col n2")
        case RED
        then obtain b w b1 b2 where n2: "n2 = Nd b RED w b1 b2" using col_RED_D by blast
        show ?thesis using adjust_black_RR [OF st [unfolded eq n2] black] unfolding eq n2 by simp
      next
        case BLACK
        then obtain m w m1 m2 where n1: "n1 = Nd m RED w m1 m2" using red col_RED_D color_cases by metis
        show ?thesis using adjust_black_RL [OF st [unfolded eq n1] black BLACK] unfolding eq n1 by simp
      qed
    qed
  qed
qed

section \<open>A black node with a red child\<close>

lemma adjust_found_left:
  assumes st: "tree_state del fs (Nd a BLACK x (Nd b RED y l1 l2) r) s" and x: "fst x = del" and r: "col r = BLACK"
  shows "adjusts_to del fs (Nd a BLACK x (Nd b RED y l1 l2) r) s (adjust_found p (Some a) t2 s)"
proof -
  note S = tree_stateD [OF st]
  obtain s1 where s1: "rb_LL (Some a) s = Some s1" "rb_rep s1 (plug fs (Nd b BLACK y l1 (Nd a RED x l2 r)))" "kept s s1"
    using LL_rep [OF S(1)] by blast
  let ?s = "s1\<lparr>rb_color := (rb_color s1)(a := RED, b := BLACK)\<rparr>"
  have rc: "r \<noteq> Lf \<Longrightarrow> rb_get rb_color (addr r) s = Some BLACK"
    using S(1) r by (cases r) (auto simp: rb_rep_plug)
  have res: "adjust_found p (Some a) t2 s = Some (Some b, addr (Nd a RED x l2 r), addr l1, ?s)"
    using S(1) s1(1,2) rc by (cases "r = Lf") (simp_all add: adjust_found_def rb_rep_plug rb_sets)
  show ?thesis
  proof (rule adjusts_toI [OF st res, where hs = fs and fs' = "RF b BLACK y l1 # fs"
        and T = "Nd a BLACK x (Nd b RED y l1 l2) r" and T' = "Nd b BLACK y l1 (Nd a RED x l2 r)"])
    show "rb_rep ?s (plug (RF b BLACK y l1 # fs) (Nd a RED x l2 r))" using s1(2) by (auto simp: rb_rep_plug)
    show "sorted_map (inorder (Nd a RED x l2 r))" using S(5) by (simp add: sorted_map_def sorted_wrt_append)
  qed (use S(6,8) s1(3) x r in \<open>auto simp: same_nodes_def kept_def\<close>)
qed

lemma adjust_found_right:
  assumes st: "tree_state del fs (Nd a BLACK x Lf (Nd b RED y r1 r2)) s" and x: "fst x = del"
  shows "adjusts_to del fs (Nd a BLACK x Lf (Nd b RED y r1 r2)) s (adjust_found p (Some a) t2 s)"
proof -
  note S = tree_stateD [OF st]
  obtain s1 where s1: "rb_RR (Some a) s = Some s1" "rb_rep s1 (plug fs (Nd b BLACK y (Nd a RED x Lf r1) r2))" "kept s s1"
    using RR_rep [OF S(1)] by blast
  let ?s = "s1\<lparr>rb_color := (rb_color s1)(a := RED, b := BLACK)\<rparr>"
  have res: "adjust_found p (Some a) t2 s = Some (Some b, addr (Nd a RED x Lf r1), addr r2, ?s)"
    using S(1) s1(1,2) by (simp add: adjust_found_def rb_rep_plug rb_sets)
  show ?thesis
  proof (rule adjusts_toI [OF st res, where hs = fs and fs' = "LF b BLACK y r2 # fs"
        and T = "Nd a BLACK x Lf (Nd b RED y r1 r2)" and T' = "Nd b BLACK y (Nd a RED x Lf r1) r2"])
    show "rb_rep ?s (plug (LF b BLACK y r2 # fs) (Nd a RED x Lf r1))" using s1(2) by (auto simp: rb_rep_plug)
    show "sorted_map (inorder (Nd a RED x Lf r1))" using S(5) by (simp add: sorted_map_def sorted_wrt_append)
  qed (use S(6,8) s1(3) x in \<open>auto simp: same_nodes_def kept_def\<close>)
qed

lemma adjust_found_ok:
  assumes st: "tree_state del fs (Nd a BLACK x l r) s" and x: "fst x = del" and red: "col l = RED \<or> col r = RED"
    and p: "case fs of [] \<Rightarrow> True | f # fs' \<Rightarrow> p = Some (f_addr f)"
  shows "adjusts_to del fs (Nd a BLACK x l r) s (adjust_found p (Some a) t2 s)"
proof -
  note S = tree_stateD [OF st]
  consider (keep) "l \<noteq> Lf" "col r = RED" | (left) "col l = RED" "col r = BLACK" | (right) "l = Lf" "col r = RED"
    using red color_cases by (cases "col r"; cases "l = Lf") auto
  then show ?thesis
  proof cases
    case keep
    then obtain e z r1 r2 where r: "r = Nd e RED z r1 r2" using col_RED_D by blast
    have res: "adjust_found p (Some a) t2 s = Some (p, addr (Nd a BLACK x l r), t2, s)"
      using S(1) keep(1) by (simp add: adjust_found_def rb_rep_plug r)
    show ?thesis
      by (rule adjusts_toI [OF st res, where hs = fs and fs' = fs and T = "Nd a BLACK x l r" and T' = "Nd a BLACK x l r"])
        (use S keep x p in \<open>simp_all add: r split: list.splits\<close>)
  next
    case left
    then obtain b y l1 l2 where "l = Nd b RED y l1 l2" using col_RED_D by blast
    then show ?thesis using adjust_found_left st x left(2) by blast
  next
    case right
    then obtain b y r1 r2 where "r = Nd b RED y r1 r2" using col_RED_D by blast
    then show ?thesis using adjust_found_right st x right(1) by blast
  qed
qed

section \<open>Going down\<close>

lemma remove_adjust_red:
  "rb_get rb_color t s = Some RED \<Longrightarrow> remove_adjust del p t t2 s = Some (p, t, t2, s)"
  by (simp add: remove_adjust.simps)

lemma root_iff:
  assumes "rb_rep s (plug fs (Nd a c x l r))"
  shows "rb_root s = Some a \<longleftrightarrow> fs = []"
proof (cases fs)
  case (Cons f fs')
  then show ?thesis using assms ctx_root_in [of fs' "f_addr f" a] by (cases f) (auto simp: rb_rep_plug)
qed (use assms in \<open>simp add: rb_rep_def\<close>)

lemma sibling_rep:
  assumes "rb_rep s (plug fs (Nd a c x l r))" and "l \<noteq> Lf \<or> r \<noteq> Lf"
  shows "sibling (Some a) (addr l) s = Some (addr r)" "sibling (Some a) (addr r) s = Some (addr l)"
proof -
  have "addr l \<noteq> addr r"
    using assms by (cases l; cases r) (auto simp: rb_rep_plug)
  then show "sibling (Some a) (addr l) s = Some (addr r)" "sibling (Some a) (addr r) s = Some (addr l)"
    using assms(1) by (auto simp: sibling_def rb_rep_plug)
qed

text \<open>The key to be removed is in the subtree that the search enters.\<close>

lemma down_key:
  assumes "down del (Nd a c x l r) = (F, t')" and "sorted_map (inorder (Nd a c x l r))"
    and "del \<in> fst ` set (inorder (Nd a c x l r))" and "fst x \<noteq> del"
  shows "sorted_map (inorder t')" "del \<in> fst ` set (inorder t')" "t' \<noteq> Lf"
proof -
  have srt: "sorted_map (inorder l)" "sorted_map (inorder r)" "\<And>e. e \<in> set (inorder l) \<Longrightarrow> fst e < fst x"
    "\<And>e. e \<in> set (inorder r) \<Longrightarrow> fst x < fst e"
    using assms(2) by (auto simp: sorted_map_def sorted_wrt_append)
  have "\<not> (\<exists>e \<in> set (inorder r). fst e = del)" if "del < fst x" using srt(4) that by force
  moreover have "\<not> (\<exists>e \<in> set (inorder l). fst e = del)" if "\<not> del < fst x" using srt(3) that by force
  ultimately show key: "del \<in> fst ` set (inorder t')" using assms(1,3,4) by (auto split: if_splits)
  show "sorted_map (inorder t')" using srt(1,2) assms(1) by (auto split: if_splits)
  show "t' \<noteq> Lf" using key by auto
qed

lemma adjust_down_black:
  assumes st: "tree_state del fs (Nd a BLACK x l r) s" and F: "down del (Nd a BLACK x l r) = (F, t1)"
    and x: "fst x \<noteq> del" and sib: "f_sib F = Nd e RED z n1 n2" and t1: "col t1 = BLACK"
  shows "adjusts_to del fs (Nd a BLACK x l r) s
     (do { pr \<leftarrow> rb_get rb_right (Some a) s;
           s \<leftarrow> (if Some e = pr then rb_RR (Some a) s else rb_LL (Some a) s);
           s \<leftarrow> set_color (Some a) RED s; s \<leftarrow> set_color (Some e) BLACK s;
           t2 \<leftarrow> sibling (Some e) (Some a) s;
           remove_adjust del (Some e) (Some a) t2 s })"
    (is "adjusts_to _ _ _ _ ?result")
proof -
  note S = tree_stateD [OF st]
  note K = down_key [OF F S(5,6) x]
  show ?thesis
  proof (cases "del < fst x")
    case True
    then have eq: "t1 = l" "r = Nd e RED z n1 n2" using F sib by auto
    obtain s1 where s1: "rb_RR (Some a) s = Some s1" "rb_rep s1 (plug fs (Nd e BLACK z (Nd a RED x l n1) n2))" "kept s s1"
      using RR_rep [of s fs a BLACK x l e RED z n1 n2] S(1) eq by blast
    let ?s = "s1\<lparr>rb_color := (rb_color s1)(a := RED, e := BLACK)\<rparr>"
    have rep: "rb_rep ?s (plug fs (Nd e BLACK z (Nd a RED x l n1) n2))" using s1(2) by (auto simp: rb_rep_plug)
    have red: "rb_get rb_color (Some a) ?s = Some RED" using rep by (simp add: rb_rep_plug)
    have cols: "set_color (Some a) RED s1 = Some (s1\<lparr>rb_color := (rb_color s1)(a := RED)\<rparr>)"
      "set_color (Some e) BLACK (s1\<lparr>rb_color := (rb_color s1)(a := RED)\<rparr>) = Some ?s"
      using s1(2) by (simp_all add: rb_sets rb_rep_plug)
    have res: "?result = Some (Some e, addr (Nd a RED x l n1), addr n2, ?s)"
      using S(1) s1(1) cols sibling_rep(1) [OF rep] remove_adjust_red [OF red] by (simp add: rb_rep_plug eq)
    show ?thesis
    proof (rule adjusts_toI [OF st res, where hs = fs and fs' = "LF e BLACK z n2 # fs"
          and T = "Nd a BLACK x l r" and T' = "Nd e BLACK z (Nd a RED x l n1) n2"])
      show "rb_rep ?s (plug (LF e BLACK z n2 # fs) (Nd a RED x l n1))" using rep by simp
      show "sorted_map (inorder (Nd a RED x l n1))" using S(5) eq by (simp add: sorted_map_def sorted_wrt_append)
    qed (use S(6,8) K s1(3) t1 in \<open>auto simp: same_nodes_def kept_def eq\<close>)
  next
    case False
    then have eq: "t1 = r" "l = Nd e RED z n1 n2" using F sib by auto
    obtain s1 where s1: "rb_LL (Some a) s = Some s1" "rb_rep s1 (plug fs (Nd e BLACK z n1 (Nd a RED x n2 r)))" "kept s s1"
      using LL_rep [of s fs a BLACK x e RED z n1 n2 r] S(1) eq by blast
    let ?s = "s1\<lparr>rb_color := (rb_color s1)(a := RED, e := BLACK)\<rparr>"
    have rep: "rb_rep ?s (plug fs (Nd e BLACK z n1 (Nd a RED x n2 r)))" using s1(2) by (auto simp: rb_rep_plug)
    have red: "rb_get rb_color (Some a) ?s = Some RED" using rep by (simp add: rb_rep_plug)
    have cols: "set_color (Some a) RED s1 = Some (s1\<lparr>rb_color := (rb_color s1)(a := RED)\<rparr>)"
      "set_color (Some e) BLACK (s1\<lparr>rb_color := (rb_color s1)(a := RED)\<rparr>) = Some ?s"
      using s1(2) by (simp_all add: rb_sets rb_rep_plug)
    have "Some e \<noteq> addr r" using S(1) by (auto simp: rb_rep_plug eq dest: addr_in_addrs)
    then have res: "?result = Some (Some e, addr (Nd a RED x n2 r), addr n1, ?s)"
      using S(1) s1(1) cols sibling_rep(2) [OF rep] remove_adjust_red [OF red] by (simp add: rb_rep_plug eq)
    show ?thesis
    proof (rule adjusts_toI [OF st res, where hs = fs and fs' = "RF e BLACK z n1 # fs"
          and T = "Nd a BLACK x l r" and T' = "Nd e BLACK z n1 (Nd a RED x n2 r)"])
      show "rb_rep ?s (plug (RF e BLACK z n1 # fs) (Nd a RED x n2 r))" using rep by simp
      show "sorted_map (inorder (Nd a RED x n2 r))" using S(5) eq by (simp add: sorted_map_def sorted_wrt_append)
    qed (use S(6,8) K s1(3) t1 in \<open>auto simp: same_nodes_def kept_def eq\<close>)
  qed
qed

lemma rb_get_color_rep: "rep s f t \<Longrightarrow> t \<noteq> Lf \<Longrightarrow> rb_get rb_color (addr t) s = Some (col t)"
  by (cases t) auto

text \<open>\<^verbatim>\<open>remove_adjust\<close>: whatever the colors, the current node is ready afterwards.\<close>

lemma remove_adjust_ok:
  assumes st: "remove_state del p t2 fs t s"
  shows "adjusts_to del fs t s (remove_adjust del p (addr t) t2 s)"
proof -
  have ts: "tree_state del fs t s" using st by (simp add: remove_state_def)
  note S = tree_stateD [OF ts]
  obtain a c x l r where t: "t = Nd a c x l r" using S(6) by (cases t) auto
  have a: "rb_live s a" "rb_left s a = addr l" "rb_right s a = addr r" "rb_color s a = c" "rb_data s a = Some x"
    "rep s (ctx_fa fs) (Nd a c x l r)" "rep s (Some a) l" "rep s (Some a) r"
    using S(1) by (simp_all add: t rb_rep_plug)
  note step = remove_adjust.simps [of del p "Some a" t2 s]
  show ?thesis
  proof (cases c)
    case RED
    then obtain f fs' where fs: "fs = f # fs'" "p = Some (f_addr f)"
      using st by (cases fs) (auto simp: remove_state_def t)
    have res: "remove_adjust del p (addr t) t2 s = Some (p, addr t, t2, s)"
      using remove_adjust_red [of "Some a" s] a RED by (simp add: t)
    show ?thesis
      by (rule adjusts_toI [OF ts res, where hs = fs and fs' = fs and T = t and T' = t]) (use S fs RED t in simp_all)
  next
    case BLACK
    let ?same = "fs = [] \<and> l \<noteq> Lf \<and> r \<noteq> Lf \<and> col l = col r"
    have same: "(if Some a = rb_root s \<and> addr l \<noteq> None \<and> addr r \<noteq> None
        then do { lc \<leftarrow> rb_get rb_color (addr l) s; rc \<leftarrow> rb_get rb_color (addr r) s; Some (lc = rc) } else Some False) = Some ?same"
      using root_iff [OF S(1) [unfolded t]] rb_get_color_rep [OF a(7)] rb_get_color_rep [OF a(8)]
      by (cases "fs = [] \<and> l \<noteq> Lf \<and> r \<noteq> Lf") auto
    have kids: "black_kids (Some a) s = Some (col l = BLACK \<and> col r = BLACK)" using black_kids_rep [OF a(6)] .
    have reads: "rb_get rb_color (Some a) s = Some BLACK" "rb_get rb_left (Some a) s = Some (addr l)" "rb_get rb_right (Some a) s = Some (addr r)"
      "rb_key (Some a) s = Some (fst x)" using a BLACK by simp_all
    have eq: "rb_equal (fst x) del \<longleftrightarrow> fst x = del" by (auto simp: rb_equal_def)
    note run = step [unfolded reads same kids eq bind.simps, unfolded Let_def, simplified]
    consider (same) ?same | (black) "\<not> ?same" "col l = BLACK" "col r = BLACK" | (found) "\<not> ?same" "col l = RED \<or> col r = RED" "fst x = del"
      | (down) "\<not> ?same" "col l = RED \<or> col r = RED" "fst x \<noteq> del"
      using color_cases(1) [of "col l"] color_cases(1) [of "col r"] by blast
    then show ?thesis
    proof cases
      case both: same
      obtain b cl y l1 l2 where l: "l = Nd b cl y l1 l2" using both by (cases l) auto
      obtain e z r1 r2 where r: "r = Nd e cl z r1 r2" using both l by (cases r) auto
      let ?s = "s\<lparr>rb_color := (rb_color s)(a := RED, e := BLACK, b := BLACK)\<rparr>"
      let ?t = "Nd a RED x (Nd b BLACK y l1 l2) (Nd e BLACK z r1 r2)"
      have fs: "fs = []" using both by simp
      have res: "remove_adjust del p (addr t) t2 s = Some (p, addr ?t, t2, ?s)"
        using both S(1) by (simp add: t run rb_sets rb_rep_def l r)
      have rep: "rb_rep s (Nd a c x (Nd b cl y l1 l2) (Nd e cl z r1 r2))" using S(1) by (simp add: fs t l r)
      have "rb_rep ?s ?t" using rep by (simp add: rb_rep_def)
      moreover have "balanced ?t" "no_red_red ?t" using S(7,8) by (cases cl; simp add: t l r)+
      moreover have "keys_once ?t" "sorted_map (inorder ?t)" "del \<in> fst ` set (inorder ?t)"
        using S(4-6) by (simp_all add: fs t l r keys_once_def)
      ultimately have "adjusted_state del p fs ?t ?s"
        by (simp add: adjusted_state_def tree_state_def fs)
      then show ?thesis
        unfolding adjusts_to_def res
        by (intro exI [of _ p] exI [of _ t2] exI [of _ fs] exI [of _ ?t] exI [of _ ?s])
          (simp add: fs t l r kept_def same_nodes_def)
    next
      case black
      obtain f fs' where fs: "fs = f # fs'" "p = Some (f_addr f)" "t2 = addr (f_sib f)" "f_color f = RED"
      proof (cases fs)
        case Nil
        have "bh l = bh r" using S(7) by (simp add: t)
        then have "l = Lf \<and> r = Lf" using black Nil by (cases l; cases r) auto
        then show thesis using st Nil by (simp add: remove_state_def t)
      qed (use st BLACK that in \<open>simp add: remove_state_def t\<close>)
      have "remove_adjust del p (addr t) t2 s = adjust_black p (Some a) t2 s"
        using black by (auto simp: t run)
      then show ?thesis using adjust_black_ok [of del f fs' a x l r s] ts fs black BLACK by (simp add: t)
    next
      case found
      have "remove_adjust del p (addr t) t2 s = adjust_found p (Some a) t2 s"
        using found by (auto simp: t run)
      moreover have "case fs of [] \<Rightarrow> True | f # fs' \<Rightarrow> p = Some (f_addr f)"
        using st by (simp add: remove_state_def split: list.splits)
      ultimately show ?thesis using adjust_found_ok [of del fs a x l r s p t2] ts found BLACK by (simp add: t)
    next
      case down
      obtain F t1 where F: "down del (Nd a BLACK x l r) = (F, t1)" by fastforce
      have tsB: "tree_state del fs (Nd a BLACK x l r) s" using ts by (simp add: t BLACK)
      note K = down_key [OF F S(5,6) [unfolded t inorder.simps, folded inorder.simps(2) [of a BLACK x l r]] down(3)]
      note P = down_props [OF F]
      have ch: "child_for del (Some a) s = Some (addr t1)"
        using child_for_rep [OF S(1) [unfolded t]] P(5) by simp
      have "l \<noteq> Lf \<or> r \<noteq> Lf" using K(3) P(6) by auto
      then have sib: "sibling (Some a) (addr t1) s = Some (addr (f_sib F))"
        using sibling_rep [OF S(1) [unfolded t]] P(6) by auto
      have "rep s (Some a) t1" using a(7,8) P(6) by auto
      then have tc: "rb_get rb_color (addr t1) s = Some (col t1)" using rb_get_color_rep K(3) by blast
      have run': "remove_adjust del p (addr t) t2 s =
          (if col t1 = BLACK then do {
             pr \<leftarrow> rb_get rb_right (Some a) s;
             s \<leftarrow> (if addr (f_sib F) = pr then rb_RR (Some a) s else rb_LL (Some a) s);
             s \<leftarrow> set_color (Some a) RED s; s \<leftarrow> set_color (addr (f_sib F)) BLACK s;
             t2 \<leftarrow> sibling (addr (f_sib F)) (Some a) s;
             remove_adjust del (addr (f_sib F)) (Some a) t2 s }
           else Some (Some a, addr t1, addr (f_sib F), s))"
        using down(1,3) color_cases down(2) by (auto simp: t run ch sib tc)
      show ?thesis
      proof (cases "col t1")
        case RED
        then have res: "remove_adjust del p (addr t) t2 s = Some (Some a, addr t1, addr (f_sib F), s)" using run' by simp
        show ?thesis
          by (rule adjusts_toI [OF ts res, where hs = fs and fs' = "F # fs" and T = t and T' = t])
            (use S K P RED t BLACK in \<open>auto dest!: col_RED_D\<close>)
      next
        case t1: BLACK
        then have "col (f_sib F) = RED" using down(2) P(6) by auto
        then obtain e z n1 n2 where e: "f_sib F = Nd e RED z n1 n2" using col_RED_D by blast
        show ?thesis
          using adjust_down_black [OF tsB F down(3) e t1] unfolding run' by (simp add: t1 e t BLACK)
      qed
    qed
  qed
qed

end
