(* ===== verification/RedBlackSwap.thy ===== *)
theory RedBlackSwap
  imports RedBlackRemove
begin

text \<open>
  The exchange of a node with two children and its successor in the removal from the red-black tree.
\<close>

section \<open>Segments of a path\<close>

text \<open>\<open>rept_seg f p gs\<close>: the frames \<open>gs\<close> lead from the pointer \<open>p\<close> up to the parent \<open>f\<close>.\<close>

fun seg_fa :: "rb_ptr \<Rightarrow> ('k, 'v) frame list \<Rightarrow> rb_ptr" where
  "seg_fa f [] = f"
| "seg_fa f (g # gs) = Some (f_addr g)"

fun rept_seg where
  "rept_seg lv dt lf rt fa cl f p [] \<longleftrightarrow> True"
| "rept_seg lv dt lf rt fa cl f p (LF a c x r # gs) \<longleftrightarrow>
     lv a \<and> dt a = Some x \<and> lf a = p \<and> rt a = addr r \<and> fa a = seg_fa f gs \<and> cl a = c \<and>
     rept lv dt lf rt fa cl (Some a) r \<and> rept_seg lv dt lf rt fa cl f (Some a) gs"
| "rept_seg lv dt lf rt fa cl f p (RF a c x l # gs) \<longleftrightarrow>
     lv a \<and> dt a = Some x \<and> lf a = addr l \<and> rt a = p \<and> fa a = seg_fa f gs \<and> cl a = c \<and>
     rept lv dt lf rt fa cl (Some a) l \<and> rept_seg lv dt lf rt fa cl f (Some a) gs"

lemma rept_plug_seg: "rept lv dt lf rt fa cl f (plug gs t)
    \<longleftrightarrow> rept_seg lv dt lf rt fa cl f (addr t) gs \<and> rept lv dt lf rt fa cl (seg_fa f gs) t"
proof (induction gs t rule: plug.induct)
  case (2 g gs t)
  then show ?case by (cases g) auto
qed simp

lemma rept_seg_cong:
  assumes "\<And>a. a \<in> set (ctx_addrs gs) \<Longrightarrow>
      lv' a = lv a \<and> dt' a = dt a \<and> lf' a = lf a \<and> rt' a = rt a \<and> fa' a = fa a \<and> cl' a = cl a"
  shows "rept_seg lv' dt' lf' rt' fa' cl' f p gs = rept_seg lv dt lf rt fa cl f p gs"
  using assms
proof (induction gs arbitrary: p)
  case (Cons g gs)
  have "rept_seg lv' dt' lf' rt' fa' cl' f q gs = rept_seg lv dt lf rt fa cl f q gs" for q
    using Cons.prems by (intro Cons.IH) simp
  moreover have "rept lv' dt' lf' rt' fa' cl' q (f_sib g) = rept lv dt lf rt fa cl q (f_sib g)" for q
    using Cons.prems by (intro rept_cong) simp
  ultimately show ?case using Cons.prems [of "f_addr g"] by (cases g) simp_all
qed simp

lemma rept_seg_upd [simp]:
  assumes "a \<notin> set (ctx_addrs gs)"
  shows "rept_seg lv dt (lf(a := q)) rt fa cl f p gs = rept_seg lv dt lf rt fa cl f p gs"
    and "rept_seg lv dt lf (rt(a := q)) fa cl f p gs = rept_seg lv dt lf rt fa cl f p gs"
    and "rept_seg lv dt lf rt (fa(a := q)) cl f p gs = rept_seg lv dt lf rt fa cl f p gs"
    and "rept_seg lv dt lf rt fa (cl(a := c)) f p gs = rept_seg lv dt lf rt fa cl f p gs"
  using assms by (auto intro!: rept_seg_cong)

lemma rept_seg_other [simp]:
  "set (ctx_addrs gs) \<inter> set (addrs B) = {} \<Longrightarrow> rept_seg lv dt lf rt (fa_upd (addr B) q fa) cl f p gs = rept_seg lv dt lf rt fa cl f p gs"
  "set (ctx_addrs gs) \<inter> set (ctx_addrs fs) = {} \<Longrightarrow> rept_seg lv dt (ctx_left fs q lf) rt fa cl f p gs = rept_seg lv dt lf rt fa cl f p gs"
  "set (ctx_addrs gs) \<inter> set (ctx_addrs fs) = {} \<Longrightarrow> rept_seg lv dt lf (ctx_right fs q rt) fa cl f p gs = rept_seg lv dt lf rt fa cl f p gs"
  by (auto intro!: rept_seg_cong fa_upd_other ctx_left_other ctx_right_other)

lemma ctx_root_Cons_in: "ctx_root (g # gs) p = Some b \<Longrightarrow> b \<in> set (ctx_addrs (g # gs))"
  using ctx_root_in [of gs "f_addr g" b] by auto

text \<open>A new parent for the top node of a segment.\<close>

lemma rept_seg_new_fa:
  assumes "rept_seg lv dt lf rt fa cl f p (g # gs)" and "distinct (ctx_addrs (g # gs))" and "ctx_root (g # gs) p = Some b"
  shows "rept_seg lv dt lf rt (fa(b := q)) cl q p (g # gs)"
  using assms
proof (induction gs arbitrary: g p)
  case Nil
  then have "b = f_addr g" "f_addr g \<notin> set (addrs (f_sib g))" by simp_all
  then show ?case using Nil.prems(1) by (cases g) (simp_all del: fun_upd_apply add: fun_upd_same)
next
  case (Cons h gs)
  have b: "b \<in> set (ctx_addrs (h # gs))" using Cons.prems(3) ctx_root_Cons_in [of h gs "Some (f_addr g)"] by simp
  then have nb: "b \<noteq> f_addr g" "b \<notin> set (addrs (f_sib g))" using Cons.prems(2) by auto
  have "rept_seg lv dt lf rt fa cl f (Some (f_addr g)) (h # gs)" using Cons.prems(1) by (cases g) auto
  then have "rept_seg lv dt lf rt (fa(b := q)) cl q (Some (f_addr g)) (h # gs)"
    using Cons.prems(2,3) by (intro Cons.IH) simp_all
  then show ?case using Cons.prems(1) nb by (cases g) (simp_all del: fun_upd_apply add: fun_upd_other)
qed

section \<open>The first node of a subtree\<close>

lemma first_split:
  assumes "r \<noteq> Lf"
  obtains gs u cu xu ru where "r = plug gs (Nd u cu xu Lf ru)" "\<forall>g \<in> set gs. is_LF g" "first_node r = Some u"
  using assms
proof (induction r arbitrary: thesis)
  case (Nd a c x l r)
  show ?case
  proof (cases "l = Lf")
    case True
    then show ?thesis using Nd.prems(1) [of "[]" a c x r] by simp
  next
    case False
    obtain gs u cu xu ru where l: "l = plug gs (Nd u cu xu Lf ru)" "\<forall>g \<in> set gs. is_LF g" "first_node l = Some u"
      using Nd.IH(1) False by blast
    have "plug (gs @ [LF a c x r]) t = Nd a c x (plug gs t) r" for t
      by (induction gs t rule: plug.induct) simp_all
    then show ?thesis using Nd.prems(1) [of "gs @ [LF a c x r]" u cu xu ru] l False by simp
  qed
qed simp

lemma spine_before: "\<forall>g \<in> set gs. is_LF g \<Longrightarrow> ctx_before gs = []"
proof (induction gs)
  case (Cons g gs)
  then show ?case by (cases g) auto
qed simp

lemma bh_plug: "bh t' = bh t \<Longrightarrow> bh (plug gs t') = bh (plug gs t)"
proof (induction gs arbitrary: t t')
  case (Cons g gs)
  show ?case using Cons.IH [OF bh_fill [OF Cons.prems]] by simp
qed simp

section \<open>Changing places\<close>

lemma ctx_root_self [simp]:
  "a \<notin> set (ctx_addrs fs) \<Longrightarrow> ctx_root fs (Some a) = Some a \<longleftrightarrow> fs = []"
  "a \<notin> set (ctx_addrs fs) \<Longrightarrow> Some a = ctx_root fs (Some a) \<longleftrightarrow> fs = []"
  using ctx_root_in [of "tl fs" "f_addr (hd fs)" a] by (cases fs; auto)+

lemma ctx_root_any: "fs \<noteq> [] \<Longrightarrow> ctx_root fs p = ctx_root fs q"
  by (cases fs) auto

text \<open>The successor is the right child.\<close>

lemma swap_child:
  assumes "rb_rep s (plug fs (Nd a c x (Nd d cd y l1 l2) (Nd u cu xu Lf ru)))"
  shows "\<exists>s'. swap_nodes (Some a) (Some u) s = Some s' \<and> rb_rep s' (plug fs (Nd u c xu (Nd d cd y l1 l2) (Nd a cu x Lf ru))) \<and> kept s s'"
proof -
  note parts = assms [unfolded rb_rep_plug, simplified disjoint_parts, simplified]
  have apart: "a \<noteq> u" "u \<noteq> a" "d \<noteq> a" "d \<noteq> u" "u \<noteq> d" "set (addrs ru) \<inter> set (addrs l1) = {}" "set (addrs ru) \<inter> set (addrs l2) = {}"
    using parts by auto
  have live: "addr ru = Some b \<Longrightarrow> rb_live s b" for b
    using parts by (cases ru; simp)+
  show ?thesis
    using parts apart live
    by (simp add: swap_nodes_def set_fa_if_def [of None] rb_sets kept_def ctx_root_any [of fs "Some a" "Some u"]
        rept_ctx_new_child [where p = "Some a"] rept_new_fa [where f = "Some u"] rb_rep_plug disjoint_parts)
qed

text \<open>The successor is further down.\<close>

lemma rept_seg_new_fa':
  "rept_seg lv dt lf rt fa cl f p gs \<Longrightarrow> gs \<noteq> [] \<Longrightarrow> distinct (ctx_addrs gs) \<Longrightarrow> ctx_root gs p = Some b \<Longrightarrow>
     rept_seg lv dt lf rt (fa(b := q)) cl q p gs"
  using rept_seg_new_fa by (cases gs) blast+

lemma ctx_root_Some: "gs \<noteq> [] \<Longrightarrow> \<exists>b. ctx_root gs p = Some b \<and> b \<in> set (ctx_addrs gs)"
proof (induction gs arbitrary: p)
  case (Cons g gs)
  then show ?case by (cases "gs = []") auto
qed simp

lemma seg_fa_any: "gs \<noteq> [] \<Longrightarrow> seg_fa f gs = seg_fa f' gs"
  by (cases gs) auto

lemma rept_seg_live: "rept_seg lv dt lf rt fa cl f p gs \<Longrightarrow> a \<in> set (ctx_addrs gs) \<Longrightarrow> lv a"
proof (induction gs arbitrary: p)
  case (Cons g gs)
  then show ?case using rept_live [of lv _ _ _ _ _ _ "f_sib g" a] by (cases g) auto
qed simp

lemma swap_far:
  assumes "rb_rep s (plug fs (Nd a c x (Nd d cd y l1 l2) (plug (LF g cg xg rg # gs) (Nd u cu xu Lf ru))))"
  shows "\<exists>s'. swap_nodes (Some a) (Some u) s = Some s' \<and>
     rb_rep s' (plug fs (Nd u c xu (Nd d cd y l1 l2) (plug (LF g cg xg rg # gs) (Nd a cu x Lf ru)))) \<and> kept s s'"
proof -
  note parts = assms [unfolded rb_rep_plug, simplified disjoint_parts rept.simps rept_plug_seg addrs.simps addr_plug addr.simps
      set_addrs_plug distinct_addrs_plug distinct.simps set_simps set_append, simplified disjoint_parts, simplified disjoint_parts, simplified]
  note goal_simps = swap_nodes_def set_fa_if_def [of None] rb_sets kept_def ctx_root_any [of fs "Some a" "Some u"]
    rept_ctx_new_child [where p = "Some a"] rept_new_fa [where f = "Some u"] rb_rep_plug rept_plug_seg disjoint_parts
  have apart: "u \<noteq> a" "g \<noteq> a" "d \<noteq> a" "u \<noteq> d" "g \<noteq> d" "u \<noteq> g" "set (addrs ru) \<inter> set (addrs l1) = {}" "set (addrs ru) \<inter> set (addrs l2) = {}"
    "set (addrs rg) \<inter> set (addrs ru) = {}" "set (addrs rg) \<inter> set (addrs l1) = {}" "set (addrs rg) \<inter> set (addrs l2) = {}"
    "set (ctx_addrs gs) \<inter> set (addrs ru) = {}" "set (ctx_addrs gs) \<inter> set (ctx_addrs fs) = {}"
    using parts by auto
  have live: "addr ru = Some b \<Longrightarrow> rb_live s b" for b
    using parts by (cases ru; simp)+
  show ?thesis
  proof (cases "gs = []")
    case True
    show ?thesis
      using parts apart live by (simp add: goal_simps True)
  next
    case False
    obtain b where b: "ctx_root gs (Some g) = Some b" "b \<in> set (ctx_addrs gs)"
      using ctx_root_Some [OF False, of "Some g"] by blast
    have "rept_seg (rb_live s) (rb_data s) (rb_left s) (rb_right s) (rb_fa s) (rb_color s) (Some a) (Some g) gs" using parts by simp
    then have "rb_live s b" by (rule rept_seg_live) (rule b(2))
    moreover have "b \<noteq> a" "b \<noteq> d" "b \<noteq> u" "b \<noteq> g" "b \<notin> set (addrs l1)" "b \<notin> set (addrs l2)" "b \<notin> set (addrs ru)" "b \<notin> set (addrs rg)"
      "b \<notin> set (ctx_addrs fs)"
      using parts b(2) by auto
    ultimately show ?thesis
      using parts apart live b False by (simp add: goal_simps rept_seg_new_fa' [where f = "Some a"] seg_fa_any [of gs "Some u" "Some a"])
  qed
qed

lemma swap_ok:
  assumes "rb_rep s (plug fs (Nd a c x l (plug gs (Nd u cu xu Lf ru))))" and "l \<noteq> Lf" and "\<forall>g \<in> set gs. is_LF g"
  shows "\<exists>s'. swap_nodes (Some a) (Some u) s = Some s' \<and> rb_rep s' (plug fs (Nd u c xu l (plug gs (Nd a cu x Lf ru)))) \<and> kept s s'"
proof -
  obtain d cd y l1 l2 where l: "l = Nd d cd y l1 l2" using assms(2) by (cases l) auto
  show ?thesis
  proof (cases gs)
    case Nil
    then show ?thesis using swap_child [of s fs a c x d cd y l1 l2 u cu xu ru] assms(1) l by simp
  next
    case (Cons g gs')
    then obtain b cb xb rb where "gs = LF b cb xb rb # gs'" using assms(3) by (cases g) auto
    then show ?thesis using swap_far [of s fs a c x d cd y l1 l2 b cb xb rb gs' u cu xu ru] assms(1) l by blast
  qed
qed

end
