(* ===== verification/RedBlackDelete.thy ===== *)
theory RedBlackDelete
  imports RedBlackSwap
begin

text \<open>
  The rest of the removal from the red-black tree: the state after the exchange of a node with its
  successor, the removal of the red leaf, and the loop. \<open>rb_remove_ok\<close> is the functional
  specification of \<^verbatim>\<open>remove\<close>.
\<close>

abbreviation without :: "'k \<Rightarrow> ('k \<times> 'v) list \<Rightarrow> ('k \<times> 'v) list" where
  "without del \<equiv> filter (\<lambda>e. fst e \<noteq> del)"

lemma without_id [simp]: "del \<notin> fst ` set xs \<Longrightarrow> without del xs = xs"
  by (auto simp: filter_id_conv)

lemma sorted_map_keys:
  assumes "sorted_map xs"
  shows "distinct (map fst xs)" and "del \<in> fst ` set xs \<Longrightarrow> length xs = Suc (length (without del xs))"
proof -
  have "distinct (map fst xs) \<and> (del \<in> fst ` set xs \<longrightarrow> length xs = Suc (length (without del xs)))"
    using assms
  proof (induction xs)
    case (Cons e xs)
    have e: "distinct (map fst xs)" "fst e \<notin> fst ` set xs" "sorted_map xs" using Cons by (auto simp: sorted_map_def)
    then show ?case using Cons.IH by (cases "fst e = del") auto
  qed simp
  then show "distinct (map fst xs)" "del \<in> fst ` set xs \<Longrightarrow> length xs = Suc (length (without del xs))" by simp_all
qed

section \<open>After the exchange\<close>

lemma plug_keeps:
  assumes "balanced (plug gs t)" "no_red_red (plug gs t)" "balanced t'" "no_red_red t'" "bh t' = bh t" "col t' = col t"
  shows "balanced (plug gs t')" "no_red_red (plug gs t')" "bh (plug gs t') = bh (plug gs t)" "col (plug gs t') = col (plug gs t)"
  using assms balanced_plug(2) [of gs t t'] no_red_red_plug(2) [of gs t t'] by (auto intro: bh_plug col_plug)

lemma size_plug: "size t' = size t \<Longrightarrow> size (plug gs t') = size (plug gs t)"
proof (induction gs arbitrary: t t')
  case (Cons g gs)
  then show ?case by (cases g) simp_all
qed simp

lemma fill_Lf [simp]: "fill f t \<noteq> Lf"
  by (cases f) simp_all

lemma set_addrs_fill [simp]: "set (addrs (fill f t)) = insert (f_addr f) (set (addrs t) \<union> set (addrs (f_sib f)))"
  by (cases f) auto

lemma plug_Lf [simp]: "plug fs t = Lf \<longleftrightarrow> fs = [] \<and> t = Lf"
proof (induction fs arbitrary: t)
  case (Cons f fs)
  then show ?case by (cases f) simp_all
qed simp

lemma exchanged_state:
  assumes ts: "tree_state del fs (Nd a c x l r) s" and x: "fst x = del" and rd: "c = RED \<or> col r = RED"
    and r: "r = plug gs (Nd u cu xu Lf ru)" "\<forall>g \<in> set gs. is_LF g"
    and rep: "rb_rep s' (plug fs (Nd u c xu l T))" and T_def: "T = plug gs (Nd a cu x Lf ru)"
  shows "remove_state del (Some u) (addr l) (RF u c xu l # fs) T s'" 
    and "without del (inorder (plug (RF u c xu l # fs) T)) = without del (inorder (plug fs (Nd a c x l r)))"
    and "set (addrs (plug (RF u c xu l # fs) T)) = set (addrs (plug fs (Nd a c x l r)))"
    and "size T < size (Nd a c x l r)"
proof -
  note S = tree_stateD [OF ts]
  have before: "ctx_before gs = []" using spine_before r(2) .
  have R: "balanced r" "no_red_red r" using S(7,8) by simp_all
  have N: "balanced (Nd u cu xu Lf ru)" "no_red_red (Nd u cu xu Lf ru)"
    using balanced_plug(1) no_red_red_plug(1) R unfolding r(1) by blast+
  have T: "balanced T" "no_red_red T" "bh T = bh r" "col T = col r"
    using plug_keeps [OF R [unfolded r(1)], of "Nd a cu x Lf ru"] N unfolding r(1) T_def by simp_all
  have new: "plug (RF u c xu l # fs) T = plug fs (Nd u c xu l T)" by simp
  have X: "balanced (Nd u c xu l T)" "no_red_red (Nd u c xu l T)" "bh (Nd u c xu l T) = bh (Nd a c x l r)"
    using S(7,8) T by simp_all
  have P: "balanced (plug (RF u c xu l # fs) T)" "no_red_red (plug (RF u c xu l # fs) T)"
    using plug_keeps [OF S(2,3) X] unfolding new by simp_all
  have ino: "inorder r = xu # inorder ru @ ctx_after gs" "inorder T = x # inorder ru @ ctx_after gs" by (simp_all add: r(1) T_def before)
  have K: "keys_once (plug (RF u c xu l # fs) T)" using S(4) by (auto simp: keys_once_def ino)
  have "sorted_map (inorder T)" using S(5) unfolding ino by (auto simp: sorted_map_def sorted_wrt_append ino)
  then show "remove_state del (Some u) (addr l) (RF u c xu l # fs) T s'"
    using rep P K rd T(4) x unfolding remove_state_def tree_state_def new by (auto simp: ino)
  show "without del (inorder (plug (RF u c xu l # fs) T)) = without del (inorder (plug fs (Nd a c x l r)))"
    using x by (simp add: ino)
  show "set (addrs (plug (RF u c xu l # fs) T)) = set (addrs (plug fs (Nd a c x l r)))" by (auto simp: r(1) T_def)
  have "size T = size r" unfolding r(1) T_def by (rule size_plug) (cases x; cases xu; simp)
  then show "size T < size (Nd a c x l r)" by simp
qed

section \<open>The leaf is taken out\<close>

fun paint :: "('k, 'v) rbt \<Rightarrow> ('k, 'v) rbt" where
  "paint Lf = Lf"
| "paint (Nd a c x l r) = Nd a BLACK x l r"

lemma paint_props [simp]:
  "inorder (paint t) = inorder t" "addrs (paint t) = addrs t" "addr (paint t) = addr t" "col (paint t) = BLACK"
  "balanced (paint t) \<longleftrightarrow> balanced t" "no_red_red t \<Longrightarrow> no_red_red (paint t)"
  by (cases t; simp)+

lemma ready_leaf:
  assumes "balanced (Nd a c x l r)" "no_red_red (Nd a c x l r)" "ready del (Nd a c x l r)" "\<not> (l \<noteq> Lf \<and> r \<noteq> Lf)"
  shows "c = RED" "l = Lf" "r = Lf"
proof -
  show c: "c = RED" using assms(3,4) by auto
  then have "col l = BLACK" "col r = BLACK" "bh l = bh r" using assms(1,2) by simp_all
  then show "l = Lf" "r = Lf" using assms(4) by (cases l; cases r; simp)+
qed

definition removed :: "nat \<Rightarrow> ('k, 'v) rb_map \<Rightarrow> ('k, 'v) rb_map \<Rightarrow> bool" where
  "removed a s s' \<longleftrightarrow> rb_live s' = (rb_live s)(a := False) \<and>
     rb_end s' = rb_end s \<and> rb_len s' = rb_len s - 1 \<and> rb_fresh s' = rb_fresh s"

lemma kept_removed: "kept s s1 \<Longrightarrow> removed a s1 s' \<Longrightarrow> removed a s s'"
  by (simp add: kept_def removed_def)

text \<open>What a removal achieves.\<close>

definition removes :: "'k::linorder \<Rightarrow> ('k, 'v) rbt \<Rightarrow> ('k, 'v) rb_map \<Rightarrow> ('k, 'v) rb_map option \<Rightarrow> bool" where
  "removes del T s result \<longleftrightarrow>
     (\<exists>s' T' a. result = Some s' \<and> rb_rep s' T' \<and> balanced T' \<and> no_red_red T' \<and> col T' = BLACK \<and>
        inorder T' = without del (inorder T) \<and> a \<notin> set (addrs T') \<and> set (addrs T) = insert a (set (addrs T')) \<and>
        rb_head s' = first_node T' \<and> rb_rear s' = last_node T' \<and> removed a s s')"

lemma removesI:
  assumes "removes del T1 s1 result" "kept s s1" "without del (inorder T1) = without del (inorder T)" "set (addrs T1) = set (addrs T)"
  shows "removes del T s result"
proof -
  obtain s' T' a where r: "result = Some s'" "rb_rep s' T'" "balanced T'" "no_red_red T'" "col T' = BLACK" "inorder T' = without del (inorder T1)"
    "a \<notin> set (addrs T')" "set (addrs T1) = insert a (set (addrs T'))" "rb_head s' = first_node T'" "rb_rear s' = last_node T'" "removed a s1 s'"
    using assms(1) unfolding removes_def by blast
  have "removed a s s'" using kept_removed [OF assms(2) r(11)] .
  then show ?thesis unfolding removes_def
    by (intro exI [of _ s'] exI [of _ T'] exI [of _ a]) (use r assms(3,4) in simp)
qed

lemma paint_root:
  assumes "rb_rep s T" "T \<noteq> Lf"
  shows "\<exists>s'. set_color (rb_root s) BLACK s = Some s' \<and> rb_rep s' (paint T) \<and> kept s s'"
proof -
  obtain a c x l r where T: "T = Nd a c x l r" using assms(2) by (cases T) auto
  show ?thesis using set_color_rep [of s "[]" a c x l r BLACK] assms(1) by (auto simp: T rb_rep_def)
qed

lemma rept_upd_live [simp]: "a \<notin> set (addrs t) \<Longrightarrow> rept (lv(a := v)) dt lf rt fa cl f t = rept lv dt lf rt fa cl f t"
  by (rule rept_cong) auto

lemma rept_ctx_upd_live [simp]: "a \<notin> set (ctx_addrs fs) \<Longrightarrow> rept_ctx (lv(a := v)) dt lf rt fa cl p fs = rept_ctx lv dt lf rt fa cl p fs"
  by (rule rept_ctx_cong) auto

lemma unlink_ok:
  assumes st: "adjusted_state del p fs (Nd a c x l r) s" and x: "fst x = del" and kids: "\<not> (l \<noteq> Lf \<and> r \<noteq> Lf)"
  shows "removes del (plug fs (Nd a c x l r)) s (unlink_node p (Some a) s)"
proof -
  have ts: "tree_state del fs (Nd a c x l r) s" and rdy: "ready del (Nd a c x l r)" using st by (simp_all add: adjusted_state_def)
  note S = tree_stateD [OF ts]
  note L = ready_leaf [OF S(7,8) rdy kids]
  obtain f fs' where fs: "fs = f # fs'" "p = Some (f_addr f)" using st kids by (cases fs) (auto simp: adjusted_state_def)
  note rep = S(1) [unfolded L fs(1) rb_rep_plug]
  define s1 where "s1 = (if is_LF f then s\<lparr>rb_left := (rb_left s)(f_addr f := None)\<rparr> else s\<lparr>rb_right := (rb_right s)(f_addr f := None)\<rparr>)"
  define s2 where "s2 = s1\<lparr>rb_len := rb_len s - 1, rb_live := (rb_live s)(a := False), rb_data := (rb_data s)(a := None)\<rparr>"
  have rep2: "rb_rep s2 (plug fs Lf)"
    using rep unfolding fs(1) rb_rep_plug by (cases f) (simp_all add: s1_def s2_def)
  obtain s3 where s3: "set_color (rb_root s2) BLACK s2 = Some s3" "rb_rep s3 (paint (plug fs Lf))" "kept s2 s3"
    using paint_root [OF rep2] fs(1) by auto
  let ?s = "s3\<lparr>rb_head := first_node (paint (plug fs Lf)), rb_rear := last_node (paint (plug fs Lf))\<rparr>"
  have "unlink_node p (Some a) s = Some ?s"
    using rep s3(1) set_ends_rep [OF s3(2)] unfolding fs(2)
    by (cases f) (auto simp: unlink_node_def rb_sets delete_NODE_def s1_def s2_def)
  moreover have "rb_rep ?s (paint (plug fs Lf))" using s3(2) by (simp add: rb_rep_def)
  moreover have "balanced (plug fs Lf)" "no_red_red (plug fs Lf)"
    using balanced_plug(2) [OF S(2), of Lf] no_red_red_plug(2) [OF S(3), of Lf] by (simp_all add: L)
  moreover have "without del (inorder (plug fs (Nd a c x l r))) = inorder (plug fs Lf)"
    using S(4) x by (auto simp: keys_once_def L)
  moreover have "a \<notin> set (addrs (plug fs Lf))" "set (addrs (plug fs (Nd a c x l r))) = insert a (set (addrs (plug fs Lf)))"
    using rep by (auto simp: L fs)
  moreover have "removed a s ?s" using s3(3) by (auto simp: removed_def kept_def s2_def s1_def)
  ultimately show ?thesis unfolding removes_def
    by (intro exI [of _ ?s] exI [of _ "paint (plug fs Lf)"] exI [of _ a]) (simp del: inorder_plug)
qed

section \<open>The loop\<close>

lemma remove_loop_ok:
  assumes "remove_state del p t2 fs t s"
  shows "removes del (plug fs t) s (remove_loop del p (addr t) t2 s)"
  using assms
proof (induction "size t" arbitrary: p t2 fs t s rule: less_induct)
  case less
  obtain p1 t3 fs1 t1 s1 where A: "remove_adjust del p (addr t) t2 s = Some (p1, addr t1, t3, s1)"
    "adjusted_state del p1 fs1 t1 s1" "size t1 \<le> size t" "kept s s1" "same_nodes (plug fs1 t1) (plug fs t)"
    using remove_adjust_ok [OF less.prems] unfolding adjusts_to_def by blast
  have ts: "tree_state del fs1 t1 s1" and rdy: "ready del t1" using A(2) by (simp_all add: adjusted_state_def)
  note S = tree_stateD [OF ts]
  obtain a c x l r where t1: "t1 = Nd a c x l r" using S(6) by (cases t1) auto
  have N: "rb_key (Some a) s1 = Some (fst x)" "rb_get rb_left (Some a) s1 = Some (addr l)" "rb_get rb_right (Some a) s1 = Some (addr r)"
    "rep s1 (Some a) r"
    using S(1) by (simp_all add: t1 rb_rep_plug)
  have eq: "rb_equal (fst x) del \<longleftrightarrow> fst x = del" by (auto simp: rb_equal_def)
  note run = remove_loop.simps [of del p "addr t" t2 s, unfolded A(1) t1 addr.simps bind.simps prod.case N eq]
  have same: "without del (inorder (plug fs1 t1)) = without del (inorder (plug fs t))" "set (addrs (plug fs1 t1)) = set (addrs (plug fs t))"
    using A(5) by (simp_all only: same_nodes_def)
  consider (both) "fst x = del" "l \<noteq> Lf" "r \<noteq> Lf" | (leaf) "fst x = del" "\<not> (l \<noteq> Lf \<and> r \<noteq> Lf)" | (down) "fst x \<noteq> del" by blast
  then have "removes del (plug fs1 t1) s1 (remove_loop del p (addr t) t2 s)"
  proof cases
    case both
    obtain gs u cu xu ru where r: "r = plug gs (Nd u cu xu Lf ru)" "\<forall>g \<in> set gs. is_LF g" "first_node r = Some u"
      using first_split [OF both(3)] by blast
    obtain s2 where s2: "swap_nodes (Some a) (Some u) s1 = Some s2"
      "rb_rep s2 (plug fs1 (Nd u c xu l (plug gs (Nd a cu x Lf ru))))" "kept s1 s2"
      using swap_ok [of s1 fs1 a c x l gs u cu xu ru] S(1) both(2) r(1,2) unfolding t1 by blast
    have lm: "leftmost (addr r) s1 = Some (Some u)" using leftmost_rep [OF N(4) both(3)] r(3) by simp
    let ?t = "plug gs (Nd a cu x Lf ru)"
    have kids: "rb_get rb_right (Some u) s2 = Some (addr ?t)" "rb_get rb_left (Some u) s2 = Some (addr l)"
      using s2(2) by (simp_all add: rb_rep_plug)
    have rd: "c = RED \<or> col r = RED" using rdy by (auto simp: t1)
    note E = exchanged_state [OF ts [unfolded t1] both(1) rd r(1,2) s2(2) refl]
    have "remove_loop del p (addr t) t2 s = remove_loop del (Some u) (addr ?t) (addr l) s2"
      unfolding run by (simp add: both lm s2(1) kids del: addr_plug)
    moreover have "removes del (plug (RF u c xu l # fs1) ?t) s2 (remove_loop del (Some u) (addr ?t) (addr l) s2)"
      using less.hyps [OF _ E(1)] E(4) A(3) by (simp add: t1 del: addr_plug plug.simps)
    ultimately show ?thesis using removesI [OF _ s2(3) E(2,3)] by (simp add: t1)
  next
    case leaf
    have "remove_loop del p (addr t) t2 s = unlink_node p1 (Some a) s1"
      unfolding run using leaf by auto
    then show ?thesis using unlink_ok [OF A(2) [unfolded t1] leaf] by (simp add: t1)
  next
    case down
    obtain F t' where F: "down del (Nd a c x l r) = (F, t')" by fastforce
    note K = down_key [OF F S(5,6) [unfolded t1] down]
    note P = down_props [OF F]
    have ch: "child_for del (Some a) s1 = Some (addr t')"
      using child_for_rep [OF S(1) [unfolded t1]] P(5) by simp
    have "l \<noteq> Lf \<or> r \<noteq> Lf" using K(3) P(6) by auto
    then have sib: "sibling (Some a) (addr t') s1 = Some (addr (f_sib F))"
      using sibling_rep [OF S(1) [unfolded t1]] P(6) by auto
    have go: "remove_loop del p (addr t) t2 s = remove_loop del (Some a) (addr t') (addr (f_sib F)) s1"
      unfolding run by (simp add: down ch sib)
    have pl: "plug (F # fs1) t' = plug fs1 t1" using P(1) by (simp add: t1)
    have "remove_state del (Some a) (addr (f_sib F)) (F # fs1) t' s1"
      using S(1-4) K rdy down P(2,3) unfolding remove_state_def tree_state_def pl by (simp add: t1)
    then show ?thesis using less.hyps [of t' "Some a" "addr (f_sib F)" "F # fs1" s1] P(4) A(3)
      unfolding go pl by (simp add: t1)
  qed
  then show ?case using removesI [OF _ A(4) same] by blast
qed

text \<open>\<^verbatim>\<open>remove\<close> on a map: the item goes, the rest stays in order, one node is freed.\<close>

lemma rbm_ok_removed:
  assumes ok: "rbm_ok s T" and "removes del T s result" and del: "del \<in> fst ` set (inorder T)"
  shows "\<exists>s' T'. result = Some s' \<and> rbm_ok s' T' \<and> inorder T' = without del (inorder T)"
proof -
  obtain s' T' a where r: "result = Some s'" "rb_rep s' T'" "balanced T'" "no_red_red T'" "col T' = BLACK" "inorder T' = without del (inorder T)"
    "a \<notin> set (addrs T')" "set (addrs T) = insert a (set (addrs T'))" "rb_head s' = first_node T'" "rb_rear s' = last_node T'" "removed a s s'"
    using assms(2) unfolding removes_def by blast
  obtain e where e: "rb_end s = Some e" "e \<notin> set (addrs T)" "\<forall>b. rb_live s b \<longleftrightarrow> b \<in> set (addrs T) \<or> b = e"
    using rbm_okD(9) [OF ok] by blast
  have srt: "sorted_map (inorder T)" using rbm_okD(8) [OF ok] .
  have "sorted_map (inorder T')" using srt unfolding r(6) sorted_map_def by (rule sorted_wrt_filter)
  moreover have "length (inorder T) = Suc (length (without del (inorder T)))"
    using sorted_map_keys(2) [OF srt del] .
  moreover have "\<exists>e. rb_end s' = Some e \<and> e \<notin> set (addrs T') \<and> (\<forall>b. rb_live s' b \<longleftrightarrow> b \<in> set (addrs T') \<or> b = e)"
    using e r(7,8,11) by (auto simp: removed_def)
  ultimately have "rbm_ok s' T'"
    using r rbm_okD(4,7) [OF ok] by (simp add: rbm_ok_def rb_tree_def removed_def)
  then show ?thesis using r(1,6) by blast
qed

theorem rb_remove_ok:
  assumes ok: "rbm_ok s T" and del: "del \<in> fst ` set (inorder T)"
  shows "\<exists>s' T'. rb_remove del s = Some s' \<and> rbm_ok s' T' \<and> inorder T' = without del (inorder T)"
proof -
  obtain a c x l r where T: "T = Nd a c x l r" using del by (cases T) auto
  note R = rbm_okD [OF ok]
  have eq: "rb_equal (fst x) del \<longleftrightarrow> fst x = del" by (auto simp: rb_equal_def)
  have N: "rb_root s = Some a" "rb_live s a" "rb_data s a = Some x" "rb_left s a = addr l" "rb_right s a = addr r"
    using R(1) by (simp_all add: T rb_rep_def)
  have "removes del T s (rb_remove del s)"
  proof (cases "fst x = del \<and> l = Lf \<and> r = Lf")
    case True
    let ?s = "s\<lparr>rb_len := rb_len s - 1, rb_live := (rb_live s)(a := False), rb_data := (rb_data s)(a := None), rb_root := None, rb_head := None, rb_rear := None\<rparr>"
    have "rb_remove del s = Some ?s" using True N by (simp add: rb_remove_def delete_NODE_def rb_equal_def)
    then show ?thesis unfolding removes_def
      by (intro exI [of _ ?s] exI [of _ Lf] exI [of _ a]) (use True in \<open>simp add: T rb_rep_def removed_def\<close>)
  next
    case False
    have d: "fst x = del \<Longrightarrow> \<not> (l = Lf \<and> r = Lf)" using False by simp
    have "rb_remove del s = remove_loop del (Some a) (addr T) (Some a) s"
      using False N by (auto simp: rb_remove_def eq T)
    moreover have "T \<noteq> Nd b c' y Lf Lf" for b c' y using del d by (auto simp: T)
    then have "remove_state del (Some a) (Some a) [] T s"
      using R(1-3,8) del sorted_map_keys(1) [OF R(8)] by (simp add: remove_state_def tree_state_def rb_tree_def keys_once_def)
    ultimately show ?thesis using remove_loop_ok by fastforce
  qed
  then show ?thesis using rbm_ok_removed [OF ok _ del] by blast
qed

end
