(* ===== verification/RedBlackOps.thy ===== *)
theory RedBlackOps
  imports RedBlackDelete
begin

text \<open>
  The public operations of the map on a red-black tree: search, insertion, \<^verbatim>\<open>operator[]\<close>, removal by
  iterator, clearing and copying.
\<close>

section \<open>Search\<close>

fun find_node :: "'k::linorder \<Rightarrow> ('k, 'v) rbt \<Rightarrow> rb_ptr" where
  "find_node k Lf = None"
| "find_node k (Nd a c x l r) = (if fst x = k then Some a else if k < fst x then find_node k l else find_node k r)"

lemma find_loop_rep: "rep s f t \<Longrightarrow> find_loop k (addr t) s = Some (find_node k t)"
proof (induction t arbitrary: f)
  case (Nd a c x l r)
  have "rb_equal (fst x) k \<longleftrightarrow> fst x = k" by (auto simp: rb_equal_def)
  then show ?case
    using Nd.prems Nd.IH [of "Some a"] by (simp add: find_loop.simps [of k "Some a"] child_for_def)
qed (simp add: find_loop.simps)

lemma sorted_map_Nd:
  "sorted_map (xs @ e # ys) \<longleftrightarrow> sorted_map xs \<and> sorted_map ys \<and> (\<forall>b \<in> set xs. fst b < fst e) \<and> (\<forall>b \<in> set ys. fst e < fst b)"
  by (force simp: sorted_map_def sorted_wrt_append)

lemma find_node_item:
  assumes "rep s f t" and "sorted_map (inorder t)"
  shows "(case find_node k t of None \<Rightarrow> k \<notin> fst ` set (inorder t)
    | Some a \<Rightarrow> a \<in> set (addrs t) \<and> (\<exists>v. rb_data s a = Some (k, v) \<and> (k, v) \<in> set (inorder t)))"
  using assms
proof (induction t arbitrary: f)
  case (Nd a c x l r)
  have srt: "sorted_map (inorder l)" "sorted_map (inorder r)" "\<forall>b \<in> set (inorder l). fst b < fst x" "\<forall>b \<in> set (inorder r). fst x < fst b"
    using Nd.prems(2) by (simp_all add: sorted_map_Nd)
  have rep: "rep s (Some a) l" "rep s (Some a) r" "rb_data s a = Some x" using Nd.prems(1) by simp_all
  consider "fst x = k" | "k < fst x" | "fst x < k" using less_linear by blast
  then show ?case
  proof cases
    case 1
    then show ?thesis using rep(3) by (cases x) auto
  next
    case 2
    then have "k \<notin> fst ` set (inorder r)" using srt(4) by force
    then show ?thesis using Nd.IH(1) [OF rep(1) srt(1)] 2 by (auto split: option.splits)
  next
    case 3
    then have "k \<notin> fst ` set (inorder l)" using srt(3) by force
    then show ?thesis using Nd.IH(2) [OF rep(2) srt(2)] 3 by (auto split: option.splits)
  qed
qed simp

lemma map_of_sorted: "sorted_map xs \<Longrightarrow> (k, v) \<in> set xs \<Longrightarrow> map_of xs k = Some v"
  by (rule map_of_is_SomeI [OF sorted_map_keys(1)])

text \<open>\<^verbatim>\<open>find\<close>: the node that holds the key, with its item.\<close>

lemma rb_find_absent:
  assumes "rbm_ok s T" and "map_of (inorder T) k = None"
  shows "rb_find k s = Some None"
proof -
  note R = rbm_okD [OF assms(1)]
  have rep: "rep s None T" "rb_root s = addr T" using R(1) by (simp_all add: rb_rep_def)
  have "find_node k T = None" using find_node_item [OF rep(1) R(8), of k] map_of_sorted [OF R(8), of k] assms(2)
    by (auto split: option.splits)
  then show ?thesis using find_loop_rep [OF rep(1)] rep(2) by (simp add: rb_find_def)
qed

lemma rb_find_present:
  assumes "rbm_ok s T" and "map_of (inorder T) k = Some v"
  obtains a where "rb_find k s = Some (Some a)" "a \<in> set (addrs T)" "rb_live s a" "rb_data s a = Some (k, v)" "rb_end s \<noteq> Some a"
proof -
  note R = rbm_okD [OF assms(1)]
  have rep: "rep s None T" "rb_root s = addr T" using R(1) by (simp_all add: rb_rep_def)
  have "k \<in> fst ` set (inorder T)" using assms(2) by (force dest: map_of_SomeD)
  then obtain a w where a: "find_node k T = Some a" "a \<in> set (addrs T)" "rb_data s a = Some (k, w)" "(k, w) \<in> set (inorder T)"
    using find_node_item [OF rep(1) R(8), of k] by (auto split: option.splits)
  have "w = v" using map_of_sorted [OF R(8) a(4)] assms(2) by simp
  moreover have "rb_live s a" using rb_rep_live [OF R(1) a(2)] by simp
  moreover have "rb_end s \<noteq> Some a" using R(9) a(2) by auto
  ultimately show thesis using that find_loop_rep [OF rep(1), of k] rep(2) a(1-3) by (simp add: rb_find_def)
qed

section \<open>The ordered list of a map\<close>

text \<open>\<open>rbm_rel s xs\<close>: the map \<open>s\<close> holds the items \<open>xs\<close>, in the order of the keys.\<close>

definition rbm_rel :: "('k::linorder, 'v) rb_map \<Rightarrow> ('k \<times> 'v) list \<Rightarrow> bool" where
  "rbm_rel s xs \<longleftrightarrow> (\<exists>T. rbm_ok s T \<and> inorder T = xs)"

fun put_sorted :: "'k::linorder \<times> 'v \<Rightarrow> ('k \<times> 'v) list \<Rightarrow> ('k \<times> 'v) list" where
  "put_sorted e [] = [e]"
| "put_sorted e (b # xs) = (if fst e < fst b then e # b # xs else b # put_sorted e xs)"

lemma put_sorted_split: "sorted_map (ys @ e # zs) \<Longrightarrow> put_sorted e (ys @ zs) = ys @ e # zs"
proof (induction ys)
  case Nil
  then show ?case by (cases zs) (simp_all add: sorted_map_def)
next
  case (Cons b ys)
  then show ?case by (auto simp: sorted_map_def)
qed

lemma rbm_relD:
  assumes "rbm_rel s xs"
  shows "sorted_map xs" "rb_len s = int (length xs)"
  using assms rbm_okD(4,8) unfolding rbm_rel_def by blast+

lemma rb_insert_rel:
  assumes "rbm_rel s xs" and "map_of xs (fst e) = None"
  shows "\<exists>s'. rb_insert e s = Some s' \<and> rbm_rel s' (put_sorted e xs)"
proof -
  obtain T where T: "rbm_ok s T" "inorder T = xs" using assms(1) by (auto simp: rbm_rel_def)
  have "fst e \<notin> fst ` set (inorder T)" using assms(2) by (simp add: T(2) map_of_eq_None_iff)
  from rb_insert_ok [OF T(1) this] obtain s' T' ys zs where
    r: "rb_insert e s = Some s'" "rbm_ok s' T'" "inorder T = ys @ zs" "inorder T' = ys @ e # zs" by blast
  have "inorder T' = put_sorted e xs" using put_sorted_split rbm_okD(8) [OF r(2)] r(3,4) T(2) by metis
  then show ?thesis using r(1,2) by (auto simp: rbm_rel_def)
qed

lemma map_of_put_sorted: "map_of xs (fst e) = None \<Longrightarrow> map_of (put_sorted e xs) = (map_of xs)(fst e \<mapsto> snd e)"
  by (induction xs) (auto simp: fun_eq_iff split: if_splits)

text \<open>\<^verbatim>\<open>insert\<close>: whether the key was new, and the node that holds it now.\<close>

lemma map_insert_new:
  assumes "rbm_rel s xs" and "map_of xs (fst e) = None"
  shows "\<exists>a s'. map_insert e s = Some (Some a, True, s') \<and> rbm_rel s' (put_sorted e xs) \<and> rb_find (fst e) s' = Some (Some a)"
proof -
  obtain T where T: "rbm_ok s T" "inorder T = xs" using assms(1) by (auto simp: rbm_rel_def)
  obtain s' where s': "rb_insert e s = Some s'" "rbm_rel s' (put_sorted e xs)" using rb_insert_rel [OF assms] by blast
  obtain T' where T': "rbm_ok s' T'" "inorder T' = put_sorted e xs" using s'(2) by (auto simp: rbm_rel_def)
  have "map_of (inorder T') (fst e) = Some (snd e)" using map_of_put_sorted [OF assms(2)] T'(2) by simp
  then obtain a where "rb_find (fst e) s' = Some (Some a)"
    using rb_find_present [OF T'(1)] by metis
  moreover have "rb_find (fst e) s = Some None" using rb_find_absent [OF T(1)] T(2) assms(2) by blast
  ultimately show ?thesis using s' by (simp add: map_insert_def)
qed

lemma map_insert_present:
  assumes "rbm_rel s xs" and "map_of xs (fst e) = Some v"
  shows "\<exists>a. map_insert e s = Some (Some a, False, s) \<and> rb_data s a = Some (fst e, v)"
proof -
  obtain T where T: "rbm_ok s T" "inorder T = xs" using assms(1) by (auto simp: rbm_rel_def)
  obtain a where "rb_find (fst e) s = Some (Some a)" "rb_data s a = Some (fst e, v)"
    using rb_find_present [OF T(1)] T(2) assms(2) by metis
  then show ?thesis by (simp add: map_insert_def)
qed

section \<open>Lookups\<close>

lemma map_at_rel: "rbm_rel s xs \<Longrightarrow> map_at k s = Some (case map_of xs k of None \<Rightarrow> Inl map_index_out_of_bound | Some v \<Rightarrow> Inr v)"
proof -
  assume "rbm_rel s xs"
  then obtain T where T: "rbm_ok s T" "inorder T = xs" by (auto simp: rbm_rel_def)
  show ?thesis
  proof (cases "map_of xs k")
    case None
    then show ?thesis using rb_find_absent [OF T(1)] T(2) by (simp add: map_at_def)
  next
    case (Some v)
    then obtain a where "rb_find k s = Some (Some a)" "rb_live s a" "rb_data s a = Some (k, v)"
      using rb_find_present [OF T(1)] T(2) by metis
    then show ?thesis using Some by (simp add: map_at_def)
  qed
qed

lemma map_count_rel: "rbm_rel s xs \<Longrightarrow> map_count k s = Some (if map_of xs k = None then 0 else 1)"
proof -
  assume "rbm_rel s xs"
  then obtain T where T: "rbm_ok s T" "inorder T = xs" by (auto simp: rbm_rel_def)
  show ?thesis
  proof (cases "map_of xs k")
    case None
    then show ?thesis using rb_find_absent [OF T(1)] T(2) by (simp add: map_count_def)
  next
    case (Some v)
    then obtain a where "rb_find k s = Some (Some a)" using rb_find_present [OF T(1)] T(2) by metis
    then show ?thesis using Some by (simp add: map_count_def)
  qed
qed

section \<open>Removal\<close>

text \<open>\<^verbatim>\<open>erase(find(key))\<close>, as the service logs a user out.\<close>

definition map_erase_key :: "'k::linorder \<Rightarrow> ('k, 'v) rb_map \<Rightarrow> (map_error + ('k, 'v) rb_map) option" where
  "map_erase_key k s = do { pos \<leftarrow> map_find k s; map_erase pos s }"

lemma map_erase_absent:
  assumes "rbm_rel s xs" and "map_of xs k = None"
  shows "map_erase_key k s = Some (Inl map_invalid_iterator)"
proof -
  obtain T where T: "rbm_ok s T" "inorder T = xs" using assms(1) by (auto simp: rbm_rel_def)
  show ?thesis using rb_find_absent [OF T(1)] T(2) assms(2)
    by (simp add: map_erase_key_def map_find_def map_erase_def)
qed

lemma map_erase_present:
  assumes "rbm_rel s xs" and "map_of xs k = Some v"
  shows "\<exists>s'. map_erase_key k s = Some (Inr s') \<and> rbm_rel s' (without k xs)"
proof -
  obtain T where T: "rbm_ok s T" "inorder T = xs" using assms(1) by (auto simp: rbm_rel_def)
  obtain a where a: "rb_find k s = Some (Some a)" "rb_live s a" "rb_data s a = Some (k, v)" "rb_end s \<noteq> Some a"
    using rb_find_present [OF T(1)] T(2) assms(2) by metis
  have "k \<in> fst ` set (inorder T)" using assms(2) T(2) by (force dest: map_of_SomeD)
  from rb_remove_ok [OF T(1) this] obtain s' T' where
    "rb_remove k s = Some s'" "rbm_ok s' T'" "inorder T' = without k (inorder T)" by blast
  then show ?thesis using a T(2) by (auto simp: map_erase_key_def map_find_def map_erase_def map_end_def rbm_rel_def)
qed

end
