(* ===== verification/RedBlackCopy.thy ===== *)
theory RedBlackCopy
  imports RedBlackOps
begin

text \<open>Clearing, copying and assigning the maps on red-black trees.\<close>

section \<open>Freeing a subtree\<close>

definition freed :: "nat set \<Rightarrow> ('k, 'v) rb_map \<Rightarrow> ('k, 'v) rb_map \<Rightarrow> bool" where
  "freed A s s' \<longleftrightarrow> (\<forall>a. rb_live s' a \<longleftrightarrow> rb_live s a \<and> a \<notin> A) \<and>
     (\<forall>a. a \<notin> A \<longrightarrow> rb_data s' a = rb_data s a \<and> rb_left s' a = rb_left s a \<and> rb_right s' a = rb_right s a \<and>
        rb_fa s' a = rb_fa s a \<and> rb_color s' a = rb_color s a) \<and>
     rb_root s' = rb_root s \<and> rb_end s' = rb_end s \<and> rb_head s' = rb_head s \<and> rb_rear s' = rb_rear s \<and>
     rb_len s' = rb_len s \<and> rb_fresh s' = rb_fresh s"

lemma freed_rep:
  assumes "freed A s s'" "set (addrs t) \<inter> A = {}"
  shows "rep s' f t = rep s f t"
proof (rule rept_cong)
  fix a assume "a \<in> set (addrs t)"
  then have "a \<notin> A" using assms(2) by blast
  then show "rb_live s' a = rb_live s a \<and> rb_data s' a = rb_data s a \<and> rb_left s' a = rb_left s a \<and> rb_right s' a = rb_right s a \<and>
      rb_fa s' a = rb_fa s a \<and> rb_color s' a = rb_color s a"
    using assms(1) by (simp add: freed_def)
qed

lemma make_empty_rep:
  assumes "rep s f t" "distinct (addrs t)"
  shows "\<exists>s'. make_empty (addr t) s = Some s' \<and> freed (set (addrs t)) s s'"
  using assms
proof (induction t arbitrary: f s)
  case Lf
  then show ?case by (simp add: make_empty.simps freed_def)
next
  case (Nd a c x l r)
  have a: "rb_live s a" "rb_left s a = addr l" "rb_right s a = addr r" "a \<notin> set (addrs l)" "a \<notin> set (addrs r)"
    using Nd.prems by simp_all
  obtain s1 where s1: "make_empty (addr l) s = Some s1" "freed (set (addrs l)) s s1"
    using Nd.IH(1) [of s "Some a"] Nd.prems by auto
  let ?s1 = "s1\<lparr>rb_left := (rb_left s1)(a := None)\<rparr>"
  have a1: "rb_live s1 a" "rb_right s1 a = addr r" using s1(2) a by (simp_all add: freed_def)
  have "rep s1 (Some a) r" using freed_rep [OF s1(2), of r] Nd.prems by (simp add: Int_commute)
  then have r1: "rep ?s1 (Some a) r" using a(5) by simp
  have "distinct (addrs r)" using Nd.prems(2) by simp
  then obtain s2 where s2: "make_empty (addr r) ?s1 = Some s2" "freed (set (addrs r)) ?s1 s2"
    using Nd.IH(2) [OF r1] by blast
  have a2: "rb_live s2 a" using s2(2) a1 a(5) by (simp add: freed_def)
  let ?s' = "s2\<lparr>rb_right := (rb_right s2)(a := None), rb_live := (rb_live s2)(a := False), rb_data := (rb_data s2)(a := None)\<rparr>"
  have "make_empty (addr (Nd a c x l r)) s = Some ?s'"
    using a a1 a2 s1(1) s2(1) by (simp add: make_empty.simps [of "Some a"] rb_sets delete_NODE_def)
  moreover have "freed (set (addrs (Nd a c x l r))) s ?s'"
    using s1(2) s2(2) by (auto simp: freed_def)
  ultimately show ?case by blast
qed

lemma map_clear_rel:
  assumes "rbm_rel s xs"
  shows "\<exists>s'. map_clear s = Some s' \<and> rbm_rel s' []"
proof -
  obtain T where T: "rbm_ok s T" using assms by (auto simp: rbm_rel_def)
  note R = rbm_okD [OF T]
  have rep: "rep s None T" "distinct (addrs T)" "rb_root s = addr T" using R(1) by (simp_all add: rb_rep_def)
  obtain s1 where s1: "make_empty (addr T) s = Some s1" "freed (set (addrs T)) s s1" using make_empty_rep [OF rep(1,2)] by blast
  let ?s = "s1\<lparr>rb_root := None, rb_len := 0, rb_head := None, rb_rear := None\<rparr>"
  have "rbm_ok ?s Lf"
    using s1(2) R(7,9) by (auto simp: rbm_ok_def rb_rep_def rb_tree_def sorted_map_def freed_def)
  then have "rbm_rel ?s []" unfolding rbm_rel_def by (intro exI [of _ Lf]) simp
  then show ?thesis using s1(1) rep(3) by (simp add: map_clear_def)
qed

text \<open>The destructor frees everything.\<close>

lemma map_destroy_rel:
  assumes "rbm_rel s xs"
  shows "\<exists>s'. map_destroy s = Some s' \<and> (\<forall>a. \<not> rb_live s' a)"
proof -
  obtain T where T: "rbm_ok s T" using assms by (auto simp: rbm_rel_def)
  note R = rbm_okD [OF T]
  have rep: "rep s None T" "distinct (addrs T)" "rb_root s = addr T" using R(1) by (simp_all add: rb_rep_def)
  obtain s1 where s1: "make_empty (addr T) s = Some s1" "freed (set (addrs T)) s s1" using make_empty_rep [OF rep(1,2)] by blast
  obtain e where e: "rb_end s = Some e" "e \<notin> set (addrs T)" "\<forall>a. rb_live s a \<longleftrightarrow> a \<in> set (addrs T) \<or> a = e" using R(9) by blast
  show ?thesis using s1 e rep(3) by (auto simp: map_destroy_def delete_NODE_def freed_def)
qed

section \<open>Copying a subtree\<close>

text \<open>The copy has the same shape; its nodes are numbered as they are allocated.\<close>

fun renumber :: "nat \<Rightarrow> ('k, 'v) rbt \<Rightarrow> ('k, 'v) rbt" where
  "renumber n Lf = Lf"
| "renumber n (Nd a c x l r) = Nd n c x (renumber (Suc n) l) (renumber (Suc n + length (addrs l)) r)"

lemma renumber_props [simp]:
  "inorder (renumber n t) = inorder t" "col (renumber n t) = col t" "bh (renumber n t) = bh t"
  "balanced (renumber n t) = balanced t" "no_red_red (renumber n t) = no_red_red t"
proof -
  show c: "col (renumber n t) = col t" for n and t :: "('a, 'b) rbt" by (cases t) simp_all
  show b: "bh (renumber n t) = bh t" for n by (induction t arbitrary: n) simp_all
  show "inorder (renumber n t) = inorder t" by (induction t arbitrary: n) simp_all
  show "balanced (renumber n t) = balanced t"
  proof (induction t arbitrary: n)
    case (Nd a c x l r)
    have "bh (renumber m u) = bh u" for m and u :: "('a, 'b) rbt" by (induction u arbitrary: m) simp_all
    then show ?case using Nd.IH by simp
  qed simp
  show "no_red_red (renumber n t) = no_red_red t"
    by (induction t arbitrary: n) (simp_all add: c)
qed

lemma renumber_addrs: "set (addrs (renumber n t)) = {n ..< n + length (addrs t)}" "distinct (addrs (renumber n t))"
proof -
  have "set (addrs (renumber n t)) = {n ..< n + length (addrs t)} \<and> distinct (addrs (renumber n t))"
    by (induction t arbitrary: n) auto
  then show "set (addrs (renumber n t)) = {n ..< n + length (addrs t)}" "distinct (addrs (renumber n t))" by simp_all
qed

definition grown :: "nat \<Rightarrow> ('k, 'v) rb_map \<Rightarrow> ('k, 'v) rb_map \<Rightarrow> bool" where
  "grown n s s' \<longleftrightarrow> (\<forall>a. rb_live s' a \<longleftrightarrow> rb_live s a \<or> rb_fresh s \<le> a \<and> a < rb_fresh s + n) \<and>
     (\<forall>a < rb_fresh s. rb_data s' a = rb_data s a \<and> rb_left s' a = rb_left s a \<and> rb_right s' a = rb_right s a \<and>
        rb_fa s' a = rb_fa s a \<and> rb_color s' a = rb_color s a) \<and>
     rb_root s' = rb_root s \<and> rb_end s' = rb_end s \<and> rb_head s' = rb_head s \<and> rb_rear s' = rb_rear s \<and>
     rb_len s' = rb_len s \<and> rb_fresh s' = rb_fresh s + n"

lemma grown_rep:
  assumes "grown n s s'" "\<forall>a \<in> set (addrs t). a < rb_fresh s" "rep s f t"
  shows "rep s' f t"
proof -
  have "rep s' f t = rep s f t"
  proof (rule rept_cong)
    fix a assume a: "a \<in> set (addrs t)"
    have "rb_live s a" using node_live [OF assms(3) a] by simp
    then show "rb_live s' a = rb_live s a \<and> rb_data s' a = rb_data s a \<and> rb_left s' a = rb_left s a \<and> rb_right s' a = rb_right s a \<and>
        rb_fa s' a = rb_fa s a \<and> rb_color s' a = rb_color s a"
      using assms(1,2) a by (simp add: grown_def)
  qed
  then show ?thesis using assms(3) by simp
qed

lemma rb_clone_rep:
  assumes "rep other f t"
  shows "\<exists>s'. rb_clone other (addr t) s = Some (addr (renumber (rb_fresh s) t), s') \<and>
     rep s' None (renumber (rb_fresh s) t) \<and> grown (length (addrs t)) s s'"
  using assms
proof (induction t arbitrary: f s)
  case Lf
  then show ?case by (auto simp: rb_clone.simps grown_def)
next
  case (Nd a c x l r)
  have o: "rb_item (Some a) other = Some x" "rb_get rb_color (Some a) other = Some c" "rb_get rb_left (Some a) other = Some (addr l)"
    "rb_get rb_right (Some a) other = Some (addr r)" "rep other (Some a) l" "rep other (Some a) r"
    using Nd.prems by simp_all
  let ?n = "rb_fresh s"
  let ?L = "renumber (Suc ?n) l" and ?R = "renumber (Suc ?n + length (addrs l)) r"
  obtain s0 where s0: "new_NODE (Some x) c None s = (Some ?n, s0)" by (simp add: new_NODE_def Let_def)
  have f0: "rb_fresh s0 = Suc ?n" using s0 by (auto simp: new_NODE_def Let_def)
  obtain s1 where s1: "rb_clone other (addr l) s0 = Some (addr ?L, s1)" "rep s1 None ?L" "grown (length (addrs l)) s0 s1"
    using Nd.IH(1) [OF o(5), of s0] f0 by auto
  let ?s1 = "s1\<lparr>rb_left := (rb_left s1)(?n := addr ?L)\<rparr>"
  have f1: "rb_fresh ?s1 = Suc ?n + length (addrs l)" using s1(3) f0 by (simp add: grown_def)
  obtain s2 where s2: "rb_clone other (addr r) ?s1 = Some (addr ?R, s2)" "rep s2 None ?R" "grown (length (addrs r)) ?s1 s2"
    using Nd.IH(2) [OF o(6), of ?s1] unfolding f1 by blast
  have sets: "set (addrs ?L) = {Suc ?n ..< Suc ?n + length (addrs l)}"
    "set (addrs ?R) = {Suc ?n + length (addrs l) ..< Suc ?n + length (addrs l) + length (addrs r)}"
    using renumber_addrs(1) by blast+
  have notin: "?n \<notin> set (addrs ?L)" "?n \<notin> set (addrs ?R)" "set (addrs ?L) \<inter> set (addrs ?R) = {}" "set (addrs ?R) \<inter> set (addrs ?L) = {}"
    unfolding sets by auto
  have "rep ?s1 None ?L" using s1(2) notin(1) by simp
  then have L2: "rep s2 None ?L" by (rule grown_rep [OF s2(3), rotated]) (simp add: sets f1 [simplified])
  have n2: "rb_live s1 ?n" "rb_live s2 ?n" "rb_data s2 ?n = Some x" "rb_left s2 ?n = addr ?L" "rb_fa s2 ?n = None" "rb_color s2 ?n = c"
    using s0 s1(3) s2(3) f0 by (auto simp: new_NODE_def Let_def grown_def)
  have live: "addr ?L = Some b \<Longrightarrow> rb_live s2 b" "addr ?R = Some b \<Longrightarrow> rb_live s2 b" for b
    using L2 s2(2) node_live addr_in_addrs by blast+
  let ?s3 = "s2\<lparr>rb_right := (rb_right s2)(?n := addr ?R),
      rb_fa := fa_upd (addr ?R) (Some ?n) (fa_upd (addr ?L) (Some ?n) (rb_fa s2))\<rparr>"
  have "rb_clone other (addr (Nd a c x l r)) s = Some (Some ?n, ?s3)"
    using o s0 s1(1) s2(1) n2 live by (simp add: rb_clone.simps [of other "Some a"] rb_sets)
  moreover have "rep ?s3 None (renumber ?n (Nd a c x l r))"
    using n2 notin L2 s2(2) by (simp add: rept_new_fa [where f = None] renumber_addrs(2))
  moreover have "grown (length (addrs (Nd a c x l r))) s ?s3"
  proof -
    have "\<forall>b. rb_live s0 b \<longleftrightarrow> rb_live s b \<or> b = ?n" "\<forall>b < ?n. rb_data s0 b = rb_data s b \<and> rb_left s0 b = rb_left s b \<and>
        rb_right s0 b = rb_right s b \<and> rb_fa s0 b = rb_fa s b \<and> rb_color s0 b = rb_color s b"
      "rb_root s0 = rb_root s" "rb_end s0 = rb_end s" "rb_head s0 = rb_head s" "rb_rear s0 = rb_rear s" "rb_len s0 = rb_len s"
      using s0 by (auto simp: new_NODE_def Let_def)
    moreover have "b \<notin> set (addrs ?L)" "b \<notin> set (addrs ?R)" if "b < ?n" for b using that unfolding sets by auto
    ultimately show ?thesis using s1(3) s2(3) f0 by (auto simp: grown_def)
  qed
  ultimately show ?case by (intro exI [of _ ?s3]) (simp only: renumber.simps addr.simps simp_thms)
qed

section \<open>Copies of a map\<close>

lemma rbm_ok_copy:
  assumes ok: "rbm_ok other T" and rep: "rep s None T'" and T': "T' = renumber n T" and len: "rb_len s = rb_len other"
    and e: "rb_end s = Some e" "e \<notin> set (addrs T')" "\<forall>a. rb_live s a \<longleftrightarrow> a \<in> set (addrs T') \<or> a = e" "\<forall>a. rb_live s a \<longrightarrow> a < rb_fresh s"
    and ptrs: "rb_root s = addr T'" "rb_head s = first_node T'" "rb_rear s = last_node T'"
  shows "rbm_ok s T'" and "inorder T' = inorder T"
  using rbm_okD [OF ok] rep len e ptrs renumber_addrs(2) by (auto simp: rbm_ok_def rb_rep_def rb_tree_def T')

text \<open>A new \<^verbatim>\<open>end_node\<close>.\<close>

lemma new_end_fields [simp]:
  "rb_end (new_end s) = Some (rb_fresh s)" "rb_live (new_end s) = (rb_live s)(rb_fresh s := True)" "rb_fresh (new_end s) = Suc (rb_fresh s)"
  "rb_root (new_end s) = rb_root s" "rb_head (new_end s) = rb_head s" "rb_rear (new_end s) = rb_rear s" "rb_len (new_end s) = rb_len s"
  by (simp_all add: new_end_def new_NODE_def Let_def)

lemma new_end_rep: "rep s f t \<Longrightarrow> \<forall>a \<in> set (addrs t). a < rb_fresh s \<Longrightarrow> rep (new_end s) f t"
proof -
  assume a: "rep s f t" "\<forall>a \<in> set (addrs t). a < rb_fresh s"
  have "rep (new_end s) f t = rep s f t"
  proof (rule rept_cong)
    fix b assume "b \<in> set (addrs t)"
    then have "b \<noteq> rb_fresh s" using a(2) by auto
    then show "rb_live (new_end s) b = rb_live s b \<and> rb_data (new_end s) b = rb_data s b \<and> rb_left (new_end s) b = rb_left s b \<and>
        rb_right (new_end s) b = rb_right s b \<and> rb_fa (new_end s) b = rb_fa s b \<and> rb_color (new_end s) b = rb_color s b"
      by (simp add: new_end_def new_NODE_def Let_def)
  qed
  then show ?thesis using a(1) by simp
qed

lemma map_new_rel: "rbm_rel map_new []"
  unfolding rbm_rel_def
  by (intro exI [of _ Lf])
    (simp add: map_new_def rbm_ok_def rb_rep_def rb_tree_def sorted_map_def, simp add: rb_none_def)

lemma map_copy_rel:
  assumes "rbm_rel other xs"
  shows "\<exists>s'. map_copy other = Some s' \<and> rbm_rel s' xs"
proof -
  obtain T where T: "rbm_ok other T" "inorder T = xs" using assms by (auto simp: rbm_rel_def)
  have O: "rep other None T" "rb_root other = addr T" using rbm_okD(1) [OF T(1)] by (simp_all add: rb_rep_def)
  let ?s0 = "rb_none\<lparr>rb_len := rb_len other\<rparr> :: ('a, 'b) rb_map" and ?T = "renumber 0 T"
  have "rb_fresh ?s0 = 0" by (simp add: rb_none_def)
  then obtain s1 where s1: "rb_clone other (addr T) ?s0 = Some (addr ?T, s1)" "rep s1 None ?T" "grown (length (addrs T)) ?s0 s1"
    using rb_clone_rep [OF O(1), of ?s0] by auto
  let ?s2 = "s1\<lparr>rb_root := addr ?T\<rparr>"
  have rep2: "rb_rep ?s2 ?T" using s1(2) renumber_addrs(2) by (simp add: rb_rep_def)
  let ?s = "new_end (?s2\<lparr>rb_head := first_node ?T, rb_rear := last_node ?T\<rparr>)"
  have "map_copy other = Some ?s"
    using s1(1) set_ends_rep [OF rep2] O(2) by (simp add: map_copy_def)
  moreover have "rbm_ok ?s ?T"
  proof (rule rbm_ok_copy(1) [OF T(1) _ refl])
    have sets: "set (addrs ?T) = {0 ..< length (addrs T)}" using renumber_addrs(1) [of 0 T] by simp
    have g: "rb_fresh s1 = length (addrs T)" "\<forall>a. rb_live s1 a \<longleftrightarrow> a < length (addrs T)" "rb_len s1 = rb_len other"
      using s1(3) by (auto simp: grown_def rb_none_def)
    show "rep ?s None ?T" by (rule new_end_rep) (use s1(2) sets g(1) in simp_all)
    show "rb_len ?s = rb_len other" "rb_root ?s = addr ?T" "rb_head ?s = first_node ?T" "rb_rear ?s = last_node ?T"
      "rb_end ?s = Some (length (addrs T))" using g by simp_all
    show "length (addrs T) \<notin> set (addrs ?T)" "\<forall>a. rb_live ?s a \<longleftrightarrow> a \<in> set (addrs ?T) \<or> a = length (addrs T)" "\<forall>a. rb_live ?s a \<longrightarrow> a < rb_fresh ?s"
      using g sets by auto
  qed
  ultimately show ?thesis using T(2) by (auto simp: rbm_rel_def)
qed

text \<open>\<^verbatim>\<open>operator=\<close> from another map frees what was there.\<close>

lemma map_assign_rel:
  assumes "rbm_rel s ys" and "rbm_rel other xs"
  shows "\<exists>s'. map_assign other s = Some s' \<and> rbm_rel s' xs"
proof -
  obtain S where S: "rbm_ok s S" using assms(1) by (auto simp: rbm_rel_def)
  obtain T where T: "rbm_ok other T" "inorder T = xs" using assms(2) by (auto simp: rbm_rel_def)
  note R = rbm_okD [OF S]
  have O: "rep other None T" "rb_root other = addr T" using rbm_okD(1) [OF T(1)] by (simp_all add: rb_rep_def)
  have rep: "rep s None S" "distinct (addrs S)" "rb_root s = addr S" using R(1) by (simp_all add: rb_rep_def)
  obtain s1 where s1: "make_empty (addr S) s = Some s1" "freed (set (addrs S)) s s1" using make_empty_rep [OF rep(1,2)] by blast
  obtain e where e: "rb_end s = Some e" "e \<notin> set (addrs S)" "\<forall>a. rb_live s a \<longleftrightarrow> a \<in> set (addrs S) \<or> a = e" using R(9) by blast
  let ?s2 = "s1\<lparr>rb_live := (rb_live s1)(e := False), rb_data := (rb_data s1)(e := None)\<rparr>"
  have s2: "rb_end s1 = Some e" "rb_live s1 e" "\<forall>a. \<not> rb_live ?s2 a" using s1(2) e by (auto simp: freed_def)
  let ?n = "Suc (rb_fresh s1)" and ?s3 = "new_end ?s2"
  let ?T = "renumber ?n T"
  obtain s4 where s4: "rb_clone other (addr T) ?s3 = Some (addr ?T, s4)" "rep s4 None ?T" "grown (length (addrs T)) ?s3 s4"
    using rb_clone_rep [OF O(1), of ?s3] by auto
  let ?s5 = "s4\<lparr>rb_root := addr ?T\<rparr>"
  have rep5: "rb_rep ?s5 ?T" using s4(2) renumber_addrs(2) by (simp add: rb_rep_def)
  let ?s = "?s5\<lparr>rb_head := first_node ?T, rb_rear := last_node ?T, rb_len := rb_len other\<rparr>"
  have "map_assign other s = Some ?s"
    using s1(1) s2(1,2) s4(1) set_ends_rep [OF rep5] O(2) rep(3) by (simp add: map_assign_def delete_NODE_def)
  moreover have "rbm_ok ?s ?T"
  proof (rule rbm_ok_copy(1) [OF T(1) _ refl])
    have sets: "set (addrs ?T) = {?n ..< ?n + length (addrs T)}" using renumber_addrs(1) [of ?n T] .
    have "rb_fresh s4 = ?n + length (addrs T)" "rb_end s4 = Some (rb_fresh s1)"
      "\<forall>a. rb_live s4 a \<longleftrightarrow> a = rb_fresh s1 \<or> ?n \<le> a \<and> a < ?n + length (addrs T)"
      using s4(3) s2(3) by (auto simp: grown_def)
    then show "rb_end ?s = Some (rb_fresh s1)" "rb_fresh s1 \<notin> set (addrs ?T)" "\<forall>a. rb_live ?s a \<longleftrightarrow> a \<in> set (addrs ?T) \<or> a = rb_fresh s1"
      "\<forall>a. rb_live ?s a \<longrightarrow> a < rb_fresh ?s"
      unfolding sets by auto
  qed (use s4(2) in simp_all)
  ultimately show ?thesis using T(2) by (auto simp: rbm_rel_def)
qed

end
