(* ===== verification/RedBlackIter.thy ===== *)
theory RedBlackIter
  imports RedBlackCopy
begin

text \<open>
  The iterators of the map. From \<^verbatim>\<open>begin()\<close>, \<^verbatim>\<open>++\<close> meets the nodes in the order of the keys and ends at
  \<^verbatim>\<open>end()\<close>; \<^verbatim>\<open>--\<close> goes back the same way.
\<close>

section \<open>The nodes in order\<close>

fun nodes :: "('k, 'v) rbt \<Rightarrow> nat list" where
  "nodes Lf = []"
| "nodes (Nd a c x l r) = nodes l @ a # nodes r"

fun nodes_before :: "('k, 'v) frame list \<Rightarrow> nat list" where
  "nodes_before [] = []"
| "nodes_before (LF a c x r # fs) = nodes_before fs"
| "nodes_before (RF a c x l # fs) = nodes_before fs @ nodes l @ [a]"

fun nodes_after :: "('k, 'v) frame list \<Rightarrow> nat list" where
  "nodes_after [] = []"
| "nodes_after (LF a c x r # fs) = a # nodes r @ nodes_after fs"
| "nodes_after (RF a c x l # fs) = nodes_after fs"

lemma nodes_plug: "nodes (plug fs t) = nodes_before fs @ nodes t @ nodes_after fs"
proof (induction fs arbitrary: t)
  case (Cons f fs)
  then show ?case by (cases f) simp_all
qed simp

lemma set_nodes [simp]: "set (nodes t) = set (addrs t)"
  by (induction t) auto

lemma distinct_nodes: "distinct (addrs t) \<Longrightarrow> distinct (nodes t)"
  by (induction t) auto

lemma nodes_Nil [simp]: "nodes t = [] \<longleftrightarrow> t = Lf"
  by (cases t) simp_all

lemma first_node_nodes: "t \<noteq> Lf \<Longrightarrow> first_node t = Some (hd (nodes t))"
  by (induction t) auto

lemma last_node_nodes: "t \<noteq> Lf \<Longrightarrow> last_node t = Some (last (nodes t))"
  by (induction t) auto

lemma nodes_items: "rep s f t \<Longrightarrow> map (rb_data s) (nodes t) = map Some (inorder t)"
  by (induction t arbitrary: f) auto

text \<open>Every node is at the end of a path.\<close>

lemma node_path:
  assumes "a \<in> set (addrs t)"
  shows "\<exists>fs c x l r. t = plug fs (Nd a c x l r)"
  using assms
proof (induction t)
  case (Nd b d y l r)
  have ex: "plug (fs @ [f]) u = fill f (plug fs u)" for fs f and u :: "('a, 'b) rbt"
    by (induction fs arbitrary: u) simp_all
  consider "a = b" | "a \<in> set (addrs l)" | "a \<in> set (addrs r)" using Nd.prems by auto
  then show ?case
  proof cases
    case 1
    then show ?thesis by (metis plug.simps(1))
  next
    case 2
    then obtain fs c x l' r' where "l = plug fs (Nd a c x l' r')" using Nd.IH(1) by blast
    then have "Nd b d y l r = plug (fs @ [LF b d y r]) (Nd a c x l' r')" by (simp add: ex)
    then show ?thesis by blast
  next
    case 3
    then obtain fs c x l' r' where "r = plug fs (Nd a c x l' r')" using Nd.IH(2) by blast
    then have "Nd b d y l r = plug (fs @ [RF b d y l]) (Nd a c x l' r')" by (simp add: ex)
    then show ?thesis by blast
  qed
qed simp

section \<open>Climbing\<close>

lemma climb_right_rep:
  assumes "rb_rep s (plug fs t)" "t \<noteq> Lf" "nodes_after fs = b # ys"
  shows "\<exists>q. climb_right (addr t) s = Some q \<and> rb_get rb_fa q s = Some (Some b)"
  using assms
proof (induction fs arbitrary: t)
  case (Cons f fs)
  obtain a c x l r where t: "t = Nd a c x l r" using Cons.prems(2) by (cases t) auto
  show ?case
  proof (cases f)
    case (LF p cp y sib)
    have "Some a \<noteq> addr sib" using Cons.prems(1) by (auto simp: LF t rb_rep_plug dest: addr_in_addrs)
    then show ?thesis using Cons.prems by (simp add: LF t rb_rep_plug climb_right.simps [of "Some a"])
  next
    case (RF p cp y sib)
    have "climb_right (addr t) s = climb_right (addr (fill f t)) s"
      using Cons.prems(1) by (simp add: RF t rb_rep_plug climb_right.simps [of "Some a"])
    then show ?thesis using Cons.IH [of "fill f t"] Cons.prems by (simp add: RF)
  qed
qed simp

lemma climb_left_rep:
  assumes "rb_rep s (plug fs t)" "t \<noteq> Lf" "nodes_before fs = ys @ [b]"
  shows "\<exists>q. climb_left (addr t) s = Some q \<and> rb_get rb_fa q s = Some (Some b)"
  using assms
proof (induction fs arbitrary: t)
  case (Cons f fs)
  obtain a c x l r where t: "t = Nd a c x l r" using Cons.prems(2) by (cases t) auto
  show ?case
  proof (cases f)
    case (RF p cp y sib)
    have "Some a \<noteq> addr sib" using Cons.prems(1) by (auto simp: RF t rb_rep_plug dest: addr_in_addrs)
    then show ?thesis using Cons.prems by (simp add: RF t rb_rep_plug climb_left.simps [of "Some a"])
  next
    case (LF p cp y sib)
    have "climb_left (addr t) s = climb_left (addr (fill f t)) s"
      using Cons.prems(1) by (simp add: LF t rb_rep_plug climb_left.simps [of "Some a"])
    then show ?thesis using Cons.IH [of "fill f t"] Cons.prems by (simp add: LF)
  qed
qed simp

section \<open>The operators\<close>

lemma split_at:
  assumes "xs @ a # ys = us @ a # vs" "distinct (xs @ a # ys)"
  shows "xs = us" "ys = vs"
proof -
  have "a \<notin> set xs" "a \<notin> set ys" "a \<notin> set us" "a \<notin> set vs"
    using assms(2) assms(2) [unfolded assms(1)] by simp_all
  then have "xs = us \<and> ys = vs" using assms(1) by (metis append_Cons_eq_iff)
  then show "xs = us" "ys = vs" by simp_all
qed

lemma iter_next_rep:
  assumes ok: "rbm_ok s T" and nodes: "nodes T = xs @ a # ys"
  shows "map_iter_next (Some a) s = Some (Inr (case ys of [] \<Rightarrow> rb_end s | b # zs \<Rightarrow> Some b))"
proof -
  note R = rbm_okD [OF ok]
  have "a \<in> set (nodes T)" using nodes by simp
  then have a: "a \<in> set (addrs T)" by simp
  have T: "T \<noteq> Lf" using a by auto
  have d: "distinct (nodes T)" using R(1) by (simp add: rb_rep_def distinct_nodes)
  have e: "Some a \<noteq> rb_end s" using R(9) a by auto
  have rear: "rb_rear s = Some (last (a # ys))" using R(6) last_node_nodes [OF T] nodes by simp
  show ?thesis
  proof (cases ys)
    case Nil
    then show ?thesis using e rear by (simp add: map_iter_next_def)
  next
    case (Cons b zs)
    have "last ys \<noteq> a" using d nodes Cons by (metis distinct.simps(2) distinct_append last_in_set list.discI)
    then have nr: "Some a \<noteq> rb_rear s" using rear Cons by auto
    obtain fs c x l r where t: "T = plug fs (Nd a c x l r)" using node_path [OF a] by blast
    have "nodes T = (nodes_before fs @ nodes l) @ a # (nodes r @ nodes_after fs)" by (simp add: t nodes_plug)
    then have after: "nodes r @ nodes_after fs = b # zs" using split_at(2) [of xs a ys] nodes d Cons by metis
    note rep = R(1) [unfolded t]
    show ?thesis
    proof (cases "r = Lf")
      case True
      then obtain q where "climb_right (Some a) s = Some q" "rb_get rb_fa q s = Some (Some b)"
        using climb_right_rep [OF rep] after by auto
      then show ?thesis using rep e nr Cons True by (simp add: map_iter_next_def rb_rep_plug)
    next
      case False
      have "leftmost (addr r) s = Some (Some b)"
        using leftmost_rep [of s "Some a" r] rep False first_node_nodes [OF False] after by (cases "nodes r") (auto simp: rb_rep_plug)
      then show ?thesis using rep e nr Cons False by (simp add: map_iter_next_def rb_rep_plug)
    qed
  qed
qed

lemma iter_prev_rep:
  assumes ok: "rbm_ok s T" and nodes: "nodes T = xs @ a # ys"
  shows "map_iter_prev (Some a) s = Some (if xs = [] then Inl map_invalid_iterator else Inr (Some (last xs)))"
proof -
  note R = rbm_okD [OF ok]
  have "a \<in> set (nodes T)" using nodes by simp
  then have a: "a \<in> set (addrs T)" by simp
  have T: "T \<noteq> Lf" using a by auto
  have d: "distinct (nodes T)" using R(1) by (simp add: rb_rep_def distinct_nodes)
  have e: "Some a \<noteq> rb_end s" using R(9) a by auto
  have head: "rb_head s = Some (hd (xs @ [a]))" using R(5) first_node_nodes [OF T] nodes by (cases xs) simp_all
  have root: "rb_root s \<noteq> None" using R(1) T by (simp add: rb_rep_def)
  show ?thesis
  proof (cases "xs = []")
    case True
    then show ?thesis using root head by (simp add: map_iter_prev_def)
  next
    case False
    then obtain zs b where xs: "xs = zs @ [b]" by (metis rev_exhaust)
    have "hd xs \<noteq> a" using d nodes False by (metis disjoint_iff distinct_append hd_in_set list.set_intros(1))
    then have nh: "Some a \<noteq> rb_head s" using head False by simp
    obtain fs c x l r where t: "T = plug fs (Nd a c x l r)" using node_path [OF a] by blast
    have "nodes T = (nodes_before fs @ nodes l) @ a # (nodes r @ nodes_after fs)" by (simp add: t nodes_plug)
    then have before: "nodes_before fs @ nodes l = zs @ [b]" using split_at(1) [of xs a ys] nodes d xs by metis
    note rep = R(1) [unfolded t]
    show ?thesis
    proof (cases "l = Lf")
      case True
      then obtain q where "climb_left (Some a) s = Some q" "rb_get rb_fa q s = Some (Some b)"
        using climb_left_rep [OF rep] before by auto
      then show ?thesis using rep e nh xs root True by (simp add: map_iter_prev_def rb_rep_plug)
    next
      case False
      have "last (nodes_before fs @ nodes l) = b" using before by simp
      then have "last (nodes l) = b" using False by (simp add: last_append)
      then have "rightmost (addr l) s = Some (Some b)"
        using rightmost_rep [of s "Some a" l] rep False last_node_nodes [OF False] by (simp add: rb_rep_plug)
      then show ?thesis using rep e nh xs root False by (simp add: map_iter_prev_def rb_rep_plug)
    qed
  qed
qed

lemma iter_prev_end:
  assumes ok: "rbm_ok s T"
  shows "map_iter_prev (map_end s) s = Some (if T = Lf then Inl map_invalid_iterator else Inr (Some (last (nodes T))))"
proof -
  note R = rbm_okD [OF ok]
  have rep: "rep s None T" "rb_root s = addr T" using R(1) by (simp_all add: rb_rep_def)
  show ?thesis
  proof (cases "T = Lf")
    case False
    have "hd (nodes T) \<in> set (nodes T)" using False by (intro hd_in_set) simp
    then have "rb_end s \<noteq> rb_head s" "rb_end s \<noteq> None" using R(5,9) first_node_nodes [OF False] by auto
    then show ?thesis using rep rightmost_rep [OF rep(1) False] last_node_nodes [OF False] False
      by (simp add: map_iter_prev_def map_end_def rb_back_def)
  qed (use rep in \<open>simp add: map_iter_prev_def\<close>)
qed

end
