(* ===== verification/RedBlackRefinement.thy ===== *)
theory RedBlackRefinement
  imports RedBlackIter DataRefinement
begin

text \<open>
  The contract of \<^verbatim>\<open>sjtu::map\<close>, a container with its items in the order of the keys, as a locale, and
  the red-black tree as its instance. The height of the tree and the memory it uses are bounded.
\<close>

section \<open>Writing through \<^verbatim>\<open>operator[]\<close>\<close>

text \<open>\<^verbatim>\<open>map[key] = value\<close>.\<close>

definition map_store :: "'k::linorder \<Rightarrow> 'v \<Rightarrow> 'v \<Rightarrow> ('k, 'v) rb_map \<Rightarrow> ('k, 'v) rb_map option" where
  "map_store key v dflt s =
     do { (p, s) \<leftarrow> map_subscript key dflt s;
          rb_set (\<lambda>a s. s\<lparr>rb_data := (rb_data s)(a := map_option (\<lambda>e. (fst e, v)) (rb_data s a))\<rparr>) p s }"

fun store_sorted :: "'k::linorder \<Rightarrow> 'v \<Rightarrow> ('k \<times> 'v) list \<Rightarrow> ('k \<times> 'v) list" where
  "store_sorted k v [] = [(k, v)]"
| "store_sorted k v (b # xs) =
     (if fst b = k then (k, v) # xs else if k < fst b then (k, v) # b # xs else b # store_sorted k v xs)"

lemma store_sorted_new: "sorted_map xs \<Longrightarrow> map_of xs k = None \<Longrightarrow> store_sorted k v xs = put_sorted (k, v) xs"
  by (induction xs) (auto simp: sorted_map_def split: if_splits)

lemma store_sorted_old: "sorted_map (ys @ (k, w) # zs) \<Longrightarrow> store_sorted k v (ys @ (k, w) # zs) = ys @ (k, v) # zs"
  by (induction ys) (auto simp: sorted_map_def)

lemma store_put: "sorted_map xs \<Longrightarrow> map_of xs k = None \<Longrightarrow> store_sorted k v (put_sorted (k, w) xs) = put_sorted (k, v) xs"
  by (induction xs) (auto simp: sorted_map_def split: if_splits)

lemma plug_same_addrs: "addrs t' = addrs t \<Longrightarrow> addrs (plug fs t') = addrs (plug fs t)"
proof (induction fs arbitrary: t t')
  case (Cons f fs)
  then show ?case by (cases f) simp_all
qed simp

lemma write_value_rel:
  assumes rel: "rbm_rel s xs" and find: "rb_find k s = Some (Some a)" and w: "map_of xs k = Some w"
  shows "rb_live s a" "rb_data s a = Some (k, w)" "rbm_rel (s\<lparr>rb_data := (rb_data s)(a := Some (k, v))\<rparr>) (store_sorted k v xs)"
proof -
  obtain T where T: "rbm_ok s T" "inorder T = xs" using rel by (auto simp: rbm_rel_def)
  note R = rbm_okD [OF T(1)]
  have a: "a \<in> set (addrs T)" "rb_live s a" "rb_data s a = Some (k, w)"
    using rb_find_present [OF T(1) w [folded T(2)]] find by fastforce+
  show "rb_live s a" "rb_data s a = Some (k, w)" by (rule a)+
  obtain fs c x l r where t: "T = plug fs (Nd a c x l r)" using node_path [OF a(1)] by blast
  let ?T = "plug fs (Nd a c (k, v) l r)" and ?s = "s\<lparr>rb_data := (rb_data s)(a := Some (k, v))\<rparr>"
  have x: "x = (k, w)" using R(1) a(3) by (simp add: t rb_rep_plug)
  have rep: "rb_rep ?s ?T" using R(1) by (simp add: t rb_rep_plug)
  have shape: "balanced ?T" "no_red_red ?T" "col ?T = BLACK"
    using R(2,3) plug_keeps [of fs "Nd a c x l r" "Nd a c (k, v) l r"] balanced_plug(1) [of fs "Nd a c x l r"]
      no_red_red_plug(1) [of fs "Nd a c x l r"] by (simp_all add: t rb_tree_def)
  have srt: "sorted_map (inorder ?T)" using R(8) by (simp add: t x sorted_map_def sorted_wrt_append)
  have same: "addrs ?T = addrs T" "nodes ?T = nodes T" "length (inorder ?T) = length (inorder T)"
    unfolding t by (simp_all add: nodes_plug plug_same_addrs)
  have ends: "first_node ?T = first_node T" "last_node ?T = last_node T"
    using first_node_nodes [of ?T] first_node_nodes [of T] last_node_nodes [of ?T] last_node_nodes [of T] same(2) by (simp_all add: t)
  have "rbm_ok ?s ?T" using rep shape srt R same ends by (simp add: rbm_ok_def rb_tree_def)
  moreover have "inorder ?T = store_sorted k v xs"
    using R(8) T(2) store_sorted_old [of "ctx_before fs @ inorder l" k w "inorder r @ ctx_after fs" v] by (simp add: t x)
  ultimately show "rbm_rel ?s (store_sorted k v xs)" unfolding rbm_rel_def by blast
qed

section \<open>The contract\<close>

datatype ('k, 'v) sorted_op = Sorted_insert 'k 'v | Sorted_store 'k 'v | Sorted_erase 'k | Sorted_clear | Sorted_copy

fun sorted_spec :: "('k::linorder, 'v) sorted_op \<Rightarrow> ('k \<times> 'v) list \<Rightarrow> ('k \<times> 'v) list" where
  "sorted_spec (Sorted_insert k v) xs = (if map_of xs k = None then put_sorted (k, v) xs else xs)"
| "sorted_spec (Sorted_store k v) xs = store_sorted k v xs"
| "sorted_spec (Sorted_erase k) xs = without k xs"
| "sorted_spec Sorted_clear xs = []"
| "sorted_spec Sorted_copy xs = xs"

locale sorted_container = data_refinement R exec sorted_spec
  for R :: "'m \<Rightarrow> ('k::linorder \<times> 'v) list \<Rightarrow> bool" and exec :: "('k, 'v) sorted_op \<Rightarrow> 'm \<Rightarrow> 'm option" +
  fixes lookup :: "'k \<Rightarrow> 'm \<Rightarrow> 'v option" and items :: "'m \<Rightarrow> ('k \<times> 'v) list option" and new_map :: 'm
  assumes new_map: "R new_map []" and lookup: "R m xs \<Longrightarrow> lookup k m = map_of xs k" and items: "R m xs \<Longrightarrow> items m = Some xs"
    and sorted: "R m xs \<Longrightarrow> sorted_map xs"
begin

lemma lookup_run: "map_option (lookup k) (run_calls exec ops new_map) = Some (map_of (fold sorted_spec ops []) k)"
  using new_map lookup by (rule run_observed)

lemma items_run: "Option.bind (run_calls exec ops new_map) items = Some (fold sorted_spec ops [])"
  using run_spec [OF new_map, of ops] items by auto

lemma sorted_run: "sorted_map (fold sorted_spec (ops :: ('k, 'v) sorted_op list) [])"
  using run_spec [OF new_map, of ops] sorted by auto

lemma run_rel: "\<exists>m. run_calls exec ops new_map = Some m \<and> R m (fold sorted_spec ops [])"
  using run_spec [OF new_map] .

end

section \<open>The red-black tree\<close>

text \<open>\<open>dflt\<close> is the value that \<^verbatim>\<open>operator[]\<close> gives a new key. Erasing a key that is not there throws and changes nothing.\<close>

fun rbm_exec :: "'v \<Rightarrow> ('k::linorder, 'v) sorted_op \<Rightarrow> ('k, 'v) rb_map \<Rightarrow> ('k, 'v) rb_map option" where
  "rbm_exec dflt (Sorted_insert k v) s = map_option (\<lambda>(it, new, s'). s') (map_insert (k, v) s)"
| "rbm_exec dflt (Sorted_store k v) s = map_store k v dflt s"
| "rbm_exec dflt (Sorted_erase k) s = map_option (\<lambda>r. case r of Inl e \<Rightarrow> s | Inr s' \<Rightarrow> s') (map_erase_key k s)"
| "rbm_exec dflt Sorted_clear s = map_clear s"
| "rbm_exec dflt Sorted_copy s = map_copy s"

definition rbm_lookup :: "'k::linorder \<Rightarrow> ('k, 'v) rb_map \<Rightarrow> 'v option" where
  "rbm_lookup k s = (case map_at k s of Some (Inr v) \<Rightarrow> Some v | _ \<Rightarrow> None)"

text \<open>\<^verbatim>\<open>for (it = m.begin(); it != m.end(); ++it) out.push_back(*it);\<close>\<close>

partial_function (option) map_walk :: "rb_ptr \<Rightarrow> ('k, 'v) rb_map \<Rightarrow> ('k \<times> 'v) list option" where
  "map_walk p s =
     (if p = map_end s then Some []
      else do {
        d \<leftarrow> map_iter_item p s;
        n \<leftarrow> map_iter_next p s;
        case (d, n) of (Inr e, Inr q) \<Rightarrow> (do { es \<leftarrow> map_walk q s; Some (e # es) }) | _ \<Rightarrow> None })"

definition rbm_items :: "('k, 'v) rb_map \<Rightarrow> ('k \<times> 'v) list option" where
  "rbm_items s = map_walk (map_begin s) s"

lemma without_sorted: "sorted_map xs \<Longrightarrow> sorted_map (without k xs)"
  unfolding sorted_map_def by (rule sorted_wrt_filter)

lemma rbm_exec_erase:
  assumes "rbm_rel s xs"
  shows "\<exists>s'. rbm_exec dflt (Sorted_erase k) s = Some s' \<and> rbm_rel s' (without k xs)"
proof (cases "map_of xs k")
  case None
  then have "without k xs = xs" by (simp add: map_of_eq_None_iff)
  then show ?thesis using map_erase_absent [OF assms None] assms by simp
next
  case (Some v)
  then show ?thesis using map_erase_present [OF assms Some] by auto
qed

lemma rbm_exec_insert:
  assumes "rbm_rel s xs"
  shows "\<exists>s'. rbm_exec dflt (Sorted_insert k v) s = Some s' \<and> rbm_rel s' (sorted_spec (Sorted_insert k v) xs)"
proof (cases "map_of xs k")
  case None
  then show ?thesis using map_insert_new [OF assms, of "(k, v)"] by auto
next
  case (Some w)
  then show ?thesis using map_insert_present [OF assms, of "(k, v)"] assms by auto
qed

lemma map_store_rel:
  assumes "rbm_rel s xs"
  shows "\<exists>s'. map_store k v dflt s = Some s' \<and> rbm_rel s' (store_sorted k v xs)"
proof -
  obtain T where T: "rbm_ok s T" "inorder T = xs" using assms by (auto simp: rbm_rel_def)
  show ?thesis
  proof (cases "map_of xs k")
    case None
    then have f: "rb_find k s = Some None" using rb_find_absent [OF T(1)] T(2) by blast
    obtain a s1 where s1: "map_insert (k, dflt) s = Some (Some a, True, s1)" "rbm_rel s1 (put_sorted (k, dflt) xs)"
      "rb_find k s1 = Some (Some a)"
      using map_insert_new [OF assms, of "(k, dflt)"] None by auto
    have "map_of (put_sorted (k, dflt) xs) k = Some dflt" using map_of_put_sorted [of xs "(k, dflt)"] None by simp
    then show ?thesis
      using f s1(1) write_value_rel [OF s1(2,3)] store_put [OF rbm_relD(1) [OF assms] None] store_sorted_new [OF rbm_relD(1) [OF assms] None]
      by (simp add: map_store_def map_subscript_def)
  next
    case (Some w)
    then obtain a where a: "rb_find k s = Some (Some a)"
      using rb_find_present [OF T(1)] T(2) by metis
    then show ?thesis using write_value_rel [OF assms a Some] by (simp add: map_store_def map_subscript_def)
  qed
qed

lemma map_walk_rep:
  assumes ok: "rbm_ok s T" and "nodes T = xs @ ys"
  shows "map_walk (case ys of [] \<Rightarrow> rb_end s | b # zs \<Rightarrow> Some b) s = Some (map (\<lambda>b. the (rb_data s b)) ys)"
  using assms(2)
proof (induction ys arbitrary: xs)
  case Nil
  then show ?case by (simp add: map_walk.simps map_end_def)
next
  case (Cons b zs)
  have "b \<in> set (nodes T)" using Cons.prems by simp
  then have b: "b \<in> set (addrs T)" by simp
  then have "rb_end s \<noteq> Some b" using rbm_okD(9) [OF ok] by auto
  moreover obtain e where "rb_data s b = Some e" "rb_live s b" using rb_rep_live [OF rbm_okD(1) [OF ok] b] by blast
  moreover have "map_walk (case zs of [] \<Rightarrow> rb_end s | c # zs' \<Rightarrow> Some c) s = Some (map (\<lambda>b. the (rb_data s b)) zs)"
    using Cons.IH [of "xs @ [b]"] Cons.prems by simp
  ultimately show ?case
    using iter_next_rep [OF ok Cons.prems] by (simp add: map_walk.simps [of "Some b"] map_end_def map_iter_item_def)
qed

lemma rbm_items_rel: "rbm_rel s xs \<Longrightarrow> rbm_items s = Some xs"
proof -
  assume "rbm_rel s xs"
  then obtain T where T: "rbm_ok s T" "inorder T = xs" by (auto simp: rbm_rel_def)
  note R = rbm_okD [OF T(1)]
  have "map_begin s = (case nodes T of [] \<Rightarrow> rb_end s | b # zs \<Rightarrow> Some b)"
    using R(1,5) first_node_nodes [of T] by (cases "nodes T"; cases T) (auto simp: map_begin_def rb_rep_def)
  then have "rbm_items s = Some (map (\<lambda>b. the (rb_data s b)) (nodes T))"
    using map_walk_rep [OF T(1), of "[]"] by (simp add: rbm_items_def)
  moreover have "map (rb_data s) (nodes T) = map Some xs" using nodes_items R(1) T(2) by (auto simp: rb_rep_def)
  then have "map (the \<circ> rb_data s) (nodes T) = xs" by (metis map_map option.sel map_idI comp_apply)
  ultimately show ?thesis by (simp add: comp_def)
qed

interpretation rbm: sorted_container rbm_rel "rbm_exec dflt" rbm_lookup rbm_items map_new
proof
  show "\<exists>s'. rbm_exec dflt op s = Some s' \<and> rbm_rel s' (sorted_spec op xs)" if r: "rbm_rel s xs" for s xs op
  proof (cases op)
    case (Sorted_insert k v)
    then show ?thesis using rbm_exec_insert [OF r] by simp
  next
    case (Sorted_store k v)
    then show ?thesis using map_store_rel [OF r] by simp
  next
    case (Sorted_erase k)
    then show ?thesis using rbm_exec_erase [OF r] by simp
  next
    case Sorted_clear
    then show ?thesis using map_clear_rel [OF r] by simp
  next
    case Sorted_copy
    then show ?thesis using map_copy_rel [OF r] by simp
  qed
  show "rbm_rel map_new []" by (rule map_new_rel)
  show "rbm_lookup k s = map_of xs k" if "rbm_rel s xs" for k s xs
    using map_at_rel [OF that] by (simp add: rbm_lookup_def split: option.splits)
  show "rbm_items s = Some xs" if "rbm_rel s xs" for s xs using rbm_items_rel [OF that] .
  show "sorted_map xs" if "rbm_rel s xs" for s xs using rbm_relD(1) [OF that] .
qed

end
