(* ===== verification/RedBlackTheorems.thy ===== *)
theory RedBlackTheorems
  imports RedBlackRefinement
begin

text \<open>
  The properties of \<^verbatim>\<open>sjtu::map\<close>, the container of the login pool. They rest on the interpretation of
  \<open>sorted_container\<close> on the red-black tree.
\<close>

section \<open>Height and memory\<close>

fun height :: "('k, 'v) rbt \<Rightarrow> nat" where
  "height Lf = 0"
| "height (Nd a c x l r) = Suc (max (height l) (height r))"

lemma height_bh:
  "balanced t \<Longrightarrow> no_red_red t \<Longrightarrow> height t \<le> 2 * bh t + (if col t = RED then 1 else 0)"
proof (induction t)
  case (Nd a c x l r)
  then show ?case by (cases c) (auto split: if_splits)
qed simp

lemma size_bh: "balanced t \<Longrightarrow> 2 ^ bh t \<le> length (inorder t) + 1"
  by (induction t) auto

lemma height_bound:
  assumes "balanced t" "no_red_red t" "col t = BLACK"
  shows "2 ^ height t \<le> (length (inorder t) + 1) ^ 2"
proof -
  have "(2::nat) ^ height t \<le> 2 ^ (2 * bh t)" using height_bh [OF assms(1,2)] assms(3) by (intro power_increasing) simp_all
  also have "\<dots> = (2 ^ bh t) ^ 2" by (simp add: mult.commute power_mult)
  also have "\<dots> \<le> (length (inorder t) + 1) ^ 2" using size_bh [OF assms(1)] by (intro power_mono) simp_all
  finally show ?thesis .
qed

lemma length_addrs: "length (addrs t) = length (inorder t)"
  by (induction t) auto

lemma live_nodes:
  assumes "rbm_ok s T"
  shows "card {a. rb_live s a} = length (inorder T) + 1"
proof -
  obtain e where e: "e \<notin> set (addrs T)" "\<forall>a. rb_live s a \<longleftrightarrow> a \<in> set (addrs T) \<or> a = e" using rbm_okD(9) [OF assms] by blast
  have "{a. rb_live s a} = insert e (set (addrs T))" using e(2) by auto
  moreover have "card (set (addrs T)) = length (inorder T)"
    using rbm_okD(1) [OF assms] by (simp add: rb_rep_def distinct_card length_addrs)
  ultimately show ?thesis using e(1) by simp
qed

section \<open>Steps of an iterator\<close>

lemma map_iter_steps:
  assumes ok: "rbm_ok s T"
  shows "map_begin s = (case nodes T of [] \<Rightarrow> map_end s | a # as \<Rightarrow> Some a)"
    "nodes T = xs @ a # ys \<Longrightarrow> map_iter_next (Some a) s = Some (Inr (case ys of [] \<Rightarrow> map_end s | b # zs \<Rightarrow> Some b))"
    "nodes T = xs @ a # ys \<Longrightarrow>
       map_iter_prev (Some a) s = Some (if xs = [] then Inl map_invalid_iterator else Inr (Some (last xs)))"
    "map_iter_next (map_end s) s = Some (Inl map_invalid_iterator)"
    "map_iter_prev (map_end s) s = Some (if nodes T = [] then Inl map_invalid_iterator else Inr (Some (last (nodes T))))"
proof -
  note R = rbm_okD [OF ok]
  show "map_begin s = (case nodes T of [] \<Rightarrow> map_end s | a # as \<Rightarrow> Some a)"
    using R(1,5) first_node_nodes [of T] by (cases "T = Lf"; cases "nodes T") (auto simp: map_begin_def map_end_def rb_rep_def)
  show "map_iter_next (map_end s) s = Some (Inl map_invalid_iterator)" by (simp add: map_iter_next_def map_end_def)
  show "map_iter_prev (map_end s) s = Some (if nodes T = [] then Inl map_invalid_iterator else Inr (Some (last (nodes T))))"
    using iter_prev_end [OF ok] by simp
qed (use iter_next_rep [OF ok] iter_prev_rep [OF ok] in \<open>simp_all only: map_end_def\<close>)

section \<open>Properties\<close>

text \<open>
  C20. The red-black tree is a container in key order. After any sequence of insertions, assignments through
  \<^verbatim>\<open>operator[]\<close>, removals by key, clears and copies on a new map, no pointer access fails, an iteration
  from \<^verbatim>\<open>begin()\<close> to \<^verbatim>\<open>end()\<close> shows the items of the reference list, sorted by their keys without
  duplicates, \<^verbatim>\<open>at\<close> returns the value of the key or throws \<^verbatim>\<open>index_out_of_bound\<close>, and \<^verbatim>\<open>count\<close> says
  whether the key is there.
\<close>

theorem red_black_map_refines_list:
  "\<exists>s. run_calls (rbm_exec dflt) ops map_new = Some s \<and> rbm_items s = Some (fold sorted_spec ops []) \<and>
     sorted_map (fold sorted_spec ops []) \<and> map_size s = int (length (fold sorted_spec ops [])) \<and>
     map_at k s = Some (case map_of (fold sorted_spec ops []) k of None \<Rightarrow> Inl map_index_out_of_bound | Some v \<Rightarrow> Inr v) \<and>
     map_count k s = Some (if map_of (fold sorted_spec ops []) k = None then 0 else 1)"
proof -
  obtain s where s: "run_calls (rbm_exec dflt) ops map_new = Some s" "rbm_rel s (fold sorted_spec ops [])"
    using rbm.run_rel [of dflt ops] by blast
  show ?thesis
    using s(1) rbm_items_rel [OF s(2)] map_at_rel [OF s(2), of k] map_count_rel [OF s(2), of k] rbm_relD [OF s(2)]
    by (intro exI [of _ s]) (simp add: map_size_def)
qed

text \<open>
  C21. The tree stays balanced and leaks nothing. After any sequence of operations the pointers form a tree
  with no red node under a red one, the same number of black nodes on all paths and a black root, so that
  its height is at most twice the binary logarithm of the number of items plus one; and the allocated
  nodes are one for each item and \<^verbatim>\<open>end_node\<close>.
\<close>

theorem red_black_map_balanced:
  "\<exists>s T. run_calls (rbm_exec dflt) ops map_new = Some s \<and> rb_rep s T \<and> inorder T = fold sorted_spec ops [] \<and>
     balanced T \<and> no_red_red T \<and> col T = BLACK \<and> 2 ^ height T \<le> (length (inorder T) + 1) ^ 2 \<and>
     card {a. rb_live s a} = length (inorder T) + 1"
proof -
  obtain s T where s: "run_calls (rbm_exec dflt) ops map_new = Some s" "rbm_ok s T" "inorder T = fold sorted_spec ops []"
    using rbm.run_rel [of dflt ops] unfolding rbm_rel_def by blast
  note R = rbm_okD [OF s(2)]
  have "balanced T" "no_red_red T" using R(2) by (simp_all add: rb_tree_def)
  then show ?thesis using s R(1,3) height_bound live_nodes [OF s(2)] by blast
qed

text \<open>
  C22. The steps of the iterators, in every map that a sequence of operations has made, the empty one
  included. There is one node for each item, in the order of the keys; \<^verbatim>\<open>begin()\<close> is the first node,
  or \<^verbatim>\<open>end()\<close> in an empty map. \<^verbatim>\<open>++\<close> goes from a node to the next one and from the last one to
  \<^verbatim>\<open>end()\<close>, where it throws \<^verbatim>\<open>invalid_iterator\<close>. \<^verbatim>\<open>--\<close> goes from a node to the one before and from
  \<^verbatim>\<open>end()\<close> to the last one; it throws at the first node, and at \<^verbatim>\<open>end()\<close> of an empty map.
\<close>

theorem red_black_iterator_steps:
  "\<exists>s as. run_calls (rbm_exec dflt) ops map_new = Some s \<and> distinct as \<and>
     map (rb_data s) as = map Some (fold sorted_spec ops []) \<and>
     map_begin s = (case as of [] \<Rightarrow> map_end s | a # ys \<Rightarrow> Some a) \<and>
     (\<forall>xs a ys. as = xs @ a # ys \<longrightarrow>
        map_iter_next (Some a) s = Some (Inr (case ys of [] \<Rightarrow> map_end s | b # zs \<Rightarrow> Some b)) \<and>
        map_iter_prev (Some a) s = Some (if xs = [] then Inl map_invalid_iterator else Inr (Some (last xs)))) \<and>
     map_iter_next (map_end s) s = Some (Inl map_invalid_iterator) \<and>
     map_iter_prev (map_end s) s = Some (if as = [] then Inl map_invalid_iterator else Inr (Some (last as)))"
proof -
  obtain s T where s: "run_calls (rbm_exec dflt) ops map_new = Some s" "rbm_ok s T" "inorder T = fold sorted_spec ops []"
    using rbm.run_rel [of dflt ops] unfolding rbm_rel_def by blast
  have rep: "rep s None T" "distinct (nodes T)" using rbm_okD(1) [OF s(2)] by (simp_all add: rb_rep_def distinct_nodes)
  show ?thesis
    using s(1,3) rep nodes_items [OF rep(1)] map_iter_steps [OF s(2)]
    by (intro exI [of _ s] exI [of _ "nodes T"]) simp
qed

theorem red_black_iterator_steps_witness:
  "\<exists>s a b. run_calls (rbm_exec 0) [Sorted_insert (7::int) (1::int), Sorted_insert 3 2] map_new = Some s \<and>
     map_begin s = Some a \<and> rb_data s a = Some (3, 2) \<and> rb_data s b = Some (7, 1) \<and>
     map_iter_next (Some a) s = Some (Inr (Some b)) \<and> map_iter_next (Some b) s = Some (Inr (map_end s)) \<and>
     map_iter_prev (map_end s) s = Some (Inr (Some b)) \<and> map_iter_prev (Some b) s = Some (Inr (Some a)) \<and>
     map_iter_prev (Some a) s = Some (Inl map_invalid_iterator)"
proof -
  let ?ops = "[Sorted_insert (7::int) (1::int), Sorted_insert 3 2]"
  have spec: "fold sorted_spec ?ops [] = [(3, 2), (7, 1)]" by simp
  obtain s as where s: "run_calls (rbm_exec 0) ?ops map_new = Some s" "map (rb_data s) as = map Some [(3, 2), (7, 1)]"
    "map_begin s = (case as of [] \<Rightarrow> map_end s | a # ys \<Rightarrow> Some a)"
    "map_iter_prev (map_end s) s = Some (if as = [] then Inl map_invalid_iterator else Inr (Some (last as)))"
    and step: "\<forall>xs a ys. as = xs @ a # ys \<longrightarrow>
        map_iter_next (Some a) s = Some (Inr (case ys of [] \<Rightarrow> map_end s | b # zs \<Rightarrow> Some b)) \<and>
        map_iter_prev (Some a) s = Some (if xs = [] then Inl map_invalid_iterator else Inr (Some (last xs)))"
    using red_black_iterator_steps [of 0 ?ops] unfolding spec by blast
  obtain a b where as: "as = [a, b]" using s(2) by (auto simp: map_eq_Cons_conv)
  show ?thesis
    using s step [rule_format, of "[]" a "[b]"] step [rule_format, of "[a]" b "[]"] as by auto
qed

end
