(* ===== verification/RWLatch.thy ===== *)
theory RWLatch
  imports Prelude
begin

text \<open>
  \<^verbatim>\<open>ReaderWriterLatch\<close> of \<^verbatim>\<open>common/rwlatch.h\<close>, the latch of the pages and of the root of the thread-safe
  tree, with the threads that use it. Every operation runs under the mutex of the latch, which a
  thread gives up only while it sleeps on a condition variable; so the critical sections between two
  sleeps are the steps. \<^verbatim>\<open>notify_one\<close> wakes any one of the sleepers, and a sleeper may wake up by
  itself, as the standard library allows.
\<close>

section \<open>The latch\<close>

text \<open>
  What a thread is doing: it sleeps or was woken in the loop of \<^verbatim>\<open>RLock\<close> (\<open>R\<close>), in the first loop of
  \<^verbatim>\<open>WLock\<close> (\<open>W\<close>) or in its second loop (\<open>D\<close>, the readers drain), or it holds the latch.
\<close>

datatype latch_pc = L_idle | R_asleep | R_awake | L_reading | W_asleep | W_awake | D_asleep | D_awake | L_writing

datatype latch_cv = reader_cv | writer_cv

record rwlatch =
  reader_count :: nat
  writer_entered :: bool
  threads :: "latch_pc list"

definition MAX_READERS :: nat where
  "MAX_READERS = 2 ^ 32 - 1"

definition latch_new :: "nat \<Rightarrow> rwlatch" where
  "latch_new n = \<lparr>reader_count = 0, writer_entered = False, threads = replicate n L_idle\<rparr>"

definition set_thread :: "nat \<Rightarrow> latch_pc \<Rightarrow> rwlatch \<Rightarrow> rwlatch" where
  "set_thread i pc s = s\<lparr>threads := (threads s)[i := pc]\<rparr>"

fun asleep_on :: "latch_pc \<Rightarrow> latch_cv option" where
  "asleep_on R_asleep = Some reader_cv"
| "asleep_on W_asleep = Some reader_cv"
| "asleep_on D_asleep = Some writer_cv"
| "asleep_on pc = None"

fun awake :: "latch_pc \<Rightarrow> latch_pc" where
  "awake R_asleep = R_awake"
| "awake W_asleep = W_awake"
| "awake D_asleep = D_awake"
| "awake pc = pc"

definition notify_all :: "latch_cv \<Rightarrow> rwlatch \<Rightarrow> rwlatch" where
  "notify_all cv s = s\<lparr>threads := map (\<lambda>pc. if asleep_on pc = Some cv then awake pc else pc) (threads s)\<rparr>"

inductive notify_one :: "latch_cv \<Rightarrow> rwlatch \<Rightarrow> rwlatch \<Rightarrow> bool" where
  wake: "i < length (threads s) \<Longrightarrow> asleep_on (threads s ! i) = Some cv \<Longrightarrow> notify_one cv s (set_thread i (awake (threads s ! i)) s)"
| nobody: "\<forall>pc \<in> set (threads s). asleep_on pc \<noteq> Some cv \<Longrightarrow> notify_one cv s s"

text \<open>The critical sections: one round of the loop of \<^verbatim>\<open>RLock\<close>, of each loop of \<^verbatim>\<open>WLock\<close>, and the releases.\<close>

definition RLock_round :: "nat \<Rightarrow> rwlatch \<Rightarrow> rwlatch" where
  "RLock_round i s =
     (if writer_entered s \<or> reader_count s = MAX_READERS then set_thread i R_asleep s
      else set_thread i L_reading (s\<lparr>reader_count := reader_count s + 1\<rparr>))"

definition drain_round :: "nat \<Rightarrow> rwlatch \<Rightarrow> rwlatch" where
  "drain_round i s = (if reader_count s > 0 then set_thread i D_asleep s else set_thread i L_writing s)"

definition WLock_round :: "nat \<Rightarrow> rwlatch \<Rightarrow> rwlatch" where
  "WLock_round i s = (if writer_entered s then set_thread i W_asleep s else drain_round i (s\<lparr>writer_entered := True\<rparr>))"

definition WUnlock :: "nat \<Rightarrow> rwlatch \<Rightarrow> rwlatch" where
  "WUnlock i s = notify_all reader_cv (set_thread i L_idle (s\<lparr>writer_entered := False\<rparr>))"

inductive RUnlock :: "nat \<Rightarrow> rwlatch \<Rightarrow> rwlatch \<Rightarrow> bool" where
  last_reader: "s1 = set_thread i L_idle (s\<lparr>reader_count := reader_count s - 1\<rparr>) \<Longrightarrow>
     writer_entered s \<Longrightarrow> reader_count s1 = 0 \<Longrightarrow> notify_one writer_cv s1 s' \<Longrightarrow> RUnlock i s s'"
| one_below_max: "s1 = set_thread i L_idle (s\<lparr>reader_count := reader_count s - 1\<rparr>) \<Longrightarrow>
     \<not> writer_entered s \<Longrightarrow> reader_count s1 = MAX_READERS - 1 \<Longrightarrow> notify_one reader_cv s1 s' \<Longrightarrow> RUnlock i s s'"
| quiet: "s1 = set_thread i L_idle (s\<lparr>reader_count := reader_count s - 1\<rparr>) \<Longrightarrow>
     (if writer_entered s then reader_count s1 \<noteq> 0 else reader_count s1 \<noteq> MAX_READERS - 1) \<Longrightarrow> RUnlock i s s1"

text \<open>The threads take and release the latch in any order; a thread releases only what it holds.\<close>

inductive latch_step :: "rwlatch \<Rightarrow> rwlatch \<Rightarrow> bool" where
  rlock: "i < length (threads s) \<Longrightarrow> threads s ! i \<in> {L_idle, R_awake} \<Longrightarrow> latch_step s (RLock_round i s)"
| wlock: "i < length (threads s) \<Longrightarrow> threads s ! i \<in> {L_idle, W_awake} \<Longrightarrow> latch_step s (WLock_round i s)"
| drain: "i < length (threads s) \<Longrightarrow> threads s ! i = D_awake \<Longrightarrow> latch_step s (drain_round i s)"
| runlock: "i < length (threads s) \<Longrightarrow> threads s ! i = L_reading \<Longrightarrow> RUnlock i s s' \<Longrightarrow> latch_step s s'"
| wunlock: "i < length (threads s) \<Longrightarrow> threads s ! i = L_writing \<Longrightarrow> latch_step s (WUnlock i s)"
| spurious: "i < length (threads s) \<Longrightarrow> asleep_on (threads s ! i) \<noteq> None \<Longrightarrow> latch_step s (set_thread i (awake (threads s ! i)) s)"

inductive latch_reachable :: "nat \<Rightarrow> rwlatch \<Rightarrow> bool" for n :: nat where
  start: "latch_reachable n (latch_new n)"
| step: "latch_reachable n s \<Longrightarrow> latch_step s s' \<Longrightarrow> latch_reachable n s'"

inductive_cases latch_step_elim: "latch_step s s'"
inductive_cases RUnlock_elim: "RUnlock i s s'"
inductive_cases notify_one_elim: "notify_one cv s s'"

section \<open>Counting threads\<close>

definition number :: "(latch_pc \<Rightarrow> bool) \<Rightarrow> rwlatch \<Rightarrow> nat" where
  "number P s = length (filter P (threads s))"

lemma number_update:
  assumes "i < length (threads s)"
  shows "number P (set_thread i pc s) + of_bool (P (threads s ! i)) = number P s + of_bool (P pc)"
proof -
  have "threads s = take i (threads s) @ threads s ! i # drop (Suc i) (threads s)" using assms by (rule id_take_nth_drop)
  then have "filter P (threads s) = filter P (take i (threads s)) @ filter P [threads s ! i] @ filter P (drop (Suc i) (threads s))"
    by (metis append.assoc append_Cons append_Nil filter_append)
  moreover have "(threads s)[i := pc] = take i (threads s) @ pc # drop (Suc i) (threads s)" using assms by (rule upd_conv_take_nth_drop)
  ultimately show ?thesis by (simp add: number_def set_thread_def)
qed

lemma number_set:
  "i < length (threads s) \<Longrightarrow> number P (set_thread i pc s) = number P s + of_bool (P pc) - of_bool (P (threads s ! i))"
  using number_update [of i s P pc] by simp

lemma number_pos: "number P s = 0 \<longleftrightarrow> (\<forall>pc \<in> set (threads s). \<not> P pc)"
  by (auto simp: number_def filter_empty_conv)

lemma number_nth: "i < length (threads s) \<Longrightarrow> P (threads s ! i) \<Longrightarrow> 0 < number P s"
  using number_pos [of P s] nth_mem by (metis gr0I)

lemma thread_fields [simp]:
  "reader_count (set_thread i pc s) = reader_count s" "writer_entered (set_thread i pc s) = writer_entered s"
  "length (threads (set_thread i pc s)) = length (threads s)"
  "number P (s\<lparr>reader_count := c\<rparr>) = number P s" "number P (s\<lparr>writer_entered := w\<rparr>) = number P s"
  by (simp_all add: set_thread_def number_def)

section \<open>The invariant\<close>

text \<open>
  The counter counts the readers, one writer at most has entered, it writes only without readers; a
  thread sleeps only as long as the condition it waits for does not hold.
\<close>

fun entered :: "latch_pc \<Rightarrow> bool" where
  "entered pc \<longleftrightarrow> pc = D_asleep \<or> pc = D_awake \<or> pc = L_writing"

definition latch_inv :: "nat \<Rightarrow> rwlatch \<Rightarrow> bool" where
  "latch_inv n s \<longleftrightarrow> length (threads s) = n \<and>
     reader_count s = number ((=) L_reading) s \<and>
     number entered s = of_bool (writer_entered s) \<and>
     (number ((=) L_writing) s > 0 \<longrightarrow> reader_count s = 0) \<and>
     (number ((=) D_asleep) s > 0 \<longrightarrow> reader_count s > 0) \<and>
     (number (\<lambda>pc. asleep_on pc = Some reader_cv) s > 0 \<longrightarrow> writer_entered s)"

lemma latch_inv_new: "latch_inv n (latch_new n)"
  by (auto simp: latch_inv_def latch_new_def number_def)

lemma latch_invD:
  assumes "latch_inv n s"
  shows "length (threads s) = n" "reader_count s = number ((=) L_reading) s" "number entered s = of_bool (writer_entered s)"
    "number ((=) L_writing) s > 0 \<Longrightarrow> reader_count s = 0" "number ((=) D_asleep) s > 0 \<Longrightarrow> reader_count s > 0"
    "number (\<lambda>pc. asleep_on pc = Some reader_cv) s > 0 \<Longrightarrow> writer_entered s"
  using assms by (simp_all add: latch_inv_def)

lemma readers_below_max:
  assumes "latch_inv n s" "n < MAX_READERS"
  shows "reader_count s < MAX_READERS"
proof -
  have "number ((=) L_reading) s \<le> length (threads s)" by (simp add: number_def)
  then show ?thesis using latch_invD(1,2) [OF assms(1)] assms(2) by simp
qed

lemma entered_parts: "number ((=) L_writing) s + number ((=) D_asleep) s \<le> number entered s"
proof -
  have "length (filter ((=) L_writing) xs) + length (filter ((=) D_asleep) xs) \<le> length (filter entered xs)" for xs
    by (induction xs) auto
  then show ?thesis by (simp add: number_def)
qed

lemma latch_inv_RLock:
  assumes inv: "latch_inv n s" and n: "n < MAX_READERS" and i: "i < length (threads s)" "threads s ! i \<in> {L_idle, R_awake}"
  shows "latch_inv n (RLock_round i s)"
proof -
  note I = latch_invD [OF inv]
  have "reader_count s \<noteq> MAX_READERS" using readers_below_max [OF inv n] by simp
  then show ?thesis
    using i I entered_parts [of s] by (auto simp: RLock_round_def latch_inv_def number_set split: if_splits)
qed

lemma latch_inv_drain:
  assumes "length (threads s) = n" "reader_count s = number ((=) L_reading) s" "number entered s + of_bool (threads s ! i \<noteq> D_awake) = 1"
    "writer_entered s" "number ((=) L_writing) s = 0" "number ((=) D_asleep) s = 0"
    and i: "i < length (threads s)" "threads s ! i \<in> {L_idle, W_awake, D_awake}"
  shows "latch_inv n (drain_round i s)"
  using assms by (auto simp: drain_round_def latch_inv_def number_set split: if_splits)

lemma latch_inv_WLock:
  assumes inv: "latch_inv n s" and i: "i < length (threads s)" "threads s ! i \<in> {L_idle, W_awake}"
  shows "latch_inv n (WLock_round i s)"
proof -
  note I = latch_invD [OF inv]
  show ?thesis
  proof (cases "writer_entered s")
    case True
    then show ?thesis using i I by (auto simp: WLock_round_def latch_inv_def number_set)
  next
    case False
    then have "latch_inv n (drain_round i (s\<lparr>writer_entered := True\<rparr>))"
      using I i entered_parts [of s] by (intro latch_inv_drain) auto
    then show ?thesis using False by (simp add: WLock_round_def)
  qed
qed

lemma number_0: "number P s = 0 \<Longrightarrow> i < length (threads s) \<Longrightarrow> \<not> P (threads s ! i)"
  using number_nth by fastforce

lemma latch_inv_drain_step:
  assumes inv: "latch_inv n s" and i: "i < length (threads s)" "threads s ! i = D_awake"
  shows "latch_inv n (drain_round i s)"
proof -
  note I = latch_invD [OF inv]
  have e: "number entered s = 1" "writer_entered s" using number_nth [of i s entered] i I(3) by auto
  have "number entered (set_thread i L_idle s) = 0" using e(1) i by (simp add: number_set)
  then have "number ((=) L_writing) s = 0" "number ((=) D_asleep) s = 0"
    using entered_parts [of "set_thread i L_idle s"] i by (simp_all add: number_set)
  then show ?thesis using I e i by (intro latch_inv_drain) auto
qed

text \<open>\<^verbatim>\<open>notify_all\<close> wakes every sleeper of the condition variable.\<close>

lemma number_notify_all:
  "number ((=) L_reading) (notify_all reader_cv s) = number ((=) L_reading) s"
  "number entered (notify_all reader_cv s) = number entered s"
  "number ((=) L_writing) (notify_all reader_cv s) = number ((=) L_writing) s"
  "number ((=) D_asleep) (notify_all reader_cv s) = number ((=) D_asleep) s"
  "number (\<lambda>pc. asleep_on pc = Some reader_cv) (notify_all reader_cv s) = 0"
proof -
  have P: "number P (notify_all reader_cv s) = number P s"
    if "\<And>pc. asleep_on pc = Some reader_cv \<Longrightarrow> P (awake pc) = P pc" for P
  proof -
    have "length (filter P (map (\<lambda>pc. if asleep_on pc = Some reader_cv then awake pc else pc) xs)) = length (filter P xs)" for xs
      using that by (induction xs) auto
    then show ?thesis by (simp add: number_def notify_all_def)
  qed
  have a: "pc = R_asleep \<or> pc = W_asleep" if "asleep_on pc = Some reader_cv" for pc using that by (cases pc) auto
  show "number ((=) L_reading) (notify_all reader_cv s) = number ((=) L_reading) s"
    "number entered (notify_all reader_cv s) = number entered s"
    "number ((=) L_writing) (notify_all reader_cv s) = number ((=) L_writing) s"
    "number ((=) D_asleep) (notify_all reader_cv s) = number ((=) D_asleep) s"
    by (rule P; drule a; auto)+
  show "number (\<lambda>pc. asleep_on pc = Some reader_cv) (notify_all reader_cv s) = 0"
    by (auto simp: number_pos notify_all_def dest!: a)
qed

lemma notify_all_fields [simp]:
  "reader_count (notify_all cv s) = reader_count s" "writer_entered (notify_all cv s) = writer_entered s"
  "length (threads (notify_all cv s)) = length (threads s)"
  by (simp_all add: notify_all_def)

lemma latch_inv_WUnlock:
  assumes inv: "latch_inv n s" and i: "i < length (threads s)" "threads s ! i = L_writing"
  shows "latch_inv n (WUnlock i s)"
proof -
  note I = latch_invD [OF inv]
  have e: "number entered s = 1" "number ((=) L_writing) s > 0" 
    using number_nth [of i s entered] number_nth [of i s "(=) L_writing"] i I(3) by (cases "writer_entered s"; simp)+
  then show ?thesis
    using I i entered_parts [of s] unfolding WUnlock_def latch_inv_def number_notify_all by (auto simp: number_set)
qed

lemma latch_inv_wake:
  assumes inv: "latch_inv n s" and i: "i < length (threads s)" "asleep_on (threads s ! i) \<noteq> None"
  shows "latch_inv n (set_thread i (awake (threads s ! i)) s)"
  using latch_invD [OF inv] i number_nth [of i s "\<lambda>pc. asleep_on pc = Some reader_cv"]
  by (cases "threads s ! i") (auto simp: latch_inv_def number_set)

text \<open>The last reader wakes the writer that waits for it.\<close>

lemma latch_inv_RUnlock:
  assumes inv: "latch_inv n s" and n: "n < MAX_READERS" and i: "i < length (threads s)" "threads s ! i = L_reading"
    and r: "RUnlock i s s'"
  shows "latch_inv n s'"
proof -
  note I = latch_invD [OF inv]
  let ?s = "set_thread i L_idle (s\<lparr>reader_count := reader_count s - 1\<rparr>)"
  have pos: "reader_count s > 0" using number_nth [of i s "(=) L_reading"] i I(2) by simp
  have nums: "number ((=) L_reading) ?s = reader_count s - 1" "number entered ?s = number entered s"
    "number ((=) L_writing) ?s = number ((=) L_writing) s" "number ((=) D_asleep) ?s = number ((=) D_asleep) s"
    "number (\<lambda>pc. asleep_on pc = Some reader_cv) ?s = number (\<lambda>pc. asleep_on pc = Some reader_cv) s"
    using i I(2) by (simp_all add: number_set)
  have w0: "number ((=) L_writing) s = 0" using I(4) pos by auto
  from r show ?thesis
  proof (cases rule: RUnlock.cases)
    case (last_reader s1)
    from last_reader(4) show ?thesis
    proof (cases rule: notify_one.cases)
      case (wake j)
      have D: "threads s1 ! j = D_asleep" using wake(3) by (cases "threads s1 ! j") auto
      have "number entered s = 1" using I(3) last_reader(2) by simp
      then have "number ((=) D_asleep) s1 \<le> 1" using entered_parts [of s1] nums(2) last_reader(1) by simp
      then show ?thesis
        using I nums w0 wake(1,2) D last_reader by (auto simp: latch_inv_def number_set)
    next
      case nobody
      have "number ((=) D_asleep) s1 = 0" using nobody(2) by (auto simp: number_pos)
      then show ?thesis using I nums w0 nobody(1) last_reader by (auto simp: latch_inv_def)
    qed
  next
    case (one_below_max s1)
    then show ?thesis using readers_below_max [OF inv n] pos by simp
  next
    case quiet
    then show ?thesis using I nums w0 pos entered_parts [of s] by (auto simp: latch_inv_def split: if_splits)
  qed
qed

theorem latch_reachable_inv:
  assumes "latch_reachable n s" "n < MAX_READERS"
  shows "latch_inv n s"
  using assms(1)
proof (induction rule: latch_reachable.induct)
  case start
  show ?case by (rule latch_inv_new)
next
  case (step s s')
  from step.hyps(2) show ?case
    by (cases rule: latch_step.cases)
      (use step.IH assms(2) in \<open>blast intro: latch_inv_RLock latch_inv_WLock latch_inv_drain_step latch_inv_RUnlock latch_inv_WUnlock latch_inv_wake\<close>)+
qed

section \<open>Properties\<close>

text \<open>
  C23. The latch excludes. For any number of threads below \<^verbatim>\<open>MAX_READERS\<close> that take and release the latch in
  any order, with any wake-ups, a thread that holds the write latch is the only thread that holds the latch.
\<close>

theorem rwlatch_excludes:
  assumes "latch_reachable n s" "n < MAX_READERS"
    and "i < length (threads s)" "threads s ! i = L_writing" and "j < length (threads s)" "j \<noteq> i"
  shows "threads s ! j \<noteq> L_writing \<and> threads s ! j \<noteq> L_reading"
proof -
  note I = latch_invD [OF latch_reachable_inv [OF assms(1,2)]]
  have w: "number ((=) L_writing) s > 0" "number entered s = 1"
    using number_nth [of i s "(=) L_writing"] number_nth [of i s entered] assms(3,4) I(3) by (cases "writer_entered s"; simp)+
  have "number entered (set_thread i L_idle s) = 0" using w(2) assms(3,4) by (simp add: number_set)
  from number_0 [OF this, of j] have "threads s ! j \<noteq> L_writing" using assms(5,6) by (simp add: set_thread_def)
  moreover have "number ((=) L_reading) s = 0" using I(2,4) w(1) by simp
  then have "threads s ! j \<noteq> L_reading" using number_0 assms(5) by metis
  ultimately show ?thesis by simp
qed

theorem rwlatch_excludes_witness:
  "latch_reachable 2 (WLock_round 0 (latch_new 2)) \<and> threads (WLock_round 0 (latch_new 2)) ! 1 \<noteq> L_reading"
proof -
  have "latch_step (latch_new 2) (WLock_round 0 (latch_new 2))" by (rule latch_step.wlock) (simp_all add: latch_new_def)
  then have r: "latch_reachable 2 (WLock_round 0 (latch_new 2))" using latch_reachable.start latch_reachable.step by blast
  then show ?thesis
    using rwlatch_excludes [OF r, of 0 1]
    by (simp add: WLock_round_def drain_round_def set_thread_def latch_new_def MAX_READERS_def numeral_2_eq_2)
qed

text \<open>
  C24. No wake-up is lost. In every reachable state a thread that sleeps has a reason to: a reader, and a
  writer in the first loop, sleep only while a writer has entered, a writer in the second loop only
  while there are readers. So as long as a thread sleeps, another one is awake inside the latch and
  will go on: it holds the latch, or it was woken.
\<close>

theorem rwlatch_no_lost_wakeup:
  assumes "latch_reachable n s" "n < MAX_READERS" and "i < length (threads s)" "asleep_on (threads s ! i) \<noteq> None"
  shows "(threads s ! i \<in> {R_asleep, W_asleep} \<longrightarrow> writer_entered s) \<and> (threads s ! i = D_asleep \<longrightarrow> reader_count s > 0) \<and>
     (\<exists>j < length (threads s). threads s ! j \<in> {L_reading, L_writing, D_awake})"
proof -
  note I = latch_invD [OF latch_reachable_inv [OF assms(1,2)]]
  have rd: "\<exists>j < length (threads s). threads s ! j = L_reading" if "reader_count s > 0"
    using that I(2) number_pos [of "(=) L_reading" s] by (auto simp: in_set_conv_nth)
  have a: "threads s ! i \<in> {R_asleep, W_asleep} \<Longrightarrow> writer_entered s" "threads s ! i = D_asleep \<Longrightarrow> reader_count s > 0"
    using number_nth [of i s "\<lambda>pc. asleep_on pc = Some reader_cv"] number_nth [of i s "(=) D_asleep"] assms(3) I(5,6) by auto
  have "\<exists>j < length (threads s). threads s ! j \<in> {L_reading, L_writing, D_awake}"
  proof (cases "writer_entered s")
    case True
    then have "number entered s \<noteq> 0" using I(3) by simp
    then obtain j where j: "j < length (threads s)" "entered (threads s ! j)" by (auto simp: number_pos in_set_conv_nth)
    have "reader_count s > 0" if "threads s ! j = D_asleep"
      using number_nth [of j s "(=) D_asleep"] that j(1) I(5) by simp
    then show ?thesis using j rd by (cases "threads s ! j = D_asleep") auto
  next
    case False
    then have "threads s ! i = D_asleep" using a(1) assms(4) by (cases "threads s ! i") auto
    then show ?thesis using a(2) rd by blast
  qed
  then show ?thesis using a by blast
qed

theorem rwlatch_no_lost_wakeup_witness:
  "latch_reachable 2 (RLock_round 1 (WLock_round 0 (latch_new 2))) \<and> threads (RLock_round 1 (WLock_round 0 (latch_new 2))) ! 1 = R_asleep \<and>
     writer_entered (RLock_round 1 (WLock_round 0 (latch_new 2)))"
proof -
  let ?s = "WLock_round 0 (latch_new 2)"
  have s: "threads ?s = [L_writing, L_idle]" "writer_entered ?s" by (simp_all add: WLock_round_def drain_round_def set_thread_def latch_new_def numeral_2_eq_2)
  have "latch_step (latch_new 2) ?s" by (rule latch_step.wlock) (simp_all add: latch_new_def)
  moreover have "latch_step ?s (RLock_round 1 ?s)" by (rule latch_step.rlock) (simp_all add: s)
  ultimately have r: "latch_reachable 2 (RLock_round 1 ?s)" using latch_reachable.start latch_reachable.step by blast
  have t: "threads (RLock_round 1 ?s) = [L_writing, R_asleep]" using s by (simp add: RLock_round_def set_thread_def)
  show ?thesis using rwlatch_no_lost_wakeup [OF r, of 1] t r by (simp add: MAX_READERS_def)
qed

end
