(* ===== verification/TaskPool.thy ===== *)
theory TaskPool
  imports Prelude
begin

text \<open>
  \<^verbatim>\<open>ThreadPool\<close> of \<^verbatim>\<open>thread/thread_pool.cpp\<close>: workers that take tasks from a queue. A worker runs a task
  while it holds the mutex of the pool; the task gives the mutex up through \<^verbatim>\<open>GetLock()\<close> when it has
  taken its place in the tree. A task is a value of a type; what it computes is not part of the model.
\<close>

section \<open>The pool\<close>

text \<open>
  A worker is about to take the mutex, sleeps on the condition variable, runs a task with the mutex,
  runs a task that has given it up, or has returned. \<open>notices\<close> counts the \<^verbatim>\<open>notify_one\<close> calls of \<^verbatim>\<open>Join\<close>
  that are still to come, \<open>final_notice\<close> says that the \<^verbatim>\<open>notify_all\<close> of the destructor is.
\<close>

datatype 'a worker = T_top | T_asleep | T_task 'a | T_free 'a | T_done

record 'a thread_pool =
  workers :: "'a worker list"
  tasks :: "'a list"
  pool_lock :: "nat option"
  latch_owner :: "nat option"
  isTerminated :: bool
  notices :: nat
  final_notice :: bool
  submitted :: "'a list"
  begun :: "'a list"

definition ThreadPool_new :: "nat \<Rightarrow> 'a thread_pool" where
  "ThreadPool_new n = \<lparr>workers = replicate n T_top, tasks = [], pool_lock = None, latch_owner = None, isTerminated = False,
     notices = 0, final_notice = False, submitted = [], begun = []\<rparr>"

definition set_worker :: "nat \<Rightarrow> 'a worker \<Rightarrow> 'a thread_pool \<Rightarrow> 'a thread_pool" where
  "set_worker i w s = s\<lparr>workers := (workers s)[i := w]\<rparr>"

definition wake_all :: "'a thread_pool \<Rightarrow> 'a thread_pool" where
  "wake_all s = s\<lparr>workers := map (\<lambda>w. if w = T_asleep then T_top else w) (workers s)\<rparr>"

text \<open>\<^verbatim>\<open>Join\<close> up to the notification; it throws when the pool is terminated.\<close>

definition Join :: "'a \<Rightarrow> 'a thread_pool \<Rightarrow> 'a thread_pool option" where
  "Join task s =
     (if isTerminated s then None
      else Some (s\<lparr>tasks := tasks s @ [task], submitted := submitted s @ [task], notices := notices s + 1\<rparr>))"

text \<open>\<^verbatim>\<open>WorkerFunction\<close> from the mutex to the next point where it sleeps, returns or calls the task.\<close>

definition worker_round :: "nat \<Rightarrow> 'a thread_pool \<Rightarrow> 'a thread_pool" where
  "worker_round i s =
     (if \<not> (isTerminated s \<or> tasks s \<noteq> []) then set_worker i T_asleep s
      else if isTerminated s \<and> tasks s = [] then set_worker i T_done s
      else set_worker i (T_task (hd (tasks s)))
             (s\<lparr>tasks := tl (tasks s), begun := begun s @ [hd (tasks s)], pool_lock := Some i, latch_owner := Some i\<rparr>))"

text \<open>\<^verbatim>\<open>GetLock()->unlock()\<close> by the task that worker \<open>i\<close> runs. \<open>pool_lock\<close> names the worker whose lock \<^verbatim>\<open>lock_\<close> points to.\<close>

definition GetLock :: "'a thread_pool \<Rightarrow> nat option" where
  "GetLock s = pool_lock s"

definition task_unlock :: "nat \<Rightarrow> 'a \<Rightarrow> 'a thread_pool \<Rightarrow> 'a thread_pool option" where
  "task_unlock i task s = (if GetLock s = Some i then Some (set_worker i (T_free task) (s\<lparr>latch_owner := None\<rparr>)) else None)"

inductive pool_step :: "'a thread_pool \<Rightarrow> 'a thread_pool \<Rightarrow> bool" where
  join: "latch_owner s = None \<Longrightarrow> Join task s = Some s' \<Longrightarrow> pool_step s s'"
| notify: "0 < notices s \<Longrightarrow> i < length (workers s) \<Longrightarrow> workers s ! i = T_asleep \<Longrightarrow>
     pool_step s (set_worker i T_top (s\<lparr>notices := notices s - 1\<rparr>))"
| notify_none: "0 < notices s \<Longrightarrow> T_asleep \<notin> set (workers s) \<Longrightarrow> pool_step s (s\<lparr>notices := notices s - 1\<rparr>)"
| work: "latch_owner s = None \<Longrightarrow> i < length (workers s) \<Longrightarrow> workers s ! i = T_top \<Longrightarrow> pool_step s (worker_round i s)"
| unlock: "i < length (workers s) \<Longrightarrow> workers s ! i = T_task task \<Longrightarrow> task_unlock i task s = Some s' \<Longrightarrow> pool_step s s'"
| finish: "i < length (workers s) \<Longrightarrow> workers s ! i = T_task task \<Longrightarrow>
     pool_step s (set_worker i T_top (s\<lparr>latch_owner := None\<rparr>))"
| finish_free: "i < length (workers s) \<Longrightarrow> workers s ! i = T_free task \<Longrightarrow> pool_step s (set_worker i T_top s)"
| terminate: "latch_owner s = None \<Longrightarrow> \<not> isTerminated s \<Longrightarrow> pool_step s (s\<lparr>isTerminated := True, final_notice := True\<rparr>)"
| notify_all: "final_notice s \<Longrightarrow> pool_step s (wake_all (s\<lparr>final_notice := False\<rparr>))"
| spurious: "i < length (workers s) \<Longrightarrow> workers s ! i = T_asleep \<Longrightarrow> pool_step s (set_worker i T_top s)"

inductive pool_reachable :: "nat \<Rightarrow> 'a thread_pool \<Rightarrow> bool" for n :: nat where
  start: "pool_reachable n (ThreadPool_new n)"
| step: "pool_reachable n s \<Longrightarrow> pool_step s s' \<Longrightarrow> pool_reachable n s'"

inductive_cases pool_step_elim: "pool_step s s'"

section \<open>The invariant\<close>

fun running :: "'a worker \<Rightarrow> bool" where
  "running T_top \<longleftrightarrow> True"
| "running (T_task k) \<longleftrightarrow> True"
| "running (T_free k) \<longleftrightarrow> True"
| "running w \<longleftrightarrow> False"

fun in_task :: "'a worker \<Rightarrow> bool" where
  "in_task (T_task k) \<longleftrightarrow> True"
| "in_task w \<longleftrightarrow> False"

definition task_pool_inv :: "nat \<Rightarrow> 'a thread_pool \<Rightarrow> bool" where
  "task_pool_inv n s \<longleftrightarrow> length (workers s) = n \<and>
     submitted s = begun s @ tasks s \<and>
     (\<forall>i < n. in_task (workers s ! i) \<longleftrightarrow> latch_owner s = Some i) \<and>
     (\<forall>i. latch_owner s = Some i \<longrightarrow> i < n \<and> pool_lock s = Some i) \<and>
     (T_done \<in> set (workers s) \<longrightarrow> isTerminated s \<and> tasks s = []) \<and>
     (isTerminated s \<longrightarrow> final_notice s \<or> T_asleep \<notin> set (workers s)) \<and>
     (tasks s \<noteq> [] \<longrightarrow> n = 0 \<or> notices s > 0 \<or> final_notice s \<or> (\<exists>w \<in> set (workers s). running w))"

lemma task_pool_invD:
  assumes "task_pool_inv n s"
  shows "length (workers s) = n" "submitted s = begun s @ tasks s" "\<And>i. i < n \<Longrightarrow> in_task (workers s ! i) \<longleftrightarrow> latch_owner s = Some i"
    "\<And>i. latch_owner s = Some i \<Longrightarrow> i < n \<and> pool_lock s = Some i"
    "T_done \<in> set (workers s) \<Longrightarrow> isTerminated s \<and> tasks s = []"
    "isTerminated s \<Longrightarrow> final_notice s \<or> T_asleep \<notin> set (workers s)"
    "tasks s \<noteq> [] \<Longrightarrow> n = 0 \<or> notices s > 0 \<or> final_notice s \<or> (\<exists>w \<in> set (workers s). running w)"
  using assms by (simp_all add: task_pool_inv_def)

lemma in_update: "x \<in> set (xs[i := y]) \<Longrightarrow> x = y \<or> x \<in> set xs"
  using set_update_subset_insert by fastforce

lemma running_cases: "running w \<or> w = T_asleep \<or> w = T_done"
  by (cases w) auto

text \<open>A worker that changes its state while the rest stays as it is.\<close>

lemma task_pool_inv_worker:
  assumes inv: "task_pool_inv n s" and i: "i < length (workers s)" and w: "running w"
    and own: "in_task (workers s ! i) \<Longrightarrow> owner = None" "\<not> in_task (workers s ! i) \<Longrightarrow> owner = latch_owner s" "\<not> in_task w"
  shows "task_pool_inv n (set_worker i w (s\<lparr>latch_owner := owner, notices := m\<rparr>))"
proof -
  note I = task_pool_invD [OF inv]
  have "w \<in> set ((workers s)[i := w])" using i by (simp add: set_update_memI)
  then have "\<exists>v \<in> set ((workers s)[i := w]). running v" using w by blast
  moreover have "T_done \<in> set ((workers s)[i := w]) \<Longrightarrow> isTerminated s \<and> tasks s = []" "T_asleep \<in> set ((workers s)[i := w]) \<Longrightarrow> T_asleep \<in> set (workers s)"
    using in_update [of _ "workers s" i w] w I(5) by (cases w; auto)+
  moreover have "in_task ((workers s)[i := w] ! j) \<longleftrightarrow> owner = Some j" if "j < n" for j
    using I(1) I(3) [of i] I(3) [of j] i that own by (auto simp: nth_list_update)
  moreover have "owner = Some j \<Longrightarrow> latch_owner s = Some j" for j
    using own(1,2) by (cases "in_task (workers s ! i)") simp_all
  ultimately show ?thesis using I(1,2,4,6) by (auto simp: task_pool_inv_def set_worker_def)
qed

lemma task_pool_inv_round:
  assumes inv: "task_pool_inv n s" and i: "i < length (workers s)" "workers s ! i = T_top" and free: "latch_owner s = None"
  shows "task_pool_inv n (worker_round i s)"
proof -
  note I = task_pool_invD [OF inv]
  have none: "\<not> in_task (workers s ! j)" if "j < n" for j using I(3) [OF that] free by simp
  have upd: "in_task ((workers s)[i := w] ! j) \<longleftrightarrow> in_task w \<and> j = i" if "j < n" for w j
    using none [OF that] i(1) that I(1) by (auto simp: nth_list_update)
  consider (sleep) "\<not> isTerminated s" "tasks s = []" | (leave) "isTerminated s" "tasks s = []" | (take) "tasks s \<noteq> []" by blast
  then show ?thesis
  proof cases
    case sleep
    then have "T_done \<notin> set (workers s)" using I(5) by blast
    then show ?thesis
      using sleep I free upd [of _ T_asleep] in_update [of T_done "workers s" i T_asleep]
      by (auto simp: worker_round_def set_worker_def task_pool_inv_def)
  next
    case leave
    then show ?thesis
      using I free upd [of _ T_done] in_update [of T_asleep "workers s" i T_done]
      by (auto simp: worker_round_def set_worker_def task_pool_inv_def)
  next
    case take
    let ?w = "T_task (hd (tasks s))"
    have "?w \<in> set ((workers s)[i := ?w])" using i(1) by (simp add: set_update_memI)
    then have "\<exists>v \<in> set ((workers s)[i := ?w]). running v" by force
    moreover have "T_done \<notin> set ((workers s)[i := ?w])" using take I(5) in_update [of T_done "workers s" i ?w] by auto
    ultimately show ?thesis
      using take I(1,2,6) i(1) upd [of _ ?w] in_update [of T_asleep "workers s" i ?w]
      by (auto simp: worker_round_def set_worker_def task_pool_inv_def)
  qed
qed

lemma task_pool_inv_wake_all:
  assumes inv: "task_pool_inv n s"
  shows "task_pool_inv n (wake_all (s\<lparr>final_notice := False\<rparr>))"
proof -
  note I = task_pool_invD [OF inv]
  let ?f = "\<lambda>w. if w = T_asleep then T_top else w"
  have "\<exists>w \<in> set (map ?f (workers s)). running w" if "tasks s \<noteq> []" "n \<noteq> 0"
  proof -
    have "workers s \<noteq> []" using I(1) that(2) by auto
    then have m: "hd (workers s) \<in> set (workers s)" by simp
    then have "hd (workers s) \<noteq> T_done" using I(5) that(1) by metis
    then have "running (?f (hd (workers s)))" using running_cases [of "hd (workers s)"] by auto
    moreover have "?f (hd (workers s)) \<in> set (map ?f (workers s))" using imageI [OF m, of ?f] by (simp only: set_map)
    ultimately show ?thesis by blast
  qed
  moreover have "in_task (?f w) \<longleftrightarrow> in_task w" for w by simp
  moreover have "T_asleep \<notin> set (map ?f (workers s))" "T_done \<in> set (map ?f (workers s)) \<longleftrightarrow> T_done \<in> set (workers s)" by auto
  moreover have "latch_owner s \<noteq> Some i" if "workers s ! i = T_asleep" "i < n" for i using I(3) [of i] that by simp
  ultimately show ?thesis using I by (auto simp: wake_all_def task_pool_inv_def simp del: set_map)
qed

lemma task_pool_inv_step:
  assumes inv: "task_pool_inv n s" and step: "pool_step s s'"
  shows "task_pool_inv n s'"
proof -
  note I = task_pool_invD [OF inv]
  from step show ?thesis
  proof (cases rule: pool_step.cases)
    case (join task)
    then show ?thesis using inv by (auto simp: Join_def task_pool_inv_def split: if_splits)
  next
    case (notify i)
    then show ?thesis using task_pool_inv_worker [OF inv, of i T_top "latch_owner s" "notices s - 1"] by simp
  next
    case notify_none
    have "\<exists>w \<in> set (workers s). running w" if "tasks s \<noteq> []" "n \<noteq> 0"
    proof -
      have "workers s \<noteq> []" using I(1) that(2) by auto
      then have "hd (workers s) \<in> set (workers s)" by simp
      then show ?thesis using running_cases [of "hd (workers s)"] notify_none(3) I(5) that(1) by metis
    qed
    then show ?thesis using inv notify_none(1) by (auto simp: task_pool_inv_def)
  next
    case (work i)
    then show ?thesis using task_pool_inv_round inv by blast
  next
    case (unlock i task)
    then show ?thesis
      using task_pool_inv_worker [OF inv, of i "T_free task" None "notices s"] by (auto simp: task_unlock_def split: if_splits)
  next
    case (finish i task)
    then show ?thesis using task_pool_inv_worker [OF inv, of i T_top None "notices s"] by simp
  next
    case (finish_free i task)
    then show ?thesis using task_pool_inv_worker [OF inv, of i T_top "latch_owner s" "notices s"] by simp
  next
    case terminate
    then show ?thesis using inv by (auto simp: task_pool_inv_def)
  next
    case notify_all
    then show ?thesis using task_pool_inv_wake_all inv by blast
  next
    case (spurious i)
    then show ?thesis using task_pool_inv_worker [OF inv, of i T_top "latch_owner s" "notices s"] by simp
  qed
qed

lemma pool_reachable_inv: "pool_reachable n s \<Longrightarrow> task_pool_inv n s"
proof (induction rule: pool_reachable.induct)
  case start
  then show ?case by (simp add: task_pool_inv_def ThreadPool_new_def)
next
  case (step s s')
  then show ?case using task_pool_inv_step by blast
qed

section \<open>Properties\<close>

text \<open>
  C25. Tasks begin once each and in the order in which they were submitted, one at a time: at most one
  worker is in the part of a task before it gives up the mutex, the lock that \<^verbatim>\<open>GetLock()\<close> returns to the
  task is the one of its own worker, and when all workers have returned no task is left.
\<close>

theorem thread_pool_order:
  assumes "pool_reachable n s"
  shows "submitted s = begun s @ tasks s \<and>
     (\<forall>i j. i < n \<and> j < n \<and> in_task (workers s ! i) \<and> in_task (workers s ! j) \<longrightarrow> i = j) \<and>
     (\<forall>i < n. in_task (workers s ! i) \<longrightarrow> GetLock s = Some i) \<and>
     (0 < n \<and> set (workers s) \<subseteq> {T_done} \<longrightarrow> begun s = submitted s)"
proof -
  note I = task_pool_invD [OF pool_reachable_inv [OF assms]]
  have "tasks s = []" if "0 < n" "set (workers s) \<subseteq> {T_done}"
  proof -
    have "hd (workers s) \<in> set (workers s)" using I(1) that(1) by (intro hd_in_set) auto
    then have "T_done \<in> set (workers s)" using that(2) by auto
    then show ?thesis using I(5) by blast
  qed
  then show ?thesis using I(2-4) by (auto simp: GetLock_def)
qed

definition sample_pool :: "nat thread_pool" where
  "sample_pool = worker_round 1 (the (Join 7 (ThreadPool_new 2)))"

lemma sample_pool_reachable: "pool_reachable 2 sample_pool"
proof -
  have j: "Join 7 (ThreadPool_new 2) = Some (the (Join 7 (ThreadPool_new 2)))" by (simp add: Join_def ThreadPool_new_def)
  have "pool_step (ThreadPool_new 2) (the (Join 7 (ThreadPool_new 2)))"
    by (rule pool_step.join [OF _ j]) (simp add: ThreadPool_new_def)
  moreover have "pool_step (the (Join 7 (ThreadPool_new 2))) sample_pool"
    unfolding sample_pool_def by (rule pool_step.work) (simp_all add: Join_def ThreadPool_new_def)
  ultimately show ?thesis using pool_reachable.start pool_reachable.step by metis
qed

theorem thread_pool_order_witness:
  "pool_reachable 2 sample_pool \<and> submitted sample_pool = begun sample_pool @ tasks sample_pool \<and> GetLock sample_pool = Some 1 \<and>
     begun sample_pool = [7]"
proof -
  have "in_task (workers sample_pool ! 1)" "begun sample_pool = [7]"
    by (simp_all add: sample_pool_def worker_round_def Join_def ThreadPool_new_def set_worker_def numeral_2_eq_2)
  then show ?thesis using thread_pool_order [OF sample_pool_reachable] sample_pool_reachable by simp
qed

text \<open>
  C26. The pool does not stall. As long as a task waits, or the pool is terminated and a worker has not
  returned, a worker is awake or a notification is on its way; and every worker that sleeps then does
  so before a notification of the destructor.
\<close>

theorem thread_pool_no_stall:
  assumes "pool_reachable n s" and "tasks s \<noteq> [] \<and> 0 < n \<or> isTerminated s \<and> \<not> set (workers s) \<subseteq> {T_done}"
  shows "((\<exists>w \<in> set (workers s). running w) \<or> notices s > 0 \<or> final_notice s) \<and>
     (isTerminated s \<and> \<not> final_notice s \<longrightarrow> T_asleep \<notin> set (workers s))"
proof -
  note I = task_pool_invD [OF pool_reachable_inv [OF assms(1)]]
  have "(\<exists>w \<in> set (workers s). running w) \<or> notices s > 0 \<or> final_notice s"
  proof (cases "tasks s \<noteq> [] \<and> 0 < n")
    case True
    then show ?thesis using I(7) by auto
  next
    case False
    then obtain w where w: "isTerminated s" "w \<in> set (workers s)" "w \<noteq> T_done" using assms(2) by auto
    then show ?thesis using I(6) running_cases [of w] by metis
  qed
  then show ?thesis using I(6) by blast
qed

theorem thread_pool_no_stall_witness:
  "pool_reachable 2 (the (Join (7::nat) (ThreadPool_new 2))) \<and> tasks (the (Join (7::nat) (ThreadPool_new 2))) \<noteq> [] \<and>
     ((\<exists>w \<in> set (workers (the (Join (7::nat) (ThreadPool_new 2)))). running w) \<or> notices (the (Join (7::nat) (ThreadPool_new 2))) > 0 \<or>
      final_notice (the (Join (7::nat) (ThreadPool_new 2))))"
proof -
  let ?s = "the (Join (7::nat) (ThreadPool_new 2))"
  have j: "Join 7 (ThreadPool_new 2) = Some ?s" by (simp add: Join_def ThreadPool_new_def)
  have "pool_step (ThreadPool_new 2) ?s" by (rule pool_step.join [OF _ j]) (simp add: ThreadPool_new_def)
  then have r: "pool_reachable 2 ?s" using pool_reachable.start pool_reachable.step by metis
  have t: "tasks ?s \<noteq> []" by (simp add: Join_def ThreadPool_new_def)
  then show ?thesis using thread_pool_no_stall [OF r] r by simp
qed

end
