(* ===== verification/LibraryTime.thy ===== *)
theory LibraryTime
  imports KeyTypes "HOL-Library.Signed_Division"
begin

text \<open>
  The parts of C++ that the back end uses (\<^verbatim>\<open>int\<close> arithmetic, \<^verbatim>\<open>std::string\<close>, \<^verbatim>\<open>strcpy\<close>, arrays)
  and \<^verbatim>\<open>backend/libs/Library.h\<close> and \<^verbatim>\<open>Library.cpp\<close>: decimal numbers and \<^verbatim>\<open>TimeType\<close>, the number of
  minutes since the first of June.

  \<open>int32\<close> is the value that a 32-bit \<^verbatim>\<open>int\<close> holds after an operation with the given exact
  result. Where the code has no defined behaviour (a read of an element that was never
  assigned, an index out of range, a copy into a buffer that is too small) or throws, the
  model has the value \<open>None\<close>.
\<close>

section \<open>Machine integers, strings and arrays\<close>

definition int32 :: "int \<Rightarrow> int" where
  "int32 x = (x + 2147483648) mod 4294967296 - 2147483648"

lemma int32_id: "-2147483648 \<le> x \<Longrightarrow> x < 2147483648 \<Longrightarrow> int32 x = x"
  by (simp add: int32_def)

lemma int32_range: "-2147483648 \<le> int32 x" "int32 x < 2147483648"
  using pos_mod_bound [of 4294967296 "x + 2147483648"] by (simp_all add: int32_def)

definition MAX_INT :: int where "MAX_INT = 2147483647"

text \<open>\<^verbatim>\<open>strcpy\<close> into a \<^verbatim>\<open>char\<close> array of \<open>n\<close> elements.\<close>

definition strcpy :: "nat \<Rightarrow> string \<Rightarrow> string option" where
  "strcpy n s = (if length (cstr s) < n then Some (cstr s) else None)"

lemma cstr_id: "CHR 0x00 \<notin> set s \<Longrightarrow> cstr s = s"
  by (auto simp: cstr_def takeWhile_eq_all_conv)

lemma strcpy_eq: "length s < n \<Longrightarrow> CHR 0x00 \<notin> set s \<Longrightarrow> strcpy n s = Some s"
  by (simp add: strcpy_def cstr_id)

lemma strcpy_len: "strcpy n s = Some t \<Longrightarrow> length t < n \<and> t = cstr s"
  by (auto simp: strcpy_def split: if_splits)

lemma cstr_cstr [simp]: "cstr (cstr s) = cstr s"
  unfolding cstr_def by (rule takeWhile_idem)

text \<open>\<^verbatim>\<open>std::string::substr\<close> throws \<^verbatim>\<open>out_of_range\<close> when the start is past the end.\<close>

definition substr :: "string \<Rightarrow> nat \<Rightarrow> nat \<Rightarrow> string option" where
  "substr s pos n = (if pos \<le> length s then Some (take n (drop pos s)) else None)"

text \<open>
  An array of the source with \<^verbatim>\<open>maxn\<close> elements, as a map from the indices that have been
  assigned.
\<close>

definition maxn :: int where "maxn = 101"

type_synonym 'a carray = "int \<Rightarrow> 'a option"

definition array_read :: "'a carray \<Rightarrow> int \<Rightarrow> 'a option" where
  "array_read a i = (if 0 \<le> i \<and> i < maxn then a i else None)"

definition array_write :: "'a carray \<Rightarrow> int \<Rightarrow> 'a \<Rightarrow> 'a carray option" where
  "array_write a i v = (if 0 \<le> i \<and> i < maxn then Some (a(i \<mapsto> v)) else None)"

lemma array_read_write:
  "array_write a i v = Some b \<Longrightarrow> array_read b j = (if j = i then Some v else array_read a j)"
  by (auto simp: array_write_def array_read_def split: if_splits)

text \<open>\<^verbatim>\<open>std::to_string\<close>.\<close>

definition digit_char :: "nat \<Rightarrow> char" where
  "digit_char d = char_of (48 + d)"

fun nat_digits :: "nat \<Rightarrow> string" where
  "nat_digits n = (if n < 10 then [digit_char n] else nat_digits (n div 10) @ [digit_char (n mod 10)])"

declare nat_digits.simps [simp del]

definition to_string :: "int \<Rightarrow> string" where
  "to_string x = (if x < 0 then CHR ''-'' # nat_digits (nat (- x)) else nat_digits (nat x))"

section \<open>Numbers\<close>

text \<open>A \<^verbatim>\<open>char\<close> is signed.\<close>

definition char_val :: "char \<Rightarrow> int" where
  "char_val c = (let n = int (of_char c) in if n < 128 then n else n - 256)"

fun string_to_int_loop :: "int \<Rightarrow> string \<Rightarrow> int" where
  "string_to_int_loop t [] = t"
| "string_to_int_loop t (c # cs) = string_to_int_loop (int32 (t * 10 + char_val c - 48)) cs"

definition string_to_int :: "string \<Rightarrow> int" where
  "string_to_int s = string_to_int_loop 0 s"

lemma string_to_int_loop_append:
  "string_to_int_loop t (xs @ ys) = string_to_int_loop (string_to_int_loop t xs) ys"
  by (induction xs arbitrary: t) auto

lemma char_val_digit: "d < 10 \<Longrightarrow> char_val (digit_char d) = 48 + int d"
  by (simp add: char_val_def digit_char_def)

lemma digit_char_0: "digit_char 0 = CHR ''0''"
  by code_simp

lemma digits_recombine: "int (n div 10) * 10 + int (n mod 10) = int n"
  by (metis div_mult_mod_eq of_nat_add of_nat_mult of_nat_numeral)

lemma digit_char_not: "d < 10 \<Longrightarrow> digit_char d \<noteq> CHR 0x00 \<and> digit_char d \<noteq> CHR '' '' \<and> digit_char d \<noteq> CHR ''-''"
  by (auto simp: digit_char_def dest!: arg_cong [where f = "of_char :: char \<Rightarrow> nat"])

lemma string_to_int_nat_digits: "n < 2147483648 \<Longrightarrow> string_to_int_loop 0 (nat_digits n) = int n"
proof (induction n rule: nat_digits.induct)
  case (1 n)
  show ?case
  proof (cases "n < 10")
    case True
    then show ?thesis using 1 by (simp add: nat_digits.simps char_val_digit int32_id)
  next
    case False
    then have "string_to_int_loop 0 (nat_digits (n div 10)) = int (n div 10)" using 1 by simp
    moreover have "int (n div 10) * 10 + (48 + int (n mod 10)) - 48 = int n" using digits_recombine [of n] by linarith
    ultimately show ?thesis
      using False 1 by (simp add: nat_digits.simps [of n] string_to_int_loop_append char_val_digit int32_id)
  qed
qed

lemma string_to_int_to_string: "0 \<le> x \<Longrightarrow> x < 2147483648 \<Longrightarrow> string_to_int (to_string x) = x"
  using string_to_int_nat_digits [of "nat x"] by (simp add: string_to_int_def to_string_def)

section \<open>Times\<close>

type_synonym time_type = int

definition Month :: "int list" where "Month = [30, 31, 31]"

text \<open>\<^verbatim>\<open>for (int i = 0; i < month - 6; ++i) minute += Month[i] * 1440;\<close>\<close>

function month_loop :: "int \<Rightarrow> int \<Rightarrow> int \<Rightarrow> int option" where
  "month_loop i n t =
     (if i < n then
        (case slot Month i of None \<Rightarrow> None | Some d \<Rightarrow> month_loop (i + 1) n (int32 (t + d * 1440)))
      else Some t)"
  by pat_completeness auto
termination
  by (relation "measure (\<lambda>(i, n, t). nat (n - i))") auto

declare month_loop.simps [simp del]

definition TimeType_of_string :: "string \<Rightarrow> time_type option" where
  "TimeType_of_string s =
     do { month_str \<leftarrow> substr s 0 2; day_str \<leftarrow> substr s 3 2;
          hour_str \<leftarrow> substr s 6 2; min_str \<leftarrow> substr s 9 2;
          t \<leftarrow> month_loop 0 (string_to_int month_str - 6) 0;
          let t1 = int32 (t + int32 (int32 (string_to_int day_str - 1) * 1440));
          Some (int32 (t1 + int32 (int32 (string_to_int hour_str * 60) + string_to_int min_str))) }"

text \<open>\<^verbatim>\<open>for (int i = 0; i < 3 && t - Month[i] > 0; ++i) { t -= Month[i]; cnt++; }\<close>\<close>

fun transfer_loop :: "int list \<Rightarrow> int \<Rightarrow> int \<Rightarrow> int \<times> int" where
  "transfer_loop [] t cnt = (t, cnt)"
| "transfer_loop (d # ds) t cnt = (if t - d > 0 then transfer_loop ds (t - d) (cnt + 1) else (t, cnt))"

definition pad2 :: "string \<Rightarrow> string" where
  "pad2 s = (if length s = 1 then ''0'' @ s else s)"

definition transfer :: "time_type \<Rightarrow> string" where
  "transfer minute =
     (let t = minute smod 1440;
          min = to_string (t smod 60); hour = to_string (t sdiv 60);
          (day, cnt) = transfer_loop Month (minute sdiv 1440 + 1) 6;
          month = to_string cnt; day_str = to_string day
      in pad2 month @ ''-'' @ pad2 day_str @ '' '' @ pad2 hour @ '':'' @ pad2 min)"

definition time_add :: "time_type \<Rightarrow> time_type \<Rightarrow> time_type" where
  "time_add a b = int32 (a + b)"

definition time_sub :: "time_type \<Rightarrow> time_type \<Rightarrow> int" where
  "time_sub a b = int32 (a - b)"

definition get_date :: "time_type \<Rightarrow> time_type" where
  "get_date minute = int32 (minute - minute smod 1440)"

definition get_time :: "time_type \<Rightarrow> time_type" where
  "get_time minute = minute smod 1440"

lemma smod_pos: "0 \<le> x \<Longrightarrow> 0 < n \<Longrightarrow> x smod n = x mod n" for x n :: int
  by (simp add: signed_modulo_int_def sgn_if)

lemma sdiv_pos: "0 \<le> x \<Longrightarrow> 0 < n \<Longrightarrow> x sdiv n = x div n" for x n :: int
  by (simp add: signed_divide_int_def sgn_if)

lemma get_date_time_split:
  assumes "0 \<le> m" "m < 2147483648"
  shows "get_date m + get_time m = m" "get_date m mod 1440 = 0" "0 \<le> get_time m" "get_time m < 1440"
    "0 \<le> get_date m" "get_date m \<le> m"
proof -
  have d: "0 \<le> m - m mod 1440" "m - m mod 1440 < 2147483648"
    using assms pos_mod_sign [of 1440 m] zmod_le_nonneg_dividend [of m 1440] by simp_all
  have gd: "get_date m = m - m mod 1440" using d assms by (simp add: get_date_def smod_pos int32_id)
  then show "get_date m + get_time m = m" "0 \<le> get_date m" "get_date m \<le> m"
    using d assms pos_mod_sign [of 1440 m] by (simp_all add: get_time_def smod_pos)
  show "0 \<le> get_time m" "get_time m < 1440" using assms by (simp_all add: get_time_def smod_pos)
  show "get_date m mod 1440 = 0" unfolding gd by (metis mod_diff_right_eq mod_0 cancel_comm_monoid_add_class.diff_cancel)
qed

text \<open>Two digits.\<close>

lemma nat_digits_small: "n < 10 \<Longrightarrow> nat_digits n = [digit_char n]"
  by (simp add: nat_digits.simps)

lemma nat_digits_two: "10 \<le> n \<Longrightarrow> n < 100 \<Longrightarrow> nat_digits n = [digit_char (n div 10), digit_char (n mod 10)]"
  by (simp add: nat_digits.simps [of n] nat_digits_small)

lemma pad2_to_string:
  assumes "0 \<le> x" "x < 100"
  shows "pad2 (to_string x) = [digit_char (nat x div 10), digit_char (nat x mod 10)]"
  using assms nat_digits_small [of "nat x"] nat_digits_two [of "nat x"]
  by (cases "x < 10") (auto simp: pad2_def to_string_def digit_char_0)

lemma string_to_int_two:
  assumes "0 \<le> x" "x < 100"
  shows "string_to_int [digit_char (nat x div 10), digit_char (nat x mod 10)] = x"
proof -
  have "int (nat x div 10) * 10 + int (nat x mod 10) = x" using assms digits_recombine [of "nat x"] by simp
  then show ?thesis using assms by (simp add: string_to_int_def char_val_digit int32_id)
qed

lemma transfer_loop_Month:
  assumes "0 < t" "t \<le> 191"
  shows "\<exists>day cnt base. transfer_loop Month t 6 = (day, cnt) \<and> 0 < day \<and> day < 100 \<and> 6 \<le> cnt \<and> cnt < 100 \<and>
     month_loop 0 (cnt - 6) 0 = Some base \<and> base + (day - 1) * 1440 = (t - 1) * 1440"
proof -
  consider "t \<le> 30" | "30 < t" "t \<le> 61" | "61 < t" "t \<le> 92" | "92 < t" by linarith
  then show ?thesis
    by cases (use assms in \<open>auto simp: Month_def month_loop.simps int32_id slot_def\<close>)
qed

lemma TimeType_of_transfer:
  assumes "0 \<le> m" "m < 275040"
  shows "TimeType_of_string (transfer m) = Some m"
proof -
  obtain day cnt base where l: "transfer_loop Month (m div 1440 + 1) 6 = (day, cnt)"
    "0 < day" "day < 100" "6 \<le> cnt" "cnt < 100" "month_loop 0 (cnt - 6) 0 = Some base"
    "base + (day - 1) * 1440 = (m div 1440) * 1440"
  proof -
    have "0 < m div 1440 + 1" "m div 1440 + 1 \<le> 191" using assms by auto
    from transfer_loop_Month [OF this] show thesis using that by (elim exE conjE) (simp add: left_diff_distrib)
  qed
  define h mi where "h = (m mod 1440) div 60" and "mi = (m mod 1440) mod 60"
  have b: "0 \<le> h" "h < 100" "0 \<le> mi" "mi < 100" by (simp_all add: h_def mi_def)
  have hm: "h * 60 + mi = m mod 1440" by (simp add: h_def mi_def)
  have tr: "transfer m = pad2 (to_string cnt) @ ''-'' @ pad2 (to_string day) @ '' '' @ pad2 (to_string h) @ '':'' @ pad2 (to_string mi)"
    using assms l(1) by (simp add: transfer_def smod_pos sdiv_pos h_def mi_def Let_def)
  have small: "int32 (day - 1) = day - 1" "int32 ((day - 1) * 1440) = (day - 1) * 1440"
    "int32 (h * 60) = h * 60" "int32 (h * 60 + mi) = h * 60 + mi"
    "int32 (m div 1440 * 1440) = m div 1440 * 1440" "int32 m = m"
    using l(2,3) b assms by (auto intro!: int32_id)
  have "m div 1440 * 1440 + m mod 1440 = m" by simp
  then show ?thesis
    using small hm l by (simp add: TimeType_of_string_def tr substr_def pad2_to_string string_to_int_two b)
qed

end
