(* ===== verification/CommandLine.thy ===== *)
theory CommandLine
  imports LibraryTime
begin

text \<open>
  The tokenizer (\<^verbatim>\<open>backend/src/Command.cpp\<close>): a line of input, a position and a delimiter. The
  option loop is the \<^verbatim>\<open>while (!opt.empty())\<close> loop with which every handler reads its arguments.

  The lemmas show that each loop moves the position forward, so that the loops end, and that the
  tokens of a line joined from words are those words.
\<close>

section \<open>The tokenizer\<close>

record command =
  buffer :: string
  cur :: nat
  delimiter :: char
  cnt :: int
  timestamp :: int

text \<open>
  \<^verbatim>\<open>while (j < len && P(buffer[j])) j++\<close>. At the end of a \<^verbatim>\<open>std::string\<close> the subscript gives the
  zero byte, on which the loops of the source that test the character first stop as well.
\<close>

function scan_while :: "(char \<Rightarrow> bool) \<Rightarrow> string \<Rightarrow> nat \<Rightarrow> nat" where
  "scan_while P s j = (if j < length s \<and> P (s ! j) then scan_while P s (Suc j) else j)"
  by pat_completeness auto
termination
  by (relation "measure (\<lambda>(P, s, j). length s - j)") auto

declare scan_while.simps [simp del]

definition CR :: char where "CR = CHR 0x0D"

function count_loop :: "char \<Rightarrow> string \<Rightarrow> nat \<Rightarrow> int \<Rightarrow> int" where
  "count_loop d s i n =
     (if i < length s \<and> s ! i \<noteq> CR then
        let j = scan_while (\<lambda>c. c \<noteq> d \<and> c \<noteq> CR) s i;
            n' = (if i \<noteq> j then n + 1 else n)
        in count_loop d s (scan_while (\<lambda>c. c = d) s j) n'
      else n)"
  by pat_completeness auto

lemma scan_while_ge: "j \<le> scan_while P s j"
  by (induction P s j rule: scan_while.induct) (subst scan_while.simps, auto)

lemma scan_while_step: "j < length s \<Longrightarrow> P (s ! j) \<Longrightarrow> j < scan_while P s j"
  using scan_while_ge [of "Suc j" P s] by (simp add: scan_while.simps [of P s j])

lemma scan_while_stop: "\<not> (j < length s \<and> P (s ! j)) \<Longrightarrow> scan_while P s j = j"
  by (simp add: scan_while.simps)

lemma scan_while_le: "j \<le> length s \<Longrightarrow> scan_while P s j \<le> length s"
  by (induction P s j rule: scan_while.induct) (subst scan_while.simps, auto)

lemma scan_while_eq: "scan_while P s j = j + length (takeWhile P (drop j s))"
proof (induction P s j rule: scan_while.induct)
  case (1 P s j)
  show ?case
  proof (cases "j < length s")
    case True
    then have "drop j s = s ! j # drop (Suc j) s" by (simp add: Cons_nth_drop_Suc)
    then show ?thesis using 1 True by (simp add: scan_while.simps [of P s j])
  qed (simp add: scan_while.simps)
qed

termination count_loop
proof (relation "measure (\<lambda>(d, s, i, n). length s - i)", goal_cases)
  case (2 d s i n j n')
  let ?j = "scan_while (\<lambda>c. c \<noteq> d \<and> c \<noteq> CR) s i"
  have "i < scan_while (\<lambda>c. c = d) s ?j"
  proof (cases "s ! i = d")
    case True
    then have "?j = i" by (intro scan_while_stop) simp
    then show ?thesis using True 2(1) scan_while_step [of i s "\<lambda>c. c = d"] by simp
  next
    case False
    then have "i < ?j" using 2(1) by (intro scan_while_step) simp_all
    then show ?thesis using scan_while_ge [of ?j "\<lambda>c. c = d" s] by linarith
  qed
  then show ?case using 2 by (simp add: diff_less_mono2)
qed simp

declare count_loop.simps [simp del]

definition Command_count :: "command \<Rightarrow> command" where
  "Command_count c =
     c\<lparr>cnt := count_loop (delimiter c) (buffer c)
               (scan_while (\<lambda>x. x = delimiter c) (buffer c) 0) (cnt c)\<rparr>"

definition Command_of_string :: "string \<Rightarrow> char \<Rightarrow> command" where
  "Command_of_string s d =
     Command_count
       \<lparr>buffer = s, cur = scan_while (\<lambda>x. x = d) s 0, delimiter = d, cnt = 0, timestamp = 0\<rparr>"

definition Command_copy :: "command \<Rightarrow> command" where
  "Command_copy rhs =
     \<lparr>buffer = buffer rhs, cur = cur rhs, delimiter = delimiter rhs, cnt = cnt rhs, timestamp = 0\<rparr>"

definition next_token :: "command \<Rightarrow> string \<times> command" where
  "next_token c =
     (if cur c \<ge> length (buffer c) then ([], c)
      else
        let j = scan_while (\<lambda>x. x \<noteq> delimiter c \<and> x \<noteq> CR) (buffer c) (cur c);
            temp = take (j - cur c) (drop (cur c) (buffer c));
            k = scan_while (\<lambda>x. x = delimiter c \<and> x \<noteq> CR) (buffer c) j
        in (temp, c\<lparr>cur := k\<rparr>))"

definition Command_clear :: "command \<Rightarrow> command" where
  "Command_clear c = c\<lparr>buffer := [], cur := 0, cnt := 0, delimiter := CHR '' ''\<rparr>"

definition set_delimiter :: "char \<Rightarrow> command \<Rightarrow> command" where
  "set_delimiter d c = c\<lparr>delimiter := d\<rparr>"

lemma next_token_fields [simp]:
  "buffer (snd (next_token c)) = buffer c" "delimiter (snd (next_token c)) = delimiter c"
  "timestamp (snd (next_token c)) = timestamp c"
  by (simp_all add: next_token_def Let_def)

lemma next_token_forward: "cur c \<le> cur (snd (next_token c))"
  by (auto simp: next_token_def Let_def intro!: order_trans [OF scan_while_ge scan_while_ge])

lemma next_token_nonempty:
  assumes "fst (next_token c) \<noteq> []"
  shows "cur c < cur (snd (next_token c))" "cur c < length (buffer c)"
proof -
  let ?j = "scan_while (\<lambda>x. x \<noteq> delimiter c \<and> x \<noteq> CR) (buffer c) (cur c)"
  have "cur c < length (buffer c)" "cur c < ?j"
    using assms by (auto simp: next_token_def Let_def split: if_splits)
  then show "cur c < cur (snd (next_token c))" "cur c < length (buffer c)"
    using scan_while_ge [of ?j "\<lambda>x. x = delimiter c \<and> x \<noteq> CR" "buffer c"] by (simp_all add: next_token_def Let_def)
qed

section \<open>The loops over a command\<close>

text \<open>
  \<^verbatim>\<open>tp = c.next_token(); while (!tp.empty()) { ...; tp = c.next_token(); }\<close>: the tokens in order.
\<close>

function all_tokens :: "command \<Rightarrow> string list" where
  "all_tokens c =
     (let (tp, c') = next_token c in if tp = [] then [] else tp # all_tokens c')"
  by pat_completeness auto
termination
proof (relation "measure (\<lambda>c. length (buffer c) - cur c)", goal_cases)
  case (2 c x tp c')
  then have "fst (next_token c) \<noteq> []" "c' = snd (next_token c)" by (auto simp: prod_eq_iff)
  then show ?case using next_token_nonempty [of c] by (simp add: diff_less_mono2)
qed simp

declare all_tokens.simps [simp del]

text \<open>
  The loop of the handlers: \<open>opt\<close> is the option just read, \<open>takes opt\<close> says whether its branch
  reads a value, \<open>upd\<close> is what the branch does with the value.
\<close>

function option_loop ::
    "(string \<Rightarrow> bool) \<Rightarrow> (string \<Rightarrow> string \<Rightarrow> 'o \<Rightarrow> 'o) \<Rightarrow> string \<Rightarrow> command \<Rightarrow> 'o \<Rightarrow> 'o" where
  "option_loop takes upd opt line acc =
     (if opt = [] then acc
      else
        let (v, line1) = (if takes opt then next_token line else ([], line));
            (opt', line2) = next_token line1
        in option_loop takes upd opt' line2 (upd opt v acc))"
  by pat_completeness auto

lemma option_loop_measure:
  assumes "(v, line1) = (if b then next_token line else ([], line))" and "(opt', line2) = next_token line1"
    and "opt \<noteq> []"
  shows "length (buffer line2) - cur line2 + length (take 1 opt')
      < length (buffer line) - cur line + length (take 1 opt)"
proof -
  have b: "buffer line1 = buffer line" "buffer line2 = buffer line" "cur line \<le> cur line1" "cur line1 \<le> cur line2"
    using assms next_token_fields(1) [of line] next_token_fields(1) [of line1] next_token_forward [of line]
      next_token_forward [of line1] by (auto simp: prod_eq_iff split: if_splits)
  have o: "length (take 1 opt) = 1" using assms(3) by (cases opt) auto
  show ?thesis
  proof (cases "opt' = []")
    case True
    then show ?thesis using b o by simp
  next
    case False
    then have "cur line1 < cur line2" "cur line1 < length (buffer line)"
      using next_token_nonempty [of line1] assms(2) b(1) by (auto simp: prod_eq_iff)
    moreover have "length (take 1 opt') = 1" using False by (cases opt') auto
    ultimately show ?thesis using b o by simp
  qed
qed

termination option_loop
  by (relation "measure (\<lambda>(takes, upd, opt, line, acc). length (buffer line) - cur line + length (take 1 opt))")
    (simp, simp only: in_measure prod.case, rule option_loop_measure, assumption+)

declare option_loop.simps [simp del]

definition parse_options ::
    "(string \<Rightarrow> bool) \<Rightarrow> (string \<Rightarrow> string \<Rightarrow> 'o \<Rightarrow> 'o) \<Rightarrow> 'o \<Rightarrow> command \<Rightarrow> 'o" where
  "parse_options takes upd init line =
     (let (opt, line1) = next_token line in option_loop takes upd opt line1 init)"

lemma option_loop_invariant:
  "P acc \<Longrightarrow> (\<And>opt v a. P a \<Longrightarrow> P (upd opt v a)) \<Longrightarrow> P (option_loop takes upd opt line acc)"
proof (induction takes upd opt line acc rule: option_loop.induct)
  case (1 takes upd opt line acc)
  show ?case
  proof (cases "opt = []")
    case True
    then show ?thesis using "1.prems"(1) by (simp add: option_loop.simps)
  next
    case False
    obtain v line1 where v: "(if takes opt then next_token line else ([], line)) = (v, line1)" by force
    obtain opt' line2 where n: "next_token line1 = (opt', line2)" by force
    have "P (option_loop takes upd opt' line2 (upd opt v acc))"
      using "1.IH" [OF False v [symmetric] refl n [symmetric] refl] "1.prems" by blast
    then show ?thesis using False v n by (simp add: option_loop.simps [of takes upd opt])
  qed
qed

lemma parse_options_invariant:
  "P acc \<Longrightarrow> (\<And>opt v a. P a \<Longrightarrow> P (upd opt v a)) \<Longrightarrow> P (parse_options takes upd acc line)"
  by (simp add: parse_options_def option_loop_invariant split: prod.split)

section \<open>Tokens of a joined line\<close>

fun join :: "char \<Rightarrow> string list \<Rightarrow> string" where
  "join d [] = []"
| "join d [w] = w"
| "join d (w # v # ws) = w @ d # join d (v # ws)"

definition word_ok :: "char \<Rightarrow> string \<Rightarrow> bool" where
  "word_ok d w \<longleftrightarrow> w \<noteq> [] \<and> d \<notin> set w \<and> CR \<notin> set w"

lemma takeWhile_word:
  assumes "word_ok d w" and "d \<noteq> CR"
  shows "length (takeWhile (\<lambda>x. x \<noteq> d \<and> x \<noteq> CR) (join d (w # ws))) = length w"
proof -
  have "\<forall>x \<in> set w. x \<noteq> d \<and> x \<noteq> CR" using assms by (auto simp: word_ok_def)
  then have tw: "takeWhile (\<lambda>x. x \<noteq> d \<and> x \<noteq> CR) w = w"
    "takeWhile (\<lambda>x. x \<noteq> d \<and> x \<noteq> CR) (w @ d # rest) = w" for rest
    by (simp_all add: takeWhile_eq_all_conv takeWhile_append2)
  show ?thesis by (cases ws) (simp_all only: join.simps tw)
qed

lemma join_first: "word_ok d w \<Longrightarrow> \<exists>c cs. join d (w # ws) = c # cs \<and> c \<noteq> d \<and> c \<noteq> CR"
  by (cases ws; cases w) (auto simp: word_ok_def)

lemma takeWhile_join:
  "word_ok d w \<Longrightarrow> takeWhile (\<lambda>x. x = d) (join d (w # ws)) = []"
  "word_ok d w \<Longrightarrow> takeWhile (\<lambda>x. x = d \<and> x \<noteq> CR) (join d (w # ws)) = []"
  using join_first [of d w ws] by auto

lemma next_token_word:
  assumes "word_ok d w" "d \<noteq> CR" and "delimiter c = d" "drop (cur c) (buffer c) = join d (w # ws)"
    and "\<forall>v \<in> set ws. word_ok d v"
  shows "fst (next_token c) = w"
    "drop (cur (snd (next_token c))) (buffer (snd (next_token c))) = join d ws"
proof -
  have ne: "drop (cur c) (buffer c) \<noteq> []" using assms(4) join_first [OF assms(1), of ws] by auto
  then have lt: "cur c < length (buffer c)" by simp
  let ?j = "scan_while (\<lambda>x. x \<noteq> delimiter c \<and> x \<noteq> CR) (buffer c) (cur c)"
  have j: "?j = cur c + length w"
    using takeWhile_word [OF assms(1,2)] by (simp add: scan_while_eq assms(3,4))
  show "fst (next_token c) = w"
    using lt assms(4) by (cases ws) (simp_all add: next_token_def j)
  have d: "drop ?j (buffer c) = drop (length w) (join d (w # ws))"
    unfolding j by (simp add: assms(4) [symmetric] add.commute)
  show "drop (cur (snd (next_token c))) (buffer (snd (next_token c))) = join d ws"
  proof (cases ws)
    case Nil
    then have "drop ?j (buffer c) = []" using d by simp
    then show ?thesis using lt Nil scan_while_ge [of ?j] by (simp add: next_token_def Let_def) (meson order_trans)
  next
    case (Cons v vs)
    then have dj: "drop ?j (buffer c) = d # join d (v # vs)" using d by simp
    then have dk: "drop (Suc ?j) (buffer c) = join d (v # vs)" by (simp add: drop_Suc drop_tl)
    have tw: "takeWhile (\<lambda>x. x = delimiter c \<and> x \<noteq> CR) (d # join d (v # vs)) = [d]"
      using takeWhile_join(2) [of d v vs] assms(2,3,5) Cons by simp
    have "scan_while (\<lambda>x. x = delimiter c \<and> x \<noteq> CR) (buffer c) ?j = Suc ?j"
      using scan_while_eq [of "\<lambda>x. x = delimiter c \<and> x \<noteq> CR" "buffer c" ?j] unfolding dj tw by simp
    then show ?thesis using lt dk Cons by (simp add: next_token_def Let_def)
  qed
qed

lemma next_token_end: "drop (cur c) (buffer c) = [] \<Longrightarrow> next_token c = ([], c)"
  by (simp add: next_token_def)

lemma all_tokens_join:
  assumes "\<forall>w \<in> set ws. word_ok d w" "d \<noteq> CR" "delimiter c = d" "drop (cur c) (buffer c) = join d ws"
  shows "all_tokens c = ws"
  using assms
proof (induction ws arbitrary: c)
  case Nil
  then have "next_token c = ([], c)" by (intro next_token_end) simp
  then show ?case by (simp add: all_tokens.simps)
next
  case (Cons w ws)
  have "fst (next_token c) = w" "drop (cur (snd (next_token c))) (buffer (snd (next_token c))) = join d ws"
    using next_token_word [of d w c ws] Cons.prems by auto
  moreover have "w \<noteq> []" using Cons.prems(1) by (simp add: word_ok_def)
  ultimately show ?case
    using Cons.IH [of "snd (next_token c)"] Cons.prems by (simp add: all_tokens.simps [of c] case_prod_beta)
qed

lemma Command_of_string_join:
  assumes "\<forall>w \<in> set ws. word_ok d w"
  shows "cur (Command_of_string (join d ws) d) = 0" "buffer (Command_of_string (join d ws) d) = join d ws"
    "delimiter (Command_of_string (join d ws) d) = d"
  using assms takeWhile_join(1) [of d "hd ws" "tl ws"]
  by (cases ws; simp add: Command_of_string_def Command_count_def scan_while_eq)+

lemma count_loop_join:
  assumes "\<forall>w \<in> set ws. word_ok d w" "d \<noteq> CR" "drop i s = join d ws"
  shows "count_loop d s i n = n + int (length ws)"
  using assms
proof (induction ws arbitrary: i n)
  case Nil
  then show ?case by (simp add: count_loop.simps)
next
  case (Cons w ws)
  have w: "word_ok d w" using Cons.prems(1) by simp
  obtain c cs where f: "join d (w # ws) = c # cs" "c \<noteq> d" "c \<noteq> CR" using join_first [OF w] by blast
  then have i: "i < length s" "s ! i = c"
    using Cons.prems(3) by (metis drop_eq_Nil leI list.discI, metis nth_via_drop)
  let ?j = "scan_while (\<lambda>c. c \<noteq> d \<and> c \<noteq> CR) s i"
  have j: "?j = i + length w"
    using takeWhile_word [OF w Cons.prems(2)] by (simp add: scan_while_eq Cons.prems(3))
  have d: "drop ?j s = drop (length w) (join d (w # ws))"
    unfolding j by (simp add: Cons.prems(3) [symmetric] add.commute)
  have ne: "i \<noteq> ?j" using w j by (auto simp: word_ok_def)
  have "drop (scan_while (\<lambda>c. c = d) s ?j) s = join d ws"
  proof (cases ws)
    case Nil
    then show ?thesis using d scan_while_ge [of ?j "\<lambda>c. c = d" s] by simp
  next
    case (Cons v vs)
    then have dj: "drop ?j s = d # join d (v # vs)" using d by simp
    have "scan_while (\<lambda>c. c = d) s ?j = Suc ?j"
      using takeWhile_join(1) [of d v vs] Cons.prems(1) Cons by (simp add: scan_while_eq [of _ _ ?j] dj)
    then show ?thesis using dj Cons by (simp add: drop_Suc drop_tl)
  qed
  then show ?case
    using Cons.IH [of "scan_while (\<lambda>c. c = d) s ?j" "n + 1"] Cons.prems i f ne
    by (subst count_loop.simps) (simp add: Let_def)
qed

end
