(* ===== verification/TrainSystem.thy ===== *)
theory TrainSystem
  imports CommandLine
begin

text \<open>
  The data of the back end (\<^verbatim>\<open>backend/src/TrainSystem.h\<close>, \<^verbatim>\<open>TrainSystem.cpp\<close> and \<^verbatim>\<open>Account.h\<close>,
  \<^verbatim>\<open>Account.cpp\<close>): users, trains, the stations of a train, tickets, the seats of a train on one
  day, orders and pending orders.

  A constructor is partial: it copies strings into \<^verbatim>\<open>char\<close> arrays and numbers into arrays of
  \<^verbatim>\<open>maxn\<close> elements. The arrays of a train are indexed from 1; \<^verbatim>\<open>seat_num[i]\<close> is the number of
  free seats between station \<open>i\<close> and station \<open>i + 1\<close>. The lemmas give the closed forms of the two
  seat loops.
\<close>

section \<open>Users\<close>

record user =
  user_name :: string
  password :: string
  mail_addr :: string
  real_name :: string
  privilege :: int

definition User :: "string \<Rightarrow> string \<Rightarrow> string \<Rightarrow> string \<Rightarrow> int \<Rightarrow> user option" where
  "User username nm mail pw p =
     do { a \<leftarrow> strcpy 22 username; b \<leftarrow> strcpy 32 nm; c \<leftarrow> strcpy 32 mail; d \<leftarrow> strcpy 32 pw;
          Some \<lparr>user_name = a, password = d, mail_addr = c, real_name = b, privilege = p\<rparr> }"

section \<open>Trains\<close>

record train =
  train_ID :: string
  stations :: "string carray"
  station_num :: int
  total_seat_num :: int
  start_time :: time_type
  arriving_times :: "time_type carray"
  leaving_times :: "time_type carray"
  start_sale_date :: time_type
  end_sale_date :: time_type
  train_type :: char
  is_released :: bool
  price_sum :: "int carray"

fun price_loop :: "string list \<Rightarrow> int \<Rightarrow> int carray \<Rightarrow> int carray option" where
  "price_loop [] k a = Some a"
| "price_loop (tp # tps) k a =
     do { x \<leftarrow> array_read a k;
          a' \<leftarrow> array_write a (k + 1) (int32 (x + string_to_int tp));
          price_loop tps (k + 1) a' }"

fun station_loop :: "string list \<Rightarrow> int \<Rightarrow> string carray \<Rightarrow> string carray option" where
  "station_loop [] k a = Some a"
| "station_loop (tp # tps) k a =
     do { s \<leftarrow> strcpy 32 tp; a' \<leftarrow> array_write a (k + 1) s; station_loop tps (k + 1) a' }"

text \<open>The default constructor of \<^verbatim>\<open>TimeType\<close> sets the elements of the two arrays of times to 0.\<close>

definition no_times :: "time_type carray" where
  "no_times i = Some 0"

function times_loop ::
    "int \<Rightarrow> int \<Rightarrow> command \<Rightarrow> command \<Rightarrow> time_type carray \<Rightarrow> time_type carray \<Rightarrow>
     (command \<times> time_type carray \<times> time_type carray) option" where
  "times_loop i n c4 c5 arr lea =
     (if i \<le> n - 2 then
        do { let (travel, c4') = next_token c4;
             let (stop, c5') = next_token c5;
             x \<leftarrow> array_read lea i;
             arr' \<leftarrow> array_write arr (i + 1) (time_add x (string_to_int travel));
             y \<leftarrow> array_read arr' (i + 1);
             lea' \<leftarrow> array_write lea (i + 1) (time_add y (string_to_int stop));
             times_loop (i + 1) n c4' c5' arr' lea' }
      else Some (c4, arr, lea))"
  by pat_completeness auto
termination
  by (relation "measure (\<lambda>(i, n, c4, c5, arr, lea). nat (n - i))") auto

declare times_loop.simps [simp del]

definition Train ::
    "string \<Rightarrow> int \<Rightarrow> int \<Rightarrow> string \<Rightarrow> string \<Rightarrow> string \<Rightarrow> string \<Rightarrow> string \<Rightarrow> string \<Rightarrow> string \<Rightarrow> train option" where
  "Train tid snum seats stas prices start travel stopover sale ty =
     do { tid' \<leftarrow> strcpy 22 tid;
          ps \<leftarrow> price_loop (all_tokens (Command_of_string prices CHR ''|'')) 1 [0 \<mapsto> 0, 1 \<mapsto> 0];
          st \<leftarrow> station_loop (all_tokens (Command_of_string stas CHR ''|'')) 0 (\<lambda>i. None);
          t0 \<leftarrow> TimeType_of_string (''06-01 '' @ start);
          let (d1, c3) = next_token (Command_of_string sale CHR ''|'');
          sale1 \<leftarrow> TimeType_of_string (d1 @ '' 00:00'');
          sale2 \<leftarrow> TimeType_of_string (fst (next_token c3) @ '' 00:00'');
          (c4, arr, lea) \<leftarrow> times_loop 1 snum (Command_of_string travel CHR ''|'')
             (Command_of_string stopover CHR ''|'') (no_times(1 \<mapsto> 0)) (no_times(1 \<mapsto> t0));
          x \<leftarrow> array_read lea (snum - 1);
          arr' \<leftarrow> array_write arr snum (time_add x (string_to_int (fst (next_token c4))));
          lea' \<leftarrow> array_write lea snum MAX_INT;
          Some \<lparr>train_ID = tid', stations = st, station_num = snum, total_seat_num = seats,
                start_time = t0, arriving_times = arr', leaving_times = lea',
                start_sale_date = sale1, end_sale_date = sale2,
                train_type = (if ty = [] then CHR 0x00 else hd ty), is_released = False, price_sum = ps\<rparr> }"

section \<open>Stations and tickets\<close>

record station =
  st_train_ID :: string
  station_name :: string
  start_sale_time :: time_type
  end_sale_time :: time_type
  arriving_time :: time_type
  leaving_time :: time_type
  st_price_sum :: int
  st_index :: int

definition Station ::
    "string \<Rightarrow> string \<Rightarrow> int \<Rightarrow> time_type \<Rightarrow> time_type \<Rightarrow> time_type \<Rightarrow> time_type \<Rightarrow> int \<Rightarrow> station option" where
  "Station tid nm price sale1 sale2 arr lea i =
     do { a \<leftarrow> strcpy 22 tid; b \<leftarrow> strcpy 32 nm;
          Some \<lparr>st_train_ID = a, station_name = b, start_sale_time = sale1, end_sale_time = sale2,
                arriving_time = arr, leaving_time = lea, st_price_sum = price, st_index = i\<rparr> }"

record ticket =
  ticket_s :: station
  ticket_t :: station

definition ticket_cost :: "ticket \<Rightarrow> int" where
  "ticket_cost tk = int32 (st_price_sum (ticket_t tk) - st_price_sum (ticket_s tk))"

definition ticket_time :: "ticket \<Rightarrow> int" where
  "ticket_time tk = time_sub (arriving_time (ticket_t tk)) (leaving_time (ticket_s tk))"

section \<open>The seats of a day\<close>

record day_train =
  seat_num :: "int carray"

function modify_loop :: "int \<Rightarrow> int \<Rightarrow> int \<Rightarrow> int carray \<Rightarrow> int carray option" where
  "modify_loop i r val a =
     (if i \<le> r then
        do { x \<leftarrow> array_read a i; a' \<leftarrow> array_write a i (int32 (x + val)); modify_loop (i + 1) r val a' }
      else Some a)"
  by pat_completeness auto
termination
  by (relation "measure (\<lambda>(i, r, val, a). nat (r + 1 - i))") auto

function query_loop :: "int \<Rightarrow> int \<Rightarrow> int \<Rightarrow> int carray \<Rightarrow> int option" where
  "query_loop i r ans a =
     (if i \<le> r then do { x \<leftarrow> array_read a i; query_loop (i + 1) r (min ans x) a }
      else Some ans)"
  by pat_completeness auto
termination
  by (relation "measure (\<lambda>(i, r, ans, a). nat (r + 1 - i))") auto

declare modify_loop.simps [simp del] query_loop.simps [simp del]

definition modify_seat :: "int \<Rightarrow> int \<Rightarrow> int \<Rightarrow> day_train \<Rightarrow> day_train option" where
  "modify_seat l r val d = map_option (\<lambda>a. d\<lparr>seat_num := a\<rparr>) (modify_loop l r val (seat_num d))"

definition query_seat :: "int \<Rightarrow> int \<Rightarrow> day_train \<Rightarrow> int option" where
  "query_seat l r d = query_loop l r MAX_INT (seat_num d)"

section \<open>Orders\<close>

datatype status = success | pending | refunded

record order =
  order_user :: string
  order_train :: string
  order_qty :: int
  order_price :: int
  order_ID :: int
  order_day :: time_type
  order_leaving :: time_type
  order_arriving :: time_type
  order_status :: status
  order_from :: int
  order_to :: int
  from_station :: string
  to_station :: string

definition Order ::
    "string \<Rightarrow> string \<Rightarrow> int \<Rightarrow> int \<Rightarrow> int \<Rightarrow> time_type \<Rightarrow> time_type \<Rightarrow> time_type \<Rightarrow> status \<Rightarrow>
     int \<Rightarrow> int \<Rightarrow> string \<Rightarrow> string \<Rightarrow> order option" where
  "Order usr tid n pr oid day lea arr sts f t fs ts =
     do { a \<leftarrow> strcpy 22 usr; b \<leftarrow> strcpy 22 tid; c \<leftarrow> strcpy 32 fs; d \<leftarrow> strcpy 32 ts;
          Some \<lparr>order_user = a, order_train = b, order_qty = n, order_price = pr, order_ID = oid,
                order_day = day, order_leaving = lea, order_arriving = arr, order_status = sts,
                order_from = f, order_to = t, from_station = c, to_station = d\<rparr> }"

record pending_order =
  pend_train :: string
  pend_user :: string
  pend_day :: time_type
  pend_qty :: int
  pend_from :: int
  pend_to :: int
  pend_ID :: int

definition PendingOrder ::
    "string \<Rightarrow> string \<Rightarrow> time_type \<Rightarrow> int \<Rightarrow> int \<Rightarrow> int \<Rightarrow> int \<Rightarrow> pending_order option" where
  "PendingOrder tid usr day n f t oid =
     do { a \<leftarrow> strcpy 22 tid; b \<leftarrow> strcpy 22 usr;
          Some \<lparr>pend_train = a, pend_user = b, pend_day = day, pend_qty = n, pend_from = f,
                pend_to = t, pend_ID = oid\<rparr> }"

section \<open>Closed forms of the seat loops\<close>

lemma modify_loop_eq:
  assumes "0 \<le> l" "r < maxn" "\<And>i. l \<le> i \<Longrightarrow> i \<le> r \<Longrightarrow> a i \<noteq> None"
  shows "modify_loop l r val a = Some (\<lambda>i. if l \<le> i \<and> i \<le> r then map_option (\<lambda>x. int32 (x + val)) (a i) else a i)"
  using assms
proof (induction l r val a rule: modify_loop.induct)
  case (1 i r val a)
  show ?case
  proof (cases "i \<le> r")
    case True
    then obtain x where x: "a i = Some x" using 1(4) [of i] by auto
    let ?a' = "a(i \<mapsto> int32 (x + val))"
    have rw: "array_read a i = Some x" "array_write a i (int32 (x + val)) = Some ?a'"
      using True x 1(2,3) by (simp_all add: array_read_def array_write_def)
    have "modify_loop (i + 1) r val ?a' =
        Some (\<lambda>j. if i + 1 \<le> j \<and> j \<le> r then map_option (\<lambda>x. int32 (x + val)) (?a' j) else ?a' j)"
      by (rule 1(1) [OF True rw]) (use 1(2-4) in auto)
    then show ?thesis
      using True rw x by (simp add: modify_loop.simps [of i] fun_eq_iff)
  next
    case False
    then have "(i \<le> j \<and> j \<le> r) = False" for j by auto
    then show ?thesis using False by (simp only: modify_loop.simps [of i] if_False)
  qed
qed

lemma Min_insert_min: "finite S \<Longrightarrow> Min (insert (min u v) S) = Min (insert u (insert v S))" for u v :: int
  by (cases "S = {}") (simp_all add: min.assoc)

lemma query_loop_eq:
  assumes "0 \<le> l" "r < maxn" "\<And>i. l \<le> i \<Longrightarrow> i \<le> r \<Longrightarrow> a i \<noteq> None"
  shows "query_loop l r ans a = Some (Min (insert ans ((\<lambda>i. the (a i)) ` {l..r})))"
  using assms
proof (induction l r ans a rule: query_loop.induct)
  case (1 i r ans a)
  show ?case
  proof (cases "i \<le> r")
    case True
    then obtain x where x: "a i = Some x" using 1(4) [of i] by auto
    have rw: "array_read a i = Some x" using True x 1(2,3) by (simp add: array_read_def)
    let ?S = "(\<lambda>j. the (a j)) ` {i + 1..r}"
    have "{i..r} = insert i {i + 1..r}" using True by auto
    then have S: "(\<lambda>j. the (a j)) ` {i..r} = insert x ?S" using x by simp
    have "query_loop (i + 1) r (min ans x) a = Some (Min (insert (min ans x) ?S))"
      by (rule 1(1) [OF True rw]) (use 1(2-4) in auto)
    moreover have "Min (insert (min ans x) ?S) = Min (insert ans (insert x ?S))"
      by (rule Min_insert_min) simp
    ultimately show ?thesis using True rw S by (simp add: query_loop.simps [of i])
  qed (simp add: query_loop.simps)
qed

text \<open>The fact about \<^verbatim>\<open>query_seat\<close> the guards of the handlers rely on.\<close>

lemma query_loop_le: "query_loop l r ans a = Some q \<Longrightarrow> q \<le> ans"
proof (induction l r ans a rule: query_loop.induct)
  case (1 l r ans a)
  then show ?case by (force simp: query_loop.simps [of l] bind_Some_iff split: if_splits)
qed

lemma query_loop_min:
  "query_loop l r ans a = Some q \<Longrightarrow> l \<le> i \<Longrightarrow> i \<le> r \<Longrightarrow> \<exists>x. array_read a i = Some x \<and> q \<le> x"
proof (induction l r ans a arbitrary: i rule: query_loop.induct)
  case (1 l r ans a)
  have lr: "l \<le> r" using 1(3,4) by simp
  then obtain x where x: "array_read a l = Some x" "query_loop (l + 1) r (min ans x) a = Some q"
    using 1(2) by (auto simp: query_loop.simps [of l] bind_Some_iff)
  show ?case
  proof (cases "i = l")
    case True
    then show ?thesis using x(1) query_loop_le [OF x(2)] by simp
  next
    case False
    then show ?thesis using 1(1) [OF lr x(1) x(2), of i] 1(3,4) by simp
  qed
qed

lemma query_seat_le:
  "query_seat l r d = Some q \<Longrightarrow> l \<le> i \<Longrightarrow> i \<le> r \<Longrightarrow> \<exists>x. array_read (seat_num d) i = Some x \<and> q \<le> x"
  unfolding query_seat_def by (rule query_loop_min)

end
