(* ===== verification/QuickSort.thy ===== *)
theory QuickSort
  imports Prelude
begin

text \<open>
  \<^verbatim>\<open>Sort\<close> of \<^verbatim>\<open>backend/src/Management.cpp\<close>: quicksort with Hoare's partition, once over a C array
  and once over a \<^verbatim>\<open>vector\<close>; the two bodies are the same text. An access outside the list is
  \<open>None\<close>. The scans of the partition rely on a sentinel, which a comparison that is not a strict
  weak order need not provide; \<open>strict_weak\<close> is that contract, and under it the sort returns, and
  what it returns is ordered and a permutation that leaves the rest of the array alone.
\<close>

section \<open>The code\<close>

function left_scan :: "('a \<Rightarrow> 'a \<Rightarrow> bool) \<Rightarrow> 'a list \<Rightarrow> 'a \<Rightarrow> int \<Rightarrow> int option" where
  "left_scan lt a mid pl =
     (case slot a pl of None \<Rightarrow> None
      | Some x \<Rightarrow> if lt x mid then left_scan lt a mid (pl + 1) else Some pl)"
  by pat_completeness auto
termination
  by (relation "measure (\<lambda>(lt, a, mid, pl). nat (int (length a) - pl))") (auto simp: slot_def split: if_splits)

function right_scan :: "('a \<Rightarrow> 'a \<Rightarrow> bool) \<Rightarrow> 'a list \<Rightarrow> 'a \<Rightarrow> int \<Rightarrow> int option" where
  "right_scan lt a mid pr =
     (case slot a pr of None \<Rightarrow> None
      | Some x \<Rightarrow> if lt mid x then right_scan lt a mid (pr - 1) else Some pr)"
  by pat_completeness auto
termination
  by (relation "measure (\<lambda>(lt, a, mid, pr). nat (pr + 1))") (auto simp: slot_def split: if_splits)

declare left_scan.simps [simp del] right_scan.simps [simp del]

lemma left_scan_ge: "left_scan lt a mid pl = Some i \<Longrightarrow> pl \<le> i"
proof (induction lt a mid pl rule: left_scan.induct)
  case (1 lt a mid pl)
  then show ?case by (fastforce simp: left_scan.simps [of lt a mid pl] split: option.splits if_splits)
qed

lemma right_scan_le: "right_scan lt a mid pr = Some i \<Longrightarrow> i \<le> pr"
proof (induction lt a mid pr rule: right_scan.induct)
  case (1 lt a mid pr)
  then show ?case by (fastforce simp: right_scan.simps [of lt a mid pr] split: option.splits if_splits)
qed

function partition_loop ::
    "('a \<Rightarrow> 'a \<Rightarrow> bool) \<Rightarrow> 'a \<Rightarrow> 'a list \<Rightarrow> int \<Rightarrow> int \<Rightarrow> ('a list \<times> int \<times> int) option" where
  "partition_loop lt mid a pl pr =
     (if pl \<le> pr then
        (case left_scan lt a mid pl of None \<Rightarrow> None
         | Some i \<Rightarrow>
           (case right_scan lt a mid pr of None \<Rightarrow> None
            | Some j \<Rightarrow>
              if i \<le> j then partition_loop lt mid (swap_slots a (nat i) (nat j)) (i + 1) (j - 1)
              else partition_loop lt mid a i j))
      else Some (a, pl, pr))"
  by pat_completeness auto
termination
proof (relation "measure (\<lambda>(lt, mid, a, pl, pr). nat (pr - pl + 1))", goal_cases)
  case (2 lt mid a pl pr i j)
  then show ?case using left_scan_ge [OF 2(2)] right_scan_le [OF 2(3)] by simp
next
  case (3 lt mid a pl pr i j)
  then show ?case by simp
qed simp

declare partition_loop.simps [simp del]

partial_function (option) Sort ::
    "('a \<Rightarrow> 'a \<Rightarrow> bool) \<Rightarrow> 'a list \<Rightarrow> int \<Rightarrow> int \<Rightarrow> 'a list option" where
  "Sort lt a l r =
     (if l \<ge> r then Some a
      else do {
        mid_val \<leftarrow> slot a ((l + r) div 2);
        (a1, pl, pr) \<leftarrow> partition_loop lt mid_val a l r;
        a2 \<leftarrow> (if l < pr then Sort lt a1 l pr else Some a1);
        if pl < r then Sort lt a2 pl r else Some a2 })"

declare Sort.simps [code]

section \<open>Rearranging a segment\<close>

definition elem :: "'a list \<Rightarrow> int \<Rightarrow> 'a" where
  "elem a i = a ! nat i"

definition rearranged :: "int \<Rightarrow> int \<Rightarrow> 'a list \<Rightarrow> 'a list \<Rightarrow> bool" where
  "rearranged l r a b \<longleftrightarrow> mset b = mset a \<and> length b = length a \<and>
     (\<forall>i. 0 \<le> i \<and> (i < l \<or> r < i) \<longrightarrow> elem b i = elem a i) \<and>
     elem b ` {l..r} = elem a ` {l..r}"

lemma rearranged_refl [simp]: "rearranged l r a a"
  by (simp add: rearranged_def)

lemma rearranged_trans: "rearranged l r a b \<Longrightarrow> rearranged l r b c \<Longrightarrow> rearranged l r a c"
  by (auto simp: rearranged_def)

lemma rearranged_len: "rearranged l r a b \<Longrightarrow> length b = length a"
  by (simp add: rearranged_def)

lemma rearranged_outside: "rearranged l r a b \<Longrightarrow> 0 \<le> i \<Longrightarrow> i < l \<or> r < i \<Longrightarrow> elem b i = elem a i"
  by (simp add: rearranged_def)

lemma rearranged_all:
  assumes "rearranged l r a b" "\<And>i. l \<le> i \<Longrightarrow> i \<le> r \<Longrightarrow> P (elem a i)" "l \<le> i" "i \<le> r"
  shows "P (elem b i)"
proof -
  have "elem b i \<in> elem a ` {l..r}" using assms(1,3,4) by (auto simp: rearranged_def)
  then show ?thesis using assms(2) by auto
qed

lemma rearranged_wider:
  assumes "rearranged l' r' a b" "l \<le> l'" "r' \<le> r" "0 \<le> l"
  shows "rearranged l r a b"
proof -
  have mid: "elem b ` {l'..r'} = elem a ` {l'..r'}" using assms(1) by (simp add: rearranged_def)
  have out: "elem b i = elem a i" if "0 \<le> i" "i < l' \<or> r' < i" for i using assms(1) that by (simp add: rearranged_def)
  let ?D = "{l..r} \<inter> {i. i < l' \<or> r' < i}"
  have split: "{l..r} = ?D \<union> {l'..r'}" using assms(2,3) by auto
  have "elem b ` ?D = elem a ` ?D" using out assms(4) by (intro image_cong) auto
  then have "elem b ` (?D \<union> {l'..r'}) = elem a ` (?D \<union> {l'..r'})" unfolding image_Un mid by simp
  then have "elem b ` {l..r} = elem a ` {l..r}" by (rule ssubst [OF split, of "\<lambda>X. elem b ` X = elem a ` X"])
  then show ?thesis using assms by (auto simp: rearranged_def)
qed

lemma elem_swap:
  assumes "0 \<le> i" "i < int (length a)" "0 \<le> j" "j < int (length a)" "0 \<le> k"
  shows "elem (swap_slots a (nat i) (nat j)) k = (if k = j then elem a i else if k = i then elem a j else elem a k)"
  using assms by (auto simp: elem_def swap_slots_def nth_list_update)

lemma rearranged_swap:
  assumes "0 \<le> l" "l \<le> i" "i \<le> j" "j \<le> r" "r < int (length a)"
  shows "rearranged l r a (swap_slots a (nat i) (nat j))"
proof -
  have e: "elem (swap_slots a (nat i) (nat j)) k = (if k = j then elem a i else if k = i then elem a j else elem a k)"
    if "0 \<le> k" for k using elem_swap [of i a j k] assms that by simp
  have "elem (swap_slots a (nat i) (nat j)) ` {l..r} = elem a ` {l..r}"
  proof (intro set_eqI iffI)
    fix x assume "x \<in> elem (swap_slots a (nat i) (nat j)) ` {l..r}"
    then show "x \<in> elem a ` {l..r}" using e assms by (auto split: if_splits)
  next
    fix x assume "x \<in> elem a ` {l..r}"
    then obtain k where k: "x = elem a k" "l \<le> k" "k \<le> r" by auto
    then have "x = elem (swap_slots a (nat i) (nat j)) (if k = i then j else if k = j then i else k)"
      using e assms by auto
    moreover have "(if k = i then j else if k = j then i else k) \<in> {l..r}" using k assms by auto
    ultimately show "x \<in> elem (swap_slots a (nat i) (nat j)) ` {l..r}" by blast
  qed
  moreover have "mset (swap_slots a (nat i) (nat j)) = mset a"
    using assms mset_swap [of "nat j" a "nat i"] by (simp add: swap_slots_def nat_less_iff)
  ultimately show ?thesis using e assms by (auto simp: rearranged_def)
qed

section \<open>The contract of a comparison and the sort\<close>

locale strict_weak =
  fixes lt :: "'a \<Rightarrow> 'a \<Rightarrow> bool"
  assumes lt_irrefl: "\<not> lt x x"
    and lt_trans: "lt x y \<Longrightarrow> lt y z \<Longrightarrow> lt x z"
    and lt_weak: "lt x z \<Longrightarrow> lt x y \<or> lt y z"
begin

lemma left_scan_ok:
  assumes "0 \<le> pl" "pl \<le> s" "s < int (length a)" "\<not> lt (elem a s) mid"
  shows "\<exists>i. left_scan lt a mid pl = Some i \<and> pl \<le> i \<and> i \<le> s \<and> \<not> lt (elem a i) mid \<and>
     (\<forall>k. pl \<le> k \<and> k < i \<longrightarrow> lt (elem a k) mid)"
  using assms
proof (induction lt a mid pl rule: left_scan.induct)
  case (1 lt a mid pl)
  have sl: "slot a pl = Some (elem a pl)" using "1.prems" by (simp add: slot_def elem_def)
  show ?case
  proof (cases "lt (elem a pl) mid")
    case True
    then have "pl \<noteq> s" using "1.prems" by auto
    then obtain i where i: "left_scan lt a mid (pl + 1) = Some i" "pl + 1 \<le> i" "i \<le> s" "\<not> lt (elem a i) mid"
      "\<forall>k. pl + 1 \<le> k \<and> k < i \<longrightarrow> lt (elem a k) mid"
      using "1.IH" [OF sl True] "1.prems" by auto
    then have "lt (elem a k) mid" if "pl \<le> k" "k < i" for k using that True by (cases "k = pl") auto
    then show ?thesis using True sl i by (intro exI [of _ i]) (simp add: left_scan.simps [of lt a mid pl])
  next
    case False
    then show ?thesis using sl "1.prems" by (auto simp: left_scan.simps [of lt a mid pl])
  qed
qed

lemma right_scan_ok:
  assumes "0 \<le> s" "s \<le> pr" "pr < int (length a)" "\<not> lt mid (elem a s)"
  shows "\<exists>i. right_scan lt a mid pr = Some i \<and> s \<le> i \<and> i \<le> pr \<and> \<not> lt mid (elem a i) \<and>
     (\<forall>k. i < k \<and> k \<le> pr \<longrightarrow> lt mid (elem a k))"
  using assms
proof (induction lt a mid pr rule: right_scan.induct)
  case (1 lt a mid pr)
  have sl: "slot a pr = Some (elem a pr)" using "1.prems" by (simp add: slot_def elem_def)
  show ?case
  proof (cases "lt mid (elem a pr)")
    case True
    then have "pr \<noteq> s" using "1.prems" by auto
    then obtain i where i: "right_scan lt a mid (pr - 1) = Some i" "s \<le> i" "i \<le> pr - 1" "\<not> lt mid (elem a i)"
      "\<forall>k. i < k \<and> k \<le> pr - 1 \<longrightarrow> lt mid (elem a k)"
      using "1.IH" [OF sl True] "1.prems" by auto
    then have "lt mid (elem a k)" if "i < k" "k \<le> pr" for k using that True by (cases "k = pr") auto
    then show ?thesis using True sl i by (intro exI [of _ i]) (simp add: right_scan.simps [of lt a mid pr])
  next
    case False
    then show ?thesis using sl "1.prems" by (auto simp: right_scan.simps [of lt a mid pr])
  qed
qed

text \<open>
  The invariant of the partition. As long as the two positions have not crossed, each scan has
  an element to stop at; the first round moves both positions, so the recursive calls are on
  smaller segments.
\<close>

definition part_inv :: "int \<Rightarrow> int \<Rightarrow> 'a \<Rightarrow> 'a list \<Rightarrow> int \<Rightarrow> int \<Rightarrow> bool" where
  "part_inv l r mid a pl pr \<longleftrightarrow> 0 \<le> l \<and> l \<le> pl \<and> pr \<le> r \<and> r < int (length a) \<and>
     (\<forall>i. l \<le> i \<and> i < pl \<longrightarrow> \<not> lt mid (elem a i)) \<and> (\<forall>i. pr < i \<and> i \<le> r \<longrightarrow> \<not> lt (elem a i) mid) \<and>
     (pl \<le> pr \<longrightarrow> (\<exists>i. pl \<le> i \<and> i \<le> r \<and> \<not> lt (elem a i) mid) \<and> (\<exists>i. l \<le> i \<and> i \<le> pr \<and> \<not> lt mid (elem a i))) \<and>
     ((\<exists>m. pl \<le> m \<and> m \<le> pr \<and> elem a m = mid) \<or> l < pl \<and> pr < r)"

lemma lt_asym: "lt x y \<Longrightarrow> \<not> lt y x"
  using lt_irrefl lt_trans by blast

lemma part_inv_scan:
  assumes "part_inv l r mid a pl pr" "pl \<le> pr"
  obtains i j where "left_scan lt a mid pl = Some i" "right_scan lt a mid pr = Some j" "pl \<le> i" "j \<le> pr"
    "i \<le> r" "l \<le> j" "\<not> lt (elem a i) mid" "\<not> lt mid (elem a j)"
    "\<forall>k. pl \<le> k \<and> k < i \<longrightarrow> lt (elem a k) mid" "\<forall>k. j < k \<and> k \<le> pr \<longrightarrow> lt mid (elem a k)"
    "i \<le> j \<or> l < pl \<and> pr < r"
proof -
  obtain s1 s2 where s: "pl \<le> s1" "s1 \<le> r" "\<not> lt (elem a s1) mid" "l \<le> s2" "s2 \<le> pr" "\<not> lt mid (elem a s2)"
    using assms by (auto simp: part_inv_def)
  have b: "0 \<le> pl" "s1 < int (length a)" "0 \<le> s2" "pr < int (length a)" using assms(1) s by (auto simp: part_inv_def)
  obtain i where i: "left_scan lt a mid pl = Some i" "pl \<le> i" "i \<le> s1" "\<not> lt (elem a i) mid"
    "\<forall>k. pl \<le> k \<and> k < i \<longrightarrow> lt (elem a k) mid" using left_scan_ok [OF b(1) s(1) b(2) s(3)] by auto
  obtain j where j: "right_scan lt a mid pr = Some j" "s2 \<le> j" "j \<le> pr" "\<not> lt mid (elem a j)"
    "\<forall>k. j < k \<and> k \<le> pr \<longrightarrow> lt mid (elem a k)" using right_scan_ok [OF b(3) s(5) b(4) s(6)] by auto
  have "i \<le> j" if m: "pl \<le> m" "m \<le> pr" "elem a m = mid" for m
    using m i(5) j(5) lt_irrefl [of mid] by (metis leI order_trans)
  then have "i \<le> j \<or> l < pl \<and> pr < r" using assms(1) unfolding part_inv_def by blast
  then show thesis using that [OF i(1) j(1) i(2) j(3)] i j s by auto
qed

lemma part_inv_swap:
  assumes inv: "part_inv l r mid a pl pr" and "pl \<le> i" "i \<le> j" "j \<le> pr"
    and "\<not> lt (elem a i) mid" "\<not> lt mid (elem a j)"
    and lo: "\<forall>k. pl \<le> k \<and> k < i \<longrightarrow> lt (elem a k) mid" and hi: "\<forall>k. j < k \<and> k \<le> pr \<longrightarrow> lt mid (elem a k)"
  shows "part_inv l r mid (swap_slots a (nat i) (nat j)) (i + 1) (j - 1)" (is "part_inv l r mid ?b _ _")
proof -
  have bnd: "0 \<le> l" "l \<le> pl" "pr \<le> r" "r < int (length a)" using inv by (simp_all add: part_inv_def)
  have e: "elem ?b k = (if k = j then elem a i else if k = i then elem a j else elem a k)" if "0 \<le> k" for k
    using elem_swap [of i a j k] bnd assms that by simp
  have lo': "\<not> lt mid (elem a k)" if "l \<le> k" "k < i" for k
    using that lo inv lt_asym [of "elem a k" mid] by (cases "k < pl") (auto simp: part_inv_def)
  have hi': "\<not> lt (elem a k) mid" if "j < k" "k \<le> r" for k
    using that hi inv lt_asym [of mid "elem a k"] by (cases "pr < k") (auto simp: part_inv_def)
  have "\<not> lt mid (elem ?b k)" if "l \<le> k" "k < i + 1" for k
    using that lo' [of k] e [of k] assms bnd by (cases "k = i") auto
  moreover have "\<not> lt (elem ?b k) mid" if "j - 1 < k" "k \<le> r" for k
    using that hi' [of k] e [of k] assms bnd by (cases "k = j") auto
  moreover have "\<not> lt (elem ?b j) mid" "\<not> lt mid (elem ?b i)" using e [of i] e [of j] assms bnd by auto
  ultimately show ?thesis
    unfolding part_inv_def using bnd assms(2-4) by (auto intro: exI [of _ j] exI [of _ i])
qed

lemma part_inv_cross:
  assumes inv: "part_inv l r mid a pl pr" and "pl \<le> i" "j < i" "j \<le> pr" "i \<le> r" "l \<le> j"
    and lo: "\<forall>k. pl \<le> k \<and> k < i \<longrightarrow> lt (elem a k) mid" and hi: "\<forall>k. j < k \<and> k \<le> pr \<longrightarrow> lt mid (elem a k)"
    and "l < pl" "pr < r"
  shows "part_inv l r mid a i j"
proof -
  have "\<not> lt mid (elem a k)" if "l \<le> k" "k < i" for k
    using that lo inv lt_asym [of "elem a k" mid] by (cases "k < pl") (auto simp: part_inv_def)
  moreover have "\<not> lt (elem a k) mid" if "j < k" "k \<le> r" for k
    using that hi inv lt_asym [of mid "elem a k"] by (cases "pr < k") (auto simp: part_inv_def)
  ultimately show ?thesis using inv assms(2-6,9,10) by (auto simp: part_inv_def)
qed

lemma partition_ok:
  assumes "part_inv l r mid a pl pr"
  shows "\<exists>b pl' pr'. partition_loop lt mid a pl pr = Some (b, pl', pr') \<and> rearranged l r a b \<and>
     part_inv l r mid b pl' pr' \<and> pr' < pl'"
  using assms
proof (induction "nat (pr - pl + 1)" arbitrary: a pl pr rule: less_induct)
  case less
  show ?case
  proof (cases "pl \<le> pr")
    case False
    then show ?thesis using less.prems by (simp add: partition_loop.simps [of lt mid a pl pr])
  next
    case True
    obtain i j where s: "left_scan lt a mid pl = Some i" "right_scan lt a mid pr = Some j" "pl \<le> i" "j \<le> pr"
      "i \<le> r" "l \<le> j" "\<not> lt (elem a i) mid" "\<not> lt mid (elem a j)"
      "\<forall>k. pl \<le> k \<and> k < i \<longrightarrow> lt (elem a k) mid" "\<forall>k. j < k \<and> k \<le> pr \<longrightarrow> lt mid (elem a k)"
      "i \<le> j \<or> l < pl \<and> pr < r"
      by (rule part_inv_scan [OF less.prems True])
    show ?thesis
    proof (cases "i \<le> j")
      case ij: True
      let ?b = "swap_slots a (nat i) (nat j)"
      have "part_inv l r mid ?b (i + 1) (j - 1)"
        using part_inv_swap [OF less.prems s(3) ij s(4) s(7,8) s(9,10)] by simp
      moreover have "nat (j - 1 - (i + 1) + 1) < nat (pr - pl + 1)" using s ij True by simp
      ultimately obtain b pl' pr' where ih: "partition_loop lt mid ?b (i + 1) (j - 1) = Some (b, pl', pr')"
        "rearranged l r ?b b" "part_inv l r mid b pl' pr'" "pr' < pl'"
        using less.hyps by blast
      have "rearranged l r a ?b"
        using less.prems s ij by (intro rearranged_swap) (auto simp: part_inv_def)
      then show ?thesis
        using ih True s(1,2) ij rearranged_trans by (fastforce simp: partition_loop.simps [of lt mid a pl pr])
    next
      case ij: False
      then have "part_inv l r mid a i j"
        using part_inv_cross [OF less.prems s(3) _ s(4,5,6) s(9,10)] s(11) by auto
      then show ?thesis
        using True s(1,2) ij
        by (simp add: partition_loop.simps [of lt mid a pl pr] partition_loop.simps [of lt mid a i j])
    qed
  qed
qed

definition sorted_on :: "int \<Rightarrow> int \<Rightarrow> 'a list \<Rightarrow> bool" where
  "sorted_on l r a \<longleftrightarrow> (\<forall>i j. l \<le> i \<and> i < j \<and> j \<le> r \<longrightarrow> \<not> lt (elem a j) (elem a i))"

lemma Sort_glue:
  assumes part: "part_inv l r mid a1 pl pr" "pr < pl"
    and left: "rearranged l pr a1 a2" "sorted_on l pr a2"
    and right: "rearranged pl r a2 a3" "sorted_on pl r a3"
  shows "sorted_on l r a3"
proof -
  have bnd: "0 \<le> l" "l \<le> pl" "pr \<le> r" using part by (simp_all add: part_inv_def)
  have lo2: "\<not> lt mid (elem a2 i)" if "l \<le> i" "i < pl" for i
  proof (cases "i \<le> pr")
    case True
    then show ?thesis
      using rearranged_all [OF left(1), of "\<lambda>x. \<not> lt mid x" i] part that by (simp add: part_inv_def)
  next
    case False
    then show ?thesis using rearranged_outside [OF left(1), of i] part that bnd by (simp add: part_inv_def)
  qed
  have hi2: "\<not> lt (elem a2 i) mid" if "pr < i" "i \<le> r" "0 \<le> i" for i
    using rearranged_outside [OF left(1), of i] part that by (simp add: part_inv_def)
  have lo3: "\<not> lt mid (elem a3 i)" if "l \<le> i" "i < pl" for i
    using rearranged_outside [OF right(1), of i] lo2 [OF that] that bnd by simp
  have hi3: "\<not> lt (elem a3 i) mid" if "pr < i" "i \<le> r" "0 \<le> i" for i
  proof (cases "pl \<le> i")
    case True
    then show ?thesis
      using rearranged_all [OF right(1), of "\<lambda>x. \<not> lt x mid" i] hi2 part(2) bnd that by simp
  next
    case False
    then show ?thesis using rearranged_outside [OF right(1), of i] hi2 that by simp
  qed
  show ?thesis
    unfolding sorted_on_def
  proof (intro allI impI)
    fix i j
    assume ij: "l \<le> i \<and> i < j \<and> j \<le> r"
    consider "j \<le> pr" | "pl \<le> i" | "i < pl" "pr < j" using part(2) by linarith
    then show "\<not> lt (elem a3 j) (elem a3 i)"
    proof cases
      case 1
      then show ?thesis
        using left(2) ij rearranged_outside [OF right(1), of i] rearranged_outside [OF right(1), of j] part(2) bnd
        by (simp add: sorted_on_def)
    next
      case 2
      then show ?thesis using right(2) ij by (simp add: sorted_on_def)
    next
      case 3
      then show ?thesis using lo3 [of i] hi3 [of j] ij bnd lt_weak [of "elem a3 j" "elem a3 i" mid] by auto
    qed
  qed
qed

lemma Sort_ok:
  assumes "0 \<le> l" "r < int (length a)"
  shows "\<exists>b. Sort lt a l r = Some b \<and> rearranged l r a b \<and> sorted_on l r b"
  using assms
proof (induction "nat (r - l)" arbitrary: a l r rule: less_induct)
  case less
  show ?case
  proof (cases "r \<le> l")
    case True
    then show ?thesis by (auto simp: Sort.simps [of lt a l r] sorted_on_def)
  next
    case False
    define m where "m = (l + r) div 2"
    have m: "l \<le> m" "m \<le> r" using False by (simp_all add: m_def)
    have sl: "slot a m = Some (elem a m)" using m less.prems by (simp add: slot_def elem_def)
    have "part_inv l r (elem a m) a l r"
      using m less.prems lt_irrefl [of "elem a m"] by (auto simp: part_inv_def intro: exI [of _ m])
    then obtain a1 pl pr where p: "partition_loop lt (elem a m) a l r = Some (a1, pl, pr)" "rearranged l r a a1"
      "part_inv l r (elem a m) a1 pl pr" "pr < pl"
      using partition_ok by blast
    have b: "l < pl" "pr < r" "length a1 = length a" using p rearranged_len [OF p(2)] by (auto simp: part_inv_def)
    have "\<exists>a2. (if l < pr then Sort lt a1 l pr else Some a1) = Some a2 \<and> rearranged l pr a1 a2 \<and> sorted_on l pr a2"
      using less.hyps [of pr l a1] less.prems b False by (cases "l < pr") (auto simp: sorted_on_def)
    then obtain a2 where a2: "(if l < pr then Sort lt a1 l pr else Some a1) = Some a2" "rearranged l pr a1 a2"
      "sorted_on l pr a2" by blast
    have "\<exists>a3. (if pl < r then Sort lt a2 pl r else Some a2) = Some a3 \<and> rearranged pl r a2 a3 \<and> sorted_on pl r a3"
      using less.hyps [of r pl a2] less.prems b False rearranged_len [OF a2(2)]
      by (cases "pl < r") (auto simp: sorted_on_def)
    then obtain a3 where a3: "(if pl < r then Sort lt a2 pl r else Some a2) = Some a3" "rearranged pl r a2 a3"
      "sorted_on pl r a3" by blast
    have "Sort lt a l r = Some a3"
      using False sl p(1) a2(1) a3(1) by (simp add: Sort.simps [of lt a l r] m_def)
    moreover have "rearranged l r a a3"
      using p(2) rearranged_wider [OF a2(2), of l r] rearranged_wider [OF a3(2), of l r] b less.prems
      by (meson order.refl less_imp_le rearranged_trans)
    ultimately show ?thesis using Sort_glue [OF p(3,4) a2(2,3) a3(2,3)] by blast
  qed
qed

text \<open>The whole of a list.\<close>

lemma Sort_list:
  "\<exists>b. Sort lt a 0 (int (length a) - 1) = Some b \<and> mset b = mset a \<and> sorted_wrt (\<lambda>x y. \<not> lt y x) b"
proof -
  obtain b where b: "Sort lt a 0 (int (length a) - 1) = Some b" "rearranged 0 (int (length a) - 1) a b"
    "sorted_on 0 (int (length a) - 1) b" using Sort_ok [of 0 "int (length a) - 1" a] by auto
  have "\<not> lt (b ! j) (b ! i)" if "i < j" "j < length b" for i j
    using b(3) [unfolded sorted_on_def, rule_format, of "int i" "int j"] that rearranged_len [OF b(2)]
    by (simp add: elem_def)
  then show ?thesis using b by (auto simp: rearranged_def sorted_wrt_iff_nth_less)
qed

end

end
