(* ===== verification/Accounts.thy ===== *)
theory Accounts
  imports IndexNTS TrainSystem QuickSort
begin

text \<open>
  \<^verbatim>\<open>AccountManagement\<close> of \<^verbatim>\<open>backend/src/Management.cpp\<close>. The user database is the abstract index
  of \<open>IndexNTS\<close>, which the B+ tree index implements; the login pool, a \<^verbatim>\<open>sjtu::map\<close> from user
  names to privileges, is a map.

  A handler reads its options with the option loop and returns the reply and the new state.
  Local variables without an initialiser are \<open>None\<close> until they are assigned.

  The invariant \<open>accounts_ok\<close> says that a user is stored under its own name, that whoever is
  logged in has an account, and that no privilege exceeds 10.
\<close>

section \<open>State\<close>

record accounts =
  login_pool :: "string \<rightharpoonup> int"
  user_database :: "(key_string, user) table"

section \<open>add_user\<close>

record user_options =
  uo_cur :: string
  uo_username :: string
  uo_password :: string
  uo_name :: string
  uo_mail :: string
  uo_privilege :: "int option"

definition user_option :: "string \<Rightarrow> string \<Rightarrow> user_options \<Rightarrow> user_options" where
  "user_option opt v o' =
     (if opt = ''-c'' then o'\<lparr>uo_cur := v\<rparr>
      else if opt = ''-u'' then o'\<lparr>uo_username := v\<rparr>
      else if opt = ''-p'' then o'\<lparr>uo_password := v\<rparr>
      else if opt = ''-n'' then o'\<lparr>uo_name := v\<rparr>
      else if opt = ''-m'' then o'\<lparr>uo_mail := v\<rparr>
      else o'\<lparr>uo_privilege := Some (string_to_int v)\<rparr>)"

definition no_user_options :: "int option \<Rightarrow> user_options" where
  "no_user_options p =
     \<lparr>uo_cur = [], uo_username = [], uo_password = [], uo_name = [], uo_mail = [], uo_privilege = p\<rparr>"

text \<open>
  The conditions of the source, left to right: the short-circuit \<^verbatim>\<open>||\<close> reads the privilege only
  when the caller is logged in.
\<close>

definition add_user_allowed :: "user_options \<Rightarrow> user list \<Rightarrow> accounts \<Rightarrow> bool option" where
  "add_user_allowed o' ans ac =
     (case login_pool ac (uo_cur o') of
        None \<Rightarrow> Some False
      | Some p \<Rightarrow> do { new \<leftarrow> uo_privilege o'; Some (\<not> p \<le> new \<and> ans = []) })"

definition add_user_run :: "user_options \<Rightarrow> accounts \<Rightarrow> (string \<times> accounts) option" where
  "add_user_run o' ac =
     do { key \<leftarrow> String_SetValue 24 (uo_username o');
          let ans = table_SearchKey key (user_database ac);
          if table_IsEmpty (user_database ac) then do {
            u \<leftarrow> User (uo_username o') (uo_name o') (uo_mail o') (uo_password o') 10;
            Some (''0'', ac\<lparr>user_database := table_InsertEntry StringComparator key u (user_database ac)\<rparr>) }
          else do {
            allowed \<leftarrow> add_user_allowed o' ans ac;
            if \<not> allowed then Some (''-1'', ac)
            else do {
              p \<leftarrow> uo_privilege o';
              u \<leftarrow> User (uo_username o') (uo_name o') (uo_mail o') (uo_password o') p;
              Some (''0'', ac\<lparr>user_database := table_InsertEntry StringComparator key u (user_database ac)\<rparr>) } } }"

definition add_user :: "command \<Rightarrow> accounts \<Rightarrow> (string \<times> accounts) option" where
  "add_user line ac = add_user_run (parse_options (\<lambda>opt. True) user_option (no_user_options None) line) ac"

section \<open>login and logout\<close>

definition login_option :: "string \<Rightarrow> string \<Rightarrow> string \<times> string \<Rightarrow> string \<times> string" where
  "login_option opt v o' = (if opt = ''-u'' then (v, snd o') else (fst o', v))"

definition login_run :: "string \<Rightarrow> string \<Rightarrow> accounts \<Rightarrow> (string \<times> accounts) option" where
  "login_run username pw ac =
     do { key \<leftarrow> String_SetValue 24 username;
          (case table_SearchKey key (user_database ac) of
             [] \<Rightarrow> Some (''-1'', ac)
           | u # us \<Rightarrow>
               if login_pool ac username \<noteq> None then Some (''-1'', ac)
               else if strcmp (password u) (cstr pw) \<noteq> 0 then Some (''-1'', ac)
               else Some (''0'', ac\<lparr>login_pool := (login_pool ac)(username \<mapsto> privilege u)\<rparr>)) }"

definition login :: "command \<Rightarrow> accounts \<Rightarrow> (string \<times> accounts) option" where
  "login line ac =
     (let (username, pw) = parse_options (\<lambda>opt. True) login_option ([], []) line in login_run username pw ac)"

definition logout :: "command \<Rightarrow> accounts \<Rightarrow> (string \<times> accounts) option" where
  "logout line ac =
     (let (opt, line1) = next_token line; (username, line2) = next_token line1
      in if login_pool ac username = None then Some (''-1'', ac)
         else Some (''0'', ac\<lparr>login_pool := (login_pool ac)(username := None)\<rparr>))"

section \<open>Profiles\<close>

definition profile_string :: "user \<Rightarrow> string" where
  "profile_string u =
     user_name u @ '' '' @ real_name u @ '' '' @ mail_addr u @ '' '' @ to_string (privilege u)"

text \<open>\<^verbatim>\<open>!login_pool.count(cur) || (login_pool.at(cur) <= u.privilege) && (cur != username)\<close>\<close>

definition profile_denied :: "string \<Rightarrow> string \<Rightarrow> user \<Rightarrow> accounts \<Rightarrow> bool" where
  "profile_denied current username u ac =
     (case login_pool ac current of
        None \<Rightarrow> True
      | Some p \<Rightarrow> p \<le> privilege u \<and> current \<noteq> username)"

definition overwrite :: "nat \<Rightarrow> string \<Rightarrow> string \<Rightarrow> string option" where
  "overwrite n new old = (if new \<noteq> [] then strcpy n new else Some old)"

definition modify_profile_run :: "user_options \<Rightarrow> accounts \<Rightarrow> (string \<times> accounts) option" where
  "modify_profile_run o' ac =
     do { key \<leftarrow> String_SetValue 24 (uo_username o');
          (case table_SearchKey key (user_database ac) of
             [] \<Rightarrow> Some (''-1'', ac)
           | u # us \<Rightarrow> do {
               new \<leftarrow> uo_privilege o';
               if profile_denied (uo_cur o') (uo_username o') u ac \<or> new \<ge> the (login_pool ac (uo_cur o'))
               then Some (''-1'', ac)
               else do {
                 pw \<leftarrow> overwrite 32 (uo_password o') (password u);
                 nm \<leftarrow> overwrite 32 (uo_name o') (real_name u);
                 ml \<leftarrow> overwrite 32 (uo_mail o') (mail_addr u);
                 let u' = u\<lparr>password := pw, real_name := nm, mail_addr := ml,
                            privilege := (if new \<noteq> 0 then new else privilege u)\<rparr>;
                 Some (profile_string u',
                       ac\<lparr>user_database := table_InsertEntry StringComparator key u' (user_database ac)\<rparr>) } }) }"

definition modify_profile :: "command \<Rightarrow> accounts \<Rightarrow> (string \<times> accounts) option" where
  "modify_profile line ac =
     modify_profile_run (parse_options (\<lambda>opt. True) user_option (no_user_options (Some 0)) line) ac"

definition query_option :: "string \<Rightarrow> string \<Rightarrow> string \<times> string \<Rightarrow> string \<times> string" where
  "query_option opt v o' = (if opt = ''-c'' then (v, snd o') else (fst o', v))"

definition query_profile :: "command \<Rightarrow> accounts \<Rightarrow> (string \<times> accounts) option" where
  "query_profile line ac =
     (let (current, username) = parse_options (\<lambda>opt. True) query_option ([], []) line
      in do { key \<leftarrow> String_SetValue 24 username;
              (case table_SearchKey key (user_database ac) of
                 [] \<Rightarrow> Some (''-1'', ac)
               | u # us \<Rightarrow>
                   if profile_denied current username u ac then Some (''-1'', ac)
                   else Some (profile_string u, ac)) })"

section \<open>The invariant\<close>

definition accounts_ok :: "accounts \<Rightarrow> bool" where
  "accounts_ok ac \<longleftrightarrow> table_ok StringComparator (user_database ac) \<and>
     (\<forall>k u. table_map (user_database ac) k = Some u \<longrightarrow> user_name u = k \<and> privilege u \<le> 10) \<and>
     (\<forall>x p. login_pool ac x = Some p \<longrightarrow> table_map (user_database ac) (cstr x) \<noteq> None \<and> p \<le> 10)"

lemmas option_bind_elims = bind_eq_SomeD [elim_format]

lemma String_SetValue_Some: "String_SetValue n s = Some k \<longleftrightarrow> k = cstr s \<and> length s < n"
  by (auto simp: String_SetValue_def)

text \<open>The account that the options of \<^verbatim>\<open>add_user\<close> describe, with the privilege \<open>p\<close>.\<close>

definition account_of :: "user_options \<Rightarrow> int \<Rightarrow> user" where
  "account_of o' p = \<lparr>user_name = cstr (uo_username o'), password = cstr (uo_password o'), mail_addr = cstr (uo_mail o'),
     real_name = cstr (uo_name o'), privilege = p\<rparr>"

lemma User_Some:
  "User (uo_username o') (uo_name o') (uo_mail o') (uo_password o') p = Some u \<Longrightarrow> u = account_of o' p"
  by (auto simp: User_def account_of_def bind_Some_iff dest!: strcpy_len)

lemma account_of_fields [simp]: "user_name (account_of o' p) = cstr (uo_username o')" "privilege (account_of o' p) = p"
  by (simp_all add: account_of_def)

lemma accounts_ok_insert:
  assumes "accounts_ok ac" "user_name u = k" "privilege u \<le> 10"
  shows "accounts_ok (ac\<lparr>user_database := table_InsertEntry StringComparator k u (user_database ac)\<rparr>)"
  using assms string_key.table_ok_insert by (auto simp: accounts_ok_def string_key.table_map_insert)

lemma accounts_ok_login:
  assumes "accounts_ok ac" "table_map (user_database ac) (cstr x) \<noteq> None" "p \<le> 10"
  shows "accounts_ok (ac\<lparr>login_pool := (login_pool ac)(x \<mapsto> p)\<rparr>)"
  using assms by (auto simp: accounts_ok_def)

lemma accounts_ok_logout: "accounts_ok ac \<Longrightarrow> accounts_ok (ac\<lparr>login_pool := (login_pool ac)(x := None)\<rparr>)"
  by (auto simp: accounts_ok_def)

text \<open>What a search tells: it has at most one result, and an absent key has none.\<close>

lemma table_SearchKey_cases:
  obtains (absent) "table_map tb k = None" "table_SearchKey k tb = []"
  | (present) v where "table_map tb k = Some v" "table_SearchKey k tb = [v]"
  by (cases "table_map tb k") (auto simp: table_SearchKey_def)

text \<open>
  The outcomes of \<^verbatim>\<open>add_user\<close>: the first user is stored with privilege 10, a later one with the
  requested privilege, below the one of the caller; otherwise the reply is -1 and nothing changes.
\<close>

lemma add_user_run_cases:
  assumes "add_user_run o' ac = Some (r, ac')"
  obtains (refused) "r = ''-1''" "ac' = ac" "\<not> table_IsEmpty (user_database ac)"
      "login_pool ac (uo_cur o') = None \<or>
       (\<exists>p q. login_pool ac (uo_cur o') = Some p \<and> uo_privilege o' = Some q \<and>
              (p \<le> q \<or> table_map (user_database ac) (cstr (uo_username o')) \<noteq> None))"
  | (first) "r = ''0''" "table_IsEmpty (user_database ac)"
      "ac' = ac\<lparr>user_database := table_InsertEntry StringComparator (cstr (uo_username o')) (account_of o' 10) (user_database ac)\<rparr>"
  | (added) p q where "r = ''0''" "login_pool ac (uo_cur o') = Some p" "uo_privilege o' = Some q" "q < p"
      "table_map (user_database ac) (cstr (uo_username o')) = None"
      "ac' = ac\<lparr>user_database := table_InsertEntry StringComparator (cstr (uo_username o')) (account_of o' q) (user_database ac)\<rparr>"
      "\<not> table_IsEmpty (user_database ac)"
proof -
  let ?k = "cstr (uo_username o')"
  have k: "String_SetValue 24 (uo_username o') = Some ?k"
    using assms by (auto simp: add_user_run_def bind_Some_iff String_SetValue_Some)
  show thesis
  proof (cases "table_IsEmpty (user_database ac)")
    case True
    then show thesis using assms k first by (auto simp: add_user_run_def bind_Some_iff dest: User_Some)
  next
    case False
    then obtain allowed where al: "add_user_allowed o' (table_SearchKey ?k (user_database ac)) ac = Some allowed"
      using assms k by (auto simp: add_user_run_def bind_Some_iff)
    show thesis
    proof (cases allowed)
      case True
      obtain p q where pq: "login_pool ac (uo_cur o') = Some p" "uo_privilege o' = Some q" "q < p"
        "table_map (user_database ac) ?k = None"
        using al True by (auto simp: add_user_allowed_def bind_Some_iff table_SearchKey_def split: option.splits)
      then show thesis using assms k False al True added by (auto simp: add_user_run_def bind_Some_iff dest: User_Some)
    next
      case not: False
      then have "r = ''-1''" "ac' = ac" using assms k False al by (auto simp: add_user_run_def)
      moreover have "login_pool ac (uo_cur o') = None \<or>
         (\<exists>p q. login_pool ac (uo_cur o') = Some p \<and> uo_privilege o' = Some q \<and>
              (p \<le> q \<or> table_map (user_database ac) ?k \<noteq> None))"
        using al not by (auto simp: add_user_allowed_def bind_Some_iff table_SearchKey_def split: option.splits)
      ultimately show thesis using False refused by blast
    qed
  qed
qed

lemma add_user_ok:
  assumes "accounts_ok ac" "add_user line ac = Some (r, ac')"
  shows "accounts_ok ac'"
  using assms(2) unfolding add_user_def
proof (cases rule: add_user_run_cases)
  case (added p q)
  have "p \<le> 10" using assms(1) added(2) unfolding accounts_ok_def by blast
  then show ?thesis unfolding added(6) using added(4) by (intro accounts_ok_insert [OF assms(1)]) simp_all
next
  case first
  then show ?thesis by (simp add: accounts_ok_insert [OF assms(1)])
qed (use assms(1) in simp)

lemma login_run_cases:
  assumes "login_run username pw ac = Some (r, ac')"
  obtains (refused) "r = ''-1''" "ac' = ac"
      "table_map (user_database ac) (cstr username) = None \<or> login_pool ac username \<noteq> None \<or>
       (\<exists>u. table_map (user_database ac) (cstr username) = Some u \<and> password u \<noteq> cstr pw)"
  | (granted) u where "r = ''0''" "table_map (user_database ac) (cstr username) = Some u"
      "login_pool ac username = None" "password u = cstr pw"
      "ac' = ac\<lparr>login_pool := (login_pool ac)(username \<mapsto> privilege u)\<rparr>"
proof -
  have k: "String_SetValue 24 username = Some (cstr username)"
    using assms by (auto simp: login_run_def bind_Some_iff String_SetValue_Some)
  show thesis
  proof (cases rule: table_SearchKey_cases [of "user_database ac" "cstr username"])
    case absent
    then show thesis using assms k refused by (simp add: login_run_def)
  next
    case (present u)
    then show thesis
      using assms k refused granted [OF _ present(1)] by (simp add: login_run_def split: if_splits)
  qed
qed

lemma login_ok:
  assumes "accounts_ok ac" "login line ac = Some (r, ac')"
  shows "accounts_ok ac'"
proof -
  obtain username pw where l: "login_run username pw ac = Some (r, ac')"
    using assms(2) by (auto simp: login_def split: prod.splits)
  then show ?thesis
  proof (cases rule: login_run_cases)
    case (granted u)
    then show ?thesis using assms(1) by (auto simp: accounts_ok_def)
  qed (use assms(1) in simp)
qed

lemma logout_ok: "accounts_ok ac \<Longrightarrow> logout line ac = Some (r, ac') \<Longrightarrow> accounts_ok ac'"
  using accounts_ok_logout by (auto simp: logout_def split: prod.splits if_splits)

text \<open>
  The account after a change of profile: a text that is given replaces the old one, a privilege
  other than 0 too.
\<close>

definition changed_account :: "user_options \<Rightarrow> int \<Rightarrow> user \<Rightarrow> user" where
  "changed_account o' new u = u\<lparr>password := (if uo_password o' \<noteq> [] then cstr (uo_password o') else password u),
     real_name := (if uo_name o' \<noteq> [] then cstr (uo_name o') else real_name u),
     mail_addr := (if uo_mail o' \<noteq> [] then cstr (uo_mail o') else mail_addr u),
     privilege := (if new \<noteq> 0 then new else privilege u)\<rparr>"

lemma overwrite_Some: "overwrite n new old = Some s \<Longrightarrow> s = (if new \<noteq> [] then cstr new else old)"
  by (auto simp: overwrite_def dest!: strcpy_len split: if_splits)

definition profile_refused :: "user_options \<Rightarrow> accounts \<Rightarrow> bool" where
  "profile_refused o' ac \<longleftrightarrow>
     (case (table_map (user_database ac) (cstr (uo_username o')), login_pool ac (uo_cur o')) of
        (Some u, Some p) \<Rightarrow> p \<le> privilege u \<and> uo_cur o' \<noteq> uo_username o' \<or> (\<exists>new. uo_privilege o' = Some new \<and> p \<le> new)
      | _ \<Rightarrow> True)"

lemma modify_profile_run_cases:
  assumes "modify_profile_run o' ac = Some (r, ac')"
  obtains (refused) "r = ''-1''" "ac' = ac" "profile_refused o' ac"
  | (changed) u p new where "table_map (user_database ac) (cstr (uo_username o')) = Some u"
      "login_pool ac (uo_cur o') = Some p" "uo_privilege o' = Some new" "new < p"
      "privilege u < p \<or> uo_cur o' = uo_username o'" "r = profile_string (changed_account o' new u)"
      "ac' = ac\<lparr>user_database := table_InsertEntry StringComparator (cstr (uo_username o')) (changed_account o' new u)
         (user_database ac)\<rparr>"
proof -
  let ?k = "cstr (uo_username o')"
  have k: "String_SetValue 24 (uo_username o') = Some ?k"
    using assms by (auto simp: modify_profile_run_def bind_Some_iff String_SetValue_Some)
  show thesis
  proof (cases rule: table_SearchKey_cases [of "user_database ac" ?k])
    case absent
    then show thesis using assms k refused by (auto simp: modify_profile_run_def profile_refused_def)
  next
    case (present u)
    then obtain new where new: "uo_privilege o' = Some new"
      using assms k by (auto simp: modify_profile_run_def bind_Some_iff)
    show thesis
    proof (cases "profile_denied (uo_cur o') (uo_username o') u ac \<or> new \<ge> the (login_pool ac (uo_cur o'))")
      case True
      then have "r = ''-1''" "ac' = ac" using assms k present new by (auto simp: modify_profile_run_def)
      moreover have "profile_refused o' ac"
        using True present(1) new by (auto simp: profile_refused_def profile_denied_def split: option.splits)
      ultimately show thesis by (rule refused)
    next
      case False
      then obtain p where p: "login_pool ac (uo_cur o') = Some p" "new < p" "privilege u < p \<or> uo_cur o' = uo_username o'"
        by (auto simp: profile_denied_def split: option.splits)
      obtain pw nm ml where f: "overwrite 32 (uo_password o') (password u) = Some pw"
        "overwrite 32 (uo_name o') (real_name u) = Some nm" "overwrite 32 (uo_mail o') (mail_addr u) = Some ml"
        using assms k present new False by (auto simp: modify_profile_run_def bind_Some_iff Let_def)
      have u': "u\<lparr>password := pw, real_name := nm, mail_addr := ml, privilege := if new \<noteq> 0 then new else privilege u\<rparr>
          = changed_account o' new u"
        using f [THEN overwrite_Some] by (simp add: changed_account_def)
      have "r = profile_string (changed_account o' new u)"
        "ac' = ac\<lparr>user_database := table_InsertEntry StringComparator ?k (changed_account o' new u) (user_database ac)\<rparr>"
        unfolding u' [symmetric] using assms k present new False f by (simp_all add: modify_profile_run_def Let_def)
      then show thesis using changed [OF present(1) p(1) new p(2,3)] by blast
    qed
  qed
qed

lemma modify_profile_ok:
  assumes "accounts_ok ac" "modify_profile line ac = Some (r, ac')"
  shows "accounts_ok ac'"
  using assms(2) unfolding modify_profile_def
proof (cases rule: modify_profile_run_cases)
  case (changed u p new)
  let ?o = "parse_options (\<lambda>opt. True) user_option (no_user_options (Some 0)) line"
  have "user_name u = cstr (uo_username ?o)" "privilege u \<le> 10" "p \<le> 10"
    using assms(1) changed(1,2) unfolding accounts_ok_def by blast+
  then have "privilege (changed_account ?o new u) \<le> 10" "user_name (changed_account ?o new u) = cstr (uo_username ?o)"
    using changed(4) by (simp_all add: changed_account_def)
  then show ?thesis unfolding changed(7) by (intro accounts_ok_insert [OF assms(1)])
qed (use assms(1) in simp)

lemma query_profile_same:
  assumes "query_profile line ac = Some (r, ac')"
  shows "ac' = ac"
proof -
  obtain current username where o: "parse_options (\<lambda>opt. True) query_option ([], []) line = (current, username)"
    by (cases "parse_options (\<lambda>opt. True) query_option ([], []) line")
  then obtain key where key: "String_SetValue 24 username = Some key"
    using assms by (auto simp: query_profile_def bind_Some_iff)
  show ?thesis
    by (cases rule: table_SearchKey_cases [of "user_database ac" key])
      (use assms o key in \<open>auto simp: query_profile_def split: if_splits\<close>)
qed

end
