(* ===== verification/Trains.thy ===== *)
theory Trains
  imports Accounts
begin

text \<open>
  \<^verbatim>\<open>TrainManagement\<close> of \<^verbatim>\<open>backend/src/Management.cpp\<close>: its state and the handlers that add, release,
  show and delete trains. The five databases are abstract indexes with the comparators the
  constructor gives them.
\<close>

section \<open>State\<close>

record train_mgmt =
  train_database :: "(key_string, train) table"
  station_database :: "(dual_string, station) table"
  daytrain_database :: "(string_any, day_train) table"
  order_database :: "(string_any, order) table"
  pending_order_database :: "(string_int_int, pending_order) table"
  order_num :: int

abbreviation "cmp1 \<equiv> StringComparator"
abbreviation "cmp2 \<equiv> DualStringComparator 2"
abbreviation "cmp3 \<equiv> StringAnyComparator 3"
abbreviation "cmp5 \<equiv> StringIntIntComparator 2"

text \<open>\<^verbatim>\<open>vector[0]\<close> of a search result.\<close>

definition first_result :: "'a list \<Rightarrow> 'a option" where
  "first_result xs = (case xs of [] \<Rightarrow> None | x # _ \<Rightarrow> Some x)"

definition is_legal :: "string \<Rightarrow> bool option" where
  "is_legal s = do { m \<leftarrow> substr s 0 2; Some (\<not> (string_to_int m < 6 \<or> string_to_int m > 8)) }"

section \<open>add_train\<close>

record train_options =
  to_id :: string
  to_station_num :: int
  to_seat_num :: int
  to_stations :: string
  to_prices :: string
  to_start :: string
  to_travel :: string
  to_stop :: string
  to_sale :: string
  to_type :: string

definition train_option :: "string \<Rightarrow> string \<Rightarrow> train_options \<Rightarrow> train_options" where
  "train_option opt v o' =
     (if opt = ''-i'' then o'\<lparr>to_id := v\<rparr>
      else if opt = ''-n'' then o'\<lparr>to_station_num := string_to_int v\<rparr>
      else if opt = ''-m'' then o'\<lparr>to_seat_num := string_to_int v\<rparr>
      else if opt = ''-s'' then o'\<lparr>to_stations := v\<rparr>
      else if opt = ''-p'' then o'\<lparr>to_prices := v\<rparr>
      else if opt = ''-x'' then o'\<lparr>to_start := v\<rparr>
      else if opt = ''-t'' then o'\<lparr>to_travel := v\<rparr>
      else if opt = ''-o'' then o'\<lparr>to_stop := v\<rparr>
      else if opt = ''-d'' then o'\<lparr>to_sale := v\<rparr>
      else o'\<lparr>to_type := v\<rparr>)"

definition no_train_options :: train_options where
  "no_train_options =
     \<lparr>to_id = [], to_station_num = 0, to_seat_num = 0, to_stations = [], to_prices = [], to_start = [],
      to_travel = [], to_stop = [], to_sale = [], to_type = []\<rparr>"

definition add_train_run :: "train_options \<Rightarrow> train_mgmt \<Rightarrow> (string \<times> train_mgmt) option" where
  "add_train_run o' tm =
     do { key \<leftarrow> String_SetValue 24 (to_id o');
          if table_SearchKey key (train_database tm) \<noteq> [] then Some (''-1'', tm)
          else do {
            tr \<leftarrow> Train (to_id o') (to_station_num o') (to_seat_num o') (to_stations o') (to_prices o')
                    (to_start o') (to_travel o') (to_stop o') (to_sale o') (to_type o');
            Some (''0'', tm\<lparr>train_database := table_InsertEntry cmp1 key tr (train_database tm)\<rparr>) } }"

definition add_train :: "command \<Rightarrow> train_mgmt \<Rightarrow> (string \<times> train_mgmt) option" where
  "add_train line tm = add_train_run (parse_options (\<lambda>opt. True) train_option no_train_options line) tm"

section \<open>release_train\<close>

function seat_loop :: "int \<Rightarrow> int \<Rightarrow> int \<Rightarrow> int carray \<Rightarrow> int carray option" where
  "seat_loop j n seats a =
     (if j \<le> n then do { a' \<leftarrow> array_write a j seats; seat_loop (j + 1) n seats a' } else Some a)"
  by pat_completeness auto
termination
  by (relation "measure (\<lambda>(j, n, seats, a). nat (n + 1 - j))") auto

text \<open>
  \<^verbatim>\<open>for (auto i = start_sale_date; i <= end_sale_date; i += 1440)\<close>: one row of seats per day. The
  increment of the last round may overflow, which has no defined result.
\<close>

function day_loop ::
    "string \<Rightarrow> train \<Rightarrow> time_type \<Rightarrow> (string_any, day_train) table \<Rightarrow> (string_any, day_train) table option" where
  "day_loop t_id tr i db =
     (if i \<le> end_sale_date tr then
        do { a \<leftarrow> seat_loop 1 (station_num tr) (total_seat_num tr) (\<lambda>j. None);
             key \<leftarrow> StringAny_SetValue 24 t_id i;
             let db' = table_InsertEntry cmp3 key \<lparr>seat_num = a\<rparr> db;
             if i + 1440 > MAX_INT then None else day_loop t_id tr (i + 1440) db' }
      else Some db)"
  by pat_completeness auto
termination
  by (relation "measure (\<lambda>(t_id, tr, i, db). nat (end_sale_date tr + 1 - i))") auto

function station_rows_loop ::
    "string \<Rightarrow> train \<Rightarrow> int \<Rightarrow> (dual_string, station) table \<Rightarrow> (dual_string, station) table option" where
  "station_rows_loop t_id tr i db =
     (if i \<le> station_num tr then
        do { nm \<leftarrow> array_read (stations tr) i;
             price \<leftarrow> array_read (price_sum tr) i;
             arr \<leftarrow> array_read (arriving_times tr) i;
             lea \<leftarrow> array_read (leaving_times tr) i;
             st \<leftarrow> Station t_id nm price (start_sale_date tr) (end_sale_date tr) arr lea i;
             key \<leftarrow> DualString_SetValue 32 24 nm t_id;
             station_rows_loop t_id tr (i + 1) (table_InsertEntry cmp2 key st db) }
      else Some db)"
  by pat_completeness auto
termination
  by (relation "measure (\<lambda>(t_id, tr, i, db). nat (station_num tr + 1 - i))") auto

declare seat_loop.simps [simp del] day_loop.simps [simp del] station_rows_loop.simps [simp del]

definition release_train :: "command \<Rightarrow> train_mgmt \<Rightarrow> (string \<times> train_mgmt) option" where
  "release_train line tm =
     (let (opt, line1) = next_token line; (t_id, line2) = next_token line1
      in do { key \<leftarrow> String_SetValue 24 t_id;
              (case table_SearchKey key (train_database tm) of
                 [] \<Rightarrow> Some (''-1'', tm)
               | tr # _ \<Rightarrow>
                   if is_released tr then Some (''-1'', tm)
                   else do {
                     let tr' = tr\<lparr>is_released := True\<rparr>;
                     days \<leftarrow> day_loop t_id tr' (start_sale_date tr') (daytrain_database tm);
                     sts \<leftarrow> station_rows_loop t_id tr' 1 (station_database tm);
                     Some (''0'', tm\<lparr>train_database := table_InsertEntry cmp1 key tr' (train_database tm),
                                     daytrain_database := days, station_database := sts\<rparr>) }) })"

section \<open>query_train and delete_train\<close>

definition query_train_option :: "string \<Rightarrow> string \<Rightarrow> string \<times> string \<Rightarrow> string \<times> string" where
  "query_train_option opt v o' = (if opt = ''-i'' then (v, snd o') else (fst o', v))"

text \<open>
  The lines of the reply; the seats are those of the train before the release (\<^verbatim>\<open>total_seat_num\<close>
  at every station) and those of the day after it.
\<close>

function query_train_loop :: "train \<Rightarrow> time_type \<Rightarrow> (int \<Rightarrow> int option) \<Rightarrow> int \<Rightarrow> string option" where
  "query_train_loop tr day seats i =
     (if i \<le> station_num tr - 1 then
        do { nm \<leftarrow> array_read (stations tr) i;
             arr \<leftarrow> array_read (arriving_times tr) i;
             lea \<leftarrow> array_read (leaving_times tr) i;
             price \<leftarrow> array_read (price_sum tr) i;
             seat \<leftarrow> seats i;
             rest \<leftarrow> query_train_loop tr day seats (i + 1);
             Some (nm @ '' '' @ transfer (time_add day arr) @ '' -> '' @ transfer (time_add day lea) @ '' '' @
                   to_string price @ '' '' @ to_string seat @ [CHR 0x0A] @ rest) }
      else Some [])"
  by pat_completeness auto
termination
  by (relation "measure (\<lambda>(tr, day, seats, i). nat (station_num tr - i))") auto

declare query_train_loop.simps [simp del]

definition query_train_output :: "string \<Rightarrow> train \<Rightarrow> time_type \<Rightarrow> (int \<Rightarrow> int option) \<Rightarrow> string option" where
  "query_train_output t_id tr day seats =
     do { nm1 \<leftarrow> array_read (stations tr) 1;
          seat1 \<leftarrow> seats 1;
          mid \<leftarrow> query_train_loop tr day seats 2;
          nmn \<leftarrow> array_read (stations tr) (station_num tr);
          arr \<leftarrow> array_read (arriving_times tr) (station_num tr);
          price \<leftarrow> array_read (price_sum tr) (station_num tr);
          Some (t_id @ '' '' @ [train_type tr] @ [CHR 0x0A] @
                nm1 @ '' xx-xx xx:xx -> '' @ transfer (time_add day (start_time tr)) @ '' 0 '' @ to_string seat1 @
                [CHR 0x0A] @ mid @
                nmn @ '' '' @ transfer (time_add day arr) @ '' -> xx-xx xx:xx '' @ to_string price @ '' x'') }"

definition query_train_run :: "string \<Rightarrow> string \<Rightarrow> train_mgmt \<Rightarrow> string option" where
  "query_train_run t_id date tm =
     do { legal \<leftarrow> is_legal (date @ '' 00:00'');
          if \<not> legal then Some ''-1''
          else do {
            day \<leftarrow> TimeType_of_string (date @ '' 00:00'');
            key \<leftarrow> String_SetValue 24 t_id;
            (case table_SearchKey key (train_database tm) of
               [] \<Rightarrow> Some ''-1''
             | tr # _ \<Rightarrow>
                 if day < start_sale_date tr \<or> day > end_sale_date tr then Some ''-1''
                 else do {
                   dkey \<leftarrow> StringAny_SetValue 24 t_id day;
                   let ans2 = table_SearchKey dkey (daytrain_database tm);
                   if \<not> is_released tr then query_train_output t_id tr day (\<lambda>i. Some (total_seat_num tr))
                   else do {
                     d \<leftarrow> first_result ans2;
                     query_train_output t_id tr day (array_read (seat_num d)) } }) } }"

definition query_train :: "command \<Rightarrow> train_mgmt \<Rightarrow> (string \<times> train_mgmt) option" where
  "query_train line tm =
     (let (t_id, date) = parse_options (\<lambda>opt. True) query_train_option ([], []) line
      in do { out \<leftarrow> query_train_run t_id date tm; Some (out, tm) })"

definition delete_train :: "command \<Rightarrow> train_mgmt \<Rightarrow> (string \<times> train_mgmt) option" where
  "delete_train line tm =
     (let (opt, line1) = next_token line; (t_id, line2) = next_token line1
      in do { key \<leftarrow> String_SetValue 24 t_id;
              (case table_SearchKey key (train_database tm) of
                 [] \<Rightarrow> Some (''-1'', tm)
               | tr # _ \<Rightarrow>
                   if is_released tr then Some (''-1'', tm)
                   else Some (''0'', tm\<lparr>train_database := table_DeleteEntry cmp1 key (train_database tm)\<rparr>)) })"

end
