(* ===== verification/TicketQueries.thy ===== *)
theory TicketQueries
  imports Trains
begin

text \<open>
  \<^verbatim>\<open>query_ticket\<close> and \<^verbatim>\<open>query_transfer\<close> of \<^verbatim>\<open>backend/src/Management.cpp\<close> with the comparisons they
  sort by. Loops over vectors with an index are recursions over the lists.
\<close>

section \<open>Comparisons\<close>

definition time_cmp :: "ticket \<Rightarrow> ticket \<Rightarrow> bool" where
  "time_cmp a b =
     (if ticket_time a = ticket_time b
      then strcmp (st_train_ID (ticket_s a)) (st_train_ID (ticket_s b)) < 0
      else ticket_time a < ticket_time b)"

definition cost_cmp :: "ticket \<Rightarrow> ticket \<Rightarrow> bool" where
  "cost_cmp a b =
     (if ticket_cost a = ticket_cost b
      then strcmp (st_train_ID (ticket_s a)) (st_train_ID (ticket_s b)) < 0
      else ticket_cost a < ticket_cost b)"

definition order_cmp :: "order \<Rightarrow> order \<Rightarrow> bool" where
  "order_cmp a b \<longleftrightarrow> order_ID a > order_ID b"

definition pending_order_cmp :: "pending_order \<Rightarrow> pending_order \<Rightarrow> bool" where
  "pending_order_cmp a b \<longleftrightarrow> pend_ID a < pend_ID b"

definition station_cmp :: "string \<times> int \<Rightarrow> string \<times> int \<Rightarrow> bool" where
  "station_cmp a b \<longleftrightarrow> strcmp (fst a) (fst b) < 0"

lemma strcmp_weak: "strcmp a c < 0 \<Longrightarrow> strcmp a b < 0 \<or> strcmp b c < 0"
  using strcmp_trans [of b a c] strcmp_neg_swap [of a b] strcmp_eq_0_iff [of a b] strcmp_neg_swap [of b a]
  by (cases "strcmp a b < 0") (metis linorder_neqE_linordered_idom)+

lemma strict_weak_lex:
  fixes f :: "'a \<Rightarrow> int" and g :: "'a \<Rightarrow> string"
  assumes "\<And>a b. lt a b \<longleftrightarrow> (if f a = f b then strcmp (g a) (g b) < 0 else f a < f b)"
  shows "strict_weak lt"
proof
  fix x y z
  show "\<not> lt x x" by (simp add: assms)
  show "lt x y \<Longrightarrow> lt y z \<Longrightarrow> lt x z" using strcmp_trans [of "g x" "g y" "g z"] by (auto simp: assms split: if_splits)
  show "lt x z \<Longrightarrow> lt x y \<or> lt y z" using strcmp_weak [of "g x" "g z" "g y"] by (auto simp: assms split: if_splits)
qed

interpretation time_order: strict_weak time_cmp
  by (rule strict_weak_lex [of _ ticket_time "\<lambda>a. st_train_ID (ticket_s a)"]) (simp add: time_cmp_def)

interpretation cost_order: strict_weak cost_cmp
  by (rule strict_weak_lex [of _ ticket_cost "\<lambda>a. st_train_ID (ticket_s a)"]) (simp add: cost_cmp_def)

interpretation order_order: strict_weak order_cmp
  by unfold_locales (auto simp: order_cmp_def)

interpretation pending_order_order: strict_weak pending_order_cmp
  by unfold_locales (auto simp: pending_order_cmp_def)

interpretation station_order: strict_weak station_cmp
  by (rule strict_weak_lex [of _ "\<lambda>_. 0" fst]) (simp add: station_cmp_def)

section \<open>query_ticket\<close>

record ticket_options =
  tk_s :: string
  tk_t :: string
  tk_date :: string
  tk_type :: string

definition ticket_takes :: "string \<Rightarrow> bool" where
  "ticket_takes opt \<longleftrightarrow> opt = ''-s'' \<or> opt = ''-t'' \<or> opt = ''-d'' \<or> opt = ''-p''"

definition ticket_option :: "string \<Rightarrow> string \<Rightarrow> ticket_options \<Rightarrow> ticket_options" where
  "ticket_option opt v o' =
     (if opt = ''-s'' then o'\<lparr>tk_s := v\<rparr>
      else if opt = ''-t'' then o'\<lparr>tk_t := v\<rparr>
      else if opt = ''-d'' then o'\<lparr>tk_date := v\<rparr>
      else if opt = ''-p'' then o'\<lparr>tk_type := v\<rparr>
      else o')"

definition no_ticket_options :: ticket_options where
  "no_ticket_options = \<lparr>tk_s = [], tk_t = [], tk_date = [], tk_type = ''time''\<rparr>"

text \<open>The merge of the trains through the two stations; both lists are ordered by train.\<close>

fun ticket_merge :: "time_type \<Rightarrow> station list \<Rightarrow> station list \<Rightarrow> ticket list" where
  "ticket_merge day (s1 # ss) (t1 # ts) =
     (if strcmp (st_train_ID s1) (st_train_ID t1) < 0 then ticket_merge day ss (t1 # ts)
      else if strcmp (st_train_ID s1) (st_train_ID t1) > 0 then ticket_merge day (s1 # ss) ts
      else if st_index s1 \<ge> st_index t1 then ticket_merge day ss ts
      else
        let start_day = time_sub day (get_date (leaving_time s1))
        in if start_sale_time s1 \<le> start_day \<and> start_day \<le> end_sale_time s1
           then \<lparr>ticket_s = s1, ticket_t = t1\<rparr> # ticket_merge day ss ts
           else ticket_merge day ss ts)"
| "ticket_merge day ss ts = []"

fun ticket_lines :: "train_mgmt \<Rightarrow> time_type \<Rightarrow> ticket list \<Rightarrow> string option" where
  "ticket_lines tm day [] = Some []"
| "ticket_lines tm day (tk # tks) =
     do { let s = ticket_s tk;
          let t = ticket_t tk;
          let start_day = time_sub day (get_date (leaving_time s));
          key \<leftarrow> StringAny_SetValue 24 (st_train_ID s) start_day;
          d \<leftarrow> first_result (table_SearchKey key (daytrain_database tm));
          seat \<leftarrow> query_seat (st_index s) (st_index t - 1) d;
          rest \<leftarrow> ticket_lines tm day tks;
          Some ([CHR 0x0A] @ st_train_ID s @ '' '' @ station_name s @ '' '' @
                transfer (time_add start_day (leaving_time s)) @ '' -> '' @ station_name t @ '' '' @
                transfer (time_add start_day (arriving_time t)) @ '' '' @ to_string (ticket_cost tk) @ '' '' @
                to_string seat @ rest) }"

definition station_scan :: "string \<Rightarrow> train_mgmt \<Rightarrow> station list option" where
  "station_scan s tm =
     do { key \<leftarrow> DualString_SetValue 32 24 s [];
          Some (table_ScanKey cmp2 key (DualStringComparator 1) (station_database tm)) }"

definition query_ticket_run :: "ticket_options \<Rightarrow> train_mgmt \<Rightarrow> string option" where
  "query_ticket_run o' tm =
     do { legal \<leftarrow> is_legal (tk_date o' @ '' 00:00'');
          if \<not> legal then Some ''0''
          else if tk_s o' = tk_t o' then Some ''0''
          else do {
            day \<leftarrow> TimeType_of_string (tk_date o' @ '' 00:00'');
            ans1 \<leftarrow> station_scan (tk_s o') tm;
            ans2 \<leftarrow> station_scan (tk_t o') tm;
            if ans1 = [] \<or> ans2 = [] then Some ''0''
            else do {
              let tickets = ticket_merge day ans1 ans2;
              let n = int (length tickets);
              if n = 0 then Some ''0''
              else do {
                sorted \<leftarrow> Sort (if tk_type o' = ''time'' then time_cmp else cost_cmp) tickets 0 (n - 1);
                out \<leftarrow> ticket_lines tm day sorted;
                Some (to_string n @ out) } } } }"

definition query_ticket :: "command \<Rightarrow> train_mgmt \<Rightarrow> (string \<times> train_mgmt) option" where
  "query_ticket line tm =
     do { out \<leftarrow> query_ticket_run (parse_options ticket_takes ticket_option no_ticket_options line) tm;
          Some (out, tm) }"

section \<open>query_transfer\<close>

text \<open>The best answer so far: \<^verbatim>\<open>COST\<close>, \<^verbatim>\<open>TIME\<close>, \<^verbatim>\<open>FIRST_TIME\<close> and the text.\<close>

record best =
  best_COST :: int
  best_TIME :: int
  best_FIRST_TIME :: int
  best_output :: string

definition no_best :: best where
  "no_best = \<lparr>best_COST = MAX_INT, best_TIME = MAX_INT, best_FIRST_TIME = MAX_INT, best_output = []\<rparr>"

definition better :: "string \<Rightarrow> int \<Rightarrow> int \<Rightarrow> int \<Rightarrow> best \<Rightarrow> bool" where
  "better ty c t f b =
     (if ty = ''cost'' then
        best_COST b > c \<or> best_COST b = c \<and> best_TIME b > t \<or>
        best_COST b = c \<and> best_TIME b = t \<and> best_FIRST_TIME b > f
      else
        best_TIME b > t \<or> best_TIME b = t \<and> best_COST b > c \<or>
        best_COST b = c \<and> best_TIME b = t \<and> best_FIRST_TIME b > f)"

text \<open>\<^verbatim>\<open>for (int k = lo; k <= hi; ++k) v.push_back(make_pair(stations[k], k))\<close>\<close>

function station_pairs :: "train \<Rightarrow> int \<Rightarrow> int \<Rightarrow> (string \<times> int) list option" where
  "station_pairs tr k hi =
     (if k \<le> hi then
        do { nm \<leftarrow> array_read (stations tr) k; rest \<leftarrow> station_pairs tr (k + 1) hi; Some ((nm, k) # rest) }
      else Some [])"
  by pat_completeness auto
termination
  by (relation "measure (\<lambda>(tr, k, hi). nat (hi + 1 - k))") auto

declare station_pairs.simps [simp del]

text \<open>The day on which the second train starts; \<open>None\<close> inside when its sale is over.\<close>

definition second_start_day ::
    "time_type \<Rightarrow> time_type \<Rightarrow> time_type \<Rightarrow> station \<Rightarrow> time_type option" where
  "second_start_day start_day1 arr1 lea2 t1 =
     (let d = time_sub (time_add start_day1 (get_date arr1)) (get_date lea2);
          fast = (if get_time arr1 \<le> get_time lea2 then d else int32 (d + 1440))
      in if end_sale_time t1 < fast then None else Some (max fast (start_sale_time t1)))"

definition transfer_text ::
    "train_mgmt \<Rightarrow> station \<Rightarrow> station \<Rightarrow> train \<Rightarrow> train \<Rightarrow> time_type \<Rightarrow> time_type \<Rightarrow> int \<Rightarrow> int \<Rightarrow> string option" where
  "transfer_text tm s1 t1 train1 train2 start_day1 start_day2 k l =
     do { key1 \<leftarrow> StringAny_SetValue 24 (train_ID train1) start_day1;
          key2 \<leftarrow> StringAny_SetValue 24 (train_ID train2) start_day2;
          S \<leftarrow> first_result (table_SearchKey key1 (daytrain_database tm));
          T \<leftarrow> first_result (table_SearchKey key2 (daytrain_database tm));
          nm1 \<leftarrow> array_read (stations train1) k;
          arr1 \<leftarrow> array_read (arriving_times train1) k;
          price1 \<leftarrow> array_read (price_sum train1) k;
          seat1 \<leftarrow> query_seat (st_index s1) (k - 1) S;
          nm2 \<leftarrow> array_read (stations train2) l;
          lea2 \<leftarrow> array_read (leaving_times train2) l;
          price2 \<leftarrow> array_read (price_sum train2) l;
          seat2 \<leftarrow> query_seat l (st_index t1 - 1) T;
          Some (st_train_ID s1 @ '' '' @ station_name s1 @ '' '' @ transfer (time_add start_day1 (leaving_time s1)) @
                '' -> '' @ nm1 @ '' '' @ transfer (time_add start_day1 arr1) @ '' '' @
                to_string (int32 (price1 - st_price_sum s1)) @ '' '' @ to_string seat1 @ [CHR 0x0A] @
                st_train_ID t1 @ '' '' @ nm2 @ '' '' @ transfer (time_add start_day2 lea2) @ '' -> '' @
                station_name t1 @ '' '' @ transfer (time_add start_day2 (arriving_time t1)) @ '' '' @
                to_string (int32 (st_price_sum t1 - price2)) @ '' '' @ to_string seat2) }"

definition transfer_at ::
    "string \<Rightarrow> train_mgmt \<Rightarrow> station \<Rightarrow> station \<Rightarrow> train \<Rightarrow> train \<Rightarrow> time_type \<Rightarrow> int \<Rightarrow> int \<Rightarrow> best \<Rightarrow> best option" where
  "transfer_at ty tm s1 t1 train1 train2 start_day1 k l b =
     do { arr1 \<leftarrow> array_read (arriving_times train1) k;
          lea2 \<leftarrow> array_read (leaving_times train2) l;
          (case second_start_day start_day1 arr1 lea2 t1 of
             None \<Rightarrow> Some b
           | Some start_day2 \<Rightarrow> do {
               price1 \<leftarrow> array_read (price_sum train1) k;
               price2 \<leftarrow> array_read (price_sum train2) l;
               let c = int32 (price1 - st_price_sum s1 + st_price_sum t1 - price2);
               let t = time_sub (time_add start_day2 (arriving_time t1)) (time_add start_day1 (leaving_time s1));
               let f = time_sub arr1 (leaving_time s1);
               if better ty c t f b then do {
                 out \<leftarrow> transfer_text tm s1 t1 train1 train2 start_day1 start_day2 k l;
                 Some \<lparr>best_COST = c, best_TIME = t, best_FIRST_TIME = f, best_output = out\<rparr> }
               else Some b }) }"

text \<open>The merge of the stations after the first boarding with those before the last one.\<close>

fun transfer_merge ::
    "string \<Rightarrow> train_mgmt \<Rightarrow> station \<Rightarrow> station \<Rightarrow> train \<Rightarrow> train \<Rightarrow> time_type \<Rightarrow>
     (string \<times> int) list \<Rightarrow> (string \<times> int) list \<Rightarrow> best \<Rightarrow> best option" where
  "transfer_merge ty tm s1 t1 train1 train2 day1 (x # xs) (y # ys) b =
     (if strcmp (fst x) (fst y) < 0 then transfer_merge ty tm s1 t1 train1 train2 day1 xs (y # ys) b
      else if strcmp (fst x) (fst y) > 0 then transfer_merge ty tm s1 t1 train1 train2 day1 (x # xs) ys b
      else do {
        b' \<leftarrow> transfer_at ty tm s1 t1 train1 train2 day1 (snd x) (snd y) b;
        transfer_merge ty tm s1 t1 train1 train2 day1 xs ys b' })"
| "transfer_merge ty tm s1 t1 train1 train2 day1 xs ys b = Some b"

definition transfer_pair ::
    "string \<Rightarrow> train_mgmt \<Rightarrow> station \<Rightarrow> train \<Rightarrow> time_type \<Rightarrow> station \<Rightarrow> best \<Rightarrow> best option" where
  "transfer_pair ty tm s1 train1 day1 t1 b =
     (if strcmp (st_train_ID s1) (st_train_ID t1) = 0 then Some b
      else do {
        key \<leftarrow> String_SetValue 24 (st_train_ID t1);
        train2 \<leftarrow> first_result (table_SearchKey key (train_database tm));
        starts \<leftarrow> station_pairs train1 (st_index s1 + 1) (station_num train1);
        ends \<leftarrow> station_pairs train2 1 (st_index t1 - 1);
        if starts = [] \<or> ends = [] then Some b
        else do {
          starts' \<leftarrow> Sort station_cmp starts 0 (int (length starts) - 1);
          ends' \<leftarrow> Sort station_cmp ends 0 (int (length ends) - 1);
          transfer_merge ty tm s1 t1 train1 train2 day1 starts' ends' b } })"

fun transfer_inner ::
    "string \<Rightarrow> train_mgmt \<Rightarrow> station \<Rightarrow> train \<Rightarrow> time_type \<Rightarrow> station list \<Rightarrow> best \<Rightarrow> best option" where
  "transfer_inner ty tm s1 train1 day1 [] b = Some b"
| "transfer_inner ty tm s1 train1 day1 (t1 # ts) b =
     do { b' \<leftarrow> transfer_pair ty tm s1 train1 day1 t1 b; transfer_inner ty tm s1 train1 day1 ts b' }"

fun transfer_outer ::
    "string \<Rightarrow> train_mgmt \<Rightarrow> time_type \<Rightarrow> station list \<Rightarrow> station list \<Rightarrow> best \<Rightarrow> best option" where
  "transfer_outer ty tm day ts [] b = Some b"
| "transfer_outer ty tm day ts (s1 # ss) b =
     (let start_day1 = time_sub day (get_date (leaving_time s1))
      in if start_day1 < start_sale_time s1 \<or> start_day1 > end_sale_time s1 then transfer_outer ty tm day ts ss b
         else do {
           key \<leftarrow> String_SetValue 24 (st_train_ID s1);
           train1 \<leftarrow> first_result (table_SearchKey key (train_database tm));
           b' \<leftarrow> transfer_inner ty tm s1 train1 start_day1 ts b;
           transfer_outer ty tm day ts ss b' })"

definition query_transfer_run :: "ticket_options \<Rightarrow> train_mgmt \<Rightarrow> string option" where
  "query_transfer_run o' tm =
     do { legal \<leftarrow> is_legal (tk_date o' @ '' 00:00'');
          if \<not> legal then Some ''0''
          else if tk_s o' = tk_t o' then Some ''0''
          else do {
            day \<leftarrow> TimeType_of_string (tk_date o' @ '' 00:00'');
            ans1 \<leftarrow> station_scan (tk_s o') tm;
            ans2 \<leftarrow> station_scan (tk_t o') tm;
            if ans1 = [] \<or> ans2 = [] then Some ''0''
            else do {
              b \<leftarrow> transfer_outer (tk_type o') tm day ans2 ans1 no_best;
              Some (if best_FIRST_TIME b \<noteq> MAX_INT then best_output b else ''0'') } } }"

definition query_transfer :: "command \<Rightarrow> train_mgmt \<Rightarrow> (string \<times> train_mgmt) option" where
  "query_transfer line tm =
     do { out \<leftarrow> query_transfer_run (parse_options ticket_takes ticket_option no_ticket_options line) tm;
          Some (out, tm) }"

end
