(* ===== verification/Tickets.thy ===== *)
theory Tickets
  imports TicketQueries
begin

text \<open>
  Buying, listing and refunding tickets (\<^verbatim>\<open>buy_ticket\<close>, \<^verbatim>\<open>query_order\<close>, \<^verbatim>\<open>refund_ticket\<close> of
  \<^verbatim>\<open>backend/src/Management.cpp\<close>). The handlers only read the login pool of the accounts.
\<close>

section \<open>buy_ticket\<close>

record buy_options =
  bo_user :: string
  bo_train :: string
  bo_from :: string
  bo_to :: string
  bo_date :: string
  bo_num :: "int option"
  bo_pending :: bool

definition buy_takes :: "string \<Rightarrow> bool" where
  "buy_takes opt \<longleftrightarrow> opt = ''-u'' \<or> opt = ''-i'' \<or> opt = ''-d'' \<or> opt = ''-n'' \<or> opt = ''-f'' \<or> opt = ''-t'' \<or> opt = ''-q''"

definition buy_option :: "string \<Rightarrow> string \<Rightarrow> buy_options \<Rightarrow> buy_options" where
  "buy_option opt v o' =
     (if opt = ''-u'' then o'\<lparr>bo_user := v\<rparr>
      else if opt = ''-i'' then o'\<lparr>bo_train := v\<rparr>
      else if opt = ''-d'' then o'\<lparr>bo_date := v\<rparr>
      else if opt = ''-n'' then o'\<lparr>bo_num := Some (string_to_int v)\<rparr>
      else if opt = ''-f'' then o'\<lparr>bo_from := v\<rparr>
      else if opt = ''-t'' then o'\<lparr>bo_to := v\<rparr>
      else if opt = ''-q'' then (if v = ''true'' then o'\<lparr>bo_pending := True\<rparr> else o')
      else o')"

definition no_buy_options :: buy_options where
  "no_buy_options =
     \<lparr>bo_user = [], bo_train = [], bo_from = [], bo_to = [], bo_date = [], bo_num = None, bo_pending = False\<rparr>"

text \<open>\<^verbatim>\<open>for (int i = 1; i <= station_num && !(s && t); ++i)\<close>: the indices of the two stations.\<close>

function find_stations ::
    "train \<Rightarrow> string \<Rightarrow> string \<Rightarrow> int \<Rightarrow> int \<Rightarrow> int \<Rightarrow> (int \<times> int) option" where
  "find_stations tr S T i s t =
     (if i \<le> station_num tr \<and> \<not> (s \<noteq> 0 \<and> t \<noteq> 0) then
        do { nm \<leftarrow> array_read (stations tr) i;
             let s' = (if strcmp nm (cstr S) = 0 then i else s);
             let t' = (if strcmp nm (cstr T) = 0 then i else t);
             find_stations tr S T (i + 1) s' t' }
      else Some (s, t))"
  by pat_completeness auto
termination
  by (relation "measure (\<lambda>(tr, S, T, i, s, t). nat (station_num tr + 1 - i))") auto

declare find_stations.simps [simp del]

text \<open>The end of the handler: the order is stored and either the seats are taken or it waits.\<close>

definition place_order ::
    "buy_options \<Rightarrow> train \<Rightarrow> int \<Rightarrow> int \<Rightarrow> int \<Rightarrow> time_type \<Rightarrow> day_train \<Rightarrow> int \<Rightarrow> train_mgmt \<Rightarrow>
     (string \<times> train_mgmt) option" where
  "place_order o' tr s t num start_day tp remain_seat tm =
     do { pt \<leftarrow> array_read (price_sum tr) t;
          ps \<leftarrow> array_read (price_sum tr) s;
          let price = int32 (pt - ps);
          let oid = int32 (order_num tm + 1);
          lea \<leftarrow> array_read (leaving_times tr) s;
          arr \<leftarrow> array_read (arriving_times tr) t;
          ns \<leftarrow> array_read (stations tr) s;
          nt \<leftarrow> array_read (stations tr) t;
          new_order \<leftarrow> Order (bo_user o') (bo_train o') num price oid start_day lea arr success s t ns nt;
          okey \<leftarrow> StringAny_SetValue 24 (bo_user o') oid;
          if remain_seat \<ge> num then do {
            tp' \<leftarrow> modify_seat s (t - 1) (- num) tp;
            dkey \<leftarrow> StringAny_SetValue 24 (bo_train o') start_day;
            Some (to_string (int32 (num * price)),
                  tm\<lparr>order_num := oid,
                     daytrain_database := table_InsertEntry cmp3 dkey tp' (daytrain_database tm),
                     order_database := table_InsertEntry cmp3 okey new_order (order_database tm)\<rparr>) }
          else do {
            p \<leftarrow> PendingOrder (bo_train o') (bo_user o') start_day num s t oid;
            pkey \<leftarrow> StringIntInt_SetValue 24 (bo_train o') start_day oid;
            Some (''queue'',
                  tm\<lparr>order_num := oid,
                     order_database :=
                       table_InsertEntry cmp3 okey (new_order\<lparr>order_status := pending\<rparr>) (order_database tm),
                     pending_order_database := table_InsertEntry cmp5 pkey p (pending_order_database tm)\<rparr>) } }"

definition buy_ticket_run :: "buy_options \<Rightarrow> accounts \<Rightarrow> train_mgmt \<Rightarrow> (string \<times> train_mgmt) option" where
  "buy_ticket_run o' ac tm =
     (if login_pool ac (bo_user o') = None then Some (''-1'', tm)
      else do {
        key \<leftarrow> String_SetValue 24 (bo_train o');
        (case table_SearchKey key (train_database tm) of
           [] \<Rightarrow> Some (''-1'', tm)
         | tr # _ \<Rightarrow>
             if \<not> is_released tr then Some (''-1'', tm)
             else do {
               num \<leftarrow> bo_num o';
               if total_seat_num tr < num then Some (''-1'', tm)
               else do {
                 (s, t) \<leftarrow> find_stations tr (bo_from o') (bo_to o') 1 0 0;
                 if s = 0 \<or> t = 0 \<or> s \<ge> t then Some (''-1'', tm)
                 else do {
                   day \<leftarrow> TimeType_of_string (bo_date o' @ '' 00:00'');
                   lea \<leftarrow> array_read (leaving_times tr) s;
                   let start_day = time_sub day (get_date lea);
                   if start_day < start_sale_date tr \<or> start_day > end_sale_date tr then Some (''-1'', tm)
                   else do {
                     dkey \<leftarrow> StringAny_SetValue 24 (bo_train o') start_day;
                     tp \<leftarrow> first_result (table_SearchKey dkey (daytrain_database tm));
                     remain_seat \<leftarrow> query_seat s (t - 1) tp;
                     if \<not> bo_pending o' \<and> remain_seat < num then Some (''-1'', tm)
                     else place_order o' tr s t num start_day tp remain_seat tm } } } }) })"

definition buy_ticket :: "command \<Rightarrow> accounts \<Rightarrow> train_mgmt \<Rightarrow> (string \<times> train_mgmt) option" where
  "buy_ticket line ac tm = buy_ticket_run (parse_options buy_takes buy_option no_buy_options line) ac tm"

section \<open>query_order\<close>

definition order_scan :: "string \<Rightarrow> train_mgmt \<Rightarrow> order list option" where
  "order_scan user tm =
     do { key \<leftarrow> StringAny_SetValue 24 user 0;
          Some (table_ScanKey cmp3 key (StringAnyComparator 1) (order_database tm)) }"

definition status_text :: "status \<Rightarrow> string" where
  "status_text s =
     (case s of success \<Rightarrow> ''[success] '' | pending \<Rightarrow> ''[pending] '' | refunded \<Rightarrow> ''[refunded] '')"

definition order_line :: "order \<Rightarrow> string" where
  "order_line x =
     [CHR 0x0A] @ status_text (order_status x) @ order_train x @ '' '' @ from_station x @ '' '' @
     transfer (time_add (order_leaving x) (order_day x)) @ '' -> '' @ to_station x @ '' '' @
     transfer (time_add (order_arriving x) (order_day x)) @ '' '' @ to_string (order_price x) @ '' '' @
     to_string (order_qty x)"

definition query_order :: "command \<Rightarrow> accounts \<Rightarrow> train_mgmt \<Rightarrow> (string \<times> train_mgmt) option" where
  "query_order line ac tm =
     (let (opt, line1) = next_token line; (user, line2) = next_token line1
      in if login_pool ac user = None then Some (''-1'', tm)
         else do {
           orders \<leftarrow> order_scan user tm;
           if orders = [] then Some (''0'', tm)
           else do {
             sorted \<leftarrow> Sort order_cmp orders 0 (int (length orders) - 1);
             Some (to_string (int (length orders)) @ concat (map order_line sorted), tm) } })"

section \<open>refund_ticket\<close>

definition refund_takes :: "string \<Rightarrow> bool" where
  "refund_takes opt \<longleftrightarrow> opt = ''-u'' \<or> opt = ''-n''"

definition refund_option :: "string \<Rightarrow> string \<Rightarrow> string \<times> int \<Rightarrow> string \<times> int" where
  "refund_option opt v o' =
     (if opt = ''-u'' then (v, snd o')
      else if opt = ''-n'' then (fst o', string_to_int v)
      else o')"

text \<open>
  One round of the loop over the pending orders: an order that overlaps the refunded one and
  finds enough seats gets them, leaves the queue and becomes a success.
\<close>

definition settle_pending ::
    "order \<Rightarrow> pending_order \<Rightarrow> day_train \<times> train_mgmt \<Rightarrow> (day_train \<times> train_mgmt) option" where
  "settle_pending ro p st =
     (let (d, tm) = st
      in if pend_from p > order_to ro \<or> pend_to p < order_from ro then Some (d, tm)
         else do {
           q \<leftarrow> query_seat (pend_from p) (pend_to p - 1) d;
           if q \<ge> pend_qty p then do {
             d' \<leftarrow> modify_seat (pend_from p) (pend_to p - 1) (- pend_qty p) d;
             pkey \<leftarrow> StringIntInt_SetValue 24 (pend_train p) (pend_day p) (pend_ID p);
             okey \<leftarrow> StringAny_SetValue 24 (pend_user p) (pend_ID p);
             so \<leftarrow> first_result (table_SearchKey okey (order_database tm));
             Some (d', tm\<lparr>pending_order_database := table_DeleteEntry cmp5 pkey (pending_order_database tm),
                          order_database :=
                            table_InsertEntry cmp3 okey (so\<lparr>order_status := success\<rparr>) (order_database tm)\<rparr>) }
           else Some (d, tm) })"

fun settle_loop ::
    "order \<Rightarrow> pending_order list \<Rightarrow> day_train \<times> train_mgmt \<Rightarrow> (day_train \<times> train_mgmt) option" where
  "settle_loop ro [] st = Some st"
| "settle_loop ro (p # ps) st = do { st' \<leftarrow> settle_pending ro p st; settle_loop ro ps st' }"

text \<open>The part of the handler for an order that had its seats.\<close>

definition refund_success :: "order \<Rightarrow> train_mgmt \<Rightarrow> (string \<times> train_mgmt) option" where
  "refund_success ro tm =
     do { dkey \<leftarrow> StringAny_SetValue 24 (order_train ro) (order_day ro);
          d \<leftarrow> first_result (table_SearchKey dkey (daytrain_database tm));
          d1 \<leftarrow> modify_seat (order_from ro) (order_to ro - 1) (order_qty ro) d;
          pkey \<leftarrow> StringIntInt_SetValue 24 (order_train ro) (order_day ro) (order_ID ro);
          let ps = table_ScanKey cmp5 pkey (StringIntIntComparator 1) (pending_order_database tm);
          ps' \<leftarrow> Sort pending_order_cmp ps 0 (int (length ps) - 1);
          (d2, tm2) \<leftarrow> settle_loop ro ps' (d1, tm);
          Some (''0'', tm2\<lparr>daytrain_database := table_InsertEntry cmp3 dkey d2 (daytrain_database tm2)\<rparr>) }"

definition refund_ticket_run :: "string \<Rightarrow> int \<Rightarrow> accounts \<Rightarrow> train_mgmt \<Rightarrow> (string \<times> train_mgmt) option" where
  "refund_ticket_run user x ac tm =
     (if login_pool ac user = None then Some (''-1'', tm)
      else do {
        orders0 \<leftarrow> order_scan user tm;
        if orders0 = [] then Some (''0'', tm)
        else do {
          orders \<leftarrow> Sort order_cmp orders0 0 (int (length orders0) - 1);
          if x > int (length orders) then Some (''-1'', tm)
          else do {
            ro \<leftarrow> slot orders (x - 1);
            if order_status ro = refunded then Some (''-1'', tm)
            else do {
              okey \<leftarrow> StringAny_SetValue 24 user (order_ID ro);
              let tm1 = tm\<lparr>order_database :=
                             table_InsertEntry cmp3 okey (ro\<lparr>order_status := refunded\<rparr>) (order_database tm)\<rparr>;
              if order_status ro = pending then do {
                pkey \<leftarrow> StringIntInt_SetValue 24 (order_train ro) (order_day ro) (order_ID ro);
                Some (''0'', tm1\<lparr>pending_order_database :=
                                   table_DeleteEntry cmp5 pkey (pending_order_database tm1)\<rparr>) }
              else refund_success ro tm1 } } } })"

definition refund_ticket :: "command \<Rightarrow> accounts \<Rightarrow> train_mgmt \<Rightarrow> (string \<times> train_mgmt) option" where
  "refund_ticket line ac tm =
     (let (user, x) = parse_options refund_takes refund_option ([], 1) line in refund_ticket_run user x ac tm)"

end
