(* ===== verification/SeatInv.thy ===== *)
theory SeatInv
  imports Tickets
begin

text \<open>
  The invariant of the ticket data. For every train and day on sale and every station, the free
  seats and the seats of the successful orders add up to the seats of the train, and no more
  seats are sold than there are; an order waits in the queue exactly when its status says so, and
  the queue entry repeats the data of the order.

  \<open>seats_inv X\<close> leaves out the days in \<open>X\<close>: a handler that changes the orders of a day writes the
  seats of that day at its end.
\<close>

section \<open>The seats that are sold\<close>

definition order_share :: "string \<Rightarrow> time_type \<Rightarrow> int \<Rightarrow> order \<Rightarrow> int" where
  "order_share tid day i x =
     (if order_status x = success \<and> order_train x = tid \<and> order_day x = day \<and> order_from x \<le> i \<and> i < order_to x
      then order_qty x else 0)"

definition sold :: "(string_any, order) table \<Rightarrow> string_any \<Rightarrow> int \<Rightarrow> int" where
  "sold ords key i = (\<Sum>r\<leftarrow>rows ords. order_share (data_str key) (data_t key) i (snd r))"

context key_comparator
begin

lemma sum_al_insert:
  fixes f :: "'v \<Rightarrow> int"
  assumes "sorted_keys cmp es"
  shows "(\<Sum>r\<leftarrow>al_insert cmp k v es. f (snd r))
     = (\<Sum>r\<leftarrow>es. f (snd r)) - (case map_of es k of None \<Rightarrow> 0 | Some w \<Rightarrow> f w) + f v"
  using assms
proof (induction es)
  case (Cons e es)
  obtain a b where e: "e = (a, b)" by force
  consider "cmp k a < 0" | "k = a" | "\<not> cmp k a < 0" "k \<noteq> a" by blast
  then show ?case
  proof cases
    case 1
    have "\<forall>x \<in> set (e # es). cmp k (fst x) < 0"
      using Cons.prems 1 cmp_trans [of k a] by (auto simp: e)
    then have "map_of (e # es) k = None" by (rule map_of_sorted_above)
    then show ?thesis using 1 by (simp add: e)
  next
    case 2
    then show ?thesis by (simp add: e)
  next
    case 3
    then show ?thesis using Cons cmp_eq_iff [of k a] by (simp add: e split: option.splits)
  qed
qed simp

end

lemma sold_insert:
  assumes "table_ok cmp3 ords"
  shows "sold (table_InsertEntry cmp3 k x ords) key i
     = sold ords key i - (case table_map ords k of None \<Rightarrow> 0
          | Some y \<Rightarrow> order_share (data_str key) (data_t key) i y) + order_share (data_str key) (data_t key) i x"
  using string_any_key.sum_al_insert [of "rows ords" "order_share (data_str key) (data_t key) i" k x] assms
  by (simp add: sold_def table_InsertEntry_def table_ok_def)

section \<open>The invariant\<close>

definition short_str :: "nat \<Rightarrow> string \<Rightarrow> bool" where
  "short_str n s \<longleftrightarrow> length s < n \<and> cstr s = s"

definition seats_match :: "train \<Rightarrow> (int \<Rightarrow> int) \<Rightarrow> day_train \<Rightarrow> bool" where
  "seats_match tr sl d \<longleftrightarrow> total_seat_num tr \<le> MAX_INT \<and> - MAX_INT - 1 \<le> total_seat_num tr \<and> station_num tr < maxn \<and>
     (\<forall>i. 1 \<le> i \<and> i \<le> station_num tr \<longrightarrow>
        seat_num d i = Some (total_seat_num tr - sl i) \<and> (sl i = 0 \<or> 0 \<le> sl i \<and> sl i \<le> total_seat_num tr))"

definition day_ok :: "train_mgmt \<Rightarrow> string_any \<Rightarrow> day_train \<Rightarrow> bool" where
  "day_ok tm key d \<longleftrightarrow>
     (\<exists>tr. table_map (train_database tm) (data_str key) = Some tr \<and> is_released tr \<and>
           seats_match tr (sold (order_database tm) key) d)"

definition pend_key :: "order \<Rightarrow> string_int_int" where
  "pend_key x = \<lparr>key_str = order_train x, first_int = order_day x, second_int = order_ID x\<rparr>"

definition day_key :: "order \<Rightarrow> string_any" where
  "day_key x = \<lparr>data_str = order_train x, data_t = order_day x\<rparr>"

definition order_key :: "order \<Rightarrow> string_any" where
  "order_key x = \<lparr>data_str = order_user x, data_t = order_ID x\<rparr>"

definition pending_of :: "order \<Rightarrow> pending_order" where
  "pending_of x = \<lparr>pend_train = order_train x, pend_user = order_user x, pend_day = order_day x,
     pend_qty = order_qty x, pend_from = order_from x, pend_to = order_to x, pend_ID = order_ID x\<rparr>"

definition order_ok :: "train_mgmt \<Rightarrow> string_any \<Rightarrow> order \<Rightarrow> bool" where
  "order_ok tm key x \<longleftrightarrow> key = order_key x \<and> order_ID x \<le> order_num tm \<and> 0 \<le> order_qty x \<and>
     1 \<le> order_from x \<and> order_from x < order_to x \<and> short_str 22 (order_user x) \<and> short_str 22 (order_train x) \<and>
     (\<exists>tr. table_map (train_database tm) (order_train x) = Some tr \<and> is_released tr \<and> order_to x \<le> station_num tr) \<and>
     table_map (daytrain_database tm) (day_key x) \<noteq> None \<and>
     (order_status x = pending \<longrightarrow> table_map (pending_order_database tm) (pend_key x) = Some (pending_of x))"

definition pend_ok :: "train_mgmt \<Rightarrow> string_int_int \<Rightarrow> pending_order \<Rightarrow> bool" where
  "pend_ok tm key p \<longleftrightarrow>
     (\<exists>x. table_map (order_database tm) \<lparr>data_str = pend_user p, data_t = pend_ID p\<rparr> = Some x \<and>
          order_status x = pending \<and> p = pending_of x \<and> key = pend_key x)"

definition tables_ok :: "train_mgmt \<Rightarrow> bool" where
  "tables_ok tm \<longleftrightarrow> table_ok cmp1 (train_database tm) \<and> table_ok cmp2 (station_database tm) \<and>
     table_ok cmp3 (daytrain_database tm) \<and> table_ok cmp3 (order_database tm) \<and>
     table_ok cmp5 (pending_order_database tm)"

definition seats_inv :: "string_any set \<Rightarrow> train_mgmt \<Rightarrow> bool" where
  "seats_inv X tm \<longleftrightarrow> tables_ok tm \<and>
     (\<forall>k tr. table_map (train_database tm) k = Some tr \<longrightarrow>
        - MAX_INT - 1 \<le> total_seat_num tr \<and> total_seat_num tr \<le> MAX_INT) \<and>
     (\<forall>key d. table_map (daytrain_database tm) key = Some d \<longrightarrow> key \<notin> X \<longrightarrow> day_ok tm key d) \<and>
     (\<forall>key x. table_map (order_database tm) key = Some x \<longrightarrow> order_ok tm key x) \<and>
     (\<forall>k k' x y. table_map (order_database tm) k = Some x \<longrightarrow> table_map (order_database tm) k' = Some y \<longrightarrow>
        order_ID x = order_ID y \<longrightarrow> k = k') \<and>
     (\<forall>key p. table_map (pending_order_database tm) key = Some p \<longrightarrow> pend_ok tm key p)"

lemma seats_invD:
  assumes "seats_inv X tm"
  shows "tables_ok tm"
    "table_map (train_database tm) k = Some tr \<Longrightarrow> - MAX_INT - 1 \<le> total_seat_num tr \<and> total_seat_num tr \<le> MAX_INT"
    "table_map (daytrain_database tm) key = Some d \<Longrightarrow> key \<notin> X \<Longrightarrow> day_ok tm key d"
    "table_map (order_database tm) key = Some x \<Longrightarrow> order_ok tm key x"
    "table_map (pending_order_database tm) pkey = Some p \<Longrightarrow> pend_ok tm pkey p"
    "table_map (order_database tm) k1 = Some x1 \<Longrightarrow> table_map (order_database tm) k2 = Some x2 \<Longrightarrow>
       order_ID x1 = order_ID x2 \<Longrightarrow> k1 = k2"
  using assms unfolding seats_inv_def by blast+

lemma seats_invI:
  assumes "tables_ok tm"
    "\<And>k tr. table_map (train_database tm) k = Some tr \<Longrightarrow> - MAX_INT - 1 \<le> total_seat_num tr \<and> total_seat_num tr \<le> MAX_INT"
    "\<And>key d. table_map (daytrain_database tm) key = Some d \<Longrightarrow> key \<notin> X \<Longrightarrow> day_ok tm key d"
    "\<And>key x. table_map (order_database tm) key = Some x \<Longrightarrow> order_ok tm key x"
    "\<And>key p. table_map (pending_order_database tm) key = Some p \<Longrightarrow> pend_ok tm key p"
    "\<And>k k' x y. table_map (order_database tm) k = Some x \<Longrightarrow> table_map (order_database tm) k' = Some y \<Longrightarrow>
       order_ID x = order_ID y \<Longrightarrow> k = k'"
  shows "seats_inv X tm"
  using assms unfolding seats_inv_def by blast

section \<open>Keys\<close>

lemma StringAny_Some: "StringAny_SetValue n s d = Some k \<longleftrightarrow> k = \<lparr>data_str = cstr s, data_t = d\<rparr> \<and> length s < n"
  by (auto simp: StringAny_SetValue_def String_SetValue_Some)

lemma StringIntInt_Some:
  "StringIntInt_SetValue n s i j = Some k \<longleftrightarrow> k = \<lparr>key_str = cstr s, first_int = i, second_int = j\<rparr> \<and> length s < n"
  by (auto simp: StringIntInt_SetValue_def String_SetValue_Some)

lemma short_str_keys:
  "short_str 22 s \<Longrightarrow> StringAny_SetValue 24 s d = Some \<lparr>data_str = s, data_t = d\<rparr>"
  "short_str 22 s \<Longrightarrow> StringIntInt_SetValue 24 s d j = Some \<lparr>key_str = s, first_int = d, second_int = j\<rparr>"
  by (auto simp: short_str_def StringAny_Some StringIntInt_Some)

lemma order_share_other: "day_key x \<noteq> key \<Longrightarrow> order_share (data_str key) (data_t key) i x = 0"
  by (cases key) (auto simp: order_share_def day_key_def)

lemma order_share_nonneg: "0 \<le> order_qty x \<Longrightarrow> 0 \<le> order_share tid day i x"
  by (simp add: order_share_def)

lemma tables_ok_orders: "tables_ok tm \<Longrightarrow> tables_ok (tm\<lparr>order_database := table_InsertEntry cmp3 k x (order_database tm)\<rparr>)"
  by (simp add: tables_ok_def string_any_key.table_ok_insert)

text \<open>
  Storing an order: the seats of its own day are left out, those of the other days do not
  change, provided the order it replaces was of the same day.
\<close>

lemma day_ok_order:
  assumes "day_ok tm key d" "tables_ok tm" "day_key x \<noteq> key"
    and "\<And>y. table_map (order_database tm) k = Some y \<Longrightarrow> day_key y = day_key x"
  shows "day_ok (tm\<lparr>order_database := table_InsertEntry cmp3 k x (order_database tm)\<rparr>) key d"
proof -
  have "sold (table_InsertEntry cmp3 k x (order_database tm)) key i = sold (order_database tm) key i" for i
    using sold_insert [of "order_database tm" k x key i] assms(2,3) assms(4)
      order_share_other [of _ key i] by (auto simp: tables_ok_def split: option.splits)
  then show ?thesis using assms(1) by (simp add: day_ok_def seats_match_def)
qed

lemma seats_inv_mono: "seats_inv X tm \<Longrightarrow> X \<subseteq> Y \<Longrightarrow> seats_inv Y tm"
  unfolding seats_inv_def by blast

lemma pend_okD:
  assumes "pend_ok tm key p"
  obtains x where "table_map (order_database tm) (order_key x) = Some x" "order_status x = pending"
    "p = pending_of x" "key = pend_key x"
  using assms by (auto simp: pend_ok_def pending_of_def order_key_def)

definition with_order ::
    "int \<Rightarrow> order \<Rightarrow> (string_int_int, pending_order) table \<Rightarrow> train_mgmt \<Rightarrow> train_mgmt" where
  "with_order n x pdb tm =
     tm\<lparr>order_num := n, order_database := table_InsertEntry cmp3 (order_key x) x (order_database tm),
        pending_order_database := pdb\<rparr>"

lemma with_order_fields [simp]:
  "train_database (with_order n x pdb tm) = train_database tm"
  "station_database (with_order n x pdb tm) = station_database tm"
  "daytrain_database (with_order n x pdb tm) = daytrain_database tm"
  "order_database (with_order n x pdb tm) = table_InsertEntry cmp3 (order_key x) x (order_database tm)"
  "pending_order_database (with_order n x pdb tm) = pdb" "order_num (with_order n x pdb tm) = n"
  by (simp_all add: with_order_def)

text \<open>What has to hold of an order apart from its place in the tables.\<close>

definition order_data_ok :: "train_mgmt \<Rightarrow> order \<Rightarrow> bool" where
  "order_data_ok tm x \<longleftrightarrow> 0 \<le> order_qty x \<and> 1 \<le> order_from x \<and> order_from x < order_to x \<and>
     short_str 22 (order_user x) \<and> short_str 22 (order_train x) \<and>
     (\<exists>tr. table_map (train_database tm) (order_train x) = Some tr \<and> is_released tr \<and> order_to x \<le> station_num tr) \<and>
     table_map (daytrain_database tm) (day_key x) \<noteq> None"

lemma order_ok_iff:
  "order_ok tm key x \<longleftrightarrow> key = order_key x \<and> order_ID x \<le> order_num tm \<and> order_data_ok tm x \<and>
     (order_status x = pending \<longrightarrow> table_map (pending_order_database tm) (pend_key x) = Some (pending_of x))"
  by (auto simp: order_ok_def order_data_ok_def)

lemma store_order:
  assumes inv: "seats_inv X tm" and n: "order_num tm \<le> n" "order_ID x \<le> n" and dat: "order_data_ok tm x"
    and ids: "\<And>k y. table_map (order_database tm) k = Some y \<Longrightarrow> order_ID y = order_ID x \<Longrightarrow> k = order_key x \<and> day_key y = day_key x"
    and pdb: "table_ok cmp5 pdb" "table_map pdb = (table_map (pending_order_database tm))
       (pend_key x := if order_status x = pending then Some (pending_of x) else None)"
  shows "seats_inv (insert (day_key x) X) (with_order n x pdb tm)"
proof (rule seats_invI)
  note D = seats_invD [OF inv]
  let ?tm = "with_order n x pdb tm"
  have ords: "table_map (order_database ?tm) = (table_map (order_database tm))(order_key x \<mapsto> x)"
    by (simp add: string_any_key.table_map_insert)
  have id_key: "order_ID y = data_t k" if "table_map (order_database tm) k = Some y" for k y
    using D(4) [OF that] by (simp add: order_ok_iff order_key_def)
  show "tables_ok ?tm" using D(1) pdb(1) by (simp add: tables_ok_def string_any_key.table_ok_insert)
  show "- MAX_INT - 1 \<le> total_seat_num tr \<and> total_seat_num tr \<le> MAX_INT"
    if "table_map (train_database ?tm) k = Some tr" for k tr using D(2) that by simp
  show "day_ok ?tm key d" if "table_map (daytrain_database ?tm) key = Some d" "key \<notin> insert (day_key x) X" for key d
  proof -
    have "day_ok tm key d" using D(3) that by simp
    moreover have "day_key y = day_key x" if "table_map (order_database tm) (order_key x) = Some y" for y
      using ids [OF that] id_key [OF that] by (simp add: order_key_def)
    ultimately have "day_ok (tm\<lparr>order_database := table_InsertEntry cmp3 (order_key x) x (order_database tm)\<rparr>) key d"
      using day_ok_order [of tm key d x "order_key x"] D(1) that by auto
    then show ?thesis by (simp add: day_ok_def)
  qed
  have pend_other: "pend_key y \<noteq> pend_key x" if "table_map (order_database tm) k = Some y" "k \<noteq> order_key x" for k y
    using ids [OF that(1)] that(2) by (auto simp: pend_key_def)
  show "order_ok ?tm key y" if "table_map (order_database ?tm) key = Some y" for key y
  proof (cases "key = order_key x")
    case True
    then show ?thesis using that ords n dat pdb(2) by (auto simp: order_ok_iff order_data_ok_def)
  next
    case False
    then have y: "table_map (order_database tm) key = Some y" using that ords by simp
    then show ?thesis
      using D(4) [OF y] n(1) pdb(2) pend_other [OF y False] by (auto simp: order_ok_iff order_data_ok_def)
  qed
  show "pend_ok ?tm key p" if p: "table_map (pending_order_database ?tm) key = Some p" for key p
  proof (cases "key = pend_key x")
    case True
    then have "order_status x = pending" "p = pending_of x" using p pdb(2) by (auto split: if_splits)
    then show ?thesis using True ords by (simp add: pend_ok_def pending_of_def order_key_def)
  next
    case False
    then have "table_map (pending_order_database tm) key = Some p" using p pdb(2) by simp
    then obtain y where y: "table_map (order_database tm) (order_key y) = Some y" "order_status y = pending"
      "p = pending_of y" "key = pend_key y" using D(5) pend_okD by blast
    have "order_key y \<noteq> order_key x"
      using False y(4) ids [OF y(1)] by (auto simp: order_key_def pend_key_def day_key_def)
    then show ?thesis using y ords by (auto simp: pend_ok_def pending_of_def order_key_def)
  qed
  show "k = k'" if "table_map (order_database ?tm) k = Some y" "table_map (order_database ?tm) k' = Some z"
    "order_ID y = order_ID z" for k k' y z
    using that ords ids [of k y] ids [of k' z] D(6) [of k y k' z] by (auto split: if_splits)
qed

lemma write_day:
  assumes inv: "seats_inv (insert key X) tm" and "table_map (train_database tm) (data_str key) = Some tr"
    and "is_released tr" "seats_match tr (sold (order_database tm) key) d"
  shows "seats_inv (X - {key}) (tm\<lparr>daytrain_database := table_InsertEntry cmp3 key d (daytrain_database tm)\<rparr>)"
proof (rule seats_invI)
  note D = seats_invD [OF inv]
  let ?tm = "tm\<lparr>daytrain_database := table_InsertEntry cmp3 key d (daytrain_database tm)\<rparr>"
  have days: "table_map (daytrain_database ?tm) = (table_map (daytrain_database tm))(key \<mapsto> d)"
    by (simp add: string_any_key.table_map_insert)
  show "tables_ok ?tm" using D(1) by (simp add: tables_ok_def string_any_key.table_ok_insert)
  show "- MAX_INT - 1 \<le> total_seat_num tr \<and> total_seat_num tr \<le> MAX_INT"
    if "table_map (train_database ?tm) k = Some tr" for k tr using D(2) that by simp
  show "day_ok ?tm k e" if "table_map (daytrain_database ?tm) k = Some e" "k \<notin> X - {key}" for k e
    using that days D(3) [of k e] assms(2-4) by (auto simp: day_ok_def split: if_splits)
  show "order_ok ?tm k x" if "table_map (order_database ?tm) k = Some x" for k x
    using D(4) [of k x] that days by (auto simp: order_ok_iff order_data_ok_def)
  show "pend_ok ?tm k p" if "table_map (pending_order_database ?tm) k = Some p" for k p
    using D(5) [of k p] that by (simp add: pend_ok_def)
  show "k = k'" if "table_map (order_database ?tm) k = Some y" "table_map (order_database ?tm) k' = Some z"
    "order_ID y = order_ID z" for k k' y z using D(6) [of k y k' z] that by simp
qed

end
