(* ===== verification/SeatSafety.thy ===== *)
theory SeatSafety
  imports SeatInv
begin

text \<open>
  Every handler keeps the invariant of the ticket data: buying, queueing and refunding with the
  settlement of the queue, and the handlers that add, release and delete trains.
\<close>

section \<open>Taking and giving back seats\<close>

lemma seats_matchD:
  assumes "seats_match tr sl d" "1 \<le> i" "i \<le> station_num tr"
  shows "seat_num d i = Some (total_seat_num tr - sl i)" "array_read (seat_num d) i = Some (total_seat_num tr - sl i)"
    "sl i = 0 \<or> 0 \<le> sl i \<and> sl i \<le> total_seat_num tr"
  using assms by (auto simp: seats_match_def array_read_def)

lemma modify_seat_match:
  assumes "seats_match tr sl d" "1 \<le> f" "f < t" "t \<le> station_num tr" "modify_seat f (t - 1) v d = Some d'"
  shows "seat_num d' i = (if f \<le> i \<and> i < t then Some (int32 (total_seat_num tr - sl i + v)) else seat_num d i)"
proof -
  have "modify_loop f (t - 1) v (seat_num d)
      = Some (\<lambda>i. if f \<le> i \<and> i \<le> t - 1 then map_option (\<lambda>x. int32 (x + v)) (seat_num d i) else seat_num d i)"
    using assms by (intro modify_loop_eq) (auto simp: seats_match_def)
  then show ?thesis
    using assms seats_matchD(1) [OF assms(1), of i] by (auto simp: modify_seat_def)
qed

lemma take_seats:
  assumes m: "seats_match tr sl d" and "1 \<le> f" "f < t" "t \<le> station_num tr" "0 \<le> num"
    and "query_seat f (t - 1) d = Some q" "num \<le> q" "modify_seat f (t - 1) (- num) d = Some d'"
    and sl': "\<And>i. sl' i = sl i + (if f \<le> i \<and> i < t then num else 0)"
  shows "seats_match tr sl' d'"
  unfolding seats_match_def
proof (intro conjI allI impI)
  fix i assume i: "1 \<le> i \<and> i \<le> station_num tr"
  note mi = seats_matchD [OF m, of i]
  have new: "seat_num d' i = (if f \<le> i \<and> i < t then Some (int32 (total_seat_num tr - sl i + - num)) else seat_num d i)"
    by (rule modify_seat_match [OF m assms(2-4,8)])
  have enough: "num \<le> total_seat_num tr - sl i" if "f \<le> i" "i < t"
    using query_seat_le [OF assms(6), of i] that mi(2) i assms(7) by auto
  show "seat_num d' i = Some (total_seat_num tr - sl' i)"
    using new mi i sl' [of i] enough m \<open>0 \<le> num\<close> by (auto simp: seats_match_def MAX_INT_def int32_id)
  show "sl' i = 0 \<or> 0 \<le> sl' i \<and> sl' i \<le> total_seat_num tr"
    using mi(3) i sl' [of i] enough \<open>0 \<le> num\<close> by auto
qed (use m in \<open>simp_all add: seats_match_def\<close>)

lemma give_seats:
  assumes m: "seats_match tr sl d" and "1 \<le> f" "f < t" "t \<le> station_num tr" "0 \<le> num"
    and "modify_seat f (t - 1) num d = Some d'"
    and sl': "\<And>i. sl' i = sl i - (if f \<le> i \<and> i < t then num else 0)" and pos: "\<And>i. 0 \<le> sl' i"
  shows "seats_match tr sl' d'"
  unfolding seats_match_def
proof (intro conjI allI impI)
  fix i assume i: "1 \<le> i \<and> i \<le> station_num tr"
  note mi = seats_matchD [OF m, of i]
  have new: "seat_num d' i = (if f \<le> i \<and> i < t then Some (int32 (total_seat_num tr - sl i + num)) else seat_num d i)"
    by (rule modify_seat_match [OF m assms(2-4,6)])
  show "seat_num d' i = Some (total_seat_num tr - sl' i)"
    using new mi i sl' [of i] pos [of i] m \<open>0 \<le> num\<close> by (auto simp: seats_match_def MAX_INT_def int32_id)
  show "sl' i = 0 \<or> 0 \<le> sl' i \<and> sl' i \<le> total_seat_num tr"
    using mi(3) i sl' [of i] pos [of i] \<open>0 \<le> num\<close> by auto
qed (use m in \<open>simp_all add: seats_match_def\<close>)

lemma sold_nonneg:
  assumes "seats_inv X tm"
  shows "0 \<le> sold (order_database tm) key i"
  unfolding sold_def
proof (rule sum_list_nonneg)
  fix v assume "v \<in> set (map (\<lambda>r. order_share (data_str key) (data_t key) i (snd r)) (rows (order_database tm)))"
  then obtain k x where "(k, x) \<in> set (rows (order_database tm))" "v = order_share (data_str key) (data_t key) i x" by auto
  moreover from this have "order_ok tm k x"
    using string_any_key.table_rows_map [of "order_database tm" k x] seats_invD(1,4) [OF assms] by (simp add: tables_ok_def)
  ultimately show "0 \<le> v" by (simp add: order_ok_def order_share_nonneg)
qed

section \<open>Buying\<close>

lemma Order_Some:
  assumes "Order usr tid n pr oid day lea arr sts f t fs ts = Some x"
  shows "order_user x = cstr usr" "order_train x = cstr tid" "order_qty x = n" "order_ID x = oid" "order_day x = day"
    "order_price x = pr" "order_status x = sts" "order_from x = f" "order_to x = t" "short_str 22 (order_user x)" "short_str 22 (order_train x)"
  using assms by (auto simp: Order_def bind_Some_iff short_str_def dest!: strcpy_len)

lemma PendingOrder_Some:
  "PendingOrder tid usr day n f t oid = Some p \<Longrightarrow>
     p = \<lparr>pend_train = cstr tid, pend_user = cstr usr, pend_day = day, pend_qty = n, pend_from = f, pend_to = t, pend_ID = oid\<rparr>"
  by (auto simp: PendingOrder_def bind_Some_iff dest!: strcpy_len)

text \<open>An order with a number above all others is not in the tables.\<close>

lemma fresh_order:
  assumes "seats_inv X tm" "order_num tm < order_ID x"
  shows "table_map (order_database tm) k = Some y \<Longrightarrow> order_ID y \<noteq> order_ID x"
    "table_map (pending_order_database tm) (pend_key x) = None" "table_map (order_database tm) (order_key x) = None"
proof -
  show ne: "order_ID y \<noteq> order_ID x" if "table_map (order_database tm) k = Some y" for k y
    using seats_invD(4) [OF assms(1) that] assms(2) by (auto simp: order_ok_def)
  show "table_map (pending_order_database tm) (pend_key x) = None"
  proof (rule ccontr)
    assume "table_map (pending_order_database tm) (pend_key x) \<noteq> None"
    then obtain p where "table_map (pending_order_database tm) (pend_key x) = Some p" by auto
    then obtain y where "table_map (order_database tm) (order_key y) = Some y" "pend_key x = pend_key y"
      using seats_invD(5) [OF assms(1)] pend_okD by metis
    then show False using ne by (auto simp: pend_key_def)
  qed
  show "table_map (order_database tm) (order_key x) = None"
  proof (rule ccontr)
    assume "table_map (order_database tm) (order_key x) \<noteq> None"
    then obtain y where y: "table_map (order_database tm) (order_key x) = Some y" by auto
    then show False using ne [OF y] seats_invD(4) [OF assms(1) y] by (simp add: order_ok_def order_key_def)
  qed
qed

lemma sold_fresh:
  assumes "seats_inv X tm" "order_num tm < order_ID x"
  shows "sold (table_InsertEntry cmp3 (order_key x) x (order_database tm)) key i
     = sold (order_database tm) key i + order_share (data_str key) (data_t key) i x"
  using sold_insert [of "order_database tm" "order_key x" x key i] seats_invD(1) [OF assms(1)] fresh_order(3) [OF assms]
  by (simp add: tables_ok_def)

text \<open>
  The two ways \<^verbatim>\<open>buy_ticket\<close> changes the state: \<open>x\<close> is the new order, with the next number.
\<close>

lemma mgmt_update_swap:
  "tm\<lparr>order_num := n, daytrain_database := d, order_database := x\<rparr>
     = tm\<lparr>order_num := n, order_database := x, daytrain_database := d\<rparr>"
  by (cases tm) simp

lemma buy_order_ok:
  assumes inv: "seats_inv {} tm" and x: "order_ID x = order_num tm + 1" "order_data_ok tm x" "order_status x = success"
    and d: "table_map (daytrain_database tm) (day_key x) = Some d" "query_seat (order_from x) (order_to x - 1) d = Some q"
      "order_qty x \<le> q" "modify_seat (order_from x) (order_to x - 1) (- order_qty x) d = Some d'"
  shows "seats_inv {} (tm\<lparr>order_num := order_num tm + 1,
       daytrain_database := table_InsertEntry cmp3 (day_key x) d' (daytrain_database tm),
       order_database := table_InsertEntry cmp3 (order_key x) x (order_database tm)\<rparr>)"
proof -
  let ?tm1 = "with_order (order_num tm + 1) x (pending_order_database tm) tm"
  have fresh: "order_num tm < order_ID x" using x(1) by simp
  have "seats_inv {day_key x} ?tm1"
    using fresh_order [OF inv fresh] x seats_invD(1) [OF inv]
    by (intro store_order [OF inv]) (auto simp: tables_ok_def fun_upd_idem_iff)
  moreover obtain tr where tr: "table_map (train_database tm) (order_train x) = Some tr" "is_released tr"
    "seats_match tr (sold (order_database tm) (day_key x)) d"
    using seats_invD(3) [OF inv d(1)] by (auto simp: day_ok_def day_key_def)
  moreover have "order_to x \<le> station_num tr" using x(2) tr(1) by (auto simp: order_data_ok_def)
  then have "seats_match tr (sold (order_database ?tm1) (day_key x)) d'"
    using x d tr by (intro take_seats [OF tr(3) _ _ _ _ d(2,3,4)])
      (auto simp: order_data_ok_def sold_fresh [OF inv fresh] order_share_def day_key_def)
  ultimately show ?thesis
    using write_day [of "day_key x" "{}" ?tm1 tr d'] unfolding mgmt_update_swap by (simp add: with_order_def day_key_def)
qed

lemma neutral_order:
  assumes inv: "seats_inv {} tm" and i1: "seats_inv {day_key x} (with_order n x pdb tm)"
    and same: "\<And>key i. sold (table_InsertEntry cmp3 (order_key x) x (order_database tm)) key i = sold (order_database tm) key i"
  shows "seats_inv {} (with_order n x pdb tm)"
proof (rule seats_invI)
  let ?tm1 = "with_order n x pdb tm"
  show "day_ok ?tm1 key d" if "table_map (daytrain_database ?tm1) key = Some d" for key d
  proof -
    have "day_ok tm key d" using seats_invD(3) [OF inv, of key d] that by simp
    moreover have "sold (order_database ?tm1) key = sold (order_database tm) key" using same by (simp add: fun_eq_iff)
    ultimately show ?thesis by (simp add: day_ok_def)
  qed
qed (use seats_invD [OF i1] in \<open>blast+\<close>)

lemma queue_order_ok:
  assumes inv: "seats_inv {} tm" and x: "order_ID x = order_num tm + 1" "order_data_ok tm x" "order_status x = pending"
  shows "seats_inv {} (tm\<lparr>order_num := order_num tm + 1,
       order_database := table_InsertEntry cmp3 (order_key x) x (order_database tm),
       pending_order_database := table_InsertEntry cmp5 (pend_key x) (pending_of x) (pending_order_database tm)\<rparr>)"
proof -
  let ?pdb = "table_InsertEntry cmp5 (pend_key x) (pending_of x) (pending_order_database tm)"
  have fresh: "order_num tm < order_ID x" using x(1) by simp
  have "seats_inv {day_key x} (with_order (order_num tm + 1) x ?pdb tm)"
    using fresh_order [OF inv fresh] x seats_invD(1) [OF inv]
    by (intro store_order [OF inv]) (auto simp: tables_ok_def string_int_int_key.table_map_insert)
  then have "seats_inv {} (with_order (order_num tm + 1) x ?pdb tm)"
    by (rule neutral_order [OF inv]) (use x(3) in \<open>simp add: sold_fresh [OF inv fresh] order_share_def\<close>)
  then show ?thesis by (simp add: with_order_def)
qed

lemma first_result_search: "first_result (table_SearchKey k tb) = table_map tb k"
  by (auto simp: first_result_def table_SearchKey_def split: option.splits)

lemma case_search:
  "(case table_SearchKey k tb of [] \<Rightarrow> a | x # xs \<Rightarrow> f x) = (case table_map tb k of None \<Rightarrow> a | Some x \<Rightarrow> f x)"
  by (auto simp: table_SearchKey_def split: option.splits)

text \<open>
  The stops a traveller names. \<^verbatim>\<open>buy_ticket\<close> scans the stations from the first one and stops when
  both names are found; where no name occurs twice it finds the two stops.
\<close>

definition stop_at :: "train \<Rightarrow> string \<Rightarrow> int \<Rightarrow> bool" where
  "stop_at tr S k \<longleftrightarrow> 1 \<le> k \<and> k \<le> station_num tr \<and> array_read (stations tr) k = Some (cstr S)"

definition stations_distinct :: "train \<Rightarrow> bool" where
  "stations_distinct tr \<longleftrightarrow> (\<forall>i j x. 1 \<le> i \<and> i < j \<and> j \<le> station_num tr \<and> array_read (stations tr) i = Some x \<longrightarrow>
     array_read (stations tr) j \<noteq> Some x)"

definition found :: "train \<Rightarrow> string \<Rightarrow> int \<Rightarrow> int \<Rightarrow> bool" where
  "found tr S i s \<longleftrightarrow> (if s = 0 then \<forall>k < i. \<not> stop_at tr S k else stop_at tr S s)"

lemma find_stations_found:
  assumes "find_stations tr S T i s t = Some (s', t')" "1 \<le> i" "found tr S i s" "found tr T i t"
  shows "\<exists>j. found tr S j s' \<and> found tr T j t' \<and> (s' = 0 \<or> t' = 0 \<longrightarrow> station_num tr < j)"
  using assms
proof (induction tr S T i s t rule: find_stations.induct)
  case (1 tr S T i s t)
  show ?case
  proof (cases "i \<le> station_num tr \<and> \<not> (s \<noteq> 0 \<and> t \<noteq> 0)")
    case True
    then obtain nm where nm: "array_read (stations tr) i = Some nm"
      using "1.prems"(1) by (auto simp: find_stations.simps [of tr S T i s t] bind_Some_iff)
    have step: "found tr N (i + 1) (if strcmp nm (cstr N) = 0 then i else n)" if "found tr N i n" for N n
      using that nm True "1.prems"(2) by (auto simp: found_def stop_at_def zless_add1_eq le_less)
    show ?thesis
      by (rule "1.IH" [OF True nm refl refl])
        (use "1.prems" True nm step in \<open>simp_all add: find_stations.simps [of tr S T i s t]\<close>)
  next
    case False
    then have "s' = s" "t' = t" using "1.prems"(1) by (auto simp: find_stations.simps [of tr S T i s t] split: if_splits)
    then show ?thesis using "1.prems"(3,4) False by (intro exI [of _ i]) auto
  qed
qed

lemma find_stations_stops:
  assumes "find_stations tr S T 1 0 0 = Some (s, t)"
  shows "s \<noteq> 0 \<Longrightarrow> stop_at tr S s" "t \<noteq> 0 \<Longrightarrow> stop_at tr T t"
    "\<not> (s \<noteq> 0 \<and> t \<noteq> 0 \<and> s < t) \<Longrightarrow> stations_distinct tr \<Longrightarrow> \<not> (\<exists>a b. stop_at tr S a \<and> stop_at tr T b \<and> a < b)"
proof -
  have "found tr N 1 0" for N by (simp add: found_def stop_at_def)
  then obtain j where j: "found tr S j s" "found tr T j t" "s = 0 \<or> t = 0 \<longrightarrow> station_num tr < j"
    using find_stations_found [OF assms] by auto
  show "s \<noteq> 0 \<Longrightarrow> stop_at tr S s" "t \<noteq> 0 \<Longrightarrow> stop_at tr T t" using j by (simp_all add: found_def)
  assume bad: "\<not> (s \<noteq> 0 \<and> t \<noteq> 0 \<and> s < t)" and dis: "stations_distinct tr"
  have one: "x = y" if "stop_at tr N x" "stop_at tr N y" for N x y
    using that dis unfolding stations_distinct_def stop_at_def by (metis linorder_neqE_linordered_idom)
  show "\<not> (\<exists>a b. stop_at tr S a \<and> stop_at tr T b \<and> a < b)"
  proof
    assume "\<exists>a b. stop_at tr S a \<and> stop_at tr T b \<and> a < b"
    then obtain a b where ab: "stop_at tr S a" "stop_at tr T b" "a < b" by blast
    then have "s \<noteq> 0" "t \<noteq> 0" using j by (auto simp: found_def stop_at_def)
    moreover from this have "s = a" "t = b" using j(1,2) one ab by (auto simp: found_def)
    ultimately show False using bad ab(3) by simp
  qed
qed

text \<open>
  The day the train leaves its first station, and the reasons for which \<^verbatim>\<open>buy_ticket\<close> refuses.
\<close>

definition travel_day :: "buy_options \<Rightarrow> train \<Rightarrow> int \<Rightarrow> time_type option" where
  "travel_day o' tr s =
     do { day \<leftarrow> TimeType_of_string (bo_date o' @ '' 00:00'');
          lea \<leftarrow> array_read (leaving_times tr) s;
          Some (time_sub day (get_date lea)) }"

definition no_journey :: "buy_options \<Rightarrow> train \<Rightarrow> bool" where
  "no_journey o' tr \<longleftrightarrow>
     (\<exists>s t. find_stations tr (bo_from o') (bo_to o') 1 0 0 = Some (s, t) \<and> \<not> (s \<noteq> 0 \<and> t \<noteq> 0 \<and> s < t)) \<and>
     (stations_distinct tr \<longrightarrow> \<not> (\<exists>s t. stop_at tr (bo_from o') s \<and> stop_at tr (bo_to o') t \<and> s < t))"

definition not_sold :: "buy_options \<Rightarrow> train_mgmt \<Rightarrow> train \<Rightarrow> int \<Rightarrow> bool" where
  "not_sold o' tm tr num \<longleftrightarrow>
     (\<exists>s t day. stop_at tr (bo_from o') s \<and> stop_at tr (bo_to o') t \<and> s < t \<and> travel_day o' tr s = Some day \<and>
        (day < start_sale_date tr \<or> end_sale_date tr < day \<or>
         (\<exists>tp q. table_map (daytrain_database tm) \<lparr>data_str = cstr (bo_train o'), data_t = day\<rparr> = Some tp \<and>
            query_seat s (t - 1) tp = Some q \<and> q < num \<and> \<not> bo_pending o')))"

definition purchase_refused :: "buy_options \<Rightarrow> accounts \<Rightarrow> train_mgmt \<Rightarrow> bool" where
  "purchase_refused o' ac tm \<longleftrightarrow> login_pool ac (bo_user o') = None \<or>
     (case table_map (train_database tm) (cstr (bo_train o')) of None \<Rightarrow> True
      | Some tr \<Rightarrow> \<not> is_released tr \<or>
          (\<exists>num. bo_num o' = Some num \<and> (total_seat_num tr < num \<or> no_journey o' tr \<or> not_sold o' tm tr num)))"

lemma buy_ticket_cases:
  assumes "buy_ticket_run o' ac tm = Some (r, tm')"
  obtains (refused) "r = ''-1''" "tm' = tm" "purchase_refused o' ac tm"
  | (placed) tr num s t day tp q where "login_pool ac (bo_user o') \<noteq> None"
      "table_map (train_database tm) (cstr (bo_train o')) = Some tr" "is_released tr" "bo_num o' = Some num"
      "num \<le> total_seat_num tr" "stop_at tr (bo_from o') s" "s < t" "stop_at tr (bo_to o') t"
      "travel_day o' tr s = Some day" "start_sale_date tr \<le> day" "day \<le> end_sale_date tr"
      "table_map (daytrain_database tm) \<lparr>data_str = cstr (bo_train o'), data_t = day\<rparr> = Some tp"
      "query_seat s (t - 1) tp = Some q" "bo_pending o' \<or> num \<le> q"
      "place_order o' tr s t num day tp q tm = Some (r, tm')"
proof (cases "login_pool ac (bo_user o') = None")
  case True
  then show thesis using assms refused by (simp add: buy_ticket_run_def purchase_refused_def)
next
  case log: False
  show thesis
  proof (cases "\<exists>tr. table_map (train_database tm) (cstr (bo_train o')) = Some tr \<and> is_released tr")
    case False
    then show thesis
      using assms log refused
      by (auto simp: buy_ticket_run_def purchase_refused_def case_search bind_Some_iff String_SetValue_Some
          split: option.splits if_splits)
  next
    case True
    then obtain tr where tr: "table_map (train_database tm) (cstr (bo_train o')) = Some tr" "is_released tr" by blast
    obtain num where num: "bo_num o' = Some num"
      using assms log tr by (auto simp: buy_ticket_run_def case_search bind_Some_iff String_SetValue_Some)
    have refuse: thesis if "r = ''-1''" "tm' = tm" "total_seat_num tr < num \<or> no_journey o' tr \<or> not_sold o' tm tr num"
      using refused that tr num by (simp add: purchase_refused_def)
    show thesis
    proof (cases "total_seat_num tr < num")
      case True
      then show thesis
        using assms log tr num refuse
        by (auto simp: buy_ticket_run_def case_search bind_Some_iff String_SetValue_Some)
    next
      case few: False
      obtain s t where st: "find_stations tr (bo_from o') (bo_to o') 1 0 0 = Some (s, t)"
        using assms log tr num few by (auto simp: buy_ticket_run_def case_search bind_Some_iff String_SetValue_Some)
      note F = find_stations_stops [OF st]
      show thesis
      proof (cases "s \<noteq> 0 \<and> t \<noteq> 0 \<and> s < t")
        case False
        then have "no_journey o' tr" using st F(3) by (auto simp: no_journey_def)
        then show thesis
          using assms log tr num few st False refuse
          by (auto simp: buy_ticket_run_def case_search bind_Some_iff String_SetValue_Some)
      next
        case True
        then have stops: "stop_at tr (bo_from o') s" "stop_at tr (bo_to o') t" "s < t" using F by auto
        obtain day0 lea where dl: "TimeType_of_string (bo_date o' @ '' 00:00'') = Some day0" "array_read (leaving_times tr) s = Some lea"
          and key: "String_SetValue 24 (bo_train o') = Some (cstr (bo_train o'))"
          using assms log tr num few st True
          by (auto simp: buy_ticket_run_def case_search bind_Some_iff String_SetValue_Some)
        define day where "day = time_sub day0 (get_date lea)"
        have day: "travel_day o' tr s = Some day" using dl by (simp add: travel_day_def day_def)
        have rest: "(if day < start_sale_date tr \<or> day > end_sale_date tr then Some (''-1'', tm)
            else do {
              dkey \<leftarrow> StringAny_SetValue 24 (bo_train o') day;
              tp \<leftarrow> first_result (table_SearchKey dkey (daytrain_database tm));
              remain_seat \<leftarrow> query_seat s (t - 1) tp;
              if \<not> bo_pending o' \<and> remain_seat < num then Some (''-1'', tm)
              else place_order o' tr s t num day tp remain_seat tm }) = Some (r, tm')"
          using assms log tr num few st True dl key
          by (simp add: buy_ticket_run_def case_search Let_def day_def cong: if_cong split del: if_split)
        show thesis
        proof (cases "r = ''-1'' \<and> tm' = tm \<and> not_sold o' tm tr num")
          case True
          then show thesis using refuse by blast
        next
          case False
          then show thesis
            using rest stops day tr num few log placed [of tr num s t day]
            by (fastforce simp: not_sold_def StringAny_Some first_result_search bind_Some_iff not_less split: if_splits)
        qed
      qed
    qed
  qed
qed

text \<open>
  The order a purchase stores: its price is the difference of the price sums, its times and names
  are those of the two stops.
\<close>

definition order_of_purchase ::
    "buy_options \<Rightarrow> train \<Rightarrow> int \<Rightarrow> int \<Rightarrow> int \<Rightarrow> time_type \<Rightarrow> int \<Rightarrow> status \<Rightarrow> order \<Rightarrow> bool" where
  "order_of_purchase o' tr num s t day oid sts x \<longleftrightarrow>
     (\<exists>ps pt lea arr. array_read (price_sum tr) s = Some ps \<and> array_read (price_sum tr) t = Some pt \<and>
        array_read (leaving_times tr) s = Some lea \<and> array_read (arriving_times tr) t = Some arr \<and>
        x = \<lparr>order_user = cstr (bo_user o'), order_train = cstr (bo_train o'), order_qty = num,
             order_price = int32 (pt - ps), order_ID = oid, order_day = day, order_leaving = lea,
             order_arriving = arr, order_status = sts, order_from = s, order_to = t,
             from_station = cstr (bo_from o'), to_station = cstr (bo_to o')\<rparr>)"

lemma Order_eq:
  "Order usr tid n pr oid day lea arr sts f t fs ts = Some x \<Longrightarrow>
     x = \<lparr>order_user = cstr usr, order_train = cstr tid, order_qty = n, order_price = pr, order_ID = oid,
          order_day = day, order_leaving = lea, order_arriving = arr, order_status = sts, order_from = f,
          order_to = t, from_station = cstr fs, to_station = cstr ts\<rparr>"
  by (auto simp: Order_def bind_Some_iff dest!: strcpy_len)

lemma place_order_cases:
  assumes "place_order o' tr s t num day tp q tm = Some (r, tm')" "order_num tm < MAX_INT" "- MAX_INT - 1 \<le> order_num tm"
    "stop_at tr (bo_from o') s" "stop_at tr (bo_to o') t"
  obtains x where
    "order_of_purchase o' tr num s t day (order_num tm + 1) (if num \<le> q then success else pending) x"
    "short_str 22 (order_user x)" "short_str 22 (order_train x)"
    "if num \<le> q then r = to_string (int32 (num * order_price x)) \<and>
       (\<exists>tp'. modify_seat s (t - 1) (- num) tp = Some tp' \<and>
          tm' = tm\<lparr>order_num := order_num tm + 1,
             daytrain_database := table_InsertEntry cmp3 (day_key x) tp' (daytrain_database tm),
             order_database := table_InsertEntry cmp3 (order_key x) x (order_database tm)\<rparr>)
     else r = ''queue'' \<and>
       tm' = tm\<lparr>order_num := order_num tm + 1,
          order_database := table_InsertEntry cmp3 (order_key x) x (order_database tm),
          pending_order_database := table_InsertEntry cmp5 (pend_key x) (pending_of x) (pending_order_database tm)\<rparr>"
proof -
  have oid: "int32 (order_num tm + 1) = order_num tm + 1" using assms(2,3) by (simp add: int32_id MAX_INT_def)
  have names: "array_read (stations tr) s = Some (cstr (bo_from o'))" "array_read (stations tr) t = Some (cstr (bo_to o'))"
    using assms(4,5) by (simp_all add: stop_at_def)
  obtain ps pt lea arr x where
    a: "array_read (price_sum tr) s = Some ps" "array_read (price_sum tr) t = Some pt"
      "array_read (leaving_times tr) s = Some lea" "array_read (arriving_times tr) t = Some arr" and
    x: "Order (bo_user o') (bo_train o') num (int32 (pt - ps)) (order_num tm + 1) day lea arr success s t
          (cstr (bo_from o')) (cstr (bo_to o')) = Some x"
    using assms(1) names by (auto simp: place_order_def bind_Some_iff Let_def oid)
  note X = Order_Some [OF x]
  note E = Order_eq [OF x]
  show thesis
  proof (cases "num \<le> q")
    case True
    then obtain tp' where m: "modify_seat s (t - 1) (- num) tp = Some tp'" and r: "r = to_string (int32 (num * int32 (pt - ps)))"
      and tm': "tm' = tm\<lparr>order_num := order_num tm + 1,
        daytrain_database := table_InsertEntry cmp3 \<lparr>data_str = cstr (bo_train o'), data_t = day\<rparr> tp' (daytrain_database tm),
        order_database := table_InsertEntry cmp3 \<lparr>data_str = cstr (bo_user o'), data_t = order_num tm + 1\<rparr> x (order_database tm)\<rparr>"
      using assms(1) names a x by (auto simp: place_order_def bind_Some_iff Let_def oid StringAny_Some)
    have "order_of_purchase o' tr num s t day (order_num tm + 1) success x"
      unfolding order_of_purchase_def using a E by simp
    moreover have "day_key x = \<lparr>data_str = cstr (bo_train o'), data_t = day\<rparr>"
      "order_key x = \<lparr>data_str = cstr (bo_user o'), data_t = order_num tm + 1\<rparr>"
      using X by (simp_all add: day_key_def order_key_def)
    ultimately show thesis using True m r tm' X by (intro that [of x]) auto
  next
    case False
    then obtain p where p: "PendingOrder (bo_train o') (bo_user o') day num s t (order_num tm + 1) = Some p"
      and r: "r = ''queue''"
      and tm': "tm' = tm\<lparr>order_num := order_num tm + 1,
        order_database := table_InsertEntry cmp3 \<lparr>data_str = cstr (bo_user o'), data_t = order_num tm + 1\<rparr>
          (x\<lparr>order_status := pending\<rparr>) (order_database tm),
        pending_order_database := table_InsertEntry cmp5
          \<lparr>key_str = cstr (bo_train o'), first_int = day, second_int = order_num tm + 1\<rparr> p (pending_order_database tm)\<rparr>"
      using assms(1) names a x by (auto simp: place_order_def bind_Some_iff Let_def oid StringAny_Some StringIntInt_Some)
    let ?x = "x\<lparr>order_status := pending\<rparr>"
    have "order_of_purchase o' tr num s t day (order_num tm + 1) pending ?x"
      unfolding order_of_purchase_def using a E by simp
    moreover have "order_key ?x = \<lparr>data_str = cstr (bo_user o'), data_t = order_num tm + 1\<rparr>" "pending_of ?x = p"
      "pend_key ?x = \<lparr>key_str = cstr (bo_train o'), first_int = day, second_int = order_num tm + 1\<rparr>"
      using X PendingOrder_Some [OF p] by (simp_all add: pend_key_def order_key_def pending_of_def)
    ultimately show thesis using False tm' r X by (intro that [of ?x]) auto
  qed
qed

lemma order_of_purchase_fields:
  assumes "order_of_purchase o' tr num s t day oid sts x"
  shows "order_user x = cstr (bo_user o')" "order_train x = cstr (bo_train o')" "order_qty x = num" "order_ID x = oid"
    "order_day x = day" "order_status x = sts" "order_from x = s" "order_to x = t"
  using assms by (auto simp: order_of_purchase_def)

lemma buy_ticket_ok:
  assumes inv: "seats_inv {} tm" and n: "order_num tm < MAX_INT" "- MAX_INT - 1 \<le> order_num tm"
    and num: "\<And>num. bo_num o' = Some num \<Longrightarrow> 0 \<le> num" and run: "buy_ticket_run o' ac tm = Some (r, tm')"
  shows "seats_inv {} tm'"
  using run
proof (cases rule: buy_ticket_cases)
  case refused
  then show ?thesis using inv by simp
next
  case (placed tr num s t day tp q)
  note P = placed
  from placed(15) n placed(6,8) show ?thesis
  proof (cases rule: place_order_cases)
    case (1 x)
    note X = order_of_purchase_fields [OF 1(1)]
    have x: "order_data_ok tm x" "day_key x = \<lparr>data_str = cstr (bo_train o'), data_t = day\<rparr>"
      using 1(2,3) X P num by (auto simp: order_data_ok_def day_key_def stop_at_def)
    show ?thesis
    proof (cases "num \<le> q")
      case True
      then show ?thesis
        using 1(4) buy_order_ok [OF inv X(4) x(1), of tp q] P(12,13) x(2) X by auto
    next
      case False
      then show ?thesis using 1(4) queue_order_ok [OF inv X(4) x(1)] X by simp
    qed
  qed
qed

section \<open>Refunding\<close>

lemma scan_rows:
  assumes "standby_comparator cmp scmp" "table_ok cmp tb"
  shows "table_ScanKey cmp k scmp tb = map snd (filter (\<lambda>e. \<not> cmp (fst e) k < 0 \<and> scmp k (fst e) = 0) (rows tb))"
  using standby_comparator.al_scan_eq_filter [OF assms(1), of "rows tb" k] assms(2)
  by (simp add: table_ScanKey_def table_ok_def)

lemma order_scan_rows:
  assumes "order_scan user tm = Some os" "tables_ok tm" "x \<in> set os"
  obtains k where "table_map (order_database tm) k = Some x" "data_str k = cstr user"
proof -
  have ok: "table_ok cmp3 (order_database tm)" using assms(2) by (simp add: tables_ok_def)
  have "os = table_ScanKey cmp3 \<lparr>data_str = cstr user, data_t = 0\<rparr> (StringAnyComparator 1) (order_database tm)"
    using assms(1) by (auto simp: order_scan_def bind_Some_iff StringAny_Some)
  then have "x \<in> snd ` set (filter (\<lambda>e. StringAnyComparator 1 \<lparr>data_str = cstr user, data_t = 0\<rparr> (fst e) = 0) (rows (order_database tm)))"
    using assms(3) by (auto simp: scan_rows [OF string_any_scan.standby_comparator_axioms ok])
  then obtain k where k: "(k, x) \<in> set (rows (order_database tm))"
    "StringAnyComparator 1 \<lparr>data_str = cstr user, data_t = 0\<rparr> k = 0" by auto
  then show thesis
    using that [of k] string_any_key.table_rows_map [OF ok, of k x] by (simp add: StringAnyComparator_def)
qed

text \<open>Changing the status of an order that is stored.\<close>

lemma stored_order:
  assumes inv: "seats_inv X tm" and x: "table_map (order_database tm) (order_key x) = Some x"
  shows "order_data_ok tm x" "order_ID x \<le> order_num tm"
    "table_map (order_database tm) k = Some y \<Longrightarrow> order_ID y = order_ID x \<Longrightarrow> k = order_key x \<and> y = x"
    "order_status x \<noteq> pending \<Longrightarrow> table_map (pending_order_database tm) (pend_key x) = None"
proof -
  show "order_data_ok tm x" "order_ID x \<le> order_num tm" using seats_invD(4) [OF inv x] by (simp_all add: order_ok_iff)
  show same: "k = order_key x \<and> y = x" if "table_map (order_database tm) k = Some y" "order_ID y = order_ID x" for k y
    using seats_invD(6) [OF inv that(1) x that(2)] that(1) x by simp
  assume np: "order_status x \<noteq> pending"
  show "table_map (pending_order_database tm) (pend_key x) = None"
  proof (rule ccontr)
    assume "table_map (pending_order_database tm) (pend_key x) \<noteq> None"
    then obtain p where "table_map (pending_order_database tm) (pend_key x) = Some p" by auto
    then obtain y where y: "table_map (order_database tm) (order_key y) = Some y" "order_status y = pending"
      "pend_key x = pend_key y" using seats_invD(5) [OF inv] pend_okD by metis
    then have "y = x" using same [OF y(1)] by (auto simp: pend_key_def)
    then show False using y(2) np by simp
  qed
qed

lemma status_keys [simp]:
  "order_key (x\<lparr>order_status := s\<rparr>) = order_key x" "day_key (x\<lparr>order_status := s\<rparr>) = day_key x"
  "pend_key (x\<lparr>order_status := s\<rparr>) = pend_key x"
  "order_data_ok tm (x\<lparr>order_status := s\<rparr>) = order_data_ok tm x"
  by (simp_all add: order_key_def day_key_def pend_key_def order_data_ok_def)

lemma change_status:
  assumes inv: "seats_inv X tm" and x: "table_map (order_database tm) (order_key x) = Some x" and s: "s \<noteq> pending"
    and pdb: "table_ok cmp5 pdb" "table_map pdb = (table_map (pending_order_database tm))(pend_key x := None)"
  shows "seats_inv (insert (day_key x) X) (with_order (order_num tm) (x\<lparr>order_status := s\<rparr>) pdb tm)"
    "sold (order_database (with_order (order_num tm) (x\<lparr>order_status := s\<rparr>) pdb tm)) key i
       = sold (order_database tm) key i - order_share (data_str key) (data_t key) i x
         + order_share (data_str key) (data_t key) i (x\<lparr>order_status := s\<rparr>)"
proof -
  note S = stored_order [OF inv x]
  show "seats_inv (insert (day_key x) X) (with_order (order_num tm) (x\<lparr>order_status := s\<rparr>) pdb tm)"
    using store_order [OF inv, of "order_num tm" "x\<lparr>order_status := s\<rparr>" pdb] S(1,2,3) pdb s by fastforce
  show "sold (order_database (with_order (order_num tm) (x\<lparr>order_status := s\<rparr>) pdb tm)) key i
       = sold (order_database tm) key i - order_share (data_str key) (data_t key) i x
         + order_share (data_str key) (data_t key) i (x\<lparr>order_status := s\<rparr>)"
    using sold_insert [of "order_database tm" "order_key x" "x\<lparr>order_status := s\<rparr>" key i] x seats_invD(1) [OF inv]
    by (simp add: tables_ok_def)
qed

lemma refund_pending_ok:
  assumes inv: "seats_inv {} tm" and x: "table_map (order_database tm) (order_key x) = Some x" "order_status x = pending"
  shows "seats_inv {} (tm\<lparr>order_database := table_InsertEntry cmp3 (order_key x) (x\<lparr>order_status := refunded\<rparr>) (order_database tm),
     pending_order_database := table_DeleteEntry cmp5 (pend_key x) (pending_order_database tm)\<rparr>)"
proof -
  let ?pdb = "table_DeleteEntry cmp5 (pend_key x) (pending_order_database tm)"
  let ?x = "x\<lparr>order_status := refunded\<rparr>"
  have pdb: "table_ok cmp5 ?pdb" "table_map ?pdb = (table_map (pending_order_database tm))(pend_key x := None)"
    using seats_invD(1) [OF inv] by (simp_all add: tables_ok_def string_int_int_key.table_map_delete)
  have "seats_inv {} (with_order (order_num tm) ?x ?pdb tm)"
    using change_status [OF inv x(1) _ pdb, of refunded] x(2)
    by (intro neutral_order [OF inv]) (simp_all add: order_share_def)
  then show ?thesis by (simp add: with_order_def)
qed

text \<open>
  The loop over the pending orders: the seats in hand match the orders of the day in hand, and
  the pending orders that are left are still in the queue.
\<close>

definition own_key :: "pending_order \<Rightarrow> string_int_int" where
  "own_key p = \<lparr>key_str = pend_train p, first_int = pend_day p, second_int = pend_ID p\<rparr>"

definition settling :: "train \<Rightarrow> string_any \<Rightarrow> day_train \<Rightarrow> train_mgmt \<Rightarrow> bool" where
  "settling tr dk d tm \<longleftrightarrow> seats_inv {dk} tm \<and> table_map (train_database tm) (data_str dk) = Some tr \<and> is_released tr \<and>
     seats_match tr (sold (order_database tm) dk) d"

definition queued :: "string_any \<Rightarrow> train_mgmt \<Rightarrow> pending_order \<Rightarrow> bool" where
  "queued dk tm p \<longleftrightarrow> pend_train p = data_str dk \<and> pend_day p = data_t dk \<and>
     table_map (pending_order_database tm) (own_key p) = Some p"

definition apart :: "order \<Rightarrow> pending_order \<Rightarrow> bool" where
  "apart ro p \<longleftrightarrow> pend_from p > order_to ro \<or> pend_to p < order_from ro"

lemma settle_pending_cases:
  assumes inv: "seats_inv X tm" and p: "queued dk tm p" and run: "settle_pending ro p (d, tm) = Some (d', tm')"
  obtains (left) "d' = d" "tm' = tm"
      "apart ro p \<or> (\<exists>q. query_seat (pend_from p) (pend_to p - 1) d = Some q \<and> q < pend_qty p)"
  | (served) x q where "table_map (order_database tm) (order_key x) = Some x" "order_status x = pending"
      "p = pending_of x" "own_key p = pend_key x" "day_key x = dk"
      "query_seat (order_from x) (order_to x - 1) d = Some q" "order_qty x \<le> q"
      "modify_seat (order_from x) (order_to x - 1) (- order_qty x) d = Some d'"
      "tm' = with_order (order_num tm) (x\<lparr>order_status := success\<rparr>)
         (table_DeleteEntry cmp5 (pend_key x) (pending_order_database tm)) tm" "\<not> apart ro p"
proof (cases "d' = d \<and> tm' = tm \<and>
    (apart ro p \<or> (\<exists>q. query_seat (pend_from p) (pend_to p - 1) d = Some q \<and> q < pend_qty p))")
  case False
  obtain x where x: "table_map (order_database tm) (order_key x) = Some x" "order_status x = pending"
    "p = pending_of x" "own_key p = pend_key x"
    using p seats_invD(5) [OF inv] pend_okD unfolding queued_def by metis
  have dk: "day_key x = dk" using p x(3) by (cases dk) (simp add: queued_def pending_of_def day_key_def)
  have strs: "short_str 22 (order_train x)" "short_str 22 (order_user x)"
    using stored_order(1) [OF inv x(1)] by (simp_all add: order_data_ok_def)
  have keys: "StringIntInt_SetValue 24 (pend_train p) (pend_day p) (pend_ID p) = Some (pend_key x)"
    "StringAny_SetValue 24 (pend_user p) (pend_ID p) = Some (order_key x)"
    using short_str_keys [OF strs(1)] short_str_keys [OF strs(2)] x(3)
    by (simp_all add: pending_of_def pend_key_def order_key_def)
  let ?pdb = "table_DeleteEntry cmp5 (pend_key x) (pending_order_database tm)"
  let ?x = "x\<lparr>order_status := success\<rparr>"
  have near: "\<not> apart ro p"
  proof
    assume "apart ro p"
    then show False using run False by (simp add: settle_pending_def apart_def)
  qed
  then obtain q where q: "query_seat (pend_from p) (pend_to p - 1) d = Some q"
    using run by (auto simp: settle_pending_def apart_def bind_Some_iff)
  have enough: "pend_qty p \<le> q"
  proof (rule ccontr)
    assume "\<not> pend_qty p \<le> q"
    then show False using run near q False by (simp add: settle_pending_def apart_def)
  qed
  have run': "do { d' \<leftarrow> modify_seat (pend_from p) (pend_to p - 1) (- pend_qty p) d;
      Some (d', tm\<lparr>pending_order_database := ?pdb,
                   order_database := table_InsertEntry cmp3 (order_key x) ?x (order_database tm)\<rparr>) } = Some (d', tm')"
    using run near q enough keys x(1) by (simp add: settle_pending_def apart_def first_result_search)
  have tm': "modify_seat (pend_from p) (pend_to p - 1) (- pend_qty p) d = Some d'"
    "tm' = tm\<lparr>pending_order_database := ?pdb, order_database := table_InsertEntry cmp3 (order_key x) ?x (order_database tm)\<rparr>"
    using run' by (auto simp: bind_Some_iff)
  have fld: "pend_from p = order_from x" "pend_to p = order_to x" "pend_qty p = order_qty x"
    using x(3) by (simp_all add: pending_of_def)
  have "tm' = with_order (order_num tm) ?x ?pdb tm" unfolding tm'(2) with_order_def by (cases tm) simp
  then show thesis using served [OF x dk _ _ _ _ near, of q] q enough tm'(1) unfolding fld by blast
qed (use left in blast)

lemma settle_one:
  assumes st: "settling tr dk d tm" and p: "queued dk tm p" and run: "settle_pending ro p (d, tm) = Some (d', tm')"
  shows "settling tr dk d' tm' \<and> (\<forall>p'. queued dk tm p' \<and> p' \<noteq> p \<longrightarrow> queued dk tm' p') \<and>
    daytrain_database tm' = daytrain_database tm"
proof -
  have inv: "seats_inv {dk} tm" and m: "seats_match tr (sold (order_database tm) dk) d"
    and tr: "table_map (train_database tm) (data_str dk) = Some tr" "is_released tr"
    using st by (simp_all add: settling_def)
  from inv p run show ?thesis
  proof (cases rule: settle_pending_cases)
    case left
    then show ?thesis using st by simp
  next
    case (served x q)
    let ?pdb = "table_DeleteEntry cmp5 (pend_key x) (pending_order_database tm)"
    note S = stored_order [OF inv served(1)]
    have pdb: "table_ok cmp5 ?pdb" "table_map ?pdb = (table_map (pending_order_database tm))(pend_key x := None)"
      using seats_invD(1) [OF inv] by (simp_all add: tables_ok_def string_int_int_key.table_map_delete)
    note C = change_status [OF inv served(1) _ pdb, of success]
    have "seats_match tr (sold (order_database tm') dk) d'"
    proof (rule take_seats [OF m _ _ _ _ served(6-8)])
      show "sold (order_database tm') dk i = sold (order_database tm) dk i +
          (if order_from x \<le> i \<and> i < order_to x then order_qty x else 0)" for i
        using C(2) [of dk i] served(2,5) unfolding served(9) by (auto simp: order_share_def day_key_def)
    qed (use S(1) tr served(5) in \<open>auto simp: order_data_ok_def day_key_def\<close>)
    then have "settling tr dk d' tm'" using C(1) tr served(5,9) by (simp add: settling_def)
    moreover have "queued dk tm' p'" if "queued dk tm p'" "p' \<noteq> p" for p'
      using that p served(4,9) pdb(2) by (auto simp: queued_def)
    ultimately show ?thesis using served(9) by simp
  qed
qed

lemma settle_loop_ok:
  assumes "settling tr dk d tm" "\<forall>p \<in> set ps. queued dk tm p" "distinct ps" "settle_loop ro ps (d, tm) = Some (d', tm')"
  shows "settling tr dk d' tm' \<and> daytrain_database tm' = daytrain_database tm"
  using assms
proof (induction ps arbitrary: d tm)
  case (Cons p ps)
  obtain d1 tm1 where s: "settle_pending ro p (d, tm) = Some (d1, tm1)" "settle_loop ro ps (d1, tm1) = Some (d', tm')"
    using Cons.prems(4) by (auto simp: bind_Some_iff)
  note one = settle_one [OF Cons.prems(1) _ s(1)]
  have "settling tr dk d1 tm1" "\<forall>p' \<in> set ps. queued dk tm1 p'" "daytrain_database tm1 = daytrain_database tm"
    using one Cons.prems(2,3) by auto
  then show ?case using Cons.IH [of d1 tm1] Cons.prems(3) s(2) by simp
qed simp

lemma pending_scan_queued:
  assumes inv: "seats_inv X tm" and dk: "dk = \<lparr>data_str = tid, data_t = day\<rparr>"
    and ps: "ps = table_ScanKey cmp5 \<lparr>key_str = tid, first_int = day, second_int = n\<rparr> (StringIntIntComparator 1) (pending_order_database tm)"
  shows "\<forall>p \<in> set ps. queued dk tm p \<and> n \<le> pend_ID p" "distinct ps"
    "queued dk tm p \<Longrightarrow> n \<le> pend_ID p \<Longrightarrow> p \<in> set ps"
proof -
  let ?k = "\<lparr>key_str = tid, first_int = day, second_int = n\<rparr>"
  have ok: "table_ok cmp5 (pending_order_database tm)" using seats_invD(1) [OF inv] by (simp add: tables_ok_def)
  let ?rs = "filter (\<lambda>e. \<not> cmp5 (fst e) ?k < 0 \<and> StringIntIntComparator 1 ?k (fst e) = 0) (rows (pending_order_database tm))"
  have eq: "ps = map snd ?rs" unfolding ps by (rule scan_rows [OF string_int_int_scan.standby_comparator_axioms ok])
  have own: "own_key p = k" if "(k, p) \<in> set (rows (pending_order_database tm))" for k p
  proof -
    have "table_map (pending_order_database tm) k = Some p"
      using that string_int_int_key.table_rows_map [OF ok] by simp
    then obtain y where "p = pending_of y" "k = pend_key y" using seats_invD(5) [OF inv] pend_okD by metis
    then show ?thesis by (simp add: own_key_def pending_of_def pend_key_def)
  qed
  show "\<forall>p \<in> set ps. queued dk tm p \<and> n \<le> pend_ID p"
  proof
    fix p assume "p \<in> set ps"
    then obtain k where k: "(k, p) \<in> set (rows (pending_order_database tm))" "StringIntIntComparator 1 ?k k = 0" "\<not> cmp5 k ?k < 0"
      unfolding eq by auto
    have s: "key_str k = tid" "first_int k = day"
      using k(2) by (auto simp: StringIntIntComparator_def Let_def split: if_splits)
    then have "n \<le> second_int k" using k(3) by (auto simp: StringIntIntComparator_def Let_def split: if_splits)
    then show "queued dk tm p \<and> n \<le> pend_ID p"
      using s own [OF k(1)] k(1) string_int_int_key.table_rows_map [OF ok, of k p] dk
      by (auto simp: queued_def own_key_def)
  qed
  show "p \<in> set ps" if "queued dk tm p" "n \<le> pend_ID p"
  proof -
    have "(own_key p, p) \<in> set (rows (pending_order_database tm))"
      using that(1) string_int_int_key.table_rows_map [OF ok] by (simp add: queued_def)
    moreover have "\<not> cmp5 (own_key p) ?k < 0 \<and> StringIntIntComparator 1 ?k (own_key p) = 0"
      using that dk by (auto simp: queued_def own_key_def StringIntIntComparator_def Let_def)
    ultimately show ?thesis unfolding eq by force
  qed
  have "distinct (map fst (rows (pending_order_database tm)))"
    using string_int_int_key.sorted_keys_distinct ok by (simp add: table_ok_def)
  then have "distinct (map fst ?rs)" by (rule distinct_map_filter)
  moreover have "map own_key ps = map fst ?rs" unfolding eq using own by auto
  ultimately show "distinct ps" using distinct_map [of own_key ps] by simp
qed

abbreviation refund_order :: "order \<Rightarrow> train_mgmt \<Rightarrow> train_mgmt" where
  "refund_order ro tm \<equiv>
     tm\<lparr>order_database := table_InsertEntry cmp3 (order_key ro) (ro\<lparr>order_status := refunded\<rparr>) (order_database tm)\<rparr>"

text \<open>
  Refunding an order that has seats: the seats in hand match the orders, and the loop runs over the
  pending orders of the same train and day with a number that is not below the one of the refund,
  the oldest first.
\<close>

lemma refund_success_cases:
  assumes inv: "seats_inv {} tm" and x: "table_map (order_database tm) (order_key x) = Some x" "order_status x = success"
    and run: "refund_success x (refund_order x tm) = Some (r, tm')"
  obtains tr d d1 ps d2 tm2 where "settling tr (day_key x) d1 (refund_order x tm)"
    "\<And>p. p \<in> set ps \<longleftrightarrow> queued (day_key x) (refund_order x tm) p \<and> order_ID x \<le> pend_ID p" "distinct ps"
    "sorted_wrt (\<lambda>a b. \<not> pending_order_cmp b a) ps"
    "table_map (daytrain_database tm) (day_key x) = Some d"
    "modify_seat (order_from x) (order_to x - 1) (order_qty x) d = Some d1" "r = ''0''"
    "settle_loop x ps (d1, refund_order x tm) = Some (d2, tm2)"
    "tm' = tm2\<lparr>daytrain_database := table_InsertEntry cmp3 (day_key x) d2 (daytrain_database tm2)\<rparr>"
proof -
  let ?tm1 = "refund_order x tm"
  note S = stored_order [OF inv x(1)]
  have w: "?tm1 = with_order (order_num tm) (x\<lparr>order_status := refunded\<rparr>) (pending_order_database tm) tm"
    by (cases tm) (simp add: with_order_def)
  have pdb: "table_ok cmp5 (pending_order_database tm)"
    "table_map (pending_order_database tm) = (table_map (pending_order_database tm))(pend_key x := None)"
    using seats_invD(1) [OF inv] S(4) x(2) by (auto simp: tables_ok_def fun_upd_idem)
  note C = change_status [OF inv x(1) _ pdb, of refunded, folded w]
  have inv1: "seats_inv {day_key x} ?tm1" using C(1) by simp
  have str: "short_str 22 (order_train x)" using S(1) by (simp add: order_data_ok_def)
  let ?ps = "table_ScanKey cmp5 (pend_key x) (StringIntIntComparator 1) (pending_order_database ?tm1)"
  obtain d d1 ps' d2 tm2 where d: "table_map (daytrain_database tm) (day_key x) = Some d"
    "modify_seat (order_from x) (order_to x - 1) (order_qty x) d = Some d1"
    and ps: "Sort pending_order_cmp ?ps 0 (int (length ?ps) - 1) = Some ps'"
    and lp: "settle_loop x ps' (d1, ?tm1) = Some (d2, tm2)"
    and tm': "tm' = tm2\<lparr>daytrain_database := table_InsertEntry cmp3 (day_key x) d2 (daytrain_database tm2)\<rparr>"
    and r: "r = ''0''"
    using run short_str_keys [OF str]
    by (auto simp: refund_success_def bind_Some_iff first_result_search day_key_def pend_key_def Let_def)
  obtain tr where tr: "table_map (train_database tm) (data_str (day_key x)) = Some tr" "is_released tr"
    "seats_match tr (sold (order_database tm) (day_key x)) d"
    using seats_invD(3) [OF inv d(1)] by (auto simp: day_ok_def)
  have "seats_match tr (sold (order_database ?tm1) (day_key x)) d1"
  proof (rule give_seats [OF tr(3) _ _ _ _ d(2)])
    show "sold (order_database ?tm1) (day_key x) i = sold (order_database tm) (day_key x) i -
        (if order_from x \<le> i \<and> i < order_to x then order_qty x else 0)" for i
      using C(2) [of "day_key x" i] x(2) by (auto simp: order_share_def day_key_def)
  qed (use S(1) tr(1) sold_nonneg [OF inv1] in \<open>auto simp: order_data_ok_def day_key_def\<close>)
  then have st: "settling tr (day_key x) d1 ?tm1" using inv1 tr by (simp add: settling_def)
  have q: "p \<in> set ?ps \<longleftrightarrow> queued (day_key x) ?tm1 p \<and> order_ID x \<le> pend_ID p" "distinct ?ps" for p
    using pending_scan_queued [OF inv1, of "day_key x" "order_train x" "order_day x" ?ps "order_ID x"]
    by (auto simp: day_key_def pend_key_def)
  have ms: "mset ps' = mset ?ps" "sorted_wrt (\<lambda>a b. \<not> pending_order_cmp b a) ps'"
    using pending_order_order.Sort_list [of ?ps] ps by auto
  have "p \<in> set ps' \<longleftrightarrow> queued (day_key x) ?tm1 p \<and> order_ID x \<le> pend_ID p" "distinct ps'" for p
    using q(1) [of p] q(2) mset_eq_setD [OF ms(1)] mset_eq_imp_distinct_iff [OF ms(1)] by auto
  then show thesis using that st ms(2) d r lp tm' by blast
qed

lemma refund_success_ok:
  assumes inv: "seats_inv {} tm" and x: "table_map (order_database tm) (order_key x) = Some x" "order_status x = success"
    and run: "refund_success x (refund_order x tm) = Some (r, tm')"
  shows "seats_inv {} tm'"
  using inv x run
proof (cases rule: refund_success_cases)
  case (1 tr d d1 ps d2 tm2)
  have "settling tr (day_key x) d2 tm2" using settle_loop_ok [OF 1(1) _ 1(3,8)] 1(2) by blast
  then show ?thesis
    using write_day [of "day_key x" "{}" tm2 tr d2] 1(9) by (simp add: settling_def)
qed

text \<open>
  The outcomes of \<^verbatim>\<open>refund_ticket\<close>: the user is not logged in; there is no order; the number is
  too high; the order was refunded before; a waiting order leaves the queue; an order with seats
  gives them back and the queue is settled. \<open>os\<close> lists the orders of the user, the newest first.
\<close>

lemma refund_ticket_cases:
  assumes inv: "seats_inv {} tm" and run: "refund_ticket_run user x ac tm = Some (r, tm')"
  obtains (stranger) "login_pool ac user = None" "r = ''-1''" "tm' = tm"
  | (refused) os0 os where "login_pool ac user \<noteq> None" "order_scan user tm = Some os0" "mset os = mset os0"
      "sorted_wrt (\<lambda>a b. \<not> order_cmp b a) os" "tm' = tm"
      "os = [] \<and> r = ''0'' \<or> os \<noteq> [] \<and> x > int (length os) \<and> r = ''-1'' \<or>
       os \<noteq> [] \<and> \<not> x > int (length os) \<and> r = ''-1'' \<and> (\<exists>ro. slot os (x - 1) = Some ro \<and> order_status ro = refunded)"
  | (changed) os0 os ro where "login_pool ac user \<noteq> None" "order_scan user tm = Some os0" "mset os = mset os0"
      "sorted_wrt (\<lambda>a b. \<not> order_cmp b a) os" "\<not> x > int (length os)" "slot os (x - 1) = Some ro" "r = ''0''"
      "table_map (order_database tm) (order_key ro) = Some ro" "order_user ro = cstr user"
      "order_status ro = pending \<and>
         tm' = refund_order ro tm\<lparr>pending_order_database := table_DeleteEntry cmp5 (pend_key ro) (pending_order_database tm)\<rparr> \<or>
       order_status ro = success \<and> refund_success ro (refund_order ro tm) = Some (r, tm')"
proof (cases "login_pool ac user = None")
  case True
  then show thesis using run stranger by (simp add: refund_ticket_run_def)
next
  case log: False
  obtain os0 where os0: "order_scan user tm = Some os0"
    using run log by (auto simp: refund_ticket_run_def bind_Some_iff)
  obtain os where os: "Sort order_cmp os0 0 (int (length os0) - 1) = Some os" and
    srt: "mset os = mset os0" "sorted_wrt (\<lambda>a b. \<not> order_cmp b a) os" using order_order.Sort_list by blast
  have emp: "os0 = [] \<longleftrightarrow> os = []" using srt(1) by auto
  note R = refused [OF log os0 srt]
  show thesis
  proof (cases "os = [] \<or> x > int (length os) \<or> (\<exists>ro. slot os (x - 1) = Some ro \<and> order_status ro = refunded)")
    case True
    have "tm' = tm" using run log os0 os emp True by (auto simp: refund_ticket_run_def bind_Some_iff split: if_splits)
    then show thesis
      using R run log os0 os emp True by (auto simp: refund_ticket_run_def bind_Some_iff split: if_splits)
  next
    case False
    then have ne: "os0 \<noteq> []" "\<not> x > int (length os)" using emp by auto
    obtain ro where ro: "slot os (x - 1) = Some ro" "order_status ro \<noteq> refunded"
      using run log os0 os ne False by (auto simp: refund_ticket_run_def bind_Some_iff)
    have len: "length user < 24" using os0 by (auto simp: order_scan_def bind_Some_iff StringAny_Some)
    have "ro \<in> set os" using ro(1) by (auto simp: slot_def split: if_splits)
    then have "ro \<in> set os0" using srt(1) by (metis mset_eq_setD)
    then obtain k where k: "table_map (order_database tm) k = Some ro" "data_str k = cstr user"
      using order_scan_rows [OF os0 seats_invD(1) [OF inv]] by blast
    have ok: "k = order_key ro" "order_user ro = cstr user" "short_str 22 (order_train ro)"
      using seats_invD(4) [OF inv k(1)] k(2) by (auto simp: order_ok_def order_key_def)
    have key: "StringAny_SetValue 24 user (order_ID ro) = Some (order_key ro)"
      "StringIntInt_SetValue 24 (order_train ro) (order_day ro) (order_ID ro) = Some (pend_key ro)"
      using len ok short_str_keys(2) [OF ok(3)] by (simp_all add: StringAny_Some order_key_def pend_key_def)
    have rest: "(if order_status ro = pending then
        Some (''0'', refund_order ro tm\<lparr>pending_order_database := table_DeleteEntry cmp5 (pend_key ro) (pending_order_database tm)\<rparr>)
        else refund_success ro (refund_order ro tm)) = Some (r, tm')"
      using run log os0 os ne ro key by (simp add: refund_ticket_run_def Let_def split: if_splits)
    have "r = ''0''"
      using rest by (auto simp: refund_success_def bind_Some_iff Let_def split: if_splits)
    moreover have "order_status ro = success" if "order_status ro \<noteq> pending" using ro(2) that by (cases "order_status ro") auto
    ultimately show thesis
      using changed [OF log os0 srt ne(2) ro(1) _ _ ok(2)] k(1) ok(1) rest by (auto split: if_splits)
  qed
qed

lemma refund_ticket_ok:
  assumes inv: "seats_inv {} tm" and run: "refund_ticket_run user x ac tm = Some (r, tm')"
  shows "seats_inv {} tm'"
  using inv run
proof (cases rule: refund_ticket_cases)
  case (changed os0 os ro)
  then show ?thesis using refund_pending_ok [OF inv changed(8)] refund_success_ok [OF inv changed(8), of r tm'] by auto
qed (use inv in simp_all)

section \<open>Trains\<close>

lemma update_train_ok:
  assumes inv: "seats_inv {} tm" and old: "\<And>tr. table_map (train_database tm) k = Some tr \<Longrightarrow> \<not> is_released tr"
    and tdb: "table_ok cmp1 tdb" "\<And>k'. k' \<noteq> k \<Longrightarrow> table_map tdb k' = table_map (train_database tm) k'"
    and new: "\<And>tr. table_map tdb k = Some tr \<Longrightarrow> - MAX_INT - 1 \<le> total_seat_num tr \<and> total_seat_num tr \<le> MAX_INT"
  shows "seats_inv {} (tm\<lparr>train_database := tdb\<rparr>)"
    "\<And>key x. table_map (order_database tm) key = Some x \<Longrightarrow> order_train x \<noteq> k"
    "\<And>key d. table_map (daytrain_database tm) key = Some d \<Longrightarrow> data_str key \<noteq> k"
proof -
  note D = seats_invD [OF inv]
  show no_ord: "order_train x \<noteq> k" if "table_map (order_database tm) key = Some x" for key x
    using D(4) [OF that] old by (auto simp: order_ok_def)
  show no_day: "data_str key \<noteq> k" if "table_map (daytrain_database tm) key = Some d" for key d
    using D(3) [OF that] old by (auto simp: day_ok_def)
  show "seats_inv {} (tm\<lparr>train_database := tdb\<rparr>)"
  proof (rule seats_invI)
    let ?tm = "tm\<lparr>train_database := tdb\<rparr>"
    show "tables_ok ?tm" using D(1) tdb(1) by (simp add: tables_ok_def)
    show "- MAX_INT - 1 \<le> total_seat_num tr \<and> total_seat_num tr \<le> MAX_INT" if "table_map (train_database ?tm) k' = Some tr" for k' tr
      using that D(2) [of k' tr] tdb(2) [of k'] new by (cases "k' = k") auto
    show "day_ok ?tm key d" if "table_map (daytrain_database ?tm) key = Some d" for key d
      using that D(3) [of key d] no_day [of key d] tdb(2) [of "data_str key"] by (auto simp: day_ok_def)
    show "order_ok ?tm key x" if "table_map (order_database ?tm) key = Some x" for key x
      using that D(4) [of key x] no_ord [of key x] tdb(2) [of "order_train x"] by (auto simp: order_ok_def)
    show "pend_ok ?tm key p" if "table_map (pending_order_database ?tm) key = Some p" for key p
      using that D(5) [of key p] by (simp add: pend_ok_def)
    show "k1 = k2" if "table_map (order_database ?tm) k1 = Some y" "table_map (order_database ?tm) k2 = Some z"
      "order_ID y = order_ID z" for k1 k2 y z using D(6) [of k1 y k2 z] that by simp
  qed
qed

lemma string_to_int_range: "- MAX_INT - 1 \<le> string_to_int s \<and> string_to_int s \<le> MAX_INT"
proof -
  have "- MAX_INT - 1 \<le> string_to_int_loop t s \<and> string_to_int_loop t s \<le> MAX_INT"
    if "- MAX_INT - 1 \<le> t" "t \<le> MAX_INT" for t
    using that
  proof (induction s arbitrary: t)
    case (Cons c cs)
    then show ?case using Cons.IH [of "int32 (t * 10 + char_val c - 48)"] int32_range [of "t * 10 + char_val c - 48"]
      by (simp add: MAX_INT_def)
  qed simp
  then show ?thesis by (simp add: string_to_int_def MAX_INT_def)
qed

text \<open>The numbers that \<^verbatim>\<open>add_train\<close> reads are in the range of \<^verbatim>\<open>int\<close>.\<close>

lemma train_options_range:
  "- MAX_INT - 1 \<le> to_seat_num (parse_options (\<lambda>opt. True) train_option no_train_options line) \<and>
   to_seat_num (parse_options (\<lambda>opt. True) train_option no_train_options line) \<le> MAX_INT"
  using parse_options_invariant [of "\<lambda>o'. - MAX_INT - 1 \<le> to_seat_num o' \<and> to_seat_num o' \<le> MAX_INT"
      no_train_options train_option "\<lambda>opt. True" line] string_to_int_range
  by (simp add: train_option_def no_train_options_def MAX_INT_def)

lemma Train_Some: "Train tid sn seats a b c d e f g = Some tr \<Longrightarrow> total_seat_num tr = seats \<and> \<not> is_released tr"
  by (auto simp: Train_def bind_Some_iff case_prod_beta)

lemma add_train_ok:
  assumes inv: "seats_inv {} tm" and run: "add_train line tm = Some (r, tm')"
  shows "seats_inv {} tm'"
proof (cases "tm' = tm")
  case False
  define o' where "o' = parse_options (\<lambda>opt. True) train_option no_train_options line"
  obtain key tr where k: "table_SearchKey key (train_database tm) = []" "total_seat_num tr = to_seat_num o'"
    "tm' = tm\<lparr>train_database := table_InsertEntry cmp1 key tr (train_database tm)\<rparr>"
    using run False unfolding add_train_def o'_def [symmetric]
    by (auto simp: add_train_run_def bind_Some_iff split: if_splits dest!: Train_Some)
  have "table_map (train_database tm) key = None" using k(1) by (auto simp: table_SearchKey_def split: option.splits)
  then show ?thesis
    unfolding k(3) using seats_invD(1) [OF inv] train_options_range [of line] k(2)
    by (intro update_train_ok(1) [OF inv, of key])
      (auto simp: tables_ok_def string_key.table_map_insert o'_def)
qed (use inv in simp)

lemma delete_train_ok:
  assumes inv: "seats_inv {} tm" and run: "delete_train line tm = Some (r, tm')"
  shows "seats_inv {} tm'"
proof (cases "tm' = tm")
  case False
  obtain key tr where k: "table_map (train_database tm) key = Some tr" "\<not> is_released tr"
    "tm' = tm\<lparr>train_database := table_DeleteEntry cmp1 key (train_database tm)\<rparr>"
    using run False by (auto simp: delete_train_def bind_Some_iff case_search split: prod.splits option.splits if_splits)
  then show ?thesis
    unfolding k(3) using seats_invD(1) [OF inv]
    by (intro update_train_ok(1) [OF inv, of key]) (auto simp: tables_ok_def string_key.table_map_delete)
qed (use inv in simp)

lemma seat_loop_Some:
  assumes "seat_loop j n seats a = Some a'" "1 \<le> j"
  shows "(\<forall>i. j \<le> i \<and> i \<le> n \<longrightarrow> a' i = Some seats) \<and> (\<forall>i < j. a' i = a i) \<and> (j \<le> n \<longrightarrow> n < maxn)"
  using assms
proof (induction j n seats a rule: seat_loop.induct)
  case (1 j n seats a)
  show ?case
  proof (cases "j \<le> n")
    case True
    then have w: "array_write a j seats = Some (a(j \<mapsto> seats))" "j < maxn" "seat_loop (j + 1) n seats (a(j \<mapsto> seats)) = Some a'"
      using "1.prems" by (auto simp: seat_loop.simps [of j] bind_Some_iff array_write_def split: if_splits)
    note IH = "1.IH" [OF True w(1,3)]
    have "a' i = Some seats" if "j \<le> i" "i \<le> n" for i using IH "1.prems"(2) that by (cases "i = j") auto
    moreover have "n < maxn" using IH "1.prems"(2) w(2) True by (cases "j = n") auto
    ultimately show ?thesis using IH "1.prems"(2) by auto
  qed (use "1.prems" in \<open>auto simp: seat_loop.simps [of j]\<close>)
qed

lemma sold_none:
  assumes "tables_ok tm" "\<And>k x. table_map (order_database tm) k = Some x \<Longrightarrow> order_train x \<noteq> data_str key"
  shows "sold (order_database tm) key i = 0"
proof -
  have "order_share (data_str key) (data_t key) i (snd r) = 0" if "r \<in> set (rows (order_database tm))" for r
    using assms string_any_key.table_rows_map [of "order_database tm" "fst r" "snd r"] that
    by (auto simp: order_share_def tables_ok_def)
  then have "map (\<lambda>r. order_share (data_str key) (data_t key) i (snd r)) (rows (order_database tm)) = map (\<lambda>r. 0) (rows (order_database tm))"
    by simp
  then show ?thesis unfolding sold_def by (simp only: sum_list_0)
qed

lemma day_loop_ok:
  assumes "seats_inv {} tm" "table_map (train_database tm) (cstr t_id) = Some tr" "is_released tr"
    "\<And>k x. table_map (order_database tm) k = Some x \<Longrightarrow> order_train x \<noteq> cstr t_id"
    "day_loop t_id tr i (daytrain_database tm) = Some db"
  shows "seats_inv {} (tm\<lparr>daytrain_database := db\<rparr>)"
  using assms
proof (induction t_id tr i "daytrain_database tm" arbitrary: tm rule: day_loop.induct)
  case (1 t_id tr i)
  show ?case
  proof (cases "i \<le> end_sale_date tr")
    case True
    let ?k = "\<lparr>data_str = cstr t_id, data_t = i\<rparr>"
    obtain a where a: "seat_loop 1 (station_num tr) (total_seat_num tr) (\<lambda>j. None) = Some a" and
      k: "StringAny_SetValue 24 t_id i = Some ?k" and nx: "\<not> i + 1440 > MAX_INT" and
      rest: "day_loop t_id tr (i + 1440) (table_InsertEntry cmp3 ?k \<lparr>seat_num = a\<rparr> (daytrain_database tm)) = Some db"
      using "1.prems"(5) True
      by (auto simp: day_loop.simps [of t_id tr i] bind_Some_iff Let_def StringAny_Some split: if_splits)
    let ?tm = "tm\<lparr>daytrain_database := table_InsertEntry cmp3 ?k \<lparr>seat_num = a\<rparr> (daytrain_database tm)\<rparr>"
    have "seats_match tr (sold (order_database tm) ?k) \<lparr>seat_num = a\<rparr>"
      using seat_loop_Some [OF a] seats_invD(1,2) [OF "1.prems"(1)] "1.prems"(2,4) sold_none [of tm ?k]
      by (cases "1 \<le> station_num tr") (auto simp: seats_match_def maxn_def)
    then have "seats_inv {} ?tm"
      using write_day [of ?k "{}" tm tr] seats_inv_mono [OF "1.prems"(1)] "1.prems"(2,3) by simp
    then have "seats_inv {} (?tm\<lparr>daytrain_database := db\<rparr>)"
      using "1.hyps" [OF True a k _ nx, of ?tm] "1.prems" rest by simp
    then show ?thesis by simp
  next
    case False
    then have "db = daytrain_database tm" using "1.prems"(5) by (simp add: day_loop.simps [of t_id tr i])
    moreover have "tm\<lparr>daytrain_database := daytrain_database tm\<rparr> = tm" by simp
    ultimately show ?thesis using "1.prems"(1) by simp
  qed
qed

lemma station_rows_ok: "station_rows_loop t_id tr i db = Some db' \<Longrightarrow> table_ok cmp2 db \<Longrightarrow> table_ok cmp2 db'"
proof (induction t_id tr i db rule: station_rows_loop.induct)
  case (1 t_id tr i db)
  then show ?case
    by (cases "i \<le> station_num tr")
      (auto simp: station_rows_loop.simps [of t_id tr i] bind_Some_iff dual_string_key.table_ok_insert)
qed

lemma seats_inv_stations: "seats_inv X tm \<Longrightarrow> table_ok cmp2 sts \<Longrightarrow> seats_inv X (tm\<lparr>station_database := sts\<rparr>)"
  by (simp add: seats_inv_def tables_ok_def day_ok_def order_ok_def pend_ok_def)

lemma release_train_ok:
  assumes inv: "seats_inv {} tm" and run: "release_train line tm = Some (r, tm')"
  shows "seats_inv {} tm'"
proof (cases "tm' = tm")
  case False
  define t_id where "t_id = fst (next_token (snd (next_token line)))"
  obtain tr days sts where t: "table_map (train_database tm) (cstr t_id) = Some tr" "\<not> is_released tr"
    and days: "day_loop t_id (tr\<lparr>is_released := True\<rparr>) (start_sale_date tr) (daytrain_database tm) = Some days"
    and sts: "station_rows_loop t_id (tr\<lparr>is_released := True\<rparr>) 1 (station_database tm) = Some sts"
    and tm': "tm' = tm\<lparr>train_database := table_InsertEntry cmp1 (cstr t_id) (tr\<lparr>is_released := True\<rparr>) (train_database tm),
       daytrain_database := days, station_database := sts\<rparr>"
    using run False unfolding release_train_def t_id_def
    by (auto simp: bind_Some_iff case_search case_prod_beta String_SetValue_Some Let_def split: option.splits if_splits)
  let ?tdb = "table_InsertEntry cmp1 (cstr t_id) (tr\<lparr>is_released := True\<rparr>) (train_database tm)"
  have up: "seats_inv {} (tm\<lparr>train_database := ?tdb\<rparr>)"
    "\<And>key x. table_map (order_database tm) key = Some x \<Longrightarrow> order_train x \<noteq> cstr t_id"
    using seats_invD(1,2) [OF inv] t update_train_ok [OF inv, of "cstr t_id" ?tdb]
    by (auto simp: tables_ok_def string_key.table_map_insert)
  have "seats_inv {} (tm\<lparr>train_database := ?tdb, daytrain_database := days\<rparr>)"
    using day_loop_ok [OF up(1), of t_id "tr\<lparr>is_released := True\<rparr>" "start_sale_date tr" days] up(2) days
    by (simp add: string_key.table_map_insert)
  then show ?thesis
    unfolding tm' using station_rows_ok [OF sts] seats_invD(1) [OF inv]
    by (intro seats_inv_stations) (auto simp: tables_ok_def)
qed (use inv in simp)

end
