(* ===== verification/SystemMain.thy ===== *)
theory SystemMain
  imports SeatSafety
begin

text \<open>
  The whole program: \<^verbatim>\<open>clean\<close>, \<^verbatim>\<open>rollback\<close> and \<^verbatim>\<open>exit\<close> of \<^verbatim>\<open>backend/src/Management.cpp\<close>, the
  dispatcher of \<^verbatim>\<open>backend/src/main.cpp\<close>, and the states it can reach.
\<close>

section \<open>The dispatcher\<close>

record system =
  sys_accounts :: accounts
  sys_trains :: train_mgmt

definition on_accounts :: "(accounts \<Rightarrow> (string \<times> accounts) option) \<Rightarrow> system \<Rightarrow> (string \<times> system) option" where
  "on_accounts f sy = do { (out, ac) \<leftarrow> f (sys_accounts sy); Some (out, sy\<lparr>sys_accounts := ac\<rparr>) }"

definition on_trains :: "(train_mgmt \<Rightarrow> (string \<times> train_mgmt) option) \<Rightarrow> system \<Rightarrow> (string \<times> system) option" where
  "on_trains f sy = do { (out, tm) \<leftarrow> f (sys_trains sy); Some (out, sy\<lparr>sys_trains := tm\<rparr>) }"

definition rollback :: "command \<Rightarrow> system \<Rightarrow> (string \<times> system) option" where
  "rollback line sy = Some (''0'', sy)"

definition clean :: "system \<Rightarrow> (string \<times> system) option" where
  "clean sy =
     Some (''0'',
       sy\<lparr>sys_accounts := (sys_accounts sy)\<lparr>user_database := table_Clear (user_database (sys_accounts sy)),
                                            login_pool := (\<lambda>x. None)\<rparr>,
          sys_trains := (sys_trains sy)\<lparr>train_database := table_Clear (train_database (sys_trains sy)),
            daytrain_database := table_Clear (daytrain_database (sys_trains sy)),
            station_database := table_Clear (station_database (sys_trains sy)),
            order_database := table_Clear (order_database (sys_trains sy)),
            pending_order_database := table_Clear (pending_order_database (sys_trains sy))\<rparr>\<rparr>)"

definition exit_system :: "system \<Rightarrow> (string \<times> system) option" where
  "exit_system sy = Some (''bye'', sy\<lparr>sys_accounts := (sys_accounts sy)\<lparr>login_pool := (\<lambda>x. None)\<rparr>\<rparr>)"

text \<open>An unknown command prints nothing after its time stamp.\<close>

definition dispatch :: "string \<Rightarrow> command \<Rightarrow> system \<Rightarrow> (string \<times> system) option" where
  "dispatch s cmd sy =
     (if s = ''add_user'' then on_accounts (add_user cmd) sy
      else if s = ''login'' then on_accounts (login cmd) sy
      else if s = ''logout'' then on_accounts (logout cmd) sy
      else if s = ''query_profile'' then on_accounts (query_profile cmd) sy
      else if s = ''modify_profile'' then on_accounts (modify_profile cmd) sy
      else if s = ''add_train'' then on_trains (add_train cmd) sy
      else if s = ''release_train'' then on_trains (release_train cmd) sy
      else if s = ''query_train'' then on_trains (query_train cmd) sy
      else if s = ''delete_train'' then on_trains (delete_train cmd) sy
      else if s = ''query_ticket'' then on_trains (query_ticket cmd) sy
      else if s = ''query_transfer'' then on_trains (query_transfer cmd) sy
      else if s = ''buy_ticket'' then on_trains (buy_ticket cmd (sys_accounts sy)) sy
      else if s = ''query_order'' then on_trains (query_order cmd (sys_accounts sy)) sy
      else if s = ''refund_ticket'' then on_trains (refund_ticket cmd (sys_accounts sy)) sy
      else if s = ''rollback'' then rollback cmd sy
      else if s = ''clean'' then clean sy
      else if s = ''exit'' then exit_system sy
      else Some ([], sy))"

text \<open>
  One line of input: the time stamp in brackets, the name of the command, its options. The last
  component of \<open>run_line\<close> says whether the program ends with this line.
\<close>

definition line_command :: "string \<Rightarrow> (string \<times> command) option" where
  "line_command input =
     do { let (time, cmd1) = next_token (Command_of_string input CHR '' '');
          stamp \<leftarrow> substr time 1 (length time - 2);
          Some (next_token (cmd1\<lparr>timestamp := string_to_int stamp\<rparr>)) }"

fun run_command :: "system \<Rightarrow> string \<times> command \<Rightarrow> (string \<times> system \<times> bool) option" where
  "run_command sy (s, cmd) =
     do { (out, sy') \<leftarrow> dispatch s cmd sy;
          Some (''['' @ to_string (timestamp cmd) @ ''] '' @ out, sy', s = ''exit'') }"

definition run_line :: "string \<Rightarrow> system \<Rightarrow> (string \<times> system \<times> bool) option" where
  "run_line input sy = Option.bind (line_command input) (run_command sy)"

fun run_lines :: "string list \<Rightarrow> system \<Rightarrow> (string list \<times> system) option" where
  "run_lines [] sy = Some ([], sy)"
| "run_lines (l # ls) sy =
     do { (out, sy1, stop) \<leftarrow> run_line l sy;
          if stop then Some ([out], sy1)
          else do { (outs, sy2) \<leftarrow> run_lines ls sy1; Some (out # outs, sy2) } }"

section \<open>Reachable states\<close>

definition empty_table :: "('k, 'v) table" where
  "empty_table = \<lparr>rows = [], count = 0\<rparr>"

definition initial_system :: "int \<Rightarrow> system" where
  "initial_system n =
     \<lparr>sys_accounts = \<lparr>login_pool = (\<lambda>x. None), user_database = empty_table\<rparr>,
      sys_trains = \<lparr>train_database = empty_table, station_database = empty_table, daytrain_database = empty_table,
                     order_database = empty_table, pending_order_database = empty_table, order_num = n\<rparr>\<rparr>"

text \<open>
  A step of the program. Two conditions on the input are made explicit: a purchase asks for a
  number of tickets that is not negative, and the order numbers have not run out.
\<close>

definition purchase_ok :: "string \<Rightarrow> command \<Rightarrow> system \<Rightarrow> bool" where
  "purchase_ok s cmd sy \<longleftrightarrow>
     (s = ''buy_ticket'' \<longrightarrow>
        - MAX_INT - 1 \<le> order_num (sys_trains sy) \<and> order_num (sys_trains sy) < MAX_INT \<and>
        (case bo_num (parse_options buy_takes buy_option no_buy_options cmd) of None \<Rightarrow> True | Some n \<Rightarrow> 0 \<le> n))"

inductive system_step :: "system \<Rightarrow> string \<Rightarrow> system \<Rightarrow> bool" where
  step: "dispatch s cmd sy = Some (out, sy') \<Longrightarrow> purchase_ok s cmd sy \<Longrightarrow> system_step sy out sy'"

inductive reachable :: "int \<Rightarrow> system \<Rightarrow> bool" for n :: int where
  init: "reachable n (initial_system n)"
| more: "reachable n sy \<Longrightarrow> system_step sy out sy' \<Longrightarrow> reachable n sy'"

inductive_cases system_step_elim: "system_step sy out sy'"

text \<open>
  The same on lines of input: \<open>purchases_ok\<close> says that every purchase of a run satisfies the
  conditions, and \<open>run_checked\<close> is the run that stops at one that does not.
\<close>

definition line_ok :: "string \<Rightarrow> system \<Rightarrow> bool" where
  "line_ok l sy = (case line_command l of None \<Rightarrow> True | Some (s, cmd) \<Rightarrow> purchase_ok s cmd sy)"

fun purchases_ok :: "string list \<Rightarrow> system \<Rightarrow> bool" where
  "purchases_ok [] sy = True"
| "purchases_ok (l # ls) sy =
     (line_ok l sy \<and> (case run_line l sy of None \<Rightarrow> True | Some (out, sy1, stop) \<Rightarrow> stop \<or> purchases_ok ls sy1))"

fun run_checked :: "string list \<Rightarrow> system \<Rightarrow> (string list \<times> system) option"
  and continue_checked :: "string list \<Rightarrow> (string \<times> system \<times> bool) option \<Rightarrow> (string list \<times> system) option" where
  "run_checked [] sy = Some ([], sy)"
| "run_checked (l # ls) sy = (if line_ok l sy then continue_checked ls (run_line l sy) else None)"
| "continue_checked ls None = None"
| "continue_checked ls (Some (out, sy1, stop)) =
     (if stop then Some ([out], sy1) else map_option (\<lambda>(outs, sy2). (out # outs, sy2)) (run_checked ls sy1))"

lemma run_checked_ok: "run_checked ls sy = Some r \<Longrightarrow> run_lines ls sy = Some r \<and> purchases_ok ls sy"
proof (induction ls arbitrary: sy r)
  case (Cons l ls)
  obtain out sy1 stop where l: "line_ok l sy" "run_line l sy = Some (out, sy1, stop)"
    using Cons.prems by (cases "run_line l sy") (auto split: if_splits)
  show ?case
  proof (cases stop)
    case False
    then obtain outs sy2 where "run_checked ls sy1 = Some (outs, sy2)" "r = (out # outs, sy2)"
      using Cons.prems l by auto
    then show ?thesis using Cons.IH [of sy1 "(outs, sy2)"] l False by simp
  qed (use Cons.prems l in simp)
qed simp

lemma run_line_step: "run_line l sy = Some (out, sy', stop) \<Longrightarrow> line_ok l sy \<Longrightarrow> \<exists>r. system_step sy r sy'"
  by (force simp: run_line_def line_ok_def bind_Some_iff intro: system_step.intros)

lemma run_lines_reachable:
  "run_lines ls sy = Some (outs, sy') \<Longrightarrow> purchases_ok ls sy \<Longrightarrow> reachable n sy \<Longrightarrow> reachable n sy'"
proof (induction ls arbitrary: sy outs)
  case (Cons l ls)
  obtain out sy1 stop where l: "line_ok l sy" "run_line l sy = Some (out, sy1, stop)"
    using Cons.prems by (auto simp: bind_Some_iff)
  then have r: "reachable n sy1" using run_line_step reachable.more [OF Cons.prems(3)] by blast
  show ?case
  proof (cases stop)
    case False
    then obtain outs' where "run_lines ls sy1 = Some (outs', sy')"
      using Cons.prems(1) l by (auto simp: bind_Some_iff)
    then show ?thesis using Cons.IH Cons.prems(2) l False r by simp
  qed (use Cons.prems l r in simp)
qed simp

text \<open>Every line of a checked run that goes to its end is a step from a reachable state.\<close>

lemma run_checked_nth:
  "run_checked ls sy = Some (outs, sy') \<Longrightarrow> length outs = length ls \<Longrightarrow> i < length ls \<Longrightarrow> reachable n sy \<Longrightarrow>
     \<exists>sy1 sy2 stop. reachable n sy1 \<and> line_ok (ls ! i) sy1 \<and> run_line (ls ! i) sy1 = Some (outs ! i, sy2, stop)"
proof (induction ls arbitrary: sy outs i)
  case (Cons l ls)
  obtain out sy1 stop where l: "line_ok l sy" "run_line l sy = Some (out, sy1, stop)"
    using Cons.prems by (cases "run_line l sy") (auto split: if_splits)
  have hd: "outs ! 0 = out" using Cons.prems(1) l by (auto split: if_splits)
  show ?case
  proof (cases i)
    case 0
    then show ?thesis using l hd Cons.prems(4) by auto
  next
    case (Suc j)
    then have "\<not> stop" using Cons.prems l by auto
    then obtain outs1 where o: "run_checked ls sy1 = Some (outs1, sy')" "outs = out # outs1"
      using Cons.prems(1) l by auto
    have "reachable n sy1" using run_line_step [OF l(2,1)] reachable.more [OF Cons.prems(4)] by blast
    then show ?thesis using Cons.IH [OF o(1), of j] Cons.prems(2,3) o(2) Suc by simp
  qed
qed simp

definition system_ok :: "system \<Rightarrow> bool" where
  "system_ok sy \<longleftrightarrow> accounts_ok (sys_accounts sy) \<and> seats_inv {} (sys_trains sy)"

lemma initial_ok: "system_ok (initial_system n)"
  by (simp add: system_ok_def initial_system_def empty_table_def accounts_ok_def seats_inv_def tables_ok_def table_ok_def)

lemma on_accounts_ok:
  assumes "on_accounts f sy = Some (out, sy')" "system_ok sy" "\<And>r ac'. f (sys_accounts sy) = Some (r, ac') \<Longrightarrow> accounts_ok ac'"
  shows "system_ok sy'"
  using assms by (auto simp: on_accounts_def bind_Some_iff system_ok_def)

lemma on_trains_ok:
  assumes "on_trains f sy = Some (out, sy')" "system_ok sy" "\<And>r tm'. f (sys_trains sy) = Some (r, tm') \<Longrightarrow> seats_inv {} tm'"
  shows "system_ok sy'"
  using assms by (auto simp: on_trains_def bind_Some_iff system_ok_def)

text \<open>The queries do not change the state.\<close>

lemma queries_same:
  "query_train line tm = Some (r, tm') \<Longrightarrow> tm' = tm" "query_ticket line tm = Some (r, tm') \<Longrightarrow> tm' = tm"
  "query_transfer line tm = Some (r, tm') \<Longrightarrow> tm' = tm" "query_order line ac tm = Some (r, tm') \<Longrightarrow> tm' = tm"
  by (auto simp: query_train_def query_ticket_def query_transfer_def query_order_def case_prod_beta bind_Some_iff Let_def
      split: if_splits)

lemma clean_ok: "clean sy = Some (out, sy') \<Longrightarrow> system_ok sy'"
  by (auto simp: clean_def system_ok_def table_Clear_def accounts_ok_def seats_inv_def tables_ok_def table_ok_def)

lemma exit_ok: "exit_system sy = Some (out, sy') \<Longrightarrow> system_ok sy \<Longrightarrow> system_ok sy'"
  by (auto simp: exit_system_def system_ok_def accounts_ok_def)

lemma buy_ticket_line_ok:
  assumes "seats_inv {} tm" "buy_ticket cmd ac tm = Some (r, tm')" "- MAX_INT - 1 \<le> order_num tm" "order_num tm < MAX_INT"
    "case bo_num (parse_options buy_takes buy_option no_buy_options cmd) of None \<Rightarrow> True | Some n \<Rightarrow> 0 \<le> n"
  shows "seats_inv {} tm'"
  by (rule buy_ticket_ok [OF assms(1,4,3) _ assms(2) [unfolded buy_ticket_def]]) (use assms(5) in simp)

lemma refund_ticket_line_ok:
  assumes "seats_inv {} tm" "refund_ticket cmd ac tm = Some (r, tm')"
  shows "seats_inv {} tm'"
  using refund_ticket_ok [OF assms(1)] assms(2) by (auto simp: refund_ticket_def split: prod.splits)

lemma if_Some_elim:
  "(if b then x else y) = Some z \<Longrightarrow> (b \<Longrightarrow> x = Some z \<Longrightarrow> P) \<Longrightarrow> (\<not> b \<Longrightarrow> y = Some z \<Longrightarrow> P) \<Longrightarrow> P"
  by (auto split: if_splits)

lemma dispatch_ok:
  assumes run: "dispatch s cmd sy = Some (out, sy')" and p: "purchase_ok s cmd sy" and ok: "system_ok sy"
  shows "system_ok sy'"
proof -
  have ac: "accounts_ok (sys_accounts sy)" and tm: "seats_inv {} (sys_trains sy)" using ok by (simp_all add: system_ok_def)
  note A = on_accounts_ok [OF _ ok] and T = on_trains_ok [OF _ ok]
  have users: "on_accounts (add_user cmd) sy = Some (out, sy') \<Longrightarrow> system_ok sy'"
    "on_accounts (login cmd) sy = Some (out, sy') \<Longrightarrow> system_ok sy'"
    "on_accounts (logout cmd) sy = Some (out, sy') \<Longrightarrow> system_ok sy'"
    "on_accounts (modify_profile cmd) sy = Some (out, sy') \<Longrightarrow> system_ok sy'"
    "on_accounts (query_profile cmd) sy = Some (out, sy') \<Longrightarrow> system_ok sy'"
    by (erule A, erule add_user_ok [OF ac])
      (erule A, erule login_ok [OF ac], erule A, erule logout_ok [OF ac], erule A, erule modify_profile_ok [OF ac],
       erule A, drule query_profile_same, simp add: ac)
  have trains: "on_trains (add_train cmd) sy = Some (out, sy') \<Longrightarrow> system_ok sy'"
    "on_trains (release_train cmd) sy = Some (out, sy') \<Longrightarrow> system_ok sy'"
    "on_trains (delete_train cmd) sy = Some (out, sy') \<Longrightarrow> system_ok sy'"
    "on_trains (query_train cmd) sy = Some (out, sy') \<Longrightarrow> system_ok sy'"
    "on_trains (query_ticket cmd) sy = Some (out, sy') \<Longrightarrow> system_ok sy'"
    "on_trains (query_transfer cmd) sy = Some (out, sy') \<Longrightarrow> system_ok sy'"
    "on_trains (query_order cmd (sys_accounts sy)) sy = Some (out, sy') \<Longrightarrow> system_ok sy'"
    "on_trains (refund_ticket cmd (sys_accounts sy)) sy = Some (out, sy') \<Longrightarrow> system_ok sy'"
    by (erule T, erule add_train_ok [OF tm])
      (erule T, erule release_train_ok [OF tm], erule T, erule delete_train_ok [OF tm],
       (erule T, drule queries_same, simp add: tm)+, erule T, erule refund_ticket_line_ok [OF tm])
  have buy: "system_ok sy'" if "s = ''buy_ticket''" "on_trains (buy_ticket cmd (sys_accounts sy)) sy = Some (out, sy')"
    using T [OF that(2)] buy_ticket_line_ok [OF tm] p that(1) unfolding purchase_ok_def by blast
  from run show ?thesis
    unfolding dispatch_def
    by (elim if_Some_elim)
      ((erule users | erule trains | (rule buy, assumption, assumption) | erule clean_ok | (erule exit_ok, rule ok))+,
       use ok clean_ok exit_ok in \<open>auto simp: rollback_def\<close>)
qed

lemma reachable_ok: "reachable n sy \<Longrightarrow> system_ok sy"
  by (induction rule: reachable.induct) (auto intro: initial_ok dispatch_ok elim!: system_step_elim)

end
