(* ===== verification/SampleRun.thy ===== *)
theory SampleRun
  imports SystemMain
begin

text \<open>
  A run of the whole program on ten lines of input, evaluated: an account, a train with eleven
  seats, four purchases (the second and the third one wait), the refund of the first order, which
  serves the second one, and the refund of the fourth. \<open>sample_view\<close> reads a state: the free
  seats, the states of the orders, the queue entry of the third order and the account.
\<close>

section \<open>A run of the program\<close>

definition sample_lines :: "string list" where
  "sample_lines =
    [''[1] add_user -u r -p w -n N -m M'',
     ''[2] login -u r -p w'',
     ''[3] add_train -i T -n 2 -m 11 -s A|B -p 5 -x 08:00 -t 60 -o _ -d 06-01|06-01 -y G'',
     ''[4] release_train -i T'',
     ''[5] buy_ticket -u r -i T -d 06-01 -n 9 -f A -t B'',
     ''[6] buy_ticket -u r -i T -d 06-01 -n 8 -f A -t B -q true'',
     ''[7] buy_ticket -u r -i T -d 06-01 -n 6 -f A -t B -q true'',
     ''[8] buy_ticket -u r -i T -d 06-01 -n 1 -f A -t B'',
     ''[9] refund_ticket -u r -n 4'',
     ''[10] refund_ticket -u r -n 1'']"

definition sample_view :: "system \<Rightarrow> int option \<times> status option list \<times> bool \<times> int option \<times> int option" where
  "sample_view sy =
     (Option.bind (table_map (daytrain_database (sys_trains sy)) \<lparr>data_str = ''T'', data_t = 0\<rparr>) (\<lambda>d. seat_num d 1),
      map (\<lambda>i. map_option order_status (table_map (order_database (sys_trains sy)) \<lparr>data_str = ''r'', data_t = i\<rparr>))
        [1, 2, 3, 4],
      table_map (pending_order_database (sys_trains sy)) \<lparr>key_str = ''T'', first_int = 0, second_int = 3\<rparr> \<noteq> None,
      map_option privilege (table_map (user_database (sys_accounts sy)) ''r''), login_pool (sys_accounts sy) ''r'')"

text \<open>The replies, and what the user sees when he asks for his orders in the end.\<close>

definition sample_replies :: "string list" where
  "sample_replies =
    [''[1] 0'', ''[2] 0'', ''[3] 0'', ''[4] 0'', ''[5] 45'', ''[6] queue'', ''[7] queue'', ''[8] 5'', ''[9] 0'', ''[10] 0'']"

abbreviation query_r :: command where
  "query_r \<equiv> Command_of_string ''-u r'' CHR '' ''"

definition sample_orders :: string where
  "sample_orders = ''4'' @
     [CHR 0x0A] @ ''[refunded] T A 06-01 08:00 -> B 06-01 09:00 5 1'' @
     [CHR 0x0A] @ ''[pending] T A 06-01 08:00 -> B 06-01 09:00 5 6'' @
     [CHR 0x0A] @ ''[success] T A 06-01 08:00 -> B 06-01 09:00 5 8'' @
     [CHR 0x0A] @ ''[refunded] T A 06-01 08:00 -> B 06-01 09:00 5 9''"

abbreviation sample_end :: "int option \<times> status option list \<times> bool \<times> int option \<times> int option" where
  "sample_end \<equiv> (Some 3, [Some refunded, Some success, Some pending, Some refunded], True, Some 10, Some 10)"

lemma sample_run:
  "map_option (\<lambda>(outs, sy). (outs, sample_view sy, map_option fst (query_order query_r (sys_accounts sy) (sys_trains sy))))
     (run_checked sample_lines (initial_system 0)) = Some (sample_replies, sample_end, Some sample_orders)"
  by code_simp

text \<open>The state before the refund of line 9, and the one after it.\<close>

lemma sample_refund_run:
  "map_option (\<lambda>(outs, sy). (sample_view sy, line_ok (sample_lines ! 8) sy,
       map_option (\<lambda>(out, sy', stop). (out, sample_view sy')) (run_line (sample_lines ! 8) sy)))
     (run_checked (take 8 sample_lines) (initial_system 0)) =
   Some ((Some 1, [Some success, Some pending, Some pending, Some success], True, Some 10, Some 10), True,
     Some (''[9] 0'', Some 2, [Some refunded, Some success, Some pending, Some success], True, Some 10, Some 10))"
  by code_simp

lemma sample_system:
  obtains outs sy where "run_lines sample_lines (initial_system 0) = Some (outs, sy)"
    "purchases_ok sample_lines (initial_system 0)" "reachable 0 sy"
    "sample_view sy = sample_end"
    "map_option fst (query_order query_r (sys_accounts sy) (sys_trains sy)) = Some sample_orders"
proof -
  obtain outs sy where run: "run_checked sample_lines (initial_system 0) = Some (outs, sy)"
    and view: "sample_view sy = sample_end"
      "map_option fst (query_order query_r (sys_accounts sy) (sys_trains sy)) = Some sample_orders"
    using sample_run by (cases "run_checked sample_lines (initial_system 0)") auto
  then have "run_lines sample_lines (initial_system 0) = Some (outs, sy)" "purchases_ok sample_lines (initial_system 0)"
    using run_checked_ok by auto
  moreover from this have "reachable 0 sy" using run_lines_reachable reachable.init by blast
  ultimately show thesis using that view by blast
qed

lemma sample_step:
  assumes "i < 10"
  obtains sy1 sy2 stop where "reachable 0 sy1" "line_ok (sample_lines ! i) sy1"
    "run_line (sample_lines ! i) sy1 = Some (sample_replies ! i, sy2, stop)"
proof -
  obtain sy where "run_checked sample_lines (initial_system 0) =
      Some (sample_replies, sy)"
    using sample_run by (cases "run_checked sample_lines (initial_system 0)") auto
  from run_checked_nth [OF this _ _ reachable.init, of i] show thesis
    using that assms by (auto simp: sample_lines_def sample_replies_def)
qed

text \<open>The purchase of line 8 and the refund of line 9.\<close>

abbreviation sample_purchase :: buy_options where
  "sample_purchase \<equiv> \<lparr>bo_user = ''r'', bo_train = ''T'', bo_from = ''A'', bo_to = ''B'', bo_date = ''06-01'', bo_num = Some 1,
     bo_pending = False\<rparr>"

lemma line_8:
  "map_option (\<lambda>(s, cmd). (s, to_string (timestamp cmd), parse_options buy_takes buy_option no_buy_options cmd))
     (line_command (sample_lines ! 7)) = Some (''buy_ticket'', ''8'', sample_purchase)"
  by code_simp

lemma line_9:
  "map_option (\<lambda>(s, cmd). (s, to_string (timestamp cmd), parse_options refund_takes refund_option ([], 1) cmd))
     (line_command (sample_lines ! 8)) = Some (''refund_ticket'', ''9'', ''r'', 4)"
  by code_simp

lemma sample_buy:
  obtains ac tm tm' where "seats_inv {} tm" "order_num tm < MAX_INT" "- MAX_INT - 1 \<le> order_num tm"
    "buy_ticket_run sample_purchase ac tm = Some (''5'', tm')"
proof -
  obtain sy1 sy2 stop where s: "reachable 0 sy1" "line_ok (sample_lines ! 7) sy1"
    "run_line (sample_lines ! 7) sy1 = Some (''[8] 5'', sy2, stop)"
    using sample_step [of 7] by (auto simp: sample_replies_def)
  obtain cmd where c: "line_command (sample_lines ! 7) = Some (''buy_ticket'', cmd)" "to_string (timestamp cmd) = ''8''"
    "parse_options buy_takes buy_option no_buy_options cmd = sample_purchase"
    using line_8 by auto
  have "seats_inv {} (sys_trains sy1)" using reachable_ok [OF s(1)] by (simp add: system_ok_def)
  moreover have "order_num (sys_trains sy1) < MAX_INT" "- MAX_INT - 1 \<le> order_num (sys_trains sy1)"
    using s(2) c(1) by (simp_all add: line_ok_def purchase_ok_def)
  moreover obtain tm' where "buy_ticket cmd (sys_accounts sy1) (sys_trains sy1) = Some (''5'', tm')"
    using s(3) c(1,2) by (auto simp: run_line_def dispatch_def on_trains_def bind_Some_iff)
  ultimately show thesis using that [of "sys_trains sy1" "sys_accounts sy1" tm'] c(3) by (simp add: buy_ticket_def)
qed

lemma sample_refund:
  obtains ac tm tm' where "seats_inv {} tm" "refund_ticket_run ''r'' 4 ac tm = Some (''0'', tm')"
    "map_option order_status (table_map (order_database tm) \<lparr>data_str = ''r'', data_t = 2\<rparr>) = Some pending"
    "map_option order_status (table_map (order_database tm') \<lparr>data_str = ''r'', data_t = 2\<rparr>) = Some success"
proof -
  obtain outs sy1 where run: "run_checked (take 8 sample_lines) (initial_system 0) = Some (outs, sy1)"
    using sample_refund_run by (cases "run_checked (take 8 sample_lines) (initial_system 0)") auto
  then obtain sy2 stop where s: "run_line (sample_lines ! 8) sy1 = Some (''[9] 0'', sy2, stop)"
    and v1: "sample_view sy1 = (Some 1, [Some success, Some pending, Some pending, Some success], True, Some 10, Some 10)"
    and v2: "sample_view sy2 = (Some 2, [Some refunded, Some success, Some pending, Some success], True, Some 10, Some 10)"
    using sample_refund_run by auto
  obtain cmd where c: "line_command (sample_lines ! 8) = Some (''refund_ticket'', cmd)" "to_string (timestamp cmd) = ''9''"
    "parse_options refund_takes refund_option ([], 1) cmd = (''r'', 4)"
    using line_9 by auto
  have "reachable 0 sy1" using run_checked_ok [OF run] run_lines_reachable reachable.init by blast
  then have "seats_inv {} (sys_trains sy1)" using reachable_ok by (simp add: system_ok_def)
  moreover have "refund_ticket cmd (sys_accounts sy1) (sys_trains sy1) = Some (''0'', sys_trains sy2)"
    using s c(1,2) by (auto simp: run_line_def dispatch_def on_trains_def bind_Some_iff)
  then have "refund_ticket_run ''r'' 4 (sys_accounts sy1) (sys_trains sy1) = Some (''0'', sys_trains sy2)"
    using c(3) by (simp add: refund_ticket_def)
  ultimately show thesis
    using that [of "sys_trains sy1" "sys_accounts sy1" "sys_trains sy2"] v1 v2 by (simp add: sample_view_def)
qed

end
