(* ===== verification/TicketEffects.thy ===== *)
theory TicketEffects
  imports SeatSafety
begin

text \<open>
  What the handlers of tickets do to the orders and to the seats, beyond keeping the invariant:
  the settlement of the queue changes pending orders to successful ones and nothing else, the
  purchase stores one new order, the release writes a full row of seats for every day on sale,
  and the merge of \<^verbatim>\<open>query_ticket\<close> finds exactly the trains that serve both stations.
\<close>

section \<open>The settlement of the queue\<close>

text \<open>
  What a refund promises, over the orders alone. \<open>free\<close> gives the free seats of the day. The waiting
  orders are served one after the other: one that meets the refunded journey and finds its seats
  on every stop takes them, the others are passed over.
\<close>

definition waits_behind :: "order \<Rightarrow> order \<Rightarrow> bool" where
  "waits_behind ro y \<longleftrightarrow> order_status y = pending \<and> day_key y = day_key ro \<and> order_ID ro < order_ID y"

definition meets :: "order \<Rightarrow> order \<Rightarrow> bool" where
  "meets ro y \<longleftrightarrow> order_from y \<le> order_to ro \<and> order_from ro \<le> order_to y"

definition seats_for :: "order \<Rightarrow> int carray \<Rightarrow> bool" where
  "seats_for y free \<longleftrightarrow> (\<forall>i. order_from y \<le> i \<and> i < order_to y \<longrightarrow> (\<exists>f. free i = Some f \<and> order_qty y \<le> f))"

definition change_seats :: "order \<Rightarrow> int \<Rightarrow> int carray \<Rightarrow> int carray" where
  "change_seats y n free = (\<lambda>i. if order_from y \<le> i \<and> i < order_to y then map_option (\<lambda>f. f + n) (free i) else free i)"

fun serve :: "order \<Rightarrow> order list \<Rightarrow> int carray \<Rightarrow> order list \<times> int carray" where
  "serve ro [] free = ([], free)"
| "serve ro (y # ys) free =
     (if meets ro y \<and> seats_for y free
      then (let (zs, free') = serve ro ys (change_seats y (- order_qty y) free) in (y # zs, free'))
      else serve ro ys free)"

definition refund_settled :: "order \<Rightarrow> train_mgmt \<Rightarrow> train_mgmt \<Rightarrow> bool" where
  "refund_settled ro tm tm' \<longleftrightarrow>
     (\<exists>ws d zs free.
        set ws = {y. table_map (order_database tm) (order_key y) = Some y \<and> waits_behind ro y} \<and>
        sorted_wrt (\<lambda>a b. order_ID a < order_ID b) ws \<and>
        table_map (daytrain_database tm) (day_key ro) = Some d \<and>
        serve ro ws (change_seats ro (order_qty ro) (seat_num d)) = (zs, free) \<and>
        table_map (order_database tm') =
          (\<lambda>k. if k = order_key ro then Some (ro\<lparr>order_status := refunded\<rparr>)
               else map_option (\<lambda>y. if y \<in> set zs then y\<lparr>order_status := success\<rparr> else y)
                      (table_map (order_database tm) k)) \<and>
        table_map (pending_order_database tm') =
          (\<lambda>k. if k \<in> pend_key ` set zs then None else table_map (pending_order_database tm) k) \<and>
        table_map (daytrain_database tm') = (table_map (daytrain_database tm))(day_key ro \<mapsto> \<lparr>seat_num = free\<rparr>) \<and>
        train_database tm' = train_database tm \<and> station_database tm' = station_database tm \<and>
        order_num tm' = order_num tm)"

lemma serve_subset: "serve ro ys free = (zs, free') \<Longrightarrow> set zs \<subseteq> set ys"
  by (induction ro ys free arbitrary: zs rule: serve.induct) (fastforce split: if_splits prod.splits)+

lemma seats_left:
  assumes "seats_match tr sl d" "1 \<le> i" "i \<le> station_num tr"
  shows "seat_num d i = Some (total_seat_num tr - sl i)" "total_seat_num tr - sl i \<le> MAX_INT"
proof -
  have "0 \<le> sl i" using seats_matchD(3) [OF assms] by auto
  then show "total_seat_num tr - sl i \<le> MAX_INT" using assms(1) by (simp add: seats_match_def)
qed (rule seats_matchD(1) [OF assms])

lemma query_seat_enough:
  assumes "seats_match tr sl d" "1 \<le> f" "f < t" "t \<le> station_num tr" "query_seat f (t - 1) d = Some q"
  shows "n \<le> q \<longleftrightarrow> (\<forall>i. f \<le> i \<and> i < t \<longrightarrow> (\<exists>x. seat_num d i = Some x \<and> n \<le> x))"
proof -
  have s: "seat_num d i = Some (total_seat_num tr - sl i)" "total_seat_num tr - sl i \<le> MAX_INT" if "f \<le> i" "i < t" for i
    using that seats_left [OF assms(1), of i] assms(2-4) by simp_all
  have "q = Min (insert MAX_INT ((\<lambda>i. the (seat_num d i)) ` {f..t - 1}))"
    using assms(5) query_loop_eq [of f "t - 1" "seat_num d" MAX_INT] s assms(1,2,4)
    by (auto simp: query_seat_def seats_match_def)
  then have "n \<le> q \<longleftrightarrow> n \<le> MAX_INT \<and> (\<forall>i. f \<le> i \<and> i < t \<longrightarrow> n \<le> the (seat_num d i))" by (auto simp: Min_ge_iff)
  moreover have "n \<le> MAX_INT" if "\<forall>i. f \<le> i \<and> i < t \<longrightarrow> (\<exists>x. seat_num d i = Some x \<and> n \<le> x)"
    using that [rule_format, of f] s [of f] assms(3) by fastforce
  ultimately show ?thesis using s(1) by (auto; metis option.sel)
qed

lemma settle_pending_serve:
  assumes st: "settling tr dk d tm" and w: "table_map (order_database tm) (order_key w) = Some w" "order_status w = pending"
      "day_key w = dk" and run: "settle_pending ro (pending_of w) (d, tm) = Some (d', tm')"
  shows "queued dk tm (pending_of w)"
    "if meets ro w \<and> seats_for w (seat_num d)
     then seat_num d' = change_seats w (- order_qty w) (seat_num d) \<and>
       tm' = with_order (order_num tm) (w\<lparr>order_status := success\<rparr>)
         (table_DeleteEntry cmp5 (pend_key w) (pending_order_database tm)) tm
     else d' = d \<and> tm' = tm"
proof -
  have inv: "seats_inv {dk} tm" and m: "seats_match tr (sold (order_database tm) dk) d"
    and tr: "table_map (train_database tm) (data_str dk) = Some tr"
    using st by (simp_all add: settling_def)
  have row: "table_map (pending_order_database tm) (pend_key w) = Some (pending_of w)"
    using seats_invD(4) [OF inv w(1)] w(2) by (simp add: order_ok_def)
  then show q: "queued dk tm (pending_of w)"
    using w(3) by (auto simp: queued_def own_key_def pending_of_def pend_key_def day_key_def)
  note S = stored_order(1) [OF inv w(1)]
  have rng: "1 \<le> order_from w" "order_from w < order_to w" "order_to w \<le> station_num tr" "0 \<le> order_qty w"
    using S tr w(3) by (auto simp: order_data_ok_def day_key_def)
  note enough = query_seat_enough [OF m rng(1-3)]
  from inv q run show "if meets ro w \<and> seats_for w (seat_num d)
     then seat_num d' = change_seats w (- order_qty w) (seat_num d) \<and>
       tm' = with_order (order_num tm) (w\<lparr>order_status := success\<rparr>)
         (table_DeleteEntry cmp5 (pend_key w) (pending_order_database tm)) tm
     else d' = d \<and> tm' = tm"
  proof (cases rule: settle_pending_cases)
    case left
    then have "\<not> (meets ro w \<and> seats_for w (seat_num d))"
      using enough [of _ "order_qty w"] by (auto simp: apart_def pending_of_def meets_def seats_for_def)
    then show ?thesis using left(1,2) by (simp only: if_False simp_thms)
  next
    case (served x q)
    have "order_key x = order_key w" using served(3) by (simp add: pending_of_def order_key_def)
    then have xw: "x = w" using served(1) w(1) by (metis option.inject)
    have free: "seats_for w (seat_num d)" using enough [of q "order_qty w"] served(6,7) xw by (simp add: seats_for_def)
    have "meets ro w" using served(10) by (simp add: apart_def meets_def pending_of_def not_less)
    moreover have "seat_num d' i = change_seats w (- order_qty w) (seat_num d) i" for i
    proof (cases "order_from w \<le> i \<and> i < order_to w")
      case True
      then obtain x where "seat_num d i = Some x" "order_qty w \<le> x" using free by (auto simp: seats_for_def)
      moreover have "seat_num d i = Some (total_seat_num tr - sold (order_database tm) dk i)"
        "total_seat_num tr - sold (order_database tm) dk i \<le> MAX_INT"
        using seats_left [OF m, of i] rng(1,3) True by simp_all
      ultimately show ?thesis
        using modify_seat_match [OF m rng(1-3), of "- order_qty w" d' i] served(8) xw True rng(4)
        by (simp add: change_seats_def int32_id MAX_INT_def)
    next
      case False
      then have "seat_num d' i = seat_num d i"
        using modify_seat_match [OF m rng(1-3), of "- order_qty w" d' i] served(8) xw by auto
      then show ?thesis using False by (auto simp: change_seats_def)
    qed
    ultimately show ?thesis using free served(9) xw by auto
  qed
qed

lemma settle_loop_serve:
  assumes "settling tr dk d tm"
    and "\<forall>w \<in> set ws. table_map (order_database tm) (order_key w) = Some w \<and> order_status w = pending \<and> day_key w = dk"
    and "distinct ws" "settle_loop ro (map pending_of ws) (d, tm) = Some (d', tm')"
  shows "\<exists>zs. serve ro ws (seat_num d) = (zs, seat_num d') \<and>
    table_map (order_database tm') =
      (\<lambda>k. map_option (\<lambda>y. if y \<in> set zs then y\<lparr>order_status := success\<rparr> else y) (table_map (order_database tm) k)) \<and>
    table_map (pending_order_database tm') =
      (\<lambda>k. if k \<in> pend_key ` set zs then None else table_map (pending_order_database tm) k) \<and>
    train_database tm' = train_database tm \<and> station_database tm' = station_database tm \<and>
    daytrain_database tm' = daytrain_database tm \<and> order_num tm' = order_num tm"
  using assms
proof (induction ws arbitrary: d tm)
  case Nil
  then show ?case by (simp add: option.map_ident)
next
  case (Cons w ws)
  obtain d1 tm1 where s: "settle_pending ro (pending_of w) (d, tm) = Some (d1, tm1)"
    "settle_loop ro (map pending_of ws) (d1, tm1) = Some (d', tm')"
    using Cons.prems(4) by (auto simp: bind_Some_iff)
  have inv: "seats_inv {dk} tm" using Cons.prems(1) by (simp add: settling_def)
  have w: "table_map (order_database tm) (order_key w) = Some w" "order_status w = pending" "day_key w = dk"
    using Cons.prems(2) by auto
  note P = settle_pending_serve [OF Cons.prems(1) w s(1)]
  have st1: "settling tr dk d1 tm1" using settle_one [OF Cons.prems(1) P(1) s(1)] by simp
  show ?case
  proof (cases "meets ro w \<and> seats_for w (seat_num d)")
    case True
    have d1: "seat_num d1 = change_seats w (- order_qty w) (seat_num d)" and
      tm1: "tm1 = with_order (order_num tm) (w\<lparr>order_status := success\<rparr>)
         (table_DeleteEntry cmp5 (pend_key w) (pending_order_database tm)) tm" using P(2) True by auto
    have m1: "table_map (order_database tm1) = (table_map (order_database tm))(order_key w \<mapsto> w\<lparr>order_status := success\<rparr>)"
      "table_map (pending_order_database tm1) = (table_map (pending_order_database tm))(pend_key w := None)"
      using seats_invD(1) [OF inv]
      by (simp_all add: tm1 string_any_key.table_map_insert string_int_int_key.table_map_delete tables_ok_def)
    have "order_key y \<noteq> order_key w" if "y \<in> set ws" for y
      using Cons.prems(2,3) w(1) that by (metis distinct.simps(2) list.set_intros(2) option.inject)
    then have "\<forall>y \<in> set ws. table_map (order_database tm1) (order_key y) = Some y \<and> order_status y = pending \<and> day_key y = dk"
      using Cons.prems(2) m1 by auto
    from Cons.IH [OF st1 this _ s(2)] Cons.prems(3) obtain zs where
      z: "serve ro ws (seat_num d1) = (zs, seat_num d')"
        "table_map (order_database tm') =
          (\<lambda>k. map_option (\<lambda>y. if y \<in> set zs then y\<lparr>order_status := success\<rparr> else y) (table_map (order_database tm1) k))"
        "table_map (pending_order_database tm') =
          (\<lambda>k. if k \<in> pend_key ` set zs then None else table_map (pending_order_database tm1) k)"
        "train_database tm' = train_database tm1" "station_database tm' = station_database tm1"
        "daytrain_database tm' = daytrain_database tm1" "order_num tm' = order_num tm1" by auto
    have sub: "set zs \<subseteq> set ws" using serve_subset [OF z(1)] .
    have ns: "w\<lparr>order_status := success\<rparr> \<notin> set zs"
    proof
      assume "w\<lparr>order_status := success\<rparr> \<in> set zs"
      then have "w\<lparr>order_status := success\<rparr> \<in> set (w # ws)" using sub by auto
      then have "order_status (w\<lparr>order_status := success\<rparr>) = pending" using Cons.prems(2) by blast
      then show False by simp
    qed
    have key: "k = order_key w" if "table_map (order_database tm) k = Some w" for k
      using seats_invD(4) [OF inv that] by (simp add: order_ok_def)
    have "table_map (order_database tm') k =
        map_option (\<lambda>y. if y \<in> set (w # zs) then y\<lparr>order_status := success\<rparr> else y) (table_map (order_database tm) k)" for k
    proof (cases "k = order_key w")
      case False
      then have "table_map (order_database tm) k \<noteq> Some w" using key by blast
      then show ?thesis using False by (cases "table_map (order_database tm) k") (simp_all add: z(2) m1)
    qed (use w(1) ns in \<open>simp add: z(2) m1\<close>)
    moreover have "table_map (pending_order_database tm') k =
        (if k \<in> pend_key ` set (w # zs) then None else table_map (pending_order_database tm) k)" for k
      by (auto simp: z(3) m1)
    moreover have "serve ro (w # ws) (seat_num d) = (w # zs, seat_num d')" using True z(1) d1 by simp
    ultimately show ?thesis using z(4-7) by (intro exI [of _ "w # zs"]) (simp add: fun_eq_iff tm1)
  next
    case False
    then have "d1 = d" "tm1 = tm" using P(2) by auto
    then show ?thesis using Cons.IH [OF Cons.prems(1) _ _ s(2) [unfolded \<open>d1 = d\<close> \<open>tm1 = tm\<close>]] Cons.prems(2,3) False by auto
  qed
qed

text \<open>The rows the scan of the queue finds are the copies of the orders that wait behind the refund.\<close>

lemma waiting_orders:
  assumes inv: "seats_inv {} tm" and x: "table_map (order_database tm) (order_key ro) = Some ro" "order_status ro = success"
    and inv1: "seats_inv X (refund_order ro tm)"
    and ps: "\<And>p. p \<in> set ps \<longleftrightarrow> queued (day_key ro) (refund_order ro tm) p \<and> order_ID ro \<le> pend_ID p"
    and "distinct ps" "sorted_wrt (\<lambda>a b. \<not> pending_order_cmp b a) ps"
  obtains ws where "ps = map pending_of ws" "distinct ws" "sorted_wrt (\<lambda>a b. order_ID a < order_ID b) ws"
    "set ws = {y. table_map (order_database tm) (order_key y) = Some y \<and> waits_behind ro y}"
    "\<forall>w \<in> set ws. table_map (order_database (refund_order ro tm)) (order_key w) = Some w \<and> order_status w = pending \<and>
       day_key w = day_key ro"
proof -
  let ?tm1 = "refund_order ro tm"
  have m1: "table_map (order_database ?tm1) = (table_map (order_database tm))(order_key ro \<mapsto> ro\<lparr>order_status := refunded\<rparr>)"
    using seats_invD(1) [OF inv] by (simp add: string_any_key.table_map_insert tables_ok_def)
  have row: "\<exists>y. pending_of y = p \<and> table_map (order_database tm) (order_key y) = Some y \<and> waits_behind ro y"
    if p: "p \<in> set ps" for p
  proof -
    have q: "queued (day_key ro) ?tm1 p" "order_ID ro \<le> pend_ID p" using ps p by auto
    then obtain y where y: "table_map (order_database ?tm1) (order_key y) = Some y" "order_status y = pending" "p = pending_of y"
      using seats_invD(5) [OF inv1] pend_okD unfolding queued_def by metis
    have "order_key y \<noteq> order_key ro"
    proof
      assume "order_key y = order_key ro"
      then have "y = ro\<lparr>order_status := refunded\<rparr>" using y(1) unfolding m1 by simp
      then have "order_status y = refunded" by simp
      then show False using y(2) by simp
    qed
    then have st: "table_map (order_database tm) (order_key y) = Some y" using y(1) m1 by simp
    have "order_ID y \<noteq> order_ID ro" using stored_order(3) [OF inv x(1) st] x(2) y(2) by auto
    moreover have "day_key y = day_key ro" using q(1) y(3) by (auto simp: queued_def pending_of_def day_key_def)
    ultimately have "waits_behind ro y" using q(2) y(2,3) by (simp add: waits_behind_def pending_of_def)
    then show ?thesis using y(3) st by blast
  qed
  then obtain f where f: "\<forall>p \<in> set ps. pending_of (f p) = p \<and>
      table_map (order_database tm) (order_key (f p)) = Some (f p) \<and> waits_behind ro (f p)" by metis
  have inj: "y = z" if "table_map (order_database tm) (order_key y) = Some y" "table_map (order_database tm) (order_key z) = Some z"
    "pending_of y = pending_of z" for y z
  proof -
    have "order_key y = order_key z" using that(3) by (simp add: pending_of_def order_key_def)
    then show ?thesis using that(1,2) by (metis option.inject)
  qed
  have set: "set (map f ps) = {y. table_map (order_database tm) (order_key y) = Some y \<and> waits_behind ro y}"
  proof (intro set_eqI iffI)
    fix y assume "y \<in> {y. table_map (order_database tm) (order_key y) = Some y \<and> waits_behind ro y}"
    then have y: "table_map (order_database tm) (order_key y) = Some y" "waits_behind ro y" by auto
    have "table_map (pending_order_database tm) (pend_key y) = Some (pending_of y)"
      using seats_invD(4) [OF inv y(1)] y(2) by (simp add: order_ok_def waits_behind_def)
    then have "pending_of y \<in> set ps"
      using y(2) unfolding ps by (auto simp: queued_def own_key_def pending_of_def pend_key_def waits_behind_def day_key_def)
    moreover from this have "f (pending_of y) = y" using f inj y(1) by blast
    ultimately show "y \<in> set (map f ps)" by force
  qed (use f in auto)
  have mp: "ps = map pending_of (map f ps)" using f by (simp add: map_idI)
  have dist: "distinct (map f ps)" using mp \<open>distinct ps\<close> by (metis distinct_map)
  have lt: "order_ID a < order_ID b" if "a \<in> set (map f ps)" "b \<in> set (map f ps)" "\<not> order_ID b < order_ID a \<and> a \<noteq> b" for a b
    using that stored_order(3) [OF inv, of a "order_key b" b] set by fastforce
  have "sorted_wrt (\<lambda>a b. \<not> pending_order_cmp b a) (map pending_of (map f ps))"
    using assms(7) by (simp only: mp [symmetric])
  then have "sorted_wrt (\<lambda>a b. \<not> order_ID b < order_ID a) (map f ps)"
    by (simp only: sorted_wrt_map) (simp add: pending_order_cmp_def pending_of_def)
  then have "sorted_wrt (\<lambda>a b. \<not> order_ID b < order_ID a \<and> a \<noteq> b) (map f ps)"
    using dist by (auto simp: sorted_wrt_iff_nth_less distinct_conv_nth)
  then have "sorted_wrt (\<lambda>a b. order_ID a < order_ID b) (map f ps)"
    by (rule sorted_wrt_mono_rel [rotated]) (use lt in blast)
  moreover have "\<forall>w \<in> set (map f ps). table_map (order_database ?tm1) (order_key w) = Some w \<and> order_status w = pending \<and>
       day_key w = day_key ro"
  proof
    fix w assume "w \<in> set (map f ps)"
    then have w: "table_map (order_database tm) (order_key w) = Some w" "waits_behind ro w" using set by auto
    have "order_key w \<noteq> order_key ro"
      using w x by (metis option.inject status.distinct(1) waits_behind_def)
    then show "table_map (order_database ?tm1) (order_key w) = Some w \<and> order_status w = pending \<and> day_key w = day_key ro"
      using w m1 by (simp add: waits_behind_def)
  qed
  ultimately show thesis using that [OF mp dist _ set] by blast
qed

lemma given_back:
  assumes "seats_match tr sl d" "seats_match tr sl' d1" "1 \<le> f" "f < t" "t \<le> station_num tr"
    and "modify_seat f (t - 1) n d = Some d1" "\<And>i. sl' i = sl i - (if f \<le> i \<and> i < t then n else 0)"
  shows "seat_num d1 = (\<lambda>i. if f \<le> i \<and> i < t then map_option (\<lambda>x. x + n) (seat_num d i) else seat_num d i)"
proof
  fix i
  show "seat_num d1 i = (if f \<le> i \<and> i < t then map_option (\<lambda>x. x + n) (seat_num d i) else seat_num d i)"
  proof (cases "f \<le> i \<and> i < t")
    case True
    then have "seat_num d1 i = Some (total_seat_num tr - sl' i)" "seat_num d i = Some (total_seat_num tr - sl i)"
      using seats_matchD(1) [OF assms(2), of i] seats_matchD(1) [OF assms(1), of i] assms(3,5) by auto
    then show ?thesis using True assms(7) [of i] by simp
  qed (use modify_seat_match [OF assms(1,3-6), of i] in auto)
qed

text \<open>Refunding an order that has seats does what is promised.\<close>

lemma refund_success_settles:
  assumes inv: "seats_inv {} tm" and x: "table_map (order_database tm) (order_key ro) = Some ro" "order_status ro = success"
    and run: "refund_success ro (refund_order ro tm) = Some (r, tm')"
  shows "r = ''0'' \<and> refund_settled ro tm tm'"
  using inv x run
proof (cases rule: refund_success_cases)
  case (1 tr d d1 ps d2 tm2)
  let ?tm1 = "refund_order ro tm"
  have inv1: "seats_inv {day_key ro} ?tm1" and tr: "table_map (train_database tm) (data_str (day_key ro)) = Some tr"
    and m: "seats_match tr (sold (order_database ?tm1) (day_key ro)) d1" using 1(1) by (simp_all add: settling_def)
  obtain ws where ws: "ps = map pending_of ws" "distinct ws" "sorted_wrt (\<lambda>a b. order_ID a < order_ID b) ws"
    "set ws = {y. table_map (order_database tm) (order_key y) = Some y \<and> waits_behind ro y}"
    "\<forall>w \<in> set ws. table_map (order_database ?tm1) (order_key w) = Some w \<and> order_status w = pending \<and> day_key w = day_key ro"
    using waiting_orders [OF inv x inv1 1(2-4)] by blast
  have m1: "table_map (order_database ?tm1) = (table_map (order_database tm))(order_key ro \<mapsto> ro\<lparr>order_status := refunded\<rparr>)"
    using seats_invD(1) [OF inv] by (simp add: string_any_key.table_map_insert tables_ok_def)
  have d1: "seat_num d1 = change_seats ro (order_qty ro) (seat_num d)"
    unfolding change_seats_def
  proof (rule given_back [OF _ m _ _ _ 1(6)])
    show "seats_match tr (sold (order_database tm) (day_key ro)) d"
      using seats_invD(3) [OF inv 1(5)] tr by (auto simp: day_ok_def)
    show "sold (order_database ?tm1) (day_key ro) i = sold (order_database tm) (day_key ro) i -
        (if order_from ro \<le> i \<and> i < order_to ro then order_qty ro else 0)" for i
      using sold_insert [of "order_database tm" "order_key ro" "ro\<lparr>order_status := refunded\<rparr>" "day_key ro" i]
        x seats_invD(1) [OF inv] by (simp add: tables_ok_def order_share_def day_key_def)
  qed (use stored_order(1) [OF inv x(1)] tr in \<open>auto simp: order_data_ok_def day_key_def\<close>)
  obtain zs where z: "serve ro ws (seat_num d1) = (zs, seat_num d2)"
    "table_map (order_database tm2) =
      (\<lambda>k. map_option (\<lambda>y. if y \<in> set zs then y\<lparr>order_status := success\<rparr> else y) (table_map (order_database ?tm1) k))"
    "table_map (pending_order_database tm2) =
      (\<lambda>k. if k \<in> pend_key ` set zs then None else table_map (pending_order_database ?tm1) k)"
    "train_database tm2 = train_database tm" "station_database tm2 = station_database tm"
    "daytrain_database tm2 = daytrain_database tm" "order_num tm2 = order_num tm"
    using settle_loop_serve [OF 1(1) ws(5,2) 1(8) [unfolded ws(1)]] by auto
  have "ro\<lparr>order_status := refunded\<rparr> \<notin> set zs"
  proof
    assume "ro\<lparr>order_status := refunded\<rparr> \<in> set zs"
    then have "ro\<lparr>order_status := refunded\<rparr> \<in> set ws" using serve_subset [OF z(1)] by blast
    then have "order_status (ro\<lparr>order_status := refunded\<rparr>) = pending" using ws(5) by blast
    then show False by simp
  qed
  then have "table_map (order_database tm') =
      (\<lambda>k. if k = order_key ro then Some (ro\<lparr>order_status := refunded\<rparr>)
           else map_option (\<lambda>y. if y \<in> set zs then y\<lparr>order_status := success\<rparr> else y) (table_map (order_database tm) k))"
    using z(2) 1(9) m1 by (simp add: fun_eq_iff)
  moreover have "table_map (daytrain_database tm') = (table_map (daytrain_database tm))(day_key ro \<mapsto> \<lparr>seat_num = seat_num d2\<rparr>)"
    using z(6) 1(9) seats_invD(1) [OF inv] by (cases d2) (simp add: string_any_key.table_map_insert tables_ok_def)
  moreover have "table_map (pending_order_database tm') =
      (\<lambda>k. if k \<in> pend_key ` set zs then None else table_map (pending_order_database tm) k)" using z(3) 1(9) by (simp cong: if_cong)
  ultimately have "refund_settled ro tm tm'"
    unfolding refund_settled_def
    by (intro exI [of _ ws] exI [of _ d] exI [of _ zs] exI [of _ "seat_num d2"] conjI ws(3,4) 1(5))
      (use z(1,4,5,7) d1 1(9) in simp_all)
  then show ?thesis using 1(7) by simp
qed

text \<open>The seats a purchase takes.\<close>

lemma modify_seat_taken:
  assumes "query_seat f (t - 1) d = Some q" "modify_seat f (t - 1) v d = Some d'" "1 \<le> f"
  shows "seat_num d' i = (if f \<le> i \<and> i < t then map_option (\<lambda>x. int32 (x + v)) (seat_num d i) else seat_num d i)"
proof (cases "f < t")
  case True
  have def: "array_read (seat_num d) j \<noteq> None" if "f \<le> j" "j < t" for j using query_seat_le [OF assms(1), of j] that by auto
  then have "t - 1 < maxn" using def [of "t - 1"] True by (simp add: array_read_def split: if_splits)
  moreover have "seat_num d j \<noteq> None" if "f \<le> j" "j \<le> t - 1" for j using def [of j] that by (simp add: array_read_def split: if_splits)
  ultimately show ?thesis using modify_loop_eq [of f "t - 1" "seat_num d" v] assms(2,3) by (auto simp: modify_seat_def)
next
  case False
  then show ?thesis using assms(2) by (auto simp: modify_seat_def modify_loop.simps [of f])
qed

text \<open>The orders a user can refund or list: those whose number is not negative.\<close>

lemma in_map_snd_filter: "y \<in> set (map snd (filter P rs)) \<longleftrightarrow> (\<exists>k. (k, y) \<in> set rs \<and> P (k, y))"
  by force

lemma order_scan_set:
  assumes "seats_inv X tm" "order_scan user tm = Some os"
  shows "set os = {y. table_map (order_database tm) (order_key y) = Some y \<and> order_user y = cstr user \<and> 0 \<le> order_ID y}"
    and "distinct os"
proof -
  let ?k = "\<lparr>data_str = cstr user, data_t = 0\<rparr>"
  let ?f = "\<lambda>e. \<not> cmp3 (fst e) ?k < 0 \<and> StringAnyComparator 1 ?k (fst e) = 0"
  have ok: "table_ok cmp3 (order_database tm)" using seats_invD(1) [OF assms(1)] by (simp add: tables_ok_def)
  have os: "os = map snd (filter ?f (rows (order_database tm)))"
    using assms(2) scan_rows [OF string_any_scan.standby_comparator_axioms ok, of ?k]
    by (auto simp: order_scan_def bind_Some_iff StringAny_Some)
  have f: "?f (order_key y, y) \<longleftrightarrow> order_user y = cstr user \<and> 0 \<le> order_ID y" for y
    by (auto simp: StringAnyComparator_def order_key_def Let_def split: if_splits)
  have row: "(k, y) \<in> set (rows (order_database tm)) \<longleftrightarrow> k = order_key y \<and> table_map (order_database tm) (order_key y) = Some y" for k y
    using string_any_key.table_rows_map [OF ok, of k y] seats_invD(4) [OF assms(1), of k y] by (auto simp: order_ok_def)
  have keys: "fst e = order_key (snd e)" if "e \<in> set (rows (order_database tm))" for e
    using row [of "fst e" "snd e"] that by simp
  have "y \<in> set os \<longleftrightarrow> table_map (order_database tm) (order_key y) = Some y \<and> order_user y = cstr user \<and> 0 \<le> order_ID y" for y
  proof -
    have "y \<in> set os \<longleftrightarrow> (order_key y, y) \<in> set (rows (order_database tm)) \<and> ?f (order_key y, y)"
      unfolding os in_map_snd_filter using keys [of "(_, y)"] by (metis fst_conv snd_conv)
    then show ?thesis unfolding f row by auto
  qed
  then show "set os = {y. table_map (order_database tm) (order_key y) = Some y \<and> order_user y = cstr user \<and> 0 \<le> order_ID y}"
    by blast
  have "distinct (map fst (filter ?f (rows (order_database tm))))"
    using string_any_key.sorted_keys_distinct ok by (intro distinct_map_filter) (simp add: table_ok_def)
  moreover have "map fst (filter ?f (rows (order_database tm))) = map order_key os"
    unfolding os using keys by simp
  ultimately show "distinct os" using distinct_map [of order_key os] by simp
qed

lemma orders_newest_first:
  assumes inv: "seats_inv X tm" and os0: "order_scan user tm = Some os0" and os: "mset os = mset os0"
    "sorted_wrt (\<lambda>a b. \<not> order_cmp b a) os"
  shows "set os = {y. table_map (order_database tm) (order_key y) = Some y \<and> order_user y = cstr user \<and> 0 \<le> order_ID y}"
    and "sorted_wrt (\<lambda>a b. order_ID b < order_ID a) os"
proof -
  note S = order_scan_set [OF inv os0]
  show set: "set os = {y. table_map (order_database tm) (order_key y) = Some y \<and> order_user y = cstr user \<and> 0 \<le> order_ID y}"
    using S(1) mset_eq_setD [OF os(1)] by simp
  have "distinct os" using S(2) mset_eq_imp_distinct_iff [OF os(1)] by simp
  then have "sorted_wrt (\<lambda>a b. \<not> order_cmp b a \<and> a \<noteq> b) os"
    using os(2) by (auto simp: sorted_wrt_iff_nth_less distinct_conv_nth)
  moreover have "order_ID b < order_ID a" if "a \<in> set os" "b \<in> set os" "\<not> order_cmp b a \<and> a \<noteq> b" for a b
    using that set stored_order(3) [OF inv, of a "order_key b" b] by (fastforce simp: order_cmp_def)
  ultimately show "sorted_wrt (\<lambda>a b. order_ID b < order_ID a) os" by (rule sorted_wrt_mono_rel [rotated])
qed

section \<open>The merge of query_ticket\<close>

definition by_train :: "station list \<Rightarrow> bool" where
  "by_train ss \<longleftrightarrow> sorted_wrt (\<lambda>a b. strcmp (st_train_ID a) (st_train_ID b) < 0) ss"

definition serves :: "time_type \<Rightarrow> station \<Rightarrow> station \<Rightarrow> bool" where
  "serves day s t \<longleftrightarrow> st_train_ID s = st_train_ID t \<and> st_index s < st_index t \<and>
     start_sale_time s \<le> time_sub day (get_date (leaving_time s)) \<and>
     time_sub day (get_date (leaving_time s)) \<le> end_sale_time s"

definition all_tickets :: "time_type \<Rightarrow> station list \<Rightarrow> station list \<Rightarrow> ticket list" where
  "all_tickets day ss ts = concat (map (\<lambda>s. map (\<lambda>t. \<lparr>ticket_s = s, ticket_t = t\<rparr>) (filter (serves day s) ts)) ss)"

lemma by_train_Cons: "by_train (s # ss) \<longleftrightarrow> (\<forall>x \<in> set ss. strcmp (st_train_ID s) (st_train_ID x) < 0) \<and> by_train ss"
  by (simp add: by_train_def)

lemma serves_none: "\<forall>x \<in> set ts. st_train_ID s \<noteq> st_train_ID x \<Longrightarrow> filter (serves day s) ts = []"
  by (auto simp: serves_def filter_empty_conv)

lemma strcmp_less_neq: "strcmp a b < 0 \<Longrightarrow> a \<noteq> b" "strcmp a b < 0 \<Longrightarrow> b \<noteq> a"
  using strcmp_eq_0_iff [of a b] by auto

lemma all_tickets_skip:
  assumes "\<forall>x \<in> set ss. st_train_ID x \<noteq> st_train_ID t"
  shows "all_tickets day ss (t # ts) = all_tickets day ss ts"
proof -
  have "filter (serves day x) (t # ts) = filter (serves day x) ts" if "x \<in> set ss" for x
    using assms that by (auto simp: serves_def)
  then show ?thesis unfolding all_tickets_def by (metis (mono_tags, lifting) map_eq_conv)
qed

lemma ticket_merge_eq:
  "by_train ss \<Longrightarrow> by_train ts \<Longrightarrow> ticket_merge day ss ts = all_tickets day ss ts"
proof (induction day ss ts rule: ticket_merge.induct)
  case (1 day s ss t ts)
  have sorted: "\<forall>x \<in> set ss. strcmp (st_train_ID s) (st_train_ID x) < 0" "by_train ss"
    "\<forall>x \<in> set ts. strcmp (st_train_ID t) (st_train_ID x) < 0" "by_train ts"
    using "1.prems" by (simp_all add: by_train_Cons)
  consider (less) "strcmp (st_train_ID s) (st_train_ID t) < 0" | (greater) "strcmp (st_train_ID t) (st_train_ID s) < 0"
    | (same) "st_train_ID s = st_train_ID t"
    using strcmp_eq_0_iff strcmp_neg_swap by (metis linorder_neqE_linordered_idom)
  then show ?case
  proof cases
    case less
    have "st_train_ID s \<noteq> st_train_ID x" if "x \<in> set (t # ts)" for x
      using that less sorted(3) strcmp_trans [of "st_train_ID s" "st_train_ID t" "st_train_ID x"] strcmp_less_neq by auto
    then have "filter (serves day s) (t # ts) = []" by (intro serves_none) blast
    then show ?thesis using 1 less sorted by (simp add: all_tickets_def)
  next
    case greater
    then have pos: "strcmp (st_train_ID s) (st_train_ID t) > 0"
      using strcmp_neg_swap [of "st_train_ID t" "st_train_ID s"] by simp
    have "st_train_ID x \<noteq> st_train_ID t" if "x \<in> set (s # ss)" for x
      using that greater sorted(1) strcmp_trans [of "st_train_ID t" "st_train_ID s" "st_train_ID x"] strcmp_less_neq by auto
    then have "all_tickets day (s # ss) (t # ts) = all_tickets day (s # ss) ts" by (intro all_tickets_skip) blast
    then show ?thesis using 1 pos sorted by simp
  next
    case same
    then have z: "strcmp (st_train_ID s) (st_train_ID t) = 0" using strcmp_eq_0_iff by simp
    have "filter (serves day s) ts = []" using same sorted(3) strcmp_less_neq by (intro serves_none) auto
    moreover have "all_tickets day ss (t # ts) = all_tickets day ss ts"
      using same sorted(1) strcmp_less_neq(2) by (intro all_tickets_skip) auto
    ultimately have "all_tickets day (s # ss) (t # ts) =
        (if serves day s t then [\<lparr>ticket_s = s, ticket_t = t\<rparr>] else []) @ all_tickets day ss ts"
      by (simp add: all_tickets_def)
    then show ?thesis using 1 z same sorted by (auto simp: serves_def Let_def not_le)
  qed
qed (simp_all add: all_tickets_def)

section \<open>The rows of a release\<close>

lemma day_loop_rows:
  assumes "day_loop t_id tr i db = Some db'" "table_ok cmp3 db"
  shows "table_map db' key =
    (if data_str key = cstr t_id \<and> i \<le> data_t key \<and> data_t key \<le> end_sale_date tr \<and> (data_t key - i) mod 1440 = 0
     then map_option (\<lambda>a. \<lparr>seat_num = a\<rparr>) (seat_loop 1 (station_num tr) (total_seat_num tr) (\<lambda>j. None))
     else table_map db key)"
  using assms
proof (induction t_id tr i db rule: day_loop.induct)
  case (1 t_id tr i db)
  show ?case
  proof (cases "i \<le> end_sale_date tr")
    case True
    let ?k = "\<lparr>data_str = cstr t_id, data_t = i\<rparr>"
    obtain a where a: "seat_loop 1 (station_num tr) (total_seat_num tr) (\<lambda>j. None) = Some a" and
      k: "StringAny_SetValue 24 t_id i = Some ?k" and nx: "\<not> i + 1440 > MAX_INT" and
      rest: "day_loop t_id tr (i + 1440) (table_InsertEntry cmp3 ?k \<lparr>seat_num = a\<rparr> db) = Some db'"
      using "1.prems"(1) True
      by (auto simp: day_loop.simps [of t_id tr i] bind_Some_iff Let_def StringAny_Some split: if_splits)
    note IH = "1.IH" [OF True a k refl nx rest string_any_key.table_ok_insert [OF "1.prems"(2)]]
    have split: "i \<le> d \<and> (d - i) mod 1440 = 0 \<longleftrightarrow> d = i \<or> i + 1440 \<le> d \<and> (d - (i + 1440)) mod 1440 = 0" for d :: int
    proof -
      have "(d - (i + 1440)) mod 1440 = (d - i) mod 1440" using minus_mod_self2 [of "d - i" 1440] by (simp add: algebra_simps)
      moreover have "d = i" if "i \<le> d" "d < i + 1440" "(d - i) mod 1440 = 0"
        using that mod_pos_pos_trivial [of "d - i" 1440] by simp
      ultimately show ?thesis by (cases "d < i + 1440") (fastforce simp del: mod_0_imp_dvd dvd_imp_mod_0 mod_eq_0_iff_dvd)+
    qed
    show ?thesis
      unfolding IH using True split [of "data_t key"] a
      by (cases key) (auto simp: string_any_key.table_map_insert)
  next
    case False
    then show ?thesis using "1.prems"(1) by (auto simp: day_loop.simps [of t_id tr i])
  qed
qed

section \<open>The prices of a train\<close>

definition fits :: "int \<Rightarrow> bool" where
  "fits x \<longleftrightarrow> - MAX_INT - 1 \<le> x \<and> x \<le> MAX_INT"

abbreviation price_total :: "string list \<Rightarrow> int" where
  "price_total tps \<equiv> \<Sum>tp\<leftarrow>tps. string_to_int tp"

lemma price_loop_Some:
  assumes "price_loop tps k a = Some a'" "array_read a k = Some x" "0 \<le> k"
    and "\<forall>n \<le> length tps. fits (x + price_total (take n tps))"
  shows "(\<forall>n \<le> length tps. a' (k + int n) = Some (x + price_total (take n tps))) \<and> (\<forall>i < k. a' i = a i)"
  using assms
proof (induction tps k a arbitrary: x rule: price_loop.induct)
  case (1 k a)
  then show ?case by (auto simp: array_read_def split: if_splits)
next
  case (2 tp tps k a)
  let ?y = "x + string_to_int tp"
  let ?a = "a(k + 1 \<mapsto> ?y)"
  have y: "int32 ?y = ?y" using 2(5) [rule_format, of 1] by (intro int32_id) (simp_all add: MAX_INT_def fits_def)
  have w: "array_write a (k + 1) (int32 ?y) = Some ?a" "price_loop tps (k + 1) ?a = Some a'"
    "array_read ?a (k + 1) = Some ?y"
    using 2(2-4) y by (auto simp: bind_Some_iff array_write_def array_read_def split: if_splits)
  have "\<forall>n \<le> length tps. fits (?y + price_total (take n tps))"
    using 2(5) [rule_format, of "Suc n" for n] by (auto simp: add.assoc)
  then have IH: "\<forall>n \<le> length tps. a' (k + 1 + int n) = Some (?y + price_total (take n tps))" "\<forall>i < k + 1. a' i = ?a i"
    using "2.IH" [OF 2(3) w(1,2,3)] 2(4) by simp_all
  have "a' (k + int n) = Some (x + price_total (take n (tp # tps)))" if "n \<le> length (tp # tps)" for n
  proof (cases n)
    case 0
    then show ?thesis using IH(2) [rule_format, of k] 2(3) by (simp add: array_read_def split: if_splits)
  next
    case (Suc m)
    then show ?thesis using IH(1) [rule_format, of m] that by (simp add: algebra_simps)
  qed
  then show ?case using IH(2) by auto
qed

text \<open>
  Station \<open>n + 1\<close> of a train costs the sum of the first \<open>n\<close> prices.
\<close>

lemma Train_prices:
  assumes "Train tid snum seats stas prices start travel stopover sale ty = Some tr"
    and "\<forall>n \<le> length (all_tokens (Command_of_string prices CHR ''|'')).
       fits (price_total (take n (all_tokens (Command_of_string prices CHR ''|''))))"
    and "n \<le> length (all_tokens (Command_of_string prices CHR ''|''))"
  shows "price_sum tr (1 + int n) = Some (price_total (take n (all_tokens (Command_of_string prices CHR ''|''))))"
proof -
  have "price_loop (all_tokens (Command_of_string prices CHR ''|'')) 1 [0 \<mapsto> 0, 1 \<mapsto> 0] = Some (price_sum tr)"
    using assms(1) by (auto simp: Train_def bind_Some_iff Let_def case_prod_beta)
  from price_loop_Some [OF this, of 0] assms(2,3) show ?thesis by (simp add: array_read_def maxn_def)
qed

end
