(* ===== verification/OrderNumbers.thy ===== *)
theory OrderNumbers
  imports SystemMain TicketEffects
begin

text \<open>
  The numbers of the orders: they go on from the value the counter had at the start, so with a
  counter that starts at -1 or more no stored order has a negative number, and the scan of the
  orders of a user, which begins at number 0, finds all of them.
\<close>

definition numbers_above :: "int \<Rightarrow> train_mgmt \<Rightarrow> bool" where
  "numbers_above n tm \<longleftrightarrow> n \<le> order_num tm \<and> (\<forall>k x. table_map (order_database tm) k = Some x \<longrightarrow> n < order_ID x)"

lemma numbers_above_mono:
  assumes "numbers_above n tm" "order_num tm' = order_num tm"
    and "\<And>k x. table_map (order_database tm') k = Some x \<Longrightarrow> \<exists>j y. table_map (order_database tm) j = Some y \<and> order_ID x = order_ID y"
  shows "numbers_above n tm'"
  using assms unfolding numbers_above_def by metis

lemma train_handlers_keep_orders:
  "add_train line tm = Some (r, tm') \<Longrightarrow> order_num tm' = order_num tm \<and> order_database tm' = order_database tm"
  "release_train line tm = Some (r, tm') \<Longrightarrow> order_num tm' = order_num tm \<and> order_database tm' = order_database tm"
  "delete_train line tm = Some (r, tm') \<Longrightarrow> order_num tm' = order_num tm \<and> order_database tm' = order_database tm"
  by (auto simp: add_train_def add_train_run_def release_train_def delete_train_def case_search bind_Some_iff case_prod_beta
      Let_def split: if_splits option.splits)

lemma buy_ticket_numbers:
  assumes "buy_ticket_run o' ac tm = Some (r, tm')" "order_num tm < MAX_INT" "- MAX_INT - 1 \<le> order_num tm"
    and "tables_ok tm" "numbers_above n tm"
  shows "numbers_above n tm'"
  using assms(1)
proof (cases rule: buy_ticket_cases)
  case (placed tr num s t day tp q)
  from placed(15) assms(2,3) placed(6,8) show ?thesis
  proof (cases rule: place_order_cases)
    case (1 x)
    have "order_ID x = order_num tm + 1" using order_of_purchase_fields [OF 1(1)] by simp
    moreover have "order_num tm' = order_num tm + 1"
      "order_database tm' = table_InsertEntry cmp3 (order_key x) x (order_database tm)"
      using 1(4) by (auto split: if_splits)
    ultimately show ?thesis
      using assms(4,5) by (auto simp: numbers_above_def tables_ok_def string_any_key.table_map_insert)
  qed
qed (use assms(5) in simp)

lemma refund_ticket_numbers:
  assumes inv: "seats_inv {} tm" and run: "refund_ticket_run user x ac tm = Some (r, tm')" and n: "numbers_above n tm"
  shows "numbers_above n tm'"
  using inv run
proof (cases rule: refund_ticket_cases)
  case (changed os0 os ro)
  from changed(10) show ?thesis
  proof
    assume "order_status ro = pending \<and>
      tm' = refund_order ro tm\<lparr>pending_order_database := table_DeleteEntry cmp5 (pend_key ro) (pending_order_database tm)\<rparr>"
    then show ?thesis
      using changed(8) seats_invD(1) [OF inv] n
      by (auto simp: numbers_above_def tables_ok_def string_any_key.table_map_insert)
  next
    assume s: "order_status ro = success \<and> refund_success ro (refund_order ro tm) = Some (r, tm')"
    then have "refund_settled ro tm tm'" using refund_success_settles [OF inv changed(8)] by blast
    then obtain zs where m: "table_map (order_database tm') =
        (\<lambda>k. if k = order_key ro then Some (ro\<lparr>order_status := refunded\<rparr>)
           else map_option (\<lambda>y. if y \<in> set zs then y\<lparr>order_status := success\<rparr> else y) (table_map (order_database tm) k))"
      "order_num tm' = order_num tm" by (auto simp: refund_settled_def)
    show ?thesis
    proof (rule numbers_above_mono [OF n m(2)])
      fix k x assume x: "table_map (order_database tm') k = Some x"
      show "\<exists>j y. table_map (order_database tm) j = Some y \<and> order_ID x = order_ID y"
      proof (cases "k = order_key ro")
        case True
        then have "order_ID x = order_ID ro" using x m(1) by auto
        then show ?thesis using changed(8) by blast
      next
        case False
        then obtain y where y: "table_map (order_database tm) k = Some y" "x = (if y \<in> set zs then y\<lparr>order_status := success\<rparr> else y)"
          using x m(1) by auto
        then have "order_ID x = order_ID y" by simp
        then show ?thesis using y(1) by blast
      qed
    qed
  qed
qed (use n in simp_all)

lemma dispatch_numbers:
  assumes run: "dispatch s cmd sy = Some (out, sy')" and p: "purchase_ok s cmd sy" and ok: "system_ok sy"
    and n: "numbers_above n (sys_trains sy)"
  shows "numbers_above n (sys_trains sy')"
proof -
  have inv: "seats_inv {} (sys_trains sy)" using ok by (simp add: system_ok_def)
  have acc: "on_accounts f sy = Some (out, sy') \<Longrightarrow> numbers_above n (sys_trains sy')" for f
    using n by (auto simp: on_accounts_def bind_Some_iff)
  have keep: "numbers_above n (sys_trains sy')" if "on_trains f sy = Some (out, sy')"
    "\<And>r tm'. f (sys_trains sy) = Some (r, tm') \<Longrightarrow> numbers_above n tm'" for f
    using that by (auto simp: on_trains_def bind_Some_iff)
  have same: "numbers_above n tm'" if "order_num tm' = order_num (sys_trains sy) \<and> order_database tm' = order_database (sys_trains sy)" for tm'
    using that n by (simp add: numbers_above_def)
  have trains: "on_trains (add_train cmd) sy = Some (out, sy') \<Longrightarrow> numbers_above n (sys_trains sy')"
    "on_trains (release_train cmd) sy = Some (out, sy') \<Longrightarrow> numbers_above n (sys_trains sy')"
    "on_trains (delete_train cmd) sy = Some (out, sy') \<Longrightarrow> numbers_above n (sys_trains sy')"
    "on_trains (query_train cmd) sy = Some (out, sy') \<Longrightarrow> numbers_above n (sys_trains sy')"
    "on_trains (query_ticket cmd) sy = Some (out, sy') \<Longrightarrow> numbers_above n (sys_trains sy')"
    "on_trains (query_transfer cmd) sy = Some (out, sy') \<Longrightarrow> numbers_above n (sys_trains sy')"
    "on_trains (query_order cmd (sys_accounts sy)) sy = Some (out, sy') \<Longrightarrow> numbers_above n (sys_trains sy')"
    by (erule keep, erule same [OF train_handlers_keep_orders(1)])
      (erule keep, erule same [OF train_handlers_keep_orders(2)], erule keep, erule same [OF train_handlers_keep_orders(3)],
       (erule keep, drule queries_same, simp add: n)+)
  have refund: "numbers_above n (sys_trains sy')" if "on_trains (refund_ticket cmd (sys_accounts sy)) sy = Some (out, sy')"
    using that
  proof (rule keep)
    fix r tm' assume "refund_ticket cmd (sys_accounts sy) (sys_trains sy) = Some (r, tm')"
    then show "numbers_above n tm'"
      using refund_ticket_numbers [OF inv _ n] unfolding refund_ticket_def case_prod_beta Let_def by blast
  qed
  have buy: "numbers_above n (sys_trains sy')" if "s = ''buy_ticket''" "on_trains (buy_ticket cmd (sys_accounts sy)) sy = Some (out, sy')"
    using that(2)
  proof (rule keep)
    fix r tm' assume "buy_ticket cmd (sys_accounts sy) (sys_trains sy) = Some (r, tm')"
    then show "numbers_above n tm'"
      using buy_ticket_numbers [OF _ _ _ seats_invD(1) [OF inv] n] p that(1) unfolding buy_ticket_def purchase_ok_def by blast
  qed
  have cl: "clean sy = Some (out, sy') \<Longrightarrow> numbers_above n (sys_trains sy')"
    using n by (auto simp: clean_def table_Clear_def numbers_above_def)
  have ex: "exit_system sy = Some (out, sy') \<Longrightarrow> numbers_above n (sys_trains sy')"
    using n by (auto simp: exit_system_def)
  from run show ?thesis
    unfolding dispatch_def
    by (elim if_Some_elim)
      ((erule acc | erule trains | (rule buy, assumption, assumption) | erule refund | erule cl | erule ex)+,
       use n cl ex in \<open>auto simp: rollback_def\<close>)
qed

lemma reachable_numbers: "reachable n sy \<Longrightarrow> numbers_above n (sys_trains sy)"
proof (induction rule: reachable.induct)
  case init
  show ?case by (simp add: numbers_above_def initial_system_def empty_table_def)
next
  case (more sy out sy')
  then show ?case using reachable_ok [OF more(1)] dispatch_numbers by (auto elim!: system_step_elim)
qed

end
