(* ===== verification/BackendTheorems.thy ===== *)
theory BackendTheorems
  imports SampleRun OrderNumbers
begin

text \<open>
  The properties of the ticket service. They rest on the invariant of the reachable states
  (\<open>SystemMain\<close>), on the case lemmas of the handlers (\<open>Accounts\<close>, \<open>SeatSafety\<close>) and on the
  lemmas about the tokenizer, the times and the sorting routine. The witnesses about
  reachable states use the run of \<open>SampleRun\<close>.
\<close>

section \<open>Seats, orders and the queue\<close>

text \<open>
  C1. Seats are neither lost nor sold twice. After any input, for every train and day on sale and
  every station, the free seats are the seats of the train less the seats of the successful orders
  over that station, and the successful orders never hold more seats than the train has. The
  conditions on the input are that no purchase asks for a negative number of tickets and that the
  order numbers fit in an \<^verbatim>\<open>int\<close>.
\<close>

theorem seats_conserved:
  assumes "run_lines ls (initial_system n) = Some (outs, sy)" "purchases_ok ls (initial_system n)"
    and "table_map (daytrain_database (sys_trains sy)) key = Some d"
  shows "\<exists>tr. table_map (train_database (sys_trains sy)) (data_str key) = Some tr \<and> is_released tr \<and>
     (\<forall>i. 1 \<le> i \<and> i \<le> station_num tr \<longrightarrow>
        seat_num d i = Some (total_seat_num tr - sold (order_database (sys_trains sy)) key i) \<and>
        0 \<le> sold (order_database (sys_trains sy)) key i \<and>
        (0 \<le> total_seat_num tr \<longrightarrow> sold (order_database (sys_trains sy)) key i \<le> total_seat_num tr))"
proof -
  have "seats_inv {} (sys_trains sy)"
    using reachable_ok [OF run_lines_reachable [OF assms(1,2) reachable.init]] by (simp add: system_ok_def)
  from seats_invD(3) [OF this assms(3)] show ?thesis by (fastforce simp: day_ok_def seats_match_def)
qed

theorem seats_conserved_witness:
  "\<exists>outs sy d tr. run_lines sample_lines (initial_system 0) = Some (outs, sy) \<and> purchases_ok sample_lines (initial_system 0) \<and>
     table_map (daytrain_database (sys_trains sy)) \<lparr>data_str = ''T'', data_t = 0\<rparr> = Some d \<and> seat_num d 1 = Some 3 \<and>
     table_map (train_database (sys_trains sy)) ''T'' = Some tr \<and> is_released tr"
proof -
  obtain outs sy where s: "run_lines sample_lines (initial_system 0) = Some (outs, sy)" "purchases_ok sample_lines (initial_system 0)"
    and v: "sample_view sy = sample_end"
    using sample_system by metis
  obtain d where d: "table_map (daytrain_database (sys_trains sy)) \<lparr>data_str = ''T'', data_t = 0\<rparr> = Some d" "seat_num d 1 = Some 3"
    using v by (auto simp: sample_view_def bind_Some_iff)
  show ?thesis using seats_conserved [OF s d(1)] s d by auto
qed

text \<open>
  C2. The queue and the orders agree in every reachable state: a queue entry is the copy of a
  stored order that is pending, under the key made of its train, day and number, and every pending
  order has its entry.
\<close>

theorem queue_is_pending_orders:
  assumes "reachable n sy"
  shows "table_map (pending_order_database (sys_trains sy)) pkey = Some p \<longleftrightarrow>
     (\<exists>x. table_map (order_database (sys_trains sy)) (order_key x) = Some x \<and> order_status x = pending \<and>
          pkey = pend_key x \<and> p = pending_of x)"
proof -
  have inv: "seats_inv {} (sys_trains sy)" using reachable_ok [OF assms] by (simp add: system_ok_def)
  show ?thesis
    using seats_invD(5) [OF inv, of pkey p] seats_invD(4) [OF inv] pend_okD unfolding order_ok_def by metis
qed

theorem queue_is_pending_orders_witness:
  "\<exists>sy p x. reachable 0 sy \<and>
     table_map (pending_order_database (sys_trains sy)) \<lparr>key_str = ''T'', first_int = 0, second_int = 3\<rparr> = Some p \<and>
     table_map (order_database (sys_trains sy)) (order_key x) = Some x \<and> order_status x = pending \<and> p = pending_of x"
proof -
  obtain outs sy where s: "reachable 0 sy"
    and v: "sample_view sy = sample_end"
    using sample_system by metis
  obtain p where p: "table_map (pending_order_database (sys_trains sy)) \<lparr>key_str = ''T'', first_int = 0, second_int = 3\<rparr> = Some p"
    using v by (auto simp: sample_view_def)
  show ?thesis using queue_is_pending_orders [OF s, of "\<lparr>key_str = ''T'', first_int = 0, second_int = 3\<rparr>" p] p s by auto
qed

text \<open>
  C3. In every reachable state an account is stored under its own name with a privilege of at
  most 10, and a logged-in user has an account and a privilege of at most 10.
\<close>

theorem accounts_safe:
  assumes "reachable n sy"
  shows "(\<forall>k u. table_map (user_database (sys_accounts sy)) k = Some u \<longrightarrow> user_name u = k \<and> privilege u \<le> 10) \<and>
    (\<forall>x p. login_pool (sys_accounts sy) x = Some p \<longrightarrow>
       (\<exists>v. table_map (user_database (sys_accounts sy)) (cstr x) = Some v) \<and> p \<le> 10)"
  using reachable_ok [OF assms] by (auto simp: system_ok_def accounts_ok_def)

theorem accounts_safe_witness:
  "\<exists>sy u. reachable 0 sy \<and> table_map (user_database (sys_accounts sy)) ''r'' = Some u \<and> user_name u = ''r'' \<and>
     login_pool (sys_accounts sy) ''r'' = Some 10 \<and> (10::int) \<le> 10"
proof -
  obtain outs sy where s: "reachable 0 sy"
    and v: "sample_view sy = sample_end"
    using sample_system by metis
  obtain u where u: "table_map (user_database (sys_accounts sy)) ''r'' = Some u" "login_pool (sys_accounts sy) ''r'' = Some 10"
    using v by (auto simp: sample_view_def)
  show ?thesis using accounts_safe [OF s] u s by auto
qed

text \<open>
  C5. What a refund does. \<open>os\<close> lists the orders of the user, the newest first, \<open>x\<close> is the position in
  this list. A user who is not logged in, a position beyond the list and an order that was refunded
  before get -1, a user without orders gets 0, and nothing changes. A waiting order becomes refunded
  and leaves the queue. An order with seats becomes refunded and gives back its seats, then the
  waiting orders of the same train and day with a higher number are served in the order of their
  numbers: one that meets the refunded journey and finds its tickets on every stop becomes
  successful, takes the seats and leaves the queue. All other orders, rows of seats and queue entries
  stay. The command document promises the seats to all waiting orders; those with a lower number than
  the refunded order are not served.
\<close>

theorem refund_effect:
  assumes inv: "seats_inv {} tm" and run: "refund_ticket_run user x ac tm = Some (r, tm')"
  shows "if login_pool ac user = None then r = ''-1'' \<and> tm' = tm
    else \<exists>os. set os = {y. table_map (order_database tm) (order_key y) = Some y \<and> order_user y = cstr user \<and> 0 \<le> order_ID y} \<and>
      sorted_wrt (\<lambda>a b. order_ID b < order_ID a) os \<and>
      (if os = [] then r = ''0'' \<and> tm' = tm
       else if x > int (length os) then r = ''-1'' \<and> tm' = tm
       else \<exists>ro. slot os (x - 1) = Some ro \<and>
         (case order_status ro of
            refunded \<Rightarrow> r = ''-1'' \<and> tm' = tm
          | pending \<Rightarrow> r = ''0'' \<and>
              tm' = tm\<lparr>order_database := table_InsertEntry cmp3 (order_key ro) (ro\<lparr>order_status := refunded\<rparr>) (order_database tm),
                       pending_order_database := table_DeleteEntry cmp5 (pend_key ro) (pending_order_database tm)\<rparr>
          | success \<Rightarrow> r = ''0'' \<and> refund_settled ro tm tm'))"
  using inv run
proof (cases rule: refund_ticket_cases)
  case stranger
  then show ?thesis by simp
next
  case (refused os0 os)
  note S = orders_newest_first [OF inv refused(2-4)]
  from refused(6) show ?thesis
    unfolding if_not_P [OF refused(1)] by (intro exI [of _ os] conjI S) (use refused(5) in auto)
next
  case (changed os0 os ro)
  note S = orders_newest_first [OF inv changed(2-4)]
  have "os \<noteq> []" using changed(6) by (auto simp: slot_def split: if_splits)
  moreover have "case order_status ro of
            refunded \<Rightarrow> r = ''-1'' \<and> tm' = tm
          | pending \<Rightarrow> r = ''0'' \<and>
              tm' = tm\<lparr>order_database := table_InsertEntry cmp3 (order_key ro) (ro\<lparr>order_status := refunded\<rparr>) (order_database tm),
                       pending_order_database := table_DeleteEntry cmp5 (pend_key ro) (pending_order_database tm)\<rparr>
          | success \<Rightarrow> r = ''0'' \<and> refund_settled ro tm tm'"
    using changed(10)
  proof
    assume "order_status ro = success \<and> refund_success ro (refund_order ro tm) = Some (r, tm')"
    then show ?thesis using refund_success_settles [OF inv changed(8)] by simp
  qed (use changed(7) in simp)
  ultimately show ?thesis
    unfolding if_not_P [OF changed(1)] using changed(5,6) by (intro exI [of _ os] conjI S) auto
qed

theorem refund_effect_witness:
  "\<exists>ac tm tm' ro. seats_inv {} tm \<and> refund_ticket_run ''r'' 4 ac tm = Some (''0'', tm') \<and>
     order_status ro = success \<and> refund_settled ro tm tm' \<and>
     map_option order_status (table_map (order_database tm) \<lparr>data_str = ''r'', data_t = 2\<rparr>) = Some pending \<and>
     map_option order_status (table_map (order_database tm') \<lparr>data_str = ''r'', data_t = 2\<rparr>) = Some success"
proof -
  obtain ac tm tm' where s: "seats_inv {} tm" "refund_ticket_run ''r'' 4 ac tm = Some (''0'', tm')"
    and before: "map_option order_status (table_map (order_database tm) \<lparr>data_str = ''r'', data_t = 2\<rparr>) = Some pending"
    and after: "map_option order_status (table_map (order_database tm') \<lparr>data_str = ''r'', data_t = 2\<rparr>) = Some success"
    by (rule sample_refund)
  have ne: "tm' \<noteq> tm" using before after by auto
  have no: "tm' \<noteq> tm\<lparr>order_database := table_InsertEntry cmp3 (order_key ro) (ro\<lparr>order_status := refunded\<rparr>) (order_database tm),
      pending_order_database := pdb\<rparr>" for ro pdb
  proof
    assume "tm' = tm\<lparr>order_database := table_InsertEntry cmp3 (order_key ro) (ro\<lparr>order_status := refunded\<rparr>) (order_database tm),
      pending_order_database := pdb\<rparr>"
    then show False
      using before after seats_invD(1) [OF s(1)]
      by (auto simp: tables_ok_def string_any_key.table_map_insert split: if_splits)
  qed
  obtain ro where ro: "case order_status ro of refunded \<Rightarrow> ''0'' = ''-1'' \<and> tm' = tm
      | pending \<Rightarrow> ''0'' = ''0'' \<and> tm' = tm\<lparr>order_database :=
            table_InsertEntry cmp3 (order_key ro) (ro\<lparr>order_status := refunded\<rparr>) (order_database tm),
          pending_order_database := table_DeleteEntry cmp5 (pend_key ro) (pending_order_database tm)\<rparr>
      | success \<Rightarrow> ''0'' = ''0'' \<and> refund_settled ro tm tm'"
    using refund_effect [OF s] ne by (auto split: if_splits)
  then have "order_status ro = success \<and> refund_settled ro tm tm'"
    using ne no [of _ ro] by (cases "order_status ro") auto
  then show ?thesis using s before after by blast
qed

text \<open>
  C4. The outcomes of a purchase. It is refused exactly for one of the reasons of
  \<open>purchase_refused\<close>, with -1 and no change: the user is not logged in, the train is unknown or not
  released, it has fewer seats than tickets are asked for, the scan of its stations does not find the
  two names in order (and they are not there in order if no name occurs twice), the day the train
  starts is not on sale, or the seats do not suffice and the user did not agree to wait. Otherwise one
  order with the next number is stored for the two named stops and the day; its price is the
  difference of the price sums of the stops. If the seats suffice on every stop of the journey, they
  are taken and the reply is the price of all tickets; else the order is pending, a copy of it enters
  the queue, and the reply is \<^verbatim>\<open>queue\<close>.
\<close>

theorem buy_ticket_effect:
  assumes "buy_ticket_run o' ac tm = Some (r, tm')" "order_num tm < MAX_INT" "- MAX_INT - 1 \<le> order_num tm"
  shows "(r = ''-1'' \<and> tm' = tm \<and> purchase_refused o' ac tm) \<or>
    (\<exists>tr num s t day tp q x. login_pool ac (bo_user o') \<noteq> None \<and>
       table_map (train_database tm) (cstr (bo_train o')) = Some tr \<and> is_released tr \<and>
       bo_num o' = Some num \<and> num \<le> total_seat_num tr \<and>
       stop_at tr (bo_from o') s \<and> s < t \<and> stop_at tr (bo_to o') t \<and>
       travel_day o' tr s = Some day \<and> start_sale_date tr \<le> day \<and> day \<le> end_sale_date tr \<and>
       table_map (daytrain_database tm) \<lparr>data_str = cstr (bo_train o'), data_t = day\<rparr> = Some tp \<and>
       query_seat s (t - 1) tp = Some q \<and>
       order_of_purchase o' tr num s t day (order_num tm + 1) (if num \<le> q then success else pending) x \<and>
       (if num \<le> q then r = to_string (int32 (num * order_price x)) \<and>
          tm' = tm\<lparr>order_num := order_num tm + 1,
             daytrain_database := table_InsertEntry cmp3 (day_key x)
               \<lparr>seat_num = (\<lambda>i. if s \<le> i \<and> i < t then map_option (\<lambda>f. int32 (f - num)) (seat_num tp i) else seat_num tp i)\<rparr>
               (daytrain_database tm),
             order_database := table_InsertEntry cmp3 (order_key x) x (order_database tm)\<rparr>
        else bo_pending o' \<and> r = ''queue'' \<and>
          tm' = tm\<lparr>order_num := order_num tm + 1,
             order_database := table_InsertEntry cmp3 (order_key x) x (order_database tm),
             pending_order_database := table_InsertEntry cmp5 (pend_key x) (pending_of x) (pending_order_database tm)\<rparr>))"
  using assms(1)
proof (cases rule: buy_ticket_cases)
  case (placed tr num s t day tp q)
  from placed(15) assms(2,3) placed(6,8) show ?thesis
  proof (cases rule: place_order_cases)
    case (1 x)
    have taken: "tp' = \<lparr>seat_num = (\<lambda>i. if s \<le> i \<and> i < t then map_option (\<lambda>f. int32 (f - num)) (seat_num tp i) else seat_num tp i)\<rparr>"
      if "modify_seat s (t - 1) (- num) tp = Some tp'" for tp'
      using modify_seat_taken [OF placed(13) that] placed(6) by (cases tp') (simp add: stop_at_def fun_eq_iff)
    have "if num \<le> q then r = to_string (int32 (num * order_price x)) \<and>
          tm' = tm\<lparr>order_num := order_num tm + 1,
             daytrain_database := table_InsertEntry cmp3 (day_key x)
               \<lparr>seat_num = (\<lambda>i. if s \<le> i \<and> i < t then map_option (\<lambda>f. int32 (f - num)) (seat_num tp i) else seat_num tp i)\<rparr>
               (daytrain_database tm),
             order_database := table_InsertEntry cmp3 (order_key x) x (order_database tm)\<rparr>
        else bo_pending o' \<and> r = ''queue'' \<and>
          tm' = tm\<lparr>order_num := order_num tm + 1,
             order_database := table_InsertEntry cmp3 (order_key x) x (order_database tm),
             pending_order_database := table_InsertEntry cmp5 (pend_key x) (pending_of x) (pending_order_database tm)\<rparr>"
    proof (cases "num \<le> q")
      case True
      then show ?thesis using 1(4) taken by (simp only: if_True) blast
    next
      case False
      then show ?thesis using 1(4) placed(14) by (simp only: if_False simp_thms)
    qed
    then show ?thesis
      by (intro disjI2 exI [of _ tr] exI [of _ num] exI [of _ s] exI [of _ t] exI [of _ day] exI [of _ tp] exI [of _ q]
          exI [of _ x] conjI placed(1-13) 1(1))
  qed
qed simp

theorem buy_ticket_effect_witness:
  "\<exists>ac tm tm' tr x. buy_ticket_run sample_purchase ac tm = Some (''5'', tm') \<and> order_num tm < MAX_INT \<and> - MAX_INT - 1 \<le> order_num tm \<and>
     table_map (train_database tm) ''T'' = Some tr \<and> is_released tr \<and> stop_at tr ''A'' (order_from x) \<and> stop_at tr ''B'' (order_to x) \<and>
     table_map (order_database tm') (order_key x) = Some x \<and> order_qty x = 1 \<and> ''5'' = to_string (int32 (1 * order_price x))"
proof -
  obtain ac tm tm' where b: "buy_ticket_run sample_purchase ac tm = Some (''5'', tm')" "order_num tm < MAX_INT" "- MAX_INT - 1 \<le> order_num tm"
    and ok: "table_ok cmp3 (order_database tm)"
    using sample_buy by (metis seats_invD(1) tables_ok_def)
  have str: "cstr ''T'' = ''T''" "cstr ''A'' = ''A''" "cstr ''B'' = ''B''" by code_simp+
  show ?thesis using buy_ticket_effect [OF b]
  proof (elim disjE exE conjE)
    fix tr num s t day tp q x
    assume h: "table_map (train_database tm) (cstr (bo_train sample_purchase)) = Some tr" "is_released tr"
      "bo_num sample_purchase = Some num" "stop_at tr (bo_from sample_purchase) s" "stop_at tr (bo_to sample_purchase) t"
      "order_of_purchase sample_purchase tr num s t day (order_num tm + 1) (if num \<le> q then success else pending) x"
      "if num \<le> q then ''5'' = to_string (int32 (num * order_price x)) \<and>
          tm' = tm\<lparr>order_num := order_num tm + 1,
             daytrain_database := table_InsertEntry cmp3 (day_key x)
               \<lparr>seat_num = (\<lambda>i. if s \<le> i \<and> i < t then map_option (\<lambda>f. int32 (f - num)) (seat_num tp i) else seat_num tp i)\<rparr>
               (daytrain_database tm),
             order_database := table_InsertEntry cmp3 (order_key x) x (order_database tm)\<rparr>
        else bo_pending sample_purchase \<and> ''5'' = ''queue'' \<and>
          tm' = tm\<lparr>order_num := order_num tm + 1,
             order_database := table_InsertEntry cmp3 (order_key x) x (order_database tm),
             pending_order_database := table_InsertEntry cmp5 (pend_key x) (pending_of x) (pending_order_database tm)\<rparr>"
    note F = order_of_purchase_fields [OF h(6)]
    have "num = 1" using h(3) by simp
    moreover have "num \<le> q" using h(7) by (auto split: if_splits)
    ultimately show ?thesis
      using b h(1,2,4,5,7) F str ok by (intro exI [of _ ac] exI [of _ tm] exI [of _ tm'] exI [of _ tr] exI [of _ x])
        (simp add: string_any_key.table_map_insert)
  qed simp
qed

text \<open>
  C27. The list of orders of a user: the reply of \<^verbatim>\<open>query_order\<close> is the number of orders it finds
  followed by one line per order, the newest first. It finds the orders of the user whose number is
  not negative; \<open>n\<close> is the value of the order counter at the start of the program, and if it is -1 or
  more, these are all orders of the user.
\<close>

theorem query_order_lists_orders:
  assumes reach: "reachable n sy" and run: "query_order line (sys_accounts sy) (sys_trains sy) = Some (r, tm')"
    and user: "user = fst (next_token (snd (next_token line)))" and log: "login_pool (sys_accounts sy) user \<noteq> None"
  shows "\<exists>os. set os = {y. table_map (order_database (sys_trains sy)) (order_key y) = Some y \<and> order_user y = cstr user \<and>
                     0 \<le> order_ID y} \<and>
     (-1 \<le> n \<longrightarrow> set os = {y. table_map (order_database (sys_trains sy)) (order_key y) = Some y \<and> order_user y = cstr user}) \<and>
     sorted_wrt (\<lambda>a b. order_ID b < order_ID a) os \<and>
     r = (if os = [] then ''0'' else to_string (int (length os)) @ concat (map order_line os))"
proof -
  have inv: "seats_inv {} (sys_trains sy)" using reachable_ok [OF reach] by (simp add: system_ok_def)
  obtain os0 where os0: "order_scan user (sys_trains sy) = Some os0"
    using run log user by (auto simp: query_order_def case_prod_beta Let_def bind_Some_iff)
  obtain os where os: "Sort order_cmp os0 0 (int (length os0) - 1) = Some os" "mset os = mset os0"
    "sorted_wrt (\<lambda>a b. \<not> order_cmp b a) os" using order_order.Sort_list by blast
  note S = orders_newest_first [OF inv os0 os(2,3)]
  have "0 \<le> order_ID y" if "-1 \<le> n" "table_map (order_database (sys_trains sy)) (order_key y) = Some y" for y
    using reachable_numbers [OF reach] that by (force simp: numbers_above_def)
  moreover have "r = (if os = [] then ''0'' else to_string (int (length os)) @ concat (map order_line os))"
    using run log user os0 os(1) mset_eq_length [OF os(2)]
    by (auto simp: query_order_def case_prod_beta Let_def bind_Some_iff split: if_splits)
  ultimately show ?thesis using S by (intro exI [of _ os]) auto
qed

theorem query_order_lists_orders_witness:
  "\<exists>sy tm' os. reachable 0 sy \<and> login_pool (sys_accounts sy) ''r'' \<noteq> None \<and>
     query_order query_r (sys_accounts sy) (sys_trains sy) = Some (sample_orders, tm') \<and> os \<noteq> [] \<and>
     set os = {y. table_map (order_database (sys_trains sy)) (order_key y) = Some y \<and> order_user y = ''r''} \<and>
     sample_orders = to_string (int (length os)) @ concat (map order_line os)"
proof -
  obtain sy where s: "reachable 0 sy" "sample_view sy = sample_end"
    "map_option fst (query_order query_r (sys_accounts sy) (sys_trains sy)) = Some sample_orders"
    by (rule sample_system)
  have log: "login_pool (sys_accounts sy) ''r'' \<noteq> None" using s(2) by (simp add: sample_view_def)
  obtain tm' where q: "query_order query_r (sys_accounts sy) (sys_trains sy) = Some (sample_orders, tm')" using s(3) by auto
  have u: "''r'' = fst (next_token (snd (next_token query_r)))" "cstr ''r'' = ''r''" "sample_orders \<noteq> ''0''" by code_simp+
  show ?thesis using query_order_lists_orders [OF s(1) q u(1) log] s(1) log q u(2,3) by (auto split: if_splits)
qed

section \<open>Accounts\<close>

text \<open>
  C28. Adding a user. The first account gets privilege 10, whatever was asked for. Later the
  command succeeds exactly when the caller is logged in with a privilege above the requested one
  and the name is free; the account has the requested privilege. The account that is stored has the
  name, the password, the real name and the mail address that were given (up to a zero byte).
  Otherwise the reply is -1 and nothing changes. The other accounts and the login pool stay.
\<close>

theorem add_user_effect:
  assumes "add_user_run o' ac = Some (r, ac')"
  shows "(if r = ''0'' then
      \<exists>q. table_map (user_database ac') = (table_map (user_database ac))(cstr (uo_username o') \<mapsto>
            \<lparr>user_name = cstr (uo_username o'), password = cstr (uo_password o'), mail_addr = cstr (uo_mail o'),
             real_name = cstr (uo_name o'), privilege = q\<rparr>) \<and> login_pool ac' = login_pool ac \<and>
          (if table_IsEmpty (user_database ac) then q = 10
           else table_map (user_database ac) (cstr (uo_username o')) = None \<and>
             (\<exists>p. login_pool ac (uo_cur o') = Some p \<and> uo_privilege o' = Some q \<and> q < p))
    else r = ''-1'' \<and> ac' = ac \<and> \<not> table_IsEmpty (user_database ac) \<and>
      (login_pool ac (uo_cur o') = None \<or> table_map (user_database ac) (cstr (uo_username o')) \<noteq> None \<or>
       (\<exists>p q. login_pool ac (uo_cur o') = Some p \<and> uo_privilege o' = Some q \<and> p \<le> q)))"
  using assms
proof (cases rule: add_user_run_cases)
  case refused
  then show ?thesis by auto
next
  case first
  then show ?thesis by (auto simp: string_key.table_map_insert account_of_def)
next
  case (added p q)
  then show ?thesis by (auto simp: string_key.table_map_insert account_of_def)
qed

theorem add_user_effect_witness:
  "\<exists>ac'. add_user_run ((no_user_options None)\<lparr>uo_username := ''r'', uo_password := ''w'', uo_name := ''N'', uo_mail := ''M''\<rparr>)
       (sys_accounts (initial_system 0)) = Some (''0'', ac') \<and>
     table_map (user_database ac') ''r'' =
       Some \<lparr>user_name = ''r'', password = ''w'', mail_addr = ''M'', real_name = ''N'', privilege = 10\<rparr>"
proof -
  let ?o = "(no_user_options None)\<lparr>uo_username := ''r'', uo_password := ''w'', uo_name := ''N'', uo_mail := ''M''\<rparr>"
  have "map_option fst (add_user_run ?o (sys_accounts (initial_system 0))) = Some ''0''" by code_simp
  then obtain ac' where a: "add_user_run ?o (sys_accounts (initial_system 0)) = Some (''0'', ac')" by auto
  have "table_IsEmpty (user_database (sys_accounts (initial_system 0)))"
    by (simp add: initial_system_def empty_table_def table_IsEmpty_def)
  moreover have "cstr ''r'' = ''r''" "cstr ''w'' = ''w''" "cstr ''N'' = ''N''" "cstr ''M'' = ''M''" by code_simp+
  ultimately show ?thesis using add_user_effect [OF a] a by auto
qed



text \<open>
  C29. Changing a profile is refused, with -1 and no change, exactly when the account does not exist, the
  caller is not logged in, he changes another account whose privilege is not below his, or the new
  privilege is not below his. Otherwise the texts that are given replace the old ones, a privilege
  other than 0 replaces the old one, and the reply shows the new profile. The name of the account, the
  other accounts and the login pool stay, so a logged-in user keeps his old privilege there.
\<close>

theorem modify_profile_effect:
  assumes "modify_profile_run o' ac = Some (r, ac')"
  shows "if profile_refused o' ac then r = ''-1'' \<and> ac' = ac
    else \<exists>u new. table_map (user_database ac) (cstr (uo_username o')) = Some u \<and> uo_privilege o' = Some new \<and>
       table_map (user_database ac') = (table_map (user_database ac))(cstr (uo_username o') \<mapsto>
         \<lparr>user_name = user_name u,
          password = (if uo_password o' = [] then password u else cstr (uo_password o')),
          mail_addr = (if uo_mail o' = [] then mail_addr u else cstr (uo_mail o')),
          real_name = (if uo_name o' = [] then real_name u else cstr (uo_name o')),
          privilege = (if new = 0 then privilege u else new)\<rparr>) \<and>
       login_pool ac' = login_pool ac \<and>
       (\<exists>u'. table_map (user_database ac') (cstr (uo_username o')) = Some u' \<and>
         r = user_name u' @ '' '' @ real_name u' @ '' '' @ mail_addr u' @ '' '' @ to_string (privilege u'))"
  using assms
proof (cases rule: modify_profile_run_cases)
  case (changed u p new)
  then have "\<not> profile_refused o' ac" by (auto simp: profile_refused_def)
  then show ?thesis
    using changed by (auto simp: string_key.table_map_insert changed_account_def profile_string_def)
qed simp

theorem modify_profile_effect_witness:
  "\<exists>(sy :: system) r ac'. modify_profile_run ((no_user_options (Some 0))\<lparr>uo_cur := ''r'', uo_username := ''r'', uo_name := ''X''\<rparr>) (sys_accounts sy)
       = Some (r, ac') \<and> \<not> profile_refused ((no_user_options (Some 0))\<lparr>uo_cur := ''r'', uo_username := ''r'', uo_name := ''X''\<rparr>) (sys_accounts sy) \<and>
     map_option real_name (table_map (user_database ac') ''r'') = Some ''X''"
proof -
  let ?o = "(no_user_options (Some 0))\<lparr>uo_cur := ''r'', uo_username := ''r'', uo_name := ''X''\<rparr>"
  obtain sy where s: "sample_view sy = sample_end" by (rule sample_system)
  have str: "cstr ''r'' = ''r''" "cstr ''X'' = ''X''" by code_simp+
  obtain u where u: "table_map (user_database (sys_accounts sy)) ''r'' = Some u" "login_pool (sys_accounts sy) ''r'' = Some 10"
    using s by (auto simp: sample_view_def)
  then have ok: "\<not> profile_refused ?o (sys_accounts sy)" by (simp add: profile_refused_def str no_user_options_def)
  have "modify_profile_run ?o (sys_accounts sy) \<noteq> None"
    using u str
    by (simp add: modify_profile_run_def String_SetValue_def table_SearchKey_def overwrite_def profile_denied_def
        no_user_options_def strcpy_def Let_def)
  then obtain r ac' where m: "modify_profile_run ?o (sys_accounts sy) = Some (r, ac')" by auto
  have "map_option real_name (table_map (user_database ac') ''r'') = Some ''X''"
    using modify_profile_effect [OF m] ok str by (auto simp: no_user_options_def)
  then show ?thesis using m ok by blast
qed

end
