(* ===== verification/Releases.thy ===== *)
theory Releases
  imports SampleRun TicketEffects
begin

text \<open>
  What \<^verbatim>\<open>release_train\<close> leaves in the tables: the rows of seats of every day on sale and one row for
  every station of the train, as equations about the tables after the two loops.
\<close>

section \<open>The rows of the stations\<close>

text \<open>The row for stop \<open>j\<close> of a train, as the table of stations holds it.\<close>

definition station_row :: "string \<Rightarrow> train \<Rightarrow> int \<Rightarrow> station \<Rightarrow> bool" where
  "station_row t_id tr j st \<longleftrightarrow>
     (\<exists>nm p arr lea. array_read (stations tr) j = Some nm \<and> array_read (price_sum tr) j = Some p \<and>
        array_read (arriving_times tr) j = Some arr \<and> array_read (leaving_times tr) j = Some lea \<and>
        st = \<lparr>st_train_ID = cstr t_id, station_name = cstr nm, start_sale_time = start_sale_date tr,
              end_sale_time = end_sale_date tr, arriving_time = arr, leaving_time = lea, st_price_sum = p, st_index = j\<rparr>)"

definition stop_key :: "string \<Rightarrow> train \<Rightarrow> int \<Rightarrow> dual_string \<Rightarrow> bool" where
  "stop_key t_id tr j key \<longleftrightarrow> 1 \<le> j \<and> j \<le> station_num tr \<and> second_str key = cstr t_id \<and>
     map_option cstr (array_read (stations tr) j) = Some (first_str key)"

lemma Station_row:
  assumes "array_read (stations tr) j = Some nm" "array_read (price_sum tr) j = Some p"
    "array_read (arriving_times tr) j = Some arr" "array_read (leaving_times tr) j = Some lea"
    "Station t_id nm p (start_sale_date tr) (end_sale_date tr) arr lea j = Some st"
  shows "station_row t_id tr j st"
  using assms by (auto simp: station_row_def Station_def bind_Some_iff dest!: strcpy_len)

lemma stop_key_iff:
  assumes "1 \<le> j" "j \<le> station_num tr" "array_read (stations tr) j = Some nm" "DualString_SetValue 32 24 nm t_id = Some k"
  shows "stop_key t_id tr j key \<longleftrightarrow> key = k"
  using assms by (cases key) (auto simp: stop_key_def DualString_SetValue_def String_SetValue_Some bind_Some_iff)

text \<open>The last stop with a key decides its row; keys of no stop keep theirs.\<close>

lemma station_rows_loop_rows:
  assumes "station_rows_loop t_id tr i db = Some db'" "table_ok cmp2 db" "1 \<le> i"
  shows "if \<exists>j \<ge> i. stop_key t_id tr j key
    then \<exists>j st. i \<le> j \<and> stop_key t_id tr j key \<and> (\<forall>j' > j. \<not> stop_key t_id tr j' key) \<and>
      station_row t_id tr j st \<and> table_map db' key = Some st
    else table_map db' key = table_map db key"
  using assms
proof (induction t_id tr i db rule: station_rows_loop.induct)
  case (1 t_id tr i db)
  show ?case
  proof (cases "i \<le> station_num tr")
    case True
    obtain nm p arr lea st k where
      r: "array_read (stations tr) i = Some nm" "array_read (price_sum tr) i = Some p"
        "array_read (arriving_times tr) i = Some arr" "array_read (leaving_times tr) i = Some lea"
        "Station t_id nm p (start_sale_date tr) (end_sale_date tr) arr lea i = Some st"
        "DualString_SetValue 32 24 nm t_id = Some k"
      and rest: "station_rows_loop t_id tr (i + 1) (table_InsertEntry cmp2 k st db) = Some db'"
      using "1.prems"(1) True by (auto simp: station_rows_loop.simps [of t_id tr i] bind_Some_iff)
    have IH: "if \<exists>j \<ge> i + 1. stop_key t_id tr j key
      then \<exists>j st. i + 1 \<le> j \<and> stop_key t_id tr j key \<and> (\<forall>j' > j. \<not> stop_key t_id tr j' key) \<and>
        station_row t_id tr j st \<and> table_map db' key = Some st
      else table_map db' key = table_map (table_InsertEntry cmp2 k st db) key"
      using "1.IH" [OF True r(1-6) rest dual_string_key.table_ok_insert [OF "1.prems"(2)]] "1.prems"(3) by simp
    have here: "stop_key t_id tr i key \<longleftrightarrow> key = k" by (rule stop_key_iff [OF "1.prems"(3) True r(1,6)])
    show ?thesis
    proof (cases "\<exists>j \<ge> i + 1. stop_key t_id tr j key")
      case True
      then obtain j st where "i + 1 \<le> j" "stop_key t_id tr j key" "\<forall>j' > j. \<not> stop_key t_id tr j' key"
        "station_row t_id tr j st" "table_map db' key = Some st" using IH by auto
      then show ?thesis by (subst if_P) (auto intro!: exI [of _ j] exI [of _ st])
    next
      case later: False
      then have m: "table_map db' key = table_map (table_InsertEntry cmp2 k st db) key" using IH by simp
      have only: "stop_key t_id tr j key \<Longrightarrow> i \<le> j \<Longrightarrow> j = i" for j using later by (cases "j = i") auto
      show ?thesis
      proof (cases "key = k")
        case True
        then have "\<forall>j' > i. \<not> stop_key t_id tr j' key" using only by fastforce
        moreover have "table_map db' key = Some st"
          using m True "1.prems"(2) by (simp add: dual_string_key.table_map_insert)
        ultimately show ?thesis using Station_row [OF r(1-5)] here True by (auto intro!: exI [of _ i])
      next
        case False
        then have none: "\<not> (\<exists>j \<ge> i. stop_key t_id tr j key)" using only here by blast
        show ?thesis
          unfolding if_not_P [OF none] using m False "1.prems"(2) by (simp add: dual_string_key.table_map_insert)
      qed
    qed
  next
    case False
    then show ?thesis using "1.prems"(1) by (auto simp: station_rows_loop.simps [of t_id tr i] stop_key_def)
  qed
qed

section \<open>The handler\<close>

text \<open>
  C6. The release of a train. A train that does not exist or was released before gets -1 and nothing
  changes. Otherwise the reply is 0 and the train is marked; every day on sale, from the first to the
  last in steps of a day, has a row in which every stop has all seats of the train; every station of
  the train has a row with the price from the first stop, the times and the position of its (last) stop
  with that name. All other trains, days and stations keep their rows, and orders and queue stay.
\<close>

theorem release_train_effect:
  assumes "tables_ok tm" and "release_train line tm = Some (r, tm')"
    and "t_id = fst (next_token (snd (next_token line)))"
  shows "if \<forall>tr. table_map (train_database tm) (cstr t_id) = Some tr \<longrightarrow> is_released tr then r = ''-1'' \<and> tm' = tm
    else r = ''0'' \<and> order_database tm' = order_database tm \<and> pending_order_database tm' = pending_order_database tm \<and>
      order_num tm' = order_num tm \<and>
      (\<exists>tr. table_map (train_database tm) (cstr t_id) = Some tr \<and>
        table_map (train_database tm') = (table_map (train_database tm))(cstr t_id \<mapsto> tr\<lparr>is_released := True\<rparr>) \<and>
        (\<forall>key. if data_str key = cstr t_id \<and> start_sale_date tr \<le> data_t key \<and> data_t key \<le> end_sale_date tr \<and>
              (data_t key - start_sale_date tr) mod 1440 = 0
           then \<exists>d. table_map (daytrain_database tm') key = Some d \<and>
             (\<forall>j. 1 \<le> j \<and> j \<le> station_num tr \<longrightarrow> seat_num d j = Some (total_seat_num tr))
           else table_map (daytrain_database tm') key = table_map (daytrain_database tm) key) \<and>
        (\<forall>key. if \<exists>j. stop_key t_id tr j key
           then \<exists>j st. stop_key t_id tr j key \<and> (\<forall>j' > j. \<not> stop_key t_id tr j' key) \<and>
             station_row t_id tr j st \<and> table_map (station_database tm') key = Some st
           else table_map (station_database tm') key = table_map (station_database tm) key))"
proof (cases "\<forall>tr. table_map (train_database tm) (cstr t_id) = Some tr \<longrightarrow> is_released tr")
  case True
  then show ?thesis
    using assms(2,3) by (auto simp: release_train_def case_search case_prod_beta Let_def bind_Some_iff String_SetValue_Some
        split: option.splits)
next
  case False
  then obtain tr where t: "table_map (train_database tm) (cstr t_id) = Some tr" "\<not> is_released tr" by auto
  let ?tr = "tr\<lparr>is_released := True\<rparr>"
  obtain days sts where
    days: "day_loop t_id ?tr (start_sale_date tr) (daytrain_database tm) = Some days"
    and sts: "station_rows_loop t_id ?tr 1 (station_database tm) = Some sts"
    and tm': "r = ''0''" "tm' = tm\<lparr>train_database := table_InsertEntry cmp1 (cstr t_id) ?tr (train_database tm),
       daytrain_database := days, station_database := sts\<rparr>"
    using assms(2,3) t
    by (auto simp: release_train_def bind_Some_iff case_search case_prod_beta String_SetValue_Some Let_def)
  have fields: "daytrain_database tm' = days" "station_database tm' = sts" using tm' by simp_all
  have ok: "table_ok cmp1 (train_database tm)" "table_ok cmp3 (daytrain_database tm)" "table_ok cmp2 (station_database tm)"
    using assms(1) by (simp_all add: tables_ok_def)
  have released: "stop_key t_id ?tr = stop_key t_id tr" "station_row t_id ?tr = station_row t_id tr"
    by (simp_all add: stop_key_def station_row_def fun_eq_iff)
  have same: "end_sale_date ?tr = end_sale_date tr" by simp
  have day: "if data_str key = cstr t_id \<and> start_sale_date tr \<le> data_t key \<and> data_t key \<le> end_sale_date tr \<and>
        (data_t key - start_sale_date tr) mod 1440 = 0
      then \<exists>d. table_map days key = Some d \<and> (\<forall>j. 1 \<le> j \<and> j \<le> station_num tr \<longrightarrow> seat_num d j = Some (total_seat_num tr))
      else table_map days key = table_map (daytrain_database tm) key" for key
  proof (cases "data_str key = cstr t_id \<and> start_sale_date tr \<le> data_t key \<and> data_t key \<le> end_sale_date tr \<and>
        (data_t key - start_sale_date tr) mod 1440 = 0")
    case True
    then obtain a where a: "seat_loop 1 (station_num tr) (total_seat_num tr) (\<lambda>j. None) = Some a"
      using days by (auto simp: day_loop.simps [of t_id ?tr "start_sale_date tr"] bind_Some_iff)
    then show ?thesis
      using True day_loop_rows [OF days ok(2), of key] seat_loop_Some [OF a] by simp
  next
    case False
    then show ?thesis
      using day_loop_rows [OF days ok(2), of key, unfolded same] unfolding if_not_P [OF False] by (simp only: if_not_P [OF False])
  qed
  have all: "(\<exists>j \<ge> 1. stop_key t_id tr j key) \<longleftrightarrow> (\<exists>j. stop_key t_id tr j key)" for key by (auto simp: stop_key_def)
  have st: "if \<exists>j. stop_key t_id tr j key
      then \<exists>j st. stop_key t_id tr j key \<and> (\<forall>j' > j. \<not> stop_key t_id tr j' key) \<and>
        station_row t_id tr j st \<and> table_map sts key = Some st
      else table_map sts key = table_map (station_database tm) key" for key
    using station_rows_loop_rows [OF sts ok(3), of key] unfolding released all by (auto split: if_splits)
  show ?thesis
    unfolding if_not_P [OF False] fields
    by (intro conjI exI [of _ tr] allI day st t(1)) (use tm' ok(1) in \<open>simp_all add: string_key.table_map_insert fun_eq_iff\<close>)
qed

theorem release_train_effect_witness:
  "\<exists>sy cmd tm' tr. reachable 0 sy \<and> release_train cmd (sys_trains sy) = Some (''0'', tm') \<and>
     table_map (train_database (sys_trains sy)) ''T'' = Some tr \<and> \<not> is_released tr \<and>
     map_option is_released (table_map (train_database tm') ''T'') = Some True \<and>
     (\<forall>key. (\<exists>j. stop_key ''T'' tr j key) \<longrightarrow>
        (\<exists>j st. stop_key ''T'' tr j key \<and> station_row ''T'' tr j st \<and> table_map (station_database tm') key = Some st))"
proof -
  obtain sy1 sy2 stop where s: "reachable 0 sy1" "line_ok (sample_lines ! 3) sy1"
    "run_line (sample_lines ! 3) sy1 = Some (''[4] 0'', sy2, stop)"
    using sample_step [of 3] by (auto simp: sample_replies_def)
  have "map_option (\<lambda>(s, cmd). (s, to_string (timestamp cmd), fst (next_token (snd (next_token cmd)))))
      (line_command (sample_lines ! 3)) = Some (''release_train'', ''4'', ''T'')" by code_simp
  then obtain cmd where c: "line_command (sample_lines ! 3) = Some (''release_train'', cmd)" "to_string (timestamp cmd) = ''4''"
    "fst (next_token (snd (next_token cmd))) = ''T''" by auto
  obtain tm' where r: "release_train cmd (sys_trains sy1) = Some (''0'', tm')"
    using s(3) c(1,2) by (auto simp: run_line_def dispatch_def on_trains_def bind_Some_iff)
  have ok: "tables_ok (sys_trains sy1)" using reachable_ok [OF s(1)] seats_invD(1) by (auto simp: system_ok_def)
  have T: "cstr ''T'' = ''T''" by code_simp
  note E = release_train_effect [OF ok r c(3) [symmetric], unfolded T]
  have new: "\<not> (\<forall>tr. table_map (train_database (sys_trains sy1)) ''T'' = Some tr \<longrightarrow> is_released tr)"
  proof
    assume "\<forall>tr. table_map (train_database (sys_trains sy1)) ''T'' = Some tr \<longrightarrow> is_released tr"
    from E [unfolded if_P [OF this]] show False by simp
  qed
  from E [unfolded if_not_P [OF new]] obtain tr where
    tr: "table_map (train_database (sys_trains sy1)) ''T'' = Some tr"
      "table_map (train_database tm') = (table_map (train_database (sys_trains sy1)))(''T'' \<mapsto> tr\<lparr>is_released := True\<rparr>)"
    and st: "if \<exists>j. stop_key ''T'' tr j key
       then \<exists>j st. stop_key ''T'' tr j key \<and> (\<forall>j' > j. \<not> stop_key ''T'' tr j' key) \<and>
         station_row ''T'' tr j st \<and> table_map (station_database tm') key = Some st
       else table_map (station_database tm') key = table_map (station_database (sys_trains sy1)) key" for key
    by blast
  have "\<not> is_released tr" using new tr(1) by auto
  moreover have "\<exists>j st. stop_key ''T'' tr j key \<and> station_row ''T'' tr j st \<and> table_map (station_database tm') key = Some st"
    if "\<exists>j. stop_key ''T'' tr j key" for key
    using st [of key] unfolding if_P [OF that] by blast
  ultimately show ?thesis using s(1) r tr by (intro exI [of _ sy1] exI [of _ cmd] exI [of _ tm'] exI [of _ tr]) auto
qed

end
