(* ===== verification/UtilityTheorems.thy ===== *)
theory UtilityTheorems
  imports TicketEffects
begin

text \<open>
  The properties of the routines below the handlers: the sorting routine with the comparisons of
  the program, the tokenizer, the conversions of numbers and times, the seat loops,
  the prices of a train and the merge of \<^verbatim>\<open>query_ticket\<close>.
\<close>

section \<open>Sorting\<close>

text \<open>
  C34. \<^verbatim>\<open>Sort\<close> ends on every vector for each of the five comparisons of the program, the result is
  a permutation of the input, and no element is smaller than one before it.
\<close>

theorem Sort_correct:
  "(\<exists>b. Sort time_cmp a1 0 (int (length a1) - 1) = Some b \<and> mset b = mset a1 \<and> sorted_wrt (\<lambda>x y. \<not> time_cmp y x) b) \<and>
   (\<exists>b. Sort cost_cmp a1 0 (int (length a1) - 1) = Some b \<and> mset b = mset a1 \<and> sorted_wrt (\<lambda>x y. \<not> cost_cmp y x) b) \<and>
   (\<exists>b. Sort order_cmp a2 0 (int (length a2) - 1) = Some b \<and> mset b = mset a2 \<and> sorted_wrt (\<lambda>x y. \<not> order_cmp y x) b) \<and>
   (\<exists>b. Sort pending_order_cmp a3 0 (int (length a3) - 1) = Some b \<and> mset b = mset a3 \<and>
      sorted_wrt (\<lambda>x y. \<not> pending_order_cmp y x) b) \<and>
   (\<exists>b. Sort station_cmp a4 0 (int (length a4) - 1) = Some b \<and> mset b = mset a4 \<and> sorted_wrt (\<lambda>x y. \<not> station_cmp y x) b)"
  by (intro conjI time_order.Sort_list cost_order.Sort_list order_order.Sort_list pending_order_order.Sort_list
      station_order.Sort_list)

section \<open>Tokens, numbers and times\<close>

text \<open>
  C36. Splitting undoes joining: the tokens of a line made of words separated by the delimiter are
  these words, and \<^verbatim>\<open>cnt\<close> is their number. A word is not empty and contains neither the delimiter
  nor a carriage return.
\<close>

theorem tokens_of_joined_line:
  assumes "\<forall>w \<in> set ws. word_ok d w" "d \<noteq> CR"
  shows "all_tokens (Command_of_string (join d ws) d) = ws \<and> cnt (Command_of_string (join d ws) d) = int (length ws)"
proof
  note J = Command_of_string_join [OF assms(1)]
  show "all_tokens (Command_of_string (join d ws) d) = ws"
    by (rule all_tokens_join [OF assms J(3)]) (simp add: J(1,2))
  have "takeWhile (\<lambda>x. x = d) (join d ws) = []" using assms(1) takeWhile_join(1) [of d "hd ws" "tl ws"] by (cases ws) auto
  then show "cnt (Command_of_string (join d ws) d) = int (length ws)"
    using count_loop_join [OF assms, of 0 "join d ws" 0] by (simp add: Command_of_string_def Command_count_def scan_while_eq)
qed

theorem tokens_of_joined_line_witness:
  "all_tokens (Command_of_string (join CHR '' '' [''-u'', ''root'']) CHR '' '') = [''-u'', ''root''] \<and>
   cnt (Command_of_string (join CHR '' '' [''-u'', ''root'']) CHR '' '') = 2"
  using tokens_of_joined_line [of "[''-u'', ''root'']" "CHR '' ''"] by (simp add: word_ok_def CR_def)

text \<open>
  Reading a number that was printed gives the number, for every non-negative \<^verbatim>\<open>int\<close>.
\<close>

theorem string_to_int_of_to_string:
  assumes "0 \<le> x" "x \<le> MAX_INT"
  shows "string_to_int (to_string x) = x"
  using string_to_int_to_string assms by (simp add: MAX_INT_def)

theorem string_to_int_of_to_string_witness: "string_to_int (to_string MAX_INT) = MAX_INT"
  using string_to_int_of_to_string [of MAX_INT] by (simp add: MAX_INT_def)

text \<open>
  C38. Times: printing a time and reading it back gives the same time for every minute of the 191
  days from June 1st whose print has a two-digit day, and splitting a time into its date and its
  time of day loses nothing.
\<close>

theorem time_print_read:
  assumes "0 \<le> m" "m < 275040"
  shows "TimeType_of_string (transfer m) = Some m \<and> get_date m + get_time m = m \<and> get_date m mod 1440 = 0 \<and>
     0 \<le> get_time m \<and> get_time m < 1440"
  using TimeType_of_transfer [OF assms] get_date_time_split [of m] assms by simp

theorem time_print_read_witness: "TimeType_of_string (transfer 132479) = Some 132479 \<and> get_date 132479 + get_time 132479 = 132479"
  using time_print_read [of 132479] by simp

section \<open>Seats\<close>

text \<open>
  C40. On a row of seats, \<^verbatim>\<open>query_seat\<close> gives the smallest number of free seats between two stops
  (the largest \<^verbatim>\<open>int\<close> when there is no stop between them) and \<^verbatim>\<open>modify_seat\<close> changes exactly these
  stops. Both stay inside the array.
\<close>

theorem seat_loops_correct:
  assumes "0 \<le> l" "r < maxn" "\<forall>i. l \<le> i \<and> i \<le> r \<longrightarrow> seat_num d i = Some (f i) \<and> fits (f i) \<and> fits (f i + v)"
  shows "query_seat l r d = Some (Min (insert MAX_INT (f ` {l..r}))) \<and>
     modify_seat l r v d = Some \<lparr>seat_num = (\<lambda>i. if l \<le> i \<and> i \<le> r then Some (f i + v) else seat_num d i)\<rparr>"
proof
  have some: "\<And>i. l \<le> i \<Longrightarrow> i \<le> r \<Longrightarrow> seat_num d i \<noteq> None" using assms(3) by auto
  have "(\<lambda>i. the (seat_num d i)) ` {l..r} = f ` {l..r}" using assms(3) by (intro image_cong) auto
  then show "query_seat l r d = Some (Min (insert MAX_INT (f ` {l..r})))"
    unfolding query_seat_def using query_loop_eq [OF assms(1,2), of "seat_num d" MAX_INT] some by simp
  have "int32 (f i + v) = f i + v" if "l \<le> i" "i \<le> r" for i
    using assms(3) [rule_format, of i] that by (intro int32_id) (simp_all add: fits_def MAX_INT_def)
  then have "(\<lambda>i. if l \<le> i \<and> i \<le> r then map_option (\<lambda>x. int32 (x + v)) (seat_num d i) else seat_num d i)
      = (\<lambda>i. if l \<le> i \<and> i \<le> r then Some (f i + v) else seat_num d i)"
    using assms(3) by (auto simp: fun_eq_iff)
  then show "modify_seat l r v d = Some \<lparr>seat_num = (\<lambda>i. if l \<le> i \<and> i \<le> r then Some (f i + v) else seat_num d i)\<rparr>"
    unfolding modify_seat_def using modify_loop_eq [OF assms(1,2), of "seat_num d" v] some by (cases d) simp
qed

theorem seat_loops_correct_witness:
  "query_seat 1 2 \<lparr>seat_num = [1 \<mapsto> 7, 2 \<mapsto> 5, 3 \<mapsto> 9]\<rparr> = Some 5 \<and>
   (\<exists>d. modify_seat 1 2 (-3) \<lparr>seat_num = [1 \<mapsto> 7, 2 \<mapsto> 5, 3 \<mapsto> 9]\<rparr> = Some d \<and> seat_num d 1 = Some 4 \<and> seat_num d 3 = Some 9)"
proof -
  have h: "\<forall>i. 1 \<le> i \<and> i \<le> (2::int) \<longrightarrow> seat_num \<lparr>seat_num = [1 \<mapsto> 7, 2 \<mapsto> 5, 3 \<mapsto> 9]\<rparr> i = Some (if i = 1 then 7 else 5) \<and>
      fits (if i = 1 then 7 else 5) \<and> fits ((if i = 1 then 7 else 5) + (- 3))"
    by (auto simp: fits_def MAX_INT_def)
  have "{1..2} = {1, 2 :: int}" by auto
  then show ?thesis
    using seat_loops_correct [of 1 2 "\<lparr>seat_num = [1 \<mapsto> 7, 2 \<mapsto> 5, 3 \<mapsto> 9]\<rparr>" "\<lambda>i. if i = 1 then 7 else 5" "-3"] h
    by (simp add: maxn_def MAX_INT_def)
qed

section \<open>Prices and tickets\<close>

text \<open>
  The constructor of a train adds the prices up: the price at stop \<open>n + 1\<close> is the sum of the
  first \<open>n\<close> prices, as long as the sums fit in an \<^verbatim>\<open>int\<close>.
\<close>

theorem train_prices_are_sums:
  assumes "Train tid snum seats stas (join CHR ''|'' ps) start travel stopover sale ty = Some tr"
    and "\<forall>p \<in> set ps. word_ok CHR ''|'' p" "\<forall>n \<le> length ps. fits (price_total (take n ps))" "n \<le> length ps"
  shows "price_sum tr (1 + int n) = Some (price_total (take n ps))"
proof -
  have "CHR ''|'' \<noteq> CR" by (simp add: CR_def)
  then have "all_tokens (Command_of_string (join CHR ''|'' ps) CHR ''|'') = ps"
    by (intro all_tokens_join [OF assms(2)]) (simp_all add: Command_of_string_join [OF assms(2)])
  then show ?thesis using Train_prices [OF assms(1), of n] assms(3,4) by simp
qed

theorem train_prices_are_sums_witness:
  "\<exists>tr. Train ''T'' 3 10 ''A|B|C'' (join CHR ''|'' [''5'', ''7'']) ''08:00'' ''60|90'' ''5'' ''06-01|06-02'' ''G'' = Some tr \<and>
     price_sum tr (1 + int 2) = Some (price_total (take 2 [''5'', ''7'']))"
proof -
  have "map_option station_num (Train ''T'' 3 10 ''A|B|C'' (join CHR ''|'' [''5'', ''7'']) ''08:00'' ''60|90'' ''5'' ''06-01|06-02'' ''G'')
      = Some 3" by code_simp
  then obtain tr where t: "Train ''T'' 3 10 ''A|B|C'' (join CHR ''|'' [''5'', ''7'']) ''08:00'' ''60|90'' ''5'' ''06-01|06-02'' ''G'' = Some tr"
    by auto
  have v: "string_to_int ''5'' = 5" "string_to_int ''7'' = 7" by code_simp+
  have "\<forall>n \<le> length [''5'', ''7'']. fits (price_total (take n [''5'', ''7'']))"
    by (auto simp: le_Suc_eq fits_def MAX_INT_def v)
  then show ?thesis using train_prices_are_sums [OF t, of 2] t by (simp add: word_ok_def CR_def)
qed

text \<open>
  C35. The merge of \<^verbatim>\<open>query_ticket\<close> over two lists ordered by train finds the same tickets, in the
  same order, as looking at every pair of stops: those of the same train, in this order, whose
  train is on sale on the day it has to start.
\<close>

theorem ticket_merge_is_all_pairs:
  assumes "by_train ss" "by_train ts"
  shows "ticket_merge day ss ts =
     [\<lparr>ticket_s = s, ticket_t = t\<rparr>. s \<leftarrow> ss, t \<leftarrow> ts, st_train_ID s = st_train_ID t \<and> st_index s < st_index t \<and>
        start_sale_time s \<le> time_sub day (get_date (leaving_time s)) \<and>
        time_sub day (get_date (leaving_time s)) \<le> end_sale_time s]"
proof -
  have "map (\<lambda>t. \<lparr>ticket_s = s, ticket_t = t\<rparr>) (filter (serves day s) ts)
      = concat (map (\<lambda>t. if serves day s t then [\<lparr>ticket_s = s, ticket_t = t\<rparr>] else []) ts)" for s
    by (induction ts) auto
  then show ?thesis unfolding ticket_merge_eq [OF assms] all_tickets_def serves_def by simp
qed

theorem ticket_merge_is_all_pairs_witness:
  "\<exists>s t. by_train [s] \<and> by_train [t] \<and> ticket_merge 0 [s] [t] = [\<lparr>ticket_s = s, ticket_t = t\<rparr>]"
proof -
  define s where "s = \<lparr>st_train_ID = ''T'', station_name = ''A'', start_sale_time = 0, end_sale_time = 1440, arriving_time = 0,
    leaving_time = 480, st_price_sum = 0, st_index = 1\<rparr>"
  define t where "t = s\<lparr>station_name := ''B'', st_index := 2\<rparr>"
  have "by_train [s]" "by_train [t]" by (simp_all add: by_train_def)
  moreover have "time_sub 0 (get_date 480) = 0" by code_simp
  ultimately show ?thesis
    using ticket_merge_is_all_pairs [of "[s]" "[t]" 0] by (intro exI [of _ s] exI [of _ t]) (simp add: s_def t_def)
qed

end
