(* ===== verification/Spec2Isabelle.thy ===== *)
theory Spec2Isabelle
  imports IndexTheorems TSTheorems EngineTheorems RedBlackTheorems RWLatch TaskPool BackendTheorems Releases UtilityTheorems
begin

text \<open>
  \<^bold>\<open>The ticket system.\<close> A railway ticket service (\<^verbatim>\<open>backend/\<close>) reads one command per line, keeps users,
  trains, seats and orders in five indexes, and prints one reply per command. Every index is a B+
  tree in a file of its own, reached through a buffer pool with an LRU replacer (\<^verbatim>\<open>database/\<close>). The
  containers are the authors' own.

  \<^bold>\<open>From the file to the tree.\<close>
  \<^item> \<open>Storage\<close> is \<^verbatim>\<open>DiskManager\<close> and \<^verbatim>\<open>Page\<close>: the file as a list of bytes, frames of \<^verbatim>\<open>PAGE_SIZE\<close> bytes.
  \<^item> \<open>LinkedHashmap\<close> is \<^verbatim>\<open>linked_hashmap.hpp\<close> with its pointers: a memory with one function per field of
    a node, dead pointers without a result. \<open>LinkedHashmapRep\<close> has the representation invariant,
    \<open>LinkedHashmapOps\<close> the effect of every pointer operation, \<open>HashmapRefinement\<close> the refinement to an
    association list in insertion order.
  \<^item> \<open>EngineVector\<close> is \<^verbatim>\<open>container/vector.hpp\<close> with raw cells and numbered blocks, refined to lists.
  \<^item> \<open>Replacer\<close> is the abstract class \<^verbatim>\<open>Replacer\<close> as a record of its virtual functions, and \<^verbatim>\<open>LRUReplacer\<close>
    on the hash map.
  \<^item> \<open>BufferPool\<close> is \<^verbatim>\<open>buffer_pool_manager.cpp\<close> on these models. \<open>BufferPoolInv\<close> has the invariant (frames
    are free or hold one page; the replacer holds the unpinned ones; clean pages are those of the
    file), \<open>BufferPoolOps\<close> the operations on a pool that satisfies it, \<open>BufferPoolRefinement\<close> the
    refinement to a store of pages, \<open>PoolFrames\<close> the size of the frames.
  \<^item> \<open>TreePages\<close> and \<open>HeaderPage\<close> are the pages of the tree (\<^verbatim>\<open>storage/page/*.cpp\<close>), \<open>BPlusTree\<close> is
    \<^verbatim>\<open>b_plus_tree_nts.cpp\<close> over the store of pages that the pool promises. \<open>TreeShape\<close>, \<open>TreeInv\<close>,
    \<open>TreeSearch\<close>, \<open>TreeInsert\<close>, \<open>TreeRebalance\<close>, \<open>TreeRemove\<close> and \<open>TreeDelete\<close> prove that search, scan,
    insertion and removal succeed, keep order, balance, fill and the chain of leaves, and leave
    every page unpinned. \<open>TreeIterator\<close> is \<^verbatim>\<open>index_iterator.cpp\<close> with \<^verbatim>\<open>begin\<close>, \<^verbatim>\<open>Begin\<close> and \<^verbatim>\<open>end\<close> of the tree:
    an iteration meets the entries in order and holds one pin while it lasts.
  \<^item> \<open>KeyTypes\<close> has the key types and comparators of \<^verbatim>\<open>type/*.h\<close>, \<open>OrderedList\<close> the ordered association
    lists, \<open>IndexNTS\<close> is \<^verbatim>\<open>b_plus_tree_index_nts.cpp\<close>; its abstract index \<open>table\<close> is what the handlers use.

  \<^bold>\<open>The thread-safe tree\<close>, which the service does not use, has the pages and the moves of the other one.
  \<^item> \<open>TSTree\<close> is \<^verbatim>\<open>b_plus_tree_ts.cpp\<close> and \<^verbatim>\<open>b_plus_tree_index_ts.cpp\<close>: an operation is the run of one
    thread, whose state also has its calls on latches and the page sets of its \<^verbatim>\<open>Transaction\<close>.
  \<^item> \<open>TSLatches\<close> replays the calls and follows \<^verbatim>\<open>CrabToLeaf\<close>: the latches held at the leaf are those of the
    pages held. \<open>TSSearch\<close> has lookups and scans. \<open>TSFrames\<close> says which pages the steps of an update leave
    alone, \<open>TSInsert\<close> relates the climb of an insertion to that of the other tree, \<open>TSInsertOps\<close> and
    \<open>TSInsertEnd\<close> prove the insertions.
  \<^item> \<open>TSDelete\<close> relates one round of a removal (joining two pages, moving an entry, taking the root away) to
    that of the other tree, \<open>TSDeleteClimb\<close> the whole climb, by the induction that \<open>TreeDelete\<close> proves for it,
    \<open>TSDeleteEnd\<close> proves the removals. The rows are right in every case; the latches come out even as long
    as the root page stays, because \<^verbatim>\<open>AdjustRoot\<close> gives the root latch back and the end of the removal
    gives it back again.
  \<^item> \<open>TSIndex\<close> has the constructors and the destructor and interprets \<open>ordered_index\<close> on the entry operations,
    \<open>TSTheorems\<close> states the properties.

  \<^bold>\<open>The service.\<close>
  \<^item> \<open>LibraryTime\<close> is \<^verbatim>\<open>Library.h\<close> (times, numbers), \<open>CommandLine\<close> is \<^verbatim>\<open>Command.cpp\<close>, \<open>QuickSort\<close> is \<^verbatim>\<open>Sort\<close> of
    \<^verbatim>\<open>Management.cpp\<close>, \<open>TrainSystem\<close> has the data of \<^verbatim>\<open>TrainSystem.cpp\<close> and \<^verbatim>\<open>Account.cpp\<close>.
  \<^item> \<open>Accounts\<close>, \<open>Trains\<close>, \<open>TicketQueries\<close> and \<open>Tickets\<close> are the handlers of \<^verbatim>\<open>Management.cpp\<close>, one
    definition per command with its option loop, its checks and its reply.
  \<^item> \<open>SeatInv\<close> and \<open>SeatSafety\<close> have the invariant of seats, orders and waiting queue and that every
    command keeps it; \<open>TicketEffects\<close> says what purchases, refunds and queries do; \<open>SystemMain\<close> is
    \<^verbatim>\<open>main.cpp\<close> with the reachable states; \<open>SampleRun\<close> evaluates a run of ten lines.

  \<^bold>\<open>The login pool.\<close> The handlers keep the users that are logged in in a \<^verbatim>\<open>sjtu::map\<close>; the model of the
  handlers uses the finite map that it promises.
  \<^item> \<open>RedBlackMap\<close> is \<^verbatim>\<open>map.hpp\<close> with its pointers: rotations, insertion and removal in one pass from the
    root, copies, the public operations and the iterators. \<open>RedBlackRep\<close> relates the pointers to trees
    with a hole and proves the rotations, \<open>RedBlackInsert\<close> the insertion, \<open>RedBlackRemove\<close> the repainting on
    the way down, \<open>RedBlackSwap\<close> the exchange with the successor, \<open>RedBlackDelete\<close> the removal.
  \<^item> \<open>RedBlackOps\<close>, \<open>RedBlackCopy\<close> and \<open>RedBlackIter\<close> are search and the public operations, copies and clearing,
    and the iterators; \<open>RedBlackRefinement\<close> is the contract, a list in the order of the keys.

  \<^bold>\<open>Threads.\<close> \<open>RWLatch\<close> is \<^verbatim>\<open>rwlatch.h\<close> and \<open>TaskPool\<close> is \<^verbatim>\<open>thread_pool.cpp\<close>: step relations whose states have
  the program counter of every thread, with invariants by rule induction.

  \<^bold>\<open>Interfaces.\<close> A locale is the contract between two parts and is interpreted on the models:
  \<open>key_comparator\<close> (comparators), \<open>ordered_index\<close> (an index as the handlers see it), the order
  locales of \<open>QuickSort\<close>, \<open>data_refinement\<close> (operations that succeed and act like those of an abstract
  value) with its extensions \<open>ordered_map\<close>, \<open>sequence\<close> and \<open>sorted_container\<close>, \<open>replacer\<close>, \<open>buffer_pool\<close>
  and \<open>forward_iterator\<close> (an iterator that holds a resource).

  \<^bold>\<open>Properties.\<close> \<open>IndexTheorems\<close>: trees, pages and indexes. \<open>TSTheorems\<close>: the thread-safe tree and its index. \<open>EngineTheorems\<close>: buffer pool, replacer,
  containers and file. \<open>RedBlackTheorems\<close>: the map of the login pool. \<open>BackendTheorems\<close>: the commands and the safety of all reachable states.
  \<open>UtilityTheorems\<close>: sorting, parsing, times, seats, prices.

  \<^bold>\<open>Conventions.\<close> An operation of a model returns \<open>None\<close> where the code would follow a dead or null
  pointer, read raw memory or a slot that is not live, overflow a \<^verbatim>\<open>char\<close> array, leave through an
  exception that nobody catches, or run forever; errors that the code handles are values of sum
  types. Loops without a structural argument are \<open>partial_function (option)\<close>, and the lemmas prove
  that they return; there is no fuel. Sizes and counters are natural numbers or integers; the
  32-bit width is explicit where the code depends on it (numbers read from the input, the offset
  of \<^verbatim>\<open>ReadPage\<close>, which is an \<^verbatim>\<open>int\<close> and limits a file to 65536 pages). The hash functions are parameters.

  \<^bold>\<open>Not modelled.\<close> The interleaving of several operations on the thread-safe tree: a run is that of one
  thread, and \<open>RWLatch\<close> is what its latches promise. Its \<^verbatim>\<open>begin\<close> and
  \<^verbatim>\<open>Begin\<close>, which fail on a null transaction. A call of the buffer pool runs alone.
  \<^verbatim>\<open>integer.h\<close>, used by the benchmark only. \<^verbatim>\<open>InnodbReplacer\<close>, which does not compile. The
  \<^verbatim>\<open>vector.hpp\<close> of the back end, whose vectors are lists in the model of the handlers, and \<^verbatim>\<open>FileStorage.h\<close> and \<^verbatim>\<open>ull.h\<close>, storage of an earlier version. The bytes of a tree page: the tree works
  on records, the pool on bytes. Debugging printers and stream operators.
\<close>

end
